(* ===== verification/Prelude.thy ===== *)
theory Prelude
  imports Main "HOL-Library.Word"
begin

text \<open>
  Shared vocabulary of the development: the result type of fallible code, the combinators that
  stand for Rust's \<open>?\<close> operator and for loops that may fail, checked indexing, byte strings
  with little-endian integers, and the list lemmas the component theories share.

  A Rust \<open>Result<T, anyhow::Error>\<close> is a value of type \<open>'a res\<close>: \<open>Inr x\<close> is \<open>Ok(x)\<close>,
  \<open>Inl (Fail m)\<close> is \<open>Err(anyhow!(m))\<close> and \<open>Inl (Panic m)\<close> is a panic (a failed assertion,
  an index out of bounds, a failed \<open>unwrap\<close>) and \<open>Inl Diverges\<close> is a computation that does not
  return. All three keep what follows from running, so they share the left injection, but no
  theorem confuses them.
\<close>

datatype error = Fail string | Panic string | Diverges

type_synonym 'a res = "error + 'a"

named_theorems res_simps \<open>unfolding rules of the result combinators\<close>
named_theorems codec_rt \<open>decode-after-encode equations\<close>

subsection \<open>Sequencing\<close>

definition and_then :: "'a res \<Rightarrow> ('a \<Rightarrow> 'b res) \<Rightarrow> 'b res" where
  "and_then m f = (case m of Inl e \<Rightarrow> Inl e | Inr x \<Rightarrow> f x)"

lemma and_then_simps [simp, res_simps]:
  "and_then (Inl e) f = Inl e"
  "and_then (Inr x) f = f x"
  by (simp_all add: and_then_def)

lemma and_then_Inr_iff: "and_then m f = Inr y \<longleftrightarrow> (\<exists>x. m = Inr x \<and> f x = Inr y)"
  by (cases m) auto

lemma and_then_Inl_iff:
  "and_then m f = Inl e \<longleftrightarrow> m = Inl e \<or> (\<exists>x. m = Inr x \<and> f x = Inl e)"
  by (cases m) auto

lemma and_thenE [elim!]:
  assumes "and_then m f = Inr y"
  obtains x where "m = Inr x" "f x = Inr y"
  using assms by (auto simp: and_then_Inr_iff)

lemma and_then_assoc: "and_then (and_then m f) g = and_then m (\<lambda>x. and_then (f x) g)"
  by (cases m) auto

lemma and_then_cong [fundef_cong]:
  assumes "m = m'" and "\<And>x. m' = Inr x \<Longrightarrow> f x = f' x"
  shows "and_then m f = and_then m' f'"
  using assms by (cases m') auto

text \<open>A guard: \<open>if !cond { return Err(e) }\<close>, or \<open>assert!(cond)\<close> when \<open>e\<close> is a panic.\<close>

definition ensure :: "bool \<Rightarrow> error \<Rightarrow> unit res" where
  "ensure b e = (if b then Inr () else Inl e)"

lemma ensure_simps [simp, res_simps]:
  "ensure True e = Inr ()"
  "ensure False e = Inl e"
  by (simp_all add: ensure_def)

lemma ensure_Inr_iff [simp]: "ensure b e = Inr u \<longleftrightarrow> b"
  by (simp add: ensure_def)

definition is_ok :: "'a res \<Rightarrow> bool" where
  "is_ok m \<longleftrightarrow> (case m of Inl _ \<Rightarrow> False | Inr _ \<Rightarrow> True)"

lemma is_ok_simps [simp]: "is_ok (Inr x)" "\<not> is_ok (Inl e)"
  by (simp_all add: is_ok_def)

lemma is_ok_iff: "is_ok m \<longleftrightarrow> (\<exists>x. m = Inr x)"
  by (cases m) auto

definition opt_res :: "error \<Rightarrow> 'a option \<Rightarrow> 'a res" where
  "opt_res e x = (case x of None \<Rightarrow> Inl e | Some y \<Rightarrow> Inr y)"

lemma opt_res_simps [simp, res_simps]:
  "opt_res e None = Inl e"
  "opt_res e (Some y) = Inr y"
  by (simp_all add: opt_res_def)

lemma opt_res_Inr_iff [simp]: "opt_res e x = Inr y \<longleftrightarrow> x = Some y"
  by (cases x) auto

subsection \<open>Loops that may fail\<close>

text \<open>\<open>for x in xs { s = body(x, s)?; }\<close>\<close>

fun fold_res :: "('x \<Rightarrow> 's \<Rightarrow> 's res) \<Rightarrow> 'x list \<Rightarrow> 's \<Rightarrow> 's res" where
  "fold_res f [] s = Inr s"
| "fold_res f (x # xs) s = and_then (f x s) (fold_res f xs)"

text \<open>\<open>xs.iter().map(f).collect::<Result<Vec<_>, _>>()\<close>\<close>

fun map_res :: "('x \<Rightarrow> 'y res) \<Rightarrow> 'x list \<Rightarrow> 'y list res" where
  "map_res f [] = Inr []"
| "map_res f (x # xs) = and_then (f x) (\<lambda>y. and_then (map_res f xs) (\<lambda>ys. Inr (y # ys)))"

lemma fold_res_append:
  "fold_res f (xs @ ys) s = and_then (fold_res f xs s) (fold_res f ys)"
  proof (induction xs arbitrary: s)
  case (Cons x xs)
  have "fold_res f (xs @ ys) = (\<lambda>s. and_then (fold_res f xs s) (fold_res f ys))"
    by (rule ext) (rule Cons.IH)
  then show ?case by (simp add: and_then_assoc)
qed simp

lemma fold_res_invariant:
  assumes "fold_res f xs s = Inr t" and "P s"
    and "\<And>x s s'. x \<in> set xs \<Longrightarrow> P s \<Longrightarrow> f x s = Inr s' \<Longrightarrow> P s'"
  shows "P t"
  using assms
proof (induction xs arbitrary: s)
  case (Cons x xs)
  from Cons.prems(1) obtain s' where "f x s = Inr s'" "fold_res f xs s' = Inr t"
    by auto
  with Cons show ?case by (metis list.set_intros)
qed simp

lemma fold_res_Inr_fold:
  assumes "\<And>x s. x \<in> set xs \<Longrightarrow> f x s = Inr (g x s)"
  shows "fold_res f xs s = Inr (fold g xs s)"
  using assms by (induction xs arbitrary: s) auto

lemma map_res_Inr_map:
  assumes "\<And>x. x \<in> set xs \<Longrightarrow> f x = Inr (g x)"
  shows "map_res f xs = Inr (map g xs)"
  using assms by (induction xs) auto

lemma map_res_Inr_iff:
  "map_res f xs = Inr ys \<longleftrightarrow>
     length ys = length xs \<and> (\<forall>i < length xs. f (xs ! i) = Inr (ys ! i))"
proof (induction xs arbitrary: ys)
  case (Cons x xs)
  show ?case
    by (cases ys) (auto simp: and_then_Inr_iff Cons.IH nth_Cons less_Suc_eq_0_disj
        split: nat.splits)
qed auto

lemma map_res_length: "map_res f xs = Inr ys \<Longrightarrow> length ys = length xs"
  by (simp add: map_res_Inr_iff)

subsection \<open>Checked indexing\<close>

definition oob :: error where
  "oob = Panic ''index out of bounds''"

definition nth_res :: "'a list \<Rightarrow> nat \<Rightarrow> 'a res" where
  "nth_res xs i = (if i < length xs then Inr (xs ! i) else Inl oob)"

definition upd_res :: "'a list \<Rightarrow> nat \<Rightarrow> 'a \<Rightarrow> 'a list res" where
  "upd_res xs i x = (if i < length xs then Inr (xs[i := x]) else Inl oob)"

lemma nth_res_ok [simp]: "i < length xs \<Longrightarrow> nth_res xs i = Inr (xs ! i)"
  by (simp add: nth_res_def)

lemma nth_res_Inr_iff: "nth_res xs i = Inr x \<longleftrightarrow> i < length xs \<and> xs ! i = x"
  by (auto simp: nth_res_def)

lemma upd_res_ok [simp]: "i < length xs \<Longrightarrow> upd_res xs i x = Inr (xs[i := x])"
  by (simp add: upd_res_def)

lemma upd_res_Inr_iff: "upd_res xs i x = Inr ys \<longleftrightarrow> i < length xs \<and> ys = xs[i := x]"
  by (auto simp: upd_res_def)

definition nth_opt :: "'a list \<Rightarrow> nat \<Rightarrow> 'a option" where
  "nth_opt xs i = (if i < length xs then Some (xs ! i) else None)"

lemma nth_opt_Some_iff [simp]: "nth_opt xs i = Some x \<longleftrightarrow> i < length xs \<and> xs ! i = x"
  by (auto simp: nth_opt_def)

subsection \<open>Bytes and little-endian integers\<close>

type_synonym byte = "8 word"
type_synonym bytes = "8 word list"
type_synonym u32 = "32 word"
type_synonym u64 = "64 word"
type_synonym u128 = "128 word"

fun le_bytes :: "nat \<Rightarrow> nat \<Rightarrow> bytes" where
  "le_bytes 0 v = []"
| "le_bytes (Suc n) v = word_of_nat v # le_bytes n (v div 256)"

fun le_value :: "bytes \<Rightarrow> nat" where
  "le_value [] = 0"
| "le_value (b # bs) = unat b + 256 * le_value bs"

lemma length_le_bytes [simp]: "length (le_bytes n v) = n"
  by (induction n v rule: le_bytes.induct) auto

lemma unat_byte_of_nat: "unat (word_of_nat v :: byte) = v mod 256"
  by (simp add: unat_of_nat)

lemma le_value_le_bytes: "le_value (le_bytes n v) = v mod 256 ^ n"
proof (induction n v rule: le_bytes.induct)
  case (2 n v)
  have "v mod 256 ^ Suc n = v mod 256 + 256 * (v div 256 mod 256 ^ n)"
    by (simp add: mod_mult2_eq)
  with 2 show ?case by (simp add: unat_byte_of_nat)
qed simp

lemma le_value_le_bytes_small [simp]: "v < 256 ^ n \<Longrightarrow> le_value (le_bytes n v) = v"
  by (simp add: le_value_le_bytes)

lemma le_value_bound: "le_value bs < 256 ^ length bs"
proof (induction bs)
  case (Cons b bs)
  have "unat b < 256" using unsigned_less [of b] by simp
  with Cons show ?case by simp
qed simp

lemma le_bytes_le_value: "le_bytes (length bs) (le_value bs) = bs"
proof (induction bs)
  case (Cons b bs)
  have "unat b < 256" using unsigned_less [of b] by simp
  moreover have "(256 :: byte) = 0" by simp
  then have "word_of_nat (unat b + 256 * le_value bs) = b"
    by (simp only: of_nat_add of_nat_mult of_nat_numeral of_nat_unat) simp
  ultimately show ?case using Cons by simp
qed simp

subsection \<open>Lists\<close>

text \<open>\<open>replicate\<close> with one cell written, and folds that only append.\<close>

lemma fold_append_eq: "fold (\<lambda>x acc. acc @ f x) xs acc = acc @ concat (map f xs)"
  by (induction xs arbitrary: acc) auto

lemma sum_list_map_add:
  "sum_list (map (\<lambda>x. f x + g x) xs) = sum_list (map f xs) + sum_list (map g xs :: 'a :: comm_monoid_add list)"
  by (induction xs) (auto simp: algebra_simps)

lemma sum_list_map_mult_left:
  "sum_list (map (\<lambda>x. c * f x) xs) = (c :: 'a :: semiring_0) * sum_list (map f xs)"
  by (induction xs) (auto simp: algebra_simps)

subsection \<open>Arithmetic on \<open>usize\<close>\<close>

text \<open>
  A \<open>usize\<close> is a natural number. Subtraction wraps around at 64 bits, as in a release build; sums
  and products of lengths stay far below that bound. \<open>div_ceil\<close> is the method of that name.
\<close>

definition div_ceil :: "nat \<Rightarrow> nat \<Rightarrow> nat" where
  "div_ceil a b = (a + b - 1) div b"

definition usize_sub :: "nat \<Rightarrow> nat \<Rightarrow> nat" where
  "usize_sub a b = (a + 2 ^ 64 - b) mod 2 ^ 64"

lemma usize_sub_eq [simp]: "b \<le> a \<Longrightarrow> a < 2 ^ 64 \<Longrightarrow> usize_sub a b = a - b"
proof -
  assume "b \<le> a" "a < 2 ^ 64"
  then have "a + 2 ^ 64 - b = (a - b) + 2 ^ 64" "a - b < 2 ^ 64" by simp_all
  then show ?thesis unfolding usize_sub_def by (metis mod_add_self2 mod_less)
qed

text \<open>\<open>n.next_power_of_two().ilog2()\<close>\<close>

function ceil_log2 :: "nat \<Rightarrow> nat" where
  "ceil_log2 n = (if n \<le> 1 then 0 else Suc (ceil_log2 ((n + 1) div 2)))"
  by pat_completeness auto
termination by (relation "measure id") auto

declare ceil_log2.simps [simp del]

lemma ceil_log2_upper: "n \<le> 2 ^ ceil_log2 n"
proof (induction n rule: ceil_log2.induct)
  case (1 n)
  then show ?case by (subst ceil_log2.simps) auto
qed

lemma ceil_log2_least: "n \<le> 2 ^ k \<Longrightarrow> ceil_log2 n \<le> k"
proof (induction n arbitrary: k rule: ceil_log2.induct)
  case (1 n)
  show ?case
  proof (cases "n \<le> 1")
    case False
    with 1(2) obtain j where k: "k = Suc j" by (cases k) auto
    with 1(2) have "(n + 1) div 2 \<le> 2 ^ j" by simp
    with 1(1) [OF False] False k show ?thesis by (subst ceil_log2.simps) simp
  qed (simp add: ceil_log2.simps)
qed

end
