(* ===== verification/Codec.thy ===== *)
theory Codec
  imports Prelude
begin

text \<open>
  The serialisation layer of \<open>src/src/lib.rs\<close>: the three-byte \<open>Size\<close>, its delta form, the
  fixed-width integers, digests, and the array combinators of the \<open>Codec\<close> trait.

  A decoder takes the unread bytes of the cursor and returns the value and what is left of them.
  An encoder returns the bytes it appends to the writer. \<open>byteorder\<close>'s \<open>read_u24\<close>,
  \<open>read_u32\<close>, \<open>write_u24\<close>, ... are little-endian integer reads and writes of the given
  width, failing when the input is too short.

  The contract of the \<open>Codec\<close> trait is the locale \<open>codec\<close>: what was encoded decodes to the
  same value and leaves the bytes that follow it untouched, and a decoder only consumes a prefix.
  The array combinators inherit the contract once and for all inside the locale, and it is
  interpreted on every codec of the program.
\<close>

unbundle bit_operations_syntax

type_synonym 'a dec = "bytes \<Rightarrow> ('a \<times> bytes) res"
type_synonym 'a enc = "'a \<Rightarrow> bytes res"

text \<open>A \<open>Size\<close> is a newtype around \<open>u32\<close>.\<close>

type_synonym size = u32

definition read_le :: "nat \<Rightarrow> nat dec" where
  "read_le n bs =
     (if length bs < n then Inl (Fail ''failed to read'')
      else Inr (le_value (take n bs), drop n bs))"

subsection \<open>Integers\<close>

definition u8_decode :: "byte dec" where
  "u8_decode bs = and_then (read_le 1 bs) (\<lambda>(v, r). Inr (word_of_nat v, r))"

definition u8_encode :: "byte enc" where
  "u8_encode v = Inr (le_bytes 1 (unat v))"

definition u16_decode :: "16 word dec" where
  "u16_decode bs = and_then (read_le 2 bs) (\<lambda>(v, r). Inr (word_of_nat v, r))"

definition u16_encode :: "16 word enc" where
  "u16_encode v = Inr (le_bytes 2 (unat v))"

definition u32_decode :: "u32 dec" where
  "u32_decode bs = and_then (read_le 4 bs) (\<lambda>(v, r). Inr (word_of_nat v, r))"

definition u32_encode :: "u32 enc" where
  "u32_encode v = Inr (le_bytes 4 (unat v))"

subsection \<open>Size\<close>

definition size_of_usize :: "nat \<Rightarrow> size res" where
  "size_of_usize n =
     (if n < 2 ^ 32 then Inr (word_of_nat n) else Inl (Fail ''usize too big for u32''))"

definition size_decode :: "size dec" where
  "size_decode bs = and_then (read_le 3 bs) (\<lambda>(v, r). Inr (word_of_nat v, r))"

definition size_encode :: "size enc" where
  "size_encode s =
     (if unat s \<ge> 2 ^ 24 then Inl (Fail ''size too big to be serialized in 3 bytes'')
      else Inr (le_bytes 3 (unat s)))"

definition checked_double :: "u32 \<Rightarrow> u32 res" where
  "checked_double d =
     (if unat d * 2 < 2 ^ 32 then Inr (d * 2) else Inl (Fail ''shift would overflow''))"

definition size_encode_delta :: "size \<Rightarrow> size \<Rightarrow> bytes res" where
  "size_encode_delta self previous =
     and_then
       (if self \<ge> previous then checked_double (self - previous)
        else and_then (checked_double (previous - self)) (\<lambda>d. Inr (d OR 1)))
       size_encode"

text \<open>
  The release build has no overflow checks, so \<open>previous.0 - delta\<close> and
  \<open>previous.0 + delta\<close> wrap around, as \<open>-\<close> and \<open>+\<close> on words do.
\<close>

definition size_decode_delta :: "size \<Rightarrow> size dec" where
  "size_decode_delta previous bs =
     and_then (size_decode bs) (\<lambda>(encoded_delta, r).
       let sign = encoded_delta AND 1;
           delta = drop_bit 1 encoded_delta
       in Inr (if sign = 1 then previous - delta else previous + delta, r))"

subsection \<open>Arrays\<close>

fun decode_fixed_array :: "'a dec \<Rightarrow> nat \<Rightarrow> 'a list dec" where
  "decode_fixed_array dec 0 bs = Inr ([], bs)"
| "decode_fixed_array dec (Suc n) bs =
     and_then (dec bs) (\<lambda>(x, r).
       and_then (decode_fixed_array dec n r) (\<lambda>(xs, r'). Inr (x # xs, r')))"

definition decode_array :: "'a dec \<Rightarrow> 'a list dec" where
  "decode_array dec bs =
     and_then (size_decode bs) (\<lambda>(n, r). decode_fixed_array dec (unat n) r)"

fun encode_fixed_array :: "'a enc \<Rightarrow> 'a list enc" where
  "encode_fixed_array enc [] = Inr []"
| "encode_fixed_array enc (x # xs) =
     and_then (enc x) (\<lambda>b. and_then (encode_fixed_array enc xs) (\<lambda>bs. Inr (b @ bs)))"

definition encode_array :: "'a enc \<Rightarrow> 'a list enc" where
  "encode_array enc items =
     and_then
       (if length items < 2 ^ 32 then Inr (word_of_nat (length items))
        else Inl (Fail ''vector length too big for u32''))
       (\<lambda>n. and_then (size_encode n) (\<lambda>b.
          and_then (encode_fixed_array enc items) (\<lambda>bs. Inr (b @ bs))))"

text \<open>\<open>get_decoded\<close>: no byte may be left over.\<close>

definition get_decoded :: "'a dec \<Rightarrow> bytes \<Rightarrow> 'a res" where
  "get_decoded dec bs =
     and_then (dec bs) (\<lambda>(x, r).
       if r \<noteq> [] then Inl (Fail ''bytes left over in buffer after decoding'') else Inr x)"

subsection \<open>SHA-256 digests\<close>

type_synonym digest = bytes

definition digest_decode :: "digest dec" where
  "digest_decode = decode_fixed_array u8_decode 32"

definition digest_encode :: "digest enc" where
  "digest_encode = encode_fixed_array u8_encode"

subsection \<open>The contract of the trait\<close>

locale codec =
  fixes enc :: "'a enc" and dec :: "'a dec" and wf :: "'a \<Rightarrow> bool"
  assumes roundtrip: "wf x \<Longrightarrow> enc x = Inr bs \<Longrightarrow> dec (bs @ rest) = Inr (x, rest)"
    and consume: "dec bs = Inr (x, rest) \<Longrightarrow> \<exists>p. bs = p @ rest"
begin

lemma fixed_array_roundtrip:
  assumes "list_all wf xs" "encode_fixed_array enc xs = Inr bs"
  shows "decode_fixed_array dec (length xs) (bs @ rest) = Inr (xs, rest)"
  using assms by (induction xs arbitrary: bs) (auto simp: roundtrip)

lemma fixed_array_consume:
  "decode_fixed_array dec n bs = Inr (xs, rest) \<Longrightarrow> \<exists>p. bs = p @ rest"
proof (induction n arbitrary: bs xs)
  case (Suc n)
  then obtain x r ys where 1: "dec bs = Inr (x, r)"
    and 2: "decode_fixed_array dec n r = Inr (ys, rest)" by auto
  from consume [OF 1] Suc.IH [OF 2] show ?case by auto
qed auto

lemma fixed_array_length:
  "decode_fixed_array dec n bs = Inr (xs, rest) \<Longrightarrow> length xs = n"
  by (induction n arbitrary: bs xs) auto

lemma get_decoded_encoded:
  assumes "wf x" "enc x = Inr bs"
  shows "get_decoded dec bs = Inr x"
  using roundtrip [OF assms, of "[]"] by (simp add: get_decoded_def)

text \<open>An encoding is uniquely readable: no encoding is a prefix of another value's encoding.\<close>

lemma encoding_prefix_free:
  assumes "wf x" "wf y" "enc x = Inr bs" "enc y = Inr cs" "bs @ r = cs @ s"
  shows "x = y \<and> r = s"
  using roundtrip [OF assms(1,3), of r] roundtrip [OF assms(2,4), of s] assms(5) by simp

end

text \<open>A codec whose encoder never fails and writes a fixed number of bytes.\<close>

locale fixed_codec = codec +
  fixes width :: nat
  assumes total: "wf x \<Longrightarrow> \<exists>bs. enc x = Inr bs \<and> length bs = width"
begin

lemma fixed_array_total:
  "list_all wf xs \<Longrightarrow> \<exists>bs. encode_fixed_array enc xs = Inr bs \<and> length bs = width * length xs"
proof (induction xs)
  case (Cons x xs)
  with total [of x] show ?case by fastforce
qed simp

end

subsection \<open>The program's integers and sizes satisfy it\<close>

lemma read_le_append [simp]:
  "length p = n \<Longrightarrow> read_le n (p @ rest) = Inr (le_value p, rest)"
  by (simp add: read_le_def)

lemma read_le_consume: "read_le n bs = Inr (v, rest) \<Longrightarrow> \<exists>p. bs = p @ rest \<and> length p = n"
  by (auto simp: read_le_def split: if_splits intro: exI [of _ "take n bs"])

lemma unat_bound: "unat (w :: 'a :: len word) < 2 ^ LENGTH('a)"
  by (rule unsigned_less)

interpretation u8: fixed_codec u8_encode u8_decode "\<lambda>_. True" 1
proof
  show "u8_encode x = Inr bs \<Longrightarrow> u8_decode (bs @ rest) = Inr (x, rest)" for x bs rest
    using unat_bound [of x] by (auto simp: u8_encode_def u8_decode_def read_le_def)
  show "u8_decode bs = Inr (x, rest) \<Longrightarrow> \<exists>p. bs = p @ rest" for x bs rest
    by (auto simp: u8_decode_def dest!: read_le_consume)
qed (simp add: u8_encode_def)

interpretation u16: fixed_codec u16_encode u16_decode "\<lambda>_. True" 2
proof
  show "u16_encode x = Inr bs \<Longrightarrow> u16_decode (bs @ rest) = Inr (x, rest)" for x bs rest
    using unat_bound [of x] by (auto simp: u16_encode_def u16_decode_def)
  show "u16_decode bs = Inr (x, rest) \<Longrightarrow> \<exists>p. bs = p @ rest" for x bs rest
    by (auto simp: u16_decode_def dest!: read_le_consume)
qed (simp add: u16_encode_def)

interpretation u32: fixed_codec u32_encode u32_decode "\<lambda>_. True" 4
proof
  show "u32_encode x = Inr bs \<Longrightarrow> u32_decode (bs @ rest) = Inr (x, rest)" for x bs rest
    using unat_bound [of x] by (auto simp: u32_encode_def u32_decode_def)
  show "u32_decode bs = Inr (x, rest) \<Longrightarrow> \<exists>p. bs = p @ rest" for x bs rest
    by (auto simp: u32_decode_def dest!: read_le_consume)
qed (simp add: u32_encode_def)

lemma size_decode_consume: "size_decode bs = Inr (x, rest) \<Longrightarrow> \<exists>p. bs = p @ rest"
  by (auto simp: size_decode_def dest!: read_le_consume)

interpretation size: codec size_encode size_decode "\<lambda>_. True"
proof
  show "size_encode x = Inr bs \<Longrightarrow> size_decode (bs @ rest) = Inr (x, rest)" for x bs rest
    by (auto simp: size_encode_def size_decode_def split: if_splits)
qed (rule size_decode_consume)

lemma size_encode_Inr_iff: "size_encode s = Inr bs \<longleftrightarrow> unat s < 2 ^ 24 \<and> bs = le_bytes 3 (unat s)"
  by (auto simp: size_encode_def)

lemma size_of_usize_Inr_iff:
  "size_of_usize n = Inr s \<longleftrightarrow> n < 2 ^ 32 \<and> s = word_of_nat n"
  by (auto simp: size_of_usize_def)

lemma size_decode_bound: "size_decode bs = Inr (s, rest) \<Longrightarrow> unat s < 2 ^ 24"
proof -
  assume "size_decode bs = Inr (s, rest)"
  then obtain v where v: "read_le 3 bs = Inr (v, rest)" "s = word_of_nat v"
    by (auto simp: size_decode_def)
  then have "v < 256 ^ 3"
    using le_value_bound [of "take 3 bs"] by (auto simp: read_le_def split: if_splits)
  with v show ?thesis by (simp add: unat_of_nat)
qed

text \<open>The delta form: the sign is the low bit, the magnitude the rest.\<close>

lemma checked_double_Inr_iff:
  "checked_double d = Inr e \<longleftrightarrow> unat d * 2 < 2 ^ 32 \<and> e = d * 2"
  by (auto simp: checked_double_def)

lemma halve_double:
  assumes "unat (d :: u32) * 2 < 2 ^ 32"
  shows "drop_bit 1 (d * 2) = d" "drop_bit 1 ((d * 2) OR 1) = d"
    "(d * 2) AND 1 = 0" "((d * 2) OR 1) AND 1 = 1"
proof -
  have e: "unat (d * 2) = unat d * 2"
    using assms by (simp add: unat_word_ariths)
  have ev: "even (d * 2)" by simp
  have o: "(d * 2) OR 1 = d * 2 + 1" using ev by (simp add: or_one_eq)
  have e1: "unat (d * 2 + 1) = unat d * 2 + 1"
    using assms e by (simp add: unat_word_ariths)
  show "drop_bit 1 (d * 2) = d"
    by (simp add: word_unat_eq_iff unat_div_distrib e drop_bit_eq_div)
  show "drop_bit 1 ((d * 2) OR 1) = d"
    by (simp add: word_unat_eq_iff o unat_div_distrib e1 drop_bit_eq_div)
  show "(d * 2) AND 1 = 0" using ev by (simp add: and_one_eq mod_2_eq_odd)
  show "((d * 2) OR 1) AND 1 = 1" using ev by (simp add: o and_one_eq mod_2_eq_odd)
qed

lemma size_delta_decode_encode:
  assumes "size_encode_delta s p = Inr bs"
  shows "size_decode_delta p (bs @ rest) = Inr (s, rest)"
proof (cases "s \<ge> p")
  case True
  with assms obtain d where d: "checked_double (s - p) = Inr d" "size_encode d = Inr bs"
    by (auto simp: size_encode_delta_def)
  with halve_double [of "s - p"] show ?thesis
    by (simp add: size_decode_delta_def size.roundtrip [OF TrueI d(2)] checked_double_Inr_iff)
next
  case False
  with assms obtain d where d: "checked_double (p - s) = Inr d" "size_encode (d OR 1) = Inr bs"
    by (auto simp: size_encode_delta_def)
  with halve_double [of "p - s"] show ?thesis
    by (simp add: size_decode_delta_def size.roundtrip [OF TrueI d(2)] checked_double_Inr_iff)
qed

lemma size_decode_delta_consume:
  "size_decode_delta p bs = Inr (x, rest) \<Longrightarrow> \<exists>q. bs = q @ rest"
  by (auto simp: size_decode_delta_def Let_def dest!: size_decode_consume)

interpretation size_delta: codec "\<lambda>s. size_encode_delta s p" "size_decode_delta p" "\<lambda>_. True" for p
  by unfold_locales (auto intro: size_delta_decode_encode size_decode_delta_consume)

text \<open>Variable-length arrays, for any codec.\<close>

context codec
begin

lemma array_roundtrip:
  assumes "list_all wf xs" "encode_array enc xs = Inr bs"
  shows "decode_array dec (bs @ rest) = Inr (xs, rest)"
proof -
  from assms(2) obtain b cs where len: "length xs < 2 ^ 32"
    and b: "size_encode (word_of_nat (length xs)) = Inr b"
    and cs: "encode_fixed_array enc xs = Inr cs" and bs: "bs = b @ cs"
    by (auto simp: encode_array_def split: if_splits)
  have "unat (word_of_nat (length xs) :: u32) = length xs"
    using len by (simp add: unat_of_nat)
  with size.roundtrip [OF TrueI b] fixed_array_roundtrip [OF assms(1) cs] show ?thesis
    by (simp add: decode_array_def bs)
qed

lemma array_consume: "decode_array dec bs = Inr (xs, rest) \<Longrightarrow> \<exists>p. bs = p @ rest"
  by (fastforce simp: decode_array_def dest!: size_decode_consume fixed_array_consume)

end

subsection \<open>Digests\<close>

lemma u8_fixed_encode: "encode_fixed_array u8_encode bs = Inr bs"
  by (induction bs) (auto simp: u8_encode_def)

interpretation digest: fixed_codec digest_encode digest_decode "\<lambda>d. length d = 32" 32
proof
  show "length x = 32 \<Longrightarrow> digest_encode x = Inr bs \<Longrightarrow> digest_decode (bs @ rest) = Inr (x, rest)"
    for x bs rest
    using u8.fixed_array_roundtrip [of x bs rest]
    by (simp add: digest_encode_def digest_decode_def list_all_iff)
  show "digest_decode bs = Inr (x, rest) \<Longrightarrow> \<exists>p. bs = p @ rest" for x bs rest
    unfolding digest_decode_def by (rule u8.fixed_array_consume)
qed (simp add: digest_encode_def u8_fixed_encode)

end
