(* ===== verification/Field_Element.thy ===== *)
theory Field_Element
  imports Codec
begin

text \<open>
  The field traits of \<open>src/src/fields/mod.rs\<close>. A field is a type of sort \<open>comm_ring_1\<close>
  together with a dictionary, the record \<open>field_ops\<close>, of the trait items the generic code
  dispatches on: encoding, subfield, sumcheck evaluation point and \<open>extend\<close>. Generic code
  takes the dictionary as an argument, as Rust takes the trait implementation.

  Field identifiers, exponentiation by squaring, rejection sampling and the Lagrange basis of the
  sumcheck polynomials are modelled here. Two locales state what implementations promise:
  \<open>field_codec\<close> for the encodings and \<open>sumcheck_field\<close> for the precomputed inverses.
\<close>

subsection \<open>Field identifiers\<close>

datatype field_id = NoField | P256 | P384 | P521 | GF2_128 | GF2_16 | FP128

fun field_id_code :: "field_id \<Rightarrow> nat" where
  "field_id_code NoField = 0"
| "field_id_code P256 = 1"
| "field_id_code P384 = 2"
| "field_id_code P521 = 3"
| "field_id_code GF2_128 = 4"
| "field_id_code GF2_16 = 5"
| "field_id_code FP128 = 6"

definition field_id_of_u8 :: "byte \<Rightarrow> field_id res" where
  "field_id_of_u8 v =
     (if v = 0 then Inr NoField
      else if v = 1 then Inr P256
      else if v = 2 then Inr P384
      else if v = 3 then Inr P521
      else if v = 4 then Inr GF2_128
      else if v = 5 then Inr GF2_16
      else if v = 6 then Inr FP128
      else Inl (Fail ''unknown field ID''))"

definition field_id_decode :: "field_id dec" where
  "field_id_decode bs =
     and_then (read_le 3 bs) (\<lambda>(v, r).
       if v \<ge> 256 then Inl (Fail ''decoded value too big for u8'')
       else and_then (field_id_of_u8 (word_of_nat v)) (\<lambda>i. Inr (i, r)))"

definition field_id_encode :: "field_id enc" where
  "field_id_encode i = Inr (le_bytes 3 (field_id_code i))"

fun field_id_encoded_length :: "field_id \<Rightarrow> nat" where
  "field_id_encoded_length NoField = 0"
| "field_id_encoded_length P256 = 32"
| "field_id_encoded_length P384 = 48"
| "field_id_encoded_length P521 = 66"
| "field_id_encoded_length GF2_128 = 16"
| "field_id_encoded_length GF2_16 = 2"
| "field_id_encoded_length FP128 = 16"

lemma field_id_of_u8_code: "field_id_of_u8 (word_of_nat (field_id_code i)) = Inr i"
  by (cases i) (simp_all add: field_id_of_u8_def)

interpretation field_id: fixed_codec field_id_encode field_id_decode "\<lambda>_. True" 3
proof
  show "field_id_encode i = Inr bs \<Longrightarrow> field_id_decode (bs @ rest) = Inr (i, rest)" for i bs rest
  proof -
    have "field_id_code i < 256" by (cases i) simp_all
    moreover assume "field_id_encode i = Inr bs"
    ultimately show ?thesis
      by (auto simp: field_id_encode_def field_id_decode_def field_id_of_u8_code)
  qed
  show "field_id_decode bs = Inr (i, rest) \<Longrightarrow> \<exists>p. bs = p @ rest" for bs i rest
    by (auto simp: field_id_decode_def split: if_splits dest!: read_le_consume)
qed (simp add: field_id_encode_def)

subsection \<open>The trait dictionary\<close>

text \<open>
  \<open>fo_encode\<close> is \<open>encode\<close> and \<open>as_byte_array\<close> (writing to memory cannot fail);
  \<open>fo_try_from\<close> is \<open>TryFrom<&[u8]>\<close>; \<open>fo_extend n m xs\<close> is
  \<open>extend(xs, &extend_precompute(n, m))\<close>; \<open>fo_id_prefix\<close> is what
  \<open>update_circuit_id\<close> feeds to the hash.
\<close>

record 'a field_ops =
  fo_num_bits :: nat
  fo_field_id :: field_id
  fo_encode :: "'a \<Rightarrow> bytes"
  fo_try_from :: "bytes \<Rightarrow> 'a option"
  fo_in_subfield :: "'a \<Rightarrow> bool"
  fo_encode_sub :: "'a enc"
  fo_decode_sub :: "'a dec"
  fo_id_prefix :: bytes
  fo_large_characteristic :: bool
  fo_p2 :: 'a
  fo_p2_inv :: 'a
  fo_one_minus_p2_inv :: 'a
  fo_p2_squared_minus_p2_inv :: 'a
  fo_extend :: "nat \<Rightarrow> nat \<Rightarrow> 'a list \<Rightarrow> 'a list res"

definition num_bytes :: "'a field_ops \<Rightarrow> nat" where
  "num_bytes F = (fo_num_bits F + 7) div 8"

text \<open>\<open>Codec::decode\<close> of the implementations: \<open>read_exact\<close>, then \<open>try_from\<close>.\<close>

definition fe_decode :: "'a field_ops \<Rightarrow> 'a dec" where
  "fe_decode F bs =
     (if length bs < num_bytes F then Inl (Fail ''failed to read field element'')
      else and_then (opt_res (Fail ''serialized element is not valid'')
                      (fo_try_from F (take (num_bytes F) bs)))
             (\<lambda>x. Inr (x, drop (num_bytes F) bs)))"

definition fe_encode :: "'a field_ops \<Rightarrow> 'a enc" where
  "fe_encode F x = Inr (fo_encode F x)"

subsection \<open>Exponentiation\<close>

function exp_vartime_loop :: "'a :: comm_ring_1 \<Rightarrow> 'a \<Rightarrow> nat \<Rightarrow> 'a" where
  "exp_vartime_loop out base exponent =
     (if exponent > 0 then
        exp_vartime_loop (if odd exponent then out * base else out) (base * base) (exponent div 2)
      else out)"
  by pat_completeness auto
termination by (relation "measure (\<lambda>(_, _, e). e)") auto

declare exp_vartime_loop.simps [simp del]

definition exp_vartime :: "'a :: comm_ring_1 \<Rightarrow> nat \<Rightarrow> 'a" where
  "exp_vartime self exponent = exp_vartime_loop 1 self exponent"

lemma exp_vartime_loop_power: "exp_vartime_loop out base e = out * base ^ e"
proof (induction out base e rule: exp_vartime_loop.induct)
  case (1 out base e)
  show ?case
  proof (cases "e > 0")
    case True
    have "(base * base) ^ (e div 2) = base ^ (2 * (e div 2))"
      by (simp add: power_mult power2_eq_square)
    moreover have "base * base ^ (2 * (e div 2)) = base ^ e" if "odd e"
      using that by (simp flip: power_Suc)
    moreover have "base ^ (2 * (e div 2)) = base ^ e" if "even e"
      using that by simp
    ultimately show ?thesis
      using 1 True by (subst exp_vartime_loop.simps) (simp add: mult.assoc)
  next
    case False
    then show ?thesis by (subst exp_vartime_loop.simps) simp
  qed
qed

subsection \<open>Rejection sampling\<close>

text \<open>
  The source fills the buffer from a generator state \<open>'g\<close>. The bits beyond
  \<open>NUM_BITS\<close> are masked off the last byte, and the draw is repeated until \<open>try_from\<close>
  accepts it: the loop may not end, so the result is an option.
\<close>

definition mask_excess :: "nat \<Rightarrow> bytes \<Rightarrow> bytes" where
  "mask_excess num_bits buf =
     (let n = (num_bits + 7) div 8; excess = n * 8 - num_bits
      in if excess \<noteq> 0 then buf[n - 1 := (buf ! (n - 1)) AND mask (8 - excess)] else buf)"

partial_function (option) sample_loop ::
  "'a field_ops \<Rightarrow> ('g \<Rightarrow> bytes \<times> 'g) \<Rightarrow> 'g \<Rightarrow> nat \<Rightarrow> ('a \<times> nat \<times> 'g) option" where
  "sample_loop F source g rejections =
     (let (buf, g') = source g in
        case fo_try_from F (mask_excess (fo_num_bits F) buf) of
          Some fe \<Rightarrow> Some (fe, rejections, g')
        | None \<Rightarrow> sample_loop F source g' (Suc rejections))"

definition sample_counting_rejections ::
  "'a field_ops \<Rightarrow> ('g \<Rightarrow> bytes \<times> 'g) \<Rightarrow> 'g \<Rightarrow> ('a \<times> nat \<times> 'g) option" where
  "sample_counting_rejections F source g = sample_loop F source g 0"

definition sample_from_source ::
  "'a field_ops \<Rightarrow> ('g \<Rightarrow> bytes \<times> 'g) \<Rightarrow> 'g \<Rightarrow> ('a \<times> 'g) option" where
  "sample_from_source F source g =
     map_option (\<lambda>(x, _, g'). (x, g')) (sample_counting_rejections F source g)"

text \<open>The states the generator passes through, and the element each draw is tried as.\<close>

definition draw_state :: "('g \<Rightarrow> bytes \<times> 'g) \<Rightarrow> nat \<Rightarrow> 'g \<Rightarrow> 'g" where
  "draw_state source k = (snd \<circ> source) ^^ k"

definition draw :: "'a field_ops \<Rightarrow> ('g \<Rightarrow> bytes \<times> 'g) \<Rightarrow> 'g \<Rightarrow> nat \<Rightarrow> 'a option" where
  "draw F source g k =
     fo_try_from F (mask_excess (fo_num_bits F) (fst (source (draw_state source k g))))"

lemma draw_Suc: "draw F source g (Suc k) = draw F source (snd (source g)) k"
  by (simp add: draw_def draw_state_def funpow_swap1)

lemma sample_loop_first_accepted:
  assumes "draw F source g k = Some x" "\<forall>i < k. draw F source g i = None"
  shows "sample_loop F source g r = Some (x, r + k, draw_state source (Suc k) g)"
  using assms
proof (induction k arbitrary: g r)
  case 0
  then show ?case
    by (subst sample_loop.simps) (auto simp: draw_def draw_state_def split: prod.splits)
next
  case (Suc k)
  have "draw F source g 0 = None" using Suc.prems(2) by auto
  moreover have "sample_loop F source (snd (source g)) (Suc r) =
      Some (x, Suc r + k, draw_state source (Suc k) (snd (source g)))"
    using Suc.prems by (intro Suc.IH) (auto simp flip: draw_Suc)
  ultimately show ?case
    by (subst sample_loop.simps)
      (auto simp: draw_def draw_state_def funpow_swap1 split: prod.splits)
qed

subsection \<open>The Lagrange basis at 0, 1 and P2\<close>

definition lagrange_basis_polynomial_0 :: "'a :: comm_ring_1 field_ops \<Rightarrow> 'a \<Rightarrow> 'a" where
  "lagrange_basis_polynomial_0 F x = (x - 1) * (x - fo_p2 F) * fo_p2_inv F"

definition lagrange_basis_polynomial_1 :: "'a :: comm_ring_1 field_ops \<Rightarrow> 'a \<Rightarrow> 'a" where
  "lagrange_basis_polynomial_1 F x = (x - 0) * (x - fo_p2 F) * fo_one_minus_p2_inv F"

definition lagrange_basis_polynomial_2 :: "'a :: comm_ring_1 field_ops \<Rightarrow> 'a \<Rightarrow> 'a" where
  "lagrange_basis_polynomial_2 F x = (x - 0) * (x - 1) * fo_p2_squared_minus_p2_inv F"

text \<open>
  The identities below hold in any commutative ring in which the three denominators have the
  inverses \<open>i\<close>, \<open>j\<close> and \<open>k\<close>.
\<close>

lemma p2_inverses_related:
  assumes "p * i = 1" "(1 - p) * j = 1" "(p * p - p) * k = (1 :: 'a::comm_ring_1)"
  shows "k = - (i * j)"
proof -
  have "(p * p - p) * (- (i*j)) = (p * i) * ((1 - p) * j)" by (simp add: algebra_simps)
  then have "(p * p - p) * (- (i*j)) = 1" by (simp add: assms)
  then show ?thesis using assms(3) by (metis mult.assoc mult.commute mult_1)
qed

lemma basis_sum_1:
  assumes "p * i = 1" "(1 - p) * j = 1" "(p * p - p) * k = (1 :: 'a::comm_ring_1)"
  shows "(x - 1) * (x - p) * i + x * (x - p) * j + x * (x - 1) * k = 1"
proof -
  have ip: "i * p = 1" "i * (p * y) = y" for y
    using assms(1) by (simp_all add: mult.commute [of i] flip: mult.assoc)
  have j: "j = 1 + p * j" using assms(2) by (simp add: algebra_simps)
  have "(x - 1) * (x - p) * i + x * (x - p) * j + x * (x - 1) * k
    = (x * x - x) * i - (x - 1) * (p * i) + (x * x) * j - x * (p * j) - x * x * (i * j) + x * (i*j)"
    by (simp add: p2_inverses_related [OF assms] algebra_simps)
  also have "i * j = i * (1 + p * j)" using j by simp
  also have "i * (1 + p * j) = i + (p * i) * j" by (simp add: algebra_simps)
  also have "\<dots> = i + j" by (simp add: assms)
  also have "(x * x - x) * i - (x - 1) * (p * i) + (x * x) * j - x * (p * j) - x * x * (i + j) + x * (i + j)
     = 1 - x + x * (j - p * j)" by (simp add: algebra_simps ip)
  also have "j - p * j = 1" using assms(2) by (simp add: algebra_simps)
  finally show ?thesis by simp
qed

lemma basis_sum_x:
  assumes "p * i = 1" "(1 - p) * j = 1" "(p * p - p) * k = (1 :: 'a::comm_ring_1)"
  shows "x * (x - p) * j + x * (x - 1) * k * p = x"
proof -
  have "k * p = - ((p * i) * j)" by (simp add: p2_inverses_related [OF assms] algebra_simps)
  then have "k * p = - j" by (simp add: assms)
  then have "x * (x - p) * j + x * (x - 1) * (k * p) = x * ((1 - p) * j)" by (simp add: algebra_simps)
  then show ?thesis by (simp add: assms mult.assoc)
qed

lemma basis_sum_x2:
  assumes "p * i = 1" "(1 - p) * j = 1" "(p * p - p) * k = (1 :: 'a::comm_ring_1)"
  shows "x * (x - p) * j + x * (x - 1) * k * (p * p) = x * x"
proof -
  have "k * p = - ((p * i) * j)" by (simp add: p2_inverses_related [OF assms] algebra_simps)
  then have "k * p = - j" by (simp add: assms)
  then have "k * (p * p) = - (j * p)" by (simp add: mult.assoc [symmetric])
  then have "x * (x - p) * j + x * (x - 1) * (k * (p * p)) = x * x * ((1 - p) * j)" by (simp add: algebra_simps)
  then show ?thesis by (simp add: assms mult.assoc)
qed

lemma basis_combine:
  assumes "l0 + l1 + l2 = 1" "l1 + l2 * p = x" "l1 + l2 * (p*p) = x * (x :: 'a :: comm_ring_1)"
  shows "a * l0 + (a + b + c) * l1 + (a + b * p + c * (p*p)) * l2 = a + b * x + c * (x*x)"
proof -
  have "a * l0 + (a + b + c) * l1 + (a + b * p + c * (p*p)) * l2
    = a * (l0 + l1 + l2) + b * (l1 + l2 * p) + c * (l1 + l2 * (p*p))" by (simp add: algebra_simps)
  then show ?thesis by (simp only: assms mult_1_right)
qed
text \<open>What the precomputed constants of an implementation promise.\<close>

locale sumcheck_field =
  fixes F :: "'a :: comm_ring_1 field_ops"
  assumes p2_inv: "fo_p2 F * fo_p2_inv F = 1"
    and one_minus_p2_inv: "(1 - fo_p2 F) * fo_one_minus_p2_inv F = 1"
    and p2_squared_minus_p2_inv:
      "(fo_p2 F * fo_p2 F - fo_p2 F) * fo_p2_squared_minus_p2_inv F = 1"
    and large_characteristic_p2: "fo_large_characteristic F \<Longrightarrow> fo_p2 F = 1 + 1"
begin

lemma lagrange_at_0:
  "lagrange_basis_polynomial_0 F 0 = 1" "lagrange_basis_polynomial_1 F 0 = 0"
  "lagrange_basis_polynomial_2 F 0 = 0"
  using p2_inv by (simp_all add: lagrange_basis_polynomial_0_def
      lagrange_basis_polynomial_1_def lagrange_basis_polynomial_2_def)

lemma lagrange_at_1:
  "lagrange_basis_polynomial_0 F 1 = 0" "lagrange_basis_polynomial_1 F 1 = 1"
  "lagrange_basis_polynomial_2 F 1 = 0"
  using one_minus_p2_inv by (simp_all add: lagrange_basis_polynomial_0_def
      lagrange_basis_polynomial_1_def lagrange_basis_polynomial_2_def)

lemma lagrange_at_p2:
  "lagrange_basis_polynomial_0 F (fo_p2 F) = 0" "lagrange_basis_polynomial_1 F (fo_p2 F) = 0"
  "lagrange_basis_polynomial_2 F (fo_p2 F) = 1"
  using p2_squared_minus_p2_inv by (simp_all add: lagrange_basis_polynomial_0_def
      lagrange_basis_polynomial_1_def lagrange_basis_polynomial_2_def algebra_simps)

text \<open>The three basis polynomials reproduce 1, x and x squared, hence every quadratic.\<close>

lemma lagrange_sum_1:
  "lagrange_basis_polynomial_0 F x + lagrange_basis_polynomial_1 F x
     + lagrange_basis_polynomial_2 F x = 1"
  using basis_sum_1 [OF p2_inv one_minus_p2_inv p2_squared_minus_p2_inv, of x]
  by (simp add: lagrange_basis_polynomial_0_def
    lagrange_basis_polynomial_1_def lagrange_basis_polynomial_2_def)

lemma lagrange_sum_x:
  "lagrange_basis_polynomial_1 F x + lagrange_basis_polynomial_2 F x * fo_p2 F = x"
  using basis_sum_x [OF p2_inv one_minus_p2_inv p2_squared_minus_p2_inv, of x]
  by (simp add: lagrange_basis_polynomial_1_def lagrange_basis_polynomial_2_def)

lemma lagrange_sum_x2:
  "lagrange_basis_polynomial_1 F x + lagrange_basis_polynomial_2 F x * (fo_p2 F * fo_p2 F) = x * x"
  using basis_sum_x2 [OF p2_inv one_minus_p2_inv p2_squared_minus_p2_inv, of x]
  by (simp add: lagrange_basis_polynomial_1_def lagrange_basis_polynomial_2_def)

lemma lagrange_quadratic:
  assumes "\<And>y. f y = a + b * y + c * (y * y)"
  shows "f 0 * lagrange_basis_polynomial_0 F x + f 1 * lagrange_basis_polynomial_1 F x
     + f (fo_p2 F) * lagrange_basis_polynomial_2 F x = f x"
  using basis_combine [OF lagrange_sum_1 [of x] lagrange_sum_x [of x] lagrange_sum_x2 [of x],
      where a = a and b = b and c = c]
  by (simp add: assms)

end

subsection \<open>Encodings of field elements\<close>

locale field_codec =
  fixes F :: "'a field_ops"
  assumes encode_length: "length (fo_encode F x) = num_bytes F"
    and try_from_encode: "fo_try_from F (fo_encode F x) = Some x"
    and encode_try_from: "fo_try_from F bs = Some x \<Longrightarrow> fo_encode F x = bs"
begin

lemma fe_fixed_codec: "fixed_codec (fe_encode F) (fe_decode F) (\<lambda>_. True) (num_bytes F)"
proof
  show "fe_encode F x = Inr bs \<Longrightarrow> fe_decode F (bs @ rest) = Inr (x, rest)" for x bs rest
    by (auto simp: fe_encode_def fe_decode_def encode_length try_from_encode)
  show "\<exists>p. bs = p @ rest" if "fe_decode F bs = Inr (x, rest)" for bs x rest
  proof -
    from that have "rest = drop (num_bytes F) bs"
      by (simp add: fe_decode_def and_then_Inr_iff split: if_splits)
    then have "bs = take (num_bytes F) bs @ rest" by simp
    then show ?thesis ..
  qed
qed (simp add: fe_encode_def encode_length)

lemma encode_inj: "fo_encode F x = fo_encode F y \<Longrightarrow> x = y"
  by (metis option.inject try_from_encode)

end

sublocale field_codec \<subseteq> fe: fixed_codec "fe_encode F" "fe_decode F" "\<lambda>_. True" "num_bytes F"
  by (rule fe_fixed_codec)

end
