(* ===== verification/Bind.thy ===== *)
theory Bind
  imports Field_Element
begin

text \<open>
  Dense sumcheck arrays and the \<open>bindeq\<close> function of \<open>src/src/sumcheck/bind/mod.rs\<close>.

  A dense array is a list read as a function that is zero past its end. The in-place loops of
  \<open>bind\<close> and \<open>bindeq_inner\<close> are folds that read and write the same list, so that the
  aliasing of the source is kept; \<open>bind_array_map\<close> and \<open>bindeq_inner_nth\<close> show that what
  is overwritten is never read again. The specification side is the multilinear extension of an
  array: \<open>bind_fun\<close> binds one variable of a function, \<open>eq_weight\<close> is the weight of an index
  at a point, and \<open>bindv_eq_weight\<close> connects the two.
\<close>

datatype 'a binding = BindZero | BindSumcheckP2 | BindOther 'a

definition element :: "'a :: zero list \<Rightarrow> nat \<Rightarrow> 'a" where
  "element xs i = (if i < length xs then xs ! i else 0)"

definition bound_slow_path :: "'a :: comm_ring_1 list \<Rightarrow> nat \<Rightarrow> 'a \<Rightarrow> 'a" where
  "bound_slow_path xs i x =
     element xs (2 * i) + x * (element xs (2 * i + 1) - element xs (2 * i))"

fun bound_element_at ::
  "'a :: comm_ring_1 field_ops \<Rightarrow> 'a list \<Rightarrow> 'a binding \<Rightarrow> nat \<Rightarrow> 'a" where
  "bound_element_at F xs BindZero i = element xs (2 * i)"
| "bound_element_at F xs BindSumcheckP2 i =
     (if fo_large_characteristic F
      then element xs (2 * i + 1) + element xs (2 * i + 1) - element xs (2 * i)
      else bound_slow_path xs i (fo_p2 F))"
| "bound_element_at F xs (BindOther x) i = bound_slow_path xs i x"

definition bind_error :: error where
  "bind_error = Panic ''binding over a vector already reduced to a single element''"

definition bind_array ::
  "'a :: comm_ring_1 field_ops \<Rightarrow> 'a list \<Rightarrow> 'a binding \<Rightarrow> 'a list res" where
  "bind_array F xs b =
     and_then (ensure (length xs > 1) bind_error) (\<lambda>_.
       let new_len = div_ceil (length xs) 2;
           xs' = fold (\<lambda>i ys. ys[i := bound_element_at F ys b i]) [0..<new_len] xs
       in Inr (take new_len xs'))"

definition bind_iter ::
  "'a :: comm_ring_1 field_ops \<Rightarrow> 'a list \<Rightarrow> 'a binding \<Rightarrow> 'a list res" where
  "bind_iter F xs b =
     and_then (ensure (length xs > 1) bind_error) (\<lambda>_.
       Inr (map (bound_element_at F xs b) [0..<div_ceil (length xs) 2]))"

text \<open>\<open>bindeq_inner\<close>: the inner loop runs over \<open>j\<close> downwards.\<close>

definition bindeq_step :: "'a :: comm_ring_1 \<Rightarrow> nat \<Rightarrow> 'a list \<Rightarrow> 'a list" where
  "bindeq_step x j bound =
     (let t = x * bound ! j; bound' = bound[2 * j := bound ! j - t] in bound'[2 * j + 1 := t])"

definition bindeq_inner :: "'a :: comm_ring_1 list \<Rightarrow> 'a list" where
  "bindeq_inner input =
     fold (\<lambda>(i, x) bound. fold (bindeq_step x) (rev [0..<2 ^ i]) bound)
       (enumerate 0 (rev input))
       ((replicate (2 ^ length input) 0)[0 := 1])"

definition bindeq :: "'a :: comm_ring_1 list \<Rightarrow> 'a list \<Rightarrow> 'a \<Rightarrow> 'a list" where
  "bindeq bindings_0 bindings_1 scale =
     (let b0 = bindeq_inner bindings_0; b1 = bindeq_inner bindings_1
      in map2 (\<lambda>x y. x + scale * y) b0 b1 @ drop (length b1) b0)"

subsection \<open>Binding one variable\<close>

definition binding_value :: "'a :: comm_ring_1 field_ops \<Rightarrow> 'a binding \<Rightarrow> 'a" where
  "binding_value F b = (case b of BindZero \<Rightarrow> 0 | BindSumcheckP2 \<Rightarrow> fo_p2 F | BindOther x \<Rightarrow> x)"

definition bind_fun :: "'a :: comm_ring_1 \<Rightarrow> (nat \<Rightarrow> 'a) \<Rightarrow> nat \<Rightarrow> 'a" where
  "bind_fun x A i = (1 - x) * A (2 * i) + x * A (2 * i + 1)"

context sumcheck_field
begin

text \<open>Every fast path computes the same bound element.\<close>

lemma bound_element_at_bind_fun:
  "bound_element_at F xs b i = bind_fun (binding_value F b) (element xs) i"
proof (cases b)
  case BindSumcheckP2
  then show ?thesis
    using large_characteristic_p2
    by (simp add: bind_fun_def binding_value_def bound_slow_path_def algebra_simps)
qed (simp_all add: bind_fun_def binding_value_def bound_slow_path_def algebra_simps)

end

lemma div_ceil_2: "div_ceil n 2 = Suc n div 2"
  by (simp add: div_ceil_def)

lemma bound_element_at_cong:
  "element xs (2 * i) = element ys (2 * i) \<Longrightarrow> element xs (2 * i + 1) = element ys (2 * i + 1) \<Longrightarrow>
   bound_element_at F xs b i = bound_element_at F ys b i"
  by (cases b) (simp_all add: bound_slow_path_def)

text \<open>In place or not, the same array comes out.\<close>

lemma bind_in_place:
  assumes "n \<le> length xs"
  shows "fold (\<lambda>i ys. ys[i := bound_element_at F ys b i]) [0..<n] xs =
    map (bound_element_at F xs b) [0..<n] @ drop n xs"
  using assms
proof (induction n)
  case (Suc n)
  let ?ys = "map (bound_element_at F xs b) [0..<n] @ drop n xs"
  have "element ?ys k = element xs k" if "k \<ge> n" for k
    using that Suc.prems by (simp add: element_def nth_append)
  then have eq: "bound_element_at F ?ys b n = bound_element_at F xs b n"
    by (intro bound_element_at_cong) simp_all
  have "?ys[n := z] = map (bound_element_at F xs b) [0..<n] @ z # drop (Suc n) xs" for z
    using Suc.prems by (simp add: list_update_append flip: Cons_nth_drop_Suc)
  with Suc eq show ?case by simp
qed simp

lemma bind_array_bind_iter: "bind_array F xs b = bind_iter F xs b"
proof (cases "length xs > 1")
  case True
  then have "div_ceil (length xs) 2 \<le> length xs" by (simp add: div_ceil_2)
  with True show ?thesis by (simp add: bind_array_def bind_iter_def bind_in_place Let_def)
qed (simp add: bind_array_def bind_iter_def)

lemma bind_array_map:
  "length xs > 1 \<Longrightarrow>
   bind_array F xs b = Inr (map (bound_element_at F xs b) [0..<div_ceil (length xs) 2])"
  by (simp add: bind_array_bind_iter bind_iter_def)

lemma bound_element_at_beyond:
  "i \<ge> div_ceil (length xs) 2 \<Longrightarrow> bound_element_at F xs b i = 0"
  by (cases b) (auto simp: bound_slow_path_def element_def div_ceil_2)

lemma bind_array_element:
  assumes "bind_array F xs b = Inr ys"
  shows "element ys i = bound_element_at F xs b i"
proof -
  have "length xs > 1"
    using assms by (auto simp: bind_array_def and_then_Inr_iff)
  with assms have "ys = map (bound_element_at F xs b) [0..<div_ceil (length xs) 2]"
    by (simp add: bind_array_map)
  then show ?thesis by (simp add: element_def bound_element_at_beyond)
qed

lemma bind_array_length:
  assumes "bind_array F xs b = Inr ys"
  shows "length xs > 1" "length ys = Suc (length xs) div 2"
proof -
  show "length xs > 1" using assms by (auto simp: bind_array_def and_then_Inr_iff)
  from bind_array_map [OF this] assms show "length ys = Suc (length xs) div 2"
    by (auto simp: div_ceil_2)
qed

subsection \<open>The weights of a point\<close>

text \<open>
  \<open>eq_weight xs j\<close> is \<open>bindv(EQ, xs)[j]\<close>: the product of \<open>x\<close> for every set bit of \<open>j\<close>
  and \<open>1 - x\<close> for every clear bit, the first challenge belonging to bit 0.
\<close>

fun eq_weight :: "'a :: comm_ring_1 list \<Rightarrow> nat \<Rightarrow> 'a" where
  "eq_weight [] j = 1"
| "eq_weight (x # xs) j = (if odd j then x else 1 - x) * eq_weight xs (j div 2)"

lemma length_bindeq_step [simp]: "length (bindeq_step x j B) = length B"
  by (simp add: bindeq_step_def Let_def)

lemma length_bindeq_steps [simp]: "length (fold (bindeq_step x) js B) = length B"
  by (induction js arbitrary: B) auto

lemma bindeq_step_nth:
  assumes "2 * j + 1 < length B"
  shows "bindeq_step x j B ! k =
    (if k = 2 * j + 1 then x * B ! j else if k = 2 * j then (1 - x) * B ! j else B ! k)"
  using assms by (auto simp: bindeq_step_def Let_def nth_list_update algebra_simps)

lemma bindeq_inner_loop:
  assumes "2 * m \<le> length B" "k < length B"
  shows "fold (bindeq_step x) (rev [0..<m]) B ! k =
    (if k < 2 * m then (if odd k then x else 1 - x) * B ! (k div 2) else B ! k)"
  using assms
proof (induction m arbitrary: B)
  case (Suc m)
  let ?B = "bindeq_step x m B"
  have nth: "?B ! j = (if j = 2 * m + 1 then x * B ! m
      else if j = 2 * m then (1 - x) * B ! m else B ! j)" for j
    using Suc.prems by (intro bindeq_step_nth) simp
  have rec: "fold (bindeq_step x) (rev [0..<m]) ?B ! k =
    (if k < 2 * m then (if odd k then x else 1 - x) * ?B ! (k div 2) else ?B ! k)"
    using Suc.prems by (intro Suc.IH) simp_all
  consider "k < 2 * m" | "k = 2 * m" | "k = 2 * m + 1" | "k > 2 * m + 1" by linarith
  then show ?case
  proof cases
    case 1
    then have "k div 2 < m" by simp
    with 1 show ?thesis by (simp add: rec nth)
  qed (use rec nth in simp_all)
qed simp

lemma bindeq_outer_loop:
  fixes xs :: "'a :: comm_ring_1 list"
  assumes "2 ^ (i + length xs) \<le> length B" "\<And>j. j < 2 ^ i \<Longrightarrow> B ! j = eq_weight ys j"
    and "length ys = i" "j < 2 ^ (i + length xs)"
  shows "fold (\<lambda>(i, x) bound. fold (bindeq_step x) (rev [0..<2 ^ i]) bound) (enumerate i xs) B ! j
    = eq_weight (rev xs @ ys) j"
  using assms
proof (induction xs arbitrary: i B ys)
  case (Cons x xs)
  let ?B = "fold (bindeq_step x) (rev [0..<2 ^ i]) B"
  have "(2::nat) ^ (Suc i) \<le> 2 ^ (i + length (x # xs))"
    by (intro power_increasing) auto
  with Cons.prems(1) have "2 ^ Suc i \<le> length B" by (rule order_trans [rotated])
  then have le: "2 * 2 ^ i \<le> length B" by simp
  have "?B ! j = eq_weight (x # ys) j" if j: "j < 2 ^ Suc i" for j
  proof -
    have "j < length B" "j < 2 * 2 ^ i" using j le by simp_all
    then have "?B ! j = (if odd j then x else 1 - x) * B ! (j div 2)"
      using bindeq_inner_loop [OF le, of j x] by simp
    also have "B ! (j div 2) = eq_weight ys (j div 2)"
      using j by (intro Cons.prems(2)) (simp add: less_mult_imp_div_less mult.commute)
    finally show ?thesis by simp
  qed
  then show ?case
    using Cons.prems Cons.IH [of "Suc i" ?B "x # ys"] by simp
qed simp

lemma length_bindeq_inner [simp]: "length (bindeq_inner xs) = 2 ^ length xs"
proof -
  have "length (fold (\<lambda>(i, x) b. fold (bindeq_step x) (rev [0..<2 ^ i]) b) ps B) = length B"
    for ps and B :: "'a list"
    by (induction ps arbitrary: B) auto
  then show ?thesis by (simp add: bindeq_inner_def)
qed

lemma bindeq_inner_nth:
  assumes "j < 2 ^ length xs"
  shows "bindeq_inner xs ! j = eq_weight xs j"
proof -
  have "bindeq_inner xs ! j = eq_weight (rev (rev xs) @ []) j"
    unfolding bindeq_inner_def
    by (rule bindeq_outer_loop) (use assms in simp_all)
  then show ?thesis by simp
qed

lemma length_bindeq: "length (bindeq xs ys s) = 2 ^ length xs"
  by (simp add: bindeq_def Let_def)

lemma bindeq_nth:
  assumes "j < 2 ^ length xs" "length xs = length ys"
  shows "bindeq xs ys s ! j = eq_weight xs j + s * eq_weight ys j"
  using assms by (simp add: bindeq_def Let_def nth_append bindeq_inner_nth)

subsection \<open>Binding a whole point\<close>

text \<open>\<open>bindv\<close> of the protocol: bind the variables one after the other.\<close>

fun bindv :: "'a :: comm_ring_1 list \<Rightarrow> (nat \<Rightarrow> 'a) \<Rightarrow> nat \<Rightarrow> 'a" where
  "bindv [] A = A"
| "bindv (x # xs) A = bindv xs (bind_fun x A)"

lemma sum_split_parity:
  "(\<Sum>j < 2 * n. f j) = (\<Sum>j < n. f (2 * j) + f (2 * j + 1 :: nat) :: 'b :: comm_monoid_add)"
  by (induction n) (auto simp: algebra_simps)

lemma bindv_eq_weight:
  "bindv xs A i = (\<Sum>j < 2 ^ length xs. eq_weight xs j * A (i * 2 ^ length xs + j))"
proof (induction xs arbitrary: A i)
  case (Cons x xs)
  let ?n = "2 ^ length xs :: nat"
  have "bindv (x # xs) A i = (\<Sum>j < ?n. eq_weight xs j * bind_fun x A (i * ?n + j))"
    by (simp add: Cons)
  also have "\<dots> = (\<Sum>j < ?n. eq_weight (x # xs) (2 * j) * A (i * (2 * ?n) + 2 * j)
      + eq_weight (x # xs) (2 * j + 1) * A (i * (2 * ?n) + (2 * j + 1)))"
    by (intro sum.cong) (simp_all add: bind_fun_def algebra_simps)
  also have "\<dots> = (\<Sum>j < 2 * ?n. eq_weight (x # xs) j * A (i * (2 * ?n) + j))"
    by (simp only: sum_split_parity)
  finally show ?case by simp
qed simp

lemma bindv_linear:
  "bindv xs (\<lambda>i. A i + c * B i) = (\<lambda>i. bindv xs A i + c * bindv xs B i)"
  by (rule ext) (simp add: bindv_eq_weight sum.distrib sum_distrib_left algebra_simps)

lemma bindv_snoc: "bindv (xs @ [x]) A = bind_fun x (bindv xs A)"
  by (induction xs arbitrary: A) auto

text \<open>The weights of a point sum to one.\<close>

lemma eq_weight_sum: "(\<Sum>j < 2 ^ length xs. eq_weight xs j) = 1"
proof -
  have "bindv xs (\<lambda>_. 1) 0 = (1 :: 'a)"
  proof (induction xs)
    case (Cons x xs)
    have "bind_fun x (\<lambda>_. 1) = (\<lambda>_. 1 :: 'a)" by (rule ext) (simp add: bind_fun_def)
    with Cons show ?case by simp
  qed simp
  then show ?thesis by (simp add: bindv_eq_weight)
qed

text \<open>Binding an array at every coordinate of a point, in place, as the sumcheck rounds do.\<close>

definition bind_all :: "'a :: comm_ring_1 field_ops \<Rightarrow> 'a list \<Rightarrow> 'a list \<Rightarrow> 'a list res" where
  "bind_all F = fold_res (\<lambda>x A. bind_array F A (BindOther x))"

context sumcheck_field
begin

lemma bind_array_bind_fun:
  "bind_array F xs b = Inr ys \<Longrightarrow> element ys = bind_fun (binding_value F b) (element xs)"
  by (rule ext) (simp add: bind_array_element bound_element_at_bind_fun)

lemma bind_all_bindv:
  "bind_all F xs A = Inr B \<Longrightarrow> element B = bindv xs (element A)"
proof (induction xs arbitrary: A)
  case (Cons x xs)
  then obtain C where C: "bind_array F A (BindOther x) = Inr C" "bind_all F xs C = Inr B"
    by (auto simp: bind_all_def)
  with Cons.IH [OF C(2)] bind_array_bind_fun [OF C(1)] show ?case
    by (simp add: binding_value_def)
qed (simp add: bind_all_def)

end

end
