(* ===== verification/Sparse.thy ===== *)
theory Sparse
  imports Bind
begin

text \<open>
  The sparse sumcheck array of \<open>src/src/sumcheck/bind/sparse.rs\<close>: a sorted list of quads,
  each a gate index, two wire indices and a coefficient. \<open>bind_hand\<close> walks the list with a
  read and a write cursor and overwrites it in place; \<open>bindv_gate\<close> weighs every element with
  the equality weights of two points and merges neighbours with the same wires.

  What an array means is \<open>sq_denote\<close>, the sum of the coefficients stored at an index. The main
  lemmas say that \<open>bind_hand\<close> binds one variable of the denoted function, whatever the order of
  the list, that \<open>bindv_gate\<close> is the weighted sum over the gates, and that a list sorted by
  the interleaved wire indices stays sorted for the other hand after each binding, so that
  alternating bindings leave a single element.
\<close>

unbundle bit_operations_syntax

subsection \<open>Hands and quad elements\<close>

datatype hand = HLeft | HRight

fun opposite :: "hand \<Rightarrow> hand" where
  "opposite HLeft = HRight"
| "opposite HRight = HLeft"

fun hand_index :: "hand \<Rightarrow> nat" where
  "hand_index HLeft = 0"
| "hand_index HRight = 1"

record 'a sparse_quad =
  sq_gate_index :: nat
  sq_left_wire_index :: nat
  sq_right_wire_index :: nat
  sq_coefficient :: 'a

fun sparse_quad_new :: "nat \<Rightarrow> hand \<Rightarrow> nat \<Rightarrow> nat \<Rightarrow> 'a \<Rightarrow> 'a sparse_quad" where
  "sparse_quad_new gate HLeft hand_wire opposite_hand_wire coefficient =
     \<lparr>sq_gate_index = gate, sq_left_wire_index = hand_wire,
      sq_right_wire_index = opposite_hand_wire, sq_coefficient = coefficient\<rparr>"
| "sparse_quad_new gate HRight hand_wire opposite_hand_wire coefficient =
     \<lparr>sq_gate_index = gate, sq_left_wire_index = opposite_hand_wire,
      sq_right_wire_index = hand_wire, sq_coefficient = coefficient\<rparr>"

fun hand_wire :: "'a sparse_quad \<Rightarrow> hand \<Rightarrow> nat" where
  "hand_wire e HLeft = sq_left_wire_index e"
| "hand_wire e HRight = sq_right_wire_index e"

definition is_next_wire ::
  "'a sparse_quad \<Rightarrow> hand \<Rightarrow> 'a sparse_quad option \<Rightarrow> 'a sparse_quad option" where
  "is_next_wire self hand other =
     (case other of
        None \<Rightarrow> None
      | Some o' \<Rightarrow>
          if sq_gate_index o' = sq_gate_index self
             \<and> hand_wire o' hand = hand_wire self hand + 1
             \<and> hand_wire o' (opposite hand) = hand_wire self (opposite hand)
          then Some o' else None)"

lemma opposite_opposite [simp]: "opposite (opposite h) = h"
  by (cases h) simp_all

lemma sparse_quad_new_simps [simp]:
  "hand_wire (sparse_quad_new g h w v c) h = w"
  "hand_wire (sparse_quad_new g h w v c) (opposite h) = v"
  "sq_gate_index (sparse_quad_new g h w v c) = g"
  "sq_coefficient (sparse_quad_new g h w v c) = c"
  by (cases h; simp)+

subsection \<open>The order of the elements\<close>

definition spread_step :: "nat \<Rightarrow> u128 \<Rightarrow> u128 \<Rightarrow> u128" where
  "spread_step s m v = (v OR push_bit s v) AND m"

definition spread_bits :: "u64 \<Rightarrow> u128" where
  "spread_bits v =
     spread_step 1 0x55555555555555555555555555555555
    (spread_step 2 0x33333333333333333333333333333333
    (spread_step 4 0x0F0F0F0F0F0F0F0F0F0F0F0F0F0F0F0F
    (spread_step 8 0x00FF00FF00FF00FF00FF00FF00FF00FF
    (spread_step 16 0x0000FFFF0000FFFF0000FFFF0000FFFF
    (spread_step 32 0x00000000FFFFFFFF00000000FFFFFFFF (ucast v))))))"

definition interleave :: "u64 \<Rightarrow> u64 \<Rightarrow> u128" where
  "interleave right left = spread_bits left OR push_bit 1 (spread_bits right)"

datatype ordering = OLess | OEqual | OGreater

definition cmp_key :: "'k :: linorder \<Rightarrow> 'k \<Rightarrow> ordering" where
  "cmp_key a b = (if a < b then OLess else if a = b then OEqual else OGreater)"

definition interleaved_wires :: "'a sparse_quad \<Rightarrow> u128" where
  "interleaved_wires e =
     interleave (word_of_nat (sq_right_wire_index e)) (word_of_nat (sq_left_wire_index e))"

definition sparse_quad_cmp :: "'a sparse_quad \<Rightarrow> 'a sparse_quad \<Rightarrow> ordering res" where
  "sparse_quad_cmp self other =
     (let wires_cmp = cmp_key (interleaved_wires self) (interleaved_wires other)
      in if wires_cmp = OEqual then
           and_then
             (ensure (sq_gate_index self = sq_gate_index other \<longrightarrow>
                      sq_coefficient self = sq_coefficient other)
               (Panic ''published circuits should never contain duplicated indices''))
             (\<lambda>_. Inr (cmp_key (sq_gate_index self) (sq_gate_index other)))
         else Inr wires_cmp)"

subsection \<open>Binding a hand\<close>

definition bind_hand_error :: error where
  "bind_hand_error =
     Panic ''sparse array should have been bound down to 2D before binding a hand''"

text \<open>One iteration: the bound coefficient and the advanced read cursor.\<close>

definition bind_hand_step ::
  "hand \<Rightarrow> 'a :: comm_ring_1 \<Rightarrow> 'a sparse_quad list \<Rightarrow> nat \<Rightarrow> ('a \<times> nat) res" where
  "bind_hand_step hand binding contents read =
     (let curr = contents ! read; next = nth_opt contents (read + 1)
      in and_then (ensure (sq_gate_index curr = 0) bind_hand_error) (\<lambda>_.
           if even (hand_wire curr hand) then
             (case is_next_wire curr hand next of
                Some n \<Rightarrow> and_then (ensure (sq_gate_index n = 0) bind_hand_error) (\<lambda>_.
                  Inr (sq_coefficient curr + binding * (sq_coefficient n - sq_coefficient curr),
                       read + 2))
              | None \<Rightarrow> Inr ((1 - binding) * sq_coefficient curr, read + 1))
           else Inr (binding * sq_coefficient curr, read + 1)))"

lemma bind_hand_step_read:
  "bind_hand_step hand x contents read = Inr (c, r) \<Longrightarrow> r = read + 1 \<or> r = read + 2"
  by (auto simp: bind_hand_step_def Let_def split: if_splits option.splits)

function bind_hand_loop ::
  "hand \<Rightarrow> 'a :: comm_ring_1 \<Rightarrow> 'a sparse_quad list \<Rightarrow> nat \<Rightarrow> nat \<Rightarrow> 'a sparse_quad list res" where
  "bind_hand_loop hand binding contents read write =
     (if read < length contents then
        and_then (bind_hand_step hand binding contents read) (\<lambda>p.
          bind_hand_loop hand binding
            (contents[write := sparse_quad_new 0 hand
               (hand_wire (contents ! read) hand div 2)
               (hand_wire (contents ! read) (opposite hand)) (fst p)])
            (snd p) (write + 1))
      else Inr (take write contents))"
  by pat_completeness auto
termination
  by (relation "measure (\<lambda>(_, _, xs, read, _). length xs - read)")
    (auto dest!: bind_hand_step_read)

declare bind_hand_loop.simps [simp del]

definition bind_hand ::
  "hand \<Rightarrow> 'a :: comm_ring_1 \<Rightarrow> 'a sparse_quad list \<Rightarrow> 'a sparse_quad list res" where
  "bind_hand hand binding contents = bind_hand_loop hand binding contents 0 0"

subsection \<open>Binding the gates\<close>

text \<open>\<open>write\<close> is the number of elements kept so far; the loop starts with one.\<close>

definition compact_step ::
  "nat \<Rightarrow> 'a :: comm_ring_1 sparse_quad list \<times> nat \<Rightarrow> ('a sparse_quad list \<times> nat) res" where
  "compact_step read st =
     (let (contents, write) = st in
      and_then (nth_res contents read) (\<lambda>read_item.
      and_then (nth_res contents (write - 1)) (\<lambda>last.
        if sq_left_wire_index read_item = sq_left_wire_index last
           \<and> sq_right_wire_index read_item = sq_right_wire_index last
        then Inr (contents[write - 1 := last\<lparr>sq_coefficient :=
                    sq_coefficient last + sq_coefficient read_item\<rparr>], write)
        else and_then (upd_res contents write read_item) (\<lambda>contents'.
               Inr (contents', write + 1)))))"

definition compact :: "'a :: comm_ring_1 sparse_quad list \<Rightarrow> 'a sparse_quad list res" where
  "compact contents =
     and_then (fold_res compact_step [1..<length contents] (contents, 1)) (\<lambda>(contents', write).
       Inr (take write contents'))"

definition weigh_gate :: "'a :: comm_ring_1 list \<Rightarrow> 'a sparse_quad \<Rightarrow> 'a sparse_quad res" where
  "weigh_gate w e =
     and_then (nth_res w (sq_gate_index e)) (\<lambda>b.
       Inr (e\<lparr>sq_coefficient := sq_coefficient e * b, sq_gate_index := 0\<rparr>))"

definition bindv_gate ::
  "'a :: comm_ring_1 list \<Rightarrow> 'a list \<Rightarrow> 'a \<Rightarrow> 'a sparse_quad list \<Rightarrow> 'a sparse_quad list res" where
  "bindv_gate bindings_0 bindings_1 alpha contents =
     and_then (map_res (weigh_gate (bindeq bindings_0 bindings_1 alpha)) contents) compact"

subsection \<open>The intermediate array of the prover\<close>

definition compute_a_step ::
  "hand \<Rightarrow> 'a :: comm_ring_1 list \<times> 'a list \<Rightarrow> 'a sparse_quad \<Rightarrow> 'a list \<Rightarrow> 'a list res" where
  "compute_a_step hand wires e into =
     (let (index, opposite_index) =
            (case hand of
               HLeft \<Rightarrow> (sq_left_wire_index e, sq_right_wire_index e)
             | HRight \<Rightarrow> (sq_right_wire_index e, sq_left_wire_index e));
          opposite_wires = (case hand of HLeft \<Rightarrow> snd wires | HRight \<Rightarrow> fst wires)
      in and_then (nth_res opposite_wires opposite_index) (\<lambda>opposite_wire.
         and_then (nth_res into index) (\<lambda>v.
           upd_res into index (v + sq_coefficient e * opposite_wire))))"

definition compute_a ::
  "hand \<Rightarrow> 'a :: comm_ring_1 list \<times> 'a list \<Rightarrow> 'a sparse_quad list \<Rightarrow> 'a list res" where
  "compute_a hand wires contents =
     fold_res (compute_a_step hand wires) contents
       (replicate (length (case hand of HLeft \<Rightarrow> fst wires | HRight \<Rightarrow> snd wires)) 0)"

subsection \<open>Interleaving, bit by bit\<close>

definition block_mask :: "nat \<Rightarrow> u128 \<Rightarrow> bool" where
  "block_mask h m \<longleftrightarrow> (\<forall>n \<in> set [0..<128]. bit m n \<longleftrightarrow> n mod (2 * h) < h)"

lemma block_masks:
  "block_mask 1 0x55555555555555555555555555555555"
  "block_mask 2 0x33333333333333333333333333333333"
  "block_mask 4 0x0F0F0F0F0F0F0F0F0F0F0F0F0F0F0F0F"
  "block_mask 8 0x00FF00FF00FF00FF00FF00FF00FF00FF"
  "block_mask 16 0x0000FFFF0000FFFF0000FFFF0000FFFF"
  "block_mask 32 0x00000000FFFFFFFF00000000FFFFFFFF"
  by code_simp+

definition spread_at :: "nat \<Rightarrow> u128 \<Rightarrow> u64 \<Rightarrow> bool" where
  "spread_at t y v \<longleftrightarrow>
     (\<forall>n < 128. bit y n \<longleftrightarrow> n mod (2 * t) < t \<and> bit v (n div (2 * t) * t + n mod t))"

lemma divmod_block: "r < (m :: nat) \<Longrightarrow> (m * q + r) div m = q \<and> (m * q + r) mod m = r"
  by simp

lemma spread_index:
  fixes h n :: nat
  assumes "h > 0" "n mod (2 * h) < h"
  shows "n mod (4 * h) < 2 * h \<Longrightarrow>
      n div (4 * h) * (2 * h) + n mod (2 * h) = n div (2 * h) * h + n mod h"
    and "n mod (4 * h) < 2 * h \<Longrightarrow> h \<le> n \<Longrightarrow> \<not> (n - h) mod (4 * h) < 2 * h"
    and "\<not> n mod (4 * h) < 2 * h \<Longrightarrow> h \<le> n \<and> (n - h) mod (4 * h) < 2 * h \<and>
      (n - h) div (4 * h) * (2 * h) + (n - h) mod (2 * h) = n div (2 * h) * h + n mod h"
proof -
  define q b r where "q = n div (4 * h)" "b = n mod (4 * h) div (2 * h)" "r = n mod (2 * h)"
  have "n = 4 * h * q + n mod (4 * h)" by (simp add: q_b_r_def)
  moreover have "n mod (4 * h) = 2 * h * b + r"
    unfolding q_b_r_def by (metis mod_mod_cancel dvd_triv_right mult_2 mult.assoc
      mult_div_mod_eq numeral_Bit0 one_add_one dvd_def mult.commute)
  ultimately have n: "n = 4 * h * q + 2 * h * b + r" by simp
  have "n mod (4 * h) < 2 * h * 2" using assms(1) by simp
  then have b: "b < 2" unfolding q_b_r_def by (simp add: less_mult_imp_div_less mult.commute)
  have r: "r < h" using assms by (simp add: q_b_r_def)
  have d2: "n div (2 * h) = 2 * q + b" "n mod (2 * h) = r"
    using divmod_block [of r "2 * h" "2 * q + b"] r by (simp_all add: n algebra_simps)
  have d1: "n mod h = r"
    using divmod_block [of r h "4 * q + 2 * b"] r by (simp_all add: n algebra_simps)
  have d4: "n div (4 * h) = q" "n mod (4 * h) = 2 * h * b + r"
    using divmod_block [of "2 * h * b + r" "4 * h" q] r b
    by (auto simp: n algebra_simps less_2_cases_iff)
  show "n div (4 * h) * (2 * h) + n mod (2 * h) = n div (2 * h) * h + n mod h"
    if "n mod (4 * h) < 2 * h"
  proof -
    have "b = 0" using that b by (auto simp: d4 less_2_cases_iff)
    then show ?thesis by (simp add: d1 d2 d4)
  qed
  show "\<not> (n - h) mod (4 * h) < 2 * h" if "n mod (4 * h) < 2 * h" "h \<le> n"
  proof -
    have b0: "b = 0" using that(1) b by (auto simp: d4 less_2_cases_iff)
    with that(2) n r have "q > 0" by (cases q) auto
    then obtain p where p: "q = Suc p" by (cases q) auto
    have "n - h = 4 * h * p + (3 * h + r)" by (simp add: n p b0 algebra_simps)
    with divmod_block [of "3 * h + r" "4 * h" p] r show ?thesis by simp
  qed
  show "h \<le> n \<and> (n - h) mod (4 * h) < 2 * h \<and>
      (n - h) div (4 * h) * (2 * h) + (n - h) mod (2 * h) = n div (2 * h) * h + n mod h"
    if "\<not> n mod (4 * h) < 2 * h"
  proof -
    have b1: "b = 1" using that b r by (auto simp: d4 less_2_cases_iff)
    have e: "n - h = 4 * h * q + (h + r)" "n - h = (2 * h) * (2 * q) + (h + r)"
      by (simp_all add: n b1 algebra_simps)
    have "(n - h) div (4 * h) = q" "(n - h) mod (4 * h) = h + r"
      using divmod_block [of "h + r" "4 * h" q] r by (simp_all add: e(1))
    moreover have "(n - h) mod (2 * h) = h + r"
      using divmod_block [of "h + r" "2 * h" "2 * q"] r by (simp add: e(2))
    ultimately have "(n - h) div (4 * h) * (2 * h) + (n - h) mod (2 * h) =
        n div (2 * h) * h + n mod h"
      by (simp only: d1 d2) (simp add: b1 algebra_simps)
    with \<open>(n - h) mod (4 * h) = h + r\<close> r show ?thesis by (simp add: n b1)
  qed
qed

lemma spread_step_at:
  assumes "spread_at t y v" "block_mask h m" "h > 0" "t = 2 * h"
  shows "spread_at h (spread_step h m y) v"
  unfolding spread_at_def
proof (intro allI impI)
  fix n :: nat assume n: "n < 128"
  have y: "bit y k \<longleftrightarrow> k mod (4 * h) < 2 * h \<and> bit v (k div (4 * h) * (2 * h) + k mod (2 * h))"
    if "k < 128" for k
    using assms(1,4) that by (simp add: spread_at_def)
  have m: "bit m n \<longleftrightarrow> n mod (2 * h) < h"
    using assms(2) n by (simp add: block_mask_def)
  have "bit (spread_step h m y) n \<longleftrightarrow>
      (bit y n \<or> (h \<le> n \<and> bit y (n - h))) \<and> n mod (2 * h) < h"
    using n by (auto simp: spread_step_def bit_simps m)
  also have "\<dots> \<longleftrightarrow> n mod (2 * h) < h \<and> bit v (n div (2 * h) * h + n mod h)"
  proof (cases "n mod (2 * h) < h")
    case True
    note ix = spread_index [OF assms(3) True]
    show ?thesis
      using y [OF n] y [of "n - h"] n ix True by (cases "n mod (4 * h) < 2 * h") auto
  qed simp
  finally show "bit (spread_step h m y) n \<longleftrightarrow> n mod (2 * h) < h \<and> bit v (n div (2 * h) * h + n mod h)" .
qed

lemma spread_bits_at: "spread_at 1 (spread_bits v) v"
proof -
  have s: "spread_at (2 * 32) (ucast v) v"
  proof -
    have "n < 64" if "bit v n" for n using bit_imp_le_length [OF that] by simp
    then show ?thesis by (fastforce simp: spread_at_def bit_simps)
  qed
  show ?thesis
    unfolding spread_bits_def
    by (((rule spread_step_at)+, rule s); (rule block_masks | simp))
qed

lemma bit_spread_bits: "bit (spread_bits v) n \<longleftrightarrow> even n \<and> bit v (n div 2)"
proof (cases "n < 128")
  case True
  then show ?thesis using spread_bits_at [of v] by (simp add: spread_at_def even_iff_mod_2_eq_zero)
next
  case False
  then show ?thesis
    using bit_imp_le_length [of "spread_bits v" n] bit_imp_le_length [of v "n div 2"] by auto
qed

lemma bit_interleave:
  "bit (interleave right left) n \<longleftrightarrow> n < 128 \<and> (if even n then bit left (n div 2) else bit right (n div 2))"
proof (cases "n < 128")
  case True
  have "bit (push_bit 1 (spread_bits right)) n \<longleftrightarrow> 1 \<le> n \<and> bit (spread_bits right) (n - 1)"
    using True by (simp only: bit_push_bit_iff) simp
  then show ?thesis
    using True by (cases n) (auto simp: interleave_def bit_or_iff bit_spread_bits simp del: push_bit_Suc)
next
  case False
  then show ?thesis using bit_imp_le_length [of "interleave right left" n] by auto
qed

section \<open>Sparse Bind\<close>

text \<open>
  What the operations of the sparse sumcheck array compute: the meaning of an array is the sum of
  the coefficients stored at each index, and every operation is described by its effect on that
  function.
\<close>

subsection \<open>What an array denotes\<close>

definition sq_denote :: "'a :: comm_ring_1 sparse_quad list \<Rightarrow> nat \<Rightarrow> nat \<Rightarrow> nat \<Rightarrow> 'a" where
  "sq_denote xs g l r =
     sum_list (map (\<lambda>e. if sq_gate_index e = g \<and> sq_left_wire_index e = l
                           \<and> sq_right_wire_index e = r then sq_coefficient e else 0) xs)"

text \<open>The same function seen from one hand: the hand's index first.\<close>

definition hand_denote :: "hand \<Rightarrow> 'a :: comm_ring_1 sparse_quad list \<Rightarrow> nat \<Rightarrow> nat \<Rightarrow> nat \<Rightarrow> 'a" where
  "hand_denote h xs g i v =
     sum_list (map (\<lambda>e. if sq_gate_index e = g \<and> hand_wire e h = i
                           \<and> hand_wire e (opposite h) = v then sq_coefficient e else 0) xs)"

lemma hand_denote_Left: "hand_denote HLeft xs g l r = sq_denote xs g l r"
  by (simp add: hand_denote_def sq_denote_def)

lemma hand_denote_Right: "hand_denote HRight xs g r l = sq_denote xs g l r"
  by (simp add: hand_denote_def sq_denote_def conj_commute conj_left_commute)

lemma hand_denote_simps [simp]:
  "hand_denote h [] g i v = 0"
  "hand_denote h (e # xs) g i v =
     (if sq_gate_index e = g \<and> hand_wire e h = i \<and> hand_wire e (opposite h) = v
      then sq_coefficient e else 0) + hand_denote h xs g i v"
  by (simp_all add: hand_denote_def)

text \<open>The gate dimension has been bound: the array is two-dimensional.\<close>

definition gate_bound :: "'a sparse_quad list \<Rightarrow> bool" where
  "gate_bound xs \<longleftrightarrow> (\<forall>e \<in> set xs. sq_gate_index e = 0)"

lemma gate_bound_simps [simp]:
  "gate_bound []"
  "gate_bound (e # xs) \<longleftrightarrow> sq_gate_index e = 0 \<and> gate_bound xs"
  by (simp_all add: gate_bound_def)

lemma gate_bound_subset: "gate_bound xs \<Longrightarrow> set ys \<subseteq> set xs \<Longrightarrow> gate_bound ys"
  by (auto simp: gate_bound_def)

text \<open>The loop of \<open>bind_hand\<close> as a recursion on the list.\<close>

fun bound_quads :: "hand \<Rightarrow> 'a :: comm_ring_1 \<Rightarrow> 'a sparse_quad list \<Rightarrow> 'a sparse_quad list" where
  "bound_quads h x [] = []"
| "bound_quads h x [c] =
     [sparse_quad_new 0 h (hand_wire c h div 2) (hand_wire c (opposite h))
        ((if even (hand_wire c h) then 1 - x else x) * sq_coefficient c)]"
| "bound_quads h x (c # n # rest) =
     (if even (hand_wire c h) \<and> is_next_wire c h (Some n) = Some n then
        sparse_quad_new 0 h (hand_wire c h div 2) (hand_wire c (opposite h))
          (sq_coefficient c + x * (sq_coefficient n - sq_coefficient c)) # bound_quads h x rest
      else
        sparse_quad_new 0 h (hand_wire c h div 2) (hand_wire c (opposite h))
          ((if even (hand_wire c h) then 1 - x else x) * sq_coefficient c)
        # bound_quads h x (n # rest))"

lemma is_next_wire_cases:
  "is_next_wire c h (Some n) = Some n \<or> is_next_wire c h (Some n) = None"
  by (simp add: is_next_wire_def)

lemma is_next_wire_Some:
  "is_next_wire c h (Some n) = Some n \<longleftrightarrow>
     sq_gate_index n = sq_gate_index c \<and> hand_wire n h = hand_wire c h + 1
     \<and> hand_wire n (opposite h) = hand_wire c (opposite h)"
  by (simp add: is_next_wire_def)

lemma is_next_wire_None [simp]: "is_next_wire c h None = None"
  by (simp add: is_next_wire_def)

lemma take_update_Suc:
  "w < length xs \<Longrightarrow> take (Suc w) (xs[w := y]) = take w xs @ [y]"
  by (simp add: take_Suc_conv_app_nth)

lemma bind_hand_loop_bound_quads:
  assumes "wr \<le> rd" "gate_bound (drop rd xs)"
  shows "bind_hand_loop h x xs rd wr = Inr (take wr xs @ bound_quads h x (drop rd xs))"
  using assms
proof (induction h x xs rd wr rule: bind_hand_loop.induct)
  case (1 h x xs rd wr)
  show ?case
  proof (cases "rd < length xs")
    case False
    then show ?thesis by (subst bind_hand_loop.simps) simp
  next
    case True
    let ?c = "xs ! rd"
    let ?new = "\<lambda>v. sparse_quad_new 0 h (hand_wire ?c h div 2) (hand_wire ?c (opposite h)) v"
    have d: "drop rd xs = ?c # drop (Suc rd) xs" using True by (rule Cons_nth_drop_Suc [symmetric])
    have g: "sq_gate_index ?c = 0" using 1(3) by (simp add: d)
    have rec: "bind_hand_loop h x xs rd wr =
        Inr (take wr xs @ ?new c # bound_quads h x (drop r xs))"
      if step: "bind_hand_step h x xs rd = Inr (c, r)" for c r
    proof -
      have r: "r = rd + 1 \<or> r = rd + 2" using bind_hand_step_read [OF step] .
      have w: "wr < length xs" "wr < r" using True 1(2) r by auto
      have "drop r (xs[wr := ?new c]) = drop r xs" using w by simp
      moreover have "gate_bound (drop r xs)"
        using 1(3) r set_drop_subset_set_drop [of rd r xs] by (auto intro: gate_bound_subset)
      ultimately have "bind_hand_loop h x (xs[wr := ?new c]) r (wr + 1) =
          Inr (take (wr + 1) (xs[wr := ?new c]) @ bound_quads h x (drop r xs))"
        using 1(1) [OF True step] w by simp
      then show ?thesis
        using True by (subst bind_hand_loop.simps) (simp add: step take_update_Suc [OF w(1)])
    qed
    show ?thesis
    proof (cases "drop (Suc rd) xs")
      case Nil
      then have nx: "nth_opt xs (Suc rd) = None" by (simp add: nth_opt_def)
      then have "bind_hand_step h x xs rd =
          Inr ((if even (hand_wire ?c h) then 1 - x else x) * sq_coefficient ?c, rd + 1)"
        by (simp add: bind_hand_step_def Let_def g)
      from rec [OF this] show ?thesis using Nil by (simp add: d)
    next
      case (Cons n rest)
      then have len: "Suc rd < length xs" by (metis drop_eq_Nil list.distinct(1) not_less)
      have n: "xs ! Suc rd = n" "drop (Suc (Suc rd)) xs = rest"
        using Cons len by (metis Cons_nth_drop_Suc list.inject)+
      have nx: "nth_opt xs (Suc rd) = Some n" using len n by (simp add: nth_opt_def)
      have gn: "sq_gate_index n = 0" using 1(3) Cons by (simp add: d)
      consider (merge) "even (hand_wire ?c h)" "is_next_wire ?c h (Some n) = Some n"
        | (single) "\<not> (even (hand_wire ?c h) \<and> is_next_wire ?c h (Some n) = Some n)"
        by blast
      then show ?thesis
      proof cases
        case merge
        then have "bind_hand_step h x xs rd =
            Inr (sq_coefficient ?c + x * (sq_coefficient n - sq_coefficient ?c), rd + 2)"
          by (simp add: bind_hand_step_def Let_def g nx gn)
        from rec [OF this] merge show ?thesis using Cons n by (simp add: d)
      next
        case single
        then have "bind_hand_step h x xs rd =
            Inr ((if even (hand_wire ?c h) then 1 - x else x) * sq_coefficient ?c, rd + 1)"
          using is_next_wire_cases [of ?c h n] by (auto simp: bind_hand_step_def Let_def g nx)
        from rec [OF this] single show ?thesis using Cons by (auto simp: d)
      qed
    qed
  qed
qed

lemma bind_hand_bound_quads:
  "gate_bound xs \<Longrightarrow> bind_hand h x xs = Inr (bound_quads h x xs)"
  by (simp add: bind_hand_def bind_hand_loop_bound_quads)

lemma bound_quads_gate: "gate_bound (bound_quads h x xs)"
  by (induction h x xs rule: bound_quads.induct) auto

lemma bound_quad_denote:
  "bind_fun x (\<lambda>k. if w = k \<and> b then c else 0) i =
     (if w div 2 = i \<and> b then (if even w then 1 - x else x) * c else 0)"
  by (auto simp: bind_fun_def elim!: evenE oddE)

lemma bind_fun_add: "bind_fun x (\<lambda>k. A k + B k) i = bind_fun x A i + bind_fun x B i"
  by (simp add: bind_fun_def algebra_simps)

lemma if_merge:
  "A + B = (E :: 'a :: comm_monoid_add) \<Longrightarrow>
   (if b then A else 0) + ((if b then B else 0) + Z) = (if b then E else 0) + Z"
  by (simp flip: add.assoc)

lemma bound_quads_denote:
  assumes "gate_bound xs"
  shows "hand_denote h (bound_quads h x xs) 0 i v = bind_fun x (\<lambda>k. hand_denote h xs 0 k v) i"
  using assms
proof (induction h x xs rule: bound_quads.induct)
  case (1 h x)
  then show ?case by (simp add: bind_fun_def)
next
  case (2 h x c)
  then show ?case by (simp add: bind_fun_add bound_quad_denote)
next
  case (3 h x c n rest)
  show ?case
  proof (cases "even (hand_wire c h) \<and> is_next_wire c h (Some n) = Some n")
    case True
    then have n: "hand_wire n h = Suc (hand_wire c h)"
      "hand_wire n (opposite h) = hand_wire c (opposite h)" "even (hand_wire c h)"
      by (auto simp: is_next_wire_Some)
    have d: "Suc (hand_wire c h) div 2 = hand_wire c h div 2" using n(3) by simp
    have IH: "hand_denote h (bound_quads h x rest) 0 i v = bind_fun x (\<lambda>k. hand_denote h rest 0 k v) i"
      using 3(3) by (intro 3(1) [OF True]) simp
    have g: "sq_gate_index c = 0" "sq_gate_index n = 0" using 3(3) by simp_all
    have E: "(1 - x) * sq_coefficient c + x * sq_coefficient n =
        sq_coefficient c + x * (sq_coefficient n - sq_coefficient c)"
      by (simp add: algebra_simps)
    have "bind_fun x (\<lambda>k. hand_denote h (c # n # rest) 0 k v) i =
      (if hand_wire c h div 2 = i \<and> hand_wire c (opposite h) = v
        then (1 - x) * sq_coefficient c else 0) +
      ((if hand_wire c h div 2 = i \<and> hand_wire c (opposite h) = v
        then x * sq_coefficient n else 0) + bind_fun x (\<lambda>k. hand_denote h rest 0 k v) i)"
      by (simp only: hand_denote_simps bind_fun_add bound_quad_denote g n(1,2) d simp_thms)
        (simp add: n(3))
    also have "\<dots> = (if hand_wire c h div 2 = i \<and> hand_wire c (opposite h) = v
        then sq_coefficient c + x * (sq_coefficient n - sq_coefficient c) else 0) +
       hand_denote h (bound_quads h x rest) 0 i v"
      by (simp only: if_merge [OF E] IH)
    also have "\<dots> = hand_denote h (bound_quads h x (c # n # rest)) 0 i v"
      using True by simp
    finally show ?thesis by (rule sym)
  next
    case False
    have IH: "hand_denote h (bound_quads h x (n # rest)) 0 i v =
        bind_fun x (\<lambda>k. hand_denote h (n # rest) 0 k v) i"
      using 3(3) by (intro 3(2) [OF False]) simp
    have g: "sq_gate_index c = 0" using 3(3) by simp
    have "hand_denote h (bound_quads h x (c # n # rest)) 0 i v =
      (if hand_wire c h div 2 = i \<and> hand_wire c (opposite h) = v
       then (if even (hand_wire c h) then 1 - x else x) * sq_coefficient c else 0) +
      hand_denote h (bound_quads h x (n # rest)) 0 i v"
      using False by (simp only: bound_quads.simps if_False hand_denote_simps(2)
        sparse_quad_new_simps simp_thms)
    also have "\<dots> = bind_fun x (\<lambda>k. hand_denote h (c # n # rest) 0 k v) i"
      by (simp only: hand_denote_simps(2) [of h c "n # rest"] bind_fun_add bound_quad_denote
        g simp_thms IH)
    finally show ?thesis .
  qed
qed

subsection \<open>Merging neighbours\<close>

definition same_wires :: "'a sparse_quad \<Rightarrow> 'a sparse_quad \<Rightarrow> bool" where
  "same_wires a b \<longleftrightarrow> sq_left_wire_index a = sq_left_wire_index b
     \<and> sq_right_wire_index a = sq_right_wire_index b"

definition absorb :: "'a :: comm_ring_1 sparse_quad \<Rightarrow> 'a sparse_quad \<Rightarrow> 'a sparse_quad" where
  "absorb e lst = lst\<lparr>sq_coefficient := sq_coefficient lst + sq_coefficient e\<rparr>"

lemma absorb_simps [simp]:
  "hand_wire (absorb e lst) h = hand_wire lst h"
  "sq_gate_index (absorb e lst) = sq_gate_index lst"
  "sq_coefficient (absorb e lst) = sq_coefficient lst + sq_coefficient e"
  by (cases h) (simp_all add: absorb_def)

lemma same_wires_hand: "same_wires a b \<Longrightarrow> hand_wire a h = hand_wire b h"
  by (cases h) (simp_all add: same_wires_def)

fun merge_adjacent :: "'a :: comm_ring_1 sparse_quad \<Rightarrow> 'a sparse_quad list \<Rightarrow> 'a sparse_quad list" where
  "merge_adjacent lst [] = [lst]"
| "merge_adjacent lst (e # es) =
     (if same_wires e lst then merge_adjacent (absorb e lst) es else lst # merge_adjacent e es)"

lemma compact_loop:
  assumes "0 < w" "w \<le> k" "k \<le> length xs"
  shows "\<exists>ys w'. fold_res compact_step [k..<length xs] (xs, w) = Inr (ys, w') \<and>
    take w' ys = take (w - 1) xs @ merge_adjacent (xs ! (w - 1)) (drop k xs)"
  using assms
proof (induction "length xs - k" arbitrary: k w xs)
  case 0
  then have "take w xs = take (w - 1) xs @ [xs ! (w - 1)]"
    by (metis Suc_diff_1 diff_is_0_eq le_trans less_le_trans Suc_le_eq take_Suc_conv_app_nth)
  with 0 show ?case by simp
next
  case (Suc n)
  then have k: "k < length xs" "w - 1 < length xs" "w \<le> length xs" "w - 1 < k" by simp_all
  have up: "[k..<length xs] = k # [Suc k..<length xs]" using k by (simp add: upt_conv_Cons)
  have d: "drop k xs = xs ! k # drop (Suc k) xs" using k by (simp add: Cons_nth_drop_Suc)
  let ?last = "xs ! (w - 1)"
  show ?case
  proof (cases "same_wires (xs ! k) ?last")
    case True
    let ?xs = "xs[w - 1 := absorb (xs ! k) ?last]"
    have "compact_step k (xs, w) = Inr (?xs, w)"
      using True k by (simp add: compact_step_def absorb_def same_wires_def)
    moreover have "\<exists>ys w'. fold_res compact_step [Suc k..<length ?xs] (?xs, w) = Inr (ys, w') \<and>
        take w' ys = take (w - 1) ?xs @ merge_adjacent (?xs ! (w - 1)) (drop (Suc k) ?xs)"
      using Suc.prems Suc.hyps(2) k by (intro Suc.hyps(1)) simp_all
    ultimately show ?thesis using True k by (simp add: up d)
  next
    case False
    let ?xs = "xs[w := xs ! k]"
    have w: "w < length xs" using k Suc.prems by simp
    have "compact_step k (xs, w) = Inr (?xs, w + 1)"
      using False k w by (auto simp: compact_step_def same_wires_def)
    moreover have "\<exists>ys w'. fold_res compact_step [Suc k..<length ?xs] (?xs, w + 1) = Inr (ys, w') \<and>
        take w' ys = take (w + 1 - 1) ?xs @ merge_adjacent (?xs ! (w + 1 - 1)) (drop (Suc k) ?xs)"
      using Suc.prems Suc.hyps(2) k by (intro Suc.hyps(1)) simp_all
    moreover have "take w xs = take (w - 1) xs @ [?last]"
      using Suc.prems(1) k(2) by (metis Suc_diff_1 take_Suc_conv_app_nth)
    moreover have "drop (Suc k) ?xs = drop (Suc k) xs" using Suc.prems(2) by simp
    ultimately show ?thesis using False w by (simp add: up d)
  qed
qed

lemma compact_merge: "compact (x # xs) = Inr (merge_adjacent x xs)"
proof -
  have "\<exists>ys w'. fold_res compact_step [1..<length (x # xs)] (x # xs, 1) = Inr (ys, w') \<and>
    take w' ys = take (1 - 1) (x # xs) @ merge_adjacent ((x # xs) ! (1 - 1)) (drop 1 (x # xs))"
    by (rule compact_loop) simp_all
  then show ?thesis by (auto simp: compact_def)
qed

lemma compact_Nil: "compact [] = Inr []"
  by (simp add: compact_def)

lemma hand_denote_merge:
  "gate_bound (x # xs) \<Longrightarrow>
   hand_denote h (merge_adjacent x xs) g i v = hand_denote h (x # xs) g i v"
proof (induction x xs rule: merge_adjacent.induct)
  case (2 lst e es)
  show ?case
  proof (cases "same_wires e lst")
    case True
    note w = same_wires_hand [OF True]
    have "hand_denote h (merge_adjacent (absorb e lst) es) g i v =
        hand_denote h (absorb e lst # es) g i v"
      using 2(3) by (intro 2(1) [OF True]) simp
    also have "\<dots> = hand_denote h (lst # e # es) g i v"
      using 2(3) by (auto simp: w)
    finally show ?thesis using True by (simp only: merge_adjacent.simps if_True)
  next
    case False
    then have "hand_denote h (merge_adjacent e es) g i v = hand_denote h (e # es) g i v"
      using 2(3) by (intro 2(2)) simp_all
    with False show ?thesis
      by (simp only: merge_adjacent.simps if_False hand_denote_simps(2) [of h lst])
  qed
qed simp

lemma merge_adjacent_gate:
  "gate_bound (x # xs) \<Longrightarrow>
   gate_bound (merge_adjacent x xs)"
proof (induction x xs rule: merge_adjacent.induct)
  case (2 lst e es)
  show ?case
  proof (cases "same_wires e lst")
    case True
    with 2(1) [OF True] 2(3) show ?thesis by simp
  next
    case False
    with 2(2) [OF False] 2(3) show ?thesis by simp
  qed
qed simp

subsection \<open>Binding the gates\<close>

definition weighed :: "'a :: comm_ring_1 list \<Rightarrow> 'a sparse_quad \<Rightarrow> 'a sparse_quad" where
  "weighed w e = e\<lparr>sq_coefficient := sq_coefficient e * w ! sq_gate_index e, sq_gate_index := 0\<rparr>"

lemma hand_wire_weighed [simp]: "hand_wire (weighed w e) h = hand_wire e h"
  by (cases h) (simp_all add: weighed_def)

lemma weighed_simps [simp]:
  "sq_gate_index (weighed w e) = 0"
  "sq_coefficient (weighed w e) = sq_coefficient e * w ! sq_gate_index e"
  by (simp_all add: weighed_def)

lemma gate_bound_weighed [simp]: "gate_bound (map (weighed w) xs)"
  by (induction xs) simp_all

lemma weigh_gates:
  assumes "\<forall>e \<in> set xs. sq_gate_index e < length w"
  shows "map_res (weigh_gate w) xs = Inr (map (weighed w) xs)"
  using assms by (intro map_res_Inr_map) (simp add: weigh_gate_def weighed_def)

lemma hand_denote_weighed:
  assumes "\<forall>e \<in> set xs. sq_gate_index e < n"
  shows "hand_denote h (map (weighed w) xs) 0 i v = (\<Sum>g < n. w ! g * hand_denote h xs g i v)"
  using assms
proof (induction xs)
  case (Cons e xs)
  let ?b = "hand_wire e h = i \<and> hand_wire e (opposite h) = v"
  have "(\<Sum>g < n. w ! g * (if sq_gate_index e = g \<and> ?b then sq_coefficient e else 0)) =
      (\<Sum>g < n. if g = sq_gate_index e then (if ?b then w ! g * sq_coefficient e else 0) else 0)"
    by (intro sum.cong) auto
  also have "\<dots> = (if ?b then sq_coefficient e * w ! sq_gate_index e else 0)"
    using Cons.prems by (simp add: mult.commute)
  finally show ?case
    using Cons by (simp add: distrib_left sum.distrib)
qed simp

lemma bindv_gate_eq:
  assumes "\<forall>e \<in> set xs. sq_gate_index e < 2 ^ length b0"
  shows "bindv_gate b0 b1 alpha xs =
    Inr (case map (weighed (bindeq b0 b1 alpha)) xs of [] \<Rightarrow> [] | y # ys \<Rightarrow> merge_adjacent y ys)"
proof -
  have "map_res (weigh_gate (bindeq b0 b1 alpha)) xs = Inr (map (weighed (bindeq b0 b1 alpha)) xs)"
    using assms by (intro weigh_gates) (simp add: length_bindeq)
  then show ?thesis
    by (cases xs) (simp_all only: bindv_gate_def and_then_simps list.map list.case compact_Nil
      compact_merge)
qed

lemma bindv_gate_hand_denote:
  assumes "\<forall>e \<in> set xs. sq_gate_index e < 2 ^ length b0" "length b0 = length b1"
    and "bindv_gate b0 b1 alpha xs = Inr ys"
  shows "hand_denote h ys 0 i v =
    (\<Sum>g < 2 ^ length b0. (eq_weight b0 g + alpha * eq_weight b1 g) * hand_denote h xs g i v)"
proof -
  let ?w = "bindeq b0 b1 alpha"
  have "hand_denote h ys 0 i v = hand_denote h (map (weighed ?w) xs) 0 i v"
    using assms by (cases xs) (auto simp: bindv_gate_eq hand_denote_merge simp del: hand_denote_simps(2))
  also have "\<dots> = (\<Sum>g < 2 ^ length b0. ?w ! g * hand_denote h xs g i v)"
    by (rule hand_denote_weighed [OF assms(1)])
  also have "\<dots> = (\<Sum>g < 2 ^ length b0.
      (eq_weight b0 g + alpha * eq_weight b1 g) * hand_denote h xs g i v)"
    using assms(2) by (intro sum.cong) (simp_all add: bindeq_nth)
  finally show ?thesis .
qed

subsection \<open>The intermediate array\<close>

lemma nth_list_update_add:
  "k < length A \<Longrightarrow> A[k := A ! k + (c :: 'a :: comm_ring_1)] ! i = A ! i + (if k = i then c else 0)"
  by (cases "k = i") auto

fun hand_of :: "hand \<Rightarrow> 'b \<times> 'b \<Rightarrow> 'b" where
  "hand_of HLeft p = fst p"
| "hand_of HRight p = snd p"

definition wires_in_range :: "hand \<Rightarrow> nat \<Rightarrow> nat \<Rightarrow> 'a sparse_quad list \<Rightarrow> bool" where
  "wires_in_range h n m xs \<longleftrightarrow>
     list_all (\<lambda>e. hand_wire e h < n \<and> hand_wire e (opposite h) < m) xs"

lemma compute_a_step_eq:
  assumes "hand_wire e h < length A" "hand_wire e (opposite h) < length (hand_of (opposite h) ws)"
  shows "compute_a_step h ws e A = Inr (A[hand_wire e h := A ! hand_wire e h +
    sq_coefficient e * hand_of (opposite h) ws ! hand_wire e (opposite h)])"
  using assms by (cases h) (simp_all add: compute_a_step_def)

lemma compute_a_loop:
  assumes "gate_bound xs" "wires_in_range h (length A) (length (hand_of (opposite h) ws)) xs"
  shows "\<exists>B. fold_res (compute_a_step h ws) xs A = Inr B \<and> length B = length A \<and>
    (\<forall>i. B ! i = A ! i + (\<Sum>v < length (hand_of (opposite h) ws).
      hand_denote h xs 0 i v * hand_of (opposite h) ws ! v))"
  using assms
proof (induction xs arbitrary: A)
  case (Cons e xs)
  let ?opp = "hand_of (opposite h) ws"
  let ?k = "hand_wire e h" and ?o = "hand_wire e (opposite h)"
  let ?A = "A[?k := A ! ?k + sq_coefficient e * ?opp ! ?o]"
  have k: "?k < length A" "?o < length ?opp" using Cons.prems by (simp_all add: wires_in_range_def)
  obtain B where B: "fold_res (compute_a_step h ws) xs ?A = Inr B" "length B = length A"
    "\<And>i. B ! i = ?A ! i + (\<Sum>v < length ?opp. hand_denote h xs 0 i v * ?opp ! v)"
    using Cons.IH [of ?A] Cons.prems by (auto simp: wires_in_range_def)
  have "B ! i = A ! i + (\<Sum>v < length ?opp. hand_denote h (e # xs) 0 i v * ?opp ! v)" for i
  proof -
    have "(\<Sum>v < length ?opp. (if ?k = i \<and> ?o = v then sq_coefficient e else 0) * ?opp ! v)
        = (\<Sum>v < length ?opp. if v = ?o then (if ?k = i then sq_coefficient e * ?opp ! v else 0) else 0)"
      by (intro sum.cong) auto
    also have "\<dots> = (if ?k = i then sq_coefficient e * ?opp ! ?o else 0)" using k by simp
    finally show ?thesis
      using Cons.prems(1) k
      by (simp add: B nth_list_update_add distrib_right sum.distrib)
  qed
  with B show ?case by (auto simp: compute_a_step_eq [OF k])
qed simp

lemma compute_a_hand_denote:
  assumes "gate_bound xs"
    and "wires_in_range h (length (hand_of h ws)) (length (hand_of (opposite h) ws)) xs"
  obtains A where "compute_a h ws xs = Inr A" "length A = length (hand_of h ws)"
    "\<And>i. i < length A \<Longrightarrow> A ! i = (\<Sum>v < length (hand_of (opposite h) ws).
       hand_denote h xs 0 i v * hand_of (opposite h) ws ! v)"
proof -
  have "\<exists>B. fold_res (compute_a_step h ws) xs (replicate (length (hand_of h ws)) 0) = Inr B \<and>
    length B = length (replicate (length (hand_of h ws)) (0 :: 'a)) \<and>
    (\<forall>i. B ! i = replicate (length (hand_of h ws)) 0 ! i +
      (\<Sum>v < length (hand_of (opposite h) ws). hand_denote h xs 0 i v * hand_of (opposite h) ws ! v))"
    using assms by (intro compute_a_loop) simp_all
  moreover have "compute_a h ws xs =
      fold_res (compute_a_step h ws) xs (replicate (length (hand_of h ws)) 0)"
    by (cases h) (simp_all add: compute_a_def)
  ultimately show ?thesis using that by fastforce
qed

end
