(* ===== verification/Sparse_Order.thy ===== *)
theory Sparse_Order
  imports Sparse
begin

text \<open>
  Why the sparse array of \<open>src/src/sumcheck/bind/sparse.rs\<close> is sorted by interleaved wire indices:
  every binding of a hand halves the sort key, and an array strictly sorted for one hand comes out
  strictly sorted for the other. So neighbours that have to be merged are always adjacent, and the
  alternating bindings of the sumcheck rounds leave at most one element.
\<close>

unbundle bit_operations_syntax

subsection \<open>The interleaving of two natural numbers\<close>

text \<open>\<open>il o w\<close> has the bits of \<open>w\<close> at the even and those of \<open>o\<close> at the odd positions.\<close>

function il :: "nat \<Rightarrow> nat \<Rightarrow> nat" where
  "il ov w = (if ov = 0 \<and> w = 0 then 0 else w mod 2 + 2 * il (w div 2) ov)"
  by pat_completeness auto
termination by (relation "measure (\<lambda>(ov, w). 3 * ov + 2 * w)") auto

declare il.simps [simp del]

lemma il_0 [simp]: "il 0 0 = 0"
  by (simp add: il.simps)

lemma il_rec: "il ov w = w mod 2 + 2 * il (w div 2) ov"
  by (cases "ov = 0 \<and> w = 0") (simp_all add: il.simps [of ov w])

lemma il_div_2: "il ov w div 2 = il (w div 2) ov"
  by (subst il_rec) simp

lemma il_mod_2: "il ov w mod 2 = w mod 2"
  by (subst il_rec) simp

lemma il_inj: "il a b = il c d \<Longrightarrow> a = c \<and> b = d"
proof (induction a b arbitrary: c d rule: il.induct)
  case (1 a b)
  show ?case
  proof (cases "a = 0 \<and> b = 0")
    case True
    have "il c d = 0 \<Longrightarrow> c = 0 \<and> d = 0"
    proof (induction c d rule: il.induct)
      case (1 c d)
      have "d mod 2 = 0" "il (d div 2) c = 0"
        using 1(2) il_mod_2 [of c d] il_div_2 [of c d] by simp_all
      with 1(1) show ?case by (cases "c = 0 \<and> d = 0") auto
    qed
    with True 1(2) show ?thesis by simp
  next
    case False
    have "il (b div 2) a = il (d div 2) c" using 1(2) il_div_2 [of a b] il_div_2 [of c d] by simp
    from 1(1) [OF False this] have "b div 2 = d div 2" "a = c" by simp_all
    moreover have "b mod 2 = d mod 2" using 1(2) il_mod_2 [of a b] il_mod_2 [of c d] by simp
    ultimately show ?thesis by (metis div_mult_mod_eq)
  qed
qed

lemma il_bound: "ov < 2 ^ k \<Longrightarrow> w < 2 ^ k \<Longrightarrow> il ov w < 4 ^ k"
proof (induction k arbitrary: ov w)
  case (Suc k)
  have "il (ov div 2) (w div 2) < 4 ^ k" using Suc by (intro Suc.IH) auto
  moreover have "il ov w = w mod 2 + 2 * (ov mod 2 + 2 * il (ov div 2) (w div 2))"
    by (subst il_rec) (subst il_rec, simp)
  moreover have "w mod 2 \<le> 1" "ov mod 2 \<le> 1" by auto
  ultimately show ?case by simp
qed simp

lemma bit_il: "bit (il ov w) n \<longleftrightarrow> (if even n then bit w (n div 2) else bit ov (n div 2))"
proof (induction n arbitrary: ov w)
  case 0
  show ?case using il_mod_2 [of ov w] by (simp add: bit_0 even_iff_mod_2_eq_zero)
next
  case (Suc n)
  have "bit (il ov w) (Suc n) = bit (il (w div 2) ov) n" by (simp add: bit_Suc il_div_2)
  then show ?case by (auto simp: Suc bit_Suc elim!: evenE oddE)
qed

lemma unat_interleave: "unat (interleave right left) = il (unat right) (unat left)"
proof (rule bit_eqI)
  fix n
  have "n < 128" if "bit left (n div 2) \<or> bit right (n div 2)"
    using that bit_imp_le_length [of left "n div 2"] bit_imp_le_length [of right "n div 2"] by auto
  then show "bit (unat (interleave right left)) n = bit (il (unat right) (unat left)) n"
    by (auto simp: bit_unsigned_iff bit_interleave bit_il)
qed

subsection \<open>The sort key of a hand\<close>

definition hkey :: "hand \<Rightarrow> 'a sparse_quad \<Rightarrow> nat" where
  "hkey h e = il (hand_wire e (opposite h)) (hand_wire e h)"

lemma hkey_new: "hkey (opposite h) (sparse_quad_new g h (w div 2) v c) = il v w div 2"
  by (simp add: hkey_def il_div_2)

lemma hkey_mod: "hkey h e mod 2 = hand_wire e h mod 2"
  by (simp add: hkey_def il_mod_2)

lemma hkey_even_next:
  assumes "even (hand_wire c h)" "hkey h n = Suc (hkey h c)"
  shows "hand_wire n h = Suc (hand_wire c h)" "hand_wire n (opposite h) = hand_wire c (opposite h)"
proof -
  have e: "hkey h c mod 2 = 0" using assms(1) by (simp add: hkey_mod)
  then have d: "hkey h n div 2 = hkey h c div 2" "hkey h n mod 2 = 1"
    using assms(2) by (presburger, presburger)
  then have "hand_wire n h div 2 = hand_wire c h div 2 \<and>
      hand_wire n (opposite h) = hand_wire c (opposite h)"
    by (intro il_inj) (simp add: hkey_def il_div_2)
  moreover have "hand_wire n h mod 2 = 1" using d(2) by (simp add: hkey_mod)
  ultimately show "hand_wire n h = Suc (hand_wire c h)"
    "hand_wire n (opposite h) = hand_wire c (opposite h)"
    using assms(1) by presburger+
qed

abbreviation sorted_keys :: "hand \<Rightarrow> 'a sparse_quad list \<Rightarrow> bool" where
  "sorted_keys h xs \<equiv> sorted_wrt (<) (map (hkey h) xs)"

lemma bound_quads_keys:
  assumes "gate_bound xs" "sorted_keys h xs"
  shows "sorted_keys (opposite h) (bound_quads h x xs) \<and>
    hkey (opposite h) ` set (bound_quads h x xs) = (\<lambda>e. hkey h e div 2) ` set xs"
  using assms
proof (induction h x xs rule: bound_quads.induct)
  case (2 h x c)
  then show ?case by (simp add: hkey_new) (simp add: hkey_def)
next
  case (3 h x c n rest)
  have less: "hkey h c < hkey h n" "\<And>e. e \<in> set rest \<Longrightarrow> hkey h n < hkey h e"
    using 3(4) by auto
  show ?case
  proof (cases "even (hand_wire c h) \<and> is_next_wire c h (Some n) = Some n")
    case True
    then have n: "hand_wire n h = Suc (hand_wire c h)"
      "hand_wire n (opposite h) = hand_wire c (opposite h)" "even (hand_wire c h)"
      by (auto simp: is_next_wire_Some)
    have k: "hkey h n = Suc (hkey h c)" "even (hkey h c)"
    proof -
      show ev: "even (hkey h c)" using n(3) by (metis hkey_mod even_iff_mod_2_eq_zero)
      have "hkey h n div 2 = hkey h c div 2" using n by (simp add: hkey_def il_div_2)
      moreover have "hkey h n mod 2 = 1" using n by (simp add: hkey_mod) presburger
      ultimately show "hkey h n = Suc (hkey h c)" using ev by presburger
    qed
    have IH: "sorted_keys (opposite h) (bound_quads h x rest)"
      "hkey (opposite h) ` set (bound_quads h x rest) = (\<lambda>e. hkey h e div 2) ` set rest"
      using 3(1) [OF True] 3(3,4) by auto
    have lt: "hkey h c div 2 < hkey h e div 2" if "e \<in> set rest" for e
      using less(2) [OF that] k by presburger
    have "\<forall>k \<in> hkey (opposite h) ` set (bound_quads h x rest). hkey h c div 2 < k"
      unfolding IH(2) using lt by blast
    moreover have "il (hand_wire c (opposite h)) (hand_wire c h) div 2 = hkey h c div 2"
      "hkey h n div 2 = hkey h c div 2"
      using k by (simp_all add: hkey_def)
    ultimately show ?thesis
      using True IH by (simp add: hkey_new)
  next
    case False
    have IH: "sorted_keys (opposite h) (bound_quads h x (n # rest))"
      "hkey (opposite h) ` set (bound_quads h x (n # rest)) = (\<lambda>e. hkey h e div 2) ` set (n # rest)"
      using 3(2) [OF False] 3(3,4) by auto
    have "hkey h c div 2 < hkey h n div 2"
    proof (cases "even (hand_wire c h)")
      case True
      then have "\<not> hkey h n = Suc (hkey h c)"
        using False hkey_even_next [OF True, of n] 3(3) by (auto simp: is_next_wire_Some)
      moreover have "even (hkey h c)" using True by (metis hkey_mod even_iff_mod_2_eq_zero)
      ultimately show ?thesis using less(1) by presburger
    next
      case odd: False
      then have "odd (hkey h c)" by (metis hkey_mod even_iff_mod_2_eq_zero)
      then show ?thesis using less(1) by presburger
    qed
    moreover have "hkey h n div 2 \<le> hkey h e div 2" if "e \<in> set rest" for e
      using less(2) [OF that] by (intro div_le_mono) simp
    ultimately have lt: "\<forall>k \<in> hkey (opposite h) ` set (bound_quads h x (n # rest)). hkey h c div 2 < k"
      unfolding IH(2) by (auto intro: less_le_trans)
    have i: "il (hand_wire c (opposite h)) (hand_wire c h) div 2 = hkey h c div 2"
      by (simp add: hkey_def)
    have "bound_quads h x (c # n # rest) =
        sparse_quad_new 0 h (hand_wire c h div 2) (hand_wire c (opposite h))
          ((if even (hand_wire c h) then 1 - x else x) * sq_coefficient c)
        # bound_quads h x (n # rest)"
      using False by (simp only: bound_quads.simps if_False)
    moreover have "(\<lambda>e. hkey h e div 2) ` set (c # n # rest) =
        insert (hkey h c div 2) ((\<lambda>e. hkey h e div 2) ` set (n # rest))" by simp
    ultimately show ?thesis
      using IH lt by (simp only: list.map sorted_wrt.simps list.set image_insert hkey_new i) simp
  qed
qed simp

subsection \<open>Merging after the gates are bound\<close>

lemma same_wires_hkey: "same_wires a b \<longleftrightarrow> hkey h a = hkey h b"
proof (cases h)
  case HLeft
  then show ?thesis by (auto simp: same_wires_def hkey_def dest: il_inj)
next
  case HRight
  then show ?thesis by (auto simp: same_wires_def hkey_def dest: il_inj)
qed

lemma hkey_absorb [simp]: "hkey h (absorb e lst) = hkey h lst"
  by (simp add: hkey_def)

lemma merge_adjacent_sorted:
  assumes "sorted (map (hkey h) (x # xs))"
  shows "sorted_keys h (merge_adjacent x xs) \<and>
    hkey h ` set (merge_adjacent x xs) = hkey h ` set (x # xs)"
  using assms
proof (induction x xs rule: merge_adjacent.induct)
  case (2 lst e es)
  show ?case
  proof (cases "same_wires e lst")
    case True
    then have "hkey h e = hkey h lst" by (simp add: same_wires_hkey [of _ _ h])
    with 2(1) [OF True] 2(3) True show ?thesis by auto
  next
    case False
    then have lt: "hkey h lst < hkey h e" using 2(3) by (auto simp: same_wires_hkey [of _ _ h])
    have IH: "sorted_keys h (merge_adjacent e es)"
      "hkey h ` set (merge_adjacent e es) = hkey h ` set (e # es)"
      using 2(2) [OF False] 2(3) by auto
    have "\<forall>k \<in> hkey h ` set (merge_adjacent e es). hkey h lst < k"
      unfolding IH(2) using lt 2(3) by auto
    with IH False show ?thesis by simp
  qed
qed simp

lemma hkey_weighed [simp]: "hkey h (weighed w e) = hkey h e"
  by (simp add: hkey_def)

lemma bindv_gate_sorted:
  assumes "\<forall>e \<in> set xs. sq_gate_index e < 2 ^ length b0" "sorted (map (hkey h) xs)"
    and "bindv_gate b0 b1 alpha xs = Inr ys"
  shows "sorted_keys h ys" "hkey h ` set ys = hkey h ` set xs" "gate_bound ys"
proof -
  let ?w = "bindeq b0 b1 alpha"
  have "sorted_keys h ys \<and> hkey h ` set ys = hkey h ` set xs \<and> gate_bound ys"
  proof (cases xs)
    case Nil
    with assms show ?thesis by (simp add: bindv_gate_def compact_Nil)
  next
    case (Cons e es)
    have ys: "ys = merge_adjacent (weighed ?w e) (map (weighed ?w) es)"
      using assms(3) by (simp add: bindv_gate_eq [OF assms(1)]) (simp add: Cons)
    have "sorted (map (hkey h) (weighed ?w e # map (weighed ?w) es))"
      using assms(2) by (simp add: Cons comp_def)
    from merge_adjacent_sorted [OF this] have "sorted_keys h ys"
      "hkey h ` set ys = hkey h ` set xs"
      unfolding ys by (simp_all add: Cons image_image)
    moreover have "gate_bound ys"
      unfolding ys by (rule merge_adjacent_gate) simp
    ultimately show ?thesis by simp
  qed
  then show "sorted_keys h ys" "hkey h ` set ys = hkey h ` set xs" "gate_bound ys" by auto
qed

subsection \<open>Alternating bindings\<close>

text \<open>The rounds of a layer: bind the left hand, then the right, then the left again, ...\<close>

fun bind_alternating ::
  "hand \<Rightarrow> 'a :: comm_ring_1 list \<Rightarrow> 'a sparse_quad list \<Rightarrow> 'a sparse_quad list res" where
  "bind_alternating h [] xs = Inr xs"
| "bind_alternating h (c # cs) xs =
     and_then (bind_hand h c xs) (bind_alternating (opposite h) cs)"

text \<open>What the rounds compute: the multilinear extension in the challenges of either hand.\<close>

fun bind_alternating_fun ::
  "'a :: comm_ring_1 list \<Rightarrow> (nat \<Rightarrow> nat \<Rightarrow> 'a) \<Rightarrow> nat \<Rightarrow> nat \<Rightarrow> 'a" where
  "bind_alternating_fun [] A i v = A i v"
| "bind_alternating_fun (c # cs) A i v =
     bind_alternating_fun cs (\<lambda>v i. bind_fun c (\<lambda>k. A k v) i) i v"

lemma hand_denote_opposite: "hand_denote (opposite h) xs g v i = hand_denote h xs g i v"
  by (cases h) (simp_all add: hand_denote_Left hand_denote_Right)

lemma bind_alternating_denote:
  assumes "gate_bound xs" "bind_alternating h cs xs = Inr ys"
  shows "gate_bound ys" "hand_denote (if even (length cs) then h else opposite h) ys 0 i v =
    bind_alternating_fun cs (hand_denote h xs 0) i v"
proof -
  have "gate_bound ys \<and> hand_denote (if even (length cs) then h else opposite h) ys 0 i v =
    bind_alternating_fun cs (hand_denote h xs 0) i v"
    using assms
  proof (induction cs arbitrary: h xs)
    case (Cons c cs)
    let ?xs = "bound_quads h c xs"
    have "bind_alternating (opposite h) cs ?xs = Inr ys"
      using Cons.prems by (simp add: bind_hand_bound_quads)
    from Cons.IH [OF bound_quads_gate this]
    have "gate_bound ys" "hand_denote (if even (length cs) then opposite h else h) ys 0 i v =
        bind_alternating_fun cs (hand_denote (opposite h) ?xs 0) i v"
      by (cases "even (length cs)"; simp)+
    moreover have "hand_denote (opposite h) ?xs 0 = (\<lambda>v i. bind_fun c (\<lambda>k. hand_denote h xs 0 k v) i)"
      by (intro ext) (simp add: hand_denote_opposite bound_quads_denote Cons.prems)
    ultimately show ?case by auto
  qed simp
  then show "gate_bound ys" "hand_denote (if even (length cs) then h else opposite h) ys 0 i v =
    bind_alternating_fun cs (hand_denote h xs 0) i v" by auto
qed

lemma bind_alternating_keys:
  assumes "gate_bound xs" "sorted_keys h xs"
  shows "\<exists>ys h'. bind_alternating h cs xs = Inr ys \<and> sorted_keys h' ys \<and>
    hkey h' ` set ys = (\<lambda>e. hkey h e div 2 ^ length cs) ` set xs"
  using assms
proof (induction cs arbitrary: h xs)
  case Nil
  then show ?case by auto
next
  case (Cons c cs)
  let ?xs = "bound_quads h c xs"
  have k: "sorted_keys (opposite h) ?xs" "hkey (opposite h) ` set ?xs = (\<lambda>e. hkey h e div 2) ` set xs"
    using bound_quads_keys [OF Cons.prems] by auto
  obtain ys h' where ys: "bind_alternating (opposite h) cs ?xs = Inr ys" "sorted_keys h' ys"
    "hkey h' ` set ys = (\<lambda>e. hkey (opposite h) e div 2 ^ length cs) ` set ?xs"
    using Cons.IH [OF bound_quads_gate k(1)] by auto
  have "(\<lambda>e. hkey (opposite h) e div 2 ^ length cs) ` set ?xs =
      (\<lambda>n. n div 2 ^ length cs) ` hkey (opposite h) ` set ?xs" by (simp add: image_image)
  also have "\<dots> = (\<lambda>e. hkey h e div 2 ^ length (c # cs)) ` set xs"
    unfolding k(2) by (simp add: image_image div_mult2_eq)
  finally show ?case
    using ys Cons.prems by (auto simp: bind_hand_bound_quads)
qed

lemma sorted_keys_all_0:
  assumes "sorted_wrt (<) (map f xs)" "f ` set xs \<subseteq> {0 :: nat}"
  shows "length xs \<le> 1"
proof (cases xs)
  case (Cons a ys)
  with assms show ?thesis by (cases ys) auto
qed simp

lemma bind_alternating_single:
  assumes "gate_bound xs" "sorted_keys h xs" "\<forall>e \<in> set xs. hkey h e < 2 ^ length cs"
  shows "\<exists>ys. bind_alternating h cs xs = Inr ys \<and> length ys \<le> 1 \<and> (xs \<noteq> [] \<longrightarrow> length ys = 1) \<and>
    (\<forall>e \<in> set ys. sq_gate_index e = 0 \<and> sq_left_wire_index e = 0 \<and> sq_right_wire_index e = 0)"
proof -
  obtain ys h' where ys: "bind_alternating h cs xs = Inr ys" "sorted_keys h' ys"
    "hkey h' ` set ys = (\<lambda>e. hkey h e div 2 ^ length cs) ` set xs"
    using bind_alternating_keys [OF assms(1,2)] by blast
  have z: "hkey h' ` set ys \<subseteq> {0}" unfolding ys(3) using assms(3) by auto
  have len: "length ys \<le> 1" by (rule sorted_keys_all_0 [OF ys(2) z])
  have "length ys = 1" if "xs \<noteq> []"
  proof -
    have "ys \<noteq> []" using ys(3) that by auto
    with len show ?thesis by (cases ys) auto
  qed
  moreover have "sq_left_wire_index e = 0 \<and> sq_right_wire_index e = 0" if "e \<in> set ys" for e
  proof -
    have "il (hand_wire e (opposite h')) (hand_wire e h') = il 0 0"
      using z that by (auto simp: hkey_def)
    from il_inj [OF this] show ?thesis by (cases h') auto
  qed
  moreover have "gate_bound ys" using bind_alternating_denote(1) [OF assms(1) ys(1)] .
  ultimately show ?thesis using ys(1) len by (auto simp: gate_bound_def)
qed

subsection \<open>The order of the circuit files\<close>

definition is_sorted_quads :: "'a sparse_quad list \<Rightarrow> bool" where
  "is_sorted_quads xs \<longleftrightarrow>
     successively (\<lambda>a b. sparse_quad_cmp a b \<in> {Inr OLess, Inr OEqual}) xs"

lemma interleaved_wires_hkey:
  assumes "sq_left_wire_index e < 2 ^ 64" "sq_right_wire_index e < 2 ^ 64"
  shows "unat (interleaved_wires e) = hkey HLeft e"
  using assms by (simp add: interleaved_wires_def unat_interleave hkey_def unat_of_nat)

lemma is_sorted_quads_hkey:
  assumes "is_sorted_quads xs"
    and "\<forall>e \<in> set xs. sq_left_wire_index e < 2 ^ 64 \<and> sq_right_wire_index e < 2 ^ 64"
  shows "sorted (map (hkey HLeft) xs)"
proof -
  have "successively (\<lambda>a b. hkey HLeft a \<le> hkey HLeft b) xs"
    using assms
  proof (induction xs rule: induct_list012)
    case (3 a b xs)
    have "interleaved_wires a \<le> interleaved_wires b"
      using 3(3) by (auto simp: is_sorted_quads_def sparse_quad_cmp_def cmp_key_def Let_def
          and_then_Inr_iff split: if_splits)
    then have "hkey HLeft a \<le> hkey HLeft b"
      using 3(4) by (simp add: word_le_nat_alt interleaved_wires_hkey)
    with 3 show ?case by (auto simp: is_sorted_quads_def)
  qed simp_all
  then show ?thesis
    by (simp add: sorted_map_same successively_conv_sorted_wrt [symmetric]
        sorted_wrt_map transp_def)
qed

end
