(* ===== verification/Circuit.thy ===== *)
theory Circuit
  imports Sparse_Order
begin

text \<open>
  Circuits, \<open>src/src/circuit.rs\<close>: the record \<open>circuit\<close> with its layers and quads, the wire
  format (quads are delta coded against their predecessor), evaluation of a circuit on an input
  vector, the combined quad of a layer, and the circuit identifier. SHA-256 is the parameter
  \<open>sha\<close> of the identifier.

  Layer 0 is the output layer and the input layer comes last, as in the source. Array indices are
  natural numbers; subtraction on \<open>usize\<close> wraps around as in a release build.
\<close>

unbundle bit_operations_syntax

subsection \<open>Data\<close>

record quad =
  gate_index :: nat
  left_wire_index :: nat
  right_wire_index :: nat
  const_table_index :: nat

definition quad_default :: quad where
  "quad_default = \<lparr>gate_index = 0, left_wire_index = 0, right_wire_index = 0, const_table_index = 0\<rparr>"

record circuit_layer =
  layer_logw :: size
  layer_num_wires :: size
  layer_quads :: "quad list"

record 'a circuit =
  c_version :: byte
  c_num_outputs :: nat
  c_num_copies :: nat
  c_num_public_inputs :: nat
  c_subfield_boundary :: nat
  c_num_inputs :: nat
  c_num_layers :: nat
  c_constant_table :: "'a list"
  c_layers :: "circuit_layer list"
  c_id :: digest

record 'a evaluation =
  ev_wires :: "'a list list"

subsection \<open>The wire format\<close>

definition usize_encode :: "nat \<Rightarrow> bytes res" where
  "usize_encode n = and_then (size_of_usize n) size_encode"

definition usize_decode :: "nat dec" where
  "usize_decode bs = and_then (size_decode bs) (\<lambda>(s, r). Inr (unat s, r))"

definition usize_encode_delta :: "nat \<Rightarrow> nat \<Rightarrow> bytes res" where
  "usize_encode_delta n previous =
     and_then (size_of_usize n) (\<lambda>s. and_then (size_of_usize previous) (\<lambda>p. size_encode_delta s p))"

definition usize_decode_delta :: "nat \<Rightarrow> nat dec" where
  "usize_decode_delta previous bs =
     and_then (size_of_usize previous) (\<lambda>p.
     and_then (size_decode_delta p bs) (\<lambda>(s, r). Inr (unat s, r)))"

definition quad_encode_with_param :: "quad \<Rightarrow> quad option \<Rightarrow> bytes res" where
  "quad_encode_with_param self prev =
     (let prev_quad = (case prev of None \<Rightarrow> quad_default | Some q \<Rightarrow> q) in
      and_then (usize_encode_delta (gate_index self) (gate_index prev_quad)) (\<lambda>b1.
      and_then (usize_encode_delta (left_wire_index self) (left_wire_index prev_quad)) (\<lambda>b2.
      and_then (usize_encode_delta (right_wire_index self) (right_wire_index prev_quad)) (\<lambda>b3.
      and_then (usize_encode (const_table_index self)) (\<lambda>b4.
        Inr (b1 @ b2 @ b3 @ b4))))))"

definition quad_decode_with_param :: "quad option \<Rightarrow> quad dec" where
  "quad_decode_with_param prev bs =
     (let prev_quad = (case prev of None \<Rightarrow> quad_default | Some q \<Rightarrow> q) in
      and_then (usize_decode_delta (gate_index prev_quad) bs) (\<lambda>(g, r1).
      and_then (usize_decode_delta (left_wire_index prev_quad) r1) (\<lambda>(l, r2).
      and_then (usize_decode_delta (right_wire_index prev_quad) r2) (\<lambda>(w, r3).
      and_then (usize_decode r3) (\<lambda>(c, r4).
        Inr (\<lparr>gate_index = g, left_wire_index = l, right_wire_index = w, const_table_index = c\<rparr>,
             r4))))))"

fun quads_encode :: "quad option \<Rightarrow> quad list \<Rightarrow> bytes res" where
  "quads_encode prev [] = Inr []"
| "quads_encode prev (q # qs) =
     and_then (quad_encode_with_param q prev) (\<lambda>b.
     and_then (quads_encode (Some q) qs) (\<lambda>bs. Inr (b @ bs)))"

fun quads_decode :: "quad option \<Rightarrow> nat \<Rightarrow> quad list dec" where
  "quads_decode prev 0 bs = Inr ([], bs)"
| "quads_decode prev (Suc n) bs =
     and_then (quad_decode_with_param prev bs) (\<lambda>(q, r).
     and_then (quads_decode (Some q) n r) (\<lambda>(qs, r'). Inr (q # qs, r')))"

definition layer_decode :: "circuit_layer dec" where
  "layer_decode bs =
     and_then (size_decode bs) (\<lambda>(logw, r1).
     and_then (size_decode r1) (\<lambda>(num_wires, r2).
     and_then (size_decode r2) (\<lambda>(num_quads, r3).
     and_then (quads_decode None (unat num_quads) r3) (\<lambda>(quads, r4).
       Inr (\<lparr>layer_logw = logw, layer_num_wires = num_wires, layer_quads = quads\<rparr>, r4)))))"

text \<open>\<open>self.quads.len() as u32\<close> truncates.\<close>

definition layer_encode :: "circuit_layer enc" where
  "layer_encode self =
     and_then (size_encode (layer_logw self)) (\<lambda>b1.
     and_then (size_encode (layer_num_wires self)) (\<lambda>b2.
     and_then (size_encode (word_of_nat (length (layer_quads self)))) (\<lambda>b3.
     and_then (quads_encode None (layer_quads self)) (\<lambda>b4.
       Inr (b1 @ b2 @ b3 @ b4)))))"

definition circuit_decode :: "'a field_ops \<Rightarrow> 'a circuit dec" where
  "circuit_decode F bs =
     and_then (u8_decode bs) (\<lambda>(version, r1).
     and_then (field_id_decode r1) (\<lambda>(field_id, r2).
     if field_id \<noteq> fo_field_id F then Inl (Fail ''unexpected field id in encoded circuit'')
     else
     and_then (usize_decode r2) (\<lambda>(num_outputs, r3).
     and_then (usize_decode r3) (\<lambda>(num_copies, r4).
     and_then (usize_decode r4) (\<lambda>(num_public_inputs, r5).
     and_then (usize_decode r5) (\<lambda>(subfield_boundary, r6).
     and_then (usize_decode r6) (\<lambda>(num_inputs, r7).
     and_then (usize_decode r7) (\<lambda>(num_layers, r8).
     and_then (decode_array (fe_decode F) r8) (\<lambda>(constant_table, r9).
     and_then (decode_fixed_array layer_decode num_layers r9) (\<lambda>(layers, r10).
     and_then (digest_decode r10) (\<lambda>(i, r11).
       Inr (\<lparr>c_version = version, c_num_outputs = num_outputs, c_num_copies = num_copies,
             c_num_public_inputs = num_public_inputs, c_subfield_boundary = subfield_boundary,
             c_num_inputs = num_inputs, c_num_layers = num_layers,
             c_constant_table = constant_table, c_layers = layers, c_id = i\<rparr>, r11))))))))))))"

definition circuit_encode :: "'a field_ops \<Rightarrow> 'a circuit enc" where
  "circuit_encode F self =
     and_then (u8_encode (c_version self)) (\<lambda>b1.
     and_then (field_id_encode (fo_field_id F)) (\<lambda>b2.
     and_then (usize_encode (c_num_outputs self)) (\<lambda>b3.
     and_then (usize_encode (c_num_copies self)) (\<lambda>b4.
     and_then (usize_encode (c_num_public_inputs self)) (\<lambda>b5.
     and_then (usize_encode (c_subfield_boundary self)) (\<lambda>b6.
     and_then (usize_encode (c_num_inputs self)) (\<lambda>b7.
     and_then (usize_encode (c_num_layers self)) (\<lambda>b8.
     and_then (encode_array (fe_encode F) (c_constant_table self)) (\<lambda>b9.
     if c_num_layers self \<noteq> length (c_layers self)
     then Inl (Fail ''num_layers does not match length of layers array'')
     else
     and_then (encode_fixed_array layer_encode (c_layers self)) (\<lambda>b10.
     and_then (digest_encode (c_id self)) (\<lambda>b11.
       Inr (b1 @ b2 @ b3 @ b4 @ b5 @ b6 @ b7 @ b8 @ b9 @ b10 @ b11))))))))))))"

subsection \<open>Accessors\<close>

definition circuit_logw :: "'a circuit \<Rightarrow> nat" where
  "circuit_logw self = ceil_log2 (c_num_outputs self)"

definition circuit_constant :: "'a circuit \<Rightarrow> nat \<Rightarrow> 'a res" where
  "circuit_constant self index =
     opt_res (Fail ''index not present in constant table'') (nth_opt (c_constant_table self) index)"

definition num_quads :: "'a circuit \<Rightarrow> nat" where
  "num_quads self = sum_list (map (\<lambda>l. length (layer_quads l)) (c_layers self))"

definition logw_sum :: "'a circuit \<Rightarrow> nat" where
  "logw_sum self = sum_list (map (\<lambda>l. unat (layer_logw l)) (c_layers self))"

definition num_private_inputs :: "'a circuit \<Rightarrow> nat" where
  "num_private_inputs self = usize_sub (c_num_inputs self) (c_num_public_inputs self)"

definition ev_outputs :: "'a evaluation \<Rightarrow> 'a list res" where
  "ev_outputs e = nth_res (ev_wires e) 0"

definition ev_inputs :: "'a evaluation \<Rightarrow> 'a list res" where
  "ev_inputs e = nth_res (ev_wires e) (usize_sub (length (ev_wires e)) 1)"

definition ev_public_inputs :: "nat \<Rightarrow> 'a evaluation \<Rightarrow> 'a list res" where
  "ev_public_inputs n e =
     and_then (ev_inputs e) (\<lambda>xs. if n \<le> length xs then Inr (take n xs) else Inl oob)"

definition ev_private_inputs :: "nat \<Rightarrow> 'a evaluation \<Rightarrow> 'a list res" where
  "ev_private_inputs n e =
     and_then (ev_inputs e) (\<lambda>xs. if n \<le> length xs then Inr (drop n xs) else Inl oob)"

subsection \<open>Evaluation\<close>

text \<open>One quad: look up the constant and the two wires, and add the product to its gate.\<close>

definition evaluate_quad ::
  "'a :: comm_ring_1 circuit \<Rightarrow> 'a list \<Rightarrow> nat \<Rightarrow> quad \<Rightarrow> 'a list \<times> nat list \<Rightarrow> ('a list \<times> nat list) res"
where
  "evaluate_quad self input next_layer_num_wires quad st =
     (let (gate_outputs, z_gate_indexes) = st in
      and_then (circuit_constant self (const_table_index quad)) (\<lambda>quad_value.
      and_then (opt_res (Fail ''left wire index not present in previous layer of circuit'')
        (nth_opt input (left_wire_index quad))) (\<lambda>left_wire.
      and_then (opt_res (Fail ''right wire index not present in previous layer of circuit'')
        (nth_opt input (right_wire_index quad))) (\<lambda>right_wire.
      let (quad_output, z) =
        (if quad_value = 0
         then (left_wire * right_wire, List.insert (gate_index quad) z_gate_indexes)
         else (quad_value * left_wire * right_wire, z_gate_indexes))
      in if gate_index quad \<ge> next_layer_num_wires
         then Inl (Panic ''quad contains gate index exceeding the number of input wires'')
         else Inr (gate_outputs[gate_index quad := gate_outputs ! gate_index quad + quad_output],
                   z)))))"

definition evaluate_layer ::
  "'a :: comm_ring_1 circuit \<Rightarrow> 'a list \<Rightarrow> nat \<Rightarrow> circuit_layer \<Rightarrow> 'a list res" where
  "evaluate_layer self input next_layer_num_wires layer =
     and_then
       (fold_res (evaluate_quad self input next_layer_num_wires) (layer_quads layer)
          (replicate next_layer_num_wires 0, []))
       (\<lambda>(gate_outputs, z_gate_indexes).
          if list_ex (\<lambda>gate_index. gate_outputs ! gate_index \<noteq> 0) z_gate_indexes
          then Inl (Fail ''in-circuit assertion failed'') else Inr gate_outputs)"

definition evaluate_step ::
  "'a :: comm_ring_1 circuit \<Rightarrow> nat \<times> circuit_layer \<Rightarrow> 'a list list \<Rightarrow> 'a list list res" where
  "evaluate_step self indexed wires =
     (let (layer_index, layer) = indexed;
          output_layer_index = usize_sub (c_num_layers self) 1
      in and_then
           (if layer_index = output_layer_index then Inr (c_num_outputs self)
            else and_then (nth_res (c_layers self)
                   (usize_sub (usize_sub output_layer_index layer_index) 1))
                 (\<lambda>l. Inr (unat (layer_num_wires l))))
           (\<lambda>next_layer_num_wires.
             and_then (nth_res wires layer_index) (\<lambda>input.
             and_then (evaluate_layer self input next_layer_num_wires layer) (\<lambda>gate_outputs.
               Inr (wires @ [gate_outputs])))))"

definition evaluate :: "'a :: comm_ring_1 circuit \<Rightarrow> 'a list \<Rightarrow> 'a evaluation res" where
  "evaluate self inputs =
     and_then (nth_res inputs 0) (\<lambda>first.
     if first \<noteq> 1 then Inl (Fail ''the first input wire was not one'')
     else and_then
       (fold_res (evaluate_step self) (enumerate 0 (rev (c_layers self))) [inputs])
       (\<lambda>wires. Inr \<lparr>ev_wires = rev wires\<rparr>))"

subsection \<open>The combined quad\<close>

definition combined_quad_element ::
  "'a :: comm_ring_1 circuit \<Rightarrow> 'a \<Rightarrow> quad \<Rightarrow> 'a sparse_quad res" where
  "combined_quad_element self beta quad =
     and_then (circuit_constant self (const_table_index quad)) (\<lambda>quad_value.
       Inr \<lparr>sq_gate_index = gate_index quad, sq_left_wire_index = left_wire_index quad,
            sq_right_wire_index = right_wire_index quad,
            sq_coefficient = (if quad_value = 0 then beta else quad_value)\<rparr>)"

definition combined_quad ::
  "'a :: comm_ring_1 circuit \<Rightarrow> nat \<Rightarrow> 'a \<Rightarrow> 'a sparse_quad list res" where
  "combined_quad self layer_index beta =
     and_then (nth_res (c_layers self) layer_index) (\<lambda>layer.
       map_res (combined_quad_element self beta) (layer_quads layer))"

subsection \<open>The circuit identifier\<close>

definition id_update :: "nat \<Rightarrow> bytes res" where
  "id_update v = (if v < 2 ^ 64 then Inr (le_bytes 8 v) else Inl (Fail ''too big for u64''))"

definition id_updates :: "nat list \<Rightarrow> bytes res" where
  "id_updates vs = and_then (map_res id_update vs) (\<lambda>bss. Inr (concat bss))"

definition quad_id_bytes :: "'a field_ops \<Rightarrow> 'a circuit \<Rightarrow> quad \<Rightarrow> bytes res" where
  "quad_id_bytes F self quad =
     and_then (id_updates [gate_index quad, left_wire_index quad, right_wire_index quad]) (\<lambda>b1.
     and_then (circuit_constant self (const_table_index quad)) (\<lambda>coefficient.
       Inr (b1 @ fo_encode F coefficient)))"

definition layer_id_bytes :: "'a field_ops \<Rightarrow> 'a circuit \<Rightarrow> circuit_layer \<Rightarrow> bytes res" where
  "layer_id_bytes F self layer =
     and_then (id_updates [unat (layer_num_wires layer), unat (layer_logw layer),
                           length (layer_quads layer)]) (\<lambda>b1.
     and_then (map_res (quad_id_bytes F self) (layer_quads layer)) (\<lambda>bss.
       Inr (b1 @ concat bss)))"

definition circuit_id_bytes :: "'a field_ops \<Rightarrow> 'a circuit \<Rightarrow> bytes res" where
  "circuit_id_bytes F self =
     and_then (id_updates [c_num_outputs self, ceil_log2 (c_num_outputs self), c_num_copies self,
        ceil_log2 (c_num_copies self), c_num_layers self, c_num_inputs self,
        c_num_public_inputs self, c_subfield_boundary self]) (\<lambda>b1.
     and_then (map_res (layer_id_bytes F self) (c_layers self)) (\<lambda>bss.
       Inr (fo_id_prefix F @ b1 @ concat bss)))"

definition circuit_id :: "(bytes \<Rightarrow> digest) \<Rightarrow> 'a field_ops \<Rightarrow> 'a circuit \<Rightarrow> digest res" where
  "circuit_id sha F self = and_then (circuit_id_bytes F self) (\<lambda>bs. Inr (sha bs))"

section \<open>Circuit Format\<close>

text \<open>
  The wire format of circuits decodes to what was encoded: for delta-coded quads, for layers and
  for whole circuits. Each decoder is shown to satisfy the contract \<open>codec\<close>; the quads, whose
  codec has the previous quad as a parameter, satisfy it for every value of the parameter.
\<close>

lemma usize_roundtrip:
  assumes "usize_encode n = Inr bs"
  shows "usize_decode (bs @ rest) = Inr (n, rest)"
proof -
  from assms have "n < 2 ^ 32" "size_encode (word_of_nat n) = Inr bs"
    by (auto simp: usize_encode_def size_of_usize_Inr_iff)
  with size.roundtrip [OF TrueI this(2)] show ?thesis
    by (simp add: usize_decode_def unat_of_nat)
qed

lemma usize_consume: "usize_decode bs = Inr (n, rest) \<Longrightarrow> \<exists>p. bs = p @ rest"
  by (auto simp: usize_decode_def dest!: size_decode_consume)

interpretation usize: codec usize_encode usize_decode "\<lambda>_. True"
  by unfold_locales (auto intro: usize_roundtrip usize_consume)

lemma usize_delta_roundtrip:
  assumes "usize_encode_delta n p = Inr bs"
  shows "usize_decode_delta p (bs @ rest) = Inr (n, rest)"
proof -
  from assms have n: "n < 2 ^ 32" and p: "size_of_usize p = Inr (word_of_nat p)"
    and bs: "size_encode_delta (word_of_nat n) (word_of_nat p) = Inr bs"
    by (auto simp: usize_encode_delta_def size_of_usize_Inr_iff)
  show ?thesis
    using n p by (simp add: usize_decode_delta_def size_delta_decode_encode [OF bs] unat_of_nat)
qed

lemma usize_delta_consume: "usize_decode_delta p bs = Inr (n, rest) \<Longrightarrow> \<exists>q. bs = q @ rest"
  by (auto simp: usize_decode_delta_def dest!: size_decode_delta_consume)

interpretation usize_delta: codec "\<lambda>n. usize_encode_delta n p" "usize_decode_delta p" "\<lambda>_. True" for p
  by unfold_locales (auto intro: usize_delta_roundtrip usize_delta_consume)

lemma quad_roundtrip:
  assumes "quad_encode_with_param q prev = Inr bs"
  shows "quad_decode_with_param prev (bs @ rest) = Inr (q, rest)"
  using assms
  by (auto simp: quad_encode_with_param_def quad_decode_with_param_def Let_def
      usize_delta_roundtrip usize_roundtrip)

lemma quad_consume:
  "quad_decode_with_param prev bs = Inr (q, rest) \<Longrightarrow> \<exists>p. bs = p @ rest"
  by (auto simp: quad_decode_with_param_def Let_def dest!: usize_delta_consume usize_consume)

interpretation quad: codec "\<lambda>q. quad_encode_with_param q prev" "quad_decode_with_param prev"
  "\<lambda>_. True" for prev
  by unfold_locales (auto intro: quad_roundtrip quad_consume)

lemma quads_roundtrip:
  "quads_encode prev qs = Inr bs \<Longrightarrow> quads_decode prev (length qs) (bs @ rest) = Inr (qs, rest)"
  by (induction prev qs arbitrary: bs rule: quads_encode.induct) (auto simp: quad_roundtrip)

lemma quads_consume: "quads_decode prev n bs = Inr (qs, rest) \<Longrightarrow> \<exists>p. bs = p @ rest"
proof (induction prev n bs arbitrary: qs rule: quads_decode.induct)
  case (2 prev n bs)
  then obtain q r qs' where q: "quad_decode_with_param prev bs = Inr (q, r)"
    and qs: "quads_decode (Some q) n r = Inr (qs', rest)" by auto
  from quad_consume [OF q] 2(1) [OF q refl qs] show ?case by auto
qed simp

definition layer_wf :: "circuit_layer \<Rightarrow> bool" where
  "layer_wf l \<longleftrightarrow> length (layer_quads l) < 2 ^ 32"

interpretation layer: codec layer_encode layer_decode layer_wf
proof
  show "layer_decode (bs @ rest) = Inr (l, rest)"
    if "layer_wf l" "layer_encode l = Inr bs" for l bs rest
  proof -
    have "unat (word_of_nat (length (layer_quads l)) :: u32) = length (layer_quads l)"
      using that(1) by (simp add: layer_wf_def unat_of_nat)
    with that(2) show ?thesis
      by (auto simp: layer_encode_def layer_decode_def size.roundtrip quads_roundtrip)
  qed
  show "layer_decode bs = Inr (l, rest) \<Longrightarrow> \<exists>p. bs = p @ rest" for bs l rest
    by (auto simp: layer_decode_def dest!: size_decode_consume quads_consume)
qed

definition circuit_wf :: "'a circuit \<Rightarrow> bool" where
  "circuit_wf c \<longleftrightarrow> list_all layer_wf (c_layers c) \<and> length (c_id c) = 32"

context field_codec
begin

lemma circuit_codec: "codec (circuit_encode F) (circuit_decode F) circuit_wf"
proof
  show "circuit_decode F (bs @ rest) = Inr (c, rest)"
    if "circuit_wf c" "circuit_encode F c = Inr bs" for c bs rest
    using that
    by (auto simp: circuit_encode_def circuit_decode_def circuit_wf_def u8.roundtrip
        field_id.roundtrip usize_roundtrip fe.array_roundtrip layer.fixed_array_roundtrip
        digest.roundtrip list.pred_True split: if_splits)
  show "circuit_decode F bs = Inr (c, rest) \<Longrightarrow> \<exists>p. bs = p @ rest" for bs c rest
    by (auto simp: circuit_decode_def split: if_splits dest!: u8.consume field_id.consume
        usize_consume fe.array_consume layer.fixed_array_consume digest.consume)
qed

end

end
