(* ===== verification/Ntt.thy ===== *)
theory Ntt
  imports Prelude
begin

text \<open>
  The number theoretic transform of \<open>src/src/fields/ntt.rs\<close>. The tables of the trait
  \<open>NttFieldElement\<close> are the record \<open>ntt_ops\<close>. Both transforms run in place over a list, with the
  loop over the multiples of \<open>2 * stride\<close> as a list of indices and the running power of the root of
  unity as loop state. A stage is characterised cell by cell (\<open>ntt_stage_nth\<close>,
  \<open>inverse_stage_nth\<close>), and an inverse stage doubles what the forward stage was given, so the
  inverse transform returns the input scaled by its length.
\<close>

record 'a ntt_ops =
  no_roots :: "'a list"
  no_root_inverses :: "'a list"
  no_half :: 'a

text \<open>\<open>let mut j = i; while j < n { ...; j += step; }\<close>\<close>

function strided :: "nat \<Rightarrow> nat \<Rightarrow> nat \<Rightarrow> nat list" where
  "strided j step n = (if j < n \<and> 0 < step then j # strided (j + step) step n else [])"
  by pat_completeness auto
termination by (relation "measure (\<lambda>(j, step, n). n - j)") auto

declare strided.simps [simp del]

definition butterfly :: "nat \<Rightarrow> 'a :: comm_ring_1 \<Rightarrow> nat \<Rightarrow> 'a list \<Rightarrow> 'a list" where
  "butterfly stride w j values =
     values[j := values ! j + values ! (j + stride),
            j + stride := (values ! j - values ! (j + stride)) * w]"

definition inverse_butterfly :: "nat \<Rightarrow> 'a :: comm_ring_1 \<Rightarrow> nat \<Rightarrow> 'a list \<Rightarrow> 'a list" where
  "inverse_butterfly stride w j values =
     (let product = values ! (j + stride) * w
      in values[j := values ! j + product, j + stride := values ! j - product])"

text \<open>
  One iteration of the outer loop. The iteration \<open>i = 0\<close> is unrolled in the source, without the
  multiplication by one.
\<close>

definition ntt_stage :: "nat \<Rightarrow> 'a :: comm_ring_1 \<Rightarrow> 'a list \<Rightarrow> 'a list" where
  "ntt_stage stride omega values =
     (let n = length values;
          values = fold (\<lambda>j v. v[j := v ! j + v ! (j + stride), j + stride := v ! j - v ! (j + stride)])
            (strided 0 (stride * 2) n) values
      in fst (fold (\<lambda>i (v, omega_power).
                (fold (butterfly stride omega_power) (strided i (stride * 2) n) v, omega_power * omega))
              [1..<stride] (values, omega)))"

definition inverse_stage :: "nat \<Rightarrow> 'a :: comm_ring_1 \<Rightarrow> 'a list \<Rightarrow> 'a list" where
  "inverse_stage stride omega_inv values =
     (let n = length values;
          values = fold (\<lambda>j v. v[j := v ! j + v ! (j + stride), j + stride := v ! j - v ! (j + stride)])
            (strided 0 (stride * 2) n) values
      in fst (fold (\<lambda>i (v, omega_power).
                (fold (inverse_butterfly stride omega_power) (strided i (stride * 2) n) v,
                 omega_power * omega_inv))
              [1..<stride] (values, omega_inv)))"

text \<open>\<open>floor_log2\<close> is \<open>ilog2\<close>; it panics on zero.\<close>

fun floor_log2 :: "nat \<Rightarrow> nat" where
  "floor_log2 n = (if n < 2 then 0 else Suc (floor_log2 (n div 2)))"

declare floor_log2.simps [simp del]

definition checked_log :: "nat \<Rightarrow> nat res" where
  "checked_log n =
     and_then (ensure (n \<noteq> 0) (Panic ''argument of integer logarithm must be positive'')) (\<lambda>_.
     and_then (ensure (2 ^ floor_log2 n = n) (Panic ''length of input is not a power of two'')) (\<lambda>_.
       Inr (floor_log2 n)))"

definition roots_slice :: "'a list \<Rightarrow> nat \<Rightarrow> 'a list res" where
  "roots_slice roots log_n =
     (if log_n < length roots then Inr (take log_n (drop 1 roots)) else Inl oob)"

definition ntt_bit_reversed :: "'a :: comm_ring_1 ntt_ops \<Rightarrow> 'a list \<Rightarrow> 'a list res" where
  "ntt_bit_reversed T values =
     and_then (checked_log (length values)) (\<lambda>log_n.
     if length values = 1 then Inr values
     else and_then (roots_slice (no_roots T) log_n) (\<lambda>roots.
       Inr (fst (fold (\<lambda>omega (v, stride). (ntt_stage stride omega v, stride div 2))
                   (rev roots) (values, 2 ^ (log_n - 1))))))"

definition scaled_inverse_ntt_bit_reversed :: "'a :: comm_ring_1 ntt_ops \<Rightarrow> 'a list \<Rightarrow> 'a list res" where
  "scaled_inverse_ntt_bit_reversed T values =
     and_then (checked_log (length values)) (\<lambda>log_n.
     if length values = 1 then Inr values
     else and_then (roots_slice (no_root_inverses T) log_n) (\<lambda>roots.
       Inr (fst (fold (\<lambda>omega_inv (v, stride). (inverse_stage stride omega_inv v, stride * 2))
                   roots (values, 1)))))"

subsection \<open>The indices of a stage\<close>

lemma strided_props:
  assumes "0 < step"
  shows "set (strided j step n) = {k. j \<le> k \<and> k < n \<and> k mod step = j mod step}"
    and "distinct (strided j step n)"
proof -
  have "set (strided j step n) = {k. j \<le> k \<and> k < n \<and> k mod step = j mod step} \<and>
    distinct (strided j step n)"
    using assms
  proof (induction j step n rule: strided.induct)
    case (1 j step n)
    show ?case
    proof (cases "j < n")
      case True
      have IH: "set (strided (j + step) step n) = {k. j + step \<le> k \<and> k < n \<and> k mod step = j mod step}"
        "distinct (strided (j + step) step n)"
        using 1 True by auto
      have "k = j \<or> j + step \<le> k" if "j \<le> k" "k mod step = j mod step" for k
      proof -
        from that obtain q where "k = j + step * q"
          using mod_eq_dvd_iff_nat [of j k step] by (metis dvdE le_add_diff_inverse)
        then show ?thesis by (cases q) auto
      qed
      then have "{k. j \<le> k \<and> k < n \<and> k mod step = j mod step} =
          insert j {k. j + step \<le> k \<and> k < n \<and> k mod step = j mod step}"
        using True by auto
      with IH True 1(2) show ?thesis by (subst (1 2) strided.simps) auto
    qed (subst (1 2) strided.simps, auto)
  qed
  then show "set (strided j step n) = {k. j \<le> k \<and> k < n \<and> k mod step = j mod step}"
    "distinct (strided j step n)" by auto
qed

definition stage_indices :: "nat \<Rightarrow> nat \<Rightarrow> nat list" where
  "stage_indices s n = concat (map (\<lambda>i. strided i (s * 2) n) [0..<s])"

lemma stage_indices_props:
  assumes "0 < s"
  shows "set (stage_indices s n) = {k. k < n \<and> k mod (s * 2) < s}" "distinct (stage_indices s n)"
proof -
  have s: "set (strided i (s * 2) n) = {k. k < n \<and> k mod (s * 2) = i}" if "i < s" for i
  proof -
    have "i mod (s * 2) = i" using that by simp
    then show ?thesis
      using assms by (auto simp: strided_props)
  qed
  then show "set (stage_indices s n) = {k. k < n \<and> k mod (s * 2) < s}"
    by (auto simp: stage_indices_def)
  have "distinct (concat (map (\<lambda>i. strided i (s * 2) n) [0..<m]))" if "m \<le> s" for m
    using that
  proof (induction m)
    case (Suc m)
    then have "set (strided m (s * 2) n) \<inter> set (strided i (s * 2) n) = {}" if "i < m" for i
      using that s [of m] s [of i] by auto
    with Suc assms show ?case by (auto simp: strided_props(2)) blast
  qed simp
  then show "distinct (stage_indices s n)" by (simp add: stage_indices_def)
qed

subsection \<open>What a stage computes\<close>

text \<open>A butterfly-like update of the cells \<open>j\<close> and \<open>j + s\<close>, and a run of them.\<close>

definition pair_update ::
  "nat \<Rightarrow> (nat \<Rightarrow> 'a \<Rightarrow> 'a \<Rightarrow> 'a) \<Rightarrow> (nat \<Rightarrow> 'a \<Rightarrow> 'a \<Rightarrow> 'a) \<Rightarrow> nat \<Rightarrow> 'a list \<Rightarrow> 'a list" where
  "pair_update s f g j v = v[j := f j (v ! j) (v ! (j + s)), j + s := g j (v ! j) (v ! (j + s))]"

lemma length_pair_updates [simp]: "length (fold (pair_update s f g) js v) = length v"
  by (induction js arbitrary: v) (auto simp: pair_update_def)

lemma mod_lower_half:
  assumes "0 < (s :: nat)" "j mod (s * 2) < s"
  shows "(j + s) mod (s * 2) = j mod (s * 2) + s"
proof -
  have "(j + s) mod (s * 2) = (j mod (s * 2) + s) mod (s * 2)" by (simp add: mod_add_left_eq)
  also have "\<dots> = j mod (s * 2) + s" using assms by (intro mod_less) simp
  finally show ?thesis .
qed

lemma pair_updates_nth:
  assumes "0 < s" "distinct js" "\<forall>j \<in> set js. j mod (s * 2) < s \<and> j + s < length v" "p < length v"
  shows "fold (pair_update s f g) js v ! p =
    (if p \<in> set js then f p (v ! p) (v ! (p + s))
     else if s \<le> p \<and> p - s \<in> set js then g (p - s) (v ! (p - s)) (v ! p)
     else v ! p)"
  using assms
proof (induction js arbitrary: v)
  case (Cons j js)
  let ?v = "pair_update s f g j v"
  have j: "j mod (s * 2) < s" "j + s < length v" "j < length v" using Cons.prems by simp_all
  have jn: "j \<notin> set js" using Cons.prems by simp
  have js: "k mod (s * 2) < s" if "k \<in> set js" for k using Cons.prems that by simp
  have js_n: "j + s \<notin> set js" using js [of "j + s"] mod_lower_half [OF Cons.prems(1) j(1)] by auto
  have v: "?v ! k = (if k = j + s then g j (v ! j) (v ! (j + s)) else
      if k = j then f j (v ! j) (v ! (j + s)) else v ! k)" if "k < length v" for k
    using that j Cons.prems(1) by (auto simp: pair_update_def nth_list_update)
  have IH: "fold (pair_update s f g) js ?v ! p =
    (if p \<in> set js then f p (?v ! p) (?v ! (p + s))
     else if s \<le> p \<and> p - s \<in> set js then g (p - s) (?v ! (p - s)) (?v ! p)
     else ?v ! p)"
    using Cons.prems by (intro Cons.IH) (auto simp: pair_update_def)
  consider "p \<in> set js" | "p \<notin> set js" "s \<le> p \<and> p - s \<in> set js"
    | "p \<notin> set js" "\<not> (s \<le> p \<and> p - s \<in> set js)" by blast
  then show ?case
  proof cases
    case 1
    have "p \<noteq> j" "p \<noteq> j + s" "p + s \<noteq> j + s" using 1 jn js_n by auto
    moreover have "p + s \<noteq> j"
      using mod_lower_half [OF Cons.prems(1) js [OF 1]] j(1) by auto
    moreover have "p + s < length v" using Cons.prems(3) 1 by simp
    ultimately show ?thesis using 1 IH v [of p] v [of "p + s"] Cons.prems(4) by simp
  next
    case 2
    let ?q = "p - s"
    have q: "p = ?q + s" "?q \<in> set js" using 2 by simp_all
    have "?q \<noteq> j" "?q \<noteq> j + s" using q(2) jn js_n by auto
    moreover have "p \<noteq> j"
      using mod_lower_half [OF Cons.prems(1) js [OF q(2)]] q(1) j(1) by auto
    moreover have "p \<noteq> j + s" using q(1) \<open>?q \<noteq> j\<close> by simp
    moreover have "?q < length v" using Cons.prems(4) by simp
    ultimately show ?thesis using 2 IH v [of p] v [of ?q] Cons.prems(4) by simp
  next
    case 3
    then have r: "fold (pair_update s f g) js ?v ! p = ?v ! p" using IH by auto
    consider "p = j" | "p = j + s" | "p \<noteq> j" "p \<noteq> j + s" by blast
    then show ?thesis
    proof cases
      case 3
      then have "\<not> (s \<le> p \<and> p - s = j)" by auto
      with 3 \<open>p \<notin> set js\<close> \<open>\<not> (s \<le> p \<and> p - s \<in> set js)\<close> show ?thesis
        using r v [OF Cons.prems(4)] by auto
    qed (use r v [OF Cons.prems(4)] Cons.prems(1) js_n in simp_all)
  qed
qed simp

text \<open>The running power of the root is the power of the loop index.\<close>

lemma power_loop:
  fixes omega :: "'a :: comm_ring_1"
  assumes "1 \<le> m"
  shows "fold (\<lambda>i (v, w). (h w i v, w * omega)) [1..<m] (v, omega) =
    (fold (\<lambda>i. h (omega ^ i) i) [1..<m] v, omega ^ m)"
  using assms
proof (induction m)
  case (Suc m)
  show ?case
  proof (cases "m = 0")
    case False
    with Suc.IH have "fold (\<lambda>i (v, w). (h w i v, w * omega)) [1..<m] (v, omega) =
      (fold (\<lambda>i. h (omega ^ i) i) [1..<m] v, omega ^ m)" by simp
    with False show ?thesis by (simp add: mult.commute)
  qed simp
qed simp

lemma fold_congruence:
  assumes "\<And>x v. x \<in> set xs \<Longrightarrow> f x v = g x v"
  shows "fold f xs v = fold g xs v"
  using assms by (induction xs arbitrary: v) auto

lemma stage_runs:
  fixes omega :: "'a :: comm_ring_1"
  assumes "0 < s"
    and b0: "\<And>j v. b0 j v = pair_update s (\<lambda>j. f 1) (\<lambda>j. g 1) j v"
    and b: "\<And>w j v. b w j v = pair_update s (\<lambda>j. f w) (\<lambda>j. g w) j v"
  shows "fst (fold (\<lambda>i (v, w). (fold (b w) (strided i (s * 2) n) v, w * omega)) [1..<s]
      (fold b0 (strided 0 (s * 2) n) v, omega)) =
    fold (pair_update s (\<lambda>j. f (omega ^ (j mod (s * 2)))) (\<lambda>j. g (omega ^ (j mod (s * 2)))))
      (stage_indices s n) v"
proof -
  let ?P = "pair_update s (\<lambda>j. f (omega ^ (j mod (s * 2)))) (\<lambda>j. g (omega ^ (j mod (s * 2))))"
  have m: "j mod (s * 2) = i" if "i < s" "j \<in> set (strided i (s * 2) n)" for i j
    using that assms(1) by (auto simp: strided_props)
  have 1: "fold (b (omega ^ i)) (strided i (s * 2) n) v = fold ?P (strided i (s * 2) n) v"
    if "i < s" for i v
    using m [OF that] by (intro fold_congruence) (simp add: b pair_update_def)
  have 0: "fold b0 (strided 0 (s * 2) n) v = fold ?P (strided 0 (s * 2) n) v"
    using m [of 0] assms(1) by (intro fold_congruence) (simp add: b0 pair_update_def)
  have "fold (\<lambda>i. fold (b (omega ^ i)) (strided i (s * 2) n)) [1..<s] v =
      fold (\<lambda>i. fold ?P (strided i (s * 2) n)) [1..<s] v" for v
    by (rule fold_congruence) (simp add: 1)
  moreover have "[0..<s] = 0 # [1..<s]" using assms(1) by (simp add: upt_conv_Cons)
  moreover have "fold ?P (concat (map (\<lambda>i. strided i (s * 2) n) is)) v =
      fold (\<lambda>i. fold ?P (strided i (s * 2) n)) is v" for "is" v
    by (induction "is" arbitrary: v) simp_all
  ultimately show ?thesis
    using assms(1)
    by (simp add: power_loop [of s "\<lambda>w i v. fold (b w) (strided i (s * 2) n) v"] stage_indices_def 0
        del: One_nat_def)
qed

lemma ntt_stage_pair_updates:
  assumes "0 < s"
  shows "ntt_stage s omega v =
    fold (pair_update s (\<lambda>j a b. a + b) (\<lambda>j a b. (a - b) * omega ^ (j mod (s * 2))))
      (stage_indices s (length v)) v"
  using stage_runs [OF assms, where f = "\<lambda>w a b. a + b" and g = "\<lambda>w a b. (a - b) * w"
      and b = "butterfly s" and omega = omega and n = "length v" and v = v]
  by (simp add: ntt_stage_def Let_def pair_update_def [abs_def] butterfly_def [abs_def])

lemma inverse_stage_pair_updates:
  assumes "0 < s"
  shows "inverse_stage s omega v =
    fold (pair_update s (\<lambda>j a b. a + b * omega ^ (j mod (s * 2)))
        (\<lambda>j a b. a - b * omega ^ (j mod (s * 2))))
      (stage_indices s (length v)) v"
  using stage_runs [OF assms, where f = "\<lambda>w a b. a + b * w" and g = "\<lambda>w a b. a - b * w"
      and b = "inverse_butterfly s" and omega = omega and n = "length v" and v = v]
  by (simp add: inverse_stage_def Let_def pair_update_def [abs_def] inverse_butterfly_def [abs_def])

lemma length_ntt_stage [simp]: "0 < s \<Longrightarrow> length (ntt_stage s omega v) = length v"
  by (simp add: ntt_stage_pair_updates)

lemma length_inverse_stage [simp]: "0 < s \<Longrightarrow> length (inverse_stage s omega v) = length v"
  by (simp add: inverse_stage_pair_updates)

lemma lower_half_in_range:
  assumes "0 < s" "length v = s * 2 * m" "j mod (s * 2) < s" "j < length v"
  shows "j + s < length v"
proof -
  have "j div (s * 2) < m"
    using assms(2,4) by (metis less_mult_imp_div_less mult.commute)
  then have "j div (s * 2) + 1 \<le> m" by simp
  then have "s * 2 * (j div (s * 2) + 1) \<le> length v" unfolding assms(2) by (rule mult_le_mono2)
  moreover have "j = s * 2 * (j div (s * 2)) + j mod (s * 2)" by simp
  ultimately show ?thesis using assms(3) by (simp only: distrib_left)
qed

lemma upper_half:
  assumes "0 < (s :: nat)" "\<not> p mod (s * 2) < s"
  shows "s \<le> p" "(p - s) mod (s * 2) < s"
proof -
  show le: "s \<le> p" using assms(2) by (meson mod_less_eq_dividend le_trans not_less)
  show "(p - s) mod (s * 2) < s"
  proof (rule ccontr)
    assume a: "\<not> (p - s) mod (s * 2) < s"
    have lt: "(p - s) mod (s * 2) < s * 2" using assms(1) by simp
    have "p mod (s * 2) = ((p - s) mod (s * 2) + s) mod (s * 2)"
      using le by (metis le_add_diff_inverse2 mod_add_left_eq)
    also have "\<dots> = ((p - s) mod (s * 2) + s - s * 2) mod (s * 2)"
      using a by (intro le_mod_geq) linarith
    also have "\<dots> = (p - s) mod (s * 2) + s - s * 2" using lt by (intro mod_less) linarith
    finally show False using assms(2) lt by linarith
  qed
qed

lemma stage_nth:
  assumes "0 < s" "length v = s * 2 * m" "p < length v"
  shows "fold (pair_update s f g) (stage_indices s (length v)) v ! p =
    (if p mod (s * 2) < s then f p (v ! p) (v ! (p + s)) else g (p - s) (v ! (p - s)) (v ! p))"
proof -
  have "fold (pair_update s f g) (stage_indices s (length v)) v ! p =
    (if p \<in> set (stage_indices s (length v)) then f p (v ! p) (v ! (p + s))
     else if s \<le> p \<and> p - s \<in> set (stage_indices s (length v)) then g (p - s) (v ! (p - s)) (v ! p)
     else v ! p)"
    using assms lower_half_in_range [OF assms(1,2)]
    by (intro pair_updates_nth) (auto simp: stage_indices_props)
  moreover have "s \<le> p \<and> (p - s) mod (s * 2) < s" if "\<not> p mod (s * 2) < s"
    using upper_half [OF assms(1) that] by blast
  moreover have "p - s < length v" using assms(3) by simp
  ultimately show ?thesis using assms(1,3) by (auto simp: stage_indices_props)
qed

text \<open>An inverse stage undoes a forward stage, up to a factor of two.\<close>

lemma inverse_stage_ntt_stage:
  fixes omega :: "'a :: comm_ring_1"
  assumes "0 < s" "length v = s * 2 * m" "omega * omega_inv = 1"
  shows "inverse_stage s omega_inv (ntt_stage s omega v) = map (\<lambda>x. 2 * x) v"
proof (rule nth_equalityI)
  show "length (inverse_stage s omega_inv (ntt_stage s omega v)) = length (map (\<lambda>x. 2 * x) v)"
    using assms by simp
  fix p assume "p < length (inverse_stage s omega_inv (ntt_stage s omega v))"
  then have p: "p < length v" using assms by simp
  let ?w = "ntt_stage s omega v"
  have w: "?w ! k = (if k mod (s * 2) < s then v ! k + v ! (k + s)
      else (v ! (k - s) - v ! k) * omega ^ ((k - s) mod (s * 2)))" if "k < length v" for k
    using stage_nth [OF assms(1,2) that] by (simp only: ntt_stage_pair_updates [OF assms(1)])
  have lw: "length ?w = s * 2 * m" using assms by simp
  have i: "inverse_stage s omega_inv ?w ! p =
      (if p mod (s * 2) < s then ?w ! p + ?w ! (p + s) * omega_inv ^ (p mod (s * 2))
       else ?w ! (p - s) - ?w ! p * omega_inv ^ ((p - s) mod (s * 2)))"
    using stage_nth [OF assms(1) lw, of p] p assms
    by (simp only: inverse_stage_pair_updates [OF assms(1)] length_ntt_stage)
  have pow: "x * omega ^ k * omega_inv ^ k = x" for x k
    using assms(3) by (simp add: mult.assoc flip: power_mult_distrib)
  show "inverse_stage s omega_inv ?w ! p = map (\<lambda>x. 2 * x) v ! p"
  proof (cases "p mod (s * 2) < s")
    case True
    note ps = lower_half_in_range [OF assms(1,2) True p]
    have "\<not> (p + s) mod (s * 2) < s" using mod_lower_half [OF assms(1) True] by simp
    then show ?thesis using True p ps by (simp add: i w pow)
  next
    case False
    note q = upper_half [OF assms(1) False]
    show ?thesis using False p q by (simp add: i w pow)
  qed
qed

lemma inverse_stage_scale:
  fixes omega :: "'a :: comm_ring_1"
  assumes "0 < s" "length v = s * 2 * m"
  shows "inverse_stage s omega (map (\<lambda>x. c * x) v) = map (\<lambda>x. c * x) (inverse_stage s omega v)"
proof (rule nth_equalityI)
  fix p assume "p < length (inverse_stage s omega (map (\<lambda>x. c * x) v))"
  then have p: "p < length v" using assms by simp
  have lm: "length (map (\<lambda>x. c * x) v) = s * 2 * m" using assms by simp
  have n: "inverse_stage s omega u ! p =
      (if p mod (s * 2) < s then u ! p + u ! (p + s) * omega ^ (p mod (s * 2))
       else u ! (p - s) - u ! p * omega ^ ((p - s) mod (s * 2)))"
    if "length u = length v" for u
    using stage_nth [OF assms(1), of u m p] that p assms(2)
    by (simp only: inverse_stage_pair_updates [OF assms(1)])
  show "inverse_stage s omega (map (\<lambda>x. c * x) v) ! p = map (\<lambda>x. c * x) (inverse_stage s omega v) ! p"
  proof (cases "p mod (s * 2) < s")
    case True
    note lower_half_in_range [OF assms True p]
    with True p assms(1) show ?thesis by (simp add: n distrib_left mult.assoc)
  next
    case False
    with p assms(1) show ?thesis by (simp add: n right_diff_distrib mult.assoc)
  qed
qed (use assms in simp)

subsection \<open>The whole transforms\<close>

fun ntt_stages :: "'a :: comm_ring_1 list \<Rightarrow> 'a list \<Rightarrow> 'a list" where
  "ntt_stages [] v = v"
| "ntt_stages (r # rs) v = ntt_stages rs (ntt_stage (2 ^ length rs) r v)"

fun inverse_stages :: "'a :: comm_ring_1 list \<Rightarrow> 'a list \<Rightarrow> 'a list" where
  "inverse_stages [] v = v"
| "inverse_stages (r # rs) v = inverse_stage (2 ^ length rs) r (inverse_stages rs v)"

lemma ntt_stages_fold:
  "fst (fold (\<lambda>omega (v, stride). (ntt_stage stride omega v, stride div 2)) rs
     (v, 2 ^ (length rs - 1))) = ntt_stages rs v"
proof (induction rs arbitrary: v)
  case (Cons r rs)
  show ?case
  proof (cases rs)
    case (Cons a list)
    then have "(2 :: nat) ^ length rs div 2 = 2 ^ (length rs - 1)" by simp
    with Cons.IH show ?thesis by simp
  qed simp
qed simp

lemma inverse_stages_fold:
  "fold (\<lambda>omega_inv (v, stride). (inverse_stage stride omega_inv v, stride * 2)) (rev rs) (v, 1) =
     (inverse_stages rs v, 2 ^ length rs)"
  by (induction rs arbitrary: v) simp_all

lemma length_ntt_stages [simp]: "length (ntt_stages rs v) = length v"
  by (induction rs arbitrary: v) simp_all

lemma inverse_stages_ntt_stages:
  fixes v :: "'a :: comm_ring_1 list"
  assumes "list_all2 (\<lambda>w i. w * i = 1) ws is" "length v = 2 ^ length ws * m"
  shows "inverse_stages is (ntt_stages ws v) = map (\<lambda>x. 2 ^ length ws * x) v"
  using assms
proof (induction ws "is" arbitrary: v m rule: list_all2_induct)
  case Nil
  then show ?case by simp
next
  case (Cons w ws i "is")
  let ?s = "2 ^ length ws :: nat"
  have l: "length ws = length is" using Cons.hyps(2) by (rule list_all2_lengthD)
  have lv: "length v = ?s * 2 * m" using Cons.prems by (simp add: mult.commute)
  then have "length (ntt_stage ?s w v) = ?s * (2 * m)" by (simp add: mult.assoc)
  from Cons.IH [OF this]
  have "inverse_stages is (ntt_stages ws (ntt_stage ?s w v)) = map (\<lambda>x. 2 ^ length ws * x) (ntt_stage ?s w v)" .
  then have "inverse_stages (i # is) (ntt_stages (w # ws) v) =
      inverse_stage ?s i (map (\<lambda>x. 2 ^ length ws * x) (ntt_stage ?s w v))"
    by (simp add: l)
  also have "\<dots> = map (\<lambda>x. 2 ^ length ws * x) (inverse_stage ?s i (ntt_stage ?s w v))"
    using lv by (intro inverse_stage_scale [where m = m]) simp_all
  also have "\<dots> = map (\<lambda>x. 2 ^ length (w # ws) * x) v"
    using Cons.hyps(1) lv by (simp add: inverse_stage_ntt_stage [where m = m] mult.assoc comp_def
        mult.left_commute)
  finally show ?case .
qed

lemma floor_log2_power: "floor_log2 (2 ^ k) = k"
proof (induction k)
  case (Suc k)
  then show ?case by (subst floor_log2.simps) (simp add: not_less)
qed (simp add: floor_log2.simps)

lemma checked_log_power: "checked_log (2 ^ k) = Inr k"
  by (simp add: checked_log_def floor_log2_power)

definition ntt_tables_ok :: "'a :: comm_ring_1 ntt_ops \<Rightarrow> bool" where
  "ntt_tables_ok T \<longleftrightarrow> length (no_roots T) = 32 \<and> length (no_root_inverses T) = 32 \<and>
     list_all2 (\<lambda>w i. w * i = 1) (no_roots T) (no_root_inverses T)"

lemma ntt_bit_reversed_eq:
  assumes "length v = 2 ^ k" "k < length (no_roots T)"
  shows "ntt_bit_reversed T v = Inr (ntt_stages (rev (take k (drop 1 (no_roots T)))) v)"
proof (cases "k = 0")
  case True
  then show ?thesis using assms by (simp add: ntt_bit_reversed_def checked_log_power [of 0, simplified])
next
  case False
  then have "length v \<noteq> 1" using assms(1) by simp
  moreover have "length (rev (take k (drop 1 (no_roots T)))) = k" using assms(2) by simp
  ultimately show ?thesis
    using assms ntt_stages_fold [of "rev (take k (drop 1 (no_roots T)))" v]
    by (simp add: ntt_bit_reversed_def checked_log_power roots_slice_def)
qed

lemma scaled_inverse_ntt_eq:
  assumes "length v = 2 ^ k" "k < length (no_root_inverses T)"
  shows "scaled_inverse_ntt_bit_reversed T v =
    Inr (inverse_stages (rev (take k (drop 1 (no_root_inverses T)))) v)"
proof (cases "k = 0")
  case True
  then show ?thesis
    using assms by (simp add: scaled_inverse_ntt_bit_reversed_def checked_log_power [of 0, simplified])
next
  case False
  then have "length v \<noteq> 1" using assms(1) by simp
  then show ?thesis
    using assms inverse_stages_fold [of "rev (take k (drop 1 (no_root_inverses T)))" v]
    by (simp add: scaled_inverse_ntt_bit_reversed_def checked_log_power roots_slice_def)
qed

lemma ntt_round_trip:
  assumes "ntt_tables_ok T" "length v = 2 ^ k" "k < 32"
  shows "and_then (ntt_bit_reversed T v) (scaled_inverse_ntt_bit_reversed T) =
    Inr (map (\<lambda>x. 2 ^ k * x) v)"
proof -
  let ?w = "rev (take k (drop 1 (no_roots T)))" and ?i = "rev (take k (drop 1 (no_root_inverses T)))"
  have "list_all2 (\<lambda>w i. w * i = 1) ?w ?i"
    using assms(1) by (auto simp: ntt_tables_ok_def intro: list_all2_takeI list_all2_dropI)
  moreover have "length ?w = k" using assms by (simp add: ntt_tables_ok_def)
  ultimately have "inverse_stages ?i (ntt_stages ?w v) = map (\<lambda>x. 2 ^ k * x) v"
    using inverse_stages_ntt_stages [of ?w ?i v 1] assms(2) by simp
  then show ?thesis
    using assms by (simp add: ntt_tables_ok_def ntt_bit_reversed_eq scaled_inverse_ntt_eq [of _ k])
qed

end
