(* ===== verification/Transcript.thy ===== *)
theory Transcript
  imports Circuit Ntt
begin

text \<open>
  The Fiat-Shamir transcript of \<open>src/src/transcript.rs\<close>: the running SHA-256 state, as the bytes
  written so far, and the pseudo-random function that is started from its digest and dropped by
  every write. SHA-256 and the AES-256 block function are the two fields of the parameter record
  \<open>crypto\<close>. Sampling loops may not end; a transcript operation that samples reports that as
  \<open>Diverges\<close>.
\<close>

record crypto =
  cr_sha :: "bytes \<Rightarrow> digest"
  cr_aes :: "bytes \<Rightarrow> bytes \<Rightarrow> bytes"

subsection \<open>The pseudo-random function\<close>

record fsprf =
  fs_key :: bytes
  fs_position :: nat
  fs_block :: bytes

definition fsprf_new :: "digest \<Rightarrow> fsprf" where
  "fsprf_new seed = \<lparr>fs_key = seed, fs_position = 0, fs_block = replicate 16 0\<rparr>"

definition fsprf_current_block :: "crypto \<Rightarrow> bytes \<Rightarrow> nat \<Rightarrow> bytes" where
  "fsprf_current_block C key position = cr_aes C key (le_bytes 16 (position div 16))"

definition fsprf_next :: "crypto \<Rightarrow> fsprf \<Rightarrow> byte \<times> fsprf" where
  "fsprf_next C f =
     (let position_in_block = fs_position f mod 16;
          block = (if position_in_block = 0 then fsprf_current_block C (fs_key f) (fs_position f)
                   else fs_block f)
      in (block ! position_in_block,
          f\<lparr>fs_position := fs_position f + 1, fs_block := block\<rparr>))"

text \<open>Filling a buffer of \<open>n\<close> bytes from the iterator.\<close>

fun fsprf_read :: "crypto \<Rightarrow> nat \<Rightarrow> fsprf \<Rightarrow> bytes \<times> fsprf" where
  "fsprf_read C 0 f = ([], f)"
| "fsprf_read C (Suc n) f =
     (let (b, f') = fsprf_next C f; (bs, f'') = fsprf_read C n f' in (b # bs, f''))"

definition sample_field_element ::
  "crypto \<Rightarrow> 'a field_ops \<Rightarrow> fsprf \<Rightarrow> ('a \<times> fsprf) option" where
  "sample_field_element C F f = sample_from_source F (fsprf_read C (num_bytes F)) f"

subsection \<open>The transcript\<close>

datatype transcript_mode = Normal | V3Compatibility

datatype tag = ByteArray | FieldElement | FieldElementArray

fun tag_as_byte :: "tag \<Rightarrow> transcript_mode \<Rightarrow> byte" where
  "tag_as_byte ByteArray _ = 0"
| "tag_as_byte FieldElement _ = 1"
| "tag_as_byte FieldElementArray Normal = 2"
| "tag_as_byte FieldElementArray V3Compatibility = 1"

record transcript =
  tr_mode :: transcript_mode
  tr_written :: bytes
  tr_fsprf :: "fsprf option"

definition write_bytes :: "bytes \<Rightarrow> transcript \<Rightarrow> transcript" where
  "write_bytes bs t = t\<lparr>tr_fsprf := None, tr_written := tr_written t @ bs\<rparr>"

definition length_prefix :: "nat \<Rightarrow> bytes res" where
  "length_prefix n = (if n < 2 ^ 64 then Inr (le_bytes 8 n) else Inl (Fail ''array too big for transcript''))"

definition begin_write_byte_array :: "nat \<Rightarrow> transcript \<Rightarrow> transcript res" where
  "begin_write_byte_array len t =
     and_then (length_prefix len) (\<lambda>l.
       Inr (write_bytes l (write_bytes [tag_as_byte ByteArray (tr_mode t)] t)))"

definition write_byte_array :: "bytes \<Rightarrow> transcript \<Rightarrow> transcript res" where
  "write_byte_array bs t =
     and_then (begin_write_byte_array (length bs) t) (\<lambda>t. Inr (write_bytes bs t))"

definition transcript_new :: "bytes \<Rightarrow> transcript_mode \<Rightarrow> transcript res" where
  "transcript_new session_id mode =
     write_byte_array session_id \<lparr>tr_mode = mode, tr_written = [], tr_fsprf = None\<rparr>"

definition write_field_element :: "'a field_ops \<Rightarrow> 'a \<Rightarrow> transcript \<Rightarrow> transcript" where
  "write_field_element F x t =
     write_bytes (fo_encode F x) (write_bytes [tag_as_byte FieldElement (tr_mode t)] t)"

definition write_field_element_array :: "'a field_ops \<Rightarrow> 'a list \<Rightarrow> transcript \<Rightarrow> transcript res" where
  "write_field_element_array F xs t =
     and_then (length_prefix (length xs)) (\<lambda>l.
       Inr (fold (\<lambda>x t. write_bytes (fo_encode F x) t) xs
             (write_bytes l (write_bytes [tag_as_byte FieldElementArray (tr_mode t)] t))))"

text \<open>A \<open>Polynomial\<close> of sumcheck is its values at 0 and at P2.\<close>

record 'a polynomial =
  p0 :: 'a
  p2 :: 'a

definition write_polynomial :: "'a field_ops \<Rightarrow> 'a polynomial \<Rightarrow> transcript \<Rightarrow> transcript" where
  "write_polynomial F poly t = write_field_element F (p2 poly) (write_field_element F (p0 poly) t)"

text \<open>The chunk buffer has 16834 bytes.\<close>

function write_zero_chunks :: "nat \<Rightarrow> transcript \<Rightarrow> transcript" where
  "write_zero_chunks count t =
     (if count > 0 then
        let written = min count 16834
        in write_zero_chunks (count - written)
             (t\<lparr>tr_written := tr_written t @ replicate written 0\<rparr>)
      else t)"
  by pat_completeness auto
termination by (relation "measure fst") auto

declare write_zero_chunks.simps [simp del]

definition write_zero_array :: "nat \<Rightarrow> transcript \<Rightarrow> transcript res" where
  "write_zero_array count t =
     and_then (begin_write_byte_array count t) (\<lambda>t.
       Inr (write_zero_chunks count (t\<lparr>tr_fsprf := None\<rparr>)))"

definition get_current_fsprf :: "crypto \<Rightarrow> transcript \<Rightarrow> fsprf" where
  "get_current_fsprf C t =
     (case tr_fsprf t of Some f \<Rightarrow> f | None \<Rightarrow> fsprf_new (cr_sha C (tr_written t)))"

fun sample_elements :: "crypto \<Rightarrow> 'a field_ops \<Rightarrow> nat \<Rightarrow> fsprf \<Rightarrow> ('a list \<times> fsprf) res" where
  "sample_elements C F 0 f = Inr ([], f)"
| "sample_elements C F (Suc n) f =
     and_then (opt_res Diverges (sample_field_element C F f)) (\<lambda>(x, f').
     and_then (sample_elements C F n f') (\<lambda>(xs, f''). Inr (x # xs, f'')))"

definition generate_challenge ::
  "crypto \<Rightarrow> 'a field_ops \<Rightarrow> nat \<Rightarrow> transcript \<Rightarrow> ('a list \<times> transcript) res" where
  "generate_challenge C F len t =
     and_then (sample_elements C F len (get_current_fsprf C t)) (\<lambda>(xs, f).
       Inr (xs, t\<lparr>tr_fsprf := Some f\<rparr>))"

text \<open>
  \<open>LONGFELLOW_ZK_MAX_BINDINGS - circuit.logw()\<close> wraps around when the circuit has more than
  2^40 outputs; the decoder of circuits keeps \<open>logw\<close> below 25.
\<close>

definition generate_output_wire_bindings ::
  "crypto \<Rightarrow> 'a field_ops \<Rightarrow> 'a circuit \<Rightarrow> transcript \<Rightarrow> ('a list \<times> transcript) res" where
  "generate_output_wire_bindings C F circuit t =
     and_then (generate_challenge C F 40 t) (\<lambda>(_, t).
     and_then (generate_challenge C F (circuit_logw circuit) t) (\<lambda>(output_wire_bindings, t).
     and_then (generate_challenge C F (usize_sub 40 (circuit_logw circuit)) t) (\<lambda>(_, t).
       Inr (output_wire_bindings, t))))"

subsection \<open>Naturals\<close>

definition natural_num_bits :: "nat \<Rightarrow> nat" where
  "natural_num_bits bound =
     floor_log2 bound + (if 2 ^ floor_log2 bound \<noteq> bound then 1 else 0)"

definition mask_last :: "nat \<Rightarrow> bytes \<Rightarrow> bytes" where
  "mask_last num_bits sampled =
     (let n = div_ceil num_bits 8; excess_bits = n * 8 - num_bits
      in if excess_bits \<noteq> 0 then sampled[n - 1 := and (sampled ! (n - 1)) (mask (8 - excess_bits))]
         else sampled)"

partial_function (option) natural_loop ::
  "crypto \<Rightarrow> nat \<Rightarrow> nat \<Rightarrow> fsprf \<Rightarrow> (nat \<times> fsprf) option" where
  "natural_loop C bound num_bits f =
     (let (sampled, f') = fsprf_read C (div_ceil num_bits 8) f;
          natural = le_value (mask_last num_bits sampled)
      in if natural < bound then Some (natural, f') else natural_loop C bound num_bits f')"

definition generate_natural :: "crypto \<Rightarrow> nat \<Rightarrow> transcript \<Rightarrow> (nat \<times> transcript) res" where
  "generate_natural C bound t =
     and_then (ensure (bound \<noteq> 0) (Panic ''argument of integer logarithm must be positive'')) (\<lambda>_.
     and_then (opt_res Diverges (natural_loop C bound (natural_num_bits bound) (get_current_fsprf C t)))
       (\<lambda>(n, f). Inr (n, t\<lparr>tr_fsprf := Some f\<rparr>)))"

definition swap_res :: "'b list \<Rightarrow> nat \<Rightarrow> nat \<Rightarrow> 'b list res" where
  "swap_res xs i j =
     (if i < length xs \<and> j < length xs then Inr (xs[i := xs ! j, j := xs ! i]) else Inl oob)"

definition shuffle_step ::
  "crypto \<Rightarrow> nat \<Rightarrow> nat \<Rightarrow> nat list \<times> transcript \<Rightarrow> (nat list \<times> transcript) res" where
  "shuffle_step C bound i st =
     (let (list, t) = st in
      and_then (generate_natural C (bound - i) t) (\<lambda>(n, t).
      and_then (swap_res list i (i + n)) (\<lambda>list. Inr (list, t))))"

definition generate_naturals_without_replacement ::
  "crypto \<Rightarrow> nat \<Rightarrow> nat \<Rightarrow> transcript \<Rightarrow> (nat list \<times> transcript) res" where
  "generate_naturals_without_replacement C bound count t =
     and_then (ensure (bound > count) (Panic ''assertion failed: max > count'')) (\<lambda>_.
     and_then (fold_res (shuffle_step C bound) [0..<count] ([0..<bound], t)) (\<lambda>(list, t).
       Inr (take count list, t)))"

end
