(* ===== verification/Witness.thy ===== *)
theory Witness
  imports Transcript
begin

text \<open>
  The witness vector of \<open>src/src/witness.rs\<close>: where each private input, each polynomial pad and
  each wire pad of every layer lives, and how the vector is filled from a pad generator, a state
  \<open>'g\<close> with a step function. The lemmas say that the layout tiles the vector, every index is the
  index of exactly one value, and that the filled vector has the claimed length and satisfies
  the quadratic constraint of every layer.
\<close>

subsection \<open>The layout\<close>

record witness_layout =
  wl_num_private_inputs :: nat
  wl_logw :: "nat list"

definition layout_from_circuit :: "'a circuit \<Rightarrow> witness_layout" where
  "layout_from_circuit circuit =
     \<lparr>wl_num_private_inputs = num_private_inputs circuit,
      wl_logw = map (\<lambda>l. unat (layer_logw l)) (c_layers circuit)\<rparr>"

definition private_input_witness_indices :: "witness_layout \<Rightarrow> nat list" where
  "private_input_witness_indices wl = [0..<wl_num_private_inputs wl]"

definition wire_witness_indices :: "witness_layout \<Rightarrow> nat \<Rightarrow> (nat \<times> nat \<times> nat) res" where
  "wire_witness_indices wl layer =
     and_then (ensure (layer < length (wl_logw wl)) (Panic ''assertion failed'')) (\<lambda>_.
       let start = wl_num_private_inputs wl + layer * 3
             + 2 * 2 * sum_list (take (layer + 1) (wl_logw wl))
       in Inr (start, start + 1, start + 2))"

definition polynomial_witness_indices ::
  "witness_layout \<Rightarrow> nat \<Rightarrow> nat \<Rightarrow> nat \<Rightarrow> (nat \<times> nat) res" where
  "polynomial_witness_indices wl layer round_index hand =
     and_then (ensure (layer < length (wl_logw wl)) (Panic ''assertion failed'')) (\<lambda>_.
     and_then (ensure (round_index < wl_logw wl ! layer) (Panic ''assertion failed'')) (\<lambda>_.
     and_then (ensure (hand < 2) (Panic ''assertion failed'')) (\<lambda>_.
       let start = wl_num_private_inputs wl + layer * 3
             + 2 * 2 * sum_list (take layer (wl_logw wl))
             + 2 * 2 * round_index + 2 * hand
       in Inr (start, start + 1))))"

definition layout_length :: "witness_layout \<Rightarrow> nat" where
  "layout_length wl =
     wl_num_private_inputs wl + length (wl_logw wl) * 3 + 4 * sum_list (wl_logw wl)"

subsection \<open>The vector\<close>

record 'a witness =
  w_values :: "'a list"
  w_layout :: witness_layout

text \<open>Two polynomials with two evaluations each in every round, in the order they are drawn.\<close>

fun pad_draws :: "('g \<Rightarrow> 'a \<times> 'g) \<Rightarrow> nat \<Rightarrow> 'g \<Rightarrow> 'a list \<times> 'g" where
  "pad_draws pad_generator 0 g = ([], g)"
| "pad_draws pad_generator (Suc n) g =
     (let (x, g) = pad_generator g; (xs, g) = pad_draws pad_generator n g in (x # xs, g))"

definition fill_layer ::
  "('g \<Rightarrow> 'a :: comm_ring_1 \<times> 'g) \<Rightarrow> nat \<Rightarrow> 'a list \<times> 'g \<Rightarrow> 'a list \<times> 'g" where
  "fill_layer pad_generator logw st =
     (let (witnesses, g) = st;
          (pads, g) = pad_draws pad_generator (logw * (2 * 2)) g;
          witnesses = witnesses @ pads;
          (vl, g) = pad_generator g;
          (vr, g) = pad_generator g
      in (witnesses @ [vl, vr, vl * vr], g))"

definition fill_witness ::
  "witness_layout \<Rightarrow> 'a :: comm_ring_1 list \<Rightarrow> ('g \<Rightarrow> 'a \<times> 'g) \<Rightarrow> 'g \<Rightarrow> 'a witness \<times> 'g" where
  "fill_witness layout private_inputs pad_generator g =
     (let (witnesses, g) = fold (fill_layer pad_generator) (wl_logw layout) (private_inputs, g)
      in (\<lparr>w_values = witnesses, w_layout = layout\<rparr>, g))"

definition witness_element :: "'a witness \<Rightarrow> nat \<Rightarrow> 'a res" where
  "witness_element w index = nth_res (w_values w) index"

definition polynomial_witnesses :: "'a witness \<Rightarrow> nat \<Rightarrow> nat \<Rightarrow> nat \<Rightarrow> 'a polynomial res" where
  "polynomial_witnesses w layer round_index hand =
     and_then (polynomial_witness_indices (w_layout w) layer round_index hand) (\<lambda>(i0, i2).
     and_then (witness_element w i0) (\<lambda>x0.
     and_then (witness_element w i2) (\<lambda>x2.
       Inr \<lparr>p0 = x0, p2 = x2\<rparr>)))"

definition wire_witnesses :: "'a witness \<Rightarrow> nat \<Rightarrow> ('a \<times> 'a \<times> 'a) res" where
  "wire_witnesses w layer =
     and_then (wire_witness_indices (w_layout w) layer) (\<lambda>(vl, vr, vl_vr).
     and_then (witness_element w vl) (\<lambda>x.
     and_then (witness_element w vr) (\<lambda>y.
     and_then (witness_element w vl_vr) (\<lambda>z. Inr (x, y, z)))))"

definition witness_elements :: "'a :: zero witness \<Rightarrow> nat \<Rightarrow> nat \<Rightarrow> 'a list" where
  "witness_elements w start cnt =
     (let xs = take cnt (drop start (w_values w)) in xs @ replicate (cnt - length xs) 0)"

subsection \<open>The layout tiles the vector\<close>

definition layer_start :: "witness_layout \<Rightarrow> nat \<Rightarrow> nat" where
  "layer_start wl l = wl_num_private_inputs wl + l * 3 + 4 * sum_list (take l (wl_logw wl))"

lemma layer_start_Suc:
  "l < length (wl_logw wl) \<Longrightarrow> layer_start wl (Suc l) = layer_start wl l + 4 * wl_logw wl ! l + 3"
  by (simp add: layer_start_def take_Suc_conv_app_nth)

lemma layer_start_0: "layer_start wl 0 = wl_num_private_inputs wl"
  by (simp add: layer_start_def)

lemma layer_start_length: "layer_start wl (length (wl_logw wl)) = layout_length wl"
  by (simp add: layer_start_def layout_length_def)

lemma layer_start_mono: "l \<le> k \<Longrightarrow> k \<le> length (wl_logw wl) \<Longrightarrow> layer_start wl l \<le> layer_start wl k"
  by (induction k rule: dec_induct) (simp_all add: layer_start_Suc)

lemma wire_witness_indices_eq:
  "l < length (wl_logw wl) \<Longrightarrow> wire_witness_indices wl l =
     Inr (layer_start wl l + 4 * wl_logw wl ! l, layer_start wl l + 4 * wl_logw wl ! l + 1,
          layer_start wl l + 4 * wl_logw wl ! l + 2)"
  by (simp add: wire_witness_indices_def layer_start_def take_Suc_conv_app_nth Let_def)

lemma polynomial_witness_indices_eq:
  "l < length (wl_logw wl) \<Longrightarrow> r < wl_logw wl ! l \<Longrightarrow> h < 2 \<Longrightarrow>
   polynomial_witness_indices wl l r h =
     Inr (layer_start wl l + 4 * r + 2 * h, layer_start wl l + 4 * r + 2 * h + 1)"
  by (simp add: polynomial_witness_indices_def layer_start_def Let_def)

text \<open>A slot is what an index stands for.\<close>

datatype slot = Input nat | PolyP0 nat nat nat | PolyP2 nat nat nat | WireL nat | WireR nat | WireLR nat

fun slot_index :: "witness_layout \<Rightarrow> slot \<Rightarrow> nat res" where
  "slot_index wl (Input i) =
     (if i < wl_num_private_inputs wl then Inr (private_input_witness_indices wl ! i) else Inl oob)"
| "slot_index wl (PolyP0 l r h) = and_then (polynomial_witness_indices wl l r h) (\<lambda>(a, b). Inr a)"
| "slot_index wl (PolyP2 l r h) = and_then (polynomial_witness_indices wl l r h) (\<lambda>(a, b). Inr b)"
| "slot_index wl (WireL l) = and_then (wire_witness_indices wl l) (\<lambda>(a, b, c). Inr a)"
| "slot_index wl (WireR l) = and_then (wire_witness_indices wl l) (\<lambda>(a, b, c). Inr b)"
| "slot_index wl (WireLR l) = and_then (wire_witness_indices wl l) (\<lambda>(a, b, c). Inr c)"

text \<open>The slot of an index within a layer, and of any index.\<close>

definition layer_slot :: "witness_layout \<Rightarrow> nat \<Rightarrow> nat \<Rightarrow> slot" where
  "layer_slot wl l k =
     (let n = wl_logw wl ! l
      in if k < 4 * n then
           (if even k then PolyP0 l (k div 4) (k div 2 mod 2) else PolyP2 l (k div 4) (k div 2 mod 2))
         else if k = 4 * n then WireL l else if k = 4 * n + 1 then WireR l else WireLR l)"

lemma polynomial_witness_indices_Inr:
  "polynomial_witness_indices wl l r h = Inr p \<longleftrightarrow> l < length (wl_logw wl) \<and> r < wl_logw wl ! l \<and> h < 2 \<and>
     p = (layer_start wl l + 4 * r + 2 * h, layer_start wl l + 4 * r + 2 * h + 1)"
  by (auto simp: polynomial_witness_indices_def layer_start_def Let_def and_then_Inr_iff)

lemma wire_witness_indices_Inr:
  "wire_witness_indices wl l = Inr p \<longleftrightarrow> l < length (wl_logw wl) \<and>
     p = (layer_start wl l + 4 * wl_logw wl ! l, layer_start wl l + 4 * wl_logw wl ! l + 1,
          layer_start wl l + 4 * wl_logw wl ! l + 2)"
  by (auto simp: wire_witness_indices_eq wire_witness_indices_def and_then_Inr_iff Let_def
      layer_start_def take_Suc_conv_app_nth)

text \<open>Every slot with an index is the slot of that index.\<close>

lemma slot_index_layer:
  assumes "slot_index wl s = Inr i"
  shows "(\<exists>k. s = Input k \<and> i = k \<and> k < wl_num_private_inputs wl) \<or>
    (\<exists>l k. l < length (wl_logw wl) \<and> k < 4 * wl_logw wl ! l + 3 \<and> i = layer_start wl l + k \<and>
       s = layer_slot wl l k)"
proof (cases s)
  case (Input k)
  with assms show ?thesis by (auto simp: private_input_witness_indices_def split: if_splits)
next
  case (PolyP0 l r h)
  with assms have p: "l < length (wl_logw wl)" "r < wl_logw wl ! l" "h < 2" "i = layer_start wl l + (4 * r + 2 * h)"
    by (auto simp: polynomial_witness_indices_Inr)
  then have "(4 * r + 2 * h) div 4 = r" "(4 * r + 2 * h) div 2 mod 2 = h" "4 * r + 2 * h < 4 * wl_logw wl ! l"
    by (presburger, presburger, linarith)
  then have "s = layer_slot wl l (4 * r + 2 * h)" by (simp add: layer_slot_def PolyP0)
  moreover have "4 * r + 2 * h < 4 * wl_logw wl ! l + 3" using p by linarith
  ultimately show ?thesis using p by blast
next
  case (PolyP2 l r h)
  with assms have p: "l < length (wl_logw wl)" "r < wl_logw wl ! l" "h < 2" "i = layer_start wl l + (4 * r + 2 * h + 1)"
    by (auto simp: polynomial_witness_indices_Inr)
  then have "(4 * r + 2 * h + 1) div 4 = r" "(4 * r + 2 * h + 1) div 2 mod 2 = h"
    "4 * r + 2 * h + 1 < 4 * wl_logw wl ! l"
    by (presburger, presburger, linarith)
  then have "s = layer_slot wl l (4 * r + 2 * h + 1)" by (simp add: layer_slot_def PolyP2)
  moreover have "4 * r + 2 * h + 1 < 4 * wl_logw wl ! l + 3" using p by linarith
  ultimately show ?thesis using p by blast
next
  case (WireL l)
  with assms have "l < length (wl_logw wl)" "i = layer_start wl l + 4 * wl_logw wl ! l"
    by (auto simp: wire_witness_indices_Inr)
  moreover have "s = layer_slot wl l (4 * wl_logw wl ! l)" by (simp add: layer_slot_def WireL)
  ultimately show ?thesis by force
next
  case (WireR l)
  with assms have "l < length (wl_logw wl)" "i = layer_start wl l + (4 * wl_logw wl ! l + 1)"
    by (auto simp: wire_witness_indices_Inr)
  moreover have "s = layer_slot wl l (4 * wl_logw wl ! l + 1)" by (simp add: layer_slot_def WireR)
  ultimately show ?thesis by force
next
  case (WireLR l)
  with assms have "l < length (wl_logw wl)" "i = layer_start wl l + (4 * wl_logw wl ! l + 2)"
    by (auto simp: wire_witness_indices_Inr)
  moreover have "s = layer_slot wl l (4 * wl_logw wl ! l + 2)" by (simp add: layer_slot_def WireLR)
  ultimately show ?thesis by force
qed

lemma slot_index_bound: "slot_index wl s = Inr i \<Longrightarrow> i < layout_length wl"
proof -
  assume "slot_index wl s = Inr i"
  from slot_index_layer [OF this] show ?thesis
  proof (elim disjE exE conjE)
    fix k assume "i = k" "k < wl_num_private_inputs wl"
    then show ?thesis by (simp add: layout_length_def)
  next
    fix l k assume l: "l < length (wl_logw wl)" "k < 4 * wl_logw wl ! l + 3" "i = layer_start wl l + k"
    then have "i < layer_start wl (Suc l)" by (simp add: layer_start_Suc)
    also have "\<dots> \<le> layout_length wl"
      using l(1) layer_start_mono [of "Suc l" "length (wl_logw wl)" wl] by (simp add: layer_start_length)
    finally show ?thesis .
  qed
qed

lemma slot_index_inj:
  assumes "slot_index wl s = Inr i" "slot_index wl s' = Inr i"
  shows "s = s'"
proof -
  have input_layer: False
    if "i < wl_num_private_inputs wl" "l < length (wl_logw wl)" "i = layer_start wl l + k" for l k
    using that by (simp add: layer_start_def)
  have layers: "l = l' \<and> k = k'"
    if l: "l < length (wl_logw wl)" "k < 4 * wl_logw wl ! l + 3" "i = layer_start wl l + k"
    and l': "l' < length (wl_logw wl)" "k' < 4 * wl_logw wl ! l' + 3" "i = layer_start wl l' + k'"
    for l k l' k'
  proof -
    have "False" if "l < length (wl_logw wl)" "k < 4 * wl_logw wl ! l + 3" "i = layer_start wl l + k"
        "l' < length (wl_logw wl)" "i = layer_start wl l' + k'" "l < l'" for l l' k k'
    proof -
      have "i < layer_start wl (Suc l)" using that by (simp add: layer_start_Suc)
      also have "\<dots> \<le> layer_start wl l'" using that by (intro layer_start_mono) simp_all
      finally show False using that by simp
    qed
    then have "l = l'" using l l' by (metis linorder_neqE_nat)
    with l l' show ?thesis by simp
  qed
  from slot_index_layer [OF assms(1)] slot_index_layer [OF assms(2)] show ?thesis
    using input_layer layers by (elim disjE exE conjE) (blast | metis)+
qed

lemma slot_index_surj:
  assumes "i < layout_length wl"
  shows "\<exists>s. slot_index wl s = Inr i"
proof (cases "i < wl_num_private_inputs wl")
  case True
  then have "slot_index wl (Input i) = Inr i" by (simp add: private_input_witness_indices_def)
  then show ?thesis ..
next
  case False
  have "\<exists>l < length (wl_logw wl). layer_start wl l \<le> i \<and> i < layer_start wl (Suc l)"
  proof -
    have "\<exists>l < n. layer_start wl l \<le> i \<and> i < layer_start wl (Suc l)"
      if "i < layer_start wl n" "n \<le> length (wl_logw wl)" for n
      using that
    proof (induction n)
      case 0
      then show ?case using False by (simp add: layer_start_0)
    next
      case (Suc n)
      then show ?case by (cases "i < layer_start wl n") (auto simp: not_less less_Suc_eq)
    qed
    with assms show ?thesis by (simp add: layer_start_length)
  qed
  then obtain l where l: "l < length (wl_logw wl)" "layer_start wl l \<le> i" "i < layer_start wl (Suc l)"
    by blast
  define k where "k = i - layer_start wl l"
  have k: "i = layer_start wl l + k" "k < 4 * wl_logw wl ! l + 3"
    using l by (simp_all add: k_def layer_start_Suc)
  have "slot_index wl (layer_slot wl l k) = Inr i"
  proof (cases "k < 4 * wl_logw wl ! l")
    case True
    then have r: "k div 4 < wl_logw wl ! l" "k div 2 mod 2 < 2" by auto
    have "even k \<Longrightarrow> 4 * (k div 4) + 2 * (k div 2 mod 2) = k"
      "odd k \<Longrightarrow> 4 * (k div 4) + 2 * (k div 2 mod 2) + 1 = k" by presburger+
    with True r l(1) k(1) show ?thesis
      by (auto simp: layer_slot_def Let_def polynomial_witness_indices_eq add.assoc)
  next
    case False
    then have "k = 4 * wl_logw wl ! l \<or> k = 4 * wl_logw wl ! l + 1 \<or> k = 4 * wl_logw wl ! l + 2"
      using k(2) by linarith
    with False l(1) k(1) show ?thesis
      by (auto simp: layer_slot_def Let_def wire_witness_indices_eq)
  qed
  then show ?thesis ..
qed

subsection \<open>The filled vector\<close>

lemma length_pad_draws: "length (fst (pad_draws f n g)) = n"
  by (induction n arbitrary: g) (simp_all add: split_beta Let_def)

lemma fill_layer_fst:
  "\<exists>pads vl vr g'. fill_layer f n (ws, g) = (ws @ pads @ [vl, vr, vl * vr], g') \<and> length pads = 4 * n"
proof -
  have "length (fst (pad_draws f (n * 4) g)) = 4 * n" by (simp add: length_pad_draws)
  then show ?thesis by (auto simp: fill_layer_def Let_def split_beta)
qed

lemma fill_layers:
  assumes "fold (fill_layer f) ls (ws, g) = (vs, g')"
  shows "take (length ws) vs = ws"
    and "length vs = length ws + 3 * length ls + 4 * sum_list ls"
    and "l < length ls \<Longrightarrow> let k = length ws + 3 * l + 4 * sum_list (take (Suc l) ls)
      in vs ! (k + 2) = vs ! k * vs ! (k + 1)"
proof -
  have "take (length ws) vs = ws \<and> length vs = length ws + 3 * length ls + 4 * sum_list ls \<and>
    (\<forall>l < length ls. let k = length ws + 3 * l + 4 * sum_list (take (Suc l) ls)
      in vs ! (k + 2) = vs ! k * vs ! (k + 1))"
    using assms
  proof (induction ls arbitrary: ws g)
    case (Cons n ls)
    obtain pads vl vr g1 where
      fl: "fill_layer f n (ws, g) = (ws @ pads @ [vl, vr, vl * vr], g1)" "length pads = 4 * n"
      using fill_layer_fst by metis
    let ?ws = "ws @ pads @ [vl, vr, vl * vr]"
    have len: "length ?ws = length ws + 4 * n + 3" using fl(2) by simp
    have IH: "take (length ?ws) vs = ?ws" "length vs = length ?ws + 3 * length ls + 4 * sum_list ls"
      "\<And>l. l < length ls \<Longrightarrow> let k = length ?ws + 3 * l + 4 * sum_list (take (Suc l) ls)
        in vs ! (k + 2) = vs ! k * vs ! (k + 1)"
      using Cons.IH [of ?ws g1] Cons.prems fl(1) by auto
    have vs: "vs ! j = ?ws ! j" if "j < length ?ws" for j
      using IH(1) that by (metis nth_take)
    have "take (length ws) vs = take (length ws) (take (length ?ws) vs)" by simp
    then have t: "take (length ws) vs = ws" unfolding IH(1) by simp
    have z: "vs ! (length ws + 4 * n + 2) = vs ! (length ws + 4 * n) * vs ! (length ws + 4 * n + 1)"
      using vs [of "length ws + 4 * n"] vs [of "length ws + 4 * n + 1"] vs [of "length ws + 4 * n + 2"] fl(2) len
      by (simp add: nth_append)
    have "let k = length ws + 3 * l + 4 * sum_list (take (Suc l) (n # ls))
        in vs ! (k + 2) = vs ! k * vs ! (k + 1)" if "l < length (n # ls)" for l
    proof (cases l)
      case 0
      then show ?thesis using z by (simp add: Let_def)
    next
      case (Suc m)
      then have "length ws + 3 * l + 4 * sum_list (take (Suc l) (n # ls)) =
          length ?ws + 3 * m + 4 * sum_list (take (Suc m) ls)"
        by (simp only: len) simp
      with Suc that IH(3) [of m] show ?thesis by (simp only: length_Cons Suc_less_eq)
    qed
    with t IH(2) len show ?case by simp
  qed (simp add: Let_def)
  then show "take (length ws) vs = ws"
    and "length vs = length ws + 3 * length ls + 4 * sum_list ls"
    and "l < length ls \<Longrightarrow> let k = length ws + 3 * l + 4 * sum_list (take (Suc l) ls)
      in vs ! (k + 2) = vs ! k * vs ! (k + 1)" by blast+
qed

lemma fill_witness_props:
  assumes "fill_witness wl xs f g = (w, g')" "length xs = wl_num_private_inputs wl"
  shows "w_layout w = wl" "length (w_values w) = layout_length wl"
    "take (wl_num_private_inputs wl) (w_values w) = xs"
    "l < length (wl_logw wl) \<Longrightarrow>
       \<exists>x y. wire_witnesses w l = Inr (x, y, x * y)"
proof -
  obtain vs h where vs: "fold (fill_layer f) (wl_logw wl) (xs, g) = (vs, h)" "w = \<lparr>w_values = vs, w_layout = wl\<rparr>"
    using assms(1) by (auto simp: fill_witness_def split: prod.splits)
  note fl = fill_layers [OF vs(1)]
  show "w_layout w = wl" "length (w_values w) = layout_length wl"
    "take (wl_num_private_inputs wl) (w_values w) = xs"
    using fl(1,2) vs(2) assms(2) by (simp_all add: layout_length_def)
  assume l: "l < length (wl_logw wl)"
  let ?k = "layer_start wl l + 4 * wl_logw wl ! l"
  have "?k = length xs + 3 * l + 4 * sum_list (take (Suc l) (wl_logw wl))"
    using l assms(2) by (simp add: layer_start_def take_Suc_conv_app_nth)
  then have m: "vs ! (?k + 2) = vs ! ?k * vs ! (?k + 1)" using fl(3) [OF l] by (simp add: Let_def)
  have "?k + 2 < length vs"
    using slot_index_bound [of wl "WireLR l" "?k + 2"] l fl(2) assms(2)
    by (simp add: wire_witness_indices_eq layout_length_def)
  with m l vs(2) show "\<exists>x y. wire_witnesses w l = Inr (x, y, x * y)"
    by (simp add: wire_witnesses_def wire_witness_indices_eq witness_element_def)
qed

end
