(* ===== verification/Constraints.thy ===== *)
theory Constraints
  imports Witness
begin

text \<open>
  The Ligero constraints of \<open>src/src/sumcheck/constraints/mod.rs\<close>: terms of linear constraints,
  quadratic constraints, and the symbolic expressions in which the sumcheck protocol accumulates
  a layer's claim. \<open>term_eval\<close> and \<open>expr_eval\<close> are what a term and an expression stand for at a
  given witness vector; every operation is shown to act on that value as its operator says.
\<close>

record 'a lhs_term =
  constraint_number :: nat
  witness_index :: nat
  constant_factor :: 'a

record quadratic_constraint =
  qc_x :: nat
  qc_y :: nat
  qc_z :: nat

definition quadratic_constraints :: "'a circuit \<Rightarrow> witness_layout \<Rightarrow> quadratic_constraint list res" where
  "quadratic_constraints circuit wl =
     map_res (\<lambda>layer_index.
       and_then (wire_witness_indices wl layer_index) (\<lambda>(vl, vr, vl_vr).
         Inr \<lparr>qc_x = vl, qc_y = vr, qc_z = vl_vr\<rparr>)) [0..<c_num_layers circuit]"

record 'a linear_constraints =
  lc_lhs_terms :: "'a lhs_term list"
  lc_rhs :: "'a list"

text \<open>The symbolic part of a term: a witness index, if there is one, and a factor.\<close>

record 'a symbolic =
  sy_witness_index :: "nat option"
  sy_constant_factor :: 'a

record 'a symbolic_term =
  st_known :: 'a
  st_symbolic :: "'a symbolic"

record 'a symbolic_expression =
  se_known :: 'a
  se_constraint_number :: nat
  se_terms :: "'a symbolic list"

definition symbolic_mul :: "'a :: comm_ring_1 symbolic \<Rightarrow> 'a \<Rightarrow> 'a symbolic" where
  "symbolic_mul s rhs = s\<lparr>sy_constant_factor := sy_constant_factor s * rhs\<rparr>"

definition term_new :: "nat \<Rightarrow> 'a :: comm_ring_1 symbolic_term" where
  "term_new i = \<lparr>st_known = 0, st_symbolic = \<lparr>sy_witness_index = Some i, sy_constant_factor = 1\<rparr>\<rparr>"

definition term_from_known :: "'a :: comm_ring_1 \<Rightarrow> 'a symbolic_term" where
  "term_from_known known =
     \<lparr>st_known = known, st_symbolic = \<lparr>sy_witness_index = None, sy_constant_factor = 1\<rparr>\<rparr>"

definition term_with_witness :: "nat \<Rightarrow> 'a symbolic_term \<Rightarrow> 'a symbolic_term" where
  "term_with_witness i t = t\<lparr>st_symbolic := (st_symbolic t)\<lparr>sy_witness_index := Some i\<rparr>\<rparr>"

definition term_add :: "'a :: comm_ring_1 symbolic_term \<Rightarrow> 'a \<Rightarrow> 'a symbolic_term" where
  "term_add t rhs = t\<lparr>st_known := st_known t + rhs\<rparr>"

definition term_mul :: "'a :: comm_ring_1 symbolic_term \<Rightarrow> 'a \<Rightarrow> 'a symbolic_term" where
  "term_mul t rhs = \<lparr>st_known = st_known t * rhs, st_symbolic = symbolic_mul (st_symbolic t) rhs\<rparr>"

definition expr_new :: "nat \<Rightarrow> 'a :: comm_ring_1 symbolic_expression" where
  "expr_new layer_index = \<lparr>se_known = 0, se_constraint_number = layer_index, se_terms = []\<rparr>"

definition expr_add :: "'a :: comm_ring_1 symbolic_expression \<Rightarrow> 'a symbolic_term \<Rightarrow> 'a symbolic_expression" where
  "expr_add e rhs =
     e\<lparr>se_known := se_known e + st_known rhs,
       se_terms := (if sy_witness_index (st_symbolic rhs) \<noteq> None then se_terms e @ [st_symbolic rhs]
                    else se_terms e)\<rparr>"

definition expr_mul :: "'a :: comm_ring_1 symbolic_expression \<Rightarrow> 'a \<Rightarrow> 'a symbolic_expression" where
  "expr_mul e rhs =
     e\<lparr>se_known := se_known e * rhs, se_terms := map (\<lambda>t. symbolic_mul t rhs) (se_terms e)\<rparr>"

definition expr_lhs_terms :: "'a symbolic_expression \<Rightarrow> 'a lhs_term list" where
  "expr_lhs_terms e =
     List.map_filter (\<lambda>t. map_option (\<lambda>i.
         \<lparr>constraint_number = se_constraint_number e, witness_index = i,
          constant_factor = sy_constant_factor t\<rparr>) (sy_witness_index t)) (se_terms e)"

subsection \<open>What the expressions stand for\<close>

definition symbolic_eval :: "(nat \<Rightarrow> 'a :: comm_ring_1) \<Rightarrow> 'a symbolic \<Rightarrow> 'a" where
  "symbolic_eval W s = (case sy_witness_index s of None \<Rightarrow> 0 | Some i \<Rightarrow> sy_constant_factor s * W i)"

definition term_eval :: "(nat \<Rightarrow> 'a :: comm_ring_1) \<Rightarrow> 'a symbolic_term \<Rightarrow> 'a" where
  "term_eval W t = st_known t + symbolic_eval W (st_symbolic t)"

definition expr_symbolic :: "(nat \<Rightarrow> 'a :: comm_ring_1) \<Rightarrow> 'a symbolic_expression \<Rightarrow> 'a" where
  "expr_symbolic W e = sum_list (map (symbolic_eval W) (se_terms e))"

definition expr_eval :: "(nat \<Rightarrow> 'a :: comm_ring_1) \<Rightarrow> 'a symbolic_expression \<Rightarrow> 'a" where
  "expr_eval W e = se_known e + expr_symbolic W e"

definition lhs_sum :: "(nat \<Rightarrow> 'a :: comm_ring_1) \<Rightarrow> 'a lhs_term list \<Rightarrow> nat \<Rightarrow> 'a" where
  "lhs_sum W ts c =
     sum_list (map (\<lambda>t. if constraint_number t = c then constant_factor t * W (witness_index t) else 0) ts)"

lemma symbolic_eval_mul [simp]: "symbolic_eval W (symbolic_mul s x) = symbolic_eval W s * x"
  by (simp add: symbolic_eval_def symbolic_mul_def split: option.splits)

lemma term_eval_new [simp]: "term_eval W (term_new i) = W i"
  by (simp add: term_eval_def term_new_def symbolic_eval_def)

lemma term_eval_from_known [simp]: "term_eval W (term_from_known k) = k"
  by (simp add: term_eval_def term_from_known_def symbolic_eval_def)

lemma term_eval_add [simp]: "term_eval W (term_add t x) = term_eval W t + x"
  by (simp add: term_eval_def term_add_def algebra_simps)

lemma term_eval_mul [simp]: "term_eval W (term_mul t x) = term_eval W t * x"
  by (simp add: term_eval_def term_mul_def algebra_simps)

lemma term_eval_with_witness:
  "term_eval W (term_with_witness i (term_from_known k)) = k + W i"
  "term_eval W (term_with_witness i (term_mul (term_from_known k) x)) = (k + W i) * x"
  by (simp_all add: term_eval_def term_with_witness_def term_from_known_def term_mul_def
      symbolic_mul_def symbolic_eval_def algebra_simps)

lemma expr_eval_new [simp]: "expr_eval W (expr_new l) = 0"
  by (simp add: expr_eval_def expr_new_def expr_symbolic_def)

lemma expr_eval_add [simp]: "expr_eval W (expr_add e t) = expr_eval W e + term_eval W t"
  by (auto simp: expr_eval_def expr_symbolic_def expr_add_def term_eval_def symbolic_eval_def
      algebra_simps)

lemma sum_list_map_mult_right:
  "sum_list (map (\<lambda>x. f x * c) xs) = sum_list (map f xs) * (c :: 'a :: comm_ring_1)"
  by (induction xs) (simp_all add: algebra_simps)

lemma expr_eval_mul [simp]: "expr_eval W (expr_mul e x) = expr_eval W e * x"
  by (simp add: expr_eval_def expr_symbolic_def expr_mul_def comp_def sum_list_map_mult_right
      distrib_right)

lemma expr_constraint_number [simp]:
  "se_constraint_number (expr_add e t) = se_constraint_number e"
  "se_constraint_number (expr_mul e x) = se_constraint_number e"
  "se_constraint_number (expr_new l) = l"
  by (simp_all add: expr_add_def expr_mul_def expr_new_def)

lemma lhs_sum_append [simp]: "lhs_sum W (ts @ us) c = lhs_sum W ts c + lhs_sum W us c"
  by (simp add: lhs_sum_def)

lemma lhs_sum_Nil [simp]: "lhs_sum W [] c = 0"
  by (simp add: lhs_sum_def)

text \<open>The emitted terms sum to the symbolic part, in the expression's own constraint only.\<close>

lemma expr_lhs_terms_sum:
  "lhs_sum W (expr_lhs_terms e) c =
     (if se_constraint_number e = c then expr_symbolic W e else 0)"
proof -
  have "lhs_sum W (List.map_filter (\<lambda>t. map_option (\<lambda>i.
      \<lparr>constraint_number = k, witness_index = i, constant_factor = sy_constant_factor t\<rparr>)
      (sy_witness_index t)) ts) c = (if k = c then sum_list (map (symbolic_eval W) ts) else 0)" for k ts
  proof (induction ts)
    case (Cons a ts)
    then show ?case
      by (cases "sy_witness_index a")
        (simp_all add: lhs_sum_def List.map_filter_simps symbolic_eval_def [of W a])
  qed (simp add: List.map_filter_simps)
  then show ?thesis by (simp add: expr_lhs_terms_def expr_symbolic_def)
qed

definition linear_constraints_hold :: "(nat \<Rightarrow> 'a :: comm_ring_1) \<Rightarrow> 'a linear_constraints \<Rightarrow> bool" where
  "linear_constraints_hold W lc \<longleftrightarrow>
     list_all (\<lambda>c. lhs_sum W (lc_lhs_terms lc) c = lc_rhs lc ! c) [0..<length (lc_rhs lc)]"

definition quadratic_constraint_holds :: "(nat \<Rightarrow> 'a :: comm_ring_1) \<Rightarrow> quadratic_constraint \<Rightarrow> bool" where
  "quadratic_constraint_holds W q \<longleftrightarrow> W (qc_x q) * W (qc_y q) = W (qc_z q)"

subsection \<open>Quadratic constraints of a filled witness\<close>

lemma quadratic_constraints_filled:
  assumes "fill_witness (layout_from_circuit c) xs f g = (w, g')"
    and "length xs = num_private_inputs c" "c_num_layers c = length (c_layers c)"
  shows "\<exists>qs. quadratic_constraints c (layout_from_circuit c) = Inr qs \<and>
    length qs = c_num_layers c \<and>
    list_all (\<lambda>q. qc_x q < length (w_values w) \<and> qc_y q < length (w_values w) \<and>
      qc_z q < length (w_values w) \<and> quadratic_constraint_holds (nth (w_values w)) q) qs"
proof -
  let ?wl = "layout_from_circuit c"
  have n: "length (wl_logw ?wl) = c_num_layers c" using assms(3) by (simp add: layout_from_circuit_def)
  have "length xs = wl_num_private_inputs ?wl" using assms(2) by (simp add: layout_from_circuit_def)
  note fw = fill_witness_props [OF assms(1) this]
  let ?k = "\<lambda>l. layer_start ?wl l + 4 * wl_logw ?wl ! l"
  let ?q = "\<lambda>l. \<lparr>qc_x = ?k l, qc_y = ?k l + 1, qc_z = ?k l + 2\<rparr>"
  have "quadratic_constraints c ?wl = Inr (map ?q [0..<c_num_layers c])"
    unfolding quadratic_constraints_def
    by (rule map_res_Inr_map) (use n in \<open>simp add: wire_witness_indices_eq\<close>)
  moreover have "?k l < length (w_values w) \<and> ?k l + 1 < length (w_values w) \<and>
      ?k l + 2 < length (w_values w) \<and> quadratic_constraint_holds (nth (w_values w)) (?q l)"
    if l: "l < c_num_layers c" for l
  proof -
    obtain x y where "wire_witnesses w l = Inr (x, y, x * y)" using fw(4) [of l] l n by auto
    then show ?thesis
      using l n fw(1)
      by (auto simp: wire_witnesses_def wire_witness_indices_eq witness_element_def nth_res_Inr_iff
          quadratic_constraint_holds_def)
  qed
  ultimately show ?thesis by (auto simp: list_all_iff)
qed

end
