(* ===== verification/Merkle.thy ===== *)
theory Merkle
  imports Codec
begin

text \<open>
  The Merkle tree of \<open>src/src/ligero/merkle.rs\<close>: digests in heap order with the root at index 1
  and the leaves in the upper half, building, the marking of the nodes a proof has to cover,
  inclusion proofs for several leaves at once, and their verification. SHA-256 is the parameter
  \<open>sha\<close>.

  Every loop over the inner nodes runs from the last one to the root and writes a node from its
  two children; \<open>up_fold\<close> characterises such a loop once for building, marking and verifying.
  Main results: every proof the tree produces is accepted, and an accepted proof that shows other
  leaves than those of the tree with the same root exhibits two different inputs with the same
  hash, at a node that is named.
\<close>

type_synonym node = digest
type_synonym nonce = bytes

record merkle_tree =
  mt_digests :: "node list"
  mt_nonces :: "nonce list"

definition merkle_new :: "nat \<Rightarrow> merkle_tree" where
  "merkle_new leaf_count =
     \<lparr>mt_digests = replicate (2 * leaf_count) (replicate 32 0),
      mt_nonces = replicate leaf_count (replicate 32 0)\<rparr>"

definition tree_size :: "merkle_tree \<Rightarrow> nat" where
  "tree_size t = length (mt_digests t)"

definition leaf_count :: "merkle_tree \<Rightarrow> nat" where
  "leaf_count t = tree_size t div 2"

definition set_leaf :: "nat \<Rightarrow> node \<Rightarrow> nonce \<Rightarrow> merkle_tree \<Rightarrow> merkle_tree res" where
  "set_leaf position leaf nonce t =
     and_then (upd_res (mt_digests t) (leaf_count t + position) leaf) (\<lambda>ds.
     and_then (upd_res (mt_nonces t) position nonce) (\<lambda>ns.
       Inr \<lparr>mt_digests = ds, mt_nonces = ns\<rparr>))"

definition hash_children :: "(bytes \<Rightarrow> digest) \<Rightarrow> node \<Rightarrow> node \<Rightarrow> node" where
  "hash_children sha left right = sha (left @ right)"

definition build_step :: "(bytes \<Rightarrow> digest) \<Rightarrow> nat \<Rightarrow> node list \<Rightarrow> node list" where
  "build_step sha index digests =
     digests[index := hash_children sha (digests ! (2 * index)) (digests ! (2 * index + 1))]"

definition merkle_build :: "(bytes \<Rightarrow> digest) \<Rightarrow> merkle_tree \<Rightarrow> merkle_tree" where
  "merkle_build sha t =
     t\<lparr>mt_digests := fold (build_step sha) (rev [1..<leaf_count t]) (mt_digests t)\<rparr>"

definition merkle_root :: "merkle_tree \<Rightarrow> node res" where
  "merkle_root t = nth_res (mt_digests t) 1"

definition mark_step :: "nat \<Rightarrow> bool list \<Rightarrow> bool list" where
  "mark_step index marked = marked[index := marked ! (2 * index) \<or> marked ! (2 * index + 1)]"

definition mark_tree :: "nat \<Rightarrow> nat \<Rightarrow> nat list \<Rightarrow> bool list res" where
  "mark_tree sz leaves requested_leaves =
     and_then
       (fold_res (\<lambda>requested_leaf marked. upd_res marked (leaves + requested_leaf) True)
          requested_leaves (replicate sz False))
       (\<lambda>marked. Inr (fold mark_step (rev [1..<leaves]) marked))"

text \<open>The child of a marked node that has to come from the proof, if one does.\<close>

definition missing_child :: "bool list \<Rightarrow> nat \<Rightarrow> nat option" where
  "missing_child marked index =
     (if marked ! index then
        let child_index = 2 * index;
            child_index = (if marked ! child_index then 2 * index + 1 else child_index)
        in if \<not> marked ! child_index then Some child_index else None
      else None)"

definition merkle_prove :: "merkle_tree \<Rightarrow> nat list \<Rightarrow> node list res" where
  "merkle_prove t requested_leaves =
     and_then (mark_tree (tree_size t) (leaf_count t) requested_leaves) (\<lambda>marked.
       Inr (fold (\<lambda>index proof.
              case missing_child marked index of
                Some child_index \<Rightarrow> proof @ [mt_digests t ! child_index]
              | None \<Rightarrow> proof)
            (rev [1..<leaf_count t]) []))"

definition take_proof_node ::
  "bool list \<Rightarrow> nat \<Rightarrow> node list \<times> node option list \<Rightarrow> (node list \<times> node option list) res" where
  "take_proof_node marked index st =
     (let (proof_iter, partial_tree) = st in
      case missing_child marked index of
        None \<Rightarrow> Inr st
      | Some child_index \<Rightarrow>
          (case proof_iter of
             [] \<Rightarrow> Inl (Fail ''not enough proof elements to prove inclusion'')
           | proof_node # rest \<Rightarrow> Inr (rest, partial_tree[child_index := Some proof_node])))"

definition combine_step :: "(bytes \<Rightarrow> digest) \<Rightarrow> nat \<Rightarrow> node option list \<Rightarrow> node option list" where
  "combine_step sha index partial_tree =
     (case (partial_tree ! (2 * index), partial_tree ! (2 * index + 1)) of
        (Some left_child, Some right_child) \<Rightarrow>
          partial_tree[index := Some (hash_children sha left_child right_child)]
      | _ \<Rightarrow> partial_tree)"

definition merkle_partial_tree ::
  "(bytes \<Rightarrow> digest) \<Rightarrow> nat \<Rightarrow> node list \<Rightarrow> nat list \<Rightarrow> node list \<Rightarrow> node option list res" where
  "merkle_partial_tree sha leaves included_nodes included_node_indices proof =
     and_then (mark_tree (leaves * 2) leaves included_node_indices) (\<lambda>marked.
     and_then (fold_res (take_proof_node marked) (rev [1..<leaves])
                 (proof, replicate (2 * leaves) None)) (\<lambda>(_, partial_tree).
       let partial_tree =
             fold (\<lambda>(included_node, included_node_index) p.
                     p[included_node_index + leaves := Some included_node])
               (zip included_nodes included_node_indices) partial_tree
       in Inr (fold (combine_step sha) (rev [1..<leaves]) partial_tree)))"

definition merkle_verify ::
  "(bytes \<Rightarrow> digest) \<Rightarrow> node \<Rightarrow> nat \<Rightarrow> node list \<Rightarrow> nat list \<Rightarrow> node list \<Rightarrow> unit res" where
  "merkle_verify sha root leaves included_nodes included_node_indices proof =
     (if length included_nodes \<noteq> length included_node_indices
      then Inl (Fail ''lengths of nodes and node indices must match'')
      else if list_ex (\<lambda>leaf_index. leaf_index \<ge> leaves) included_node_indices
      then Inl (Fail ''included nodes index exceeds tree size'')
      else
        and_then (merkle_partial_tree sha leaves included_nodes included_node_indices proof)
          (\<lambda>partial_tree.
        and_then (nth_res partial_tree 1) (\<lambda>computed.
          if computed \<noteq> Some root then Inl (Fail ''partial tree root does not match'')
          else Inr ())))"

subsection \<open>The encoding of inclusion proofs\<close>

definition inclusion_proof_decode :: "node list dec" where
  "inclusion_proof_decode bs =
     and_then (u32_decode bs) (\<lambda>(n, r).
       if unat n > length r div 32 then Inl (Fail ''inclusion proof length prefix is too large'')
       else decode_fixed_array digest_decode (unat n) r)"

definition inclusion_proof_encode :: "node list enc" where
  "inclusion_proof_encode proof =
     (if length proof < 2 ^ 32 then
        and_then (u32_encode (word_of_nat (length proof))) (\<lambda>b.
        and_then (encode_fixed_array digest_encode proof) (\<lambda>bs. Inr (b @ bs)))
      else Inl (Fail ''proof too big to be encoded''))"

interpretation inclusion_proof: codec inclusion_proof_encode inclusion_proof_decode
  "list_all (\<lambda>d. length d = 32)"
proof
  show "inclusion_proof_decode (bs @ rest) = Inr (ns, rest)"
    if wf: "list_all (\<lambda>d. length d = 32) ns" and enc: "inclusion_proof_encode ns = Inr bs"
    for ns bs rest
  proof -
    from enc obtain b cs where len: "length ns < 2 ^ 32"
      and b: "u32_encode (word_of_nat (length ns)) = Inr b"
      and cs: "encode_fixed_array digest_encode ns = Inr cs" and bs: "bs = b @ cs"
      by (auto simp: inclusion_proof_encode_def split: if_splits)
    have n: "unat (word_of_nat (length ns) :: u32) = length ns" using len by (simp add: unat_of_nat)
    have "length cs = 32 * length ns" using digest.fixed_array_total [OF wf] cs by auto
    then have "length ns \<le> length (cs @ rest) div 32" by simp
    with digest.fixed_array_roundtrip [OF wf cs] u32.roundtrip [OF TrueI b] n show ?thesis
      by (simp add: inclusion_proof_decode_def bs)
  qed
  show "inclusion_proof_decode bs = Inr (ns, rest) \<Longrightarrow> \<exists>p. bs = p @ rest" for bs ns rest
    by (auto simp: inclusion_proof_decode_def split: if_splits
        dest!: u32.consume digest.fixed_array_consume)
qed

subsection \<open>Loops from the leaves to the root\<close>

lemma up_fold:
  assumes step: "\<And>i P. step i P = P[i := f i (P ! (2 * i)) (P ! (2 * i + 1)) (P ! i)]"
    and n: "length P = 2 * n" and k: "1 \<le> k"
  shows "length (fold step (rev [k..<n]) P) = length P \<and>
    (\<forall>j < 2 * n. fold step (rev [k..<n]) P ! j =
      (if k \<le> j \<and> j < n
       then f j (fold step (rev [k..<n]) P ! (2 * j)) (fold step (rev [k..<n]) P ! (2 * j + 1)) (P ! j)
       else P ! j))"
  using k
proof (induction "n - k" arbitrary: k)
  case (Suc m)
  let ?Q = "fold step (rev [Suc k..<n]) P"
  have kn: "k < n" using Suc.hyps(2) by simp
  then have "[k..<n] = k # [Suc k..<n]" by (simp add: upt_conv_Cons)
  then have F: "fold step (rev [k..<n]) P = step k ?Q" by simp
  have IH: "length ?Q = length P" "\<And>j. j < 2 * n \<Longrightarrow> ?Q ! j = (if Suc k \<le> j \<and> j < n
       then f j (?Q ! (2 * j)) (?Q ! (2 * j + 1)) (P ! j) else P ! j)"
    using Suc.hyps(1) [of "Suc k"] Suc.hyps(2) by auto
  have R: "step k ?Q ! j = (if j = k then f k (?Q ! (2 * k)) (?Q ! (2 * k + 1)) (?Q ! k) else ?Q ! j)"
    if "j < 2 * n" for j
    using that IH(1) n by (simp add: step nth_list_update)
  have "step k ?Q ! j = (if k \<le> j \<and> j < n
      then f j (step k ?Q ! (2 * j)) (step k ?Q ! (2 * j + 1)) (P ! j) else P ! j)"
    if j: "j < 2 * n" for j
  proof (cases "k \<le> j \<and> j < n")
    case True
    then have "step k ?Q ! (2 * j) = ?Q ! (2 * j)" "step k ?Q ! (2 * j + 1) = ?Q ! (2 * j + 1)"
      using R [of "2 * j"] R [of "2 * j + 1"] Suc.prems by simp_all
    with True show ?thesis using R [OF j] IH(2) [OF j] by auto
  next
    case False
    with R [OF j] IH(2) [OF j] kn show ?thesis by auto
  qed
  moreover have "length (step k ?Q) = length P" using IH(1) by (simp add: step)
  ultimately show ?case unfolding F by blast
qed auto

lemma up_fold_props:
  assumes "\<And>i P. step i P = P[i := f i (P ! (2 * i)) (P ! (2 * i + 1)) (P ! i)]"
    and "length P = 2 * n"
  shows "length (fold step (rev [1..<n]) P) = 2 * n"
    and "1 \<le> j \<Longrightarrow> j < n \<Longrightarrow> fold step (rev [1..<n]) P ! j =
      f j (fold step (rev [1..<n]) P ! (2 * j)) (fold step (rev [1..<n]) P ! (2 * j + 1)) (P ! j)"
    and "n \<le> j \<Longrightarrow> j < 2 * n \<Longrightarrow> fold step (rev [1..<n]) P ! j = P ! j"
  using up_fold [OF assms, of 1] assms(2) by auto

section \<open>Merkle Proofs\<close>

text \<open>
  Completeness and soundness of the inclusion proofs of \<open>src/src/ligero/merkle.rs\<close>.
\<close>

subsection \<open>Trees\<close>

definition merkle_wf :: "(bytes \<Rightarrow> digest) \<Rightarrow> nat \<Rightarrow> merkle_tree \<Rightarrow> bool" where
  "merkle_wf sha n t \<longleftrightarrow>
     length (mt_digests t) = 2 * n \<and>
     (\<forall>j. 1 \<le> j \<longrightarrow> j < n \<longrightarrow> mt_digests t ! j =
        hash_children sha (mt_digests t ! (2 * j)) (mt_digests t ! (2 * j + 1)))"

definition leaf_at :: "merkle_tree \<Rightarrow> nat \<Rightarrow> node" where
  "leaf_at t i = mt_digests t ! (leaf_count t + i)"

lemma merkle_wf_count: "merkle_wf sha n t \<Longrightarrow> leaf_count t = n" "merkle_wf sha n t \<Longrightarrow> tree_size t = 2 * n"
  by (simp_all add: merkle_wf_def leaf_count_def tree_size_def)

lemma build_fold:
  assumes "length ds = 2 * n"
  shows "length (fold (build_step sha) (rev [1..<n]) ds) = 2 * n"
    and "1 \<le> j \<Longrightarrow> j < n \<Longrightarrow> fold (build_step sha) (rev [1..<n]) ds ! j = hash_children sha
      (fold (build_step sha) (rev [1..<n]) ds ! (2 * j)) (fold (build_step sha) (rev [1..<n]) ds ! (2 * j + 1))"
    and "n \<le> j \<Longrightarrow> j < 2 * n \<Longrightarrow> fold (build_step sha) (rev [1..<n]) ds ! j = ds ! j"
  using up_fold_props [where step = "build_step sha" and f = "\<lambda>i l r x. hash_children sha l r", OF _ assms]
  by (simp_all add: build_step_def)

lemma merkle_build_wf:
  assumes "length (mt_digests t) = 2 * n"
  shows "merkle_wf sha n (merkle_build sha t)"
    and "i < n \<Longrightarrow> leaf_at (merkle_build sha t) i = mt_digests t ! (n + i)"
  using build_fold [OF assms] assms
  by (auto simp: merkle_wf_def merkle_build_def leaf_count_def tree_size_def leaf_at_def)

subsection \<open>Marks\<close>

definition marks_ok :: "nat \<Rightarrow> nat list \<Rightarrow> bool list \<Rightarrow> bool" where
  "marks_ok n req M \<longleftrightarrow> length M = 2 * n \<and>
     (\<forall>j. 1 \<le> j \<longrightarrow> j < n \<longrightarrow> M ! j = (M ! (2 * j) \<or> M ! (2 * j + 1))) \<and>
     (\<forall>i < n. M ! (n + i) \<longleftrightarrow> i \<in> set req)"

lemma mark_leaves:
  assumes "list_all (\<lambda>i. i < n) req" "length M = 2 * n"
  shows "\<exists>M'. fold_res (\<lambda>r m. upd_res m (n + r) True) req M = Inr M' \<and> length M' = 2 * n \<and>
    (\<forall>j < 2 * n. M' ! j \<longleftrightarrow> M ! j \<or> (\<exists>r \<in> set req. j = n + r))"
  using assms
proof (induction req arbitrary: M)
  case (Cons r req)
  then have r: "n + r < length M" by simp
  from Cons.IH [of "M[n + r := True]"] Cons.prems
  obtain M' where "fold_res (\<lambda>r m. upd_res m (n + r) True) req (M[n + r := True]) = Inr M'"
    "length M' = 2 * n"
    "\<And>j. j < 2 * n \<Longrightarrow> M' ! j \<longleftrightarrow> M[n + r := True] ! j \<or> (\<exists>r \<in> set req. j = n + r)"
    by auto
  with r Cons.prems(2) show ?case by (auto simp: nth_list_update)
qed simp

lemma mark_tree_ok:
  assumes "list_all (\<lambda>i. i < n) req"
  obtains M where "mark_tree (2 * n) n req = Inr M" "marks_ok n req M"
proof -
  obtain M' where M': "fold_res (\<lambda>r m. upd_res m (n + r) True) req (replicate (2 * n) False) = Inr M'"
    "length M' = 2 * n"
    "\<And>j. j < 2 * n \<Longrightarrow> M' ! j \<longleftrightarrow> (\<exists>r \<in> set req. j = n + r)"
    using mark_leaves [OF assms, of "replicate (2 * n) False"] by auto
  let ?M = "fold mark_step (rev [1..<n]) M'"
  note up = up_fold_props [where step = mark_step and f = "\<lambda>i l r x. l \<or> r", OF _ M'(2)]
  have "length ?M = 2 * n" by (rule up(1)) (simp add: mark_step_def)
  moreover have "?M ! j = (?M ! (2 * j) \<or> ?M ! (2 * j + 1))" if "1 \<le> j" "j < n" for j
    by (rule up(2) [OF _ that]) (simp add: mark_step_def)
  moreover have "?M ! (n + i) \<longleftrightarrow> i \<in> set req" if "i < n" for i
  proof -
    have "?M ! (n + i) = M' ! (n + i)" using that by (intro up(3)) (simp_all add: mark_step_def)
    then show ?thesis using that M'(3) [of "n + i"] by simp
  qed
  ultimately have "marks_ok n req ?M" by (simp add: marks_ok_def)
  with M'(1) that show ?thesis by (simp add: mark_tree_def)
qed

lemma mark_tree_range:
  assumes "mark_tree (2 * n) n req = Inr M"
  shows "list_all (\<lambda>i. i < n) req"
proof -
  have "list_all (\<lambda>i. i < n) req"
    if "fold_res (\<lambda>r m. upd_res m (n + r) True) req M0 = Inr M1" "length M0 = 2 * n" for M0 M1
    using that by (induction req arbitrary: M0) (auto simp: upd_res_Inr_iff)
  with assms show ?thesis by (auto simp: mark_tree_def)
qed

text \<open>The marks reach the root.\<close>

lemma marked_root:
  assumes "marks_ok n req M" "req \<noteq> []" "list_all (\<lambda>i. i < n) req"
  shows "M ! 1"
proof -
  have "M ! 1" if "M ! j" "1 \<le> j" "j < 2 * n" for j
    using that
  proof (induction j rule: less_induct)
    case (less j)
    show ?case
    proof (cases "j = 1")
      case False
      let ?p = "j div 2"
      have p: "1 \<le> ?p" "?p < n" "?p < j" using less.prems False by auto
      have "j = 2 * ?p \<or> j = 2 * ?p + 1" by presburger
      moreover have "M ! ?p = (M ! (2 * ?p) \<or> M ! (2 * ?p + 1))"
        using assms(1) p by (simp add: marks_ok_def)
      ultimately have "M ! ?p" using less.prems(1) by metis
      with less.IH [OF p(3)] p show ?thesis by simp
    qed (use less in simp)
  qed
  note up = this
  obtain i where i: "i \<in> set req" "i < n" using assms(2,3) by (cases req) auto
  have "M ! (n + i)" using assms(1) i by (simp add: marks_ok_def)
  moreover have "1 \<le> n + i" "n + i < 2 * n" using i(2) by arith+
  ultimately show ?thesis by (rule up)
qed

lemma missing_child_marked:
  assumes "marks_ok n req M" "1 \<le> i" "i < n" "M ! i"
  shows "(M ! (2 * i) \<and> M ! (2 * i + 1) \<and> missing_child M i = None) \<or>
    (M ! (2 * i) \<and> \<not> M ! (2 * i + 1) \<and> missing_child M i = Some (2 * i + 1)) \<or>
    (\<not> M ! (2 * i) \<and> M ! (2 * i + 1) \<and> missing_child M i = Some (2 * i))"
  using assms by (auto simp: marks_ok_def missing_child_def Let_def)

lemma missing_child_Some:
  assumes "missing_child M i = Some c"
  shows "c = 2 * i \<or> c = 2 * i + 1" "M ! i" "\<not> M ! c"
  using assms by (auto simp: missing_child_def Let_def split: if_splits)

subsection \<open>The partial tree of the verifier\<close>

definition all_32 :: "node option list \<Rightarrow> bool" where
  "all_32 P \<longleftrightarrow> list_all (\<lambda>x. case x of None \<Rightarrow> True | Some a \<Rightarrow> length a = 32) P"

lemma all_32_update: "all_32 P \<Longrightarrow> length a = 32 \<Longrightarrow> all_32 (P[c := Some a])"
  using set_update_subset_insert [of P c "Some a"] by (auto simp: all_32_def list_all_iff)

lemma all_32_nth: "all_32 P \<Longrightarrow> j < length P \<Longrightarrow> P ! j = Some a \<Longrightarrow> length a = 32"
  by (auto simp: all_32_def list_all_length split: option.splits)

lemma take_proof_nodes:
  assumes "fold_res (take_proof_node M) js (pf, P) = Inr (rest, P')"
    and "\<forall>i \<in> set js. 2 * i + 1 < length P"
  shows "length P' = length P"
    and "\<And>j. j < length P \<Longrightarrow> P ! j \<noteq> None \<Longrightarrow> P' ! j \<noteq> None"
    and "\<And>i c. i \<in> set js \<Longrightarrow> missing_child M i = Some c \<Longrightarrow> P' ! c \<noteq> None"
    and "list_all (\<lambda>d. length d = 32) pf \<Longrightarrow> all_32 P \<Longrightarrow> all_32 P'"
proof -
  have "length P' = length P \<and> (\<forall>j < length P. P ! j \<noteq> None \<longrightarrow> P' ! j \<noteq> None) \<and>
    (\<forall>i \<in> set js. \<forall>c. missing_child M i = Some c \<longrightarrow> P' ! c \<noteq> None) \<and>
    (list_all (\<lambda>d. length d = 32) pf \<longrightarrow> all_32 P \<longrightarrow> all_32 P')"
    using assms
  proof (induction js arbitrary: pf P)
    case (Cons i js)
    show ?case
    proof (cases "missing_child M i")
      case None
      with Cons.IH [of pf P] Cons.prems show ?thesis by (auto simp: take_proof_node_def)
    next
      case (Some c)
      have c: "c < length P" using missing_child_Some(1) [OF Some] Cons.prems(2) by auto
      obtain d ds where p: "pf = d # ds"
        and rec: "fold_res (take_proof_node M) js (ds, P[c := Some d]) = Inr (rest, P')"
        using Cons.prems(1) Some by (cases pf) (auto simp: take_proof_node_def [of M i])
      have IH: "length P' = length P"
        "\<And>j. j < length P \<Longrightarrow> P[c := Some d] ! j \<noteq> None \<Longrightarrow> P' ! j \<noteq> None"
        "\<And>i c. i \<in> set js \<Longrightarrow> missing_child M i = Some c \<Longrightarrow> P' ! c \<noteq> None"
        "list_all (\<lambda>d. length d = 32) ds \<Longrightarrow> all_32 (P[c := Some d]) \<Longrightarrow> all_32 P'"
        using Cons.IH [OF rec] Cons.prems(2) by auto
      have "P' ! j \<noteq> None" if "j < length P" "P ! j \<noteq> None" for j
        using that IH(2) [of j] by (cases "j = c") auto
      moreover have "P' ! c \<noteq> None" using IH(2) [OF c] c by simp
      ultimately show ?thesis
        using IH Some p by (auto intro: all_32_update)
    qed
  qed simp
  then show "length P' = length P"
    and "\<And>j. j < length P \<Longrightarrow> P ! j \<noteq> None \<Longrightarrow> P' ! j \<noteq> None"
    and "\<And>i c. i \<in> set js \<Longrightarrow> missing_child M i = Some c \<Longrightarrow> P' ! c \<noteq> None"
    and "list_all (\<lambda>d. length d = 32) pf \<Longrightarrow> all_32 P \<Longrightarrow> all_32 P'"
    by blast+
qed

definition fill_leaves :: "nat \<Rightarrow> (node \<times> nat) list \<Rightarrow> node option list \<Rightarrow> node option list" where
  "fill_leaves n ps = fold (\<lambda>(included_node, included_node_index) p.
     p[included_node_index + n := Some included_node]) ps"

lemma length_fill_leaves [simp]: "length (fill_leaves n ps P) = length P"
  by (induction ps arbitrary: P) (auto simp: fill_leaves_def)

lemma fill_leaves_Cons: "fill_leaves n ((d, i) # ps) P = fill_leaves n ps (P[i + n := Some d])"
  by (simp add: fill_leaves_def)

lemma fill_leaves_other:
  "(\<forall>(d, i) \<in> set ps. i + n \<noteq> j) \<Longrightarrow> fill_leaves n ps P ! j = P ! j"
  by (induction ps arbitrary: P) (auto simp: fill_leaves_Cons fill_leaves_def)

lemma fill_leaves_defined:
  assumes "j < length P" "P ! j \<noteq> None \<or> (\<exists>(d, i) \<in> set ps. i + n = j)"
  shows "fill_leaves n ps P ! j \<noteq> None"
  using assms
proof (induction ps arbitrary: P)
  case (Cons p ps)
  obtain d i where p: "p = (d, i)" by (cases p)
  show ?case unfolding p fill_leaves_Cons
    using Cons.prems by (intro Cons.IH) (cases "i + n = j"; auto simp: p)+
qed (simp add: fill_leaves_def)

lemma fill_leaves_all_32:
  "all_32 P \<Longrightarrow> \<forall>(d, i) \<in> set ps. length d = 32 \<Longrightarrow> all_32 (fill_leaves n ps P)"
  by (induction ps arbitrary: P) (auto simp: fill_leaves_Cons fill_leaves_def [of n "[]"] all_32_update)

lemma image_snd_zip: "length xs = length ys \<Longrightarrow> snd ` set (zip xs ys) = set ys"
  by (metis map_snd_zip set_map)

lemma fill_leaves_nth:
  assumes "k < length ps" "snd (ps ! k) \<notin> snd ` set (drop (Suc k) ps)" "snd (ps ! k) + n < length P"
  shows "fill_leaves n ps P ! (snd (ps ! k) + n) = Some (fst (ps ! k))"
  using assms
proof (induction ps arbitrary: k P)
  case (Cons p ps)
  obtain e i where p: "p = (e, i)" by (cases p)
  show ?case
  proof (cases k)
    case 0
    with Cons.prems p have "\<forall>(d, i') \<in> set ps. i' + n \<noteq> i + n" by (auto simp: image_iff)
    with 0 p Cons.prems(3) show ?thesis by (simp add: fill_leaves_Cons fill_leaves_other)
  qed (use Cons p in \<open>simp add: fill_leaves_Cons\<close>)
qed simp

definition combined :: "(bytes \<Rightarrow> digest) \<Rightarrow> node option \<Rightarrow> node option \<Rightarrow> node option \<Rightarrow> node option" where
  "combined sha l r x =
     (case (l, r) of (Some a, Some b) \<Rightarrow> Some (hash_children sha a b) | _ \<Rightarrow> x)"

lemma combine_step_combined:
  "combine_step sha i P = P[i := combined sha (P ! (2 * i)) (P ! (2 * i + 1)) (P ! i)]"
  by (auto simp: combine_step_def combined_def split: option.splits)

lemmas combine_fold = up_fold_props [where step = "combine_step sha" and
    f = "\<lambda>i l r x. combined sha l r x" for sha, OF combine_step_combined]

lemma combine_defined:
  assumes "length P = 2 * n" "1 \<le> j" "j < 2 * n" "P ! j \<noteq> None"
  shows "fold (combine_step sha) (rev [1..<n]) P ! j \<noteq> None"
  using assms combine_fold(2,3) [OF assms(1), of j sha]
  by (cases "j < n") (auto simp: combined_def split: option.splits)

lemma combine_step_all_32:
  "(\<And>x. length (sha x) = 32) \<Longrightarrow> all_32 P \<Longrightarrow> all_32 (combine_step sha i P)"
  by (auto simp: combine_step_def hash_children_def split: option.splits intro: all_32_update)

lemma combine_all_32:
  "(\<And>x. length (sha x) = 32) \<Longrightarrow> all_32 P \<Longrightarrow> all_32 (fold (combine_step sha) js P)"
  by (induction js arbitrary: P) (simp_all add: combine_step_all_32)

text \<open>What the verifier's tree looks like after a run that did not fail, whatever the proof.\<close>

lemma merkle_partial_tree_props:
  assumes "merkle_partial_tree sha n nodes idx pf = Inr F" "length nodes = length idx"
  obtains M where "mark_tree (2 * n) n idx = Inr M" "marks_ok n idx M" "length F = 2 * n"
    "\<And>j. 1 \<le> j \<Longrightarrow> j < 2 * n \<Longrightarrow> M ! j \<Longrightarrow> F ! j \<noteq> None"
    "\<And>j. 1 \<le> j \<Longrightarrow> j < n \<Longrightarrow> M ! j \<Longrightarrow> \<exists>a b. F ! (2 * j) = Some a \<and> F ! (2 * j + 1) = Some b \<and>
       F ! j = Some (hash_children sha a b)"
    "\<And>k. k < length idx \<Longrightarrow> idx ! k \<notin> set (drop (Suc k) idx) \<Longrightarrow> F ! (n + idx ! k) = Some (nodes ! k)"
    "(\<And>x. length (sha x) = 32) \<Longrightarrow> list_all (\<lambda>d. length d = 32) pf \<Longrightarrow>
       list_all (\<lambda>d. length d = 32) nodes \<Longrightarrow> all_32 F"
proof -
  from assms(1) obtain M rest P where M: "mark_tree (2 * n) n idx = Inr M"
    and P: "fold_res (take_proof_node M) (rev [1..<n]) (pf, replicate (2 * n) None) = Inr (rest, P)"
    and F: "F = fold (combine_step sha) (rev [1..<n]) (fill_leaves n (zip nodes idx) P)"
    by (auto simp: merkle_partial_tree_def mult.commute fill_leaves_def)
  have rng: "list_all (\<lambda>i. i < n) idx" by (rule mark_tree_range [OF M])
  have ok: "marks_ok n idx M" using mark_tree_ok [OF rng] M by fastforce
  let ?L = "fill_leaves n (zip nodes idx) P"
  note take = take_proof_nodes [OF P]
  have lP: "length P = 2 * n" using take(1) by simp
  then have lL: "length ?L = 2 * n" by simp
  have missing: "?L ! c \<noteq> None" if "1 \<le> i" "i < n" "missing_child M i = Some c" for i c
  proof -
    have "P ! c \<noteq> None" using take(3) [of i c] that by auto
    moreover have "c < length P" using missing_child_Some(1) [OF that(3)] that(2) lP by auto
    ultimately show ?thesis by (intro fill_leaves_defined) auto
  qed
  have leaf: "?L ! (n + i) \<noteq> None" if "i \<in> set idx" for i
  proof -
    have "i < n" using rng that by (auto simp: list_all_iff)
    moreover obtain k where "k < length idx" "idx ! k = i" using \<open>i \<in> set idx\<close> by (auto simp: in_set_conv_nth)
    then have "(nodes ! k, i) \<in> set (zip nodes idx)" using assms(2) by (auto simp: set_zip)
    ultimately show ?thesis using lP by (intro fill_leaves_defined) (auto simp: add.commute)
  qed
  have cd: "F ! j \<noteq> None" if "1 \<le> j" "j < 2 * n" "?L ! j \<noteq> None" for j
    unfolding F by (rule combine_defined [OF lL that])
  have defd: "F ! j \<noteq> None" if "1 \<le> j" "j < 2 * n" "M ! j" for j
    using that
  proof (induction "2 * n - j" arbitrary: j rule: less_induct)
    case less
    show ?case
    proof (cases "j < n")
      case False
      then have "j = n + (j - n)" "j - n \<in> set idx"
        using less.prems ok by (auto simp: marks_ok_def) (metis add_diff_inverse_nat less_diff_conv2 mult_2 nat_add_left_cancel_less not_less)
      with leaf [of "j - n"] show ?thesis using less.prems by (intro cd) auto
    next
      case True
      have child: "F ! c \<noteq> None" if "c = 2 * j \<or> c = 2 * j + 1" for c
      proof (cases "M ! c")
        case True
        with that \<open>j < n\<close> less.prems show ?thesis by (intro less.hyps) auto
      next
        case False
        then have "missing_child M j = Some c"
          using missing_child_marked [OF ok less.prems(1) \<open>j < n\<close> less.prems(3)] that by auto
        from missing [OF less.prems(1) \<open>j < n\<close> this] that \<open>j < n\<close> less.prems(1) show ?thesis
          by (intro cd) auto
      qed
      show ?thesis
        using child [of "2 * j"] child [of "2 * j + 1"] combine_fold(2) [OF lL less.prems(1) True, of sha]
        unfolding F by (auto simp: combined_def)
    qed
  qed
  have inner: "\<exists>a b. F ! (2 * j) = Some a \<and> F ! (2 * j + 1) = Some b \<and> F ! j = Some (hash_children sha a b)"
    if j: "1 \<le> j" "j < n" "M ! j" for j
  proof -
    have "F ! c \<noteq> None" if "c = 2 * j \<or> c = 2 * j + 1" for c
    proof (cases "M ! c")
      case True
      with that j show ?thesis by (intro defd) auto
    next
      case False
      then have "missing_child M j = Some c"
        using missing_child_marked [OF ok j] that by auto
      from missing [OF j(1,2) this] that j show ?thesis by (intro cd) auto
    qed
    then obtain a b where "F ! (2 * j) = Some a" "F ! (2 * j + 1) = Some b" by blast
    moreover have "F ! j = combined sha (F ! (2 * j)) (F ! (2 * j + 1)) (?L ! j)"
      unfolding F by (rule combine_fold(2) [OF lL j(1,2)])
    ultimately show ?thesis by (simp add: combined_def)
  qed
  have lf: "F ! (n + idx ! k) = Some (nodes ! k)" if "k < length idx" "idx ! k \<notin> set (drop (Suc k) idx)" for k
  proof -
    have "idx ! k < n" using rng that(1) by (simp add: list_all_length)
    have "F ! (n + idx ! k) = ?L ! (n + idx ! k)"
      unfolding F by (rule combine_fold(3) [OF lL]) (use \<open>idx ! k < n\<close> in simp_all)
    also have "\<dots> = Some (nodes ! k)"
      using fill_leaves_nth [of k "zip nodes idx" n P] that assms(2) lP \<open>idx ! k < n\<close>
        image_snd_zip [of "drop (Suc k) nodes" "drop (Suc k) idx"]
      by (simp add: add.commute drop_zip)
    finally show ?thesis .
  qed
  have "all_32 F" if "\<And>x. length (sha x) = 32" "list_all (\<lambda>d. length d = 32) pf"
    "list_all (\<lambda>d. length d = 32) nodes"
  proof -
    have "all_32 P" using that(2) by (intro take(4)) (simp_all add: all_32_def list_all_iff)
    moreover have "\<forall>(d, i) \<in> set (zip nodes idx). length d = 32"
      using that(3) by (auto simp: list_all_iff dest: set_zip_leftD)
    ultimately show ?thesis unfolding F by (intro combine_all_32 that(1) fill_leaves_all_32)
  qed
  with that [OF M ok _ defd inner lf] lL combine_fold(1) [OF lL, of sha] F show ?thesis by simp
qed

subsection \<open>Completeness\<close>

definition proof_nodes :: "node list \<Rightarrow> bool list \<Rightarrow> nat list \<Rightarrow> node list" where
  "proof_nodes ds M js =
     concat (map (\<lambda>i. case missing_child M i of Some c \<Rightarrow> [ds ! c] | None \<Rightarrow> []) js)"

lemma prove_proof_nodes:
  "fold (\<lambda>index pf. case missing_child M index of Some c \<Rightarrow> pf @ [ds ! c] | None \<Rightarrow> pf) js acc =
     acc @ proof_nodes ds M js"
  by (induction js arbitrary: acc) (auto simp: proof_nodes_def split: option.splits)

text \<open>A partial tree that agrees with the digests wherever it is defined.\<close>

definition agrees :: "node list \<Rightarrow> node option list \<Rightarrow> bool" where
  "agrees ds P \<longleftrightarrow> length P = length ds \<and> (\<forall>j < length P. P ! j = None \<or> P ! j = Some (ds ! j))"

lemma agrees_update: "agrees ds P \<Longrightarrow> a = ds ! c \<Longrightarrow> agrees ds (P[c := Some a])"
  unfolding agrees_def by (metis length_list_update nth_list_update_eq nth_list_update_neq)

lemma take_honest_nodes:
  assumes "agrees ds P"
  shows "\<exists>P'. fold_res (take_proof_node M) js (proof_nodes ds M js @ rest, P) = Inr (rest, P') \<and>
    agrees ds P'"
  using assms
proof (induction js arbitrary: P)
  case (Cons i js)
  show ?case
  proof (cases "missing_child M i")
    case None
    with Cons show ?thesis by (simp add: proof_nodes_def take_proof_node_def)
  next
    case (Some c)
    with Cons.IH [OF agrees_update [OF Cons.prems refl]] show ?thesis
      by (simp add: proof_nodes_def take_proof_node_def)
  qed
qed (simp add: proof_nodes_def)

lemma fill_honest_leaves:
  "agrees ds P \<Longrightarrow> \<forall>(d, i) \<in> set ps. d = ds ! (i + n) \<Longrightarrow> agrees ds (fill_leaves n ps P)"
proof (induction ps arbitrary: P)
  case (Cons p ps)
  obtain d i where "p = (d, i)" by (cases p)
  with Cons show ?case by (auto simp: fill_leaves_Cons agrees_update)
qed (simp add: fill_leaves_def)

lemma combine_honest:
  assumes "merkle_wf sha n t" "agrees (mt_digests t) P" "\<forall>i \<in> set js. 1 \<le> i \<and> i < n"
  shows "agrees (mt_digests t) (fold (combine_step sha) js P)"
  using assms(2,3)
proof (induction js arbitrary: P)
  case (Cons i js)
  have i: "1 \<le> i" "i < n" using Cons.prems by simp_all
  have len: "length P = 2 * n" using assms(1) Cons.prems(1) by (simp add: agrees_def merkle_wf_def)
  have ds: "mt_digests t ! i = hash_children sha (mt_digests t ! (2 * i)) (mt_digests t ! (2 * i + 1))"
    using assms(1) i by (simp add: merkle_wf_def)
  have "P ! (2 * i) = None \<or> P ! (2 * i) = Some (mt_digests t ! (2 * i))"
    "P ! (2 * i + 1) = None \<or> P ! (2 * i + 1) = Some (mt_digests t ! (2 * i + 1))"
    using Cons.prems(1) len i by (simp_all add: agrees_def)
  then have "agrees (mt_digests t) (combine_step sha i P)"
    using Cons.prems(1) agrees_update [OF Cons.prems(1) ds [symmetric]]
    by (auto simp: combine_step_def)
  with Cons show ?case by simp
qed simp

lemma leaf_at_digest: "merkle_wf sha n t \<Longrightarrow> leaf_at t i = mt_digests t ! (i + n)"
  by (simp add: leaf_at_def merkle_wf_count add.commute)

lemma merkle_complete:
  assumes "merkle_wf sha n t" "idx \<noteq> []" "list_all (\<lambda>i. i < n) idx"
  shows "\<exists>pf root. merkle_prove t idx = Inr pf \<and> merkle_root t = Inr root \<and>
    merkle_verify sha root n (map (leaf_at t) idx) idx pf = Inr ()"
proof -
  let ?ds = "mt_digests t" and ?nodes = "map (leaf_at t) idx"
  have n: "0 < n" using assms(2,3) by (cases idx) auto
  have len: "length ?ds = 2 * n" using assms(1) by (simp add: merkle_wf_def)
  obtain M where M: "mark_tree (2 * n) n idx = Inr M" and ok: "marks_ok n idx M"
    by (rule mark_tree_ok [OF assms(3)])
  let ?js = "rev [1..<n]" and ?pf = "proof_nodes ?ds M (rev [1..<n])"
  have prove: "merkle_prove t idx = Inr ?pf"
    using M prove_proof_nodes [of ?ds M ?js "[]"]
    by (simp add: merkle_prove_def merkle_wf_count [OF assms(1)])
  have "agrees ?ds (replicate (2 * n) None)" by (simp add: agrees_def len)
  from take_honest_nodes [OF this, of M ?js "[]"] obtain P where
    P: "fold_res (take_proof_node M) ?js (?pf, replicate (2 * n) None) = Inr ([], P)"
    and aP: "agrees ?ds P" by auto
  let ?F = "fold (combine_step sha) ?js (fill_leaves n (zip ?nodes idx) P)"
  have "\<forall>(d, i) \<in> set (zip ?nodes idx). d = ?ds ! (i + n)"
    by (auto simp: set_zip leaf_at_digest [OF assms(1)])
  from combine_honest [OF assms(1) fill_honest_leaves [OF aP this], of ?js]
  have aF: "agrees ?ds ?F" by simp
  have F: "merkle_partial_tree sha n ?nodes idx ?pf = Inr ?F"
    using M P by (simp add: merkle_partial_tree_def mult.commute fill_leaves_def)
  obtain M' where M': "mark_tree (2 * n) n idx = Inr M'"
    "\<And>j. 1 \<le> j \<Longrightarrow> j < 2 * n \<Longrightarrow> M' ! j \<Longrightarrow> ?F ! j \<noteq> None"
    by (rule merkle_partial_tree_props [OF F]) (simp, blast)
  have "M ! 1" by (rule marked_root [OF ok assms(2,3)])
  then have "?F ! 1 \<noteq> None" using M M' n by (intro M'(2)) simp_all
  moreover have "1 < length ?F" using aF len n by (simp add: agrees_def)
  then have "?F ! 1 = None \<or> ?F ! 1 = Some (?ds ! 1)" using aF unfolding agrees_def by blast
  ultimately have root: "?F ! 1 = Some (?ds ! 1)" by (elim disjE) simp_all
  have "length ?F = 2 * n" using aF len by (simp add: agrees_def)
  moreover have "\<not> list_ex (\<lambda>i. n \<le> i) idx" using assms(3) by (auto simp: list_ex_iff list_all_iff)
  ultimately have "merkle_verify sha (?ds ! 1) n ?nodes idx ?pf = Inr ()"
    using F root n by (simp add: merkle_verify_def)
  moreover have "merkle_root t = Inr (?ds ! 1)" using len n by (simp add: merkle_root_def)
  ultimately show ?thesis using prove by blast
qed

subsection \<open>Soundness\<close>

text \<open>
  A node of the verifier's tree whose children are not those of the honest tree but hash to the
  same digest.
\<close>

definition collision_at :: "(bytes \<Rightarrow> digest) \<Rightarrow> node list \<Rightarrow> node option list \<Rightarrow> nat \<Rightarrow> bool" where
  "collision_at sha ds F p =
     (case (F ! (2 * p), F ! (2 * p + 1)) of
        (Some a, Some b) \<Rightarrow>
          a @ b \<noteq> ds ! (2 * p) @ ds ! (2 * p + 1) \<and> sha (a @ b) = sha (ds ! (2 * p) @ ds ! (2 * p + 1))
      | _ \<Rightarrow> False)"

definition merkle_collision ::
  "(bytes \<Rightarrow> digest) \<Rightarrow> nat \<Rightarrow> merkle_tree \<Rightarrow> node list \<Rightarrow> nat list \<Rightarrow> node list \<Rightarrow> bool" where
  "merkle_collision sha n t nodes idx pf =
     (case merkle_partial_tree sha n nodes idx pf of
        Inl _ \<Rightarrow> False
      | Inr F \<Rightarrow> list_ex (collision_at sha (mt_digests t) F) [1..<n])"

text \<open>No index is given: nothing is computed, and the proof is refused.\<close>

lemma no_marks:
  assumes "\<forall>i \<in> set js. i < n"
  shows "fold mark_step js (replicate (2 * n) False) = replicate (2 * n) False"
    and "fold (combine_step sha) js (replicate (2 * n) None) = replicate (2 * n) None"
proof -
  have "2 * i < 2 * n \<and> 2 * i + 1 < 2 * n" if "i < n" for i using that by linarith
  then have "mark_step i (replicate (2 * n) False) = replicate (2 * n) False"
    "combine_step sha i (replicate (2 * n) None) = replicate (2 * n) None" if "i < n" for i
    using that by (simp_all add: mark_step_def combine_step_def list_update_same_conv)
  with assms show "fold mark_step js (replicate (2 * n) False) = replicate (2 * n) False"
    "fold (combine_step sha) js (replicate (2 * n) None) = replicate (2 * n) None"
    by (induction js) simp_all
qed

lemma merkle_verify_no_indices:
  "merkle_verify sha root n [] [] pf \<noteq> Inr ()"
  "0 < n \<Longrightarrow> merkle_verify sha root n [] [] pf = Inl (Fail ''partial tree root does not match'')"
proof -
  have take: "fold_res (take_proof_node (replicate (2 * n) False)) js st = Inr st" if "\<forall>i \<in> set js. i < n" for js st
    using that by (induction js) (simp_all add: take_proof_node_def missing_child_def split: prod.split)
  have js: "\<forall>i \<in> set (rev [1..<n]). i < n" by simp
  have "merkle_partial_tree sha n [] [] pf = Inr (replicate (2 * n) None)"
    by (simp add: merkle_partial_tree_def mark_tree_def take mult.commute [of n 2] no_marks [OF js, simplified])
  then show "merkle_verify sha root n [] [] pf \<noteq> Inr ()"
    "0 < n \<Longrightarrow> merkle_verify sha root n [] [] pf = Inl (Fail ''partial tree root does not match'')"
    by (auto simp: merkle_verify_def nth_res_def)
qed

lemma merkle_sound:
  assumes wf: "merkle_wf sha n t" and d32: "list_all (\<lambda>d. length d = 32) (mt_digests t)"
    and sha: "\<And>x. length (sha x) = 32"
    and acc: "merkle_verify sha root n nodes idx pf = Inr ()" and root: "merkle_root t = Inr root"
    and nodes: "list_all (\<lambda>d. length d = 32) nodes" and pf: "list_all (\<lambda>d. length d = 32) pf"
  shows "length nodes = length idx \<and>
      (\<forall>k < length idx. idx ! k \<notin> set (drop (Suc k) idx) \<longrightarrow> nodes ! k = leaf_at t (idx ! k)) \<or>
    merkle_collision sha n t nodes idx pf"
proof (rule disjCI)
  assume nc: "\<not> merkle_collision sha n t nodes idx pf"
  let ?ds = "mt_digests t"
  from acc obtain F where len: "length nodes = length idx" and rng: "list_all (\<lambda>i. i < n) idx"
    and F: "merkle_partial_tree sha n nodes idx pf = Inr F" and F1: "F ! 1 = Some root"
    by (auto simp: merkle_verify_def nth_res_Inr_iff list_ex_iff list_all_iff not_le split: if_splits)
  obtain M where M: "marks_ok n idx M" "length F = 2 * n"
    "\<And>j. 1 \<le> j \<Longrightarrow> j < n \<Longrightarrow> M ! j \<Longrightarrow> \<exists>a b. F ! (2 * j) = Some a \<and> F ! (2 * j + 1) = Some b \<and>
       F ! j = Some (hash_children sha a b)"
    "\<And>k. k < length idx \<Longrightarrow> idx ! k \<notin> set (drop (Suc k) idx) \<Longrightarrow> F ! (n + idx ! k) = Some (nodes ! k)"
    "all_32 F"
    by (rule merkle_partial_tree_props [OF F len]) (use sha pf nodes in blast)
  have lds: "length ?ds = 2 * n" using wf by (simp add: merkle_wf_def)
  have no_coll: "\<not> collision_at sha ?ds F p" if "1 \<le> p" "p < n" for p
    using nc F that by (auto simp: merkle_collision_def list_ex_iff)
  have honest: "F ! j = Some (?ds ! j)" if "M ! j" "1 \<le> j" "j < 2 * n" for j
    using that
  proof (induction j rule: less_induct)
    case (less j)
    show ?case
    proof (cases "j = 1")
      case True
      then show ?thesis using F1 root lds less.prems by (simp add: merkle_root_def nth_res_def split: if_splits)
    next
      case False
      let ?p = "j div 2"
      have p: "1 \<le> ?p" "?p < n" "?p < j" using less.prems False by auto
      have j: "j = 2 * ?p \<or> j = 2 * ?p + 1" by presburger
      have Mp: "M ! ?p"
        using M(1) p j less.prems(1) unfolding marks_ok_def by metis
      have IH: "F ! ?p = Some (?ds ! ?p)" using less.IH [OF p(3) Mp p(1)] p(2) by simp
      obtain a b where ab: "F ! (2 * ?p) = Some a" "F ! (2 * ?p + 1) = Some b"
        "F ! ?p = Some (hash_children sha a b)"
        using M(3) [OF p(1,2) Mp] by blast
      have "?ds ! ?p = hash_children sha (?ds ! (2 * ?p)) (?ds ! (2 * ?p + 1))"
        using wf p by (simp add: merkle_wf_def)
      then have "sha (a @ b) = sha (?ds ! (2 * ?p) @ ?ds ! (2 * ?p + 1))"
        using IH ab(3) by (simp add: hash_children_def)
      then have eq: "a @ b = ?ds ! (2 * ?p) @ ?ds ! (2 * ?p + 1)"
        using no_coll [OF p(1,2)] ab(1,2) by (simp add: collision_at_def)
      have "length a = 32" using all_32_nth [OF M(5) _ ab(1)] M(2) p by simp
      moreover have "length (?ds ! (2 * ?p)) = 32"
        using d32 lds p by (simp add: list_all_length)
      ultimately have "a = ?ds ! (2 * ?p)" "b = ?ds ! (2 * ?p + 1)" using eq by simp_all
      with ab j show ?thesis by metis
    qed
  qed
  have "nodes ! k = leaf_at t (idx ! k)" if k: "k < length idx" "idx ! k \<notin> set (drop (Suc k) idx)" for k
  proof -
    have i: "idx ! k < n" using rng k(1) by (simp add: list_all_length)
    have "M ! (n + idx ! k)" using M(1) i k by (simp add: marks_ok_def)
    then have "F ! (n + idx ! k) = Some (?ds ! (n + idx ! k))" using i by (intro honest) simp_all
    then show ?thesis using M(4) [OF k] by (simp add: leaf_at_digest [OF wf] add.commute)
  qed
  then show "length nodes = length idx \<and>
      (\<forall>k < length idx. idx ! k \<notin> set (drop (Suc k) idx) \<longrightarrow> nodes ! k = leaf_at t (idx ! k))"
    using len by blast
qed

lemma merkle_sound_distinct:
  assumes "merkle_wf sha n t" "list_all (\<lambda>d. length d = 32) (mt_digests t)" "\<And>x. length (sha x) = 32"
    and "merkle_verify sha root n nodes idx pf = Inr ()" "merkle_root t = Inr root"
    and "list_all (\<lambda>d. length d = 32) nodes" "list_all (\<lambda>d. length d = 32) pf" "distinct idx"
  shows "nodes = map (leaf_at t) idx \<or> merkle_collision sha n t nodes idx pf"
proof -
  have "idx ! k \<notin> set (drop (Suc k) idx)" if "k < length idx" for k
    using that assms(8) id_take_nth_drop [OF that] by (metis distinct_append distinct.simps(2))
  then have "nodes = map (leaf_at t) idx" if "length nodes = length idx"
      "\<forall>k < length idx. idx ! k \<notin> set (drop (Suc k) idx) \<longrightarrow> nodes ! k = leaf_at t (idx ! k)"
    using that by (intro nth_equalityI) auto
  then show ?thesis using merkle_sound [OF assms(1-7)] by blast
qed

end
