(* ===== verification/Vectors.thy ===== *)
theory Vectors
  imports Prelude
begin

text \<open>
  Lists as vectors, as the loops of the Ligero code use them: updates through zipped iterators,
  slices, chunks, and the selection of a list of positions, which commutes with every pointwise
  update. A prover that computes on a prefix of the rows and a verifier that computes on a few
  columns are two selections of the same computation on the full rows.
\<close>

subsection \<open>Zipped updates\<close>

text \<open>\<open>for (x, y) in xs.iter_mut().zip(ys)\<close>: the elements beyond the shorter one stay.\<close>

definition zip_update :: "('a \<Rightarrow> 'b \<Rightarrow> 'a) \<Rightarrow> 'a list \<Rightarrow> 'b list \<Rightarrow> 'a list" where
  "zip_update f xs ys = map2 f xs ys @ drop (length ys) xs"

lemma length_zip_update [simp]: "length (zip_update f xs ys) = length xs"
  by (auto simp: zip_update_def)

lemma zip_update_same: "length xs = length ys \<Longrightarrow> zip_update f xs ys = map2 f xs ys"
  by (simp add: zip_update_def)

lemma nth_zip_update:
  "i < length xs \<Longrightarrow> i < length ys \<Longrightarrow> zip_update f xs ys ! i = f (xs ! i) (ys ! i)"
  by (simp add: zip_update_def nth_append)

text \<open>Slicing panics when it leaves the vector, \<open>Vec::resize\<close> truncates or pads.\<close>

definition resize :: "nat \<Rightarrow> 'a \<Rightarrow> 'a list \<Rightarrow> 'a list" where
  "resize n x xs = take n xs @ replicate (n - length xs) x"

definition slice_res :: "'a list \<Rightarrow> nat \<Rightarrow> nat \<Rightarrow> 'a list res" where
  "slice_res xs i j =
     (if i \<le> j \<and> j \<le> length xs then Inr (take (j - i) (drop i xs)) else Inl oob)"

lemma slice_res_prefix: "j \<le> length xs \<Longrightarrow> slice_res xs 0 j = Inr (take j xs)"
  by (simp add: slice_res_def)

subsection \<open>Selections\<close>

definition sel :: "nat list \<Rightarrow> 'a list \<Rightarrow> 'a list" where
  "sel js xs = map (nth xs) js"

definition fits :: "nat list \<Rightarrow> 'a list \<Rightarrow> bool" where
  "fits js xs \<longleftrightarrow> (\<forall>j \<in> set js. j < length xs)"

lemma length_sel [simp]: "length (sel js xs) = length js"
  by (simp add: sel_def)

lemma nth_sel [simp]: "k < length js \<Longrightarrow> sel js xs ! k = xs ! (js ! k)"
  by (simp add: sel_def)

lemma sel_take: "n \<le> length xs \<Longrightarrow> sel [0..<n] xs = take n xs"
  by (rule nth_equalityI) (simp_all add: sel_def)

lemma sel_zip_update:
  assumes "fits js xs" "fits js ys"
  shows "sel js (zip_update f xs ys) = zip_update f (sel js xs) (sel js ys)"
  using assms by (auto intro!: nth_equalityI simp: fits_def nth_zip_update)

subsection \<open>Chunks\<close>

fun chunks :: "nat \<Rightarrow> 'a list \<Rightarrow> 'a list list" where
  "chunks n [] = []"
| "chunks n (x # xs) = (x # take (n - 1) xs) # chunks n (drop (n - 1) xs)"

lemma chunks_append:
  assumes "length xs = n" "0 < n"
  shows "chunks n (xs @ ys) = xs # chunks n ys"
  using assms by (cases xs) auto

lemma chunks_concat:
  assumes "\<forall>r \<in> set rows. length r = n" "0 < n"
  shows "chunks n (concat rows) = rows"
  using assms(1) by (induction rows) (simp_all add: chunks_append assms(2))

lemma chunks_eq:
  assumes "length xs = k * n" "0 < n"
  shows "chunks n xs = map (\<lambda>i. take n (drop (i * n) xs)) [0..<k]"
  using assms(1)
proof (induction k arbitrary: xs)
  case (Suc k)
  have "xs = take n xs @ drop n xs" by simp
  then have "chunks n xs = take n xs # chunks n (drop n xs)"
    using chunks_append [of "take n xs" n "drop n xs"] Suc.prems assms(2) by simp
  also have "chunks n (drop n xs) = map (\<lambda>i. take n (drop (i * n) (drop n xs))) [0..<k]"
    using Suc.prems by (intro Suc.IH) simp
  also have "\<dots> = map (\<lambda>i. take n (drop (Suc i * n) xs)) [0..<k]" by (simp add: add.commute)
  finally show ?case by (simp add: upt_conv_Cons map_Suc_upt [symmetric] del: upt_Suc)
qed simp

subsection \<open>Folds of updates\<close>

lemma sel_fold:
  assumes "\<And>p xs. p \<in> set ps \<Longrightarrow> length xs = m \<Longrightarrow> length (f p xs) = m \<and> sel js (f p xs) = f' p (sel js xs)"
    and "length xs = m"
  shows "sel js (fold f ps xs) = fold f' ps (sel js xs) \<and> length (fold f ps xs) = m"
  using assms
proof (induction ps arbitrary: xs)
  case (Cons p ps)
  have "length (f p xs) = m \<and> sel js (f p xs) = f' p (sel js xs)" using Cons.prems by simp
  with Cons.IH [of "f p xs"] Cons.prems(1) show ?case by simp
qed simp

lemma fold_invariant:
  assumes "\<And>p x. p \<in> set ps \<Longrightarrow> Q x \<Longrightarrow> Q (f p x)" "Q x"
  shows "Q (fold f ps x)"
  using assms by (induction ps arbitrary: x) auto

lemma fold_plus_sum_list: "fold (\<lambda>x s. s + x) xs s = s + sum_list (xs :: 'a :: comm_monoid_add list)"
  by (induction xs arbitrary: s) (simp_all add: add.assoc add.commute [of _ s] add.left_commute)

subsection \<open>Inner products\<close>

definition dotp :: "'a :: comm_ring_1 list \<Rightarrow> 'a list \<Rightarrow> 'a" where
  "dotp xs ys = sum_list (map2 (*) xs ys)"

lemma dotp_simps [simp]:
  "dotp [] ys = 0" "dotp xs [] = 0" "dotp (x # xs) (y # ys) = x * y + dotp xs ys"
  by (simp_all add: dotp_def)

lemma dotp_append:
  "length xs = length ys \<Longrightarrow> dotp (xs @ xs') (ys @ ys') = dotp xs ys + dotp xs' ys'"
  by (simp add: dotp_def)

lemma dotp_replicate_0 [simp]: "dotp (replicate n 0) ys = 0"
  by (induction n arbitrary: ys) (simp_all, metis dotp_simps(2,3) add_0 list.exhaust mult_zero_left)

lemma dotp_update:
  assumes "i < length xs" "length xs = length ys"
  shows "dotp (xs[i := xs ! i + c]) ys = dotp xs ys + c * ys ! i"
  using assms
proof (induction xs arbitrary: i ys)
  case (Cons x xs)
  then show ?case
    by (cases ys; cases i) (auto simp: algebra_simps)
qed simp

lemma dotp_concat:
  assumes "list_all2 (\<lambda>r s. length r = length s) rs ss"
  shows "dotp (concat rs) (concat ss) = sum_list (map2 dotp rs ss)"
  using assms by (induction rule: list_all2_induct) (simp_all add: dotp_append)

text \<open>The blocks of a padded vector.\<close>

definition padded_chunk :: "nat \<Rightarrow> nat \<Rightarrow> 'a :: zero list \<Rightarrow> 'a list" where
  "padded_chunk n r xs = resize n 0 (drop (r * n) xs)"

lemma length_resize [simp]: "length (resize n x xs) = n"
  by (simp add: resize_def)

lemma nth_resize: "i < n \<Longrightarrow> resize n x xs ! i = (if i < length xs then xs ! i else x)"
  by (auto simp: resize_def nth_append)

lemma length_padded_chunk [simp]: "length (padded_chunk n r xs) = n"
  by (simp add: padded_chunk_def)

lemma nth_padded_chunk:
  "j < n \<Longrightarrow> padded_chunk n r xs ! j = (if r * n + j < length xs then xs ! (r * n + j) else 0)"
  by (auto simp: padded_chunk_def nth_resize)

lemma nth_concat_same:
  assumes "\<forall>r \<in> set rows. length r = n" "r < length rows" "j < n"
  shows "concat rows ! (r * n + j) = rows ! r ! j"
  using assms
proof (induction rows arbitrary: r)
  case (Cons x rows)
  then show ?case by (cases r) (auto simp: nth_append)
qed simp

lemma length_concat_same: "\<forall>r \<in> set rows. length r = n \<Longrightarrow> length (concat rows) = length rows * n"
  by (induction rows) simp_all

end
