(* ===== verification/Ligero_Tableau.thy ===== *)
theory Ligero_Tableau
  imports Witness Constraints Merkle Transcript Vectors
begin

text \<open>
  The common part of Ligero, \<open>src/src/ligero/mod.rs\<close>, and the tableau, \<open>src/src/ligero/tableau.rs\<close>: the layout
  of the rows, the construction of the rows from the witness, and the commitment to the columns.
  The generators of random field elements and of nonces are functions on a generator state.
  Division by zero in \<open>div_ceil\<close> is the panic \<open>check_layout\<close>, raised where a loop first
  asks the layout for a number of rows; the products of sizes are assumed not to exceed \<open>usize\<close>.
\<close>

subsection \<open>Parameters and layout\<close>

record ligero_parameters =
  nreq :: nat
  witnesses_per_row :: nat
  quadratic_constraints_per_row :: nat
  block_size :: nat
  num_columns :: nat

record tableau_layout =
  tl_parameters :: ligero_parameters
  tl_num_witnesses :: nat
  tl_num_quadratic_constraints :: nat

definition tableau_layout_new :: "ligero_parameters \<Rightarrow> nat \<Rightarrow> nat \<Rightarrow> tableau_layout" where
  "tableau_layout_new parameters num_witnesses num_quadratic_constraints =
     \<lparr>tl_parameters = parameters, tl_num_witnesses = num_witnesses,
      tl_num_quadratic_constraints = num_quadratic_constraints\<rparr>"

definition low_degree_test_row :: nat where "low_degree_test_row = 0"
definition dot_proof_row :: nat where "dot_proof_row = 1"
definition quadratic_test_row :: nat where "quadratic_test_row = 2"

definition tl_block_size :: "tableau_layout \<Rightarrow> nat" where
  "tl_block_size L = block_size (tl_parameters L)"

definition tl_num_columns :: "tableau_layout \<Rightarrow> nat" where
  "tl_num_columns L = num_columns (tl_parameters L)"

definition num_requested_columns :: "tableau_layout \<Rightarrow> nat" where
  "num_requested_columns L = nreq (tl_parameters L)"

definition dblock :: "tableau_layout \<Rightarrow> nat" where
  "dblock L = usize_sub (block_size (tl_parameters L) * 2) 1"

definition tl_witnesses_per_row :: "tableau_layout \<Rightarrow> nat" where
  "tl_witnesses_per_row L = witnesses_per_row (tl_parameters L)"

definition first_witness_row :: nat where "first_witness_row = 3"

definition num_quadratic_triples :: "tableau_layout \<Rightarrow> nat" where
  "num_quadratic_triples L =
     div_ceil (tl_num_quadratic_constraints L) (quadratic_constraints_per_row (tl_parameters L))"

definition num_quadratic_rows :: "tableau_layout \<Rightarrow> nat" where
  "num_quadratic_rows L = 3 * num_quadratic_triples L"

definition num_linear_constraint_rows :: "tableau_layout \<Rightarrow> nat" where
  "num_linear_constraint_rows L = div_ceil (tl_num_witnesses L) (tl_witnesses_per_row L)"

definition first_quadratic_constraint_row :: "tableau_layout \<Rightarrow> nat" where
  "first_quadratic_constraint_row L = first_witness_row + num_linear_constraint_rows L"

definition num_constraint_rows :: "tableau_layout \<Rightarrow> nat" where
  "num_constraint_rows L = num_linear_constraint_rows L + num_quadratic_rows L"

definition num_rows :: "tableau_layout \<Rightarrow> nat" where
  "num_rows L = first_witness_row + num_linear_constraint_rows L + num_quadratic_rows L"

definition check_layout :: "tableau_layout \<Rightarrow> unit res" where
  "check_layout L =
     ensure (tl_witnesses_per_row L \<noteq> 0 \<and> quadratic_constraints_per_row (tl_parameters L) \<noteq> 0)
       (Panic ''attempt to divide by zero'')"

text \<open>The columns are counted from \<open>dblock\<close> on, so that tableau elements and not witnesses are sent.\<close>

definition gather :: "tableau_layout \<Rightarrow> 'a list \<Rightarrow> nat list \<Rightarrow> 'a list res" where
  "gather L source indices = map_res (\<lambda>index. nth_res source (index + dblock L)) indices"

subsection \<open>Common operations of prover and verifier\<close>

definition nonce_decode :: "nonce dec" where
  "nonce_decode = decode_fixed_array u8_decode 32"

definition nonce_encode :: "nonce enc" where
  "nonce_encode = encode_fixed_array u8_encode"

definition write_hash_of_a :: "transcript \<Rightarrow> transcript res" where
  "write_hash_of_a t = write_byte_array ([0xde, 0xad, 0xbe, 0xef] @ replicate 28 0) t"

definition write_proof ::
  "'a field_ops \<Rightarrow> 'a list \<Rightarrow> 'a list \<Rightarrow> 'a list \<Rightarrow> 'a list \<Rightarrow> transcript \<Rightarrow> transcript res" where
  "write_proof F low_degree_test_proof dot_proof quadratic_proof_low quadratic_proof_high t =
     fold_res (write_field_element_array F)
       [low_degree_test_proof, dot_proof, quadratic_proof_low, quadratic_proof_high] t"

record 'a ligero_challenges =
  low_degree_test_blind :: "'a list"
  linear_constraint_alphas :: "'a list"
  quadratic_constraint_alphas :: "'a list"
  quadratic_proof_blind :: "'a list"

definition ligero_challenges_generate ::
  "crypto \<Rightarrow> 'a field_ops \<Rightarrow> transcript \<Rightarrow> tableau_layout \<Rightarrow> nat \<Rightarrow> nat
   \<Rightarrow> ('a ligero_challenges \<times> transcript) res" where
  "ligero_challenges_generate C F t L linear_constraints_len quadratic_constraints_len =
     and_then (check_layout L) (\<lambda>_.
     and_then (generate_challenge C F (num_constraint_rows L) t) (\<lambda>(blind, t).
     and_then (generate_challenge C F linear_constraints_len t) (\<lambda>(alphas, t).
     and_then (generate_challenge C F (3 * quadratic_constraints_len) t) (\<lambda>(qalphas, t).
     and_then (generate_challenge C F (num_quadratic_triples L) t) (\<lambda>(qblind, t).
       Inr (\<lparr>low_degree_test_blind = blind, linear_constraint_alphas = alphas,
             quadratic_constraint_alphas = qalphas, quadratic_proof_blind = qblind\<rparr>, t))))))"

subsection \<open>The rows\<close>

record 'a tableau =
  tb_layout :: tableau_layout
  tb_contents :: "'a list list"

text \<open>
  The linear test row, before extension: one step of the iterator, with the random elements not
  yet used, the row so far and the running sum.
\<close>

definition linear_row_step ::
  "tableau_layout \<Rightarrow> nat \<Rightarrow> 'a list \<times> 'a list \<times> 'a :: comm_ring_1 \<Rightarrow> ('a list \<times> 'a list \<times> 'a) res"
where
  "linear_row_step L index st =
     (let (row_random_elements, row, sum) = st in
      if index = num_requested_columns L then Inr (row_random_elements, row @ [0], sum)
      else
        case row_random_elements of
          [] \<Rightarrow> Inl (Panic ''the row ends before the reserved element'')
        | elem # rest \<Rightarrow>
            Inr (rest, row @ [elem],
              if num_requested_columns L + 1 \<le> index \<and> index < tl_block_size L
              then sum + elem else sum))"

definition linear_test_row ::
  "tableau_layout \<Rightarrow> ('g \<Rightarrow> 'a :: comm_ring_1 \<times> 'g) \<Rightarrow> 'g \<Rightarrow> ('a list \<times> 'g) res" where
  "linear_test_row L gen g =
     (let (row_random_elements, g) = pad_draws gen (usize_sub (dblock L) 1) g in
      and_then (fold_res (linear_row_step L) [0..<dblock L] (row_random_elements, [], 0))
        (\<lambda>(rest, row, sum).
      and_then (upd_res row (num_requested_columns L) (- sum)) (\<lambda>row.
      and_then (ensure (rest = []) (Panic ''assertion failed'')) (\<lambda>_.
      and_then (ensure (0 = fold (\<lambda>elem acc. acc + elem)
          (take (tl_witnesses_per_row L) (drop (num_requested_columns L) row)) 0)
        (Panic ''assertion failed'')) (\<lambda>_.
        Inr (row, g))))))"

text \<open>The quadratic test row draws its elements as it goes.\<close>

fun quadratic_row_loop ::
  "tableau_layout \<Rightarrow> ('g \<Rightarrow> 'a :: comm_ring_1 \<times> 'g) \<Rightarrow> nat list \<Rightarrow> 'g \<Rightarrow> 'a list \<times> 'g" where
  "quadratic_row_loop L gen [] g = ([], g)"
| "quadratic_row_loop L gen (index # is) g =
     (let (x, g) = (if index < num_requested_columns L \<or> tl_block_size L \<le> index then gen g else (0, g));
          (xs, g) = quadratic_row_loop L gen is g
      in (x # xs, g))"

definition witness_row ::
  "'a :: comm_ring_1 field_ops \<Rightarrow> tableau_layout \<Rightarrow> 'a witness \<Rightarrow> ('g \<Rightarrow> 'a \<times> 'g) \<Rightarrow> nat
   \<Rightarrow> 'a list list \<times> 'g \<Rightarrow> ('a list list \<times> 'g) res" where
  "witness_row F L w gen row st =
     (let (tableau, g) = st; (random, g) = pad_draws gen (num_requested_columns L) g in
      and_then (fo_extend F (tl_block_size L) (tl_num_columns L)
          (random @ witness_elements w (row * tl_witnesses_per_row L) (tl_witnesses_per_row L)))
        (\<lambda>r. Inr (tableau @ [r], g)))"

text \<open>\<open>n\<close> values of one of the three iterators over the constraints, 0 when it has ended.\<close>

fun next_witnesses :: "'a :: zero witness \<Rightarrow> nat \<Rightarrow> nat list \<Rightarrow> ('a list \<times> nat list) res" where
  "next_witnesses w 0 indices = Inr ([], indices)"
| "next_witnesses w (Suc n) [] =
     and_then (next_witnesses w n []) (\<lambda>(vs, rest). Inr (0 # vs, rest))"
| "next_witnesses w (Suc n) (index # indices) =
     and_then (witness_element w index) (\<lambda>v.
     and_then (next_witnesses w n indices) (\<lambda>(vs, rest). Inr (v # vs, rest)))"

definition quadratic_row ::
  "'a :: comm_ring_1 field_ops \<Rightarrow> tableau_layout \<Rightarrow> 'a witness \<Rightarrow> ('g \<Rightarrow> 'a \<times> 'g) \<Rightarrow> nat
   \<Rightarrow> 'a list list \<times> (nat list \<times> nat list \<times> nat list) \<times> 'g
   \<Rightarrow> ('a list list \<times> (nat list \<times> nat list \<times> nat list) \<times> 'g) res" where
  "quadratic_row F L w gen row st =
     (let (tableau, (xs, ys, zs), g) = st;
          (random, g) = pad_draws gen (num_requested_columns L) g;
          n = tl_witnesses_per_row L
      in and_then
           (if row < num_quadratic_triples L then
              and_then (next_witnesses w n xs) (\<lambda>(vs, xs). Inr (vs, (xs, ys, zs)))
            else if row < 2 * num_quadratic_triples L then
              and_then (next_witnesses w n ys) (\<lambda>(vs, ys). Inr (vs, (xs, ys, zs)))
            else
              and_then (next_witnesses w n zs) (\<lambda>(vs, zs). Inr (vs, (xs, ys, zs))))
           (\<lambda>(vs, its).
         and_then (fo_extend F (tl_block_size L) (tl_num_columns L) (random @ vs)) (\<lambda>r.
           Inr (tableau @ [r], its, g))))"

definition tableau_build ::
  "'a :: comm_ring_1 field_ops \<Rightarrow> ligero_parameters \<Rightarrow> 'a witness \<Rightarrow> quadratic_constraint list
   \<Rightarrow> ('g \<Rightarrow> 'a \<times> 'g) \<Rightarrow> 'g \<Rightarrow> ('a tableau \<times> 'g) res" where
  "tableau_build F parameters w qcs gen g =
     (let L = tableau_layout_new parameters (length (w_values w)) (length qcs) in
      and_then (check_layout L) (\<lambda>_.
      let (low, g) = pad_draws gen (tl_block_size L) g in
      and_then (fo_extend F (tl_block_size L) (tl_num_columns L) low) (\<lambda>r0.
      and_then (linear_test_row L gen g) (\<lambda>(linear, g).
      and_then (fo_extend F (dblock L) (tl_num_columns L) linear) (\<lambda>r1.
      let (quadratic, g) = quadratic_row_loop L gen [0..<dblock L] g in
      and_then (fo_extend F (dblock L) (tl_num_columns L) quadratic) (\<lambda>r2.
      and_then (fold_res (witness_row F L w gen) [0..<num_linear_constraint_rows L] ([r0, r1, r2], g))
        (\<lambda>(tableau, g).
      and_then (fold_res (quadratic_row F L w gen) [0..<num_quadratic_rows L]
          (tableau, (map qc_x qcs, map qc_y qcs, map qc_z qcs), g)) (\<lambda>(tableau, _, g).
      and_then (ensure (length tableau = num_rows L) (Panic ''assertion failed'')) (\<lambda>_.
        Inr (\<lparr>tb_layout = L, tb_contents = tableau\<rparr>, g))))))))))"

subsection \<open>The commitment\<close>

text \<open>The leaf of a column: the hash of a nonce and of the elements of all rows.\<close>

definition column_bytes :: "'a field_ops \<Rightarrow> nonce \<Rightarrow> 'a list list \<Rightarrow> nat \<Rightarrow> bytes res" where
  "column_bytes F nonce rows index =
     and_then (map_res (\<lambda>row. and_then (nth_res row index) (\<lambda>x. Inr (fo_encode F x))) rows)
       (\<lambda>bss. Inr (nonce @ concat bss))"

definition commit_column ::
  "crypto \<Rightarrow> 'a field_ops \<Rightarrow> 'a tableau \<Rightarrow> ('n \<Rightarrow> nonce \<times> 'n) \<Rightarrow> nat \<Rightarrow> merkle_tree \<times> 'n
   \<Rightarrow> (merkle_tree \<times> 'n) res" where
  "commit_column C F tb nonce_gen leaf_index st =
     (let (tree, n) = st; (nonce, n) = nonce_gen n in
      and_then (column_bytes F nonce (tb_contents tb) leaf_index) (\<lambda>bs.
      and_then (set_leaf (usize_sub leaf_index (dblock (tb_layout tb))) (cr_sha C bs) nonce tree)
        (\<lambda>tree. Inr (tree, n))))"

definition tableau_commit ::
  "crypto \<Rightarrow> 'a field_ops \<Rightarrow> 'a tableau \<Rightarrow> ('n \<Rightarrow> nonce \<times> 'n) \<Rightarrow> 'n \<Rightarrow> (merkle_tree \<times> 'n) res" where
  "tableau_commit C F tb nonce_gen n =
     (let L = tb_layout tb; tree_size = usize_sub (tl_num_columns L) (dblock L) in
      and_then (fold_res (commit_column C F tb nonce_gen) [dblock L..<tl_num_columns L]
          (merkle_new tree_size, n)) (\<lambda>(tree, n).
        Inr (merkle_build (cr_sha C) tree, n)))"

end
