(* ===== verification/Ligero_Verifier.thy ===== *)
theory Ligero_Verifier
  imports Ligero_Tableau
begin

text \<open>
  The Ligero prover, \<open>src/src/ligero/prover.rs\<close>: construction, commitment, the three parts of the proof
  with the opened columns, the inner product vector shared with the verifier, and the codec of the
  proof with its run-length coding. The contexts of \<open>extend_precompute\<close> are not kept: the field's
  \<open>fo_extend\<close> has the two sizes as arguments.
\<close>

subsection \<open>The prover\<close>

record ligero_prover =
  lpr_parameters :: ligero_parameters
  lpr_witness_layout :: witness_layout
  lpr_quadratic_constraints :: "quadratic_constraint list"

definition ligero_prover_new :: "'a circuit \<Rightarrow> ligero_parameters \<Rightarrow> ligero_prover res" where
  "ligero_prover_new circuit parameters =
     (let witness_layout = layout_from_circuit circuit in
      and_then (quadratic_constraints circuit witness_layout) (\<lambda>qcs.
        Inr \<lparr>lpr_parameters = parameters, lpr_witness_layout = witness_layout,
             lpr_quadratic_constraints = qcs\<rparr>))"

record 'a commitment_state =
  cs_tableau :: "'a tableau"
  cs_merkle_tree :: merkle_tree
  cs_root :: node

definition ligero_commit ::
  "crypto \<Rightarrow> 'a :: comm_ring_1 field_ops \<Rightarrow> ligero_prover \<Rightarrow> 'a witness \<Rightarrow> ('g \<Rightarrow> 'a \<times> 'g) \<Rightarrow> 'g
   \<Rightarrow> ('n \<Rightarrow> nonce \<times> 'n) \<Rightarrow> 'n \<Rightarrow> ('a commitment_state \<times> 'g \<times> 'n) res" where
  "ligero_commit C F P w gen g nonce_gen n =
     and_then (tableau_build F (lpr_parameters P) w (lpr_quadratic_constraints P) gen g) (\<lambda>(tb, g).
     and_then (tableau_commit C F tb nonce_gen n) (\<lambda>(tree, n).
     and_then (merkle_root tree) (\<lambda>root.
       Inr (\<lparr>cs_tableau = tb, cs_merkle_tree = tree, cs_root = root\<rparr>, g, n))))"

subsection \<open>The inner product vector\<close>

definition add_at :: "'a :: comm_ring_1 list \<Rightarrow> nat \<Rightarrow> 'a \<Rightarrow> 'a list res" where
  "add_at v i x = and_then (nth_res v i) (\<lambda>y. upd_res v i (y + x))"

definition linear_term ::
  "'a :: comm_ring_1 list \<Rightarrow> 'a lhs_term \<Rightarrow> 'a list \<Rightarrow> 'a list res" where
  "linear_term alphas t v =
     and_then (nth_res alphas (constraint_number t)) (\<lambda>alpha.
       add_at v (witness_index t) (alpha * constant_factor t))"

definition quadratic_term ::
  "nat \<times> nat \<times> nat \<Rightarrow> quadratic_constraint list \<Rightarrow> 'a :: comm_ring_1 list \<Rightarrow> nat \<Rightarrow> 'a list
   \<Rightarrow> 'a list res" where
  "quadratic_term starts qcs alphas index v =
     (let (xs_start, ys_start, zs_start) = starts in
      and_then (nth_res qcs index) (\<lambda>q.
      and_then (nth_res alphas (index * 3)) (\<lambda>alpha_x.
      and_then (nth_res alphas (index * 3 + 1)) (\<lambda>alpha_y.
      and_then (nth_res alphas (index * 3 + 2)) (\<lambda>alpha_z.
      and_then (add_at v (xs_start + index) alpha_x) (\<lambda>v.
      and_then (add_at v (qc_x q) (- alpha_x)) (\<lambda>v.
      and_then (add_at v (ys_start + index) alpha_y) (\<lambda>v.
      and_then (add_at v (qc_y q) (- alpha_y)) (\<lambda>v.
      and_then (add_at v (zs_start + index) alpha_z) (\<lambda>v.
        add_at v (qc_z q) (- alpha_z)))))))))))"

text \<open>The two loops visit these indices: the inner one is left at the first that is too large.\<close>

definition quadratic_indices :: "tableau_layout \<Rightarrow> nat \<Rightarrow> nat list" where
  "quadratic_indices L n =
     concat (map (\<lambda>i. takeWhile (\<lambda>index. index < n)
       (map (\<lambda>j. j + i * tl_witnesses_per_row L) [0..<tl_witnesses_per_row L]))
       [0..<num_quadratic_triples L])"

definition inner_product_vector ::
  "tableau_layout \<Rightarrow> 'a :: comm_ring_1 linear_constraints \<Rightarrow> 'a list \<Rightarrow> quadratic_constraint list
   \<Rightarrow> 'a list \<Rightarrow> 'a list res" where
  "inner_product_vector L lc linear_alphas qcs quadratic_alphas =
     (let v = replicate (tl_witnesses_per_row L * num_constraint_rows L) 0;
          xs_start = num_linear_constraint_rows L * tl_witnesses_per_row L;
          ys_start = xs_start + num_quadratic_triples L * tl_witnesses_per_row L;
          zs_start = ys_start + num_quadratic_triples L * tl_witnesses_per_row L
      in and_then (fold_res (linear_term linear_alphas) (lc_lhs_terms lc) v)
           (fold_res (quadratic_term (xs_start, ys_start, zs_start) qcs quadratic_alphas)
             (quadratic_indices L (length qcs))))"

subsection \<open>The proof\<close>

record 'a ligero_proof =
  lp_low_degree_test_proof :: "'a list"
  lp_dot_proof :: "'a list"
  lp_quadratic_proof :: "'a list \<times> 'a list"
  lp_merkle_tree_nonces :: "nonce list"
  lp_tableau_columns :: "'a list list"
  lp_inclusion_proof :: "node list"

text \<open>\<open>for (x, y) in xs.iter_mut().zip(row) { *x += blind * y }\<close>\<close>

definition add_scaled :: "'a list \<times> 'a :: comm_ring_1 \<Rightarrow> 'a list \<Rightarrow> 'a list" where
  "add_scaled rb xs = (let (row, blind) = rb in zip_update (\<lambda>x y. x + blind * y) xs row)"

definition add_product :: "'a :: comm_ring_1 list \<Rightarrow> 'a list \<Rightarrow> 'a list \<Rightarrow> 'a list" where
  "add_product as bs xs = zip_update (\<lambda>x (a, b). x + a * b) xs (zip as bs)"

definition add_quadratic ::
  "'a :: comm_ring_1 \<Rightarrow> 'a list \<Rightarrow> 'a list \<Rightarrow> 'a list \<Rightarrow> 'a list \<Rightarrow> 'a list" where
  "add_quadratic challenge x_row y_row z_row proof =
     zip_update (\<lambda>p (x, y, z). p + challenge * (z - x * y)) proof (zip x_row (zip y_row z_row))"

text \<open>One row of the dot proof: \<open>n\<close> is the length to extend the products to.\<close>

definition dot_step ::
  "'a :: comm_ring_1 field_ops \<Rightarrow> tableau_layout \<Rightarrow> 'a list \<times> 'a list \<Rightarrow> 'a list \<Rightarrow> 'a list res" where
  "dot_step F L wr dot_proof =
     (let (witnesses, tableau_row) = wr;
          extended = replicate (num_requested_columns L) 0 @ witnesses
      in and_then (ensure (length extended = tl_block_size L) (Panic ''assertion failed'')) (\<lambda>_.
         and_then (fo_extend F (tl_block_size L) (dblock L) extended) (\<lambda>inner_product.
           Inr (add_product inner_product (take (dblock L) tableau_row) dot_proof))))"

text \<open>One triple of quadratic rows, over the rows of the tableau or of the opened columns.\<close>

definition quadratic_step ::
  "tableau_layout \<Rightarrow> 'a :: comm_ring_1 list list \<Rightarrow> nat \<times> 'a \<Rightarrow> 'a list \<Rightarrow> 'a list res" where
  "quadratic_step L contents ic proof =
     (let (index, challenge) = ic;
          first_x_row = first_quadratic_constraint_row L;
          first_y_row = first_x_row + num_quadratic_triples L;
          first_z_row = first_y_row + num_quadratic_triples L
      in and_then (nth_res contents (first_x_row + index)) (\<lambda>x_row.
         and_then (nth_res contents (first_y_row + index)) (\<lambda>y_row.
         and_then (nth_res contents (first_z_row + index)) (\<lambda>z_row.
           Inr (add_quadratic challenge x_row y_row z_row proof)))))"

definition low_degree_part ::
  "tableau_layout \<Rightarrow> 'a :: comm_ring_1 list list \<Rightarrow> 'a list \<Rightarrow> 'a list res" where
  "low_degree_part L contents blinds =
     and_then (nth_res contents low_degree_test_row) (\<lambda>r.
     and_then (slice_res r 0 (tl_block_size L)) (\<lambda>proof.
       Inr (fold add_scaled (zip (drop first_witness_row contents) blinds) proof)))"

definition dot_part ::
  "'a :: comm_ring_1 field_ops \<Rightarrow> tableau_layout \<Rightarrow> 'a list list \<Rightarrow> 'a list \<Rightarrow> 'a list res" where
  "dot_part F L contents ipv =
     and_then (nth_res contents dot_proof_row) (\<lambda>r.
     and_then (slice_res r 0 (dblock L)) (\<lambda>proof.
     and_then (fold_res (dot_step F L)
         (zip (chunks (tl_witnesses_per_row L) ipv) (drop first_witness_row contents)) proof) (\<lambda>proof.
     and_then (ensure (length proof = dblock L) (Panic ''assertion failed'')) (\<lambda>_. Inr proof))))"

definition quadratic_part ::
  "tableau_layout \<Rightarrow> 'a :: comm_ring_1 list list \<Rightarrow> 'a list \<Rightarrow> ('a list \<times> 'a list) res" where
  "quadratic_part L contents blinds =
     and_then (nth_res contents quadratic_test_row) (\<lambda>r.
     and_then (slice_res r 0 (dblock L)) (\<lambda>proof.
     and_then (fold_res (quadratic_step L contents) (enumerate 0 blinds) proof) (\<lambda>proof.
     and_then (slice_res proof (num_requested_columns L) (tl_block_size L)) (\<lambda>middle.
     and_then (ensure (middle = replicate (usize_sub (tl_block_size L) (num_requested_columns L)) 0)
         (Panic ''assertion failed'')) (\<lambda>_.
     and_then (slice_res proof 0 (num_requested_columns L)) (\<lambda>low.
     and_then (slice_res proof (tl_block_size L) (length proof)) (\<lambda>high.
       Inr (low, high))))))))"

text \<open>The opened columns, row after row.\<close>

definition requested_elements ::
  "tableau_layout \<Rightarrow> 'a list list \<Rightarrow> nat list \<Rightarrow> 'a list res" where
  "requested_elements L contents requested_column_indices =
     and_then (map_res (\<lambda>row. and_then (nth_res contents row) (\<lambda>r.
         map_res (\<lambda>index. nth_res r (index + dblock L)) requested_column_indices)) [0..<num_rows L])
       (\<lambda>rows. Inr (concat rows))"

definition ligero_prove ::
  "crypto \<Rightarrow> 'a :: comm_ring_1 field_ops \<Rightarrow> ligero_prover \<Rightarrow> transcript \<Rightarrow> 'a commitment_state
   \<Rightarrow> 'a linear_constraints \<Rightarrow> ('a ligero_proof \<times> transcript) res" where
  "ligero_prove C F P t cs lc =
     (let L = tb_layout (cs_tableau cs); contents = tb_contents (cs_tableau cs);
          qcs = lpr_quadratic_constraints P
      in and_then (write_hash_of_a t) (\<lambda>t.
         and_then (ligero_challenges_generate C F t L (length (lc_rhs lc)) (length qcs)) (\<lambda>(ch, t).
         and_then (low_degree_part L contents (low_degree_test_blind ch)) (\<lambda>low_degree_test_proof.
         and_then (inner_product_vector L lc (linear_constraint_alphas ch) qcs
             (quadratic_constraint_alphas ch)) (\<lambda>ipv.
         and_then (dot_part F L contents ipv) (\<lambda>dot_proof.
         and_then (quadratic_part L contents (quadratic_proof_blind ch)) (\<lambda>(low, high).
         and_then (write_proof F low_degree_test_proof dot_proof low high t) (\<lambda>t.
         and_then (generate_naturals_without_replacement C (usize_sub (tl_num_columns L) (dblock L))
             (num_requested_columns L) t) (\<lambda>(indices, t).
         and_then (requested_elements L contents indices) (\<lambda>elements.
         and_then (ensure (num_requested_columns L \<noteq> 0) (Panic ''chunk size must be non-zero'')) (\<lambda>_.
         and_then (map_res (nth_res (mt_nonces (cs_merkle_tree cs))) indices) (\<lambda>nonces.
         and_then (merkle_prove (cs_merkle_tree cs) indices) (\<lambda>inclusion_proof.
           Inr (\<lparr>lp_low_degree_test_proof = low_degree_test_proof, lp_dot_proof = dot_proof,
                 lp_quadratic_proof = (low, high), lp_merkle_tree_nonces = nonces,
                 lp_tableau_columns = chunks (num_requested_columns L) elements,
                 lp_inclusion_proof = inclusion_proof\<rparr>, t))))))))))))))"

text \<open>Stitch the quadratic proof back together with its middle of zeros.\<close>

definition stitched_quadratic_proof :: "tableau_layout \<Rightarrow> 'a :: comm_ring_1 ligero_proof \<Rightarrow> 'a list res" where
  "stitched_quadratic_proof L pf =
     (let proof = resize (tl_block_size L) 0 (fst (lp_quadratic_proof pf)) @ snd (lp_quadratic_proof pf)
      in and_then (ensure (length proof = dblock L) (Panic ''assertion failed'')) (\<lambda>_. Inr proof))"

section \<open>Ligero Verifier\<close>

text \<open>
  The Ligero verifier, \<open>src/src/ligero/verifier.rs\<close>: it replays the transcript, recomputes the three test
  rows at the opened columns, compares them with the extensions of the three parts of the proof, and
  checks that the opened columns are leaves of the committed tree.
\<close>

record ligero_verifier =
  lv_quadratic_constraints :: "quadratic_constraint list"
  lv_tableau_layout :: tableau_layout

definition ligero_verifier_new :: "'a circuit \<Rightarrow> ligero_parameters \<Rightarrow> ligero_verifier res" where
  "ligero_verifier_new circuit parameters =
     (let witness_layout = layout_from_circuit circuit in
      and_then (quadratic_constraints circuit witness_layout) (\<lambda>qcs.
        Inr \<lparr>lv_quadratic_constraints = qcs,
             lv_tableau_layout = tableau_layout_new parameters (layout_length witness_layout) (length qcs)\<rparr>))"

definition check_low_degree ::
  "'a :: comm_ring_1 field_ops \<Rightarrow> tableau_layout \<Rightarrow> 'a ligero_proof \<Rightarrow> 'a list \<Rightarrow> nat list \<Rightarrow> unit res" where
  "check_low_degree F L pf blinds indices =
     and_then (nth_res (lp_tableau_columns pf) low_degree_test_row) (\<lambda>r.
     let want = fold add_scaled (zip (drop first_witness_row (lp_tableau_columns pf)) blinds) r in
     and_then (fo_extend F (tl_block_size L) (tl_num_columns L) (lp_low_degree_test_proof pf)) (\<lambda>e.
     and_then (gather L e indices) (\<lambda>row.
       ensure (want = row) (Fail ''low degree test proof mismatch''))))"

definition check_dot_product ::
  "tableau_layout \<Rightarrow> 'a :: comm_ring_1 ligero_proof \<Rightarrow> 'a linear_constraints \<Rightarrow> 'a list \<Rightarrow> unit res" where
  "check_dot_product L pf lc alphas =
     (let want = fold (\<lambda>(rhs_term, alpha) sum. sum + rhs_term * alpha) (zip (lc_rhs lc) alphas) 0;
          proof_dot_product = fold (\<lambda>x sum. sum + x)
            (take (tl_witnesses_per_row L) (drop (num_requested_columns L) (lp_dot_proof pf))) 0
      in ensure (want = proof_dot_product) (Fail ''dot product mismatch''))"

definition dot_check_step ::
  "'a :: comm_ring_1 field_ops \<Rightarrow> tableau_layout \<Rightarrow> nat list \<Rightarrow> 'a list \<times> 'a list \<Rightarrow> 'a list \<Rightarrow> 'a list res" where
  "dot_check_step F L indices pr want =
     (let (products, tableau_row) = pr in
      and_then (fo_extend F (tl_block_size L) (tl_num_columns L)
          (replicate (num_requested_columns L) 0 @ products)) (\<lambda>extended.
      and_then (gather L extended indices) (\<lambda>e. Inr (add_product e tableau_row want))))"

definition check_dot_row ::
  "'a :: comm_ring_1 field_ops \<Rightarrow> tableau_layout \<Rightarrow> 'a ligero_proof \<Rightarrow> 'a list \<Rightarrow> nat list \<Rightarrow> unit res" where
  "check_dot_row F L pf ipv indices =
     and_then (nth_res (lp_tableau_columns pf) dot_proof_row) (\<lambda>r.
     and_then (slice_res (lp_tableau_columns pf) first_witness_row (length (lp_tableau_columns pf))) (\<lambda>rows.
     and_then (fold_res (dot_check_step F L indices) (zip (chunks (tl_witnesses_per_row L) ipv) rows) r) (\<lambda>want.
     and_then (fo_extend F (dblock L) (tl_num_columns L) (lp_dot_proof pf)) (\<lambda>e.
     and_then (gather L e indices) (\<lambda>row.
       ensure (want = row) (Fail ''dot proof mismatch''))))))"

definition check_quadratic ::
  "'a :: comm_ring_1 field_ops \<Rightarrow> tableau_layout \<Rightarrow> 'a ligero_proof \<Rightarrow> 'a list \<Rightarrow> nat list \<Rightarrow> unit res" where
  "check_quadratic F L pf blinds indices =
     and_then (nth_res (lp_tableau_columns pf) quadratic_test_row) (\<lambda>r.
     and_then (fold_res (quadratic_step L (lp_tableau_columns pf)) (enumerate 0 blinds) r) (\<lambda>want.
     and_then (stitched_quadratic_proof L pf) (\<lambda>proof.
     and_then (fo_extend F (dblock L) (tl_num_columns L) proof) (\<lambda>e.
     and_then (gather L e indices) (\<lambda>row.
       ensure (want = row) (Fail ''quadratic proof mismatch''))))))"

definition included_nodes ::
  "crypto \<Rightarrow> 'a field_ops \<Rightarrow> 'a ligero_proof \<Rightarrow> nat \<Rightarrow> node list res" where
  "included_nodes C F pf n =
     map_res (\<lambda>index. and_then (nth_res (lp_merkle_tree_nonces pf) index) (\<lambda>nonce.
       and_then (column_bytes F nonce (lp_tableau_columns pf) index) (\<lambda>bs. Inr (cr_sha C bs)))) [0..<n]"

definition ligero_verify ::
  "crypto \<Rightarrow> 'a :: comm_ring_1 field_ops \<Rightarrow> ligero_verifier \<Rightarrow> node \<Rightarrow> 'a ligero_proof \<Rightarrow> transcript
   \<Rightarrow> 'a linear_constraints \<Rightarrow> transcript res" where
  "ligero_verify C F V commitment pf t lc =
     (let L = lv_tableau_layout V; qcs = lv_quadratic_constraints V;
          n = usize_sub (tl_num_columns L) (dblock L)
      in and_then (write_hash_of_a t) (\<lambda>t.
         and_then (ligero_challenges_generate C F t L (length (lc_rhs lc)) (length qcs)) (\<lambda>(ch, t).
         and_then (write_proof F (lp_low_degree_test_proof pf) (lp_dot_proof pf)
             (fst (lp_quadratic_proof pf)) (snd (lp_quadratic_proof pf)) t) (\<lambda>t.
         and_then (generate_naturals_without_replacement C n (num_requested_columns L) t) (\<lambda>(indices, t).
         and_then (check_low_degree F L pf (low_degree_test_blind ch) indices) (\<lambda>_.
         and_then (check_dot_product L pf lc (linear_constraint_alphas ch)) (\<lambda>_.
         and_then (inner_product_vector L lc (linear_constraint_alphas ch) qcs
             (quadratic_constraint_alphas ch)) (\<lambda>ipv.
         and_then (check_dot_row F L pf ipv indices) (\<lambda>_.
         and_then (check_quadratic F L pf (quadratic_proof_blind ch) indices) (\<lambda>_.
         and_then (included_nodes C F pf (length indices)) (\<lambda>nodes.
         and_then (merkle_verify (cr_sha C) commitment n nodes indices (lp_inclusion_proof pf)) (\<lambda>_.
           Inr t))))))))))))"

end
