(* ===== verification/Polynomials.thy ===== *)
theory Polynomials
  imports Prelude
begin

text \<open>
  Polynomial functions of bounded degree over a field, as far as Reed-Solomon codes need them:
  closure under linear combination and product, the bound on the number of roots, and
  interpolation with Lagrange's formula.
\<close>

definition poly_below :: "nat \<Rightarrow> ('a :: comm_ring_1 \<Rightarrow> 'a) \<Rightarrow> bool" where
  "poly_below n f \<longleftrightarrow> (\<exists>c. \<forall>x. f x = (\<Sum>j < n. c j * x ^ j))"

lemma poly_belowI: "(\<And>x. f x = (\<Sum>j < n. c j * x ^ j)) \<Longrightarrow> poly_below n f"
  by (auto simp: poly_below_def)

lemma poly_below_add_scaled:
  assumes "poly_below n f" "poly_below n g"
  shows "poly_below n (\<lambda>x. f x + c * g x)"
proof -
  obtain a b where "\<And>x. f x = (\<Sum>j < n. a j * x ^ j)" "\<And>x. g x = (\<Sum>j < n. b j * x ^ j)"
    using assms by (auto simp: poly_below_def)
  then show ?thesis
    by (intro poly_belowI [where c = "\<lambda>j. a j + c * b j"])
      (simp add: sum.distrib sum_distrib_left algebra_simps)
qed

lemma poly_below_zero: "poly_below n (\<lambda>x. 0)"
  by (rule poly_belowI [where c = "\<lambda>_. 0"]) simp

lemma poly_below_scaled: "poly_below n g \<Longrightarrow> poly_below n (\<lambda>x. c * g x)"
  using poly_below_add_scaled [OF poly_below_zero, of n g c] by simp

lemma poly_below_diff: "poly_below n f \<Longrightarrow> poly_below n g \<Longrightarrow> poly_below n (\<lambda>x. f x - g x)"
  using poly_below_add_scaled [of n f g "- 1"] by simp

lemma poly_below_sum:
  "(\<And>i. i \<in> A \<Longrightarrow> poly_below n (f i)) \<Longrightarrow> poly_below n (\<lambda>x. \<Sum>i\<in>A. f i x)"
proof (induction A rule: infinite_finite_induct)
  case (insert i A)
  then show ?case using poly_below_add_scaled [of n "\<lambda>x. \<Sum>i\<in>A. f i x" "f i" 1] by (simp add: add.commute)
qed (simp_all add: poly_below_zero)

lemma poly_below_mono:
  assumes "poly_below n f" "n \<le> m"
  shows "poly_below m f"
proof -
  obtain c where c: "\<And>x. f x = (\<Sum>j < n. c j * x ^ j)" using assms(1) by (auto simp: poly_below_def)
  have "f x = (\<Sum>j < m. (if j < n then c j else 0) * x ^ j)" for x
    unfolding c using assms(2) by (intro sum.mono_neutral_cong_left) auto
  then show ?thesis by (rule poly_belowI)
qed

lemma poly_below_power: "k < n \<Longrightarrow> poly_below n (\<lambda>x. x ^ k)"
  by (rule poly_belowI [where c = "\<lambda>j. if j = k then 1 else 0"]) (simp add: if_distrib [of "\<lambda>c. c * _"] cong: if_cong)

lemma poly_below_const: "0 < n \<Longrightarrow> poly_below n (\<lambda>x. c)"
  using poly_below_scaled [OF poly_below_power [of 0 n], of c] by simp

lemma poly_below_mult:
  assumes "poly_below (Suc n) f" "poly_below (Suc m) g"
  shows "poly_below (Suc (n + m)) (\<lambda>x. f x * g x)"
proof -
  obtain a b where ab: "\<And>x. f x = (\<Sum>j < Suc n. a j * x ^ j)" "\<And>x. g x = (\<Sum>j < Suc m. b j * x ^ j)"
    using assms by (auto simp: poly_below_def)
  have eq: "f x * g x = (\<Sum>i < Suc n. \<Sum>j < Suc m. (a i * b j) * x ^ (i + j))" for x
    unfolding ab sum_product by (intro sum.cong refl) (simp add: power_add mult_ac)
  have "poly_below (Suc (n + m)) (\<lambda>x. (a i * b j) * x ^ (i + j))" if "i < Suc n" "j < Suc m" for i j
    using that by (intro poly_below_scaled poly_below_power) simp
  then show ?thesis unfolding eq by (intro poly_below_sum) simp
qed

lemma poly_below_prod:
  "finite A \<Longrightarrow> poly_below (Suc (card A)) (\<lambda>x. \<Prod>a\<in>A. (x - p a) * c a)"
proof (induction A rule: finite_induct)
  case (insert a A)
  have "poly_below 2 (\<lambda>x. x ^ 1 - p a)"
    by (intro poly_below_diff poly_below_power poly_below_const) simp_all
  then have "poly_below (Suc 1) (\<lambda>x. c a * (x - p a))"
    using poly_below_scaled by (simp add: numeral_2_eq_2)
  from poly_below_mult [OF this insert.IH] insert.hyps show ?case by (simp add: mult_ac)
qed (simp add: poly_below_const)

subsection \<open>Roots\<close>

lemma poly_below_root:
  assumes "poly_below (Suc n) f" "f a = 0"
  shows "\<exists>g. poly_below n g \<and> (\<forall>x. f x = (x - a) * g x)"
proof -
  obtain c where c: "\<And>x. f x = (\<Sum>j < Suc n. c j * x ^ j)" using assms(1) by (auto simp: poly_below_def)
  let ?g = "\<lambda>x. \<Sum>j < Suc n. c j * (\<Sum>i < j. a ^ (j - Suc i) * x ^ i)"
  have "f x = (x - a) * ?g x" for x
  proof -
    have "f x = f x - f a" by (simp add: assms(2))
    also have "\<dots> = (\<Sum>j < Suc n. c j * (x ^ j - a ^ j))"
      unfolding c by (simp only: sum_subtractf right_diff_distrib)
    also have "\<dots> = (\<Sum>j < Suc n. (x - a) * (c j * (\<Sum>i < j. a ^ (j - Suc i) * x ^ i)))"
      by (intro sum.cong refl) (simp add: power_diff_sumr2 mult_ac)
    also have "\<dots> = (x - a) * ?g x" by (simp only: sum_distrib_left)
    finally show ?thesis .
  qed
  moreover have "poly_below n ?g"
    by (intro poly_below_sum poly_below_scaled poly_below_power) auto
  ultimately show ?thesis by blast
qed

lemma poly_below_roots:
  fixes f :: "'a :: idom \<Rightarrow> 'a"
  assumes "poly_below n f" "finite A" "n \<le> card A" "\<And>a. a \<in> A \<Longrightarrow> f a = 0"
  shows "f x = 0"
  using assms
proof (induction n arbitrary: f A x)
  case 0
  then show ?case by (auto simp: poly_below_def)
next
  case (Suc n)
  then obtain a where a: "a \<in> A" by (metis card.empty equals0I not_less_eq_eq zero_le)
  then obtain g where g: "poly_below n g" "\<And>x. f x = (x - a) * g x"
    using poly_below_root [OF Suc.prems(1)] Suc.prems(4) by blast
  have "g b = 0" if "b \<in> A - {a}" for b
    using that g(2) [of b] Suc.prems(4) [of b] by simp
  moreover have "n \<le> card (A - {a})" using Suc.prems(2,3) a by simp
  ultimately have "g x = 0" for x using Suc.IH [OF g(1), of "A - {a}" x] Suc.prems(2) by blast
  then show ?case by (simp add: g(2))
qed

lemma poly_below_eqI:
  fixes f :: "'a :: idom \<Rightarrow> 'a"
  assumes "poly_below n f" "poly_below n g" "inj_on p {..<n}" "\<And>i. i < n \<Longrightarrow> f (p i) = g (p i)"
  shows "f = g"
proof
  fix x
  have "f x - g x = 0"
    by (rule poly_below_roots [OF poly_below_diff [OF assms(1,2)], of "p ` {..<n}"])
      (use assms(3,4) in \<open>auto simp: card_image\<close>)
  then show "f x = g x" by simp
qed

subsection \<open>Interpolation\<close>

definition lagrange_term :: "(nat \<Rightarrow> 'a :: field) \<Rightarrow> nat \<Rightarrow> nat \<Rightarrow> 'a \<Rightarrow> 'a" where
  "lagrange_term p n i x = (\<Prod>j \<in> {..<n} - {i}. (x - p j) * inverse (p i - p j))"

lemma poly_below_lagrange_term: "i < n \<Longrightarrow> poly_below n (lagrange_term p n i)"
  using poly_below_prod [of "{..<n} - {i}" p "\<lambda>j. inverse (p i - p j)"]
  by (simp add: lagrange_term_def [abs_def])

lemma lagrange_term_at:
  assumes "inj_on p {..<n}" "i < n" "k < n"
  shows "lagrange_term p n i (p k) = (if k = i then 1 else 0)"
proof (cases "k = i")
  case True
  have "(p i - p j) * inverse (p i - p j) = 1" if "j \<in> {..<n} - {i}" for j
    using that assms(1,2) by (intro right_inverse) (auto dest: inj_onD)
  then show ?thesis using True by (simp add: lagrange_term_def)
next
  case False
  then show ?thesis using assms(3) by (auto simp: lagrange_term_def intro!: prod_zero bexI [of _ k])
qed

lemma interpolation:
  assumes "inj_on p {..<n}"
  shows "poly_below n (\<lambda>x. \<Sum>i < n. v i * lagrange_term p n i x)"
    and "k < n \<Longrightarrow> (\<Sum>i < n. v i * lagrange_term p n i (p k)) = v k"
proof -
  show "poly_below n (\<lambda>x. \<Sum>i < n. v i * lagrange_term p n i x)"
    by (intro poly_below_sum poly_below_scaled poly_below_lagrange_term) simp
  assume k: "k < n"
  have "(\<Sum>i < n. v i * lagrange_term p n i (p k)) = (\<Sum>i < n. if k = i then v i else 0)"
    using lagrange_term_at [OF assms _ k] by (intro sum.cong refl) auto
  then show "(\<Sum>i < n. v i * lagrange_term p n i (p k)) = v k" using k by simp
qed

end
