(* ===== verification/Rs_Code.thy ===== *)
theory Rs_Code
  imports Field_Element Vectors Polynomials
begin

text \<open>
  What Ligero relies on in the extension of its rows. \<open>cw n m ys\<close> says that the vector \<open>ys\<close> of length
  \<open>m\<close> is a codeword of dimension \<open>n\<close> (for a Reed-Solomon code: the values of a polynomial of
  degree below \<open>n\<close>), and \<open>ok m\<close> that the field supports codes of length \<open>m\<close>. The laws: extension
  yields the codeword with the given prefix, a codeword is determined by its prefix, codewords are
  closed under linear combination, weaker bounds, prefixes and, with the sum of the
  degrees, products.
\<close>

locale reed_solomon =
  fixes F :: "'a :: comm_ring_1 field_ops"
    and cw :: "nat \<Rightarrow> nat \<Rightarrow> 'a list \<Rightarrow> bool"
    and ok :: "nat \<Rightarrow> bool"
  assumes extend_cw: "0 < n \<Longrightarrow> n \<le> m \<Longrightarrow> ok m \<Longrightarrow> length xs = n \<Longrightarrow>
      \<exists>ys. fo_extend F n m xs = Inr ys \<and> cw n m ys \<and> take n ys = xs"
    and cw_length: "cw n m ys \<Longrightarrow> length ys = m"
    and cw_unique: "0 < n \<Longrightarrow> n \<le> m \<Longrightarrow> ok m \<Longrightarrow> cw n m xs \<Longrightarrow> cw n m ys \<Longrightarrow>
      take n xs = take n ys \<Longrightarrow> xs = ys"
    and cw_scaled: "cw n m xs \<Longrightarrow> cw n m ys \<Longrightarrow> cw n m (map2 (\<lambda>x y. x + c * y) xs ys)"
    and cw_mono: "cw n m xs \<Longrightarrow> n \<le> k \<Longrightarrow> cw k m xs"
    and cw_prefix: "cw n m xs \<Longrightarrow> k \<le> m \<Longrightarrow> cw n k (take k xs)"
    and cw_product: "cw (Suc n) m xs \<Longrightarrow> cw (Suc k) m ys \<Longrightarrow> cw (Suc (n + k)) m (map2 (*) xs ys)"
begin

lemma extend_codeword:
  assumes "0 < n" "n \<le> m" "ok m" "cw n m ys"
  shows "fo_extend F n m (take n ys) = Inr ys"
proof -
  have "length (take n ys) = n" using assms(2) cw_length [OF assms(4)] by simp
  from extend_cw [OF assms(1-3) this] obtain zs where
    zs: "fo_extend F n m (take n ys) = Inr zs" "cw n m zs" "take n zs = take n ys" by blast
  with cw_unique [OF assms(1-3) zs(2) assms(4) zs(3)] show ?thesis by simp
qed

lemma extend_shorter:
  assumes "0 < n" "n \<le> k" "k \<le> m" "ok m" "ok k" "fo_extend F n m xs = Inr ys" "length xs = n"
  shows "fo_extend F n k xs = Inr (take k ys)"
proof -
  obtain zs where zs: "fo_extend F n m xs = Inr zs" "cw n m zs" "take n zs = xs"
    using extend_cw [of n m xs] assms by auto
  then have "ys = zs" using assms(6) by simp
  then have "cw n k (take k ys)" "take n (take k ys) = xs"
    using zs cw_prefix [of n m zs k] assms(2,3) by simp_all
  with extend_codeword [of n k "take k ys"] assms show ?thesis by simp
qed

lemma cw_add_scaled: "cw n m xs \<Longrightarrow> cw n m ys \<Longrightarrow> cw n m (zip_update (\<lambda>x y. x + c * y) xs ys)"
  using cw_scaled [of n m xs ys c] by (simp add: zip_update_same cw_length)

lemma cw_add_product:
  assumes "cw (2 * b - 1) m xs" "cw b m as" "cw b m bs" "0 < b"
  shows "cw (2 * b - 1) m (zip_update (\<lambda>x (a, b). x + a * b) xs (zip as bs))"
proof -
  obtain k where b: "b = Suc k" using assms(4) by (cases b) auto
  have "cw (2 * b - 1) m (map2 (*) as bs)"
    using cw_product [of k m as k bs] assms(2,3) by (simp add: b mult_2)
  from cw_add_scaled [OF assms(1) this, of 1]
  have "cw (2 * b - 1) m (zip_update (\<lambda>x y. x + 1 * y) xs (map2 (*) as bs))" .
  moreover have "zip_update (\<lambda>x y. x + 1 * y) xs (map2 (*) as bs) =
      zip_update (\<lambda>x (a, b). x + a * b) xs (zip as bs)"
    by (rule nth_equalityI) (use cw_length [OF assms(1)] cw_length [OF assms(2)] cw_length [OF assms(3)]
      in \<open>simp_all add: nth_zip_update\<close>)
  ultimately show ?thesis by simp
qed

lemma cw_add_quadratic:
  assumes "cw (2 * b - 1) m ps" "cw b m xs" "cw b m ys" "cw b m zs" "0 < b"
  shows "cw (2 * b - 1) m (zip_update (\<lambda>p (x, y, z). p + c * (z - x * y)) ps (zip xs (zip ys zs)))"
proof -
  obtain k where b: "b = Suc k" using assms(5) by (cases b) auto
  have xy: "cw (2 * b - 1) m (map2 (*) xs ys)"
    using cw_product [of k m xs k ys] assms(2,3) by (simp add: b mult_2)
  have z: "cw (2 * b - 1) m zs" by (rule cw_mono [OF assms(4)]) (use assms(5) in simp)
  let ?q = "zip_update (\<lambda>x y. x + (- c) * y) (zip_update (\<lambda>x y. x + c * y) ps zs) (map2 (*) xs ys)"
  have "cw (2 * b - 1) m ?q" by (intro cw_add_scaled assms xy z)
  moreover have "?q = zip_update (\<lambda>p (x, y, z). p + c * (z - x * y)) ps (zip xs (zip ys zs))"
    by (rule nth_equalityI) (use cw_length [OF assms(1)] cw_length [OF assms(2)] cw_length [OF assms(3)]
      cw_length [OF assms(4)] in \<open>simp_all add: nth_zip_update algebra_simps\<close>)
  ultimately show ?thesis by simp
qed

end

section \<open>Rs Points\<close>

text \<open>
  Reed-Solomon codes over a sequence of points \<open>p 0, p 1, ...\<close>: codewords are the values of a polynomial of bounded
  degree. A field whose extension interpolates at distinct points satisfies \<open>reed_solomon\<close>.
\<close>

definition codeword_at :: "(nat \<Rightarrow> 'a :: comm_ring_1) \<Rightarrow> nat \<Rightarrow> nat \<Rightarrow> 'a list \<Rightarrow> bool" where
  "codeword_at p n m ys \<longleftrightarrow> (\<exists>f. poly_below n f \<and> ys = map (\<lambda>i. f (p i)) [0..<m])"

lemma codeword_atE:
  assumes "codeword_at p n m ys"
  obtains f where "poly_below n f" "ys = map (\<lambda>i. f (p i)) [0..<m]"
  using assms by (auto simp: codeword_at_def)

lemma codeword_atI: "poly_below n f \<Longrightarrow> ys = map (\<lambda>i. f (p i)) [0..<m] \<Longrightarrow> codeword_at p n m ys"
  by (auto simp: codeword_at_def)

lemma codeword_at_unique:
  fixes p :: "nat \<Rightarrow> 'a :: field"
  assumes "codeword_at p n m xs" "codeword_at p n m ys" "inj_on p {..<n}" "n \<le> m" "take n xs = take n ys"
  shows "xs = ys"
proof -
  from assms(1,2) obtain f g where f: "poly_below n f" "xs = map (\<lambda>i. f (p i)) [0..<m]"
    and g: "poly_below n g" "ys = map (\<lambda>i. g (p i)) [0..<m]" by (metis codeword_atE)
  have "f = g"
  proof (rule poly_below_eqI [OF f(1) g(1) assms(3)])
    fix i assume "i < n"
    then have "take n xs ! i = f (p i)" "take n ys ! i = g (p i)" using assms(4) f(2) g(2) by simp_all
    then show "f (p i) = g (p i)" using assms(5) by simp
  qed
  then show ?thesis using f(2) g(2) by simp
qed

lemma reed_solomon_at:
  fixes F :: "'a :: field field_ops" and p :: "nat \<Rightarrow> 'a"
  assumes inj: "\<And>n m. n \<le> m \<Longrightarrow> ok m \<Longrightarrow> inj_on p {..<n}"
    and ext: "\<And>n m xs. 0 < n \<Longrightarrow> n \<le> m \<Longrightarrow> ok m \<Longrightarrow> length xs = n \<Longrightarrow>
      \<exists>f. poly_below n f \<and> fo_extend F n m xs = Inr (map (\<lambda>i. f (p i)) [0..<m]) \<and> (\<forall>i < n. f (p i) = xs ! i)"
  shows "reed_solomon F (codeword_at p) ok"
proof
  fix n m and xs :: "'a list"
  assume nm: "0 < n" "n \<le> m" "ok m" "length xs = n"
  from ext [OF this] obtain f where f: "poly_below n f" "fo_extend F n m xs = Inr (map (\<lambda>i. f (p i)) [0..<m])"
    "\<forall>i < n. f (p i) = xs ! i" by blast
  have "take n (map (\<lambda>i. f (p i)) [0..<m]) = xs"
    by (rule nth_equalityI) (use nm f(3) in simp_all)
  then show "\<exists>ys. fo_extend F n m xs = Inr ys \<and> codeword_at p n m ys \<and> take n ys = xs"
    using f by (auto simp: codeword_at_def)
next
  show "codeword_at p n m ys \<Longrightarrow> length ys = m" for n m ys by (auto simp: codeword_at_def)
next
  show "codeword_at p n m xs \<Longrightarrow> codeword_at p n m ys \<Longrightarrow> take n xs = take n ys \<Longrightarrow> xs = ys"
    if "0 < n" "n \<le> m" "ok m" for n m xs ys using codeword_at_unique inj [OF that(2,3)] that(2) by blast
next
  fix n m c and xs ys :: "'a list"
  assume "codeword_at p n m xs" "codeword_at p n m ys"
  then obtain f g where f: "poly_below n f" "xs = map (\<lambda>i. f (p i)) [0..<m]"
    and g: "poly_below n g" "ys = map (\<lambda>i. g (p i)) [0..<m]" by (metis codeword_atE)
  have "map2 (\<lambda>x y. x + c * y) xs ys = map (\<lambda>i. f (p i) + c * g (p i)) [0..<m]"
    unfolding f(2) g(2) by (rule nth_equalityI) simp_all
  then show "codeword_at p n m (map2 (\<lambda>x y. x + c * y) xs ys)"
    by (rule codeword_atI [OF poly_below_add_scaled [OF f(1) g(1), of c]])
next
  show "codeword_at p n m xs \<Longrightarrow> n \<le> k \<Longrightarrow> codeword_at p k m xs" for n m k xs
    unfolding codeword_at_def using poly_below_mono by blast
next
  show "codeword_at p n m xs \<Longrightarrow> k \<le> m \<Longrightarrow> codeword_at p n k (take k xs)" for n m k xs
    by (auto simp: codeword_at_def take_map)
next
  fix n m k and xs ys :: "'a list"
  assume "codeword_at p (Suc n) m xs" "codeword_at p (Suc k) m ys"
  then obtain f g where f: "poly_below (Suc n) f" "xs = map (\<lambda>i. f (p i)) [0..<m]"
    and g: "poly_below (Suc k) g" "ys = map (\<lambda>i. g (p i)) [0..<m]" by (metis codeword_atE)
  have "map2 (*) xs ys = map (\<lambda>i. f (p i) * g (p i)) [0..<m]"
    unfolding f(2) g(2) by (rule nth_equalityI) simp_all
  then show "codeword_at p (Suc (n + k)) m (map2 (*) xs ys)"
    by (rule codeword_atI [OF poly_below_mult [OF f(1) g(1)]])
qed

end
