(* ===== verification/Ligero_Rows.thy ===== *)
theory Ligero_Rows
  imports Ligero_Verifier Rs_Code
begin

text \<open>
  The tableau an honest prover builds: every row is a codeword, the linear test row sums to 0
  over the witness columns, the quadratic test row is 0 there, and the rows below hold the
  witness and the three vectors of the quadratic constraints, block by block.
\<close>

subsection \<open>Parameters\<close>

definition parameters_ok :: "(nat \<Rightarrow> bool) \<Rightarrow> ligero_parameters \<Rightarrow> bool" where
  "parameters_ok ok p \<longleftrightarrow>
     0 < nreq p \<and> 0 < witnesses_per_row p \<and> 0 < quadratic_constraints_per_row p \<and>
     nreq p + witnesses_per_row p = block_size p \<and>
     block_size p * 2 - 1 + nreq p < num_columns p \<and> num_columns p < 2 ^ 64 \<and>
     ok (num_columns p) \<and> ok (block_size p * 2 - 1)"

lemma parameters_okD:
  assumes "parameters_ok ok (tl_parameters L)"
  shows "0 < num_requested_columns L" "0 < tl_witnesses_per_row L"
    "num_requested_columns L + tl_witnesses_per_row L = tl_block_size L"
    "dblock L = 2 * tl_block_size L - 1" "tl_block_size L \<le> dblock L"
    "dblock L + num_requested_columns L < tl_num_columns L" "tl_num_columns L < 2 ^ 64"
    "ok (tl_num_columns L)" "ok (dblock L)" "check_layout L = Inr ()"
proof -
  have p: "0 < nreq (tl_parameters L)" "0 < witnesses_per_row (tl_parameters L)"
    "0 < quadratic_constraints_per_row (tl_parameters L)"
    "nreq (tl_parameters L) + witnesses_per_row (tl_parameters L) = block_size (tl_parameters L)"
    "block_size (tl_parameters L) * 2 - 1 + nreq (tl_parameters L) < num_columns (tl_parameters L)"
    "num_columns (tl_parameters L) < 2 ^ 64" "ok (num_columns (tl_parameters L))"
    "ok (block_size (tl_parameters L) * 2 - 1)"
    using assms unfolding parameters_ok_def by blast+
  have d: "dblock L = block_size (tl_parameters L) * 2 - 1"
    unfolding dblock_def by (rule usize_sub_eq) (use p in linarith)+
  show "0 < num_requested_columns L" "0 < tl_witnesses_per_row L"
    "num_requested_columns L + tl_witnesses_per_row L = tl_block_size L"
    "tl_num_columns L < 2 ^ 64" "ok (tl_num_columns L)" "ok (dblock L)" "check_layout L = Inr ()"
    using p d by (simp_all add: num_requested_columns_def tl_witnesses_per_row_def tl_block_size_def
        tl_num_columns_def check_layout_def)
  show "dblock L = 2 * tl_block_size L - 1" "tl_block_size L \<le> dblock L"
    "dblock L + num_requested_columns L < tl_num_columns L"
    using p d unfolding tl_block_size_def num_requested_columns_def tl_num_columns_def by linarith+
qed

subsection \<open>The test rows\<close>

lemma linear_row_loop:
  fixes ds :: "'a :: comm_ring_1 list"
  assumes "num_requested_columns L \<le> length ds" "n \<le> Suc (length ds)"
  defines "R \<equiv> take (num_requested_columns L) ds @ 0 # drop (num_requested_columns L) ds"
  shows "fold_res (linear_row_step L) [0..<n] (ds, [], 0) =
    Inr (drop (if n \<le> num_requested_columns L then n else n - 1) ds, take n R,
         sum_list (drop (num_requested_columns L + 1) (take (min n (tl_block_size L)) R)))"
  using assms(2)
proof (induction n)
  case (Suc n)
  let ?q = "num_requested_columns L" and ?b = "tl_block_size L"
  have lR: "length R = Suc (length ds)" using assms(1) by (simp add: R_def)
  have R: "R ! n = (if n < ?q then ds ! n else if n = ?q then 0 else ds ! (n - 1))"
    using assms(1) by (auto simp: R_def nth_append nth_Cons')
  have t: "take (Suc n) R = take n R @ [R ! n]"
    using Suc.prems lR by (simp add: take_Suc_conv_app_nth)
  show ?case
  proof (cases "n = ?q")
    case True
    then have "drop (Suc ?q) (take (min (Suc n) ?b) R) = []" "drop (Suc ?q) (take (min n ?b) R) = []"
      by simp_all
    then show ?thesis
      using Suc True R t by (simp add: fold_res_append linear_row_step_def)
  next
    case False
    let ?k = "if n \<le> ?q then n else n - 1"
    have k: "?k < length ds" using Suc.prems False assms(1) by auto
    then have d: "drop ?k ds = ds ! ?k # drop (Suc ?k) ds" by (simp add: Cons_nth_drop_Suc)
    have x: "R ! n = ds ! ?k" using R False by auto
    have "sum_list (drop (?q + 1) (take (min (Suc n) ?b) R)) =
        (if ?q + 1 \<le> n \<and> n < ?b then sum_list (drop (?q + 1) (take (min n ?b) R)) + R ! n
         else sum_list (drop (?q + 1) (take (min n ?b) R)))"
    proof (cases "n < ?b")
      case True
      then have m: "min (Suc n) ?b = Suc n" "min n ?b = n" by simp_all
      show ?thesis
        unfolding m t using True Suc.prems lR by (auto simp: not_le)
    qed (simp add: min_def)
    moreover have "(if Suc n \<le> ?q then Suc n else Suc n - 1) = Suc ?k" using False by auto
    ultimately show ?thesis
      using Suc False x t d by (simp add: fold_res_append linear_row_step_def del: drop_take)
  qed
qed simp

lemma linear_test_row_ok:
  assumes "parameters_ok ok (tl_parameters L)"
  shows "\<exists>row g'. linear_test_row L gen g = Inr (row, g') \<and> length row = dblock L \<and>
    sum_list (take (tl_witnesses_per_row L) (drop (num_requested_columns L) row)) = 0"
proof -
  note p = parameters_okD [OF assms]
  let ?q = "num_requested_columns L" and ?b = "tl_block_size L" and ?w = "tl_witnesses_per_row L"
  obtain ds g' where d: "pad_draws gen (usize_sub (dblock L) 1) g = (ds, g')" by fastforce
  have "usize_sub (dblock L) 1 = dblock L - 1" using p by (intro usize_sub_eq) linarith+
  then have len: "length ds = dblock L - 1" using length_pad_draws [of gen "dblock L - 1" g] d by simp
  define R where "R = take ?q ds @ 0 # drop ?q ds"
  have q: "?q \<le> length ds" "?q < dblock L" using p len by linarith+
  have lR: "length R = dblock L" using q len by (simp add: R_def)
  let ?s = "sum_list (drop (?q + 1) (take ?b R))"
  have "min (dblock L) ?b = ?b" using p(5) by simp
  then have f: "fold_res (linear_row_step L) [0..<dblock L] (ds, [], 0) = Inr ([], R, ?s)"
    using linear_row_loop [of L ds "dblock L"] q len lR by (simp add: R_def not_le)
  let ?row = "R[?q := - ?s]"
  have "take ?w (drop ?q ?row) = - ?s # drop (?q + 1) (take ?b R)"
  proof -
    have "drop ?q ?row = - ?s # drop (Suc ?q) R"
      using q lR by (simp add: drop_update_swap Cons_nth_drop_Suc [symmetric])
    moreover have "take ?w (- ?s # drop (Suc ?q) R) = - ?s # take (?w - 1) (drop (Suc ?q) R)"
      using p(2) by (cases ?w) simp_all
    moreover have "take (?w - 1) (drop (Suc ?q) R) = drop (?q + 1) (take ?b R)"
    proof -
      have "?b - (?q + 1) = ?w - 1" using p(3) by linarith
      then show ?thesis by (simp add: drop_take)
    qed
    ultimately show ?thesis by simp
  qed
  then have z: "sum_list (take ?w (drop ?q ?row)) = 0" by simp
  have "linear_test_row L gen g = Inr (?row, g')"
    using f d q lR z by (simp add: linear_test_row_def fold_plus_sum_list)
  with z lR show ?thesis by auto
qed

lemma quadratic_row_loop_ok:
  assumes "quadratic_row_loop L gen is g = (xs, g')"
  shows "length xs = length is \<and>
    (\<forall>k < length is. num_requested_columns L \<le> is ! k \<and> is ! k < tl_block_size L \<longrightarrow> xs ! k = 0)"
  using assms
proof (induction "is" arbitrary: g xs)
  case (Cons i "is")
  obtain x h where x: "(if i < num_requested_columns L \<or> tl_block_size L \<le> i then gen g else (0, g)) = (x, h)"
    by fastforce
  obtain ys h' where ys: "quadratic_row_loop L gen is h = (ys, h')" by fastforce
  have xs: "xs = x # ys" "h' = g'" using Cons.prems x ys by (auto simp: Let_def split: if_splits)
  have "num_requested_columns L \<le> i \<and> i < tl_block_size L \<Longrightarrow> x = 0" using x by (auto split: if_splits)
  then show ?case
    using Cons.IH ys xs by (auto simp: nth_Cons split: nat.splits)
qed simp

subsection \<open>The rows of the witness and of the constraints\<close>

lemma witness_elements_chunk: "witness_elements w (r * n) n = padded_chunk n r (w_values w)"
  by (simp add: witness_elements_def padded_chunk_def resize_def Let_def min_def)

lemma next_witnesses_eq:
  assumes "\<forall>i \<in> set is. i < length (w_values w)"
  shows "next_witnesses w n is = Inr (resize n 0 (map (nth (w_values w)) is), drop n is)"
  using assms
proof (induction w n "is" rule: next_witnesses.induct)
  case (2 w n)
  then show ?case by (simp add: resize_def)
next
  case (3 w n i "is")
  then show ?case by (simp add: witness_element_def resize_def)
qed (simp add: resize_def)

text \<open>The blocks of the rows below the test rows.\<close>

definition value_rows ::
  "tableau_layout \<Rightarrow> 'a :: zero list \<Rightarrow> quadratic_constraint list \<Rightarrow> 'a list list" where
  "value_rows L ws qcs =
     (let chunk = padded_chunk (tl_witnesses_per_row L); T = num_quadratic_triples L in
      map (\<lambda>r. chunk r ws) [0..<num_linear_constraint_rows L]
      @ map (\<lambda>r. chunk r (map (\<lambda>q. ws ! qc_x q) qcs)) [0..<T]
      @ map (\<lambda>r. chunk r (map (\<lambda>q. ws ! qc_y q) qcs)) [0..<T]
      @ map (\<lambda>r. chunk r (map (\<lambda>q. ws ! qc_z q) qcs)) [0..<T])"

lemma length_value_rows [simp]: "length (value_rows L ws qcs) = num_constraint_rows L"
  by (simp add: value_rows_def Let_def num_constraint_rows_def num_quadratic_rows_def)

lemma value_rows_width: "v \<in> set (value_rows L ws qcs) \<Longrightarrow> length v = tl_witnesses_per_row L"
  by (auto simp: value_rows_def Let_def)

definition constraint_indices_ok :: "'a list \<Rightarrow> quadratic_constraint list \<Rightarrow> bool" where
  "constraint_indices_ok ws qcs \<longleftrightarrow>
     (\<forall>q \<in> set qcs. qc_x q < length ws \<and> qc_y q < length ws \<and> qc_z q < length ws)"

context reed_solomon
begin

text \<open>A row of the lower part: a codeword with a given block after the random elements.\<close>

definition holds_block :: "tableau_layout \<Rightarrow> 'a list \<Rightarrow> 'a list \<Rightarrow> bool" where
  "holds_block L row vs \<longleftrightarrow>
     cw (tl_block_size L) (tl_num_columns L) row \<and>
     take (tl_witnesses_per_row L) (drop (num_requested_columns L) row) = vs"

lemma extend_block:
  assumes "parameters_ok ok (tl_parameters L)" "length vs = tl_witnesses_per_row L"
    and "length random = num_requested_columns L"
  shows "\<exists>row. fo_extend F (tl_block_size L) (tl_num_columns L) (random @ vs) = Inr row \<and> holds_block L row vs"
proof -
  note p = parameters_okD [OF assms(1)]
  have "0 < tl_block_size L" "tl_block_size L \<le> tl_num_columns L" using p by linarith+
  from extend_cw [OF this p(8), of "random @ vs"] assms(2,3) p(3)
  obtain row where row: "fo_extend F (tl_block_size L) (tl_num_columns L) (random @ vs) = Inr row"
    "cw (tl_block_size L) (tl_num_columns L) row" "take (tl_block_size L) row = random @ vs" by auto
  have "take (tl_witnesses_per_row L) (drop (num_requested_columns L) row) =
      drop (num_requested_columns L) (take (tl_block_size L) row)"
    using p(3) by (simp add: drop_take flip: p(3))
  with row assms(3) show ?thesis by (auto simp: holds_block_def)
qed

lemma witness_rows_ok:
  assumes "parameters_ok ok (tl_parameters L)"
  shows "\<exists>rows g'. fold_res (witness_row F L w gen) [0..<n] (tb, g) = Inr (tb @ rows, g') \<and>
    list_all2 (holds_block L) rows (map (\<lambda>r. padded_chunk (tl_witnesses_per_row L) r (w_values w)) [0..<n])"
proof (induction n)
  case (Suc n)
  then obtain rows h where rows: "fold_res (witness_row F L w gen) [0..<n] (tb, g) = Inr (tb @ rows, h)"
    "list_all2 (holds_block L) rows (map (\<lambda>r. padded_chunk (tl_witnesses_per_row L) r (w_values w)) [0..<n])"
    by blast
  obtain rs h' where rs: "pad_draws gen (num_requested_columns L) h = (rs, h')" by fastforce
  have "length rs = num_requested_columns L" using length_pad_draws [of gen "num_requested_columns L" h] rs by simp
  from extend_block [OF assms _ this] obtain row where
    "fo_extend F (tl_block_size L) (tl_num_columns L)
       (rs @ padded_chunk (tl_witnesses_per_row L) n (w_values w)) = Inr row"
    "holds_block L row (padded_chunk (tl_witnesses_per_row L) n (w_values w))"
    by (metis length_padded_chunk)
  then show ?case
    using rows rs by (simp add: fold_res_append witness_row_def [of F L w gen n] witness_elements_chunk list_all2_appendI)
qed simp

definition quadratic_block ::
  "tableau_layout \<Rightarrow> 'a list \<Rightarrow> quadratic_constraint list \<Rightarrow> nat \<Rightarrow> 'a list" where
  "quadratic_block L ws qcs r =
     (let chunk = padded_chunk (tl_witnesses_per_row L); T = num_quadratic_triples L in
      if r < T then chunk r (map (\<lambda>q. ws ! qc_x q) qcs)
      else if r < 2 * T then chunk (r - T) (map (\<lambda>q. ws ! qc_y q) qcs)
      else chunk (r - 2 * T) (map (\<lambda>q. ws ! qc_z q) qcs))"

lemma next_chunk:
  assumes "\<forall>i \<in> set is. i < length (w_values w)"
  shows "next_witnesses w n (drop (k * n) is) =
    Inr (padded_chunk n k (map (nth (w_values w)) is), drop (Suc k * n) is)"
  using assms next_witnesses_eq [of "drop (k * n) is" w n]
  by (auto simp: padded_chunk_def drop_map dest!: in_set_dropD)

lemma quadratic_rows_ok:
  assumes "parameters_ok ok (tl_parameters L)" "constraint_indices_ok (w_values w) qcs"
    and "n \<le> 3 * num_quadratic_triples L"
  defines "T \<equiv> num_quadratic_triples L" and "k \<equiv> tl_witnesses_per_row L"
  shows "\<exists>rows g'. fold_res (quadratic_row F L w gen) [0..<n]
      (tb, (map qc_x qcs, map qc_y qcs, map qc_z qcs), g) =
      Inr (tb @ rows, (drop (min n T * k) (map qc_x qcs), drop (min (n - T) T * k) (map qc_y qcs),
        drop ((n - 2 * T) * k) (map qc_z qcs)), g') \<and>
    list_all2 (holds_block L) rows (map (quadratic_block L (w_values w) qcs) [0..<n])"
  using assms(3)
proof (induction n)
  case (Suc n)
  let ?b = "quadratic_block L (w_values w) qcs n"
  let ?st = "\<lambda>n. (drop (min n T * k) (map qc_x qcs), drop (min (n - T) T * k) (map qc_y qcs),
    drop ((n - 2 * T) * k) (map qc_z qcs))"
  obtain rows h where rows: "fold_res (quadratic_row F L w gen) [0..<n]
      (tb, (map qc_x qcs, map qc_y qcs, map qc_z qcs), g) = Inr (tb @ rows, ?st n, h)"
    "list_all2 (holds_block L) rows (map (quadratic_block L (w_values w) qcs) [0..<n])"
    using Suc by auto
  obtain rs h' where rs: "pad_draws gen (num_requested_columns L) h = (rs, h')" by fastforce
  have len: "length rs = num_requested_columns L" using length_pad_draws [of gen "num_requested_columns L" h] rs by simp
  have "length ?b = tl_witnesses_per_row L" by (simp add: quadratic_block_def Let_def)
  from extend_block [OF assms(1) this len] obtain row where
    row: "fo_extend F (tl_block_size L) (tl_num_columns L) (rs @ ?b) = Inr row" "holds_block L row ?b" by blast
  have ix: "\<forall>i \<in> set (map qc_x qcs). i < length (w_values w)" "\<forall>i \<in> set (map qc_y qcs). i < length (w_values w)"
    "\<forall>i \<in> set (map qc_z qcs). i < length (w_values w)"
    using assms(2) by (auto simp: constraint_indices_ok_def)
  have step: "quadratic_row F L w gen n (tb @ rows, ?st n, h) = Inr ((tb @ rows) @ [row], ?st (Suc n), h')"
  proof -
    consider "n < T" | "T \<le> n" "n < 2 * T" | "2 * T \<le> n" by linarith
    then show ?thesis
    proof cases
      case 1
      then have "min n T = n" "min (Suc n) T = Suc n" "n - T = 0" "Suc n - T = 0" "n - 2 * T = 0" "Suc n - 2 * T = 0"
        by simp_all
      with 1 row rs next_chunk [OF ix(1), of k n] show ?thesis
        by (simp add: quadratic_row_def quadratic_block_def Let_def T_def k_def comp_def)
    next
      case 2
      then have "min n T = T" "min (Suc n) T = T" "min (n - T) T = n - T" "min (Suc n - T) T = Suc (n - T)"
        "n - 2 * T = 0" "Suc n - 2 * T = 0" by simp_all
      with 2 row rs next_chunk [OF ix(2), of k "n - T"] show ?thesis
        by (simp add: quadratic_row_def quadratic_block_def Let_def T_def k_def comp_def)
    next
      case 3
      then have "min n T = T" "min (Suc n) T = T" "min (n - T) T = T" "min (Suc n - T) T = T"
        "Suc n - 2 * T = Suc (n - 2 * T)" by simp_all
      with 3 row rs next_chunk [OF ix(3), of k "n - 2 * T"] show ?thesis
        by (simp add: quadratic_row_def quadratic_block_def Let_def T_def k_def comp_def)
    qed
  qed
  show ?case
  proof (intro exI conjI)
    show "fold_res (quadratic_row F L w gen) [0..<Suc n]
        (tb, (map qc_x qcs, map qc_y qcs, map qc_z qcs), g) = Inr (tb @ (rows @ [row]), ?st (Suc n), h')"
      using rows(1) step by (simp add: fold_res_append)
    show "list_all2 (holds_block L) (rows @ [row]) (map (quadratic_block L (w_values w) qcs) [0..<Suc n])"
      using rows(2) row(2) by (simp add: list_all2_appendI)
  qed
qed simp

lemma quadratic_blocks:
  "map (quadratic_block L ws qcs) [0..<num_quadratic_rows L] =
     map (\<lambda>r. padded_chunk (tl_witnesses_per_row L) r (map (\<lambda>q. ws ! qc_x q) qcs)) [0..<num_quadratic_triples L]
     @ map (\<lambda>r. padded_chunk (tl_witnesses_per_row L) r (map (\<lambda>q. ws ! qc_y q) qcs)) [0..<num_quadratic_triples L]
     @ map (\<lambda>r. padded_chunk (tl_witnesses_per_row L) r (map (\<lambda>q. ws ! qc_z q) qcs)) [0..<num_quadratic_triples L]"
  by (rule nth_equalityI)
    (auto simp: num_quadratic_rows_def nth_append quadratic_block_def Let_def mult_2)

subsection \<open>The whole tableau\<close>

definition tableau_wf :: "tableau_layout \<Rightarrow> 'a list \<Rightarrow> quadratic_constraint list \<Rightarrow> 'a list list \<Rightarrow> bool" where
  "tableau_wf L ws qcs contents \<longleftrightarrow>
     (\<exists>r0 r1 r2 rows. contents = [r0, r1, r2] @ rows \<and>
        cw (tl_block_size L) (tl_num_columns L) r0 \<and>
        cw (dblock L) (tl_num_columns L) r1 \<and>
        sum_list (take (tl_witnesses_per_row L) (drop (num_requested_columns L) r1)) = 0 \<and>
        cw (dblock L) (tl_num_columns L) r2 \<and>
        take (tl_witnesses_per_row L) (drop (num_requested_columns L) r2) = replicate (tl_witnesses_per_row L) 0 \<and>
        list_all2 (holds_block L) rows (value_rows L ws qcs))"

lemma middle_of_prefix:
  "a + k \<le> n \<Longrightarrow> take k (drop a (take n xs)) = take k (drop a xs)"
  by (simp add: drop_take min_def)

lemma tableau_build_ok:
  assumes "parameters_ok ok prm" "constraint_indices_ok (w_values w) qcs"
  shows "\<exists>tb g'. tableau_build F prm w qcs gen g = Inr (tb, g') \<and>
    tb_layout tb = tableau_layout_new prm (length (w_values w)) (length qcs) \<and>
    tableau_wf (tb_layout tb) (w_values w) qcs (tb_contents tb)"
proof -
  define L where "L = tableau_layout_new prm (length (w_values w)) (length qcs)"
  have ok: "parameters_ok ok (tl_parameters L)" using assms(1) by (simp add: L_def tableau_layout_new_def)
  note p = parameters_okD [OF ok]
  have pos: "0 < tl_block_size L" "tl_block_size L \<le> tl_num_columns L" "0 < dblock L" "dblock L \<le> tl_num_columns L"
    "num_requested_columns L + tl_witnesses_per_row L \<le> dblock L"
    using p by linarith+
  obtain low g1 where low: "pad_draws gen (tl_block_size L) g = (low, g1)" by fastforce
  then have "length low = tl_block_size L" using length_pad_draws [of gen "tl_block_size L" g] by simp
  from extend_cw [OF pos(1,2) p(8) this] obtain r0 where
    r0: "fo_extend F (tl_block_size L) (tl_num_columns L) low = Inr r0" "cw (tl_block_size L) (tl_num_columns L) r0"
    by blast
  obtain linear g2 where linear: "linear_test_row L gen g1 = Inr (linear, g2)" "length linear = dblock L"
    "sum_list (take (tl_witnesses_per_row L) (drop (num_requested_columns L) linear)) = 0"
    using linear_test_row_ok [OF ok, of gen g1] by blast
  from extend_cw [OF pos(3,4) p(8) linear(2)] obtain r1 where
    r1: "fo_extend F (dblock L) (tl_num_columns L) linear = Inr r1" "cw (dblock L) (tl_num_columns L) r1"
    "take (dblock L) r1 = linear" by blast
  obtain quadratic g3 where quadratic: "quadratic_row_loop L gen [0..<dblock L] g2 = (quadratic, g3)" by fastforce
  note q = quadratic_row_loop_ok [OF quadratic]
  from extend_cw [OF pos(3,4) p(8), of quadratic] q obtain r2 where
    r2: "fo_extend F (dblock L) (tl_num_columns L) quadratic = Inr r2" "cw (dblock L) (tl_num_columns L) r2"
    "take (dblock L) r2 = quadratic" by auto
  obtain rows g4 where rows: "fold_res (witness_row F L w gen) [0..<num_linear_constraint_rows L] ([r0, r1, r2], g3) =
      Inr ([r0, r1, r2] @ rows, g4)" "list_all2 (holds_block L) rows
        (map (\<lambda>r. padded_chunk (tl_witnesses_per_row L) r (w_values w)) [0..<num_linear_constraint_rows L])"
    using witness_rows_ok [OF ok, of w gen "num_linear_constraint_rows L" "[r0, r1, r2]" g3] by blast
  obtain qrows its g5 where qrows: "fold_res (quadratic_row F L w gen) [0..<num_quadratic_rows L]
      ([r0, r1, r2] @ rows, (map qc_x qcs, map qc_y qcs, map qc_z qcs), g4) =
      Inr (([r0, r1, r2] @ rows) @ qrows, its, g5)"
    "list_all2 (holds_block L) qrows (map (quadratic_block L (w_values w) qcs) [0..<num_quadratic_rows L])"
    using quadratic_rows_ok [OF ok assms(2), of "num_quadratic_rows L" gen "[r0, r1, r2] @ rows" g4]
    by (fastforce simp: num_quadratic_rows_def)
  have all: "list_all2 (holds_block L) (rows @ qrows) (value_rows L (w_values w) qcs)"
    using list_all2_appendI [OF rows(2) qrows(2)] unfolding quadratic_blocks value_rows_def Let_def by simp
  from list_all2_lengthD [OF this]
  have len: "length ([r0, r1, r2] @ rows @ qrows) = num_rows L"
    by (simp add: num_rows_def num_constraint_rows_def first_witness_row_def)
  let ?tb = "\<lparr>tb_layout = L, tb_contents = [r0, r1, r2] @ rows @ qrows\<rparr>"
  have build: "tableau_build F prm w qcs gen g = Inr (?tb, g5)"
    unfolding tableau_build_def L_def [symmetric]
    using p(10) low r0 linear r1 quadratic r2 rows qrows len by simp
  have z: "take (tl_witnesses_per_row L) (drop (num_requested_columns L) quadratic) =
      replicate (tl_witnesses_per_row L) 0"
    by (rule nth_equalityI) (use q p pos(5) in auto)
  have "tableau_wf L (w_values w) qcs ([r0, r1, r2] @ rows @ qrows)"
    unfolding tableau_wf_def
    using r0(2) r1(2) r2(2) all linear(3) z
      middle_of_prefix [OF pos(5), of r1] middle_of_prefix [OF pos(5), of r2] r1(3) r2(3) by auto
  with build show ?thesis by (auto simp: L_def)
qed

lemma tableau_wf_row:
  assumes "parameters_ok ok (tl_parameters L)" "tableau_wf L ws qcs contents"
  shows "length contents = num_rows L" "\<forall>row \<in> set contents. length row = tl_num_columns L"
proof -
  obtain r0 r1 r2 rows where c: "contents = [r0, r1, r2] @ rows"
    "cw (tl_block_size L) (tl_num_columns L) r0" "cw (dblock L) (tl_num_columns L) r1"
    "cw (dblock L) (tl_num_columns L) r2" "list_all2 (holds_block L) rows (value_rows L ws qcs)"
    using assms(2) by (auto simp: tableau_wf_def)
  show "length contents = num_rows L"
    using list_all2_lengthD [OF c(5)] c(1) by (simp add: num_rows_def num_constraint_rows_def first_witness_row_def)
  have "length r = tl_num_columns L" if "r \<in> set rows" for r
  proof -
    from that obtain i where i: "i < length rows" "r = rows ! i" by (auto simp: in_set_conv_nth)
    with list_all2_nthD [OF c(5) i(1)] show ?thesis by (auto simp: holds_block_def dest: cw_length)
  qed
  then show "\<forall>row \<in> set contents. length row = tl_num_columns L"
    using c by (auto dest: cw_length)
qed

end

section \<open>Ligero Linear\<close>

text \<open>
  The inner product vector of Ligero: its product with the blocks of the tableau is the combination
  of the linear constraints, because the terms of the quadratic constraints only move values
  between the witness rows and the constraint rows.
\<close>

subsection \<open>The blocks as one vector\<close>

definition value_vector :: "tableau_layout \<Rightarrow> 'a :: zero list \<Rightarrow> quadratic_constraint list \<Rightarrow> 'a list" where
  "value_vector L ws qcs = concat (value_rows L ws qcs)"

lemma length_value_vector: "length (value_vector L ws qcs) = num_constraint_rows L * tl_witnesses_per_row L"
  using length_concat_same [of "value_rows L ws qcs" "tl_witnesses_per_row L"] value_rows_width
  by (auto simp: value_vector_def)

lemma value_vector_nth:
  "r < num_constraint_rows L \<Longrightarrow> j < tl_witnesses_per_row L \<Longrightarrow>
   value_vector L ws qcs ! (r * tl_witnesses_per_row L + j) = value_rows L ws qcs ! r ! j"
  unfolding value_vector_def by (rule nth_concat_same) (auto dest: value_rows_width)

lemma div_ceil_mult: "0 < (k :: nat) \<Longrightarrow> n \<le> div_ceil n k * k"
  using dividend_less_div_times [of k "n + (k - 1)"] by (simp add: div_ceil_def)

lemma div_less_rows:
  assumes "i < n * (k :: nat)"
  shows "i div k < n" "i mod k < k" "i = i div k * k + i mod k"
proof -
  have "0 < k" using assms by (cases k) auto
  then show "i mod k < k" by simp
  show "i div k < n" using assms by (simp add: less_mult_imp_div_less)
qed simp

lemma value_vector_witness:
  assumes "tl_num_witnesses L = length ws" "0 < tl_witnesses_per_row L" "i < length ws"
  shows "i < num_linear_constraint_rows L * tl_witnesses_per_row L" "value_vector L ws qcs ! i = ws ! i"
proof -
  let ?k = "tl_witnesses_per_row L"
  show i: "i < num_linear_constraint_rows L * ?k"
    using div_ceil_mult [OF assms(2), of "length ws"] assms(1,3) by (simp add: num_linear_constraint_rows_def)
  note d = div_less_rows [OF i]
  have "value_vector L ws qcs ! (i div ?k * ?k + i mod ?k) = value_rows L ws qcs ! (i div ?k) ! (i mod ?k)"
    using d by (intro value_vector_nth) (simp_all add: num_constraint_rows_def)
  also have "value_rows L ws qcs ! (i div ?k) = padded_chunk ?k (i div ?k) ws"
    using d by (simp add: value_rows_def Let_def nth_append)
  also have "\<dots> ! (i mod ?k) = ws ! i"
    using d assms(3) by (simp add: nth_padded_chunk)
  finally show "value_vector L ws qcs ! i = ws ! i" by simp
qed

lemma value_vector_constraint:
  assumes "i < length qcs" "i < num_quadratic_triples L * tl_witnesses_per_row L"
  defines "n \<equiv> num_linear_constraint_rows L * tl_witnesses_per_row L"
    and "t \<equiv> num_quadratic_triples L * tl_witnesses_per_row L"
  shows "value_vector L ws qcs ! (n + i) = ws ! qc_x (qcs ! i)"
    "value_vector L ws qcs ! (n + t + i) = ws ! qc_y (qcs ! i)"
    "value_vector L ws qcs ! (n + t + t + i) = ws ! qc_z (qcs ! i)"
proof -
  let ?k = "tl_witnesses_per_row L" and ?T = "num_quadratic_triples L" and ?N = "num_linear_constraint_rows L"
  note d = div_less_rows [OF assms(2)]
  have v: "value_vector L ws qcs ! (r * ?k + i) = value_rows L ws qcs ! (r + i div ?k) ! (i mod ?k)"
    if "r + i div ?k < num_constraint_rows L" for r
  proof -
    have "r * ?k + i = (r + i div ?k) * ?k + i mod ?k"
      by (simp add: algebra_simps)
    then show ?thesis using value_vector_nth [OF that d(2)] by simp
  qed
  have rows: "?N + i div ?k < num_constraint_rows L" "(?N + ?T) + i div ?k < num_constraint_rows L"
    "(?N + ?T + ?T) + i div ?k < num_constraint_rows L"
    using d(1) by (simp_all add: num_constraint_rows_def num_quadratic_rows_def)
  have lens: "n = ?N * ?k" "n + t = (?N + ?T) * ?k" "n + t + t = (?N + ?T + ?T) * ?k"
    by (simp_all add: n_def t_def algebra_simps)
  have c: "padded_chunk ?k (i div ?k) (map f qcs) ! (i mod ?k) = f (qcs ! i)" for f :: "quadratic_constraint \<Rightarrow> 'b :: zero"
    using d assms(1) by (simp add: nth_padded_chunk)
  show "value_vector L ws qcs ! (n + i) = ws ! qc_x (qcs ! i)"
    by (simp only: lens(1) v [OF rows(1)]) (use d(1) c in \<open>simp add: value_rows_def Let_def nth_append\<close>)
  show "value_vector L ws qcs ! (n + t + i) = ws ! qc_y (qcs ! i)"
    by (simp only: lens(2) v [OF rows(2)]) (use d(1) c in \<open>simp add: value_rows_def Let_def nth_append\<close>)
  show "value_vector L ws qcs ! (n + t + t + i) = ws ! qc_z (qcs ! i)"
    by (simp only: lens(3) v [OF rows(3)]) (use d(1) c in \<open>simp add: value_rows_def Let_def nth_append\<close>)
qed

subsection \<open>The product\<close>

lemma add_at_ok:
  assumes "i < length v" "length v = length V"
  shows "\<exists>v'. add_at v i x = Inr v' \<and> length v' = length v \<and> dotp v' V = dotp v V + x * V ! i"
  using assms by (simp add: add_at_def dotp_update)

lemma linear_terms_ok:
  assumes "length v = length V"
    and "\<forall>t \<in> set ts. constraint_number t < length alphas \<and> witness_index t < length V"
  shows "\<exists>v'. fold_res (linear_term alphas) ts v = Inr v' \<and> length v' = length V \<and>
    dotp v' V = dotp v V +
      (\<Sum>t\<leftarrow>ts. alphas ! constraint_number t * constant_factor t * V ! witness_index t)"
  using assms
proof (induction ts arbitrary: v)
  case (Cons t ts)
  obtain u where u: "add_at v (witness_index t) (alphas ! constraint_number t * constant_factor t) = Inr u"
    "length u = length v" "dotp u V = dotp v V + alphas ! constraint_number t * constant_factor t * V ! witness_index t"
    using add_at_ok [of "witness_index t" v V] Cons.prems by auto
  have "linear_term alphas t v = Inr u" using u(1) Cons.prems by (simp add: linear_term_def)
  moreover obtain v' where "fold_res (linear_term alphas) ts u = Inr v'" "length v' = length V"
    "dotp v' V = dotp u V + (\<Sum>t\<leftarrow>ts. alphas ! constraint_number t * constant_factor t * V ! witness_index t)"
    using Cons.IH [of u] Cons.prems u(2) by auto
  ultimately show ?case using u(3) by (simp add: add.assoc)
qed simp

lemma quadratic_term_ok:
  assumes "length v = length V" "i < length qcs" "length alphas = 3 * length qcs"
    and "xs + i < length V" "ys + i < length V" "zs + i < length V"
    and "qc_x (qcs ! i) < length V" "qc_y (qcs ! i) < length V" "qc_z (qcs ! i) < length V"
    and "V ! (xs + i) = V ! qc_x (qcs ! i)" "V ! (ys + i) = V ! qc_y (qcs ! i)" "V ! (zs + i) = V ! qc_z (qcs ! i)"
  shows "\<exists>v'. quadratic_term (xs, ys, zs) qcs alphas i v = Inr v' \<and> length v' = length V \<and> dotp v' V = dotp v V"
proof -
  let ?q = "qcs ! i"
  have a: "i * 3 < length alphas" "i * 3 + 1 < length alphas" "i * 3 + 2 < length alphas" using assms(2,3) by simp_all
  obtain v1 where v1: "add_at v (xs + i) (alphas ! (i * 3)) = Inr v1" "length v1 = length V"
    "dotp v1 V = dotp v V + alphas ! (i * 3) * V ! (xs + i)" using add_at_ok [of "xs + i" v V "alphas ! (i * 3)"] assms by auto
  obtain v2 where v2: "add_at v1 (qc_x ?q) (- alphas ! (i * 3)) = Inr v2" "length v2 = length V"
    "dotp v2 V = dotp v1 V + - alphas ! (i * 3) * V ! qc_x ?q" using add_at_ok [of "qc_x ?q" v1 V "- alphas ! (i * 3)"] assms v1 by auto
  obtain v3 where v3: "add_at v2 (ys + i) (alphas ! (i * 3 + 1)) = Inr v3" "length v3 = length V"
    "dotp v3 V = dotp v2 V + alphas ! (i * 3 + 1) * V ! (ys + i)" using add_at_ok [of "ys + i" v2 V "alphas ! (i * 3 + 1)"] assms v2 by auto
  obtain v4 where v4: "add_at v3 (qc_y ?q) (- alphas ! (i * 3 + 1)) = Inr v4" "length v4 = length V"
    "dotp v4 V = dotp v3 V + - alphas ! (i * 3 + 1) * V ! qc_y ?q" using add_at_ok [of "qc_y ?q" v3 V "- alphas ! (i * 3 + 1)"] assms v3 by auto
  obtain v5 where v5: "add_at v4 (zs + i) (alphas ! (i * 3 + 2)) = Inr v5" "length v5 = length V"
    "dotp v5 V = dotp v4 V + alphas ! (i * 3 + 2) * V ! (zs + i)" using add_at_ok [of "zs + i" v4 V "alphas ! (i * 3 + 2)"] assms v4 by auto
  obtain v6 where v6: "add_at v5 (qc_z ?q) (- alphas ! (i * 3 + 2)) = Inr v6" "length v6 = length V"
    "dotp v6 V = dotp v5 V + - alphas ! (i * 3 + 2) * V ! qc_z ?q" using add_at_ok [of "qc_z ?q" v5 V "- alphas ! (i * 3 + 2)"] assms v5 by auto
  have "quadratic_term (xs, ys, zs) qcs alphas i v = Inr v6"
    using assms(2) a v1(1) v2(1) v3(1) v4(1) v5(1) v6(1) by (simp add: quadratic_term_def)
  moreover have "dotp v6 V = dotp v V"
    using v1(3) v2(3) v3(3) v4(3) v5(3) v6(3) assms(10-12) by simp
  ultimately show ?thesis using v6(2) by blast
qed

lemma quadratic_indices_range:
  assumes "i \<in> set (quadratic_indices L n)"
  shows "i < n" "i < num_quadratic_triples L * tl_witnesses_per_row L"
proof -
  from assms obtain r where r: "r < num_quadratic_triples L"
    "i \<in> set (takeWhile (\<lambda>i. i < n) (map (\<lambda>j. j + r * tl_witnesses_per_row L) [0..<tl_witnesses_per_row L]))"
    by (auto simp: quadratic_indices_def)
  then show "i < n" by (auto dest: set_takeWhileD)
  have "i < tl_witnesses_per_row L + r * tl_witnesses_per_row L" using r(2) by (auto dest!: set_takeWhileD)
  then have "i < Suc r * tl_witnesses_per_row L" by simp
  also have "\<dots> \<le> num_quadratic_triples L * tl_witnesses_per_row L" using r(1) by (intro mult_le_mono1) simp
  finally show "i < num_quadratic_triples L * tl_witnesses_per_row L" .
qed

definition terms_in_range :: "nat \<Rightarrow> 'a linear_constraints \<Rightarrow> bool" where
  "terms_in_range n lc \<longleftrightarrow>
     (\<forall>t \<in> set (lc_lhs_terms lc). constraint_number t < length (lc_rhs lc) \<and> witness_index t < n)"

lemma lhs_sum_combination:
  fixes alphas :: "'a :: comm_ring_1 list"
  assumes "\<forall>t \<in> set ts. constraint_number t < n"
  shows "(\<Sum>t\<leftarrow>ts. alphas ! constraint_number t * constant_factor t * W (witness_index t)) =
    (\<Sum>c < n. alphas ! c * lhs_sum W ts c)"
  using assms
proof (induction ts)
  case (Cons t ts)
  have "(\<Sum>c < n. alphas ! c * lhs_sum W (t # ts) c) =
      (\<Sum>c < n. (if c = constraint_number t then alphas ! c * (constant_factor t * W (witness_index t)) else 0)
        + alphas ! c * lhs_sum W ts c)"
    by (intro sum.cong) (auto simp: lhs_sum_def algebra_simps)
  also have "\<dots> = alphas ! constraint_number t * (constant_factor t * W (witness_index t)) +
      (\<Sum>c < n. alphas ! c * lhs_sum W ts c)"
    using Cons.prems by (simp add: sum.distrib)
  finally show ?case using Cons by (simp add: mult.assoc)
qed simp

lemma inner_product_vector_ok:
  fixes ws :: "'a :: comm_ring_1 list"
  assumes "0 < tl_witnesses_per_row L" "tl_num_witnesses L = length ws" "constraint_indices_ok ws qcs"
    and "terms_in_range (length ws) lc" "length alphas = length (lc_rhs lc)" "length qalphas = 3 * length qcs"
    and "linear_constraints_hold (nth ws) lc"
  shows "\<exists>v. inner_product_vector L lc alphas qcs qalphas = Inr v \<and>
    length v = num_constraint_rows L * tl_witnesses_per_row L \<and>
    dotp v (value_vector L ws qcs) = (\<Sum>c < length (lc_rhs lc). alphas ! c * lc_rhs lc ! c)"
proof -
  let ?V = "value_vector L ws qcs" and ?k = "tl_witnesses_per_row L"
  let ?n = "num_linear_constraint_rows L * ?k" and ?t = "num_quadratic_triples L * ?k"
  let ?starts = "(?n, ?n + ?t, ?n + ?t + ?t)"
  note lenV = length_value_vector [of L ws qcs]
  have lenV': "length ?V = ?n + ?t + ?t + ?t"
    by (simp add: lenV num_constraint_rows_def num_quadratic_rows_def algebra_simps)
  note vw = value_vector_witness [OF assms(2,1)]
  have w: "i < length ?V" if "i < length ws" for i using vw(1) [OF that] lenV' by simp
  have "\<forall>t \<in> set (lc_lhs_terms lc). constraint_number t < length alphas \<and> witness_index t < length ?V"
    using assms(4,5) w by (auto simp: terms_in_range_def)
  from linear_terms_ok [OF _ this, of "replicate (?k * num_constraint_rows L) 0"] lenV
  obtain v where v: "fold_res (linear_term alphas) (lc_lhs_terms lc) (replicate (?k * num_constraint_rows L) 0) = Inr v"
    "length v = length ?V" "dotp v ?V =
      (\<Sum>t\<leftarrow>lc_lhs_terms lc. alphas ! constraint_number t * constant_factor t * ?V ! witness_index t)"
    by (auto simp: mult.commute)
  have "\<exists>v'. fold_res (quadratic_term ?starts qcs qalphas) is u = Inr v' \<and> length v' = length ?V \<and> dotp v' ?V = dotp u ?V"
    if "length u = length ?V" "\<forall>i \<in> set is. i < length qcs \<and> i < ?t" for "is" u
    using that
  proof (induction "is" arbitrary: u)
    case (Cons i "is")
    have i: "i < length qcs" "i < ?t" using Cons.prems(2) by simp_all
    have q: "qc_x (qcs ! i) < length ws" "qc_y (qcs ! i) < length ws" "qc_z (qcs ! i) < length ws"
      using assms(3) i(1) by (auto simp: constraint_indices_ok_def)
    obtain u' where u': "quadratic_term ?starts qcs qalphas i u = Inr u'" "length u' = length ?V" "dotp u' ?V = dotp u ?V"
      using quadratic_term_ok [OF Cons.prems(1) i(1) assms(6), of ?n "?n + ?t" "?n + ?t + ?t"]
        value_vector_constraint [OF i] vw(2) [OF q(1)] vw(2) [OF q(2)] vw(2) [OF q(3)] w q i lenV' by auto
    then show ?case using Cons.IH [of u'] Cons.prems by auto
  qed simp
  from this [of v "quadratic_indices L (length qcs)"] v(2) obtain v' where
    v': "fold_res (quadratic_term ?starts qcs qalphas) (quadratic_indices L (length qcs)) v = Inr v'"
    "length v' = length ?V" "dotp v' ?V = dotp v ?V" by (auto dest: quadratic_indices_range)
  have "(\<Sum>t\<leftarrow>lc_lhs_terms lc. alphas ! constraint_number t * constant_factor t * ?V ! witness_index t) =
      (\<Sum>t\<leftarrow>lc_lhs_terms lc. alphas ! constraint_number t * constant_factor t * ws ! witness_index t)"
    using assms(4) vw(2) by (intro arg_cong [where f = sum_list] map_cong) (auto simp: terms_in_range_def)
  also have "\<dots> = (\<Sum>c < length (lc_rhs lc). alphas ! c * lhs_sum (nth ws) (lc_lhs_terms lc) c)"
    by (rule lhs_sum_combination) (use assms(4) in \<open>auto simp: terms_in_range_def\<close>)
  also have "\<dots> = (\<Sum>c < length (lc_rhs lc). alphas ! c * lc_rhs lc ! c)"
    using assms(7) by (intro sum.cong) (auto simp: linear_constraints_hold_def list_all_iff)
  finally have "dotp v' ?V = (\<Sum>c < length (lc_rhs lc). alphas ! c * lc_rhs lc ! c)"
    using v'(3) v(3) by simp
  moreover have "inner_product_vector L lc alphas qcs qalphas = Inr v'"
    using v(1) v'(1) by (simp add: inner_product_vector_def Let_def)
  ultimately show ?thesis using v'(2) lenV by auto
qed

end
