(* ===== verification/Ligero_Complete.thy ===== *)
theory Ligero_Complete
  imports Ligero_Rows Ligero_Verifier Merkle
begin

text \<open>
  The Ligero verifier accepts what the prover makes of a witness that satisfies the constraints. The
  three parts of the proof are prefixes of combinations of the full rows of the tableau, and the
  rows the verifier computes are the same combinations at the opened columns; each combination is a
  codeword, so extending its prefix gives the combination back.
\<close>

subsection \<open>Combinations of full rows\<close>

definition sum_products :: "('a :: comm_ring_1 list \<times> 'a list) list \<Rightarrow> 'a list \<Rightarrow> 'a list" where
  "sum_products ps d = fold (\<lambda>(a, r) d. add_product a r d) ps d"

lemma sum_products_simps [simp]:
  "sum_products [] d = d"
  "sum_products ((a, r) # ps) d = sum_products ps (add_product a r d)"
  by (simp_all add: sum_products_def)

lemma length_add_scaled [simp]: "length (add_scaled rb xs) = length xs"
  by (simp add: add_scaled_def split: prod.split)

lemma length_add_product [simp]: "length (add_product a r d) = length d"
  by (simp add: add_product_def)

lemma length_add_quadratic [simp]: "length (add_quadratic c x y z p) = length p"
  by (simp add: add_quadratic_def)

lemma length_sum_products [simp]: "length (sum_products ps d) = length d"
  by (induction ps arbitrary: d) auto

lemma take_zip_update:
  "length xs \<le> length ys \<Longrightarrow> take k (zip_update f xs ys) = zip_update f (take k xs) ys"
  by (rule nth_equalityI) (auto simp: nth_zip_update)

lemma take_add_scaled:
  "length xs \<le> length row \<Longrightarrow> take k (add_scaled (row, b) xs) = add_scaled (row, b) (take k xs)"
  by (simp add: add_scaled_def take_zip_update)

lemma sel_add_scaled:
  "fits js xs \<Longrightarrow> fits js row \<Longrightarrow> sel js (add_scaled (row, b) xs) = add_scaled (sel js row, b) (sel js xs)"
  by (simp add: add_scaled_def sel_zip_update)

lemma sel_zip: "length as = length bs \<Longrightarrow> fits js as \<Longrightarrow> sel js (zip as bs) = zip (sel js as) (sel js bs)"
  by (rule nth_equalityI) (auto simp: fits_def)

lemma fits_zip: "length as = length bs \<Longrightarrow> fits js (zip as bs) = fits js as"
  by (simp add: fits_def)

lemma fits_length: "length xs = length ys \<Longrightarrow> fits js xs = fits js ys"
  by (simp add: fits_def)

lemma sel_add_product:
  "length a = length d \<Longrightarrow> length r = length d \<Longrightarrow> fits js d \<Longrightarrow>
   sel js (add_product a r d) = add_product (sel js a) (sel js r) (sel js d)"
  by (simp add: add_product_def sel_zip_update sel_zip fits_zip fits_length [of a d])

lemma sel_add_quadratic:
  "length x = length p \<Longrightarrow> length y = length p \<Longrightarrow> length z = length p \<Longrightarrow> fits js p \<Longrightarrow>
   sel js (add_quadratic c x y z p) = add_quadratic c (sel js x) (sel js y) (sel js z) (sel js p)"
  by (simp add: add_quadratic_def sel_zip_update sel_zip fits_zip fits_length [of x p] fits_length [of y p])

lemma take_add_product:
  "length a = length d \<Longrightarrow> length r = length d \<Longrightarrow>
   take k (add_product a r d) = add_product (take k a) (take k r) (take k d)"
  by (rule nth_equalityI) (auto simp: add_product_def nth_zip_update)

lemma take_add_quadratic:
  "length x = length p \<Longrightarrow> length y = length p \<Longrightarrow> length z = length p \<Longrightarrow>
   take k (add_quadratic c x y z p) = add_quadratic c x y z (take k p)"
  by (simp add: add_quadratic_def take_zip_update)

text \<open>The witness columns of a sum of products.\<close>

definition middle :: "tableau_layout \<Rightarrow> 'a list \<Rightarrow> 'a list" where
  "middle L xs = take (tl_witnesses_per_row L) (drop (num_requested_columns L) xs)"

lemma sum_middle_add_product:
  assumes "length a = length d" "length r = length d" "num_requested_columns L + tl_witnesses_per_row L \<le> length d"
  shows "sum_list (middle L (add_product a r d)) = sum_list (middle L d) + dotp (middle L a) (middle L r)"
proof -
  have "middle L (add_product a r d) = map2 (+) (middle L d) (map2 (*) (middle L a) (middle L r))"
    by (rule nth_equalityI) (use assms in \<open>auto simp: middle_def add_product_def nth_zip_update\<close>)
  moreover have "sum_list (map2 (+) xs ys) = sum_list xs + sum_list ys" if "length xs = length ys" for xs ys :: "'a list"
    using that by (induction xs ys rule: list_induct2) (simp_all add: algebra_simps)
  ultimately show ?thesis using assms by (simp add: dotp_def middle_def)
qed

lemma sum_middle_sum_products:
  assumes "\<forall>(a, r) \<in> set ps. length a = length d \<and> length r = length d"
    and "num_requested_columns L + tl_witnesses_per_row L \<le> length d"
  shows "sum_list (middle L (sum_products ps d)) =
    sum_list (middle L d) + (\<Sum>(a, r)\<leftarrow>ps. dotp (middle L a) (middle L r))"
  using assms
proof (induction ps arbitrary: d)
  case (Cons p ps)
  obtain a r where p: "p = (a, r)" by fastforce
  with Cons show ?case by (simp add: sum_middle_add_product add.assoc)
qed simp

subsection \<open>The commitment\<close>

lemma column_bytes_eq:
  "\<forall>row \<in> set rows. j < length row \<Longrightarrow>
   column_bytes F nonce rows j = Inr (nonce @ concat (map (\<lambda>row. fo_encode F (row ! j)) rows))"
  by (simp add: column_bytes_def map_res_Inr_map [where g = "\<lambda>row. fo_encode F (row ! j)"])

text \<open>What a leaf of the tree commits to.\<close>

definition column_leaf :: "crypto \<Rightarrow> 'a field_ops \<Rightarrow> nonce \<Rightarrow> 'a list list \<Rightarrow> nat \<Rightarrow> node" where
  "column_leaf C F nonce rows j = cr_sha C (nonce @ concat (map (\<lambda>row. fo_encode F (row ! j)) rows))"

lemma commit_columns_ok:
  assumes "\<forall>row \<in> set (tb_contents tb). length row = m" "dblock (tb_layout tb) + k \<le> m" "m < 2 ^ 64"
    and "length (mt_digests tree) = 2 * (m - dblock (tb_layout tb))"
    and "length (mt_nonces tree) = m - dblock (tb_layout tb)"
  defines "D \<equiv> dblock (tb_layout tb)"
  shows "\<exists>tree' n'. fold_res (commit_column C F tb gen) [D..<D + k] (tree, n) = Inr (tree', n') \<and>
    length (mt_digests tree') = 2 * (m - D) \<and> length (mt_nonces tree') = m - D \<and>
    (\<forall>i < k. mt_digests tree' ! (m - D + i) = column_leaf C F (mt_nonces tree' ! i) (tb_contents tb) (D + i))"
  using assms(2)
proof (induction k)
  case (Suc k)
  then obtain tr h where tr: "fold_res (commit_column C F tb gen) [D..<D + k] (tree, n) = Inr (tr, h)"
    "length (mt_digests tr) = 2 * (m - D)" "length (mt_nonces tr) = m - D"
    "\<And>i. i < k \<Longrightarrow> mt_digests tr ! (m - D + i) = column_leaf C F (mt_nonces tr ! i) (tb_contents tb) (D + i)"
    by auto
  have k: "k < m - D" "D + k < m" using Suc.prems by (simp_all add: D_def)
  obtain nonce h' where nonce: "gen h = (nonce, h')" by fastforce
  let ?leaf = "column_leaf C F nonce (tb_contents tb) (D + k)"
  let ?tree = "\<lparr>mt_digests = (mt_digests tr)[m - D + k := ?leaf], mt_nonces = (mt_nonces tr)[k := nonce]\<rparr>"
  have "\<forall>row \<in> set (tb_contents tb). D + k < length row" using assms(1) k by auto
  note cb = column_bytes_eq [OF this, of F nonce]
  have "usize_sub (D + k) D = k" using k assms(3) by simp
  moreover have "leaf_count tr = m - D" using tr(2) by (simp add: leaf_count_def tree_size_def)
  ultimately have "commit_column C F tb gen (D + k) (tr, h) = Inr (?tree, h')"
    using nonce cb tr(2,3) k
    by (simp add: commit_column_def set_leaf_def D_def [symmetric] column_leaf_def)
  then have step: "fold_res (commit_column C F tb gen) [D..<D + Suc k] (tree, n) = Inr (?tree, h')"
    using tr(1) by (simp add: fold_res_append)
  have "mt_digests ?tree ! (m - D + i) = column_leaf C F (mt_nonces ?tree ! i) (tb_contents tb) (D + i)" if "i < Suc k" for i
    using that tr(2-4) k by (cases "i = k") simp_all
  moreover have "length (mt_digests ?tree) = 2 * (m - D)" "length (mt_nonces ?tree) = m - D"
    using tr(2,3) by simp_all
  ultimately show ?case using step by blast
qed (use assms(4,5) in \<open>simp add: D_def\<close>)

lemma tableau_commit_ok:
  assumes "\<forall>row \<in> set (tb_contents tb). length row = tl_num_columns (tb_layout tb)"
    and "dblock (tb_layout tb) \<le> tl_num_columns (tb_layout tb)" "tl_num_columns (tb_layout tb) < 2 ^ 64"
  defines "D \<equiv> dblock (tb_layout tb)" and "N \<equiv> tl_num_columns (tb_layout tb) - dblock (tb_layout tb)"
  shows "\<exists>tree n'. tableau_commit C F tb gen n = Inr (tree, n') \<and> merkle_wf (cr_sha C) N tree \<and>
    length (mt_nonces tree) = N \<and>
    (\<forall>i < N. leaf_at tree i = column_leaf C F (mt_nonces tree ! i) (tb_contents tb) (i + D))"
proof -
  let ?m = "tl_num_columns (tb_layout tb)"
  have N: "usize_sub ?m D = N" using assms(2,3) by (simp add: D_def N_def)
  have m: "D + N = ?m" using assms(2) by (simp add: D_def N_def)
  have "\<exists>tree' n'. fold_res (commit_column C F tb gen) [D..<D + N] (merkle_new N, n) = Inr (tree', n') \<and>
    length (mt_digests tree') = 2 * (?m - D) \<and> length (mt_nonces tree') = ?m - D \<and>
    (\<forall>i < N. mt_digests tree' ! (?m - D + i) = column_leaf C F (mt_nonces tree' ! i) (tb_contents tb) (D + i))"
    unfolding D_def
    by (rule commit_columns_ok [OF assms(1) _ assms(3)]) (use m in \<open>simp_all add: merkle_new_def N_def D_def\<close>)
  then obtain tree' n' where t: "fold_res (commit_column C F tb gen) [D..<?m] (merkle_new N, n) = Inr (tree', n')"
    "length (mt_digests tree') = 2 * N" "length (mt_nonces tree') = N"
    "\<And>i. i < N \<Longrightarrow> mt_digests tree' ! (N + i) = column_leaf C F (mt_nonces tree' ! i) (tb_contents tb) (D + i)"
    unfolding m by (auto simp: N_def D_def)
  let ?tree = "merkle_build (cr_sha C) tree'"
  have "mt_nonces ?tree = mt_nonces tree'" by (simp add: merkle_build_def)
  moreover have "leaf_at ?tree i = column_leaf C F (mt_nonces tree' ! i) (tb_contents tb) (i + D)" if "i < N" for i
    using merkle_build_wf(2) [OF t(2) that, of "cr_sha C"] t(4) [OF that] by (simp add: add.commute)
  moreover have "tableau_commit C F tb gen n = Inr (?tree, n')"
    using t(1) N by (simp add: tableau_commit_def D_def [symmetric])
  ultimately show ?thesis using merkle_build_wf(1) [OF t(2), of "cr_sha C"] t(3) by auto
qed

subsection \<open>The three parts\<close>

text \<open>The opened positions of a row.\<close>

definition opened :: "tableau_layout \<Rightarrow> nat list \<Rightarrow> nat list" where
  "opened L indices = map (\<lambda>i. i + dblock L) indices"

definition indices_ok :: "tableau_layout \<Rightarrow> nat list \<Rightarrow> bool" where
  "indices_ok L indices \<longleftrightarrow> (\<forall>i \<in> set indices. i + dblock L < tl_num_columns L)"

lemma opened_fits: "indices_ok L indices \<Longrightarrow> length xs = tl_num_columns L \<Longrightarrow> fits (opened L indices) xs"
  by (auto simp: indices_ok_def fits_def opened_def)

lemma gather_opened:
  "indices_ok L indices \<Longrightarrow> length xs = tl_num_columns L \<Longrightarrow> gather L xs indices = Inr (sel (opened L indices) xs)"
  by (simp add: gather_def indices_ok_def opened_def sel_def comp_def
      map_res_Inr_map [where g = "\<lambda>i. xs ! (i + dblock L)"])

lemma sel_add_scaled_fold:
  assumes "\<forall>row \<in> set rows. length row = length xs" "fits js xs"
  shows "sel js (fold add_scaled (zip rows bs) xs) = fold add_scaled (zip (map (sel js) rows) bs) (sel js xs)"
  using assms
proof (induction rows arbitrary: bs xs)
  case (Cons row rows)
  show ?case
  proof (cases bs)
    case (Cons b bs')
    have "fits js row" using Cons.prems by (simp add: fits_def)
    moreover have "fits js (add_scaled (row, b) xs)" using Cons.prems by (simp add: fits_def)
    ultimately show ?thesis
      using Cons Cons.IH [of "add_scaled (row, b) xs" bs'] Cons.prems by (simp add: sel_add_scaled)
  qed simp
qed simp

lemma take_add_scaled_fold:
  assumes "\<forall>row \<in> set rows. length row = length xs"
  shows "take k (fold add_scaled (zip rows bs) xs) = fold add_scaled (zip rows bs) (take k xs)"
  using assms
proof (induction rows arbitrary: bs xs)
  case (Cons row rows)
  show ?case
  proof (cases bs)
    case (Cons b bs')
    then show ?thesis
      using Cons.IH [of "add_scaled (row, b) xs" bs'] Cons.prems by (simp add: take_add_scaled)
  qed simp
qed simp

context reed_solomon
begin

text \<open>The low degree test.\<close>

lemma low_degree_complete:
  assumes "parameters_ok ok (tl_parameters L)" "tableau_wf L ws qcs contents"
  shows "\<exists>p. low_degree_part L contents blinds = Inr p \<and> length p \<le> tl_num_columns L \<and>
    (\<forall>indices pf. indices_ok L indices \<longrightarrow> lp_tableau_columns pf = map (sel (opened L indices)) contents \<longrightarrow>
       lp_low_degree_test_proof pf = p \<longrightarrow> check_low_degree F L pf blinds indices = Inr ())"
proof -
  note p = parameters_okD [OF assms(1)]
  let ?b = "tl_block_size L" and ?m = "tl_num_columns L"
  obtain r0 r1 r2 rows where c: "contents = [r0, r1, r2] @ rows" "cw ?b ?m r0"
    "list_all2 (holds_block L) rows (value_rows L ws qcs)"
    using assms(2) by (auto simp: tableau_wf_def)
  have cwr: "cw ?b ?m row" if "row \<in> set rows" for row
    using c(3) that by (auto simp: list_all2_conv_all_nth in_set_conv_nth holds_block_def)
  have len: "length r0 = ?m" "\<forall>row \<in> set rows. length row = length r0"
    using cw_length [OF c(2)] cw_length [OF cwr] by auto
  define full where "full = fold add_scaled (zip rows blinds) r0"
  have full: "cw ?b ?m full"
    unfolding full_def
  proof (rule fold_invariant [where Q = "cw ?b ?m"])
    show "cw ?b ?m r0" by (rule c(2))
  next
    fix rb x assume rb: "rb \<in> set (zip rows blinds)" and x: "cw ?b ?m x"
    obtain row b where "rb = (row, b)" by fastforce
    with rb have "cw ?b ?m row" by (auto intro!: cwr dest: set_zip_leftD)
    with x show "cw ?b ?m (add_scaled rb x)"
      by (simp add: \<open>rb = (row, b)\<close> add_scaled_def cw_add_scaled)
  qed
  have bm: "0 < ?b" "?b \<le> ?m" using p by linarith+
  have part: "low_degree_part L contents blinds = Inr (take ?b full)"
    using c(1) len bm
    by (simp add: low_degree_part_def low_degree_test_row_def first_witness_row_def slice_res_prefix
        full_def take_add_scaled_fold)
  have lf: "length full = ?m" using full by (rule cw_length)
  have "check_low_degree F L pf blinds indices = Inr ()"
    if i: "indices_ok L indices" and pf: "lp_tableau_columns pf = map (sel (opened L indices)) contents"
      "lp_low_degree_test_proof pf = take ?b full" for indices pf
  proof -
    have "fits (opened L indices) r0" using opened_fits [OF i len(1)] .
    note s = sel_add_scaled_fold [OF len(2) this, of blinds]
    with pf c(1) gather_opened [OF i lf] extend_codeword [OF bm p(8) full] show ?thesis
      by (simp add: check_low_degree_def low_degree_test_row_def first_witness_row_def full_def)
  qed
  with part lf show ?thesis by auto
qed

text \<open>The linear test.\<close>

definition extended_products :: "tableau_layout \<Rightarrow> 'a list \<Rightarrow> 'a list \<Rightarrow> bool" where
  "extended_products L products a \<longleftrightarrow>
     length products = tl_witnesses_per_row L \<and>
     fo_extend F (tl_block_size L) (tl_num_columns L) (replicate (num_requested_columns L) 0 @ products) = Inr a \<and>
     cw (tl_block_size L) (tl_num_columns L) a \<and> middle L a = products"

lemma extend_products:
  assumes "parameters_ok ok (tl_parameters L)" "\<forall>c \<in> set chs. length c = tl_witnesses_per_row L"
  shows "\<exists>as. list_all2 (extended_products L) chs as"
  using assms(2)
proof (induction chs)
  case (Cons c chs)
  then obtain as where "list_all2 (extended_products L) chs as" by auto
  moreover obtain a where "fo_extend F (tl_block_size L) (tl_num_columns L)
      (replicate (num_requested_columns L) 0 @ c) = Inr a" "holds_block L a c"
    using extend_block [OF assms(1), of c "replicate (num_requested_columns L) 0"] Cons.prems by auto
  then have "extended_products L c a"
    using Cons.prems by (simp add: extended_products_def holds_block_def middle_def)
  ultimately show ?case by blast
qed (auto intro: exI [of _ "[]"])

lemma dot_steps:
  assumes "parameters_ok ok (tl_parameters L)" "list_all2 (extended_products L) chs as"
    and "\<forall>row \<in> set rows. length row = tl_num_columns L" "length d = tl_num_columns L"
  shows "fold_res (dot_step F L) (zip chs rows) (take (dblock L) d) =
    Inr (take (dblock L) (sum_products (zip as rows) d))"
  using assms(2-4)
proof (induction arbitrary: rows d rule: list_all2_induct)
  case (Cons c cs a as)
  note p = parameters_okD [OF assms(1)]
  show ?case
  proof (cases rows)
    case (Cons row rows')
    have a: "length c = tl_witnesses_per_row L" "length a = tl_num_columns L"
      "fo_extend F (tl_block_size L) (tl_num_columns L) (replicate (num_requested_columns L) 0 @ c) = Inr a"
      using Cons.hyps(1) by (auto simp: extended_products_def dest: cw_length)
    have "fo_extend F (tl_block_size L) (dblock L) (replicate (num_requested_columns L) 0 @ c) = Inr (take (dblock L) a)"
      by (rule extend_shorter [OF _ p(5) _ p(8,9) a(3)]) (use p a in simp_all)
    then have "dot_step F L (c, row) (take (dblock L) d) = Inr (take (dblock L) (add_product a row d))"
      using a Cons Cons.prems p by (simp add: dot_step_def take_add_product)
    then show ?thesis
      using Cons.IH [of rows' "add_product a row d"] Cons Cons.prems by simp
  qed simp
qed simp

lemma dot_check_steps:
  assumes "indices_ok L indices" "list_all2 (extended_products L) chs as"
    and "\<forall>row \<in> set rows. length row = tl_num_columns L" "length d = tl_num_columns L"
  shows "fold_res (dot_check_step F L indices) (zip chs (map (sel (opened L indices)) rows)) (sel (opened L indices) d) =
    Inr (sel (opened L indices) (sum_products (zip as rows) d))"
  using assms(2-4)
proof (induction arbitrary: rows d rule: list_all2_induct)
  case (Cons c cs a as)
  show ?case
  proof (cases rows)
    case (Cons row rows')
    have a: "length a = tl_num_columns L"
      "fo_extend F (tl_block_size L) (tl_num_columns L) (replicate (num_requested_columns L) 0 @ c) = Inr a"
      using Cons.hyps(1) by (auto simp: extended_products_def dest: cw_length)
    have "dot_check_step F L indices (c, sel (opened L indices) row) (sel (opened L indices) d) =
        Inr (sel (opened L indices) (add_product a row d))"
      using a Cons Cons.prems opened_fits [OF assms(1), of d]
      by (simp add: dot_check_step_def gather_opened [OF assms(1)] sel_add_product)
    then show ?thesis
      using Cons.IH [of rows' "add_product a row d"] Cons Cons.prems by simp
  qed simp
qed simp

lemma cw_sum_products:
  assumes "\<forall>(a, r) \<in> set ps. cw (tl_block_size L) m a \<and> cw (tl_block_size L) m r" "0 < tl_block_size L"
    and "cw (2 * tl_block_size L - 1) m d"
  shows "cw (2 * tl_block_size L - 1) m (sum_products ps d)"
  using assms
proof (induction ps arbitrary: d)
  case (Cons p ps)
  with cw_add_product [of "tl_block_size L" m d] show ?case by (cases p) (simp add: add_product_def)
qed simp

lemma dot_complete:
  assumes "parameters_ok ok (tl_parameters L)" "tableau_wf L ws qcs contents"
    and "length ipv = num_constraint_rows L * tl_witnesses_per_row L"
  shows "\<exists>p. dot_part F L contents ipv = Inr p \<and> length p \<le> tl_num_columns L \<and>
    sum_list (middle L p) = dotp ipv (value_vector L ws qcs) \<and>
    (\<forall>indices pf. indices_ok L indices \<longrightarrow> lp_tableau_columns pf = map (sel (opened L indices)) contents \<longrightarrow>
       lp_dot_proof pf = p \<longrightarrow> check_dot_row F L pf ipv indices = Inr ())"
proof -
  note p = parameters_okD [OF assms(1)]
  let ?b = "tl_block_size L" and ?m = "tl_num_columns L" and ?k = "tl_witnesses_per_row L"
  obtain r0 r1 r2 rows where c: "contents = [r0, r1, r2] @ rows" "cw (dblock L) ?m r1"
    "sum_list (middle L r1) = 0" "list_all2 (holds_block L) rows (value_rows L ws qcs)"
    using assms(2) by (auto simp: tableau_wf_def middle_def)
  have cwr: "cw ?b ?m row" if "row \<in> set rows" for row
    using c(4) that by (auto simp: list_all2_conv_all_nth in_set_conv_nth holds_block_def)
  have len: "length r1 = ?m" "\<forall>row \<in> set rows. length row = ?m"
    using cw_length [OF c(2)] cw_length [OF cwr] by auto
  have lrows: "length rows = num_constraint_rows L" using list_all2_lengthD [OF c(4)] by simp
  let ?chs = "chunks ?k ipv"
  have chs: "?chs = map (\<lambda>i. take ?k (drop (i * ?k) ipv)) [0..<num_constraint_rows L]"
    by (rule chunks_eq [OF assms(3) p(2)])
  have chk: "length ch = ?k" if "ch \<in> set ?chs" for ch
  proof -
    from that obtain i where i: "i < num_constraint_rows L" "ch = take ?k (drop (i * ?k) ipv)"
      unfolding chs by auto
    have "Suc i * ?k \<le> num_constraint_rows L * ?k" using i(1) by (intro mult_le_mono1) simp
    with i(2) assms(3) show ?thesis by simp
  qed
  then obtain as where as: "list_all2 (extended_products L) ?chs as"
    using extend_products [OF assms(1), of ?chs] by blast
  have las: "length as = num_constraint_rows L" "length ?chs = num_constraint_rows L"
    using list_all2_lengthD [OF as] chs by simp_all
  have cwa: "cw ?b ?m a" if "a \<in> set as" for a
    using as that by (auto simp: list_all2_conv_all_nth in_set_conv_nth extended_products_def)
  define full where "full = sum_products (zip as rows) r1"
  have bm: "0 < ?b" "0 < dblock L" "dblock L \<le> ?m" "num_requested_columns L + ?k \<le> dblock L" using p by linarith+
  have full: "cw (dblock L) ?m full"
    using cw_sum_products [of "zip as rows" L ?m r1] c(2) cwa cwr bm(1)
    by (auto simp: full_def p(4) dest: set_zip_leftD set_zip_rightD)
  have lf: "length full = ?m" using len(1) by (simp add: full_def)
  have part: "dot_part F L contents ipv = Inr (take (dblock L) full)"
    using c(1) len bm dot_steps [OF assms(1) as len(2,1)]
    by (simp add: dot_part_def dot_proof_row_def first_witness_row_def slice_res_prefix full_def)
  have "sum_list (middle L full) = (\<Sum>(a, r)\<leftarrow>zip as rows. dotp (middle L a) (middle L r))"
    unfolding full_def
    using sum_middle_sum_products [of "zip as rows" r1 L] c(3) len cw_length [OF cwa] bm
    by (auto dest: set_zip_leftD set_zip_rightD)
  also have "\<dots> = sum_list (map2 dotp ?chs (value_rows L ws qcs))"
  proof -
    have "map (\<lambda>(a, r). dotp (middle L a) (middle L r)) (zip as rows) = map2 dotp ?chs (value_rows L ws qcs)"
      by (rule nth_equalityI)
        (use las lrows as c(4) in \<open>auto simp: list_all2_conv_all_nth extended_products_def holds_block_def middle_def\<close>)
    then show ?thesis by simp
  qed
  also have "\<dots> = dotp (concat ?chs) (concat (value_rows L ws qcs))"
    by (rule dotp_concat [symmetric])
      (use las chk value_rows_width [OF nth_mem, of _ L ws qcs] in \<open>auto simp: list_all2_conv_all_nth\<close>)
  also have "concat ?chs = ipv"
  proof (rule nth_equalityI)
    show "length (concat ?chs) = length ipv"
      using length_concat_same [of ?chs ?k] chk las assms(3) by simp
    fix i assume "i < length (concat ?chs)"
    then have i: "i < num_constraint_rows L * ?k" using length_concat_same [of ?chs ?k] chk las by simp
    note d = div_less_rows [OF i]
    have "concat ?chs ! (i div ?k * ?k + i mod ?k) = ?chs ! (i div ?k) ! (i mod ?k)"
      using chk las d by (intro nth_concat_same) auto
    also have "\<dots> = ipv ! (i div ?k * ?k + i mod ?k)"
      using d(1,2) assms(3) i by (simp add: chs)
    finally show "concat ?chs ! i = ipv ! i" by simp
  qed
  finally have "sum_list (middle L (take (dblock L) full)) = dotp ipv (value_vector L ws qcs)"
    using middle_of_prefix [OF bm(4), of full] by (simp add: middle_def value_vector_def)
  moreover have "check_dot_row F L pf ipv indices = Inr ()"
    if i: "indices_ok L indices" and pf: "lp_tableau_columns pf = map (sel (opened L indices)) contents"
      "lp_dot_proof pf = take (dblock L) full" for indices pf
    using pf c(1) dot_check_steps [OF i as len(2,1)] gather_opened [OF i lf]
      extend_codeword [OF bm(2,3) p(8) full]
    by (simp add: check_dot_row_def dot_proof_row_def first_witness_row_def slice_res_def full_def)
  ultimately show ?thesis using part lf by auto
qed

text \<open>The quadratic test.\<close>

definition quadratic_fun :: "tableau_layout \<Rightarrow> 'a list list \<Rightarrow> nat \<times> 'a \<Rightarrow> 'a list \<Rightarrow> 'a list" where
  "quadratic_fun L contents ic q =
     (let x = first_quadratic_constraint_row L + fst ic; T = num_quadratic_triples L in
      add_quadratic (snd ic) (contents ! x) (contents ! (x + T)) (contents ! (x + T + T)) q)"

lemma length_quadratic_fun [simp]: "length (quadratic_fun L contents ic q) = length q"
  by (simp add: quadratic_fun_def Let_def)

lemma quadratic_steps:
  assumes "length contents = num_rows L" "length blinds = num_quadratic_triples L"
  shows "fold_res (quadratic_step L contents) (enumerate 0 blinds) q =
    Inr (fold (quadratic_fun L contents) (enumerate 0 blinds) q)"
proof (rule fold_res_Inr_fold)
  fix ic q assume "ic \<in> set (enumerate 0 blinds)"
  then have "fst ic < num_quadratic_triples L" using assms(2) by (auto simp: in_set_enumerate_eq)
  then show "quadratic_step L contents ic q = Inr (quadratic_fun L contents ic q)"
    using assms(1)
    by (simp add: quadratic_step_def quadratic_fun_def Let_def split_beta num_rows_def first_quadratic_constraint_row_def
        num_quadratic_rows_def ac_simps)
qed

lemma quadratic_rows_of_values:
  assumes "list_all2 (holds_block L) rows (value_rows L ws qcs)" "i < num_quadratic_triples L"
    and "contents = [r0, r1, r2] @ rows" "\<forall>q \<in> set qcs. quadratic_constraint_holds (nth ws) q"
  defines "x \<equiv> first_quadratic_constraint_row L + i" and "T \<equiv> num_quadratic_triples L"
  shows "cw (tl_block_size L) (tl_num_columns L) (contents ! x)"
    "cw (tl_block_size L) (tl_num_columns L) (contents ! (x + T))"
    "cw (tl_block_size L) (tl_num_columns L) (contents ! (x + T + T))"
    "j < tl_witnesses_per_row L \<Longrightarrow>
       middle L (contents ! (x + T + T)) ! j = middle L (contents ! x) ! j * middle L (contents ! (x + T)) ! j"
proof -
  let ?N = "num_linear_constraint_rows L" and ?k = "tl_witnesses_per_row L"
  have len: "length rows = num_constraint_rows L" using list_all2_lengthD [OF assms(1)] by simp
  have h: "holds_block L (contents ! (3 + r)) (value_rows L ws qcs ! r)" if "r < num_constraint_rows L" for r
    using list_all2_nthD [OF assms(1), of r] that len by (simp add: assms(3) numeral_3_eq_3)
  have r: "?N + i < num_constraint_rows L" "?N + T + i < num_constraint_rows L" "?N + T + T + i < num_constraint_rows L"
    using assms(2) by (simp_all add: T_def num_constraint_rows_def num_quadratic_rows_def)
  have x: "x = 3 + (?N + i)" "x + T = 3 + (?N + T + i)" "x + T + T = 3 + (?N + T + T + i)"
    by (simp_all add: x_def first_quadratic_constraint_row_def first_witness_row_def)
  have v: "value_rows L ws qcs ! (?N + i) = padded_chunk ?k i (map (\<lambda>q. ws ! qc_x q) qcs)"
    "value_rows L ws qcs ! (?N + T + i) = padded_chunk ?k i (map (\<lambda>q. ws ! qc_y q) qcs)"
    "value_rows L ws qcs ! (?N + T + T + i) = padded_chunk ?k i (map (\<lambda>q. ws ! qc_z q) qcs)"
    using assms(2) by (simp_all add: value_rows_def Let_def T_def nth_append)
  show "cw (tl_block_size L) (tl_num_columns L) (contents ! x)"
    "cw (tl_block_size L) (tl_num_columns L) (contents ! (x + T))"
    "cw (tl_block_size L) (tl_num_columns L) (contents ! (x + T + T))"
    using h [OF r(1), folded x(1)] h [OF r(2), folded x(2)] h [OF r(3), folded x(3)]
    unfolding holds_block_def by blast+
  have m: "middle L (contents ! x) = padded_chunk ?k i (map (\<lambda>q. ws ! qc_x q) qcs)"
    "middle L (contents ! (x + T)) = padded_chunk ?k i (map (\<lambda>q. ws ! qc_y q) qcs)"
    "middle L (contents ! (x + T + T)) = padded_chunk ?k i (map (\<lambda>q. ws ! qc_z q) qcs)"
    using h [OF r(1), folded x(1)] h [OF r(2), folded x(2)] h [OF r(3), folded x(3)]
    unfolding holds_block_def middle_def v by blast+
  assume j: "j < ?k"
  show "middle L (contents ! (x + T + T)) ! j = middle L (contents ! x) ! j * middle L (contents ! (x + T)) ! j"
  proof (cases "i * ?k + j < length qcs")
    case True
    then have "qcs ! (i * ?k + j) \<in> set qcs" by simp
    with assms(4) have "quadratic_constraint_holds (nth ws) (qcs ! (i * ?k + j))" by blast
    with True j show ?thesis by (simp add: m nth_padded_chunk quadratic_constraint_holds_def)
  next
    case False
    with j show ?thesis by (simp add: m nth_padded_chunk)
  qed
qed

lemma middle_add_quadratic:
  fixes x y z q :: "'a list"
  assumes "length x = length q" "length y = length q" "length z = length q"
    and "num_requested_columns L + tl_witnesses_per_row L \<le> length q"
    and "middle L q = replicate (tl_witnesses_per_row L) 0"
    and "\<And>j. j < tl_witnesses_per_row L \<Longrightarrow> middle L z ! j = middle L x ! j * middle L y ! j"
  shows "middle L (add_quadratic c x y z q) = replicate (tl_witnesses_per_row L) 0"
proof (rule nth_equalityI)
  show "length (middle L (add_quadratic c x y z q)) = length (replicate (tl_witnesses_per_row L) (0 :: 'a))"
    using assms(4) by (simp add: middle_def)
  fix j assume "j < length (middle L (add_quadratic c x y z q))"
  then have j: "j < tl_witnesses_per_row L" by (simp add: middle_def)
  have m: "middle L xs ! j = xs ! (num_requested_columns L + j)" if "length xs = length q" for xs :: "'a list"
    using j that assms(4) by (simp add: middle_def)
  have "middle L q ! j = 0" using assms(5) j by simp
  then show "middle L (add_quadratic c x y z q) ! j = replicate (tl_witnesses_per_row L) 0 ! j"
    using assms(6) [OF j] assms(1-4) j by (simp add: m add_quadratic_def nth_zip_update)
qed

lemma stitch:
  assumes "middle L q = replicate (tl_witnesses_per_row L) 0" "length q = dblock L"
    and "num_requested_columns L + tl_witnesses_per_row L = tl_block_size L" "tl_block_size L \<le> dblock L"
  shows "resize (tl_block_size L) 0 (take (num_requested_columns L) q) @ drop (tl_block_size L) q = q"
proof -
  have "resize (tl_block_size L) 0 (take (num_requested_columns L) q) = take (num_requested_columns L) q @ middle L q"
    using assms by (simp add: resize_def min_def flip: assms(3))
  also have "\<dots> = take (tl_block_size L) q"
    using take_add [of "num_requested_columns L" "tl_witnesses_per_row L" q] assms(3) by (simp add: middle_def)
  finally show ?thesis by simp
qed

lemma quadratic_complete:
  assumes "parameters_ok ok (tl_parameters L)" "tableau_wf L ws qcs contents"
    and "\<forall>q \<in> set qcs. quadratic_constraint_holds (nth ws) q" "length blinds = num_quadratic_triples L"
  shows "\<exists>low high. quadratic_part L contents blinds = Inr (low, high) \<and>
    length low \<le> tl_num_columns L \<and> length high \<le> tl_num_columns L \<and>
    (\<forall>indices pf. indices_ok L indices \<longrightarrow> lp_tableau_columns pf = map (sel (opened L indices)) contents \<longrightarrow>
       lp_quadratic_proof pf = (low, high) \<longrightarrow> check_quadratic F L pf blinds indices = Inr ())"
proof -
  note p = parameters_okD [OF assms(1)]
  let ?b = "tl_block_size L" and ?m = "tl_num_columns L" and ?k = "tl_witnesses_per_row L"
  let ?D = "dblock L" and ?q = "num_requested_columns L" and ?T = "num_quadratic_triples L"
  obtain r0 r1 r2 rows where c: "contents = [r0, r1, r2] @ rows" "cw ?D ?m r2"
    "middle L r2 = replicate ?k 0" "list_all2 (holds_block L) rows (value_rows L ws qcs)"
    using assms(2) by (auto simp: tableau_wf_def middle_def)
  note tw = tableau_wf_row [OF assms(1,2)]
  note qr = quadratic_rows_of_values [OF c(4) _ c(1) assms(3)]
  have ics: "fst ic < ?T" if "ic \<in> set (enumerate 0 blinds)" for ic
    using that assms(4) by (auto simp: in_set_enumerate_eq)
  have bm: "0 < ?b" "0 < ?D" "?D \<le> ?m" "?q + ?k \<le> ?D" "?q + ?k \<le> ?m" using p by linarith+
  define full where "full = fold (quadratic_fun L contents) (enumerate 0 blinds) r2"
  have inv: "cw ?D ?m full \<and> middle L full = replicate ?k 0"
    unfolding full_def
  proof (rule fold_invariant [where Q = "\<lambda>q. cw ?D ?m q \<and> middle L q = replicate ?k 0"])
    show "cw ?D ?m r2 \<and> middle L r2 = replicate ?k 0" using c by blast
    fix ic x assume ic: "ic \<in> set (enumerate 0 blinds)" and x: "cw ?D ?m x \<and> middle L x = replicate ?k 0"
    note r = qr [OF ics [OF ic]]
    have "cw ?D ?m (quadratic_fun L contents ic x)"
      using x r(1-3) bm(1) unfolding quadratic_fun_def add_quadratic_def Let_def p(4)
      by (intro cw_add_quadratic) auto
    moreover have "middle L (quadratic_fun L contents ic x) = replicate ?k 0"
      unfolding quadratic_fun_def Let_def
      by (rule middle_add_quadratic)
        (use x r bm cw_length [OF r(1)] cw_length [OF r(2)] cw_length [OF r(3)] cw_length [OF conjunct1 [OF x]] in simp_all)
    ultimately show "cw ?D ?m (quadratic_fun L contents ic x) \<and> middle L (quadratic_fun L contents ic x) = replicate ?k 0" ..
  qed
  then have lf: "length full = ?m" by (blast dest: cw_length)
  have lr2: "length r2 = ?m" by (rule cw_length [OF c(2)])
  have rowlen: "length (contents ! r) = ?m" if "r < num_rows L" for r using tw that by simp
  have rr: "first_quadratic_constraint_row L + fst ic < num_rows L"
    "first_quadratic_constraint_row L + fst ic + ?T < num_rows L"
    "first_quadratic_constraint_row L + fst ic + ?T + ?T < num_rows L" if "ic \<in> set (enumerate 0 blinds)" for ic
    using ics [OF that] by (simp_all add: num_rows_def first_quadratic_constraint_row_def num_quadratic_rows_def)
  have tk: "sel [0..<?D] full = fold (quadratic_fun L contents) (enumerate 0 blinds) (sel [0..<?D] r2) \<and> length full = ?m"
    unfolding full_def
  proof (rule sel_fold [OF _ lr2])
    fix ic and xs :: "'a list" assume ic: "ic \<in> set (enumerate 0 blinds)" and xs: "length xs = ?m"
    show "length (quadratic_fun L contents ic xs) = ?m \<and>
        sel [0..<?D] (quadratic_fun L contents ic xs) = quadratic_fun L contents ic (sel [0..<?D] xs)"
      using xs rowlen [OF rr(1) [OF ic]] rowlen [OF rr(2) [OF ic]] rowlen [OF rr(3) [OF ic]] bm(3)
      by (simp add: sel_take quadratic_fun_def Let_def take_add_quadratic)
  qed
  then have tk: "take ?D full = fold (quadratic_fun L contents) (enumerate 0 blinds) (take ?D r2)"
    using lf lr2 bm(3) by (simp add: sel_take)
  let ?low = "take ?q (take ?D full)" and ?high = "drop ?b (take ?D full)"
  have lt: "length (take ?D full) = ?D" using lf bm by simp
  have mid: "middle L (take ?D full) = replicate ?k 0"
    using inv middle_of_prefix [OF bm(4), of full] by (simp add: middle_def)
  have bq: "?b - ?q = ?k" "?q \<le> ?b" "?b \<le> ?D" "usize_sub ?b ?q = ?k"
    using p by (simp, linarith, linarith) (use p in \<open>subst usize_sub_eq; linarith\<close>)
  have "slice_res (take ?D full) ?q ?b = Inr (middle L (take ?D full))"
    using lt bq by (simp add: slice_res_def middle_def)
  then have part: "quadratic_part L contents blinds = Inr (?low, ?high)"
    using c(1) lr2 bm bq lt tk mid quadratic_steps [OF tw(1) assms(4), of "take ?D r2"]
    by (simp add: quadratic_part_def quadratic_test_row_def slice_res_prefix)
      (simp add: slice_res_def)
  have "check_quadratic F L pf blinds indices = Inr ()"
    if i: "indices_ok L indices" and pf: "lp_tableau_columns pf = map (sel (opened L indices)) contents"
      "lp_quadratic_proof pf = (?low, ?high)" for indices pf
  proof -
    have sl: "sel (opened L indices) full = fold (quadratic_fun L (map (sel (opened L indices)) contents)) (enumerate 0 blinds) (sel (opened L indices) r2) \<and> length full = ?m"
      unfolding full_def
    proof (rule sel_fold [OF _ lr2])
      fix ic and xs :: "'a list" assume ic: "ic \<in> set (enumerate 0 blinds)" and xs: "length xs = ?m"
      show "length (quadratic_fun L contents ic xs) = ?m \<and>
          sel (opened L indices) (quadratic_fun L contents ic xs) = quadratic_fun L (map (sel (opened L indices)) contents) ic (sel (opened L indices) xs)"
        using xs rowlen [OF rr(1) [OF ic]] rowlen [OF rr(2) [OF ic]] rowlen [OF rr(3) [OF ic]]
          opened_fits [OF i xs] rr [OF ic] tw(1)
        by (simp add: quadratic_fun_def Let_def sel_add_quadratic)
    qed
    have "stitched_quadratic_proof L pf = Inr (take ?D full)"
      using pf(2) stitch [OF mid lt p(3,5)] lt by (simp add: stitched_quadratic_proof_def Let_def)
    moreover have "fo_extend F ?D ?m (take ?D full) = Inr full"
      using inv by (intro extend_codeword [OF bm(2,3) p(8)]) blast
    moreover have "fold_res (quadratic_step L (lp_tableau_columns pf)) (enumerate 0 blinds) (sel (opened L indices) r2) = Inr (sel (opened L indices) full)"
      using quadratic_steps [OF _ assms(4), of "lp_tableau_columns pf" "sel (opened L indices) r2"] tw(1) pf(1) sl by simp
    ultimately show ?thesis
      using gather_opened [OF i lf] c(1) pf(1)
      by (simp add: check_quadratic_def quadratic_test_row_def)
  qed
  with part lf show ?thesis by auto
qed

end

end
