(* ===== verification/Sumcheck.thy ===== *)
theory Sumcheck
  imports Constraints
begin

text \<open>
  The padded sumcheck protocol of \<open>src/src/sumcheck/mod.rs\<close>. As in the source one function,
  \<open>run_protocol\<close>, serves both sides: a \<open>protocol_role\<close> decides whether a round's polynomial
  is computed from the wires (and recorded in the proof) or read from the proof. The loop bodies
  are \<open>run_round\<close> (a round of one hand) and \<open>run_layer\<close>, folds over them are the loops, and
  \<open>final_constraint\<close> is what follows them. The scratch buffer of the prover is overwritten by
  \<open>compute_a\<close> before every use and is not part of the state.
\<close>

subsection \<open>Proofs\<close>

record 'a proof_layer =
  pl_polynomials :: "('a polynomial \<times> 'a polynomial) list"
  pl_vl :: 'a
  pl_vr :: 'a

record 'a sumcheck_proof =
  sp_layers :: "'a proof_layer list"

fun set_hand :: "hand \<Rightarrow> 'b \<Rightarrow> 'b \<times> 'b \<Rightarrow> 'b \<times> 'b" where
  "set_hand HLeft x p = (x, snd p)"
| "set_hand HRight x p = (fst p, x)"

lemma hand_of_set_hand [simp]:
  "hand_of h (set_hand h' x p) = (if h = h' then x else hand_of h p)"
  by (cases h; cases h') simp_all

definition proof_polynomial :: "'a sumcheck_proof \<Rightarrow> nat \<Rightarrow> nat \<Rightarrow> hand \<Rightarrow> 'a polynomial res" where
  "proof_polynomial pf layer_index round hand =
     and_then (nth_res (sp_layers pf) layer_index) (\<lambda>pl.
     and_then (nth_res (pl_polynomials pl) round) (\<lambda>polys. Inr (hand_of hand polys)))"

definition set_proof_polynomial ::
  "nat \<Rightarrow> nat \<Rightarrow> hand \<Rightarrow> 'a polynomial \<Rightarrow> 'a sumcheck_proof \<Rightarrow> 'a sumcheck_proof res" where
  "set_proof_polynomial layer_index round hand poly pf =
     and_then (nth_res (sp_layers pf) layer_index) (\<lambda>pl.
     and_then (nth_res (pl_polynomials pl) round) (\<lambda>polys.
     and_then (upd_res (pl_polynomials pl) round (set_hand hand poly polys)) (\<lambda>ps.
     and_then (upd_res (sp_layers pf) layer_index (pl\<lparr>pl_polynomials := ps\<rparr>)) (\<lambda>layers.
       Inr (pf\<lparr>sp_layers := layers\<rparr>)))))"

definition set_proof_claims ::
  "nat \<Rightarrow> 'a \<Rightarrow> 'a \<Rightarrow> 'a sumcheck_proof \<Rightarrow> 'a sumcheck_proof res" where
  "set_proof_claims layer_index vl vr pf =
     and_then (nth_res (sp_layers pf) layer_index) (\<lambda>pl.
     and_then (upd_res (sp_layers pf) layer_index (pl\<lparr>pl_vl := vl, pl_vr := vr\<rparr>)) (\<lambda>layers.
       Inr (pf\<lparr>sp_layers := layers\<rparr>)))"

text \<open>The zeroes the prover starts from.\<close>

definition empty_proof :: "'a :: zero circuit \<Rightarrow> 'a sumcheck_proof" where
  "empty_proof circuit =
     \<lparr>sp_layers = map (\<lambda>layer.
        \<lparr>pl_polynomials = replicate (unat (layer_logw layer)) (\<lparr>p0 = 0, p2 = 0\<rparr>, \<lparr>p0 = 0, p2 = 0\<rparr>),
         pl_vl = 0, pl_vr = 0\<rparr>) (c_layers circuit)\<rparr>"

subsection \<open>Initialising the transcript\<close>

definition initialize_transcript ::
  "'a :: comm_ring_1 field_ops \<Rightarrow> 'a circuit \<Rightarrow> 'a list \<Rightarrow> transcript \<Rightarrow> transcript res" where
  "initialize_transcript F circuit public_inputs t =
     and_then (write_byte_array (c_id circuit) t) (\<lambda>t.
       write_zero_array (num_quads circuit)
         (write_field_element F 0 (fold (write_field_element F) public_inputs t)))"

subsection \<open>The two roles\<close>

record 'a prover_state =
  pr_evaluation :: "'a evaluation"
  pr_witness :: "'a witness"
  pr_proof :: "'a sumcheck_proof"
  pr_wires :: "('a list \<times> 'a list) list"

datatype 'a protocol_role =
    Prover "'a prover_state"
  | Verifier "'a list" "'a sumcheck_proof"

text \<open>\<open>SUM_l bind(A, at)[l] * bind(V, at)[l]\<close>, with \<open>A\<close> already summed over the other hand.\<close>

definition evaluate_polynomial ::
  "'a :: comm_ring_1 field_ops \<Rightarrow> 'a list \<Rightarrow> 'a list \<Rightarrow> 'a binding \<Rightarrow> 'a res" where
  "evaluate_polynomial F a wires at =
     and_then (bind_iter F a at) (\<lambda>elements.
       Inr (fold (\<lambda>(index, e) acc. acc + e * bound_element_at F wires at index)
              (enumerate 0 elements) 0))"

definition prover_polynomial ::
  "'a :: comm_ring_1 field_ops \<Rightarrow> 'a witness \<Rightarrow> 'a list \<times> 'a list \<Rightarrow> 'a sparse_quad list
   \<Rightarrow> nat \<Rightarrow> nat \<Rightarrow> hand \<Rightarrow> 'a polynomial res" where
  "prover_polynomial F w wires quad layer_index round hand =
     and_then (compute_a hand wires quad) (\<lambda>a.
     and_then (polynomial_witnesses w layer_index round (hand_index hand)) (\<lambda>pad.
     and_then (evaluate_polynomial F a (hand_of hand wires) BindZero) (\<lambda>e0.
     and_then (evaluate_polynomial F a (hand_of hand wires) BindSumcheckP2) (\<lambda>e2.
       Inr \<lparr>p0 = e0 - p0 pad, p2 = e2 - p2 pad\<rparr>))))"

fun role_polynomial ::
  "'a :: comm_ring_1 field_ops \<Rightarrow> 'a sparse_quad list \<Rightarrow> nat \<Rightarrow> nat \<Rightarrow> hand \<Rightarrow> 'a protocol_role
   \<Rightarrow> ('a polynomial \<times> 'a protocol_role) res" where
  "role_polynomial F quad layer_index round hand (Prover pr) =
     and_then (nth_res (pr_wires pr) (layer_index + 1)) (\<lambda>wires.
     and_then (prover_polynomial F (pr_witness pr) wires quad layer_index round hand) (\<lambda>poly.
     and_then (set_proof_polynomial layer_index round hand poly (pr_proof pr)) (\<lambda>pf.
       Inr (poly, Prover (pr\<lparr>pr_proof := pf\<rparr>)))))"
| "role_polynomial F quad layer_index round hand (Verifier public_inputs pf) =
     and_then (proof_polynomial pf layer_index round hand) (\<lambda>poly.
       Inr (poly, Verifier public_inputs pf))"

fun role_bind ::
  "'a :: comm_ring_1 field_ops \<Rightarrow> nat \<Rightarrow> hand \<Rightarrow> 'a \<Rightarrow> 'a protocol_role \<Rightarrow> 'a protocol_role res" where
  "role_bind F layer_index hand challenge (Prover pr) =
     and_then (nth_res (pr_wires pr) (layer_index + 1)) (\<lambda>wires.
     and_then (bind_array F (hand_of hand wires) (BindOther challenge)) (\<lambda>bound.
     and_then (upd_res (pr_wires pr) (layer_index + 1) (set_hand hand bound wires)) (\<lambda>all_wires.
       Inr (Prover (pr\<lparr>pr_wires := all_wires\<rparr>)))))"
| "role_bind F layer_index hand challenge (Verifier public_inputs pf) =
     Inr (Verifier public_inputs pf)"

text \<open>The layer's claims: the fully bound wires less their pads, or what the proof says.\<close>

fun role_claims ::
  "nat \<Rightarrow> 'a :: comm_ring_1 protocol_role \<Rightarrow> (('a \<times> 'a) \<times> 'a protocol_role) res" where
  "role_claims layer_index (Prover pr) =
     and_then (nth_res (pr_wires pr) (layer_index + 1)) (\<lambda>wires.
     and_then (ensure (list_all (\<lambda>(l, r). l = 0 \<and> r = 0) (drop 1 (zip (fst wires) (snd wires))))
       (Panic ''bound wires should have been reduced to a single element'')) (\<lambda>_.
     and_then (wire_witnesses (pr_witness pr) layer_index) (\<lambda>(vl_pad, vr_pad, _).
     let vl = element (fst wires) 0 - vl_pad; vr = element (snd wires) 0 - vr_pad in
     and_then (set_proof_claims layer_index vl vr (pr_proof pr)) (\<lambda>pf.
       Inr ((vl, vr), Prover (pr\<lparr>pr_proof := pf\<rparr>))))))"
| "role_claims layer_index (Verifier public_inputs pf) =
     and_then (nth_res (sp_layers pf) layer_index) (\<lambda>pl.
       Inr ((pl_vl pl, pl_vr pl), Verifier public_inputs pf))"

subsection \<open>One round\<close>

record 'a round_state =
  rs_role :: "'a protocol_role"
  rs_transcript :: transcript
  rs_quad :: "'a sparse_quad list"
  rs_bindings :: "'a list \<times> 'a list"
  rs_claim :: "'a symbolic_expression"

text \<open>\<open>transcript.generate_challenge(1)?[0]\<close>\<close>

definition one_challenge ::
  "crypto \<Rightarrow> 'a field_ops \<Rightarrow> transcript \<Rightarrow> ('a \<times> transcript) res" where
  "one_challenge C F t =
     and_then (generate_challenge C F 1 t) (\<lambda>(xs, t). and_then (nth_res xs 0) (\<lambda>x. Inr (x, t)))"

text \<open>\<open>claim = prev * lag_1 + p0 * (lag_0 - lag_1) + p2 * lag_2\<close>, with the pads symbolic.\<close>

definition next_claim ::
  "'a :: comm_ring_1 field_ops \<Rightarrow> nat \<times> nat \<Rightarrow> 'a polynomial \<Rightarrow> 'a
   \<Rightarrow> 'a symbolic_expression \<Rightarrow> 'a symbolic_expression" where
  "next_claim F indices poly challenge claim =
     expr_add
       (expr_add (expr_mul claim (lagrange_basis_polynomial_1 F challenge))
          (term_mul (term_add (term_new (fst indices)) (p0 poly))
             (lagrange_basis_polynomial_0 F challenge - lagrange_basis_polynomial_1 F challenge)))
       (term_mul (term_add (term_new (snd indices)) (p2 poly))
          (lagrange_basis_polynomial_2 F challenge))"

definition run_round ::
  "crypto \<Rightarrow> 'a :: comm_ring_1 field_ops \<Rightarrow> witness_layout \<Rightarrow> nat \<Rightarrow> nat \<times> hand
   \<Rightarrow> 'a round_state \<Rightarrow> 'a round_state res" where
  "run_round C F layout layer_index round_hand rs =
     (let (round, hand) = round_hand in
      and_then (role_polynomial F (rs_quad rs) layer_index round hand (rs_role rs)) (\<lambda>(poly, role).
      and_then (one_challenge C F (write_polynomial F poly (rs_transcript rs))) (\<lambda>(challenge, t).
      and_then (upd_res (hand_of hand (rs_bindings rs)) round challenge) (\<lambda>b.
      and_then (role_bind F layer_index hand challenge role) (\<lambda>role.
      and_then (bind_hand hand challenge (rs_quad rs)) (\<lambda>quad.
      and_then (polynomial_witness_indices layout layer_index round (hand_index hand)) (\<lambda>indices.
        Inr \<lparr>rs_role = role, rs_transcript = t, rs_quad = quad,
             rs_bindings = set_hand hand b (rs_bindings rs),
             rs_claim = next_claim F indices poly challenge (rs_claim rs)\<rparr>)))))))"

fun rounds_upto :: "nat \<Rightarrow> (nat \<times> hand) list" where
  "rounds_upto 0 = []"
| "rounds_upto (Suc n) = rounds_upto n @ [(n, HLeft), (n, HRight)]"

subsection \<open>One layer\<close>

record 'a protocol_state =
  ps_role :: "'a protocol_role"
  ps_transcript :: transcript
  ps_bindings :: "'a list \<times> 'a list"
  ps_claims :: "'a \<times> 'a"
  ps_constraints :: "'a linear_constraints"

text \<open>The claim of a layer starts as \<open>claims[0] + alpha * claims[1]\<close>, plus the pads.\<close>

definition initial_claim ::
  "witness_layout \<Rightarrow> nat \<Rightarrow> 'a :: comm_ring_1 \<times> 'a \<Rightarrow> 'a \<Rightarrow> 'a symbolic_expression res" where
  "initial_claim layout layer_index claims alpha =
     (let claim_0 = term_from_known (fst claims);
          claim_1 = term_mul (term_from_known (snd claims)) alpha
      in and_then
           (if layer_index > 0 then
              and_then (wire_witness_indices layout (layer_index - 1)) (\<lambda>(vl, vr, _).
                Inr (term_with_witness vl claim_0, term_with_witness vr claim_1))
            else Inr (claim_0, claim_1))
           (\<lambda>(claim_0, claim_1). Inr (expr_add (expr_add (expr_new layer_index) claim_0) claim_1)))"

definition single_quad :: "'a sparse_quad list \<Rightarrow> 'a res" where
  "single_quad quad =
     (case quad of
        [q] \<Rightarrow>
          if sq_gate_index q = 0 \<and> sq_left_wire_index q = 0 \<and> sq_right_wire_index q = 0
          then Inr (sq_coefficient q) else Inl (Panic ''bound quad is not at the origin'')
      | _ \<Rightarrow> Inl (Panic ''bound quad should have been reduced to a single element''))"

definition final_layer_claim ::
  "nat \<times> nat \<times> nat \<Rightarrow> 'a :: comm_ring_1 \<Rightarrow> 'a \<times> 'a \<Rightarrow> 'a symbolic_expression \<Rightarrow> 'a symbolic_expression"
where
  "final_layer_claim indices bound_element claims claim =
     (let (vl_witness, vr_witness, vl_vr_witness) = indices in
      expr_add (expr_add (expr_add claim
        (term_mul (term_mul (term_new vl_witness) (- bound_element)) (snd claims)))
        (term_mul (term_mul (term_new vr_witness) (- bound_element)) (fst claims)))
        (term_mul (term_new vl_vr_witness) (- bound_element)))"

definition add_constraint ::
  "'a symbolic_expression \<Rightarrow> 'a \<Rightarrow> 'a linear_constraints \<Rightarrow> 'a linear_constraints" where
  "add_constraint e rhs lc =
     lc\<lparr>lc_lhs_terms := lc_lhs_terms lc @ expr_lhs_terms e, lc_rhs := lc_rhs lc @ [rhs]\<rparr>"

definition run_layer ::
  "crypto \<Rightarrow> 'a :: comm_ring_1 field_ops \<Rightarrow> 'a circuit \<Rightarrow> witness_layout \<Rightarrow> nat \<times> circuit_layer
   \<Rightarrow> 'a protocol_state \<Rightarrow> 'a protocol_state res" where
  "run_layer C F circuit layout indexed ps =
     (let (layer_index, layer) = indexed; logw = unat (layer_logw layer) in
      and_then (one_challenge C F (ps_transcript ps)) (\<lambda>(alpha, t).
      and_then (one_challenge C F t) (\<lambda>(beta, t).
      and_then (combined_quad circuit layer_index beta) (\<lambda>quad.
      and_then (bindv_gate (fst (ps_bindings ps)) (snd (ps_bindings ps)) alpha quad) (\<lambda>quad.
      and_then (initial_claim layout layer_index (ps_claims ps) alpha) (\<lambda>claim.
      and_then (fold_res (run_round C F layout layer_index) (rounds_upto logw)
         \<lparr>rs_role = ps_role ps, rs_transcript = t, rs_quad = quad,
          rs_bindings = (replicate logw 0, replicate logw 0), rs_claim = claim\<rparr>) (\<lambda>rs.
      and_then (single_quad (rs_quad rs)) (\<lambda>bound_element.
      and_then (role_claims layer_index (rs_role rs)) (\<lambda>(claims, role).
      and_then (wire_witness_indices layout layer_index) (\<lambda>indices.
      let layer_claim = final_layer_claim indices bound_element claims (rs_claim rs) in
      and_then (write_field_element_array F [fst claims, snd claims] (rs_transcript rs)) (\<lambda>t.
        Inr \<lparr>ps_role = role, ps_transcript = t, ps_bindings = rs_bindings rs, ps_claims = claims,
             ps_constraints = add_constraint layer_claim
               (bound_element * fst claims * snd claims - se_known layer_claim)
               (ps_constraints ps)\<rparr>)))))))))))"

subsection \<open>The whole protocol\<close>

text \<open>The last constraint ties the final claims to the inputs.\<close>

definition final_constraint ::
  "'a :: comm_ring_1 circuit \<Rightarrow> witness_layout \<Rightarrow> 'a list \<Rightarrow> 'a list \<times> 'a list \<Rightarrow> 'a \<times> 'a \<Rightarrow> 'a
   \<Rightarrow> 'a linear_constraints \<Rightarrow> 'a linear_constraints res" where
  "final_constraint circuit layout public_inputs bindings claims gamma lc =
     (let eq2 = bindeq (fst bindings) (snd bindings) gamma;
          input_layer_index = c_num_layers circuit in
      and_then
        (fold_res (\<lambda>(private_input_index, private_input_witness) e.
           and_then (nth_res eq2 (private_input_index + c_num_public_inputs circuit)) (\<lambda>x.
             Inr (expr_add e (term_mul (term_new private_input_witness) x))))
           (enumerate 0 (private_input_witness_indices layout)) (expr_new input_layer_index))
        (\<lambda>final_claim.
      and_then (wire_witness_indices layout (usize_sub input_layer_index 1)) (\<lambda>(vl, vr, _).
      let final_claim = expr_add (expr_add final_claim
            (term_mul (term_new vl) (- 1))) (term_mul (term_new vr) (- gamma));
          rhs = fst claims + gamma * snd claims
            - fold (\<lambda>(x, e) s. s + x * e) (zip public_inputs eq2) 0
      in Inr (add_constraint final_claim rhs lc))))"

fun role_inputs ::
  "'a circuit \<Rightarrow> 'a protocol_role \<Rightarrow> ('a list \<times> witness_layout) res" where
  "role_inputs circuit (Prover pr) =
     and_then (ev_public_inputs (c_num_public_inputs circuit) (pr_evaluation pr)) (\<lambda>public_inputs.
       Inr (public_inputs, w_layout (pr_witness pr)))"
| "role_inputs circuit (Verifier public_inputs pf) =
     and_then (ensure (length public_inputs = c_num_public_inputs circuit)
       (Fail ''wrong number of inputs'')) (\<lambda>_.
       Inr (public_inputs, layout_from_circuit circuit))"

fun role_result :: "'a protocol_role \<Rightarrow> 'a sumcheck_proof option" where
  "role_result (Prover pr) = Some (pr_proof pr)"
| "role_result (Verifier _ _) = None"

definition run_protocol ::
  "crypto \<Rightarrow> 'a :: comm_ring_1 field_ops \<Rightarrow> 'a circuit \<Rightarrow> transcript \<Rightarrow> 'a protocol_role
   \<Rightarrow> ('a linear_constraints \<times> 'a sumcheck_proof option \<times> transcript) res" where
  "run_protocol C F circuit t role =
     and_then (role_inputs circuit role) (\<lambda>(public_inputs, layout).
     and_then (generate_output_wire_bindings C F circuit t) (\<lambda>(bindings, t).
     and_then (fold_res (run_layer C F circuit layout) (enumerate 0 (c_layers circuit))
        \<lparr>ps_role = role, ps_transcript = t, ps_bindings = (bindings, bindings), ps_claims = (0, 0),
         ps_constraints = \<lparr>lc_lhs_terms = [], lc_rhs = []\<rparr>\<rparr>) (\<lambda>ps.
     and_then (one_challenge C F (ps_transcript ps)) (\<lambda>(gamma, t).
     and_then (final_constraint circuit layout public_inputs (ps_bindings ps) (ps_claims ps) gamma
        (ps_constraints ps)) (\<lambda>lc.
       Inr (lc, role_result (ps_role ps), t))))))"

definition prove_error :: error where
  "prove_error = Panic ''assertion failed: circuit output is not zero''"

definition sumcheck_prove ::
  "crypto \<Rightarrow> 'a :: comm_ring_1 field_ops \<Rightarrow> 'a circuit \<Rightarrow> 'a evaluation \<Rightarrow> 'a witness \<Rightarrow> transcript
   \<Rightarrow> ('a sumcheck_proof \<times> 'a linear_constraints \<times> transcript) res" where
  "sumcheck_prove C F circuit evaluation w t =
     and_then (ev_outputs evaluation) (\<lambda>outputs.
     and_then (ensure (list_all (\<lambda>x. x = 0) outputs) prove_error) (\<lambda>_.
     and_then (ev_inputs evaluation) (\<lambda>inputs.
     and_then (ensure (length inputs = c_num_inputs circuit) (Fail ''wrong number of inputs'')) (\<lambda>_.
     and_then (run_protocol C F circuit t
        (Prover \<lparr>pr_evaluation = evaluation, pr_witness = w, pr_proof = empty_proof circuit,
                 pr_wires = map (\<lambda>layer. (layer, layer)) (ev_wires evaluation)\<rparr>)) (\<lambda>(lc, pf, t).
     and_then (opt_res (Fail ''prover mode failed to compute proof'') pf) (\<lambda>pf.
       Inr (pf, lc, t)))))))"

definition sumcheck_linear_constraints ::
  "crypto \<Rightarrow> 'a :: comm_ring_1 field_ops \<Rightarrow> 'a circuit \<Rightarrow> 'a list \<Rightarrow> 'a sumcheck_proof \<Rightarrow> transcript
   \<Rightarrow> ('a linear_constraints \<times> transcript) res" where
  "sumcheck_linear_constraints C F circuit public_inputs pf t =
     and_then (run_protocol C F circuit t (Verifier public_inputs pf)) (\<lambda>(lc, _, t). Inr (lc, t))"

subsection \<open>Serialization\<close>

definition proof_layer_encode :: "'a field_ops \<Rightarrow> 'a proof_layer \<Rightarrow> bytes res" where
  "proof_layer_encode F pl =
     and_then (map_res (\<lambda>(l, r).
        and_then (fe_encode F (p0 l)) (\<lambda>b1.
        and_then (fe_encode F (p0 r)) (\<lambda>b2.
        and_then (fe_encode F (p2 l)) (\<lambda>b3.
        and_then (fe_encode F (p2 r)) (\<lambda>b4. Inr (b1 @ b2 @ b3 @ b4)))))) (pl_polynomials pl)) (\<lambda>bss.
     and_then (fe_encode F (pl_vl pl)) (\<lambda>b5.
     and_then (fe_encode F (pl_vr pl)) (\<lambda>b6. Inr (concat bss @ b5 @ b6))))"

fun chunks4 :: "'a list \<Rightarrow> ('a polynomial \<times> 'a polynomial) list" where
  "chunks4 (a # b # c # d # xs) = (\<lparr>p0 = a, p2 = c\<rparr>, \<lparr>p0 = b, p2 = d\<rparr>) # chunks4 xs"
| "chunks4 _ = []"

definition proof_layer_decode :: "'a field_ops \<Rightarrow> circuit_layer \<Rightarrow> 'a proof_layer dec" where
  "proof_layer_decode F circuit_layer bs =
     and_then (decode_fixed_array (fe_decode F) (unat (layer_logw circuit_layer) * 4) bs) (\<lambda>(wires, r).
     and_then (fe_decode F r) (\<lambda>(vl, r).
     and_then (fe_decode F r) (\<lambda>(vr, r).
       Inr (\<lparr>pl_polynomials = chunks4 wires, pl_vl = vl, pl_vr = vr\<rparr>, r))))"

definition sumcheck_proof_encode :: "'a field_ops \<Rightarrow> 'a circuit \<Rightarrow> 'a sumcheck_proof \<Rightarrow> bytes res" where
  "sumcheck_proof_encode F circuit pf =
     and_then (map_res (\<lambda>(pl, _). proof_layer_encode F pl) (zip (sp_layers pf) (c_layers circuit)))
       (\<lambda>bss. Inr (concat bss))"

definition sumcheck_proof_decode :: "'a field_ops \<Rightarrow> 'a circuit \<Rightarrow> 'a sumcheck_proof dec" where
  "sumcheck_proof_decode F circuit bs =
     and_then (fold_res (\<lambda>layer (pls, r).
        and_then (proof_layer_decode F layer r) (\<lambda>(pl, r). Inr (pls @ [pl], r)))
        (c_layers circuit) ([], bs)) (\<lambda>(pls, r). Inr (\<lparr>sp_layers = pls\<rparr>, r))"

section \<open>Sumcheck Format\<close>

text \<open>
  The wire format of a sumcheck proof (\<open>ParameterizedCodec\<close> of \<open>SumcheckProof\<close> and
  \<open>ProofLayer\<close> in \<open>src/src/sumcheck/mod.rs\<close>): no length is written, the circuit says how many
  layers and rounds there are, and a proof of that shape is decoded to itself.
\<close>

definition flatten4 :: "('a polynomial \<times> 'a polynomial) list \<Rightarrow> 'a list" where
  "flatten4 ps = concat (map (\<lambda>(l, r). [p0 l, p0 r, p2 l, p2 r]) ps)"

lemma flatten4_simps [simp]:
  "flatten4 [] = []" "flatten4 ((l, r) # ps) = p0 l # p0 r # p2 l # p2 r # flatten4 ps"
  by (simp_all add: flatten4_def)

lemma chunks4_flatten4: "chunks4 (flatten4 ps) = ps"
  by (induction ps) auto

lemma length_flatten4: "length (flatten4 ps) = length ps * 4"
  by (induction ps) auto

lemma flatten4_chunks4: "length xs = n * 4 \<Longrightarrow> flatten4 (chunks4 xs) = xs"
proof (induction xs arbitrary: n rule: chunks4.induct)
  case (1 a b c d xs)
  then show ?case by (cases n) simp_all
qed (auto simp: flatten4_def, presburger+)

lemma length_chunks4: "length (chunks4 xs) = length xs div 4"
  by (induction xs rule: chunks4.induct) auto

lemma encode_flatten4:
  "and_then (map_res (\<lambda>(l, r).
      and_then (fe_encode F (p0 l)) (\<lambda>b1. and_then (fe_encode F (p0 r)) (\<lambda>b2.
      and_then (fe_encode F (p2 l)) (\<lambda>b3. and_then (fe_encode F (p2 r)) (\<lambda>b4.
        Inr (b1 @ b2 @ b3 @ b4)))))) ps) (\<lambda>bss. Inr (concat bss)) =
   encode_fixed_array (fe_encode F) (flatten4 ps)"
proof (induction ps)
  case (Cons lr ps)
  then show ?case
    by (cases lr)
      (auto simp: fe_encode_def and_then_def split: sum.splits)
qed simp

definition layer_shape :: "circuit_layer \<Rightarrow> 'a proof_layer \<Rightarrow> bool" where
  "layer_shape layer pl \<longleftrightarrow> length (pl_polynomials pl) = unat (layer_logw layer)"

definition proof_shape :: "'a circuit \<Rightarrow> 'a sumcheck_proof \<Rightarrow> bool" where
  "proof_shape c pf \<longleftrightarrow> list_all2 layer_shape (c_layers c) (sp_layers pf)"

lemma decode_fixed_array_length:
  "decode_fixed_array dec n bs = Inr (xs, r) \<Longrightarrow> length xs = n"
  by (induction n arbitrary: bs xs) auto

lemma proof_layer_decode_shape:
  "proof_layer_decode F layer bs = Inr (pl, r) \<Longrightarrow> layer_shape layer pl"
  by (auto simp: proof_layer_decode_def layer_shape_def length_chunks4 dest!: decode_fixed_array_length)

context field_codec
begin

lemma proof_layer_encode_flat:
  "proof_layer_encode F pl =
    and_then (encode_fixed_array (fe_encode F) (flatten4 (pl_polynomials pl))) (\<lambda>b.
      Inr (b @ fo_encode F (pl_vl pl) @ fo_encode F (pl_vr pl)))"
  by (simp add: proof_layer_encode_def fe_encode_def flip: encode_flatten4 and_then_assoc)
    (simp add: and_then_assoc fe_encode_def)

lemma proof_layer_codec:
  "codec (proof_layer_encode F) (proof_layer_decode F layer) (layer_shape layer)"
proof
  show "proof_layer_decode F layer (bs @ rest) = Inr (pl, rest)"
    if "layer_shape layer pl" "proof_layer_encode F pl = Inr bs" for pl bs rest
  proof -
    from that(2) [unfolded proof_layer_encode_flat] obtain b where b: "encode_fixed_array (fe_encode F) (flatten4 (pl_polynomials pl)) = Inr b"
      "bs = b @ fo_encode F (pl_vl pl) @ fo_encode F (pl_vr pl)" by auto
    have fe: "fe_decode F (fo_encode F x @ r) = Inr (x, r)" for x r
      by (rule fe.roundtrip) (simp_all add: fe_encode_def)
    have "decode_fixed_array (fe_decode F) (unat (layer_logw layer) * 4) (b @ r) =
        Inr (flatten4 (pl_polynomials pl), r)" for r
      using fe.fixed_array_roundtrip [OF _ b(1)] that(1)
      by (simp add: length_flatten4 layer_shape_def list.pred_True)
    then show ?thesis
      by (simp add: proof_layer_decode_def b(2) fe chunks4_flatten4)
  qed
  show "proof_layer_decode F layer bs = Inr (pl, rest) \<Longrightarrow> \<exists>p. bs = p @ rest" for bs pl rest
    by (auto simp: proof_layer_decode_def dest!: fe.fixed_array_consume fe.consume)
qed

lemma proof_layers_roundtrip:
  assumes "list_all2 layer_shape ls pls"
    and "map_res (\<lambda>(pl, _). proof_layer_encode F pl) (zip pls ls) = Inr bss"
  shows "fold_res (\<lambda>layer (pls, r). and_then (proof_layer_decode F layer r) (\<lambda>(pl, r).
      Inr (pls @ [pl], r))) ls (acc, concat bss @ rest) = Inr (acc @ pls, rest)"
  using assms
proof (induction arbitrary: acc bss rule: list_all2_induct)
  case (Cons l ls pl pls)
  from Cons.prems obtain b bss' where b: "proof_layer_encode F pl = Inr b" "bss = b # bss'"
    "map_res (\<lambda>(pl, _). proof_layer_encode F pl) (zip pls ls) = Inr bss'" by auto
  from codec.roundtrip [OF proof_layer_codec Cons.hyps(1) b(1)] Cons.IH [OF b(3)] b(2)
  show ?case by simp
qed simp

lemma proof_layers_consume:
  "fold_res (\<lambda>layer (pls, r). and_then (proof_layer_decode F layer r) (\<lambda>(pl, r).
      Inr (pls @ [pl], r))) ls (acc, bs) = Inr (out, rest) \<Longrightarrow>
   \<exists>pls p. out = acc @ pls \<and> bs = p @ rest \<and> list_all2 layer_shape ls pls"
proof (induction ls arbitrary: acc bs)
  case (Cons l ls)
  from Cons.prems obtain pl r where pl: "proof_layer_decode F l bs = Inr (pl, r)"
    "fold_res (\<lambda>layer (pls, r). and_then (proof_layer_decode F layer r) (\<lambda>(pl, r).
      Inr (pls @ [pl], r))) ls (acc @ [pl], r) = Inr (out, rest)" by auto
  from Cons.IH [OF pl(2)] obtain pls p where "out = acc @ [pl] @ pls" "r = p @ rest"
    "list_all2 layer_shape ls pls" by auto
  moreover obtain p' where "bs = p' @ r" using codec.consume [OF proof_layer_codec pl(1)] by blast
  ultimately show ?case
    using proof_layer_decode_shape [OF pl(1)]
    by (intro exI [of _ "pl # pls"] exI [of _ "p' @ p"]) simp
qed auto

lemma sumcheck_proof_codec:
  "codec (sumcheck_proof_encode F c) (sumcheck_proof_decode F c) (proof_shape c)"
proof
  show "sumcheck_proof_decode F c (bs @ rest) = Inr (pf, rest)"
    if "proof_shape c pf" "sumcheck_proof_encode F c pf = Inr bs" for pf bs rest
    using that proof_layers_roundtrip [of "c_layers c" "sp_layers pf" _ "[]" rest]
    by (auto simp: sumcheck_proof_encode_def sumcheck_proof_decode_def proof_shape_def)
  show "sumcheck_proof_decode F c bs = Inr (pf, rest) \<Longrightarrow> \<exists>p. bs = p @ rest" for bs pf rest
    using proof_layers_consume [of "c_layers c" "[]" bs]
    by (force simp: sumcheck_proof_decode_def)
qed

lemma sumcheck_proof_decode_shape:
  "sumcheck_proof_decode F c bs = Inr (pf, rest) \<Longrightarrow> proof_shape c pf"
  using proof_layers_consume [of "c_layers c" "[]" bs]
  by (force simp: sumcheck_proof_decode_def proof_shape_def)

text \<open>Nothing but an encoding decodes: the bytes of an element are canonical, and there is no other freedom.\<close>

lemma fe_canonical: "fe_decode F bs = Inr (x, r) \<Longrightarrow> bs = fo_encode F x @ r"
  by (auto simp: fe_decode_def dest!: encode_try_from split: if_splits option.splits)

lemma fe_array_canonical:
  "decode_fixed_array (fe_decode F) n bs = Inr (xs, r) \<Longrightarrow> \<exists>b. encode_fixed_array (fe_encode F) xs = Inr b \<and> bs = b @ r"
proof (induction n arbitrary: bs xs)
  case (Suc n)
  then obtain x q ys where d: "fe_decode F bs = Inr (x, q)" "decode_fixed_array (fe_decode F) n q = Inr (ys, r)" "xs = x # ys"
    by auto
  then show ?case using fe_canonical [OF d(1)] Suc.IH [OF d(2)] by (auto simp: fe_encode_def)
qed simp

lemma proof_layer_canonical:
  assumes "proof_layer_decode F layer bs = Inr (pl, r)"
  shows "\<exists>b. proof_layer_encode F pl = Inr b \<and> bs = b @ r"
proof -
  from assms obtain ws q vl q' vr where d: "decode_fixed_array (fe_decode F) (unat (layer_logw layer) * 4) bs = Inr (ws, q)"
    "fe_decode F q = Inr (vl, q')" "fe_decode F q' = Inr (vr, r)"
    "pl = \<lparr>pl_polynomials = chunks4 ws, pl_vl = vl, pl_vr = vr\<rparr>"
    by (auto simp: proof_layer_decode_def)
  have "flatten4 (chunks4 ws) = ws" by (rule flatten4_chunks4 [OF decode_fixed_array_length [OF d(1)]])
  then show ?thesis
    using fe_array_canonical [OF d(1)] fe_canonical [OF d(2)] fe_canonical [OF d(3)] d(4) by (auto simp: proof_layer_encode_flat)
qed

lemma proof_layers_canonical:
  "fold_res (\<lambda>layer (pls, r). and_then (proof_layer_decode F layer r) (\<lambda>(pl, r).
      Inr (pls @ [pl], r))) ls (acc, bs) = Inr (out, rest) \<Longrightarrow>
   \<exists>pls bss. out = acc @ pls \<and> map_res (\<lambda>(pl, _). proof_layer_encode F pl) (zip pls ls) = Inr bss \<and> bs = concat bss @ rest"
proof (induction ls arbitrary: acc bs)
  case (Cons l ls)
  from Cons.prems obtain pl r where pl: "proof_layer_decode F l bs = Inr (pl, r)"
    "fold_res (\<lambda>layer (pls, r). and_then (proof_layer_decode F layer r) (\<lambda>(pl, r).
      Inr (pls @ [pl], r))) ls (acc @ [pl], r) = Inr (out, rest)" by auto
  from Cons.IH [OF pl(2)] obtain pls bss where IH: "out = acc @ [pl] @ pls"
    "map_res (\<lambda>(pl, _). proof_layer_encode F pl) (zip pls ls) = Inr bss" "r = concat bss @ rest" by auto
  from proof_layer_canonical [OF pl(1)] obtain b where "proof_layer_encode F pl = Inr b" "bs = b @ r" by blast
  with IH show ?case by (intro exI [of _ "pl # pls"] exI [of _ "b # bss"]) simp
qed simp

lemma sumcheck_proof_decode_iff:
  "sumcheck_proof_decode F c input = Inr (pf, rest) \<longleftrightarrow>
     proof_shape c pf \<and> (\<exists>bs. sumcheck_proof_encode F c pf = Inr bs \<and> input = bs @ rest)"
proof
  assume d: "sumcheck_proof_decode F c input = Inr (pf, rest)"
  then obtain pls where "fold_res (\<lambda>layer (pls, r). and_then (proof_layer_decode F layer r) (\<lambda>(pl, r).
      Inr (pls @ [pl], r))) (c_layers c) ([], input) = Inr (pls, rest)" "pf = \<lparr>sp_layers = pls\<rparr>"
    by (auto simp: sumcheck_proof_decode_def)
  with proof_layers_canonical [OF this(1)] sumcheck_proof_decode_shape [OF d]
  show "proof_shape c pf \<and> (\<exists>bs. sumcheck_proof_encode F c pf = Inr bs \<and> input = bs @ rest)"
    by (auto simp: sumcheck_proof_encode_def)
next
  assume "proof_shape c pf \<and> (\<exists>bs. sumcheck_proof_encode F c pf = Inr bs \<and> input = bs @ rest)"
  then show "sumcheck_proof_decode F c input = Inr (pf, rest)" using codec.roundtrip [OF sumcheck_proof_codec] by blast
qed

end

end
