(* ===== verification/Transcript_Proofs.thy ===== *)
theory Transcript_Proofs
  imports Transcript "HOL-Library.Multiset"
begin

text \<open>
  The transcript of \<open>src/src/transcript.rs\<close>: writing zeroes in chunks is writing an array of
  zeroes, the pseudo-random function is the stream of encrypted block numbers however it is read,
  naturals without replacement are distinct and in range, and in normal mode the bytes written
  determine the messages.
\<close>

subsection \<open>Zero arrays\<close>

lemma write_zero_chunks_eq:
  "write_zero_chunks cnt t = t\<lparr>tr_written := tr_written t @ replicate cnt 0\<rparr>"
proof (induction cnt t rule: write_zero_chunks.induct)
  case (1 cnt t)
  show ?case
  proof (cases "cnt > 0")
    case True
    let ?w = "min cnt 16834"
    have "write_zero_chunks cnt t =
        t\<lparr>tr_written := (tr_written t @ replicate ?w 0) @ replicate (cnt - ?w) 0\<rparr>"
      using 1 True by (subst write_zero_chunks.simps) (simp add: Let_def)
    also have "(tr_written t @ replicate ?w 0) @ replicate (cnt - ?w) (0 :: byte) =
        tr_written t @ replicate (?w + (cnt - ?w)) 0"
      by (simp only: append_assoc replicate_add)
    also have "?w + (cnt - ?w) = cnt" by simp
    finally show ?thesis .
  next
    case False
    then show ?thesis by (subst write_zero_chunks.simps) simp
  qed
qed

lemma write_zero_array_eq: "write_zero_array n t = write_byte_array (replicate n 0) t"
  by (auto simp: write_zero_array_def write_byte_array_def begin_write_byte_array_def
      length_prefix_def write_zero_chunks_eq write_bytes_def)

subsection \<open>The stream of the pseudo-random function\<close>

definition fsprf_byte :: "crypto \<Rightarrow> bytes \<Rightarrow> nat \<Rightarrow> byte" where
  "fsprf_byte C key k = fsprf_current_block C key k ! (k mod 16)"

definition fsprf_ok :: "crypto \<Rightarrow> fsprf \<Rightarrow> bool" where
  "fsprf_ok C f \<longleftrightarrow>
     (fs_position f mod 16 \<noteq> 0 \<longrightarrow> fs_block f = fsprf_current_block C (fs_key f) (fs_position f))"

lemma fsprf_new_ok: "fsprf_ok C (fsprf_new seed)"
  by (simp add: fsprf_ok_def fsprf_new_def)

lemma fsprf_next_byte:
  assumes "fsprf_ok C f" "fsprf_next C f = (b, f')"
  shows "b = fsprf_byte C (fs_key f) (fs_position f)" "fs_position f' = fs_position f + 1"
    "fs_key f' = fs_key f" "fsprf_ok C f'"
proof -
  let ?block = "if fs_position f mod 16 = 0 then fsprf_current_block C (fs_key f) (fs_position f)
    else fs_block f"
  have block: "?block = fsprf_current_block C (fs_key f) (fs_position f)"
    using assms(1) by (simp add: fsprf_ok_def)
  have b: "b = ?block ! (fs_position f mod 16)"
    and f': "f' = f\<lparr>fs_position := fs_position f + 1, fs_block := ?block\<rparr>"
    using assms(2) unfolding fsprf_next_def Let_def by auto
  show "b = fsprf_byte C (fs_key f) (fs_position f)"
    unfolding b block fsprf_byte_def ..
  show "fs_position f' = fs_position f + 1" "fs_key f' = fs_key f" unfolding f' by simp_all
  have "(fs_position f + 1) div 16 = fs_position f div 16" if "(fs_position f + 1) mod 16 \<noteq> 0"
    using that by (simp add: div_Suc)
  then show "fsprf_ok C f'"
    unfolding f' block by (simp add: fsprf_ok_def fsprf_current_block_def)
qed

lemma fsprf_read_stream:
  assumes "fsprf_ok C f" "fsprf_read C n f = (bs, f')"
  shows "bs = map (fsprf_byte C (fs_key f)) [fs_position f..<fs_position f + n]"
    "fs_position f' = fs_position f + n" "fs_key f' = fs_key f" "fsprf_ok C f'"
proof -
  have "bs = map (fsprf_byte C (fs_key f)) [fs_position f..<fs_position f + n] \<and>
    fs_position f' = fs_position f + n \<and> fs_key f' = fs_key f \<and> fsprf_ok C f'"
    using assms
  proof (induction n arbitrary: f bs)
    case (Suc n)
    obtain b g where g: "fsprf_next C f = (b, g)" by (cases "fsprf_next C f")
    obtain cs where cs: "fsprf_read C n g = (cs, f')" "bs = b # cs"
      using Suc.prems(2) g by (auto split: prod.splits)
    note nx = fsprf_next_byte [OF Suc.prems(1) g]
    from Suc.IH [OF nx(4) cs(1)] nx cs(2) show ?case
      by (simp add: upt_conv_Cons del: upt_Suc)
  qed simp
  then show "bs = map (fsprf_byte C (fs_key f)) [fs_position f..<fs_position f + n]"
    "fs_position f' = fs_position f + n" "fs_key f' = fs_key f" "fsprf_ok C f'" by auto
qed

lemma length_fsprf_read: "length (fst (fsprf_read C n f)) = n"
  by (induction n arbitrary: f) (auto simp: split_beta Let_def)

subsection \<open>Naturals without replacement\<close>

lemma natural_loop_less: "natural_loop C bound k f = Some (n, f') \<Longrightarrow> n < bound"
proof -
  have "fst r < bound" if "natural_loop C bound k f = Some r" for r
    by (rule natural_loop.raw_induct [where P = "\<lambda>C b k f r. fst r < b", OF _ that])
      (auto simp: Let_def split: prod.splits if_splits)
  then show "natural_loop C bound k f = Some (n, f') \<Longrightarrow> n < bound" by fastforce
qed

lemma generate_natural_less: "generate_natural C bound t = Inr (n, t') \<Longrightarrow> n < bound"
  by (auto simp: generate_natural_def dest: natural_loop_less)

lemma swap_res_Inr:
  assumes "swap_res xs i j = Inr ys"
  shows "mset ys = mset xs" "length ys = length xs"
  using assms by (auto simp: swap_res_def mset_swap split: if_splits)

lemma shuffle_invariant:
  assumes "fold_res (shuffle_step C bound) is (xs, t) = Inr (ys, t')"
  shows "mset ys = mset xs"
  using assms
proof (induction "is" arbitrary: xs t)
  case (Cons i "is")
  then obtain zs t'' where "shuffle_step C bound i (xs, t) = Inr (zs, t'')"
    "fold_res (shuffle_step C bound) is (zs, t'') = Inr (ys, t')" by (auto)
  with Cons.IH show ?case by (auto simp: shuffle_step_def [of C bound i] dest: swap_res_Inr)
qed simp

lemma naturals_without_replacement:
  assumes "generate_naturals_without_replacement C bound cnt t = Inr (ns, t')"
  shows "length ns = cnt" "distinct ns" "set ns \<subseteq> {..<bound}" "cnt < bound"
proof -
  from assms obtain list where m: "cnt < bound"
    and l: "fold_res (shuffle_step C bound) [0..<cnt] ([0..<bound], t) = Inr (list, t')"
    and ns: "ns = take cnt list"
    by (auto simp: generate_naturals_without_replacement_def)
  have ms: "mset list = mset [0..<bound]" by (rule shuffle_invariant [OF l])
  then have "length list = bound" "distinct list" "set list = {..<bound}"
    by (metis length_upt diff_zero size_mset, metis distinct_upt mset_eq_imp_distinct_iff,
        metis atLeast_upt set_mset_mset)
  with m show "length ns = cnt" "distinct ns" "set ns \<subseteq> {..<bound}" "cnt < bound"
    by (auto simp: ns dest: in_set_takeD)
qed

text \<open>The shuffle never leaves the list: it can only fail by not returning.\<close>

lemma shuffle_total:
  assumes "\<And>f m. 0 < m \<Longrightarrow> \<exists>r. natural_loop C m (natural_num_bits m) f = Some r"
    and "length xs = bound" "j \<le> bound"
  shows "\<exists>ys t'. fold_res (shuffle_step C bound) [i..<j] (xs, t) = Inr (ys, t')"
  using assms(2)
proof (induction "j - i" arbitrary: i xs t)
  case (Suc d)
  then have i: "i < j" "[i..<j] = i # [Suc i..<j]" by (simp_all add: upt_conv_Cons)
  obtain n f where n: "natural_loop C (bound - i) (natural_num_bits (bound - i)) (get_current_fsprf C t) = Some (n, f)"
    using assms(1) [of "bound - i" "get_current_fsprf C t"] i(1) assms(3) by auto
  have "n < bound - i" by (rule natural_loop_less [OF n])
  then have "i < length xs \<and> i + n < length xs"
    using i(1) assms(3) Suc.prems by simp
  then have "swap_res xs i (i + n) = Inr (xs[i := xs ! (i + n), i + n := xs ! i])"
    by (simp add: swap_res_def)
  moreover have "\<exists>ys t'. fold_res (shuffle_step C bound) [Suc i..<j]
      (xs[i := xs ! (i + n), i + n := xs ! i], t\<lparr>tr_fsprf := Some f\<rparr>) = Inr (ys, t')"
    using Suc.hyps(2) Suc.prems by (intro Suc.hyps(1)) simp_all
  ultimately show ?case
    using i n assms(3) by (simp add: shuffle_step_def [of C bound i] generate_natural_def)
qed simp

subsection \<open>What was written determines the messages\<close>

datatype 'a message = MBytes bytes | MElement 'a | MElements "'a list"

fun write_message :: "'a field_ops \<Rightarrow> 'a message \<Rightarrow> transcript \<Rightarrow> transcript res" where
  "write_message F (MBytes bs) t = write_byte_array bs t"
| "write_message F (MElement x) t = Inr (write_field_element F x t)"
| "write_message F (MElements xs) t = write_field_element_array F xs t"

text \<open>The bytes a message adds in a mode, and a reader of messages in normal mode.\<close>

fun message_bytes :: "'a field_ops \<Rightarrow> transcript_mode \<Rightarrow> 'a message \<Rightarrow> bytes res" where
  "message_bytes F mode (MBytes bs) =
     and_then (length_prefix (length bs)) (\<lambda>l. Inr (tag_as_byte ByteArray mode # l @ bs))"
| "message_bytes F mode (MElement x) = Inr (tag_as_byte FieldElement mode # fo_encode F x)"
| "message_bytes F mode (MElements xs) =
     and_then (length_prefix (length xs)) (\<lambda>l.
       Inr (tag_as_byte FieldElementArray mode # l @ concat (map (fo_encode F) xs)))"

definition message_decode :: "'a field_ops \<Rightarrow> 'a message dec" where
  "message_decode F bs =
     and_then (u8_decode bs) (\<lambda>(tag, r).
       if tag = 0 then
         and_then (read_le 8 r) (\<lambda>(n, r).
           if length r < n then Inl (Fail ''short'') else Inr (MBytes (take n r), drop n r))
       else if tag = 1 then and_then (fe_decode F r) (\<lambda>(x, r). Inr (MElement x, r))
       else
         and_then (read_le 8 r) (\<lambda>(n, r).
         and_then (decode_fixed_array (fe_decode F) n r) (\<lambda>(xs, r). Inr (MElements xs, r))))"

lemma write_elements_fold:
  "tr_written (fold (\<lambda>x t. write_bytes (fo_encode F x) t) xs t) =
     tr_written t @ concat (map (fo_encode F) xs)"
  "tr_mode (fold (\<lambda>x t. write_bytes (fo_encode F x) t) xs t) = tr_mode t"
  by (induction xs arbitrary: t) (simp_all add: write_bytes_def)

lemma write_message_bytes:
  assumes "write_message F m t = Inr t'"
  shows "\<exists>bs. message_bytes F (tr_mode t) m = Inr bs \<and> tr_written t' = tr_written t @ bs \<and>
    tr_mode t' = tr_mode t"
  using assms
  by (cases m) (auto simp: write_byte_array_def begin_write_byte_array_def write_field_element_def
      write_field_element_array_def write_elements_fold and_then_Inr_iff, auto simp: write_bytes_def
      write_elements_fold)

lemma write_messages_bytes:
  assumes "fold_res (write_message F) ms t = Inr t'"
  shows "\<exists>bss. map_res (message_bytes F (tr_mode t)) ms = Inr bss \<and>
    tr_written t' = tr_written t @ concat bss"
  using assms
proof (induction ms arbitrary: t)
  case (Cons m ms)
  then obtain u where u: "write_message F m t = Inr u" "fold_res (write_message F) ms u = Inr t'"
    by auto
  from write_message_bytes [OF u(1)] Cons.IH [OF u(2)] show ?case by auto
qed simp

lemma u8_decode_Cons [simp]: "u8_decode (b # bs) = Inr (b, bs)"
  using u8.roundtrip [of b "[b]" bs] by (simp add: u8_encode_def)

lemma length_prefix_read: "length_prefix n = Inr l \<Longrightarrow> read_le 8 (l @ rest) = Inr (n, rest)"
  by (auto simp: length_prefix_def read_le_append split: if_splits)

lemma message_bytes_nonempty: "message_bytes F mode m = Inr bs \<Longrightarrow> bs \<noteq> []"
  by (cases m) auto

context field_codec
begin

lemma fe_array_bytes: "encode_fixed_array (fe_encode F) xs = Inr (concat (map (fo_encode F) xs))"
  by (induction xs) (auto simp: fe_encode_def)

lemma message_codec: "codec (message_bytes F Normal) (message_decode F) (\<lambda>_. True)"
proof
  show "message_decode F (bs @ rest) = Inr (m, rest)" if enc: "message_bytes F Normal m = Inr bs"
    for m bs rest
  proof (cases m)
    case (MBytes cs)
    with enc show ?thesis
      by (auto simp: message_decode_def length_prefix_read)
  next
    case (MElement x)
    have "fe_decode F (fo_encode F x @ rest) = Inr (x, rest)"
      by (rule fe.roundtrip [OF TrueI]) (simp add: fe_encode_def)
    with MElement enc show ?thesis
      by (auto simp: message_decode_def)
  next
    case (MElements xs)
    have "decode_fixed_array (fe_decode F) (length xs) (concat (map (fo_encode F) xs) @ rest) =
        Inr (xs, rest)"
      by (rule fe.fixed_array_roundtrip) (simp_all add: fe_array_bytes list.pred_True)
    with MElements enc show ?thesis
      by (auto simp: message_decode_def length_prefix_read)
  qed
  show "message_decode F bs = Inr (m, rest) \<Longrightarrow> \<exists>p. bs = p @ rest" for bs m rest
  proof -
    assume a: "message_decode F bs = Inr (m, rest)"
    then obtain tag r where r: "u8_decode bs = Inr (tag, r)" by (auto simp: message_decode_def)
    have "\<exists>p. r = p @ rest"
      using a r
      by (auto simp: message_decode_def split: if_splits dest!: read_le_consume fe.consume
          fe.fixed_array_consume) (metis append_take_drop_id append.assoc)
    with u8.consume [OF r] show ?thesis by auto
  qed
qed

lemma messages_injective:
  assumes "map_res (message_bytes F Normal) ms = Inr bss" "map_res (message_bytes F Normal) ms' = Inr bss'"
    and "concat bss = concat bss'"
  shows "ms = ms'"
  using assms
proof (induction ms arbitrary: ms' bss bss')
  case Nil
  then show ?case
    by (cases ms') (auto dest!: message_bytes_nonempty)
next
  case (Cons m ms)
  from Cons.prems(1) obtain bs cs where bs: "message_bytes F Normal m = Inr bs"
    "map_res (message_bytes F Normal) ms = Inr cs" "bss = bs # cs" by auto
  then have "concat bss' = bs @ concat cs" using Cons.prems(3) by simp
  then have "concat bss' \<noteq> []" using message_bytes_nonempty [OF bs(1)]
    by (metis append_is_Nil_conv)
  then have "bss' \<noteq> []" by auto
  with Cons.prems(2) obtain m' ns where ms': "ms' = m' # ns" by (cases ms') auto
  with Cons.prems(2) obtain bs' cs' where bs': "message_bytes F Normal m' = Inr bs'"
    "map_res (message_bytes F Normal) ns = Inr cs'" "bss' = bs' # cs'" by auto
  have "bs @ concat cs = bs' @ concat cs'" using Cons.prems(3) bs(3) bs'(3) by simp
  from codec.encoding_prefix_free [OF message_codec TrueI TrueI bs(1) bs'(1) this]
  have "m = m'" "concat cs = concat cs'" by simp_all
  with Cons.IH [OF bs(2) bs'(2)] ms' show ?case by simp
qed

end

end
