(* ===== verification/Divergence.thy ===== *)
theory Divergence
  imports Sumcheck Transcript_Proofs
begin

text \<open>
  The one way in which the honest parties may fail: the rejection sampling of a challenge that
  never accepts a draw. \<open>yields C F P m\<close> says that \<open>m\<close> returns a result with \<open>P\<close>, or that such a sampling
  loop of the transcript does not end.
\<close>

subsection \<open>Results up to divergence\<close>

text \<open>The only divergence allowed is that of a sampler which never accepts a draw.\<close>

definition sampling_diverges :: "crypto \<Rightarrow> 'f field_ops \<Rightarrow> bool" where
  "sampling_diverges C F \<longleftrightarrow> (\<exists>f. sample_field_element C F f = None) \<or>
     (\<exists>bound f. bound > 0 \<and> natural_loop C bound (natural_num_bits bound) f = None)"

definition yields ::
  "crypto \<Rightarrow> 'f field_ops \<Rightarrow> ('a \<Rightarrow> bool) \<Rightarrow> 'a res \<Rightarrow> bool" where
  "yields C F P m \<longleftrightarrow>
     (case m of Inl e \<Rightarrow> e = Diverges \<and> sampling_diverges C F | Inr x \<Rightarrow> P x)"

lemma yields_simps [simp]:
  "yields C F P (Inr x) \<longleftrightarrow> P x"
  "yields C F P (Inl e) \<longleftrightarrow> e = Diverges \<and> sampling_diverges C F"
  by (simp_all add: yields_def)

lemma yields_and_then:
  "yields C F Q m \<Longrightarrow> (\<And>x. m = Inr x \<Longrightarrow> Q x \<Longrightarrow> yields C F P (f x)) \<Longrightarrow> yields C F P (and_then m f)"
  by (cases m) auto

lemma yields_mono: "yields C F P m \<Longrightarrow> (\<And>x. m = Inr x \<Longrightarrow> P x \<Longrightarrow> Q x) \<Longrightarrow> yields C F Q m"
  by (cases m) auto

lemma yields_sample: "yields C F (\<lambda>(xs, f). length xs = n) (sample_elements C F n f)"
proof (induction n arbitrary: f)
  case (Suc n)
  show ?case
    unfolding sample_elements.simps
  proof (rule yields_and_then [where Q = "\<lambda>_. True"])
    show "yields C F (\<lambda>_. True) (opt_res Diverges (sample_field_element C F f))"
      by (cases "sample_field_element C F f") (auto simp: sampling_diverges_def)
    show "yields C F (\<lambda>(xs, f). length xs = Suc n) (case p of (x, f') \<Rightarrow>
        and_then (sample_elements C F n f') (\<lambda>(xs, f''). Inr (x # xs, f'')))" for p
      by (cases p) (auto intro: yields_and_then [OF Suc.IH])
  qed
qed simp

lemma yields_generate: "yields C F (\<lambda>(xs, t). length xs = n) (generate_challenge C F n t)"
  unfolding generate_challenge_def by (rule yields_and_then [OF yields_sample]) auto

lemma yields_one_challenge: "yields C F (\<lambda>_. True) (one_challenge C F t)"
  unfolding one_challenge_def by (rule yields_and_then [OF yields_generate]) auto

lemma yields_output_bindings:
  "yields C F (\<lambda>(xs, t). length xs = circuit_logw c) (generate_output_wire_bindings C F c t)"
  unfolding generate_output_wire_bindings_def
  by (auto intro!: yields_and_then [OF yields_generate])

lemma yields_naturals:
  assumes "cnt < bound"
  shows "yields C F (\<lambda>(ns, t). length ns = cnt \<and> distinct ns \<and> set ns \<subseteq> {..<bound})
    (generate_naturals_without_replacement C bound cnt t)"
proof (cases "generate_naturals_without_replacement C bound cnt t")
  case (Inl e)
  have loop: "fold_res (shuffle_step C bound) is (xs, t) = Inl e' \<Longrightarrow> length xs = bound \<Longrightarrow>
      \<forall>i \<in> set is. i < bound \<Longrightarrow> e' = Diverges \<and> sampling_diverges C F" for "is" xs t e'
  proof (induction "is" arbitrary: xs t)
    case (Cons i "is")
    show ?case
    proof (cases "natural_loop C (bound - i) (natural_num_bits (bound - i)) (get_current_fsprf C t)")
      case None
      moreover have "bound - i > 0" using Cons.prems(3) by simp
      ultimately have "sampling_diverges C F" unfolding sampling_diverges_def using None by blast
      then show ?thesis
        using Cons.prems(1,3) None by (auto simp: shuffle_step_def [of C bound i] generate_natural_def)
    next
      case (Some r)
      obtain n f where r: "r = (n, f)" by fastforce
      have "n < bound - i" using natural_loop_less Some r by blast
      then have "i < length xs" "i + n < length xs" using Cons.prems(2) by simp_all
      then have "shuffle_step C bound i (xs, t) = Inr (xs[i := xs ! (i + n), i + n := xs ! i], t\<lparr>tr_fsprf := Some f\<rparr>)"
        using Some r Cons.prems(3)
        by (simp add: shuffle_step_def [of C bound i] generate_natural_def swap_res_def)
      with Cons.IH [of "xs[i := xs ! (i + n), i + n := xs ! i]" "t\<lparr>tr_fsprf := Some f\<rparr>"] Cons.prems
      show ?thesis by simp
    qed
  qed simp
  from Inl assms loop [of "[0..<cnt]" "[0..<bound]" t e] show ?thesis
    by (auto simp: generate_naturals_without_replacement_def and_then_Inl_iff)
next
  case (Inr r)
  then show ?thesis using naturals_without_replacement [of C bound cnt t] by (cases r) auto
qed

end
