(* ===== verification/Ligero_Accept.thy ===== *)
theory Ligero_Accept
  imports Ligero_Complete Divergence
begin

text \<open>
  Ligero as a whole: committing to a witness never fails, and from a commitment to a witness that
  satisfies the constraints the prover makes a proof that the verifier accepts.
\<close>

lemma write_hash_of_a_ok: "\<exists>t'. write_hash_of_a t = Inr t'"
  by (simp add: write_hash_of_a_def write_byte_array_def begin_write_byte_array_def length_prefix_def)

lemma write_proof_ok:
  assumes "length a < 2 ^ 64" "length b < 2 ^ 64" "length c < 2 ^ 64" "length d < 2 ^ 64"
  shows "\<exists>t'. write_proof F a b c d t = Inr t'"
  using assms by (simp add: write_proof_def write_field_element_array_def length_prefix_def)

lemma yields_challenges:
  assumes "check_layout L = Inr ()"
  shows "yields C F (\<lambda>(ch, t). length (low_degree_test_blind ch) = num_constraint_rows L \<and>
    length (linear_constraint_alphas ch) = n \<and> length (quadratic_constraint_alphas ch) = 3 * m \<and>
    length (quadratic_proof_blind ch) = num_quadratic_triples L)
    (ligero_challenges_generate C F t L n m)"
  unfolding ligero_challenges_generate_def assms
  by (auto intro!: yields_and_then [OF yields_generate])

lemma combination_of_alphas:
  fixes alphas :: "'a :: comm_ring_1 list"
  assumes "length alphas = length rhs"
  shows "fold (\<lambda>(r, a) s. s + r * a) (zip rhs alphas) 0 = (\<Sum>c < length rhs. alphas ! c * rhs ! c)"
proof -
  have "fold (\<lambda>(r, a) s. s + r * a) ps s = s + (\<Sum>(r, a)\<leftarrow>ps. r * a)" for ps :: "('a \<times> 'a) list" and s
    by (induction ps arbitrary: s) (auto simp: algebra_simps)
  moreover have "(\<Sum>(r, a)\<leftarrow>zip rhs alphas. r * a) = (\<Sum>c < length rhs. alphas ! c * rhs ! c)"
    using assms by (simp add: sum_list_sum_nth atLeast0LessThan mult.commute)
  ultimately show ?thesis by simp
qed

text \<open>The state after a commitment to the witness values.\<close>

context reed_solomon
begin

definition committed ::
  "crypto \<Rightarrow> tableau_layout \<Rightarrow> 'a list \<Rightarrow> quadratic_constraint list \<Rightarrow> 'a commitment_state \<Rightarrow> bool" where
  "committed C L ws qcs cs \<longleftrightarrow>
     (let tb = cs_tableau cs; tree = cs_merkle_tree cs; N = tl_num_columns L - dblock L in
      tb_layout tb = L \<and> tableau_wf L ws qcs (tb_contents tb) \<and>
      merkle_wf (cr_sha C) N tree \<and> length (mt_nonces tree) = N \<and> merkle_root tree = Inr (cs_root cs) \<and>
      (\<forall>i < N. leaf_at tree i = column_leaf C F (mt_nonces tree ! i) (tb_contents tb) (i + dblock L)))"

lemma ligero_commit_ok:
  assumes "parameters_ok ok (lpr_parameters P)" "constraint_indices_ok (w_values w) (lpr_quadratic_constraints P)"
  shows "\<exists>cs g' n'. ligero_commit C F P w gen g nonce_gen n = Inr (cs, g', n') \<and>
    committed C (tableau_layout_new (lpr_parameters P) (length (w_values w)) (length (lpr_quadratic_constraints P)))
      (w_values w) (lpr_quadratic_constraints P) cs"
proof -
  let ?qcs = "lpr_quadratic_constraints P"
  define L where "L = tableau_layout_new (lpr_parameters P) (length (w_values w)) (length ?qcs)"
  have okL: "parameters_ok ok (tl_parameters L)" using assms(1) by (simp add: L_def tableau_layout_new_def)
  note p = parameters_okD [OF okL]
  obtain tb g' where tb: "tableau_build F (lpr_parameters P) w ?qcs gen g = Inr (tb, g')" "tb_layout tb = L"
    "tableau_wf L (w_values w) ?qcs (tb_contents tb)"
    using tableau_build_ok [OF assms, of gen g] by (auto simp: L_def)
  have le: "dblock L \<le> tl_num_columns L" using p by linarith
  obtain tree n' where tree: "tableau_commit C F tb nonce_gen n = Inr (tree, n')"
    "merkle_wf (cr_sha C) (tl_num_columns L - dblock L) tree" "length (mt_nonces tree) = tl_num_columns L - dblock L"
    "\<forall>i < tl_num_columns L - dblock L. leaf_at tree i = column_leaf C F (mt_nonces tree ! i) (tb_contents tb) (i + dblock L)"
    using tableau_commit_ok [of tb C F nonce_gen n] tableau_wf_row(2) [OF okL tb(3)] tb(2) p(7) le by auto
  have "1 < length (mt_digests tree)" using tree(2) p by (simp add: merkle_wf_def)
  then obtain rt where rt: "merkle_root tree = Inr rt" by (simp add: merkle_root_def)
  have "ligero_commit C F P w gen g nonce_gen n =
      Inr (\<lparr>cs_tableau = tb, cs_merkle_tree = tree, cs_root = rt\<rparr>, g', n')"
    using tb tree rt by (simp add: ligero_commit_def)
  moreover have "committed C L (w_values w) ?qcs \<lparr>cs_tableau = tb, cs_merkle_tree = tree, cs_root = rt\<rparr>"
    using tb tree rt by (simp add: committed_def)
  ultimately show ?thesis unfolding L_def by blast
qed

text \<open>What the prover opens, and what the verifier hashes.\<close>

lemma requested_elements_ok:
  assumes "parameters_ok ok (tl_parameters L)" "tableau_wf L ws qcs contents" "indices_ok L indices"
  shows "requested_elements L contents indices = Inr (concat (map (sel (opened L indices)) contents))"
proof -
  note tw = tableau_wf_row [OF assms(1,2)]
  have "map_res (\<lambda>row. and_then (nth_res contents row) (\<lambda>r.
      map_res (\<lambda>index. nth_res r (index + dblock L)) indices)) [0..<num_rows L] =
      Inr (map (\<lambda>row. sel (opened L indices) (contents ! row)) [0..<num_rows L])"
  proof (rule map_res_Inr_map)
    fix row assume "row \<in> set [0..<num_rows L]"
    then have row: "row < length contents" using tw(1) by simp
    then have "length (contents ! row) = tl_num_columns L" using tw(2) by simp
    with row gather_opened [OF assms(3) this] show "and_then (nth_res contents row) (\<lambda>r.
        map_res (\<lambda>index. nth_res r (index + dblock L)) indices) = Inr (sel (opened L indices) (contents ! row))"
      by (simp add: gather_def)
  qed
  moreover have "map (\<lambda>row. sel (opened L indices) (contents ! row)) [0..<num_rows L] = map (sel (opened L indices)) contents"
    by (rule nth_equalityI) (use tw(1) in simp_all)
  ultimately show ?thesis by (simp add: requested_elements_def)
qed

lemma included_nodes_ok:
  assumes "parameters_ok ok (tl_parameters L)" "committed C L ws qcs cs"
    and "\<forall>i \<in> set indices. i < tl_num_columns L - dblock L"
    and "lp_tableau_columns pf = map (sel (opened L indices)) (tb_contents (cs_tableau cs))"
    and "lp_merkle_tree_nonces pf = map (nth (mt_nonces (cs_merkle_tree cs))) indices"
  shows "included_nodes C F pf (length indices) = Inr (map (leaf_at (cs_merkle_tree cs)) indices)"
proof -
  let ?contents = "tb_contents (cs_tableau cs)" and ?tree = "cs_merkle_tree cs"
  have "included_nodes C F pf (length indices) = Inr (map (\<lambda>k. leaf_at ?tree (indices ! k)) [0..<length indices])"
    unfolding included_nodes_def
  proof (rule map_res_Inr_map)
    fix k assume "k \<in> set [0..<length indices]"
    then have k: "k < length indices" by simp
    then have "indices ! k < tl_num_columns L - dblock L" using assms(3) by simp
    then have leaf: "leaf_at ?tree (indices ! k) =
        column_leaf C F (mt_nonces ?tree ! (indices ! k)) ?contents (indices ! k + dblock L)"
      using assms(2) by (simp add: committed_def Let_def)
    have "\<forall>row \<in> set (lp_tableau_columns pf). k < length row" using assms(4) k by (auto simp: opened_def)
    note cb = column_bytes_eq [OF this, of F "mt_nonces ?tree ! (indices ! k)"]
    show "and_then (nth_res (lp_merkle_tree_nonces pf) k) (\<lambda>nonce.
        and_then (column_bytes F nonce (lp_tableau_columns pf) k) (\<lambda>bs. Inr (cr_sha C bs))) =
        Inr (leaf_at ?tree (indices ! k))"
      using k cb by (simp add: assms(5) leaf column_leaf_def assms(4) comp_def opened_def)
  qed
  moreover have "map (\<lambda>k. leaf_at ?tree (indices ! k)) [0..<length indices] = map (leaf_at ?tree) indices"
    by (rule nth_equalityI) simp_all
  ultimately show ?thesis by simp
qed

lemma ligero_complete:
  assumes "parameters_ok ok (lpr_parameters P)"
    and "constraint_indices_ok ws (lpr_quadratic_constraints P)"
    and "\<forall>q \<in> set (lpr_quadratic_constraints P). quadratic_constraint_holds (nth ws) q"
    and "terms_in_range (length ws) lc" "linear_constraints_hold (nth ws) lc"
    and L_def: "L = tableau_layout_new (lpr_parameters P) (length ws) (length (lpr_quadratic_constraints P))"
    and committed: "committed C L ws (lpr_quadratic_constraints P) cs"
  shows "yields C F (\<lambda>(pf, t'). ligero_verify C F
      \<lparr>lv_quadratic_constraints = lpr_quadratic_constraints P, lv_tableau_layout = L\<rparr> (cs_root cs) pf t lc = Inr t')
    (ligero_prove C F P t cs lc)"
proof -
  let ?qcs = "lpr_quadratic_constraints P" and ?contents = "tb_contents (cs_tableau cs)"
  let ?tree = "cs_merkle_tree cs" and ?N = "tl_num_columns L - dblock L"
  have okL: "parameters_ok ok (tl_parameters L)" using assms(1) by (simp add: L_def tableau_layout_new_def)
  note p = parameters_okD [OF okL]
  have cs: "tb_layout (cs_tableau cs) = L" "tableau_wf L ws ?qcs ?contents" "merkle_wf (cr_sha C) ?N ?tree"
    "length (mt_nonces ?tree) = ?N" "merkle_root ?tree = Inr (cs_root cs)"
    using committed by (simp_all add: committed_def Let_def)
  have N: "usize_sub (tl_num_columns L) (dblock L) = ?N" using p by (intro usize_sub_eq) linarith+
  have small: "tl_block_size L < 2 ^ 64" "dblock L < 2 ^ 64" "num_requested_columns L < ?N" using p by linarith+
  obtain t1 where t1: "write_hash_of_a t = Inr t1" using write_hash_of_a_ok by blast
  let ?gen = "ligero_challenges_generate C F t1 L (length (lc_rhs lc)) (length ?qcs)"
  show ?thesis
  proof (cases ?gen)
    case (Inl e)
    then show ?thesis
      using yields_challenges [OF p(10), of C F "length (lc_rhs lc)" "length ?qcs" t1] t1
      by (simp add: ligero_prove_def cs(1))
  next
    case (Inr r)
    obtain ch t2 where r: "r = (ch, t2)" by fastforce
    have ch: "length (linear_constraint_alphas ch) = length (lc_rhs lc)"
      "length (quadratic_constraint_alphas ch) = 3 * length ?qcs" "length (quadratic_proof_blind ch) = num_quadratic_triples L"
      using yields_challenges [OF p(10), of C F "length (lc_rhs lc)" "length ?qcs" t1] Inr r by simp_all
    obtain ipv where ipv: "inner_product_vector L lc (linear_constraint_alphas ch) ?qcs (quadratic_constraint_alphas ch) = Inr ipv"
      "length ipv = num_constraint_rows L * tl_witnesses_per_row L"
      "dotp ipv (value_vector L ws ?qcs) = (\<Sum>c < length (lc_rhs lc). linear_constraint_alphas ch ! c * lc_rhs lc ! c)"
      using inner_product_vector_ok [OF p(2) _ assms(2,4) ch(1,2) assms(5)] by (auto simp: L_def tableau_layout_new_def)
    let ?open = "\<lambda>indices pf. indices_ok L indices \<and> lp_tableau_columns pf = map (sel (opened L indices)) ?contents"
    obtain low_degree where ld: "low_degree_part L ?contents (low_degree_test_blind ch) = Inr low_degree"
      "length low_degree \<le> tl_num_columns L"
      "\<And>indices pf. ?open indices pf \<Longrightarrow> lp_low_degree_test_proof pf = low_degree \<Longrightarrow>
         check_low_degree F L pf (low_degree_test_blind ch) indices = Inr ()"
      using low_degree_complete [OF okL cs(2), of "low_degree_test_blind ch"] by blast
    obtain dot where dot: "dot_part F L ?contents ipv = Inr dot" "length dot \<le> tl_num_columns L"
      "sum_list (middle L dot) = dotp ipv (value_vector L ws ?qcs)"
      "\<And>indices pf. ?open indices pf \<Longrightarrow> lp_dot_proof pf = dot \<Longrightarrow> check_dot_row F L pf ipv indices = Inr ()"
      using dot_complete [OF okL cs(2) ipv(2)] by blast
    obtain low high where lh: "quadratic_part L ?contents (quadratic_proof_blind ch) = Inr (low, high)"
      "length low \<le> tl_num_columns L" "length high \<le> tl_num_columns L"
      "\<And>indices pf. ?open indices pf \<Longrightarrow> lp_quadratic_proof pf = (low, high) \<Longrightarrow>
         check_quadratic F L pf (quadratic_proof_blind ch) indices = Inr ()"
      using quadratic_complete [OF okL cs(2) assms(3) ch(3)] by blast
    have "length low_degree < 2 ^ 64" "length dot < 2 ^ 64" "length low < 2 ^ 64" "length high < 2 ^ 64"
      using p(7) ld(2) dot(2) lh(2,3) by linarith+
    from write_proof_ok [OF this] obtain t3 where t3: "write_proof F low_degree dot low high t2 = Inr t3" by blast
    let ?nat = "generate_naturals_without_replacement C ?N (num_requested_columns L) t3"
    show ?thesis
    proof (cases ?nat)
      case (Inl e)
      then show ?thesis
        using yields_naturals [OF small(3), of C F t3] t1 Inr r ipv(1) ld(1) dot(1) lh(1) t3
        by (simp add: ligero_prove_def cs(1) N)
    next
      case nat: (Inr r')
      obtain indices t4 where r': "r' = (indices, t4)" by fastforce
      have ix: "length indices = num_requested_columns L" "distinct indices" "set indices \<subseteq> {..<?N}"
        using naturals_without_replacement nat r' by blast+
      have iok: "indices_ok L indices" using ix(3) by (auto simp: indices_ok_def)
      have ne: "indices \<noteq> []" "list_all (\<lambda>i. i < ?N) indices" using ix p(1) by (auto simp: list_all_iff)
      obtain ip where ip: "merkle_prove ?tree indices = Inr ip"
        "merkle_verify (cr_sha C) (cs_root cs) ?N (map (leaf_at ?tree) indices) indices ip = Inr ()"
        using merkle_complete [OF cs(3) ne] cs(5) by auto
      note el = requested_elements_ok [OF okL cs(2) iok]
      have nonces: "map_res (nth_res (mt_nonces ?tree)) indices = Inr (map (nth (mt_nonces ?tree)) indices)"
        using ne(2) cs(4) by (intro map_res_Inr_map) (simp add: list_all_iff)
      have ch_eq: "chunks (num_requested_columns L) (concat (map (sel (opened L indices)) ?contents)) =
          map (sel (opened L indices)) ?contents"
        using ix(1) p(1) by (intro chunks_concat) (auto simp: opened_def)
      define pf where "pf = \<lparr>lp_low_degree_test_proof = low_degree, lp_dot_proof = dot,
        lp_quadratic_proof = (low, high), lp_merkle_tree_nonces = map (nth (mt_nonces ?tree)) indices,
        lp_tableau_columns = map (sel (opened L indices)) ?contents, lp_inclusion_proof = ip\<rparr>"
      have prove: "ligero_prove C F P t cs lc = Inr (pf, t4)"
        using t1 Inr r ipv(1) ld(1) dot(1) lh(1) t3 nat r' el nonces ip(1) p(1) ch_eq
        by (simp add: ligero_prove_def cs(1) N pf_def)
      have o: "?open indices pf" using iok by (simp add: pf_def)
      have "check_dot_product L pf lc (linear_constraint_alphas ch) = Inr ()"
        using combination_of_alphas [OF ch(1)] dot(3) ipv(3)
        by (simp add: check_dot_product_def pf_def fold_plus_sum_list middle_def)
      moreover have "included_nodes C F pf (length indices) = Inr (map (leaf_at ?tree) indices)"
        by (rule included_nodes_ok [OF okL committed]) (use ne(2) in \<open>simp_all add: pf_def list_all_iff\<close>)
      moreover have "check_low_degree F L pf (low_degree_test_blind ch) indices = Inr ()"
        "check_dot_row F L pf ipv indices = Inr ()"
        "check_quadratic F L pf (quadratic_proof_blind ch) indices = Inr ()"
        by (rule ld(3) [OF o] dot(4) [OF o] lh(4) [OF o], simp add: pf_def)+
      moreover have "write_proof F (lp_low_degree_test_proof pf) (lp_dot_proof pf)
          (fst (lp_quadratic_proof pf)) (snd (lp_quadratic_proof pf)) t2 = Inr t3"
        using t3 by (simp add: pf_def)
      moreover have "lp_inclusion_proof pf = ip" by (simp add: pf_def)
      ultimately have "ligero_verify C F \<lparr>lv_quadratic_constraints = ?qcs, lv_tableau_layout = L\<rparr> (cs_root cs) pf t lc = Inr t4"
        using t1 Inr r ipv(1) nat r' ip(2) by (simp add: ligero_verify_def N)
      with prove show ?thesis by simp
    qed
  qed
qed

end

end
