(* ===== verification/Sumcheck_Roles.thy ===== *)
theory Sumcheck_Roles
  imports Sumcheck
begin

text \<open>
  Prover and verifier run the same protocol: on the proof the prover wrote, the verifier derives
  the constraints the prover derived and leaves the transcript in the same state. The prover
  fills the positions of the proof one after the other and never comes back to one, so what it
  wrote in a round is what the verifier reads in that round.
\<close>

subsection \<open>Positions of a proof\<close>

definition proof_claims :: "'a sumcheck_proof \<Rightarrow> nat \<Rightarrow> ('a \<times> 'a) res" where
  "proof_claims pf l = and_then (nth_res (sp_layers pf) l) (\<lambda>pl. Inr (pl_vl pl, pl_vr pl))"

definition agree_on_layer :: "nat \<Rightarrow> 'a sumcheck_proof \<Rightarrow> 'a sumcheck_proof \<Rightarrow> bool" where
  "agree_on_layer l pf pf' \<longleftrightarrow>
     (\<forall>r h. proof_polynomial pf l r h = proof_polynomial pf' l r h) \<and> proof_claims pf l = proof_claims pf' l"

lemma agree_on_layer_refl [simp]: "agree_on_layer l pf pf"
  by (simp add: agree_on_layer_def)

lemma agree_on_layer_trans:
  "agree_on_layer l a b \<Longrightarrow> agree_on_layer l b c \<Longrightarrow> agree_on_layer l a c"
  by (simp add: agree_on_layer_def)

lemma set_proof_polynomial_get:
  assumes "set_proof_polynomial l r h poly pf = Inr pf'"
  shows "proof_polynomial pf' l' r' h' =
      (if l' = l \<and> r' = r \<and> h' = h then Inr poly else proof_polynomial pf l' r' h')"
    and "proof_claims pf' l' = proof_claims pf l'"
proof -
  obtain pl polys ps layers where s: "nth_res (sp_layers pf) l = Inr pl"
    "nth_res (pl_polynomials pl) r = Inr polys"
    "upd_res (pl_polynomials pl) r (set_hand h poly polys) = Inr ps"
    "upd_res (sp_layers pf) l (pl\<lparr>pl_polynomials := ps\<rparr>) = Inr layers" "pf' = pf\<lparr>sp_layers := layers\<rparr>"
    using assms by (auto simp: set_proof_polynomial_def)
  then show "proof_polynomial pf' l' r' h' =
      (if l' = l \<and> r' = r \<and> h' = h then Inr poly else proof_polynomial pf l' r' h')"
    and "proof_claims pf' l' = proof_claims pf l'"
    by (auto simp: proof_polynomial_def proof_claims_def nth_res_def upd_res_def nth_list_update
        split: if_splits)
qed

lemma set_proof_claims_get:
  assumes "set_proof_claims l vl vr pf = Inr pf'"
  shows "proof_polynomial pf' l' r h = proof_polynomial pf l' r h"
    and "proof_claims pf' l' = (if l' = l then Inr (vl, vr) else proof_claims pf l')"
proof -
  obtain pl layers where "nth_res (sp_layers pf) l = Inr pl"
    "upd_res (sp_layers pf) l (pl\<lparr>pl_vl := vl, pl_vr := vr\<rparr>) = Inr layers" "pf' = pf\<lparr>sp_layers := layers\<rparr>"
    using assms by (auto simp: set_proof_claims_def)
  then show "proof_polynomial pf' l' r h = proof_polynomial pf l' r h"
    and "proof_claims pf' l' = (if l' = l then Inr (vl, vr) else proof_claims pf l')"
    by (auto simp: proof_polynomial_def proof_claims_def nth_res_def upd_res_def nth_list_update
        split: if_splits)
qed

subsection \<open>What the prover's role does to its state\<close>

lemma role_polynomial_Prover:
  assumes "role_polynomial F quad l r h (Prover pr) = Inr (poly, role)"
  obtains pr' where "role = Prover pr'" "pr_evaluation pr' = pr_evaluation pr"
    "pr_witness pr' = pr_witness pr" "pr_wires pr' = pr_wires pr"
    "set_proof_polynomial l r h poly (pr_proof pr) = Inr (pr_proof pr')"
proof -
  from assms obtain pf where "role = Prover (pr\<lparr>pr_proof := pf\<rparr>)"
    "set_proof_polynomial l r h poly (pr_proof pr) = Inr pf" by auto
  then show ?thesis by (intro that [of "pr\<lparr>pr_proof := pf\<rparr>"]) simp_all
qed

lemma role_bind_Prover:
  assumes "role_bind F l h x (Prover pr) = Inr role"
  obtains pr' where "role = Prover pr'" "pr_evaluation pr' = pr_evaluation pr"
    "pr_witness pr' = pr_witness pr" "pr_proof pr' = pr_proof pr"
proof -
  from assms obtain ws where "role = Prover (pr\<lparr>pr_wires := ws\<rparr>)" by auto
  then show ?thesis by (intro that [of "pr\<lparr>pr_wires := ws\<rparr>"]) simp_all
qed

lemma role_claims_Prover:
  assumes "role_claims l (Prover pr) = Inr ((vl, vr), role)"
  obtains pr' where "role = Prover pr'" "pr_evaluation pr' = pr_evaluation pr"
    "pr_witness pr' = pr_witness pr" "pr_wires pr' = pr_wires pr"
    "set_proof_claims l vl vr (pr_proof pr) = Inr (pr_proof pr')"
proof -
  from assms obtain pf where "role = Prover (pr\<lparr>pr_proof := pf\<rparr>)"
    "set_proof_claims l vl vr (pr_proof pr) = Inr pf" by (auto simp: Let_def split: prod.splits)
  then show ?thesis by (intro that [of "pr\<lparr>pr_proof := pf\<rparr>"]) simp_all
qed

text \<open>The verifier's side of a state, and what a step must establish for it.\<close>

definition same_prover :: "'a prover_state \<Rightarrow> 'a prover_state \<Rightarrow> bool" where
  "same_prover pr pr' \<longleftrightarrow> pr_evaluation pr' = pr_evaluation pr \<and> pr_witness pr' = pr_witness pr"

lemma same_prover_refl [simp]: "same_prover pr pr"
  by (simp add: same_prover_def)

lemma same_prover_trans: "same_prover a b \<Longrightarrow> same_prover b c \<Longrightarrow> same_prover a c"
  by (simp add: same_prover_def)

lemma run_round_roles:
  assumes "run_round C F wl l (r, h) rs = Inr rs'" "rs_role rs = Prover pr"
  shows "\<exists>pr'. rs_role rs' = Prover pr' \<and> same_prover pr pr' \<and>
    (\<forall>l' r' h'. (l', r', h') \<noteq> (l, r, h) \<longrightarrow>
       proof_polynomial (pr_proof pr') l' r' h' = proof_polynomial (pr_proof pr) l' r' h') \<and>
    (\<forall>l'. proof_claims (pr_proof pr') l' = proof_claims (pr_proof pr) l') \<and>
    (\<forall>pub pf. proof_polynomial pf l r h = proof_polynomial (pr_proof pr') l r h \<longrightarrow>
       run_round C F wl l (r, h) (rs\<lparr>rs_role := Verifier pub pf\<rparr>) = Inr (rs'\<lparr>rs_role := Verifier pub pf\<rparr>))"
proof -
  obtain poly role x t b role' quad ix where
    s: "role_polynomial F (rs_quad rs) l r h (Prover pr) = Inr (poly, role)"
    "one_challenge C F (write_polynomial F poly (rs_transcript rs)) = Inr (x, t)"
    "upd_res (hand_of h (rs_bindings rs)) r x = Inr b" "role_bind F l h x role = Inr role'"
    "bind_hand h x (rs_quad rs) = Inr quad" "polynomial_witness_indices wl l r (hand_index h) = Inr ix"
    and rs': "rs' = \<lparr>rs_role = role', rs_transcript = t, rs_quad = quad,
      rs_bindings = set_hand h b (rs_bindings rs), rs_claim = next_claim F ix poly x (rs_claim rs)\<rparr>"
    using assms by (auto simp: run_round_def)
  from s(1) obtain pr1 where pr1: "role = Prover pr1" "pr_evaluation pr1 = pr_evaluation pr"
    "pr_witness pr1 = pr_witness pr" "set_proof_polynomial l r h poly (pr_proof pr) = Inr (pr_proof pr1)"
    by (elim role_polynomial_Prover)
  from s(4) [unfolded pr1(1)] obtain pr2 where pr2: "role' = Prover pr2"
    "pr_evaluation pr2 = pr_evaluation pr1" "pr_witness pr2 = pr_witness pr1" "pr_proof pr2 = pr_proof pr1"
    by (elim role_bind_Prover)
  note get = set_proof_polynomial_get [OF pr1(4)]
  have "run_round C F wl l (r, h) (rs\<lparr>rs_role := Verifier pub pf\<rparr>) = Inr (rs'\<lparr>rs_role := Verifier pub pf\<rparr>)"
    if "proof_polynomial pf l r h = proof_polynomial (pr_proof pr2) l r h" for pub pf
    using that s rs' by (simp add: run_round_def pr2(4) get(1))
  then show ?thesis
    using rs' pr1 pr2 get by (intro exI [of _ pr2]) (auto simp: same_prover_def)
qed

lemma run_rounds_roles:
  assumes "fold_res (run_round C F wl l) rds rs = Inr rs'" "rs_role rs = Prover pr" "distinct rds"
  shows "\<exists>pr'. rs_role rs' = Prover pr' \<and> same_prover pr pr' \<and>
    (\<forall>l' r' h'. l' \<noteq> l \<or> (r', h') \<notin> set rds \<longrightarrow>
       proof_polynomial (pr_proof pr') l' r' h' = proof_polynomial (pr_proof pr) l' r' h') \<and>
    (\<forall>l'. proof_claims (pr_proof pr') l' = proof_claims (pr_proof pr) l') \<and>
    (\<forall>pub pf. (\<forall>r h. proof_polynomial pf l r h = proof_polynomial (pr_proof pr') l r h) \<longrightarrow>
       fold_res (run_round C F wl l) rds (rs\<lparr>rs_role := Verifier pub pf\<rparr>) =
         Inr (rs'\<lparr>rs_role := Verifier pub pf\<rparr>))"
  using assms
proof (induction rds arbitrary: rs pr)
  case (Cons rh rds)
  obtain r h where rh: "rh = (r, h)" by (cases rh)
  obtain rs1 where rs1: "run_round C F wl l (r, h) rs = Inr rs1"
    "fold_res (run_round C F wl l) rds rs1 = Inr rs'"
    using Cons.prems(1) rh by auto
  from run_round_roles [OF rs1(1) Cons.prems(2)] obtain pr1 where pr1: "rs_role rs1 = Prover pr1"
    "same_prover pr pr1"
    "\<And>l' r' h'. (l', r', h') \<noteq> (l, r, h) \<Longrightarrow>
       proof_polynomial (pr_proof pr1) l' r' h' = proof_polynomial (pr_proof pr) l' r' h'"
    "\<And>l'. proof_claims (pr_proof pr1) l' = proof_claims (pr_proof pr) l'"
    "\<And>pub pf. proof_polynomial pf l r h = proof_polynomial (pr_proof pr1) l r h \<Longrightarrow>
       run_round C F wl l (r, h) (rs\<lparr>rs_role := Verifier pub pf\<rparr>) = Inr (rs1\<lparr>rs_role := Verifier pub pf\<rparr>)"
    by blast
  from Cons.IH [OF rs1(2) pr1(1)] Cons.prems(3) obtain pr2 where pr2: "rs_role rs' = Prover pr2"
    "same_prover pr1 pr2"
    "\<And>l' r' h'. l' \<noteq> l \<or> (r', h') \<notin> set rds \<Longrightarrow>
       proof_polynomial (pr_proof pr2) l' r' h' = proof_polynomial (pr_proof pr1) l' r' h'"
    "\<And>l'. proof_claims (pr_proof pr2) l' = proof_claims (pr_proof pr1) l'"
    "\<And>pub pf. (\<forall>r h. proof_polynomial pf l r h = proof_polynomial (pr_proof pr2) l r h) \<Longrightarrow>
       fold_res (run_round C F wl l) rds (rs1\<lparr>rs_role := Verifier pub pf\<rparr>) =
         Inr (rs'\<lparr>rs_role := Verifier pub pf\<rparr>)"
    by auto
  have "(r, h) \<notin> set rds" using Cons.prems(3) rh by simp
  then have "proof_polynomial (pr_proof pr2) l r h = proof_polynomial (pr_proof pr1) l r h"
    by (intro pr2(3)) simp
  then have "fold_res (run_round C F wl l) (rh # rds) (rs\<lparr>rs_role := Verifier pub pf\<rparr>) =
         Inr (rs'\<lparr>rs_role := Verifier pub pf\<rparr>)"
    if "\<forall>r h. proof_polynomial pf l r h = proof_polynomial (pr_proof pr2) l r h" for pub pf
    using that rh by (simp add: pr1(5) pr2(5))
  moreover have "proof_polynomial (pr_proof pr2) l' r' h' = proof_polynomial (pr_proof pr) l' r' h'"
    if "l' \<noteq> l \<or> (r', h') \<notin> set (rh # rds)" for l' r' h'
    using that pr1(3) pr2(3) rh by auto
  ultimately show ?case
    using pr1(2,4) pr2(1,2,4) same_prover_trans by (intro exI [of _ pr2]) auto
qed auto

lemma distinct_rounds_upto: "distinct (rounds_upto n)"
proof -
  have "set (rounds_upto n) = {..<n} \<times> UNIV \<and> distinct (rounds_upto n)"
  proof (induction n)
    case (Suc n)
    have "(UNIV :: hand set) = {HLeft, HRight}" using hand.exhaust by auto
    with Suc show ?case by (auto simp: less_Suc_eq)
  qed simp
  then show ?thesis ..
qed

lemma run_layer_roles:
  assumes "run_layer C F c wl (l, layer) ps = Inr ps'" "ps_role ps = Prover pr"
  shows "\<exists>pr'. ps_role ps' = Prover pr' \<and> same_prover pr pr' \<and>
    (\<forall>l'. l' \<noteq> l \<longrightarrow> agree_on_layer l' (pr_proof pr') (pr_proof pr)) \<and>
    (\<forall>pub pf. agree_on_layer l pf (pr_proof pr') \<longrightarrow>
       run_layer C F c wl (l, layer) (ps\<lparr>ps_role := Verifier pub pf\<rparr>) =
         Inr (ps'\<lparr>ps_role := Verifier pub pf\<rparr>))"
proof -
  let ?logw = "unat (layer_logw layer)"
  obtain alpha t0 beta t1 quad0 quad claim rs bound vl vr role ix t2 where
    s: "one_challenge C F (ps_transcript ps) = Inr (alpha, t0)" "one_challenge C F t0 = Inr (beta, t1)"
    "combined_quad c l beta = Inr quad0"
    "bindv_gate (fst (ps_bindings ps)) (snd (ps_bindings ps)) alpha quad0 = Inr quad"
    "initial_claim wl l (ps_claims ps) alpha = Inr claim"
    "fold_res (run_round C F wl l) (rounds_upto ?logw)
         \<lparr>rs_role = Prover pr, rs_transcript = t1, rs_quad = quad,
          rs_bindings = (replicate ?logw 0, replicate ?logw 0), rs_claim = claim\<rparr> = Inr rs"
      (is "fold_res _ _ ?rs = _")
    "single_quad (rs_quad rs) = Inr bound" "role_claims l (rs_role rs) = Inr ((vl, vr), role)"
    "wire_witness_indices wl l = Inr ix"
    "write_field_element_array F [vl, vr] (rs_transcript rs) = Inr t2"
    and ps': "ps' = \<lparr>ps_role = role, ps_transcript = t2, ps_bindings = rs_bindings rs, ps_claims = (vl, vr),
       ps_constraints = add_constraint (final_layer_claim ix bound (vl, vr) (rs_claim rs))
         (bound * vl * vr - se_known (final_layer_claim ix bound (vl, vr) (rs_claim rs)))
         (ps_constraints ps)\<rparr>"
    using assms by (auto simp: run_layer_def Let_def)
  from run_rounds_roles [OF s(6) _ distinct_rounds_upto, of pr] obtain pr1 where
    pr1: "rs_role rs = Prover pr1" "same_prover pr pr1"
    "\<And>l' r h. l' \<noteq> l \<Longrightarrow> proof_polynomial (pr_proof pr1) l' r h = proof_polynomial (pr_proof pr) l' r h"
    "\<And>l'. proof_claims (pr_proof pr1) l' = proof_claims (pr_proof pr) l'"
    "\<And>pub pf. (\<forall>r h. proof_polynomial pf l r h = proof_polynomial (pr_proof pr1) l r h) \<Longrightarrow>
       fold_res (run_round C F wl l) (rounds_upto ?logw) (?rs\<lparr>rs_role := Verifier pub pf\<rparr>) =
         Inr (rs\<lparr>rs_role := Verifier pub pf\<rparr>)"
    by auto
  from s(8) [unfolded pr1(1)] obtain pr2 where pr2: "role = Prover pr2"
    "pr_evaluation pr2 = pr_evaluation pr1" "pr_witness pr2 = pr_witness pr1"
    "set_proof_claims l vl vr (pr_proof pr1) = Inr (pr_proof pr2)"
    by (elim role_claims_Prover)
  note get = set_proof_claims_get [OF pr2(4)]
  have "run_layer C F c wl (l, layer) (ps\<lparr>ps_role := Verifier pub pf\<rparr>) = Inr (ps'\<lparr>ps_role := Verifier pub pf\<rparr>)"
    if "agree_on_layer l pf (pr_proof pr2)" for pub pf
  proof -
    have "proof_polynomial pf l r h = proof_polynomial (pr_proof pr1) l r h" for r h
      using that get(1) by (simp add: agree_on_layer_def)
    moreover have "proof_claims pf l = Inr (vl, vr)" using that get(2) by (simp add: agree_on_layer_def)
    then have "role_claims l (Verifier pub pf) = Inr ((vl, vr), Verifier pub pf)"
      by (auto simp: proof_claims_def)
    ultimately show ?thesis using pr1(5) s ps' by (simp add: run_layer_def Let_def)
  qed
  moreover have "agree_on_layer l' (pr_proof pr2) (pr_proof pr)" if "l' \<noteq> l" for l'
    using that get pr1(3,4) by (simp add: agree_on_layer_def)
  ultimately show ?thesis
    using ps' pr1(2) pr2(1-3) by (intro exI [of _ pr2]) (auto simp: same_prover_def)
qed

lemma run_layers_roles:
  assumes "fold_res (run_layer C F c wl) (enumerate k ls) ps = Inr ps'" "ps_role ps = Prover pr"
  shows "\<exists>pr'. ps_role ps' = Prover pr' \<and> same_prover pr pr' \<and>
    (\<forall>l. l < k \<longrightarrow> agree_on_layer l (pr_proof pr') (pr_proof pr)) \<and>
    (\<forall>pub. fold_res (run_layer C F c wl) (enumerate k ls) (ps\<lparr>ps_role := Verifier pub (pr_proof pr')\<rparr>) =
       Inr (ps'\<lparr>ps_role := Verifier pub (pr_proof pr')\<rparr>))"
  using assms
proof (induction ls arbitrary: k ps pr)
  case (Cons layer ls)
  obtain ps1 where ps1: "run_layer C F c wl (k, layer) ps = Inr ps1"
    "fold_res (run_layer C F c wl) (enumerate (Suc k) ls) ps1 = Inr ps'"
    using Cons.prems(1) by auto
  from run_layer_roles [OF ps1(1) Cons.prems(2)] obtain pr1 where pr1: "ps_role ps1 = Prover pr1"
    "same_prover pr pr1" "\<And>l'. l' \<noteq> k \<Longrightarrow> agree_on_layer l' (pr_proof pr1) (pr_proof pr)"
    "\<And>pub pf. agree_on_layer k pf (pr_proof pr1) \<Longrightarrow>
       run_layer C F c wl (k, layer) (ps\<lparr>ps_role := Verifier pub pf\<rparr>) = Inr (ps1\<lparr>ps_role := Verifier pub pf\<rparr>)"
    by blast
  from Cons.IH [OF ps1(2) pr1(1)] obtain pr2 where pr2: "ps_role ps' = Prover pr2" "same_prover pr1 pr2"
    "\<And>l. l < Suc k \<Longrightarrow> agree_on_layer l (pr_proof pr2) (pr_proof pr1)"
    "\<And>pub. fold_res (run_layer C F c wl) (enumerate (Suc k) ls) (ps1\<lparr>ps_role := Verifier pub (pr_proof pr2)\<rparr>) =
       Inr (ps'\<lparr>ps_role := Verifier pub (pr_proof pr2)\<rparr>)"
    by blast
  have "agree_on_layer l (pr_proof pr2) (pr_proof pr)" if "l < k" for l
    using that pr1(3) [of l] pr2(3) [of l] agree_on_layer_trans by auto
  with pr1(2) pr2 same_prover_trans show ?case
    by (intro exI [of _ pr2]) (auto simp: pr1(4))
qed auto

lemma run_protocol_roles:
  assumes "run_protocol C F c t (Prover pr) = Inr (lc, Some pf, t')"
    and "w_layout (pr_witness pr) = layout_from_circuit c"
    and "ev_public_inputs (c_num_public_inputs c) (pr_evaluation pr) = Inr pub"
  shows "run_protocol C F c t (Verifier pub pf) = Inr (lc, None, t')"
proof -
  let ?wl = "layout_from_circuit c"
  let ?init = "\<lambda>role b t. \<lparr>ps_role = role, ps_transcript = t, ps_bindings = (b, b), ps_claims = (0, 0),
         ps_constraints = \<lparr>lc_lhs_terms = [], lc_rhs = []\<rparr>\<rparr>"
  obtain b t0 ps gamma where
    s: "generate_output_wire_bindings C F c t = Inr (b, t0)"
    "fold_res (run_layer C F c ?wl) (enumerate 0 (c_layers c)) (?init (Prover pr) b t0) = Inr ps"
    "one_challenge C F (ps_transcript ps) = Inr (gamma, t')"
    "final_constraint c ?wl pub (ps_bindings ps) (ps_claims ps) gamma (ps_constraints ps) = Inr lc"
    "role_result (ps_role ps) = Some pf"
    using assms by (auto simp: run_protocol_def)
  from run_layers_roles [OF s(2), of pr] obtain pr' where pr': "ps_role ps = Prover pr'"
    "fold_res (run_layer C F c ?wl) (enumerate 0 (c_layers c)) (?init (Verifier pub (pr_proof pr')) b t0) =
       Inr (ps\<lparr>ps_role := Verifier pub (pr_proof pr')\<rparr>)"
    by auto
  have "pf = pr_proof pr'" using s(5) pr'(1) by simp
  moreover have "length pub = c_num_public_inputs c"
    using assms(3) by (auto simp: ev_public_inputs_def split: if_splits)
  ultimately show ?thesis using s pr'(2) by (simp add: run_protocol_def)
qed

lemma prove_then_linear_constraints:
  assumes "sumcheck_prove C F c ev w t = Inr (pf, lc, t')"
    and "w_layout w = layout_from_circuit c"
    and "ev_public_inputs (c_num_public_inputs c) ev = Inr pub"
  shows "sumcheck_linear_constraints C F c pub pf t = Inr (lc, t')"
proof -
  from assms(1) obtain lc' pf' where
    "run_protocol C F c t (Prover \<lparr>pr_evaluation = ev, pr_witness = w, pr_proof = empty_proof c,
       pr_wires = map (\<lambda>layer. (layer, layer)) (ev_wires ev)\<rparr>) = Inr (lc, Some pf, t')"
    by (auto simp: sumcheck_prove_def)
  from run_protocol_roles [OF this] assms(2,3) show ?thesis
    by (simp add: sumcheck_linear_constraints_def)
qed

end
