(* ===== verification/Sumcheck_Range.thy ===== *)
theory Sumcheck_Range
  imports Sumcheck_Roles Ligero_Rows
begin

text \<open>
  The linear constraints that the sumcheck protocol emits are well formed, on either side: every
  term belongs to one of the constraints and names an element of the witness vector. This is what
  Ligero needs of them to build its inner product vector without an index out of range.
\<close>

definition symbolic_in_range :: "nat \<Rightarrow> 'a symbolic \<Rightarrow> bool" where
  "symbolic_in_range n s \<longleftrightarrow> (case sy_witness_index s of None \<Rightarrow> True | Some i \<Rightarrow> i < n)"

definition expr_in_range :: "nat \<Rightarrow> 'a symbolic_expression \<Rightarrow> bool" where
  "expr_in_range n e \<longleftrightarrow> list_all (symbolic_in_range n) (se_terms e)"

lemma symbolic_in_range_simps [simp]:
  "symbolic_in_range n (st_symbolic (term_new i)) \<longleftrightarrow> i < n"
  "symbolic_in_range n (st_symbolic (term_from_known k))"
  "symbolic_in_range n (st_symbolic (term_with_witness i t)) \<longleftrightarrow> i < n"
  "symbolic_in_range n (st_symbolic (term_add t x)) = symbolic_in_range n (st_symbolic t)"
  "symbolic_in_range n (st_symbolic (term_mul t x)) = symbolic_in_range n (st_symbolic t)"
  "symbolic_in_range n (symbolic_mul s x) = symbolic_in_range n s"
  by (simp_all add: symbolic_in_range_def term_new_def term_from_known_def term_with_witness_def
      term_add_def term_mul_def symbolic_mul_def)

lemma expr_in_range_simps [simp]:
  "expr_in_range n (expr_new l)"
  "expr_in_range n (expr_mul e x) = expr_in_range n e"
  by (simp_all add: expr_in_range_def expr_new_def expr_mul_def list.pred_map comp_def)

lemma expr_in_range_add: "expr_in_range n e \<Longrightarrow> symbolic_in_range n (st_symbolic t) \<Longrightarrow> expr_in_range n (expr_add e t)"
  by (simp add: expr_in_range_def expr_add_def)

lemma polynomial_indices_bound:
  "polynomial_witness_indices wl l r h = Inr (i, j) \<Longrightarrow> i < layout_length wl \<and> j < layout_length wl"
  using slot_index_bound [of wl "PolyP0 l r h" i] slot_index_bound [of wl "PolyP2 l r h" j] by simp

lemma wire_indices_bound:
  "wire_witness_indices wl l = Inr (i, j, k) \<Longrightarrow> i < layout_length wl \<and> j < layout_length wl \<and> k < layout_length wl"
  using slot_index_bound [of wl "WireL l" i] slot_index_bound [of wl "WireR l" j] slot_index_bound [of wl "WireLR l" k]
  by simp

text \<open>The first \<open>k\<close> constraints over \<open>n\<close> witnesses.\<close>

definition constraints_in_range :: "nat \<Rightarrow> nat \<Rightarrow> 'a linear_constraints \<Rightarrow> bool" where
  "constraints_in_range n k lc \<longleftrightarrow> length (lc_rhs lc) = k \<and> terms_in_range n lc"

lemma add_constraint_in_range:
  assumes "constraints_in_range n k lc" "expr_in_range n e" "se_constraint_number e = k"
  shows "constraints_in_range n (Suc k) (add_constraint e rhs lc)"
proof -
  have "constraint_number t = se_constraint_number e \<and> witness_index t < n" if "t \<in> set (expr_lhs_terms e)" for t
    using that assms(2)
    by (auto simp: expr_lhs_terms_def List.map_filter_def expr_in_range_def list_all_iff symbolic_in_range_def)
  then show ?thesis
    using assms by (auto simp: constraints_in_range_def terms_in_range_def add_constraint_def less_Suc_eq)
qed

lemma run_round_in_range:
  assumes "run_round C F wl l rh rs = Inr rs'" "expr_in_range (layout_length wl) (rs_claim rs)"
    and "se_constraint_number (rs_claim rs) = k"
  shows "expr_in_range (layout_length wl) (rs_claim rs') \<and> se_constraint_number (rs_claim rs') = k"
proof -
  obtain poly x ix where ix: "polynomial_witness_indices wl l (fst rh) (hand_index (snd rh)) = Inr ix"
    and claim: "rs_claim rs' = next_claim F ix poly x (rs_claim rs)"
    using assms(1) by (auto simp: run_round_def split: prod.splits)
  have "fst ix < layout_length wl" "snd ix < layout_length wl"
    using polynomial_indices_bound [of wl l "fst rh" "hand_index (snd rh)" "fst ix" "snd ix"] ix by simp_all
  then show ?thesis
    using assms(2,3) unfolding claim next_claim_def by (simp add: expr_in_range_add)
qed

lemma initial_claim_in_range:
  "initial_claim wl l claims alpha = Inr e \<Longrightarrow> expr_in_range (layout_length wl) e \<and> se_constraint_number e = l"
  using wire_indices_bound [of wl "l - 1"]
  by (auto simp: initial_claim_def Let_def intro!: expr_in_range_add split: if_splits)

lemma run_layer_in_range:
  assumes "run_layer C F c wl (l, layer) ps = Inr ps'"
    and "constraints_in_range (layout_length wl) l (ps_constraints ps)"
  shows "constraints_in_range (layout_length wl) (Suc l) (ps_constraints ps')"
proof -
  let ?logw = "unat (layer_logw layer)"
  obtain alpha quad claim rs bound claims ix t where
    claim: "initial_claim wl l (ps_claims ps) alpha = Inr claim"
    and rs: "fold_res (run_round C F wl l) (rounds_upto ?logw)
         \<lparr>rs_role = ps_role ps, rs_transcript = t, rs_quad = quad,
          rs_bindings = (replicate ?logw 0, replicate ?logw 0), rs_claim = claim\<rparr> = Inr rs"
    and ix: "wire_witness_indices wl l = Inr ix"
    and ps': "ps_constraints ps' = add_constraint (final_layer_claim ix bound claims (rs_claim rs))
         (bound * fst claims * snd claims - se_known (final_layer_claim ix bound claims (rs_claim rs)))
         (ps_constraints ps)"
    using assms(1) by (auto simp: run_layer_def Let_def)
  have "expr_in_range (layout_length wl) (rs_claim rs) \<and> se_constraint_number (rs_claim rs) = l"
  proof (rule fold_res_invariant [OF rs])
    show "expr_in_range (layout_length wl) (rs_claim s') \<and> se_constraint_number (rs_claim s') = l"
      if "expr_in_range (layout_length wl) (rs_claim s) \<and> se_constraint_number (rs_claim s) = l"
        "run_round C F wl l x s = Inr s'" for x s s'
      using run_round_in_range [OF that(2)] that(1) by blast
  qed (use initial_claim_in_range [OF claim] in simp)
  moreover have "expr_in_range (layout_length wl) (final_layer_claim ix bound claims e)"
    "se_constraint_number (final_layer_claim ix bound claims e) = se_constraint_number e"
    if "expr_in_range (layout_length wl) e" for e
    using that ix wire_indices_bound [of wl l]
    by (cases ix; simp add: final_layer_claim_def expr_in_range_add)+
  ultimately show ?thesis unfolding ps' by (intro add_constraint_in_range assms(2)) auto
qed

lemma run_layers_in_range:
  assumes "fold_res (run_layer C F c wl) (enumerate l ls) ps = Inr ps'"
    and "constraints_in_range (layout_length wl) l (ps_constraints ps)"
  shows "constraints_in_range (layout_length wl) (l + length ls) (ps_constraints ps')"
  using assms
proof (induction ls arbitrary: l ps)
  case (Cons layer ls)
  then obtain ps1 where "run_layer C F c wl (l, layer) ps = Inr ps1"
    "fold_res (run_layer C F c wl) (enumerate (Suc l) ls) ps1 = Inr ps'" by auto
  with Cons.IH [of "Suc l" ps1] run_layer_in_range Cons.prems(2) show ?case by fastforce
qed simp

lemma final_constraint_in_range:
  assumes "final_constraint c wl pub b claims gamma lc = Inr lc'"
    and "constraints_in_range (layout_length wl) (c_num_layers c) lc"
  shows "constraints_in_range (layout_length wl) (Suc (c_num_layers c)) lc'"
proof -
  let ?eq = "bindeq (fst b) (snd b) gamma"
  let ?step = "\<lambda>(i, j) e. and_then (nth_res ?eq (i + c_num_public_inputs c)) (\<lambda>x.
             Inr (expr_add e (term_mul (term_new j) x)))"
  let ?ok = "\<lambda>e. expr_in_range (layout_length wl) e \<and> se_constraint_number e = c_num_layers c"
  obtain e ix rhs where e: "fold_res ?step (enumerate 0 (private_input_witness_indices wl))
      (expr_new (c_num_layers c)) = Inr e"
    and ix: "wire_witness_indices wl (usize_sub (c_num_layers c) 1) = Inr ix"
    and lc': "lc' = add_constraint (expr_add (expr_add e (term_mul (term_new (fst ix)) (- 1)))
      (term_mul (term_new (fst (snd ix))) (- gamma))) rhs lc"
    using assms(1) by (auto simp: final_constraint_def Let_def)
  have "?ok e"
  proof (rule fold_res_invariant [OF e])
    show "?ok t" if "p \<in> set (enumerate 0 (private_input_witness_indices wl))" "?ok s" "?step p s = Inr t" for p s t
    proof -
      have "snd p < wl_num_private_inputs wl"
        using that(1) by (auto simp only: in_set_enumerate_eq private_input_witness_indices_def) simp
      then have "snd p < layout_length wl" by (simp add: layout_length_def)
      with that(2,3) show ?thesis by (cases p) (auto simp: expr_in_range_add)
    qed
  qed simp
  then show ?thesis
    unfolding lc' using ix wire_indices_bound [of wl "usize_sub (c_num_layers c) 1"]
    by (intro add_constraint_in_range assms(2)) (cases ix; simp add: expr_in_range_add)+
qed

lemma run_protocol_in_range:
  assumes "run_protocol C F c t role = Inr (lc, pf, t')" "role_inputs c role = Inr (pub, wl)"
    and "c_num_layers c = length (c_layers c)"
  shows "terms_in_range (layout_length wl) lc" "length (lc_rhs lc) = Suc (c_num_layers c)"
proof -
  let ?init = "\<lambda>b t0. \<lparr>ps_role = role, ps_transcript = t0, ps_bindings = (b, b), ps_claims = (0, 0),
         ps_constraints = \<lparr>lc_lhs_terms = [], lc_rhs = []\<rparr>\<rparr>"
  obtain b t0 ps gamma where
    ps: "fold_res (run_layer C F c wl) (enumerate 0 (c_layers c)) (?init b t0) = Inr ps"
    and lc: "final_constraint c wl pub (ps_bindings ps) (ps_claims ps) gamma (ps_constraints ps) = Inr lc"
    using assms(1,2) by (auto simp: run_protocol_def)
  have "constraints_in_range (layout_length wl) 0 (ps_constraints (?init b t0))"
    by (simp add: constraints_in_range_def terms_in_range_def)
  from run_layers_in_range [OF ps this]
  have "constraints_in_range (layout_length wl) (c_num_layers c) (ps_constraints ps)" by (simp add: assms(3))
  from final_constraint_in_range [OF lc this]
  show "terms_in_range (layout_length wl) lc" "length (lc_rhs lc) = Suc (c_num_layers c)"
    by (simp_all add: constraints_in_range_def)
qed

lemma prove_in_range:
  assumes "sumcheck_prove C F c ev w t = Inr (pf, lc, t')" "w_layout w = wl"
    and "c_num_layers c = length (c_layers c)"
  shows "terms_in_range (layout_length wl) lc" "length (lc_rhs lc) = Suc (c_num_layers c)"
proof -
  let ?role = "Prover \<lparr>pr_evaluation = ev, pr_witness = w, pr_proof = empty_proof c,
       pr_wires = map (\<lambda>layer. (layer, layer)) (ev_wires ev)\<rparr>"
  obtain pf' where run: "run_protocol C F c t ?role = Inr (lc, pf', t')"
    using assms(1) by (auto simp: sumcheck_prove_def)
  then obtain pub where "role_inputs c ?role = Inr (pub, wl)"
    using assms(2) by (auto simp: run_protocol_def)
  from run_protocol_in_range [OF run this assms(3)]
  show "terms_in_range (layout_length wl) lc" "length (lc_rhs lc) = Suc (c_num_layers c)" .
qed

end
