(* ===== verification/Circuit_Eval.thy ===== *)
theory Circuit_Eval
  imports Circuit
begin

text \<open>
  What \<open>evaluate\<close> of \<open>src/src/circuit.rs\<close> computes. Every wire is the sum of the quads that
  feed its gate, an evaluation that succeeds satisfies the in-circuit assertions, a circuit that
  meets the invariants of the source's \<open>check_invariants\<close> never makes the evaluator panic, and
  each layer of an evaluation satisfies the sumcheck relation over the combined quad for every
  \<open>beta\<close>.
\<close>

subsection \<open>The invariants of a circuit\<close>

definition next_width :: "'a circuit \<Rightarrow> nat \<Rightarrow> nat" where
  "next_width c i =
     (if i = 0 then c_num_outputs c else unat (layer_num_wires (c_layers c ! (i - 1))))"

definition quad_in_range :: "'a circuit \<Rightarrow> nat \<Rightarrow> nat \<Rightarrow> quad \<Rightarrow> bool" where
  "quad_in_range c wires gates q \<longleftrightarrow>
     left_wire_index q < wires \<and> right_wire_index q < wires \<and>
     const_table_index q < length (c_constant_table c) \<and> gate_index q < gates"

definition is_z_quad :: "'a :: zero circuit \<Rightarrow> quad \<Rightarrow> bool" where
  "is_z_quad c q \<longleftrightarrow> c_constant_table c ! const_table_index q = 0"

definition q_z_disjoint :: "'a :: zero circuit \<Rightarrow> circuit_layer \<Rightarrow> bool" where
  "q_z_disjoint c layer \<longleftrightarrow>
     list_all (\<lambda>q. list_all (\<lambda>q'.
       gate_index q = gate_index q' \<longrightarrow> is_z_quad c q = is_z_quad c q') (layer_quads layer))
       (layer_quads layer)"

definition layer_invariants :: "'a :: comm_ring_1 circuit \<Rightarrow> nat \<Rightarrow> bool" where
  "layer_invariants c i \<longleftrightarrow>
     (let layer = c_layers c ! i in
      list_all (quad_in_range c (unat (layer_num_wires layer)) (next_width c i)) (layer_quads layer) \<and>
      q_z_disjoint c layer \<and>
      (case combined_quad c i 1 of Inl _ \<Rightarrow> False | Inr qz \<Rightarrow> is_sorted_quads qz))"

definition check_invariants ::
  "(bytes \<Rightarrow> digest) \<Rightarrow> 'a :: comm_ring_1 field_ops \<Rightarrow> 'a circuit \<Rightarrow> bool" where
  "check_invariants sha F c \<longleftrightarrow>
     c_num_layers c = length (c_layers c) \<and>
     list_all (layer_invariants c) [0..<length (c_layers c)] \<and>
     circuit_id sha F c = Inr (c_id c)"

subsection \<open>One layer\<close>

definition quad_output :: "'a :: comm_ring_1 circuit \<Rightarrow> 'a list \<Rightarrow> quad \<Rightarrow> 'a" where
  "quad_output c input q =
     (if is_z_quad c q then 1 else c_constant_table c ! const_table_index q)
     * input ! left_wire_index q * input ! right_wire_index q"

definition gate_sum :: "'a :: comm_ring_1 circuit \<Rightarrow> 'a list \<Rightarrow> quad list \<Rightarrow> nat \<Rightarrow> 'a" where
  "gate_sum c input qs g =
     sum_list (map (\<lambda>q. if gate_index q = g then quad_output c input q else 0) qs)"

lemma gate_sum_simps [simp]:
  "gate_sum c input [] g = 0"
  "gate_sum c input (q # qs) g =
     (if gate_index q = g then quad_output c input q else 0) + gate_sum c input qs g"
  by (simp_all add: gate_sum_def)

lemma evaluate_quad_ok:
  assumes "quad_in_range c (length input) n q"
  shows "evaluate_quad c input n q (outs, zs) =
    Inr (outs[gate_index q := outs ! gate_index q + quad_output c input q],
         if is_z_quad c q then List.insert (gate_index q) zs else zs)"
  using assms by (simp add: evaluate_quad_def quad_in_range_def circuit_constant_def nth_opt_def
      is_z_quad_def quad_output_def)

lemma evaluate_quad_in_range:
  assumes "evaluate_quad c input n q st = Inr st'"
  shows "quad_in_range c (length input) n q"
  using assms by (auto simp: evaluate_quad_def quad_in_range_def circuit_constant_def
      split: prod.splits if_splits)

lemma evaluate_quads_ok:
  assumes "list_all (quad_in_range c (length input) n) qs" "length outs = n"
  shows "\<exists>outs' zs'. fold_res (evaluate_quad c input n) qs (outs, zs) = Inr (outs', zs') \<and>
    length outs' = n \<and> (\<forall>g < n. outs' ! g = outs ! g + gate_sum c input qs g) \<and>
    set zs' = set zs \<union> gate_index ` {q \<in> set qs. is_z_quad c q}"
  using assms
proof (induction qs arbitrary: outs zs)
  case (Cons q qs)
  let ?outs = "outs[gate_index q := outs ! gate_index q + quad_output c input q]"
  let ?zs = "if is_z_quad c q then List.insert (gate_index q) zs else zs"
  have q: "quad_in_range c (length input) n q" and g: "gate_index q < length outs"
    using Cons.prems by (simp_all add: quad_in_range_def)
  have "\<exists>outs' zs'. fold_res (evaluate_quad c input n) qs (?outs, ?zs) = Inr (outs', zs') \<and>
    length outs' = n \<and> (\<forall>g < n. outs' ! g = ?outs ! g + gate_sum c input qs g) \<and>
    set zs' = set ?zs \<union> gate_index ` {q \<in> set qs. is_z_quad c q}"
    using Cons.prems by (intro Cons.IH) simp_all
  then obtain outs' zs' where *: "fold_res (evaluate_quad c input n) qs (?outs, ?zs) = Inr (outs', zs')"
    "length outs' = n" "\<And>g. g < n \<Longrightarrow> outs' ! g = ?outs ! g + gate_sum c input qs g"
    "set zs' = set ?zs \<union> gate_index ` {q \<in> set qs. is_z_quad c q}" by blast
  have "outs' ! k = outs ! k + gate_sum c input (q # qs) k" if "k < n" for k
    using *(3) [OF that] by (simp add: nth_list_update_add [OF g])
  moreover have "set zs' = set zs \<union> gate_index ` {q' \<in> set (q # qs). is_z_quad c q'}"
    unfolding *(4) by auto
  ultimately show ?case
    using * by (simp add: evaluate_quad_ok [OF q])
qed simp

lemma evaluate_quads_in_range:
  "fold_res (evaluate_quad c input n) qs st = Inr st' \<Longrightarrow>
   list_all (quad_in_range c (length input) n) qs"
  by (induction qs arbitrary: st) (auto dest: evaluate_quad_in_range)

text \<open>A layer whose quads are in range either fails an assertion or yields the gate sums.\<close>

definition assertions_hold :: "'a :: comm_ring_1 circuit \<Rightarrow> 'a list \<Rightarrow> circuit_layer \<Rightarrow> bool" where
  "assertions_hold c input layer \<longleftrightarrow>
     (\<forall>q \<in> set (layer_quads layer). is_z_quad c q \<longrightarrow>
        gate_sum c input (layer_quads layer) (gate_index q) = 0)"

lemma evaluate_layer_eq:
  assumes "list_all (quad_in_range c (length input) n) (layer_quads layer)"
  shows "evaluate_layer c input n layer =
    (if assertions_hold c input layer
     then Inr (map (gate_sum c input (layer_quads layer)) [0..<n])
     else Inl (Fail ''in-circuit assertion failed''))"
proof -
  let ?qs = "layer_quads layer"
  obtain outs zs where o: "fold_res (evaluate_quad c input n) ?qs (replicate n 0, []) = Inr (outs, zs)"
    "length outs = n" "\<And>g. g < n \<Longrightarrow> outs ! g = gate_sum c input ?qs g"
    "set zs = gate_index ` {q \<in> set ?qs. is_z_quad c q}"
    using evaluate_quads_ok [OF assms, of "replicate n 0" "[]"] by auto
  have outs: "outs = map (gate_sum c input ?qs) [0..<n]"
    using o(2,3) by (intro nth_equalityI) simp_all
  have "gate_index q < n" if "q \<in> set ?qs" for q
    using assms that by (auto simp: list_all_iff quad_in_range_def)
  then have "list_ex (\<lambda>g. outs ! g \<noteq> 0) zs \<longleftrightarrow> \<not> assertions_hold c input layer"
    unfolding list_ex_iff o(4) assertions_hold_def by (auto simp: o(3))
  with o(1) outs show ?thesis by (simp add: evaluate_layer_def)
qed

lemma evaluate_layer_Inr:
  assumes "evaluate_layer c input n layer = Inr outs"
  shows "list_all (quad_in_range c (length input) n) (layer_quads layer)"
    "assertions_hold c input layer" "outs = map (gate_sum c input (layer_quads layer)) [0..<n]"
proof -
  show r: "list_all (quad_in_range c (length input) n) (layer_quads layer)"
    using assms by (auto simp: evaluate_layer_def intro: evaluate_quads_in_range)
  show "assertions_hold c input layer" "outs = map (gate_sum c input (layer_quads layer)) [0..<n]"
    using assms by (auto simp: evaluate_layer_eq [OF r] split: if_splits)
qed

subsection \<open>The sumcheck relation of a layer\<close>

definition combined_value :: "'a :: comm_ring_1 circuit \<Rightarrow> 'a \<Rightarrow> quad \<Rightarrow> 'a" where
  "combined_value c beta q =
     (if is_z_quad c q then beta else c_constant_table c ! const_table_index q)"

definition combined_element :: "'a :: comm_ring_1 circuit \<Rightarrow> 'a \<Rightarrow> quad \<Rightarrow> 'a sparse_quad" where
  "combined_element c beta q =
     \<lparr>sq_gate_index = gate_index q, sq_left_wire_index = left_wire_index q,
      sq_right_wire_index = right_wire_index q, sq_coefficient = combined_value c beta q\<rparr>"

lemma combined_quad_eq:
  assumes "i < length (c_layers c)"
    and "\<forall>q \<in> set (layer_quads (c_layers c ! i)). const_table_index q < length (c_constant_table c)"
  shows "combined_quad c i beta = Inr (map (combined_element c beta) (layer_quads (c_layers c ! i)))"
proof -
  have "combined_quad_element c beta q = Inr (combined_element c beta q)"
    if "q \<in> set (layer_quads (c_layers c ! i))" for q
    using assms(2) that by (simp add: combined_quad_element_def circuit_constant_def nth_opt_def
        combined_element_def combined_value_def is_z_quad_def)
  then show ?thesis using assms(1) by (simp add: combined_quad_def map_res_Inr_map)
qed

text \<open>The double sum over the wires visits every quad once.\<close>

lemma sum_single2:
  fixes x :: "'a :: comm_ring_1" and n :: nat
  assumes "a < n" "b < n"
  shows "(\<Sum>l < n. \<Sum>r < n. (if P \<and> a = l \<and> b = r then x else 0) * V l * W r) =
    (if P then x * V a * W b else 0)"
proof -
  have "(\<Sum>r < n. (if P \<and> a = l \<and> b = r then x else 0) * V l * W r) =
      (if l = a then if P then x * V l * W b else 0 else 0)" for l
  proof -
    have "(\<Sum>r < n. (if P \<and> a = l \<and> b = r then x else 0) * V l * W r) =
        (\<Sum>r < n. if r = b then (if l = a then if P then x * V a * W r else 0 else 0) else 0)"
      by (intro sum.cong) auto
    also have "\<dots> = (if b \<in> {..<n} then if l = a then if P then x * V a * W b else 0 else 0 else 0)"
      by (rule sum.delta) simp
    finally show ?thesis using assms(2) by auto
  qed
  then have "(\<Sum>l < n. \<Sum>r < n. (if P \<and> a = l \<and> b = r then x else 0) * V l * W r) =
      (\<Sum>l < n. if l = a then if P then x * V l * W b else 0 else 0)"
    by (rule sum.cong [OF refl])
  also have "\<dots> = (if a \<in> {..<n} then if P then x * V a * W b else 0 else 0)"
    by (rule sum.delta) simp
  finally show ?thesis using assms(1) by auto
qed

lemma combined_double_sum:
  assumes "list_all (quad_in_range c n m) qs"
  shows "(\<Sum>l < n. \<Sum>r < n. sq_denote (map (combined_element c beta) qs) g l r * V l * W r) =
    sum_list (map (\<lambda>q. if gate_index q = g then combined_value c beta q
      * V (left_wire_index q) * W (right_wire_index q) else 0) qs)"
  using assms
proof (induction qs)
  case (Cons q qs)
  have q: "left_wire_index q < n" "right_wire_index q < n"
    using Cons.prems by (simp_all add: quad_in_range_def)
  have "sq_denote (map (combined_element c beta) (q # qs)) g l r =
      (if gate_index q = g \<and> left_wire_index q = l \<and> right_wire_index q = r
       then combined_value c beta q else 0)
      + sq_denote (map (combined_element c beta) qs) g l r" for l r
    by (simp add: sq_denote_def combined_element_def)
  then show ?case
    using Cons by (simp add: distrib_right sum.distrib sum_single2 [OF q])
qed (simp add: sq_denote_def)

lemma gate_sum_combined:
  assumes "assertions_hold c input layer" "q_z_disjoint c layer"
  shows "sum_list (map (\<lambda>q. if gate_index q = g then combined_value c beta q
      * input ! left_wire_index q * input ! right_wire_index q else 0) (layer_quads layer)) =
    gate_sum c input (layer_quads layer) g" (is "sum_list (map ?f ?qs) = _")
proof (cases "\<exists>q \<in> set ?qs. gate_index q = g \<and> is_z_quad c q")
  case True
  have z: "is_z_quad c q" if q: "q \<in> set ?qs" "gate_index q = g" for q
  proof -
    obtain q' where q': "q' \<in> set ?qs" "gate_index q' = g" "is_z_quad c q'"
      using True by (elim bexE conjE)
    have "is_z_quad c q' = is_z_quad c q"
      by (rule assms(2) [unfolded q_z_disjoint_def list_all_iff, rule_format, OF q'(1) q(1)])
        (simp only: q'(2) q(2))
    with q'(3) show ?thesis by simp
  qed
  have "map ?f ?qs =
      map (\<lambda>q. beta * (if gate_index q = g then quad_output c input q else 0)) ?qs"
    by (intro map_cong refl) (simp add: z combined_value_def quad_output_def mult.assoc)
  then have "sum_list (map ?f ?qs) = beta * gate_sum c input ?qs g"
    by (simp only: gate_sum_def sum_list_map_mult_left)
  moreover have "gate_sum c input ?qs g = 0"
    using assms(1) True unfolding assertions_hold_def by blast
  ultimately show ?thesis by simp
next
  case False
  then have "?f q = (if gate_index q = g then quad_output c input q else 0)" if "q \<in> set ?qs" for q
    using that False by (auto simp add: combined_value_def quad_output_def)
  then have "map ?f ?qs = map (\<lambda>q. if gate_index q = g then quad_output c input q else 0) ?qs"
    by (rule map_cong [OF refl])
  then show ?thesis by (simp only: gate_sum_def)
qed

subsection \<open>All layers\<close>

definition evaluate_width :: "'a circuit \<Rightarrow> nat \<Rightarrow> nat res" where
  "evaluate_width c k =
     (let output_layer_index = usize_sub (c_num_layers c) 1
      in if k = output_layer_index then Inr (c_num_outputs c)
         else and_then (nth_res (c_layers c) (usize_sub (usize_sub output_layer_index k) 1))
                (\<lambda>l. Inr (unat (layer_num_wires l))))"

lemma evaluate_step_eq:
  "evaluate_step c (k, layer) wires =
     and_then (evaluate_width c k) (\<lambda>n.
     and_then (nth_res wires k) (\<lambda>input.
     and_then (evaluate_layer c input n layer) (\<lambda>outs. Inr (wires @ [outs]))))"
  by (simp add: evaluate_step_def evaluate_width_def Let_def)

lemma evaluate_width_eq:
  assumes "c_num_layers c = length (c_layers c)" "length (c_layers c) < 2 ^ 64"
    and "k < length (c_layers c)"
  shows "evaluate_width c k = Inr (next_width c (length (c_layers c) - 1 - k))"
proof (cases "k = length (c_layers c) - 1")
  case False
  then have "length (c_layers c) - 1 - k - 1 < length (c_layers c)" "1 \<le> length (c_layers c) - 1 - k"
    using assms(3) by simp_all
  moreover have "usize_sub (length (c_layers c)) 1 = length (c_layers c) - 1"
    "usize_sub (length (c_layers c) - 1) k = length (c_layers c) - 1 - k"
    "usize_sub (length (c_layers c) - 1 - k) 1 = length (c_layers c) - 1 - k - 1"
    using False assms by (intro usize_sub_eq; simp)+
  moreover have "\<not> length (c_layers c) \<le> Suc k" using False assms(3) by simp
  ultimately show ?thesis
    using False assms(1) by (simp add: evaluate_width_def next_width_def)
qed (use assms in \<open>simp add: evaluate_width_def next_width_def\<close>)

lemma evaluate_steps:
  assumes "fold_res (evaluate_step c) (enumerate k ls) wires = Inr wires'" "length wires = Suc k"
  shows "length wires' = Suc (k + length ls) \<and> take (Suc k) wires' = wires \<and>
    (\<forall>j < length ls. \<exists>n. evaluate_width c (k + j) = Inr n \<and>
       evaluate_layer c (wires' ! (k + j)) n (ls ! j) = Inr (wires' ! (k + j + 1)))"
  using assms
proof (induction ls arbitrary: k wires)
  case (Cons l ls)
  from Cons.prems obtain n outs where n: "evaluate_width c k = Inr n"
    and outs: "evaluate_layer c (wires ! k) n l = Inr outs"
    and rec: "fold_res (evaluate_step c) (enumerate (Suc k) ls) (wires @ [outs]) = Inr wires'"
    by (auto simp: evaluate_step_eq)
  have IH: "length wires' = Suc (Suc k + length ls)" "take (Suc (Suc k)) wires' = wires @ [outs]"
    "\<And>j. j < length ls \<Longrightarrow> \<exists>n. evaluate_width c (Suc k + j) = Inr n \<and>
       evaluate_layer c (wires' ! (Suc k + j)) n (ls ! j) = Inr (wires' ! (Suc k + j + 1))"
    using Cons.IH [OF rec] Cons.prems(2) by auto
  have "take (Suc k) wires' = take (Suc k) (take (Suc (Suc k)) wires')" by simp
  then have t: "take (Suc k) wires' = wires" using Cons.prems(2) by (simp add: IH(2) del: take_take)
  have "wires' ! k = wires ! k" using t by (metis lessI nth_take)
  moreover have "wires' ! Suc k = take (Suc (Suc k)) wires' ! Suc k" by simp
  then have "wires' ! Suc k = outs" unfolding IH(2) using Cons.prems(2) by (simp add: nth_append)
  ultimately have zero: "\<exists>n. evaluate_width c k = Inr n \<and>
      evaluate_layer c (wires' ! k) n l = Inr (wires' ! Suc k)"
    using n outs by simp
  have "\<exists>n. evaluate_width c (k + j) = Inr n \<and>
       evaluate_layer c (wires' ! (k + j)) n ((l # ls) ! j) = Inr (wires' ! (k + j + 1))"
    if "j < length (l # ls)" for j
    using that zero IH(3) [of "j - 1"] by (cases j) auto
  with IH(1) t show ?case by simp
qed simp

lemma evaluate_layers:
  assumes "evaluate c inputs = Inr ev"
    and "c_num_layers c = length (c_layers c)" "length (c_layers c) < 2 ^ 64"
  shows "length (ev_wires ev) = Suc (length (c_layers c))"
    "ev_wires ev ! length (c_layers c) = inputs" "inputs ! 0 = 1"
    "i < length (c_layers c) \<Longrightarrow>
       evaluate_layer c (ev_wires ev ! Suc i) (next_width c i) (c_layers c ! i) = Inr (ev_wires ev ! i)"
proof -
  let ?n = "length (c_layers c)"
  from assms(1) obtain ws where
    ws: "fold_res (evaluate_step c) (enumerate 0 (rev (c_layers c))) [inputs] = Inr ws"
    and ev: "ev_wires ev = rev ws" and one: "inputs ! 0 = 1"
    by (auto simp: evaluate_def nth_res_Inr_iff split: if_splits)
  note steps = evaluate_steps [OF ws, simplified]
  have len: "length ws = Suc ?n" using steps by simp
  have "ws ! 0 = inputs" using steps by (metis lessI nth_Cons_0 nth_take)
  then show "length (ev_wires ev) = Suc ?n" "ev_wires ev ! ?n = inputs" "inputs ! 0 = 1"
    using len one by (simp_all add: ev rev_nth)
  assume i: "i < ?n"
  let ?j = "?n - 1 - i"
  have j: "?j < ?n" using i by simp
  obtain n where n: "evaluate_width c ?j = Inr n"
    "evaluate_layer c (ws ! ?j) n (rev (c_layers c) ! ?j) = Inr (ws ! Suc ?j)"
    using steps j by fastforce
  have "evaluate_width c ?j = Inr (next_width c (?n - 1 - ?j))"
    by (rule evaluate_width_eq [OF assms(2,3) j])
  then have "n = next_width c i" using n(1) i by simp
  moreover have "rev (c_layers c) ! ?j = c_layers c ! i" using i by (simp add: rev_nth)
  moreover have "ws ! ?j = ev_wires ev ! Suc i" "ws ! Suc ?j = ev_wires ev ! i"
    using i len by (simp_all add: ev rev_nth Suc_diff_Suc)
  ultimately show
    "evaluate_layer c (ev_wires ev ! Suc i) (next_width c i) (c_layers c ! i) = Inr (ev_wires ev ! i)"
    using n(2) by simp
qed

subsection \<open>Circuits that meet the invariants\<close>

lemma layer_invariantsD:
  assumes "layer_invariants c i"
  shows "list_all (quad_in_range c (unat (layer_num_wires (c_layers c ! i))) (next_width c i))
      (layer_quads (c_layers c ! i))"
    and "q_z_disjoint c (c_layers c ! i)"
    and "\<exists>qz. combined_quad c i 1 = Inr qz \<and> is_sorted_quads qz"
  using assms by (auto simp: layer_invariants_def Let_def split: sum.splits)

lemma check_invariantsD:
  assumes "check_invariants sha F c"
  shows "c_num_layers c = length (c_layers c)" "i < length (c_layers c) \<Longrightarrow> layer_invariants c i"
    "circuit_id sha F c = Inr (c_id c)"
  using assms by (auto simp: check_invariants_def list_all_iff)

lemma quad_in_range_const:
  "list_all (quad_in_range c n m) qs \<Longrightarrow> \<forall>q \<in> set qs. const_table_index q < length (c_constant_table c)"
  by (auto simp: list_all_iff quad_in_range_def)

text \<open>The relation sumcheck proves for one layer, at every output wire.\<close>

lemma layer_relation:
  assumes "evaluate_layer c input n (c_layers c ! i) = Inr outs" "i < length (c_layers c)"
    and "q_z_disjoint c (c_layers c ! i)" "combined_quad c i beta = Inr qz" "g < n"
  shows "outs ! g = (\<Sum>l < length input. \<Sum>r < length input.
    sq_denote qz g l r * input ! l * input ! r)"
proof -
  let ?qs = "layer_quads (c_layers c ! i)"
  note ev = evaluate_layer_Inr [OF assms(1)]
  have qz: "qz = map (combined_element c beta) ?qs"
    using assms(4) combined_quad_eq [OF assms(2) quad_in_range_const [OF ev(1)]] by simp
  have "outs ! g = gate_sum c input ?qs g" using ev(3) assms(5) by simp
  also have "\<dots> = (\<Sum>l < length input. \<Sum>r < length input.
      sq_denote qz g l r * input ! l * input ! r)"
    unfolding qz combined_double_sum [OF ev(1), of beta g "nth input" "nth input"]
    by (rule gate_sum_combined [OF ev(2) assms(3), symmetric])
  finally show ?thesis .
qed

text \<open>No panic: the only failure of a well-formed run is a failed assertion.\<close>

definition assertion_error :: error where
  "assertion_error = Fail ''in-circuit assertion failed''"

lemma evaluate_steps_total:
  assumes "c_num_layers c = length (c_layers c)" "length (c_layers c) < 2 ^ 64"
    and "\<And>i. i < length (c_layers c) \<Longrightarrow> layer_invariants c i"
    and "ls = drop k (rev (c_layers c))" "length wires = Suc k"
    and "ls \<noteq> [] \<Longrightarrow> length (wires ! k) = unat (layer_num_wires (hd ls))"
  shows "fold_res (evaluate_step c) (enumerate k ls) wires = Inl assertion_error \<or>
    (\<exists>wires'. fold_res (evaluate_step c) (enumerate k ls) wires = Inr wires')"
  using assms(4-)
proof (induction ls arbitrary: k wires)
  case (Cons l ls)
  let ?n = "length (c_layers c)"
  have k: "k < ?n" using Cons.prems(1) by (metis drop_eq_Nil length_rev list.distinct(1) not_le)
  define i where "i = ?n - 1 - k"
  have i: "i < ?n" "?n - 1 - i = k" using k by (simp_all add: i_def)
  have d: "drop k (rev (c_layers c)) = rev (c_layers c) ! k # drop (Suc k) (rev (c_layers c))"
    using k by (simp add: Cons_nth_drop_Suc)
  then have l: "l = c_layers c ! i" and ls: "ls = drop (Suc k) (rev (c_layers c))"
    using Cons.prems(1) k by (simp_all add: rev_nth i_def)
  have w: "evaluate_width c k = Inr (next_width c i)"
    unfolding i_def by (rule evaluate_width_eq [OF assms(1,2) k])
  let ?input = "wires ! k"
  have "length ?input = unat (layer_num_wires (c_layers c ! i))"
    using Cons.prems(3) l by simp
  then have r: "list_all (quad_in_range c (length ?input) (next_width c i)) (layer_quads l)"
    using layer_invariantsD(1) [OF assms(3) [OF i(1)]] l by simp
  show ?case
  proof (cases "assertions_hold c ?input l")
    case False
    then have "evaluate_step c (k, l) wires = Inl assertion_error"
      using w Cons.prems(2) by (simp add: evaluate_step_eq evaluate_layer_eq [OF r] assertion_error_def)
    then show ?thesis by simp
  next
    case True
    define outs where "outs = map (gate_sum c ?input (layer_quads l)) [0..<next_width c i]"
    have step: "evaluate_step c (k, l) wires = Inr (wires @ [outs])"
      using True w Cons.prems(2) by (simp add: evaluate_step_eq evaluate_layer_eq [OF r] outs_def)
    have "length ((wires @ [outs]) ! Suc k) = unat (layer_num_wires (hd ls))" if ne: "ls \<noteq> []"
    proof -
      have lt: "Suc k < ?n" using ne ls by simp
      then have "hd ls = c_layers c ! (i - 1)"
        unfolding ls by (simp add: hd_drop_conv_nth rev_nth i_def)
      moreover have "i \<noteq> 0" using lt by (simp add: i_def)
      ultimately show ?thesis
        using Cons.prems(2) by (simp add: nth_append outs_def next_width_def)
    qed
    with Cons.IH [of "Suc k" "wires @ [outs]"] ls Cons.prems(2) step show ?thesis by simp
  qed
qed simp

lemma evaluate_total:
  assumes "c_num_layers c = length (c_layers c)" "length (c_layers c) < 2 ^ 64"
    and "\<And>i. i < length (c_layers c) \<Longrightarrow> layer_invariants c i"
    and "inputs ! 0 = 1" "inputs \<noteq> []"
    and "c_layers c \<noteq> [] \<Longrightarrow> length inputs = unat (layer_num_wires (last (c_layers c)))"
  shows "evaluate c inputs = Inl assertion_error \<or> (\<exists>ev. evaluate c inputs = Inr ev)"
proof -
  have "hd (rev (c_layers c)) = last (c_layers c)" by (simp add: hd_rev)
  then have "fold_res (evaluate_step c) (enumerate 0 (rev (c_layers c))) [inputs] = Inl assertion_error \<or>
    (\<exists>ws. fold_res (evaluate_step c) (enumerate 0 (rev (c_layers c))) [inputs] = Inr ws)"
    using assms(6) by (intro evaluate_steps_total [OF assms(1-3)]) simp_all
  then show ?thesis using assms(4,5) by (auto simp: evaluate_def)
qed

end
