(* ===== verification/Sumcheck_Complete.thy ===== *)
theory Sumcheck_Complete
  imports Sumcheck_Roles Circuit_Eval
begin

text \<open>
  Completeness of the sumcheck prover: for an evaluation of the circuit, the linear constraints
  it emits hold of the witness vector that was used as the pad. The invariant of the rounds is
  that the symbolic claim, evaluated at the pads, is the value of the sum the protocol is about
  (\<open>layer_sum\<close>); the invariant of the layers is that the two claims plus their pads are the
  multilinear extension of the layer's wires at the two points bound so far.
\<close>

subsection \<open>The sum of a layer\<close>

definition hand_sum :: "hand \<Rightarrow> 'a :: comm_ring_1 sparse_quad list \<Rightarrow> 'a list \<times> 'a list \<Rightarrow> 'a" where
  "hand_sum h quad ws =
     (\<Sum>i < length (hand_of h ws). (\<Sum>v < length (hand_of (opposite h) ws).
        hand_denote h quad 0 i v * hand_of (opposite h) ws ! v) * hand_of h ws ! i)"

definition layer_sum :: "'a :: comm_ring_1 sparse_quad list \<Rightarrow> 'a list \<times> 'a list \<Rightarrow> 'a" where
  "layer_sum quad ws = (\<Sum>l < length (fst ws). \<Sum>r < length (snd ws).
     sq_denote quad 0 l r * fst ws ! l * snd ws ! r)"

lemma hand_sum_layer_sum: "hand_sum h quad ws = layer_sum quad ws"
proof (cases h)
  case HLeft
  then show ?thesis
    by (simp add: hand_sum_def layer_sum_def hand_denote_Left sum_distrib_left mult_ac)
next
  case HRight
  then show ?thesis
    unfolding layer_sum_def
    by (subst sum.swap) (simp add: hand_sum_def hand_denote_Right sum_distrib_left mult_ac)
qed

lemma layer_sum_single:
  assumes "single_quad quad = Inr b"
  shows "layer_sum quad ws = b * element (fst ws) 0 * element (snd ws) 0"
proof -
  obtain q where q: "quad = [q]" "sq_gate_index q = 0" "sq_left_wire_index q = 0"
    "sq_right_wire_index q = 0" "sq_coefficient q = b"
    using assms by (auto simp: single_quad_def split: list.splits if_splits)
  have d: "sq_denote quad 0 l r = (if l = 0 \<and> r = 0 then b else 0)" for l r
    using q by (simp add: sq_denote_def)
  show ?thesis
  proof (cases "fst ws = [] \<or> snd ws = []")
    case False
    have "layer_sum quad ws = (\<Sum>l < length (fst ws). \<Sum>r < length (snd ws).
        (if True \<and> 0 = l \<and> 0 = r then b else 0) * fst ws ! l * snd ws ! r)"
      unfolding layer_sum_def d by (intro sum.cong) auto
    also have "\<dots> = b * fst ws ! 0 * snd ws ! 0"
    proof -
      have "(\<Sum>r < length (snd ws). (if True \<and> 0 = l \<and> 0 = r then b else 0) * fst ws ! l * snd ws ! r) =
          (if l = 0 then b * fst ws ! 0 * snd ws ! 0 else 0)" for l
      proof -
        have "(\<Sum>r < length (snd ws). (if True \<and> 0 = l \<and> 0 = r then b else 0) * fst ws ! l * snd ws ! r) =
            (\<Sum>r < length (snd ws). if r = 0 then (if l = 0 then b * fst ws ! 0 * snd ws ! 0 else 0) else 0)"
          by (intro sum.cong) auto
        then show ?thesis using False by simp
      qed
      then show ?thesis using False by simp
    qed
    finally show ?thesis using False by (simp add: element_def)
  qed (auto simp: layer_sum_def element_def)
qed

subsection \<open>A round's polynomial\<close>

definition round_value :: "(nat \<Rightarrow> 'a :: comm_ring_1) \<Rightarrow> (nat \<Rightarrow> 'a) \<Rightarrow> nat \<Rightarrow> 'a \<Rightarrow> 'a" where
  "round_value A V n x = (\<Sum>i < n. bind_fun x A i * bind_fun x V i)"

lemma round_value_quadratic:
  "\<exists>a b c. \<forall>x. round_value A V n x = a + b * x + c * (x * x)"
proof -
  let ?a = "\<lambda>i. A (2 * i) * V (2 * i)"
  let ?b = "\<lambda>i. A (2 * i) * (V (2 * i + 1) - V (2 * i)) + (A (2 * i + 1) - A (2 * i)) * V (2 * i)"
  let ?c = "\<lambda>i. (A (2 * i + 1) - A (2 * i)) * (V (2 * i + 1) - V (2 * i))"
  have "bind_fun x A i * bind_fun x V i = ?a i + ?b i * x + ?c i * (x * x)" for x i
    by (simp add: bind_fun_def algebra_simps)
  then obtain f g h where "\<And>x i. bind_fun x A i * bind_fun x V i = f i + g i * x + h i * (x * x)"
    by (rule that [of ?a ?b ?c])
  then have "round_value A V n x = sum f {..<n} + sum g {..<n} * x + sum h {..<n} * (x * x)" for x
    by (simp add: round_value_def sum.distrib sum_distrib_right)
  then show ?thesis by blast
qed

lemma sum_lessThan_extend:
  fixes f :: "nat \<Rightarrow> 'b :: comm_monoid_add"
  assumes "m \<le> n" "\<And>i. m \<le> i \<Longrightarrow> i < n \<Longrightarrow> f i = 0"
  shows "(\<Sum>i < n. f i) = (\<Sum>i < m. f i)"
  using assms by (intro sum.mono_neutral_right) auto

lemma round_value_0_1:
  assumes "\<And>i. m \<le> i \<Longrightarrow> V i = 0"
  shows "round_value A V (div_ceil m 2) 0 + round_value A V (div_ceil m 2) 1 = (\<Sum>i < m. A i * V i)"
proof -
  have "round_value A V n 0 + round_value A V n 1 = (\<Sum>i < 2 * n. A i * V i)" for n :: nat
    by (simp add: round_value_def bind_fun_def sum_split_parity sum.distrib)
  also have "(\<Sum>i < 2 * div_ceil m 2. A i * V i) = (\<Sum>i < m. A i * V i)"
    by (rule sum_lessThan_extend) (auto simp: div_ceil_2 assms)
  finally show ?thesis .
qed

lemma fold_enumerate_sum:
  "fold (\<lambda>(i, e) acc. acc + e * f i) (enumerate k es) z =
     z + (\<Sum>i < length es. es ! i * f (k + i)) " for z :: "'a :: comm_ring_1"
proof (induction es arbitrary: k z)
  case (Cons e es)
  then show ?case
    by (simp add: sum.lessThan_Suc_shift add.assoc del: sum.lessThan_Suc)
qed simp

lemma compute_a_steps_in_range:
  assumes "fold_res (compute_a_step h ws) xs A = Inr B"
  shows "wires_in_range h (length A) (length (hand_of (opposite h) ws)) xs"
  using assms
proof (induction xs arbitrary: A)
  case (Cons e xs)
  then obtain A' where A': "compute_a_step h ws e A = Inr A'" "fold_res (compute_a_step h ws) xs A' = Inr B"
    by auto
  have "length A' = length A \<and> hand_wire e h < length A \<and> hand_wire e (opposite h) < length (hand_of (opposite h) ws)"
    using A'(1) by (cases h) (auto simp: compute_a_step_def Let_def nth_res_def upd_res_def split: if_splits)
  with Cons.IH [OF A'(2)] show ?case by (simp add: wires_in_range_def)
qed (simp add: wires_in_range_def)

lemma hand_denote_out_of_range:
  "wires_in_range h n m xs \<Longrightarrow> n \<le> i \<Longrightarrow> hand_denote h xs g i v = 0"
  by (induction xs) (auto simp: wires_in_range_def)

lemma compute_a_Inr:
  assumes "compute_a h ws quad = Inr A" "gate_bound quad"
  shows "length A = length (hand_of h ws)"
    "element A i = (\<Sum>v < length (hand_of (opposite h) ws).
       hand_denote h quad 0 i v * hand_of (opposite h) ws ! v)"
proof -
  have r: "wires_in_range h (length (hand_of h ws)) (length (hand_of (opposite h) ws)) quad"
  proof -
    have "fold_res (compute_a_step h ws) quad (replicate (length (hand_of h ws)) 0) = Inr A"
      using assms(1) by (cases h) (simp_all add: compute_a_def)
    from compute_a_steps_in_range [OF this] show ?thesis by simp
  qed
  from compute_a_hand_denote [OF assms(2) this] obtain A' where
    "compute_a h ws quad = Inr A'" "length A' = length (hand_of h ws)"
    "\<And>i. i < length A' \<Longrightarrow> A' ! i = (\<Sum>v < length (hand_of (opposite h) ws).
       hand_denote h quad 0 i v * hand_of (opposite h) ws ! v)" by blast
  with assms(1) hand_denote_out_of_range [OF r] show "length A = length (hand_of h ws)"
    "element A i = (\<Sum>v < length (hand_of (opposite h) ws).
       hand_denote h quad 0 i v * hand_of (opposite h) ws ! v)" by (auto simp: element_def)
qed

lemma bind_fun_sum: "bind_fun x (\<lambda>k. \<Sum>v \<in> S. f k v * g v) i = (\<Sum>v \<in> S. bind_fun x (\<lambda>k. f k v) i * g v)"
  by (simp add: bind_fun_def sum_distrib_left sum.distrib distrib_right mult.assoc)

context sumcheck_field
begin

lemma evaluate_polynomial_value:
  assumes "evaluate_polynomial F a ws at = Inr e"
  shows "e = round_value (element a) (element ws) (div_ceil (length a) 2) (binding_value F at)"
proof -
  have "bind_iter F a at = Inr (map (bound_element_at F a at) [0..<div_ceil (length a) 2])"
    using assms by (auto simp: evaluate_polynomial_def bind_iter_def)
  with assms have "e = fold (\<lambda>(i, e) acc. acc + e * bound_element_at F ws at i)
      (enumerate 0 (map (bound_element_at F a at) [0..<div_ceil (length a) 2])) 0"
    by (simp add: evaluate_polynomial_def)
  then show ?thesis
    by (simp add: fold_enumerate_sum round_value_def bound_element_at_bind_fun)
qed

text \<open>Binding one hand of the quad and of the wires evaluates the round's polynomial.\<close>

lemma bound_hand_sum:
  assumes "gate_bound quad" "bind_hand h x quad = Inr quad'"
    and "bind_array F (hand_of h ws) (BindOther x) = Inr b"
  shows "hand_sum h quad' (set_hand h b ws) =
    round_value (\<lambda>i. \<Sum>v < length (hand_of (opposite h) ws).
        hand_denote h quad 0 i v * hand_of (opposite h) ws ! v) (element (hand_of h ws))
      (div_ceil (length (hand_of h ws)) 2) x"
proof -
  have q: "quad' = bound_quads h x quad" using assms(1,2) by (simp add: bind_hand_bound_quads)
  have l: "length b = div_ceil (length (hand_of h ws)) 2"
    using bind_array_length [OF assms(3)] by (simp add: div_ceil_2)
  have "b ! i = bind_fun x (element (hand_of h ws)) i" if "i < length b" for i
    using bind_array_bind_fun [OF assms(3)] that
    by (simp add: element_def fun_eq_iff binding_value_def) (metis (no_types, lifting))
  moreover have "opposite h \<noteq> h" by (cases h) simp_all
  ultimately show ?thesis
    using assms(1) by (simp add: hand_sum_def round_value_def l q bound_quads_denote bind_fun_sum)
qed

text \<open>The next claim, evaluated at the pads, is the round's polynomial at the challenge.\<close>

lemma next_claim_eval:
  assumes "\<And>y. f y = a + b * y + c * (y * y)" "expr_eval W claim = f 0 + f 1"
    and "p0 poly + W (fst ix) = f 0" "p2 poly + W (snd ix) = f (fo_p2 F)"
  shows "expr_eval W (next_claim F ix poly x claim) = f x"
proof -
  have "expr_eval W (next_claim F ix poly x claim) =
      (f 0 + f 1) * lagrange_basis_polynomial_1 F x
      + f 0 * (lagrange_basis_polynomial_0 F x - lagrange_basis_polynomial_1 F x)
      + f (fo_p2 F) * lagrange_basis_polynomial_2 F x"
    by (simp add: next_claim_def assms(2) add.commute [of "W _"] assms(3,4))
  also have "\<dots> = f 0 * lagrange_basis_polynomial_0 F x + f 1 * lagrange_basis_polynomial_1 F x
      + f (fo_p2 F) * lagrange_basis_polynomial_2 F x" by (simp add: algebra_simps)
  also have "\<dots> = f x" by (rule lagrange_quadratic [OF assms(1)])
  finally show ?thesis .
qed

end

section \<open>Sumcheck Honest\<close>

text \<open>
  The invariants of an honest prover's run of \<open>run_protocol\<close>: \<open>round_inv\<close> between the rounds
  of a layer and \<open>layer_inv\<close> between the layers, and the theorem that the emitted linear
  constraints hold of the witness vector.
\<close>

subsection \<open>Rounds\<close>

text \<open>
  \<open>k h\<close> rounds of hand \<open>h\<close> have been run on layer \<open>l\<close>, whose input wires are \<open>input\<close>; \<open>wires0\<close> are
  the wires of all layers before the first of these rounds.
\<close>

definition round_inv ::
  "'a :: comm_ring_1 witness \<Rightarrow> ('a list \<times> 'a list) list \<Rightarrow> nat \<Rightarrow> 'a list \<Rightarrow> (hand \<Rightarrow> nat)
   \<Rightarrow> 'a round_state \<Rightarrow> bool" where
  "round_inv w wires0 l input k rs \<longleftrightarrow>
     (\<exists>pr ws. rs_role rs = Prover pr \<and> pr_witness pr = w \<and>
        pr_wires pr = wires0[Suc l := ws] \<and> Suc l < length wires0 \<and>
        (\<forall>h. element (hand_of h ws) = bindv (take (k h) (hand_of h (rs_bindings rs))) (element input)) \<and>
        gate_bound (rs_quad rs) \<and>
        expr_eval (nth (w_values w)) (rs_claim rs) = layer_sum (rs_quad rs) ws)"

lemma se_constraint_number_next [simp]:
  "se_constraint_number (next_claim F ix poly x claim) = se_constraint_number claim"
  by (simp add: next_claim_def)

lemma polynomial_witnesses_pads:
  assumes "polynomial_witnesses w l r h = Inr pad" "polynomial_witness_indices (w_layout w) l r h = Inr ix"
  shows "w_values w ! fst ix = p0 pad" "w_values w ! snd ix = p2 pad"
  using assms
  by (cases ix; auto simp: polynomial_witnesses_def witness_element_def nth_res_Inr_iff)+

context sumcheck_field
begin

lemma prover_polynomial_value:
  fixes ws :: "'a list \<times> 'a list"
  assumes "prover_polynomial F w ws quad l r h = Inr poly" "gate_bound quad"
    and "polynomial_witness_indices (w_layout w) l r (hand_index h) = Inr ix"
    and "A = (\<lambda>i. \<Sum>v < length (hand_of (opposite h) ws).
        hand_denote h quad 0 i v * hand_of (opposite h) ws ! v)"
    and "f = round_value A (element (hand_of h ws)) (div_ceil (length (hand_of h ws)) 2)"
  shows "p0 poly + w_values w ! fst ix = f 0" "p2 poly + w_values w ! snd ix = f (fo_p2 F)"
    and "f 0 + f 1 = layer_sum quad ws"
proof -
  obtain a pad e0 e2 where
    s: "compute_a h ws quad = Inr a" "polynomial_witnesses w l r (hand_index h) = Inr pad"
    "evaluate_polynomial F a (hand_of h ws) BindZero = Inr e0"
    "evaluate_polynomial F a (hand_of h ws) BindSumcheckP2 = Inr e2"
    "poly = \<lparr>p0 = e0 - p0 pad, p2 = e2 - p2 pad\<rparr>"
    using assms(1) by (auto simp: prover_polynomial_def)
  let ?n = "length (hand_of h ws)"
  note a = compute_a_Inr [OF s(1) assms(2)]
  have "element a = A" using a(2) by (simp add: fun_eq_iff assms(4))
  then have val: "round_value (element a) (element (hand_of h ws)) (div_ceil ?n 2) x = f x" for x
    by (simp add: assms(5))
  show "p0 poly + w_values w ! fst ix = f 0" "p2 poly + w_values w ! snd ix = f (fo_p2 F)"
    using polynomial_witnesses_pads [OF s(2) assms(3)] evaluate_polynomial_value [OF s(3)]
      evaluate_polynomial_value [OF s(4)] s(5) a(1)
    by (simp_all add: val binding_value_def)
  have "f 0 + f 1 = (\<Sum>i < ?n. A i * element (hand_of h ws) i)"
    unfolding assms(5) by (rule round_value_0_1) (simp add: element_def)
  also have "\<dots> = hand_sum h quad ws"
    by (simp add: hand_sum_def assms(4) element_def)
  finally show "f 0 + f 1 = layer_sum quad ws" by (simp add: hand_sum_layer_sum)
qed

lemma round_inv_step:
  assumes "round_inv w wires0 l input k rs" "run_round C F (w_layout w) l (r, h) rs = Inr rs'" "k h = r"
  shows "round_inv w wires0 l input (k(h := Suc r)) rs'"
    and "length (hand_of h' (rs_bindings rs')) = length (hand_of h' (rs_bindings rs))"
    and "se_constraint_number (rs_claim rs') = se_constraint_number (rs_claim rs)"
proof -
  obtain pr ws where pr: "rs_role rs = Prover pr" "pr_witness pr = w" "pr_wires pr = wires0[Suc l := ws]"
    "Suc l < length wires0"
    "\<And>h. element (hand_of h ws) = bindv (take (k h) (hand_of h (rs_bindings rs))) (element input)"
    "gate_bound (rs_quad rs)"
    "expr_eval (nth (w_values w)) (rs_claim rs) = layer_sum (rs_quad rs) ws"
    using assms(1) by (auto simp: round_inv_def)
  obtain poly role x t b role' quad ix where
    s: "role_polynomial F (rs_quad rs) l r h (Prover pr) = Inr (poly, role)"
    "upd_res (hand_of h (rs_bindings rs)) r x = Inr b" "role_bind F l h x role = Inr role'"
    "bind_hand h x (rs_quad rs) = Inr quad"
    "polynomial_witness_indices (w_layout w) l r (hand_index h) = Inr ix"
    and rs': "rs' = \<lparr>rs_role = role', rs_transcript = t, rs_quad = quad,
      rs_bindings = set_hand h b (rs_bindings rs), rs_claim = next_claim F ix poly x (rs_claim rs)\<rparr>"
    using assms(2) pr(1) by (auto simp: run_round_def)
  from s(1) pr obtain pf where poly: "prover_polynomial F w ws (rs_quad rs) l r h = Inr poly"
    and role: "role = Prover (pr\<lparr>pr_proof := pf\<rparr>)"
    by (auto simp: nth_res_def split: if_splits)
  from s(3) role pr obtain bound where bound: "bind_array F (hand_of h ws) (BindOther x) = Inr bound"
    and role': "role' = Prover (pr\<lparr>pr_proof := pf, pr_wires := wires0[Suc l := set_hand h bound ws]\<rparr>)"
    by (auto simp: nth_res_def upd_res_def split: if_splits)
  define f where "f = round_value (\<lambda>i. \<Sum>v < length (hand_of (opposite h) ws).
      hand_denote h (rs_quad rs) 0 i v * hand_of (opposite h) ws ! v) (element (hand_of h ws))
      (div_ceil (length (hand_of h ws)) 2)"
  note vals = prover_polynomial_value [OF poly pr(6) s(5) refl f_def]
  obtain a1 a2 a3 where quadratic: "f y = a1 + a2 * y + a3 * (y * y)" for y
    using round_value_quadratic unfolding f_def by blast
  have "expr_eval (nth (w_values w)) (next_claim F ix poly x (rs_claim rs)) = f x"
    by (rule next_claim_eval [OF quadratic]) (simp_all add: vals pr(7))
  also have "\<dots> = layer_sum quad (set_hand h bound ws)"
    using bound_hand_sum [OF pr(6) s(4) bound] by (simp add: f_def hand_sum_layer_sum)
  finally have claim: "expr_eval (nth (w_values w)) (rs_claim rs') = layer_sum quad (set_hand h bound ws)"
    by (simp add: rs')
  have b: "r < length (hand_of h (rs_bindings rs))" "b = (hand_of h (rs_bindings rs))[r := x]"
    using s(2) by (auto simp: upd_res_def split: if_splits)
  then have tk: "take (Suc r) b = take r (hand_of h (rs_bindings rs)) @ [x]"
    by (simp add: take_update_Suc)
  have "element bound = bind_fun x (element (hand_of h ws))"
    using bind_array_bind_fun [OF bound] by (simp add: binding_value_def)
  then have "element bound = bindv (take (Suc r) b) (element input)"
    by (simp add: tk bindv_snoc pr(5) assms(3))
  then have "element (hand_of h' (set_hand h bound ws)) =
      bindv (take ((k(h := Suc r)) h') (hand_of h' (rs_bindings rs'))) (element input)" for h'
    using pr(5) by (simp add: rs')
  moreover have "gate_bound quad" using s(4) pr(6) bound_quads_gate by (auto simp: bind_hand_bound_quads)
  ultimately show "round_inv w wires0 l input (k(h := Suc r)) rs'"
    unfolding round_inv_def
    by (intro exI [of _ "pr\<lparr>pr_proof := pf, pr_wires := wires0[Suc l := set_hand h bound ws]\<rparr>"]
        exI [of _ "set_hand h bound ws"])
      (use pr claim in \<open>simp add: rs' role'\<close>)
  show "length (hand_of h' (rs_bindings rs')) = length (hand_of h' (rs_bindings rs))"
    "se_constraint_number (rs_claim rs') = se_constraint_number (rs_claim rs)"
    using b by (auto simp: rs')
qed

lemma round_inv_rounds:
  assumes "round_inv w wires0 l input (\<lambda>_. 0) rs"
    and "fold_res (run_round C F (w_layout w) l) (rounds_upto n) rs = Inr rs'"
  shows "round_inv w wires0 l input (\<lambda>_. n) rs' \<and>
    (\<forall>h. length (hand_of h (rs_bindings rs')) = length (hand_of h (rs_bindings rs))) \<and>
    se_constraint_number (rs_claim rs') = se_constraint_number (rs_claim rs)"
  using assms(2)
proof (induction n arbitrary: rs')
  case (Suc n)
  obtain rs1 rs2 where s: "fold_res (run_round C F (w_layout w) l) (rounds_upto n) rs = Inr rs1"
    "run_round C F (w_layout w) l (n, HLeft) rs1 = Inr rs2"
    "run_round C F (w_layout w) l (n, HRight) rs2 = Inr rs'"
    using Suc.prems by (auto simp: fold_res_append)
  note IH = Suc.IH [OF s(1)]
  note left = round_inv_step [OF conjunct1 [OF IH] s(2) refl]
  have "((\<lambda>_. n)(HLeft := Suc n)) HRight = n" by simp
  note right = round_inv_step [OF left(1) s(3) this]
  have eq: "(\<lambda>_. n)(HLeft := Suc n, HRight := Suc n) = (\<lambda>_. Suc n)"
    by (rule ext) (metis fun_upd_apply hand.exhaust)
  have "round_inv w wires0 l input (\<lambda>_. Suc n) rs'" by (rule right(1) [unfolded eq])
  with right(2,3) left(2,3) IH show ?case by simp
qed (use assms(1) in simp)

end

subsection \<open>Layers\<close>

definition constraints_upto :: "(nat \<Rightarrow> 'a :: comm_ring_1) \<Rightarrow> nat \<Rightarrow> 'a linear_constraints \<Rightarrow> bool" where
  "constraints_upto W n lc \<longleftrightarrow> length (lc_rhs lc) = n \<and>
     (\<forall>c. lhs_sum W (lc_lhs_terms lc) c = (if c < n then lc_rhs lc ! c else 0))"

lemma constraints_upto_0: "constraints_upto W 0 \<lparr>lc_lhs_terms = [], lc_rhs = []\<rparr>"
  by (simp add: constraints_upto_def)

lemma constraints_upto_add:
  assumes "constraints_upto W n lc" "se_constraint_number e = n" "expr_symbolic W e = rhs"
  shows "constraints_upto W (Suc n) (add_constraint e rhs lc)"
  using assms by (auto simp: constraints_upto_def add_constraint_def expr_lhs_terms_sum nth_append less_Suc_eq)

lemma constraints_upto_hold: "constraints_upto W n lc \<Longrightarrow> linear_constraints_hold W lc"
  by (simp add: constraints_upto_def linear_constraints_hold_def list_all_iff)

text \<open>The claim of hand \<open>h\<close> on entering layer \<open>l\<close>: what the proof says plus the pad.\<close>

definition padded_claim :: "'a :: comm_ring_1 witness \<Rightarrow> nat \<Rightarrow> hand \<Rightarrow> 'a \<times> 'a \<Rightarrow> 'a" where
  "padded_claim w l h claims =
     hand_of h claims +
     (if l = 0 then 0
      else case wire_witnesses w (l - 1) of
        Inl _ \<Rightarrow> 0 | Inr (vl, vr, _) \<Rightarrow> hand_of h (vl, vr))"

definition layer_inv ::
  "'a :: comm_ring_1 witness \<Rightarrow> 'a list list \<Rightarrow> nat \<Rightarrow> 'a protocol_state \<Rightarrow> bool" where
  "layer_inv w wires l ps \<longleftrightarrow>
     (\<exists>pr. ps_role ps = Prover pr \<and> pr_witness pr = w \<and> length (pr_wires pr) = length wires \<and>
        (\<forall>j. l < j \<longrightarrow> j < length wires \<longrightarrow> pr_wires pr ! j = (wires ! j, wires ! j))) \<and>
     length (fst (ps_bindings ps)) = length (snd (ps_bindings ps)) \<and>
     (\<forall>h. padded_claim w l h (ps_claims ps) =
        bindv (hand_of h (ps_bindings ps)) (element (wires ! l)) 0) \<and>
     constraints_upto (nth (w_values w)) l (ps_constraints ps)"

lemma wire_witnesses_pads:
  assumes "wire_witnesses w l = Inr (x, y, z)" "wire_witness_indices (w_layout w) l = Inr (i, j, k)"
  shows "w_values w ! i = x" "w_values w ! j = y" "w_values w ! k = z"
  using assms by (auto simp: wire_witnesses_def witness_element_def nth_res_Inr_iff)

lemma initial_claim_eval:
  assumes "initial_claim (w_layout w) l claims alpha = Inr e"
    and "0 < l \<longrightarrow> is_ok (wire_witnesses w (l - 1))"
  shows "expr_eval (nth (w_values w)) e =
      padded_claim w l HLeft claims + alpha * padded_claim w l HRight claims"
    and "se_constraint_number e = l"
proof -
  show "expr_eval (nth (w_values w)) e =
      padded_claim w l HLeft claims + alpha * padded_claim w l HRight claims"
  proof (cases "l = 0")
    case True
    with assms(1) show ?thesis by (auto simp: initial_claim_def padded_claim_def Let_def)
  next
    case False
    then obtain x y z where ww: "wire_witnesses w (l - 1) = Inr (x, y, z)"
      using assms(2) by (auto simp: is_ok_iff)
    then obtain i j k where ix: "wire_witness_indices (w_layout w) (l - 1) = Inr (i, j, k)"
      by (auto simp: wire_witnesses_def)
    note pads = wire_witnesses_pads [OF ww ix]
    from assms(1) False ix show ?thesis
      by (auto simp: initial_claim_def padded_claim_def Let_def ww [simplified] term_eval_with_witness pads algebra_simps)
  qed
  show "se_constraint_number e = l"
    using assms(1) by (auto simp: initial_claim_def Let_def)
qed

lemma final_layer_claim_eval:
  assumes "wire_witnesses w l = Inr (x, y, x * y)" "wire_witness_indices (w_layout w) l = Inr ix"
    and "expr_eval (nth (w_values w)) claim = b * (fst claims + x) * (snd claims + y)"
  shows "expr_symbolic (nth (w_values w)) (final_layer_claim ix b claims claim) =
    b * fst claims * snd claims - se_known (final_layer_claim ix b claims claim)"
proof -
  obtain i j k where ix: "ix = (i, j, k)" by (cases ix)
  note pads = wire_witnesses_pads [OF assms(1) assms(2) [unfolded ix]]
  have "expr_eval (nth (w_values w)) (final_layer_claim ix b claims claim) = b * fst claims * snd claims"
    by (simp add: final_layer_claim_def ix assms(3) pads algebra_simps)
  then show ?thesis by (simp add: expr_eval_def algebra_simps)
qed

text \<open>Binding the gates turns the relation of the layer into the layer's sum.\<close>

lemma bindv_gate_in_range:
  assumes "bindv_gate b0 b1 alpha xs = Inr ys"
  shows "\<forall>e \<in> set xs. sq_gate_index e < 2 ^ length b0"
proof -
  obtain zs where "map_res (weigh_gate (bindeq b0 b1 alpha)) xs = Inr zs"
    using assms by (auto simp: bindv_gate_def)
  then show ?thesis
  proof (induction xs arbitrary: zs)
    case (Cons e xs)
    then show ?case by (auto simp: weigh_gate_def nth_res_Inr_iff length_bindeq)
  qed simp
qed

lemma bindv_gate_gate_bound: "bindv_gate b0 b1 alpha xs = Inr ys \<Longrightarrow> gate_bound ys"
  using bindv_gate_eq [OF bindv_gate_in_range, of b0 b1 alpha xs ys b1 alpha]
  by (cases xs) (auto intro!: merge_adjacent_gate)

lemma bindv_gate_layer_sum:
  assumes "bindv_gate b0 b1 alpha qz = Inr quad" "length b0 = length b1"
    and "\<And>g. element outs g = (\<Sum>l < length input. \<Sum>r < length input.
        sq_denote qz g l r * input ! l * input ! r)"
  shows "layer_sum quad (input, input) =
    bindv b0 (element outs) 0 + alpha * bindv b1 (element outs) 0"
proof -
  let ?n = "2 ^ length b0 :: nat"
  let ?w = "\<lambda>g. eq_weight b0 g + alpha * eq_weight b1 g"
  have q: "sq_denote quad 0 l r = (\<Sum>g < ?n. ?w g * sq_denote qz g l r)" for l r
    using bindv_gate_hand_denote [OF bindv_gate_in_range [OF assms(1)] assms(2,1), of HLeft l r]
    by (simp add: hand_denote_Left)
  have "layer_sum quad (input, input) = (\<Sum>l < length input. \<Sum>r < length input. \<Sum>g < ?n.
      ?w g * (sq_denote qz g l r * input ! l * input ! r))"
    by (simp add: layer_sum_def q sum_distrib_right mult.assoc)
  also have "\<dots> = (\<Sum>l < length input. \<Sum>g < ?n. \<Sum>r < length input.
      ?w g * (sq_denote qz g l r * input ! l * input ! r))"
    by (intro sum.cong refl sum.swap)
  also have "\<dots> = (\<Sum>g < ?n. \<Sum>l < length input. \<Sum>r < length input.
      ?w g * (sq_denote qz g l r * input ! l * input ! r))"
    by (rule sum.swap)
  also have "\<dots> = (\<Sum>g < ?n. ?w g * element outs g)"
    by (simp add: assms(3) sum_distrib_left)
  also have "\<dots> = bindv b0 (element outs) 0 + alpha * bindv b1 (element outs) 0"
    by (simp add: bindv_eq_weight assms(2) distrib_right sum.distrib sum_distrib_left mult.assoc)
  finally show ?thesis .
qed

text \<open>An evaluation of the circuit with a witness filled for its layout.\<close>

definition honest_run :: "'a :: comm_ring_1 circuit \<Rightarrow> 'a list list \<Rightarrow> 'a witness \<Rightarrow> bool" where
  "honest_run c wires w \<longleftrightarrow>
     length wires = Suc (length (c_layers c)) \<and> w_layout w = layout_from_circuit c \<and>
     (\<forall>i < length (c_layers c).
        evaluate_layer c (wires ! Suc i) (next_width c i) (c_layers c ! i) = Inr (wires ! i) \<and>
        q_z_disjoint c (c_layers c ! i) \<and>
        (\<exists>x y. wire_witnesses w i = Inr (x, y, x * y)))"

lemma layer_relation_element:
  assumes "evaluate_layer c input n (c_layers c ! i) = Inr outs" "i < length (c_layers c)"
    and "q_z_disjoint c (c_layers c ! i)" "combined_quad c i beta = Inr qz"
  shows "element outs g = (\<Sum>l < length input. \<Sum>r < length input.
    sq_denote qz g l r * input ! l * input ! r)"
proof (cases "g < n")
  case True
  moreover have "length outs = n" using evaluate_layer_Inr(3) [OF assms(1)] by simp
  ultimately show ?thesis using layer_relation [OF assms] by (simp add: element_def)
next
  case False
  note ev = evaluate_layer_Inr [OF assms(1)]
  have "qz = map (combined_element c beta) (layer_quads (c_layers c ! i))"
    using assms(4) combined_quad_eq [OF assms(2) quad_in_range_const [OF ev(1)]] by simp
  moreover have "sq_denote (map (combined_element c beta) qs) g l r = 0"
    if "list_all (quad_in_range c m n) qs" for qs m l r
    using that False by (induction qs) (auto simp: sq_denote_def quad_in_range_def combined_element_def)
  ultimately have "sq_denote qz g l r = 0" for l r using ev(1) by blast
  moreover have "element outs g = 0" using ev(3) False by (simp add: element_def)
  ultimately show ?thesis by simp
qed

context sumcheck_field
begin

lemma layer_inv_step:
  assumes "layer_inv w wires l ps" "honest_run c wires w" "l < length (c_layers c)"
    and "run_layer C F c (w_layout w) (l, c_layers c ! l) ps = Inr ps'"
  shows "layer_inv w wires (Suc l) ps'"
proof -
  let ?layer = "c_layers c ! l" and ?input = "wires ! Suc l" and ?W = "nth (w_values w)"
  let ?logw = "unat (layer_logw ?layer)"
  obtain pr where pr: "ps_role ps = Prover pr" "pr_witness pr = w" "length (pr_wires pr) = length wires"
    "\<And>j. l < j \<Longrightarrow> j < length wires \<Longrightarrow> pr_wires pr ! j = (wires ! j, wires ! j)"
    and b: "length (fst (ps_bindings ps)) = length (snd (ps_bindings ps))"
    and claims: "\<And>h. padded_claim w l h (ps_claims ps) =
        bindv (hand_of h (ps_bindings ps)) (element (wires ! l)) 0"
    and cs: "constraints_upto ?W l (ps_constraints ps)"
    using assms(1) by (auto simp: layer_inv_def)
  have len: "Suc l < length wires" using assms(2,3) by (simp add: honest_run_def)
  have ok: "0 < l \<longrightarrow> is_ok (wire_witnesses w (l - 1))"
  proof
    assume "0 < l"
    then have "l - 1 < length (c_layers c)" using assms(3) by simp
    then obtain x y where "wire_witnesses w (l - 1) = Inr (x, y, x * y)"
      using assms(2) unfolding honest_run_def by blast
    then show "is_ok (wire_witnesses w (l - 1))" by simp
  qed
  obtain alpha t0 beta t1 quad0 quad claim rs bound vl vr role ix t2 where
    s: "combined_quad c l beta = Inr quad0"
    "bindv_gate (fst (ps_bindings ps)) (snd (ps_bindings ps)) alpha quad0 = Inr quad"
    "initial_claim (w_layout w) l (ps_claims ps) alpha = Inr claim"
    "fold_res (run_round C F (w_layout w) l) (rounds_upto ?logw)
         \<lparr>rs_role = Prover pr, rs_transcript = t1, rs_quad = quad,
          rs_bindings = (replicate ?logw 0, replicate ?logw 0), rs_claim = claim\<rparr> = Inr rs"
      (is "fold_res _ _ ?rs = _")
    "single_quad (rs_quad rs) = Inr bound" "role_claims l (rs_role rs) = Inr ((vl, vr), role)"
    "wire_witness_indices (w_layout w) l = Inr ix"
    and ps': "ps' = \<lparr>ps_role = role, ps_transcript = t2, ps_bindings = rs_bindings rs, ps_claims = (vl, vr),
       ps_constraints = add_constraint (final_layer_claim ix bound (vl, vr) (rs_claim rs))
         (bound * vl * vr - se_known (final_layer_claim ix bound (vl, vr) (rs_claim rs)))
         (ps_constraints ps)\<rparr>"
    using assms(4) pr(1) by (auto simp: run_layer_def Let_def)
  have ev: "evaluate_layer c ?input (next_width c l) ?layer = Inr (wires ! l)" "q_z_disjoint c ?layer"
    using assms(2,3) by (simp_all add: honest_run_def)
  note e0 = initial_claim_eval [OF s(3) ok]
  have "expr_eval ?W claim = bindv (fst (ps_bindings ps)) (element (wires ! l)) 0
      + alpha * bindv (snd (ps_bindings ps)) (element (wires ! l)) 0"
    using e0(1) claims [of HLeft] claims [of HRight] by simp
  also have "\<dots> = layer_sum quad (?input, ?input)"
    by (rule bindv_gate_layer_sum [OF s(2) b, symmetric])
      (rule layer_relation_element [OF ev(1) assms(3) ev(2) s(1)])
  finally have c0: "expr_eval ?W claim = layer_sum quad (?input, ?input)" .
  have up: "pr_wires pr = (pr_wires pr)[Suc l := (?input, ?input)]"
    using pr(4) len by (metis lessI list_update_id)
  have hw: "hand_of h (?input, ?input) = ?input" "length (hand_of h (replicate ?logw 0, replicate ?logw 0)) = ?logw"
    for h by (cases h; simp)+
  have "round_inv w (pr_wires pr) l ?input (\<lambda>_. 0) ?rs"
    unfolding round_inv_def
    by (intro exI [of _ pr] exI [of _ "(?input, ?input)"] conjI)
      (use pr up len c0 hw bindv_gate_gate_bound [OF s(2)] in simp_all)
  from round_inv_rounds [OF this s(4)] have
    inv: "round_inv w (pr_wires pr) l ?input (\<lambda>_. ?logw) rs"
    and lens: "\<And>h. length (hand_of h (rs_bindings rs)) = ?logw" and cn: "se_constraint_number (rs_claim rs) = l"
    using e0(2) hw(2) by auto
  from inv obtain pr1 ws where pr1: "rs_role rs = Prover pr1" "pr_witness pr1 = w"
    "pr_wires pr1 = (pr_wires pr)[Suc l := ws]" "Suc l < length (pr_wires pr)"
    and ws: "\<And>h. element (hand_of h ws) = bindv (hand_of h (rs_bindings rs)) (element ?input)"
    and c1: "expr_eval ?W (rs_claim rs) = layer_sum (rs_quad rs) ws"
    using lens by (auto simp: round_inv_def)
  obtain x y where ww: "wire_witnesses w l = Inr (x, y, x * y)"
    using assms(2,3) unfolding honest_run_def by blast
  have v: "vl = element (fst ws) 0 - x" "vr = element (snd ws) 0 - y"
    using s(6) pr1 ww by (auto simp: nth_res_def Let_def split: if_splits)
  from s(6) [unfolded pr1(1)] obtain pr2 where pr2: "role = Prover pr2"
    "pr_witness pr2 = pr_witness pr1" "pr_wires pr2 = pr_wires pr1"
    by (elim role_claims_Prover)
  have "expr_symbolic ?W (final_layer_claim ix bound (vl, vr) (rs_claim rs)) =
      bound * fst (vl, vr) * snd (vl, vr) - se_known (final_layer_claim ix bound (vl, vr) (rs_claim rs))"
    by (rule final_layer_claim_eval [OF ww s(7)]) (simp add: c1 layer_sum_single [OF s(5)] v)
  then have "constraints_upto ?W (Suc l) (ps_constraints ps')"
    using constraints_upto_add [OF cs] cn
    by (simp add: ps' final_layer_claim_def split: prod.splits)
  moreover have "padded_claim w (Suc l) h (vl, vr) = bindv (hand_of h (rs_bindings rs)) (element ?input) 0" for h
    using ws [of HLeft] ws [of HRight] by (cases h) (simp_all add: padded_claim_def ww v)
  moreover have "pr_wires pr2 ! j = (wires ! j, wires ! j)" if "Suc l < j" "j < length wires" for j
    using that pr(4) pr1(3) pr2(3) by simp
  moreover have "length (fst (rs_bindings rs)) = length (snd (rs_bindings rs))"
    using lens [of HLeft] lens [of HRight] by simp
  ultimately show ?thesis
    using pr pr1 pr2 by (simp add: layer_inv_def ps')
qed

lemma layer_inv_layers:
  assumes "honest_run c wires w" "ls = drop k (c_layers c)" "layer_inv w wires k ps"
    and "fold_res (run_layer C F c (w_layout w)) (enumerate k ls) ps = Inr ps'"
  shows "layer_inv w wires (k + length ls) ps'"
  using assms(2-)
proof (induction ls arbitrary: k ps)
  case (Cons l ls)
  have k: "k < length (c_layers c)" using Cons.prems(1) by (metis drop_eq_Nil list.distinct(1) not_le)
  have l: "l = c_layers c ! k" "ls = drop (Suc k) (c_layers c)"
    using Cons.prems(1) Cons_nth_drop_Suc [OF k] by (metis list.inject)+
  obtain ps1 where ps1: "run_layer C F c (w_layout w) (k, c_layers c ! k) ps = Inr ps1"
    "fold_res (run_layer C F c (w_layout w)) (enumerate (Suc k) ls) ps1 = Inr ps'"
    using Cons.prems(3) l by auto
  from Cons.IH [OF l(2) layer_inv_step [OF Cons.prems(2) assms(1) k ps1(1)] ps1(2)]
  show ?case by simp
qed simp

end

subsection \<open>The inputs\<close>

lemma se_known_add_term [simp]: "se_known (expr_add e (term_mul (term_new j) x)) = se_known e"
  by (simp add: expr_add_def term_mul_def term_new_def)

lemma sum_lessThan_add:
  "(\<Sum>j < m + n. f j) = (\<Sum>j < m. f j) + (\<Sum>j < n. f (m + j :: nat) :: 'b :: comm_monoid_add)"
  by (induction n) (simp_all add: add.assoc)

lemma final_claim_private:
  assumes "fold_res (\<lambda>(i, j) e. and_then (nth_res eq2 (i + n)) (\<lambda>x.
      Inr (expr_add e (term_mul (term_new j) x)))) (enumerate k js) e = Inr e'"
  shows "expr_eval W e' = expr_eval W e + (\<Sum>i < length js. W (js ! i) * eq2 ! (k + i + n))"
    and "se_known e' = se_known e" "se_constraint_number e' = se_constraint_number e"
    and "js \<noteq> [] \<Longrightarrow> k + length js + n \<le> length eq2"
proof -
  have "expr_eval W e' = expr_eval W e + (\<Sum>i < length js. W (js ! i) * eq2 ! (k + i + n)) \<and>
    se_known e' = se_known e \<and> se_constraint_number e' = se_constraint_number e \<and>
    (js \<noteq> [] \<longrightarrow> k + length js + n \<le> length eq2)"
    using assms
  proof (induction js arbitrary: k e)
    case (Cons j js)
    from Cons.prems have b: "k + n < length eq2"
      and "fold_res (\<lambda>(i, j) e. and_then (nth_res eq2 (i + n)) (\<lambda>x.
        Inr (expr_add e (term_mul (term_new j) x)))) (enumerate (Suc k) js)
        (expr_add e (term_mul (term_new j) (eq2 ! (k + n)))) = Inr e'"
      by (auto simp: nth_res_Inr_iff)
    from Cons.IH [OF this(2)] b show ?case
      by (cases js)
        (auto simp: sum.lessThan_Suc_shift add.assoc simp del: sum.lessThan_Suc)
  qed simp
  then show "expr_eval W e' = expr_eval W e + (\<Sum>i < length js. W (js ! i) * eq2 ! (k + i + n))"
    and "se_known e' = se_known e" "se_constraint_number e' = se_constraint_number e"
    and "js \<noteq> [] \<Longrightarrow> k + length js + n \<le> length eq2" by blast+
qed

lemma fold_zip_sum:
  "fold (\<lambda>(x, e) s. s + x * e) (zip xs es) z =
     z + (\<Sum>i < min (length xs) (length es). xs ! i * es ! i)" for z :: "'a :: comm_ring_1"
proof (induction xs arbitrary: es z)
  case (Cons x xs)
  then show ?case
    by (cases es) (simp_all add: sum.lessThan_Suc_shift add.assoc del: sum.lessThan_Suc)
qed simp

lemma bindeq_inputs_split:
  fixes eq2 :: "'a :: comm_ring_1 list"
  assumes "priv \<noteq> [] \<Longrightarrow> length priv + length pub \<le> length eq2"
  shows "(\<Sum>j < length eq2. eq2 ! j * element (pub @ priv) j) =
    (\<Sum>i < min (length pub) (length eq2). pub ! i * eq2 ! i) +
    (\<Sum>i < length priv. priv ! i * eq2 ! (i + length pub))"
proof (cases "priv = []")
  case True
  have "(\<Sum>j < length eq2. eq2 ! j * element (pub @ priv) j) =
      (\<Sum>j < min (length pub) (length eq2). eq2 ! j * element (pub @ priv) j)"
    by (rule sum_lessThan_extend) (auto simp: element_def True)
  then show ?thesis by (simp add: True element_def mult.commute)
next
  case False
  let ?m = "length pub + length priv"
  have le: "?m \<le> length eq2" using assms False by simp
  have "(\<Sum>j < length eq2. eq2 ! j * element (pub @ priv) j) =
      (\<Sum>j < ?m. eq2 ! j * element (pub @ priv) j)"
    by (rule sum_lessThan_extend) (use le in \<open>auto simp: element_def\<close>)
  also have "\<dots> = (\<Sum>j < length pub. eq2 ! j * element (pub @ priv) j) +
      (\<Sum>j < length priv. eq2 ! (length pub + j) * element (pub @ priv) (length pub + j))"
    by (rule sum_lessThan_add)
  finally show ?thesis using le by (simp add: element_def nth_append mult.commute add.commute)
qed

lemma bindeq_bindv:
  assumes "length b0 = length b1"
  shows "bindv b0 A 0 + gamma * bindv b1 A 0 =
    (\<Sum>j < length (bindeq b0 b1 gamma). bindeq b0 b1 gamma ! j * A j)"
  by (simp add: bindv_eq_weight assms length_bindeq bindeq_nth distrib_right sum.distrib
      sum_distrib_left mult.assoc)

lemma final_constraint_holds:
  assumes "layer_inv w wires (length (c_layers c)) ps" "honest_run c wires w"
    and "final_constraint c (w_layout w) pub (ps_bindings ps) (ps_claims ps) gamma (ps_constraints ps) = Inr lc"
    and "c_num_layers c = length (c_layers c)" "length (c_layers c) < 2 ^ 64"
    and "wires ! length (c_layers c) = pub @ priv" "length pub = c_num_public_inputs c"
    and "wl_num_private_inputs (w_layout w) = length priv" "take (length priv) (w_values w) = priv"
  shows "constraints_upto (nth (w_values w)) (Suc (length (c_layers c))) lc"
proof -
  let ?n = "length (c_layers c)" and ?W = "nth (w_values w)"
  let ?eq2 = "bindeq (fst (ps_bindings ps)) (snd (ps_bindings ps)) gamma"
  have b: "length (fst (ps_bindings ps)) = length (snd (ps_bindings ps))"
    and claims: "\<And>h. padded_claim w ?n h (ps_claims ps) =
        bindv (hand_of h (ps_bindings ps)) (element (pub @ priv)) 0"
    and cs: "constraints_upto ?W ?n (ps_constraints ps)"
    using assms(1,6) by (auto simp: layer_inv_def)
  obtain e vl vr lr where
    e: "fold_res (\<lambda>(i, j) e. and_then (nth_res ?eq2 (i + c_num_public_inputs c)) (\<lambda>x.
      Inr (expr_add e (term_mul (term_new j) x)))) (enumerate 0 [0..<length priv]) (expr_new ?n) = Inr e"
    and ix: "wire_witness_indices (w_layout w) (usize_sub ?n 1) = Inr (vl, vr, lr)"
    and lc: "lc = add_constraint (expr_add (expr_add e (term_mul (term_new vl) (- 1)))
        (term_mul (term_new vr) (- gamma))) (fst (ps_claims ps) + gamma * snd (ps_claims ps)
          - fold (\<lambda>(x, e) s. s + x * e) (zip pub ?eq2) 0) (ps_constraints ps)"
    using assms(3,4,8) by (auto simp: final_constraint_def private_input_witness_indices_def Let_def)
  note fc = final_claim_private [OF e]
  have "?n \<noteq> 0"
  proof
    assume "?n = 0"
    with ix have "usize_sub 0 1 < 0"
      using assms(2) by (simp add: honest_run_def wire_witness_indices_Inr layout_from_circuit_def)
    then show False by simp
  qed
  then have "1 \<le> ?n" "?n - 1 < ?n" by linarith+
  then have n: "usize_sub ?n 1 = ?n - 1" "?n - 1 < ?n"
    using usize_sub_eq [of 1 ?n] assms(5) by simp_all
  then obtain x y where ww: "wire_witnesses w (?n - 1) = Inr (x, y, x * y)"
    using assms(2) unfolding honest_run_def by blast
  note pads = wire_witnesses_pads [OF ww ix [unfolded n(1)]]
  have c: "fst (ps_claims ps) + x = bindv (fst (ps_bindings ps)) (element (pub @ priv)) 0"
    "snd (ps_claims ps) + y = bindv (snd (ps_bindings ps)) (element (pub @ priv)) 0"
    using claims [of HLeft] claims [of HRight] \<open>?n \<noteq> 0\<close> by (simp_all add: padded_claim_def ww [simplified])
  have "?W i = priv ! i" if "i < length priv" for i
    using assms(9) that by (metis nth_take)
  then have p: "expr_eval ?W e = (\<Sum>i < length priv. priv ! i * ?eq2 ! (i + length pub))"
    using fc(1) assms(7) by simp
  have len: "length priv + length pub \<le> length ?eq2" if "priv \<noteq> []"
    using fc(4) that assms(7) by simp
  have "fst (ps_claims ps) + x + gamma * (snd (ps_claims ps) + y) =
      (\<Sum>i < min (length pub) (length ?eq2). pub ! i * ?eq2 ! i) + expr_eval ?W e"
    by (simp add: c bindeq_bindv [OF b] bindeq_inputs_split [OF len] p)
  then have "expr_eval ?W (expr_add (expr_add e (term_mul (term_new vl) (- 1)))
        (term_mul (term_new vr) (- gamma))) =
      fst (ps_claims ps) + gamma * snd (ps_claims ps) - fold (\<lambda>(x, e) s. s + x * e) (zip pub ?eq2) 0"
    by (simp add: fold_zip_sum pads algebra_simps)
  then show ?thesis
    unfolding lc using fc(2,3)
    by (intro constraints_upto_add [OF cs]) (simp_all add: expr_eval_def, simp add: expr_new_def)
qed

context sumcheck_field
begin

lemma run_protocol_honest:
  assumes "run_protocol C F c t (Prover pr) = Inr (lc, pf, t')"
    and "pr_wires pr = map (\<lambda>l. (l, l)) wires" "pr_witness pr = w" "honest_run c wires w"
    and "list_all (\<lambda>x. x = 0) (wires ! 0)"
    and "c_num_layers c = length (c_layers c)" "length (c_layers c) < 2 ^ 64"
    and "ev_public_inputs (c_num_public_inputs c) (pr_evaluation pr) = Inr pub"
    and "wires ! length (c_layers c) = pub @ priv"
    and "wl_num_private_inputs (w_layout w) = length priv" "take (length priv) (w_values w) = priv"
  shows "linear_constraints_hold (nth (w_values w)) lc" "length (lc_rhs lc) = Suc (length (c_layers c))"
proof -
  obtain b t0 ps gamma where
    s: "fold_res (run_layer C F c (w_layout w)) (enumerate 0 (c_layers c))
      \<lparr>ps_role = Prover pr, ps_transcript = t0, ps_bindings = (b, b), ps_claims = (0, 0),
         ps_constraints = \<lparr>lc_lhs_terms = [], lc_rhs = []\<rparr>\<rparr> = Inr ps" (is "fold_res _ _ ?ps = _")
    "final_constraint c (w_layout w) pub (ps_bindings ps) (ps_claims ps) gamma (ps_constraints ps) = Inr lc"
    using assms(1,3,8) by (auto simp: run_protocol_def)
  have z: "element (wires ! 0) = (\<lambda>_. 0)" using assms(5) by (auto simp: element_def list_all_length)
  have "padded_claim w 0 h (0, 0) = bindv (hand_of h (b, b)) (element (wires ! 0)) 0" for h
    by (cases h) (simp_all add: padded_claim_def z bindv_eq_weight)
  then have "layer_inv w wires 0 ?ps"
    using assms(2,3) by (simp add: layer_inv_def constraints_upto_0)
  from layer_inv_layers [OF assms(4) _ this s(1)] have "layer_inv w wires (length (c_layers c)) ps" by simp
  moreover have "length pub = c_num_public_inputs c"
    using assms(8) by (auto simp: ev_public_inputs_def split: if_splits)
  ultimately have "constraints_upto (nth (w_values w)) (Suc (length (c_layers c))) lc"
    by (rule final_constraint_holds [OF _ assms(4) s(2) assms(6,7,9) _ assms(10,11)])
  then show "linear_constraints_hold (nth (w_values w)) lc" "length (lc_rhs lc) = Suc (length (c_layers c))"
    by (auto intro: constraints_upto_hold simp: constraints_upto_def)
qed

text \<open>
  The whole pipeline: evaluate the circuit, fill the witness with pads, prove. The linear
  constraints of the prover hold of its witness.
\<close>

lemma prove_constraints_hold:
  assumes "evaluate c inputs = Inr ev" "c_num_layers c = length (c_layers c)"
    and "length (c_layers c) < 2 ^ 64" "c_num_inputs c < 2 ^ 64"
    and "\<forall>i < length (c_layers c). q_z_disjoint c (c_layers c ! i)"
    and "ev_private_inputs (c_num_public_inputs c) ev = Inr priv"
    and "fill_witness (layout_from_circuit c) priv pad_generator g = (w, g')"
    and "sumcheck_prove C F c ev w t = Inr (pf, lc, t')"
  shows "linear_constraints_hold (nth (w_values w)) lc"
proof -
  let ?n = "length (c_layers c)"
  note ev = evaluate_layers [OF assms(1-3)]
  have n64: "usize_sub (length (ev_wires ev)) 1 = ?n" using ev(1) assms(3) by (simp add: usize_sub_def)
  have inputs: "ev_inputs ev = Inr inputs" using ev(1,2) n64 by (simp add: ev_inputs_def nth_res_def)
  obtain outputs pf' where s: "ev_outputs ev = Inr outputs" "list_all (\<lambda>x. x = 0) outputs"
    "length inputs = c_num_inputs c"
    "run_protocol C F c t (Prover \<lparr>pr_evaluation = ev, pr_witness = w, pr_proof = empty_proof c,
       pr_wires = map (\<lambda>layer. (layer, layer)) (ev_wires ev)\<rparr>) = Inr (lc, pf', t')"
    using assms(8) inputs by (auto simp: sumcheck_prove_def)
  let ?npub = "c_num_public_inputs c"
  have npub: "?npub \<le> length inputs" "priv = drop ?npub inputs"
    using assms(6) inputs by (auto simp: ev_private_inputs_def split: if_splits)
  have np: "wl_num_private_inputs (layout_from_circuit c) = length priv"
    using npub s(3) assms(4) by (simp add: layout_from_circuit_def num_private_inputs_def usize_sub_eq)
  note fw = fill_witness_props [OF assms(7) np [symmetric]]
  have "honest_run c (ev_wires ev) w"
    using ev assms(5) fw(1,4) by (auto simp: honest_run_def layout_from_circuit_def)
  from run_protocol_honest(1) [OF s(4) _ _ this _ assms(2,3), of "take ?npub inputs" priv]
  show ?thesis
    using s(1,2) npub np fw(1,3) inputs ev(2)
    by (simp add: ev_outputs_def nth_res_Inr_iff ev_public_inputs_def)
qed

end

end
