(* ===== verification/Sumcheck_Total.thy ===== *)
theory Sumcheck_Total
  imports Sumcheck_Complete Sumcheck Divergence
begin

text \<open>
  The prover does not fail. On an evaluation of a circuit that meets the invariants of the source
  and whose layers declare the \<open>logw\<close> of their width, \<open>prove\<close> returns a proof, of the shape its
  encoder expects, unless the rejection sampling of a challenge never accepts: none of the
  assertions about fully bound arrays fires, no index is out of bounds.
\<close>

subsection \<open>What a prover needs of its state\<close>

definition witness_ok :: "'a circuit \<Rightarrow> 'a witness \<Rightarrow> bool" where
  "witness_ok c w \<longleftrightarrow> w_layout w = layout_from_circuit c \<and> length (w_values w) = layout_length (w_layout w)"

lemma witness_ok_polynomial:
  assumes "witness_ok c w" "l < length (c_layers c)" "r < unat (layer_logw (c_layers c ! l))"
  shows "\<exists>ix pad. polynomial_witness_indices (w_layout w) l r (hand_index h) = Inr ix \<and>
    polynomial_witnesses w l r (hand_index h) = Inr pad"
proof -
  let ?wl = "w_layout w"
  have l: "l < length (wl_logw ?wl)" "r < wl_logw ?wl ! l" "hand_index h < 2"
    using assms by (cases h; simp add: witness_ok_def layout_from_circuit_def)+
  let ?i = "layer_start ?wl l + 4 * r + 2 * hand_index h"
  have ix: "polynomial_witness_indices ?wl l r (hand_index h) = Inr (?i, ?i + 1)"
    by (rule polynomial_witness_indices_eq [OF l])
  have "?i + 1 < layout_length ?wl"
    by (rule slot_index_bound [of _ "PolyP2 l r (hand_index h)"]) (simp add: ix)
  then show ?thesis
    using assms(1) ix by (simp add: polynomial_witnesses_def witness_element_def witness_ok_def)
qed

lemma witness_ok_wire:
  assumes "witness_ok c w" "l < length (c_layers c)"
  shows "\<exists>ix p. wire_witness_indices (w_layout w) l = Inr ix \<and> wire_witnesses w l = Inr p"
proof -
  let ?wl = "w_layout w"
  have l: "l < length (wl_logw ?wl)" using assms by (simp add: witness_ok_def layout_from_circuit_def)
  let ?i = "layer_start ?wl l + 4 * wl_logw ?wl ! l"
  have ix: "wire_witness_indices ?wl l = Inr (?i, ?i + 1, ?i + 2)"
    by (rule wire_witness_indices_eq [OF l])
  have "?i + 2 < layout_length ?wl"
    by (rule slot_index_bound [of _ "WireLR l"]) (simp add: ix)
  then show ?thesis
    using assms(1) ix by (simp add: wire_witnesses_def witness_element_def witness_ok_def)
qed

lemma set_proof_polynomial_total:
  assumes "proof_shape c pf" "l < length (c_layers c)" "r < unat (layer_logw (c_layers c ! l))"
  shows "\<exists>pf'. set_proof_polynomial l r h poly pf = Inr pf' \<and> proof_shape c pf'"
proof -
  have "l < length (sp_layers pf)" "length (pl_polynomials (sp_layers pf ! l)) = unat (layer_logw (c_layers c ! l))"
    using assms by (auto simp: proof_shape_def layer_shape_def list_all2_conv_all_nth)
  with assms show ?thesis
    by (auto simp: set_proof_polynomial_def proof_shape_def layer_shape_def list_all2_conv_all_nth
        nth_list_update)
qed

lemma set_proof_claims_total:
  assumes "proof_shape c pf" "l < length (c_layers c)"
  shows "\<exists>pf'. set_proof_claims l vl vr pf = Inr pf' \<and> proof_shape c pf'"
proof -
  have "l < length (sp_layers pf)"
    using assms by (auto simp: proof_shape_def list_all2_conv_all_nth)
  with assms show ?thesis
    by (auto simp: set_proof_claims_def proof_shape_def layer_shape_def list_all2_conv_all_nth
        nth_list_update)
qed

lemma empty_proof_shape: "proof_shape c (empty_proof c)"
  by (simp add: proof_shape_def empty_proof_def layer_shape_def list_all2_conv_all_nth)

subsection \<open>Rounds\<close>

definition quads_in_wires :: "'a list \<times> 'a list \<Rightarrow> 'b sparse_quad list \<Rightarrow> bool" where
  "quads_in_wires ws quad \<longleftrightarrow> (\<forall>e \<in> set quad. \<forall>h. hand_wire e h < length (hand_of h ws))"

lemma quads_in_wires_range:
  "quads_in_wires ws quad \<Longrightarrow> wires_in_range h (length (hand_of h ws)) (length (hand_of (opposite h) ws)) quad"
  by (auto simp: quads_in_wires_def wires_in_range_def list_all_iff)

lemma bound_quads_nonempty: "bound_quads h x xs = [] \<longleftrightarrow> xs = []"
  by (induction h x xs rule: bound_quads.induct) auto

lemma bound_quads_wires:
  assumes "gate_bound xs" "sorted_keys h xs" "e \<in> set (bound_quads h x xs)"
  shows "\<exists>e0 \<in> set xs. hand_wire e h = hand_wire e0 h div 2 \<and> hand_wire e (opposite h) = hand_wire e0 (opposite h)"
proof -
  have "hkey (opposite h) e \<in> (\<lambda>e. hkey h e div 2) ` set xs"
    using bound_quads_keys [OF assms(1,2), of x] assms(3) by blast
  then obtain e0 where e0: "e0 \<in> set xs" "hkey (opposite h) e = hkey h e0 div 2" by blast
  then have "il (hand_wire e h) (hand_wire e (opposite h)) = il (hand_wire e0 h div 2) (hand_wire e0 (opposite h))"
    by (simp add: hkey_def il_div_2)
  from il_inj [OF this] e0(1) show ?thesis by blast
qed

lemma quads_in_wires_bound:
  assumes "gate_bound xs" "sorted_keys h xs" "quads_in_wires ws xs"
    and "length b = Suc (length (hand_of h ws)) div 2"
  shows "quads_in_wires (set_hand h b ws) (bound_quads h x xs)"
  unfolding quads_in_wires_def
proof (intro ballI allI)
  fix e h' assume "e \<in> set (bound_quads h x xs)"
  from bound_quads_wires [OF assms(1,2) this] obtain e0 where e0: "e0 \<in> set xs"
    "hand_wire e h = hand_wire e0 h div 2" "hand_wire e (opposite h) = hand_wire e0 (opposite h)" by blast
  show "hand_wire e h' < length (hand_of h' (set_hand h b ws))"
  proof (cases "h' = h")
    case True
    have "hand_wire e0 h < length (hand_of h ws)" using e0(1) assms(3) by (simp add: quads_in_wires_def)
    then have "hand_wire e0 h div 2 < Suc (length (hand_of h ws)) div 2" by linarith
    with True e0(2) assms(4) show ?thesis by simp
  next
    case False
    then have "h' = opposite h" by (cases h; cases h') simp_all
    with False e0 assms(3) show ?thesis by (simp add: quads_in_wires_def)
  qed
qed

definition round_ready ::
  "'a circuit \<Rightarrow> 'a witness \<Rightarrow> ('a list \<times> 'a list) list \<Rightarrow> nat \<Rightarrow> (hand \<Rightarrow> nat) \<Rightarrow> hand
   \<Rightarrow> 'a :: comm_ring_1 round_state \<Rightarrow> bool" where
  "round_ready c w wires0 l k h rs \<longleftrightarrow>
     (\<exists>pr ws. rs_role rs = Prover pr \<and> pr_witness pr = w \<and>
        pr_wires pr = wires0[Suc l := ws] \<and> Suc l < length wires0 \<and> proof_shape c (pr_proof pr) \<and>
        (\<forall>h. hand_of h ws \<noteq> [] \<and>
          k h + ceil_log2 (length (hand_of h ws)) = unat (layer_logw (c_layers c ! l))) \<and>
        quads_in_wires ws (rs_quad rs) \<and> rs_quad rs \<noteq> [] \<and> gate_bound (rs_quad rs) \<and>
        sorted_keys h (rs_quad rs) \<and>
        (\<forall>h. length (hand_of h (rs_bindings rs)) = unat (layer_logw (c_layers c ! l))))"

lemma ceil_log2_halve: "0 < ceil_log2 n \<Longrightarrow> 1 < n \<and> ceil_log2 n = Suc (ceil_log2 (Suc n div 2))"
  using ceil_log2.simps [of n] by (cases "n \<le> 1") simp_all

lemma ceil_log2_1: "ceil_log2 n = 0 \<Longrightarrow> n \<le> 1"
  using ceil_log2.simps [of n] by (cases "n \<le> 1") simp_all

lemma evaluate_polynomial_total:
  "1 < length a \<Longrightarrow> \<exists>e. evaluate_polynomial F a ws at = Inr e"
  by (simp add: evaluate_polynomial_def bind_iter_def)

lemma round_ready_step:
  assumes "round_ready c w wires0 l k h rs" "witness_ok c w" "l < length (c_layers c)"
    and "k h = r" "r < unat (layer_logw (c_layers c ! l))"
  shows "yields C F (round_ready c w wires0 l (k(h := Suc r)) (opposite h))
    (run_round C F (w_layout w) l (r, h) rs)"
proof -
  obtain pr ws where pr: "rs_role rs = Prover pr" "pr_witness pr = w" "pr_wires pr = wires0[Suc l := ws]"
    "Suc l < length wires0" "proof_shape c (pr_proof pr)"
    "\<And>h. hand_of h ws \<noteq> []"
    "\<And>h. k h + ceil_log2 (length (hand_of h ws)) = unat (layer_logw (c_layers c ! l))"
    "quads_in_wires ws (rs_quad rs)" "rs_quad rs \<noteq> []" "gate_bound (rs_quad rs)" "sorted_keys h (rs_quad rs)"
    "\<And>h. length (hand_of h (rs_bindings rs)) = unat (layer_logw (c_layers c ! l))"
    using assms(1) by (auto simp: round_ready_def)
  have "0 < ceil_log2 (length (hand_of h ws))" using pr(7) [of h] assms(4,5) by simp
  then have len: "1 < length (hand_of h ws)"
    "ceil_log2 (length (hand_of h ws)) = Suc (ceil_log2 (Suc (length (hand_of h ws)) div 2))"
    by (blast dest: ceil_log2_halve)+
  obtain a where a: "compute_a h ws (rs_quad rs) = Inr a" "length a = length (hand_of h ws)"
    using compute_a_hand_denote [OF pr(10) quads_in_wires_range [OF pr(8)]] by metis
  obtain ix pad where ix: "polynomial_witness_indices (w_layout w) l r (hand_index h) = Inr ix"
    "polynomial_witnesses w l r (hand_index h) = Inr pad"
    using witness_ok_polynomial [OF assms(2,3,5)] by blast
  obtain e0 e2 where e: "evaluate_polynomial F a (hand_of h ws) BindZero = Inr e0"
    "evaluate_polynomial F a (hand_of h ws) BindSumcheckP2 = Inr e2"
    using evaluate_polynomial_total a(2) len(1) by metis
  define poly where "poly = \<lparr>p0 = e0 - p0 pad, p2 = e2 - p2 pad\<rparr>"
  obtain pf where pf: "set_proof_polynomial l r h poly (pr_proof pr) = Inr pf" "proof_shape c pf"
    using set_proof_polynomial_total [OF pr(5) assms(3,5)] by blast
  have pp: "role_polynomial F (rs_quad rs) l r h (rs_role rs) = Inr (poly, Prover (pr\<lparr>pr_proof := pf\<rparr>))"
    using a(1) ix(2) e pf(1) pr(1-4) by (simp add: prover_polynomial_def poly_def)
  have quad: "bind_hand h x (rs_quad rs) = Inr (bound_quads h x (rs_quad rs))" for x
    by (rule bind_hand_bound_quads [OF pr(10)])
  have bound: "bind_array F (hand_of h ws) (BindOther x) =
      Inr (map (bound_element_at F (hand_of h ws) (BindOther x)) [0..<Suc (length (hand_of h ws)) div 2])" for x
    using bind_array_map [OF len(1)] by (simp add: div_ceil_2)
  show ?thesis
    unfolding run_round_def Let_def prod.case pp and_then_simps
  proof (rule yields_and_then [OF yields_one_challenge], clarify)
    fix x t
    let ?b = "map (bound_element_at F (hand_of h ws) (BindOther x)) [0..<Suc (length (hand_of h ws)) div 2]"
    let ?pr = "pr\<lparr>pr_proof := pf, pr_wires := wires0[Suc l := set_hand h ?b ws]\<rparr>"
    let ?rs = "\<lparr>rs_role = Prover ?pr, rs_transcript = t, rs_quad = bound_quads h x (rs_quad rs),
      rs_bindings = set_hand h ((hand_of h (rs_bindings rs))[r := x]) (rs_bindings rs),
      rs_claim = next_claim F ix poly x (rs_claim rs)\<rparr>"
    have "sorted_keys (opposite h) (bound_quads h x (rs_quad rs))"
      using bound_quads_keys [OF pr(10,11)] by blast
    moreover have "quads_in_wires (set_hand h ?b ws) (bound_quads h x (rs_quad rs))"
      by (rule quads_in_wires_bound [OF pr(10,11,8)]) simp
    moreover have "hand_of h' (set_hand h ?b ws) \<noteq> [] \<and>
        (k(h := Suc r)) h' + ceil_log2 (length (hand_of h' (set_hand h ?b ws))) =
          unat (layer_logw (c_layers c ! l))" for h'
      using pr(6,7) [of h'] len assms(4) by auto
    ultimately have "round_ready c w wires0 l (k(h := Suc r)) (opposite h) ?rs"
      unfolding round_ready_def
      by (intro exI [of _ ?pr] exI [of _ "set_hand h ?b ws"])
        (use pr pf(2) in \<open>simp add: bound_quads_nonempty bound_quads_gate\<close>)
    then show "yields C F (round_ready c w wires0 l (k(h := Suc r)) (opposite h))
      (and_then (upd_res (hand_of h (rs_bindings rs)) r x) (\<lambda>b.
       and_then (role_bind F l h x (Prover (pr\<lparr>pr_proof := pf\<rparr>))) (\<lambda>role.
       and_then (bind_hand h x (rs_quad rs)) (\<lambda>quad.
       and_then (polynomial_witness_indices (w_layout w) l r (hand_index h)) (\<lambda>indices.
        Inr \<lparr>rs_role = role, rs_transcript = t, rs_quad = quad,
             rs_bindings = set_hand h b (rs_bindings rs),
             rs_claim = next_claim F indices poly x (rs_claim rs)\<rparr>)))))"
      using pr(3,4,12) assms(5) by (simp add: quad bound ix(1))
  qed
qed

lemma round_ready_rounds:
  assumes "round_ready c w wires0 l (\<lambda>_. 0) HLeft rs" "witness_ok c w" "l < length (c_layers c)"
    and "n \<le> unat (layer_logw (c_layers c ! l))"
  shows "yields C F (round_ready c w wires0 l (\<lambda>_. n) HLeft)
    (fold_res (run_round C F (w_layout w) l) (rounds_upto n) rs)"
  using assms(4)
proof (induction n)
  case (Suc n)
  show ?case
    unfolding rounds_upto.simps fold_res_append
  proof (rule yields_and_then [OF Suc.IH])
    show "n \<le> unat (layer_logw (c_layers c ! l))" using Suc.prems by simp
    fix rs1 assume 1: "round_ready c w wires0 l (\<lambda>_. n) HLeft rs1"
    have n: "n < unat (layer_logw (c_layers c ! l))" using Suc.prems by simp
    have eq: "(\<lambda>_. n)(HLeft := Suc n, HRight := Suc n) = (\<lambda>_. Suc n)"
      by (rule ext) (metis fun_upd_apply hand.exhaust)
    show "yields C F (round_ready c w wires0 l (\<lambda>_. Suc n) HLeft)
      (fold_res (run_round C F (w_layout w) l) [(n, HLeft), (n, HRight)] rs1)"
      unfolding fold_res.simps
    proof (rule yields_and_then [OF round_ready_step [OF 1 assms(2,3) refl n]])
      fix rs2 assume 2: "round_ready c w wires0 l ((\<lambda>_. n)(HLeft := Suc n)) (opposite HLeft) rs2"
      have "((\<lambda>_. n)(HLeft := Suc n)) HRight = n" by simp
      from round_ready_step [OF 2 [unfolded opposite.simps] assms(2,3) this n]
      show "yields C F (round_ready c w wires0 l (\<lambda>_. Suc n) HLeft)
        (and_then (run_round C F (w_layout w) l (n, HRight) rs2) Inr)"
        unfolding eq opposite.simps by (rule yields_and_then) simp
    qed
  qed
qed (use assms(1) in simp)

subsection \<open>Layers\<close>

text \<open>The declared sizes: \<open>logw\<close> is the logarithm of the width, and every layer has a quad.\<close>

definition layer_dims :: "'a circuit \<Rightarrow> bool" where
  "layer_dims c \<longleftrightarrow>
     list_all (\<lambda>layer. layer_quads layer \<noteq> [] \<and> layer_num_wires layer \<noteq> 0 \<and>
       unat (layer_logw layer) = ceil_log2 (unat (layer_num_wires layer))) (c_layers c)"

definition layer_ready ::
  "'a circuit \<Rightarrow> 'a witness \<Rightarrow> 'a list list \<Rightarrow> nat \<Rightarrow> 'a :: comm_ring_1 protocol_state \<Rightarrow> bool" where
  "layer_ready c w wires l ps \<longleftrightarrow>
     (\<exists>pr. ps_role ps = Prover pr \<and> pr_witness pr = w \<and> length (pr_wires pr) = length wires \<and>
        (\<forall>j. l < j \<longrightarrow> j < length wires \<longrightarrow> pr_wires pr ! j = (wires ! j, wires ! j)) \<and>
        proof_shape c (pr_proof pr)) \<and>
     (\<forall>h. length (hand_of h (ps_bindings ps)) = ceil_log2 (next_width c l))"

definition wires_fit :: "'a circuit \<Rightarrow> 'a list list \<Rightarrow> bool" where
  "wires_fit c wires \<longleftrightarrow> length wires = Suc (length (c_layers c)) \<and>
     (\<forall>l < length (c_layers c). length (wires ! Suc l) = unat (layer_num_wires (c_layers c ! l)))"

lemma round_ready_done:
  assumes "round_ready c w wires0 l (\<lambda>_. unat (layer_logw (c_layers c ! l))) h rs"
  shows "\<exists>b. single_quad (rs_quad rs) = Inr b"
    and "\<exists>pr ws. rs_role rs = Prover pr \<and> pr_witness pr = w \<and> pr_wires pr = wires0[Suc l := ws] \<and>
       Suc l < length wires0 \<and> length (fst ws) = 1 \<and> length (snd ws) = 1 \<and> proof_shape c (pr_proof pr)"
    and "length (hand_of h' (rs_bindings rs)) = unat (layer_logw (c_layers c ! l))"
proof -
  obtain pr ws where pr: "rs_role rs = Prover pr" "pr_witness pr = w" "pr_wires pr = wires0[Suc l := ws]"
    "Suc l < length wires0" "proof_shape c (pr_proof pr)"
    "\<And>h. hand_of h ws \<noteq> []" "\<And>h. ceil_log2 (length (hand_of h ws)) = 0"
    "quads_in_wires ws (rs_quad rs)" "rs_quad rs \<noteq> []" "gate_bound (rs_quad rs)" "sorted_keys h (rs_quad rs)"
    "\<And>h. length (hand_of h (rs_bindings rs)) = unat (layer_logw (c_layers c ! l))"
    using assms by (auto simp: round_ready_def)
  have one: "length (hand_of h ws) = 1" for h
    using ceil_log2_1 [OF pr(7) [of h]] pr(6) [of h] by (cases "hand_of h ws") auto
  then have w0: "hand_wire e h' = 0" if "e \<in> set (rs_quad rs)" for e h'
    using pr(8) that by (fastforce simp: quads_in_wires_def)
  then have "hkey h ` set (rs_quad rs) \<subseteq> {0}" by (auto simp: hkey_def)
  from sorted_keys_all_0 [OF pr(11) this] pr(9) obtain q where q: "rs_quad rs = [q]"
    by (cases "rs_quad rs") auto
  with w0 [of q HLeft] w0 [of q HRight] pr(10) show "\<exists>b. single_quad (rs_quad rs) = Inr b"
    by (simp add: single_quad_def)
  show "\<exists>pr ws. rs_role rs = Prover pr \<and> pr_witness pr = w \<and> pr_wires pr = wires0[Suc l := ws] \<and>
       Suc l < length wires0 \<and> length (fst ws) = 1 \<and> length (snd ws) = 1 \<and> proof_shape c (pr_proof pr)"
    using pr(1-5) one [of HLeft] one [of HRight] by (intro exI [of _ pr] exI [of _ ws]) simp
  show "length (hand_of h' (rs_bindings rs)) = unat (layer_logw (c_layers c ! l))" by (rule pr(12))
qed

lemma merge_adjacent_nonempty [simp]: "merge_adjacent x xs \<noteq> []"
  by (induction x xs rule: merge_adjacent.induct) auto

text \<open>The combined quad of a layer that meets the invariants, with its gates bound.\<close>

lemma bound_combined_quad:
  assumes "layer_invariants c l" "l < length (c_layers c)" "layer_dims c"
    and "next_width c l \<le> 2 ^ length b0"
    and "length input = unat (layer_num_wires (c_layers c ! l))"
  shows "\<exists>quad0 quad. combined_quad c l beta = Inr quad0 \<and> bindv_gate b0 b1 alpha quad0 = Inr quad \<and>
    quads_in_wires (input, input) quad \<and> quad \<noteq> [] \<and> gate_bound quad \<and> sorted_keys HLeft quad"
proof -
  let ?layer = "c_layers c ! l"
  let ?q0 = "map (combined_element c beta) (layer_quads ?layer)"
  note inv = layer_invariantsD [OF assms(1)]
  have q0: "combined_quad c l beta' = Inr (map (combined_element c beta') (layer_quads ?layer))" for beta'
    by (rule combined_quad_eq [OF assms(2) quad_in_range_const [OF inv(1)]])
  have small: "sq_gate_index e < 2 ^ length b0 \<and> sq_left_wire_index e < length input \<and>
      sq_right_wire_index e < length input" if "e \<in> set ?q0" for e
    using that inv(1) assms(4,5) by (auto simp: list_all_iff quad_in_range_def combined_element_def)
  have len: "length input < 2 ^ 64" using unat_bound [of "layer_num_wires ?layer"] assms(5) by simp
  have "sorted (map (hkey HLeft) (map (combined_element c 1) (layer_quads ?layer)))"
  proof (rule is_sorted_quads_hkey)
    show "is_sorted_quads (map (combined_element c 1) (layer_quads ?layer))" using inv(3) q0 by auto
    show "\<forall>e \<in> set (map (combined_element c 1) (layer_quads ?layer)).
        sq_left_wire_index e < 2 ^ 64 \<and> sq_right_wire_index e < 2 ^ 64"
      using inv(1) assms(5) len by (auto simp: list_all_iff quad_in_range_def combined_element_def)
  qed
  moreover have "hkey HLeft (combined_element c beta q) = hkey HLeft (combined_element c 1 q)" for q
    by (simp add: hkey_def combined_element_def)
  ultimately have sorted: "sorted (map (hkey HLeft) ?q0)" by (simp add: comp_def)
  have g: "\<forall>e \<in> set ?q0. sq_gate_index e < 2 ^ length b0" using small by blast
  obtain quad where quad: "bindv_gate b0 b1 alpha ?q0 = Inr quad" "quad \<noteq> []"
    using bindv_gate_eq [OF g, of b1 alpha] assms(2,3)
    by (cases "layer_quads ?layer") (auto simp: layer_dims_def list_all_length)
  note bs = bindv_gate_sorted [OF g sorted quad(1)]
  have "quads_in_wires (input, input) quad"
    unfolding quads_in_wires_def
  proof (intro ballI allI)
    fix e h assume "e \<in> set quad"
    then obtain e0 where e0: "e0 \<in> set ?q0" "hkey HLeft e = hkey HLeft e0" using bs(2) by blast
    then have "same_wires e e0" by (simp add: same_wires_hkey [of _ _ HLeft])
    then have "hand_wire e h = hand_wire e0 h" by (rule same_wires_hand)
    with small [OF e0(1)] show "hand_wire e h < length (hand_of h (input, input))" by (cases h) simp_all
  qed
  with q0 quad bs show ?thesis by blast
qed

lemma layer_ready_step:
  assumes "layer_ready c w wires l ps" "witness_ok c w" "l < length (c_layers c)"
    and "layer_invariants c l" "layer_dims c" "wires_fit c wires"
  shows "yields C F (layer_ready c w wires (Suc l)) (run_layer C F c (w_layout w) (l, c_layers c ! l) ps)"
proof -
  let ?layer = "c_layers c ! l" and ?input = "wires ! Suc l"
  let ?logw = "unat (layer_logw ?layer)"
  obtain pr where pr: "ps_role ps = Prover pr" "pr_witness pr = w" "length (pr_wires pr) = length wires"
    "\<And>j. l < j \<Longrightarrow> j < length wires \<Longrightarrow> pr_wires pr ! j = (wires ! j, wires ! j)"
    "proof_shape c (pr_proof pr)" "\<And>h. length (hand_of h (ps_bindings ps)) = ceil_log2 (next_width c l)"
    using assms(1) by (auto simp: layer_ready_def)
  have len: "Suc l < length wires" and input: "length ?input = unat (layer_num_wires ?layer)"
    using assms(3,6) by (auto simp: wires_fit_def)
  have dims: "layer_num_wires ?layer \<noteq> 0" "?logw = ceil_log2 (unat (layer_num_wires ?layer))"
    using assms(3,5) by (simp_all add: layer_dims_def list_all_length)
  then have ne: "?input \<noteq> []" using input by (auto simp flip: length_0_conv simp: unat_eq_zero)
  have b0: "next_width c l \<le> 2 ^ length (fst (ps_bindings ps))"
    using pr(6) [of HLeft] ceil_log2_upper by simp
  have init: "\<exists>claim. initial_claim (w_layout w) l (ps_claims ps) alpha = Inr claim" for alpha
  proof (cases "l = 0")
    case False
    then have "l - 1 < length (c_layers c)" using assms(3) by simp
    from witness_ok_wire [OF assms(2) this] show ?thesis
      by (auto simp: initial_claim_def Let_def split: prod.splits)
  qed (simp add: initial_claim_def)
  obtain ix p where ix: "wire_witness_indices (w_layout w) l = Inr ix" "wire_witnesses w l = Inr p"
    using witness_ok_wire [OF assms(2,3)] by blast
  obtain pad_l pad_r pad_lr where p: "p = (pad_l, pad_r, pad_lr)" by (cases p)
  have next_w: "ceil_log2 (next_width c (Suc l)) = ?logw" by (simp add: next_width_def dims(2))
  have hw: "hand_of h (?input, ?input) = ?input" "length (hand_of h (replicate ?logw 0, replicate ?logw 0)) = ?logw"
    for h by (cases h; simp)+
  show ?thesis
    unfolding run_layer_def Let_def prod.case
  proof (rule yields_and_then [OF yields_one_challenge], clarify,
      rule yields_and_then [OF yields_one_challenge], clarify)
    fix alpha t0 beta t1
    obtain quad0 quad where q: "combined_quad c l beta = Inr quad0"
      "bindv_gate (fst (ps_bindings ps)) (snd (ps_bindings ps)) alpha quad0 = Inr quad"
      "quads_in_wires (?input, ?input) quad" "quad \<noteq> []" "gate_bound quad" "sorted_keys HLeft quad"
      using bound_combined_quad [OF assms(4,3,5) b0 input] by blast
    obtain claim where claim: "initial_claim (w_layout w) l (ps_claims ps) alpha = Inr claim"
      using init by blast
    let ?rs = "\<lparr>rs_role = ps_role ps, rs_transcript = t1, rs_quad = quad,
          rs_bindings = (replicate ?logw 0, replicate ?logw 0), rs_claim = claim\<rparr>"
    have up: "pr_wires pr = (pr_wires pr)[Suc l := (?input, ?input)]"
      using pr(3,4) len by (metis lessI list_update_id)
    have "round_ready c w (pr_wires pr) l (\<lambda>_. 0) HLeft ?rs"
      unfolding round_ready_def
      by (intro exI [of _ pr] exI [of _ "(?input, ?input)"] conjI allI)
        (use pr up len q hw ne dims(2) input in simp_all)
    note rounds = round_ready_rounds [OF this assms(2,3) order_refl]
    show "yields C F (layer_ready c w wires (Suc l))
      (and_then (combined_quad c l beta) (\<lambda>quad.
      and_then (bindv_gate (fst (ps_bindings ps)) (snd (ps_bindings ps)) alpha quad) (\<lambda>quad.
      and_then (initial_claim (w_layout w) l (ps_claims ps) alpha) (\<lambda>claim.
      and_then (fold_res (run_round C F (w_layout w) l) (rounds_upto ?logw)
         \<lparr>rs_role = ps_role ps, rs_transcript = t1, rs_quad = quad,
          rs_bindings = (replicate ?logw 0, replicate ?logw 0), rs_claim = claim\<rparr>) (\<lambda>rs.
      and_then (single_quad (rs_quad rs)) (\<lambda>bound_element.
      and_then (role_claims l (rs_role rs)) (\<lambda>(claims, role).
      and_then (wire_witness_indices (w_layout w) l) (\<lambda>indices.
      and_then (write_field_element_array F [fst claims, snd claims] (rs_transcript rs)) (\<lambda>t.
        Inr \<lparr>ps_role = role, ps_transcript = t, ps_bindings = rs_bindings rs, ps_claims = claims,
             ps_constraints = add_constraint (final_layer_claim indices bound_element claims (rs_claim rs))
               (bound_element * fst claims * snd claims -
                se_known (final_layer_claim indices bound_element claims (rs_claim rs)))
               (ps_constraints ps)\<rparr>)))))))))"
      unfolding q(1,2) claim and_then_simps
    proof (rule yields_and_then [OF rounds])
      fix rs assume rs: "round_ready c w (pr_wires pr) l (\<lambda>_. ?logw) HLeft rs"
      note fin = round_ready_done [OF rs]
      obtain b where b: "single_quad (rs_quad rs) = Inr b" using fin(1) by blast
      obtain pr1 ws where pr1: "rs_role rs = Prover pr1" "pr_witness pr1 = w"
        "pr_wires pr1 = (pr_wires pr)[Suc l := ws]" "length (fst ws) = 1" "length (snd ws) = 1"
        "proof_shape c (pr_proof pr1)" using fin(2) by blast
      let ?vl = "element (fst ws) 0 - pad_l" and ?vr = "element (snd ws) 0 - pad_r"
      obtain pf where pf: "set_proof_claims l ?vl ?vr (pr_proof pr1) = Inr pf" "proof_shape c pf"
        using set_proof_claims_total [OF pr1(6) assms(3)] by blast
      have "drop 1 (zip (fst ws) (snd ws)) = []" using pr1(4,5) by simp
      then have rc: "role_claims l (Prover pr1) = Inr ((?vl, ?vr), Prover (pr1\<lparr>pr_proof := pf\<rparr>))"
        using pr1(2,3) ix(2) p pf(1) len pr(3) by (simp add: Let_def)
      have "\<exists>t. write_field_element_array F [fst (?vl, ?vr), snd (?vl, ?vr)] (rs_transcript rs) = Inr t"
        by (simp add: write_field_element_array_def length_prefix_def)
      then obtain t where t: "write_field_element_array F [fst (?vl, ?vr), snd (?vl, ?vr)] (rs_transcript rs) = Inr t"
        by blast
      show "yields C F (layer_ready c w wires (Suc l))
        (and_then (single_quad (rs_quad rs)) (\<lambda>bound_element.
         and_then (role_claims l (rs_role rs)) (\<lambda>(claims, role).
         and_then (wire_witness_indices (w_layout w) l) (\<lambda>indices.
         and_then (write_field_element_array F [fst claims, snd claims] (rs_transcript rs)) (\<lambda>t.
         Inr \<lparr>ps_role = role, ps_transcript = t, ps_bindings = rs_bindings rs, ps_claims = claims,
             ps_constraints = add_constraint (final_layer_claim indices bound_element claims (rs_claim rs))
               (bound_element * fst claims * snd claims -
                se_known (final_layer_claim indices bound_element claims (rs_claim rs)))
               (ps_constraints ps)\<rparr>)))))"
        unfolding b pr1(1) rc ix(1) and_then_simps prod.case t
        using pr1(2,3) pf(2) pr(3,4) fin(3) next_w by (simp add: layer_ready_def)
    qed
  qed
qed

lemma layer_ready_layers:
  assumes "witness_ok c w" "layer_dims c" "wires_fit c wires"
    and "\<And>i. i < length (c_layers c) \<Longrightarrow> layer_invariants c i"
    and "ls = drop k (c_layers c)" "layer_ready c w wires k ps"
  shows "yields C F (layer_ready c w wires (k + length ls))
    (fold_res (run_layer C F c (w_layout w)) (enumerate k ls) ps)"
  using assms(5-)
proof (induction ls arbitrary: k ps)
  case (Cons l ls)
  have k: "k < length (c_layers c)" using Cons.prems(1) by (metis drop_eq_Nil list.distinct(1) not_le)
  have l: "l = c_layers c ! k" "ls = drop (Suc k) (c_layers c)"
    using Cons.prems(1) Cons_nth_drop_Suc [OF k] by (metis list.inject)+
  show ?case
    unfolding enumerate_simps fold_res.simps l(1)
  proof (rule yields_and_then [OF layer_ready_step [OF Cons.prems(2) assms(1) k assms(4) [OF k] assms(2,3)]])
    fix ps1 assume "layer_ready c w wires (Suc k) ps1"
    from Cons.IH [OF l(2) this] show "yields C F (layer_ready c w wires (k + length (c_layers c ! k # ls)))
        (fold_res (run_layer C F c (w_layout w)) (enumerate (Suc k) ls) ps1)" by simp
  qed
qed simp

subsection \<open>The whole run\<close>

lemma private_terms_total:
  assumes "\<And>i. i < length js \<Longrightarrow> k + i + n < length eq2"
  shows "\<exists>e'. fold_res (\<lambda>(i, j) e. and_then (nth_res eq2 (i + n)) (\<lambda>x.
      Inr (expr_add e (term_mul (term_new j) x)))) (enumerate k js) e = Inr e'"
  using assms
proof (induction js arbitrary: k e)
  case (Cons j js)
  have "k + n < length eq2" using Cons.prems [of 0] by simp
  moreover have "Suc k + i + n < length eq2" if "i < length js" for i using Cons.prems [of "Suc i"] that by simp
  ultimately show ?case using Cons.IH [of "Suc k"] by simp
qed simp

lemma final_constraint_total:
  assumes "witness_ok c w" "c_num_layers c = length (c_layers c)" "c_layers c \<noteq> []"
    and "length (c_layers c) < 2 ^ 64"
    and "wl_num_private_inputs (w_layout w) + c_num_public_inputs c \<le> 2 ^ length (fst b)"
  shows "\<exists>lc'. final_constraint c (w_layout w) pub b claims gamma lc = Inr lc'"
proof -
  let ?n = "length (c_layers c)"
  have "0 < ?n" using assms(3) by simp
  then have "1 \<le> ?n" "?n - 1 < ?n" by linarith+
  then have n: "usize_sub ?n 1 = ?n - 1" "?n - 1 < ?n"
    using usize_sub_eq [of 1 ?n] assms(4) by simp_all
  then obtain ix where ix: "wire_witness_indices (w_layout w) (?n - 1) = Inr ix"
    using witness_ok_wire [OF assms(1) n(2)] by blast
  obtain e where "fold_res (\<lambda>(i, j) e. and_then (nth_res (bindeq (fst b) (snd b) gamma)
        (i + c_num_public_inputs c)) (\<lambda>x. Inr (expr_add e (term_mul (term_new j) x))))
      (enumerate 0 (private_input_witness_indices (w_layout w))) (expr_new ?n) = Inr e"
    using private_terms_total [of "private_input_witness_indices (w_layout w)" 0 "c_num_public_inputs c"
        "bindeq (fst b) (snd b) gamma" "expr_new ?n"] assms(5)
    by (auto simp: private_input_witness_indices_def length_bindeq)
  with ix show ?thesis
    by (cases ix) (simp add: final_constraint_def assms(2) n(1) Let_def del: One_nat_def)
qed

lemma evaluate_wires_fit:
  assumes "evaluate c inputs = Inr ev" "c_num_layers c = length (c_layers c)"
    and "length (c_layers c) < 2 ^ 64" "c_layers c \<noteq> []"
    and "length inputs = unat (layer_num_wires (last (c_layers c)))"
  shows "wires_fit c (ev_wires ev)"
proof -
  let ?n = "length (c_layers c)"
  note ev = evaluate_layers [OF assms(1-3)]
  have "length (ev_wires ev ! Suc l) = unat (layer_num_wires (c_layers c ! l))" if l: "l < ?n" for l
  proof (cases "Suc l = ?n")
    case True
    then have "c_layers c ! l = last (c_layers c)" using assms(4) by (simp add: last_conv_nth flip: True)
    with True ev(2) assms(5) show ?thesis by simp
  next
    case False
    with l have "Suc l < ?n" by simp
    from evaluate_layer_Inr(3) [OF ev(4) [OF this]] show ?thesis by (simp add: next_width_def)
  qed
  with ev(1) show ?thesis by (simp add: wires_fit_def)
qed

lemma prove_total:
  fixes c :: "'a :: comm_ring_1 circuit" and F :: "'a field_ops"
  assumes "evaluate c inputs = Inr ev" "\<And>i. i < length (c_layers c) \<Longrightarrow> layer_invariants c i"
    and "c_num_layers c = length (c_layers c)" "length (c_layers c) < 2 ^ 64" "c_layers c \<noteq> []"
    and "layer_dims c" "length inputs = unat (layer_num_wires (last (c_layers c)))"
    and "length inputs = c_num_inputs c" "c_num_public_inputs c \<le> c_num_inputs c"
    and "list_all (\<lambda>x. x = 0) (ev_wires ev ! 0)"
    and "ev_private_inputs (c_num_public_inputs c) ev = Inr priv"
    and "fill_witness (layout_from_circuit c) priv pad_generator g = (w, g')"
  shows "yields C F (\<lambda>(pf, lc, t'). proof_shape c pf) (sumcheck_prove C F c ev w t)"
proof -
  let ?n = "length (c_layers c)" and ?npub = "c_num_public_inputs c"
  note ev = evaluate_layers [OF assms(1,3,4)]
  have fit: "wires_fit c (ev_wires ev)" by (rule evaluate_wires_fit [OF assms(1,3,4,5,7)])
  have n64: "usize_sub (length (ev_wires ev)) 1 = ?n" using ev(1) assms(4) by (simp add: usize_sub_def)
  have inputs: "ev_inputs ev = Inr inputs" using ev(1,2) n64 by (simp add: ev_inputs_def nth_res_def)
  have "c_num_inputs c < 2 ^ 64"
    using unat_bound [of "layer_num_wires (last (c_layers c))"] assms(7,8) by simp
  then have np: "wl_num_private_inputs (layout_from_circuit c) = length priv"
    "length priv = length inputs - ?npub" "?npub \<le> length inputs"
    using assms(8,9,11) inputs
    by (auto simp: layout_from_circuit_def num_private_inputs_def ev_private_inputs_def split: if_splits)
  note fw = fill_witness_props [OF assms(12) np(1) [symmetric]]
  have w: "witness_ok c w" using fw(1,2) by (simp add: witness_ok_def)
  let ?pr = "\<lparr>pr_evaluation = ev, pr_witness = w, pr_proof = empty_proof c,
       pr_wires = map (\<lambda>layer. (layer, layer)) (ev_wires ev)\<rparr>"
  have run: "yields C F (\<lambda>(lc, pf, t'). \<exists>pf'. pf = Some pf' \<and> proof_shape c pf') (run_protocol C F c t (Prover ?pr))"
    unfolding run_protocol_def role_inputs.simps
  proof (simp add: ev_public_inputs_def inputs np(3), rule yields_and_then [OF yields_output_bindings], clarify)
    fix b :: "'a list" and t0 assume b: "length b = circuit_logw c"
    let ?ps = "\<lparr>ps_role = Prover ?pr, ps_transcript = t0, ps_bindings = (b, b), ps_claims = (0, 0),
      ps_constraints = \<lparr>lc_lhs_terms = [], lc_rhs = []\<rparr>\<rparr>"
    have "length (hand_of h (b, b)) = ceil_log2 (next_width c 0)" for h
      using b by (cases h) (simp_all add: circuit_logw_def next_width_def)
    then have "layer_ready c w (ev_wires ev) 0 ?ps"
      using empty_proof_shape [of c] by (simp add: layer_ready_def)
    from layer_ready_layers [OF w assms(6) fit assms(2) _ this, of "c_layers c"]
    have layers: "yields C F (layer_ready c w (ev_wires ev) ?n)
      (fold_res (run_layer C F c (w_layout w)) (enumerate 0 (c_layers c)) ?ps)" by simp
    show "yields C F (\<lambda>(lc, pf, t'). \<exists>pf'. pf = Some pf' \<and> proof_shape c pf')
      (and_then (fold_res (run_layer C F c (w_layout w)) (enumerate 0 (c_layers c)) ?ps) (\<lambda>ps.
       and_then (one_challenge C F (ps_transcript ps)) (\<lambda>(gamma, t).
       and_then (final_constraint c (w_layout w) (take ?npub inputs) (ps_bindings ps) (ps_claims ps) gamma
        (ps_constraints ps)) (\<lambda>lc. Inr (lc, role_result (ps_role ps), t)))))"
    proof (rule yields_and_then [OF layers], rule yields_and_then [OF yields_one_challenge], clarify)
      fix ps gamma t1 assume "layer_ready c w (ev_wires ev) ?n ps"
      then obtain pr1 where pr1: "ps_role ps = Prover pr1" "proof_shape c (pr_proof pr1)"
        and lb: "\<And>h. length (hand_of h (ps_bindings ps)) = ceil_log2 (next_width c ?n)"
        by (auto simp: layer_ready_def)
      have "next_width c ?n = length inputs"
        using assms(5,7) by (simp add: next_width_def last_conv_nth)
      then have "length inputs \<le> 2 ^ length (fst (ps_bindings ps))"
        using lb [of HLeft] ceil_log2_upper [of "length inputs"] by simp
      then have "wl_num_private_inputs (w_layout w) + ?npub \<le> 2 ^ length (fst (ps_bindings ps))"
        using np fw(1) by simp
      from final_constraint_total [OF w assms(3,5,4) this] obtain lc' where
        "final_constraint c (w_layout w) (take ?npub inputs) (ps_bindings ps) (ps_claims ps) gamma
          (ps_constraints ps) = Inr lc'" by blast
      with pr1 show "yields C F (\<lambda>(lc, pf, t'). \<exists>pf'. pf = Some pf' \<and> proof_shape c pf')
        (and_then (final_constraint c (w_layout w) (take ?npub inputs) (ps_bindings ps) (ps_claims ps) gamma
        (ps_constraints ps)) (\<lambda>lc. Inr (lc, role_result (ps_role ps), t1)))" by simp
    qed
  qed
  have "ev_outputs ev = Inr (ev_wires ev ! 0)" using ev(1) by (simp add: ev_outputs_def)
  then show ?thesis
    using assms(8,10) inputs
    by (simp add: sumcheck_prove_def) (rule yields_and_then [OF run], auto)
qed

subsection \<open>What a circuit needs\<close>

text \<open>
  The checker of the source asks neither for a quad on every layer nor for the right \<open>logw\<close>. Without a quad, or with a \<open>logw\<close>
  beyond the logarithm of the width, a layer has no proof: the array of its quads is never reduced to a single element, or
  a wire array of one element is to be bound once more.
\<close>

definition rounds_left :: "nat \<Rightarrow> 'a prover_state \<Rightarrow> nat" where
  "rounds_left l pr = ceil_log2 (length (fst (pr_wires pr ! Suc l)))"

definition same_elsewhere :: "nat \<Rightarrow> 'a prover_state \<Rightarrow> 'a prover_state \<Rightarrow> bool" where
  "same_elsewhere l pr pr' \<longleftrightarrow>
     length (pr_wires pr') = length (pr_wires pr) \<and> (\<forall>j. j \<noteq> Suc l \<longrightarrow> pr_wires pr' ! j = pr_wires pr ! j)"

lemma run_round_prover:
  assumes "run_round C F layout l (round, h) rs = Inr rs'" "rs_role rs = Prover pr"
  shows "\<exists>pr'. rs_role rs' = Prover pr' \<and> same_elsewhere l pr pr' \<and>
    rounds_left l pr = (if h = HLeft then 1 else 0) + rounds_left l pr' \<and> (rs_quad rs = [] \<longrightarrow> rs_quad rs' = [])"
proof -
  obtain ws pf bound x where d: "nth_res (pr_wires pr) (Suc l) = Inr ws"
    "bind_array F (hand_of h ws) (BindOther x) = Inr bound"
    "rs_role rs' = Prover (pr\<lparr>pr_proof := pf, pr_wires := (pr_wires pr)[Suc l := set_hand h bound ws]\<rparr>)"
    "bind_hand h x (rs_quad rs) = Inr (rs_quad rs')"
    using assms by (auto simp: run_round_def upd_res_def split: if_splits)
  have l: "Suc l < length (pr_wires pr)" "ws = pr_wires pr ! Suc l" using d(1) by (auto simp: nth_res_def split: if_splits)
  note b = bind_array_length [OF d(2)]
  have "rs_quad rs = [] \<longrightarrow> rs_quad rs' = []" using d(4) by (auto simp: bind_hand_def bind_hand_loop.simps)
  moreover have "rounds_left l pr = (if h = HLeft then 1 else 0) +
      rounds_left l (pr\<lparr>pr_proof := pf, pr_wires := (pr_wires pr)[Suc l := set_hand h bound ws]\<rparr>)"
    using l b ceil_log2.simps [of "length (fst ws)"] by (cases h; cases ws) (auto simp: rounds_left_def)
  ultimately show ?thesis using d(3) l by (auto simp: same_elsewhere_def)
qed

lemma run_rounds_prover:
  assumes "fold_res (run_round C F layout l) (rounds_upto n) rs = Inr rs'" "rs_role rs = Prover pr"
  shows "\<exists>pr'. rs_role rs' = Prover pr' \<and> same_elsewhere l pr pr' \<and> rounds_left l pr = n + rounds_left l pr' \<and>
    (rs_quad rs = [] \<longrightarrow> rs_quad rs' = [])"
  using assms(1)
proof (induction n arbitrary: rs')
  case 0
  then show ?case using assms(2) by (auto simp: same_elsewhere_def)
next
  case (Suc n)
  then obtain rs1 rs2 where r: "fold_res (run_round C F layout l) (rounds_upto n) rs = Inr rs1"
    "run_round C F layout l (n, HLeft) rs1 = Inr rs2" "run_round C F layout l (n, HRight) rs2 = Inr rs'"
    by (auto simp: fold_res_append)
  from Suc.IH [OF r(1)] obtain pr1 where 1: "rs_role rs1 = Prover pr1" "same_elsewhere l pr pr1"
    "rounds_left l pr = n + rounds_left l pr1" "rs_quad rs = [] \<longrightarrow> rs_quad rs1 = []" by blast
  from run_round_prover [OF r(2) 1(1)] obtain pr2 where 2: "rs_role rs2 = Prover pr2" "same_elsewhere l pr1 pr2"
    "rounds_left l pr1 = Suc (rounds_left l pr2)" "rs_quad rs1 = [] \<longrightarrow> rs_quad rs2 = []" by auto
  from run_round_prover [OF r(3) 2(1)] obtain pr3 where 3: "rs_role rs' = Prover pr3" "same_elsewhere l pr2 pr3"
    "rounds_left l pr2 = rounds_left l pr3" "rs_quad rs2 = [] \<longrightarrow> rs_quad rs' = []" by auto
  show ?case using 1 2 3 by (auto simp: same_elsewhere_def)
qed

lemma run_layer_prover:
  assumes "run_layer C F c layout (l, c_layers c ! l) ps = Inr ps'" "ps_role ps = Prover pr" "l < length (c_layers c)"
  shows "\<exists>pr'. ps_role ps' = Prover pr' \<and> same_elsewhere l pr pr'"
    and "layer_quads (c_layers c ! l) \<noteq> []" "unat (layer_logw (c_layers c ! l)) \<le> rounds_left l pr"
proof -
  obtain alpha beta quad0 quad t claim rs b claims role where d: "combined_quad c l beta = Inr quad0"
    "bindv_gate (fst (ps_bindings ps)) (snd (ps_bindings ps)) alpha quad0 = Inr quad"
    "fold_res (run_round C F layout l) (rounds_upto (unat (layer_logw (c_layers c ! l))))
       \<lparr>rs_role = ps_role ps, rs_transcript = t, rs_quad = quad,
        rs_bindings = (replicate (unat (layer_logw (c_layers c ! l))) 0, replicate (unat (layer_logw (c_layers c ! l))) 0),
        rs_claim = claim\<rparr> = Inr rs"
    "single_quad (rs_quad rs) = Inr b" "role_claims l (rs_role rs) = Inr (claims, role)" "ps_role ps' = role"
    using assms(1) by (auto simp: run_layer_def Let_def)
  from run_rounds_prover [OF d(3)] assms(2) obtain pr1 where r: "rs_role rs = Prover pr1" "same_elsewhere l pr pr1"
    "rounds_left l pr = unat (layer_logw (c_layers c ! l)) + rounds_left l pr1" "quad = [] \<longrightarrow> rs_quad rs = []"
    by auto
  show "unat (layer_logw (c_layers c ! l)) \<le> rounds_left l pr" using r(3) by simp
  show "layer_quads (c_layers c ! l) \<noteq> []"
  proof
    assume "layer_quads (c_layers c ! l) = []"
    then have "quad0 = []" using d(1) assms(3) by (auto simp: combined_quad_def nth_res_def)
    then have "quad = []" using d(2) by (auto simp: bindv_gate_def compact_def)
    then show False using d(4) r(4) by (simp add: single_quad_def)
  qed
  show "\<exists>pr'. ps_role ps' = Prover pr' \<and> same_elsewhere l pr pr'"
  proof -
    obtain pf where "role = Prover (pr1\<lparr>pr_proof := pf\<rparr>)" using d(5) r(1) by (auto simp: Let_def)
    then show ?thesis using d(6) r(2) by (simp add: same_elsewhere_def)
  qed
qed

lemma run_layers_prover:
  assumes "fold_res (run_layer C F c layout) (enumerate k ls) ps = Inr ps'" "ps_role ps = Prover pr" "ls = drop k (c_layers c)"
    and "k \<le> l" "l < length (c_layers c)"
  shows "layer_quads (c_layers c ! l) \<noteq> [] \<and> unat (layer_logw (c_layers c ! l)) \<le> rounds_left l pr"
  using assms
proof (induction ls arbitrary: k ps pr)
  case (Cons layer ls)
  have k: "k < length (c_layers c)" using Cons.prems(4,5) by simp
  have ls: "layer = c_layers c ! k" "ls = drop (Suc k) (c_layers c)"
    using Cons.prems(3) Cons_nth_drop_Suc [OF k] by (metis list.inject)+
  obtain ps1 where run: "run_layer C F c layout (k, c_layers c ! k) ps = Inr ps1"
    "fold_res (run_layer C F c layout) (enumerate (Suc k) ls) ps1 = Inr ps'"
    using Cons.prems(1) by (auto simp: ls(1))
  note here = run_layer_prover [OF run(1) Cons.prems(2) k]
  show ?case
  proof (cases "l = k")
    case False
    obtain pr1 where pr1: "ps_role ps1 = Prover pr1" "same_elsewhere k pr pr1" using here(1) by blast
    from Cons.IH [OF run(2) pr1(1) ls(2)] False Cons.prems(4,5) pr1(2) show ?thesis
      by (simp add: rounds_left_def same_elsewhere_def)
  qed (use here in simp)
qed simp

lemma prove_needs:
  assumes "sumcheck_prove C F c ev w t = Inr r" "wires_fit c (ev_wires ev)"
  shows "list_all (\<lambda>layer. layer_quads layer \<noteq> [] \<and> unat (layer_logw layer) \<le> ceil_log2 (unat (layer_num_wires layer)))
    (c_layers c)"
  unfolding list_all_length
proof (intro allI impI)
  fix l assume l: "l < length (c_layers c)"
  let ?pr = "\<lparr>pr_evaluation = ev, pr_witness = w, pr_proof = empty_proof c,
       pr_wires = map (\<lambda>layer. (layer, layer)) (ev_wires ev)\<rparr>"
  obtain layout t0 b ps where run: "fold_res (run_layer C F c layout) (enumerate 0 (c_layers c))
        \<lparr>ps_role = Prover ?pr, ps_transcript = t0, ps_bindings = (b, b), ps_claims = (0, 0),
         ps_constraints = \<lparr>lc_lhs_terms = [], lc_rhs = []\<rparr>\<rparr> = Inr ps"
    using assms(1) by (auto simp: sumcheck_prove_def run_protocol_def)
  have "rounds_left l ?pr = ceil_log2 (unat (layer_num_wires (c_layers c ! l)))"
    using assms(2) l by (simp add: wires_fit_def rounds_left_def)
  with run_layers_prover [OF run _ _ _ l, of ?pr]
  show "layer_quads (c_layers c ! l) \<noteq> [] \<and>
      unat (layer_logw (c_layers c ! l)) \<le> ceil_log2 (unat (layer_num_wires (c_layers c ! l)))" by simp
qed

end
