(* ===== verification/Zk_One_Circuit.thy ===== *)
theory Zk_One_Circuit
  imports Ligero_Accept Sumcheck_Range Sumcheck_Total
begin

text \<open>
  The proof system for one circuit, \<open>src/src/zk_one_circuit\<close>: the prover evaluates the circuit,
  commits with Ligero to the private inputs and the one-time pad, runs sumcheck over a transcript
  that starts with the commitment, and proves with Ligero the linear constraints that sumcheck
  leaves; the verifier replays the same steps from the proof. \<open>prove_then_verify\<close> is completeness.

  The random number generator that the source creates on the spot is a state and a step function for
  each of its uses: the pad, the blinding elements of the tableau, and the nonces of the tree.
\<close>

subsection \<open>Prover and verifier\<close>

record 'a zk_prover =
  zp_circuit :: "'a circuit"
  zp_ligero_prover :: ligero_prover

definition zk_prover_new :: "'a circuit \<Rightarrow> ligero_parameters \<Rightarrow> 'a zk_prover res" where
  "zk_prover_new circuit parameters =
     and_then (ligero_prover_new circuit parameters) (\<lambda>lp.
       Inr \<lparr>zp_circuit = circuit, zp_ligero_prover = lp\<rparr>)"

record 'a zk_proof =
  zk_oracle :: bytes
  zk_sumcheck_proof :: "'a sumcheck_proof"
  zk_ligero_commitment :: node
  zk_ligero_proof :: "'a ligero_proof"

text \<open>\<open>Transcript::new(session_id, mode).unwrap()\<close>\<close>

definition transcript_start :: "bytes \<Rightarrow> transcript res" where
  "transcript_start session_id =
     (case transcript_new session_id V3Compatibility of
        Inl _ \<Rightarrow> Inl (Panic ''called Result::unwrap() on an Err value'')
      | Inr t \<Rightarrow> Inr t)"

definition zk_prove ::
  "crypto \<Rightarrow> 'a :: comm_ring_1 field_ops \<Rightarrow> 'a zk_prover \<Rightarrow> bytes \<Rightarrow> 'a list \<Rightarrow> ('p \<Rightarrow> 'a \<times> 'p) \<Rightarrow> 'p
   \<Rightarrow> ('g \<Rightarrow> 'a \<times> 'g) \<Rightarrow> 'g \<Rightarrow> ('n \<Rightarrow> nonce \<times> 'n) \<Rightarrow> 'n \<Rightarrow> 'a zk_proof res" where
  "zk_prove C F P session_id inputs pad_generator p gen g nonce_gen n =
     (let circuit = zp_circuit P; lp = zp_ligero_prover P in
      and_then (ensure (length inputs = c_num_inputs circuit)
        (Fail ''input length does not match circuit'')) (\<lambda>_.
      and_then (evaluate circuit inputs) (\<lambda>evaluation.
      and_then (ev_private_inputs (c_num_public_inputs circuit) evaluation) (\<lambda>private_inputs.
      let (w, _) = fill_witness (lpr_witness_layout lp) private_inputs pad_generator p in
      and_then (ligero_commit C F lp w gen g nonce_gen n) (\<lambda>(commitment_state, _, _).
      and_then (transcript_start session_id) (\<lambda>t.
      and_then (write_byte_array (cs_root commitment_state) t) (\<lambda>t.
      and_then (ev_public_inputs (c_num_public_inputs circuit) evaluation) (\<lambda>public_inputs.
      and_then (initialize_transcript F circuit public_inputs t) (\<lambda>t.
      and_then (sumcheck_prove C F circuit evaluation w t) (\<lambda>(sumcheck_proof, linear_constraints, t).
      and_then (ligero_prove C F lp t commitment_state linear_constraints) (\<lambda>(ligero_proof, _).
        Inr \<lparr>zk_oracle = session_id, zk_sumcheck_proof = sumcheck_proof,
             zk_ligero_commitment = cs_root commitment_state, zk_ligero_proof = ligero_proof\<rparr>)))))))))))"

record 'a zk_verifier =
  zv_circuit :: "'a circuit"
  zv_ligero_verifier :: ligero_verifier

definition zk_verifier_new :: "'a circuit \<Rightarrow> ligero_parameters \<Rightarrow> 'a zk_verifier res" where
  "zk_verifier_new circuit parameters =
     and_then (ligero_verifier_new circuit parameters) (\<lambda>lv.
       Inr \<lparr>zv_circuit = circuit, zv_ligero_verifier = lv\<rparr>)"

definition zk_verify ::
  "crypto \<Rightarrow> 'a :: comm_ring_1 field_ops \<Rightarrow> 'a zk_verifier \<Rightarrow> 'a list \<Rightarrow> 'a zk_proof \<Rightarrow> unit res" where
  "zk_verify C F V statement pf =
     (let circuit = zv_circuit V in
      and_then (ensure (length statement = c_num_public_inputs circuit)
        (Fail ''statement length does not match circuit'')) (\<lambda>_.
      and_then (transcript_start (zk_oracle pf)) (\<lambda>t.
      and_then (write_byte_array (zk_ligero_commitment pf) t) (\<lambda>t.
      and_then (initialize_transcript F circuit statement t) (\<lambda>t.
      and_then (sumcheck_linear_constraints C F circuit statement (zk_sumcheck_proof pf) t)
        (\<lambda>(linear_constraints, t).
      and_then (ligero_verify C F (zv_ligero_verifier V) (zk_ligero_commitment pf) (zk_ligero_proof pf) t
          linear_constraints) (\<lambda>_. Inr ())))))))"

subsection \<open>Circuits\<close>

text \<open>
  What the checker of circuits ensures, and the sizes that the circuit format and the types of the
  source bound.
\<close>

definition proper_circuit :: "'a :: comm_ring_1 circuit \<Rightarrow> bool" where
  "proper_circuit c \<longleftrightarrow>
     (\<forall>i < length (c_layers c). layer_invariants c i) \<and>
     c_num_layers c = length (c_layers c) \<and> length (c_layers c) < 2 ^ 64 \<and> c_layers c \<noteq> [] \<and>
     layer_dims c \<and> c_num_inputs c = unat (layer_num_wires (last (c_layers c))) \<and>
     c_num_public_inputs c \<le> c_num_inputs c \<and> length (c_id c) < 2 ^ 64 \<and> num_quads c < 2 ^ 64"

lemma proper_circuitD:
  assumes "proper_circuit c"
  shows "\<And>i. i < length (c_layers c) \<Longrightarrow> layer_invariants c i"
    "c_num_layers c = length (c_layers c)" "length (c_layers c) < 2 ^ 64" "c_layers c \<noteq> []"
    "layer_dims c" "c_num_inputs c = unat (layer_num_wires (last (c_layers c)))"
    "c_num_public_inputs c \<le> c_num_inputs c" "length (c_id c) < 2 ^ 64" "num_quads c < 2 ^ 64"
    "c_num_inputs c < 2 ^ 64" "\<forall>i < length (c_layers c). q_z_disjoint c (c_layers c ! i)"
proof -
  have "c_num_inputs c = unat (layer_num_wires (last (c_layers c)))" using assms by (simp add: proper_circuit_def)
  then show "c_num_inputs c < 2 ^ 64" using unat_bound [of "layer_num_wires (last (c_layers c))"] by simp
qed (use assms in \<open>auto simp: proper_circuit_def layer_invariants_def Let_def\<close>)

lemma evaluated_inputs:
  assumes "proper_circuit c" "evaluate c inputs = Inr ev" "length inputs = c_num_inputs c"
  shows "ev_private_inputs (c_num_public_inputs c) ev = Inr (drop (c_num_public_inputs c) inputs)"
    "ev_public_inputs (c_num_public_inputs c) ev = Inr (take (c_num_public_inputs c) inputs)"
    "num_private_inputs c = length (drop (c_num_public_inputs c) inputs)"
proof -
  note c = proper_circuitD [OF assms(1)]
  note ev = evaluate_layers [OF assms(2) c(2,3)]
  have "usize_sub (length (ev_wires ev)) 1 = length (c_layers c)" using ev(1) c(3) by (simp add: usize_sub_def)
  then have "ev_inputs ev = Inr inputs" using ev(1,2) by (simp add: ev_inputs_def nth_res_def)
  then show "ev_private_inputs (c_num_public_inputs c) ev = Inr (drop (c_num_public_inputs c) inputs)"
    "ev_public_inputs (c_num_public_inputs c) ev = Inr (take (c_num_public_inputs c) inputs)"
    using c(7) assms(3) by (simp_all add: ev_private_inputs_def ev_public_inputs_def)
  show "num_private_inputs c = length (drop (c_num_public_inputs c) inputs)"
    using c(7,10) assms(3) by (simp add: num_private_inputs_def)
qed

lemma write_byte_array_ok: "length bs < 2 ^ 64 \<Longrightarrow> \<exists>t'. write_byte_array bs t = Inr t'"
  by (simp add: write_byte_array_def begin_write_byte_array_def length_prefix_def)

lemma transcript_start_ok: "length bs < 2 ^ 64 \<Longrightarrow> \<exists>t'. transcript_start bs = Inr t'"
  using write_byte_array_ok [of bs "\<lparr>tr_mode = V3Compatibility, tr_written = [], tr_fsprf = None\<rparr>"]
  by (auto simp: transcript_start_def transcript_new_def)

lemma initialize_transcript_ok:
  "length (c_id c) < 2 ^ 64 \<Longrightarrow> num_quads c < 2 ^ 64 \<Longrightarrow> \<exists>t'. initialize_transcript F c xs t = Inr t'"
  by (simp add: initialize_transcript_def write_byte_array_def write_zero_array_def begin_write_byte_array_def
      length_prefix_def)

subsection \<open>Completeness\<close>

context reed_solomon
begin

lemma committed_root:
  assumes "parameters_ok ok (tl_parameters L)" "committed C L ws qcs cs"
  shows "\<exists>bs. cs_root cs = cr_sha C bs"
proof -
  note p = parameters_okD [OF assms(1)]
  have "merkle_wf (cr_sha C) (tl_num_columns L - dblock L) (cs_merkle_tree cs)"
    "merkle_root (cs_merkle_tree cs) = Inr (cs_root cs)"
    using assms(2) by (simp_all add: committed_def Let_def)
  moreover have "1 < tl_num_columns L - dblock L" using p by linarith
  ultimately show ?thesis by (auto simp: merkle_wf_def merkle_root_def nth_res_Inr_iff hash_children_def intro: sym)
qed

lemma prove_then_verify:
  assumes "sumcheck_field F" "proper_circuit c" "parameters_ok ok params" "\<And>bs. length (cr_sha C bs) < 2 ^ 64"
    and "length inputs = c_num_inputs c" "evaluate c inputs = Inr ev" "list_all (\<lambda>x. x = 0) (ev_wires ev ! 0)"
    and "length session_id < 2 ^ 64"
  shows "\<exists>P V. zk_prover_new c params = Inr P \<and> zk_verifier_new c params = Inr V \<and>
    yields C F (\<lambda>pf. zk_verify C F V (take (c_num_public_inputs c) inputs) pf = Inr ())
      (zk_prove C F P session_id inputs pad_generator p gen g nonce_gen n)"
proof -
  note c = proper_circuitD [OF assms(2)]
  let ?wl = "layout_from_circuit c" and ?npub = "c_num_public_inputs c"
  let ?pub = "take ?npub inputs" and ?priv = "drop ?npub inputs"
  note ev = evaluated_inputs [OF assms(2,6,5)]
  obtain w p' where w: "fill_witness ?wl ?priv pad_generator p = (w, p')" by fastforce
  have "length ?priv = wl_num_private_inputs ?wl" using ev(3) by (simp add: layout_from_circuit_def)
  note fw = fill_witness_props [OF w this]
  obtain qcs where qcs: "quadratic_constraints c ?wl = Inr qcs"
    "list_all (\<lambda>q. qc_x q < length (w_values w) \<and> qc_y q < length (w_values w) \<and>
      qc_z q < length (w_values w) \<and> quadratic_constraint_holds (nth (w_values w)) q) qcs"
    using quadratic_constraints_filled [OF w ev(3) [symmetric] c(2)] by blast
  let ?lp = "\<lparr>lpr_parameters = params, lpr_witness_layout = ?wl, lpr_quadratic_constraints = qcs\<rparr>"
  let ?P = "\<lparr>zp_circuit = c, zp_ligero_prover = ?lp\<rparr>"
  let ?L = "tableau_layout_new params (layout_length ?wl) (length qcs)"
  let ?V = "\<lparr>zv_circuit = c, zv_ligero_verifier = \<lparr>lv_quadratic_constraints = qcs, lv_tableau_layout = ?L\<rparr>\<rparr>"
  have new: "zk_prover_new c params = Inr ?P" "zk_verifier_new c params = Inr ?V"
    using qcs(1) by (simp_all add: zk_prover_new_def ligero_prover_new_def zk_verifier_new_def ligero_verifier_new_def)
  have ok: "parameters_ok ok (lpr_parameters ?lp)" "constraint_indices_ok (w_values w) (lpr_quadratic_constraints ?lp)"
    "\<forall>q \<in> set (lpr_quadratic_constraints ?lp). quadratic_constraint_holds (nth (w_values w)) q"
    using assms(3) qcs(2) by (auto simp: constraint_indices_ok_def list_all_iff)
  obtain cs g' n' where commit: "ligero_commit C F ?lp w gen g nonce_gen n = Inr (cs, g', n')"
    and committed: "committed C ?L (w_values w) qcs cs"
    using ligero_commit_ok [OF ok(1,2), of C gen g nonce_gen n] fw(2) by auto
  have "parameters_ok ok (tl_parameters ?L)" using assms(3) by (simp add: tableau_layout_new_def)
  from committed_root [OF this committed] have root: "length (cs_root cs) < 2 ^ 64" using assms(4) by auto
  obtain t0 where t0: "transcript_start session_id = Inr t0" using transcript_start_ok [OF assms(8)] by blast
  obtain t1 where t1: "write_byte_array (cs_root cs) t0 = Inr t1" using write_byte_array_ok [OF root] by blast
  obtain t2 where t2: "initialize_transcript F c ?pub t1 = Inr t2" using initialize_transcript_ok [OF c(8,9)] by blast
  have total: "yields C F (\<lambda>(pf, lc, t'). proof_shape c pf) (sumcheck_prove C F c ev w t2)"
    using prove_total [OF assms(6) c(1-5) _ assms(5) c(7) assms(7) ev(1) w] assms(5) c(6) by simp
  have verify: "zk_verify C F ?V ?pub \<lparr>zk_oracle = session_id, zk_sumcheck_proof = sp,
      zk_ligero_commitment = cs_root cs, zk_ligero_proof = lp\<rparr> = Inr ()"
    if "sumcheck_linear_constraints C F c ?pub sp t2 = Inr (lc, t3)"
      "ligero_verify C F (zv_ligero_verifier ?V) (cs_root cs) lp t3 lc = Inr t4" for sp lp lc t3 t4
    using that t0 t1 t2 c(7) assms(5) by (simp add: zk_verify_def)
  have "yields C F (\<lambda>pf. zk_verify C F ?V ?pub pf = Inr ())
      (zk_prove C F ?P session_id inputs pad_generator p gen g nonce_gen n)"
  proof (simp add: zk_prove_def assms(5,6) ev(1,2) w commit t0 t1 t2, rule yields_and_then [OF total], clarify)
    fix sp lc t3 assume sp: "sumcheck_prove C F c ev w t2 = Inr (sp, lc, t3)"
    have "terms_in_range (length (w_values w)) lc"
      using prove_in_range(1) [OF sp fw(1) c(2)] fw(2) by simp
    moreover have "linear_constraints_hold (nth (w_values w)) lc"
      by (rule sumcheck_field.prove_constraints_hold [OF assms(1,6) c(2,3,10,11) ev(1) w sp])
    ultimately have lig: "yields C F (\<lambda>(pf, t'). ligero_verify C F (zv_ligero_verifier ?V) (cs_root cs) pf t3 lc = Inr t')
        (ligero_prove C F ?lp t3 cs lc)"
      using ligero_complete [OF ok, of lc ?L C cs t3] committed fw(2) by simp
    have lin: "sumcheck_linear_constraints C F c ?pub sp t2 = Inr (lc, t3)"
      by (rule prove_then_linear_constraints [OF sp fw(1) ev(2)])
    show "yields C F (\<lambda>pf. zk_verify C F ?V ?pub pf = Inr ())
      (and_then (ligero_prove C F ?lp t3 cs lc) (\<lambda>(ligero_proof, _).
        Inr \<lparr>zk_oracle = session_id, zk_sumcheck_proof = sp,
             zk_ligero_commitment = cs_root cs, zk_ligero_proof = ligero_proof\<rparr>))"
      by (rule yields_and_then [OF lig]) (use verify [OF lin] in auto)
  qed
  with new show ?thesis by blast
qed

end

end
