(* ===== verification/Ligero_Format.thy ===== *)
theory Ligero_Format
  imports Ligero_Verifier Ligero_Accept
begin

text \<open>
  The wire format of a Ligero proof (\<open>ParameterizedCodec\<close> of \<open>LigeroProof\<close> in \<open>src/src/ligero/prover.rs\<close>). The
  opened columns are written as runs that alternate between full field elements and elements of the
  subfield. The writer counts, for the length of a run, every later element of the run's kind and
  not only those before the first of the other kind; it fails when a subfield run then
  covers an element outside the subfield, and whenever it does not fail the reader returns what was written.
\<close>

definition max_run_length :: nat where
  "max_run_length = 2 ^ 25"

subsection \<open>Writing\<close>

text \<open>\<open>for element in ... { if run_length == MAX { break; } if ... { run_length += 1; } }\<close>\<close>

fun run_length_loop :: "('a \<Rightarrow> bool) \<Rightarrow> bool \<Rightarrow> 'a list \<Rightarrow> nat \<Rightarrow> nat" where
  "run_length_loop in_subfield is_subfield_run [] run_length = run_length"
| "run_length_loop in_subfield is_subfield_run (e # es) run_length =
     (if run_length = max_run_length then run_length
      else run_length_loop in_subfield is_subfield_run es
             (if in_subfield e = is_subfield_run then run_length + 1 else run_length))"

lemma run_length_loop_eq:
  "n \<le> max_run_length \<Longrightarrow>
   run_length_loop p b es n = min max_run_length (n + length (filter (\<lambda>e. p e = b) es))"
  by (induction es arbitrary: n) auto

definition run_length :: "('a \<Rightarrow> bool) \<Rightarrow> bool \<Rightarrow> 'a list \<Rightarrow> nat" where
  "run_length in_subfield is_subfield_run es = run_length_loop in_subfield is_subfield_run es 0"

lemma run_length_eq: "run_length p b es = min max_run_length (length (filter (\<lambda>e. p e = b) es))"
  by (simp add: run_length_def run_length_loop_eq)

lemma run_length_bounds: "run_length p b es \<le> length es" "run_length p b es \<le> max_run_length"
  by (simp_all add: run_length_eq min.coboundedI2)

text \<open>Two runs in a row of length 0 end the loop: the measure counts the elements and an empty run.\<close>

definition runs_measure :: "('a \<Rightarrow> bool) \<Rightarrow> bool \<Rightarrow> 'a list \<Rightarrow> nat" where
  "runs_measure p b es = 2 * length es + (if \<exists>e \<in> set es. p e = b then 0 else 1)"

lemma runs_measure_decreases:
  assumes "es \<noteq> []"
  shows "runs_measure p (\<not> b) (drop (run_length p b es) es) < runs_measure p b es"
proof (cases "\<exists>e \<in> set es. p e = b")
  case True
  then have "filter (\<lambda>e. p e = b) es \<noteq> []" by (simp add: filter_empty_conv)
  then have "0 < run_length p b es" by (simp add: run_length_eq max_run_length_def)
  then have "length es - run_length p b es + 1 \<le> length es" using run_length_bounds(1) [of p b es] by linarith
  then show ?thesis using True by (auto simp: runs_measure_def)
next
  case False
  then have "run_length p b es = 0" by (simp add: run_length_eq)
  moreover have "\<exists>e \<in> set es. p e = (\<not> b)" using False assms by (cases es) auto
  ultimately show ?thesis using False by (simp add: runs_measure_def)
qed

function encode_runs :: "'a field_ops \<Rightarrow> bool \<Rightarrow> 'a list \<Rightarrow> bytes res" where
  "encode_runs F is_subfield_run elements =
     (if elements = [] then Inr []
      else
        let run_length = run_length (fo_in_subfield F) is_subfield_run elements in
        and_then (u32_encode (word_of_nat run_length)) (\<lambda>b.
        and_then (encode_fixed_array (if is_subfield_run then fo_encode_sub F else fe_encode F)
            (take run_length elements)) (\<lambda>run.
        and_then (encode_runs F (\<not> is_subfield_run) (drop run_length elements)) (\<lambda>rest.
          Inr (b @ run @ rest)))))"
  by pat_completeness auto
termination
  by (relation "measure (\<lambda>(F, b, es). runs_measure (fo_in_subfield F) b es)")
    (simp_all add: runs_measure_decreases)

declare encode_runs.simps [simp del]

definition ligero_proof_encode :: "'a field_ops \<Rightarrow> 'a ligero_proof enc" where
  "ligero_proof_encode F pf =
     and_then (encode_fixed_array (fe_encode F) (lp_low_degree_test_proof pf)) (\<lambda>b1.
     and_then (encode_fixed_array (fe_encode F) (lp_dot_proof pf)) (\<lambda>b2.
     and_then (encode_fixed_array (fe_encode F) (fst (lp_quadratic_proof pf))) (\<lambda>b3.
     and_then (encode_fixed_array (fe_encode F) (snd (lp_quadratic_proof pf))) (\<lambda>b4.
     and_then (encode_fixed_array nonce_encode (lp_merkle_tree_nonces pf)) (\<lambda>b5.
     and_then (encode_runs F False (concat (lp_tableau_columns pf))) (\<lambda>b6.
     and_then (inclusion_proof_encode (lp_inclusion_proof pf)) (\<lambda>b7.
       Inr (b1 @ b2 @ b3 @ b4 @ b5 @ b6 @ b7))))))))"

subsection \<open>Reading\<close>

text \<open>
  The loop ends when all elements are there. Runs of length 0 are allowed, so only the end of
  the input bounds their number; for a reader of elements that does not consume input in order, the
  loop is a partial function.
\<close>

partial_function (option) decode_runs ::
  "'a field_ops \<Rightarrow> nat \<Rightarrow> bool \<Rightarrow> 'a list \<Rightarrow> bytes \<Rightarrow> ('a list \<times> bytes) res option" where
  "decode_runs F expected subfield_run column_elements bs =
     (if length column_elements < expected then
        case u32_decode bs of
          Inl e \<Rightarrow> Some (Inl e)
        | Inr (n, r) \<Rightarrow>
            if unat n > max_run_length then Some (Inl (Fail ''run exceeds maximum run length''))
            else if unat n + length column_elements > expected
            then Some (Inl (Fail ''too many column elements in serialized proof''))
            else case decode_fixed_array (if subfield_run then fo_decode_sub F else fe_decode F) (unat n) r of
                Inl e \<Rightarrow> Some (Inl e)
              | Inr (run, r') \<Rightarrow> decode_runs F expected (\<not> subfield_run) (column_elements @ run) r'
      else Some (Inr (column_elements, bs)))"

definition ligero_proof_decode :: "'a field_ops \<Rightarrow> tableau_layout \<Rightarrow> 'a ligero_proof dec" where
  "ligero_proof_decode F L bs =
     and_then (decode_fixed_array (fe_decode F) (tl_block_size L) bs) (\<lambda>(low_degree_test_proof, r).
     and_then (decode_fixed_array (fe_decode F) (dblock L) r) (\<lambda>(dot_proof, r).
     and_then (decode_fixed_array (fe_decode F) (num_requested_columns L) r) (\<lambda>(low, r).
     and_then (decode_fixed_array (fe_decode F) (usize_sub (dblock L) (tl_block_size L)) r) (\<lambda>(high, r).
     and_then (decode_fixed_array nonce_decode (num_requested_columns L) r) (\<lambda>(nonces, r).
     and_then (check_layout L) (\<lambda>_.
     let expected = num_rows L * num_requested_columns L in
     and_then (case decode_runs F expected False [] r of None \<Rightarrow> Inl Diverges | Some res \<Rightarrow> res)
       (\<lambda>(column_elements, r).
     and_then (ensure (length column_elements = expected)
       (Fail ''unexpected number of column elements in serialized proof'')) (\<lambda>_.
     and_then (ensure (num_requested_columns L \<noteq> 0) (Panic ''chunk size must be non-zero'')) (\<lambda>_.
     and_then (inclusion_proof_decode r) (\<lambda>(inclusion_proof, r).
       Inr (\<lparr>lp_low_degree_test_proof = low_degree_test_proof, lp_dot_proof = dot_proof,
             lp_quadratic_proof = (low, high), lp_merkle_tree_nonces = nonces,
             lp_tableau_columns = chunks (num_requested_columns L) column_elements,
             lp_inclusion_proof = inclusion_proof\<rparr>, r)))))))))))"

subsection \<open>The codec\<close>

text \<open>A field with the codec of its subfield.\<close>

locale subfield_codec = field_codec F + sub: codec "fo_encode_sub F" "fo_decode_sub F" "\<lambda>_. True"
  for F :: "'a field_ops"
begin

lemma element_codec: "codec (if b then fo_encode_sub F else fe_encode F) (if b then fo_decode_sub F else fe_decode F) (\<lambda>_. True)"
  using sub.codec_axioms fe.codec_axioms by (cases b) simp_all

text \<open>Every iteration takes the four bytes of the length from the input, so the loop ends.\<close>

lemma decode_runs_terminates: "\<exists>res. decode_runs F expected b acc bs = Some res"
proof (induction "length bs" arbitrary: b acc bs rule: less_induct)
  case less
  show ?case
  proof (cases "u32_decode bs")
    case (Inl e)
    then show ?thesis by (subst decode_runs.simps) simp
  next
    case (Inr nr)
    obtain n r where nr: "nr = (n, r)" by fastforce
    have r: "length r + 4 = length bs"
      using Inr nr by (auto simp: u32_decode_def dest!: read_le_consume)
    show ?thesis
    proof (cases "decode_fixed_array (if b then fo_decode_sub F else fe_decode F) (unat n) r")
      case (Inl e)
      then show ?thesis using Inr nr by (subst decode_runs.simps) simp
    next
      case run: (Inr x)
      obtain run r' where x: "x = (run, r')" by fastforce
      obtain q where "r = q @ r'"
        using codec.fixed_array_consume [OF element_codec [of b]] run x by blast
      then have "length r' < length bs" using r by simp
      from less.hyps [OF this, of "\<not> b" "acc @ run"] show ?thesis
        using Inr nr run x by (subst decode_runs.simps) simp
    qed
  qed
qed

lemma decode_runs_consume:
  assumes "decode_runs F expected b acc bs = Some (Inr (xs, rest))"
  shows "\<exists>q. bs = q @ rest"
  using assms
proof (induction "length bs" arbitrary: b acc bs rule: less_induct)
  case less
  show ?case
  proof (cases "length acc < expected")
    case True
    from less.prems True obtain n r run r' where
      n: "u32_decode bs = Inr (n, r)"
      and run: "decode_fixed_array (if b then fo_decode_sub F else fe_decode F) (unat n) r = Inr (run, r')"
      and next_run: "decode_runs F expected (\<not> b) (acc @ run) r' = Some (Inr (xs, rest))"
      by (subst (asm) decode_runs.simps) (auto split: sum.splits if_splits)
    obtain q where q: "r = q @ r'" using codec.fixed_array_consume [OF element_codec run] by blast
    obtain p where p: "bs = p @ r" "length p = 4" using n by (auto simp: u32_decode_def dest!: read_le_consume)
    have "length r' < length bs" using p q by simp
    from less.hyps [OF this next_run] p q show ?thesis by auto
  next
    case False
    with less.prems show ?thesis by (subst (asm) decode_runs.simps) simp
  qed
qed

lemma decode_encode_runs:
  assumes "encode_runs F b es = Inr bs" "length acc + length es = expected"
  shows "decode_runs F expected b acc (bs @ rest) = Some (Inr (acc @ es, rest))"
  using assms
proof (induction "runs_measure (fo_in_subfield F) b es" arbitrary: b es acc bs rule: less_induct)
  case less
  show ?case
  proof (cases "es = []")
    case True
    then show ?thesis using less.prems by (subst decode_runs.simps) (simp add: encode_runs.simps)
  next
    case False
    let ?n = "run_length (fo_in_subfield F) b es"
    from less.prems(1) False obtain c run cs where c: "u32_encode (word_of_nat ?n) = Inr c"
      and run: "encode_fixed_array (if b then fo_encode_sub F else fe_encode F) (take ?n es) = Inr run"
      and cs: "encode_runs F (\<not> b) (drop ?n es) = Inr cs" and bs: "bs = c @ run @ cs"
      by (subst (asm) encode_runs.simps) (auto simp: Let_def)
    have n: "?n \<le> length es" "?n \<le> max_run_length" by (rule run_length_bounds)+
    then have un: "unat (word_of_nat ?n :: u32) = ?n" by (simp add: unat_of_nat max_run_length_def)
    have u: "u32_decode (bs @ rest) = Inr (word_of_nat ?n, run @ cs @ rest)"
      using u32.roundtrip [OF TrueI c] bs by simp
    have d: "decode_fixed_array (if b then fo_decode_sub F else fe_decode F) ?n (run @ cs @ rest) =
        Inr (take ?n es, cs @ rest)"
      using codec.fixed_array_roundtrip [OF element_codec _ run, of "cs @ rest"] n(1)
      by (simp add: list.pred_True)
    have "length (acc @ take ?n es) + length (drop ?n es) = expected" using less.prems(2) by simp
    moreover have "length acc < expected" using less.prems(2) False by (cases es) simp_all
    ultimately show ?thesis
      using less.hyps [OF runs_measure_decreases [OF False] cs] n un u d less.prems(2) by (subst decode_runs.simps) simp
  qed
qed

end

text \<open>The shape that the layout gives to a proof.\<close>

definition ligero_proof_shape :: "tableau_layout \<Rightarrow> 'a ligero_proof \<Rightarrow> bool" where
  "ligero_proof_shape L pf \<longleftrightarrow>
     length (lp_low_degree_test_proof pf) = tl_block_size L \<and> length (lp_dot_proof pf) = dblock L \<and>
     length (fst (lp_quadratic_proof pf)) = num_requested_columns L \<and>
     length (snd (lp_quadratic_proof pf)) = usize_sub (dblock L) (tl_block_size L) \<and>
     length (lp_merkle_tree_nonces pf) = num_requested_columns L \<and>
     list_all (\<lambda>n. length n = 32) (lp_merkle_tree_nonces pf) \<and>
     length (lp_tableau_columns pf) = num_rows L \<and>
     list_all (\<lambda>r. length r = num_requested_columns L) (lp_tableau_columns pf) \<and>
     list_all (\<lambda>d. length d = 32) (lp_inclusion_proof pf)"

interpretation nonce: fixed_codec nonce_encode nonce_decode "\<lambda>n. length n = 32" 32
  using digest.fixed_codec_axioms
  by (simp add: nonce_encode_def [abs_def] nonce_decode_def [abs_def] digest_encode_def [abs_def] digest_decode_def [abs_def])

lemma length_concat_rows:
  "list_all (\<lambda>r. length r = n) rows \<Longrightarrow> length (concat rows) = length rows * n"
  by (induction rows) simp_all

context subfield_codec
begin

lemma ligero_proof_roundtrip:
  assumes "check_layout L = Inr ()" "num_requested_columns L \<noteq> 0" "ligero_proof_shape L pf"
    and "ligero_proof_encode F pf = Inr bs"
  shows "ligero_proof_decode F L (bs @ rest) = Inr (pf, rest)"
proof -
  from assms(3) have shape: "length (lp_low_degree_test_proof pf) = tl_block_size L" "length (lp_dot_proof pf) = dblock L"
    "length (fst (lp_quadratic_proof pf)) = num_requested_columns L"
    "length (snd (lp_quadratic_proof pf)) = usize_sub (dblock L) (tl_block_size L)"
    "length (lp_merkle_tree_nonces pf) = num_requested_columns L"
    "list_all (\<lambda>n. length n = 32) (lp_merkle_tree_nonces pf)" "length (lp_tableau_columns pf) = num_rows L"
    "list_all (\<lambda>r. length r = num_requested_columns L) (lp_tableau_columns pf)"
    "list_all (\<lambda>d. length d = 32) (lp_inclusion_proof pf)"
    by (simp_all add: ligero_proof_shape_def)
  obtain b1 b2 b3 b4 b5 b6 b7 where
    e: "encode_fixed_array (fe_encode F) (lp_low_degree_test_proof pf) = Inr b1"
    "encode_fixed_array (fe_encode F) (lp_dot_proof pf) = Inr b2"
    "encode_fixed_array (fe_encode F) (fst (lp_quadratic_proof pf)) = Inr b3"
    "encode_fixed_array (fe_encode F) (snd (lp_quadratic_proof pf)) = Inr b4"
    "encode_fixed_array nonce_encode (lp_merkle_tree_nonces pf) = Inr b5"
    "encode_runs F False (concat (lp_tableau_columns pf)) = Inr b6"
    "inclusion_proof_encode (lp_inclusion_proof pf) = Inr b7"
    and bs: "bs = b1 @ b2 @ b3 @ b4 @ b5 @ b6 @ b7"
    using assms(4) by (auto simp: ligero_proof_encode_def)
  have all: "list_all (\<lambda>_. True) xs" for xs :: "'a list" by (simp add: list.pred_True)
  note arrays = fe.fixed_array_roundtrip [OF all e(1), unfolded shape] fe.fixed_array_roundtrip [OF all e(2), unfolded shape]
    fe.fixed_array_roundtrip [OF all e(3), unfolded shape] fe.fixed_array_roundtrip [OF all e(4), unfolded shape]
    nonce.fixed_array_roundtrip [OF shape(6) e(5), unfolded shape]
  have len: "length (concat (lp_tableau_columns pf)) = num_rows L * num_requested_columns L"
    using length_concat_rows [OF shape(8)] shape(7) by simp
  have runs: "decode_runs F (num_rows L * num_requested_columns L) False [] (b6 @ b7 @ rest) =
      Some (Inr (concat (lp_tableau_columns pf), b7 @ rest))"
    using decode_encode_runs [OF e(6), of "[]"] len by simp
  have rows: "chunks (num_requested_columns L) (concat (lp_tableau_columns pf)) = lp_tableau_columns pf"
    using shape(8) assms(2) by (intro chunks_concat) (simp_all add: list_all_iff)
  show ?thesis
    unfolding ligero_proof_decode_def bs
    by (simp add: arrays runs assms(1,2) len rows inclusion_proof.roundtrip [OF shape(9) e(7)])
qed

lemma ligero_proof_consume:
  assumes "ligero_proof_decode F L bs = Inr (pf, rest)"
  shows "\<exists>q. bs = q @ rest"
proof -
  from assms obtain xs1 r1 xs2 r2 xs3 r3 xs4 r4 ns r5 es r6 ip where
    "decode_fixed_array (fe_decode F) (tl_block_size L) bs = Inr (xs1, r1)"
    "decode_fixed_array (fe_decode F) (dblock L) r1 = Inr (xs2, r2)"
    "decode_fixed_array (fe_decode F) (num_requested_columns L) r2 = Inr (xs3, r3)"
    "decode_fixed_array (fe_decode F) (usize_sub (dblock L) (tl_block_size L)) r3 = Inr (xs4, r4)"
    "decode_fixed_array nonce_decode (num_requested_columns L) r4 = Inr (ns, r5)"
    "decode_runs F (num_rows L * num_requested_columns L) False [] r5 = Some (Inr (es, r6))"
    "inclusion_proof_decode r6 = Inr (ip, rest)"
    by (auto simp: ligero_proof_decode_def Let_def split: option.splits)
  note steps = this
  from fe.fixed_array_consume [OF steps(1)] fe.fixed_array_consume [OF steps(2)] fe.fixed_array_consume [OF steps(3)]
    fe.fixed_array_consume [OF steps(4)] nonce.fixed_array_consume [OF steps(5)] decode_runs_consume [OF steps(6)]
    inclusion_proof.consume [OF steps(7)]
  show ?thesis by auto
qed

end

section \<open>Ligero Shape\<close>

text \<open>
  The proofs that the Ligero prover returns have the shape their wire format needs, so they can be
  written and read back: the lengths of the parts, the 32 bytes of nonces and digests, and the bound on
  the inclusion proof.
\<close>

subsection \<open>Lengths of the parts\<close>

lemma slice_res_length: "slice_res xs i j = Inr ys \<Longrightarrow> length ys = j - i \<and> i \<le> j \<and> j \<le> length xs"
  by (auto simp: slice_res_def split: if_splits)

lemma low_degree_part_length: "low_degree_part L contents blinds = Inr p \<Longrightarrow> length p = tl_block_size L"
proof -
  assume "low_degree_part L contents blinds = Inr p"
  then obtain r q where q: "slice_res r 0 (tl_block_size L) = Inr q"
    and p: "p = fold add_scaled (zip (drop first_witness_row contents) blinds) q"
    by (auto simp: low_degree_part_def)
  have "length (fold add_scaled rs q) = length q" for rs :: "('a list \<times> 'a) list"
    by (rule fold_invariant) (auto simp: add_scaled_def)
  then show ?thesis using slice_res_length [OF q] p by simp
qed

lemma dot_part_length: "dot_part F L contents ipv = Inr p \<Longrightarrow> length p = dblock L"
  by (auto simp: dot_part_def)

lemma quadratic_step_length:
  "quadratic_step L contents ic p = Inr q \<Longrightarrow> length q = length p"
  by (auto simp: quadratic_step_def Let_def add_quadratic_def split: prod.splits)

lemma quadratic_part_length:
  assumes "quadratic_part L contents blinds = Inr (low, high)"
  shows "length low = num_requested_columns L" "length high = dblock L - tl_block_size L"
proof -
  obtain r p q where p: "slice_res r 0 (dblock L) = Inr p"
    and q: "fold_res (quadratic_step L contents) (enumerate 0 blinds) p = Inr q"
    and low: "slice_res q 0 (num_requested_columns L) = Inr low"
    and high: "slice_res q (tl_block_size L) (length q) = Inr high"
    using assms by (auto simp: quadratic_part_def)
  have "length q = length p"
    by (rule fold_res_invariant [OF q]) (simp_all add: quadratic_step_length)
  then show "length low = num_requested_columns L" "length high = dblock L - tl_block_size L"
    using slice_res_length [OF p] slice_res_length [OF low] slice_res_length [OF high] by simp_all
qed

lemma map_res_all:
  assumes "map_res f xs = Inr ys" "\<And>x y. x \<in> set xs \<Longrightarrow> f x = Inr y \<Longrightarrow> P y"
  shows "list_all P ys"
  using assms
proof (induction xs arbitrary: ys)
  case (Cons x xs)
  then obtain y zs where y: "f x = Inr y" and zs: "map_res f xs = Inr zs" "ys = y # zs" by auto
  have "P y" using y by (rule Cons.prems(2) [of x, rotated]) simp
  moreover have "list_all P zs" using zs(1) Cons.prems(2) by (rule Cons.IH) simp_all
  ultimately show ?case by (simp add: zs(2))
qed simp

lemma requested_elements_rows:
  assumes "requested_elements L contents idx = Inr es" "0 < length idx"
  shows "length (chunks (length idx) es) = num_rows L \<and> list_all (\<lambda>r. length r = length idx) (chunks (length idx) es)"
proof -
  obtain rows where rows: "map_res (\<lambda>row. and_then (nth_res contents row) (\<lambda>r.
         map_res (\<lambda>index. nth_res r (index + dblock L)) idx)) [0..<num_rows L] = Inr rows" "es = concat rows"
    using assms(1) by (auto simp: requested_elements_def)
  have all: "list_all (\<lambda>r. length r = length idx) rows"
    by (rule map_res_all [OF rows(1)]) (auto dest: map_res_length)
  then have "chunks (length idx) es = rows"
    unfolding rows(2) by (intro chunks_concat assms(2)) (simp add: list_all_iff)
  then show ?thesis using all map_res_length [OF rows(1)] by simp
qed

subsection \<open>Digests and nonces\<close>

lemma merkle_prove_nodes:
  assumes "merkle_prove t req = Inr pf"
  shows "\<forall>d \<in> set pf. \<exists>j. 2 \<le> j \<and> j < 2 * leaf_count t \<and> d = mt_digests t ! j" "length pf \<le> leaf_count t"
proof -
  obtain M where pf: "pf = fold (\<lambda>index proof. case missing_child M index of
                Some child_index \<Rightarrow> proof @ [mt_digests t ! child_index] | None \<Rightarrow> proof)
            (rev [1..<leaf_count t]) []" (is "_ = fold ?step _ _")
    using assms by (auto simp: merkle_prove_def)
  have child: "2 \<le> j \<and> j < 2 * n" if "missing_child M i = Some j" "1 \<le> i" "i < n" for i j n
    using that by (auto simp: missing_child_def Let_def split: if_splits)
  let ?ok = "\<lambda>p. \<forall>d \<in> set p. \<exists>j. 2 \<le> j \<and> j < 2 * leaf_count t \<and> d = mt_digests t ! j"
  show "?ok pf"
    unfolding pf
  proof (rule fold_invariant)
    fix i p assume "i \<in> set (rev [1..<leaf_count t])" and p: "?ok p"
    then have i: "1 \<le> i" "i < leaf_count t" by auto
    show "?ok (?step i p)"
    proof (cases "missing_child M i")
      case (Some j)
      with child [OF Some i] p show ?thesis by auto
    qed (use p in simp)
  qed simp
  have "length (fold ?step is p) \<le> length p + length is" for "is" p
  proof (induction "is" arbitrary: p)
    case (Cons i "is")
    have "length (?step i p) \<le> length p + 1" by (simp split: option.splits)
    with Cons.IH [of "?step i p"] show ?case by simp
  qed simp
  from this [of "rev [1..<leaf_count t]" "[]"] show "length pf \<le> leaf_count t" unfolding pf by simp
qed

lemma merkle_wf_digests:
  assumes "merkle_wf sha n t" "\<And>x. length (sha x) = 32" "\<forall>i < n. length (leaf_at t i) = 32" "1 \<le> j" "j < 2 * n"
  shows "length (mt_digests t ! j) = 32"
proof (cases "j < n")
  case True
  then show ?thesis using assms by (simp add: merkle_wf_def hash_children_def)
next
  case False
  then have "mt_digests t ! j = leaf_at t (j - n)" using assms(1) by (simp add: leaf_at_digest)
  then show ?thesis using False assms(3,5) by simp
qed

lemma tableau_commit_nonces:
  assumes "tableau_commit C F tb nonce_gen n = Inr (tree, n')" "\<And>n. length (fst (nonce_gen n)) = 32"
  shows "list_all (\<lambda>n. length n = 32) (mt_nonces tree)"
proof -
  let ?ok = "\<lambda>st. list_all (\<lambda>n. length n = 32) (mt_nonces (fst st))"
  obtain st where st: "fold_res (commit_column C F tb nonce_gen) [dblock (tb_layout tb)..<tl_num_columns (tb_layout tb)]
      (merkle_new (usize_sub (tl_num_columns (tb_layout tb)) (dblock (tb_layout tb))), n) = Inr st"
    and tree: "tree = merkle_build (cr_sha C) (fst st)"
    using assms(1) by (auto simp: tableau_commit_def Let_def)
  have "?ok st"
  proof (rule fold_res_invariant [OF st])
    show "?ok s'" if ok: "?ok s" and step: "commit_column C F tb nonce_gen i s = Inr s'" for i s s'
    proof -
      obtain nonce m where nonce: "nonce_gen (snd s) = (nonce, m)" by fastforce
      then have "length nonce = 32" using assms(2) [of "snd s"] by simp
      then show ?thesis
        using ok step nonce
        by (auto simp: commit_column_def set_leaf_def upd_res_def list_all_length nth_list_update
            split: prod.splits if_splits)
    qed
  qed (simp add: merkle_new_def list_all_length)
  then show ?thesis by (simp add: tree merkle_build_def)
qed

lemma all_32_list_update: "list_all (\<lambda>d. length d = 32) ds \<Longrightarrow> length d = 32 \<Longrightarrow> list_all (\<lambda>d. length d = 32) (ds[i := d])"
  by (cases "i < length ds") (simp_all add: list_all_length nth_list_update)

lemma tableau_commit_digests:
  assumes "tableau_commit C F tb nonce_gen n = Inr (tree, n')" "\<And>bs. length (cr_sha C bs) = 32"
  shows "list_all (\<lambda>d. length d = 32) (mt_digests tree)"
proof -
  let ?all = "list_all (\<lambda>d :: digest. length d = 32)"
  obtain st where st: "fold_res (commit_column C F tb nonce_gen) [dblock (tb_layout tb)..<tl_num_columns (tb_layout tb)]
      (merkle_new (usize_sub (tl_num_columns (tb_layout tb)) (dblock (tb_layout tb))), n) = Inr st"
    and tree: "tree = merkle_build (cr_sha C) (fst st)"
    using assms(1) by (auto simp: tableau_commit_def Let_def)
  have "?all (mt_digests (fst st))"
  proof (rule fold_res_invariant [OF st, where P = "\<lambda>st. ?all (mt_digests (fst st))"])
    fix i s s'
    assume "?all (mt_digests (fst s))" "commit_column C F tb nonce_gen i s = Inr s'"
    then show "?all (mt_digests (fst s'))"
      using assms(2)
      by (auto simp: commit_column_def set_leaf_def upd_res_def column_leaf_def all_32_list_update
          split: prod.splits if_splits)
  qed (simp add: merkle_new_def list_all_length)
  moreover have "?all (fold (build_step (cr_sha C)) is ds)" if "?all ds" for "is" ds
    using that assms(2) by (induction "is" arbitrary: ds) (simp_all add: build_step_def hash_children_def all_32_list_update)
  ultimately show ?thesis by (simp add: tree merkle_build_def)
qed

subsection \<open>The shape of an honest proof\<close>

context reed_solomon
begin

lemma ligero_prove_shape:
  assumes "ligero_prove C F P t cs lc = Inr (pf, t')" "parameters_ok ok (tl_parameters L)" "committed C L ws qcs cs"
    and "\<And>bs. length (cr_sha C bs) = 32" "list_all (\<lambda>n. length n = 32) (mt_nonces (cs_merkle_tree cs))"
  shows "ligero_proof_shape L pf" "length (lp_inclusion_proof pf) \<le> tl_num_columns L"
proof -
  note p = parameters_okD [OF assms(2)]
  let ?contents = "tb_contents (cs_tableau cs)" and ?tree = "cs_merkle_tree cs"
  let ?N = "tl_num_columns L - dblock L"
  have L: "tb_layout (cs_tableau cs) = L" and wf: "merkle_wf (cr_sha C) ?N ?tree"
    and leaves: "\<forall>i < ?N. leaf_at ?tree i = column_leaf C F (mt_nonces ?tree ! i) ?contents (i + dblock L)"
    using assms(3) by (simp_all add: committed_def Let_def)
  obtain ld blinds ipv dot qblinds low high t3 idx t4 es nonces ip where
    parts: "low_degree_part L ?contents blinds = Inr ld" "dot_part F L ?contents ipv = Inr dot"
      "quadratic_part L ?contents qblinds = Inr (low, high)"
    and idx: "generate_naturals_without_replacement C (usize_sub (tl_num_columns L) (dblock L))
        (num_requested_columns L) t3 = Inr (idx, t4)"
    and es: "requested_elements L ?contents idx = Inr es"
    and nonces: "map_res (nth_res (mt_nonces ?tree)) idx = Inr nonces" and ip: "merkle_prove ?tree idx = Inr ip"
    and pf: "pf = \<lparr>lp_low_degree_test_proof = ld, lp_dot_proof = dot, lp_quadratic_proof = (low, high),
        lp_merkle_tree_nonces = nonces, lp_tableau_columns = chunks (num_requested_columns L) es, lp_inclusion_proof = ip\<rparr>"
    using assms(1) by (auto simp: ligero_prove_def Let_def L)
  have len: "length idx = num_requested_columns L" by (rule naturals_without_replacement(1) [OF idx])
  have sub: "usize_sub (dblock L) (tl_block_size L) = dblock L - tl_block_size L"
    using p by (intro usize_sub_eq) linarith+
  have rows: "length (lp_tableau_columns pf) = num_rows L \<and>
      list_all (\<lambda>r. length r = num_requested_columns L) (lp_tableau_columns pf)"
    using requested_elements_rows [OF es] len p(1) by (simp add: pf)
  have n32: "list_all (\<lambda>n. length n = 32) nonces"
    by (rule map_res_all [OF nonces]) (use assms(5) in \<open>auto simp: nth_res_Inr_iff list_all_length\<close>)
  have d32: "list_all (\<lambda>d. length d = 32) ip"
  proof -
    have "length (mt_digests ?tree ! j) = 32" if "2 \<le> j" "j < 2 * leaf_count ?tree" for j
      using merkle_wf_digests [OF wf assms(4), of j] leaves that assms(4)
      by (simp add: column_leaf_def merkle_wf_count [OF wf])
    then show ?thesis using merkle_prove_nodes(1) [OF ip] by (auto simp: list_all_iff)
  qed
  show "ligero_proof_shape L pf"
    using rows n32 d32 low_degree_part_length [OF parts(1)] dot_part_length [OF parts(2)] quadratic_part_length [OF parts(3)]
      sub map_res_length [OF nonces] len
    by (simp add: ligero_proof_shape_def pf)
  have "length ip \<le> ?N" using merkle_prove_nodes(2) [OF ip] merkle_wf_count [OF wf] by simp
  then show "length (lp_inclusion_proof pf) \<le> tl_num_columns L" by (simp add: pf)
qed

end

end
