(* ===== verification/Extend_P.thy ===== *)
theory Extend_P
  imports Field_Element Ntt Vectors
begin

text \<open>
  Reed-Solomon extension for fields of large characteristic, \<open>src/src/fields/extend_p.rs\<close>: the
  batched inversion of 1, 2, 3, ..., the precomputed tables of \<open>ExtendContext\<close> and \<open>extend\<close>, a
  convolution computed with the transform of the theory \<open>Ntt\<close>. the parameter \<open>mul_inv\<close> stands for the method of the field; \<open>FE::from_u128(n)\<close> is \<open>of_nat n\<close>.
\<close>

subsection \<open>Batched inversion\<close>

text \<open>\<open>iter::repeat_with\<close>: the product so far and the next factor are the state of the closure.\<close>

fun prefix_products_loop :: "nat \<Rightarrow> 'a :: comm_ring_1 \<Rightarrow> 'a \<Rightarrow> 'a list \<times> 'a" where
  "prefix_products_loop 0 product i = ([], i)"
| "prefix_products_loop (Suc n) product i =
     (let product = product * i; i = i + 1; (rest, j) = prefix_products_loop n product i
      in (product # rest, j))"

definition batched_inversion_step ::
  "'a :: comm_ring_1 list \<Rightarrow> nat \<Rightarrow> 'a list \<times> 'a \<times> 'a \<Rightarrow> 'a list \<times> 'a \<times> 'a" where
  "batched_inversion_step prefix_products k st =
     (let (output, i, product_inverse) = st;
          output = output[Suc k := product_inverse * prefix_products ! k];
          i = i - 1
      in (output, i, product_inverse * i))"

definition batched_inversion_sequence :: "('a :: comm_ring_1 \<Rightarrow> 'a) \<Rightarrow> nat \<Rightarrow> 'a list" where
  "batched_inversion_sequence mul_inv len =
     (if len = 0 then []
      else
        let output = replicate len 0;
            (rest, i) = prefix_products_loop (len - 1) 1 1;
            prefix_products = 1 # rest;
            product_inverse = mul_inv (last prefix_products)
        in fst (fold (batched_inversion_step prefix_products) (rev [0..<len - 1])
             (output, i, product_inverse)))"

subsection \<open>The precomputed tables\<close>

record 'a extend_context =
  ec_nodes_len :: nat
  ec_evaluations :: nat
  ec_ntt_size :: nat
  ec_transformed_convolution_kernel :: "'a list"
  ec_before_convolution_coeffs :: "'a list"
  ec_after_convolution_coeffs :: "'a list"

text \<open>The running binom coefficients, \<open>d\<close> choose \<open>i\<close> and \<open>k\<close> choose \<open>d\<close>.\<close>

fun binomial_row :: "nat \<Rightarrow> nat \<Rightarrow> 'a :: comm_ring_1 list \<Rightarrow> 'a \<Rightarrow> 'a list" where
  "binomial_row d i [] binom = []"
| "binomial_row d i (reciprocal # rs) binom =
     (let binom = binom * of_nat (d - i + 1) * reciprocal
      in binom # binomial_row d (i + 1) rs binom)"

definition signed :: "nat \<Rightarrow> 'a :: comm_ring_1 \<Rightarrow> 'a" where
  "signed n value = (if odd n then - value else value)"

fun after_coeffs ::
  "'a :: comm_ring_1 list \<Rightarrow> nat \<Rightarrow> nat list \<Rightarrow> 'a \<Rightarrow> 'a list res" where
  "after_coeffs reciprocals d [] binomial_k_d = Inr []"
| "after_coeffs reciprocals d (k # ks) binomial_k_d =
     (let k_minus_d_times_k_choose_d = of_nat k * binomial_k_d in
      and_then (nth_res reciprocals (usize_sub k d)) (\<lambda>r.
      and_then (after_coeffs reciprocals d ks (k_minus_d_times_k_choose_d * r)) (\<lambda>rest.
        Inr (signed d k_minus_d_times_k_choose_d # rest))))"

definition extend_precompute ::
  "('a :: comm_ring_1 \<Rightarrow> 'a) \<Rightarrow> 'a ntt_ops \<Rightarrow> nat \<Rightarrow> nat \<Rightarrow> 'a extend_context res" where
  "extend_precompute mul_inv T nodes_len evaluations =
     (let ntt_size = 2 ^ ceil_log2 evaluations;
          reciprocals = batched_inversion_sequence mul_inv (max (evaluations + 1) ntt_size);
          ntt_size_inv = exp_vartime (no_half T) (floor_log2 ntt_size);
          convolution_left_terms = map (\<lambda>x. x * ntt_size_inv) (take ntt_size reciprocals);
          d = usize_sub nodes_len 1
      in and_then (ntt_bit_reversed T convolution_left_terms) (\<lambda>kernel.
         let binomial_coefficients =
               1 # binomial_row d 1 (drop 1 (take nodes_len reciprocals)) 1;
             before_convolution_coeffs = map (\<lambda>(i, b). signed i b) (enumerate 0 binomial_coefficients)
         in and_then (after_coeffs reciprocals d [nodes_len..<evaluations] 1)
              (\<lambda>after_convolution_coeffs.
                Inr \<lparr>ec_nodes_len = nodes_len, ec_evaluations = evaluations, ec_ntt_size = ntt_size,
                     ec_transformed_convolution_kernel = kernel,
                     ec_before_convolution_coeffs = before_convolution_coeffs,
                     ec_after_convolution_coeffs = after_convolution_coeffs\<rparr>)))"

subsection \<open>extend\<close>

definition extend ::
  "'a :: comm_ring_1 ntt_ops \<Rightarrow> 'a list \<Rightarrow> 'a extend_context \<Rightarrow> 'a list res" where
  "extend T nodes context =
     and_then (ensure (length nodes = ec_nodes_len context) (Panic ''assertion failed'')) (\<lambda>_.
     let evaluations = ec_evaluations context in
     if evaluations \<le> length nodes then Inr (take evaluations nodes)
     else
       let convolution_right_terms =
             resize (ec_ntt_size context) 0
               (map2 (\<lambda>p_i coeff. p_i * coeff) nodes (ec_before_convolution_coeffs context))
       in and_then (ntt_bit_reversed T convolution_right_terms) (\<lambda>transformed.
          let kernel = ec_transformed_convolution_kernel context;
              product = map2 (\<lambda>x k. x * k) transformed kernel @ drop (length kernel) transformed
          in and_then (scaled_inverse_ntt_bit_reversed T product) (\<lambda>convolution_result.
             and_then (slice_res convolution_result (length nodes) evaluations) (\<lambda>tail.
               Inr (nodes @ map2 (\<lambda>c coeff. c * coeff) tail
                      (ec_after_convolution_coeffs context))))))"

text \<open>\<open>extend(nodes, &extend_precompute(nodes_len, evaluations))\<close>\<close>

definition extend_p ::
  "('a :: comm_ring_1 \<Rightarrow> 'a) \<Rightarrow> 'a ntt_ops \<Rightarrow> nat \<Rightarrow> nat \<Rightarrow> 'a list \<Rightarrow> 'a list res" where
  "extend_p mul_inv T nodes_len evaluations nodes =
     and_then (extend_precompute mul_inv T nodes_len evaluations) (extend T nodes)"

subsection \<open>Batched inversion is correct\<close>

lemma prefix_products_loop_eq:
  "prefix_products_loop n (of_nat (fact k)) (of_nat (Suc k)) =
     (map (\<lambda>j. of_nat (fact j)) [Suc k..<Suc (k + n)], of_nat (Suc (k + n)) :: 'a :: comm_ring_1)"
proof (induction n arbitrary: k)
  case (Suc n)
  have "of_nat (fact k) * of_nat (Suc k) = (of_nat (fact (Suc k)) :: 'a)"
    by (simp only: fact_Suc of_nat_mult of_nat_id mult.commute)
  moreover have "of_nat (Suc k) + 1 = (of_nat (Suc (Suc k)) :: 'a)"
    by (simp only: of_nat_Suc add.commute)
  moreover have "[Suc k..<Suc (k + Suc n)] = Suc k # [Suc (Suc k)..<Suc (Suc k + n)]"
    by (subst upt_rec) simp
  ultimately show ?case
    using Suc.IH [of "Suc k"]
    by (simp only: prefix_products_loop.simps Let_def prod.case list.map add_Suc add_Suc_right)
qed simp

lemma batched_inversion_loop:
  fixes P :: "'a :: comm_ring_1"
  assumes "P * of_nat (fact m) = 1" "m < length out"
    and "\<And>k. k < m \<Longrightarrow> pre ! k = of_nat (fact k)"
  shows "\<exists>i Q r. fold (batched_inversion_step pre) (rev [0..<m]) (out, of_nat (Suc m), P) = (r, i, Q) \<and>
    length r = length out \<and> (\<forall>j. 1 \<le> j \<and> j \<le> m \<longrightarrow> r ! j * of_nat j = 1) \<and>
    r ! 0 = out ! 0 \<and> (\<forall>j. m < j \<longrightarrow> r ! j = out ! j)"
  using assms
proof (induction m arbitrary: out P)
  case (Suc m)
  let ?out = "out[Suc m := P * of_nat (fact m)]"
  have i: "of_nat (Suc (Suc m)) - 1 = (of_nat (Suc m) :: 'a)" by simp
  have f: "of_nat (fact (Suc m)) = (of_nat (Suc m) * of_nat (fact m) :: 'a)"
    by (simp only: fact_Suc of_nat_mult of_nat_id)
  have P: "P * of_nat (Suc m) * of_nat (fact m) = 1"
    using Suc.prems(1) unfolding f by (simp only: mult.assoc)
  have step: "batched_inversion_step pre m (out, of_nat (Suc (Suc m)), P) =
      (?out, of_nat (Suc m), P * of_nat (Suc m))"
    using Suc.prems(3) [of m] by (simp only: batched_inversion_step_def Let_def prod.case i lessI)
  obtain j Q r where r: "fold (batched_inversion_step pre) (rev [0..<m])
      (?out, of_nat (Suc m), P * of_nat (Suc m)) = (r, j, Q)"
    "length r = length out" "\<And>j. 1 \<le> j \<Longrightarrow> j \<le> m \<Longrightarrow> r ! j * of_nat j = 1"
    "r ! 0 = out ! 0" "\<And>j. m < j \<Longrightarrow> r ! j = ?out ! j"
    using Suc.IH [OF P, of ?out] Suc.prems(2,3)
    by (auto simp del: of_nat_Suc)
  have "r ! Suc m * of_nat (Suc m) = 1"
    using r(5) [of "Suc m"] Suc.prems(2) P by (simp add: mult.assoc mult.left_commute mult.commute)
  then have "r ! j * of_nat j = 1" if "1 \<le> j \<and> j \<le> Suc m" for j
    using that r(3) by (cases "j = Suc m") auto
  moreover have "r ! j = out ! j" if "Suc m < j" for j
    using that r(5) [of j] by auto
  ultimately show ?case using r(1,2,4) step by simp
qed simp

lemma batched_inversion_sequence_nth:
  fixes mul_inv :: "'a :: comm_ring_1 \<Rightarrow> 'a"
  assumes "mul_inv (of_nat (fact (n - 1))) * of_nat (fact (n - 1)) = 1"
  shows "length (batched_inversion_sequence mul_inv n) = n"
    and "0 < n \<Longrightarrow> batched_inversion_sequence mul_inv n ! 0 = 0"
    and "1 \<le> j \<Longrightarrow> j < n \<Longrightarrow> batched_inversion_sequence mul_inv n ! j * of_nat j = 1"
proof -
  let ?b = "batched_inversion_sequence mul_inv n"
  have "length ?b = n \<and> (0 < n \<longrightarrow> ?b ! 0 = 0) \<and> (1 \<le> j \<longrightarrow> j < n \<longrightarrow> ?b ! j * of_nat j = 1)"
  proof (cases n)
    case (Suc m)
    let ?pre = "1 # map (\<lambda>j. of_nat (fact j)) [Suc 0..<Suc m] :: 'a list"
    have pre: "prefix_products_loop m 1 1 = (map (\<lambda>j. of_nat (fact j)) [Suc 0..<Suc m], of_nat (Suc m) :: 'a)"
      using prefix_products_loop_eq [of m 0] by simp
    have nth: "?pre ! k = of_nat (fact k)" if "k \<le> m" for k
      using that by (cases k) (auto simp del: upt_Suc)
    have "last ?pre = of_nat (fact m)"
      by (subst last_conv_nth) (use nth [of m] in \<open>simp_all del: upt_Suc\<close>)
    then have "mul_inv (last ?pre) * of_nat (fact m) = 1" using assms Suc by simp
    from batched_inversion_loop [OF this, of "replicate n 0" ?pre] nth Suc
    obtain i Q r where r: "fold (batched_inversion_step ?pre) (rev [0..<m])
        (replicate n 0, of_nat (Suc m), mul_inv (last ?pre)) = (r, i, Q)" "length r = n"
      "\<And>j. 1 \<le> j \<Longrightarrow> j \<le> m \<Longrightarrow> r ! j * of_nat j = 1" "r ! 0 = replicate n 0 ! 0"
      by (auto simp del: upt_Suc)
    have "?b = r"
      using r(1) Suc
      by (simp only: batched_inversion_sequence_def Let_def diff_Suc_1 pre prod.case fst_conv) simp
    with r Suc show ?thesis by auto
  qed (simp add: batched_inversion_sequence_def)
  then show "length ?b = n" "0 < n \<Longrightarrow> ?b ! 0 = 0" "1 \<le> j \<Longrightarrow> j < n \<Longrightarrow> ?b ! j * of_nat j = 1"
    by auto
qed

end
