(* ===== verification/Addition_Chains.thy ===== *)
theory Addition_Chains
  imports Prelude
begin

text \<open>
  The addition chains of \<open>src/src/fields/addition_chains\<close>, which raise a field element to a fixed
  power: to \<open>|F| - 2\<close> for inverses and to \<open>(p + 1) / 4\<close> for square roots. Each function is a
  straight line of squarings and products, here a chain of \<open>let\<close> bindings that rebinds the same
  variables; a counted loop of squarings is \<open>squarings\<close>. Every chain is proved to compute the
  power its exponent names, in any commutative ring.
\<close>

definition squarings :: "nat \<Rightarrow> 'a :: comm_ring_1 \<Rightarrow> 'a" where
  "squarings n x = ((\<lambda>y. y * y) ^^ n) x"

definition p128m2_exp :: "'a :: comm_ring_1 \<Rightarrow> 'a" where
  "p128m2_exp x =
    (let t0 = x * x;
         t0 = x * t0;
         t0 = t0 * t0;
         t0 = x * t0;
         t1 = t0 * t0;
         t1 = squarings 2 t1;
         t0 = t0 * t1;
         t1 = t0 * t0;
         t2 = t1 * t1;
         t2 = squarings 5 t2;
         t1 = t1 * t2;
         z = x * t1;
         t1 = z * z;
         t1 = squarings 5 t1;
         t0 = t0 * t1;
         t0 = squarings 6 t0;
         t1 = t0 * t0;
         t1 = squarings 6 t1;
         t2 = t1 * t1;
         t2 = squarings 18 t2;
         t1 = t1 * t2;
         t2 = squarings 20 t2;
         t2 = t1 * t2;
         t2 = squarings 12 t2;
         t0 = t0 * t2;
         t0 = squarings 45 t0;
         t1 = t1 * t0;
         z = z * t1
     in z)"

definition p256m2_exp :: "'a :: comm_ring_1 \<Rightarrow> 'a" where
  "p256m2_exp x =
    (let t0 = x * x;
         t0 = x * t0;
         t0 = t0 * t0;
         t0 = x * t0;
         t1 = t0 * t0;
         t1 = squarings 2 t1;
         t1 = t0 * t1;
         t2 = t1 * t1;
         t2 = squarings 5 t2;
         t1 = t1 * t2;
         t1 = squarings 3 t1;
         t0 = t0 * t1;
         t1 = t0 * t0;
         t1 = x * t1;
         t2 = t1 * t1;
         t2 = squarings 15 t2;
         t1 = t1 * t2;
         t1 = squarings 15 t1;
         t0 = t0 * t1;
         t1 = squarings 17 t1;
         t1 = x * t1;
         t1 = squarings 143 t1;
         t1 = t0 * t1;
         t1 = squarings 47 t1;
         t0 = t0 * t1;
         t0 = squarings 2 t0;
         z = x * t0
     in z)"

definition p256_scalar_m2_exp :: "'a :: comm_ring_1 \<Rightarrow> 'a" where
  "p256_scalar_m2_exp x =
    (let t0 = x * x;
         t1 = t0 * t0;
         t2 = x * t1;
         t3 = x * t2;
         t4 = t1 * t2;
         z = t3 * t4;
         t5 = t4 * t4;
         t6 = t3 * z;
         t7 = t3 * t5;
         t8 = t0 * t7;
         t6 = t6 * t8;
         t4 = t4 * t6;
         t2 = t2 * t4;
         t9 = t0 * t2;
         t10 = t5 * t2;
         t11 = t5 * t10;
         t0 = t0 * t11;
         t12 = t5 * t11;
         t1 = t1 * t12;
         t13 = t3 * t1;
         t7 = t7 * t13;
         t5 = t5 * t7;
         t3 = t3 * t5;
         t4 = t4 * t3;
         t8 = t8 * t4;
         t14 = t8 * t8;
         t14 = squarings 7 t14;
         t8 = t8 * t14;
         t14 = t8 * t8;
         t14 = squarings 15 t14;
         t14 = t8 * t14;
         t14 = squarings 48 t14;
         t14 = t8 * t14;
         t14 = squarings 16 t14;
         t14 = t8 * t14;
         t14 = squarings 16 t14;
         t14 = t8 * t14;
         t14 = squarings 16 t14;
         t8 = t8 * t14;
         t8 = squarings 6 t8;
         t8 = t6 * t8;
         t8 = squarings 9 t8;
         t12 = t12 * t8;
         t12 = squarings 8 t12;
         t13 = t13 * t12;
         t13 = squarings 9 t13;
         t3 = t3 * t13;
         t3 = squarings 8 t3;
         t5 = t5 * t3;
         t5 = squarings 9 t5;
         t6 = t6 * t5;
         t6 = squarings 8 t6;
         t2 = t2 * t6;
         t2 = squarings 11 t2;
         t10 = t10 * t2;
         t10 = squarings 9 t10;
         t1 = t1 * t10;
         t1 = squarings 10 t1;
         t4 = t4 * t1;
         t4 = squarings 8 t4;
         t11 = t11 * t4;
         t11 = squarings 7 t11;
         t9 = t9 * t11;
         t9 = squarings 10 t9;
         t0 = t0 * t9;
         t0 = squarings 10 t0;
         t7 = t7 * t0;
         t7 = squarings 6 t7;
         z = z * t7
     in z)"

definition p256sqrt_exp :: "'a :: comm_ring_1 \<Rightarrow> 'a" where
  "p256sqrt_exp x =
    (let t0 = x * x;
         t0 = x * t0;
         t1 = t0 * t0;
         t1 = squarings 1 t1;
         t0 = t0 * t1;
         t1 = t0 * t0;
         t1 = squarings 3 t1;
         t0 = t0 * t1;
         t1 = t0 * t0;
         t1 = squarings 7 t1;
         t0 = t0 * t1;
         t1 = t0 * t0;
         t1 = squarings 15 t1;
         t0 = t0 * t1;
         t0 = squarings 32 t0;
         t0 = x * t0;
         t0 = squarings 96 t0;
         z = x * t0;
         z = squarings 94 z
     in z)"

definition gf_2_128_m2_exp :: "'a :: comm_ring_1 \<Rightarrow> 'a" where
  "gf_2_128_m2_exp x =
    (let t0 = x * x;
         t0 = x * t0;
         t0 = t0 * t0;
         t0 = x * t0;
         t1 = t0 * t0;
         t1 = squarings 2 t1;
         t0 = t0 * t1;
         t1 = t0 * t0;
         z = x * t1;
         t1 = squarings 5 t1;
         t0 = t0 * t1;
         t1 = t0 * t0;
         t1 = squarings 11 t1;
         t0 = t0 * t1;
         t1 = t0 * t0;
         t1 = squarings 6 t1;
         z = z * t1;
         t1 = squarings 17 t1;
         t0 = t0 * t1;
         t1 = t0 * t0;
         t1 = squarings 47 t1;
         t0 = t0 * t1;
         t0 = squarings 31 t0;
         z = z * t0;
         z = z * z
     in z)"

subsection \<open>The exponents\<close>

lemma squarings_power: "squarings n x = x ^ (2 ^ n)"
proof (induction n)
  case (Suc n)
  have "squarings (Suc n) x = squarings n x * squarings n x" by (simp add: squarings_def)
  then show ?case by (simp add: Suc flip: power_add mult_2)
qed (simp add: squarings_def)

lemma let_power: "(let t = (x :: 'a :: comm_ring_1) ^ numeral a in f t) = f (x ^ numeral a)"
  by (simp add: Let_def)

lemma square_power: "(x :: 'a :: comm_ring_1) * x = x ^ numeral (num.Bit0 num.One)"
  by (simp add: power2_eq_square)

lemma mult_power_numeral:
  "(x :: 'a :: comm_ring_1) ^ numeral a * x ^ numeral b = x ^ numeral (a + b)"
  "x * x ^ numeral b = x ^ numeral (num.One + b)"
proof -
  show "x ^ numeral a * x ^ numeral b = x ^ numeral (a + b)" by (simp flip: power_add)
  have "x * x ^ numeral b = x ^ (1 + numeral b)" by (simp only: power_add power_one_right)
  then show "x * x ^ numeral b = x ^ numeral (num.One + b)"
    by (simp only: one_plus_numeral)
qed

lemma squarings_power_numeral:
  "squarings n ((x :: 'a :: comm_ring_1) ^ numeral a) = x ^ (numeral a * 2 ^ n)"
  by (simp add: squarings_power power_mult)

lemma power_power_numeral: "((x :: 'a :: comm_ring_1) ^ numeral a) ^ e = x ^ (numeral a * e)"
  by (simp add: power_mult)

lemmas chain_simps = let_power mult_power_numeral square_power squarings_power_numeral
  power_power_numeral power_one_right power_numeral pow.simps sqr.simps arith_simps

lemma p128m2_exp_power: "p128m2_exp x = x ^ 340282042402384805036647824275747635199"
  by (simp only: p128m2_exp_def chain_simps)

lemma p256m2_exp_power: "p256m2_exp x = x ^ 115792089210356248762697446949407573530086143415290314195533631308867097853949"
  by (simp only: p256m2_exp_def chain_simps)

lemma p256_scalar_m2_exp_power: "p256_scalar_m2_exp x = x ^ 115792089210356248762697446949407573529996955224135760342422259061068512044367"
  by (simp only: p256_scalar_m2_exp_def chain_simps)

lemma p256sqrt_exp_power: "p256sqrt_exp x = x ^ 28948022302589062190674361737351893382521535853822578548883407827216774463488"
  by (simp only: p256sqrt_exp_def chain_simps)

lemma gf_2_128_m2_exp_power: "gf_2_128_m2_exp x = x ^ 340282366920938463463374607431768211454"
  by (simp only: gf_2_128_m2_exp_def chain_simps)

end
