(* ===== verification/Field_P128.thy ===== *)
theory Field_P128
  imports Field_Element Extend_P Addition_Chains
begin

text \<open>
  The field with modulus 2^128 - 2^108 + 1 of \<open>src/src/fields/fieldp128/mod.rs\<close>. An element is
  the residue below the modulus; the Montgomery form in which the source keeps it, and the
  fiat-crypto routines that compute on that form, are not modelled, addition, multiplication and
  negation are those of the residues. The codec, the constants (given as little-endian bytes in
  the source), the tables of roots of unity and the trait dictionary are modelled, and the
  dictionary is shown to satisfy \<open>field_codec\<close> and \<open>sumcheck_field\<close>.
\<close>

subsection \<open>Comparing encodings\<close>

text \<open>\<open>Iterator::cmp\<close> on bytes, less than.\<close>

fun bytes_less :: "bytes \<Rightarrow> bytes \<Rightarrow> bool" where
  "bytes_less [] ys \<longleftrightarrow> ys \<noteq> []"
| "bytes_less (x # xs) [] \<longleftrightarrow> False"
| "bytes_less (x # xs) (y # ys) \<longleftrightarrow> x < y \<or> x = y \<and> bytes_less xs ys"

lemma le_value_append: "le_value (xs @ ys) = le_value xs + 256 ^ length xs * le_value ys"
  by (induction xs) (simp_all add: algebra_simps)

lemma bytes_less_rev:
  "length xs = length ys \<Longrightarrow> bytes_less (rev xs) (rev ys) \<longleftrightarrow> le_value xs < le_value ys"
proof (induction xs arbitrary: ys rule: rev_induct)
  case (snoc x xs)
  then obtain y zs where ys: "ys = zs @ [y]" "length xs = length zs"
    by (cases ys rule: rev_cases) auto
  let ?p = "256 ^ length xs :: nat"
  have b: "le_value xs < ?p" "le_value zs < ?p"
    using le_value_bound [of xs] le_value_bound [of zs] ys(2) by simp_all
  consider "x < y" | "x = y" | "y < x" by (rule linorder_cases)
  then show ?case
  proof cases
    case 1
    then have "Suc (unat x) \<le> unat y" by (simp add: word_less_nat_alt)
    then have "?p * Suc (unat x) \<le> ?p * unat y" by (rule mult_le_mono2)
    with 1 b ys show ?thesis by (simp add: le_value_append)
  next
    case 2
    with snoc.IH [OF ys(2)] ys show ?thesis by (simp add: le_value_append)
  next
    case 3
    then have "Suc (unat y) \<le> unat x" by (simp add: word_less_nat_alt)
    then have "?p * Suc (unat y) \<le> ?p * unat x" by (rule mult_le_mono2)
    with 3 b ys show ?thesis by (auto simp: le_value_append)
  qed
qed simp

subsection \<open>The field\<close>

definition p128_modulus :: int where
  "p128_modulus = 0xfffff000000000000000000000000001"

definition p128_modulus_bytes :: bytes where
  "p128_modulus_bytes =
     [0x01, 0x00, 0x00, 0x00, 0x00, 0x00, 0x00, 0x00, 0x00, 0x00, 0x00, 0x00, 0x00, 0xf0, 0xff, 0xff]"

typedef fp128 = "{0 ..< p128_modulus}"
  morphisms as_residue Abs_fp128
  by (rule exI [of _ 0]) (simp add: p128_modulus_def)

setup_lifting type_definition_fp128

lemma p128_mod_range: "x mod p128_modulus \<in> {0 ..< p128_modulus}"
  by (simp add: p128_modulus_def)

text \<open>\<open>from_u128\<close> reduces its argument.\<close>

lift_definition p128_of_int :: "int \<Rightarrow> fp128" is "\<lambda>x. x mod p128_modulus"
  by (rule p128_mod_range)

instantiation fp128 :: comm_ring_1
begin

lift_definition zero_fp128 :: fp128 is 0 by (simp add: p128_modulus_def)
lift_definition one_fp128 :: fp128 is 1 by (simp add: p128_modulus_def)
lift_definition plus_fp128 :: "fp128 \<Rightarrow> fp128 \<Rightarrow> fp128" is "\<lambda>x y. (x + y) mod p128_modulus"
  by (rule p128_mod_range)
lift_definition minus_fp128 :: "fp128 \<Rightarrow> fp128 \<Rightarrow> fp128" is "\<lambda>x y. (x - y) mod p128_modulus"
  by (rule p128_mod_range)
lift_definition uminus_fp128 :: "fp128 \<Rightarrow> fp128" is "\<lambda>x. (- x) mod p128_modulus"
  by (rule p128_mod_range)
lift_definition times_fp128 :: "fp128 \<Rightarrow> fp128 \<Rightarrow> fp128" is "\<lambda>x y. (x * y) mod p128_modulus"
  by (rule p128_mod_range)

instance
  by standard (transfer; simp add: mod_simps algebra_simps p128_modulus_def)+

end

instantiation fp128 :: equal
begin

lift_definition equal_fp128 :: "fp128 \<Rightarrow> fp128 \<Rightarrow> bool" is "\<lambda>x y. x = y" .

instance
  by standard (transfer, rule refl)

end

subsection \<open>Encoding\<close>

definition p128_from_bytes :: "bytes \<Rightarrow> fp128" where
  "p128_from_bytes bs = p128_of_int (int (le_value bs))"

definition p128_try_from :: "bytes \<Rightarrow> fp128 option" where
  "p128_try_from bs =
     (if length bs \<noteq> 16 then None
      else if \<not> bytes_less (rev bs) (rev p128_modulus_bytes) then None
      else Some (p128_from_bytes bs))"

definition p128_encode :: "fp128 \<Rightarrow> bytes" where
  "p128_encode x = le_bytes 16 (nat (as_residue x))"

subsection \<open>Constants\<close>

definition p128_half_bytes :: bytes where
  "p128_half_bytes =
     [0x01, 0x00, 0x00, 0x00, 0x00, 0x00, 0x00, 0x00, 0x00, 0x00, 0x00, 0x00, 0x00, 0xf8, 0xff, 0x7f]"

definition p128_minus_one_bytes :: bytes where
  "p128_minus_one_bytes =
     [0x00, 0x00, 0x00, 0x00, 0x00, 0x00, 0x00, 0x00, 0x00, 0x00, 0x00, 0x00, 0x00, 0xf0, 0xff, 0xff]"

definition p128_root_bytes :: bytes where
  "p128_root_bytes =
     [0xf7, 0x52, 0x32, 0xc8, 0xe8, 0x2a, 0x82, 0xf6, 0x89, 0x87, 0xee, 0x47, 0x05, 0x6f, 0xed, 0x29]"

definition p128_root_inverse_bytes :: bytes where
  "p128_root_inverse_bytes =
     [0x14, 0x75, 0xb4, 0xde, 0xa0, 0x25, 0x7d, 0x27, 0x46, 0x16, 0x59, 0x19, 0x14, 0x98, 0x4b, 0x0d]"

text \<open>The element at index 31 is the given root, and every predecessor is the square.\<close>

fun root_table :: "nat \<Rightarrow> 'a :: comm_ring_1 \<Rightarrow> 'a list" where
  "root_table 0 temp = [temp]"
| "root_table (Suc i) temp = root_table i (temp * temp) @ [temp]"

definition p128_ntt :: "fp128 ntt_ops" where
  "p128_ntt =
     \<lparr>no_roots = root_table 31 (p128_from_bytes p128_root_bytes),
      no_root_inverses = root_table 31 (p128_from_bytes p128_root_inverse_bytes),
      no_half = p128_from_bytes p128_half_bytes\<rparr>"

definition p128_ops :: "fp128 field_ops" where
  "p128_ops =
     \<lparr>fo_num_bits = 128,
      fo_field_id = FP128,
      fo_encode = p128_encode,
      fo_try_from = p128_try_from,
      fo_in_subfield = (\<lambda>_. True),
      fo_encode_sub = (\<lambda>x. Inr (p128_encode x)),
      fo_decode_sub = (\<lambda>bs. if length bs < 16 then Inl (Fail ''failed to read FieldP128 element'')
         else and_then (opt_res (Fail ''serialized FieldP128 element is not less than the modulus'')
                (p128_try_from (take 16 bs))) (\<lambda>x. Inr (x, drop 16 bs))),
      fo_id_prefix = le_bytes 8 1 @ p128_encode (- 1),
      fo_large_characteristic = True,
      fo_p2 = p128_of_int 2,
      fo_p2_inv = p128_from_bytes p128_half_bytes,
      fo_one_minus_p2_inv = p128_from_bytes p128_minus_one_bytes,
      fo_p2_squared_minus_p2_inv = p128_from_bytes p128_half_bytes,
      fo_extend = extend_p p128m2_exp p128_ntt\<rparr>"

subsection \<open>The encodings are canonical\<close>

lemma p128_modulus_bytes_value: "int (le_value p128_modulus_bytes) = p128_modulus"
  "length p128_modulus_bytes = 16"
  by (simp_all add: p128_modulus_bytes_def p128_modulus_def)

lemma as_residue_bounds: "0 \<le> as_residue x" "as_residue x < p128_modulus"
  using as_residue [of x] by auto

lemma as_residue_of_int: "as_residue (p128_of_int x) = x mod p128_modulus"
  by transfer (rule refl)

lemma p128_of_residue: "p128_of_int (as_residue x) = x"
  by transfer simp

lemma p128_try_from_Some:
  "p128_try_from bs = Some x \<longleftrightarrow>
     length bs = 16 \<and> int (le_value bs) < p128_modulus \<and> x = p128_from_bytes bs"
proof -
  have "bytes_less (rev bs) (rev p128_modulus_bytes) \<longleftrightarrow> int (le_value bs) < p128_modulus"
    if "length bs = 16"
    using bytes_less_rev [of bs p128_modulus_bytes] that p128_modulus_bytes_value by linarith
  then show ?thesis by (auto simp: p128_try_from_def)
qed

lemma p128_residue_16_bytes: "nat (as_residue x) < 256 ^ 16"
  using as_residue_bounds [of x] by (simp add: p128_modulus_def)

interpretation p128: field_codec p128_ops
proof
  fix x :: fp128
  show "length (fo_encode p128_ops x) = num_bytes p128_ops"
    by (simp add: p128_ops_def num_bytes_def p128_encode_def)
  have "le_value (p128_encode x) = nat (as_residue x)"
    unfolding p128_encode_def by (rule le_value_le_bytes_small) (rule p128_residue_16_bytes)
  then show "fo_try_from p128_ops (fo_encode p128_ops x) = Some x"
    using as_residue_bounds [of x]
    by (simp add: p128_ops_def p128_try_from_Some p128_from_bytes_def p128_of_residue)
      (simp add: p128_encode_def)
next
  fix bs and x :: fp128
  assume "fo_try_from p128_ops bs = Some x"
  then have bs: "length bs = 16" "int (le_value bs) < p128_modulus" "x = p128_from_bytes bs"
    by (simp_all add: p128_ops_def p128_try_from_Some)
  then have "as_residue x = int (le_value bs)"
    by (simp add: p128_from_bytes_def as_residue_of_int)
  then show "fo_encode p128_ops x = bs"
    using bs(1) le_bytes_le_value [of bs] by (simp add: p128_ops_def p128_encode_def)
qed

subsection \<open>The constants are the inverses they should be\<close>

lemma p128_of_int_arith:
  "p128_of_int a + p128_of_int b = p128_of_int (a + b)"
  "p128_of_int a - p128_of_int b = p128_of_int (a - b)"
  "p128_of_int a * p128_of_int b = p128_of_int (a * b)"
  "1 = p128_of_int 1" "0 = p128_of_int 0"
  by (transfer; simp add: mod_simps p128_modulus_def)+

lemma p128_of_int_eq_iff: "p128_of_int a = p128_of_int b \<longleftrightarrow> a mod p128_modulus = b mod p128_modulus"
  by transfer (rule refl)

lemma p128_constant_values:
  "int (le_value p128_half_bytes) = 170141021201192402518323912137873817601"
  "int (le_value p128_minus_one_bytes) = p128_modulus - 1"
  by (simp_all add: p128_half_bytes_def p128_minus_one_bytes_def p128_modulus_def)

lemma p128_two: "p128_of_int 2 = 1 + 1"
  by (simp add: p128_of_int_arith)

lemma p128_half: "p128_of_int 2 * p128_from_bytes p128_half_bytes = 1"
  by (simp only: p128_from_bytes_def p128_of_int_arith p128_of_int_eq_iff p128_constant_values)
    (simp add: p128_modulus_def)

interpretation p128_sumcheck: sumcheck_field p128_ops
proof
  show "fo_p2 p128_ops * fo_p2_inv p128_ops = 1"
    using p128_half by (simp add: p128_ops_def)
  show "(1 - fo_p2 p128_ops) * fo_one_minus_p2_inv p128_ops = 1"
    by (simp only: p128_ops_def field_ops.simps p128_from_bytes_def p128_constant_values
          p128_of_int_arith p128_of_int_eq_iff) (simp add: p128_modulus_def)
  have "fo_p2 p128_ops * fo_p2 p128_ops - fo_p2 p128_ops = fo_p2 p128_ops"
    by (simp add: p128_ops_def p128_two algebra_simps)
  then show "(fo_p2 p128_ops * fo_p2 p128_ops - fo_p2 p128_ops) *
      fo_p2_squared_minus_p2_inv p128_ops = 1"
    using p128_half by (simp add: p128_ops_def)
  show "fo_large_characteristic p128_ops \<Longrightarrow> fo_p2 p128_ops = 1 + 1"
    by (simp add: p128_ops_def p128_two)
qed

lemma length_root_table [simp]: "length (root_table i w) = Suc i"
  by (induction i arbitrary: w) simp_all

lemma root_table_inverses:
  "w * v = 1 \<Longrightarrow> list_all2 (\<lambda>w v. w * v = 1) (root_table i w) (root_table i v)"
proof (induction i arbitrary: w v)
  case (Suc i)
  have "(w * w) * (v * v) = (w * v) * (w * v)" by (simp add: algebra_simps)
  then have "(w * w) * (v * v) = 1" using Suc.prems by simp
  with Suc show ?case by (simp add: list_all2_appendI)
qed simp

lemma p128_root_inverse: "p128_from_bytes p128_root_bytes * p128_from_bytes p128_root_inverse_bytes = 1"
proof -
  have "int (le_value p128_root_bytes) * int (le_value p128_root_inverse_bytes) mod p128_modulus = 1"
    by (simp add: p128_root_bytes_def p128_root_inverse_bytes_def p128_modulus_def)
  then show ?thesis
    by (simp only: p128_from_bytes_def p128_of_int_arith p128_of_int_eq_iff)
      (simp add: p128_modulus_def)
qed

lemma p128_ntt_tables_ok: "ntt_tables_ok p128_ntt"
  by (simp add: ntt_tables_ok_def p128_ntt_def root_table_inverses [OF p128_root_inverse])

end
