(* ===== verification/Extend_Lagrange.thy ===== *)
theory Extend_Lagrange
  imports Ntt Extend_P Polynomials
begin

text \<open>
  The forward transform of \<open>src/src/fields/ntt.rs\<close> evaluates the vector as a polynomial at the roots
  of unity of its length, in the bit-reversed order \<open>ntt_point\<close>. Products of transforms are therefore
  transforms of cyclic convolutions.
\<close>

subsection \<open>The transform is an evaluation\<close>

text \<open>The roots are listed from the largest order down, as the stages use them.\<close>

fun ntt_point :: "'a :: comm_ring_1 list \<Rightarrow> nat \<Rightarrow> 'a" where
  "ntt_point [] p = 1"
| "ntt_point (r # rs) p =
     (if p mod 2 ^ Suc (length rs) < 2 ^ length rs then ntt_point rs p else r * ntt_point rs p)"

fun primitive_roots :: "'a :: comm_ring_1 list \<Rightarrow> bool" where
  "primitive_roots [] \<longleftrightarrow> True"
| "primitive_roots (r # rs) \<longleftrightarrow> r ^ (2 ^ length rs) = - 1 \<and> primitive_roots rs"

lemma ntt_point_power: "primitive_roots rs \<Longrightarrow> ntt_point rs p ^ (2 ^ length rs) = 1"
proof (induction rs)
  case (Cons r rs)
  have "x ^ (2 ^ length (r # rs)) = (x ^ (2 ^ length rs)) ^ 2" for x :: 'a
    by (simp flip: power_mult add: mult.commute)
  then show ?case using Cons by (simp add: power_mult_distrib)
qed simp

lemma sum_halves:
  fixes f :: "nat \<Rightarrow> 'a :: comm_monoid_add"
  shows "(\<Sum>j < n * 2. f j) = (\<Sum>j < n. f j + f (n + j))"
proof -
  have "(\<Sum>j < n + m. f j) = (\<Sum>j < n. f j) + (\<Sum>j < m. f (n + j))" for m
    by (induction m) (simp_all add: ac_simps)
  from this [of n] show ?thesis by (simp add: mult_2_right sum.distrib)
qed

lemma ntt_stages_nth:
  fixes v :: "'a :: comm_ring_1 list"
  assumes "primitive_roots rs" "length v = 2 ^ length rs * m" "p < length v"
  shows "ntt_stages rs v ! p =
    (\<Sum>j < 2 ^ length rs. v ! (p div 2 ^ length rs * 2 ^ length rs + j) * ntt_point rs p ^ j)"
  using assms
proof (induction rs arbitrary: v m)
  case Nil
  then show ?case by simp
next
  case (Cons r rs)
  let ?s = "2 ^ length rs :: nat" and ?x = "ntt_point rs p"
  let ?w = "ntt_stage ?s r v" and ?q = "p div ?s"
  define M b where "M = ?s * 2" and "b = p div M * M"
  have s: "0 < ?s" by simp
  have lv: "length v = ?s * 2 * m" using Cons.prems(2) by (simp add: mult.commute)
  have w: "?w ! k = (if k mod M < ?s then v ! k + v ! (k + ?s)
      else (v ! (k - ?s) - v ! k) * r ^ ((k - ?s) mod M))" if "k < length v" for k
    using stage_nth [OF s lv that] by (simp only: ntt_stage_pair_updates [OF s] M_def)
  have p: "p = b + p mod M" by (simp add: b_def)
  have "p div M < m" using Cons.prems(3) lv by (simp add: M_def less_mult_imp_div_less mult.commute)
  then have "(p div M + 1) * M \<le> m * M" by (intro mult_le_mono1) simp
  then have range: "b + j < length v" if "j < M" for j
    using that lv by (simp add: b_def M_def mult.commute)
  have bmod: "(b + j) mod M = j" if "j < M" for j using that by (simp add: b_def)
  have M: "M = ?s + ?s" by (simp add: M_def)
  have low: "?w ! (b + j) = v ! (b + j) + v ! (b + (?s + j))" if "j < ?s" for j
    using w [OF range, of j] bmod [of j] that by (simp add: M add_ac)
  have high: "?w ! (b + ?s + j) = (v ! (b + j) - v ! (b + (?s + j))) * r ^ j" if "j < ?s" for j
    using w [OF range, of "?s + j"] bmod [of "?s + j"] bmod [of j] that by (simp add: M add_ac)
  have x: "?x ^ ?s = 1" using ntt_point_power Cons.prems(1) by auto
  have "ntt_stages (r # rs) v ! p = (\<Sum>j < ?s. ?w ! (?q * ?s + j) * ?x ^ j)"
    using Cons.IH [of ?w "2 * m"] Cons.prems lv by (simp add: mult.assoc)
  also have "\<dots> = (\<Sum>j < ?s * 2. v ! (b + j) * ntt_point (r # rs) p ^ j)"
  proof (cases "p mod M < ?s")
    case True
    have "?q * ?s = b"
    proof -
      have "?q = (b + p mod M) div ?s" using p by simp
      also have "\<dots> = b div ?s" using True by (simp add: b_def M_def div_add1_eq)
      finally show ?thesis by (simp add: b_def M_def)
    qed
    then have "(\<Sum>j < ?s. ?w ! (?q * ?s + j) * ?x ^ j) =
        (\<Sum>j < ?s. v ! (b + j) * ?x ^ j + v ! (b + (?s + j)) * ?x ^ (?s + j))"
      using x by (intro sum.cong refl) (simp add: low power_add distrib_right)
    moreover have "ntt_point (r # rs) p = ?x" using True by (simp add: M_def mult.commute)
    ultimately show ?thesis by (simp only: sum_halves)
  next
    case False
    have "?q * ?s = b + ?s"
    proof -
      have "?s \<le> p mod M" "p mod M < ?s + ?s" using False M by simp_all
      then have "p mod M div ?s = 1" by (simp add: div_nat_eqI)
      moreover have "?q = (b + p mod M) div ?s" using p by simp
      moreover have "(b + p mod M) div ?s = b div ?s + p mod M div ?s"
        by (rule div_plus_div_distrib_dvd_left) (simp add: b_def M_def)
      ultimately show ?thesis by (simp add: b_def M_def algebra_simps)
    qed
    moreover have "(r * ?x) ^ ?s = - 1" using x Cons.prems(1) by (simp add: power_mult_distrib)
    ultimately have "(\<Sum>j < ?s. ?w ! (?q * ?s + j) * ?x ^ j) =
        (\<Sum>j < ?s. v ! (b + j) * (r * ?x) ^ j + v ! (b + (?s + j)) * (r * ?x) ^ (?s + j))"
      by (intro sum.cong refl) (simp add: high power_add power_mult_distrib left_diff_distrib mult.assoc)
    moreover have "ntt_point (r # rs) p = r * ?x" using False by (simp add: M_def mult.commute)
    ultimately show ?thesis by (simp only: sum_halves)
  qed
  finally show ?case by (simp add: M_def b_def mult.commute)
qed

subsection \<open>Convolutions\<close>

definition cyclic_convolution :: "'a :: comm_ring_1 list \<Rightarrow> 'a list \<Rightarrow> 'a list" where
  "cyclic_convolution v u =
     map (\<lambda>k. \<Sum>i < length v. v ! i * u ! ((k + (length v - i)) mod length v)) [0..<length v]"

lemma length_cyclic_convolution [simp]: "length (cyclic_convolution v u) = length v"
  by (simp add: cyclic_convolution_def)

lemma power_mod_order:
  fixes x :: "'a :: comm_ring_1"
  assumes "x ^ n = 1"
  shows "x ^ (k mod n) = x ^ k"
proof -
  have "x ^ k = x ^ (n * (k div n) + k mod n)" by simp
  also have "\<dots> = x ^ (k mod n)" unfolding power_add power_mult assms by simp
  finally show ?thesis ..
qed

lemma evaluate_convolution:
  fixes x :: "'a :: comm_ring_1"
  assumes "x ^ length v = 1" "length u = length v"
  shows "(\<Sum>k < length v. cyclic_convolution v u ! k * x ^ k) =
    (\<Sum>i < length v. v ! i * x ^ i) * (\<Sum>j < length v. u ! j * x ^ j)"
proof (cases "length v = 0")
  case False
  let ?n = "length v"
  have inner: "(\<Sum>k < ?n. u ! ((k + (?n - i)) mod ?n) * x ^ k) = x ^ i * (\<Sum>j < ?n. u ! j * x ^ j)"
    if i: "i < ?n" for i
  proof -
    have "(\<Sum>k < ?n. u ! ((k + (?n - i)) mod ?n) * x ^ k) = (\<Sum>j < ?n. u ! j * x ^ ((i + j) mod ?n))"
    proof (rule sum.reindex_bij_witness [where i = "\<lambda>j. (i + j) mod ?n" and j = "\<lambda>k. (k + (?n - i)) mod ?n"])
      fix k assume "k \<in> {..<?n}"
      then have k: "k < ?n" by simp
      have "(i + (k + (?n - i)) mod ?n) mod ?n = (i + (k + (?n - i))) mod ?n" by (rule mod_add_right_eq)
      also have "i + (k + (?n - i)) = k + ?n" using i by simp
      finally show "(i + (k + (?n - i)) mod ?n) mod ?n = k" using k by simp
      then show "u ! ((k + (?n - i)) mod ?n) * x ^ ((i + (k + (?n - i)) mod ?n) mod ?n) =
        u ! ((k + (?n - i)) mod ?n) * x ^ k" by simp
      show "(k + (?n - i)) mod ?n \<in> {..<?n}" using False by simp
    next
      fix j assume "j \<in> {..<?n}"
      then have j: "j < ?n" by simp
      have "((i + j) mod ?n + (?n - i)) mod ?n = (i + j + (?n - i)) mod ?n" by (rule mod_add_left_eq)
      also have "i + j + (?n - i) = j + ?n" using i by simp
      finally show "((i + j) mod ?n + (?n - i)) mod ?n = j" using j by simp
      show "(i + j) mod ?n \<in> {..<?n}" using False by simp
    qed
    also have "\<dots> = (\<Sum>j < ?n. x ^ i * (u ! j * x ^ j))"
      by (intro sum.cong refl) (simp add: power_mod_order [OF assms(1)] power_add mult_ac)
    finally show ?thesis by (simp add: sum_distrib_left)
  qed
  have "(\<Sum>k < ?n. cyclic_convolution v u ! k * x ^ k) =
      (\<Sum>k < ?n. \<Sum>i < ?n. v ! i * (u ! ((k + (?n - i)) mod ?n) * x ^ k))"
    by (intro sum.cong refl) (simp add: cyclic_convolution_def sum_distrib_right mult.assoc)
  also have "\<dots> = (\<Sum>i < ?n. v ! i * (\<Sum>k < ?n. u ! ((k + (?n - i)) mod ?n) * x ^ k))"
    by (subst sum.swap) (simp add: sum_distrib_left)
  also have "\<dots> = (\<Sum>i < ?n. v ! i * (x ^ i * (\<Sum>j < ?n. u ! j * x ^ j)))"
    by (intro sum.cong refl) (simp only: lessThan_iff inner)
  finally show ?thesis by (simp add: sum_distrib_right mult.assoc)
qed simp

lemma ntt_stages_convolution:
  assumes "primitive_roots rs" "length v = 2 ^ length rs" "length u = length v"
  shows "map2 (*) (ntt_stages rs v) (ntt_stages rs u) = ntt_stages rs (cyclic_convolution v u)"
proof (rule nth_equalityI)
  fix p assume "p < length (map2 (*) (ntt_stages rs v) (ntt_stages rs u))"
  then have p: "p < length v" by simp
  have x: "ntt_point rs p ^ length v = 1" using ntt_point_power [OF assms(1)] assms(2) by simp
  have ev: "ntt_stages rs w ! p = (\<Sum>j < length v. w ! j * ntt_point rs p ^ j)" if "length w = length v" for w
    using ntt_stages_nth [OF assms(1), of w 1 p] that p assms(2) by simp
  show "map2 (*) (ntt_stages rs v) (ntt_stages rs u) ! p = ntt_stages rs (cyclic_convolution v u) ! p"
    using p assms(3) evaluate_convolution [OF x assms(3)] by (simp add: ev)
qed (use assms in simp)

section \<open>Extend Lagrange\<close>

text \<open>
  \<open>extend\<close> of \<open>src/src/fields/extend_p.rs\<close> computes the values of the interpolating polynomial. The
  weights of the convolution formula are those of Lagrange's formula (\<open>lagrange_term_of_nat\<close>), the
  tables hold those weights, and the transforms compute the convolution. The locale \<open>ntt_field\<close> says
  what is needed of a field and its tables.
\<close>

subsection \<open>Lagrange's formula at the natural numbers\<close>

lemma signed_power: "signed n x = (- 1) ^ n * x"
  by (simp add: signed_def)

lemma falling_product: "(\<Prod>j < d. k - j) = (k choose d) * fact d"
proof (induction d)
  case (Suc d)
  have "(k - d) * (k choose d) = Suc d * (k choose Suc d)"
  proof (cases k)
    case (Suc m)
    then show ?thesis by (simp only: binomial_absorb_comp Suc_times_binomial diff_Suc_1)
  qed simp
  moreover have "(\<Prod>j < Suc d. k - j) = (k - d) * (k choose d) * fact d" by (simp add: Suc)
  ultimately show ?case by (simp only: fact_Suc of_nat_id mult_ac)
qed simp

lemma lagrange_numerator:
  assumes "i \<le> d" "d < k"
  shows "of_nat (k - i) * (\<Prod>j \<in> {..<Suc d} - {i}. of_nat k - of_nat j) =
    (of_nat ((k - d) * (k choose d)) * of_nat (fact d) :: 'a :: comm_ring_1)"
proof -
  have "of_nat (k - i) * (\<Prod>j \<in> {..<Suc d} - {i}. of_nat k - of_nat j) =
      (of_nat ((k - i) * (\<Prod>j \<in> {..<Suc d} - {i}. k - j)) :: 'a)"
    using assms by (simp add: of_nat_diff)
  also have "(k - i) * (\<Prod>j \<in> {..<Suc d} - {i}. k - j) = (\<Prod>j < Suc d. k - j)"
    using assms(1) by (intro prod.remove [symmetric]) simp_all
  also have "\<dots> = (k - d) * (k choose d) * fact d" by (simp add: falling_product)
  finally show ?thesis by (simp only: of_nat_mult)
qed

lemma lagrange_denominator:
  assumes "i \<le> d"
  shows "(\<Prod>j \<in> {..<Suc d} - {i}. of_nat i - of_nat j) =
    ((- 1) ^ (d - i) * of_nat (fact i * fact (d - i)) :: 'a :: comm_ring_1)"
proof -
  have low: "(\<Prod>j < i. of_nat i - of_nat j) = (of_nat (fact i) :: 'a)"
  proof -
    have "(\<Prod>j < i. of_nat i - of_nat j) = (of_nat (\<Prod>j < i. i - j) :: 'a)" by (simp add: of_nat_diff)
    then show ?thesis by (simp add: falling_product)
  qed
  have high: "(\<Prod>j \<in> {Suc i..<Suc i + e}. of_nat i - of_nat j) = ((- 1) ^ e * of_nat (fact e) :: 'a)" for e
    by (induction e) (simp_all add: algebra_simps)
  have split: "{..<Suc d} - {i} = {..<i} \<union> {Suc i..<Suc i + (d - i)}" using assms by auto
  have "(\<Prod>j \<in> {..<Suc d} - {i}. of_nat i - of_nat j) =
      (\<Prod>j < i. of_nat i - of_nat j) * (\<Prod>j \<in> {Suc i..<Suc i + (d - i)}. of_nat i - of_nat j :: 'a)"
    unfolding split by (rule prod.union_disjoint) auto
  then show ?thesis by (simp only: low high of_nat_mult mult_ac)
qed

lemma lagrange_term_of_nat:
  fixes k :: nat
  assumes "i \<le> d" "d < k" "\<And>j. 0 < j \<Longrightarrow> j \<le> k \<Longrightarrow> of_nat j \<noteq> (0 :: 'a :: field)"
  shows "lagrange_term of_nat (Suc d) i (of_nat k) =
    signed i (of_nat (d choose i)) * inverse (of_nat (k - i)) * signed d (of_nat ((k - d) * (k choose d)) :: 'a)"
proof -
  have fact0: "of_nat (fact j) \<noteq> (0 :: 'a)" if "j \<le> k" for j
    using that
  proof (induction j)
    case (Suc j)
    then show ?case using assms(3) [of "Suc j"] by (simp only: fact_Suc of_nat_mult of_nat_id) simp
  qed simp
  let ?X = "\<Prod>j \<in> {..<Suc d} - {i}. of_nat k - of_nat j :: 'a"
  let ?B = "of_nat ((k - d) * (k choose d)) :: 'a"
  have "of_nat (k - i) \<noteq> (0 :: 'a)" using assms(1,2) by (intro assms(3)) simp_all
  then have X: "?X = ?B * of_nat (fact d) * inverse (of_nat (k - i))"
    using lagrange_numerator [OF assms(1,2), where 'a = 'a] by (simp add: field_simps del: of_nat_mult)
  have D: "of_nat (fact d) * inverse (of_nat (fact i * fact (d - i))) = (of_nat (d choose i) :: 'a)"
  proof -
    have nz: "of_nat (fact i * fact (d - i)) \<noteq> (0 :: 'a)"
      using fact0 [of i] fact0 [of "d - i"] assms(1,2) by (simp only: of_nat_mult) simp
    have "of_nat (fact d) = (of_nat (fact i * fact (d - i)) * of_nat (d choose i) :: 'a)"
      by (simp only: binomial_fact_lemma [OF assms(1), symmetric] of_nat_mult)
    then show ?thesis using right_inverse [OF nz] by (simp only: mult_ac) simp
  qed
  have inv: "inverse ((- 1 :: 'a) ^ (d - i)) = (- 1) ^ (d - i)"
    by (simp add: minus_one_power_iff)
  have "lagrange_term of_nat (Suc d) i (of_nat k) = ?X * inverse ((- 1) ^ (d - i) * of_nat (fact i * fact (d - i)))"
    unfolding lagrange_denominator [OF assms(1), symmetric] lagrange_term_def
    by (simp only: prod.distrib prod_inversef [symmetric] comp_def)
  also have "\<dots> = ?B * inverse (of_nat (k - i)) * (- 1) ^ (d - i) *
      (of_nat (fact d) * inverse (of_nat (fact i * fact (d - i))))"
    by (simp only: X inverse_mult_distrib inv mult_ac)
  also have "(- 1 :: 'a) ^ (d - i) = (- 1) ^ d * (- 1) ^ i"
    using assms(1) by (simp add: minus_one_power_iff)
  finally show ?thesis unfolding D signed_power by (simp only: mult_ac)
qed

subsection \<open>The tables\<close>

lemma binomial_row_eq:
  fixes rs :: "'a :: field list"
  assumes "rs = map (\<lambda>j. inverse (of_nat j)) [i..<Suc d]" "0 < i" "i \<le> Suc d"
    and "\<And>j. 0 < j \<Longrightarrow> j \<le> d \<Longrightarrow> of_nat j \<noteq> (0 :: 'a)"
  shows "binomial_row d i rs (of_nat (d choose (i - 1))) = map (\<lambda>j. of_nat (d choose j)) [i..<Suc d]"
  using assms(1-3)
proof (induction rs arbitrary: i)
  case Nil
  then show ?case by simp
next
  case (Cons r rs)
  then have i: "i < Suc d" by (metis Nil_is_map_conv list.distinct(1) upt_eq_Nil_conv not_less)
  then have l: "[i..<Suc d] = i # [Suc i..<Suc d]" by (rule upt_conv_Cons)
  from Cons.prems(1) have r: "r = inverse (of_nat i)" "rs = map (\<lambda>j. inverse (of_nat j)) [Suc i..<Suc d]"
    unfolding l by simp_all
  have "of_nat (d choose (i - 1)) * of_nat (d - i + 1) * r = (of_nat (d choose i) :: 'a)"
  proof -
    have "(d - (i - 1)) * (d choose (i - 1)) = i * (d choose i)"
      using binomial_absorb_comp [of d "i - 1"] Suc_times_binomial [of "i - 1" "d - 1"] Cons.prems(2) i by simp
    moreover have "d - (i - 1) = d - i + 1" using Cons.prems(2) i by simp
    ultimately have "of_nat (d choose (i - 1)) * of_nat (d - i + 1) = (of_nat i * of_nat (d choose i) :: 'a)"
      by (simp only: of_nat_mult [symmetric] mult.commute)
    moreover have "of_nat i \<noteq> (0 :: 'a)" using assms(4) Cons.prems(2) i by simp
    ultimately show ?thesis by (simp only: r mult_ac) simp
  qed
  with Cons.IH [OF r(2)] i show ?case by (simp add: l del: upt_Suc)
qed

lemma after_coeffs_eq:
  fixes reciprocals :: "'a :: field list"
  assumes "\<And>j. j < n \<Longrightarrow> reciprocals ! j = inverse (of_nat j)" "n \<le> length reciprocals" "m - d \<le> n" "m < 2 ^ 64"
    and "\<And>j. 0 < j \<Longrightarrow> j \<le> m \<Longrightarrow> of_nat j \<noteq> (0 :: 'a)" "d < k" "k \<le> m"
  shows "after_coeffs reciprocals d [k..<m] (of_nat (k - 1 choose d)) =
    Inr (map (\<lambda>k. signed d (of_nat ((k - d) * (k choose d)))) [k..<m])"
  using assms(6,7)
proof (induction "m - k" arbitrary: k)
  case 0
  then show ?case by simp
next
  case (Suc x)
  then have k: "k < m" by simp
  then have l: "[k..<m] = k # [Suc k..<m]" by (rule upt_conv_Cons)
  have v: "(of_nat k :: 'a) * of_nat (k - 1 choose d) = of_nat ((k - d) * (k choose d))"
    by (simp only: of_nat_mult [symmetric] binomial_absorb_comp)
  have "usize_sub k d = k - d" using Suc.prems(1) k assms(4) by simp
  moreover have "k - d < n" using assms(3) k Suc.prems(1) by linarith
  ultimately have r: "nth_res reciprocals (usize_sub k d) = Inr (inverse (of_nat (k - d)))"
    using assms(1,2) by (simp add: nth_res_def)
  have "of_nat (k - d) \<noteq> (0 :: 'a)" using Suc.prems(1) k by (intro assms(5)) simp_all
  note inv = left_inverse [OF this]
  have b: "of_nat ((k - d) * (k choose d)) * inverse (of_nat (k - d)) = (of_nat (Suc k - 1 choose d) :: 'a)"
    by (simp only: of_nat_mult diff_Suc_1 mult.commute [of "of_nat (k - d)"] mult.assoc inv mult_1_right)
  show ?case
    using Suc.hyps(1) [of "Suc k"] Suc.hyps(2) Suc.prems k
    by (simp only: l after_coeffs.simps Let_def v r b and_then_simps) simp
qed

subsection \<open>The extension\<close>

locale ntt_field =
  fixes mul_inv :: "'a :: field \<Rightarrow> 'a" and T :: "'a ntt_ops"
  assumes mul_inv: "x \<noteq> 0 \<Longrightarrow> mul_inv x * x = 1"
    and of_nat_nonzero: "0 < j \<Longrightarrow> j \<le> 2 ^ 32 \<Longrightarrow> of_nat j \<noteq> (0 :: 'a)"
    and tables: "ntt_tables_ok T"
    and roots: "k < 32 \<Longrightarrow> primitive_roots (rev (take k (drop 1 (no_roots T))))"
    and half: "no_half T * 2 = 1"
begin

lemma reciprocals:
  assumes "0 < n" "n \<le> 2 ^ 32"
  shows "batched_inversion_sequence mul_inv n = map (\<lambda>j. inverse (of_nat j)) [0..<n]"
proof -
  have "of_nat (fact j) \<noteq> (0 :: 'a)" if "j < n" for j
    using that
  proof (induction j)
    case (Suc j)
    then show ?case
      using of_nat_nonzero [of "Suc j"] assms(2) by (simp only: fact_Suc of_nat_mult of_nat_id) simp
  qed simp
  then have "mul_inv (of_nat (fact (n - 1))) * of_nat (fact (n - 1)) = 1" using assms(1) by (intro mul_inv) simp
  note b = batched_inversion_sequence_nth [of mul_inv n, OF this]
  show ?thesis
  proof (rule nth_equalityI)
    fix j assume "j < length (batched_inversion_sequence mul_inv n)"
    then have j: "j < n" by (simp add: b(1))
    have "batched_inversion_sequence mul_inv n ! j = inverse (of_nat j)"
    proof (cases "j = 0")
      case False
      then have "of_nat j * batched_inversion_sequence mul_inv n ! j = 1" using b(3) [of j] j by (simp add: mult.commute)
      then show ?thesis by (rule inverse_unique [symmetric])
    qed (use b(2) j in simp)
    then show "batched_inversion_sequence mul_inv n ! j = map (\<lambda>j. inverse (of_nat j)) [0..<n] ! j"
      using j by simp
  qed (simp add: b(1))
qed

text \<open>The transforms compute the convolution, scaled by the length.\<close>

lemma convolution:
  assumes "length v = 2 ^ k" "length u = 2 ^ k" "k < 32"
  shows "\<exists>tv tu. ntt_bit_reversed T v = Inr tv \<and> ntt_bit_reversed T u = Inr tu \<and> length tv = 2 ^ k \<and> length tu = 2 ^ k \<and>
    scaled_inverse_ntt_bit_reversed T (map2 (\<lambda>x k. x * k) tv tu) = Inr (map (\<lambda>x. 2 ^ k * x) (cyclic_convolution v u))"
proof -
  let ?rs = "rev (take k (drop 1 (no_roots T)))"
  have l: "length ?rs = k" "k < length (no_roots T)" using tables assms(3) by (simp_all add: ntt_tables_ok_def)
  have n: "ntt_bit_reversed T w = Inr (ntt_stages ?rs w)" if "length w = 2 ^ k" for w
    using that l(2) by (rule ntt_bit_reversed_eq)
  have "map2 (*) (ntt_stages ?rs v) (ntt_stages ?rs u) = ntt_stages ?rs (cyclic_convolution v u)"
    using ntt_stages_convolution [OF roots [OF assms(3)]] assms l by simp
  moreover have "length (cyclic_convolution v u) = 2 ^ k" using assms by simp
  from ntt_round_trip [OF tables this assms(3)] n [OF this]
  have "scaled_inverse_ntt_bit_reversed T (ntt_stages ?rs (cyclic_convolution v u)) =
      Inr (map (\<lambda>x. 2 ^ k * x) (cyclic_convolution v u))" by simp
  ultimately show ?thesis using n assms by auto
qed

lemma half_power: "no_half T ^ k * 2 ^ k = 1"
  using half by (simp flip: power_mult_distrib)

definition kernel_terms :: "nat \<Rightarrow> 'a list" where
  "kernel_terms k = map (\<lambda>j. inverse (of_nat j) * no_half T ^ k) [0..<2 ^ k]"

definition weighted_nodes :: "nat \<Rightarrow> nat \<Rightarrow> 'a list \<Rightarrow> 'a list" where
  "weighted_nodes k d xs = map (\<lambda>i. xs ! i * signed i (of_nat (d choose i))) [0..<Suc d] @ replicate (2 ^ k - Suc d) 0"

lemma extend_precompute_eq:
  assumes "Suc d \<le> m" "m \<le> 2 ^ 31"
  shows "\<exists>kernel. ntt_bit_reversed T (kernel_terms (ceil_log2 m)) = Inr kernel \<and>
    extend_precompute mul_inv T (Suc d) m = Inr
      \<lparr>ec_nodes_len = Suc d, ec_evaluations = m, ec_ntt_size = 2 ^ ceil_log2 m,
       ec_transformed_convolution_kernel = kernel,
       ec_before_convolution_coeffs = map (\<lambda>i. signed i (of_nat (d choose i))) [0..<Suc d],
       ec_after_convolution_coeffs = map (\<lambda>k. signed d (of_nat ((k - d) * (k choose d)))) [Suc d..<m]\<rparr>"
proof -
  let ?k = "ceil_log2 m" and ?len = "max (m + 1) (2 ^ ceil_log2 m)"
  have k: "?k \<le> 31" using assms(2) by (rule ceil_log2_least)
  then have "(2 :: nat) ^ ?k \<le> 2 ^ 31" by (intro power_increasing) simp_all
  then have len: "?len \<le> 2 ^ 32" using assms(2) by simp
  define R where "R = batched_inversion_sequence mul_inv ?len"
  have R: "R = map (\<lambda>j. inverse (of_nat j)) [0..<?len]" unfolding R_def by (rule reciprocals) (use len in simp_all)
  have nz: "of_nat j \<noteq> (0 :: 'a)" if "0 < j" "j \<le> m" for j
    using that assms(2) by (intro of_nat_nonzero) simp_all
  have kt: "map (\<lambda>x. x * no_half T ^ ?k) (take (2 ^ ?k) R) = kernel_terms ?k"
    by (simp add: R kernel_terms_def take_map min_def comp_def)
  obtain kernel where kernel: "ntt_bit_reversed T (kernel_terms ?k) = Inr kernel"
    using convolution [of "kernel_terms ?k" ?k "kernel_terms ?k"] k by (auto simp: kernel_terms_def)
  have "drop 1 (take (Suc d) R) = map (\<lambda>j. inverse (of_nat j)) [1..<Suc d]"
    using assms(1) by (simp add: R take_map drop_map min_def)
  from binomial_row_eq [OF this] nz assms(1)
  have "binomial_row d 1 (drop 1 (take (Suc d) R)) 1 = map (\<lambda>j. of_nat (d choose j)) [1..<Suc d]" by simp
  moreover have "[0..<Suc d] = 0 # [1..<Suc d]" by (simp add: upt_conv_Cons)
  ultimately have before: "1 # binomial_row d 1 (drop 1 (take (Suc d) R)) 1 = map (\<lambda>j. of_nat (d choose j)) [0..<Suc d]"
    by simp
  have signs: "map (\<lambda>(i, b). signed i b) (enumerate 0 (map (\<lambda>j. of_nat (d choose j)) [0..<Suc d])) =
      map (\<lambda>i. signed i (of_nat (d choose i) :: 'a)) [0..<Suc d]"
    by (rule nth_equalityI) (simp_all add: nth_enumerate_eq del: upt_Suc)
  have "after_coeffs R d [Suc d..<m] (of_nat (Suc d - 1 choose d)) =
      Inr (map (\<lambda>k. signed d (of_nat ((k - d) * (k choose d)))) [Suc d..<m])"
    by (rule after_coeffs_eq [where n = ?len]) (use nz assms in \<open>simp_all add: R del: upt_Suc\<close>)
  then have after: "after_coeffs R d [Suc d..<m] 1 = Inr (map (\<lambda>k. signed d (of_nat ((k - d) * (k choose d)))) [Suc d..<m])"
    by simp
  have d: "usize_sub (Suc d) 1 = d" using assms by simp
  have e: "exp_vartime (no_half T) (floor_log2 (2 ^ ?k)) = no_half T ^ ?k"
    by (simp add: exp_vartime_def exp_vartime_loop_power floor_log2_power)
  show ?thesis
    using kernel unfolding extend_precompute_def Let_def R_def [symmetric] d e kt before signs after
    by (simp del: upt_Suc)
qed

lemma convolution_at:
  assumes "length xs = Suc d" "Suc d \<le> p" "p < 2 ^ k"
  shows "2 ^ k * cyclic_convolution (weighted_nodes k d xs) (kernel_terms k) ! p =
    (\<Sum>i < Suc d. xs ! i * signed i (of_nat (d choose i)) * inverse (of_nat (p - i)))"
proof -
  let ?v = "weighted_nodes k d xs"
  have len: "length ?v = 2 ^ k" using assms by (simp add: weighted_nodes_def)
  have out: "?v ! i = 0" if "i \<in> {..<2 ^ k} - {..<Suc d}" for i
    using that by (auto simp: weighted_nodes_def nth_append simp del: upt_Suc)
  have "cyclic_convolution ?v (kernel_terms k) ! p =
      (\<Sum>i < 2 ^ k. ?v ! i * kernel_terms k ! ((p + (2 ^ k - i)) mod 2 ^ k))"
    using assms(3) by (simp add: cyclic_convolution_def len)
  also have "\<dots> = (\<Sum>i < Suc d. ?v ! i * kernel_terms k ! ((p + (2 ^ k - i)) mod 2 ^ k))"
    using assms out by (intro sum.mono_neutral_right) auto
  also have "\<dots> = (\<Sum>i < Suc d. xs ! i * signed i (of_nat (d choose i)) * (inverse (of_nat (p - i)) * no_half T ^ k))"
  proof (rule sum.cong [OF refl])
    fix i assume "i \<in> {..<Suc d}"
    then have i: "i < Suc d" by simp
    have "p + (2 ^ k - i) = (p - i) + 2 ^ k" using i assms by simp
    moreover have "(p - i + 2 ^ k) mod 2 ^ k = p - i" using assms(3) by simp
    ultimately have "(p + (2 ^ k - i)) mod 2 ^ k = p - i" by (simp only:)
    moreover have kern: "kernel_terms k ! (p - i) = inverse (of_nat (p - i)) * no_half T ^ k"
      using assms(3) less_imp_diff_less [of p "2 ^ k" i] by (simp add: kernel_terms_def)
    moreover have "?v ! i = xs ! i * signed i (of_nat (d choose i))"
      using i by (simp add: weighted_nodes_def nth_append del: upt_Suc)
    ultimately show "?v ! i * kernel_terms k ! ((p + (2 ^ k - i)) mod 2 ^ k) =
        xs ! i * signed i (of_nat (d choose i)) * (inverse (of_nat (p - i)) * no_half T ^ k)"
      using kern by simp
  qed
  also have "\<dots> = no_half T ^ k * (\<Sum>i < Suc d. xs ! i * signed i (of_nat (d choose i)) * inverse (of_nat (p - i)))"
    by (simp only: sum_distrib_left mult_ac)
  finally show ?thesis using half_power [of k] by (simp only: mult.assoc [symmetric] mult.commute [of "2 ^ k"] mult_1_left)
qed

lemma take_drop_nth: "j \<le> length ys \<Longrightarrow> take (j - i) (drop i ys) = map (nth ys) [i..<j]"
  by (rule nth_equalityI) auto

lemma extend_lagrange:
  assumes "0 < n" "n \<le> m" "m \<le> 2 ^ 31" "length xs = n"
  shows "extend_p mul_inv T n m xs =
    Inr (map (\<lambda>k. \<Sum>i < n. xs ! i * lagrange_term of_nat n i (of_nat k)) [0..<m])"
proof -
  obtain d where d: "n = Suc d" using assms(1) by (cases n) auto
  let ?k = "ceil_log2 m" and ?L = "\<lambda>k. \<Sum>i < n. xs ! i * lagrange_term of_nat n i (of_nat k)"
  have k: "?k < 32" using ceil_log2_least [of m 31] assms(3) by simp
  have m: "m \<le> 2 ^ ?k" by (rule ceil_log2_upper)
  obtain kernel where kernel: "ntt_bit_reversed T (kernel_terms ?k) = Inr kernel"
    and pre: "extend_precompute mul_inv T n m = Inr
      \<lparr>ec_nodes_len = n, ec_evaluations = m, ec_ntt_size = 2 ^ ?k, ec_transformed_convolution_kernel = kernel,
       ec_before_convolution_coeffs = map (\<lambda>i. signed i (of_nat (d choose i))) [0..<n],
       ec_after_convolution_coeffs = map (\<lambda>k. signed d (of_nat ((k - d) * (k choose d)))) [n..<m]\<rparr>"
    using extend_precompute_eq [of d m] assms(2,3) unfolding d by blast
  have inj: "inj_on (of_nat :: nat \<Rightarrow> 'a) {..<n}"
  proof (rule linorder_inj_onI)
    fix i j :: nat assume ij: "i < j" "j \<in> {..<n}"
    then have "of_nat (j - i) \<noteq> (0 :: 'a)" using assms(2,3) by (intro of_nat_nonzero) auto
    then show "of_nat i \<noteq> (of_nat j :: 'a)" using ij(1) by (simp add: of_nat_diff)
  qed auto
  have low: "?L k = xs ! k" if "k < n" for k by (rule interpolation(2) [OF inj that])
  show ?thesis
  proof (cases "m = n")
    case True
    have "xs = map ?L [0..<n]" by (rule nth_equalityI) (simp_all add: assms(4) low)
    moreover have "extend_p mul_inv T n m xs = Inr xs"
      unfolding extend_p_def pre using assms(4) True by (simp add: extend_def)
    ultimately show ?thesis using True by simp
  next
    case False
    have right: "resize (2 ^ ?k) 0 (map2 (\<lambda>p_i coeff. p_i * coeff) xs (map (\<lambda>i. signed i (of_nat (d choose i))) [0..<n]))
        = weighted_nodes ?k d xs"
    proof -
      have "map2 (\<lambda>p_i coeff. p_i * coeff) xs (map (\<lambda>i. signed i (of_nat (d choose i))) [0..<n])
          = map (\<lambda>i. xs ! i * signed i (of_nat (d choose i))) [0..<n]"
        by (rule nth_equalityI) (simp_all add: assms(4))
      then show ?thesis using m assms(2) by (simp add: weighted_nodes_def resize_def d del: upt_Suc)
    qed
    have len: "length (weighted_nodes ?k d xs) = 2 ^ ?k" "length (kernel_terms ?k) = 2 ^ ?k"
      using m assms(2) by (simp_all add: weighted_nodes_def kernel_terms_def d)
    let ?conv = "map (\<lambda>x. 2 ^ ?k * x) (cyclic_convolution (weighted_nodes ?k d xs) (kernel_terms ?k))"
    obtain tv where tv: "ntt_bit_reversed T (weighted_nodes ?k d xs) = Inr tv" "length tv = length kernel"
      "scaled_inverse_ntt_bit_reversed T (map2 (\<lambda>x k. x * k) tv kernel) = Inr ?conv"
      using convolution [OF len k] kernel by auto
    have lc: "length ?conv = 2 ^ ?k" using len by simp
    have tail: "slice_res ?conv n m = Inr (map (nth ?conv) [n..<m])"
      using lc m assms(2) by (simp add: slice_res_def take_drop_nth del: length_map)
    have "map2 (\<lambda>c coeff. c * coeff) (map (nth ?conv) [n..<m])
        (map (\<lambda>k. signed d (of_nat ((k - d) * (k choose d)))) [n..<m]) = map ?L [n..<m]"
    proof -
      have "?conv ! k * signed d (of_nat ((k - d) * (k choose d))) = ?L k" if "k \<in> set [n..<m]" for k
      proof -
        have kk: "d < k" "k < m" "k < 2 ^ ?k" using that m d by simp_all
        have "?conv ! k = (\<Sum>i < n. xs ! i * signed i (of_nat (d choose i)) * inverse (of_nat (k - i)))"
          using convolution_at [of xs d k ?k] assms(4) kk len(1) d by simp
        moreover have "lagrange_term of_nat n i (of_nat k) = signed i (of_nat (d choose i)) * inverse (of_nat (k - i)) *
            signed d (of_nat ((k - d) * (k choose d)) :: 'a)" if "i < n" for i
          unfolding d
        proof (rule lagrange_term_of_nat)
          fix j :: nat assume "0 < j" "j \<le> k"
          then show "of_nat j \<noteq> (0 :: 'a)" using kk(2) assms(3) by (intro of_nat_nonzero) simp_all
        qed (use that kk(1) d in simp_all)
        ultimately show ?thesis by (simp add: sum_distrib_right mult.assoc)
      qed
      then show ?thesis by (simp add: zip_map1 zip_map2 zip_same_conv_map)
    qed
    moreover have "xs = map ?L [0..<n]" by (rule nth_equalityI) (simp_all add: assms(4) low)
    moreover have "[0..<m] = [0..<n] @ [n..<m]" using assms(2) by (metis le_add_diff_inverse upt_add_eq_append zero_le)
    ultimately have "xs @ map2 (\<lambda>c coeff. c * coeff) (map (nth ?conv) [n..<m])
        (map (\<lambda>k. signed d (of_nat ((k - d) * (k choose d)))) [n..<m]) = map ?L [0..<m]" by simp
    then show ?thesis
      using False assms(2,4) tv tail
      by (simp add: extend_p_def pre extend_def right Let_def)
  qed
qed

end

end
