(* ===== verification/P128_Code.thy ===== *)
theory P128_Code
  imports Field_P128 Extend_Lagrange Rs_Code
begin

text \<open>
  The residues modulo 2^128 - 2^108 + 1 are a field, and \<open>p128m2_exp\<close> is its inversion. The modulus
  is one more than a multiple of 2^108; the constant \<open>p128_witness\<close> squared 34 times is the root of
  unity of the tables, and 30 squarings later minus one. Modulo any divisor its first 2^65 powers are
  therefore distinct (Proth's argument), so a proper divisor would be too large. Every residue but
  zero is coprime to the modulus, and the product of all of them gives Fermat's theorem.
\<close>

subsection \<open>Squarings with given quotients\<close>

definition squares :: "int \<Rightarrow> int list \<Rightarrow> int \<Rightarrow> int" where
  "squares m qs x = fold (\<lambda>q x. x ^ 2 - q * m) qs x"

lemma dvd_power_diff:
  fixes m :: int
  assumes "m dvd a - b"
  shows "m dvd a ^ n - b ^ n"
  using assms by (metis mod_eq_dvd_iff power_mod)

lemma squares_power: "m dvd x ^ (2 ^ length qs) - squares m qs x"
proof (induction qs arbitrary: x)
  case (Cons q qs)
  have "m dvd (x ^ 2) ^ (2 ^ length qs) - (x ^ 2 - q * m) ^ (2 ^ length qs)"
    by (rule dvd_power_diff) simp
  from dvd_add [OF this Cons.IH [of "x ^ 2 - q * m"]] show ?case
    by (simp add: squares_def power_mult)
qed (simp add: squares_def)

definition p128_witness :: int where
  "p128_witness = 277247395346134144804288156390147936717"

definition p128_root :: int where
  "p128_root = int (le_value p128_root_bytes)"

definition root_quotients :: "int list" where
  "root_quotients =
    [225889434786338589323949020899398974686, 288601464308868029106053419805499182,
     257407402770001748551142838045298682299, 70611650582256043251650918527345213088,
     270443321832503734448747514610328113967, 225886367279116746953641563486032185279,
     235416412708533978638929382696456101325, 52009407776828743069273604168903715916,
     304401249242223459541752307126758549503, 42453306088629829467698275409227203274,
     48164862941456011269226587583341051397, 63295016131722207100726347621919590822,
     246581615433358366631109223434108499, 978824015825426106280655767244826378,
     197746170067749286056719061288738503783, 338120093301414758642648003360073100661,
     38330500583674699651294492980406279210, 29400720004302445156449893282773757002,
     38809972961399662050884498218114895823, 3827476328407141229622668238398458091,
     241247159610080946523036953237457176132, 128656122156907833127749938497321638789,
     192110534241420913775345480225335061703, 197357497848578231435426953819130864081,
     3330104361139880484222249726006147114, 31355924393858253271033399278041489797,
     136426566291586931224737028197992637031, 194311221909201535479051268043498173806,
     275547259847122128645303942648692976275, 237715295185801529490102359020483662630,
     85475818191417953915468237437855688325, 163763464767065391565973202898559080854,
     12375191154525749068362099097410350908, 29242779472282179867932837646094280722]"

definition minus_one_quotients :: "int list" where
  "minus_one_quotients =
    [9127615808793419133396741412300769243, 44611534421979528567921866088086805734,
     4678096195995322747718184227943092636, 69637883059904526954132907195544284462,
     7801288674058433676465146591617967280, 319474231634328237561126819557002721398,
     31705541615678429286215656492901552240, 210958134120166700623138394553393265449,
     311498192613148354705447908412130166700, 23763592428432899905499712683157948763,
     232558274403017079488170072703024387520, 36670535172670273166165031023317283977,
     16706402692081786334520872992653443058, 8816082251732992473612338139227122,
     56505743181022642587615459588154394858, 168011909646011170554552304515728652529,
     129455221803696021604656524677550218387, 212354944292359731075895852914953222922,
     838543350595565331767047799953503941, 1872990982526405143042567909560002607,
     51505052901187795200641698038923783176, 19248729260951307087484484484211721150,
     195401814524730894716676059660754998850, 113527592565137881047244878358630802898,
     26115566628785741680708779363305914387, 1609572391519151667266624566721191632,
     274944551467200191079776849326937186204, 212508971529248565040533123151357590791,
     8786444139206586376923092836235945862, 33966284973303538114298095857802803961]"

lemmas square_arith = arith_simps power_numeral Num.pow.simps Num.sqr.simps

lemma p128_root_value: "p128_root = 55731173948522922950582277397065913079"
  by (simp add: p128_root_def p128_root_bytes_def)

lemma squares_to_root: "squares p128_modulus root_quotients p128_witness = p128_root"
  by (simp only: squares_def root_quotients_def p128_witness_def p128_root_value p128_modulus_def
      fold_simps square_arith)

lemma squares_to_minus_one: "squares p128_modulus minus_one_quotients p128_root = p128_modulus - 1"
  by (simp only: squares_def minus_one_quotients_def p128_root_value p128_modulus_def fold_simps square_arith)

subsection \<open>The modulus has no proper divisor\<close>

lemma p128_root_order: "p128_modulus dvd p128_root ^ (2 ^ 30) + 1"
proof -
  have l: "length minus_one_quotients = 30" by (simp add: minus_one_quotients_def)
  have "p128_modulus dvd p128_root ^ (2 ^ 30) - (p128_modulus - 1)"
    using squares_power [of p128_modulus p128_root minus_one_quotients]
    unfolding squares_to_minus_one l .
  from dvd_add [OF this dvd_refl] show ?thesis by (simp only: diff_add_cancel diff_diff_eq2)
qed

lemma p128_witness_order: "p128_modulus dvd p128_witness ^ (2 ^ 64) + 1"
proof -
  have l: "length root_quotients = 34" by (simp add: root_quotients_def)
  have "p128_modulus dvd (p128_witness ^ (2 ^ 34)) ^ (2 ^ 30) - p128_root ^ (2 ^ 30)"
    using squares_power [of p128_modulus p128_witness root_quotients]
    unfolding squares_to_root l by (rule dvd_power_diff)
  from dvd_add [OF this p128_root_order] have "p128_modulus dvd (p128_witness ^ (2 ^ 34)) ^ (2 ^ 30) + 1"
    by (simp only: diff_add_cancel add.assoc [symmetric])
  moreover have "(2 :: nat) ^ 34 * 2 ^ 30 = 2 ^ 64" by (simp only: power_add [symmetric]) simp
  ultimately show ?thesis by (simp only: power_mult [symmetric])
qed

lemma minus_one_power_order:
  fixes b :: int
  assumes "q dvd b ^ (2 ^ n) + 1" "odd q" "1 < q" "0 < k" "k < 2 ^ Suc n"
  shows "\<not> q dvd b ^ k - 1"
proof
  assume k: "q dvd b ^ k - 1"
  obtain s u where su: "k = u * 2 ^ s" "odd u"
  proof -
    have "\<exists>s u. k = u * 2 ^ s \<and> odd u" using assms(4)
    proof (induction k rule: less_induct)
      case (less k)
      show ?case
      proof (cases "even k")
        case True
        then obtain h where h: "k = 2 * h" by blast
        then obtain s u where "h = u * 2 ^ s" "odd u" using less.IH [of h] less.prems by auto
        then show ?thesis using h by (intro exI [of _ "Suc s"] exI [of _ u]) simp
      next
        case False
        then show ?thesis by (intro exI [of _ 0] exI [of _ k]) simp
      qed
    qed
    then show ?thesis using that by blast
  qed
  have "1 * 2 ^ s \<le> k" unfolding su(1) by (rule mult_le_mono1) (use su(2) in presburger)
  then have "(2 :: nat) ^ s < 2 ^ Suc n" using assms(5) by simp
  then have s: "s \<le> n" by (simp add: less_Suc_eq_le del: power_Suc)
  have "q dvd (b ^ k) ^ 2 ^ (n - s) - 1 ^ 2 ^ (n - s)" using k by (intro dvd_power_diff) simp
  moreover have "k * 2 ^ (n - s) = 2 ^ n * u"
    using s unfolding su(1) by (simp add: mult.assoc mult.left_commute flip: power_add)
  ultimately have 1: "q dvd (b ^ 2 ^ n) ^ u - 1" by (simp flip: power_mult)
  have "q dvd (b ^ 2 ^ n) ^ u - (- 1) ^ u" using assms(1) by (intro dvd_power_diff) simp
  then have "q dvd (b ^ 2 ^ n) ^ u + 1" using su(2) by simp
  from dvd_diff [OF this 1] have "q dvd 2" by simp
  then have "q \<le> 2" by (rule zdvd_imp_le) simp
  with assms(2,3) show False by presburger
qed

lemma divisor_large:
  fixes b :: int
  assumes "q dvd b ^ (2 ^ n) + 1" "odd q" "1 < q"
  shows "2 ^ Suc n \<le> q"
proof (rule ccontr)
  assume "\<not> 2 ^ Suc n \<le> q"
  then have "q < int (2 ^ Suc n)" by simp
  then have "nat q < 2 ^ Suc n" using assms(3) by (simp only: nat_less_iff)
  moreover have "(\<lambda>i. b ^ i mod q) ` {..<2 ^ Suc n} \<subseteq> {0..<q}" using assms(3) by auto
  then have "card ((\<lambda>i. b ^ i mod q) ` {..<2 ^ Suc n}) \<le> nat q"
    by (metis card_atLeastZeroLessThan_int card_mono finite_atLeastLessThan_int)
  ultimately have "\<not> inj_on (\<lambda>i. b ^ i mod q) {..<(2 :: nat) ^ Suc n}"
    by (intro pigeonhole) simp
  then obtain i j where ij: "i < j" "j < 2 ^ Suc n" "b ^ i mod q = b ^ j mod q"
    by (metis (no_types, lifting) inj_onI lessThan_iff linorder_neqE_nat)
  have "b ^ j - b ^ i = b ^ i * (b ^ (j - i) - 1)"
    using ij(1) by (simp add: right_diff_distrib flip: power_add)
  then have "q dvd b ^ i * (b ^ (j - i) - 1)" using ij(3) by (metis mod_eq_dvd_iff)
  moreover have "coprime b q"
  proof (rule coprimeI)
    fix d assume d: "d dvd b" "d dvd q"
    have "d dvd b ^ 2 ^ n" using d(1) by (rule dvd_trans) simp
    moreover have "d dvd b ^ 2 ^ n + 1" using d(2) assms(1) by (rule dvd_trans)
    ultimately show "is_unit d" by (simp add: dvd_add_right_iff)
  qed
  then have "coprime q (b ^ i)" by (simp add: ac_simps)
  ultimately have "q dvd b ^ (j - i) - 1" by (simp add: coprime_dvd_mult_right_iff)
  moreover have "0 < j - i" "j - i < 2 ^ Suc n" using ij(1,2) by linarith+
  ultimately show False using minus_one_power_order [OF assms] by blast
qed

lemma p128_coprime:
  assumes "0 < x" "x < p128_modulus"
  shows "coprime x p128_modulus"
proof (rule ccontr)
  assume "\<not> coprime x p128_modulus"
  then have d: "gcd x p128_modulus \<noteq> 1" by (simp add: coprime_iff_gcd_eq_1)
  obtain e where e: "p128_modulus = gcd x p128_modulus * e" by (meson dvdE gcd_dvd2)
  have pos: "0 < gcd x p128_modulus" using assms(1) by simp
  have "gcd x p128_modulus \<le> x" using assms(1) by simp
  then have "gcd x p128_modulus < p128_modulus" using assms(2) by linarith
  have "1 < e"
  proof (rule ccontr)
    assume "\<not> 1 < e"
    then have "gcd x p128_modulus * e \<le> gcd x p128_modulus * 1" using pos by (intro mult_left_mono) simp_all
    with e \<open>gcd x p128_modulus < p128_modulus\<close> show False by linarith
  qed
  have large: "2 ^ 65 \<le> q" if "1 < q" "q dvd p128_modulus" for q :: int
  proof -
    have w: "q dvd p128_witness ^ (2 ^ 64) + 1" using that(2) p128_witness_order by (rule dvd_trans)
    have "odd p128_modulus" by (simp add: p128_modulus_def)
    then have "odd q" using that(2) by (meson dvd_trans)
    from divisor_large [OF w this that(1)] have "2 ^ Suc 64 \<le> q" .
    then show ?thesis by simp
  qed
  have "2 ^ 65 * 2 ^ 65 \<le> gcd x p128_modulus * e"
  proof (rule mult_mono)
    show "2 ^ 65 \<le> gcd x p128_modulus" 
    proof (rule large)
      show "1 < gcd x p128_modulus" using d pos by linarith
    qed simp
    have "e dvd p128_modulus" by (subst e) (rule dvd_triv_right)
    then show "2 ^ 65 \<le> e" using \<open>1 < e\<close> by (rule large [rotated])
  qed (use pos in simp_all)
  then show False using e by (simp add: p128_modulus_def)
qed

subsection \<open>Inverses\<close>

lemma fp128_inverse_exists:
  assumes "x \<noteq> (0 :: fp128)"
  shows "\<exists>y. y * x = 1"
proof -
  have "as_residue x \<noteq> 0" using assms by (simp add: zero_fp128.rep_eq as_residue_inject [symmetric])
  then have "coprime (as_residue x) p128_modulus"
    using as_residue_bounds [of x] by (intro p128_coprime) simp_all
  then obtain u v where "u * as_residue x + v * p128_modulus = 1"
    using bezout_int [of "as_residue x" p128_modulus] by (auto simp: coprime_iff_gcd_eq_1)
  then have "p128_of_int (u * as_residue x) = p128_of_int (1 - v * p128_modulus)"
    by (metis add_diff_cancel_right')
  also have "\<dots> = 1" by (simp add: p128_of_int_arith p128_of_int_eq_iff mod_diff_eq [symmetric])
  finally have "p128_of_int u * x = 1" by (simp add: p128_of_int_arith(3) [symmetric] p128_of_residue)
  then show ?thesis ..
qed

lemma fp128_no_zero_divisors:
  assumes "x * y = (0 :: fp128)" "x \<noteq> 0"
  shows "y = 0"
proof -
  obtain z where "z * x = 1" using fp128_inverse_exists [OF assms(2)] ..
  then have "y = z * (x * y)" by (simp add: mult.assoc [symmetric])
  then show ?thesis using assms(1) by simp
qed

lemma card_fp128: "card (UNIV :: fp128 set) = nat p128_modulus" "finite (UNIV :: fp128 set)"
proof -
  show "card (UNIV :: fp128 set) = nat p128_modulus"
    using type_definition.card [OF type_definition_fp128] by simp
  show "finite (UNIV :: fp128 set)"
    unfolding type_definition.univ [OF type_definition_fp128] by (intro finite_imageI) simp
qed

lemma fp128_fermat:
  assumes "x \<noteq> (0 :: fp128)"
  shows "x ^ nat (p128_modulus - 1) = 1"
proof -
  let ?S = "UNIV - {0 :: fp128}"
  obtain z where z: "z * x = 1" using fp128_inverse_exists [OF assms] ..
  have inj: "inj_on ((*) x) ?S"
    by (rule inj_on_inverseI [where g = "(*) z"]) (simp add: mult.assoc [symmetric] z)
  have fin: "finite ?S" using card_fp128(2) by simp
  have "(*) x ` ?S \<subseteq> ?S" using fp128_no_zero_divisors [of x] assms by auto
  then have "(*) x ` ?S = ?S" using inj fin by (simp add: endo_inj_surj)
  then have "prod id ?S = prod id ((*) x ` ?S)" by simp
  also have "\<dots> = prod (\<lambda>y. x * y) ?S" using inj by (simp add: prod.reindex)
  also have "\<dots> = x ^ card ?S * prod id ?S" by (simp add: prod.distrib)
  finally have "(x ^ card ?S - 1) * prod id ?S = 0" by (simp add: left_diff_distrib)
  moreover have "prod id T \<noteq> 0" if "finite T" "0 \<notin> T" for T :: "fp128 set"
    using that
  proof (induction T)
    case empty
    have "(1 :: fp128) \<noteq> 0" by transfer (simp add: p128_modulus_def)
    then show ?case by simp
  next
    case (insert y T)
    then show ?case using fp128_no_zero_divisors [of y "prod id T"] by auto
  qed
  then have "prod id ?S \<noteq> 0" using fin by blast
  ultimately have "x ^ card ?S - 1 = 0"
    using fp128_no_zero_divisors [of "prod id ?S" "x ^ card ?S - 1"] by (simp add: mult.commute)
  moreover have "card ?S = nat (p128_modulus - 1)"
    using card_fp128 by (simp add: nat_diff_distrib p128_modulus_def)
  ultimately show ?thesis by simp
qed

lemma p128m2_exp_inverse:
  assumes "x \<noteq> (0 :: fp128)"
  shows "p128m2_exp x * x = 1"
proof -
  have "nat (p128_modulus - 1) = Suc 340282042402384805036647824275747635199" by (simp add: p128_modulus_def)
  then show ?thesis using fp128_fermat [OF assms] by (simp only: p128m2_exp_power power_Suc2)
qed

instantiation fp128 :: field
begin

definition inverse_fp128 :: "fp128 \<Rightarrow> fp128" where
  "inverse_fp128 x = p128m2_exp x"

definition divide_fp128 :: "fp128 \<Rightarrow> fp128 \<Rightarrow> fp128" where
  "divide_fp128 x y = x * p128m2_exp y"

instance
proof
  fix x y :: fp128
  show "x \<noteq> 0 \<Longrightarrow> inverse x * x = 1" by (simp add: inverse_fp128_def p128m2_exp_inverse)
  show "x div y = x * inverse y" by (simp only: inverse_fp128_def divide_fp128_def)
  show "inverse (0 :: fp128) = 0" unfolding inverse_fp128_def p128m2_exp_power by (rule zero_power) simp
qed

end

lemma p128_of_nat: "as_residue (of_nat j) = int j mod p128_modulus"
  by (induction j) (simp_all add: zero_fp128.rep_eq one_fp128.rep_eq plus_fp128.rep_eq mod_simps add.commute)

section \<open>P128 Code\<close>

text \<open>
  The extension of a field with transforms (\<open>ntt_field\<close>) is a Reed-Solomon code in the sense of
  \<open>reed_solomon\<close>: codewords are the values of a polynomial of bounded degree at 0, 1, 2, and so on. The
  field of \<open>fieldp128\<close> is the instance; its tables of roots of unity have the orders they should.
\<close>

abbreviation codeword :: "nat \<Rightarrow> nat \<Rightarrow> 'a :: comm_ring_1 list \<Rightarrow> bool" where
  "codeword \<equiv> codeword_at of_nat"

definition short_enough :: "nat \<Rightarrow> bool" where
  "short_enough m \<longleftrightarrow> m \<le> 2 ^ 31"

locale ntt_field_ops = ntt_field mul_inv T
  for mul_inv :: "'a :: field \<Rightarrow> 'a" and T :: "'a ntt_ops" +
  fixes F :: "'a field_ops"
  assumes extend_F: "fo_extend F = extend_p mul_inv T"
begin

lemma of_nat_inj: "n \<le> 2 ^ 31 \<Longrightarrow> inj_on (of_nat :: nat \<Rightarrow> 'a) {..<n}"
proof (rule linorder_inj_onI)
  fix i j :: nat assume ij: "n \<le> 2 ^ 31" "i < j" "j \<in> {..<n}"
  then have "of_nat (j - i) \<noteq> (0 :: 'a)" by (intro of_nat_nonzero) auto
  then show "of_nat i \<noteq> (of_nat j :: 'a)" using ij(2) by (simp add: of_nat_diff)
qed auto

lemma is_reed_solomon: "reed_solomon F codeword short_enough"
proof (rule reed_solomon_at)
  show inj: "n \<le> m \<Longrightarrow> short_enough m \<Longrightarrow> inj_on (of_nat :: nat \<Rightarrow> 'a) {..<n}" for n m
    by (intro of_nat_inj) (simp add: short_enough_def)
  fix n m and xs :: "'a list"
  assume nm: "0 < n" "n \<le> m" "short_enough m" "length xs = n"
  let ?f = "\<lambda>x. \<Sum>i < n. xs ! i * lagrange_term of_nat n i x"
  have "fo_extend F n m xs = Inr (map (\<lambda>k. ?f (of_nat k)) [0..<m])"
    using extend_lagrange [OF nm(1,2) _ nm(4)] nm(3) by (simp add: extend_F short_enough_def)
  then show "\<exists>f. poly_below n f \<and> fo_extend F n m xs = Inr (map (\<lambda>i. f (of_nat i)) [0..<m]) \<and> (\<forall>i < n. f (of_nat i) = xs ! i)"
    using interpolation [OF inj [OF nm(2,3)]] by (intro exI [of _ ?f]) blast
qed

end

sublocale ntt_field_ops \<subseteq> rs: reed_solomon F codeword short_enough
  by (rule is_reed_solomon)

subsection \<open>The instance\<close>

lemma root_table_nth: "i \<le> n \<Longrightarrow> root_table n w ! i = w ^ (2 ^ (n - i))"
proof (induction n arbitrary: w)
  case (Suc n)
  show ?case
  proof (cases "i = Suc n")
    case False
    then have i: "i \<le> n" using Suc.prems by simp
    then have "root_table (Suc n) w ! i = (w * w) ^ (2 ^ (n - i))" using Suc.IH [OF i] by (simp add: nth_append)
    also have "\<dots> = w ^ (2 * 2 ^ (n - i))" by (simp add: power_mult power2_eq_square)
    finally show ?thesis using i by (simp add: Suc_diff_le)
  qed (simp add: nth_append)
qed simp

lemma root_table_primitive:
  assumes "w ^ (2 ^ n) = - 1" "k \<le> Suc n"
  shows "primitive_roots (rev (take k (drop 1 (root_table (Suc n) w))))"
  using assms(2)
proof (induction k)
  case (Suc k)
  let ?t = "root_table (Suc n) w"
  have "take (Suc k) (drop 1 ?t) = take k (drop 1 ?t) @ [?t ! Suc k]"
    using Suc.prems by (subst take_Suc_conv_app_nth) (simp_all del: root_table.simps)
  moreover have "(?t ! Suc k) ^ (2 ^ k) = - 1"
    using root_table_nth [of "Suc k" "Suc n" w] Suc.prems assms(1)
    by (simp del: root_table.simps add: power_mult [symmetric] power_add [symmetric])
  moreover have "length (rev (take k (drop 1 ?t))) = k" using Suc.prems by (simp del: root_table.simps)
  ultimately show ?case using Suc by (simp del: root_table.simps)
qed simp

interpretation p128_code: ntt_field_ops p128m2_exp p128_ntt p128_ops
proof
  show "x \<noteq> 0 \<Longrightarrow> p128m2_exp x * x = 1" for x :: fp128 by (rule p128m2_exp_inverse)
  show "of_nat j \<noteq> (0 :: fp128)" if "0 < j" "j \<le> 2 ^ 32" for j
  proof
    assume "of_nat j = (0 :: fp128)"
    then have "int j mod p128_modulus = 0" by (simp add: p128_of_nat [symmetric] zero_fp128.rep_eq)
    then show False using that by (simp add: p128_modulus_def)
  qed
  show "ntt_tables_ok p128_ntt" by (rule p128_ntt_tables_ok)
  show "primitive_roots (rev (take k (drop 1 (no_roots p128_ntt))))" if "k < 32" for k
  proof -
    have "p128_of_int p128_root ^ j = p128_of_int (p128_root ^ j)" for j
      by (induction j) (simp_all only: power_0 power_Suc p128_of_int_arith)
    moreover have "p128_of_int (p128_root ^ (2 ^ 30)) = p128_of_int (- 1)"
      unfolding p128_of_int_eq_iff mod_eq_dvd_iff using p128_root_order by (simp only: diff_minus_eq_add)
    moreover have "p128_of_int (- 1) = - 1" by transfer (simp add: p128_modulus_def)
    ultimately have "p128_from_bytes p128_root_bytes ^ (2 ^ 30) = - 1"
      by (simp only: p128_from_bytes_def p128_root_def)
    from root_table_primitive [OF this, of k] that show ?thesis by (simp add: p128_ntt_def)
  qed
  show "no_half p128_ntt * 2 = 1"
    using p128_half by (simp add: p128_ntt_def p128_two mult.commute)
  show "fo_extend p128_ops = extend_p p128m2_exp p128_ntt" by (simp add: p128_ops_def)
qed

end
