(* ===== verification/Pocklington.thy ===== *)
theory Pocklington
  imports Prelude
begin

text \<open>
  Certificates of primality. A number \<open>N\<close> is prime if the primes that divide it exceed its square root; every one of them is
  one more than a multiple of \<open>q\<close> if some power of order \<open>q\<close> is given, \<open>q\<close> being prime (Pocklington). A power
  is checked by its chain of squares and products, each with the quotient that reduces it, so the kernel multiplies and
  never divides.
\<close>

subsection \<open>Primes\<close>

definition is_prime :: "int \<Rightarrow> bool" where
  "is_prime p \<longleftrightarrow> 1 < p \<and> (\<forall>d. 1 < d \<longrightarrow> d < p \<longrightarrow> \<not> d dvd p)"

lemma is_prime_coprime:
  assumes "is_prime p" "\<not> p dvd x"
  shows "coprime x p"
proof -
  let ?g = "gcd x p"
  have p: "1 < p" using assms(1) by (simp add: is_prime_def)
  have g: "?g dvd p" "?g dvd x" "0 < ?g" using p by simp_all
  have "?g \<le> p" using g(1) p by (intro zdvd_imp_le) simp_all
  moreover have "?g \<noteq> p" using g(2) assms(2) by metis
  moreover have "\<not> (1 < ?g \<and> ?g < p)" using g(1) assms(1) unfolding is_prime_def by metis
  ultimately have "?g = 1" using g(3) by linarith
  then show ?thesis by (simp add: coprime_iff_gcd_eq_1)
qed

lemma least_divisor:
  assumes "1 < (n :: int)" "\<not> is_prime n"
  obtains p where "is_prime p" "p dvd n" "p * p \<le> n"
proof -
  let ?D = "\<lambda>k. 1 < k \<and> int k dvd n"
  obtain d where d: "1 < d" "d < n" "d dvd n" using assms by (auto simp: is_prime_def)
  then have D: "?D (nat d)" by simp
  note least = LeastI [of ?D, OF D] Least_le [of ?D]
  define p where "p = int (LEAST k. ?D k)"
  have p: "1 < p" "p dvd n" "\<And>e. 1 < e \<Longrightarrow> e dvd n \<Longrightarrow> p \<le> e"
  proof -
    show "1 < p" "p dvd n" using least(1) by (simp_all add: p_def)
    show "p \<le> e" if "1 < e" "e dvd n" for e using least(2) [of "nat e"] that by (simp add: p_def)
  qed
  have "is_prime p" unfolding is_prime_def
  proof (intro conjI allI impI notI)
    fix e assume e: "1 < e" "e < p" "e dvd p"
    then have "p \<le> e" using p(3) [of e] dvd_trans [OF e(3) p(2)] by blast
    then show False using e(2) by simp
  qed (rule p(1))
  obtain f where f: "n = p * f" using p(2) by (rule dvdE)
  have "p < n" using p(3) [OF d(1,3)] d(2) by simp
  have "1 < f"
  proof (rule ccontr)
    assume "\<not> 1 < f"
    moreover have "0 < f" using f assms(1) p(1) by (metis less_trans zero_less_mult_pos zero_less_one)
    ultimately have "f = 1" by simp
    then show False using f \<open>p < n\<close> by simp
  qed
  then have "p \<le> f" using p(3) f by simp
  then have "p * p \<le> n" unfolding f using p(1) by (intro mult_left_mono) simp_all
  then show thesis using that \<open>is_prime p\<close> p(2) by blast
qed

lemma square_between:
  assumes "(s :: int) * s < x" "x < (s + 1) * (s + 1)" "0 \<le> s"
  shows "x \<noteq> t * t"
proof
  assume x: "x = t * t"
  have "\<bar>t\<bar> * \<bar>t\<bar> = x" using x by simp
  moreover have "\<bar>t\<bar> * \<bar>t\<bar> \<le> s * s" if "\<bar>t\<bar> \<le> s" using that by (intro mult_mono) simp_all
  moreover have "(s + 1) * (s + 1) \<le> \<bar>t\<bar> * \<bar>t\<bar>" if "s + 1 \<le> \<bar>t\<bar>" using that assms(3) by (intro mult_mono) simp_all
  ultimately show False using assms by linarith
qed

lemma square_negative: "(x :: int) < 0 \<Longrightarrow> x \<noteq> t * t"
  using zero_le_square [of t] by linarith

text \<open>
  If every prime divisor of \<open>n\<close> is one more than a multiple of \<open>f\<close> and \<open>f\<close> exceeds the cube root of \<open>n\<close>, a proper
  factorisation would be \<open>(a * f + 1) * (b * f + 1)\<close> with \<open>a * b\<close> and \<open>a + b\<close> the digits of \<open>n\<close> in base \<open>f\<close>
  (Brillhart, Lehmer, Selfridge).
\<close>

lemma is_prime_by_divisors:
  assumes "1 < n" "n = c * (f * f) + d * f + 1" "0 \<le> d" "d < f" "n < f * (f * f)"
    and no_square: "\<And>t. 0 < c \<Longrightarrow> d * d - 4 * c \<noteq> t * t"
    and divisors: "\<And>p. is_prime p \<Longrightarrow> p dvd n \<Longrightarrow> f dvd p - 1"
  shows "is_prime n"
proof (rule ccontr)
  assume "\<not> is_prime n"
  then obtain p where p: "is_prime p" "p dvd n" "p * p \<le> n" using assms(1) least_divisor by blast
  have f: "0 < f" and p1: "1 < p" using assms(3,4) p(1) by (simp_all add: is_prime_def)
  obtain m where m: "n = p * m" using p(2) by (rule dvdE)
  obtain a where "p - 1 = f * a" using divisors [OF p(1,2)] by (rule dvdE)
  then have a: "p = a * f + 1" by (simp add: algebra_simps)
  have "f dvd n - 1" using assms(2) by (simp add: dvd_add)
  moreover have "n - 1 = (m - 1) + a * f * m" using m a by (simp add: algebra_simps)
  ultimately have "f dvd m - 1" by (metis dvd_add_left_iff dvd_mult2 dvd_triv_right)
  then obtain b where "m - 1 = f * b" by (rule dvdE)
  then have b: "m = b * f + 1" by (simp add: algebra_simps)
  have "0 < a * f" using a p1 by simp
  then have a0: "0 < a" using f by (simp add: zero_less_mult_iff)
  have "1 < m"
  proof -
    have "p * p \<le> p * m" using p(3) m by simp
    then show ?thesis using p1 by simp
  qed
  then have "0 < b * f" using b by simp
  then have b0: "0 < b" using f by (simp add: zero_less_mult_iff)
  have n: "n = (a * b) * (f * f) + (a + b) * f + 1" using m a b by (simp add: algebra_simps)
  have "(a * b) * (f * f) < f * (f * f)"
  proof -
    have "0 < (a + b) * f" using a0 b0 f by (intro mult_pos_pos) simp_all
    then show ?thesis using n assms(5) by linarith
  qed
  then have ab: "a * b < f" using f by (simp add: mult_less_cancel_right)
  have "0 \<le> (a - 1) * (b - 1)" using a0 b0 by (intro mult_nonneg_nonneg) simp_all
  then have sum: "a + b \<le> a * b + 1" by (simp add: algebra_simps)
  have "a + b \<noteq> f"
  proof
    assume "a + b = f"
    then have "a * b = f - 1" using sum ab by simp
    then have "n = (f - 1) * (f * f) + f * f + 1" using n \<open>a + b = f\<close> by simp
    then have "n = f * (f * f) + 1" by (simp add: left_diff_distrib)
    then show False using assms(5) by simp
  qed
  then have lt: "a + b < f" using sum ab by simp
  have "(c * f + d) * f = (a * b * f + (a + b)) * f" using n assms(2) by (simp add: algebra_simps)
  then have "c * f + d = a * b * f + (a + b)" using f by simp
  then have "(c * f + d) mod f = (a * b * f + (a + b)) mod f" "(c * f + d) div f = (a * b * f + (a + b)) div f"
    by simp_all
  then have "d = a + b" "c = a * b" using lt a0 b0 f assms(3,4) by simp_all
  then have "d * d - 4 * c = (a - b) * (a - b)" by (simp add: algebra_simps)
  moreover have "0 < c" using \<open>c = a * b\<close> a0 b0 by simp
  ultimately show False using no_square by blast
qed

subsection \<open>Fermat\<close>

lemma fermat:
  assumes "is_prime p" "\<not> p dvd a"
  shows "p dvd a ^ nat (p - 1) - 1"
proof -
  let ?S = "{1..<p}"
  have p: "1 < p" using assms(1) by (simp add: is_prime_def)
  have nd: "\<not> p dvd x" if "x \<in> ?S" for x using that zdvd_imp_le [of p x] by auto
  have cop: "coprime x p" if "x \<in> ?S" for x using is_prime_coprime [OF assms(1)] nd that by blast
  have copa: "coprime a p" using is_prime_coprime assms by blast
  have inj: "inj_on (\<lambda>x. a * x mod p) ?S"
  proof (rule inj_onI)
    fix x y assume xy: "x \<in> ?S" "y \<in> ?S" "a * x mod p = a * y mod p"
    then have "p dvd a * (x - y)" by (simp add: mod_eq_dvd_iff right_diff_distrib)
    then have "p dvd x - y" using copa by (simp add: coprime_commute coprime_dvd_mult_right_iff)
    then have "x mod p = y mod p" by (simp add: mod_eq_dvd_iff)
    then show "x = y" using xy(1,2) by simp
  qed
  have "(\<lambda>x. a * x mod p) ` ?S \<subseteq> ?S"
  proof
    fix y assume "y \<in> (\<lambda>x. a * x mod p) ` ?S"
    then obtain x where x: "x \<in> ?S" "y = a * x mod p" by blast
    have "\<not> p dvd a * x" using copa nd [OF x(1)] by (simp add: coprime_commute coprime_dvd_mult_right_iff)
    then have "y \<noteq> 0" using x(2) by (simp add: dvd_eq_mod_eq_0)
    moreover have "0 \<le> y" "y < p" using x(2) p by simp_all
    ultimately show "y \<in> ?S" by simp
  qed
  then have img: "(\<lambda>x. a * x mod p) ` ?S = ?S" using inj by (intro card_subset_eq) (simp_all add: card_image)
  have "(\<Prod>x \<in> ?S. x) mod p = (\<Prod>y \<in> (\<lambda>x. a * x mod p) ` ?S. y) mod p" by (simp only: img)
  also have "\<dots> = (\<Prod>x \<in> ?S. a * x mod p) mod p" by (simp only: prod.reindex [OF inj] comp_def)
  also have "\<dots> = (\<Prod>x \<in> ?S. a * x) mod p" by (rule mod_prod_eq)
  also have "\<dots> = (a ^ nat (p - 1) * (\<Prod>x \<in> ?S. x)) mod p" by (simp add: prod.distrib)
  finally have "p dvd (a ^ nat (p - 1) - 1) * (\<Prod>x \<in> ?S. x)" by (simp add: mod_eq_dvd_iff left_diff_distrib dvd_diff_commute)
  moreover have "coprime (\<Prod>x \<in> ?S. x) p" using cop by (rule prod_coprime_left)
  ultimately show ?thesis by (simp add: coprime_commute coprime_dvd_mult_left_iff)
qed

lemma dvd_power_minus_one: "(m :: int) dvd x ^ i - 1 \<Longrightarrow> m dvd x ^ (i * k) - 1"
proof (induction k)
  case (Suc k)
  have "x ^ (i * Suc k) - 1 = x ^ i * (x ^ (i * k) - 1) + (x ^ i - 1)" by (simp add: power_add algebra_simps)
  then show ?case using Suc by (metis dvd_add dvd_mult)
qed simp

lemma dvd_power_gcd:
  assumes "(m :: int) dvd x ^ i - 1" "m dvd x ^ j - 1"
  shows "m dvd x ^ gcd i j - 1"
  using assms
proof (induction i j rule: gcd_nat_induct)
  case (step i j)
  have "x ^ (i mod j) * (x ^ (j * (i div j)) - 1) + (x ^ (i mod j) - 1) = x ^ (i mod j + j * (i div j)) - 1"
    by (simp only: right_diff_distrib power_add mult_1_right)
  then have "x ^ i - 1 = x ^ (i mod j) * (x ^ (j * (i div j)) - 1) + (x ^ (i mod j) - 1)" by simp
  moreover have "m dvd x ^ (i mod j) * (x ^ (j * (i div j)) - 1)" using dvd_power_minus_one [OF step.prems(2)] by (rule dvd_mult)
  ultimately have "m dvd x ^ (i mod j) - 1" using step.prems(1) by (metis dvd_add_right_iff)
  with step.IH [OF step.prems(2)] show ?case by (simp add: gcd_red_nat [of i j])
qed simp

text \<open>An element of prime order \<open>q\<close>.\<close>

lemma pocklington:
  assumes "is_prime (int q)" "n dvd b ^ q - 1" "coprime (b - 1) n" "is_prime p" "p dvd n"
  shows "int q dvd p - 1"
proof (rule ccontr)
  assume q: "\<not> int q dvd p - 1"
  have p: "1 < p" using assms(4) by (simp add: is_prime_def)
  have pq: "p dvd b ^ q - 1" using assms(2,5) dvd_trans by blast
  have "1 < q" using assms(1) by (simp add: is_prime_def)
  have "\<not> p dvd b"
  proof
    assume "p dvd b"
    then have "p dvd b ^ q" using \<open>1 < q\<close> by (meson dvd_power dvd_trans less_trans zero_less_one)
    from dvd_diff [OF this pq] have "p dvd 1" by simp
    then show False using p by simp
  qed
  then have "p dvd b ^ nat (p - 1) - 1" by (rule fermat [OF assms(4)])
  from dvd_power_gcd [OF pq this] have "p dvd b ^ gcd q (nat (p - 1)) - 1" .
  moreover have "gcd q (nat (p - 1)) = 1"
  proof -
    have "coprime (p - 1) (int q)" using is_prime_coprime [OF assms(1) q] .
    then have "gcd (int q) (p - 1) = 1" by (simp add: coprime_iff_gcd_eq_1 gcd.commute)
    then have "gcd (int q) (int (nat (p - 1))) = 1" using p by simp
    then show ?thesis by (simp only: gcd_int_int_eq)
  qed
  ultimately have "p dvd b - 1" by simp
  then have "p dvd 1" using assms(3,5) by (metis coprime_common_divisor)
  then show False using p by simp
qed

subsection \<open>Checked powers\<close>

text \<open>
  A step squares once for every quotient of its list and multiplies by the entry \<open>t\<close> of the table of odd powers; \<open>mul q\<close>
  is \<open>q\<close> times the modulus, in whatever form is evaluated fastest.
\<close>

definition power_chain :: "(int \<Rightarrow> int) \<Rightarrow> int list \<Rightarrow> (int list \<times> nat \<times> int) list \<Rightarrow> int \<Rightarrow> int" where
  "power_chain mul tab = fold (\<lambda>(qs, t, q) x. fold (\<lambda>q x. x ^ 2 - mul q) qs x * tab ! t - mul q)"

definition power_chain_exponent :: "(int list \<times> nat \<times> int) list \<Rightarrow> nat \<Rightarrow> nat" where
  "power_chain_exponent = fold (\<lambda>(qs, t, q) e. e * 2 ^ length qs + (2 * t + 1))"

definition power_table :: "int \<Rightarrow> int \<Rightarrow> int list \<Rightarrow> bool" where
  "power_table m b tab \<longleftrightarrow> (\<forall>i < length tab. m dvd b ^ (2 * i + 1) - tab ! i)"

lemma dvd_diff_mult:
  fixes m :: int
  assumes "m dvd a - x" "m dvd b - y" "m dvd z"
  shows "m dvd a * b - (x * y - z)"
proof -
  have "a * b - (x * y - z) = (a - x) * b + x * (b - y) + z" by (simp add: algebra_simps)
  then show ?thesis using assms by (simp only: dvd_add dvd_mult dvd_mult2)
qed

lemma power_chain_squares:
  assumes "\<And>q. m dvd mul q" "m dvd b ^ e - (x :: int)"
  shows "m dvd b ^ (e * 2 ^ length qs) - fold (\<lambda>q x. x ^ 2 - mul q) qs x"
  using assms(2)
proof (induction qs arbitrary: e x)
  case (Cons q qs)
  have "m dvd b ^ e * b ^ e - (x * x - mul q)" using Cons.prems Cons.prems assms(1) by (rule dvd_diff_mult)
  then have "m dvd b ^ (e * 2) - (x ^ 2 - mul q)" by (simp add: power_mult power2_eq_square power_mult_distrib)
  from Cons.IH [OF this] show ?case by (simp add: mult.assoc)
qed simp

lemma power_chain_sound:
  assumes "\<And>q. m dvd mul q" "power_table m b tab" "list_all (\<lambda>(qs, t, q). t < length tab) steps" "m dvd b ^ e - x"
  shows "m dvd b ^ power_chain_exponent steps e - power_chain mul tab steps x"
  using assms(3,4)
proof (induction steps arbitrary: e x)
  case (Cons s steps)
  obtain qs t q where s: "s = (qs, t, q)" by (cases s)
  let ?y = "fold (\<lambda>q x. x ^ 2 - mul q) qs x"
  have "m dvd b ^ (2 * t + 1) - tab ! t" using assms(2) Cons.prems(1) by (simp add: power_table_def s)
  from dvd_diff_mult [OF power_chain_squares [OF assms(1) Cons.prems(2)] this assms(1)]
  have "m dvd b ^ (e * 2 ^ length qs + (2 * t + 1)) - (?y * tab ! t - mul q)" by (simp only: power_add)
  from Cons.IH [OF _ this] Cons.prems(1) show ?case by (simp add: power_chain_exponent_def power_chain_def s)
qed (simp add: power_chain_exponent_def power_chain_def)

lemma power_table_single: "power_table m b [b]" by (simp add: power_table_def)

lemma power_table_snoc:
  assumes "power_table m b (ws @ [w])" "m dvd b ^ 2 - c" "m dvd w * c - v"
  shows "power_table m b (ws @ [w, v])"
  unfolding power_table_def
proof (intro allI impI)
  fix i assume i: "i < length (ws @ [w, v])"
  show "m dvd b ^ (2 * i + 1) - (ws @ [w, v]) ! i"
  proof (cases "i \<le> length ws")
    case True
    then have "(ws @ [w, v]) ! i = (ws @ [w]) ! i" by (simp add: nth_append nth_Cons')
    then show ?thesis using assms(1) True by (simp add: power_table_def)
  next
    case False
    then have i: "i = Suc (length ws)" using i by simp
    have "m dvd b ^ (2 * length ws + 1) - w"
      using assms(1) [unfolded power_table_def, THEN spec, of "length ws"] by simp
    from dvd_diff_mult [OF this assms(2) dvd_0_right] have "m dvd b ^ (2 * i + 1) - w * c"
      by (simp add: i power2_eq_square mult.commute mult.left_commute mult.assoc)
    from dvd_add [OF this assms(3)] show ?thesis by (simp add: i nth_append)
  qed
qed

lemma power_table_extend:
  assumes "m dvd b ^ 2 - c" "power_table m b (ws @ [w])" "successively (\<lambda>w v. m dvd w * c - v) (w # vs)"
  shows "power_table m b (ws @ w # vs)"
  using assms(2,3)
proof (induction vs arbitrary: ws w)
  case (Cons v vs)
  have "power_table m b ((ws @ [w]) @ [v])" using power_table_snoc [OF Cons.prems(1) assms(1)] Cons.prems(2) by simp
  from Cons.IH [OF this] Cons.prems(2) show ?case by simp
qed simp

lemma power_tableI:
  "m dvd b ^ 2 - c \<Longrightarrow> successively (\<lambda>w v. m dvd w * c - v) (b # vs) \<Longrightarrow> power_table m b (b # vs)"
  using power_table_extend [of m b c Nil b vs] power_table_single by simp

lemma dvd_by_quotient: "(x :: int) - q * m = y \<Longrightarrow> m dvd x - y"
  by (metis add_diff_cancel_left' diff_add_cancel dvd_triv_right)

lemma coprime_by_inverse: "(u :: int) * a = 1 + v * m \<Longrightarrow> coprime a m"
  by (rule coprimeI) (metis dvd_add_left_iff dvd_mult dvd_mult2)

text \<open>Trial division by odd numbers, with the quotients and remainders given.\<close>

primrec trial :: "int \<Rightarrow> int \<Rightarrow> (int \<times> int) list \<Rightarrow> int" where
  "trial n d [] = d"
| "trial n d (qr # qrs) = (if 0 < snd qr \<and> snd qr < d \<and> fst qr * d + snd qr = n then trial n (d + 2) qrs else 0)"

lemma trial_sound:
  assumes "trial n d qrs = k" "0 < k" "odd d" "odd p" "d \<le> p" "p < k"
  shows "\<not> p dvd n"
  using assms
proof (induction qrs arbitrary: d)
  case (Cons qr qrs)
  obtain q r where qr: "qr = (q, r)" by (cases qr)
  have r: "0 < r" "r < d" "q * d + r = n" using Cons.prems(1,2) by (auto simp: qr split: if_splits)
  show ?case
  proof (cases "p = d")
    case True
    then show ?thesis using r by (metis dvd_add_right_iff dvd_triv_right zdvd_imp_le not_le)
  next
    case False
    then have "d + 2 \<le> p" using Cons.prems(3,4,5) by presburger
    then show ?thesis using Cons.IH [of "d + 2"] Cons.prems r by (simp add: qr)
  qed
qed simp

lemma is_prime_by_trial:
  assumes "trial n 3 qrs = k" "odd n" "1 < n" "n < k * k" "0 < k"
  shows "is_prime n"
proof (rule ccontr)
  assume "\<not> is_prime n"
  then obtain p where p: "is_prime p" "p dvd n" "p * p \<le> n" using assms(3) least_divisor by blast
  have "p < k"
  proof (rule ccontr)
    assume "\<not> p < k"
    then have "k * k \<le> p * p" using assms(5) by (intro mult_mono) simp_all
    then show False using p(3) assms(4) by linarith
  qed
  moreover have "odd p" using p(2) assms(2) dvd_trans by blast
  moreover have "1 < p" using p(1) by (simp add: is_prime_def)
  then have "3 \<le> p" using \<open>odd p\<close> by presburger
  ultimately show False using trial_sound [OF assms(1) assms(5), of p] p(2) by simp
qed

lemma is_prime_distinct_coprime:
  assumes "is_prime p" "is_prime q" "p \<noteq> q"
  shows "coprime p q"
proof (rule is_prime_coprime [OF assms(2)])
  show "\<not> q dvd p" using assms by (metis is_prime_def zdvd_imp_le less_le order_less_trans zero_less_one)
qed

lemma prod_list_dvd:
  assumes "list_all is_prime qs" "distinct qs" "list_all (\<lambda>q. q dvd x) qs"
  shows "prod_list qs dvd x"
  using assms
proof (induction qs)
  case (Cons q qs)
  have "coprime q (prod_list qs)" if "list_all is_prime qs" "q \<notin> set qs" for qs
    using that
  proof (induction qs)
    case (Cons r qs)
    then show ?case using is_prime_distinct_coprime [of q r] \<open>list_all is_prime (q # _)\<close> by simp
  qed simp
  then show ?case using Cons by (simp add: divides_mult)
qed simp

definition of_order :: "int \<Rightarrow> int \<Rightarrow> int \<Rightarrow> bool" where
  "of_order n b q \<longleftrightarrow> is_prime q \<and> n dvd b ^ nat q - 1 \<and> coprime (b - 1) n"

lemma of_orderI: "is_prime q \<Longrightarrow> n dvd b ^ k - 1 \<Longrightarrow> coprime (b - 1) n \<Longrightarrow> int k = q \<Longrightarrow> of_order n b q"
  by (auto simp: of_order_def)

lemma of_order_dvd: "of_order n b q \<Longrightarrow> is_prime p \<Longrightarrow> p dvd n \<Longrightarrow> q dvd p - 1"
  using pocklington [of "nat q" n b p] by (simp add: of_order_def is_prime_def)

lemma is_prime_certificate:
  assumes "list_all (\<lambda>q. \<exists>b. of_order n b q) qs" "distinct qs"
    "prod_list qs = f" "1 < n" "n = c * (f * f) + d * f + 1" "0 \<le> d" "d < f" "n < f * (f * f)"
    "\<And>t. 0 < c \<Longrightarrow> d * d - 4 * c \<noteq> t * t"
  shows "is_prime n"
proof (rule is_prime_by_divisors [OF assms(4-9)])
  show "f dvd p - 1" if "is_prime p" "p dvd n" for p
    unfolding assms(3) [symmetric]
  proof (rule prod_list_dvd [OF _ assms(2)])
    show "list_all is_prime qs" using assms(1) by (auto simp: list_all_iff of_order_def)
    show "list_all (\<lambda>q. q dvd p - 1) qs" using assms(1) of_order_dvd [OF _ that] by (auto simp: list_all_iff)
  qed
qed

lemma power_table_entry: "power_table m b tab \<Longrightarrow> i < length tab \<Longrightarrow> 2 * i + 1 = e \<Longrightarrow> tab ! i = x \<Longrightarrow> m dvd b ^ e - x"
  unfolding power_table_def by blast

lemma nth_Cons_one: "(x # xs) ! 1 = xs ! 0"
  by simp

lemma nth_Cons_pred: "(x # xs) ! numeral k = xs ! pred_numeral k"
  by (simp add: numeral_eq_Suc)

lemmas power_chain_simps = power_chain_def fold_simps case_prod_conv nth_Cons_0 nth_Cons_one nth_Cons_pred pred_numeral_simps
  arith_simps diff_numeral_special mult_1_left mult_1_right power_numeral Num.pow.simps Num.sqr.simps

end
