(* ===== verification/Residues.thy ===== *)
theory Residues
  imports Pocklington Field_P128
begin

text \<open>
  What the residues modulo a prime share, whatever type holds them: inverses, Fermat's theorem in the type, and the
  encoding as little-endian bytes below the modulus. The locale \<open>residues\<close> has the representative and the projection
  as its operations; the base field and the scalar field of P-256 are its instances.
\<close>

subsection \<open>Encodings\<close>

text \<open>\<open>TryFrom<&[u8; 32]>\<close> compares with the modulus from the most significant byte on.\<close>

definition residue_try_from :: "bytes \<Rightarrow> (int \<Rightarrow> 'a) \<Rightarrow> bytes \<Rightarrow> 'a option" where
  "residue_try_from modulus_bytes of_residue value =
     (if length value \<noteq> length modulus_bytes then None
      else if \<not> bytes_less (rev value) (rev modulus_bytes) then None
      else Some (of_residue (int (le_value value))))"

subsection \<open>The interface\<close>

locale residues =
  fixes modulus :: int
    and rep :: "'a :: comm_ring_1 \<Rightarrow> int"
    and of_residue :: "int \<Rightarrow> 'a"
  assumes prime: "is_prime modulus"
    and rep_of_residue: "rep (of_residue x) = x mod modulus"
    and of_residue_rep: "of_residue (rep a) = a"
    and of_residue_add: "of_residue x + of_residue y = of_residue (x + y)"
    and of_residue_diff: "of_residue x - of_residue y = of_residue (x - y)"
    and of_residue_mult: "of_residue x * of_residue y = of_residue (x * y)"
    and of_residue_0: "of_residue 0 = 0"
    and of_residue_1: "of_residue 1 = 1"
begin

lemma modulus_gt_1: "1 < modulus"
  using prime by (simp add: is_prime_def)

lemma of_residue_eq_iff: "of_residue x = of_residue y \<longleftrightarrow> x mod modulus = y mod modulus"
  by (metis of_residue_rep rep_of_residue)

lemma rep_bounds: "0 \<le> rep a" "rep a < modulus"
proof -
  have "rep a = rep a mod modulus" by (metis of_residue_rep rep_of_residue)
  then show "0 \<le> rep a" "rep a < modulus" using modulus_gt_1 by (metis less_trans pos_mod_sign pos_mod_bound zero_less_one)+
qed

lemma of_residue_eq_0: "of_residue x = 0 \<longleftrightarrow> modulus dvd x"
  by (simp add: of_residue_0 [symmetric] of_residue_eq_iff dvd_eq_mod_eq_0)

lemma of_residue_power: "of_residue x ^ n = of_residue (x ^ n)"
  by (induction n) (simp_all add: of_residue_1 of_residue_mult)

lemma of_residue_of_nat: "of_nat n = of_residue (int n)"
proof (induction n)
  case (Suc n)
  have "of_nat (Suc n) = of_residue 1 + of_residue (int n)" using Suc by (simp add: of_residue_1)
  also have "\<dots> = of_residue (int (Suc n))" by (simp add: of_residue_add)
  finally show ?case .
qed (simp add: of_residue_0)

lemma of_nat_nonzero: "0 < n \<Longrightarrow> int n < modulus \<Longrightarrow> of_nat n \<noteq> (0 :: 'a)"
  using zdvd_imp_le [of modulus "int n"] by (auto simp: of_residue_of_nat of_residue_eq_0)

lemma fermat_residue:
  assumes "(a :: 'a) \<noteq> 0"
  shows "a ^ nat (modulus - 1) = 1"
proof -
  have a: "a = of_residue (rep a)" by (simp add: of_residue_rep)
  then have "\<not> modulus dvd rep a" using assms of_residue_eq_0 by metis
  then have "of_residue (rep a ^ nat (modulus - 1)) = of_residue 1"
    using fermat [OF prime] by (simp add: of_residue_eq_iff mod_eq_dvd_iff)
  then show ?thesis using a by (simp add: of_residue_power [symmetric] of_residue_1)
qed

lemma inverse_power:
  assumes "(a :: 'a) \<noteq> 0" "nat (modulus - 1) = Suc k"
  shows "a ^ k * a = 1"
  using fermat_residue [OF assms(1)] by (simp only: assms(2) power_Suc2)

text \<open>The codec, when the modulus fits its bytes.\<close>

lemma try_from_Some:
  assumes "int (le_value mb) = modulus"
  shows "residue_try_from mb of_residue bs = Some a \<longleftrightarrow>
    length bs = length mb \<and> int (le_value bs) < modulus \<and> a = of_residue (int (le_value bs))"
proof -
  have "bytes_less (rev bs) (rev mb) \<longleftrightarrow> int (le_value bs) < modulus" if "length bs = length mb"
    using bytes_less_rev [OF that] assms by linarith
  then show ?thesis by (auto simp: residue_try_from_def)
qed

lemma rep_small: "int (le_value mb) = modulus \<Longrightarrow> nat (rep a) < 256 ^ length mb"
  using rep_bounds [of a] le_value_bound [of mb] by linarith

lemma le_value_encode: "int (le_value mb) = modulus \<Longrightarrow> le_value (le_bytes (length mb) (nat (rep a))) = nat (rep a)"
  by (rule le_value_le_bytes_small) (rule rep_small)

lemma try_from_encode:
  assumes "int (le_value mb) = modulus"
  shows "residue_try_from mb of_residue (le_bytes (length mb) (nat (rep a))) = Some a"
  using rep_bounds [of a] by (simp add: try_from_Some [OF assms] le_value_encode [OF assms] of_residue_rep)

lemma encode_try_from:
  assumes "int (le_value mb) = modulus" "residue_try_from mb of_residue bs = Some a"
  shows "le_bytes (length mb) (nat (rep a)) = bs"
proof -
  have bs: "length bs = length mb" "int (le_value bs) < modulus" "a = of_residue (int (le_value bs))"
    using assms(2) by (simp_all add: try_from_Some [OF assms(1)])
  then have "rep a = int (le_value bs)" by (simp add: rep_of_residue)
  then show ?thesis using le_bytes_le_value [of bs] bs(1) by simp
qed

end

end
