(* ===== verification/P256_Prime.thy ===== *)
theory P256_Prime
  imports Pocklington
begin

text \<open>
  The primality of p = 2^256 - 2^224 + 2^192 + 2^96 - 1, the modulus of the P-256 base field, from primes that divide p - 1.
\<close>

definition p256_times :: "int \<Rightarrow> int" where
  "p256_times q = q * 2 ^ 256 - q * 2 ^ 224 + q * 2 ^ 192 + q * 2 ^ 96 - q"

lemma p256_times_dvd: "115792089210356248762697446949407573530086143415290314195533631308867097853951 dvd p256_times q"
  by (rule dvdI [of _ _ q]) (simp add: p256_times_def)

lemma p256_257_prime: "is_prime 257"
proof (rule is_prime_by_trial)
  show "trial 257 3
    [(85, 2), (51, 2), (36, 5), (28, 5), (23, 4), (19, 10), (17, 2)] = 17"
    by simp
qed simp_all
lemma p256_641_prime: "is_prime 641"
proof (rule is_prime_by_trial)
  show "trial 641 3
    [(213, 2), (128, 1), (91, 4), (71, 2), (58, 3), (49, 4), (42, 11), (37, 12), (33, 14), (30, 11), (27, 20),
     (25, 16)] = 27"
    by simp
qed simp_all
lemma p256_17_prime: "is_prime 17"
proof (rule is_prime_by_trial)
  show "trial 17 3
    [(5, 2)] = 5"
    by simp
qed simp_all

definition p256_1531_order_17_powers :: "int list" where
  "p256_1531_order_17_powers =
    [502]"

lemma p256_1531_order_17_table: "power_table 1531 502 p256_1531_order_17_powers"
  unfolding p256_1531_order_17_powers_def
proof (rule power_tableI)
  show "1531 dvd (502 :: int) ^ 2 - 920"
    by (rule dvd_by_quotient [of _ 164]) (simp only: power2_eq_square arith_simps)
  show "successively (\<lambda>w v. 1531 dvd w * 920 - v) [502]" by simp
qed

definition p256_1531_order_17_steps_0 :: "(int list \<times> nat \<times> int) list" where
  "p256_1531_order_17_steps_0 =
    [([164, 552, 1083, 495], 0, 261)]"

lemma p256_1531_order_17_chain_0: "power_chain (\<lambda>q :: int. q * 1531) p256_1531_order_17_powers p256_1531_order_17_steps_0 502 = 1"
  unfolding p256_1531_order_17_steps_0_def p256_1531_order_17_powers_def by (simp only: power_chain_simps)

lemma p256_1531_order_17_indices: "list_all (\<lambda>(qs, t, q). t < length p256_1531_order_17_powers) (p256_1531_order_17_steps_0)"
  unfolding p256_1531_order_17_powers_def p256_1531_order_17_steps_0_def by simp

lemma p256_1531_order_17_exponent_0: "power_chain_exponent p256_1531_order_17_steps_0 1 = 17"
  by (simp add: power_chain_exponent_def p256_1531_order_17_steps_0_def)

lemma p256_1531_order_17_power: "1531 dvd (502 :: int) ^ 17 - 1"
proof -
  have "1531 dvd (\<lambda>q :: int. q * 1531) q" for q by simp
  note step = power_chain_sound [of _ "(\<lambda>q :: int. q * 1531)", OF this p256_1531_order_17_table]
  have "1531 dvd (502 :: int) ^ 1 - 502"
    by (rule power_table_entry [where i = 0, OF p256_1531_order_17_table]) (simp_all add: p256_1531_order_17_powers_def)
  from step [OF _ this, of p256_1531_order_17_steps_0] p256_1531_order_17_indices
  have "1531 dvd (502 :: int) ^ 17 - 1"
    by (simp only: p256_1531_order_17_chain_0 p256_1531_order_17_exponent_0 list_all_append simp_thms)
  then show ?thesis .
qed

lemma p256_1531_order_17_coprime: "coprime (502 - 1) (1531 :: int)"
  by (rule coprime_by_inverse [of 492 _ 161]) (simp only: arith_simps arith_special diff_numeral_special)

lemma p256_1531_order_17: "of_order 1531 502 17"
  by (rule of_orderI [OF p256_17_prime p256_1531_order_17_power p256_1531_order_17_coprime]) simp

lemma p256_1531_prime: "is_prime 1531"
proof (rule is_prime_certificate [where qs = "[17]" and f = 17 and c = 5 and d = 5])
  show "list_all (\<lambda>q. \<exists>b. of_order 1531 b q) [17]"
    using p256_1531_order_17 by auto
  show "5 * 5 - 4 * 5 \<noteq> t * (t :: int)" if "0 < (5 :: int)" for t
    by (rule square_between [where s = 2]) simp_all
qed simp_all
lemma p256_65537_prime: "is_prime 65537"
proof (rule is_prime_by_trial)
  show "trial 65537 3
    [(21845, 2), (13107, 2), (9362, 3), (7281, 8), (5957, 10), (5041, 4), (4369, 2), (3855, 2), (3449, 6),
     (3120, 17), (2849, 10), (2621, 12), (2427, 8), (2259, 26), (2114, 3), (1985, 32), (1872, 17), (1771, 10),
     (1680, 17), (1598, 19), (1524, 5), (1456, 17), (1394, 19), (1337, 24), (1285, 2), (1236, 29), (1191, 32),
     (1149, 44), (1110, 47), (1074, 23), (1040, 17), (1008, 17), (978, 11), (949, 56), (923, 4), (897, 56),
     (873, 62), (851, 10), (829, 46), (809, 8), (789, 50), (771, 2), (753, 26), (736, 33), (720, 17), (704, 65),
     (689, 82), (675, 62), (661, 98), (648, 89), (636, 29), (624, 17), (612, 53), (601, 28), (590, 47), (579, 110),
     (569, 102), (560, 17), (550, 87), (541, 76), (532, 101), (524, 37), (516, 5), (508, 5), (500, 37), (492, 101),
     (485, 62), (478, 51), (471, 68), (464, 113), (458, 43), (451, 142), (445, 122), (439, 126), (434, 3), (428, 53),
     (422, 127), (417, 68), (412, 29), (407, 10), (402, 11), (397, 32), (392, 73), (387, 134), (383, 44), (378, 143),
     (374, 87), (370, 47), (366, 23), (362, 15), (358, 23), (354, 47), (350, 87), (346, 143), (343, 24), (339, 110),
     (336, 17), (332, 133), (329, 66), (326, 11), (322, 171), (319, 142), (316, 125), (313, 120), (310, 127),
     (307, 146), (304, 177), (302, 3), (299, 56), (296, 121), (293, 198), (291, 62), (288, 161), (286, 43),
     (283, 164), (281, 64), (278, 207), (276, 125), (274, 51), (271, 226), (269, 170), (267, 122), (265, 82),
     (263, 50), (261, 26), (259, 10), (257, 2)] = 257"
    by simp
qed simp_all
lemma p256_7_prime: "is_prime 7"
proof (rule is_prime_by_trial)
  show "trial 7 3
    [] = 3"
    by simp
qed simp_all
lemma p256_53_prime: "is_prime 53"
proof (rule is_prime_by_trial)
  show "trial 53 3
    [(17, 2), (10, 3), (7, 4)] = 9"
    by simp
qed simp_all

definition p256_490463_order_7_powers :: "int list" where
  "p256_490463_order_7_powers =
    [429752]"

lemma p256_490463_order_7_table: "power_table 490463 429752 p256_490463_order_7_powers"
  unfolding p256_490463_order_7_powers_def
proof (rule power_tableI)
  show "490463 dvd (429752 :: int) ^ 2 - 486539"
    by (rule dvd_by_quotient [of _ 376555]) (simp only: power2_eq_square arith_simps)
  show "successively (\<lambda>w v. 490463 dvd w * 486539 - v) [429752]" by simp
qed

definition p256_490463_order_7_steps_0 :: "(int list \<times> nat \<times> int) list" where
  "p256_490463_order_7_steps_0 =
    [([376555], 0, 426313),
     ([257543], 0, 214561)]"

lemma p256_490463_order_7_chain_0: "power_chain (\<lambda>q :: int. q * 490463) p256_490463_order_7_powers p256_490463_order_7_steps_0 429752 = 1"
  unfolding p256_490463_order_7_steps_0_def p256_490463_order_7_powers_def by (simp only: power_chain_simps)

lemma p256_490463_order_7_indices: "list_all (\<lambda>(qs, t, q). t < length p256_490463_order_7_powers) (p256_490463_order_7_steps_0)"
  unfolding p256_490463_order_7_powers_def p256_490463_order_7_steps_0_def by simp

lemma p256_490463_order_7_exponent_0: "power_chain_exponent p256_490463_order_7_steps_0 1 = 7"
  by (simp add: power_chain_exponent_def p256_490463_order_7_steps_0_def)

lemma p256_490463_order_7_power: "490463 dvd (429752 :: int) ^ 7 - 1"
proof -
  have "490463 dvd (\<lambda>q :: int. q * 490463) q" for q by simp
  note step = power_chain_sound [of _ "(\<lambda>q :: int. q * 490463)", OF this p256_490463_order_7_table]
  have "490463 dvd (429752 :: int) ^ 1 - 429752"
    by (rule power_table_entry [where i = 0, OF p256_490463_order_7_table]) (simp_all add: p256_490463_order_7_powers_def)
  from step [OF _ this, of p256_490463_order_7_steps_0] p256_490463_order_7_indices
  have "490463 dvd (429752 :: int) ^ 7 - 1"
    by (simp only: p256_490463_order_7_chain_0 p256_490463_order_7_exponent_0 list_all_append simp_thms)
  then show ?thesis .
qed

lemma p256_490463_order_7_coprime: "coprime (429752 - 1) (490463 :: int)"
  by (rule coprime_by_inverse [of 222442 _ 194907]) (simp only: arith_simps arith_special diff_numeral_special)

lemma p256_490463_order_7: "of_order 490463 429752 7"
  by (rule of_orderI [OF p256_7_prime p256_490463_order_7_power p256_490463_order_7_coprime]) simp

definition p256_490463_order_53_powers :: "int list" where
  "p256_490463_order_53_powers =
    [190016]"

lemma p256_490463_order_53_table: "power_table 490463 190016 p256_490463_order_53_powers"
  unfolding p256_490463_order_53_powers_def
proof (rule power_tableI)
  show "490463 dvd (190016 :: int) ^ 2 - 156048"
    by (rule dvd_by_quotient [of _ 73616]) (simp only: power2_eq_square arith_simps)
  show "successively (\<lambda>w v. 490463 dvd w * 156048 - v) [190016]" by simp
qed

definition p256_490463_order_53_steps_0 :: "(int list \<times> nat \<times> int) list" where
  "p256_490463_order_53_steps_0 =
    [([73616], 0, 60456),
     ([70264, 205361], 0, 184134),
     ([13197, 86442], 0, 103201)]"

lemma p256_490463_order_53_chain_0: "power_chain (\<lambda>q :: int. q * 490463) p256_490463_order_53_powers p256_490463_order_53_steps_0 190016 = 1"
  unfolding p256_490463_order_53_steps_0_def p256_490463_order_53_powers_def by (simp only: power_chain_simps)

lemma p256_490463_order_53_indices: "list_all (\<lambda>(qs, t, q). t < length p256_490463_order_53_powers) (p256_490463_order_53_steps_0)"
  unfolding p256_490463_order_53_powers_def p256_490463_order_53_steps_0_def by simp

lemma p256_490463_order_53_exponent_0: "power_chain_exponent p256_490463_order_53_steps_0 1 = 53"
  by (simp add: power_chain_exponent_def p256_490463_order_53_steps_0_def)

lemma p256_490463_order_53_power: "490463 dvd (190016 :: int) ^ 53 - 1"
proof -
  have "490463 dvd (\<lambda>q :: int. q * 490463) q" for q by simp
  note step = power_chain_sound [of _ "(\<lambda>q :: int. q * 490463)", OF this p256_490463_order_53_table]
  have "490463 dvd (190016 :: int) ^ 1 - 190016"
    by (rule power_table_entry [where i = 0, OF p256_490463_order_53_table]) (simp_all add: p256_490463_order_53_powers_def)
  from step [OF _ this, of p256_490463_order_53_steps_0] p256_490463_order_53_indices
  have "490463 dvd (190016 :: int) ^ 53 - 1"
    by (simp only: p256_490463_order_53_chain_0 p256_490463_order_53_exponent_0 list_all_append simp_thms)
  then show ?thesis .
qed

lemma p256_490463_order_53_coprime: "coprime (190016 - 1) (490463 :: int)"
  by (rule coprime_by_inverse [of 427619 _ 165668]) (simp only: arith_simps arith_special diff_numeral_special)

lemma p256_490463_order_53: "of_order 490463 190016 53"
  by (rule of_orderI [OF p256_53_prime p256_490463_order_53_power p256_490463_order_53_coprime]) simp

lemma p256_490463_prime: "is_prime 490463"
proof (rule is_prime_certificate [where qs = "[7, 53]" and f = 371 and c = 3 and d = 209])
  show "list_all (\<lambda>q. \<exists>b. of_order 490463 b q) [7, 53]"
    using p256_490463_order_7 p256_490463_order_53 by auto
  show "209 * 209 - 4 * 3 \<noteq> t * (t :: int)" if "0 < (3 :: int)" for t
    by (rule square_between [where s = 208]) simp_all
qed simp_all
lemma p256_727_prime: "is_prime 727"
proof (rule is_prime_by_trial)
  show "trial 727 3
    [(242, 1), (145, 2), (103, 6), (80, 7), (66, 1), (55, 12), (48, 7), (42, 13), (38, 5), (34, 13), (31, 14), (29, 2)] = 27"
    by simp
qed simp_all

definition p256_17449_order_727_powers :: "int list" where
  "p256_17449_order_727_powers =
    [8727, 6559]"

lemma p256_17449_order_727_table: "power_table 17449 8727 p256_17449_order_727_powers"
  unfolding p256_17449_order_727_powers_def
proof (rule power_tableI)
  show "17449 dvd (8727 :: int) ^ 2 - 13093"
    by (rule dvd_by_quotient [of _ 4364]) (simp only: power2_eq_square arith_simps)
  have "17449 dvd (8727 :: int) * 13093 - 6559"
    by (rule dvd_by_quotient [of _ 6548]) (simp only: arith_simps)
  then show "successively (\<lambda>w v. 17449 dvd (w :: int) * 13093 - v)
    [8727, 6559]"
    by (simp only: successively.simps simp_thms)
qed

definition p256_17449_order_727_steps_0 :: "(int list \<times> nat \<times> int) list" where
  "p256_17449_order_727_steps_0 =
    [([4364, 9824, 3374], 1, 752),
     ([14724, 5464], 0, 6946),
     ([4188, 4630, 10062], 1, 6451),
     ([4256], 0, 3491)]"

lemma p256_17449_order_727_chain_0: "power_chain (\<lambda>q :: int. q * 17449) p256_17449_order_727_powers p256_17449_order_727_steps_0 8727 = 1"
  unfolding p256_17449_order_727_steps_0_def p256_17449_order_727_powers_def by (simp only: power_chain_simps)

lemma p256_17449_order_727_indices: "list_all (\<lambda>(qs, t, q). t < length p256_17449_order_727_powers) (p256_17449_order_727_steps_0)"
  unfolding p256_17449_order_727_powers_def p256_17449_order_727_steps_0_def by simp

lemma p256_17449_order_727_exponent_0: "power_chain_exponent p256_17449_order_727_steps_0 1 = 727"
  by (simp add: power_chain_exponent_def p256_17449_order_727_steps_0_def)

lemma p256_17449_order_727_power: "17449 dvd (8727 :: int) ^ 727 - 1"
proof -
  have "17449 dvd (\<lambda>q :: int. q * 17449) q" for q by simp
  note step = power_chain_sound [of _ "(\<lambda>q :: int. q * 17449)", OF this p256_17449_order_727_table]
  have "17449 dvd (8727 :: int) ^ 1 - 8727"
    by (rule power_table_entry [where i = 0, OF p256_17449_order_727_table]) (simp_all add: p256_17449_order_727_powers_def)
  from step [OF _ this, of p256_17449_order_727_steps_0] p256_17449_order_727_indices
  have "17449 dvd (8727 :: int) ^ 727 - 1"
    by (simp only: p256_17449_order_727_chain_0 p256_17449_order_727_exponent_0 list_all_append simp_thms)
  then show ?thesis .
qed

lemma p256_17449_order_727_coprime: "coprime (8727 - 1) (17449 :: int)"
  by (rule coprime_by_inverse [of 5817 _ 2909]) (simp only: arith_simps arith_special diff_numeral_special)

lemma p256_17449_order_727: "of_order 17449 8727 727"
  by (rule of_orderI [OF p256_727_prime p256_17449_order_727_power p256_17449_order_727_coprime]) simp

lemma p256_17449_prime: "is_prime 17449"
proof (rule is_prime_certificate [where qs = "[727]" and f = 727 and c = 0 and d = 24])
  show "list_all (\<lambda>q. \<exists>b. of_order 17449 b q) [727]"
    using p256_17449_order_727 by auto
  show "24 * 24 - 4 * 0 \<noteq> t * (t :: int)" if "0 < (0 :: int)" for t
    using that by simp
qed simp_all

definition p256_6700417_order_17449_powers :: "int list" where
  "p256_6700417_order_17449_powers =
    [5846540, 540050]"

lemma p256_6700417_order_17449_table: "power_table 6700417 5846540 p256_6700417_order_17449_powers"
  unfolding p256_6700417_order_17449_powers_def
proof (rule power_tableI)
  show "6700417 dvd (5846540 :: int) ^ 2 - 55274"
    by (rule dvd_by_quotient [of _ 5101478]) (simp only: power2_eq_square arith_simps)
  have "6700417 dvd (5846540 :: int) * 55274 - 540050"
    by (rule dvd_by_quotient [of _ 48230]) (simp only: arith_simps)
  then show "successively (\<lambda>w v. 6700417 dvd (w :: int) * 55274 - v)
    [5846540, 540050]"
    by (simp only: successively.simps simp_thms)
qed

definition p256_6700417_order_17449_steps_0 :: "(int list \<times> nat \<times> int) list" where
  "p256_6700417_order_17449_steps_0 =
    [([5101478, 455, 6354839, 2268166], 0, 4255930),
     ([3467695, 17669, 3466230, 1747250, 537404], 0, 1509472),
     ([292224, 6576576], 0, 3332383),
     ([339017, 1456972, 4226294], 0, 3810487)]"

lemma p256_6700417_order_17449_chain_0: "power_chain (\<lambda>q :: int. q * 6700417) p256_6700417_order_17449_powers p256_6700417_order_17449_steps_0 5846540 = 1"
  unfolding p256_6700417_order_17449_steps_0_def p256_6700417_order_17449_powers_def by (simp only: power_chain_simps)

lemma p256_6700417_order_17449_indices: "list_all (\<lambda>(qs, t, q). t < length p256_6700417_order_17449_powers) (p256_6700417_order_17449_steps_0)"
  unfolding p256_6700417_order_17449_powers_def p256_6700417_order_17449_steps_0_def by simp

lemma p256_6700417_order_17449_exponent_0: "power_chain_exponent p256_6700417_order_17449_steps_0 1 = 17449"
  by (simp add: power_chain_exponent_def p256_6700417_order_17449_steps_0_def)

lemma p256_6700417_order_17449_power: "6700417 dvd (5846540 :: int) ^ 17449 - 1"
proof -
  have "6700417 dvd (\<lambda>q :: int. q * 6700417) q" for q by simp
  note step = power_chain_sound [of _ "(\<lambda>q :: int. q * 6700417)", OF this p256_6700417_order_17449_table]
  have "6700417 dvd (5846540 :: int) ^ 1 - 5846540"
    by (rule power_table_entry [where i = 0, OF p256_6700417_order_17449_table]) (simp_all add: p256_6700417_order_17449_powers_def)
  from step [OF _ this, of p256_6700417_order_17449_steps_0] p256_6700417_order_17449_indices
  have "6700417 dvd (5846540 :: int) ^ 17449 - 1"
    by (simp only: p256_6700417_order_17449_chain_0 p256_6700417_order_17449_exponent_0 list_all_append simp_thms)
  then show ?thesis .
qed

lemma p256_6700417_order_17449_coprime: "coprime (5846540 - 1) (6700417 :: int)"
  by (rule coprime_by_inverse [of 4499094 _ 3925745]) (simp only: arith_simps arith_special diff_numeral_special)

lemma p256_6700417_order_17449: "of_order 6700417 5846540 17449"
  by (rule of_orderI [OF p256_17449_prime p256_6700417_order_17449_power p256_6700417_order_17449_coprime]) simp

lemma p256_6700417_prime: "is_prime 6700417"
proof (rule is_prime_certificate [where qs = "[17449]" and f = 17449 and c = 0 and d = 384])
  show "list_all (\<lambda>q. \<exists>b. of_order 6700417 b q) [17449]"
    using p256_6700417_order_17449 by auto
  show "384 * 384 - 4 * 0 \<noteq> t * (t :: int)" if "0 < (0 :: int)" for t
    using that by simp
qed simp_all

definition p256_order_257_powers :: "int list" where
  "p256_order_257_powers =
    [81534748329365073191290293312071197319266666423009596939518486037156429642953,
     1663910522658774362301602311292397315983125190258510547152525749419503202451]"

lemma p256_order_257_table: "power_table 115792089210356248762697446949407573530086143415290314195533631308867097853951 81534748329365073191290293312071197319266666423009596939518486037156429642953 p256_order_257_powers"
  unfolding p256_order_257_powers_def
proof (rule power_tableI)
  show "115792089210356248762697446949407573530086143415290314195533631308867097853951 dvd (81534748329365073191290293312071197319266666423009596939518486037156429642953 :: int) ^ 2 - 21194367881429656650597717619214601767690962542456473344219721622372068389368"
    by (rule dvd_by_quotient [of _ 57412516092147012535684746913562623082472873121552793599508867530875983076391]) (simp only: power2_eq_square arith_simps)
  have "115792089210356248762697446949407573530086143415290314195533631308867097853951 dvd (81534748329365073191290293312071197319266666423009596939518486037156429642953 :: int) * 21194367881429656650597717619214601767690962542456473344219721622372068389368 - 1663910522658774362301602311292397315983125190258510547152525749419503202451"
    by (rule dvd_by_quotient [of _ 14923968148402569254029745885064066416685292287892478756225862198974638429403]) (simp only: arith_simps)
  then show "successively (\<lambda>w v. 115792089210356248762697446949407573530086143415290314195533631308867097853951 dvd (w :: int) * 21194367881429656650597717619214601767690962542456473344219721622372068389368 - v)
    [81534748329365073191290293312071197319266666423009596939518486037156429642953,
     1663910522658774362301602311292397315983125190258510547152525749419503202451]"
    by (simp only: successively.simps simp_thms)
qed

definition p256_order_257_steps_0 :: "(int list \<times> nat \<times> int) list" where
  "p256_order_257_steps_0 =
    [([57412516092147012535684746913562623082472873121552793599508867530875983076391,
      3879377537418171340584413695052999823418872220583356433708730985894927737683,
      100440527526145907172701871030124295077768563141468470964913823098763113285760,
      56919904589112825016233220007447851332631988888786985309416242784461457502879,
      18368264163336869153146551212038462227836557894406498086631729821778692601510,
      53510376424997046199698867006031019188055015282941746141752797788770602238719,
      108930672738384973824088688898929468531082987700824211914707315992448864743981,
      3071368006834656446992449308351429016898233228343549155163773589087070195654], 0,
      49782945720399223117137644583816820265313956630843561682232394006028034387719)]"

lemma p256_order_257_chain_0: "power_chain p256_times p256_order_257_powers p256_order_257_steps_0 81534748329365073191290293312071197319266666423009596939518486037156429642953 = 1"
  unfolding p256_order_257_steps_0_def p256_order_257_powers_def by (simp only: p256_times_def power_chain_simps)

lemma p256_order_257_indices: "list_all (\<lambda>(qs, t, q). t < length p256_order_257_powers) (p256_order_257_steps_0)"
  unfolding p256_order_257_powers_def p256_order_257_steps_0_def by simp

lemma p256_order_257_exponent_0: "power_chain_exponent p256_order_257_steps_0 1 = 257"
  by (simp add: power_chain_exponent_def p256_order_257_steps_0_def)

lemma p256_order_257_power: "115792089210356248762697446949407573530086143415290314195533631308867097853951 dvd (81534748329365073191290293312071197319266666423009596939518486037156429642953 :: int) ^ 257 - 1"
proof -
  have "115792089210356248762697446949407573530086143415290314195533631308867097853951 dvd p256_times q" for q by (rule p256_times_dvd)
  note step = power_chain_sound [of _ "p256_times", OF this p256_order_257_table]
  have "115792089210356248762697446949407573530086143415290314195533631308867097853951 dvd (81534748329365073191290293312071197319266666423009596939518486037156429642953 :: int) ^ 1 - 81534748329365073191290293312071197319266666423009596939518486037156429642953"
    by (rule power_table_entry [where i = 0, OF p256_order_257_table]) (simp_all add: p256_order_257_powers_def)
  from step [OF _ this, of p256_order_257_steps_0] p256_order_257_indices
  have "115792089210356248762697446949407573530086143415290314195533631308867097853951 dvd (81534748329365073191290293312071197319266666423009596939518486037156429642953 :: int) ^ 257 - 1"
    by (simp only: p256_order_257_chain_0 p256_order_257_exponent_0 list_all_append simp_thms)
  then show ?thesis .
qed

lemma p256_order_257_coprime: "coprime (81534748329365073191290293312071197319266666423009596939518486037156429642953 - 1) (115792089210356248762697446949407573530086143415290314195533631308867097853951 :: int)"
  by (rule coprime_by_inverse [of 62280038832925576975829179054726466017393601894770033612286284096307110905178 _ 43854354186153711515920369000033447382487050767006474561031016662014924470705]) (simp only: arith_simps arith_special diff_numeral_special)

lemma p256_order_257: "of_order 115792089210356248762697446949407573530086143415290314195533631308867097853951 81534748329365073191290293312071197319266666423009596939518486037156429642953 257"
  by (rule of_orderI [OF p256_257_prime p256_order_257_power p256_order_257_coprime]) simp

definition p256_order_641_powers :: "int list" where
  "p256_order_641_powers =
    [6688327673256181995200489625412494432771414379175044712931788098489014578058,
     63828997039842876776530270913940908007506626216824972927527333546864466121676]"

lemma p256_order_641_table: "power_table 115792089210356248762697446949407573530086143415290314195533631308867097853951 6688327673256181995200489625412494432771414379175044712931788098489014578058 p256_order_641_powers"
  unfolding p256_order_641_powers_def
proof (rule power_tableI)
  show "115792089210356248762697446949407573530086143415290314195533631308867097853951 dvd (6688327673256181995200489625412494432771414379175044712931788098489014578058 :: int) ^ 2 - 44883645075193440787237255653127153387127190181937830105422799266892946704329"
    by (rule dvd_by_quotient [of _ 386328007119535971192979737915796176979924692785326957563108043687857021285]) (simp only: power2_eq_square arith_simps)
  have "115792089210356248762697446949407573530086143415290314195533631308867097853951 dvd (6688327673256181995200489625412494432771414379175044712931788098489014578058 :: int) * 44883645075193440787237255653127153387127190181937830105422799266892946704329 - 63828997039842876776530270913940908007506626216824972927527333546864466121676"
    by (rule dvd_by_quotient [of _ 2592547793896923380753894538020474755503052380420346286430836508689613102706]) (simp only: arith_simps)
  then show "successively (\<lambda>w v. 115792089210356248762697446949407573530086143415290314195533631308867097853951 dvd (w :: int) * 44883645075193440787237255653127153387127190181937830105422799266892946704329 - v)
    [6688327673256181995200489625412494432771414379175044712931788098489014578058,
     63828997039842876776530270913940908007506626216824972927527333546864466121676]"
    by (simp only: successively.simps simp_thms)
qed

definition p256_order_641_steps_0 :: "(int list \<times> nat \<times> int) list" where
  "p256_order_641_steps_0 =
    [([386328007119535971192979737915796176979924692785326957563108043687857021285,
      17397920781757163556992179569337600011761840097946695793380673855248171389343], 0,
      1885500909196106602807348811612776087248560645181245268502468024638695619753),
     ([26671614754588368612890131696130298412289408079607932944467424866253320136071,
      107984618847329070238745657404712236585245156540700246041764857680398883274806,
      1427613694537749271428829446655262835802463687743422861653975016948864351793,
      85506022691526699132240298142459533952434261526911389452080656423667966355199,
      14322194398633202121962575644131258296120156610406381892811388405591432815486,
      102513850341423987901088763849703424584016166388032655660059077594253202175780,
      83368681151574341782935253759609449908272956022805939625713095796729553337461], 0,
      1248187794400495588555224727812693536280745152893933222937710949916823675759)]"

lemma p256_order_641_chain_0: "power_chain p256_times p256_order_641_powers p256_order_641_steps_0 6688327673256181995200489625412494432771414379175044712931788098489014578058 = 1"
  unfolding p256_order_641_steps_0_def p256_order_641_powers_def by (simp only: p256_times_def power_chain_simps)

lemma p256_order_641_indices: "list_all (\<lambda>(qs, t, q). t < length p256_order_641_powers) (p256_order_641_steps_0)"
  unfolding p256_order_641_powers_def p256_order_641_steps_0_def by simp

lemma p256_order_641_exponent_0: "power_chain_exponent p256_order_641_steps_0 1 = 641"
  by (simp add: power_chain_exponent_def p256_order_641_steps_0_def)

lemma p256_order_641_power: "115792089210356248762697446949407573530086143415290314195533631308867097853951 dvd (6688327673256181995200489625412494432771414379175044712931788098489014578058 :: int) ^ 641 - 1"
proof -
  have "115792089210356248762697446949407573530086143415290314195533631308867097853951 dvd p256_times q" for q by (rule p256_times_dvd)
  note step = power_chain_sound [of _ "p256_times", OF this p256_order_641_table]
  have "115792089210356248762697446949407573530086143415290314195533631308867097853951 dvd (6688327673256181995200489625412494432771414379175044712931788098489014578058 :: int) ^ 1 - 6688327673256181995200489625412494432771414379175044712931788098489014578058"
    by (rule power_table_entry [where i = 0, OF p256_order_641_table]) (simp_all add: p256_order_641_powers_def)
  from step [OF _ this, of p256_order_641_steps_0] p256_order_641_indices
  have "115792089210356248762697446949407573530086143415290314195533631308867097853951 dvd (6688327673256181995200489625412494432771414379175044712931788098489014578058 :: int) ^ 641 - 1"
    by (simp only: p256_order_641_chain_0 p256_order_641_exponent_0 list_all_append simp_thms)
  then show ?thesis .
qed

lemma p256_order_641_coprime: "coprime (6688327673256181995200489625412494432771414379175044712931788098489014578058 - 1) (115792089210356248762697446949407573530086143415290314195533631308867097853951 :: int)"
  by (rule coprime_by_inverse [of 3120136052566252819589832042119023288357782237979451906064430714506309802089 _ 180223817076069574844649197644821771308843471568852582107116712109260606672]) (simp only: arith_simps arith_special diff_numeral_special)

lemma p256_order_641: "of_order 115792089210356248762697446949407573530086143415290314195533631308867097853951 6688327673256181995200489625412494432771414379175044712931788098489014578058 641"
  by (rule of_orderI [OF p256_641_prime p256_order_641_power p256_order_641_coprime]) simp

definition p256_order_1531_powers :: "int list" where
  "p256_order_1531_powers =
    [64295465817666414584350355284589339653862075092681367020126764502644604907568,
     39451823867391753602581622972152816188552261554144273453668271470984275286158]"

lemma p256_order_1531_table: "power_table 115792089210356248762697446949407573530086143415290314195533631308867097853951 64295465817666414584350355284589339653862075092681367020126764502644604907568 p256_order_1531_powers"
  unfolding p256_order_1531_powers_def
proof (rule power_tableI)
  show "115792089210356248762697446949407573530086143415290314195533631308867097853951 dvd (64295465817666414584350355284589339653862075092681367020126764502644604907568 :: int) ^ 2 - 11021863330491412880837693601705309096678050914311912396912803273341295539468"
    by (rule dvd_by_quotient [of _ 35701117001186128533684756590444241550521898938025437288796145128209080658956]) (simp only: power2_eq_square arith_simps)
  have "115792089210356248762697446949407573530086143415290314195533631308867097853951 dvd (64295465817666414584350355284589339653862075092681367020126764502644604907568 :: int) * 11021863330491412880837693601705309096678050914311912396912803273341295539468 - 39451823867391753602581622972152816188552261554144273453668271470984275286158"
    by (rule dvd_by_quotient [of _ 6120071257417303433323328652408513501258677023317645655726677958159056741966]) (simp only: arith_simps)
  then show "successively (\<lambda>w v. 115792089210356248762697446949407573530086143415290314195533631308867097853951 dvd (w :: int) * 11021863330491412880837693601705309096678050914311912396912803273341295539468 - v)
    [64295465817666414584350355284589339653862075092681367020126764502644604907568,
     39451823867391753602581622972152816188552261554144273453668271470984275286158]"
    by (simp only: successively.simps simp_thms)
qed

definition p256_order_1531_steps_0 :: "(int list \<times> nat \<times> int) list" where
  "p256_order_1531_steps_0 =
    [([35701117001186128533684756590444241550521898938025437288796145128209080658956,
      1049134462504940818041745046985087390019053796514614207986793177840761244300,
      27777279336479829911083716069080591858249885509410333480317934038954239745542], 1,
      33377373448221739196625143834415605016704405906547318919996327595879958006563),
     ([530122278646914168916543967935338881391241429482997284606452733282694380786,
      43951150555040802085798337399410719577213163871651251058197577645324382544385], 1,
      33287454161603797569755229157429829438305286916592293399637268645663923279290),
     ([38468192757578185873940310630401722440923062355336137206779816740216038844322,
      68735324244731980991445144264981301278571418847344602994775758851584029719071], 1,
      14571334485894304104437604151388898301275189629522330016695054407690353610057),
     ([80327967317313262027474766987984614316349138245834181414397147373734151027867,
      54623356466341454262811853932574376717099395822486914945852462773439282123414,
      96852591432515439089230496756725753542919937580787607366958449087309062599557], 1,
      6757175852583420300402417671427880649066865840054794788851998807550113349443)]"

lemma p256_order_1531_chain_0: "power_chain p256_times p256_order_1531_powers p256_order_1531_steps_0 64295465817666414584350355284589339653862075092681367020126764502644604907568 = 1"
  unfolding p256_order_1531_steps_0_def p256_order_1531_powers_def by (simp only: p256_times_def power_chain_simps)

lemma p256_order_1531_indices: "list_all (\<lambda>(qs, t, q). t < length p256_order_1531_powers) (p256_order_1531_steps_0)"
  unfolding p256_order_1531_powers_def p256_order_1531_steps_0_def by simp

lemma p256_order_1531_exponent_0: "power_chain_exponent p256_order_1531_steps_0 1 = 1531"
  by (simp add: power_chain_exponent_def p256_order_1531_steps_0_def)

lemma p256_order_1531_power: "115792089210356248762697446949407573530086143415290314195533631308867097853951 dvd (64295465817666414584350355284589339653862075092681367020126764502644604907568 :: int) ^ 1531 - 1"
proof -
  have "115792089210356248762697446949407573530086143415290314195533631308867097853951 dvd p256_times q" for q by (rule p256_times_dvd)
  note step = power_chain_sound [of _ "p256_times", OF this p256_order_1531_table]
  have "115792089210356248762697446949407573530086143415290314195533631308867097853951 dvd (64295465817666414584350355284589339653862075092681367020126764502644604907568 :: int) ^ 1 - 64295465817666414584350355284589339653862075092681367020126764502644604907568"
    by (rule power_table_entry [where i = 0, OF p256_order_1531_table]) (simp_all add: p256_order_1531_powers_def)
  from step [OF _ this, of p256_order_1531_steps_0] p256_order_1531_indices
  have "115792089210356248762697446949407573530086143415290314195533631308867097853951 dvd (64295465817666414584350355284589339653862075092681367020126764502644604907568 :: int) ^ 1531 - 1"
    by (simp only: p256_order_1531_chain_0 p256_order_1531_exponent_0 list_all_append simp_thms)
  then show ?thesis .
qed

lemma p256_order_1531_coprime: "coprime (64295465817666414584350355284589339653862075092681367020126764502644604907568 - 1) (115792089210356248762697446949407573530086143415290314195533631308867097853951 :: int)"
  by (rule coprime_by_inverse [of 14964151782915132362421343043271841132196952657395407750516349273969956749325 _ 8309091890560178301022533895857735256458900541342754414754284016456758594974]) (simp only: arith_simps arith_special diff_numeral_special)

lemma p256_order_1531: "of_order 115792089210356248762697446949407573530086143415290314195533631308867097853951 64295465817666414584350355284589339653862075092681367020126764502644604907568 1531"
  by (rule of_orderI [OF p256_1531_prime p256_order_1531_power p256_order_1531_coprime]) simp

definition p256_order_65537_powers :: "int list" where
  "p256_order_65537_powers =
    [89089418767273818568928962900880700362915423258114912483257252245434771309638,
     27466058939960171203980693891647845761866919579013465005352165081219679471928]"

lemma p256_order_65537_table: "power_table 115792089210356248762697446949407573530086143415290314195533631308867097853951 89089418767273818568928962900880700362915423258114912483257252245434771309638 p256_order_65537_powers"
  unfolding p256_order_65537_powers_def
proof (rule power_tableI)
  show "115792089210356248762697446949407573530086143415290314195533631308867097853951 dvd (89089418767273818568928962900880700362915423258114912483257252245434771309638 :: int) ^ 2 - 115150316613259439024566499550406988820534823144262317324729765907288538140114"
    by (rule dvd_by_quotient [of _ 68544618120430418471081395038057108037895928040679303024136588947481345952430]) (simp only: power2_eq_square arith_simps)
  have "115792089210356248762697446949407573530086143415290314195533631308867097853951 dvd (89089418767273818568928962900880700362915423258114912483257252245434771309638 :: int) * 115150316613259439024566499550406988820534823144262317324729765907288538140114 - 27466058939960171203980693891647845761866919579013465005352165081219679471928"
    by (rule dvd_by_quotient [of _ 88595644554838199677983188614055236855566472370393838821769830433716316781004]) (simp only: arith_simps)
  then show "successively (\<lambda>w v. 115792089210356248762697446949407573530086143415290314195533631308867097853951 dvd (w :: int) * 115150316613259439024566499550406988820534823144262317324729765907288538140114 - v)
    [89089418767273818568928962900880700362915423258114912483257252245434771309638,
     27466058939960171203980693891647845761866919579013465005352165081219679471928]"
    by (simp only: successively.simps simp_thms)
qed

definition p256_order_65537_steps_0 :: "(int list \<times> nat \<times> int) list" where
  "p256_order_65537_steps_0 =
    [([68544618120430418471081395038057108037895928040679303024136588947481345952430,
      114512101012751888053705409115474331555743899189980624266196455231730254647655,
      1949038905942557660707949341934530481578422762203112533524471837955457826,
      10378014800167776376418147926117981111854240800485209929658901443278347973595,
      58777717025643685391929946172055323875956529569445776817894613096354583799891,
      596931891578316986433820197314979810586158021301545273679539158177116908987,
      73246872260949868631070455457756850211595173352940758453589266195880102131826,
      79481030322515070729429741175281593215824885399093597056052761288129593044623,
      25164449621186543962563107242289606973592541539037997024858728070514956911572,
      27039881582493624167530678713660898159650915694831490396021123994006143661982,
      50745556805982090846657741948620069001438297186234345756663407396184229014052,
      93048570431229470196615253949830577694793241453364109432350278873135712702621,
      3840377340388272176309917943474968045646410511996469676566416870278042523730,
      44113654922268696354636663711518944352615758626101181640445133244579221632528,
      31472357982595063606696592097262773852379941346806861703864835081119842842975,
      72142381186238363832888904322320215172118354442285004007078719653883215471639], 0,
      16742445919700401062258604865427089915588969327769440942705630421181589519025)]"

lemma p256_order_65537_chain_0: "power_chain p256_times p256_order_65537_powers p256_order_65537_steps_0 89089418767273818568928962900880700362915423258114912483257252245434771309638 = 1"
  unfolding p256_order_65537_steps_0_def p256_order_65537_powers_def by (simp only: p256_times_def power_chain_simps)

lemma p256_order_65537_indices: "list_all (\<lambda>(qs, t, q). t < length p256_order_65537_powers) (p256_order_65537_steps_0)"
  unfolding p256_order_65537_powers_def p256_order_65537_steps_0_def by simp

lemma p256_order_65537_exponent_0: "power_chain_exponent p256_order_65537_steps_0 1 = 65537"
  by (simp add: power_chain_exponent_def p256_order_65537_steps_0_def)

lemma p256_order_65537_power: "115792089210356248762697446949407573530086143415290314195533631308867097853951 dvd (89089418767273818568928962900880700362915423258114912483257252245434771309638 :: int) ^ 65537 - 1"
proof -
  have "115792089210356248762697446949407573530086143415290314195533631308867097853951 dvd p256_times q" for q by (rule p256_times_dvd)
  note step = power_chain_sound [of _ "p256_times", OF this p256_order_65537_table]
  have "115792089210356248762697446949407573530086143415290314195533631308867097853951 dvd (89089418767273818568928962900880700362915423258114912483257252245434771309638 :: int) ^ 1 - 89089418767273818568928962900880700362915423258114912483257252245434771309638"
    by (rule power_table_entry [where i = 0, OF p256_order_65537_table]) (simp_all add: p256_order_65537_powers_def)
  from step [OF _ this, of p256_order_65537_steps_0] p256_order_65537_indices
  have "115792089210356248762697446949407573530086143415290314195533631308867097853951 dvd (89089418767273818568928962900880700362915423258114912483257252245434771309638 :: int) ^ 65537 - 1"
    by (simp only: p256_order_65537_chain_0 p256_order_65537_exponent_0 list_all_append simp_thms)
  then show ?thesis .
qed

lemma p256_order_65537_coprime: "coprime (89089418767273818568928962900880700362915423258114912483257252245434771309638 - 1) (115792089210356248762697446949407573530086143415290314195533631308867097853951 :: int)"
  by (rule coprime_by_inverse [of 63715752585572383110942257635038828762850660836636923497464070660092788925561 _ 49022341706400267902849680024087114434496058234730848094471954106011597965156]) (simp only: arith_simps arith_special diff_numeral_special)

lemma p256_order_65537: "of_order 115792089210356248762697446949407573530086143415290314195533631308867097853951 89089418767273818568928962900880700362915423258114912483257252245434771309638 65537"
  by (rule of_orderI [OF p256_65537_prime p256_order_65537_power p256_order_65537_coprime]) simp

definition p256_order_490463_powers :: "int list" where
  "p256_order_490463_powers =
    [113192698100657062240441272750361840561171878878270904272941971552565314748628,
     85442791924545042373627202610176733184658138891389520267812932838300680639971]"

lemma p256_order_490463_table: "power_table 115792089210356248762697446949407573530086143415290314195533631308867097853951 113192698100657062240441272750361840561171878878270904272941971552565314748628 p256_order_490463_powers"
  unfolding p256_order_490463_powers_def
proof (rule power_tableI)
  show "115792089210356248762697446949407573530086143415290314195533631308867097853951 dvd (113192698100657062240441272750361840561171878878270904272941971552565314748628 :: int) ^ 2 - 45896504164856271748573234234253572436052872958568558511015424029891496100239"
    by (rule dvd_by_quotient [of _ 110651660149513536777234095904378144776020779875449097272213139810329633296895]) (simp only: power2_eq_square arith_simps)
  have "115792089210356248762697446949407573530086143415290314195533631308867097853951 dvd (113192698100657062240441272750361840561171878878270904272941971552565314748628 :: int) * 45896504164856271748573234234253572436052872958568558511015424029891496100239 - 85442791924545042373627202610176733184658138891389520267812932838300680639971"
    by (rule dvd_by_quotient [of _ 44866183650683108141583203372861531302790581136363325120244494028664992631671]) (simp only: arith_simps)
  then show "successively (\<lambda>w v. 115792089210356248762697446949407573530086143415290314195533631308867097853951 dvd (w :: int) * 45896504164856271748573234234253572436052872958568558511015424029891496100239 - v)
    [113192698100657062240441272750361840561171878878270904272941971552565314748628,
     85442791924545042373627202610176733184658138891389520267812932838300680639971]"
    by (simp only: successively.simps simp_thms)
qed

definition p256_order_490463_steps_0 :: "(int list \<times> nat \<times> int) list" where
  "p256_order_490463_steps_0 =
    [([63048095441118940840502278198107862316264538074453543937600118378839803549436], 0,
      10280013881427987490285262090688516325460117684778218101423952096629798455863),
     ([65223479301828929054562061275636724945768197342938838409750242714703341873723,
      6668460776362056110876496840954422146838826589249074066371588732962764691440,
      88865093400477120387157530567038996910238669701145892763238533146254573307944], 1,
      1074500132770904840109242884547904940598047736697757785328166276503199272145),
     ([22307015852526087233468343899079032959071348020069049202623892967634311976846,
      705988847147269395736825067123997713088886045806161864823755027538976860092], 1,
      55376551366984967874215798047191956944910114244251458160783268558704103955348),
     ([17251984223629697539155238123684389897329169654088563320434807565462162175049,
      112248978942099492066578001479995895949187930287036353727148274533417658589577,
      16638042002267920748459804339417166450998461152984105512667548550268733296819], 1,
      47795021017567110354281654283485694672562828081439373067174713176181055674157),
     ([42526104925319728535008377398130114277769541246613847922683696461670959676123,
      117214102554778194981974886727706493852026255978198624534730416016802376565], 1,
      20621484569652331423398537758789462233858479930030669739758623294297363310304),
     ([44755765156210425271075084220207130790256513255960035770380910695238373464018,
      4146946355710213277900632079401465112585098771873391114264706843946438791898,
      4059673715189077156460169936551040913732132206424641607621409411082460797561], 1,
      67408845146366444627551433013049471183314166585024082518056853727463240908512),
     ([4789371365581070019680907687867622956278575737942320024299001514968223150339,
      41649586208967251022779745500159210742132157564434462898766070341230442970305], 1,
      13800818315899799725186187145979249256777705285557692405672137640166511731754),
     ([6131686627440721090609283143114169457358543121240889203905437940805694327174], 0,
      76922992706055295339535917272081534124247177281991519719959558626221426547977)]"

lemma p256_order_490463_chain_0: "power_chain p256_times p256_order_490463_powers p256_order_490463_steps_0 85442791924545042373627202610176733184658138891389520267812932838300680639971 = 1"
  unfolding p256_order_490463_steps_0_def p256_order_490463_powers_def by (simp only: p256_times_def power_chain_simps)

lemma p256_order_490463_indices: "list_all (\<lambda>(qs, t, q). t < length p256_order_490463_powers) (p256_order_490463_steps_0)"
  unfolding p256_order_490463_powers_def p256_order_490463_steps_0_def by simp

lemma p256_order_490463_exponent_0: "power_chain_exponent p256_order_490463_steps_0 3 = 490463"
  by (simp add: power_chain_exponent_def p256_order_490463_steps_0_def)

lemma p256_order_490463_power: "115792089210356248762697446949407573530086143415290314195533631308867097853951 dvd (113192698100657062240441272750361840561171878878270904272941971552565314748628 :: int) ^ 490463 - 1"
proof -
  have "115792089210356248762697446949407573530086143415290314195533631308867097853951 dvd p256_times q" for q by (rule p256_times_dvd)
  note step = power_chain_sound [of _ "p256_times", OF this p256_order_490463_table]
  have "115792089210356248762697446949407573530086143415290314195533631308867097853951 dvd (113192698100657062240441272750361840561171878878270904272941971552565314748628 :: int) ^ 3 - 85442791924545042373627202610176733184658138891389520267812932838300680639971"
    by (rule power_table_entry [where i = 1, OF p256_order_490463_table]) (simp_all add: p256_order_490463_powers_def)
  from step [OF _ this, of p256_order_490463_steps_0] p256_order_490463_indices
  have "115792089210356248762697446949407573530086143415290314195533631308867097853951 dvd (113192698100657062240441272750361840561171878878270904272941971552565314748628 :: int) ^ 490463 - 1"
    by (simp only: p256_order_490463_chain_0 p256_order_490463_exponent_0 list_all_append simp_thms)
  then show ?thesis .
qed

lemma p256_order_490463_coprime: "coprime (113192698100657062240441272750361840561171878878270904272941971552565314748628 - 1) (115792089210356248762697446949407573530086143415290314195533631308867097853951 :: int)"
  by (rule coprime_by_inverse [of 40900708320435510661869085969000458189226728617867244476120592820487088204148 _ 39982537326945647917295317598452331994459859481871141486567142483740048627045]) (simp only: arith_simps arith_special diff_numeral_special)

lemma p256_order_490463: "of_order 115792089210356248762697446949407573530086143415290314195533631308867097853951 113192698100657062240441272750361840561171878878270904272941971552565314748628 490463"
  by (rule of_orderI [OF p256_490463_prime p256_order_490463_power p256_order_490463_coprime]) simp

definition p256_order_6700417_powers :: "int list" where
  "p256_order_6700417_powers =
    [54636728488999325549987002922360602553208223340192944360598553034238958074300,
     66433499934588771751878747903768736003568258371503643687213373559556905409943]"

lemma p256_order_6700417_table: "power_table 115792089210356248762697446949407573530086143415290314195533631308867097853951 54636728488999325549987002922360602553208223340192944360598553034238958074300 p256_order_6700417_powers"
  unfolding p256_order_6700417_powers_def
proof (rule power_tableI)
  show "115792089210356248762697446949407573530086143415290314195533631308867097853951 dvd (54636728488999325549987002922360602553208223340192944360598553034238958074300 :: int) ^ 2 - 86834299615864844679279329034755894906338790071077762965077869400217848264033"
    by (rule dvd_by_quotient [of _ 25780449427400449530469486879376122555115038127683507731605216082390980948817]) (simp only: power2_eq_square arith_simps)
  have "115792089210356248762697446949407573530086143415290314195533631308867097853951 dvd (54636728488999325549987002922360602553208223340192944360598553034238958074300 :: int) * 86834299615864844679279329034755894906338790071077762965077869400217848264033 - 66433499934588771751878747903768736003568258371503643687213373559556905409943"
    by (rule dvd_by_quotient [of _ 40972937650563610483847349413188078160301674773481916837011112709757695529307]) (simp only: arith_simps)
  then show "successively (\<lambda>w v. 115792089210356248762697446949407573530086143415290314195533631308867097853951 dvd (w :: int) * 86834299615864844679279329034755894906338790071077762965077869400217848264033 - v)
    [54636728488999325549987002922360602553208223340192944360598553034238958074300,
     66433499934588771751878747903768736003568258371503643687213373559556905409943]"
    by (simp only: successively.simps simp_thms)
qed

definition p256_order_6700417_steps_0 :: "(int list \<times> nat \<times> int) list" where
  "p256_order_6700417_steps_0 =
    [([38114951925094710329494319298699625752073156504783434232250716959456934224606,
      112986922806762904891892105070885443743169871959607163691976330807166710797633,
      60244888150477552927908062241074246527003921667417352008111045300117995670225,
      103083595222646716572067847213910776279103076112958389467669146480304155812985], 1,
      4959050206272970759810392648284807779262596297015142733578240137678393088063),
     ([96096247567076453541064627850923336937566902702956269911453264574124653330933,
      102922648418677749467197583055875320229034072521077470214684668786589729954176,
      26650695449589706994159619032125473210747838502880291993872052820134920390901,
      2652336608408047582042683334318755826867119194026470447720583179160365009183,
      183555413216680098864251612826210289060112959979097506587336620422827123279], 1,
      62789026564042654155627432067800131525985661634024360676471177701007786115811),
     ([1805220461143967514469388197465845605601630134073488145957219425821745110395,
      65286612406478969223339097940465325031298272146511585254480950664468203766710], 1,
      53705669961825891729728936696734143442063287273675577629848477236625600003514),
     ([69676128860435088432457973093910016512235946761040473496027175710192846750906,
      45935411544212727711795742697243615368324889433359169365296844610026612600783,
      70562363851692602934385318130949134959229730082990014556686659458655607092865], 1,
      21113012610270526829907748447260240711928024444631085875861446389604656276017),
     ([12138235305476180693596312745688277062816173893376464994416439293546714116299,
      110806531394721915009197737724607272930037444341431486754316917961411219691127,
      28129586295782125491349429739734453644428004904760816144037601726180133397707,
      61489695298884087207925633182661976795289555156132738404681176598500263619103,
      3499660341214397533235841247358221017712639332559916784578743736606528809007,
      23843908361032050708626066596542213323144597931463109777172595268204994992505,
      93581883680679092072567393281812242579698720579951070726781027032466515853058], 0,
      4230718124569220575890398911396071133901139759958387125450686639190927821849)]"

lemma p256_order_6700417_chain_0: "power_chain p256_times p256_order_6700417_powers p256_order_6700417_steps_0 66433499934588771751878747903768736003568258371503643687213373559556905409943 = 1"
  unfolding p256_order_6700417_steps_0_def p256_order_6700417_powers_def by (simp only: p256_times_def power_chain_simps)

lemma p256_order_6700417_indices: "list_all (\<lambda>(qs, t, q). t < length p256_order_6700417_powers) (p256_order_6700417_steps_0)"
  unfolding p256_order_6700417_powers_def p256_order_6700417_steps_0_def by simp

lemma p256_order_6700417_exponent_0: "power_chain_exponent p256_order_6700417_steps_0 3 = 6700417"
  by (simp add: power_chain_exponent_def p256_order_6700417_steps_0_def)

lemma p256_order_6700417_power: "115792089210356248762697446949407573530086143415290314195533631308867097853951 dvd (54636728488999325549987002922360602553208223340192944360598553034238958074300 :: int) ^ 6700417 - 1"
proof -
  have "115792089210356248762697446949407573530086143415290314195533631308867097853951 dvd p256_times q" for q by (rule p256_times_dvd)
  note step = power_chain_sound [of _ "p256_times", OF this p256_order_6700417_table]
  have "115792089210356248762697446949407573530086143415290314195533631308867097853951 dvd (54636728488999325549987002922360602553208223340192944360598553034238958074300 :: int) ^ 3 - 66433499934588771751878747903768736003568258371503643687213373559556905409943"
    by (rule power_table_entry [where i = 1, OF p256_order_6700417_table]) (simp_all add: p256_order_6700417_powers_def)
  from step [OF _ this, of p256_order_6700417_steps_0] p256_order_6700417_indices
  have "115792089210356248762697446949407573530086143415290314195533631308867097853951 dvd (54636728488999325549987002922360602553208223340192944360598553034238958074300 :: int) ^ 6700417 - 1"
    by (simp only: p256_order_6700417_chain_0 p256_order_6700417_exponent_0 list_all_append simp_thms)
  then show ?thesis .
qed

lemma p256_order_6700417_coprime: "coprime (54636728488999325549987002922360602553208223340192944360598553034238958074300 - 1) (115792089210356248762697446949407573530086143415290314195533631308867097853951 :: int)"
  by (rule coprime_by_inverse [of 31825380093057744492790462519660004043525891529022585478641447006562051609368 _ 15016869140729534764841607168847654733870160965918553140914568171327235913081]) (simp only: arith_simps arith_special diff_numeral_special)

lemma p256_order_6700417: "of_order 115792089210356248762697446949407573530086143415290314195533631308867097853951 54636728488999325549987002922360602553208223340192944360598553034238958074300 6700417"
  by (rule of_orderI [OF p256_6700417_prime p256_order_6700417_power p256_order_6700417_coprime]) simp

lemma p256_prime: "is_prime 115792089210356248762697446949407573530086143415290314195533631308867097853951"
proof (rule is_prime_certificate [where qs = "[257, 641, 1531, 65537, 490463, 6700417]" and f = 54320152809933528481756069 and c = 39242523215692268910203460 and d = 40163218616330075284665810])
  show "list_all (\<lambda>q. \<exists>b. of_order 115792089210356248762697446949407573530086143415290314195533631308867097853951 b q) [257, 641, 1531, 65537, 490463, 6700417]"
    using p256_order_257 p256_order_641 p256_order_1531 p256_order_65537 p256_order_490463 p256_order_6700417 by auto
  show "40163218616330075284665810 * 40163218616330075284665810 - 4 * 39242523215692268910203460 \<noteq> t * (t :: int)" if "0 < (39242523215692268910203460 :: int)" for t
    by (rule square_between [where s = 40163218616330075284665808]) simp_all
qed simp_all

end
