(* ===== verification/Field_P256.thy ===== *)
theory Field_P256
  imports Residues P256_Prime
begin

text \<open>
  The base field of P-256, \<open>src/src/fields/fieldp256/mod.rs\<close>. An element is its residue below the modulus; the Montgomery
  form in which the source keeps it and the fiat-crypto routines on that form are not modelled. The modulus is prime
  (\<open>P256_Prime\<close>), so \<open>p256m2_exp\<close> inverts, and \<open>p256_sqrt\<close> finds a square root exactly when there is one.
\<close>

subsection \<open>The field\<close>

definition p256_modulus :: int where
  "p256_modulus = 0xffffffff00000001000000000000000000000000ffffffffffffffffffffffff"

definition p256_modulus_bytes :: bytes where
  "p256_modulus_bytes =
     [0xff, 0xff, 0xff, 0xff, 0xff, 0xff, 0xff, 0xff, 0xff, 0xff, 0xff, 0xff, 0x00, 0x00, 0x00, 0x00,
      0x00, 0x00, 0x00, 0x00, 0x00, 0x00, 0x00, 0x00, 0x01, 0x00, 0x00, 0x00, 0xff, 0xff, 0xff, 0xff]"

typedef fp256 = "{0 ..< p256_modulus}"
  morphisms p256_as_residue Abs_fp256
  by (rule exI [of _ 0]) (simp add: p256_modulus_def)

setup_lifting type_definition_fp256

lemma p256_mod_range: "x mod p256_modulus \<in> {0 ..< p256_modulus}"
  by (simp add: p256_modulus_def)

text \<open>\<open>from_u128\<close>.\<close>

lift_definition p256_of_int :: "int \<Rightarrow> fp256" is "\<lambda>x. x mod p256_modulus"
  by (rule p256_mod_range)

instantiation fp256 :: comm_ring_1
begin

lift_definition zero_fp256 :: fp256 is 0 by (simp add: p256_modulus_def)
lift_definition one_fp256 :: fp256 is 1 by (simp add: p256_modulus_def)
lift_definition plus_fp256 :: "fp256 \<Rightarrow> fp256 \<Rightarrow> fp256" is "\<lambda>x y. (x + y) mod p256_modulus"
  by (rule p256_mod_range)
lift_definition minus_fp256 :: "fp256 \<Rightarrow> fp256 \<Rightarrow> fp256" is "\<lambda>x y. (x - y) mod p256_modulus"
  by (rule p256_mod_range)
lift_definition uminus_fp256 :: "fp256 \<Rightarrow> fp256" is "\<lambda>x. (- x) mod p256_modulus"
  by (rule p256_mod_range)
lift_definition times_fp256 :: "fp256 \<Rightarrow> fp256 \<Rightarrow> fp256" is "\<lambda>x y. (x * y) mod p256_modulus"
  by (rule p256_mod_range)

instance
  by standard (transfer; simp add: mod_simps algebra_simps p256_modulus_def)+

end

instantiation fp256 :: equal
begin

lift_definition equal_fp256 :: "fp256 \<Rightarrow> fp256 \<Rightarrow> bool" is "\<lambda>x y. x = y" .

instance
  by standard (transfer, rule refl)

end

interpretation p256: residues p256_modulus p256_as_residue p256_of_int
proof
  show "is_prime p256_modulus" using p256_prime by (simp only: p256_modulus_def)
  show "p256_as_residue (p256_of_int x) = x mod p256_modulus" for x by transfer (rule refl)
  show "p256_of_int (p256_as_residue a) = a" for a by transfer simp
qed (transfer; simp add: mod_simps p256_modulus_def)+

lemma p256m2_exp_inverse: "x \<noteq> (0 :: fp256) \<Longrightarrow> p256m2_exp x * x = 1"
  unfolding p256m2_exp_power by (rule p256.inverse_power) (simp_all add: p256_modulus_def)

instantiation fp256 :: field
begin

definition inverse_fp256 :: "fp256 \<Rightarrow> fp256" where
  "inverse_fp256 x = p256m2_exp x"

definition divide_fp256 :: "fp256 \<Rightarrow> fp256 \<Rightarrow> fp256" where
  "divide_fp256 x y = x * p256m2_exp y"

instance
proof
  fix x y :: fp256
  show "x \<noteq> 0 \<Longrightarrow> inverse x * x = 1" by (simp add: inverse_fp256_def p256m2_exp_inverse)
  show "x div y = x * inverse y" by (simp only: inverse_fp256_def divide_fp256_def)
  show "inverse (0 :: fp256) = 0" unfolding inverse_fp256_def p256m2_exp_power by (rule zero_power) simp
qed

end

subsection \<open>Encoding\<close>

definition p256_from_bytes :: "bytes \<Rightarrow> fp256" where
  "p256_from_bytes bs = p256_of_int (int (le_value bs))"

definition p256_try_from :: "bytes \<Rightarrow> fp256 option" where
  "p256_try_from = residue_try_from p256_modulus_bytes p256_of_int"

text \<open>\<open>try_from_bytes_const\<close> compares in a loop, from index 31 down.\<close>

fun bytes_below :: "bytes \<Rightarrow> bytes \<Rightarrow> nat \<Rightarrow> bool" where
  "bytes_below modulus_bytes v i =
     (if modulus_bytes ! i < v ! i then False
      else if v ! i < modulus_bytes ! i then True
      else if i = 0 then False
      else bytes_below modulus_bytes v (i - 1))"

declare bytes_below.simps [simp del]

definition p256_try_from_bytes_const :: "bytes \<Rightarrow> fp256 option" where
  "p256_try_from_bytes_const value =
     (if bytes_below p256_modulus_bytes value 31 then Some (p256_from_bytes value) else None)"

definition p256_encode :: "fp256 \<Rightarrow> bytes" where
  "p256_encode self = le_bytes 32 (nat (p256_as_residue self))"

subsection \<open>Square roots\<close>

definition p256_sqrt :: "fp256 \<Rightarrow> fp256 option" where
  "p256_sqrt self =
     (let candidate = p256sqrt_exp self in if candidate * candidate = self then Some candidate else None)"

subsection \<open>Constants\<close>

definition p256_half_bytes :: bytes where
  "p256_half_bytes =
     [0x00, 0x00, 0x00, 0x00, 0x00, 0x00, 0x00, 0x00, 0x00, 0x00, 0x00, 0x80, 0x00, 0x00, 0x00, 0x00,
      0x00, 0x00, 0x00, 0x00, 0x00, 0x00, 0x00, 0x80, 0x00, 0x00, 0x00, 0x80, 0xff, 0xff, 0xff, 0x7f]"

definition p256_minus_one_bytes :: bytes where
  "p256_minus_one_bytes =
     [0xfe, 0xff, 0xff, 0xff, 0xff, 0xff, 0xff, 0xff, 0xff, 0xff, 0xff, 0xff, 0x00, 0x00, 0x00, 0x00,
      0x00, 0x00, 0x00, 0x00, 0x00, 0x00, 0x00, 0x00, 0x01, 0x00, 0x00, 0x00, 0xff, 0xff, 0xff, 0xff]"

subsection \<open>Lemmas\<close>

lemma p256_modulus_bytes_value: "int (le_value p256_modulus_bytes) = p256_modulus" "length p256_modulus_bytes = 32"
  by (simp_all add: p256_modulus_bytes_def p256_modulus_def)

lemma bytes_below_less:
  assumes "i < length mb" "length v = length mb"
  shows "bytes_below mb v i \<longleftrightarrow> bytes_less (rev (take (Suc i) v)) (rev (take (Suc i) mb))"
  using assms
proof (induction i)
  case (Suc i)
  have "take (Suc (Suc i)) v = take (Suc i) v @ [v ! Suc i]" "take (Suc (Suc i)) mb = take (Suc i) mb @ [mb ! Suc i]"
    using Suc.prems by (simp_all add: take_Suc_conv_app_nth)
  with Suc show ?case by (auto simp: bytes_below.simps [of mb v "Suc i"])
qed (auto simp: bytes_below.simps take_Suc_conv_app_nth)

lemma p256_try_from_const: "length v = 32 \<Longrightarrow> p256_try_from_bytes_const v = p256_try_from v"
  using bytes_below_less [of 31 p256_modulus_bytes v] p256_modulus_bytes_value(2)
  by (simp add: p256_try_from_bytes_const_def p256_try_from_def residue_try_from_def p256_from_bytes_def)

lemma p256_try_from_encode: "p256_try_from (p256_encode x) = Some x"
  using p256.try_from_encode [OF p256_modulus_bytes_value(1), of x] p256_modulus_bytes_value(2)
  by (simp add: p256_try_from_def p256_encode_def)

lemma p256_encode_try_from: "p256_try_from bs = Some x \<Longrightarrow> p256_encode x = bs"
  using p256.encode_try_from [OF p256_modulus_bytes_value(1), of bs x] p256_modulus_bytes_value(2)
  by (simp add: p256_try_from_def p256_encode_def)

lemma p256_sqrt_Some: "p256_sqrt x = Some y \<Longrightarrow> y * y = x"
  by (simp add: p256_sqrt_def Let_def split: if_splits)

lemma p256_sqrt_square: "\<exists>z. p256_sqrt (y * y) = Some z \<and> z * z = y * y"
proof (cases "y = 0")
  case True
  have "p256sqrt_exp (0 :: fp256) = 0" unfolding p256sqrt_exp_power by (rule zero_power) simp
  then show ?thesis using True by (simp add: p256_sqrt_def)
next
  case False
  let ?k = "28948022302589062190674361737351893382521535853822578548883407827216774463488 :: nat"
  have e: "2 * (2 * ?k) = Suc (Suc (nat (p256_modulus - 1)))" by (simp add: p256_modulus_def)
  have "((y * y) ^ ?k) * ((y * y) ^ ?k) = (y ^ 2) ^ (2 * ?k)"
    by (simp only: power2_eq_square power_add [symmetric] mult_2)
  also have "\<dots> = y ^ Suc (Suc (nat (p256_modulus - 1)))"
    by (simp only: power_mult [symmetric] e)
  also have "\<dots> = y * y" using p256.fermat_residue [OF False] by simp
  finally show ?thesis by (simp add: p256_sqrt_def p256sqrt_exp_power)
qed

theorem p256_sqrt_total: "p256_sqrt x = None \<longleftrightarrow> (\<forall>y. y * y \<noteq> x)"
  using p256_sqrt_square p256_sqrt_Some by (metis not_None_eq option.distinct(1))

lemma p256_of_int_2: "p256_of_int 2 = 1 + 1"
  using p256.of_residue_add [of 1 1] by (simp add: p256.of_residue_1)

lemma p256_constant_values:
  "int (le_value p256_half_bytes) = 57896044605178124381348723474703786765043071707645157097766815654433548926976"
  "int (le_value p256_minus_one_bytes) = p256_modulus - 1"
  by (simp_all add: p256_half_bytes_def p256_minus_one_bytes_def p256_modulus_def)

lemma p256_half: "p256_of_int 2 * p256_from_bytes p256_half_bytes = 1"
  unfolding p256_from_bytes_def p256_constant_values p256.of_residue_mult p256.of_residue_1 [symmetric] p256.of_residue_eq_iff
  by (simp add: p256_modulus_def)

end
