(* ===== verification/P256_Code.thy ===== *)
theory P256_Code
  imports Field_Element Field_P256 P128_Code
begin

text \<open>
  The quadratic extension of \<open>src/src/fields/quadratic_extension.rs\<close>, pairs over a base ring with \<open>x ^ 2 = - 1\<close>. The
  product is Karatsuba's; the square and the inverse have routines of their own. The parameter \<open>mul_inv\<close> is the base
  field's method.
\<close>

datatype 'a quadratic_extension = Quadratic (qe_real: 'a) (qe_imag: 'a)

definition qe_add :: "'a :: comm_ring_1 quadratic_extension \<Rightarrow> 'a quadratic_extension \<Rightarrow> 'a quadratic_extension" where
  "qe_add self rhs = Quadratic (qe_real self + qe_real rhs) (qe_imag self + qe_imag rhs)"

definition qe_sub :: "'a :: comm_ring_1 quadratic_extension \<Rightarrow> 'a quadratic_extension \<Rightarrow> 'a quadratic_extension" where
  "qe_sub self rhs = Quadratic (qe_real self - qe_real rhs) (qe_imag self - qe_imag rhs)"

definition qe_neg :: "'a :: comm_ring_1 quadratic_extension \<Rightarrow> 'a quadratic_extension" where
  "qe_neg self = Quadratic (- qe_real self) (- qe_imag self)"

definition qe_mul :: "'a :: comm_ring_1 quadratic_extension \<Rightarrow> 'a quadratic_extension \<Rightarrow> 'a quadratic_extension" where
  "qe_mul self rhs =
     (let r1 = qe_real self * qe_real rhs;
          r4 = qe_imag self * qe_imag rhs;
          p_prime = qe_real self + qe_imag self;
          q_prime = qe_real rhs + qe_imag rhs;
          s = p_prime * q_prime;
          t = s - r1 - r4
      in Quadratic (r1 - r4) t)"

instantiation quadratic_extension :: (comm_ring_1) comm_ring_1
begin

definition zero_quadratic_extension :: "'a quadratic_extension" where "zero_quadratic_extension = Quadratic 0 0"
definition one_quadratic_extension :: "'a quadratic_extension" where "one_quadratic_extension = Quadratic 1 0"
definition plus_quadratic_extension :: "'a quadratic_extension \<Rightarrow> 'a quadratic_extension \<Rightarrow> 'a quadratic_extension" where
  "plus_quadratic_extension = qe_add"
definition minus_quadratic_extension :: "'a quadratic_extension \<Rightarrow> 'a quadratic_extension \<Rightarrow> 'a quadratic_extension" where
  "minus_quadratic_extension = qe_sub"
definition uminus_quadratic_extension :: "'a quadratic_extension \<Rightarrow> 'a quadratic_extension" where
  "uminus_quadratic_extension = qe_neg"
definition times_quadratic_extension :: "'a quadratic_extension \<Rightarrow> 'a quadratic_extension \<Rightarrow> 'a quadratic_extension" where
  "times_quadratic_extension = qe_mul"

lemmas quadratic_defs = zero_quadratic_extension_def one_quadratic_extension_def plus_quadratic_extension_def qe_add_def
  minus_quadratic_extension_def qe_sub_def uminus_quadratic_extension_def qe_neg_def times_quadratic_extension_def qe_mul_def

instance
  by standard (simp_all add: quadratic_defs Let_def algebra_simps quadratic_extension.expand)

end

definition qe_square :: "'a :: comm_ring_1 quadratic_extension \<Rightarrow> 'a quadratic_extension" where
  "qe_square self =
     (let cross = qe_real self * qe_imag self
      in Quadratic (qe_real self * qe_real self - qe_imag self * qe_imag self) (cross + cross))"

definition qe_mul_inv :: "('a :: comm_ring_1 \<Rightarrow> 'a) \<Rightarrow> 'a quadratic_extension \<Rightarrow> 'a quadratic_extension" where
  "qe_mul_inv mul_inv self =
     (let numerator = Quadratic (qe_real self) (- qe_imag self);
          denominator = qe_real self * qe_real self + qe_imag self * qe_imag self;
          denom_inv = Quadratic (mul_inv denominator) 0
      in numerator * denom_inv)"

text \<open>The schoolbook product.\<close>

lemma quadratic_times: "Quadratic a b * Quadratic c d = Quadratic (a * c - b * d) (a * d + b * c)"
  by (simp add: times_quadratic_extension_def qe_mul_def algebra_simps)

lemma qe_square_times: "qe_square x = x * x"
  by (cases x) (simp add: qe_square_def quadratic_times mult.commute)

lemma quadratic_simps:
  "Quadratic a b + Quadratic c d = Quadratic (a + c) (b + d)"
  "Quadratic a b - Quadratic c d = Quadratic (a - c) (b - d)"
  "- Quadratic a b = Quadratic (- a) (- b)"
  by (simp_all add: quadratic_defs)

text \<open>The inverse, in a base field in which a sum of two squares vanishes only trivially.\<close>

lemma qe_mul_inv_inverse:
  assumes "\<And>a. a \<noteq> 0 \<Longrightarrow> mul_inv a * a = (1 :: 'a :: comm_ring_1)"
    and "\<And>a b :: 'a. a * a + b * b = 0 \<Longrightarrow> a = 0 \<and> b = 0" "x \<noteq> 0"
  shows "qe_mul_inv mul_inv x * x = 1"
proof (cases x)
  case (Quadratic a b)
  have "a * a + b * b \<noteq> 0" using assms(2) [of a b] assms(3) Quadratic
    by (metis zero_quadratic_extension_def)
  from assms(1) [OF this] obtain c where c: "mul_inv (a * a + b * b) = c" "c * (a * a + b * b) = 1" by blast
  have "qe_mul_inv mul_inv x = Quadratic (a * c) (- b * c)"
    by (simp add: qe_mul_inv_def Quadratic quadratic_times c(1))
  then have "qe_mul_inv mul_inv x * x = Quadratic (c * (a * a + b * b)) 0"
    by (simp add: Quadratic quadratic_times algebra_simps)
  then show ?thesis by (simp only: c(2) one_quadratic_extension_def)
qed

section \<open>Field P256 2\<close>

text \<open>
  The quadratic extension of the P-256 base field, \<open>src/src/fields/fieldp256_2.rs\<close>. Minus one is no square modulo
  the modulus, so the extension is a field; it has the roots of unity of order 2^31 that the base field lacks. The
  root of the tables has norm one, so its powers are followed in the real part alone.
\<close>

datatype fp256_2 = FieldP256_2 (p256_2_inner: "fp256 quadratic_extension")

definition p256_2_new :: "fp256 \<Rightarrow> fp256 \<Rightarrow> fp256_2" where
  "p256_2_new real imag = FieldP256_2 (Quadratic real imag)"

instantiation fp256_2 :: comm_ring_1
begin

definition zero_fp256_2 :: fp256_2 where "zero_fp256_2 = FieldP256_2 0"
definition one_fp256_2 :: fp256_2 where "one_fp256_2 = FieldP256_2 1"
definition plus_fp256_2 :: "fp256_2 \<Rightarrow> fp256_2 \<Rightarrow> fp256_2" where
  "plus_fp256_2 self rhs = FieldP256_2 (p256_2_inner self + p256_2_inner rhs)"
definition minus_fp256_2 :: "fp256_2 \<Rightarrow> fp256_2 \<Rightarrow> fp256_2" where
  "minus_fp256_2 self rhs = FieldP256_2 (p256_2_inner self - p256_2_inner rhs)"
definition uminus_fp256_2 :: "fp256_2 \<Rightarrow> fp256_2" where
  "uminus_fp256_2 self = FieldP256_2 (- p256_2_inner self)"
definition times_fp256_2 :: "fp256_2 \<Rightarrow> fp256_2 \<Rightarrow> fp256_2" where
  "times_fp256_2 self rhs = FieldP256_2 (p256_2_inner self * p256_2_inner rhs)"

lemmas fp256_2_defs = zero_fp256_2_def one_fp256_2_def plus_fp256_2_def minus_fp256_2_def uminus_fp256_2_def times_fp256_2_def

instance
  by standard (simp_all add: fp256_2_defs algebra_simps fp256_2.expand)

end

definition p256_2_square_const :: "fp256_2 \<Rightarrow> fp256_2" where
  "p256_2_square_const self =
     (let cross = qe_real (p256_2_inner self) * qe_imag (p256_2_inner self)
      in FieldP256_2 (Quadratic
           (qe_real (p256_2_inner self) * qe_real (p256_2_inner self) - qe_imag (p256_2_inner self) * qe_imag (p256_2_inner self))
           (cross + cross)))"

definition p256_2_mul_inv :: "fp256_2 \<Rightarrow> fp256_2" where
  "p256_2_mul_inv self = FieldP256_2 (qe_mul_inv p256m2_exp (p256_2_inner self))"

subsection \<open>Roots of unity\<close>

definition p256_2_root_real_bytes :: bytes where
  "p256_2_root_real_bytes =
     [0xb7, 0x79, 0x06, 0x7f, 0x66, 0xb3, 0x18, 0xaa, 0xe0, 0xd2, 0xd7, 0xc2, 0x5b, 0xb6, 0x72, 0xf6,
      0x2d, 0xaf, 0xd5, 0xd6, 0xbf, 0xb1, 0xa8, 0x40, 0xfc, 0x7d, 0x2b, 0x50, 0xbf, 0x0e, 0x76, 0x0a]"

definition p256_2_root_imag_bytes :: bytes where
  "p256_2_root_imag_bytes =
     [0xb4, 0xf9, 0x9f, 0x49, 0xf0, 0x36, 0xab, 0xfb, 0xc0, 0xb3, 0xae, 0x0b, 0xb7, 0x3b, 0xd5, 0x13,
      0x13, 0xdf, 0x05, 0x5f, 0xca, 0x2e, 0x93, 0xe2, 0x45, 0x8e, 0xab, 0xa8, 0x4a, 0x86, 0x8c, 0xaa]"

definition p256_2_root_inverse_real_bytes :: bytes where
  "p256_2_root_inverse_real_bytes =
     [0xb7, 0x79, 0x06, 0x7f, 0x66, 0xb3, 0x18, 0xaa, 0xe0, 0xd2, 0xd7, 0xc2, 0x5b, 0xb6, 0x72, 0xf6,
      0x2d, 0xaf, 0xd5, 0xd6, 0xbf, 0xb1, 0xa8, 0x40, 0xfc, 0x7d, 0x2b, 0x50, 0xbf, 0x0e, 0x76, 0x0a]"

definition p256_2_root_inverse_imag_bytes :: bytes where
  "p256_2_root_inverse_imag_bytes =
     [0x4b, 0x06, 0x60, 0xb6, 0x0f, 0xc9, 0x54, 0x04, 0x3f, 0x4c, 0x51, 0xf4, 0x49, 0xc4, 0x2a, 0xec,
      0xec, 0x20, 0xfa, 0xa0, 0x35, 0xd1, 0x6c, 0x1d, 0xbb, 0x71, 0x54, 0x57, 0xb4, 0x79, 0x73, 0x55]"

text \<open>The tables are filled from index 31 down.\<close>

fun p256_2_root_table :: "nat \<Rightarrow> fp256_2 \<Rightarrow> fp256_2 list" where
  "p256_2_root_table 0 temp = [temp]"
| "p256_2_root_table (Suc i) temp = p256_2_root_table i (p256_2_square_const temp) @ [temp]"

definition p256_2_root :: fp256_2 where
  "p256_2_root = p256_2_new (p256_from_bytes p256_2_root_real_bytes) (p256_from_bytes p256_2_root_imag_bytes)"

definition p256_2_root_inverse :: fp256_2 where
  "p256_2_root_inverse =
     p256_2_new (p256_from_bytes p256_2_root_inverse_real_bytes) (p256_from_bytes p256_2_root_inverse_imag_bytes)"

definition p256_2_ntt :: "fp256_2 ntt_ops" where
  "p256_2_ntt =
     \<lparr>no_roots = p256_2_root_table 31 p256_2_root,
      no_root_inverses = p256_2_root_table 31 p256_2_root_inverse,
      no_half = p256_2_new (p256_from_bytes p256_half_bytes) 0\<rparr>"

subsection \<open>A field\<close>

lemma p256_2_square_const_times: "p256_2_square_const x = x * x"
  by (cases x) (simp add: p256_2_square_const_def times_fp256_2_def qe_square_times [symmetric] qe_square_def)

lemma p256_minus_one_no_square: "t * t \<noteq> (- 1 :: fp256)"
proof
  assume t: "t * t = - 1"
  then have "t \<noteq> 0" by auto
  have e: "nat (p256_modulus - 1) = 2 * Suc (2 * 28948022302589062190674361737351893382521535853822578548883407827216774463487)"
    by (simp add: p256_modulus_def)
  have "t ^ nat (p256_modulus - 1) = (- 1) ^ Suc (2 * 28948022302589062190674361737351893382521535853822578548883407827216774463487)"
    unfolding e power_mult power2_eq_square t ..
  also have "\<dots> = - 1" by (simp only: power_Suc power_mult power2_eq_square minus_mult_minus mult_1_left power_one mult_1_right)
  finally have "(- 1 :: fp256) = 1" using p256.fermat_residue [OF \<open>t \<noteq> 0\<close>] by simp
  then have "of_nat 2 = (0 :: fp256)" by (metis add.right_inverse of_nat_1 of_nat_add one_add_one)
  then show False using p256.of_nat_nonzero [of 2] by (simp add: p256_modulus_def)
qed

lemma p256_two_squares:
  assumes "a * a + b * b = (0 :: fp256)"
  shows "a = 0 \<and> b = 0"
proof (cases "b = 0")
  case False
  have "(a / b) * (a / b) = (a * a) / (b * b)" by simp
  also have "a * a = - (b * b)" using assms by (simp add: eq_neg_iff_add_eq_0)
  also have "- (b * b) / (b * b) = - 1" using False by simp
  finally show ?thesis using p256_minus_one_no_square by blast
qed (use assms in simp)

lemma p256_2_mul_inv_inverse: "x \<noteq> 0 \<Longrightarrow> p256_2_mul_inv x * x = 1"
  using qe_mul_inv_inverse [OF p256m2_exp_inverse p256_two_squares, of "p256_2_inner x"]
  by (cases x) (simp add: p256_2_mul_inv_def fp256_2_defs)

instantiation fp256_2 :: field
begin

definition inverse_fp256_2 :: "fp256_2 \<Rightarrow> fp256_2" where
  "inverse_fp256_2 x = p256_2_mul_inv x"

definition divide_fp256_2 :: "fp256_2 \<Rightarrow> fp256_2 \<Rightarrow> fp256_2" where
  "divide_fp256_2 x y = x * p256_2_mul_inv y"

instance
proof
  fix x y :: fp256_2
  show "x \<noteq> 0 \<Longrightarrow> inverse x * x = 1" by (simp add: inverse_fp256_2_def p256_2_mul_inv_inverse)
  show "x div y = x * inverse y" by (simp only: inverse_fp256_2_def divide_fp256_2_def)
  have "p256m2_exp (0 :: fp256) = 0" unfolding p256m2_exp_power by (rule zero_power) simp
  then show "inverse (0 :: fp256_2) = 0"
    by (simp add: inverse_fp256_2_def p256_2_mul_inv_def qe_mul_inv_def fp256_2_defs zero_quadratic_extension_def quadratic_times)
qed

end

subsection \<open>The order of the root\<close>

text \<open>The real part of a square, for norm one, by given quotients.\<close>

definition real_squares :: "int list \<Rightarrow> int \<Rightarrow> int" where
  "real_squares = fold (\<lambda>q x. 2 * x ^ 2 - 1 - p256_times q)"

definition p256_2_root_quotients :: "int list" where
  "p256_2_root_quotients =
    [386713073102341783516852279792714211445055922866546082773223107074652579064,
     1446042844233488096536375360745207962832822130440222282610992987200877210890,
     44654675770705735679807442690407239292829314272621605967840267599630327103163,
     35773001912240257862535759505305790159636164430017534845467730066859468963552,
     605173454252966794031307223435061993628126496104181703744613627100308850942,
     11300790839639297751742065021371935931754182454856544735479757420647453856546,
     212533385403215724253728884525129352494099288810409341925482784772866268877825,
     122456334696722320748382001728685994745786731088566154442331469582870795363272,
     225282546407491534338818199617644269337274606560356783960040122693623545080250,
     93333269700727393277933308547423555752963466473994266157825382801224506040,
     10279810198653975699781025283478479706383516885923662770274252041837593892108,
     23479116715966776648141887189922408790767690941453712327933927452912128711820,
     16475679312829542418762890941518769310665737928010144492954097656124922582354,
     53649323542627775860134698030089042162736498872843128634769594189115457775685,
     156577756715731401534091401899508433822254158942099625277878569795837833880783,
     206729729020272123738197042170776784795567630237421671540976456746249903874518,
     69331877208221230469466983086748234024652340406603141547487040704210433444047,
     8167791849865164431894641820947320524394296800801170493657412675029113772786,
     7267847188810050341449872480875999276280928198810270075275613030929855711294,
     209355078244449393971374196494936666323325746671984256685345803166858067578380,
     33050880270545748859417309262242804579966647125636457802495361889377344148995,
     123162535710334456629001678015716127094007120416685466962273739912674282507975,
     123526813543308322105289499703780535475652090876967693410313522274565951698125,
     24117891773065345503263769089054688614977125983411455014576517683278408351923,
     225479954667247874974799644412139382848234078653331940061909796457557909723777,
     17813314674739187196145733859485312193526547447864834825818497177237016276123,
     7920402211968520861210265685366927864250870206398414892642088282238970784398,
     227771004199561894618312082969237835008833877001816315645770156819806465188605,
     100004765639475316342022287997440177040116149585410900386922593089547282049401, 0]"

lemma real_squares_root: "real_squares p256_2_root_quotients 4731718221718056686435676307947347485799514232882472623916911352497620548023 = - 1"
  by (simp only: real_squares_def p256_2_root_quotients_def p256_times_def fold_simps diff_numeral_special arith_simps
      power_numeral Num.pow.simps Num.sqr.simps) simp

lemma p256_2_bytes_values:
  "int (le_value p256_2_root_real_bytes) = 4731718221718056686435676307947347485799514232882472623916911352497620548023" "int (le_value p256_2_root_imag_bytes) = 77141469695033822078322624571894793683339639316911804972462692260864621279668"
  "int (le_value p256_2_root_inverse_real_bytes) = 4731718221718056686435676307947347485799514232882472623916911352497620548023" "int (le_value p256_2_root_inverse_imag_bytes) = 38650619515322426684374822377512779846746504098378509223070939048002476574283"
  by (simp_all add: p256_2_root_real_bytes_def p256_2_root_imag_bytes_def p256_2_root_inverse_real_bytes_def
      p256_2_root_inverse_imag_bytes_def)

lemma p256_2_root_norm: "(4731718221718056686435676307947347485799514232882472623916911352497620548023 :: int) * 4731718221718056686435676307947347485799514232882472623916911352497620548023 + 77141469695033822078322624571894793683339639316911804972462692260864621279668 * 77141469695033822078322624571894793683339639316911804972462692260864621279668 - 51585523197428652496873476271115736626790623524522435348275055855446803208352 * p256_modulus = 1"
  by (simp only: p256_modulus_def arith_simps)

lemma norm_one_squares:
  assumes "a * a + b * b = (1 :: fp256)" "a = p256_of_int x"
  shows "\<exists>b'. p256_2_new a b ^ 2 ^ length qs = p256_2_new (p256_of_int (real_squares qs x)) b' \<and>
    p256_of_int (real_squares qs x) * p256_of_int (real_squares qs x) + b' * b' = 1"
  using assms
proof (induction qs arbitrary: a b x)
  case Nil
  then show ?case by (auto simp: real_squares_def)
next
  case (Cons q qs)
  let ?a = "a * a - b * b" and ?b = "a * b + a * b" and ?x = "2 * x ^ 2 - 1 - p256_times q"
  have "?a * ?a + ?b * ?b = (a * a + b * b) * (a * a + b * b)" by (simp add: algebra_simps)
  then have n: "?a * ?a + ?b * ?b = 1" using Cons.prems(1) by simp
  have "?a = a * a + a * a - 1" using Cons.prems(1) by (simp add: algebra_simps)
  also have "\<dots> = p256_of_int (x * x + x * x - 1)"
    unfolding Cons.prems(2) p256.of_residue_mult p256.of_residue_add p256.of_residue_1 [symmetric] p256.of_residue_diff ..
  also have "\<dots> = p256_of_int ?x"
    using p256_times_dvd [of q] by (simp add: p256.of_residue_eq_iff mod_eq_dvd_iff p256_modulus_def power2_eq_square)
  finally have "\<exists>b'. p256_2_new ?a ?b ^ 2 ^ length qs = p256_2_new (p256_of_int (real_squares qs ?x)) b' \<and>
      p256_of_int (real_squares qs ?x) * p256_of_int (real_squares qs ?x) + b' * b' = 1"
    by (rule Cons.IH [OF n])
  moreover have "p256_2_new a b ^ 2 ^ length (q # qs) = p256_2_new ?a ?b ^ 2 ^ length qs"
    by (simp add: power_mult power2_eq_square p256_2_new_def times_fp256_2_def quadratic_times mult.commute)
  ultimately show ?case by (simp add: real_squares_def)
qed

lemma p256_2_root_order: "p256_2_root ^ 2 ^ 30 = - 1"
proof -
  have n: "p256_from_bytes p256_2_root_real_bytes * p256_from_bytes p256_2_root_real_bytes +
      p256_from_bytes p256_2_root_imag_bytes * p256_from_bytes p256_2_root_imag_bytes = 1"
    using dvd_by_quotient [OF p256_2_root_norm]
    by (simp only: p256_from_bytes_def p256_2_bytes_values p256.of_residue_mult p256.of_residue_add
        p256.of_residue_1 [symmetric] p256.of_residue_eq_iff mod_eq_dvd_iff)
  have l: "length p256_2_root_quotients = 30" by (simp add: p256_2_root_quotients_def)
  let ?m = "p256_of_int (- 1)"
  from norm_one_squares [OF n, of 4731718221718056686435676307947347485799514232882472623916911352497620548023 p256_2_root_quotients] obtain b where
    b: "p256_2_root ^ 2 ^ 30 = p256_2_new ?m b" "?m * ?m + b * b = 1"
    by (auto simp: real_squares_root l p256_2_root_def p256_from_bytes_def p256_2_bytes_values)
  have m: "?m = - 1" using p256.of_residue_diff [of 0 1] by (simp add: p256.of_residue_0 p256.of_residue_1)
  then have "b = 0" using b(2) by simp
  then show ?thesis
    using b(1) m by (simp add: p256_2_new_def fp256_2_defs one_quadratic_extension_def quadratic_simps)
qed

section \<open>P256 Code\<close>

text \<open>
  The trait implementations of \<open>src/src/fields/fieldp256/mod.rs\<close> as the dictionary \<open>p256_ops\<close>. The base field has
  few roots of unity, so \<open>extend\<close> projects into the quadratic extension, extends there and takes real parts; the
  imaginary parts are zero, and the result interpolates over the base field. The dictionary satisfies \<open>field_codec\<close>,
  \<open>sumcheck_field\<close> and \<open>reed_solomon\<close>.
\<close>

definition p256_extend :: "nat \<Rightarrow> nat \<Rightarrow> fp256 list \<Rightarrow> fp256 list res" where
  "p256_extend nodes_len evaluations nodes =
     (let projected = map (\<lambda>elem. p256_2_new elem 0) nodes
      in and_then (extend_p p256_2_mul_inv p256_2_ntt nodes_len evaluations projected) (\<lambda>extended.
         Inr (map (\<lambda>elem. qe_real (p256_2_inner elem)) extended)))"

definition p256_ops :: "fp256 field_ops" where
  "p256_ops =
     \<lparr>fo_num_bits = 256,
      fo_field_id = P256,
      fo_encode = p256_encode,
      fo_try_from = p256_try_from,
      fo_in_subfield = (\<lambda>_. True),
      fo_encode_sub = (\<lambda>x. Inr (p256_encode x)),
      fo_decode_sub = (\<lambda>bs. if length bs < 32 then Inl (Fail ''failed to read FieldP256 element'')
         else and_then (opt_res (Fail ''serialized FieldP256 element is not less than the modulus'')
                (p256_try_from (take 32 bs))) (\<lambda>x. Inr (x, drop 32 bs))),
      fo_id_prefix = le_bytes 8 1 @ p256_encode (- 1),
      fo_large_characteristic = True,
      fo_p2 = p256_of_int 2,
      fo_p2_inv = p256_from_bytes p256_half_bytes,
      fo_one_minus_p2_inv = p256_from_bytes p256_minus_one_bytes,
      fo_p2_squared_minus_p2_inv = p256_from_bytes p256_half_bytes,
      fo_extend = p256_extend\<rparr>"

interpretation p256_codec: field_codec p256_ops
  by unfold_locales
    (simp_all add: p256_ops_def p256_try_from_encode p256_encode_try_from, simp add: p256_encode_def num_bytes_def)

interpretation p256_sumcheck: sumcheck_field p256_ops
proof
  have minus_one: "p256_from_bytes p256_minus_one_bytes = - 1"
    using p256.of_residue_diff [of 0 1] p256.of_residue_eq_iff [of "p256_modulus - 1" "- 1"]
    by (simp add: p256_from_bytes_def p256_constant_values p256.of_residue_0 p256.of_residue_1 mod_eq_dvd_iff)
  show "fo_p2 p256_ops * fo_p2_inv p256_ops = 1" using p256_half by (simp add: p256_ops_def)
  show "(1 - fo_p2 p256_ops) * fo_one_minus_p2_inv p256_ops = 1"
    by (simp add: p256_ops_def minus_one p256_of_int_2)
  have "fo_p2 p256_ops * fo_p2 p256_ops - fo_p2 p256_ops = fo_p2 p256_ops"
    by (simp add: p256_ops_def p256_of_int_2 algebra_simps)
  then show "(fo_p2 p256_ops * fo_p2 p256_ops - fo_p2 p256_ops) * fo_p2_squared_minus_p2_inv p256_ops = 1"
    using p256_half by (simp only:) (simp add: p256_ops_def)
  show "fo_large_characteristic p256_ops \<Longrightarrow> fo_p2 p256_ops = 1 + 1" by (simp add: p256_ops_def p256_of_int_2)
qed

subsection \<open>The transform of the extension\<close>

lemma p256_2_root_table_eq: "p256_2_root_table n w = root_table n w"
  by (induction n arbitrary: w) (simp_all add: p256_2_square_const_times)

lemma p256_2_root_inverse_times: "p256_2_root * p256_2_root_inverse = 1"
proof -
  let ?a = "p256_from_bytes p256_2_root_real_bytes" and ?b = "p256_from_bytes p256_2_root_imag_bytes"
  have "?a * ?a + ?b * ?b = 1"
    using dvd_by_quotient [OF p256_2_root_norm]
    by (simp only: p256_from_bytes_def p256_2_bytes_values p256.of_residue_mult p256.of_residue_add
        p256.of_residue_1 [symmetric] p256.of_residue_eq_iff mod_eq_dvd_iff)
  moreover have "p256_from_bytes p256_2_root_inverse_real_bytes = ?a"
    by (simp only: p256_from_bytes_def p256_2_bytes_values)
  moreover have "p256_from_bytes p256_2_root_inverse_imag_bytes + ?b = 0"
    by (simp only: p256_from_bytes_def p256_2_bytes_values p256.of_residue_add p256.of_residue_eq_0)
      (simp add: p256_modulus_def)
  then have "p256_from_bytes p256_2_root_inverse_imag_bytes = - ?b" by (simp add: eq_neg_iff_add_eq_0)
  ultimately show ?thesis
    by (simp add: p256_2_root_def p256_2_root_inverse_def p256_2_new_def fp256_2_defs quadratic_times one_quadratic_extension_def)
qed

definition p256_embed :: "fp256 \<Rightarrow> fp256_2" where
  "p256_embed x = p256_2_new x 0"

lemma p256_embed_simps:
  "p256_embed (x + y) = p256_embed x + p256_embed y"
  "p256_embed (x - y) = p256_embed x - p256_embed y"
  "p256_embed (x * y) = p256_embed x * p256_embed y"
  "p256_embed 0 = 0" "p256_embed 1 = 1"
  by (simp_all add: p256_embed_def p256_2_new_def fp256_2_defs quadratic_times quadratic_simps
      zero_quadratic_extension_def one_quadratic_extension_def)

lemma p256_embed_inj: "p256_embed x = p256_embed y \<longleftrightarrow> x = y"
  by (simp add: p256_embed_def p256_2_new_def)

lemma p256_embed_of_nat: "p256_embed (of_nat n) = of_nat n"
  by (induction n) (simp_all add: p256_embed_simps)

lemma p256_embed_inverse: "p256_embed (inverse x) = inverse (p256_embed x)"
proof (cases "x = 0")
  case False
  then have "p256_embed (inverse x) * p256_embed x = 1"
    by (simp flip: p256_embed_simps)
  then show ?thesis by (metis inverse_unique mult.commute)
qed (simp add: p256_embed_simps)

lemma p256_embed_sum: "p256_embed (\<Sum>i \<in> A. f i) = (\<Sum>i \<in> A. p256_embed (f i))"
  by (induction A rule: infinite_finite_induct) (simp_all add: p256_embed_simps)

lemma p256_embed_prod: "p256_embed (\<Prod>i \<in> A. f i) = (\<Prod>i \<in> A. p256_embed (f i))"
  by (induction A rule: infinite_finite_induct) (simp_all add: p256_embed_simps)

lemma p256_embed_lagrange: "p256_embed (lagrange_term of_nat n i (of_nat k)) = lagrange_term of_nat n i (of_nat k)"
  by (simp add: lagrange_term_def p256_embed_prod p256_embed_simps p256_embed_inverse p256_embed_of_nat)

interpretation p256_2_ntt: ntt_field p256_2_mul_inv p256_2_ntt
proof
  show "x \<noteq> 0 \<Longrightarrow> p256_2_mul_inv x * x = 1" for x by (rule p256_2_mul_inv_inverse)
  show "of_nat j \<noteq> (0 :: fp256_2)" if "0 < j" "j \<le> 2 ^ 32" for j
  proof -
    have "of_nat j \<noteq> (0 :: fp256)" using that by (intro p256.of_nat_nonzero) (simp_all add: p256_modulus_def)
    then show ?thesis by (simp add: p256_embed_of_nat [symmetric] p256_embed_simps(4) [symmetric] p256_embed_inj)
  qed
  show "ntt_tables_ok p256_2_ntt"
    by (simp add: ntt_tables_ok_def p256_2_ntt_def p256_2_root_table_eq root_table_inverses [OF p256_2_root_inverse_times])
  show "primitive_roots (rev (take k (drop 1 (no_roots p256_2_ntt))))" if "k < 32" for k
    using root_table_primitive [OF p256_2_root_order, of k] that by (simp add: p256_2_ntt_def p256_2_root_table_eq)
  have "p256_embed (p256_from_bytes p256_half_bytes * p256_of_int 2) = 1"
    using p256_half by (simp add: mult.commute p256_embed_simps)
  moreover have "p256_embed 2 = 2" using p256_embed_of_nat [of 2] by simp
  ultimately show "no_half p256_2_ntt * 2 = 1"
    by (simp add: p256_2_ntt_def p256_embed_simps p256_of_int_2 flip: p256_embed_def)
qed

subsection \<open>The code\<close>

lemma p256_extend_lagrange:
  assumes "0 < n" "n \<le> m" "m \<le> 2 ^ 31" "length xs = n"
  shows "extend_p p256_2_mul_inv p256_2_ntt n m (map (\<lambda>elem. p256_2_new elem 0) xs) =
      Inr (map (\<lambda>k. p256_2_new (\<Sum>i < n. xs ! i * lagrange_term of_nat n i (of_nat k)) 0) [0..<m])"
    and "p256_extend n m xs = Inr (map (\<lambda>k. \<Sum>i < n. xs ! i * lagrange_term of_nat n i (of_nat k)) [0..<m])"
proof -
  have "(\<Sum>i < n. map (\<lambda>elem. p256_2_new elem 0) xs ! i * lagrange_term of_nat n i (of_nat k))
      = p256_2_new (\<Sum>i < n. xs ! i * lagrange_term of_nat n i (of_nat k)) 0" for k
    using assms(4)
    by (simp add: p256_embed_sum p256_embed_simps p256_embed_lagrange flip: p256_embed_def)
  then show e: "extend_p p256_2_mul_inv p256_2_ntt n m (map (\<lambda>elem. p256_2_new elem 0) xs) =
      Inr (map (\<lambda>k. p256_2_new (\<Sum>i < n. xs ! i * lagrange_term of_nat n i (of_nat k)) 0) [0..<m])"
    using p256_2_ntt.extend_lagrange [OF assms(1-3), of "map (\<lambda>elem. p256_2_new elem 0) xs"] assms(4) by simp
  show "p256_extend n m xs = Inr (map (\<lambda>k. \<Sum>i < n. xs ! i * lagrange_term of_nat n i (of_nat k)) [0..<m])"
    by (simp add: p256_extend_def e) (simp add: p256_2_new_def)
qed

lemma p256_of_nat_inj: "n \<le> 2 ^ 31 \<Longrightarrow> inj_on (of_nat :: nat \<Rightarrow> fp256) {..<n}"
proof (rule linorder_inj_onI)
  fix i j :: nat assume ij: "n \<le> 2 ^ 31" "i < j" "j \<in> {..<n}"
  then have "int (j - i) < 2 ^ 31" by simp
  also have "\<dots> < p256_modulus" by (simp add: p256_modulus_def)
  finally have "of_nat (j - i) \<noteq> (0 :: fp256)" using ij(2) by (intro p256.of_nat_nonzero) simp_all
  then show "of_nat i \<noteq> (of_nat j :: fp256)" using ij(2) by (simp add: of_nat_diff)
qed auto

interpretation p256_code: reed_solomon p256_ops codeword short_enough
proof (rule reed_solomon_at)
  show inj: "n \<le> m \<Longrightarrow> short_enough m \<Longrightarrow> inj_on (of_nat :: nat \<Rightarrow> fp256) {..<n}" for n m
    by (intro p256_of_nat_inj) (simp add: short_enough_def)
  fix n m and xs :: "fp256 list"
  assume nm: "0 < n" "n \<le> m" "short_enough m" "length xs = n"
  let ?f = "\<lambda>x. \<Sum>i < n. xs ! i * lagrange_term of_nat n i x"
  have "fo_extend p256_ops n m xs = Inr (map (\<lambda>k. ?f (of_nat k)) [0..<m])"
    using p256_extend_lagrange(2) [OF nm(1,2) _ nm(4)] nm(3) by (simp add: p256_ops_def short_enough_def)
  then show "\<exists>f. poly_below n f \<and> fo_extend p256_ops n m xs = Inr (map (\<lambda>i. f (of_nat i)) [0..<m]) \<and>
      (\<forall>i < n. f (of_nat i) = xs ! i)"
    using interpolation [OF inj [OF nm(2,3)]] by (intro exI [of _ ?f]) blast
qed

end
