(* ===== verification/Gf_Ring.thy ===== *)
theory Gf_Ring
  imports Prelude
begin

text \<open>
  The ring of \<open>src/src/fields/field2_128/mod.rs\<close>: words of 128 bits as polynomials over GF(2) modulo
  \<open>x ^ 128 + x ^ 7 + x ^ 2 + x + 1\<close>. Addition, subtraction and negation are those of the source. The
  product here is the definition of the ring, a sum of multiples \<open>x ^ i * b\<close>, and the routines of
  the source are shown to compute it in \<open>Gf_Backends\<close>.

  The ring laws come from one observation (\<open>linear_times\<close>): a map that is additive and commutes with
  \<open>mul_x\<close> multiplies its argument by its value at one.
\<close>

unbundle bit_operations_syntax

typedef gf128 = "UNIV :: 128 word set"
  morphisms as_u128 Gf by simp

setup_lifting type_definition_gf128

definition mul_x_word :: "128 word \<Rightarrow> 128 word" where
  "mul_x_word v = push_bit 1 v XOR (if bit v 127 then 0x87 else 0)"

instantiation gf128 :: "{ab_group_add, one}"
begin

lift_definition zero_gf128 :: gf128 is 0 .
lift_definition one_gf128 :: gf128 is 1 .
lift_definition plus_gf128 :: "gf128 \<Rightarrow> gf128 \<Rightarrow> gf128" is "(XOR)" .
lift_definition minus_gf128 :: "gf128 \<Rightarrow> gf128 \<Rightarrow> gf128" is "(XOR)" .
lift_definition uminus_gf128 :: "gf128 \<Rightarrow> gf128" is "\<lambda>x. x" .

instance
  by standard (transfer, simp add: ac_simps)+

end

lemma gf_double [simp]: "x + x = (0 :: gf128)"
  by transfer simp

lemma gf_uminus [simp]: "- x = (x :: gf128)"
  by transfer simp

lemma gf_minus: "x - y = x + (y :: gf128)"
  by transfer simp

lift_definition mul_x :: "gf128 \<Rightarrow> gf128" is mul_x_word .

lemma mul_x_add: "mul_x (a + b) = mul_x a + mul_x b"
  by transfer (auto simp: mul_x_word_def bit_xor_iff push_bit_xor ac_simps)

lemma funpow_mul_x_add: "(mul_x ^^ i) (a + b) = (mul_x ^^ i) a + (mul_x ^^ i) b"
  by (induction i) (simp_all add: mul_x_add)

lemma additive_zero: "(\<And>a b. f (a + b) = f a + f b) \<Longrightarrow> f 0 = (0 :: gf128)" for f :: "gf128 \<Rightarrow> gf128"
  by (metis add_cancel_right_right)

lemma additive_sum:
  fixes f :: "gf128 \<Rightarrow> gf128"
  assumes "\<And>a b. f (a + b) = f a + f b"
  shows "f (\<Sum>i < n. g i) = (\<Sum>i < (n :: nat). f (g i))"
  using assms additive_zero [of f] by (induction n) simp_all

instantiation gf128 :: times
begin

definition times_gf128 :: "gf128 \<Rightarrow> gf128 \<Rightarrow> gf128" where
  "a * b = (\<Sum>i < 128. if bit (as_u128 a) i then (mul_x ^^ i) b else 0)"

instance ..

end

lemma gf_times_add_left: "(a + b) * c = a * c + b * (c :: gf128)"
proof -
  have "bit (as_u128 (a + b)) i \<longleftrightarrow> bit (as_u128 a) i \<noteq> bit (as_u128 b) i" for i
    by (simp add: plus_gf128.rep_eq bit_xor_iff)
  then show ?thesis unfolding times_gf128_def sum.distrib [symmetric] by (intro sum.cong) simp_all
qed

lemma gf_times_add_right: "a * (b + c) = a * b + a * (c :: gf128)"
  unfolding times_gf128_def sum.distrib [symmetric] by (intro sum.cong) (simp_all add: funpow_mul_x_add)

lemma gf_times_mul_x: "a * mul_x b = mul_x (a * b)"
proof -
  have "mul_x (a * b) = (\<Sum>i < 128. mul_x (if bit (as_u128 a) i then (mul_x ^^ i) b else 0))"
    unfolding times_gf128_def by (rule additive_sum) (rule mul_x_add)
  moreover have "mul_x 0 = 0" by (rule additive_zero) (rule mul_x_add)
  ultimately show ?thesis by (simp add: times_gf128_def funpow_swap1 if_distrib cong: if_cong)
qed

lemma mul_x_power_one: "i < 128 \<Longrightarrow> (mul_x ^^ i) 1 = Gf (2 ^ i)"
proof (induction i)
  case (Suc i)
  have "\<not> bit (2 ^ i :: 128 word) 127" using Suc.prems by (simp add: bit_simps)
  then show ?case using Suc by (simp add: mul_x.abs_eq mul_x_word_def push_bit_eq_mult mult.commute)
qed (simp add: one_gf128_def)

lemma gf_times_one: "a * 1 = (a :: gf128)"
proof -
  have "(\<Sum>i < n. if bit (as_u128 a) i then (mul_x ^^ i) 1 else 0) = Gf (take_bit n (as_u128 a))" if "n \<le> 128" for n
    using that
  proof (induction n)
    case (Suc n)
    have "take_bit (Suc n) (as_u128 a) = take_bit n (as_u128 a) XOR (if bit (as_u128 a) n then 2 ^ n else 0)"
      using Suc.prems by (intro bit_word_eqI) (auto simp: bit_simps less_Suc_eq)
    then show ?case using Suc by (simp add: mul_x_power_one plus_gf128.abs_eq zero_gf128_def)
  qed (simp add: zero_gf128_def)
  from this [of 128] show ?thesis 
    by (simp add: times_gf128_def as_u128_inverse take_bit_word_eq_self)
qed

lemma linear_times:
  fixes f :: "gf128 \<Rightarrow> gf128"
  assumes "\<And>a b. f (a + b) = f a + f b" "\<And>a. f (mul_x a) = mul_x (f a)"
  shows "f v = v * f 1"
proof -
  have pow: "f ((mul_x ^^ i) 1) = (mul_x ^^ i) (f 1)" for i
    using assms(2) by (induction i) simp_all
  have "f v = f (v * 1)" by (simp add: gf_times_one)
  also have "\<dots> = (\<Sum>i < 128. f (if bit (as_u128 v) i then (mul_x ^^ i) 1 else 0))"
    unfolding times_gf128_def by (rule additive_sum) (rule assms(1))
  also have "\<dots> = v * f 1"
    using pow additive_zero [of f] assms(1) by (simp add: times_gf128_def if_distrib cong: if_cong)
  finally show ?thesis .
qed

instance gf128 :: comm_ring_1
proof
  fix a b c :: gf128
  show comm: "a * b = b * a" for a b :: gf128
    using linear_times [of "(*) a" b] by (simp add: gf_times_add_right gf_times_mul_x gf_times_one)
  show "a * b * c = a * (b * c)"
    using linear_times [of "\<lambda>v. a * (b * v)" c]
    by (simp add: gf_times_add_right gf_times_mul_x gf_times_one comm [of _ c])
  show "1 * a = a" using comm [of 1 a] gf_times_one [of a] by (rule trans)
  show "(a + b) * c = a * c + b * c" by (rule gf_times_add_left)
  show "(0 :: gf128) \<noteq> 1" by transfer simp
qed

lemma gf_two [simp]: "(2 :: gf128) = 0"
  by (metis gf_double one_add_one)

lemma gf_of_nat: "(of_nat n :: gf128) = of_bool (odd n)"
  by (induction n) simp_all

lemma gf_power2_add: "(a + b) ^ 2 = a ^ 2 + (b :: gf128) ^ 2"
  by (simp add: power2_sum)

subsection \<open>Words as polynomials in \<open>x\<close>\<close>

definition gf_x :: gf128 where
  "gf_x = Gf 2"

lemma mul_x_times: "mul_x v = gf_x * v"
proof -
  have "mul_x v = v * mul_x 1" using linear_times [of mul_x v] by (simp add: mul_x_add)
  moreover have "mul_x 1 = gf_x" using mul_x_power_one [of 1] by (simp add: gf_x_def)
  ultimately show ?thesis by (simp add: mult.commute)
qed

lemma funpow_mul_x: "(mul_x ^^ i) v = gf_x ^ i * v"
  by (induction i) (simp_all add: mul_x_times mult.assoc)

lemma gf_x_power: "i < 128 \<Longrightarrow> gf_x ^ i = Gf (2 ^ i)"
  using mul_x_power_one [of i] by (simp add: funpow_mul_x)

lemma gf_x_128_value: "gf_x ^ 128 = Gf 0x87"
proof -
  have "gf_x ^ 128 = mul_x (gf_x ^ 127)"
    by (simp add: mul_x_times flip: power_Suc)
  also have "\<dots> = Gf (mul_x_word (2 ^ 127))" by (simp only: gf_x_power mul_x.abs_eq)
  also have "mul_x_word (2 ^ 127) = 0x87" by (simp add: mul_x_word_def)
  finally show ?thesis .
qed

lemma gf_x_128: "gf_x ^ 128 = gf_x ^ 7 + gf_x ^ 2 + gf_x + 1"
  unfolding gf_x_128_value gf_x_power [of 7, simplified] gf_x_power [of 2, simplified]
  by (simp add: gf_x_def plus_gf128.abs_eq one_gf128_def)

definition poly_at :: "(nat \<Rightarrow> bool) \<Rightarrow> nat \<Rightarrow> gf128" where
  "poly_at f n = (\<Sum>i < n. if f i then gf_x ^ i else 0)"

definition eval_word :: "'n :: len word \<Rightarrow> gf128" where
  "eval_word v = poly_at (bit v) LENGTH('n)"

lemma eval_word_u128: "eval_word (as_u128 a) = a"
proof -
  have "(\<Sum>i < 128. if bit (as_u128 a) i then (mul_x ^^ i) 1 else 0) = a"
    using gf_times_one [of a] by (simp only: times_gf128_def)
  then have "(\<Sum>i < 128. if bit (as_u128 a) i then gf_x ^ i else 0) = a"
    by (simp only: funpow_mul_x mult_1_right)
  then show ?thesis by (simp add: eval_word_def poly_at_def)
qed

lemma eval_word_Gf: "Gf v = eval_word v"
  using eval_word_u128 [of "Gf v"] by (simp add: Gf_inverse)

lemma poly_at_xor: "poly_at (\<lambda>i. f i \<noteq> g i) n = poly_at f n + poly_at g n"
  unfolding poly_at_def sum.distrib [symmetric] by (intro sum.cong) simp_all

lemma poly_at_split: "poly_at f (m + n) = poly_at f m + gf_x ^ m * poly_at (\<lambda>i. f (m + i)) n"
  by (induction n) (simp_all add: poly_at_def power_add algebra_simps)

lemma poly_at_cong: "(\<And>i. i < n \<Longrightarrow> f i \<longleftrightarrow> g i) \<Longrightarrow> poly_at f n = poly_at g n"
  by (simp add: poly_at_def)

lemma poly_at_beyond: "m \<le> n \<Longrightarrow> (\<And>i. m \<le> i \<Longrightarrow> \<not> f i) \<Longrightarrow> poly_at f n = poly_at f m"
  using poly_at_split [of f m "n - m"] by (simp add: poly_at_def)

lemma poly_at_product:
  "poly_at f n * poly_at g n =
   poly_at (\<lambda>k. odd (\<Sum>i \<le> k. of_bool (i < n \<and> f i) * of_bool (k - i < n \<and> g (k - i)) :: nat)) (2 * n)"
proof -
  let ?a = "\<lambda>i. of_bool (i < n \<and> f i) :: gf128" and ?b = "\<lambda>i. of_bool (i < n \<and> g i) :: gf128"
  let ?c = "\<lambda>k. \<Sum>i \<le> k. ?a i * ?b (k - i)"
  have pad: "poly_at h n = (\<Sum>i < 2 * n. of_bool (i < n \<and> h i) * gf_x ^ i)" for h
  proof -
    have "(\<Sum>i < 2 * n. of_bool (i < n \<and> h i) * gf_x ^ i) = (\<Sum>i < n. of_bool (i < n \<and> h i) * gf_x ^ i)"
      by (rule sum.mono_neutral_right) auto
    also have "\<dots> = poly_at h n" unfolding poly_at_def by (intro sum.cong) simp_all
    finally show ?thesis ..
  qed
  have "poly_at f n * poly_at g n = (\<Sum>i < n. \<Sum>j < n. (?a i * ?b j) * gf_x ^ (i + j))"
    unfolding poly_at_def sum_product by (intro sum.cong) (auto simp: power_add)
  also have "\<dots> = (\<Sum>(i, j) \<in> {..<n} \<times> {..<n}. (?a i * ?b j) * gf_x ^ (i + j))"
    by (rule sum.cartesian_product)
  also have "\<dots> = (\<Sum>(i, j) \<in> {(i, j). i + j < 2 * n}. (?a i * ?b j) * gf_x ^ (i + j))"
  proof (rule sum.mono_neutral_left)
    have "{(i, j). i + j < 2 * n} \<subseteq> {..<2 * n} \<times> {..<2 * n}" by auto
    then show "finite {(i, j). i + j < 2 * n}" by (rule finite_subset) simp
  qed (auto split: if_splits simp: of_bool_def)
  also have "\<dots> = (\<Sum>k < 2 * n. \<Sum>i \<le> k. (?a i * ?b (k - i)) * gf_x ^ (i + (k - i)))"
    by (rule sum.triangle_reindex)
  also have "\<dots> = (\<Sum>k < 2 * n. ?c k * gf_x ^ k)"
    unfolding sum_distrib_right by (intro sum.cong) simp_all
  also have "\<dots> = poly_at (\<lambda>k. odd (\<Sum>i \<le> k. of_bool (i < n \<and> f i) * of_bool (k - i < n \<and> g (k - i)) :: nat)) (2 * n)"
    unfolding poly_at_def
  proof (intro sum.cong)
    fix k
    have "?c k = of_nat (\<Sum>i \<le> k. of_bool (i < n \<and> f i) * of_bool (k - i < n \<and> g (k - i)))"
      by simp
    then show "?c k * gf_x ^ k = (if odd (\<Sum>i \<le> k. of_bool (i < n \<and> f i) * of_bool (k - i < n \<and> g (k - i)) :: nat)
        then gf_x ^ k else 0)"
      by (simp add: gf_of_nat del: of_nat_sum)
  qed simp
  finally show ?thesis .
qed

section \<open>Gf Eval\<close>

text \<open>
  Products of constants of the field, evaluated in the kernel: numerals become lists of bits, least significant
  first, and \<open>product_check\<close> compares a reduced carryless product of two lists with a third. The
  equations of its parts rewrite ground terms in time linear in the steps of the computation.
\<close>

fun eval_bits :: "bool list \<Rightarrow> gf128" where
  "eval_bits [] = 0"
| "eval_bits (b # bs) = of_bool b + gf_x * eval_bits bs"

fun num_bits :: "num \<Rightarrow> bool list" where
  "num_bits num.One = [True]"
| "num_bits (num.Bit0 n) = False # num_bits n"
| "num_bits (num.Bit1 n) = True # num_bits n"

fun xor_bits :: "bool list \<Rightarrow> bool list \<Rightarrow> bool list" where
  "xor_bits [] ys = ys"
| "xor_bits (x # xs) [] = x # xs"
| "xor_bits (False # xs) (y # ys) = y # xor_bits xs ys"
| "xor_bits (True # xs) (True # ys) = False # xor_bits xs ys"
| "xor_bits (True # xs) (False # ys) = True # xor_bits xs ys"

fun times_bits :: "bool list \<Rightarrow> bool list \<Rightarrow> bool list" where
  "times_bits [] ys = []"
| "times_bits (True # xs) ys = xor_bits ys (False # times_bits xs ys)"
| "times_bits (False # xs) ys = False # times_bits xs ys"

text \<open>The bits of a list above the first \<open>n\<close>, folded back by \<open>x ^ 128 = x ^ 7 + x ^ 2 + x + 1\<close>.\<close>

definition fold_back :: "bool list \<Rightarrow> bool list" where
  "fold_back xs =
     xor_bits (take 128 xs) (times_bits [True, True, True, False, False, False, False, True] (drop 128 xs))"

fun same_bits :: "bool list \<Rightarrow> bool list \<Rightarrow> bool" where
  "same_bits [] [] = True"
| "same_bits [] (False # ys) = same_bits [] ys"
| "same_bits [] (True # ys) = False"
| "same_bits (False # xs) [] = same_bits xs []"
| "same_bits (True # xs) [] = False"
| "same_bits (False # xs) (False # ys) = same_bits xs ys"
| "same_bits (True # xs) (True # ys) = same_bits xs ys"
| "same_bits (False # xs) (True # ys) = False"
| "same_bits (True # xs) (False # ys) = False"

fun short_bits :: "bool list \<Rightarrow> bool" where
  "short_bits xs \<longleftrightarrow> drop 128 xs = []"

definition product_check :: "num \<Rightarrow> num \<Rightarrow> num \<Rightarrow> bool" where
  "product_check a b c \<longleftrightarrow> short_bits (num_bits a) \<and> short_bits (num_bits b) \<and> short_bits (num_bits c) \<and>
     same_bits (fold_back (fold_back (times_bits (num_bits a) (num_bits b)))) (num_bits c)"

lemma eval_xor_bits: "eval_bits (xor_bits xs ys) = eval_bits xs + eval_bits ys"
proof (induction xs ys rule: xor_bits.induct)
  case (4 xs ys)
  have "1 + gf_x * eval_bits xs + (1 + gf_x * eval_bits ys) = (1 + 1) + (gf_x * eval_bits xs + gf_x * eval_bits ys)"
    by (simp only: ac_simps)
  then show ?case using 4 by (simp add: distrib_left)
qed (simp_all add: algebra_simps)

lemma eval_times_bits: "eval_bits (times_bits xs ys) = eval_bits xs * eval_bits ys"
  by (induction xs ys rule: times_bits.induct) (simp_all add: eval_xor_bits algebra_simps)

lemma eval_take_drop: "eval_bits xs = eval_bits (take n xs) + gf_x ^ n * eval_bits (drop n xs)"
proof (induction n arbitrary: xs)
  case (Suc n)
  show ?case
  proof (cases xs)
    case (Cons b bs)
    then show ?thesis by (simp add: Suc [of bs] distrib_left mult.assoc add.assoc)
  qed simp
qed simp

lemma eval_fold_back: "eval_bits (fold_back xs) = eval_bits xs"
proof -
  have "eval_bits [True, True, True, False, False, False, False, True] = gf_x ^ 128"
    unfolding gf_x_128 by (simp add: algebra_simps power2_eq_square power_numeral_reduce [of gf_x] flip: power_Suc2)
  then show ?thesis by (simp only: fold_back_def eval_xor_bits eval_times_bits eval_take_drop [of xs 128, symmetric])
qed

lemma eval_same_bits: "same_bits xs ys \<Longrightarrow> eval_bits xs = eval_bits ys"
  by (induction xs ys rule: same_bits.induct) simp_all

lemma eval_bits_poly: "eval_bits bs = poly_at (\<lambda>i. i < length bs \<and> bs ! i) (length bs)"
proof (induction bs)
  case (Cons b bs)
  have "poly_at (\<lambda>i. i < length (b # bs) \<and> (b # bs) ! i) (1 + length bs) = of_bool b + gf_x * eval_bits bs"
    unfolding poly_at_split Cons by (simp add: poly_at_def)
  then show ?case by simp
qed (simp add: poly_at_def)

lemma bit_num_bits: "bit (numeral n :: nat) i \<longleftrightarrow> i < length (num_bits n) \<and> num_bits n ! i"
proof (induction n arbitrary: i)
  case One
  then show ?case by (cases i) (simp_all add: bit_0)
next
  case (Bit0 n)
  then show ?case by (cases i) (simp_all add: bit_0)
next
  case (Bit1 n)
  then show ?case by (cases i) (simp_all add: bit_0)
qed

lemma Gf_numeral:
  assumes "short_bits (num_bits n)"
  shows "Gf (numeral n) = eval_bits (num_bits n)"
proof -
  have len: "length (num_bits n) \<le> 128" using assms by simp
  have bits: "bit (numeral n :: 128 word) i \<longleftrightarrow> i < length (num_bits n) \<and> num_bits n ! i" if "i < 128" for i
  proof -
    have "bit (of_nat (numeral n) :: 128 word) i \<longleftrightarrow> bit (numeral n :: nat) i"
    proof -
      have "possible_bit TYPE(128 word) i" using that by simp
      then show ?thesis by (simp only: bit_of_nat_iff simp_thms)
    qed
    then have "bit (numeral n :: 128 word) i \<longleftrightarrow> bit (numeral n :: nat) i" by (simp only: of_nat_numeral)
    then show ?thesis by (simp only: bit_num_bits)
  qed
  have "Gf (numeral n) = poly_at (\<lambda>i. i < length (num_bits n) \<and> num_bits n ! i) 128"
  proof -
    have l: "LENGTH(128) = (128 :: nat)" by simp
    show ?thesis unfolding eval_word_Gf eval_word_def l by (rule poly_at_cong) (rule bits)
  qed
  also have "\<dots> = poly_at (\<lambda>i. i < length (num_bits n) \<and> num_bits n ! i) (length (num_bits n))"
    by (rule poly_at_beyond) (use len in auto)
  finally show ?thesis by (simp only: eval_bits_poly)
qed

lemma product_checkD: "product_check a b c \<Longrightarrow> Gf (numeral a) * Gf (numeral b) = Gf (numeral c)"
  unfolding product_check_def
  using eval_same_bits [of "fold_back (fold_back (times_bits (num_bits a) (num_bits b)))" "num_bits c"]
  by (simp add: Gf_numeral eval_fold_back eval_times_bits del: short_bits.simps)

text \<open>Squares only interleave the bits with zeros.\<close>

fun square_bits :: "bool list \<Rightarrow> bool list" where
  "square_bits [] = []"
| "square_bits (x # xs) = x # False # square_bits xs"

definition square_check :: "num \<Rightarrow> num \<Rightarrow> bool" where
  "square_check a c \<longleftrightarrow> short_bits (num_bits a) \<and> short_bits (num_bits c) \<and>
     same_bits (fold_back (fold_back (square_bits (num_bits a)))) (num_bits c)"

lemma eval_square_bits: "eval_bits (square_bits xs) = eval_bits xs * eval_bits xs"
proof (induction xs)
  case (Cons x xs)
  then show ?case using gf_power2_add [of "of_bool x" "gf_x * eval_bits xs"]
    by (cases x) (simp_all add: power2_eq_square ac_simps)
qed simp

lemma square_checkD: "square_check a c \<Longrightarrow> Gf (numeral a) * Gf (numeral a) = Gf (numeral c)"
  unfolding square_check_def
  using eval_same_bits [of "fold_back (fold_back (square_bits (num_bits a)))" "num_bits c"]
  by (simp add: Gf_numeral eval_fold_back eval_square_bits del: short_bits.simps)

lemma take_drop_numeral:
  "take (numeral v) (x # xs) = x # take (pred_numeral v) xs"
  "drop (numeral v) (x # xs) = drop (pred_numeral v) xs"
  by (simp_all add: numeral_eq_Suc)

lemmas product_check_simps =
  product_check_def square_check_def square_bits.simps short_bits.simps num_bits.simps xor_bits.simps times_bits.simps fold_back_def same_bits.simps
  take_Nil drop_Nil take_drop_numeral pred_numeral_simps Num.BitM.simps take_0 drop_0
  list.distinct simp_thms

end
