(* ===== verification/Gf_Field.thy ===== *)
theory Gf_Field
  imports Gf_Ring Addition_Chains
begin

text \<open>
  The ring of 128-bit words is a field, and \<open>gf_2_128_m2_exp\<close> is its inversion. The certificate is the list of the
  iterated squares of \<open>x\<close>: the last, \<open>x ^ (2 ^ 128)\<close>, is \<open>x\<close> again, and \<open>x ^ (2 ^ 64) + x\<close> has an inverse. The
  first makes every \<open>a ^ (2 ^ 128 - 1)\<close> an idempotent. A smallest nontrivial idempotent would cut out a field with
  \<open>2 ^ k\<close> elements, \<open>k < 128\<close>, in which raising to \<open>2 ^ 64\<close> is the identity, which the second excludes.
\<close>

subsection \<open>The iterated squares of \<open>x\<close>\<close>

definition x_squares :: "128 word list" where
  "x_squares =
    [2, 4,
     16, 256,
     65536, 4294967296,
     18446744073709551616, 135,
     16405, 268435729,
     72057594037993729, 5192296858534827628530500624252929,
     10695801939444132319206437814273, 40852786614935679133548678,
     594486085799880, 317319171807580447641733255232,
     21272841581577792734377501409119104880, 178123058470187579300754373079857658247,
     185309517472602589216710143146226674206, 243359572833697916948025442825716044212,
     2242402909557391341593841539292758713, 23534795660742517158384838884479883757,
     174985988737277424980776175160916846157, 175030095290142335996286672108454299053,
     265807388946362947165055761130818848797, 249252559114209554249604311851685858361,
     58796763164556581763983006251523293764, 49134626841591323031921206452464859177,
     27987540068191889485421864406071811155, 271029757364165806137532465049589437209,
     280724925951004403811542151209009346242, 128752713728467045721822022561693573808,
     159741227827866894033846763158209103146, 274834116766907886484561602157405644722,
     269592872973127703478481607229849893488, 281740353144251213267627901976484830580,
     43449847600466687806806694967245739940, 37727843099595198433684011782007776478,
     311928417185453978908537250809886516984, 297740222968517774644413722072226000397,
     32339339626698503367513300576590613010, 223132434853550809815195064548738067112,
     265523960741914972480486897956328640665, 317476001073086156486538380654899563653,
     281134273668648985900959546328737677036, 134228771238834113055021444037992255816,
     150254873993691350120483903676558564010, 233624311168361768088952357930788403998,
     301852678830317075984151617556076790269, 334713874327018819147718792733305726656,
     102613057823079007323731014766805608102, 102960897267461938273022342347012760795,
     12615472659389050585944223579430941846, 127982396443970808193093289421192168483,
     80211020574021611523259929375765860447, 328306714951167239883061265636229931255,
     154202500596702199027624208412024772979, 243851091912831247504069218024646202792,
     27440791048182847192756476088690644789, 211387903213242387898935001709526309270,
     159829576190644668190096436593299055684, 211134062703199012190249497033863383866,
     82185866721533220436512213066902333519, 327395961906668187682165754937045283500,
     129460184901158119860735353079755610614, 165640453935684170557382138895643060837,
     258895673196720778598706762360552858556, 301930392259976828106625834641931740308,
     254590090333913220966971847449742103658, 154605543219637426435106976091970670442,
     328554470600989978311552677909447941173, 66427334083092228965437207507360258028,
     269818012861271281423176274446422361113, 264132206416858785477441377236972222062,
     334025740161143946608295602721698306491, 122383803109284106894334171034010591779,
     296025850348968698648586558724418263869, 37960944824515205685591230648204258402,
     226742293150914418175831072849372273624, 248467511393027050396179622604745119342,
     161687256048543766767383987762312963194, 269110802679140966820977389101215773081,
     195167772352272279581770856328715365701, 6839019468748781921035578916625770989,
     119133456490525504919656485393064943290, 284976786280009736580048287615377352507,
     53368461820224018424322992725600146993, 165521487478005576843608560748526611000,
     195068410978310211650239904624548258566, 113589941149803520359128394698002916676,
     249467295398400182484435455780551427523, 75006380269635190750556711265086168923,
     318824008587287836741888684444380361623, 178459331004814995506250383468567150771,
     211872363948266361377324272839095225429, 143811789042420870636385239690585466781,
     86248589110002907259851524152594849147, 44507931730853748353717482469352571553,
     32963873827986936976259691565938463060, 216630587467047648990556766097492264828,
     185272067944601170075289186680278366549, 220985417642294560069226125886699449841,
     264688778274977021302766754871988896216, 333264177890741770072193430405525003928,
     33205950964766484238866480871644341798, 301310530123703810140221288298382736979,
     254546671986439821273357947065150691235, 154463474563896264286711223429656871936,
     238553731111275542579218303752720181533, 18384089493480778990035902178609102351,
     75820400037257621222803633372476097890, 317696663419018730218660346852253168842,
     265151192445743918497476159262292403413, 227243742383211985895879960446026839890,
     253422517028958359388508295558326299841, 150927228725920353331738429768615062888,
     313214421372485833387472208663997282205, 205270197963465857064863719867483624364,
     64566217092196733533220887167246694252, 296938408697389789750215214903058009285,
     10807226621238021931262095742919972793, 129631382596958590886433730895748353798,
     59414367279926819390058891142076462501, 70216996008105906389747657374764050840,
     264664062837534286517811593844813647762, 313275912279873968957145467509231826604,
     205249681632336591850764335734481569114, 48611766702991209068831621643639680420,
     2]"

lemma x_squares_chain: "successively (\<lambda>a b. Gf a * Gf a = Gf b) x_squares"
  unfolding x_squares_def successively.simps
  by (intro conjI TrueI; rule square_checkD; simp only: product_check_simps)

lemma successive_squares:
  assumes "successively (\<lambda>a b. Gf a * Gf a = Gf b) L" "i < length L"
  shows "Gf (L ! i) = Gf (L ! 0) ^ (2 ^ i)"
  using assms(2)
proof (induction i)
  case (Suc i)
  have "Gf (L ! Suc i) = Gf (L ! i) * Gf (L ! i)"
    using assms(1) Suc.prems by (simp add: successively_conv_nth)
  then show ?case using Suc by (simp add: mult_2 power_add)
qed simp

lemma x_frobenius: "gf_x ^ (2 ^ 64) = Gf 129460184901158119860735353079755610614" "gf_x ^ (2 ^ 128) = gf_x"
proof -
  have l: "length x_squares = 129" "x_squares ! 0 = 2" "x_squares ! 64 = 129460184901158119860735353079755610614" "x_squares ! 128 = 2"
    by (simp_all add: x_squares_def)
  show "gf_x ^ (2 ^ 64) = Gf 129460184901158119860735353079755610614"
    using successive_squares [OF x_squares_chain, of 64, unfolded l] unfolding gf_x_def by simp
  show "gf_x ^ (2 ^ 128) = gf_x"
    using successive_squares [OF x_squares_chain, of 128, unfolded l] unfolding gf_x_def by simp
qed

lemma x_frobenius_unit: "(gf_x ^ (2 ^ 64) + gf_x) * Gf 210407306859290181404817842025723703320 = 1"
proof -
  have "gf_x ^ (2 ^ 64) + gf_x = Gf 129460184901158119860735353079755610612"
    unfolding x_frobenius(1) unfolding gf_x_def plus_gf128.abs_eq by simp
  moreover have "Gf 129460184901158119860735353079755610612 * Gf 210407306859290181404817842025723703320 = Gf (numeral num.One)"
    by (rule product_checkD, simp only: product_check_simps)
  ultimately show ?thesis by (simp add: one_gf128_def)
qed

subsection \<open>Powers of two as exponents\<close>

lemma frobenius_add: "(a + b) ^ (2 ^ k) = a ^ (2 ^ k) + (b :: gf128) ^ (2 ^ k)"
proof (induction k)
  case (Suc k)
  have "c ^ (2 ^ Suc k) = (c ^ (2 ^ k)) ^ 2" for c :: gf128 by (simp flip: power_mult add: mult.commute)
  then show ?case by (simp only: Suc gf_power2_add)
qed simp

lemma frobenius_128: "a ^ (2 ^ 128) = (a :: gf128)"
proof -
  have "(mul_x b) ^ (2 ^ 128) = mul_x (b ^ (2 ^ 128))" for b
    unfolding mul_x_times power_mult_distrib x_frobenius(2) ..
  from linear_times [of "\<lambda>a. a ^ (2 ^ 128)", OF frobenius_add this, of a] show ?thesis by (simp only: power_one mult_1_right)
qed

text \<open>The exponent of the inversion.\<close>

definition inv_exponent :: nat where
  "inv_exponent = 2 ^ 128 - 2"

lemma inv_exponent: "Suc (Suc inv_exponent) = 2 ^ 128"
  unfolding inv_exponent_def by simp

definition idem :: "gf128 \<Rightarrow> gf128" where
  "idem a = a * a ^ inv_exponent"

lemma idem_props: "a * idem a = a" "idem a * idem a = idem a"
proof -
  have "a * (a * a ^ inv_exponent) = a ^ (2 ^ 128)" by (simp only: inv_exponent [symmetric] power_Suc)
  then show a: "a * idem a = a" by (simp only: idem_def frobenius_128)
  have "idem a * idem a = (a * idem a) * a ^ inv_exponent" by (simp only: idem_def ac_simps)
  then show "idem a * idem a = idem a" by (simp only: a) (simp only: idem_def)
qed

subsection \<open>Factors of the ring\<close>

definition factor :: "gf128 \<Rightarrow> gf128 set" where
  "factor e = {r. e * r = r}"

lemma finite_gf128: "finite (UNIV :: gf128 set)" "card (UNIV :: gf128 set) = 2 ^ 128"
proof -
  have "(UNIV :: gf128 set) = Gf ` UNIV" using type_definition.univ [OF type_definition_gf128] by simp
  moreover have "inj Gf" by (rule injI) (simp add: Gf_inject)
  ultimately show "finite (UNIV :: gf128 set)" "card (UNIV :: gf128 set) = 2 ^ 128"
    using finite_imageI [of "UNIV :: 128 word set" Gf] card_image [of Gf UNIV] by (simp_all add: card_word)
qed

lemma finite_factor [simp]: "finite (factor e)"
  by (rule finite_subset [OF _ finite_gf128(1)]) simp

lemma card_factor_dvd:
  assumes "e * e = e"
  shows "card (factor e) dvd 2 ^ 128"
proof -
  let ?h = "\<lambda>r. (e * r, (1 + e) * r)"
  have ee: "e * (e * r) = e * r" for r using assms by (simp flip: mult.assoc)
  have e0: "e * ((1 + e) * r) = 0" for r by (simp add: algebra_simps ee)
  have "bij_betw ?h UNIV (factor e \<times> factor (1 + e))"
  proof (rule bij_betw_byWitness [where f' = "\<lambda>(r, s). r + s"])
    show "\<forall>r \<in> UNIV. (\<lambda>(r, s). r + s) (?h r) = r"
    proof
      fix r
      have "e * r + (1 + e) * r = r + (e * r + e * r)" by (simp only: distrib_right mult_1_left add.left_commute)
      then show "(\<lambda>(r, s). r + s) (?h r) = r" by simp
    qed
    show "\<forall>rs \<in> factor e \<times> factor (1 + e). ?h ((\<lambda>(r, s). r + s) rs) = rs"
    proof
      fix rs assume rs: "rs \<in> factor e \<times> factor (1 + e)"
      obtain r s where rs_eq: "rs = (r, s)" by (cases rs)
      with rs have r: "e * r = r" and s: "(1 + e) * s = s" by (simp_all add: factor_def)
      have es: "e * s = 0" using e0 [of s] by (simp only: s)
      have "e * (r + s) = r" by (simp only: distrib_left r es add_0_right)
      moreover have "(1 + e) * (r + s) = s"
      proof -
        have "(1 + e) * (r + s) = (r + e * r) + (1 + e) * s" by (simp only: distrib_left distrib_right mult_1_left)
        then show ?thesis by (simp only: r s gf_double add_0_left)
      qed
      ultimately show "?h ((\<lambda>(r, s). r + s) rs) = rs" by (simp add: rs_eq)
    qed
    show "?h ` UNIV \<subseteq> factor e \<times> factor (1 + e)"
      by (auto simp: factor_def ee distrib_right distrib_left assms)
    show "(\<lambda>(r, s). r + s) ` (factor e \<times> factor (1 + e)) \<subseteq> UNIV" by simp
  qed
  from bij_betw_same_card [OF this] have "2 ^ 128 = card (factor e) * card (factor (1 + e))"
    by (simp only: finite_gf128(2) card_cartesian_product)
  then show ?thesis by (metis dvd_triv_left)
qed

lemma dvd_power_of_two:
  assumes "q dvd 2 ^ n"
  shows "\<exists>k \<le> n. q = (2 :: nat) ^ k"
  using assms
proof (induction n arbitrary: q)
  case (Suc n)
  show ?case
  proof (cases "even q")
    case True
    then obtain h where h: "q = 2 * h" by blast
    then have "h dvd 2 ^ n" using Suc.prems by simp
    then obtain k where "k \<le> n" "h = 2 ^ k" using Suc.IH by blast
    then show ?thesis using h by (intro exI [of _ "Suc k"]) simp
  next
    case False
    then have "coprime q 2" by (simp add: coprime_right_2_iff_odd)
    then have "q dvd 2 ^ n" using Suc.prems by (simp add: coprime_dvd_mult_right_iff)
    then show ?thesis using Suc.IH [of q] le_SucI by blast
  qed
qed simp

subsection \<open>A smallest factor is a field\<close>

text \<open>
  \<open>smallest e\<close>: an idempotent other than zero whose factor is no larger than that of any other. Every element
  of it other than zero is invertible in it.
\<close>

definition smallest :: "gf128 \<Rightarrow> bool" where
  "smallest e \<longleftrightarrow> e * e = e \<and> e \<noteq> 0 \<and> (\<forall>f. f * f = f \<longrightarrow> f \<noteq> 0 \<longrightarrow> card (factor e) \<le> card (factor f))"

lemma smallest_idem:
  assumes "smallest e" "y \<in> factor e" "y \<noteq> 0"
  shows "idem y = e"
proof -
  let ?f = "idem y"
  have ey: "e * y = y" using assms(2) by (simp add: factor_def)
  have ef: "e * ?f = ?f" unfolding idem_def mult.assoc [symmetric] ey ..
  have "?f \<noteq> 0" using idem_props(1) [of y] assms(3) by auto
  then have "card (factor e) \<le> card (factor ?f)" using assms(1) idem_props(2) [of y] by (auto simp: smallest_def)
  moreover have "factor ?f \<subseteq> factor e"
  proof
    fix r assume "r \<in> factor ?f"
    then have r: "?f * r = r" by (simp add: factor_def)
    have "e * r = e * (?f * r)" by (simp only: r)
    also have "\<dots> = (e * ?f) * r" by (simp only: mult.assoc)
    also have "\<dots> = r" by (simp only: ef r)
    finally show "r \<in> factor e" by (simp add: factor_def)
  qed
  ultimately have "factor ?f = factor e" using card_seteq [OF finite_factor] by blast
  then have "e \<in> factor ?f" using assms(1) by (simp add: factor_def smallest_def)
  then show ?thesis using ef by (simp add: factor_def mult.commute)
qed

lemma power_factor:
  assumes "smallest e" "y \<in> factor e"
  shows "y ^ card (factor e) = y"
proof (cases "y = 0")
  case True
  have "e \<in> factor e" using assms(1) by (simp add: factor_def smallest_def)
  then have "0 < card (factor e)" using finite_factor card_gt_0_iff by blast
  then show ?thesis unfolding True by (rule zero_power)
next
  case False
  let ?K = "factor e - {0}"
  have e: "e * e = e" "e \<noteq> 0" using assms(1) by (simp_all add: smallest_def)
  have z: "z * z ^ inv_exponent = e" if "z \<in> ?K" for z using smallest_idem [OF assms(1)] that by (simp add: idem_def)
  have ey: "e * y = y" using assms(2) by (simp add: factor_def)
  have inj: "inj_on ((*) y) ?K"
  proof (rule inj_onI)
    fix z w assume zw: "z \<in> ?K" "w \<in> ?K" "y * z = y * w"
    have "y ^ inv_exponent * (y * z) = y ^ inv_exponent * (y * w)" by (simp only: zw(3))
    then have "e * z = e * w" using z [of y] False assms(2) by (simp add: mult.assoc [symmetric] mult.commute [of _ y])
    then show "z = w" using zw(1,2) by (simp add: factor_def)
  qed
  have "(*) y ` ?K \<subseteq> ?K"
  proof
    fix v assume "v \<in> (*) y ` ?K"
    then obtain w where w: "w \<in> ?K" "v = y * w" by blast
    have "e * v = v" unfolding w(2) mult.assoc [symmetric] ey ..
    moreover have "v \<noteq> 0"
    proof
      assume "v = 0"
      then have "y ^ inv_exponent * (y * w) = 0" using w(2) by simp
      then have "e * w = 0" using z [of y] False assms(2) by (simp add: mult.assoc [symmetric] mult.commute [of _ y])
      then show False using w(1) by (simp add: factor_def)
    qed
    ultimately show "v \<in> ?K" by (simp add: factor_def)
  qed
  then have image: "(*) y ` ?K = ?K" by (intro card_subset_eq) (simp_all add: card_image [OF inj])
  have "(\<Prod>w \<in> ?K. w) = (\<Prod>w \<in> (*) y ` ?K. w)" by (simp only: image)
  also have "\<dots> = (\<Prod>w \<in> ?K. y * w)" by (rule prod.reindex_cong [OF inj refl]) simp
  also have "\<dots> = y ^ card ?K * (\<Prod>w \<in> ?K. w)" by (simp add: prod.distrib)
  finally have P: "(\<Prod>w \<in> ?K. w) = y ^ card ?K * (\<Prod>w \<in> ?K. w)" .
  have "(\<Prod>w \<in> ?K. w) * (\<Prod>w \<in> ?K. w ^ inv_exponent) = (\<Prod>w \<in> ?K. e)"
    unfolding prod.distrib [symmetric] using z by (intro prod.cong) simp_all
  also have "\<dots> = e"
  proof -
    have "e ^ Suc n = e" for n by (induction n) (simp_all add: e)
    moreover have "e \<in> ?K" using e by (simp add: factor_def)
    then have "card ?K \<noteq> 0" by auto
    ultimately show ?thesis by (metis not0_implies_Suc prod_constant)
  qed
  finally have S: "(\<Prod>w \<in> ?K. w) * (\<Prod>w \<in> ?K. w ^ inv_exponent) = e" .
  have "y ^ card ?K * e = (y ^ card ?K * (\<Prod>w \<in> ?K. w)) * (\<Prod>w \<in> ?K. w ^ inv_exponent)"
    by (simp only: S mult.assoc)
  then have "y ^ card ?K * e = e" by (simp only: P [symmetric] S)
  then have "y ^ card ?K * e * y = e * y" by (rule arg_cong)
  then have "y ^ Suc (card ?K) = y" by (simp only: mult.assoc ey power_Suc2)
  moreover have "0 \<in> factor e" by (simp add: factor_def)
  then have "Suc (card ?K) = card (factor e)" by (rule card_Suc_Diff1 [OF finite_factor])
  ultimately show ?thesis by simp
qed

subsection \<open>There is only one factor\<close>

lemma frobenius_iterate: "y ^ (2 ^ n) = y \<Longrightarrow> y ^ (2 ^ (n * q)) = (y :: gf128)"
proof (induction q)
  case (Suc q)
  have "y ^ (2 ^ (n * Suc q)) = (y ^ (2 ^ n)) ^ (2 ^ (n * q))" by (simp add: power_add flip: power_mult)
  then show ?case using Suc by simp
qed simp

lemma frobenius_gcd:
  fixes y :: gf128
  assumes "y ^ (2 ^ i) = y" "y ^ (2 ^ j) = y"
  shows "y ^ (2 ^ gcd i j) = y"
  using assms
proof (induction i j rule: gcd_nat_induct)
  case (step m n)
  note y = frobenius_iterate [OF step.prems(2), of "m div n"]
  have "y ^ (2 ^ m) = y ^ (2 ^ (n * (m div n) + m mod n))" by simp
  also have "\<dots> = (y ^ (2 ^ (n * (m div n)))) ^ (2 ^ (m mod n))" by (simp only: power_add power_mult)
  finally have "y ^ (2 ^ (m mod n)) = y" using step.prems(1) y by simp
  with step.IH [OF step.prems(2)] show ?case by (simp add: gcd_red_nat [of m n])
qed simp

lemma smallest_one:
  assumes "smallest e"
  shows "e = 1"
proof (rule ccontr)
  assume "e \<noteq> 1"
  have e: "e * e = e" "e \<noteq> 0" using assms by (simp_all add: smallest_def)
  obtain k where k: "k \<le> 128" "card (factor e) = 2 ^ k"
    using dvd_power_of_two [OF card_factor_dvd [OF e(1)]] by blast
  have "1 \<notin> factor e" using \<open>e \<noteq> 1\<close> by (simp add: factor_def)
  then have "factor e \<subset> UNIV" by blast
  then have "card (factor e) < 2 ^ 128" using psubset_card_mono [OF finite_gf128(1)] by (simp only: finite_gf128(2))
  then have "k < 128" unfolding k(2) by (rule power_less_imp_less_exp [rotated]) simp
  have "k \<noteq> 0"
  proof
    assume "k = 0"
    then have "card (factor e) = 1" using k(2) by simp
    then obtain v where "factor e = {v}" by (rule card_1_singletonE)
    moreover have "0 \<in> factor e" "e \<in> factor e" using e by (simp_all add: factor_def)
    ultimately show False using e(2) by simp
  qed
  obtain j where j: "j \<le> 7" "gcd k 128 = 2 ^ j"
    using dvd_power_of_two [of "gcd k 128" 7] by auto
  have "gcd k 128 < 128" using \<open>k < 128\<close> \<open>k \<noteq> 0\<close> by (meson gcd_le1_nat le_less_trans)
  then have "j \<le> 6" using j by (cases "j = 7") auto
  then have d64: "gcd k 128 dvd 64" using le_imp_power_dvd [of j 6 "2 :: nat"] j(2) by simp
  let ?y = "e * gf_x"
  have "?y \<in> factor e" using e(1) by (simp add: factor_def flip: mult.assoc)
  then have "?y ^ (2 ^ k) = ?y" using power_factor [OF assms] k(2) by metis
  then have "?y ^ (2 ^ gcd k 128) = ?y" using frobenius_128 by (rule frobenius_gcd)
  then have "?y ^ (2 ^ 64) = ?y" using frobenius_iterate d64 by (metis dvdE)
  moreover have "e ^ (2 ^ 64) = e"
  proof -
    have "e ^ (2 ^ 1) = e" by (simp add: power2_eq_square e)
    from frobenius_iterate [OF this, of 64] show ?thesis by (simp only: mult_1)
  qed
  ultimately have "e * gf_x ^ (2 ^ 64) = e * gf_x" by (simp only: power_mult_distrib)
  then have "e * (gf_x ^ (2 ^ 64) + gf_x) = 0" by (simp only: distrib_left gf_double)
  then have "e * ((gf_x ^ (2 ^ 64) + gf_x) * Gf 210407306859290181404817842025723703320) = 0" by (simp only: mult.assoc [symmetric] mult_zero_left)
  then show False using e(2) by (simp only: x_frobenius_unit mult_1_right)
qed

lemma idem_one:
  assumes "a \<noteq> 0"
  shows "idem a = 1"
proof -
  let ?E = "{e. e * e = e \<and> e \<noteq> (0 :: gf128)}"
  have a: "idem a \<in> ?E" using idem_props [of a] assms by auto
  obtain e where e: "e \<in> ?E" "\<And>f. f \<in> ?E \<Longrightarrow> card (factor e) \<le> card (factor f)"
    using ex_has_least_nat [of "\<lambda>e. e \<in> ?E", OF a, of "\<lambda>e. card (factor e)"] by blast
  then have "smallest e" by (simp add: smallest_def)
  then have "e = 1" by (rule smallest_one)
  then have one: "smallest 1" using \<open>smallest e\<close> by simp
  then show ?thesis using smallest_idem [OF one, of a] assms by (simp add: factor_def)
qed

lemma gf_inverse: "a \<noteq> 0 \<Longrightarrow> a ^ inv_exponent * a = (1 :: gf128)"
  using idem_one [of a] by (simp add: idem_def mult.commute)

lemma gf_2_128_m2_exp_inverse: "a \<noteq> 0 \<Longrightarrow> gf_2_128_m2_exp a * a = (1 :: gf128)"
  using gf_inverse [of a] by (simp add: gf_2_128_m2_exp_power inv_exponent_def)

instantiation gf128 :: field
begin

definition inverse_gf128 :: "gf128 \<Rightarrow> gf128" where
  "inverse_gf128 x = gf_2_128_m2_exp x"

definition divide_gf128 :: "gf128 \<Rightarrow> gf128 \<Rightarrow> gf128" where
  "divide_gf128 x y = x * gf_2_128_m2_exp y"

instance
proof
  show "x \<noteq> 0 \<Longrightarrow> inverse x * x = 1" for x :: gf128 by (simp add: inverse_gf128_def gf_2_128_m2_exp_inverse)
  show "x div y = x * inverse y" for x y :: gf128 by (simp add: divide_gf128_def inverse_gf128_def)
  show "inverse (0 :: gf128) = 0" unfolding inverse_gf128_def gf_2_128_m2_exp_power by (rule zero_power) simp
qed

end

end
