(* ===== verification/Gf_Subfield.thy ===== *)
theory Gf_Subfield
  imports Gf_Field
begin

text \<open>
  The subfield GF(2^16) of \<open>src/src/fields/field2_128/mod.rs\<close>, as a vector space over GF(2): \<open>inject\<close> sums the
  basis elements that the bits of its argument choose, \<open>uninject\<close> finds the bits again with the
  lower-upper decomposition of the basis (\<open>constants.rs\<close>). Both loops are additive, so each is known from its values
  on a basis, which the kernel evaluates.
\<close>

subsection \<open>Constants\<close>

definition subfield_basis :: "gf128 list" where
  "subfield_basis = map Gf
    [1, 122753392676920971658749122761936853580,
     185726315739164108859399796142663757480, 242075443675499227109267320400911498989,
     222542784214874944227167260511584909351, 112425233274138136655968706803108112542,
     111955919296675432803292387102199683976, 98263563783606923211003062286538201250,
     201564998845547644025367330818532893392, 160337305018218142404182087593505552404,
     226322062164902409880343938983895220315, 162097237762330204766181745825071946233,
     231881152083561309652087018093156258488, 285712114744156533702206238221900352048,
     7298129229485713500594372746195714592, 33006046103584326006971076539670943571]"

record subfield_basis_lower_upper_decomposition =
  lu_upper :: "128 word list"
  lu_lower_inverse :: "16 word list"
  lu_first_nonzero :: "nat list"

definition subfield_basis_lu_decomposition :: subfield_basis_lower_upper_decomposition where
  "subfield_basis_lu_decomposition =
    \<lparr>lu_upper =
     [0x1, 0xa76c2e634c6483ae9ba3282087a3f826,
      0xb61e08da12f9665c3f8de8a2f9ff7eec, 0x8bb99658eaf2cae0a6e310fb6e176ea8,
      0x7841f7cf03b0d5a3caef76488b2bfe10, 0xea47795d67f8b2e4ce0af6a34fb0a4a0,
      0xd3276f5fb2185410e7ab29852dd0b0c0, 0x35c703f8f8a328dcb89fb94052975180,
      0xdb99d2938de757eb6c51c5088af37700, 0x2d290b30633d2d307afe9d9a57c89e00,
      0x3cc29927824eeb2034eb7f993103ac00, 0x6ceac7ebd34f72d21117d60b97f1a800,
      0x4c615cf89cffda2ed4c87cff359bf000, 0xeb69b5f522aa1349f13bf9c28a14c000,
      0xd2fe31fc44ec6af4083bc45ecfdf8000, 0xea0d8c4e795ffb66e4c8d38dc4db0000],
     lu_lower_inverse = [0x1, 0x11, 0x9, 0x4, 0x35, 0xb, 0x9c, 0x4f, 0x2eb, 0x688, 0x1a9, 0x8e3, 0x1710, 0x2cf1, 0xb2c7, 0x6e5e],
     lu_first_nonzero = [0, 1, 2, 3, 4, 5, 6, 7, 8, 9, 10, 11, 12, 14, 15, 16]\<rparr>"

subsection \<open>Injection\<close>

fun inject_loop :: "gf128 list \<Rightarrow> 16 word \<Rightarrow> gf128 \<Rightarrow> gf128" where
  "inject_loop [] value injected = injected"
| "inject_loop (basis_element # elements) value injected =
     inject_loop elements (drop_bit 1 value) (injected + (if value AND 1 = 1 then basis_element else 0))"

definition inject_bits :: "nat \<Rightarrow> 16 word \<Rightarrow> gf128" where
  "inject_bits bits value = inject_loop (take bits subfield_basis) value 0"

definition inject :: "16 word \<Rightarrow> gf128" where
  "inject value = inject_bits 16 value"

lemma and_1_eq_1: "w AND 1 = 1 \<longleftrightarrow> odd (w :: 'n :: len word)"
  by (simp add: and_one_eq odd_iff_mod_2_eq_one)

lemma inject_loop_sum:
  "inject_loop bs v acc = acc + (\<Sum>j < length bs. if bit v j then bs ! j else 0)"
proof (induction bs arbitrary: v acc)
  case (Cons b bs)
  show ?case
    unfolding length_Cons sum.lessThan_Suc_shift inject_loop.simps Cons.IH
    by (simp add: and_1_eq_1 bit_drop_bit_eq bit_0 add.assoc cong: if_cong)
qed simp

lemma length_subfield_basis [simp]: "length subfield_basis = 16"
  by (simp add: subfield_basis_def)

lemma inject_bits_sum: "n \<le> 16 \<Longrightarrow> inject_bits n v = (\<Sum>j < n. if bit v j then subfield_basis ! j else 0)"
  unfolding inject_bits_def inject_loop_sum by (auto simp: min_absorb2 intro!: sum.cong)

lemma inject_sum: "inject v = (\<Sum>j < 16. if bit v j then subfield_basis ! j else 0)"
  by (simp add: inject_def inject_bits_sum)

lemma inject_0 [simp]: "inject 0 = 0"
  by (simp add: inject_sum)

lemma inject_xor: "inject (v XOR w) = inject v + inject w"
  unfolding inject_sum sum.distrib [symmetric] by (intro sum.cong) (simp_all add: bit_xor_iff)

lemma inject_one_bit: "j < 16 \<Longrightarrow> inject (push_bit j 1) = subfield_basis ! j"
proof -
  assume j: "j < 16"
  have "inject (push_bit j 1) = (\<Sum>i < 16. if i = j then subfield_basis ! j else 0)"
    unfolding inject_sum using j by (intro sum.cong) (auto simp: bit_simps)
  then show ?thesis using j by simp
qed

subsection \<open>Projection\<close>

definition uninject_step ::
  "subfield_basis_lower_upper_decomposition \<Rightarrow> 128 word \<times> 16 word \<Rightarrow> nat \<Rightarrow> 128 word \<times> 16 word" where
  "uninject_step D st rank =
     (let (remainder, subfield_encoding) = st;
          b = (drop_bit (lu_first_nonzero D ! rank) remainder AND 1 = 1)
      in (remainder XOR (if b then lu_upper D ! rank else 0),
          subfield_encoding XOR (if b then lu_lower_inverse D ! rank else 0)))"

definition uninject_loop :: "128 word \<Rightarrow> 128 word \<times> 16 word" where
  "uninject_loop x = foldl (uninject_step subfield_basis_lu_decomposition) (x, 0) [0..<16]"

definition uninject :: "gf128 \<Rightarrow> 16 word option" where
  "uninject self =
     (let (remainder, subfield_encoding) = uninject_loop (as_u128 self)
      in if remainder = 0 then Some subfield_encoding else None)"

lemma bit_and_1: "drop_bit n w AND 1 = 1 \<longleftrightarrow> bit w n" for w :: "'n :: len word"
  by (simp add: and_1_eq_1 bit_iff_odd_drop_bit)

abbreviation xor2 :: "128 word \<times> 16 word \<Rightarrow> 128 word \<times> 16 word \<Rightarrow> 128 word \<times> 16 word" where
  "xor2 s t \<equiv> (fst s XOR fst t, snd s XOR snd t)"

lemma uninject_step_additive: "uninject_step D (xor2 s t) r = xor2 (uninject_step D s r) (uninject_step D t r)"
  by (cases "bit (fst s) (lu_first_nonzero D ! r)"; cases "bit (fst t) (lu_first_nonzero D ! r)")
    (simp_all add: uninject_step_def bit_and_1 bit_xor_iff Let_def case_prod_beta xor.assoc xor.commute xor.left_commute)

lemma foldl_uninject_additive:
  "foldl (uninject_step D) (xor2 s t) rs = xor2 (foldl (uninject_step D) s rs) (foldl (uninject_step D) t rs)"
proof (induction rs arbitrary: s t)
  case (Cons r rs)
  show ?case unfolding foldl_Cons uninject_step_additive by (rule Cons.IH)
qed simp

lemma uninject_loop_additive: "uninject_loop (x XOR y) = xor2 (uninject_loop x) (uninject_loop y)"
  unfolding uninject_loop_def using foldl_uninject_additive [of _ "(x, 0)" "(y, 0)"] by simp

text \<open>What the table of the decomposition promises: a row of \<open>upper\<close> is the element that \<open>lower_inverse\<close> names.\<close>

lemma lower_upper_table:
  "map inject (lu_lower_inverse subfield_basis_lu_decomposition) = map Gf (lu_upper subfield_basis_lu_decomposition)"
  by (simp add: subfield_basis_lu_decomposition_def inject_def inject_bits_def subfield_basis_def plus_gf128.abs_eq)

lemma lower_upper: "r < 16 \<Longrightarrow>
  inject (lu_lower_inverse subfield_basis_lu_decomposition ! r) = Gf (lu_upper subfield_basis_lu_decomposition ! r)"
proof -
  assume "r < 16"
  moreover have "length (lu_lower_inverse subfield_basis_lu_decomposition) = 16" "length (lu_upper subfield_basis_lu_decomposition) = 16"
    by (simp_all add: subfield_basis_lu_decomposition_def)
  ultimately show ?thesis using arg_cong [OF lower_upper_table, of "\<lambda>xs. xs ! r"] by simp
qed

lemma uninject_loop_basis_table:
  "map (\<lambda>b. uninject_loop (as_u128 b)) subfield_basis = map (\<lambda>j. (0, push_bit j 1)) [0..<16]"
  by (simp add: uninject_loop_def uninject_step_def bit_and_1 subfield_basis_lu_decomposition_def subfield_basis_def Gf_inverse
      upt_rec)

lemma uninject_loop_basis: "j < 16 \<Longrightarrow> uninject_loop (as_u128 (subfield_basis ! j)) = (0, push_bit j 1)"
  using arg_cong [OF uninject_loop_basis_table, of "\<lambda>xs. xs ! j"] by simp

lemma uninject_loop_invariant:
  "\<forall>r \<in> set rs. r < 16 \<Longrightarrow>
   (case foldl (uninject_step subfield_basis_lu_decomposition) (x, e) rs of (y, d) \<Rightarrow> Gf y + inject d) = Gf x + inject e"
proof (induction rs arbitrary: x e)
  case (Cons r rs)
  obtain x' e' where s: "uninject_step subfield_basis_lu_decomposition (x, e) r = (x', e')" by fastforce
  have "Gf x' + inject e' = Gf x + inject e"
  proof (cases "bit x (lu_first_nonzero subfield_basis_lu_decomposition ! r)")
    case True
    then have x': "x' = x XOR lu_upper subfield_basis_lu_decomposition ! r"
      "e' = e XOR lu_lower_inverse subfield_basis_lu_decomposition ! r"
      using s by (simp_all add: uninject_step_def bit_and_1)
    have "Gf x' = Gf x + Gf (lu_upper subfield_basis_lu_decomposition ! r)" by (simp add: x' plus_gf128.abs_eq)
    then show ?thesis using lower_upper [of r] Cons.prems by (simp add: x'(2) inject_xor)
  next
    case False
    then show ?thesis using s by (simp add: uninject_step_def bit_and_1)
  qed
  then show ?case using Cons by (simp add: s)
qed simp

theorem uninject_Some: "uninject x = Some v \<Longrightarrow> inject v = x"
proof -
  assume u: "uninject x = Some v"
  obtain y d where l: "uninject_loop (as_u128 x) = (y, d)" by fastforce
  then have "y = 0" "d = v" using u by (auto simp: uninject_def split: if_splits)
  moreover have "Gf y + inject d = Gf (as_u128 x)"
    using uninject_loop_invariant [of "[0..<16]" "as_u128 x" 0] l by (simp add: uninject_loop_def del: upt_rec_numeral)
  ultimately show ?thesis by (simp add: as_u128_inverse flip: zero_gf128_def)
qed

lemma uninject_loop_sum:
  assumes "n \<le> 16"
  shows "uninject_loop (as_u128 (\<Sum>j < n. if bit v j then subfield_basis ! j else 0)) = (0, take_bit n v)"
  using assms
proof (induction n)
  case 0
  have "foldl (uninject_step D) (0, 0) rs = (0, 0)" for D rs
    by (induction rs) (simp_all add: uninject_step_def)
  then show ?case by (simp add: uninject_loop_def zero_gf128.rep_eq)
next
  case (Suc n)
  let ?s = "\<Sum>j < n. if bit v j then subfield_basis ! j else 0"
  have t: "take_bit (Suc n) v = take_bit n v XOR (if bit v n then push_bit n 1 else 0)"
    using Suc.prems by (intro bit_word_eqI) (auto simp: bit_simps less_Suc_eq)
  show ?case
  proof (cases "bit v n")
    case True
    have "as_u128 (\<Sum>j < Suc n. if bit v j then subfield_basis ! j else 0) = as_u128 ?s XOR as_u128 (subfield_basis ! n)"
      using True by (simp add: plus_gf128.rep_eq)
    then show ?thesis using Suc uninject_loop_basis [of n] True by (simp add: uninject_loop_additive t)
  next
    case False
    then show ?thesis using Suc by (simp add: t)
  qed
qed

theorem uninject_inject: "uninject (inject v) = Some v"
proof -
  have "take_bit 16 v = v" using take_bit_word_eq_self [of 16 v] by simp
  then show ?thesis using uninject_loop_sum [of 16 v] by (simp add: uninject_def inject_sum)
qed

lemma inject_inj: "inject v = inject w \<Longrightarrow> v = w"
  by (metis option.inject uninject_inject)

section \<open>Gf Twiddle\<close>

text \<open>
  The table \<open>twiddle_array\<close> of \<open>src/src/fields/field2_128/constants.rs\<close> and what it holds. \<open>vanish i\<close> is the
  polynomial that vanishes on the sums of the first \<open>i\<close> basis elements, scaled to be one at the next. It is defined by
  its recurrence, and entry \<open>i\<close>, \<open>j\<close> of the table is shown to be its value at basis element \<open>j\<close>: the kernel
  checks the recurrence from every row to the next.
\<close>

definition twiddle_array :: "gf128 list list" where
  "twiddle_array = map (map Gf)
    [[1, 122753392676920971658749122761936853580, 185726315739164108859399796142663757480,
      242075443675499227109267320400911498989, 222542784214874944227167260511584909351,
      112425233274138136655968706803108112542, 111955919296675432803292387102199683976,
      98263563783606923211003062286538201250, 201564998845547644025367330818532893392,
      160337305018218142404182087593505552404, 226322062164902409880343938983895220315,
      162097237762330204766181745825071946233, 231881152083561309652087018093156258488,
      285712114744156533702206238221900352048, 7298129229485713500594372746195714592,
      33006046103584326006971076539670943571],
     [0, 1, 286951796544069427116289924355363222756, 205758735199428137656536022487254427746,
      23757469676399553940038052538735621596, 161549623495630183708663389875042496835,
      16275930523155067441630209938366198059, 190300499423516401406868752291218395892,
      11448054044492245544708082350784790892, 28148182364517770471961017904963996257,
      154977613376610097022172464622995110854, 76510322097641330670743902342087859838,
      238362568792294389666080992445392941271, 173217726505858477928634410586126651478,
      81545844897013238588158283858154956233, 189175746861513884278977899876925272681],
     [0, 0, 1, 149604548812814971135929617817875991747, 18287642172741067191237245240449235364,
      307091996710368962282810895442127142609, 201835466705828260825510313465461159048,
      194258834002682884674953542971235556380, 248981368054472319760436396505833520019,
      178136518006013047973130452485618317015, 313676359486875526854146978029369761794,
      92353577814579651570056745768523583833, 195670921082380475412214841834596521965,
      134351024333749293707731262765274912041, 74870318249022658301033765250020402553,
      32567027570433742491675553581848801066],
     [0, 0, 0, 1, 307263416323549896857530870633261674003, 82261261761985330095318507405292410799,
      338608655987419545865071306860662489358, 302330271307028456681319155803179903359,
      195892472845583133581572054558965677184, 236934410982817785485347228471245885754,
      312356217329746682073303095870834666114, 269194236549396743112079843039137721637,
      22576919569049008877775826437195400979, 113634793632070596656432600399929337856,
      117803143902495298852781605950600491320, 190038277193786052885877982693364496125],
     [0, 0, 0, 0, 1, 228135735640806269028499007403483376367, 274212946793736732184887430496366720169,
      178264668457174907519505051147403859531, 306080296125733219811682242544493294523,
      327773836761295472749990895064997074991, 198128310469225103564532344069124399,
      65176661250063127310677367247900067852, 242342804780088945017155417130892677514,
      138772011260490117816252961574289306816, 205253056393609005522875972501154885983,
      317726287660162658821387861477302583473],
     [0, 0, 0, 0, 0, 1, 217250839138421353436318368084321759680, 317754180356169049724161533948814551100,
      16927176668965923175402717746039624447, 258776387831806339857021365896849098817,
      17666080074338456966664106913120137980, 60009081516200663335631386860132791339,
      102991965940264533127899026339393950588, 112331229927218020056263576011034372590,
      184500073728661779510508730900433841535, 211218446533310416807092936054851981786],
     [0, 0, 0, 0, 0, 0, 1, 173925311393179455246569828224129260302,
      296308313587701766766948086293600070191, 33332068644302616674122975055691889483,
      155900095362269519779319759163748677093, 43587746736855930083301997797325514856,
      296423362206237654114472540790749486996, 114177498896775655524413766364624920718,
      55022947539972640258572133274184718364, 113051992297966524881852629333968671858],
     [0, 0, 0, 0, 0, 0, 0, 1, 297062813223354907329411156269979989384,
      55498875102507815491353012386755245730, 97183195234143136341179557816284787233,
      270403797531338209745567427038712884667, 123713051752486943980447104415706581647,
      133020482301726714061969471043085869386, 129084436268751443109719694773436356216,
      300999069130577813329649794063126094168],
     [0, 0, 0, 0, 0, 0, 0, 0, 1, 1645703777016437714629157206641955411,
      231496577504192395792668042882768762319, 317726287660162658821387861477302583473,
      27694789911334405391595093561069647213, 22687114254299160926038189888566784014,
      58546241224996357010262736068369977482, 264487024855738888491702452631261417506],
     [0, 0, 0, 0, 0, 0, 0, 0, 0, 1, 38037535346261701501342686448200276617,
      54221509729363911693681432243308123656, 301991129608627453072761912641719839795,
      70357236220939224698835302321949477827, 339250576658533255637023616542837909595,
      47859474030351277790005742802004690535],
     [0, 0, 0, 0, 0, 0, 0, 0, 0, 0, 1, 217480865654509432899360809558247575290,
      189903756104397162778830291913051146195, 222867999970256714018398050712535064668,
      139517438828506211642716080863358198247, 285320343925353838224981329933203993161],
     [0, 0, 0, 0, 0, 0, 0, 0, 0, 0, 0, 1, 258795108754019427095027841722093167037,
      98205778530760675500084609155277246157, 205350314264990556018588615100340325482,
      91685833721197891782118719076912795535],
     [0, 0, 0, 0, 0, 0, 0, 0, 0, 0, 0, 0, 1, 337885671867720762115972294340238537909,
      133312971165295752178238705787144490844, 79865913147303941867309655175065324520],
     [0, 0, 0, 0, 0, 0, 0, 0, 0, 0, 0, 0, 0, 1, 34075701874363500988951311760257950112,
      60671999173760487464442662968386560731],
     [0, 0, 0, 0, 0, 0, 0, 0, 0, 0, 0, 0, 0, 0, 1, 333868580667653917453718037019227144272],
     [0, 0, 0, 0, 0, 0, 0, 0, 0, 0, 0, 0, 0, 0, 0, 1]]"

definition twiddle_array_at :: "nat \<Rightarrow> nat \<Rightarrow> gf128 res" where
  "twiddle_array_at x y = and_then (nth_res twiddle_array x) (\<lambda>row. nth_res row y)"

subsection \<open>From a row to the next\<close>

definition twist_check :: "num \<Rightarrow> num \<Rightarrow> num \<Rightarrow> bool" where
  "twist_check a b h \<longleftrightarrow> short_bits (num_bits a) \<and> short_bits (num_bits b) \<and> short_bits (num_bits h) \<and>
     same_bits (fold_back (fold_back (times_bits (num_bits b) (num_bits h))))
       (fold_back (fold_back (xor_bits (square_bits (num_bits a)) (num_bits a))))"

lemma twist_checkD: "twist_check a b h \<Longrightarrow>
  Gf (numeral b) * Gf (numeral h) = Gf (numeral a) * Gf (numeral a) + Gf (numeral a)"
  unfolding twist_check_def
  using eval_same_bits [of "fold_back (fold_back (times_bits (num_bits b) (num_bits h)))"
    "fold_back (fold_back (xor_bits (square_bits (num_bits a)) (num_bits a)))"]
  by (simp add: Gf_numeral eval_fold_back eval_times_bits eval_square_bits eval_xor_bits del: short_bits.simps)

lemma twist_check_one: "twist_check a num.One h \<Longrightarrow> Gf 1 * Gf (numeral h) = Gf (numeral a) * Gf (numeral a) + Gf (numeral a)"
  using twist_checkD [of a num.One h] by simp

lemma twist_zero: "Gf 0 * x = Gf 0 * Gf 0 + Gf 0" "Gf 0 * x = Gf 1 * Gf 1 + Gf 1"
  by (simp_all flip: zero_gf128_def one_gf128_def)

lemmas twist_simps = twist_check_def product_check_simps

text \<open>A row, and the factor \<open>h\<close> that scales the next.\<close>

fun twisted_rows :: "gf128 list \<Rightarrow> gf128 list list \<Rightarrow> bool" where
  "twisted_rows (h # hs) (r # r' # rs) \<longleftrightarrow> list_all2 (\<lambda>a b. b * h = a * a + a) r r' \<and> twisted_rows hs (r' # rs)"
| "twisted_rows hs rs \<longleftrightarrow> hs = []"

definition twist_factors :: "gf128 list" where
  "twist_factors = map Gf
    [286951796544069427116289924355363222756, 333913363586212788451085358080790897259,
     271149209704318753872662299293875910812, 22352222091429026032153762824399019696,
     112365622936173784305882695103101043043, 167406287494592387579421347451087450242,
     2645740655135940624808708121149600970, 172933128880578684211816198068198079895,
     87688842561743127735015753816648176278, 302201905106349590358631770063504346687,
     81696348236308593147669477738931172619, 128732772320910808557386231600462810948,
     249612645565324745171999268691596939097, 253672010339822576740584442657026948028,
     222592760694176230064180166216185190941]"

lemma twiddle_array_twisted: "twisted_rows twist_factors twiddle_array"
  unfolding twist_factors_def twiddle_array_def list.map twisted_rows.simps list_all2_Cons list_all2_Nil
  by (intro conjI refl TrueI; (rule twist_zero | (rule twist_checkD, simp only: twist_simps) | (rule twist_check_one, simp only: twist_simps)))

subsection \<open>The polynomials behind the table\<close>

fun vanish :: "nat \<Rightarrow> gf128 \<Rightarrow> gf128" where
  "vanish 0 x = x"
| "vanish (Suc i) x = (vanish i x * vanish i x + vanish i x) * inverse (twist_factors ! i)"

lemma vanish_add: "vanish i (x + y) = vanish i x + vanish i y"
proof (induction i)
  case (Suc i)
  have "(a + b) * (a + b) + (a + b) = (a * a + a) + (b * b + b)" for a b :: gf128
    using gf_power2_add [of a b] by (simp add: power2_eq_square ac_simps)
  then show ?case using Suc by (simp add: distrib_right)
qed simp

lemma vanish_0 [simp]: "vanish i 0 = 0"
  by (rule additive_zero) (rule vanish_add)

lemma vanish_sum: "vanish i (\<Sum>j < n. g j) = (\<Sum>j < n. vanish i (g j))" for n :: nat
  by (rule additive_sum) (rule vanish_add)

lemma twist_factors_nonzero: "i < 15 \<Longrightarrow> twist_factors ! i \<noteq> 0"
proof -
  have "0 \<notin> set twist_factors" "length twist_factors = 15" by (simp_all add: twist_factors_def zero_gf128_def Gf_inject)
  then show "i < 15 \<Longrightarrow> ?thesis" by (metis nth_mem)
qed

lemma twisted_rows_nth:
  "twisted_rows hs rs \<Longrightarrow> i < length hs \<Longrightarrow> list_all2 (\<lambda>a b. b * hs ! i = a * a + a) (rs ! i) (rs ! Suc i)"
proof (induction hs rs arbitrary: i rule: twisted_rows.induct)
  case (1 h hs r r' rs)
  then show ?case by (cases i) simp_all
qed simp_all

lemma twiddle_array_first: "twiddle_array ! 0 = subfield_basis"
  by (simp add: twiddle_array_def subfield_basis_def)

lemma twiddle_array_rows: "length twiddle_array = 16" "r \<in> set twiddle_array \<Longrightarrow> length r = 16"
  by (auto simp: twiddle_array_def)

lemma twiddle_array_vanish: "i < 16 \<Longrightarrow> j < 16 \<Longrightarrow> twiddle_array ! i ! j = vanish i (subfield_basis ! j)"
proof (induction i)
  case 0
  show ?case by (simp add: twiddle_array_first)
next
  case (Suc i)
  let ?a = "twiddle_array ! i ! j" and ?b = "twiddle_array ! Suc i ! j" and ?h = "twist_factors ! i"
  have i: "i < length twist_factors" using Suc.prems(1) by (simp add: twist_factors_def)
  have "j < length (twiddle_array ! i)" using Suc.prems twiddle_array_rows by simp
  from list_all2_nthD [OF twisted_rows_nth [OF twiddle_array_twisted i] this] have "?b * ?h = ?a * ?a + ?a" .
  then have "(?a * ?a + ?a) * inverse ?h = ?b * (?h * inverse ?h)" by (simp only: mult.assoc [symmetric])
  moreover have "?h * inverse ?h = 1" using twist_factors_nonzero [of i] Suc.prems(1) by (intro right_inverse) simp
  ultimately have "?b = (?a * ?a + ?a) * inverse ?h" by simp
  then show ?case using Suc by simp
qed

lemma twiddle_array_at_vanish: "i < 16 \<Longrightarrow> j < 16 \<Longrightarrow> twiddle_array_at i j = Inr (vanish i (subfield_basis ! j))"
  by (simp add: twiddle_array_at_def twiddle_array_rows twiddle_array_vanish)

lemma twiddle_array_triangle:
  "map (\<lambda>i. take (Suc i) (twiddle_array ! i)) [0..<16] = map (\<lambda>i. replicate i 0 @ [1]) [0..<16]"
  by (simp add: twiddle_array_def upt_rec zero_gf128_def one_gf128_def)

lemma vanish_basis:
  assumes "i < 16" "j \<le> i"
  shows "vanish i (subfield_basis ! j) = of_bool (j = i)"
proof -
  have "take (Suc i) (twiddle_array ! i) = replicate i 0 @ [1]"
    using arg_cong [OF twiddle_array_triangle, of "\<lambda>xs. xs ! i"] assms(1) by simp
  then have "take (Suc i) (twiddle_array ! i) ! j = (replicate i 0 @ [1]) ! j" by simp
  then have "twiddle_array ! i ! j = of_bool (j = i)" using assms(2) by (auto simp: nth_append split: if_splits)
  then show ?thesis using twiddle_array_vanish [of i j] assms by simp
qed

end
