(* ===== verification/Gf_Extend.thy ===== *)
theory Gf_Extend
  imports Gf_Subfield Extend_P Polynomials
begin

text \<open>
  The extension in GF(2^128), \<open>src/src/fields/field2_128/extend.rs\<close>: the additive transform over the sums of
  basis elements, the bidirectional transform and \<open>interpolate\<close>. The scratch space of the source is passed along;
  a part of a slice is taken and put back.
\<close>

subsection \<open>Twiddles\<close>

function twiddle_loop :: "nat \<Rightarrow> nat \<Rightarrow> nat \<Rightarrow> gf128 \<Rightarrow> gf128 res" where
  "twiddle_loop pw coset position accumulator =
     (if coset > 0 then
        and_then (if coset mod 2 = 1 then and_then (twiddle_array_at pw position) (\<lambda>t. Inr (accumulator + t))
                  else Inr accumulator)
          (twiddle_loop pw (coset div 2) (position + 1))
      else Inr accumulator)"
  by pat_completeness auto
termination by (relation "measure (\<lambda>(_, coset, _, _). coset)") auto

declare twiddle_loop.simps [simp del]

definition twiddle :: "nat \<Rightarrow> nat \<Rightarrow> gf128 res" where
  "twiddle pw coset = twiddle_loop pw coset 0 0"

definition twiddles_cell :: "nat \<Rightarrow> nat \<Rightarrow> nat \<Rightarrow> gf128 list \<Rightarrow> gf128 list res" where
  "twiddles_cell curr_power k u twiddled =
     and_then (nth_res twiddled u) (\<lambda>t.
     and_then (twiddle_array_at curr_power (k + curr_power + 1)) (\<lambda>w.
       upd_res twiddled (u + 2 ^ k) (t + w)))"

definition twiddles :: "nat \<Rightarrow> nat \<Rightarrow> nat \<Rightarrow> gf128 list \<Rightarrow> gf128 list res" where
  "twiddles curr_power pw coset twiddled =
     and_then (twiddle curr_power coset) (\<lambda>t.
     and_then (upd_res twiddled 0 t)
       (fold_res (\<lambda>k. fold_res (twiddles_cell curr_power k) [0..<2 ^ k]) [0..<pw - curr_power - 1]))"

subsection \<open>Butterflies\<close>

definition fft_butterfly_forward :: "gf128 list \<Rightarrow> nat \<Rightarrow> nat \<Rightarrow> gf128 \<Rightarrow> gf128 list" where
  "fft_butterfly_forward fft_array index stride tw =
     (let fft_array = fft_array[index := fft_array ! index + tw * fft_array ! (index + stride)]
      in fft_array[index + stride := fft_array ! (index + stride) + fft_array ! index])"

definition fft_butterfly_backward :: "gf128 list \<Rightarrow> nat \<Rightarrow> nat \<Rightarrow> gf128 \<Rightarrow> gf128 list" where
  "fft_butterfly_backward fft_array index stride tw =
     (let fft_array = fft_array[index + stride := fft_array ! (index + stride) - fft_array ! index]
      in fft_array[index := fft_array ! index - tw * fft_array ! (index + stride)])"

definition fft_butterfly_diagonal :: "gf128 list \<Rightarrow> nat \<Rightarrow> nat \<Rightarrow> gf128 \<Rightarrow> gf128 list" where
  "fft_butterfly_diagonal fft_array index stride tw =
     (let prev_at_index = fft_array ! index;
          fft_array = fft_array[index := fft_array ! index - tw * fft_array ! (index + stride)]
      in fft_array[index + stride := fft_array ! (index + stride) + prev_at_index])"

subsection \<open>The transform\<close>

datatype direction = Forward | Backward

definition fft_stage ::
  "direction \<Rightarrow> nat \<Rightarrow> nat \<Rightarrow> nat \<Rightarrow> gf128 list \<times> gf128 list \<Rightarrow> (gf128 list \<times> gf128 list) res" where
  "fft_stage direction pw coset curr_power st =
     (let (fft_array, twiddled) = st; stride = 2 ^ curr_power
      in and_then (twiddles curr_power pw coset twiddled) (\<lambda>twiddled.
         and_then (fold_res (\<lambda>(index, start) fft_array.
             and_then (nth_res twiddled index) (\<lambda>twiddle.
               Inr (fold (\<lambda>v fft_array.
                   case direction of
                     Forward \<Rightarrow> fft_butterfly_forward fft_array (start + v) stride twiddle
                   | Backward \<Rightarrow> fft_butterfly_backward fft_array (start + v) stride twiddle)
                 [0..<stride] fft_array)))
             (enumerate 0 (strided 0 (stride * 2) (2 ^ pw))) fft_array) (\<lambda>fft_array.
           Inr (fft_array, twiddled))))"

text \<open>An index or a slice out of range panics; the two slices are long enough for all of them or not.\<close>

definition fft ::
  "direction \<Rightarrow> nat \<Rightarrow> nat \<Rightarrow> gf128 list \<Rightarrow> gf128 list \<Rightarrow> (gf128 list \<times> gf128 list) res" where
  "fft direction pw coset fft_array twiddles_scratch =
     (if pw = 0 then Inr (fft_array, twiddles_scratch)
      else
        let half = 2 ^ (pw - 1)
        in and_then (ensure (half \<le> length twiddles_scratch \<and> 2 ^ pw \<le> length fft_array) oob) (\<lambda>_.
           and_then (fold_res (\<lambda>i. fft_stage direction pw coset
                 (if direction = Forward then pw - i - 1 else i)) [0..<pw]
               (fft_array, take half twiddles_scratch)) (\<lambda>(fft_array, twiddled).
             Inr (fft_array, twiddled @ drop half twiddles_scratch))))"

fun bidirectional_fft ::
  "nat \<Rightarrow> nat \<Rightarrow> nat \<Rightarrow> gf128 list \<Rightarrow> gf128 list \<Rightarrow> (gf128 list \<times> gf128 list) res" where
  "bidirectional_fft 0 coset nodes_count fft_array twiddles_scratch =
     and_then (ensure (length fft_array = 1) (Panic ''length of fft_array must be 2^pw'')) (\<lambda>_.
     and_then (ensure (nodes_count \<le> length fft_array) (Panic ''assertion failed'')) (\<lambda>_.
       Inr (fft_array, twiddles_scratch)))"
| "bidirectional_fft (Suc pw) coset nodes_count fft_array twiddles_scratch =
     and_then (ensure (length fft_array = 2 ^ Suc pw) (Panic ''length of fft_array must be 2^pw'')) (\<lambda>_.
     and_then (ensure (nodes_count \<le> length fft_array) (Panic ''assertion failed'')) (\<lambda>_.
     let stride = 2 ^ pw
     in and_then (twiddle pw coset) (\<lambda>twiddle.
        if nodes_count < stride then
          let fft_array = fold (\<lambda>v a. fft_butterfly_forward a v stride twiddle) [nodes_count..<stride] fft_array
          in and_then (bidirectional_fft pw coset nodes_count (take stride fft_array) twiddles_scratch) (\<lambda>(low, twiddles_scratch).
             let fft_array = fold (\<lambda>v a. fft_butterfly_diagonal a v stride twiddle) [0..<nodes_count] (low @ drop stride fft_array)
             in and_then (fft Forward pw (coset + stride) (drop stride fft_array) twiddles_scratch) (\<lambda>(high, twiddles_scratch).
                Inr (take stride fft_array @ high, twiddles_scratch)))
        else
          and_then (fft Backward pw coset (take stride fft_array) twiddles_scratch) (\<lambda>(low, twiddles_scratch).
          let fft_array = fold (\<lambda>v a. fft_butterfly_diagonal a v stride twiddle) [nodes_count - stride..<stride]
                (low @ drop stride fft_array)
          in and_then (bidirectional_fft pw (coset + stride) (nodes_count - stride) (drop stride fft_array) twiddles_scratch)
               (\<lambda>(high, twiddles_scratch).
             Inr (fold (\<lambda>v a. fft_butterfly_backward a v stride twiddle) [0..<nodes_count - stride]
                    (take stride fft_array @ high), twiddles_scratch))))))"

subsection \<open>Interpolation\<close>

text \<open>The loop over the cosets from the second on, \<open>out_vec\<close>, \<open>fft_vec\<close> and the scratch space as its state.\<close>

function interpolate_cosets ::
  "nat \<Rightarrow> nat \<Rightarrow> nat \<Rightarrow> gf128 list \<Rightarrow> gf128 list \<Rightarrow> gf128 list \<Rightarrow> gf128 list res" where
  "interpolate_cosets pw requested_evaluations coset out_vec fft_vec twiddles_scratch =
     (let start = coset * 2 ^ pw; fft_size = 2 ^ pw
      in if start \<ge> requested_evaluations then Inr out_vec
         else if start + fft_size \<le> requested_evaluations then
           let out_vec = take start out_vec @ take fft_size fft_vec @ drop (start + fft_size) out_vec
           in and_then (fft Forward pw start (drop start out_vec) twiddles_scratch) (\<lambda>(tail, twiddles_scratch).
              interpolate_cosets pw requested_evaluations (coset + 1) (take start out_vec @ tail) fft_vec twiddles_scratch)
         else
           and_then (fft Forward pw start fft_vec twiddles_scratch) (\<lambda>(fft_vec, twiddles_scratch).
             interpolate_cosets pw requested_evaluations (coset + 1)
               (take start out_vec @ take (requested_evaluations - start) fft_vec) fft_vec twiddles_scratch))"
  by pat_completeness auto
termination
proof (relation "measure (\<lambda>(pw, requested, coset, _). requested - coset)", goal_cases)
  case (2 pw requested coset)
  have "coset \<le> coset * 2 ^ pw" by simp
  also have "\<dots> < requested" using 2 by auto
  finally show ?case by simp
next
  case (3 pw requested coset)
  have "coset \<le> coset * 2 ^ pw" by simp
  also have "\<dots> < requested" using 3 by auto
  finally show ?case by simp
qed simp

declare interpolate_cosets.simps [simp del]

definition interpolate :: "gf128 list \<Rightarrow> nat \<Rightarrow> gf128 list res" where
  "interpolate nodes requested_evaluations =
     (let n = length nodes;
          pw = ceil_log2 n;
          fft_size = 2 ^ pw;
          fft_vec = nodes @ replicate (fft_size - n) 0;
          twiddles_scratch = replicate (fft_size div 2) 0
      in and_then (bidirectional_fft pw 0 n fft_vec twiddles_scratch) (\<lambda>(fft_vec, twiddles_scratch).
         let range_end = min fft_size requested_evaluations
         in and_then (ensure (n \<le> requested_evaluations) oob) (\<lambda>_.
            interpolate_cosets pw requested_evaluations 1
              (nodes @ drop n (take range_end fft_vec) @ replicate (requested_evaluations - range_end) 0)
              (take n fft_vec @ replicate (range_end - n) 0 @ drop range_end fft_vec) twiddles_scratch)))"

text \<open>\<open>extend\<close>, with \<open>extend_precompute\<close>: the context is the pair of lengths.\<close>

record gf_extend_context =
  gec_nodes_len :: nat
  gec_evaluations :: nat

definition gf_extend_precompute :: "nat \<Rightarrow> nat \<Rightarrow> gf_extend_context" where
  "gf_extend_precompute nodes_len evaluations = \<lparr>gec_nodes_len = nodes_len, gec_evaluations = evaluations\<rparr>"

definition gf_extend :: "gf128 list \<Rightarrow> gf_extend_context \<Rightarrow> gf128 list res" where
  "gf_extend nodes context =
     and_then (ensure (length nodes = gec_nodes_len context) (Panic ''assertion failed'')) (\<lambda>_.
       interpolate nodes (gec_evaluations context))"

section \<open>Gf Novel\<close>

text \<open>
  What the additive transform computes. \<open>point c\<close> is the sum of the basis elements that the bits of \<open>c\<close> choose.
  \<open>novel n c x\<close> is the polynomial with the coefficients \<open>c 0, ..., c (2 ^ n - 1)\<close> in the basis of the products of
  \<open>vanish\<close> polynomials. A stage of the forward transform halves the length of the blocks of coefficients and a
  stage of the backward transform doubles it, while the values stay (\<open>at_level\<close>); the bidirectional transform
  completes a polynomial of which the first values and the last coefficients are given.
\<close>

subsection \<open>Points\<close>

definition point :: "nat \<Rightarrow> gf128" where
  "point c = inject (of_nat c)"

lemma point_sum: "point c = (\<Sum>j < 16. if bit c j then subfield_basis ! j else 0)"
  unfolding point_def inject_sum by (intro sum.cong) (simp_all add: bit_of_nat_iff possible_bit_def)

lemma point_0 [simp]: "point 0 = 0"
  by (simp add: point_sum)

lemma bit_aligned: "2 ^ i dvd a \<Longrightarrow> b < 2 ^ i \<Longrightarrow> bit (a + b) j \<longleftrightarrow> bit a j \<or> bit (b :: nat) j"
  and bit_aligned_disjoint: "2 ^ i dvd a \<Longrightarrow> b < 2 ^ i \<Longrightarrow> \<not> (bit a j \<and> bit (b :: nat) j)"
proof -
  assume a: "2 ^ i dvd a" and b: "b < 2 ^ i"
  obtain q where q: "a = push_bit i q" using a by (metis dvdE mult.commute push_bit_eq_mult)
  have r: "b = take_bit i b" using b by (simp add: take_bit_nat_eq_self)
  have d: "\<not> bit a j \<or> \<not> bit b j" for j
    by (subst r) (auto simp: q bit_push_bit_iff bit_take_bit_iff)
  then show "\<not> (bit a j \<and> bit b j)" by blast
  have "a + b = a OR b" using d by (intro disjunctive_add) blast
  then show "bit (a + b) j \<longleftrightarrow> bit a j \<or> bit b j" by (simp add: bit_or_iff)
qed

lemma point_add: "2 ^ i dvd a \<Longrightarrow> b < 2 ^ i \<Longrightarrow> point (a + b) = point a + point b"
  unfolding point_sum sum.distrib [symmetric]
  by (intro sum.cong refl) (use bit_aligned [of i a b] bit_aligned_disjoint [of i a b] in auto)

lemma point_power: "j < 16 \<Longrightarrow> point (2 ^ j) = subfield_basis ! j"
proof -
  assume j: "j < 16"
  have "point (2 ^ j) = (\<Sum>i < 16. if i = j then subfield_basis ! j else 0)"
    unfolding point_sum by (intro sum.cong) (auto simp: bit_exp_iff)
  then show ?thesis using j by simp
qed

lemma point_inj: "inj_on point {..<2 ^ 16}"
proof (rule inj_onI)
  fix a b assume ab: "a \<in> {..<2 ^ 16}" "b \<in> {..<2 ^ 16}" "point a = point b"
  then have "(of_nat a :: 16 word) = of_nat b" unfolding point_def by (intro inject_inj)
  then have "unat (of_nat a :: 16 word) = unat (of_nat b :: 16 word)" by simp
  then show "a = b" using ab(1,2) by (simp add: unsigned_of_nat take_bit_nat_eq_self)
qed

lemma vanish_point:
  assumes "i < 16" "r < 2 ^ Suc i"
  shows "vanish i (point r) = of_bool (2 ^ i \<le> r)"
proof -
  have "vanish i (point r) = (\<Sum>j < 16. if bit r j then vanish i (subfield_basis ! j) else 0)"
    unfolding point_sum vanish_sum by (intro sum.cong) simp_all
  also have "\<dots> = (\<Sum>j < 16. if j = i then of_bool (bit r i) else 0)"
  proof (intro sum.cong refl)
    fix j :: nat assume "j \<in> {..<16}"
    show "(if bit r j then vanish i (subfield_basis ! j) else 0) = (if j = i then of_bool (bit r i) else 0)"
    proof (cases "j \<le> i")
      case False
      have "\<not> bit r j"
      proof -
        have "r < 2 ^ j" using assms(2) False by (meson Suc_leI le_less_trans less_le_trans not_le power_increasing one_le_numeral)
        then show ?thesis by (simp add: bit_iff_odd)
      qed
      then show ?thesis using False by auto
    qed (use assms(1) vanish_basis [of i j] in auto)
  qed
  also have "\<dots> = of_bool (bit r i)" using assms(1) by simp
  also have "bit r i \<longleftrightarrow> 2 ^ i \<le> r"
  proof
    show "2 ^ i \<le> r \<Longrightarrow> bit r i"
    proof -
      assume "2 ^ i \<le> r"
      then have "r div 2 ^ i = 1" using assms(2) by (intro div_nat_eqI) simp_all
      then show ?thesis by (simp add: bit_iff_odd)
    qed
    show "bit r i \<Longrightarrow> 2 ^ i \<le> r" by (rule ccontr) (simp add: bit_iff_odd)
  qed
  finally show ?thesis .
qed

subsection \<open>The twiddle factors\<close>

lemma twiddle_loop_sum:
  assumes "pw < 16"
  shows "position + n = 16 \<Longrightarrow> coset < 2 ^ n \<Longrightarrow> twiddle_loop pw coset position acc =
    Inr (acc + (\<Sum>j < n. if bit coset j then vanish pw (subfield_basis ! (position + j)) else 0))"
proof (induction n arbitrary: coset position acc)
  case 0
  then show ?case by (simp add: twiddle_loop.simps)
next
  case (Suc n)
  show ?case
  proof (cases "coset = 0")
    case True
    then show ?thesis by (simp add: twiddle_loop.simps)
  next
    case False
    let ?acc = "if odd coset then acc + vanish pw (subfield_basis ! position) else acc"
    have "twiddle_loop pw coset position acc = twiddle_loop pw (coset div 2) (Suc position) ?acc"
      using False Suc.prems assms
      by (subst twiddle_loop.simps) (simp add: twiddle_array_at_vanish odd_iff_mod_2_eq_one)
    also have "\<dots> = Inr (?acc + (\<Sum>j < n. if bit (coset div 2) j then vanish pw (subfield_basis ! (Suc position + j)) else 0))"
      using Suc.prems by (intro Suc.IH) simp_all
    also have "?acc + (\<Sum>j < n. if bit (coset div 2) j then vanish pw (subfield_basis ! (Suc position + j)) else 0) =
      acc + (\<Sum>j < Suc n. if bit coset j then vanish pw (subfield_basis ! (position + j)) else 0)"
      unfolding sum.lessThan_Suc_shift by (simp add: bit_0 bit_Suc add.assoc cong: if_cong)
    finally show ?thesis .
  qed
qed

lemma twiddle_eq: "pw < 16 \<Longrightarrow> coset < 2 ^ 16 \<Longrightarrow> twiddle pw coset = Inr (vanish pw (point coset))"
  unfolding twiddle_def point_sum vanish_sum
  by (subst twiddle_loop_sum [of _ 0 16]) (auto intro!: sum.cong)

text \<open>What \<open>twiddles\<close> leaves in its slice: one factor for every block of the stage.\<close>

definition twiddled :: "nat \<Rightarrow> nat \<Rightarrow> nat \<Rightarrow> gf128" where
  "twiddled cp coset n = vanish cp (point (coset + n * 2 ^ Suc cp))"

lemma twiddled_next:
  assumes "2 ^ pw dvd coset" "k + cp + 1 < pw" "pw \<le> 16" "u < 2 ^ k"
  shows "twiddled cp coset (u + 2 ^ k) = twiddled cp coset u + vanish cp (subfield_basis ! (k + cp + 1))"
proof -
  have u: "u * 2 ^ Suc cp < 2 ^ (k + cp + 1)"
    using assms(4) by (simp add: power_add)
  have d: "2 ^ (k + cp + 1) dvd coset + 2 ^ (k + cp + 1)"
    using assms(1,2) by (intro dvd_add dvd_refl) (meson dvd_trans le_imp_power_dvd less_imp_le)
  have p: "(2 :: nat) ^ (k + cp + 1) < 2 ^ pw" using assms(2) by (intro power_strict_increasing) simp_all
  have "coset + (u + 2 ^ k) * 2 ^ Suc cp = (coset + 2 ^ (k + cp + 1)) + u * 2 ^ Suc cp" by (simp add: algebra_simps power_add)
  then have "point (coset + (u + 2 ^ k) * 2 ^ Suc cp) = point coset + point (2 ^ (k + cp + 1)) + point (u * 2 ^ Suc cp)"
    by (simp only: point_add [OF d u] point_add [OF assms(1) p])
  moreover have "point (coset + u * 2 ^ Suc cp) = point coset + point (u * 2 ^ Suc cp)"
    using u p by (intro point_add [OF assms(1)]) simp
  moreover have "point (2 ^ (k + cp + 1)) = subfield_basis ! (k + cp + 1)" using assms(2,3) by (intro point_power) simp
  ultimately show ?thesis by (simp add: twiddled_def vanish_add ac_simps)
qed

lemma twiddles_row:
  assumes "2 ^ pw dvd coset" "k + cp + 1 < pw" "pw \<le> 16" "2 ^ Suc k \<le> length tw"
    and "\<forall>n < 2 ^ k. tw ! n = twiddled cp coset n"
  shows "\<exists>tw'. fold_res (twiddles_cell cp k) [0..<2 ^ k] tw = Inr tw' \<and> length tw' = length tw \<and>
    (\<forall>n < 2 ^ Suc k. tw' ! n = twiddled cp coset n)"
proof -
  have "\<exists>tw'. fold_res (twiddles_cell cp k) [0..<m] tw = Inr tw' \<and> length tw' = length tw \<and>
    (\<forall>n < 2 ^ k + m. tw' ! n = twiddled cp coset n)" if "m \<le> 2 ^ k" for m
    using that
  proof (induction m)
    case 0
    then show ?case using assms(5) by simp
  next
    case (Suc m)
    then obtain tw' where tw': "fold_res (twiddles_cell cp k) [0..<m] tw = Inr tw'" "length tw' = length tw"
      "\<forall>n < 2 ^ k + m. tw' ! n = twiddled cp coset n" by auto
    let ?tw = "tw'[m + 2 ^ k := tw' ! m + vanish cp (subfield_basis ! (k + cp + 1))]"
    have m: "m < 2 ^ k" "m + 2 ^ k < length tw'" using Suc.prems assms(4) tw'(2) by simp_all
    have "twiddles_cell cp k m tw' = Inr ?tw"
      using m assms(2,3) by (simp add: twiddles_cell_def twiddle_array_at_vanish)
    moreover have "tw' ! m + vanish cp (subfield_basis ! (k + cp + 1)) = twiddled cp coset (m + 2 ^ k)"
      using tw'(3) m(1) twiddled_next [OF assms(1-3) m(1)] by simp
    then have "\<forall>n < 2 ^ k + Suc m. ?tw ! n = twiddled cp coset n"
      using tw'(3) m(2) by (auto simp: nth_list_update less_Suc_eq add.commute)
    ultimately show ?case using tw' by (simp add: fold_res_append)
  qed
  from this [of "2 ^ k"] show ?thesis by (simp add: mult_2)
qed

lemma twiddles_eq:
  assumes "2 ^ pw dvd coset" "cp < pw" "pw \<le> 16" "coset < 2 ^ 16" "2 ^ (pw - 1) \<le> length tw"
  shows "\<exists>tw'. twiddles cp pw coset tw = Inr tw' \<and> length tw' = length tw \<and>
    (\<forall>n < 2 ^ (pw - cp - 1). tw' ! n = twiddled cp coset n)"
proof -
  let ?tw = "tw[0 := twiddled cp coset 0]"
  have "\<exists>tw'. fold_res (\<lambda>k. fold_res (twiddles_cell cp k) [0..<2 ^ k]) [0..<m] ?tw = Inr tw' \<and>
    length tw' = length tw \<and> (\<forall>n < 2 ^ m. tw' ! n = twiddled cp coset n)" if "m \<le> pw - cp - 1" for m
    using that
  proof (induction m)
    case 0
    have "0 < length tw" using assms(5) by (metis gr0I less_le_trans not_le zero_less_numeral zero_less_power)
    then show ?case by simp
  next
    case (Suc m)
    then obtain tw' where tw': "fold_res (\<lambda>k. fold_res (twiddles_cell cp k) [0..<2 ^ k]) [0..<m] ?tw = Inr tw'"
      "length tw' = length tw" "\<forall>n < 2 ^ m. tw' ! n = twiddled cp coset n" by auto
    have "(2 :: nat) ^ Suc m \<le> 2 ^ (pw - 1)" using Suc.prems by (intro power_increasing) simp_all
    then have "2 ^ Suc m \<le> length tw'" using assms(5) tw'(2) by simp
    moreover have "m + cp + 1 < pw" using Suc.prems by simp
    ultimately obtain tw'' where
      "fold_res (twiddles_cell cp m) [0..<2 ^ m] tw' = Inr tw''" "length tw'' = length tw'"
      "\<forall>n < 2 ^ Suc m. tw'' ! n = twiddled cp coset n"
      using twiddles_row [OF assms(1) _ assms(3) _ tw'(3)] by blast
    then show ?case using tw' by (simp add: fold_res_append)
  qed
  from this [of "pw - cp - 1"] obtain tw' where
    tw': "fold_res (\<lambda>k. fold_res (twiddles_cell cp k) [0..<2 ^ k]) [0..<pw - cp - 1] ?tw = Inr tw'"
    "length tw' = length tw" "\<forall>n < 2 ^ (pw - cp - 1). tw' ! n = twiddled cp coset n" by auto
  have "twiddle cp coset = Inr (twiddled cp coset 0)" using assms twiddle_eq [of cp coset] by (simp add: twiddled_def)
  moreover have "0 < length tw" using assms(5) by (metis gr0I less_le_trans not_le zero_less_numeral zero_less_power)
  ultimately show ?thesis using tw' by (simp add: twiddles_def)
qed

subsection \<open>The novel basis\<close>

fun novel :: "nat \<Rightarrow> (nat \<Rightarrow> gf128) \<Rightarrow> gf128 \<Rightarrow> gf128" where
  "novel 0 c x = c 0"
| "novel (Suc n) c x = novel n c x + vanish n x * novel n (\<lambda>m. c (m + 2 ^ n)) x"

lemma novel_cong: "(\<And>m. m < 2 ^ n \<Longrightarrow> c m = d m) \<Longrightarrow> novel n c x = novel n d x"
proof (induction n arbitrary: c d)
  case (Suc n)
  have "novel n c x = novel n d x" using Suc.prems by (intro Suc.IH) simp
  moreover have "novel n (\<lambda>m. c (m + 2 ^ n)) x = novel n (\<lambda>m. d (m + 2 ^ n)) x"
    using Suc.prems by (intro Suc.IH) simp
  ultimately show ?case by simp
qed simp

lemma novel_linear: "novel n (\<lambda>m. c m + t * d m) x = novel n c x + t * novel n d x"
proof (induction n arbitrary: c d)
  case (Suc n)
  show ?case by (simp only: novel.simps Suc.IH distrib_left mult.left_commute ac_simps)
qed simp

lemma novel_combine:
  assumes "vanish n x = t"
  shows "novel (Suc n) c x = novel n (\<lambda>m. c m + t * c (m + 2 ^ n)) x"
  using assms by (simp add: novel_linear)

lemma novel_zero: "(\<And>m. m < 2 ^ n \<Longrightarrow> c m = 0) \<Longrightarrow> novel n c x = 0"
proof (induction n arbitrary: c)
  case (Suc n)
  have "novel n c x = 0" "novel n (\<lambda>m. c (m + 2 ^ n)) x = 0" using Suc.prems by (auto intro!: Suc.IH)
  then show ?case by simp
qed simp

lemma poly_below_vanish: "poly_below (Suc (2 ^ i)) (vanish i)"
proof (induction i)
  case 0
  have "vanish 0 = (\<lambda>x. x ^ 1)" by (rule ext) simp
  then show ?case using poly_below_power [of 1 "Suc (2 ^ 0)"] by simp
next
  case (Suc i)
  have "poly_below (Suc (2 ^ i + 2 ^ i)) (\<lambda>x. vanish i x * vanish i x)" by (rule poly_below_mult [OF Suc Suc])
  moreover have "poly_below (Suc (2 ^ i + 2 ^ i)) (vanish i)" by (rule poly_below_mono [OF Suc]) simp
  ultimately have "poly_below (Suc (2 ^ i + 2 ^ i)) (\<lambda>x. inverse (twist_factors ! i) * (vanish i x * vanish i x + 1 * vanish i x))"
    by (intro poly_below_scaled poly_below_add_scaled)
  then show ?case by (simp add: mult_2 mult.commute [of "inverse _"])
qed

lemma poly_below_novel:
  assumes "0 < k" "\<And>m. k \<le> m \<Longrightarrow> m < 2 ^ n \<Longrightarrow> c m = 0"
  shows "poly_below k (novel n c)"
  using assms
proof (induction n arbitrary: c k)
  case 0
  then show ?case using poly_below_const [of k "c 0"] by simp
next
  case (Suc n)
  have split: "novel (Suc n) c = (\<lambda>x. novel n c x + 1 * (vanish n x * novel n (\<lambda>m. c (m + 2 ^ n)) x))" by (rule ext) simp
  show ?case
  proof (cases "k \<le> 2 ^ n")
    case True
    have "novel n (\<lambda>m. c (m + 2 ^ n)) x = 0" for x using Suc.prems True by (intro novel_zero) simp
    moreover have "poly_below k (novel n c)" using Suc.prems by (intro Suc.IH) simp_all
    ultimately show ?thesis by (simp add: split)
  next
    case False
    then obtain j where j: "k = Suc (2 ^ n + j)" by (metis add_Suc_right less_imp_Suc_add not_le)
    have "poly_below (Suc j) (novel n (\<lambda>m. c (m + 2 ^ n)))" using Suc.prems by (intro Suc.IH) (simp_all add: j)
    then have "poly_below k (\<lambda>x. vanish n x * novel n (\<lambda>m. c (m + 2 ^ n)) x)"
      unfolding j by (rule poly_below_mult [OF poly_below_vanish])
    moreover have "poly_below (2 ^ n) (novel n c)" by (intro Suc.IH) simp_all
    then have "poly_below k (novel n c)" by (rule poly_below_mono) (use False in simp)
    ultimately show ?thesis unfolding split by (intro poly_below_add_scaled)
  qed
qed

end
