(* ===== verification/Gf_Transform.thy ===== *)
theory Gf_Transform
  imports Gf_Extend
begin

text \<open>
  The stages of the additive transform cell by cell, the transform as a change between coefficients and values, and
  from it the bidirectional transform and the interpolation.
\<close>

subsection \<open>The cells of a stage\<close>

lemma strided_multiples:
  assumes "0 < d"
  shows "k \<le> m \<Longrightarrow> strided (d * k) d (d * m) = map ((*) d) [k..<m]"
proof (induction "m - k" arbitrary: k)
  case 0
  then show ?case by (subst strided.simps) simp
next
  case (Suc n)
  then have "strided (d * Suc k) d (d * m) = map ((*) d) [Suc k..<m]" by (intro Suc.hyps) simp_all
  then show ?case using Suc.hyps(2) Suc.prems assms by (subst strided.simps) (simp add: upt_conv_Cons algebra_simps)
qed

lemma enumerate_strided:
  assumes "0 < d"
  shows "enumerate 0 (strided 0 d (d * m)) = map (\<lambda>i. (i, d * i)) [0..<m]"
  using strided_multiples [OF assms, of 0 m] enumerate_map_upt [of 0 "(*) d" m] by simp

lemma lower_cells:
  assumes "0 < s"
  shows "concat (map (\<lambda>i. map (\<lambda>v. s * 2 * i + v) [0..<s]) [0..<m]) = filter (\<lambda>j. j mod (s * 2) < s) [0..<s * 2 * m]"
proof (induction m)
  case (Suc m)
  let ?n = "s * 2 * m"
  have n: "s * 2 * Suc m = ?n + s + s" by simp
  have up: "[0..<s * 2 * Suc m] = [0..<?n] @ [?n..<?n + s] @ [?n + s..<?n + s + s]"
    unfolding n by (simp only: upt_add_eq_append [of 0 "?n + s" s] upt_add_eq_append [of 0 ?n s] le0 append_assoc)
  have below: "j mod (s * 2) = j - ?n" if "?n \<le> j" "j < ?n + s + s" for j
  proof -
    have "j = ?n + (j - ?n)" "j - ?n < s * 2" using that by simp_all
    then show ?thesis by (metis mod_less mod_mult_self4 mult.commute)
  qed
  have "filter (\<lambda>j. j mod (s * 2) < s) [?n..<?n + s] = [?n..<?n + s]"
    by (rule filter_True) (use below in auto)
  moreover have "filter (\<lambda>j. j mod (s * 2) < s) [?n + s..<?n + s + s] = []"
    by (rule filter_False) (use below in auto)
  moreover have "map (\<lambda>v. ?n + v) [0..<s] = [?n..<?n + s]"
    using map_add_upt [of ?n s] by (simp add: add.commute)
  ultimately show ?case unfolding up using Suc by simp
qed simp

fun low_cell :: "direction \<Rightarrow> gf128 \<Rightarrow> gf128 \<Rightarrow> gf128 \<Rightarrow> gf128" where
  "low_cell Forward t a b = a + t * b"
| "low_cell Backward t a b = a - t * (b - a)"

fun high_cell :: "direction \<Rightarrow> gf128 \<Rightarrow> gf128 \<Rightarrow> gf128 \<Rightarrow> gf128" where
  "high_cell Forward t a b = b + (a + t * b)"
| "high_cell Backward t a b = b - a"

text \<open>Two loops that agree while the invariant holds.\<close>

lemma fold_agree:
  assumes "\<And>x v. x \<in> set xs \<Longrightarrow> I v \<Longrightarrow> f x v = g x v \<and> I (g x v)" "I v"
  shows "fold f xs v = fold g xs v"
  using assms by (induction xs arbitrary: v) simp_all

lemma fold_res_agree:
  assumes "\<And>x v. x \<in> set xs \<Longrightarrow> I v \<Longrightarrow> f x v = Inr (g x v) \<and> I (g x v)" "I v"
  shows "fold_res f xs v = Inr (fold g xs v)"
  using assms by (induction xs arbitrary: v) simp_all

lemma butterfly_pair:
  assumes "0 < s" "j + s < length arr"
  shows "fft_butterfly_forward arr j s t = pair_update s (\<lambda>_. low_cell Forward t) (\<lambda>_. high_cell Forward t) j arr"
    "fft_butterfly_backward arr j s t = pair_update s (\<lambda>_. low_cell Backward t) (\<lambda>_. high_cell Backward t) j arr"
    "fft_butterfly_diagonal arr j s t = pair_update s (\<lambda>_ a b. a - t * b) (\<lambda>_ a b. b + a) j arr"
proof -
  have s: "j + s \<noteq> j" using assms by simp
  have n: "arr[j := x] ! (j + s) = arr ! (j + s)" "arr[j + s := x] ! j = arr ! j" for x using s by simp_all
  have swap: "arr[j + s := y, j := x] = arr[j := x, j + s := y]" for x y using s by (rule list_update_swap)
  have f: "arr[j := x, j + s := g (arr[j := x] ! j)] = arr[j := x, j + s := g x]" for x g
    by (cases "j < length arr") (simp_all add: list_update_beyond)
  have b: "arr[j + s := x, j := g (arr[j + s := x] ! (j + s))] = arr[j := g x, j + s := x]" for x g
    using assms(2) by (simp add: swap)
  show "fft_butterfly_forward arr j s t = pair_update s (\<lambda>_. low_cell Forward t) (\<lambda>_. high_cell Forward t) j arr"
    unfolding fft_butterfly_forward_def Let_def n pair_update_def low_cell.simps high_cell.simps by (rule f)
  show "fft_butterfly_backward arr j s t = pair_update s (\<lambda>_. low_cell Backward t) (\<lambda>_. high_cell Backward t) j arr"
    unfolding fft_butterfly_backward_def Let_def n pair_update_def low_cell.simps high_cell.simps by (rule b)
  show "fft_butterfly_diagonal arr j s t = pair_update s (\<lambda>_ a b. a - t * b) (\<lambda>_ a b. b + a) j arr"
    unfolding fft_butterfly_diagonal_def Let_def n pair_update_def ..
qed

lemma butterfly_direction:
  "0 < s \<Longrightarrow> j + s < length arr \<Longrightarrow> (case dir of Forward \<Rightarrow> fft_butterfly_forward arr j s t | Backward \<Rightarrow> fft_butterfly_backward arr j s t) =
    pair_update s (\<lambda>_. low_cell dir t) (\<lambda>_. high_cell dir t) j arr"
  by (cases dir) (simp_all add: butterfly_pair)

text \<open>\<open>halves pw s t X Y\<close>: the cells of the lower and the upper half of every block of \<open>Y\<close> are those of a forward stage on \<open>X\<close>.\<close>

definition stage_cells ::
  "direction \<Rightarrow> nat \<Rightarrow> nat \<Rightarrow> (nat \<Rightarrow> gf128) \<Rightarrow> gf128 list \<Rightarrow> gf128 list \<Rightarrow> bool" where
  "stage_cells dir s m t X Y \<longleftrightarrow> (\<forall>b < m. \<forall>v < s.
     Y ! (b * (s * 2) + v) = low_cell dir (t b) (X ! (b * (s * 2) + v)) (X ! (b * (s * 2) + v + s)) \<and>
     Y ! (b * (s * 2) + v + s) = high_cell dir (t b) (X ! (b * (s * 2) + v)) (X ! (b * (s * 2) + v + s)))"

lemma block_cell:
  assumes "b < m" "v < s"
  shows "b * (s * 2) + v < s * 2 * (m :: nat)" "b * (s * 2) + v + s < s * 2 * m"
    "(b * (s * 2) + v) mod (s * 2) = v" "(b * (s * 2) + v) div (s * 2) = b"
proof -
  have "Suc b * (s * 2) \<le> m * (s * 2)" using assms(1) by (intro mult_le_mono1) simp
  then show "b * (s * 2) + v < s * 2 * m" "b * (s * 2) + v + s < s * 2 * m" using assms(2) by (simp_all add: mult.commute)
  show "(b * (s * 2) + v) mod (s * 2) = v" "(b * (s * 2) + v) div (s * 2) = b" using assms(2) by simp_all
qed

lemma fft_stage_fold:
  assumes s: "0 < s" and tw: "m \<le> length tw" and arr: "s * 2 * m \<le> length arr"
  shows "fold_res (\<lambda>(index, start) fft_array.
             and_then (nth_res tw index) (\<lambda>twiddle.
               Inr (fold (\<lambda>v fft_array.
                   case dir of
                     Forward \<Rightarrow> fft_butterfly_forward fft_array (start + v) s twiddle
                   | Backward \<Rightarrow> fft_butterfly_backward fft_array (start + v) s twiddle)
                 [0..<s] fft_array)))
             (enumerate 0 (strided 0 (s * 2) (s * 2 * m))) arr =
    Inr (fold (pair_update s (\<lambda>j. low_cell dir (tw ! (j div (s * 2)))) (\<lambda>j. high_cell dir (tw ! (j div (s * 2)))))
           (filter (\<lambda>j. j mod (s * 2) < s) [0..<s * 2 * m]) arr)" (is "?L = Inr (fold ?P _ arr)")
proof -
  let ?Q = "\<lambda>(index, start) arr. fold (\<lambda>v. pair_update s (\<lambda>_. low_cell dir (tw ! index)) (\<lambda>_. high_cell dir (tw ! index)) (start + v)) [0..<s] arr"
  have step: "fold (\<lambda>v fft_array.
        case dir of
          Forward \<Rightarrow> fft_butterfly_forward fft_array (s * 2 * i + v) s (tw ! i)
        | Backward \<Rightarrow> fft_butterfly_backward fft_array (s * 2 * i + v) s (tw ! i)) [0..<s] a = ?Q (i, s * 2 * i) a"
    if "i < m" "s * 2 * m \<le> length a" for i a
    unfolding prod.case
  proof (rule fold_agree [where I = "\<lambda>a. s * 2 * m \<le> length a", OF _ that(2)])
    fix v and a :: "gf128 list" assume "v \<in> set [0..<s]" and a: "s * 2 * m \<le> length a"
    then have "s * 2 * i + v + s < length a" using block_cell(2) [OF that(1), of v s] by (simp add: mult.commute)
    then show "(case dir of
          Forward \<Rightarrow> fft_butterfly_forward a (s * 2 * i + v) s (tw ! i)
        | Backward \<Rightarrow> fft_butterfly_backward a (s * 2 * i + v) s (tw ! i)) =
        pair_update s (\<lambda>_. low_cell dir (tw ! i)) (\<lambda>_. high_cell dir (tw ! i)) (s * 2 * i + v) a \<and>
      s * 2 * m \<le> length (pair_update s (\<lambda>_. low_cell dir (tw ! i)) (\<lambda>_. high_cell dir (tw ! i)) (s * 2 * i + v) a)"
      using butterfly_direction [OF s] a by (simp add: pair_update_def)
  qed
  have length_Q: "length (?Q x a) = length a" for x a
  proof -
    obtain i start where "x = (i, start)" by fastforce
    moreover have "length (fold (\<lambda>v. pair_update s F G (start + v)) xs a) = length a" for F G xs
      by (induction xs arbitrary: a) (simp_all add: pair_update_def)
    ultimately show ?thesis by simp
  qed
  have "?L = Inr (fold ?Q (enumerate 0 (strided 0 (s * 2) (s * 2 * m))) arr)"
  proof (rule fold_res_agree [where I = "\<lambda>a. s * 2 * m \<le> length a", OF _ arr])
    fix x and a :: "gf128 list"
    assume x: "x \<in> set (enumerate 0 (strided 0 (s * 2) (s * 2 * m)))" and a: "s * 2 * m \<le> length a"
    obtain i where i: "x = (i, s * 2 * i)" "i < m" using x s by (auto simp: enumerate_strided)
    show "(case x of (index, start) \<Rightarrow> \<lambda>fft_array.
             and_then (nth_res tw index) (\<lambda>twiddle.
               Inr (fold (\<lambda>v fft_array.
                   case dir of
                     Forward \<Rightarrow> fft_butterfly_forward fft_array (start + v) s twiddle
                   | Backward \<Rightarrow> fft_butterfly_backward fft_array (start + v) s twiddle)
                 [0..<s] fft_array))) a = Inr (?Q x a) \<and> s * 2 * m \<le> length (?Q x a)"
      unfolding length_Q using step [OF i(2) a] i tw a by simp
  qed
  also have "fold ?Q (enumerate 0 (strided 0 (s * 2) (s * 2 * m))) arr = fold ?Q (map (\<lambda>i. (i, s * 2 * i)) [0..<m]) arr"
    using s by (simp add: enumerate_strided)
  also have "\<dots> = fold (\<lambda>i. fold ?P (map (\<lambda>v. s * 2 * i + v) [0..<s])) [0..<m] arr"
  proof -
    have "fold (\<lambda>v. pair_update s (\<lambda>_. low_cell dir (tw ! i)) (\<lambda>_. high_cell dir (tw ! i)) (s * 2 * i + v)) [0..<s] =
      fold ?P (map (\<lambda>v. s * 2 * i + v) [0..<s])" for i
      unfolding fold_map by (intro ext fold_cong refl) (auto simp: pair_update_def fun_eq_iff)
    then show ?thesis by (simp add: fold_map comp_def)
  qed
  also have "\<dots> = fold ?P (concat (map (\<lambda>i. map (\<lambda>v. s * 2 * i + v) [0..<s]) [0..<m])) arr"
  proof -
    have "fold (\<lambda>i. fold ?P (g i)) xs arr = fold ?P (concat (map g xs)) arr" for g :: "nat \<Rightarrow> nat list" and xs
      by (induction xs arbitrary: arr) simp_all
    then show ?thesis .
  qed
  finally show ?thesis by (simp only: lower_cells [OF s])
qed

lemma fft_stage_cells:
  assumes "2 ^ pw dvd coset" "cp < pw" "pw \<le> 16" "coset < 2 ^ 16" "2 ^ (pw - 1) \<le> length tw" "2 ^ pw \<le> length arr"
  shows "\<exists>arr' tw'. fft_stage dir pw coset cp (arr, tw) = Inr (arr', tw') \<and> length arr' = length arr \<and> length tw' = length tw \<and>
    (\<forall>p. 2 ^ pw \<le> p \<longrightarrow> p < length arr \<longrightarrow> arr' ! p = arr ! p) \<and>
    stage_cells dir (2 ^ cp) (2 ^ (pw - cp - 1)) (twiddled cp coset) arr arr'"
proof -
  let ?s = "2 ^ cp :: nat" and ?m = "2 ^ (pw - cp - 1) :: nat"
  have s: "0 < ?s" by simp
  have pw: "2 ^ pw = ?s * 2 * ?m"
  proof -
    have "pw = cp + 1 + (pw - cp - 1)" using assms(2) by simp
    then show ?thesis by (metis power_add power_one_right)
  qed
  obtain tw' where tw': "twiddles cp pw coset tw = Inr tw'" "length tw' = length tw"
    "\<forall>n < ?m. tw' ! n = twiddled cp coset n" using twiddles_eq [OF assms(1-5)] by blast
  have "?m \<le> 2 ^ (pw - 1)" by (intro power_increasing) simp_all
  then have m: "?m \<le> length tw'" using assms(5) tw'(2) by (metis le_trans)
  let ?P = "pair_update ?s (\<lambda>j. low_cell dir (tw' ! (j div (?s * 2)))) (\<lambda>j. high_cell dir (tw' ! (j div (?s * 2))))"
  let ?js = "filter (\<lambda>j. j mod (?s * 2) < ?s) [0..<?s * 2 * ?m]"
  let ?arr = "fold ?P ?js arr"
  have js: "\<forall>j \<in> set ?js. j mod (?s * 2) < ?s \<and> j + ?s < length arr"
  proof
    fix j assume "j \<in> set ?js"
    then have j: "j mod (?s * 2) < ?s" "j < 2 ^ pw" by (simp_all add: pw)
    have "j + ?s < 2 ^ pw" using lower_half_in_range [OF s, of "replicate (2 ^ pw) ()" ?m j] j by (simp add: pw)
    then show "j mod (?s * 2) < ?s \<and> j + ?s < length arr" using j assms(6) by simp
  qed
  have nth: "?arr ! p = (if p \<in> set ?js then low_cell dir (tw' ! (p div (?s * 2))) (arr ! p) (arr ! (p + ?s))
     else if ?s \<le> p \<and> p - ?s \<in> set ?js then high_cell dir (tw' ! ((p - ?s) div (?s * 2))) (arr ! (p - ?s)) (arr ! p)
     else arr ! p)" if "p < length arr" for p
    using pair_updates_nth [OF s _ js that] by simp
  have "fft_stage dir pw coset cp (arr, tw) = Inr (?arr, tw')"
    unfolding fft_stage_def pw using fft_stage_fold [OF s m _, of arr dir] assms(6) tw'(1) by (simp add: Let_def pw)
  moreover have "?arr ! p = arr ! p" if "2 ^ pw \<le> p" "p < length arr" for p
  proof -
    have "p \<notin> set ?js" using that(1) by (simp add: pw)
    moreover have "\<not> (?s \<le> p \<and> p - ?s \<in> set ?js)"
    proof
      assume a: "?s \<le> p \<and> p - ?s \<in> set ?js"
      then have "p - ?s < 2 ^ pw" "(p - ?s) mod (?s * 2) < ?s" by (simp_all add: pw)
      then have "p - ?s + ?s < 2 ^ pw" using lower_half_in_range [OF s, of "replicate (2 ^ pw) ()" ?m "p - ?s"] by (simp add: pw)
      then show False using a that(1) by simp
    qed
    ultimately show ?thesis unfolding nth [OF that(2)] by (simp only: if_False)
  qed
  moreover have "stage_cells dir ?s ?m (twiddled cp coset) arr ?arr"
    unfolding stage_cells_def
  proof (intro allI impI)
    fix b v assume bv: "b < ?m" "v < ?s"
    let ?j = "b * (?s * 2) + v"
    note c = block_cell [OF bv]
    have j: "?j \<in> set ?js" "?j < length arr" "?j + ?s < length arr" using c bv(2) assms(6) by (simp_all add: pw)
    have "(?j + ?s) mod (?s * 2) = v + ?s" using mod_lower_half [OF s, of ?j] c(3) bv(2) by simp
    then have n: "?j + ?s \<notin> set ?js" by simp
    have t: "tw' ! (?j div (?s * 2)) = twiddled cp coset b" using tw'(3) bv(1) by (simp only: c(4))
    have "?arr ! ?j = low_cell dir (tw' ! (?j div (?s * 2))) (arr ! ?j) (arr ! (?j + ?s))"
      unfolding nth [OF j(2)] using j(1) by (simp only: if_True)
    moreover have "?arr ! (?j + ?s) = high_cell dir (tw' ! (?j div (?s * 2))) (arr ! ?j) (arr ! (?j + ?s))"
      unfolding nth [OF j(3)] using n j(1) by (simp only: if_False if_True le_add2 add_diff_cancel_right' simp_thms)
    ultimately show "?arr ! ?j = low_cell dir (twiddled cp coset b) (arr ! ?j) (arr ! (?j + ?s)) \<and>
      ?arr ! (?j + ?s) = high_cell dir (twiddled cp coset b) (arr ! ?j) (arr ! (?j + ?s))" by (simp only: t)
  qed
  ultimately show ?thesis using tw'(2) by (intro exI [of _ ?arr] exI [of _ tw']) simp
qed

subsection \<open>Levels\<close>

definition at_level :: "nat \<Rightarrow> nat \<Rightarrow> nat \<Rightarrow> gf128 list \<Rightarrow> (nat \<Rightarrow> gf128) \<Rightarrow> bool" where
  "at_level pw coset l arr f \<longleftrightarrow> (\<forall>b < 2 ^ (pw - l). \<forall>r < 2 ^ l.
     novel l (\<lambda>m. arr ! (b * 2 ^ l + m)) (point (coset + b * 2 ^ l + r)) = f (b * 2 ^ l + r))"

lemma stage_cells_inverse: "stage_cells Backward s m t X Y \<Longrightarrow> stage_cells Forward s m t Y X"
  by (simp add: stage_cells_def)

lemma novel_halves:
  assumes "2 ^ Suc l dvd c" "l < 16" "r < 2 ^ l"
  shows "novel (Suc l) A (point (c + r)) = novel l (\<lambda>m. A m + vanish l (point c) * A (m + 2 ^ l)) (point (c + r))"
    and "novel (Suc l) A (point (c + (r + 2 ^ l))) =
      novel l (\<lambda>m. A (m + 2 ^ l) + (A m + vanish l (point c) * A (m + 2 ^ l))) (point (c + (r + 2 ^ l)))"
proof -
  have r: "r < 2 ^ Suc l" "r + 2 ^ l < 2 ^ Suc l" using assms(3) by simp_all
  have "vanish l (point (c + r)) = vanish l (point c)"
    using point_add [OF assms(1) r(1)] vanish_point [OF assms(2) r(1)] assms(3) by (simp add: vanish_add)
  then show "novel (Suc l) A (point (c + r)) = novel l (\<lambda>m. A m + vanish l (point c) * A (m + 2 ^ l)) (point (c + r))"
    by (rule novel_combine)
  have "vanish l (point (c + (r + 2 ^ l))) = vanish l (point c) + 1"
    using point_add [OF assms(1) r(2)] vanish_point [OF assms(2) r(2)] by (simp add: vanish_add)
  from novel_combine [OF this, of A] show "novel (Suc l) A (point (c + (r + 2 ^ l))) =
      novel l (\<lambda>m. A (m + 2 ^ l) + (A m + vanish l (point c) * A (m + 2 ^ l))) (point (c + (r + 2 ^ l)))"
    by (simp add: distrib_right ac_simps)
qed

lemma level_step:
  assumes "stage_cells Forward (2 ^ l) (2 ^ (pw - l - 1)) (twiddled l coset) X Y"
    and "2 ^ pw dvd coset" "l < pw" "pw \<le> 16"
  shows "at_level pw coset (Suc l) X f \<longleftrightarrow> at_level pw coset l Y f"
proof -
  let ?s = "2 ^ l :: nat" and ?M = "2 ^ (pw - l - 1) :: nat"
  have M: "2 ^ (pw - l) = 2 * ?M" using assms(3) by (simp flip: power_Suc add: Suc_diff_Suc)
  have low: "novel (Suc l) (\<lambda>m. X ! (b * (?s * 2) + m)) (point (coset + b * (?s * 2) + r)) =
      novel l (\<lambda>m. Y ! (2 * b * ?s + m)) (point (coset + 2 * b * ?s + r))" (is "?low b r")
    and high: "novel (Suc l) (\<lambda>m. X ! (b * (?s * 2) + m)) (point (coset + b * (?s * 2) + (r + ?s))) =
      novel l (\<lambda>m. Y ! ((2 * b + 1) * ?s + m)) (point (coset + (2 * b + 1) * ?s + r))" (is "?high b r")
    if "b < ?M" "r < ?s" for b r :: nat
  proof -
    have "2 ^ Suc l dvd coset" using assms(2,3) by (meson Suc_leI dvd_trans le_imp_power_dvd)
    then have c: "2 ^ Suc l dvd coset + b * (?s * 2)" by simp
    have t: "twiddled l coset b = vanish l (point (coset + b * (?s * 2)))" by (simp add: twiddled_def mult.commute)
    have Y: "Y ! (b * (?s * 2) + m) = X ! (b * (?s * 2) + m) + twiddled l coset b * X ! (b * (?s * 2) + m + ?s)"
      "Y ! (b * (?s * 2) + m + ?s) =
        X ! (b * (?s * 2) + m + ?s) + (X ! (b * (?s * 2) + m) + twiddled l coset b * X ! (b * (?s * 2) + m + ?s))"
      if "m < ?s" for m using assms(1) \<open>b < ?M\<close> that by (simp_all add: stage_cells_def)
    have i: "2 * b * ?s = b * (?s * 2)" "(2 * b + 1) * ?s + m = b * (?s * 2) + m + ?s"
      "coset + (2 * b + 1) * ?s + r = coset + b * (?s * 2) + (r + ?s)" for m by (simp_all add: algebra_simps)
    have l: "l < 16" using assms(3,4) by simp
    show "?low b r" unfolding i using novel_halves(1) [OF c l that(2), of "\<lambda>m. X ! (b * (?s * 2) + m)"] Y(1)
      by (simp add: t add.assoc cong: novel_cong)
    show "?high b r" unfolding i using novel_halves(2) [OF c l that(2), of "\<lambda>m. X ! (b * (?s * 2) + m)"] Y(2)
      by (simp add: t add.assoc cong: novel_cong)
  qed
  show ?thesis
  proof
    assume L: "at_level pw coset (Suc l) X f"
    show "at_level pw coset l Y f"
      unfolding at_level_def M
    proof (intro allI impI)
      fix B r :: nat assume B: "B < 2 * ?M" and r: "r < ?s"
      define b where "b = B div 2"
      have b: "b < ?M" using B by (simp add: b_def less_mult_imp_div_less mult.commute)
      have X: "novel (Suc l) (\<lambda>m. X ! (b * (?s * 2) + m)) (point (coset + b * (?s * 2) + q)) = f (b * (?s * 2) + q)"
        if "q < ?s * 2" for q using L b that by (simp add: at_level_def mult.commute)
      consider "B = 2 * b" | "B = 2 * b + 1" unfolding b_def by linarith
      then show "novel l (\<lambda>m. Y ! (B * ?s + m)) (point (coset + B * ?s + r)) = f (B * ?s + r)"
      proof cases
        case 1
        then show ?thesis using low [OF b r] X [of r] r by (simp add: ac_simps)
      next
        case 2
        have "f (B * ?s + r) = f (b * (?s * 2) + (r + ?s))" unfolding 2 by (simp add: algebra_simps)
        then show ?thesis using high [OF b r] X [of "r + ?s"] r unfolding 2 by simp
      qed
    qed
  next
    assume L: "at_level pw coset l Y f"
    show "at_level pw coset (Suc l) X f"
      unfolding at_level_def
    proof (intro allI impI)
      fix b q :: nat assume b: "b < 2 ^ (pw - Suc l)" and q: "q < 2 ^ Suc l"
      have b': "b < ?M" using b by simp
      have Y: "novel l (\<lambda>m. Y ! (B * ?s + m)) (point (coset + B * ?s + r)) = f (B * ?s + r)"
        if "B < 2 * ?M" "r < ?s" for B r using L that by (simp add: at_level_def M)
      have s: "2 ^ Suc l = ?s * 2" by simp
      show "novel (Suc l) (\<lambda>m. X ! (b * 2 ^ Suc l + m)) (point (coset + b * 2 ^ Suc l + q)) = f (b * 2 ^ Suc l + q)"
      proof (cases "q < ?s")
        case True
        then show ?thesis unfolding s using low [OF b' True] Y [of "2 * b" q] b' by (simp add: ac_simps)
      next
        case False
        define r where "r = q - ?s"
        have q': "q = r + ?s" "r < ?s" using False q by (simp_all add: r_def)
        have "f (b * (?s * 2) + q) = f ((2 * b + 1) * ?s + r)" unfolding q' by (simp add: algebra_simps)
        then show ?thesis unfolding s using high [OF b' q'(2)] Y [of "2 * b + 1" r] b' q' by simp
      qed
    qed
  qed
qed

end
