(* ===== verification/Gf_Interpolate.thy ===== *)
theory Gf_Interpolate
  imports Gf_Transform
begin

text \<open>
  The transforms of \<open>src/src/fields/field2_128/extend.rs\<close> as wholes: \<open>fft\<close> turns coefficients into values or back,
  \<open>bidirectional_fft\<close> completes a polynomial, and \<open>interpolate\<close> returns the values of one that has the given
  values first.
\<close>

subsection \<open>The transform\<close>

lemma fft_stages:
  assumes "2 ^ pw dvd coset" "pw \<le> 16" "coset < 2 ^ 16" "2 ^ (pw - 1) \<le> length tw" "2 ^ pw \<le> length arr"
    and "at_level pw coset (if dir = Forward then pw else 0) arr f" "k \<le> pw"
  shows "\<exists>arr' tw'. fold_res (\<lambda>i. fft_stage dir pw coset (if dir = Forward then pw - i - 1 else i)) [0..<k] (arr, tw) =
      Inr (arr', tw') \<and> length arr' = length arr \<and> length tw' = length tw \<and>
    (\<forall>p. 2 ^ pw \<le> p \<longrightarrow> p < length arr \<longrightarrow> arr' ! p = arr ! p) \<and>
    at_level pw coset (if dir = Forward then pw - k else k) arr' f"
  using assms(7)
proof (induction k)
  case 0
  then show ?case using assms(6) by (cases dir) simp_all
next
  case (Suc k)
  let ?cp = "if dir = Forward then pw - k - 1 else k"
  obtain a t where a: "fold_res (\<lambda>i. fft_stage dir pw coset (if dir = Forward then pw - i - 1 else i)) [0..<k] (arr, tw) = Inr (a, t)"
    "length a = length arr" "length t = length tw" "\<forall>p. 2 ^ pw \<le> p \<longrightarrow> p < length arr \<longrightarrow> a ! p = arr ! p"
    "at_level pw coset (if dir = Forward then pw - k else k) a f" using Suc.IH Suc.prems by fastforce
  have cp: "?cp < pw" using Suc.prems by simp
  have "2 ^ (pw - 1) \<le> length t" "2 ^ pw \<le> length a" using a assms(4,5) by simp_all
  from fft_stage_cells [OF assms(1) cp assms(2,3) this, of dir] obtain a' t' where
    a': "fft_stage dir pw coset ?cp (a, t) = Inr (a', t')" "length a' = length a" "length t' = length t"
    "\<forall>p. 2 ^ pw \<le> p \<longrightarrow> p < length a \<longrightarrow> a' ! p = a ! p"
    "stage_cells dir (2 ^ ?cp) (2 ^ (pw - ?cp - 1)) (twiddled ?cp coset) a a'" by blast
  have "at_level pw coset (if dir = Forward then pw - Suc k else Suc k) a' f"
  proof (cases dir)
    case Forward
    then have "Suc ?cp = pw - k" using Suc.prems by simp
    then show ?thesis using level_step [OF _ assms(1) cp assms(2), of a a' f] a'(5) a(5) Forward by simp
  next
    case Backward
    then show ?thesis using level_step [OF _ assms(1) cp assms(2), of a' a f] stage_cells_inverse a'(5) a(5) by simp
  qed
  then show ?case using a a' by (simp add: fold_res_append)
qed

lemma at_level_ends:
  "at_level pw coset pw arr f \<longleftrightarrow> (\<forall>u < 2 ^ pw. novel pw (\<lambda>m. arr ! m) (point (coset + u)) = f u)"
  "at_level pw coset 0 arr f \<longleftrightarrow> (\<forall>u < 2 ^ pw. arr ! u = f u)"
  by (auto simp: at_level_def)

text \<open>What a caller of \<open>fft\<close> has to know, the coefficients \<open>c\<close> and the values.\<close>

definition aligned :: "nat \<Rightarrow> nat \<Rightarrow> bool" where
  "aligned pw coset \<longleftrightarrow> pw \<le> 16 \<and> coset < 2 ^ 16 \<and> 2 ^ pw dvd coset"

lemma fft_levels:
  assumes "aligned pw coset" "2 ^ pw div 2 \<le> length scratch" "2 ^ pw \<le> length arr"
    and "at_level pw coset (if dir = Forward then pw else 0) arr f"
  shows "\<exists>arr' scratch'. fft dir pw coset arr scratch = Inr (arr', scratch') \<and> length arr' = length arr \<and>
    length scratch' = length scratch \<and> (\<forall>p. 2 ^ pw \<le> p \<longrightarrow> p < length arr \<longrightarrow> arr' ! p = arr ! p) \<and>
    at_level pw coset (if dir = Forward then 0 else pw) arr' f"
proof (cases "pw = 0")
  case True
  then show ?thesis using assms(4) by (simp add: fft_def at_level_ends split: if_splits)
next
  case False
  have a: "2 ^ pw dvd coset" "pw \<le> 16" "coset < 2 ^ 16" using assms(1) by (simp_all add: aligned_def)
  have half: "2 ^ (pw - 1) \<le> length scratch" using assms(2) False by (cases pw) simp_all
  then have "2 ^ (pw - 1) \<le> length (take (2 ^ (pw - 1)) scratch)" by simp
  from fft_stages [OF a this assms(3,4) le_refl] obtain arr' tw' where
    s: "fold_res (\<lambda>i. fft_stage dir pw coset (if dir = Forward then pw - i - 1 else i)) [0..<pw]
      (arr, take (2 ^ (pw - 1)) scratch) = Inr (arr', tw')"
    "length arr' = length arr" "length tw' = length (take (2 ^ (pw - 1)) scratch)"
    "\<forall>p. 2 ^ pw \<le> p \<longrightarrow> p < length arr \<longrightarrow> arr' ! p = arr ! p"
    "at_level pw coset (if dir = Forward then pw - pw else pw) arr' f" by blast
  have "fft dir pw coset arr scratch = Inr (arr', tw' @ drop (2 ^ (pw - 1)) scratch)"
    using False half assms(3) s(1) by (simp add: fft_def)
  moreover have "length (tw' @ drop (2 ^ (pw - 1)) scratch) = length scratch" using s(3) half by simp
  ultimately show ?thesis using s by auto
qed

lemma fft_forward:
  assumes "aligned pw coset" "2 ^ pw div 2 \<le> length scratch" "2 ^ pw \<le> length arr"
  shows "\<exists>arr' scratch'. fft Forward pw coset arr scratch = Inr (arr', scratch') \<and> length arr' = length arr \<and>
    length scratch' = length scratch \<and> (\<forall>p. 2 ^ pw \<le> p \<longrightarrow> p < length arr \<longrightarrow> arr' ! p = arr ! p) \<and>
    (\<forall>u < 2 ^ pw. arr' ! u = novel pw (\<lambda>m. arr ! m) (point (coset + u)))"
  using fft_levels [OF assms, of Forward "\<lambda>u. novel pw (\<lambda>m. arr ! m) (point (coset + u))"] by (simp add: at_level_ends)

lemma fft_backward:
  assumes "aligned pw coset" "2 ^ pw div 2 \<le> length scratch" "2 ^ pw \<le> length arr"
  shows "\<exists>arr' scratch'. fft Backward pw coset arr scratch = Inr (arr', scratch') \<and> length arr' = length arr \<and>
    length scratch' = length scratch \<and> (\<forall>p. 2 ^ pw \<le> p \<longrightarrow> p < length arr \<longrightarrow> arr' ! p = arr ! p) \<and>
    (\<forall>u < 2 ^ pw. novel pw (\<lambda>m. arr' ! m) (point (coset + u)) = arr ! u)"
  using fft_levels [OF assms, of Backward "\<lambda>u. arr ! u"] by (simp add: at_level_ends)

subsection \<open>The bidirectional transform\<close>

text \<open>
  \<open>completes pw coset k A B\<close>: a polynomial has the first \<open>k\<close> cells of \<open>A\<close> as values and the others as coefficients;
  the first \<open>k\<close> cells of \<open>B\<close> are coefficients of it and the others are values.
\<close>

definition completes :: "nat \<Rightarrow> nat \<Rightarrow> nat \<Rightarrow> (nat \<Rightarrow> gf128) \<Rightarrow> gf128 list \<Rightarrow> gf128 list \<Rightarrow> bool" where
  "completes pw coset k c A B \<longleftrightarrow> (\<forall>u < 2 ^ pw.
     A ! u = (if u < k then novel pw c (point (coset + u)) else c u) \<and>
     B ! u = (if u < k then c u else novel pw c (point (coset + u))))"

text \<open>The loops of butterflies over a range of cells.\<close>

lemma pair_updates_range:
  assumes "length A = 2 * s" "j \<le> k" "k \<le> s" "p < s"
  shows "fold (pair_update s f g) [j..<k] A ! p = (if j \<le> p \<and> p < k then f p (A ! p) (A ! (p + s)) else A ! p)"
    and "fold (pair_update s f g) [j..<k] A ! (p + s) = (if j \<le> p \<and> p < k then g p (A ! p) (A ! (p + s)) else A ! (p + s))"
proof -
  have s: "0 < s" using assms(4) by simp
  have js: "\<forall>j \<in> set [j..<k]. j mod (s * 2) < s \<and> j + s < length A" using assms by auto
  show "fold (pair_update s f g) [j..<k] A ! p = (if j \<le> p \<and> p < k then f p (A ! p) (A ! (p + s)) else A ! p)"
    using pair_updates_nth [OF s distinct_upt js, of p] assms by simp
  show "fold (pair_update s f g) [j..<k] A ! (p + s) = (if j \<le> p \<and> p < k then g p (A ! p) (A ! (p + s)) else A ! (p + s))"
    using pair_updates_nth [OF s distinct_upt js, of "p + s"] assms by simp
qed

lemma butterfly_range:
  assumes "length A = 2 * s" "k \<le> s"
  shows "fold (\<lambda>v a. fft_butterfly_forward a v s t) [j..<k] A =
      fold (pair_update s (\<lambda>_. low_cell Forward t) (\<lambda>_. high_cell Forward t)) [j..<k] A"
    "fold (\<lambda>v a. fft_butterfly_backward a v s t) [j..<k] A =
      fold (pair_update s (\<lambda>_. low_cell Backward t) (\<lambda>_. high_cell Backward t)) [j..<k] A"
    "fold (\<lambda>v a. fft_butterfly_diagonal a v s t) [j..<k] A =
      fold (pair_update s (\<lambda>_ a b. a - t * b) (\<lambda>_ a b. b + a)) [j..<k] A"
  by (rule fold_agree [where I = "\<lambda>a. length a = 2 * s", OF _ assms(1)];
    use assms(2) butterfly_pair [of s] in \<open>simp add: pair_update_def\<close>)+

lemma completes_halves:
  assumes "2 ^ Suc q dvd coset" "q < 16"
    and t: "t = vanish q (point coset)"
    and lo: "\<And>m. m < 2 ^ q \<Longrightarrow> c m + t * c (m + 2 ^ q) = lo m"
    and hi: "\<And>m. m < 2 ^ q \<Longrightarrow> c (m + 2 ^ q) + lo m = hi m"
    and lower: "\<And>u. u < 2 ^ q \<Longrightarrow> A ! u = (if u < k then novel q lo (point (coset + u)) else c u) \<and>
      B ! u = (if u < k then c u else novel q lo (point (coset + u)))"
    and upper: "\<And>u. u < 2 ^ q \<Longrightarrow> A ! (u + 2 ^ q) = (if u + 2 ^ q < k then novel q hi (point (coset + 2 ^ q + u)) else c (u + 2 ^ q)) \<and>
      B ! (u + 2 ^ q) = (if u + 2 ^ q < k then c (u + 2 ^ q) else novel q hi (point (coset + 2 ^ q + u)))"
  shows "completes (Suc q) coset k c A B"
  unfolding completes_def
proof (intro allI impI)
  fix u :: nat assume u: "u < 2 ^ Suc q"
  show "A ! u = (if u < k then novel (Suc q) c (point (coset + u)) else c u) \<and>
     B ! u = (if u < k then c u else novel (Suc q) c (point (coset + u)))"
  proof (cases "u < 2 ^ q")
    case True
    have "novel (Suc q) c (point (coset + u)) = novel q lo (point (coset + u))"
      unfolding novel_halves(1) [OF assms(1,2) True] using lo by (intro novel_cong) (simp add: t)
    then show ?thesis using lower [OF True] by simp
  next
    case False
    define v where "v = u - 2 ^ q"
    have v: "u = v + 2 ^ q" "v < 2 ^ q" using False u by (simp_all add: v_def)
    have "novel (Suc q) c (point (coset + (v + 2 ^ q))) = novel q hi (point (coset + (v + 2 ^ q)))"
      unfolding novel_halves(2) [OF assms(1,2) v(2)] using lo hi by (intro novel_cong) (simp add: t)
    moreover have "coset + (v + 2 ^ q) = coset + 2 ^ q + v" by simp
    ultimately have "novel (Suc q) c (point (coset + u)) = novel q hi (point (coset + 2 ^ q + v))" unfolding v(1) by metis
    then show ?thesis using upper [OF v(2)] unfolding v(1) by simp
  qed
qed

lemma completes_low:
  assumes "2 ^ Suc q dvd coset" "q < 16" "length A = 2 * 2 ^ q" "length L = 2 ^ q" "k < 2 ^ q"
    and t: "t = vanish q (point coset)"
    and A1: "A1 = fold (\<lambda>v a. fft_butterfly_forward a v (2 ^ q) t) [k..<2 ^ q] A"
    and L: "completes q coset k c1 (take (2 ^ q) A1) L"
    and A2: "A2 = fold (\<lambda>v a. fft_butterfly_diagonal a v (2 ^ q) t) [0..<k] (L @ drop (2 ^ q) A1)"
    and H: "\<forall>u < 2 ^ q. H ! u = novel q (\<lambda>m. drop (2 ^ q) A2 ! m) (point (coset + 2 ^ q + u))" "length H = 2 ^ q"
  shows "\<exists>c. completes (Suc q) coset k c A (take (2 ^ q) A2 @ H)"
proof -
  let ?s = "2 ^ q :: nat"
  have lA1: "length A1 = 2 * ?s" using assms(3) by (simp add: A1 butterfly_range)
  have lA2: "length A2 = 2 * ?s" using lA1 assms(4,5) by (simp add: A2 butterfly_range)
  have A1_nth: "A1 ! p = (if k \<le> p then A ! p + t * A ! (p + ?s) else A ! p)"
    "A1 ! (p + ?s) = (if k \<le> p then A ! (p + ?s) + (A ! p + t * A ! (p + ?s)) else A ! (p + ?s))" if "p < ?s" for p
    using pair_updates_range [OF assms(3) _ le_refl that, of k] assms(5) that
    unfolding A1 butterfly_range [OF assms(3) le_refl] by simp_all
  have L_nth: "(L @ drop ?s A1) ! p = L ! p" "(L @ drop ?s A1) ! (p + ?s) = A1 ! (p + ?s)" if "p < ?s" for p
    using that assms(4) lA1 by (simp_all add: nth_append add.commute)
  have lL: "length (L @ drop ?s A1) = 2 * ?s" using assms(4) lA1 by simp
  have A2_nth: "A2 ! p = (if p < k then L ! p - t * A1 ! (p + ?s) else L ! p)"
    "A2 ! (p + ?s) = (if p < k then A1 ! (p + ?s) + L ! p else A1 ! (p + ?s))" if "p < ?s" for p
    using pair_updates_range [OF lL le0 _ that, of k] assms(5)
    unfolding A2 butterfly_range [OF lL less_imp_le [OF assms(5)]] L_nth [OF that] by simp_all
  have L_c1: "take ?s A1 ! u = (if u < k then novel q c1 (point (coset + u)) else c1 u)"
    "L ! u = (if u < k then c1 u else novel q c1 (point (coset + u)))" if "u < ?s" for u
    using L that unfolding completes_def by blast+
  let ?c = "\<lambda>m. if m < k then L ! m - t * A ! (m + ?s) else A ! m"
  have lo: "?c m + t * ?c (m + ?s) = c1 m" if "m < ?s" for m
    using that assms(5) L_c1 [OF that] A1_nth [OF that] by (cases "m < k") simp_all
  have hi: "?c (m + ?s) + c1 m = drop ?s A2 ! m" if "m < ?s" for m
  proof -
    have "drop ?s A2 ! m = A2 ! (m + ?s)" using lA2 by (simp add: add.commute)
    then show ?thesis using that assms(5) L_c1 [OF that] A1_nth [OF that] A2_nth [OF that] by (cases "m < k") simp_all
  qed
  have "completes (Suc q) coset k ?c A (take ?s A2 @ H)"
  proof (rule completes_halves [OF assms(1,2) t, where c = ?c and lo = c1 and hi = "(!) (drop ?s A2)", OF lo hi])
    fix u assume u: "u < ?s"
    show "A ! u = (if u < k then novel q c1 (point (coset + u)) else ?c u) \<and>
      (take ?s A2 @ H) ! u = (if u < k then ?c u else novel q c1 (point (coset + u)))"
      using u L_c1 [OF u] A1_nth [OF u] A2_nth [OF u] lA2 by (cases "u < k") (simp_all add: nth_append)
    show "A ! (u + ?s) = (if u + ?s < k then novel q ((!) (drop ?s A2)) (point (coset + ?s + u)) else ?c (u + ?s)) \<and>
      (take ?s A2 @ H) ! (u + ?s) = (if u + ?s < k then ?c (u + ?s) else novel q ((!) (drop ?s A2)) (point (coset + ?s + u)))"
      using u assms(5) H lA2 by (simp add: nth_append del: nth_drop)
  qed
  then show ?thesis by (rule exI [of _ ?c])
qed

lemma completes_high:
  assumes "2 ^ Suc q dvd coset" "q < 16" "length A = 2 * 2 ^ q" "length L = 2 ^ q" "j \<le> 2 ^ q"
    and t: "t = vanish q (point coset)"
    and L: "\<forall>u < 2 ^ q. novel q (\<lambda>m. L ! m) (point (coset + u)) = take (2 ^ q) A ! u"
    and A2: "A2 = fold (\<lambda>v a. fft_butterfly_diagonal a v (2 ^ q) t) [j..<2 ^ q] (L @ drop (2 ^ q) A)"
    and H: "completes q (coset + 2 ^ q) j c2 (drop (2 ^ q) A2) H" "length H = 2 ^ q"
  shows "\<exists>c. completes (Suc q) coset (j + 2 ^ q) c A
    (fold (\<lambda>v a. fft_butterfly_backward a v (2 ^ q) t) [0..<j] (take (2 ^ q) A2 @ H))"
proof -
  let ?s = "2 ^ q :: nat" and ?B = "fold (\<lambda>v a. fft_butterfly_backward a v (2 ^ q) t) [0..<j] (take (2 ^ q) A2 @ H)"
  have lL: "length (L @ drop ?s A) = 2 * ?s" using assms(3,4) by simp
  then have lA2: "length A2 = 2 * ?s" by (simp add: A2 butterfly_range)
  have L_nth: "(L @ drop ?s A) ! p = L ! p" "(L @ drop ?s A) ! (p + ?s) = A ! (p + ?s)" if "p < ?s" for p
    using that assms(3,4) by (simp_all add: nth_append add.commute)
  have A2_nth: "A2 ! p = (if j \<le> p then L ! p - t * A ! (p + ?s) else L ! p)"
    "A2 ! (p + ?s) = (if j \<le> p then A ! (p + ?s) + L ! p else A ! (p + ?s))" if "p < ?s" for p
    using pair_updates_range [OF lL assms(5) le_refl that] that
    unfolding A2 butterfly_range [OF lL le_refl] L_nth [OF that] by simp_all
  have lB: "length (take ?s A2 @ H) = 2 * ?s" using lA2 H(2) by simp
  have H_nth: "(take ?s A2 @ H) ! p = A2 ! p" "(take ?s A2 @ H) ! (p + ?s) = H ! p" if "p < ?s" for p
    using that lA2 by (simp_all add: nth_append)
  have B_nth: "?B ! p = (if p < j then A2 ! p - t * (H ! p - A2 ! p) else A2 ! p)"
    "?B ! (p + ?s) = (if p < j then H ! p - A2 ! p else H ! p)" if "p < ?s" for p
    using pair_updates_range [OF lB le0 assms(5) that]
    unfolding butterfly_range [OF lB assms(5)] H_nth [OF that] by simp_all
  have H_c2: "drop ?s A2 ! u = (if u < j then novel q c2 (point (coset + ?s + u)) else c2 u)"
    "H ! u = (if u < j then c2 u else novel q c2 (point (coset + ?s + u)))" if "u < ?s" for u
    using H(1) that unfolding completes_def by blast+
  have drop_nth: "drop ?s A2 ! m = A2 ! (m + ?s)" if "m < ?s" for m using that lA2 by (simp add: add.commute)
  let ?c = "\<lambda>m. if m < ?s then (if m < j then L ! m - t * (c2 m - L ! m) else L ! m - t * A ! (m + ?s))
    else (if m - ?s < j then c2 (m - ?s) - L ! (m - ?s) else A ! m)"
  have lo: "?c m + t * ?c (m + ?s) = L ! m" if "m < ?s" for m using that by simp
  have hi: "?c (m + ?s) + L ! m = c2 m" if "m < ?s" for m
    using that H_c2(1) [OF that] A2_nth(2) [OF that] drop_nth [OF that] by (cases "m < j") simp_all
  have "completes (Suc q) coset (j + ?s) ?c A ?B"
  proof (rule completes_halves [OF assms(1,2) t, where c = ?c and lo = "(!) L" and hi = c2, OF lo hi])
    fix u assume u: "u < ?s"
    show "A ! u = (if u < j + ?s then novel q ((!) L) (point (coset + u)) else ?c u) \<and>
      ?B ! u = (if u < j + ?s then ?c u else novel q ((!) L) (point (coset + u)))"
      using u L B_nth(1) [OF u] A2_nth(1) [OF u] H_c2(2) [OF u] by simp
    show "A ! (u + ?s) = (if u + ?s < j + ?s then novel q c2 (point (coset + ?s + u)) else ?c (u + ?s)) \<and>
      ?B ! (u + ?s) = (if u + ?s < j + ?s then ?c (u + ?s) else novel q c2 (point (coset + ?s + u)))"
      using u B_nth(2) [OF u] A2_nth [OF u] H_c2 [OF u] drop_nth [OF u] by (cases "u < j") simp_all
  qed
  then show ?thesis by (rule exI [of _ ?c])
qed

lemma aligned_halves: "aligned (Suc q) coset \<Longrightarrow> aligned q coset \<and> aligned q (coset + 2 ^ q)"
proof -
  assume a: "aligned (Suc q) coset"
  then obtain n where n: "coset = 2 ^ Suc q * n" by (auto simp: aligned_def)
  have p: "(2 :: nat) ^ 16 = 2 ^ Suc q * 2 ^ (15 - q)"
    using a by (simp add: aligned_def flip: power_add power_Suc)
  have "n < 2 ^ (15 - q)" using a n unfolding aligned_def p by simp
  then have "2 ^ Suc q * (n + 1) \<le> (2 :: nat) ^ 16" unfolding p by (intro mult_le_mono2) simp
  then have "coset + 2 ^ q + 2 ^ q \<le> 2 ^ 16" unfolding n by (simp add: algebra_simps)
  moreover have "(0 :: nat) < 2 ^ q" by simp
  ultimately have "coset < 2 ^ 16" "coset + 2 ^ q < 2 ^ 16" by linarith+
  then show ?thesis using a n by (simp add: aligned_def)
qed

lemma bidirectional_fft_completes:
  assumes "aligned pw coset" "2 ^ pw div 2 \<le> length scratch" "length A = 2 ^ pw" "k \<le> 2 ^ pw"
  shows "\<exists>c B scratch'. bidirectional_fft pw coset k A scratch = Inr (B, scratch') \<and> length B = 2 ^ pw \<and>
    length scratch' = length scratch \<and> completes pw coset k c A B"
  using assms
proof (induction pw arbitrary: coset k A scratch)
  case 0
  have "completes 0 coset k (\<lambda>_. A ! 0) A A" by (simp add: completes_def)
  then show ?case using 0 by auto
next
  case (Suc q)
  let ?s = "2 ^ q :: nat"
  have al: "aligned q coset" "aligned q (coset + ?s)" using aligned_halves [OF Suc.prems(1)] by simp_all
  have d: "2 ^ Suc q dvd coset" "q < 16" "coset < 2 ^ 16" using Suc.prems(1) by (simp_all add: aligned_def)
  define t where "t = vanish q (point coset)"
  have tw: "twiddle q coset = Inr t" using twiddle_eq [OF d(2,3)] by (simp add: t_def)
  have lA: "length A = 2 * ?s" using Suc.prems(3) by simp
  have sc: "?s div 2 \<le> length scratch" using Suc.prems(2) le_trans [OF div_le_dividend] by simp
  show ?case
  proof (cases "k < ?s")
    case True
    define A1 where "A1 = fold (\<lambda>v a. fft_butterfly_forward a v ?s t) [k..<?s] A"
    have "length (take ?s A1) = ?s" by (simp add: A1_def butterfly_range lA)
    then obtain c1 L s1 where L: "bidirectional_fft q coset k (take ?s A1) scratch = Inr (L, s1)" "length L = ?s"
      "length s1 = length scratch" "completes q coset k c1 (take ?s A1) L"
      using Suc.IH [OF al(1) sc _ less_imp_le [OF True], of "take ?s A1"] by blast
    define A2 where "A2 = fold (\<lambda>v a. fft_butterfly_diagonal a v ?s t) [0..<k] (L @ drop ?s A1)"
    have "length (drop ?s A2) = ?s" using True L(2) by (simp add: A1_def A2_def butterfly_range lA)
    then obtain H s2 where H: "fft Forward q (coset + ?s) (drop ?s A2) s1 = Inr (H, s2)" "length H = ?s"
      "length s2 = length s1" "\<forall>u < ?s. H ! u = novel q (\<lambda>m. drop ?s A2 ! m) (point (coset + ?s + u))"
      using fft_forward [OF al(2), of s1 "drop ?s A2"] L(3) sc by auto
    have "bidirectional_fft (Suc q) coset k A scratch = Inr (take ?s A2 @ H, s2)"
      using True lA Suc.prems(4) tw L(1) H(1) by (simp add: Let_def flip: A1_def A2_def)
    moreover have "length (take ?s A2 @ H) = 2 ^ Suc q" using True L(2) H(2) by (simp add: A1_def A2_def butterfly_range lA)
    ultimately show ?thesis
      using completes_low [OF d(1,2) lA L(2) True t_def A1_def L(4) A2_def H(4,2)] L(3) H(3) by auto
  next
    case False
    define j where "j = k - ?s"
    have j: "k = j + ?s" "j \<le> ?s" using False Suc.prems(4) by (simp_all add: j_def)
    have "length (take ?s A) = ?s" using lA by simp
    then obtain L s1 where L: "fft Backward q coset (take ?s A) scratch = Inr (L, s1)" "length L = ?s"
      "length s1 = length scratch" "\<forall>u < ?s. novel q (\<lambda>m. L ! m) (point (coset + u)) = take ?s A ! u"
      using fft_backward [OF al(1) sc, of "take ?s A"] by auto
    define A2 where "A2 = fold (\<lambda>v a. fft_butterfly_diagonal a v ?s t) [j..<?s] (L @ drop ?s A)"
    have lA2: "length A2 = 2 * ?s" using L(2) by (simp add: A2_def butterfly_range lA)
    then obtain c2 H s2 where H: "bidirectional_fft q (coset + ?s) j (drop ?s A2) s1 = Inr (H, s2)" "length H = ?s"
      "length s2 = length s1" "completes q (coset + ?s) j c2 (drop ?s A2) H"
      using Suc.IH [OF al(2) _ _ j(2), of s1 "drop ?s A2"] L(3) sc by auto
    let ?B = "fold (\<lambda>v a. fft_butterfly_backward a v ?s t) [0..<j] (take ?s A2 @ H)"
    have "bidirectional_fft (Suc q) coset k A scratch = Inr (?B, s2)"
      using lA Suc.prems(4) tw L(1) H(1) j by (simp add: Let_def flip: A2_def)
    moreover have "length ?B = 2 ^ Suc q" using lA2 H(2) j(2) by (simp add: butterfly_range)
    ultimately show ?thesis
      using completes_high [OF d(1,2) lA L(2) j(2) t_def L(4) A2_def H(4,2)] L(3) H(3) j(1) by auto
  qed
qed

subsection \<open>Interpolation\<close>

lemma interpolate_cosets_values:
  assumes "length out_vec = requested" "length fft_vec = 2 ^ pw" "2 ^ pw div 2 \<le> length scratch" "pw \<le> 16" "requested \<le> 2 ^ 16"
    and "\<forall>i < requested. i < coset * 2 ^ pw \<longrightarrow> out_vec ! i = novel pw c (point i)"
    and "coset * 2 ^ pw < requested \<longrightarrow> (\<forall>m < 2 ^ pw. fft_vec ! m = c m)"
  shows "interpolate_cosets pw requested coset out_vec fft_vec scratch = Inr (map (\<lambda>i. novel pw c (point i)) [0..<requested])"
  using assms
proof (induction "requested - coset" arbitrary: coset out_vec fft_vec scratch rule: less_induct)
  case less
  let ?start = "coset * 2 ^ pw" and ?n = "2 ^ pw :: nat" and ?V = "\<lambda>i. novel pw c (point i)"
  show ?case
  proof (cases "requested \<le> ?start")
    case True
    have "out_vec = map ?V [0..<requested]"
      by (rule nth_equalityI) (use less.prems(1,6) True in auto)
    then show ?thesis using True by (subst interpolate_cosets.simps) simp
  next
    case False
    have "coset \<le> ?start" by simp
    also have "\<dots> < requested" using False by simp
    finally have smaller: "requested - (coset + 1) < requested - coset" by simp
    have al: "aligned pw ?start" using False less.prems(4,5) by (simp add: aligned_def)
    have next_start: "(coset + 1) * ?n = ?start + ?n" by simp
    have c: "novel pw ((!) v) (point i) = ?V i" if "\<forall>m < ?n. v ! m = fft_vec ! m" for v i
      using that less.prems(7) False by (intro novel_cong) simp
    show ?thesis
    proof (cases "?start + ?n \<le> requested")
      case True
      let ?out = "take ?start out_vec @ take ?n fft_vec @ drop (?start + ?n) out_vec"
      have out: "length ?out = requested" "drop ?start ?out = fft_vec @ drop (?start + ?n) out_vec" "take ?start ?out = take ?start out_vec"
        using less.prems(1,2) True by simp_all
      obtain t s' where t: "fft Forward pw ?start (drop ?start ?out) scratch = Inr (t, s')"
        "length t = length (drop ?start ?out)" "length s' = length scratch"
        "\<forall>u < ?n. t ! u = novel pw ((!) (drop ?start ?out)) (point (?start + u))"
        using fft_forward [OF al less.prems(3), of "drop ?start ?out"] out less.prems(2) by auto
      have t_V: "t ! u = ?V (?start + u)" if "u < ?n" for u
        using t(4) that c [of "drop ?start ?out"] less.prems(2) unfolding out(2) by (simp add: nth_append)
      have "interpolate_cosets pw requested (coset + 1) (take ?start ?out @ t) fft_vec s' = Inr (map ?V [0..<requested])"
      proof (rule less.hyps [OF smaller])
        show "length (take ?start ?out @ t) = requested" using t(2) out(1) True by simp
        show "\<forall>i < requested. i < (coset + 1) * ?n \<longrightarrow> (take ?start ?out @ t) ! i = ?V i"
        proof (intro allI impI)
          fix i assume i: "i < requested" "i < (coset + 1) * ?n"
          have l: "length (take ?start out_vec) = ?start" using less.prems(1) True by simp
          show "(take ?start ?out @ t) ! i = ?V i"
          proof (cases "i < ?start")
            case True
            then show ?thesis unfolding out(3) using less.prems(6) i(1) l by (simp add: nth_append)
          next
            case False
            then have "i - ?start < ?n" using i(2) by simp
            then show ?thesis unfolding out(3) using t_V [of "i - ?start"] False l by (simp add: nth_append)
          qed
        qed
        show "(coset + 1) * ?n < requested \<longrightarrow> (\<forall>m < ?n. fft_vec ! m = c m)" using less.prems(7) False by simp
      qed (use less.prems t(3) in simp_all)
      moreover have "interpolate_cosets pw requested coset out_vec fft_vec scratch =
          interpolate_cosets pw requested (coset + 1) (take ?start ?out @ t) fft_vec s'"
        using True False t(1) by (subst interpolate_cosets.simps) (simp only: Let_def if_False if_True and_then_simps prod.case)
      ultimately show ?thesis by simp
    next
      case last: False
      obtain v s' where v: "fft Forward pw ?start fft_vec scratch = Inr (v, s')"
        "length v = ?n" "length s' = length scratch"
        "\<forall>u < ?n. v ! u = novel pw ((!) fft_vec) (point (?start + u))"
        using fft_forward [OF al less.prems(3), of fft_vec] less.prems(2) by auto
      have v_V: "v ! u = ?V (?start + u)" if "u < ?n" for u using v(4) that c [of fft_vec] by simp
      let ?out = "take ?start out_vec @ take (requested - ?start) v"
      have "interpolate_cosets pw requested (coset + 1) ?out v s' = Inr (map ?V [0..<requested])"
      proof (rule less.hyps [OF smaller])
        have l: "length (take ?start out_vec) = ?start" using less.prems(1) False by simp
        show "length ?out = requested" using v(2) less.prems(1) last False by simp
        show "\<forall>i < requested. i < (coset + 1) * ?n \<longrightarrow> ?out ! i = ?V i"
        proof (intro allI impI)
          fix i assume i: "i < requested" "i < (coset + 1) * ?n"
          show "?out ! i = ?V i"
          proof (cases "i < ?start")
            case True
            then show ?thesis using less.prems(6) i(1) l by (simp add: nth_append)
          next
            case False
            then have "i - ?start < ?n" "i - ?start < requested - ?start" using i by simp_all
            then show ?thesis using v_V [of "i - ?start"] False l by (simp add: nth_append)
          qed
        qed
        show "(coset + 1) * ?n < requested \<longrightarrow> (\<forall>m < ?n. v ! m = c m)" using last by simp
      qed (use less.prems v in simp_all)
      moreover have "interpolate_cosets pw requested coset out_vec fft_vec scratch =
          interpolate_cosets pw requested (coset + 1) ?out v s'"
        using last False v(1) by (subst interpolate_cosets.simps) (simp only: Let_def if_False and_then_simps prod.case)
      ultimately show ?thesis by simp
    qed
  qed
qed

theorem interpolate_polynomial:
  assumes "0 < length nodes" "length nodes \<le> m" "m \<le> 2 ^ 16"
  shows "\<exists>f. poly_below (length nodes) f \<and> interpolate nodes m = Inr (map (\<lambda>i. f (point i)) [0..<m]) \<and>
    (\<forall>i < length nodes. f (point i) = nodes ! i)"
proof -
  let ?k = "length nodes"
  define pw where "pw = ceil_log2 ?k"
  have pw: "?k \<le> 2 ^ pw" "pw \<le> 16"
    unfolding pw_def using assms by (rule_tac [2] ceil_log2_least) (simp_all add: ceil_log2_upper)
  let ?A = "nodes @ replicate (2 ^ pw - ?k) 0" and ?scratch = "replicate (2 ^ pw div 2) (0 :: gf128)"
  have A: "length ?A = 2 ^ pw" using pw by simp
  have "aligned pw 0" using pw by (simp add: aligned_def)
  from bidirectional_fft_completes [OF this _ A pw(1), of ?scratch] obtain c B s where
    B: "bidirectional_fft pw 0 ?k ?A ?scratch = Inr (B, s)" "length B = 2 ^ pw" "length s = 2 ^ pw div 2"
    "completes pw 0 ?k c ?A B" by auto
  have A_c: "?A ! u = (if u < ?k then novel pw c (point u) else c u)"
    and B_c: "B ! u = (if u < ?k then c u else novel pw c (point u))" if "u < 2 ^ pw" for u
    using B(4) that unfolding completes_def by simp_all
  let ?f = "novel pw c"
  have c0: "c u = 0" if "?k \<le> u" "u < 2 ^ pw" for u using A_c [OF that(2)] that by (simp add: nth_append)
  have f: "?f (point i) = nodes ! i" if "i < ?k" for i
    using A_c [of i] that pw(1) by (simp add: nth_append)
  let ?e = "min (2 ^ pw) m"
  let ?out = "nodes @ drop ?k (take ?e B) @ replicate (m - ?e) 0"
  let ?fft = "take ?k B @ replicate (?e - ?k) 0 @ drop ?e B"
  have ke: "?k \<le> ?e" using pw(1) assms(2) by simp
  have "interpolate_cosets pw m 1 ?out ?fft s = Inr (map (\<lambda>i. ?f (point i)) [0..<m])"
  proof (rule interpolate_cosets_values [OF _ _ _ pw(2) assms(3)])
    show "length ?out = m" "length ?fft = 2 ^ pw" using ke B(2) by simp_all
    show "2 ^ pw div 2 \<le> length s" using B(3) by simp
    show "\<forall>i < m. i < 1 * 2 ^ pw \<longrightarrow> ?out ! i = ?f (point i)"
    proof (intro allI impI)
      fix i assume i: "i < m" "i < 1 * 2 ^ pw"
      then have ie: "i < ?e" by simp
      show "?out ! i = ?f (point i)"
      proof (cases "i < ?k")
        case True
        then show ?thesis using f by (simp add: nth_append)
      next
        case False
        then have "i - ?k < ?e - ?k" using ie by linarith
        then have "?out ! i = take ?e B ! i" using False ke B(2) by (simp add: nth_append)
        then show ?thesis using B_c [of i] False ie by simp
      qed
    qed
    show "1 * 2 ^ pw < m \<longrightarrow> (\<forall>j < 2 ^ pw. ?fft ! j = c j)"
    proof (intro impI allI)
      fix j :: nat assume "1 * 2 ^ pw < m" and j: "j < 2 ^ pw"
      then have e: "?e = 2 ^ pw" by simp
      show "?fft ! j = c j"
      proof (cases "j < ?k")
        case True
        then show ?thesis using B_c [OF j] B(2) pw(1) by (simp add: nth_append)
      next
        case False
        then show ?thesis unfolding e using c0 j B(2) pw(1) by (simp add: nth_append)
      qed
    qed
  qed
  then have "interpolate nodes m = Inr (map (\<lambda>i. ?f (point i)) [0..<m])"
    using B(1) assms(2) by (simp add: interpolate_def Let_def flip: pw_def)
  moreover have "poly_below ?k ?f" using poly_below_novel [OF assms(1), of pw c] c0 by simp
  ultimately show ?thesis using f by blast
qed

end
