(* ===== verification/Field_Gf.thy ===== *)
theory Field_Gf
  imports Gf_Interpolate Rs_Code
begin

text \<open>
  The trait implementations of \<open>src/src/fields/field2_128/mod.rs\<close>: the codec, the codec of the subfield, the
  constants of the sumcheck polynomials and the extension, as the dictionary \<open>gf_ops\<close>. It satisfies \<open>field_codec\<close>,
  \<open>sumcheck_field\<close> and, for codes of up to \<open>2 ^ 16\<close> elements, \<open>reed_solomon\<close>.
\<close>

definition gf_encode :: "gf128 \<Rightarrow> bytes" where
  "gf_encode self = le_bytes 16 (unat (as_u128 self))"

definition gf_try_from :: "bytes \<Rightarrow> gf128 option" where
  "gf_try_from value = (if length value = 16 then Some (Gf (of_nat (le_value value))) else None)"

definition gf_is_in_subfield :: "gf128 \<Rightarrow> bool" where
  "gf_is_in_subfield self \<longleftrightarrow> uninject self \<noteq> None"

definition gf_encode_in_subfield :: "gf128 enc" where
  "gf_encode_in_subfield self =
     and_then (opt_res (Fail ''GF(2^128) element is not in subfield'') (uninject self)) u16_encode"

text \<open>\<open>decode_fixed_array_in_subfield\<close> decodes the array and injects; here, of one element.\<close>

definition gf_decode_in_subfield :: "gf128 dec" where
  "gf_decode_in_subfield bs = and_then (u16_decode bs) (\<lambda>(e, rest). Inr (inject e, rest))"

definition gf_update_circuit_id :: bytes where
  "gf_update_circuit_id = le_bytes 8 2 @ le_bytes 8 128"

definition gf_iter_bits :: "gf128 \<Rightarrow> bool list" where
  "gf_iter_bits self = map (\<lambda>i. drop_bit i (as_u128 self) AND 1 \<noteq> 0) [0..<128]"

definition gf_ops :: "gf128 field_ops" where
  "gf_ops =
     \<lparr>fo_num_bits = 128,
      fo_field_id = GF2_128,
      fo_encode = gf_encode,
      fo_try_from = gf_try_from,
      fo_in_subfield = gf_is_in_subfield,
      fo_encode_sub = gf_encode_in_subfield,
      fo_decode_sub = gf_decode_in_subfield,
      fo_id_prefix = gf_update_circuit_id,
      fo_large_characteristic = False,
      fo_p2 = Gf 122753392676920971658749122761936853580,
      fo_p2_inv = Gf 334209021876177427854041998379618990425,
      fo_one_minus_p2_inv = Gf 184748276259172837197859239441540652321,
      fo_p2_squared_minus_p2_inv = Gf 150968175972766452367765019741058622584,
      fo_extend = (\<lambda>nodes_len evaluations nodes. gf_extend nodes (gf_extend_precompute nodes_len evaluations))\<rparr>"

subsection \<open>Codec\<close>

lemma gf_try_from_encode: "gf_try_from (gf_encode x) = Some x"
proof -
  have "unat (as_u128 x) < 256 ^ 16" using unsigned_less [of "as_u128 x"] by simp
  then show ?thesis by (simp add: gf_try_from_def gf_encode_def as_u128_inverse)
qed

lemma gf_encode_try_from: "gf_try_from bs = Some x \<Longrightarrow> gf_encode x = bs"
proof -
  assume "gf_try_from bs = Some x"
  then have bs: "length bs = 16" "x = Gf (of_nat (le_value bs))" by (simp_all add: gf_try_from_def split: if_splits)
  then have "le_value bs < 2 ^ 128" using le_value_bound [of bs] by simp
  then have "unat (of_nat (le_value bs) :: 128 word) = le_value bs" by (simp add: unsigned_of_nat take_bit_nat_eq_self)
  then show ?thesis using le_bytes_le_value [of bs] bs by (simp add: gf_encode_def Gf_inverse)
qed

interpretation gf: field_codec gf_ops
  by unfold_locales (simp_all add: gf_ops_def gf_try_from_encode gf_encode_try_from, simp add: gf_encode_def num_bytes_def)

lemma gf_subfield_roundtrip: "gf_encode_in_subfield x = Inr bs \<Longrightarrow> gf_decode_in_subfield (bs @ rest) = Inr (x, rest)"
  by (auto simp: gf_encode_in_subfield_def gf_decode_in_subfield_def u16.roundtrip uninject_Some)

lemma gf_subfield_encodes: "gf_is_in_subfield x \<longleftrightarrow> (\<exists>bs. gf_encode_in_subfield x = Inr bs)"
  by (auto simp: gf_is_in_subfield_def gf_encode_in_subfield_def u16_encode_def split: option.splits)

subsection \<open>The constants\<close>

lemma gf_p2_products:
  "Gf 122753392676920971658749122761936853580 * Gf 334209021876177427854041998379618990425 = Gf (numeral num.One)"
  "Gf 122753392676920971658749122761936853581 * Gf 184748276259172837197859239441540652321 = Gf (numeral num.One)"
  "Gf 122753392676920971658749122761936853580 * Gf 122753392676920971658749122761936853581 = Gf 286951796544069427116289924355363222756"
  "Gf 286951796544069427116289924355363222756 * Gf 150968175972766452367765019741058622584 = Gf (numeral num.One)"
  by (rule product_checkD, simp only: product_check_simps)+

interpretation gf_sumcheck: sumcheck_field gf_ops
proof
  let ?p = "Gf 122753392676920971658749122761936853580"
  have one: "1 - ?p = Gf 122753392676920971658749122761936853581" "?p * ?p - ?p = ?p * (1 - ?p)"
    by (simp add: gf_minus plus_gf128.abs_eq one_gf128_def, simp only: gf_minus distrib_left mult_1_right add.commute)
  show "fo_p2 gf_ops * fo_p2_inv gf_ops = 1"
    using gf_p2_products(1) by (simp add: gf_ops_def one_gf128_def)
  show "(1 - fo_p2 gf_ops) * fo_one_minus_p2_inv gf_ops = 1"
    using gf_p2_products(2) one(1) by (simp add: gf_ops_def one_gf128_def)
  show "(fo_p2 gf_ops * fo_p2 gf_ops - fo_p2 gf_ops) * fo_p2_squared_minus_p2_inv gf_ops = 1"
    using gf_p2_products(3,4) one by (simp add: gf_ops_def one_gf128_def)
  show "fo_large_characteristic gf_ops \<Longrightarrow> fo_p2 gf_ops = 1 + 1" by (simp add: gf_ops_def)
qed

subsection \<open>The code\<close>

definition gf_short_enough :: "nat \<Rightarrow> bool" where
  "gf_short_enough m \<longleftrightarrow> m \<le> 2 ^ 16"

lemma gf_extend_interpolates:
  assumes "0 < n" "n \<le> m" "m \<le> 2 ^ 16" "length xs = n"
  shows "\<exists>f. poly_below n f \<and> fo_extend gf_ops n m xs = Inr (map (\<lambda>i. f (point i)) [0..<m]) \<and> (\<forall>i < n. f (point i) = xs ! i)"
  using interpolate_polynomial [of xs m] assms by (simp add: gf_ops_def gf_extend_def gf_extend_precompute_def)

interpretation gf_code: reed_solomon gf_ops "codeword_at point" gf_short_enough
proof (rule reed_solomon_at)
  show "n \<le> m \<Longrightarrow> gf_short_enough m \<Longrightarrow> inj_on point {..<n}" for n m
    using point_inj by (rule inj_on_subset) (auto simp: gf_short_enough_def)
  show "0 < n \<Longrightarrow> n \<le> m \<Longrightarrow> gf_short_enough m \<Longrightarrow> length xs = n \<Longrightarrow>
      \<exists>f. poly_below n f \<and> fo_extend gf_ops n m xs = Inr (map (\<lambda>i. f (point i)) [0..<m]) \<and> (\<forall>i < n. f (point i) = xs ! i)"
    for n m xs using gf_extend_interpolates by (simp add: gf_short_enough_def)
qed

end
