(* ===== verification/Zk_Wire.thy ===== *)
theory Zk_Wire
  imports Zk_One_Circuit Ligero_Format P128_Code P256_Code Field_Gf
begin

text \<open>
  The wire format of a proof for one circuit (\<open>ParameterizedCodec\<close> of \<open>Proof\<close> in
  \<open>src/src/zk_one_circuit/prover.rs\<close>): the 32 bytes of the oracle, the commitment, the sumcheck proof in the
  shape of the circuit and the Ligero proof in the shape of the tableau.
\<close>

definition verifier_layout :: "'a zk_verifier \<Rightarrow> tableau_layout" where
  "verifier_layout V = lv_tableau_layout (zv_ligero_verifier V)"

definition zk_proof_encode :: "'a field_ops \<Rightarrow> 'a zk_verifier \<Rightarrow> 'a zk_proof enc" where
  "zk_proof_encode F V pf =
     and_then (ensure (length (zk_oracle pf) = 32) (Fail ''oracle is not 32 bytes long'')) (\<lambda>_.
     and_then (encode_fixed_array u8_encode (zk_oracle pf)) (\<lambda>b1.
     and_then (digest_encode (zk_ligero_commitment pf)) (\<lambda>b2.
     and_then (sumcheck_proof_encode F (zv_circuit V) (zk_sumcheck_proof pf)) (\<lambda>b3.
     and_then (ligero_proof_encode F (zk_ligero_proof pf)) (\<lambda>b4.
       Inr (b1 @ b2 @ b3 @ b4))))))"

definition zk_proof_decode :: "'a field_ops \<Rightarrow> 'a zk_verifier \<Rightarrow> 'a zk_proof dec" where
  "zk_proof_decode F V bs =
     and_then (decode_fixed_array u8_decode 32 bs) (\<lambda>(orc, r).
     and_then (digest_decode r) (\<lambda>(ligero_commitment, r).
     and_then (sumcheck_proof_decode F (zv_circuit V) r) (\<lambda>(sumcheck_proof, r).
     and_then (ligero_proof_decode F (verifier_layout V) r) (\<lambda>(ligero_proof, r).
       Inr (\<lparr>zk_oracle = orc, zk_sumcheck_proof = sumcheck_proof,
             zk_ligero_commitment = ligero_commitment, zk_ligero_proof = ligero_proof\<rparr>, r)))))"

definition zk_proof_shape :: "'a zk_verifier \<Rightarrow> 'a zk_proof \<Rightarrow> bool" where
  "zk_proof_shape V pf \<longleftrightarrow>
     length (zk_ligero_commitment pf) = 32 \<and> proof_shape (zv_circuit V) (zk_sumcheck_proof pf) \<and>
     ligero_proof_shape (verifier_layout V) (zk_ligero_proof pf)"

context subfield_codec
begin

lemma zk_proof_codec:
  assumes "check_layout (verifier_layout V) = Inr ()" "num_requested_columns (verifier_layout V) \<noteq> 0"
  shows "codec (zk_proof_encode F V) (zk_proof_decode F V) (zk_proof_shape V)"
proof
  show "zk_proof_decode F V (bs @ rest) = Inr (pf, rest)"
    if shape: "zk_proof_shape V pf" and enc: "zk_proof_encode F V pf = Inr bs" for pf bs rest
  proof -
    obtain b1 b2 b3 b4 where e: "length (zk_oracle pf) = 32" "encode_fixed_array u8_encode (zk_oracle pf) = Inr b1"
      "digest_encode (zk_ligero_commitment pf) = Inr b2"
      "sumcheck_proof_encode F (zv_circuit V) (zk_sumcheck_proof pf) = Inr b3"
      "ligero_proof_encode F (zk_ligero_proof pf) = Inr b4" and bs: "bs = b1 @ b2 @ b3 @ b4"
      using enc by (auto simp: zk_proof_encode_def)
    have sh: "length (zk_ligero_commitment pf) = 32" "proof_shape (zv_circuit V) (zk_sumcheck_proof pf)"
      "ligero_proof_shape (verifier_layout V) (zk_ligero_proof pf)"
      using shape by (simp_all add: zk_proof_shape_def)
    note orc = u8.fixed_array_roundtrip [OF _ e(2), unfolded e(1)]
    show ?thesis
      unfolding zk_proof_decode_def bs
      by (simp add: orc list.pred_True digest.roundtrip [OF sh(1) e(3)]
          codec.roundtrip [OF sumcheck_proof_codec sh(2) e(4)] ligero_proof_roundtrip [OF assms sh(3) e(5)])
  qed
  show "\<exists>q. bs = q @ rest" if dec: "zk_proof_decode F V bs = Inr (pf, rest)" for bs pf rest
  proof -
    obtain orc r1 d r2 sp r3 lp where steps: "decode_fixed_array u8_decode 32 bs = Inr (orc, r1)"
      "digest_decode r1 = Inr (d, r2)" "sumcheck_proof_decode F (zv_circuit V) r2 = Inr (sp, r3)"
      "ligero_proof_decode F (verifier_layout V) r3 = Inr (lp, rest)"
      using dec by (auto simp: zk_proof_decode_def)
    from u8.fixed_array_consume [OF steps(1)] digest.consume [OF steps(2)]
      codec.consume [OF sumcheck_proof_codec steps(3)] ligero_proof_consume [OF steps(4)]
    show ?thesis by auto
  qed
qed

end

subsection \<open>The subfields\<close>

text \<open>The 128-bit field is its own subfield.\<close>

interpretation p128_subfield: subfield_codec p128_ops
proof
  show "fo_decode_sub p128_ops (bs @ rest) = Inr (x, rest)" if "fo_encode_sub p128_ops x = Inr bs" for x bs rest
    using that p128.encode_length [of x] p128.try_from_encode [of x]
    by (auto simp: p128_ops_def num_bytes_def opt_res_def)
  show "\<exists>p. bs = p @ rest" if "fo_decode_sub p128_ops bs = Inr (x, rest)" for bs x rest
  proof -
    have "rest = drop 16 bs" using that by (auto simp: p128_ops_def opt_res_def split: if_splits option.splits)
    then have "bs = take 16 bs @ rest" by simp
    then show ?thesis ..
  qed
qed

text \<open>The subfield of GF(2^128) has encodings of two bytes.\<close>

interpretation gf_subfield: subfield_codec gf_ops
proof
  show "fo_decode_sub gf_ops (bs @ rest) = Inr (x, rest)" if "fo_encode_sub gf_ops x = Inr bs" for x bs rest
    using gf_subfield_roundtrip that by (simp add: gf_ops_def)
  show "\<exists>p. bs = p @ rest" if "fo_decode_sub gf_ops bs = Inr (x, rest)" for bs x rest
    using that u16.consume by (auto simp: gf_ops_def gf_decode_in_subfield_def)
qed

text \<open>The base field of P-256 is its own subfield.\<close>

interpretation p256_subfield: subfield_codec p256_ops
proof
  show "fo_decode_sub p256_ops (bs @ rest) = Inr (x, rest)" if "fo_encode_sub p256_ops x = Inr bs" for x bs rest
    using that p256_codec.encode_length [of x] p256_codec.try_from_encode [of x]
    by (auto simp: p256_ops_def num_bytes_def opt_res_def)
  show "\<exists>p. bs = p @ rest" if "fo_decode_sub p256_ops bs = Inr (x, rest)" for bs x rest
  proof -
    have "rest = drop 32 bs" using that by (auto simp: p256_ops_def opt_res_def split: if_splits option.splits)
    then have "bs = take 32 bs @ rest" by simp
    then show ?thesis ..
  qed
qed

section \<open>Zk Wire\<close>

text \<open>
  An honest proof over the wire: what the prover of one circuit returns has the shape of its verifier's
  format, its encoding succeeds when the subfield encoding is total, and so the proof that the verifier
  reads is the one that was made.
\<close>

context reed_solomon
begin

lemma zk_prove_shape:
  assumes "proper_circuit c" "parameters_ok ok params" "\<And>bs. length (cr_sha C bs) = 32"
    and "\<And>n. length (fst (nonce_gen n)) = 32" "length inputs = c_num_inputs c"
    and "evaluate c inputs = Inr ev" "list_all (\<lambda>x. x = 0) (ev_wires ev ! 0)"
    and "zk_prover_new c params = Inr P" "zk_verifier_new c params = Inr V"
    and "zk_prove C F P session_id inputs pad_generator p gen g nonce_gen n = Inr pf"
  shows "zk_proof_shape V pf" "zk_oracle pf = session_id"
    "length (lp_inclusion_proof (zk_ligero_proof pf)) \<le> num_columns params"
    "tl_parameters (verifier_layout V) = params"
proof -
  note c = proper_circuitD [OF assms(1)]
  let ?wl = "layout_from_circuit c" and ?npub = "c_num_public_inputs c"
  note ev = evaluated_inputs [OF assms(1,6,5)]
  obtain qcs where qcs: "quadratic_constraints c ?wl = Inr qcs"
    and P: "P = \<lparr>zp_circuit = c, zp_ligero_prover = \<lparr>lpr_parameters = params, lpr_witness_layout = ?wl, lpr_quadratic_constraints = qcs\<rparr>\<rparr>"
    using assms(8) by (auto simp: zk_prover_new_def ligero_prover_new_def Let_def)
  let ?lp = "\<lparr>lpr_parameters = params, lpr_witness_layout = ?wl, lpr_quadratic_constraints = qcs\<rparr>"
  let ?L = "tableau_layout_new params (layout_length ?wl) (length qcs)"
  have V: "zv_circuit V = c" "verifier_layout V = ?L"
    using assms(9) qcs by (auto simp: zk_verifier_new_def ligero_verifier_new_def verifier_layout_def Let_def)
  obtain w p' where w: "fill_witness ?wl (drop ?npub inputs) pad_generator p = (w, p')" by fastforce
  have "length (drop ?npub inputs) = wl_num_private_inputs ?wl" using ev(3) by (simp add: layout_from_circuit_def)
  note fw = fill_witness_props [OF w this]
  obtain qs where qs: "quadratic_constraints c ?wl = Inr qs"
    "list_all (\<lambda>q. qc_x q < length (w_values w) \<and> qc_y q < length (w_values w) \<and>
      qc_z q < length (w_values w) \<and> quadratic_constraint_holds (nth (w_values w)) q) qs"
    using quadratic_constraints_filled [OF w ev(3) [symmetric] c(2)] by blast
  have ok: "parameters_ok ok (lpr_parameters ?lp)" "constraint_indices_ok (w_values w) (lpr_quadratic_constraints ?lp)"
    using assms(2) qcs qs by (auto simp: constraint_indices_ok_def list_all_iff)
  obtain cs g' n' t2 sp lc t3 lp t4 where
    commit: "ligero_commit C F ?lp w gen g nonce_gen n = Inr (cs, g', n')"
    and sp: "sumcheck_prove C F c ev w t2 = Inr (sp, lc, t3)"
    and lp: "ligero_prove C F ?lp t3 cs lc = Inr (lp, t4)"
    and pf: "pf = \<lparr>zk_oracle = session_id, zk_sumcheck_proof = sp, zk_ligero_commitment = cs_root cs, zk_ligero_proof = lp\<rparr>"
    using assms(10) by (auto simp: zk_prove_def Let_def P assms(5,6) ev(1) w)
  have committed: "committed C ?L (w_values w) qcs cs"
    using ligero_commit_ok [OF ok, of C gen g nonce_gen n] commit fw(2) by auto
  have okL: "parameters_ok ok (tl_parameters ?L)" using assms(2) by (simp add: tableau_layout_new_def)
  have root: "length (cs_root cs) = 32" using committed_root [OF okL committed] assms(3) by auto
  have "list_all (\<lambda>n. length n = 32) (mt_nonces (cs_merkle_tree cs))"
    using commit tableau_commit_nonces [OF _ assms(4)] by (auto simp: ligero_commit_def split: prod.splits)
  note shape = ligero_prove_shape [OF lp okL committed assms(3) this]
  have "proof_shape c sp"
    using prove_total [OF assms(6) c(1-5) _ assms(5) c(7) assms(7) ev(1) w, of C F t2] assms(5) c(6) sp by simp
  then show "zk_proof_shape V pf" using shape(1) root V by (simp add: zk_proof_shape_def pf)
  show "zk_oracle pf = session_id" by (simp add: pf)
  show "length (lp_inclusion_proof (zk_ligero_proof pf)) \<le> num_columns params"
    using shape(2) by (simp add: pf tl_num_columns_def tableau_layout_new_def)
  show "tl_parameters (verifier_layout V) = params" by (simp add: V tableau_layout_new_def)
qed

end

subsection \<open>Encoding an honest proof\<close>

lemma encode_fixed_array_ok:
  "(\<And>x. x \<in> set xs \<Longrightarrow> \<exists>b. enc x = Inr b) \<Longrightarrow> \<exists>bs. encode_fixed_array enc xs = Inr bs"
  by (induction xs) fastforce+

lemma fe_array_ok: "\<exists>bs. encode_fixed_array (fe_encode F) xs = Inr bs"
  by (rule encode_fixed_array_ok) (simp add: fe_encode_def)

lemma encode_runs_ok:
  assumes "\<And>x. \<exists>b. fo_encode_sub F x = Inr b"
  shows "\<exists>bs. encode_runs F b es = Inr bs"
proof (induction "runs_measure (fo_in_subfield F) b es" arbitrary: b es rule: less_induct)
  case less
  show ?case
  proof (cases "es = []")
    case False
    let ?n = "run_length (fo_in_subfield F) b es"
    obtain rest where "encode_runs F (\<not> b) (drop ?n es) = Inr rest"
      using less.hyps [OF runs_measure_decreases [OF False]] by blast
    moreover have "\<exists>c. (if b then fo_encode_sub F else fe_encode F) x = Inr c" for x
      using assms by (simp add: fe_encode_def)
    then obtain run where "encode_fixed_array (if b then fo_encode_sub F else fe_encode F) (take ?n es) = Inr run"
      using encode_fixed_array_ok [of "take ?n es" "if b then fo_encode_sub F else fe_encode F"] by blast
    ultimately show ?thesis using False by (subst encode_runs.simps) (simp add: u32_encode_def)
  qed (simp add: encode_runs.simps)
qed

lemma ligero_proof_encode_ok:
  assumes "\<And>x. \<exists>b. fo_encode_sub F x = Inr b" "ligero_proof_shape L pf" "length (lp_inclusion_proof pf) < 2 ^ 32"
  shows "\<exists>bs. ligero_proof_encode F pf = Inr bs"
proof -
  have n: "list_all (\<lambda>n. length n = 32) (lp_merkle_tree_nonces pf)" and d: "list_all (\<lambda>d. length d = 32) (lp_inclusion_proof pf)"
    using assms(2) by (simp_all add: ligero_proof_shape_def)
  show ?thesis
    using fe_array_ok [of F "lp_low_degree_test_proof pf"] fe_array_ok [of F "lp_dot_proof pf"]
      fe_array_ok [of F "fst (lp_quadratic_proof pf)"] fe_array_ok [of F "snd (lp_quadratic_proof pf)"]
      nonce.fixed_array_total [OF n] digest.fixed_array_total [OF d] assms(3)
      encode_runs_ok [OF assms(1), of False "concat (lp_tableau_columns pf)"]
    by (auto simp: ligero_proof_encode_def inclusion_proof_encode_def u32_encode_def)
qed

lemma sumcheck_proof_encode_ok: "\<exists>bs. sumcheck_proof_encode F c pf = Inr bs"
proof -
  have "\<exists>b. proof_layer_encode F pl = Inr b" for pl
    by (simp add: proof_layer_encode_def fe_encode_def case_prod_unfold
        map_res_Inr_map [where g = "\<lambda>lr. fo_encode F (p0 (fst lr)) @ fo_encode F (p0 (snd lr)) @
          fo_encode F (p2 (fst lr)) @ fo_encode F (p2 (snd lr))"])
  then obtain f where "proof_layer_encode F pl = Inr (f pl)" for pl by metis
  then have "map_res (\<lambda>(pl, _). proof_layer_encode F pl) ps = Inr (map (\<lambda>(pl, _). f pl) ps)"
    for ps :: "('a proof_layer \<times> circuit_layer) list"
    by (intro map_res_Inr_map) auto
  then show ?thesis by (simp add: sumcheck_proof_encode_def)
qed

lemma zk_proof_encode_ok:
  assumes "\<And>x. \<exists>b. fo_encode_sub F x = Inr b" "zk_proof_shape V pf" "length (zk_oracle pf) = 32"
    and "length (lp_inclusion_proof (zk_ligero_proof pf)) < 2 ^ 32"
  shows "\<exists>bs. zk_proof_encode F V pf = Inr bs"
  using ligero_proof_encode_ok [OF assms(1) _ assms(4)] sumcheck_proof_encode_ok [of F "zv_circuit V" "zk_sumcheck_proof pf"]
    digest.total [of "zk_ligero_commitment pf"] assms(2,3)
  by (fastforce simp: zk_proof_encode_def zk_proof_shape_def u8_fixed_encode)

end
