(* ===== verification/Demo.thy ===== *)
theory Demo
  imports P128_Code Sumcheck_Total
begin

text \<open>
  A concrete instance on which the theorems about the protocol are applied: the 128-bit prime field,
  primitives whose stream of bytes turns to zeros, and a circuit of one layer that asserts
  \<open>x * x - 4 * 1 * 1 = 0\<close> for its private input \<open>x\<close>.
\<close>

lemma fp128_four [simp]: "(4 :: fp128) \<noteq> 0"
proof
  assume "(4 :: fp128) = 0"
  then have "as_residue (of_nat 4) = 0" by (simp add: zero_fp128.rep_eq)
  then show False unfolding p128_of_nat by (simp add: p128_modulus_def)
qed

definition pad_hash :: "bytes \<Rightarrow> digest" where
  "pad_hash x = take 32 (x @ replicate 32 0)"

definition demo_crypto :: crypto where
  "demo_crypto = \<lparr>cr_sha = pad_hash, cr_aes = (\<lambda>_ _. replicate 16 0)\<rparr>"

definition demo_circuit :: "fp128 circuit" where
  "demo_circuit =
     \<lparr>c_version = 1, c_num_outputs = 1, c_num_copies = 1, c_num_public_inputs = 1,
      c_subfield_boundary = 0, c_num_inputs = 2, c_num_layers = 1, c_constant_table = [- 4, 1],
      c_layers = [\<lparr>layer_logw = 1, layer_num_wires = 2,
        layer_quads = [\<lparr>gate_index = 0, left_wire_index = 0, right_wire_index = 0, const_table_index = 0\<rparr>,
                       \<lparr>gate_index = 0, left_wire_index = 1, right_wire_index = 1, const_table_index = 1\<rparr>]\<rparr>],
      c_id = []\<rparr>"

definition demo_evaluation :: "fp128 evaluation" where
  "demo_evaluation = \<lparr>ev_wires = [[0], [1, 2]]\<rparr>"

definition demo_pad :: "fp128 \<Rightarrow> fp128 \<times> fp128" where
  "demo_pad g = (g, g + 1)"

definition demo_witness :: "fp128 witness" where
  "demo_witness = \<lparr>w_values = [2, 1, 2, 3, 4, 5, 6, 30], w_layout = layout_from_circuit demo_circuit\<rparr>"

definition demo_transcript :: transcript where
  "demo_transcript = \<lparr>tr_mode = Normal, tr_written = [], tr_fsprf = None\<rparr>"

lemma demo_evaluate: "evaluate demo_circuit [1, 2] = Inr demo_evaluation"
  by (simp add: evaluate_def evaluate_step_def evaluate_layer_def evaluate_quad_def
      circuit_constant_def nth_opt_def demo_circuit_def demo_evaluation_def enumerate_eq_zip)

lemma demo_fill:
  "fill_witness (layout_from_circuit demo_circuit) [2] demo_pad 1 = (demo_witness, 7)"
  by (simp add: fill_witness_def fill_layer_def layout_from_circuit_def demo_circuit_def
      demo_witness_def demo_pad_def numeral_eq_Suc)

text \<open>The stream turns to zeros at the next block boundary, so every draw ends.\<close>

definition zero_block :: "fsprf \<Rightarrow> bool" where
  "zero_block f \<longleftrightarrow> fs_block f = replicate 16 0 \<or> fs_position f mod 16 = 0"

lemma zero_block_next:
  "zero_block f \<Longrightarrow> \<exists>f'. fsprf_next demo_crypto f = (0, f') \<and> zero_block f'"
  by (auto simp: fsprf_next_def zero_block_def fsprf_current_block_def demo_crypto_def Let_def)

lemma zero_block_read:
  "zero_block f \<Longrightarrow> \<exists>f'. fsprf_read demo_crypto n f = (replicate n 0, f') \<and> zero_block f'"
proof (induction n arbitrary: f)
  case (Suc n)
  from zero_block_next [OF Suc.prems] obtain f1 where f1: "fsprf_next demo_crypto f = (0, f1)" "zero_block f1"
    by blast
  from Suc.IH [OF f1(2)] f1(1) show ?case by auto
qed simp

lemma other_block_next:
  assumes "\<not> zero_block f"
  shows "zero_block (snd (fsprf_next demo_crypto f)) \<or>
    fs_position (snd (fsprf_next demo_crypto f)) mod 16 = Suc (fs_position f mod 16)"
  using assms mod_Suc [of "fs_position f" 16] by (auto simp: fsprf_next_def zero_block_def Let_def)

lemma other_block_read:
  "\<not> zero_block f \<Longrightarrow> zero_block (snd (fsprf_read demo_crypto (Suc n) f)) \<or>
    fs_position f mod 16 < fs_position (snd (fsprf_read demo_crypto (Suc n) f)) mod 16"
proof (induction n arbitrary: f)
  case 0
  then show ?case using other_block_next [of f] by (auto simp: split_beta Let_def)
next
  case (Suc n)
  let ?f = "snd (fsprf_next demo_crypto f)"
  have eq: "snd (fsprf_read demo_crypto (Suc (Suc n)) f) = snd (fsprf_read demo_crypto (Suc n) ?f)"
    by (simp add: split_beta Let_def)
  show ?case
  proof (cases "zero_block ?f")
    case True
    from zero_block_read [OF this, of "Suc n"] show ?thesis unfolding eq by auto
  next
    case False
    with other_block_next [OF Suc.prems] have "fs_position ?f mod 16 = Suc (fs_position f mod 16)" by blast
    with Suc.IH [OF False] show ?thesis unfolding eq by linarith
  qed
qed

lemma le_value_zeros [simp]: "le_value (replicate n 0) = 0"
  by (induction n) simp_all

lemma mask_last_zeros: "mask_last bits (replicate (div_ceil bits 8) 0) = replicate (div_ceil bits 8) 0"
proof -
  have "(replicate n 0)[k := 0 :: byte] = replicate n 0" for n k
    by (cases "k < n") (simp_all add: list_eq_iff_nth_eq nth_list_update)
  moreover have "replicate n (0 :: byte) ! (n - 1) = 0" if "n > 0" for n using that by simp
  ultimately show ?thesis
    by (cases "div_ceil bits 8 = 0") (simp_all add: mask_last_def Let_def)
qed

lemma demo_natural: "bound > 0 \<Longrightarrow> \<exists>r. natural_loop demo_crypto bound bits f = Some r"
proof (induction "16 - fs_position f mod 16" arbitrary: f rule: less_induct)
  case less
  let ?n = "div_ceil bits 8"
  obtain bs f' where read: "fsprf_read demo_crypto ?n f = (bs, f')" by fastforce
  consider "?n = 0 \<or> zero_block f" | "\<not> zero_block f" "?n \<noteq> 0" by blast
  then show ?case
  proof cases
    case 1
    then have "bs = replicate ?n 0" using read zero_block_read [of f ?n] by auto
    then show ?thesis
      using read less.prems by (subst natural_loop.simps) (simp add: mask_last_zeros)
  next
    case 2
    have "f' = snd (fsprf_read demo_crypto (Suc (?n - 1)) f)" using read 2(2) by simp
    with other_block_read [OF 2(1), of "?n - 1"]
    have "zero_block f' \<or> fs_position f mod 16 < fs_position f' mod 16" by simp
    then have "\<exists>r. natural_loop demo_crypto bound bits f' = Some r"
    proof
      assume "zero_block f'"
      then obtain f'' where "fsprf_read demo_crypto ?n f' = (replicate ?n 0, f'')"
        using zero_block_read [of f' ?n] by blast
      then show ?thesis
        using less.prems by (subst natural_loop.simps) (simp add: mask_last_zeros)
    next
      assume "fs_position f mod 16 < fs_position f' mod 16"
      moreover have "fs_position f' mod 16 < 16" by simp
      ultimately show ?thesis by (intro less.hyps less.prems) linarith
    qed
    then show ?thesis using read by (subst natural_loop.simps) (simp add: Let_def)
  qed
qed

lemma demo_sample: "\<exists>r. sample_field_element demo_crypto p128_ops f = Some r"
proof -
  have zeros: "\<exists>r. sample_loop p128_ops (fsprf_read demo_crypto 16) f k = Some r" if z: "zero_block f" for f k
  proof -
    obtain f' where f': "fsprf_read demo_crypto 16 f = (replicate 16 0, f')" using zero_block_read [OF z] by blast
    have "fo_try_from p128_ops (mask_excess (fo_num_bits p128_ops) (replicate 16 0)) = Some (p128_from_bytes (replicate 16 0))"
      by (simp add: p128_ops_def mask_excess_def p128_try_from_Some) (simp add: p128_modulus_def)
    with f' show ?thesis by (subst sample_loop.simps) simp
  qed
  have "\<exists>r. sample_loop p128_ops (fsprf_read demo_crypto 16) f k = Some r" for k
  proof (induction "16 - fs_position f mod 16" arbitrary: f k rule: less_induct)
    case less
    obtain bs f' where read: "fsprf_read demo_crypto 16 f = (bs, f')" by fastforce
    show ?case
    proof (cases "zero_block f")
      case False
      have "f' = snd (fsprf_read demo_crypto (Suc 15) f)" using read by (simp add: numeral_eq_Suc)
      with other_block_read [OF False, of 15] have "zero_block f' \<or> fs_position f mod 16 < fs_position f' mod 16" by simp
      moreover have "fs_position f' mod 16 < 16" by simp
      ultimately have "\<exists>r. sample_loop p128_ops (fsprf_read demo_crypto 16) f' (Suc k) = Some r"
      proof (elim disjE)
        assume "fs_position f mod 16 < fs_position f' mod 16" "fs_position f' mod 16 < 16"
        then show ?thesis by (intro less.hyps) linarith
      qed (rule zeros)
      then show ?thesis using read by (subst sample_loop.simps) (auto split: option.splits)
    qed (rule zeros)
  qed
  then obtain x k g where "sample_loop p128_ops (fsprf_read demo_crypto 16) f 0 = Some (x, k, g)"
    by (metis prod_cases3)
  moreover have "num_bytes p128_ops = 16" by (simp add: num_bytes_def p128_ops_def)
  ultimately show ?thesis by (simp add: sample_field_element_def sample_from_source_def sample_counting_rejections_def)
qed

lemma demo_accepts: "\<not> sampling_diverges demo_crypto p128_ops"
  unfolding sampling_diverges_def using demo_natural by (metis demo_sample option.distinct(1))

lemma demo_interleave: "interleave 0 0 = 0" "interleave 1 1 = 3"
  by code_simp+

lemma demo_layer_invariants: "i < length (c_layers demo_circuit) \<Longrightarrow> layer_invariants demo_circuit i"
  by (simp add: demo_circuit_def layer_invariants_def quad_in_range_def next_width_def q_z_disjoint_def
      is_z_quad_def combined_quad_def combined_quad_element_def circuit_constant_def nth_opt_def
      is_sorted_quads_def sparse_quad_cmp_def interleaved_wires_def cmp_key_def demo_interleave)

lemma demo_layer_dims: "layer_dims demo_circuit"
  by (simp add: layer_dims_def demo_circuit_def ceil_log2.simps)

lemma demo_private: "ev_private_inputs (c_num_public_inputs demo_circuit) demo_evaluation = Inr [2]"
  by (simp add: ev_private_inputs_def ev_inputs_def demo_evaluation_def demo_circuit_def usize_sub_def)

lemma demo_public: "ev_public_inputs (c_num_public_inputs demo_circuit) demo_evaluation = Inr [1]"
  by (simp add: ev_public_inputs_def ev_inputs_def demo_evaluation_def demo_circuit_def usize_sub_def)

lemma demo_circuit_facts:
  "c_num_layers demo_circuit = length (c_layers demo_circuit)" "c_layers demo_circuit \<noteq> []"
  "length (c_layers demo_circuit) < 2 ^ 64" "c_num_inputs demo_circuit < 2 ^ 64"
  "length [1, 2 :: fp128] = unat (layer_num_wires (last (c_layers demo_circuit)))"
  "length [1, 2 :: fp128] = c_num_inputs demo_circuit"
  "c_num_public_inputs demo_circuit \<le> c_num_inputs demo_circuit"
  "list_all (\<lambda>x. x = 0) (ev_wires demo_evaluation ! 0)"
  "\<forall>i < length (c_layers demo_circuit). q_z_disjoint demo_circuit (c_layers demo_circuit ! i)"
  by (simp_all add: demo_circuit_def demo_evaluation_def q_z_disjoint_def is_z_quad_def)

lemma demo_prove:
  "\<exists>pf lc t'. sumcheck_prove demo_crypto p128_ops demo_circuit demo_evaluation demo_witness
     demo_transcript = Inr (pf, lc, t')"
  using prove_total [OF demo_evaluate demo_layer_invariants demo_circuit_facts(1,3,2) demo_layer_dims
      demo_circuit_facts(5-8) demo_private demo_fill, of demo_crypto p128_ops demo_transcript] demo_accepts
  by (auto simp: yields_def split: sum.splits)

end
