(* ===== verification/Claims_Zk.thy ===== *)
theory Claims_Zk
  imports Zk_Wire Demo Merkle Field_Gf
begin

text \<open>
  The properties of the proof system as a whole and of its polynomial commitment: completeness of the
  one-circuit prover and of Ligero, what an accepted Ligero proof opens, the wire formats, and the
  field that makes the extension a Reed-Solomon code.
\<close>

text \<open>
  C1: The honest proof is accepted: for inputs on which the circuit evaluates to zeros, the prover
  built from a circuit and Ligero parameters returns a proof, and the verifier built from the same accepts
  it together with the public inputs, whatever the session, the pad, the blinding and the nonces.
\<close>

theorem honest_proof_accepted:
  assumes "reed_solomon F cw ok" "sumcheck_field F" "proper_circuit c" "parameters_ok ok params"
    and "\<And>bs. length (cr_sha C bs) = 32" "\<not> sampling_diverges C F" "length session_id < 2 ^ 64"
    and "length inputs = c_num_inputs c" "evaluate c inputs = Inr ev" "list_all (\<lambda>x. x = 0) (ev_wires ev ! 0)"
  shows "\<exists>P V pf. zk_prover_new c params = Inr P \<and> zk_verifier_new c params = Inr V \<and>
    zk_prove C F P session_id inputs pad_generator p gen g nonce_gen n = Inr pf \<and>
    zk_verify C F V (take (c_num_public_inputs c) inputs) pf = Inr ()"
proof -
  have "length (cr_sha C bs) < 2 ^ 64" for bs using assms(5) by simp
  from reed_solomon.prove_then_verify [OF assms(1-4) this assms(8-10,7)] assms(6)
  show ?thesis by (fastforce simp: yields_def split: sum.splits)
qed

definition demo_parameters :: ligero_parameters where
  "demo_parameters = \<lparr>nreq = 1, witnesses_per_row = 1, quadratic_constraints_per_row = 1, block_size = 2, num_columns = 5\<rparr>"

definition demo_nonces :: "unit \<Rightarrow> nonce \<times> unit" where
  "demo_nonces u = (replicate 32 7, u)"

lemma demo_parameters_ok: "parameters_ok short_enough demo_parameters"
  by (simp add: parameters_ok_def demo_parameters_def short_enough_def)

lemma demo_proper: "proper_circuit demo_circuit"
  unfolding proper_circuit_def
  using demo_layer_invariants demo_layer_dims demo_circuit_facts
  by (simp add: num_quads_def) (simp add: demo_circuit_def)

lemma demo_sha: "length (cr_sha demo_crypto bs) = 32"
  by (simp add: demo_crypto_def pad_hash_def)

theorem honest_proof_accepted_witness:
  "\<exists>P V pf. zk_prover_new demo_circuit demo_parameters = Inr P \<and> zk_verifier_new demo_circuit demo_parameters = Inr V \<and>
    zk_prove demo_crypto p128_ops P [1, 2] [1, 2] demo_pad 1 demo_pad 9 demo_nonces () = Inr pf \<and>
    zk_verify demo_crypto p128_ops V [1] pf = Inr ()"
proof -
  have "length [1, 2 :: byte] < 2 ^ 64" by simp
  from honest_proof_accepted [OF p128_code.rs.reed_solomon_axioms p128_sumcheck.sumcheck_field_axioms demo_proper
      demo_parameters_ok demo_sha demo_accepts this demo_circuit_facts(6) demo_evaluate demo_circuit_facts(8),
      of demo_pad 1 demo_pad 9 demo_nonces "()"]
  show ?thesis by (simp add: demo_circuit_def)
qed

text \<open>A prover with one quadratic constraint, and a witness for it and for one linear constraint.\<close>

definition demo_prover :: ligero_prover where
  "demo_prover = \<lparr>lpr_parameters = demo_parameters, lpr_witness_layout = \<lparr>wl_num_private_inputs = 3, wl_logw = []\<rparr>,
     lpr_quadratic_constraints = [\<lparr>qc_x = 0, qc_y = 1, qc_z = 2\<rparr>]\<rparr>"

abbreviation "demo_ligero_witness \<equiv> \<lparr>w_values = [2, 3, 6 :: fp128], w_layout = lpr_witness_layout demo_prover\<rparr>"
abbreviation "demo_linear \<equiv>
  \<lparr>lc_lhs_terms = [\<lparr>constraint_number = 0, witness_index = 1, constant_factor = 5 :: fp128\<rparr>], lc_rhs = [15]\<rparr>"
abbreviation "demo_layout \<equiv> tableau_layout_new demo_parameters 3 1"
abbreviation "demo_verifier \<equiv>
  \<lparr>lv_quadratic_constraints = lpr_quadratic_constraints demo_prover, lv_tableau_layout = demo_layout\<rparr>"

lemma demo_ligero_facts:
  "parameters_ok short_enough (lpr_parameters demo_prover)"
  "constraint_indices_ok (w_values demo_ligero_witness) (lpr_quadratic_constraints demo_prover)"
  "\<forall>q \<in> set (lpr_quadratic_constraints demo_prover). quadratic_constraint_holds (nth (w_values demo_ligero_witness)) q"
  "terms_in_range (length (w_values demo_ligero_witness)) demo_linear"
  "linear_constraints_hold (nth (w_values demo_ligero_witness)) demo_linear"
  "lpr_parameters demo_prover = demo_parameters" "length (w_values demo_ligero_witness) = 3"
  "length (lpr_quadratic_constraints demo_prover) = 1"
  using demo_parameters_ok
  by (simp_all add: demo_prover_def constraint_indices_ok_def quadratic_constraint_holds_def terms_in_range_def
      linear_constraints_hold_def lhs_sum_def)

text \<open>
  C3: Ligero is complete: committing to a witness succeeds, and from the commitment the prover makes a
  proof that the verifier accepts for every set of linear constraints that the witness satisfies, next
  to the quadratic ones; both sides leave the transcript in the same state.
\<close>

theorem ligero_proof_accepted:
  assumes "reed_solomon F cw ok" "parameters_ok ok (lpr_parameters P)"
    and "constraint_indices_ok (w_values w) (lpr_quadratic_constraints P)"
    and "\<forall>q \<in> set (lpr_quadratic_constraints P). quadratic_constraint_holds (nth (w_values w)) q"
    and "terms_in_range (length (w_values w)) lc" "linear_constraints_hold (nth (w_values w)) lc"
    and "\<not> sampling_diverges C F"
  shows "\<exists>cs g' n' pf t'. ligero_commit C F P w gen g nonce_gen n = Inr (cs, g', n') \<and>
    ligero_prove C F P t cs lc = Inr (pf, t') \<and>
    ligero_verify C F \<lparr>lv_quadratic_constraints = lpr_quadratic_constraints P,
        lv_tableau_layout = tableau_layout_new (lpr_parameters P) (length (w_values w))
          (length (lpr_quadratic_constraints P))\<rparr> (cs_root cs) pf t lc = Inr t'"
proof -
  obtain cs g' n' where cs: "ligero_commit C F P w gen g nonce_gen n = Inr (cs, g', n')"
    "reed_solomon.committed F cw C (tableau_layout_new (lpr_parameters P) (length (w_values w))
       (length (lpr_quadratic_constraints P))) (w_values w) (lpr_quadratic_constraints P) cs"
    using reed_solomon.ligero_commit_ok [OF assms(1-3), of C gen g nonce_gen n] by blast
  from reed_solomon.ligero_complete [OF assms(1-6) refl cs(2), of t] assms(7) cs(1)
  show ?thesis by (fastforce simp: yields_def split: sum.splits)
qed

theorem ligero_proof_accepted_witness:
  "\<exists>cs g' n' pf t'. ligero_commit demo_crypto p128_ops demo_prover demo_ligero_witness demo_pad 9 demo_nonces () = Inr (cs, g', n') \<and>
    ligero_prove demo_crypto p128_ops demo_prover demo_transcript cs demo_linear = Inr (pf, t') \<and>
    ligero_verify demo_crypto p128_ops demo_verifier (cs_root cs) pf demo_transcript demo_linear = Inr t'"
  using ligero_proof_accepted [OF p128_code.rs.reed_solomon_axioms demo_ligero_facts(1-5) demo_accepts,
      of demo_pad 9 demo_nonces "()" demo_transcript]
  unfolding demo_ligero_facts(6-8) .

text \<open>
  C2: The honest proof survives the wire: over the 128-bit field and with a session of 32 bytes it can
  be encoded, the whole encoding decodes to a proof with no byte left over, and the verifier accepts
  the proof it decoded.
\<close>

theorem honest_proof_over_the_wire:
  assumes "proper_circuit c" "parameters_ok short_enough params"
    and "\<And>bs. length (cr_sha C bs) = 32" "\<And>n. length (fst (nonce_gen n)) = 32" "\<not> sampling_diverges C p128_ops"
    and "length session_id = 32" "length inputs = c_num_inputs c"
    and "evaluate c inputs = Inr ev" "list_all (\<lambda>x. x = 0) (ev_wires ev ! 0)"
  shows "\<exists>P V pf bs pf'. zk_prover_new c params = Inr P \<and> zk_verifier_new c params = Inr V \<and>
    zk_prove C p128_ops P session_id inputs pad_generator p gen g nonce_gen n = Inr pf \<and>
    zk_proof_encode p128_ops V pf = Inr bs \<and> get_decoded (zk_proof_decode p128_ops V) bs = Inr pf' \<and>
    zk_verify C p128_ops V (take (c_num_public_inputs c) inputs) pf' = Inr ()"
proof -
  note rs = p128_code.rs.reed_solomon_axioms
  have "length session_id < 2 ^ 64" "\<And>bs. length (cr_sha C bs) < 2 ^ 64" using assms(3,6) by simp_all
  from reed_solomon.prove_then_verify [OF rs p128_sumcheck.sumcheck_field_axioms assms(1,2) this(2) assms(7-9) this(1)] assms(5)
  obtain P V pf where new: "zk_prover_new c params = Inr P" "zk_verifier_new c params = Inr V"
    and pf: "zk_prove C p128_ops P session_id inputs pad_generator p gen g nonce_gen n = Inr pf"
      "zk_verify C p128_ops V (take (c_num_public_inputs c) inputs) pf = Inr ()"
    by (fastforce simp: yields_def split: sum.splits)
  note shape = reed_solomon.zk_prove_shape [OF rs assms(1-4,7-9) new pf(1)]
  have ok: "parameters_ok short_enough (tl_parameters (verifier_layout V))" using assms(2) shape(4) by simp
  note d = parameters_okD [OF ok]
  have "length (lp_inclusion_proof (zk_ligero_proof pf)) < 2 ^ 32"
    using shape(3) assms(2) by (simp add: parameters_ok_def short_enough_def)
  moreover have "\<exists>b. fo_encode_sub p128_ops x = Inr b" for x by (simp add: p128_ops_def)
  ultimately obtain bs where bs: "zk_proof_encode p128_ops V pf = Inr bs"
    using zk_proof_encode_ok [OF _ shape(1)] assms(6) shape(2) by auto
  have "codec (zk_proof_encode p128_ops V) (zk_proof_decode p128_ops V) (zk_proof_shape V)"
    by (rule p128_subfield.zk_proof_codec) (use d in simp_all)
  from codec.get_decoded_encoded [OF this shape(1) bs] new pf bs show ?thesis by blast
qed

theorem honest_proof_over_the_wire_witness:
  "\<exists>P V pf bs pf'. zk_prover_new demo_circuit demo_parameters = Inr P \<and> zk_verifier_new demo_circuit demo_parameters = Inr V \<and>
    zk_prove demo_crypto p128_ops P (replicate 32 1) [1, 2] demo_pad 1 demo_pad 9 demo_nonces () = Inr pf \<and>
    zk_proof_encode p128_ops V pf = Inr bs \<and> get_decoded (zk_proof_decode p128_ops V) bs = Inr pf' \<and>
    zk_verify demo_crypto p128_ops V [1] pf' = Inr ()"
proof -
  have h: "length (fst (demo_nonces n)) = 32" "length (replicate 32 (1 :: byte)) = 32" for n
    by (simp_all add: demo_nonces_def)
  from honest_proof_over_the_wire [OF demo_proper demo_parameters_ok demo_sha h(1) demo_accepts h(2)
      demo_circuit_facts(6) demo_evaluate demo_circuit_facts(8),
      where pad_generator = demo_pad and p = 1 and gen = demo_pad and g = 9 and n = "()"]
  show ?thesis by (simp add: demo_circuit_def)
qed

text \<open>
  C30: Reading the runs of the opened columns ends on every input, for every field whose element and
  subfield readers consume the input in order: a hostile sequence of empty runs is only as long as
  the input.
\<close>

theorem run_reader_terminates:
  assumes "subfield_codec F"
  shows "\<exists>res. decode_runs F expected b acc bs = Some res"
  by (rule subfield_codec.decode_runs_terminates [OF assms])

theorem run_reader_terminates_witness:
  "\<exists>res. decode_runs p128_ops 3 False [] [0, 0, 0, 0, 0, 0, 0, 0, 1] = Some res"
  by (rule run_reader_terminates [OF p128_subfield.subfield_codec_axioms])



text \<open>
  C4: An accepted Ligero proof opens the commitment. The indices that the verifier draws from the transcript, after the
  challenges and the messages of the proof, are as many as the layout asks for, distinct, and below the number of the
  committed columns; the nodes that the verifier hashes from the nonces and columns of the proof are the hashes of the
  committed tableau's columns at exactly these indices, unless the inclusion proof exhibits two inputs of the hash with the
  same output.
\<close>

theorem accepted_proof_opens_commitment:
  assumes "reed_solomon F cw ok" "parameters_ok ok (lpr_parameters P)"
    and "constraint_indices_ok (w_values w) (lpr_quadratic_constraints P)"
    and "ligero_commit C F P w gen g nonce_gen n = Inr (cs, g', n')" "L = tb_layout (cs_tableau cs)"
    and "ligero_verify C F V (cs_root cs) pf t lc = Inr t'" "lv_tableau_layout V = L"
    and "\<And>bs. length (cr_sha C bs) = 32" "list_all (\<lambda>d. length d = 32) (lp_inclusion_proof pf)"
  shows "\<exists>t1 ch t2 t3 indices nodes.
    write_hash_of_a t = Inr t1 \<and>
    ligero_challenges_generate C F t1 L (length (lc_rhs lc)) (length (lv_quadratic_constraints V)) = Inr (ch, t2) \<and>
    write_proof F (lp_low_degree_test_proof pf) (lp_dot_proof pf) (fst (lp_quadratic_proof pf)) (snd (lp_quadratic_proof pf)) t2 =
      Inr t3 \<and>
    generate_naturals_without_replacement C (tl_num_columns L - dblock L) (num_requested_columns L) t3 = Inr (indices, t') \<and>
    length indices = num_requested_columns L \<and> distinct indices \<and> set indices \<subseteq> {..<tl_num_columns L - dblock L} \<and>
    length (mt_nonces (cs_merkle_tree cs)) = tl_num_columns L - dblock L \<and>
    length ` set (tb_contents (cs_tableau cs)) \<subseteq> {tl_num_columns L} \<and>
    included_nodes C F pf (num_requested_columns L) = Inr nodes \<and>
    (nodes = map (\<lambda>i. column_leaf C F (mt_nonces (cs_merkle_tree cs) ! i) (tb_contents (cs_tableau cs)) (i + dblock L)) indices \<or>
     merkle_collision (cr_sha C) (tl_num_columns L - dblock L) (cs_merkle_tree cs) nodes indices (lp_inclusion_proof pf))"
proof -
  let ?N = "tl_num_columns L - dblock L"
  have committed: "reed_solomon.committed F cw C L (w_values w) (lpr_quadratic_constraints P) cs"
    and params: "tl_parameters L = lpr_parameters P"
    using reed_solomon.ligero_commit_ok [OF assms(1-3), of C gen g nonce_gen n] assms(4,5)
    by (auto simp: reed_solomon.committed_def [OF assms(1)] Let_def tableau_layout_new_def)
  note p = parameters_okD [OF assms(2) [folded params]]
  have wf: "merkle_wf (cr_sha C) ?N (cs_merkle_tree cs)" and root: "merkle_root (cs_merkle_tree cs) = Inr (cs_root cs)"
    and nonces: "length (mt_nonces (cs_merkle_tree cs)) = ?N"
    and tableau: "reed_solomon.tableau_wf cw L (w_values w) (lpr_quadratic_constraints P) (tb_contents (cs_tableau cs))"
    and leaves: "\<forall>i < ?N. leaf_at (cs_merkle_tree cs) i =
      column_leaf C F (mt_nonces (cs_merkle_tree cs) ! i) (tb_contents (cs_tableau cs)) (i + dblock L)"
    using committed by (simp_all add: reed_solomon.committed_def [OF assms(1)] Let_def)
  have rows: "length ` set (tb_contents (cs_tableau cs)) \<subseteq> {tl_num_columns L}"
    using reed_solomon.tableau_wf_row(2) [OF assms(1) assms(2) [folded params] tableau] by auto
  have d32: "list_all (\<lambda>d. length d = 32) (mt_digests (cs_merkle_tree cs))"
    using assms(4) tableau_commit_digests [OF _ assms(8)] by (auto simp: ligero_commit_def split: prod.splits)
  have N: "usize_sub (tl_num_columns L) (dblock L) = ?N" using p by (intro usize_sub_eq) linarith+
  obtain t1 ch t2 t3 idx nodes where
    draw: "write_hash_of_a t = Inr t1"
      "ligero_challenges_generate C F t1 L (length (lc_rhs lc)) (length (lv_quadratic_constraints V)) = Inr (ch, t2)"
      "write_proof F (lp_low_degree_test_proof pf) (lp_dot_proof pf) (fst (lp_quadratic_proof pf)) (snd (lp_quadratic_proof pf)) t2 =
        Inr t3"
    and idx: "generate_naturals_without_replacement C ?N (num_requested_columns L) t3 = Inr (idx, t')"
    and nodes: "included_nodes C F pf (length idx) = Inr nodes"
    and verify: "merkle_verify (cr_sha C) (cs_root cs) ?N nodes idx (lp_inclusion_proof pf) = Inr ()"
    using assms(6) by (auto simp: ligero_verify_def Let_def assms(7) N)
  note n = naturals_without_replacement [OF idx]
  have "list_all (\<lambda>d. length d = 32) nodes"
    by (rule map_res_all [OF nodes [unfolded included_nodes_def]]) (use assms(8) in auto)
  then have "nodes = map (leaf_at (cs_merkle_tree cs)) idx \<or>
      merkle_collision (cr_sha C) ?N (cs_merkle_tree cs) nodes idx (lp_inclusion_proof pf)"
    by (rule merkle_sound_distinct [OF wf d32 assms(8) verify root _ assms(9) n(2)])
  moreover have "map (leaf_at (cs_merkle_tree cs)) idx = map (\<lambda>i. column_leaf C F (mt_nonces (cs_merkle_tree cs) ! i)
      (tb_contents (cs_tableau cs)) (i + dblock L)) idx"
    using leaves n(3) by auto
  ultimately show ?thesis using n(1-3) nodes draw idx nonces rows by (intro exI conjI) (assumption | simp)+
qed

text \<open>A commitment of the demo prover, and an accepted proof for it.\<close>

lemma demo_ligero_accepted:
  obtains cs g' n' pf t' where
    "ligero_commit demo_crypto p128_ops demo_prover demo_ligero_witness demo_pad 9 demo_nonces () = Inr (cs, g', n')"
    "tb_layout (cs_tableau cs) = demo_layout"
    "ligero_verify demo_crypto p128_ops demo_verifier (cs_root cs) pf demo_transcript demo_linear = Inr t'"
    "list_all (\<lambda>d. length d = 32) (lp_inclusion_proof pf)"
proof -
  note rs = p128_code.rs.reed_solomon_axioms
  obtain cs g' n' where commit: "ligero_commit demo_crypto p128_ops demo_prover demo_ligero_witness
      demo_pad 9 demo_nonces () = Inr (cs, g', n')"
    and committed: "reed_solomon.committed p128_ops codeword demo_crypto demo_layout (w_values demo_ligero_witness)
      (lpr_quadratic_constraints demo_prover) cs"
    using reed_solomon.ligero_commit_ok [OF rs demo_ligero_facts(1,2), of demo_crypto demo_pad 9 demo_nonces "()"]
    unfolding demo_ligero_facts(6-8) by blast
  obtain pf t' where prove: "ligero_prove demo_crypto p128_ops demo_prover demo_transcript cs demo_linear = Inr (pf, t')"
    and verify: "ligero_verify demo_crypto p128_ops demo_verifier (cs_root cs) pf demo_transcript demo_linear = Inr t'"
    using reed_solomon.ligero_complete [OF rs demo_ligero_facts(1-5) refl committed [folded demo_ligero_facts(6-8)], of demo_transcript]
      demo_accepts
    unfolding demo_ligero_facts(6-8) by (fastforce simp: yields_def split: sum.splits)
  have ok: "parameters_ok short_enough (tl_parameters demo_layout)"
    using demo_parameters_ok by (simp add: tableau_layout_new_def)
  have "list_all (\<lambda>n. length n = 32) (mt_nonces (cs_merkle_tree cs))"
    using commit tableau_commit_nonces [of demo_crypto p128_ops _ demo_nonces]
    by (auto simp: ligero_commit_def demo_nonces_def split: prod.splits)
  from reed_solomon.ligero_prove_shape(1) [OF rs prove ok committed demo_sha this]
  have "list_all (\<lambda>d. length d = 32) (lp_inclusion_proof pf)" by (simp add: ligero_proof_shape_def)
  moreover have "tb_layout (cs_tableau cs) = demo_layout"
    using committed by (simp add: reed_solomon.committed_def [OF rs] Let_def)
  ultimately show ?thesis using commit verify by (intro that)
qed

theorem accepted_proof_opens_commitment_witness:
  "\<exists>(cs :: fp128 commitment_state) pf t3 t' indices nodes.
    generate_naturals_without_replacement demo_crypto (tl_num_columns demo_layout - dblock demo_layout) 1 t3 = Inr (indices, t') \<and>
    length indices = 1 \<and> set indices \<subseteq> {..<tl_num_columns demo_layout - dblock demo_layout} \<and>
    included_nodes demo_crypto p128_ops pf 1 = Inr nodes \<and>
    (nodes = map (\<lambda>i. column_leaf demo_crypto p128_ops (mt_nonces (cs_merkle_tree cs) ! i) (tb_contents (cs_tableau cs))
       (i + dblock demo_layout)) indices \<or>
     merkle_collision (cr_sha demo_crypto) (tl_num_columns demo_layout - dblock demo_layout) (cs_merkle_tree cs) nodes indices
       (lp_inclusion_proof pf))"
proof -
  have nreq: "num_requested_columns demo_layout = 1"
    by (simp add: num_requested_columns_def tableau_layout_new_def demo_parameters_def)
  obtain cs g' n' pf t' where demo:
    "ligero_commit demo_crypto p128_ops demo_prover demo_ligero_witness demo_pad 9 demo_nonces () = Inr (cs, g', n')"
    "tb_layout (cs_tableau cs) = demo_layout"
    "ligero_verify demo_crypto p128_ops demo_verifier (cs_root cs) pf demo_transcript demo_linear = Inr t'"
    "list_all (\<lambda>d. length d = 32) (lp_inclusion_proof pf)"
    by (rule demo_ligero_accepted)
  have layout: "lv_tableau_layout demo_verifier = demo_layout" by simp
  note opened = accepted_proof_opens_commitment [OF p128_code.rs.reed_solomon_axioms demo_ligero_facts(1,2) demo(1)
      demo(2) [symmetric] demo(3) layout demo_sha demo(4), unfolded nreq]
  show ?thesis by (rule exI [of _ cs], rule exI [of _ pf]) (use opened in blast)
qed

end
