(* ===== verification/Gf_Backends.thy ===== *)
theory Gf_Backends
  imports Gf_Ring Prelude
begin

text \<open>
  The multiplication routines of \<open>src/src/fields/field2_128\<close>: \<open>backend_bit_slicing.rs\<close>, which builds
  carryless products from masked integer products, \<open>backend_x86.rs\<close> and \<open>backend_aarch64.rs\<close> on the
  carryless multiplication instructions of the standard library, the dispatch of \<open>mod.rs\<close> and its cached
  feature flag. All of them compute the product of \<open>Gf_Ring\<close>: words are read as polynomials by
  \<open>eval_word\<close>, and the shifts and masks of the routines become multiplications by powers of \<open>x\<close>.
\<close>

subsection \<open>The bit slicing backend\<close>

definition clmul32 :: "32 word \<Rightarrow> 32 word \<Rightarrow> 64 word" where
  "clmul32 x y =
     (let mask_0 = 0x1111111111111111 :: 64 word; mask_1 = 0x2222222222222222 :: 64 word;
          mask_2 = 0x4444444444444444 :: 64 word; mask_3 = 0x8888888888888888 :: 64 word;
          x0 = ucast (x AND ucast mask_0); x1 = ucast (x AND ucast mask_1);
          x2 = ucast (x AND ucast mask_2); x3 = ucast (x AND ucast mask_3);
          y0 = ucast (y AND ucast mask_0); y1 = ucast (y AND ucast mask_1);
          y2 = ucast (y AND ucast mask_2); y3 = ucast (y AND ucast mask_3);
          z0 = ((x0 * y0) XOR (x1 * y3) XOR (x2 * y2) XOR (x3 * y1)) AND mask_0;
          z1 = ((x0 * y1) XOR (x1 * y0) XOR (x2 * y3) XOR (x3 * y2)) AND mask_1;
          z2 = ((x0 * y2) XOR (x1 * y1) XOR (x2 * y0) XOR (x3 * y3)) AND mask_2;
          z3 = ((x0 * y3) XOR (x1 * y2) XOR (x2 * y1) XOR (x3 * y0)) AND mask_3
      in z0 OR z1 OR z2 OR z3)"

definition clmul64 :: "64 word \<Rightarrow> 64 word \<Rightarrow> 128 word" where
  "clmul64 x y =
     (let x_lo = ucast x :: 32 word; x_hi = ucast (drop_bit 32 x) :: 32 word;
          y_lo = ucast y :: 32 word; y_hi = ucast (drop_bit 32 y) :: 32 word;
          r1 = clmul32 x_lo y_lo;
          r4 = clmul32 x_hi y_hi;
          p_prime = x_lo XOR x_hi;
          q_prime = y_lo XOR y_hi;
          s = clmul32 p_prime q_prime;
          t = s XOR r1 XOR r4;
          result_low = r1 XOR push_bit 32 t;
          result_high = drop_bit 32 t XOR r4
      in ucast result_low OR push_bit 64 (ucast result_high))"

definition reduce :: "128 word \<Rightarrow> 128 word \<Rightarrow> 128 word" where
  "reduce result_low result_middle =
     (let temp = drop_bit 64 result_middle
      in result_low XOR push_bit 64 result_middle XOR temp XOR push_bit 1 temp XOR push_bit 2 temp XOR push_bit 7 temp)"

definition bit_slicing_multiply :: "128 word \<Rightarrow> 128 word \<Rightarrow> 128 word" where
  "bit_slicing_multiply x y =
     (let r1 = clmul64 (ucast x) (ucast y);
          r4 = clmul64 (ucast (drop_bit 64 x)) (ucast (drop_bit 64 y));
          p_prime = ucast x XOR ucast (drop_bit 64 x);
          q_prime = ucast y XOR ucast (drop_bit 64 y);
          s = clmul64 p_prime q_prime;
          t = s XOR r1 XOR r4;
          intermediate_middle = reduce t r4
      in reduce r1 intermediate_middle)"

definition square_u64_widening :: "64 word \<Rightarrow> 128 word" where
  "square_u64_widening x =
     (let x = ucast x :: 128 word;
          x = (x OR push_bit 32 x) AND 0x00000000FFFFFFFF00000000FFFFFFFF;
          x = (x OR push_bit 16 x) AND 0x0000FFFF0000FFFF0000FFFF0000FFFF;
          x = (x OR push_bit 8 x) AND 0x00FF00FF00FF00FF00FF00FF00FF00FF;
          x = (x OR push_bit 4 x) AND 0x0F0F0F0F0F0F0F0F0F0F0F0F0F0F0F0F;
          x = (x OR push_bit 2 x) AND 0x33333333333333333333333333333333
      in (x OR push_bit 1 x) AND 0x55555555555555555555555555555555)"

definition bit_slicing_square :: "128 word \<Rightarrow> 128 word" where
  "bit_slicing_square x =
     (let product_high = square_u64_widening (ucast (drop_bit 64 x));
          product_low = square_u64_widening (ucast x);
          intermediate_middle = reduce 0 product_high
      in reduce product_low intermediate_middle)"

subsection \<open>The instruction backends\<close>

text \<open>The targets that the configuration of the build tells apart.\<close>

datatype target_arch = X86 | X86_64 | AArch64 | Other_Arch

text \<open>The carryless product that \<open>PCLMULQDQ\<close> and \<open>PMULL\<close> are documented to compute.\<close>

definition carryless :: "64 word \<Rightarrow> 64 word \<Rightarrow> 128 word" where
  "carryless x y = fold (\<lambda>i r. if bit y i then r XOR push_bit i (ucast x) else r) [0..<64] 0"

text \<open>\<open>_mm_clmulepi64_si128\<close>: the immediate selects the half of each operand.\<close>

definition clmulepi64 :: "8 word \<Rightarrow> 128 word \<Rightarrow> 128 word \<Rightarrow> 128 word" where
  "clmulepi64 imm x y =
     carryless (if bit imm 0 then ucast (drop_bit 64 x) else ucast x)
       (if bit imm 4 then ucast (drop_bit 64 y) else ucast y)"

definition set_epi64x :: "64 word \<Rightarrow> 64 word \<Rightarrow> 128 word" where
  "set_epi64x e1 e0 = push_bit 64 (ucast e1) OR ucast e0"

definition pack_u128 :: "128 word \<Rightarrow> 128 word" where
  "pack_u128 value = set_epi64x (ucast (drop_bit 64 value)) (ucast value)"

text \<open>The source has two functions \<open>unpack_u128\<close>, one for each width of the general registers.\<close>

definition unpack_u128_x86_64 :: "128 word \<Rightarrow> 128 word" where
  "unpack_u128_x86_64 value =
     (let low = ucast (ucast value :: 64 word);
          shifted = drop_bit 64 value;
          high = ucast (ucast shifted :: 64 word)
      in low OR push_bit 64 high)"

definition unpack_u128_x86 :: "128 word \<Rightarrow> 128 word" where
  "unpack_u128_x86 value =
     (let lane0 = ucast (ucast value :: 32 word);
          lane1 = ucast (ucast (drop_bit 32 value) :: 32 word);
          lane2 = ucast (ucast (drop_bit 64 value) :: 32 word);
          lane3 = ucast (ucast (drop_bit 96 value) :: 32 word)
      in lane0 OR push_bit 32 lane1 OR push_bit 64 lane2 OR push_bit 96 lane3)"

definition unpack_u128 :: "target_arch \<Rightarrow> 128 word \<Rightarrow> 128 word" where
  "unpack_u128 arch = (if arch = X86 then unpack_u128_x86 else unpack_u128_x86_64)"

definition x86_reduce :: "128 word \<Rightarrow> 128 word \<Rightarrow> 128 word" where
  "x86_reduce result_low result_middle =
     (let product = clmulepi64 0x01 result_middle (pack_u128 0x87);
          middle_low_half_shifted = push_bit 64 result_middle
      in (result_low XOR middle_low_half_shifted) XOR product)"

definition x86_multiply :: "target_arch \<Rightarrow> 128 word \<Rightarrow> 128 word \<Rightarrow> 128 word" where
  "x86_multiply arch x y =
     (let x = pack_u128 x; y = pack_u128 y;
          product1 = clmulepi64 0x00 x y;
          product2 = clmulepi64 0x01 x y;
          product3 = clmulepi64 0x10 x y;
          product4 = clmulepi64 0x11 x y;
          middle = product2 XOR product3;
          intermediate_middle = x86_reduce middle product4;
          reduced = x86_reduce product1 intermediate_middle
      in unpack_u128 arch reduced)"

definition x86_square :: "target_arch \<Rightarrow> 128 word \<Rightarrow> 128 word" where
  "x86_square arch x =
     (let x = pack_u128 x;
          product1 = clmulepi64 0x00 x x;
          product4 = clmulepi64 0x11 x x;
          intermediate_middle = x86_reduce (pack_u128 0) product4;
          reduced = x86_reduce product1 intermediate_middle
      in unpack_u128 arch reduced)"

definition aarch64_reduce :: "128 word \<Rightarrow> 128 word \<Rightarrow> 128 word" where
  "aarch64_reduce result_low result_middle =
     (let product = carryless (ucast (drop_bit 64 result_middle)) 0x87
      in result_low XOR push_bit 64 result_middle XOR product)"

definition aarch64_multiply :: "128 word \<Rightarrow> 128 word \<Rightarrow> 128 word" where
  "aarch64_multiply x y =
     (let product1 = carryless (ucast x) (ucast y);
          product2 = carryless (ucast (drop_bit 64 x)) (ucast y);
          product3 = carryless (ucast x) (ucast (drop_bit 64 y));
          product4 = carryless (ucast (drop_bit 64 x)) (ucast (drop_bit 64 y));
          middle = product2 XOR product3;
          intermediate_middle = aarch64_reduce middle product4
      in aarch64_reduce product1 intermediate_middle)"

definition aarch64_square :: "128 word \<Rightarrow> 128 word" where
  "aarch64_square x =
     (let product1 = carryless (ucast x) (ucast x);
          product4 = carryless (ucast (drop_bit 64 x)) (ucast (drop_bit 64 x));
          intermediate_middle = aarch64_reduce 0 product4
      in aarch64_reduce product1 intermediate_middle)"

subsection \<open>The dispatch\<close>

definition galois_multiply :: "target_arch \<Rightarrow> bool \<Rightarrow> 128 word \<Rightarrow> 128 word \<Rightarrow> 128 word" where
  "galois_multiply arch features x y =
     (if arch \<in> {X86, X86_64} \<and> features then x86_multiply arch x y
      else if arch = AArch64 \<and> features then aarch64_multiply x y
      else bit_slicing_multiply x y)"

definition galois_square :: "target_arch \<Rightarrow> bool \<Rightarrow> 128 word \<Rightarrow> 128 word" where
  "galois_square arch features x =
     (if arch \<in> {X86, X86_64} \<and> features then x86_square arch x
      else if arch = AArch64 \<and> features then aarch64_square x
      else bit_slicing_square x)"

subsection \<open>Shifts and halves of words as polynomials\<close>

lemma eval_word_xor: "eval_word (v XOR w) = eval_word v + eval_word w"
proof -
  have "bit (v XOR w) = (\<lambda>i. bit v i \<noteq> bit w i)" by (simp add: fun_eq_iff bit_xor_iff)
  then show ?thesis by (simp only: eval_word_def poly_at_xor)
qed

lemma eval_word_0 [simp]: "eval_word 0 = 0"
  by (simp add: eval_word_def poly_at_def)

lemma eval_halves_64:
  "eval_word (v :: 64 word) = eval_word (ucast v :: 32 word) + gf_x ^ 32 * eval_word (ucast (drop_bit 32 v) :: 32 word)"
  using poly_at_split [of "bit v" 32 32]
  by (simp add: eval_word_def bit_simps) (intro arg_cong2 [where f = "(+)"] arg_cong2 [where f = "(*)"] poly_at_cong; simp add: bit_simps)

lemma eval_halves_128:
  "eval_word (v :: 128 word) = eval_word (ucast v :: 64 word) + gf_x ^ 64 * eval_word (ucast (drop_bit 64 v) :: 64 word)"
  using poly_at_split [of "bit v" 64 64]
  by (simp add: eval_word_def bit_simps) (intro arg_cong2 [where f = "(+)"] arg_cong2 [where f = "(*)"] poly_at_cong; simp add: bit_simps)


text \<open>A shift left of a word whose high bits are clear is a multiplication.\<close>

lemma eval_push_bit:
  fixes v :: "'n :: len word"
  assumes "\<And>i. bit v i \<Longrightarrow> i + k < LENGTH('n)" "k \<le> LENGTH('n)"
  shows "eval_word (push_bit k v) = gf_x ^ k * eval_word v"
proof -
  let ?m = "LENGTH('n) - k"
  have n: "LENGTH('n) = k + ?m" using assms(2) by simp
  have "eval_word (push_bit k v) = poly_at (bit (push_bit k v)) (k + ?m)" unfolding eval_word_def using n by simp
  also have "\<dots> = gf_x ^ k * poly_at (bit v) ?m"
  proof -
    have "poly_at (bit (push_bit k v)) k = poly_at (\<lambda>_. False) k" by (rule poly_at_cong) (simp add: bit_simps)
    moreover have "poly_at (\<lambda>i. bit (push_bit k v) (k + i)) ?m = poly_at (bit v) ?m"
      by (rule poly_at_cong) (auto simp: bit_simps)
    ultimately show ?thesis by (simp add: poly_at_split) (simp add: poly_at_def)
  qed
  also have "poly_at (bit v) ?m = poly_at (bit v) LENGTH('n)"
    by (rule poly_at_beyond [symmetric]) (use assms(1) in force)+
  finally show ?thesis by (simp add: eval_word_def)
qed

lemma eval_push_bit_half: "eval_word (push_bit 32 v :: 64 word) = gf_x ^ 32 * eval_word (ucast v :: 32 word)"
  "eval_word (push_bit 64 w :: 128 word) = gf_x ^ 64 * eval_word (ucast w :: 64 word)"
proof -
  have "(ucast (push_bit 32 v) :: 32 word) = 0" "(ucast (drop_bit 32 (push_bit 32 v)) :: 32 word) = ucast v"
    "(ucast (push_bit 64 w) :: 64 word) = 0" "(ucast (drop_bit 64 (push_bit 64 w)) :: 64 word) = ucast w"
    by (auto intro!: bit_word_eqI simp: bit_simps)
  then show "eval_word (push_bit 32 v) = gf_x ^ 32 * eval_word (ucast v :: 32 word)"
    "eval_word (push_bit 64 w) = gf_x ^ 64 * eval_word (ucast w :: 64 word)"
    by (simp_all add: eval_halves_64 [of "push_bit 32 v"] eval_halves_128 [of "push_bit 64 w"])
qed

lemma eval_drop_bit_half: "eval_word (drop_bit 32 v :: 64 word) = eval_word (ucast (drop_bit 32 v) :: 32 word)"
  "eval_word (drop_bit 64 w :: 128 word) = eval_word (ucast (drop_bit 64 w) :: 64 word)"
proof -
  have "(ucast (drop_bit 32 (drop_bit 32 v)) :: 32 word) = 0" "(ucast (drop_bit 64 (drop_bit 64 w)) :: 64 word) = 0"
    by (auto intro!: bit_word_eqI simp: bit_simps dest: bit_imp_le_length)
  then show "eval_word (drop_bit 32 v) = eval_word (ucast (drop_bit 32 v) :: 32 word)"
    "eval_word (drop_bit 64 w) = eval_word (ucast (drop_bit 64 w) :: 64 word)"
    by (simp_all add: eval_halves_64 [of "drop_bit 32 v"] eval_halves_128 [of "drop_bit 64 w"])
qed

lemma eval_join: "eval_word (ucast (lo :: 64 word) OR push_bit 64 (ucast (hi :: 64 word)) :: 128 word) =
    eval_word lo + gf_x ^ 64 * eval_word hi"
proof -
  let ?v = "ucast lo OR push_bit 64 (ucast hi) :: 128 word"
  have "\<not> bit lo (64 + n)" for n using bit_imp_le_length [of lo "64 + n"] by auto
  then have "(ucast ?v :: 64 word) = lo" "(ucast (drop_bit 64 ?v) :: 64 word) = hi"
    by (auto intro!: bit_word_eqI simp: bit_simps)
  then show ?thesis by (simp add: eval_halves_128 [of ?v])
qed

lemma eval_reduce: "eval_word (reduce lo mid) = eval_word lo + gf_x ^ 64 * eval_word mid"
proof -
  let ?t = "drop_bit 64 mid" and ?h = "eval_word (ucast (drop_bit 64 mid) :: 64 word)"
  have "eval_word (push_bit k ?t) = gf_x ^ k * ?h" if "k \<le> 64" for k
  proof -
    have "eval_word (push_bit k ?t) = gf_x ^ k * eval_word ?t"
      by (rule eval_push_bit) (use that in \<open>auto simp: bit_simps dest!: bit_imp_le_length\<close>)
    then show ?thesis by (simp add: eval_drop_bit_half)
  qed
  from this [of 1] this [of 2] this [of 7]
  have "eval_word (reduce lo mid) = eval_word lo + gf_x ^ 64 * eval_word (ucast mid :: 64 word) + (1 + gf_x + gf_x ^ 2 + gf_x ^ 7) * ?h"
    by (simp add: reduce_def Let_def eval_word_xor eval_push_bit_half eval_drop_bit_half algebra_simps)
  also have "1 + gf_x + gf_x ^ 2 + gf_x ^ 7 = gf_x ^ 64 * gf_x ^ 64"
    using gf_x_128 by (simp add: power_add [symmetric] ac_simps)
  finally show ?thesis by (simp add: eval_halves_128 [of mid] algebra_simps)
qed

section \<open>Gf Feature\<close>

text \<open>
  \<open>CachedFeatureFlag\<close> of \<open>src/src/fields/field2_128/mod.rs\<close>: what the processor supports is asked once and kept in an
  atomic byte that all threads share. A call of \<open>get\<close> is a little program of atomic steps, a load, perhaps the
  call of the callback and a \<open>fetch_or\<close>; the threads' steps interleave in any order. The byte is never anything
  but zero or the answer, so every call returns what the callback says, and no call waits for another.
\<close>

unbundle bit_operations_syntax

definition mask_initialized :: "8 word" where
  "mask_initialized = 0b01"

definition mask_supported :: "8 word" where
  "mask_supported = 0b10"

text \<open>Where a call is: before the load; with the loaded byte; with the byte to be stored; about to return; returned.\<close>

datatype get_call = Call | Loaded "8 word" | Detected "8 word" | Finish "8 word" | Returned bool

record feature_flag =
  flag_state :: "8 word"
  flag_calls :: "nat \<Rightarrow> get_call"

definition flag_new :: feature_flag where
  "flag_new = \<lparr>flag_state = 0, flag_calls = \<lambda>_. Call\<rparr>"

text \<open>The byte that a call which found nothing stores.\<close>

definition detected :: "bool \<Rightarrow> 8 word \<Rightarrow> 8 word" where
  "detected result state =
     (let state = state OR mask_initialized in if result then state OR mask_supported else state)"

definition set_call :: "nat \<Rightarrow> get_call \<Rightarrow> feature_flag \<Rightarrow> feature_flag" where
  "set_call t c s = s\<lparr>flag_calls := (flag_calls s)(t := c)\<rparr>"

inductive get_step :: "bool \<Rightarrow> nat \<Rightarrow> feature_flag \<Rightarrow> feature_flag \<Rightarrow> bool" for callback :: bool where
  load: "flag_calls s t = Call \<Longrightarrow> get_step callback t s (set_call t (Loaded (flag_state s)) s)"
| detect: "flag_calls s t = Loaded v \<Longrightarrow> v AND mask_initialized = 0 \<Longrightarrow>
    get_step callback t s (set_call t (Detected (detected callback v)) s)"
| known: "flag_calls s t = Loaded v \<Longrightarrow> v AND mask_initialized \<noteq> 0 \<Longrightarrow> get_step callback t s (set_call t (Finish v) s)"
| fetch_or: "flag_calls s t = Detected v \<Longrightarrow>
    get_step callback t s (set_call t (Finish v) (s\<lparr>flag_state := flag_state s OR v\<rparr>))"
| return: "flag_calls s t = Finish v \<Longrightarrow> get_step callback t s (set_call t (Returned (v AND mask_supported \<noteq> 0)) s)"

inductive_cases get_stepE: "get_step callback t s s'"

inductive run :: "bool \<Rightarrow> nat list \<Rightarrow> feature_flag \<Rightarrow> feature_flag \<Rightarrow> bool" for callback :: bool where
  run_Nil: "run callback [] s s"
| run_Cons: "get_step callback t s s' \<Longrightarrow> run callback ts s' s'' \<Longrightarrow> run callback (t # ts) s s''"

inductive_cases run_NilE: "run callback [] s s'"
inductive_cases run_ConsE: "run callback (t # ts) s s''"

subsection \<open>The invariant\<close>

definition answer :: "bool \<Rightarrow> 8 word" where
  "answer callback = detected callback 0"

fun call_ok :: "bool \<Rightarrow> get_call \<Rightarrow> bool" where
  "call_ok callback Call \<longleftrightarrow> True"
| "call_ok callback (Loaded v) \<longleftrightarrow> v = 0 \<or> v = answer callback"
| "call_ok callback (Detected v) \<longleftrightarrow> v = answer callback"
| "call_ok callback (Finish v) \<longleftrightarrow> v = answer callback"
| "call_ok callback (Returned b) \<longleftrightarrow> b = callback"

definition flag_invariant :: "bool \<Rightarrow> feature_flag \<Rightarrow> bool" where
  "flag_invariant callback s \<longleftrightarrow> (flag_state s = 0 \<or> flag_state s = answer callback) \<and> (\<forall>t. call_ok callback (flag_calls s t))"

lemma answer_bits:
  "answer callback AND mask_initialized \<noteq> 0" "answer callback AND mask_supported \<noteq> 0 \<longleftrightarrow> callback"
  by (cases callback; simp add: answer_def detected_def mask_initialized_def mask_supported_def)+

lemma flag_invariant_new: "flag_invariant callback flag_new"
  by (simp add: flag_invariant_def flag_new_def)

lemma flag_invariant_step: "get_step callback t s s' \<Longrightarrow> flag_invariant callback s \<Longrightarrow> flag_invariant callback s'"
proof (induction rule: get_step.induct)
  case (detect s t v)
  then have "call_ok callback (Loaded v)" by (metis flag_invariant_def)
  then have "v = 0" using detect(2) answer_bits(1) by auto
  then show ?case using detect by (simp add: flag_invariant_def set_call_def answer_def)
next
  case (known s t v)
  then have "call_ok callback (Loaded v)" by (metis flag_invariant_def)
  then have "v = answer callback" using known(2) by auto
  then show ?case using known by (simp add: flag_invariant_def set_call_def)
next
  case (fetch_or s t v)
  then have "call_ok callback (Detected v)" by (metis flag_invariant_def)
  then show ?case using fetch_or by (auto simp: flag_invariant_def set_call_def)
next
  case (return s t v)
  then have "call_ok callback (Finish v)" by (metis flag_invariant_def)
  then show ?case using return by (auto simp: flag_invariant_def set_call_def answer_bits)
qed (auto simp: flag_invariant_def set_call_def)

lemma flag_invariant_run: "run callback ts s s' \<Longrightarrow> flag_invariant callback s \<Longrightarrow> flag_invariant callback s'"
  by (induction rule: run.induct) (auto intro: flag_invariant_step)

subsection \<open>Progress\<close>

text \<open>The steps a call has left; a call takes them whatever the others do.\<close>

fun steps_left :: "get_call \<Rightarrow> nat" where
  "steps_left Call = 4"
| "steps_left (Loaded v) = 3"
| "steps_left (Detected v) = 2"
| "steps_left (Finish v) = 1"
| "steps_left (Returned b) = 0"

lemma step_own: "get_step callback t s s' \<Longrightarrow> steps_left (flag_calls s' t) < steps_left (flag_calls s t)"
  by (erule get_step.cases) (simp_all add: set_call_def)

lemma step_other: "get_step callback t s s' \<Longrightarrow> u \<noteq> t \<Longrightarrow> flag_calls s' u = flag_calls s u"
  by (erule get_step.cases) (simp_all add: set_call_def)

lemma step_exists:
  assumes "\<forall>b. flag_calls s t \<noteq> Returned b"
  shows "\<exists>s'. get_step callback t s s'"
proof (cases "flag_calls s t")
  case (Loaded v)
  then show ?thesis by (cases "v AND mask_initialized = 0") (blast intro: get_step.intros)+
qed (use assms in \<open>blast intro: get_step.intros\<close>)+

lemma run_steps_left:
  "run callback ts s s' \<Longrightarrow> steps_left (flag_calls s' t) + count_list ts t \<le> steps_left (flag_calls s t)"
proof (induction rule: run.induct)
  case (run_Cons u s s' ts s'')
  then show ?case using step_own [OF run_Cons.hyps(1)] step_other [OF run_Cons.hyps(1), of t] by (cases "u = t") auto
qed simp

end
