(* ===== verification/Gf_Clmul.thy ===== *)
theory Gf_Clmul
  imports Gf_Backends Sparse
begin

text \<open>
  The backends of \<open>src/src/fields/field2_128\<close> compute the product of the ring. The masked integer products of
  \<open>clmul32\<close> are base 16 numerals whose digits count the pairs of bits that meet at a position; no digit
  exceeds 8, so nothing is carried into the next one and the lowest bit of each digit is a parity.
\<close>

subsection \<open>Numerals without carries\<close>

lemma digit_parity:
  assumes "\<And>m. c m < (16 :: nat)"
  shows "bit (\<Sum>m < n. c m * 16 ^ m) (4 * k) \<longleftrightarrow> k < n \<and> odd (c k)"
  using assms
proof (induction n arbitrary: c k)
  case (Suc n)
  let ?S = "\<Sum>m < n. c (Suc m) * 16 ^ m"
  have s: "(\<Sum>m < Suc n. c m * 16 ^ m) = c 0 + 16 * ?S"
    unfolding sum.lessThan_Suc_shift by (simp add: sum_distrib_left algebra_simps)
  show ?case
  proof (cases k)
    case 0
    then show ?thesis by (simp add: s bit_iff_odd del: sum.lessThan_Suc)
  next
    case (Suc j)
    have "(c 0 + 16 * ?S) div 16 = ?S" using Suc.prems [of 0] by simp
    then have "(c 0 + 16 * ?S) div 2 ^ (4 * k) = ?S div 2 ^ (4 * j)"
      by (simp add: Suc power_add div_mult2_eq)
    then show ?thesis using Suc.IH [of "\<lambda>m. c (Suc m)" j] Suc.prems Suc by (simp add: s bit_iff_odd del: sum.lessThan_Suc)
  qed
qed simp

lemma cauchy_digits:
  fixes a b :: "nat \<Rightarrow> nat"
  assumes "\<And>i. n \<le> i \<Longrightarrow> a i = 0" "\<And>i. n \<le> i \<Longrightarrow> b i = 0"
  shows "(\<Sum>i < n. a i * x ^ i) * (\<Sum>j < n. b j * x ^ j) = (\<Sum>m < 2 * n. (\<Sum>i \<le> m. a i * b (m - i)) * x ^ m)"
proof -
  have "(\<Sum>i < n. a i * x ^ i) * (\<Sum>j < n. b j * x ^ j) = (\<Sum>i < n. \<Sum>j < n. a i * b j * x ^ (i + j))"
    unfolding sum_product by (intro sum.cong) (auto simp: power_add)
  also have "\<dots> = (\<Sum>(i, j) \<in> {..<n} \<times> {..<n}. a i * b j * x ^ (i + j))"
    by (rule sum.cartesian_product)
  also have "\<dots> = (\<Sum>(i, j) \<in> {(i, j). i + j < 2 * n}. a i * b j * x ^ (i + j))"
  proof (rule sum.mono_neutral_left)
    have "{(i, j). i + j < 2 * n} \<subseteq> {..<2 * n} \<times> {..<2 * n}" by auto
    then show "finite {(i, j). i + j < 2 * n}" by (rule finite_subset) simp
    have "a i = 0 \<or> b j = 0" if "\<not> (i < n \<and> j < n)" for i j using assms that by (meson not_less)
    then show "\<forall>ij \<in> {(i, j). i + j < 2 * n} - {..<n} \<times> {..<n}. (case ij of (i, j) \<Rightarrow> a i * b j * x ^ (i + j)) = 0"
      by (metis (no_types, lifting) DiffD2 SigmaI case_prodE lessThan_iff mult_eq_0_iff mem_Collect_eq old.prod.case surj_pair)
  qed auto
  also have "\<dots> = (\<Sum>m < 2 * n. \<Sum>i \<le> m. a i * b (m - i) * x ^ (i + (m - i)))"
    by (rule sum.triangle_reindex)
  also have "\<dots> = (\<Sum>m < 2 * n. (\<Sum>i \<le> m. a i * b (m - i)) * x ^ m)"
    unfolding sum_distrib_right by (intro sum.cong) simp_all
  finally show ?thesis .
qed

subsection \<open>One masked product\<close>

definition slice_digits :: "32 word \<Rightarrow> nat \<Rightarrow> nat" where
  "slice_digits x r = (\<Sum>i < 8. of_bool (bit x (4 * i + r)) * 16 ^ i)"

definition slice_mask :: "nat \<Rightarrow> 64 word \<Rightarrow> bool" where
  "slice_mask r m \<longleftrightarrow> (\<forall>n \<in> set [0..<64]. bit m n \<longleftrightarrow> n mod 4 = r)"

lemma slice_masks:
  "slice_mask 0 0x1111111111111111" "slice_mask 1 0x2222222222222222"
  "slice_mask 2 0x4444444444444444" "slice_mask 3 0x8888888888888888"
  by code_simp+

lemma unat_bits: "unat (w :: 32 word) = (\<Sum>n < 32. of_bool (bit w n) * 2 ^ n)"
proof -
  have "unat w = take_bit 32 (unat w)" using unsigned_less [of w, where ?'a = nat] by (simp add: take_bit_nat_def)
  also have "\<dots> = horner_sum of_bool 2 (map (bit (unat w)) [0..<32])"
    by (simp only: horner_sum_bit_eq_take_bit)
  also have "\<dots> = (\<Sum>n < 32. of_bool (bit w n) * 2 ^ n)"
    unfolding horner_sum_eq_sum by (intro sum.cong) (simp_all add: bit_simps atLeast0LessThan)
  finally show ?thesis .
qed

lemma sum_blocks: "(\<Sum>n < k * 4. f n) = (\<Sum>i < (k :: nat). \<Sum>s < 4. f (i * 4 + s))" for f :: "nat \<Rightarrow> nat"
proof -
  have "sum f {i * 4..<i * 4 + 4} = (\<Sum>s < 4. f (i * 4 + s))" for i
    unfolding sum.atLeastLessThan_shift_0 [of f "i * 4"] by (simp add: atLeast0LessThan comp_def)
  then show ?thesis by (simp flip: sum.nat_group)
qed

lemma unat_slice:
  assumes "slice_mask r m" "r < 4"
  shows "unat (ucast (x AND ucast m) :: 64 word) = 2 ^ r * slice_digits x r" "2 ^ r * slice_digits x r < 2 ^ 32"
proof -
  let ?w = "x AND ucast m :: 32 word"
  have w: "bit ?w n \<longleftrightarrow> n mod 4 = r \<and> bit x n" for n
    using assms(1) bit_imp_le_length [of x n] by (auto simp: bit_simps slice_mask_def)
  have "unat ?w = (\<Sum>n < 8 * 4. of_bool (n mod 4 = r \<and> bit x n) * 2 ^ n)" by (simp add: unat_bits w del: sum_of_bool_mult_eq)
  also have "\<dots> = (\<Sum>i < 8. \<Sum>s < 4. of_bool ((i * 4 + s) mod 4 = r \<and> bit x (i * 4 + s)) * 2 ^ (i * 4 + s))"
    by (rule sum_blocks)
  also have "\<dots> = (\<Sum>i < 8. 2 ^ r * (of_bool (bit x (4 * i + r)) * 16 ^ i))"
  proof (intro sum.cong refl)
    fix i
    have "(\<Sum>s < 4. of_bool ((i * 4 + s) mod 4 = r \<and> bit x (i * 4 + s)) * 2 ^ (i * 4 + s)) =
        (\<Sum>s < 4. if s = r then of_bool (bit x (i * 4 + s)) * 2 ^ (i * 4 + s) else (0 :: nat))"
      by (intro sum.cong) auto
    also have "\<dots> = of_bool (bit x (i * 4 + r)) * 2 ^ (i * 4 + r)" using assms(2) by simp
    also have "\<dots> = 2 ^ r * (of_bool (bit x (4 * i + r)) * 16 ^ i)"
      using power_mult [of "2 :: nat" 4 i] by (simp add: power_add mult.commute)
    finally show "(\<Sum>s < 4. of_bool ((i * 4 + s) mod 4 = r \<and> bit x (i * 4 + s)) * 2 ^ (i * 4 + s)) =
        2 ^ r * (of_bool (bit x (4 * i + r)) * 16 ^ i :: nat)" .
  qed
  finally have "unat ?w = 2 ^ r * slice_digits x r" by (simp only: slice_digits_def sum_distrib_left)
  moreover have "unat ?w < 2 ^ 32" using unsigned_less [of ?w] by simp
  ultimately show "2 ^ r * slice_digits x r < 2 ^ 32" "unat (ucast ?w :: 64 word) = 2 ^ r * slice_digits x r"
    by (simp_all add: unsigned_ucast_eq take_bit_nat_def)
qed

lemma slice_product:
  fixes X Y :: "64 word"
  assumes X: "unat X = 2 ^ r * slice_digits x r" "unat X < 2 ^ 32" and Y: "unat Y = 2 ^ s * slice_digits y s" "unat Y < 2 ^ 32"
    and rs: "r < 4" "s < 4" "k mod 4 = (r + s) mod 4"
  shows "bit (X * Y) k \<longleftrightarrow> odd (\<Sum>n \<le> k. of_bool (n mod 4 = r) * (of_bool (bit x n) * of_bool (bit y (k - n))) :: nat)"
proof -
  define a where "a i = (of_bool (bit x (4 * i + r)) :: nat)" for i
  define b where "b i = (of_bool (bit y (4 * i + s)) :: nat)" for i
  define c where "c m = (\<Sum>i \<le> m. a i * b (m - i))" for m
  let ?S = "\<Sum>m < 16. c m * 16 ^ m"
  have a0: "a i = 0" if "8 \<le> i" for i using bit_imp_le_length [of x "4 * i + r"] that by (auto simp: a_def)
  have b0: "b i = 0" if "8 \<le> i" for i using bit_imp_le_length [of y "4 * i + s"] that by (auto simp: b_def)
  have c16: "c m < 16" for m
  proof -
    have "c m \<le> (\<Sum>i \<le> m. of_bool (i < 8))"
      unfolding c_def using a0 by (intro sum_mono) (auto simp: a_def b_def not_less)
    also have "\<dots> = (\<Sum>i \<in> {..m} \<inter> {..<8}. 1)"
      by (simp add: of_bool_def sum.If_cases lessThan_def)
    also have "\<dots> \<le> card {..<8 :: nat}" unfolding card_eq_sum [symmetric] by (rule card_mono) auto
    finally show ?thesis by simp
  qed
  have "unat X * unat Y < 2 ^ 32 * 2 ^ 32" using X(2) Y(2) by (intro mult_strict_mono) simp_all
  then have "unat (X * Y) = unat X * unat Y" by (simp add: unat_word_ariths)
  also have "\<dots> = 2 ^ (r + s) * ?S"
    using cauchy_digits [OF a0 b0, where x = 16]
    by (simp add: X(1) Y(1) slice_digits_def a_def b_def c_def power_add ac_simps)
  finally have XY: "unat (X * Y) = push_bit (r + s) ?S" by (simp only: push_bit_eq_mult mult.commute)
  have "bit (X * Y) k \<longleftrightarrow> bit (unat (X * Y)) k" using bit_imp_le_length [of "X * Y" k] by (auto simp: bit_simps)
  then have "bit (X * Y) k \<longleftrightarrow> bit (push_bit (r + s) ?S) k" by (simp only: XY)
  then have eq: "bit (X * Y) k \<longleftrightarrow> r + s \<le> k \<and> bit ?S (k - (r + s))" by (simp add: bit_push_bit_iff_nat)
  let ?g = "\<lambda>n. of_bool (n mod 4 = r) * (of_bool (bit x n) * of_bool (bit y (k - n))) :: nat"
  show ?thesis
  proof (cases "r + s \<le> k")
    case True
    have "4 dvd k - (r + s)" using mod_eq_dvd_iff_nat [OF True, of 4] rs(3) by simp
    then obtain m where "k - (r + s) = 4 * m" by (rule dvdE)
    then have m: "k = r + s + 4 * m" using True by simp
    have "c m = 0" if "16 \<le> m"
      unfolding c_def
    proof (intro sum.neutral ballI)
      fix i assume "i \<in> {..m}"
      then have "8 \<le> i \<or> 8 \<le> m - i" using that by auto
      then show "a i * b (m - i) = 0" using a0 b0 by auto
    qed
    then have "bit ?S (4 * m) \<longleftrightarrow> odd (c m)" unfolding digit_parity [OF c16] by (metis even_zero not_less)
    moreover have "(\<Sum>n \<le> k. ?g n) = c m"
    proof -
      have "(\<Sum>n \<le> k. ?g n) = (\<Sum>n \<in> (\<lambda>i. 4 * i + r) ` {..m}. ?g n)"
      proof (rule sum.mono_neutral_right)
        show "\<forall>n \<in> {..k} - (\<lambda>i. 4 * i + r) ` {..m}. ?g n = 0"
        proof
          fix n assume n: "n \<in> {..k} - (\<lambda>i. 4 * i + r) ` {..m}"
          have "n mod 4 \<noteq> r"
          proof
            assume "n mod 4 = r"
            then have "n = 4 * (n div 4) + r" by presburger
            moreover have "n div 4 \<le> m" using n m rs(2) \<open>n = 4 * (n div 4) + r\<close> by auto
            ultimately show False using n by blast
          qed
          then show "?g n = 0" by simp
        qed
      qed (use m in auto)
      also have "\<dots> = (\<Sum>i \<le> m. ?g (4 * i + r))" by (subst sum.reindex) (auto simp: inj_on_def)
      also have "\<dots> = c m" unfolding c_def
      proof (intro sum.cong refl)
        fix i assume "i \<in> {..m}"
        then have "k - (4 * i + r) = 4 * (m - i) + s" using m by auto
        then show "?g (4 * i + r) = a i * b (m - i)" using rs(1) by (simp add: a_def b_def)
      qed
      finally show ?thesis .
    qed
    ultimately show ?thesis using eq m by simp
  next
    case False
    have "4 dvd (r + s) - k" using False mod_eq_dvd_iff_nat [of k "r + s" 4] rs(3) by simp
    then have "4 \<le> r + s - k" by (rule dvd_imp_le) (use False in simp)
    then have "k < r" using rs(2) by linarith
    then have "?g n = 0" if "n \<le> k" for n using that rs(1) by simp
    then have "(\<Sum>n \<le> k. ?g n) = 0" by (intro sum.neutral) simp
    then show ?thesis using eq False by simp
  qed
qed


subsection \<open>Carryless products of 32 and 64 bits\<close>

lemma parity_four: "a + b + c + d = (e :: nat) \<Longrightarrow> odd e \<longleftrightarrow> (odd a \<noteq> (odd b \<noteq> (odd c \<noteq> odd d)))"
  by auto

lemma bit_clmul32:
  assumes "k < 64"
  shows "bit (clmul32 x y) k \<longleftrightarrow> odd (\<Sum>n \<le> k. of_bool (bit x n) * of_bool (bit y (k - n)) :: nat)"
proof -
  define m :: "nat \<Rightarrow> 64 word" where
    "m r = [0x1111111111111111, 0x2222222222222222, 0x4444444444444444, 0x8888888888888888] ! r" for r
  define X where "X r = (ucast (x AND ucast (m r)) :: 64 word)" for r
  define Y where "Y r = (ucast (y AND ucast (m r)) :: 64 word)" for r
  let ?g = "\<lambda>n. of_bool (bit x n) * of_bool (bit y (k - n)) :: nat"
  let ?S = "\<lambda>r. \<Sum>n \<le> k. of_bool (n mod 4 = r) * ?g n"
  have m: "slice_mask r (m r)" if "r < 4" for r
    using slice_masks that by (auto simp: m_def less_Suc_eq numeral_eq_Suc)
  have P: "bit (X r * Y s) k \<longleftrightarrow> odd (?S r)" if "r < 4" "s < 4" "k mod 4 = (r + s) mod 4" for r s
    unfolding X_def Y_def using unat_slice [OF m that(1)] unat_slice [OF m that(2)] that by (intro slice_product) simp_all
  have "?S 0 + ?S 1 + ?S 2 + ?S 3 = (\<Sum>n \<le> k. ?g n)"
    unfolding sum.distrib [symmetric]
  proof (intro sum.cong refl)
    fix n :: nat
    have "n mod 4 = 0 \<or> n mod 4 = 1 \<or> n mod 4 = 2 \<or> n mod 4 = 3" by linarith
    then have "of_bool (n mod 4 = 0) + of_bool (n mod 4 = 1) + of_bool (n mod 4 = 2) + of_bool (n mod 4 = 3) = (1 :: nat)"
      by (elim disjE) simp_all
    then show "of_bool (n mod 4 = 0) * ?g n + of_bool (n mod 4 = 1) * ?g n + of_bool (n mod 4 = 2) * ?g n +
        of_bool (n mod 4 = 3) * ?g n = ?g n" by (simp only: distrib_right [symmetric] mult_1)
  qed
  then have sum: "odd (\<Sum>n \<le> k. ?g n) \<longleftrightarrow> (odd (?S 0) \<noteq> (odd (?S 1) \<noteq> (odd (?S 2) \<noteq> odd (?S 3))))"
    by (rule parity_four)
  have mask: "bit (m r) k \<longleftrightarrow> k mod 4 = r" if "r < 4" for r
    using m [OF that] assms by (simp add: slice_mask_def)
  have c: "clmul32 x y =
      ((X 0 * Y 0 XOR X 1 * Y 3 XOR X 2 * Y 2 XOR X 3 * Y 1) AND m 0) OR
      ((X 0 * Y 1 XOR X 1 * Y 0 XOR X 2 * Y 3 XOR X 3 * Y 2) AND m 1) OR
      ((X 0 * Y 2 XOR X 1 * Y 1 XOR X 2 * Y 0 XOR X 3 * Y 3) AND m 2) OR
      ((X 0 * Y 3 XOR X 1 * Y 2 XOR X 2 * Y 1 XOR X 3 * Y 0) AND m 3)"
    by (simp add: clmul32_def Let_def X_def Y_def m_def)
  let ?D = "\<lambda>r s. bit (X r * Y s) k"
  have bits: "bit (clmul32 x y) k \<longleftrightarrow>
      (?D 0 0 \<noteq> (?D 1 3 \<noteq> (?D 2 2 \<noteq> ?D 3 1))) \<and> k mod 4 = 0 \<or> (?D 0 1 \<noteq> (?D 1 0 \<noteq> (?D 2 3 \<noteq> ?D 3 2))) \<and> k mod 4 = 1 \<or>
      (?D 0 2 \<noteq> (?D 1 1 \<noteq> (?D 2 0 \<noteq> ?D 3 3))) \<and> k mod 4 = 2 \<or> (?D 0 3 \<noteq> (?D 1 2 \<noteq> (?D 2 1 \<noteq> ?D 3 0))) \<and> k mod 4 = 3"
  proof -
    have "bit (m 0) k \<longleftrightarrow> k mod 4 = 0" "bit (m 1) k \<longleftrightarrow> k mod 4 = 1" "bit (m 2) k \<longleftrightarrow> k mod 4 = 2"
      "bit (m 3) k \<longleftrightarrow> k mod 4 = 3" by (rule mask, simp)+
    then show ?thesis unfolding c bit_or_iff bit_and_iff bit_xor_iff by (simp only: disj_assoc)
  qed
  have "k mod 4 = 0 \<or> k mod 4 = 1 \<or> k mod 4 = 2 \<or> k mod 4 = 3" by linarith
  then show ?thesis
  proof (elim disjE)
    assume k: "k mod 4 = 0"
    with P [of 0 0] P [of 1 3] P [of 2 2] P [of 3 1] show ?thesis unfolding bits sum by simp
  next
    assume k: "k mod 4 = 1"
    with P [of 0 1] P [of 1 0] P [of 2 3] P [of 3 2] show ?thesis unfolding bits sum by simp
  next
    assume k: "k mod 4 = 2"
    with P [of 0 2] P [of 1 1] P [of 2 0] P [of 3 3] show ?thesis unfolding bits sum by simp
  next
    assume k: "k mod 4 = 3"
    with P [of 0 3] P [of 1 2] P [of 2 1] P [of 3 0] show ?thesis unfolding bits sum by simp
  qed
qed

lemma eval_clmul32: "eval_word (clmul32 x y) = eval_word x * eval_word y"
proof -
  have "i < 32 \<and> bit w i \<longleftrightarrow> bit w i" for w :: "32 word" and i using bit_imp_le_length [of w i] by auto
  then have "eval_word x * eval_word y =
      poly_at (\<lambda>k. odd (\<Sum>i \<le> k. of_bool (bit x i) * of_bool (bit y (k - i)) :: nat)) 64"
    using poly_at_product [of "bit x" 32 "bit y"] by (simp add: eval_word_def)
  also have "\<dots> = poly_at (bit (clmul32 x y)) 64" by (rule poly_at_cong) (simp add: bit_clmul32)
  finally show ?thesis by (simp add: eval_word_def)
qed

text \<open>Karatsuba's identity, in characteristic two.\<close>

lemma karatsuba:
  fixes a b c d z :: gf128
  shows "a * c + z * ((a + b) * (c + d) + a * c + b * d) + z * (z * (b * d)) = (a + z * b) * (c + z * d)"
proof -
  have "(a + b) * (c + d) + a * c + b * d = (a + b) * (c + d) - a * c - b * d" by (simp only: gf_minus)
  also have "\<dots> = a * d + b * c" by (simp add: algebra_simps)
  finally show ?thesis by (simp add: algebra_simps)
qed

lemma eval_clmul64: "eval_word (clmul64 x y) = eval_word x * eval_word y"
proof -
  define xl xh yl yh where x: "xl = (ucast x :: 32 word)" "xh = (ucast (drop_bit 32 x) :: 32 word)"
    and y: "yl = (ucast y :: 32 word)" "yh = (ucast (drop_bit 32 y) :: 32 word)"
  define r1 r4 t where r: "r1 = clmul32 xl yl" "r4 = clmul32 xh yh" and t: "t = clmul32 (xl XOR xh) (yl XOR yh) XOR r1 XOR r4"
  have "eval_word (clmul64 x y) = eval_word (r1 XOR push_bit 32 t) + gf_x ^ 64 * eval_word (drop_bit 32 t XOR r4)"
    by (simp add: clmul64_def Let_def eval_join x y r t)
  also have "\<dots> = eval_word r1 + gf_x ^ 32 * eval_word t + gf_x ^ 32 * (gf_x ^ 32 * eval_word r4)"
    by (simp add: eval_word_xor eval_push_bit_half eval_drop_bit_half eval_halves_64 [of t] algebra_simps flip: power_add)
  also have "\<dots> = (eval_word xl + gf_x ^ 32 * eval_word xh) * (eval_word yl + gf_x ^ 32 * eval_word yh)"
    unfolding t r eval_word_xor eval_clmul32 using karatsuba [of "eval_word xl" "eval_word yl" "gf_x ^ 32" "eval_word xh" "eval_word yh"]
    by (simp add: add.assoc)
  also have "\<dots> = eval_word x * eval_word y" by (simp add: x y eval_halves_64 [of x] eval_halves_64 [of y])
  finally show ?thesis .
qed

subsection \<open>The backends\<close>

lemma eval_bit_slicing_multiply: "eval_word (bit_slicing_multiply x y) = eval_word x * eval_word y"
proof -
  define xl xh yl yh where x: "xl = (ucast x :: 64 word)" "xh = (ucast (drop_bit 64 x) :: 64 word)"
    and y: "yl = (ucast y :: 64 word)" "yh = (ucast (drop_bit 64 y) :: 64 word)"
  have "eval_word (bit_slicing_multiply x y) = eval_word xl * eval_word yl + gf_x ^ 64 *
      ((eval_word xl + eval_word xh) * (eval_word yl + eval_word yh) + eval_word xl * eval_word yl + eval_word xh * eval_word yh) +
      gf_x ^ 64 * (gf_x ^ 64 * (eval_word xh * eval_word yh))"
    by (simp add: bit_slicing_multiply_def Let_def eval_reduce eval_word_xor eval_clmul64 x y distrib_left add.assoc)
  also have "\<dots> = (eval_word xl + gf_x ^ 64 * eval_word xh) * (eval_word yl + gf_x ^ 64 * eval_word yh)"
    by (rule karatsuba)
  finally show ?thesis by (simp add: x y eval_halves_128 [of x] eval_halves_128 [of y])
qed

lemma poly_at_square: "poly_at f n * poly_at f n = poly_at (\<lambda>k. even k \<and> f (k div 2)) (2 * n)"
proof (induction n)
  case (Suc n)
  have "poly_at f (Suc n) = poly_at f n + (if f n then gf_x ^ n else 0)" by (simp add: poly_at_def)
  then have "poly_at f (Suc n) * poly_at f (Suc n) = poly_at f n * poly_at f n + (if f n then gf_x ^ (2 * n) else 0)"
    using gf_power2_add [of "poly_at f n" "if f n then gf_x ^ n else 0"]
    by (auto simp: power2_eq_square power_add mult_2)
  with Suc show ?case by (simp add: poly_at_def)
qed (simp add: poly_at_def)

lemma square_u64_widening_spread: "square_u64_widening x = spread_bits x"
  by (simp only: square_u64_widening_def spread_bits_def spread_step_def Let_def)

lemma eval_square_u64_widening: "eval_word (square_u64_widening x) = eval_word x * eval_word x"
proof -
  have "bit (spread_bits x) = (\<lambda>k. even k \<and> bit x (k div 2))" by (simp add: fun_eq_iff bit_spread_bits)
  then show ?thesis using poly_at_square [of "bit x" 64] by (simp add: square_u64_widening_spread eval_word_def)
qed

lemma square_halves: "(a + z * b) * (a + z * b) = a * a + z * (z * (b * b))" for a b z :: gf128
  using gf_power2_add [of a "z * b"] by (simp add: power2_eq_square ac_simps)

lemma eval_bit_slicing_square: "eval_word (bit_slicing_square x) = eval_word x * eval_word x"
  unfolding eval_halves_128 [of x] square_halves
  by (simp add: bit_slicing_square_def Let_def eval_reduce eval_square_u64_widening)

lemma carryless_fold:
  "n \<le> 64 \<Longrightarrow> eval_word (fold (\<lambda>i r. if bit y i then r XOR push_bit i (ucast x) else r) [0..<n] (0 :: 128 word)) =
    eval_word (x :: 64 word) * poly_at (bit (y :: 64 word)) n"
proof (induction n)
  case (Suc n)
  have "eval_word (push_bit n (ucast x) :: 128 word) = gf_x ^ n * eval_word (ucast x :: 128 word)"
    by (rule eval_push_bit) (use Suc.prems in \<open>auto simp: bit_simps dest!: bit_imp_le_length\<close>)
  also have "eval_word (ucast x :: 128 word) = eval_word x"
    using eval_join [of x 0] by simp
  finally show ?case using Suc by (simp add: eval_word_xor poly_at_def algebra_simps)
qed (simp add: poly_at_def)

lemma eval_carryless: "eval_word (carryless x y) = eval_word x * eval_word y"
  using carryless_fold [of 64 y x] by (simp add: carryless_def eval_word_def)

lemma pack_u128_id [simp]: "pack_u128 v = v"
  by (rule bit_word_eqI) (auto simp: pack_u128_def set_epi64x_def bit_simps)

lemma unpack_u128_id [simp]: "unpack_u128 arch v = v"
proof -
  have "unpack_u128_x86_64 v = v"
    by (rule bit_word_eqI) (auto simp: unpack_u128_x86_64_def Let_def bit_simps)
  moreover have "unpack_u128_x86 v = v"
  proof (rule bit_word_eqI)
    fix i assume i: "i < LENGTH(128)"
    have "i < 32 \<or> 32 \<le> i \<and> i < 64 \<or> 64 \<le> i \<and> i < 96 \<or> 96 \<le> i" by linarith
    then show "bit (unpack_u128_x86 v) i = bit v i" using i
      by (elim disjE) (auto simp: unpack_u128_x86_def Let_def bit_simps)
  qed
  ultimately show ?thesis by (simp add: unpack_u128_def)
qed

lemma eval_small_modulus: "eval_word (0x87 :: 64 word) = gf_x ^ 64 * gf_x ^ 64"
proof -
  have "eval_word (0x87 :: 64 word) = Gf 0x87" using eval_join [of "0x87 :: 64 word" 0] by (simp add: eval_word_Gf)
  also have "\<dots> = gf_x ^ 128" by (rule gf_x_128_value [symmetric])
  finally show ?thesis by (simp flip: power_add)
qed

lemma reduce_by_product:
  "eval_word (lo XOR push_bit 64 mid XOR carryless (ucast (drop_bit 64 mid)) 0x87) = eval_word lo + gf_x ^ 64 * eval_word (mid :: 128 word)"
  by (simp add: eval_word_xor eval_carryless eval_small_modulus eval_push_bit_half eval_halves_128 [of mid] algebra_simps)

lemma eval_x86_reduce: "eval_word (x86_reduce lo mid) = eval_word lo + gf_x ^ 64 * eval_word mid"
  using reduce_by_product [of lo mid] by (simp add: x86_reduce_def Let_def clmulepi64_def xor.assoc)

lemma eval_aarch64_reduce: "eval_word (aarch64_reduce lo mid) = eval_word lo + gf_x ^ 64 * eval_word mid"
  using reduce_by_product [of lo mid] by (simp add: aarch64_reduce_def Let_def xor.assoc)

lemma schoolbook: "a * c + z * ((b * c + a * d) + z * (b * d)) = (a + z * b) * (c + z * d)" for a b c d z :: gf128
  by (simp add: algebra_simps)

lemma eval_x86_multiply: "eval_word (x86_multiply arch x y) = eval_word x * eval_word y"
  unfolding eval_halves_128 [of x] eval_halves_128 [of y] schoolbook [symmetric]
  by (simp add: x86_multiply_def Let_def eval_x86_reduce eval_word_xor clmulepi64_def eval_carryless)

lemma eval_aarch64_multiply: "eval_word (aarch64_multiply x y) = eval_word x * eval_word y"
  unfolding eval_halves_128 [of x] eval_halves_128 [of y] schoolbook [symmetric]
  by (simp add: aarch64_multiply_def Let_def eval_aarch64_reduce eval_word_xor eval_carryless)

lemma eval_x86_square: "eval_word (x86_square arch x) = eval_word x * eval_word x"
  unfolding eval_halves_128 [of x] square_halves
  by (simp add: x86_square_def Let_def eval_x86_reduce clmulepi64_def eval_carryless)

lemma eval_aarch64_square: "eval_word (aarch64_square x) = eval_word x * eval_word x"
  unfolding eval_halves_128 [of x] square_halves
  by (simp add: aarch64_square_def Let_def eval_aarch64_reduce eval_carryless)

lemma galois_multiply_times: "Gf (galois_multiply arch features (as_u128 a) (as_u128 b)) = a * b"
  by (simp add: galois_multiply_def eval_word_Gf eval_bit_slicing_multiply eval_x86_multiply eval_aarch64_multiply eval_word_u128)

lemma galois_square_times: "Gf (galois_square arch features (as_u128 a)) = a * a"
  by (simp add: galois_square_def eval_word_Gf eval_bit_slicing_square eval_x86_square eval_aarch64_square eval_word_u128)

end
