(* ===== verification/P256_Scalar_Prime.thy ===== *)
theory P256_Scalar_Prime
  imports Pocklington
begin

text \<open>
  The primality of the order of the group of P-256, the modulus of its scalar field.
\<close>

definition p256_scalar_times :: "int \<Rightarrow> int" where
  "p256_scalar_times q = q * 2 ^ 256 - q * 2 ^ 224 + q * 2 ^ 192 - q * 2 ^ 128 + q * 251094175845612772866266697226726352209"

lemma p256_scalar_times_dvd: "115792089210356248762697446949407573529996955224135760342422259061068512044369 dvd p256_scalar_times q"
  by (rule dvdI [of _ _ q]) (simp add: p256_scalar_times_def)

lemma p256_scalar_3_prime: "is_prime 3"
proof (rule is_prime_by_trial)
  show "trial 3 3
    [] = 3"
    by simp
qed simp_all
lemma p256_scalar_37_prime: "is_prime 37"
proof (rule is_prime_by_trial)
  show "trial 37 3
    [(12, 1), (7, 2)] = 7"
    by simp
qed simp_all

definition p256_scalar_9547_order_37_powers :: "int list" where
  "p256_scalar_9547_order_37_powers =
    [3057]"

lemma p256_scalar_9547_order_37_table: "power_table 9547 3057 p256_scalar_9547_order_37_powers"
  unfolding p256_scalar_9547_order_37_powers_def
proof (rule power_tableI)
  show "9547 dvd (3057 :: int) ^ 2 - 8283"
    by (rule dvd_by_quotient [of _ 978]) (simp only: power2_eq_square arith_simps)
  show "successively (\<lambda>w v. 9547 dvd w * 8283 - v) [3057]" by simp
qed

definition p256_scalar_9547_order_37_steps_0 :: "(int list \<times> nat \<times> int) list" where
  "p256_scalar_9547_order_37_steps_0 =
    [([978, 7186, 1173], 0, 1209),
     ([5166, 778], 0, 2870)]"

lemma p256_scalar_9547_order_37_chain_0: "power_chain (\<lambda>q :: int. q * 9547) p256_scalar_9547_order_37_powers p256_scalar_9547_order_37_steps_0 3057 = 1"
  unfolding p256_scalar_9547_order_37_steps_0_def p256_scalar_9547_order_37_powers_def by (simp only: power_chain_simps)

lemma p256_scalar_9547_order_37_indices: "list_all (\<lambda>(qs, t, q). t < length p256_scalar_9547_order_37_powers) (p256_scalar_9547_order_37_steps_0)"
  unfolding p256_scalar_9547_order_37_powers_def p256_scalar_9547_order_37_steps_0_def by simp

lemma p256_scalar_9547_order_37_exponent_0: "power_chain_exponent p256_scalar_9547_order_37_steps_0 1 = 37"
  by (simp add: power_chain_exponent_def p256_scalar_9547_order_37_steps_0_def)

lemma p256_scalar_9547_order_37_power: "9547 dvd (3057 :: int) ^ 37 - 1"
proof -
  have "9547 dvd (\<lambda>q :: int. q * 9547) q" for q by simp
  note step = power_chain_sound [of _ "(\<lambda>q :: int. q * 9547)", OF this p256_scalar_9547_order_37_table]
  have "9547 dvd (3057 :: int) ^ 1 - 3057"
    by (rule power_table_entry [where i = 0, OF p256_scalar_9547_order_37_table]) (simp_all add: p256_scalar_9547_order_37_powers_def)
  from step [OF _ this, of p256_scalar_9547_order_37_steps_0] p256_scalar_9547_order_37_indices
  have "9547 dvd (3057 :: int) ^ 37 - 1"
    by (simp only: p256_scalar_9547_order_37_chain_0 p256_scalar_9547_order_37_exponent_0 list_all_append simp_thms)
  then show ?thesis .
qed

lemma p256_scalar_9547_order_37_coprime: "coprime (3057 - 1) (9547 :: int)"
  by (rule coprime_by_inverse [of 1990 _ 637]) (simp only: arith_simps arith_special diff_numeral_special)

lemma p256_scalar_9547_order_37: "of_order 9547 3057 37"
  by (rule of_orderI [OF p256_scalar_37_prime p256_scalar_9547_order_37_power p256_scalar_9547_order_37_coprime]) simp

lemma p256_scalar_9547_prime: "is_prime 9547"
proof (rule is_prime_certificate [where qs = "[37]" and f = 37 and c = 6 and d = 36])
  show "list_all (\<lambda>q. \<exists>b. of_order 9547 b q) [37]"
    using p256_scalar_9547_order_37 by auto
  show "36 * 36 - 4 * 6 \<noteq> t * (t :: int)" if "0 < (6 :: int)" for t
    by (rule square_between [where s = 35]) simp_all
qed simp_all

definition p256_scalar_38189_order_9547_powers :: "int list" where
  "p256_scalar_38189_order_9547_powers =
    [16, 4096]"

lemma p256_scalar_38189_order_9547_table: "power_table 38189 16 p256_scalar_38189_order_9547_powers"
  unfolding p256_scalar_38189_order_9547_powers_def
proof (rule power_tableI)
  show "38189 dvd (16 :: int) ^ 2 - 256"
    by (rule dvd_by_quotient [of _ 0]) (simp only: power2_eq_square arith_simps)
  have "38189 dvd (16 :: int) * 256 - 4096"
    by (rule dvd_by_quotient [of _ 0]) (simp only: arith_simps)
  then show "successively (\<lambda>w v. 38189 dvd (w :: int) * 256 - v)
    [16, 4096]"
    by (simp only: successively.simps simp_thms)
qed

definition p256_scalar_38189_order_9547_steps_0 :: "(int list \<times> nat \<times> int) list" where
  "p256_scalar_38189_order_9547_steps_0 =
    [([0, 1, 19583], 0, 1),
     ([4675, 34303], 0, 3),
     ([9791, 3208], 0, 14),
     ([9217, 15886, 6460], 0, 3),
     ([20495, 21982, 12763], 1, 3419)]"

lemma p256_scalar_38189_order_9547_chain_0: "power_chain (\<lambda>q :: int. q * 38189) p256_scalar_38189_order_9547_powers p256_scalar_38189_order_9547_steps_0 16 = 1"
  unfolding p256_scalar_38189_order_9547_steps_0_def p256_scalar_38189_order_9547_powers_def by (simp only: power_chain_simps)

lemma p256_scalar_38189_order_9547_indices: "list_all (\<lambda>(qs, t, q). t < length p256_scalar_38189_order_9547_powers) (p256_scalar_38189_order_9547_steps_0)"
  unfolding p256_scalar_38189_order_9547_powers_def p256_scalar_38189_order_9547_steps_0_def by simp

lemma p256_scalar_38189_order_9547_exponent_0: "power_chain_exponent p256_scalar_38189_order_9547_steps_0 1 = 9547"
  by (simp add: power_chain_exponent_def p256_scalar_38189_order_9547_steps_0_def)

lemma p256_scalar_38189_order_9547_power: "38189 dvd (16 :: int) ^ 9547 - 1"
proof -
  have "38189 dvd (\<lambda>q :: int. q * 38189) q" for q by simp
  note step = power_chain_sound [of _ "(\<lambda>q :: int. q * 38189)", OF this p256_scalar_38189_order_9547_table]
  have "38189 dvd (16 :: int) ^ 1 - 16"
    by (rule power_table_entry [where i = 0, OF p256_scalar_38189_order_9547_table]) (simp_all add: p256_scalar_38189_order_9547_powers_def)
  from step [OF _ this, of p256_scalar_38189_order_9547_steps_0] p256_scalar_38189_order_9547_indices
  have "38189 dvd (16 :: int) ^ 9547 - 1"
    by (simp only: p256_scalar_38189_order_9547_chain_0 p256_scalar_38189_order_9547_exponent_0 list_all_append simp_thms)
  then show ?thesis .
qed

lemma p256_scalar_38189_order_9547_coprime: "coprime (16 - 1) (38189 :: int)"
  by (rule coprime_by_inverse [of 2546 _ 1]) (simp only: arith_simps arith_special diff_numeral_special)

lemma p256_scalar_38189_order_9547: "of_order 38189 16 9547"
  by (rule of_orderI [OF p256_scalar_9547_prime p256_scalar_38189_order_9547_power p256_scalar_38189_order_9547_coprime]) simp

lemma p256_scalar_38189_prime: "is_prime 38189"
proof (rule is_prime_certificate [where qs = "[9547]" and f = 9547 and c = 0 and d = 4])
  show "list_all (\<lambda>q. \<exists>b. of_order 38189 b q) [9547]"
    using p256_scalar_38189_order_9547 by auto
  show "4 * 4 - 4 * 0 \<noteq> t * (t :: int)" if "0 < (0 :: int)" for t
    using that by simp
qed simp_all
lemma p256_scalar_5_prime: "is_prime 5"
proof (rule is_prime_by_trial)
  show "trial 5 3
    [] = 3"
    by simp
qed simp_all
lemma p256_scalar_7_prime: "is_prime 7"
proof (rule is_prime_by_trial)
  show "trial 7 3
    [] = 3"
    by simp
qed simp_all
lemma p256_scalar_29_prime: "is_prime 29"
proof (rule is_prime_by_trial)
  show "trial 29 3
    [(9, 2), (5, 4)] = 7"
    by simp
qed simp_all

definition p256_scalar_311245691_order_5_powers :: "int list" where
  "p256_scalar_311245691_order_5_powers =
    [287884025]"

lemma p256_scalar_311245691_order_5_table: "power_table 311245691 287884025 p256_scalar_311245691_order_5_powers"
  unfolding p256_scalar_311245691_order_5_powers_def
proof (rule power_tableI)
  show "311245691 dvd (287884025 :: int) ^ 2 - 297846893"
    by (rule dvd_by_quotient [of _ 266275852]) (simp only: power2_eq_square arith_simps)
  show "successively (\<lambda>w v. 311245691 dvd w * 297846893 - v) [287884025]" by simp
qed

definition p256_scalar_311245691_order_5_steps_0 :: "(int list \<times> nat \<times> int) list" where
  "p256_scalar_311245691_order_5_steps_0 =
    [([266275852, 285024899], 0, 26169589)]"

lemma p256_scalar_311245691_order_5_chain_0: "power_chain (\<lambda>q :: int. q * 311245691) p256_scalar_311245691_order_5_powers p256_scalar_311245691_order_5_steps_0 287884025 = 1"
  unfolding p256_scalar_311245691_order_5_steps_0_def p256_scalar_311245691_order_5_powers_def by (simp only: power_chain_simps)

lemma p256_scalar_311245691_order_5_indices: "list_all (\<lambda>(qs, t, q). t < length p256_scalar_311245691_order_5_powers) (p256_scalar_311245691_order_5_steps_0)"
  unfolding p256_scalar_311245691_order_5_powers_def p256_scalar_311245691_order_5_steps_0_def by simp

lemma p256_scalar_311245691_order_5_exponent_0: "power_chain_exponent p256_scalar_311245691_order_5_steps_0 1 = 5"
  by (simp add: power_chain_exponent_def p256_scalar_311245691_order_5_steps_0_def)

lemma p256_scalar_311245691_order_5_power: "311245691 dvd (287884025 :: int) ^ 5 - 1"
proof -
  have "311245691 dvd (\<lambda>q :: int. q * 311245691) q" for q by simp
  note step = power_chain_sound [of _ "(\<lambda>q :: int. q * 311245691)", OF this p256_scalar_311245691_order_5_table]
  have "311245691 dvd (287884025 :: int) ^ 1 - 287884025"
    by (rule power_table_entry [where i = 0, OF p256_scalar_311245691_order_5_table]) (simp_all add: p256_scalar_311245691_order_5_powers_def)
  from step [OF _ this, of p256_scalar_311245691_order_5_steps_0] p256_scalar_311245691_order_5_indices
  have "311245691 dvd (287884025 :: int) ^ 5 - 1"
    by (simp only: p256_scalar_311245691_order_5_chain_0 p256_scalar_311245691_order_5_exponent_0 list_all_append simp_thms)
  then show ?thesis .
qed

lemma p256_scalar_311245691_order_5_coprime: "coprime (287884025 - 1) (311245691 :: int)"
  by (rule coprime_by_inverse [of 204430488 _ 189086221]) (simp only: arith_simps arith_special diff_numeral_special)

lemma p256_scalar_311245691_order_5: "of_order 311245691 287884025 5"
  by (rule of_orderI [OF p256_scalar_5_prime p256_scalar_311245691_order_5_power p256_scalar_311245691_order_5_coprime]) simp

definition p256_scalar_311245691_order_7_powers :: "int list" where
  "p256_scalar_311245691_order_7_powers =
    [54081508]"

lemma p256_scalar_311245691_order_7_table: "power_table 311245691 54081508 p256_scalar_311245691_order_7_powers"
  unfolding p256_scalar_311245691_order_7_powers_def
proof (rule power_tableI)
  show "311245691 dvd (54081508 :: int) ^ 2 - 134692436"
    by (rule dvd_by_quotient [of _ 9397108]) (simp only: power2_eq_square arith_simps)
  show "successively (\<lambda>w v. 311245691 dvd w * 134692436 - v) [54081508]" by simp
qed

definition p256_scalar_311245691_order_7_steps_0 :: "(int list \<times> nat \<times> int) list" where
  "p256_scalar_311245691_order_7_steps_0 =
    [([9397108], 0, 23403922),
     ([104182725], 0, 19568137)]"

lemma p256_scalar_311245691_order_7_chain_0: "power_chain (\<lambda>q :: int. q * 311245691) p256_scalar_311245691_order_7_powers p256_scalar_311245691_order_7_steps_0 54081508 = 1"
  unfolding p256_scalar_311245691_order_7_steps_0_def p256_scalar_311245691_order_7_powers_def by (simp only: power_chain_simps)

lemma p256_scalar_311245691_order_7_indices: "list_all (\<lambda>(qs, t, q). t < length p256_scalar_311245691_order_7_powers) (p256_scalar_311245691_order_7_steps_0)"
  unfolding p256_scalar_311245691_order_7_powers_def p256_scalar_311245691_order_7_steps_0_def by simp

lemma p256_scalar_311245691_order_7_exponent_0: "power_chain_exponent p256_scalar_311245691_order_7_steps_0 1 = 7"
  by (simp add: power_chain_exponent_def p256_scalar_311245691_order_7_steps_0_def)

lemma p256_scalar_311245691_order_7_power: "311245691 dvd (54081508 :: int) ^ 7 - 1"
proof -
  have "311245691 dvd (\<lambda>q :: int. q * 311245691) q" for q by simp
  note step = power_chain_sound [of _ "(\<lambda>q :: int. q * 311245691)", OF this p256_scalar_311245691_order_7_table]
  have "311245691 dvd (54081508 :: int) ^ 1 - 54081508"
    by (rule power_table_entry [where i = 0, OF p256_scalar_311245691_order_7_table]) (simp_all add: p256_scalar_311245691_order_7_powers_def)
  from step [OF _ this, of p256_scalar_311245691_order_7_steps_0] p256_scalar_311245691_order_7_indices
  have "311245691 dvd (54081508 :: int) ^ 7 - 1"
    by (simp only: p256_scalar_311245691_order_7_chain_0 p256_scalar_311245691_order_7_exponent_0 list_all_append simp_thms)
  then show ?thesis .
qed

lemma p256_scalar_311245691_order_7_coprime: "coprime (54081508 - 1) (311245691 :: int)"
  by (rule coprime_by_inverse [of 309986499 _ 53862712]) (simp only: arith_simps arith_special diff_numeral_special)

lemma p256_scalar_311245691_order_7: "of_order 311245691 54081508 7"
  by (rule of_orderI [OF p256_scalar_7_prime p256_scalar_311245691_order_7_power p256_scalar_311245691_order_7_coprime]) simp

definition p256_scalar_311245691_order_29_powers :: "int list" where
  "p256_scalar_311245691_order_29_powers =
    [120750129]"

lemma p256_scalar_311245691_order_29_table: "power_table 311245691 120750129 p256_scalar_311245691_order_29_powers"
  unfolding p256_scalar_311245691_order_29_powers_def
proof (rule power_tableI)
  show "311245691 dvd (120750129 :: int) ^ 2 - 111374702"
    by (rule dvd_by_quotient [of _ 46845929]) (simp only: power2_eq_square arith_simps)
  show "successively (\<lambda>w v. 311245691 dvd w * 111374702 - v) [120750129]" by simp
qed

definition p256_scalar_311245691_order_29_steps_0 :: "(int list \<times> nat \<times> int) list" where
  "p256_scalar_311245691_order_29_steps_0 =
    [([46845929], 0, 43208661),
     ([22512213], 0, 95829818),
     ([84437198, 152463316], 0, 29315941)]"

lemma p256_scalar_311245691_order_29_chain_0: "power_chain (\<lambda>q :: int. q * 311245691) p256_scalar_311245691_order_29_powers p256_scalar_311245691_order_29_steps_0 120750129 = 1"
  unfolding p256_scalar_311245691_order_29_steps_0_def p256_scalar_311245691_order_29_powers_def by (simp only: power_chain_simps)

lemma p256_scalar_311245691_order_29_indices: "list_all (\<lambda>(qs, t, q). t < length p256_scalar_311245691_order_29_powers) (p256_scalar_311245691_order_29_steps_0)"
  unfolding p256_scalar_311245691_order_29_powers_def p256_scalar_311245691_order_29_steps_0_def by simp

lemma p256_scalar_311245691_order_29_exponent_0: "power_chain_exponent p256_scalar_311245691_order_29_steps_0 1 = 29"
  by (simp add: power_chain_exponent_def p256_scalar_311245691_order_29_steps_0_def)

lemma p256_scalar_311245691_order_29_power: "311245691 dvd (120750129 :: int) ^ 29 - 1"
proof -
  have "311245691 dvd (\<lambda>q :: int. q * 311245691) q" for q by simp
  note step = power_chain_sound [of _ "(\<lambda>q :: int. q * 311245691)", OF this p256_scalar_311245691_order_29_table]
  have "311245691 dvd (120750129 :: int) ^ 1 - 120750129"
    by (rule power_table_entry [where i = 0, OF p256_scalar_311245691_order_29_table]) (simp_all add: p256_scalar_311245691_order_29_powers_def)
  from step [OF _ this, of p256_scalar_311245691_order_29_steps_0] p256_scalar_311245691_order_29_indices
  have "311245691 dvd (120750129 :: int) ^ 29 - 1"
    by (simp only: p256_scalar_311245691_order_29_chain_0 p256_scalar_311245691_order_29_exponent_0 list_all_append simp_thms)
  then show ?thesis .
qed

lemma p256_scalar_311245691_order_29_coprime: "coprime (120750129 - 1) (311245691 :: int)"
  by (rule coprime_by_inverse [of 134145418 _ 52042733]) (simp only: arith_simps arith_special diff_numeral_special)

lemma p256_scalar_311245691_order_29: "of_order 311245691 120750129 29"
  by (rule of_orderI [OF p256_scalar_29_prime p256_scalar_311245691_order_29_power p256_scalar_311245691_order_29_coprime]) simp

lemma p256_scalar_311245691_prime: "is_prime 311245691"
proof (rule is_prime_certificate [where qs = "[5, 7, 29]" and f = 1015 and c = 302 and d = 116])
  show "list_all (\<lambda>q. \<exists>b. of_order 311245691 b q) [5, 7, 29]"
    using p256_scalar_311245691_order_5 p256_scalar_311245691_order_7 p256_scalar_311245691_order_29 by auto
  show "116 * 116 - 4 * 302 \<noteq> t * (t :: int)" if "0 < (302 :: int)" for t
    by (rule square_between [where s = 110]) simp_all
qed simp_all

definition p256_scalar_622491383_order_311245691_powers :: "int list" where
  "p256_scalar_622491383_order_311245691_powers =
    [4, 64]"

lemma p256_scalar_622491383_order_311245691_table: "power_table 622491383 4 p256_scalar_622491383_order_311245691_powers"
  unfolding p256_scalar_622491383_order_311245691_powers_def
proof (rule power_tableI)
  show "622491383 dvd (4 :: int) ^ 2 - 16"
    by (rule dvd_by_quotient [of _ 0]) (simp only: power2_eq_square arith_simps)
  have "622491383 dvd (4 :: int) * 16 - 64"
    by (rule dvd_by_quotient [of _ 0]) (simp only: arith_simps)
  then show "successively (\<lambda>w v. 622491383 dvd (w :: int) * 16 - v)
    [4, 64]"
    by (simp only: successively.simps simp_thms)
qed

definition p256_scalar_622491383_order_311245691_steps_0 :: "(int list \<times> nat \<times> int) list" where
  "p256_scalar_622491383_order_311245691_steps_0 =
    [([0, 0, 0], 0, 0),
     ([110, 96761559], 0, 3),
     ([165491233, 65997044, 202288674, 145682530, 173435691], 1, 11),
     ([61998028, 276308525], 0, 3),
     ([418849423, 43248301, 247019639, 360368488], 1, 21),
     ([77522215], 0, 1),
     ([2058914, 339209776, 132280315], 1, 2)]"

lemma p256_scalar_622491383_order_311245691_chain_0: "power_chain (\<lambda>q :: int. q * 622491383) p256_scalar_622491383_order_311245691_powers p256_scalar_622491383_order_311245691_steps_0 4 = 175010578"
  unfolding p256_scalar_622491383_order_311245691_steps_0_def p256_scalar_622491383_order_311245691_powers_def by (simp only: power_chain_simps)

definition p256_scalar_622491383_order_311245691_steps_1 :: "(int list \<times> nat \<times> int) list" where
  "p256_scalar_622491383_order_311245691_steps_1 =
    [([49203415, 504180030, 292594588], 1, 18),
     ([445645903, 109459899], 1, 51),
     ([376185841, 287300867, 9726427], 1, 57)]"

lemma p256_scalar_622491383_order_311245691_chain_1: "power_chain (\<lambda>q :: int. q * 622491383) p256_scalar_622491383_order_311245691_powers p256_scalar_622491383_order_311245691_steps_1 175010578 = 1"
  unfolding p256_scalar_622491383_order_311245691_steps_1_def p256_scalar_622491383_order_311245691_powers_def by (simp only: power_chain_simps)

lemma p256_scalar_622491383_order_311245691_indices: "list_all (\<lambda>(qs, t, q). t < length p256_scalar_622491383_order_311245691_powers) (p256_scalar_622491383_order_311245691_steps_0 @ p256_scalar_622491383_order_311245691_steps_1)"
  unfolding p256_scalar_622491383_order_311245691_powers_def p256_scalar_622491383_order_311245691_steps_0_def p256_scalar_622491383_order_311245691_steps_1_def by simp

lemma p256_scalar_622491383_order_311245691_exponent_0: "power_chain_exponent p256_scalar_622491383_order_311245691_steps_0 1 = 1215803"
  by (simp add: power_chain_exponent_def p256_scalar_622491383_order_311245691_steps_0_def)

lemma p256_scalar_622491383_order_311245691_exponent_1: "power_chain_exponent p256_scalar_622491383_order_311245691_steps_1 1215803 = 311245691"
  by (simp add: power_chain_exponent_def p256_scalar_622491383_order_311245691_steps_1_def)

lemma p256_scalar_622491383_order_311245691_power: "622491383 dvd (4 :: int) ^ 311245691 - 1"
proof -
  have "622491383 dvd (\<lambda>q :: int. q * 622491383) q" for q by simp
  note step = power_chain_sound [of _ "(\<lambda>q :: int. q * 622491383)", OF this p256_scalar_622491383_order_311245691_table]
  have "622491383 dvd (4 :: int) ^ 1 - 4"
    by (rule power_table_entry [where i = 0, OF p256_scalar_622491383_order_311245691_table]) (simp_all add: p256_scalar_622491383_order_311245691_powers_def)
  from step [OF _ this, of p256_scalar_622491383_order_311245691_steps_0] p256_scalar_622491383_order_311245691_indices
  have "622491383 dvd (4 :: int) ^ 1215803 - 175010578"
    by (simp only: p256_scalar_622491383_order_311245691_chain_0 p256_scalar_622491383_order_311245691_exponent_0 list_all_append simp_thms)
  from step [OF _ this, of p256_scalar_622491383_order_311245691_steps_1] p256_scalar_622491383_order_311245691_indices
  have "622491383 dvd (4 :: int) ^ 311245691 - 1"
    by (simp only: p256_scalar_622491383_order_311245691_chain_1 p256_scalar_622491383_order_311245691_exponent_1 list_all_append simp_thms)
  then show ?thesis .
qed

lemma p256_scalar_622491383_order_311245691_coprime: "coprime (4 - 1) (622491383 :: int)"
  by (rule coprime_by_inverse [of 207497128 _ 1]) (simp only: arith_simps arith_special diff_numeral_special)

lemma p256_scalar_622491383_order_311245691: "of_order 622491383 4 311245691"
  by (rule of_orderI [OF p256_scalar_311245691_prime p256_scalar_622491383_order_311245691_power p256_scalar_622491383_order_311245691_coprime]) simp

lemma p256_scalar_622491383_prime: "is_prime 622491383"
proof (rule is_prime_certificate [where qs = "[311245691]" and f = 311245691 and c = 0 and d = 2])
  show "list_all (\<lambda>q. \<exists>b. of_order 622491383 b q) [311245691]"
    using p256_scalar_622491383_order_311245691 by auto
  show "2 * 2 - 4 * 0 \<noteq> t * (t :: int)" if "0 < (0 :: int)" for t
    using that by simp
qed simp_all
lemma p256_scalar_263_prime: "is_prime 263"
proof (rule is_prime_by_trial)
  show "trial 263 3
    [(87, 2), (52, 3), (37, 4), (29, 2), (23, 10), (20, 3), (17, 8)] = 17"
    by simp
qed simp_all

definition p256_scalar_126241_order_263_powers :: "int list" where
  "p256_scalar_126241_order_263_powers =
    [40023, 1353]"

lemma p256_scalar_126241_order_263_table: "power_table 126241 40023 p256_scalar_126241_order_263_powers"
  unfolding p256_scalar_126241_order_263_powers_def
proof (rule power_tableI)
  show "126241 dvd (40023 :: int) ^ 2 - 94721"
    by (rule dvd_by_quotient [of _ 12688]) (simp only: power2_eq_square arith_simps)
  have "126241 dvd (40023 :: int) * 94721 - 1353"
    by (rule dvd_by_quotient [of _ 30030]) (simp only: arith_simps)
  then show "successively (\<lambda>w v. 126241 dvd (w :: int) * 94721 - v)
    [40023, 1353]"
    by (simp only: successively.simps simp_thms)
qed

definition p256_scalar_126241_order_263_steps_0 :: "(int list \<times> nat \<times> int) list" where
  "p256_scalar_126241_order_263_steps_0 =
    [([12688, 71070, 114012, 21377, 15858, 72635, 50101], 1, 659),
     ([2204], 0, 6530)]"

lemma p256_scalar_126241_order_263_chain_0: "power_chain (\<lambda>q :: int. q * 126241) p256_scalar_126241_order_263_powers p256_scalar_126241_order_263_steps_0 40023 = 1"
  unfolding p256_scalar_126241_order_263_steps_0_def p256_scalar_126241_order_263_powers_def by (simp only: power_chain_simps)

lemma p256_scalar_126241_order_263_indices: "list_all (\<lambda>(qs, t, q). t < length p256_scalar_126241_order_263_powers) (p256_scalar_126241_order_263_steps_0)"
  unfolding p256_scalar_126241_order_263_powers_def p256_scalar_126241_order_263_steps_0_def by simp

lemma p256_scalar_126241_order_263_exponent_0: "power_chain_exponent p256_scalar_126241_order_263_steps_0 1 = 263"
  by (simp add: power_chain_exponent_def p256_scalar_126241_order_263_steps_0_def)

lemma p256_scalar_126241_order_263_power: "126241 dvd (40023 :: int) ^ 263 - 1"
proof -
  have "126241 dvd (\<lambda>q :: int. q * 126241) q" for q by simp
  note step = power_chain_sound [of _ "(\<lambda>q :: int. q * 126241)", OF this p256_scalar_126241_order_263_table]
  have "126241 dvd (40023 :: int) ^ 1 - 40023"
    by (rule power_table_entry [where i = 0, OF p256_scalar_126241_order_263_table]) (simp_all add: p256_scalar_126241_order_263_powers_def)
  from step [OF _ this, of p256_scalar_126241_order_263_steps_0] p256_scalar_126241_order_263_indices
  have "126241 dvd (40023 :: int) ^ 263 - 1"
    by (simp only: p256_scalar_126241_order_263_chain_0 p256_scalar_126241_order_263_exponent_0 list_all_append simp_thms)
  then show ?thesis .
qed

lemma p256_scalar_126241_order_263_coprime: "coprime (40023 - 1) (126241 :: int)"
  by (rule coprime_by_inverse [of 81428 _ 25815]) (simp only: arith_simps arith_special diff_numeral_special)

lemma p256_scalar_126241_order_263: "of_order 126241 40023 263"
  by (rule of_orderI [OF p256_scalar_263_prime p256_scalar_126241_order_263_power p256_scalar_126241_order_263_coprime]) simp

lemma p256_scalar_126241_prime: "is_prime 126241"
proof (rule is_prime_certificate [where qs = "[263]" and f = 263 and c = 1 and d = 217])
  show "list_all (\<lambda>q. \<exists>b. of_order 126241 b q) [263]"
    using p256_scalar_126241_order_263 by auto
  show "217 * 217 - 4 * 1 \<noteq> t * (t :: int)" if "0 < (1 :: int)" for t
    by (rule square_between [where s = 216]) simp_all
qed simp_all

definition p256_scalar_1002328039319_order_126241_powers :: "int list" where
  "p256_scalar_1002328039319_order_126241_powers =
    [854676186744, 21515314888]"

lemma p256_scalar_1002328039319_order_126241_table: "power_table 1002328039319 854676186744 p256_scalar_1002328039319_order_126241_powers"
  unfolding p256_scalar_1002328039319_order_126241_powers_def
proof (rule power_tableI)
  show "1002328039319 dvd (854676186744 :: int) ^ 2 - 963647362368"
    by (rule dvd_by_quotient [of _ 728774767872]) (simp only: power2_eq_square arith_simps)
  have "1002328039319 dvd (854676186744 :: int) * 963647362368 - 21515314888"
    by (rule dvd_by_quotient [of _ 821693518216]) (simp only: arith_simps)
  then show "successively (\<lambda>w v. 1002328039319 dvd (w :: int) * 963647362368 - v)
    [854676186744, 21515314888]"
    by (simp only: successively.simps simp_thms)
qed

definition p256_scalar_1002328039319_order_126241_steps_0 :: "(int list \<times> nat \<times> int) list" where
  "p256_scalar_1002328039319_order_126241_steps_0 =
    [([461833607, 870074272137], 1, 9467288362),
     ([58072171906, 80150944748, 268839566612], 1, 18416360847),
     ([955993566992, 304593948239], 0, 654016166221),
     ([395963946992, 7285627907, 297325101199], 0, 131483521454),
     ([562108036734, 48790764130, 749392713972, 723173950753, 324112734513], 0, 333873625513)]"

lemma p256_scalar_1002328039319_order_126241_chain_0: "power_chain (\<lambda>q :: int. q * 1002328039319) p256_scalar_1002328039319_order_126241_powers p256_scalar_1002328039319_order_126241_steps_0 21515314888 = 1"
  unfolding p256_scalar_1002328039319_order_126241_steps_0_def p256_scalar_1002328039319_order_126241_powers_def by (simp only: power_chain_simps)

lemma p256_scalar_1002328039319_order_126241_indices: "list_all (\<lambda>(qs, t, q). t < length p256_scalar_1002328039319_order_126241_powers) (p256_scalar_1002328039319_order_126241_steps_0)"
  unfolding p256_scalar_1002328039319_order_126241_powers_def p256_scalar_1002328039319_order_126241_steps_0_def by simp

lemma p256_scalar_1002328039319_order_126241_exponent_0: "power_chain_exponent p256_scalar_1002328039319_order_126241_steps_0 3 = 126241"
  by (simp add: power_chain_exponent_def p256_scalar_1002328039319_order_126241_steps_0_def)

lemma p256_scalar_1002328039319_order_126241_power: "1002328039319 dvd (854676186744 :: int) ^ 126241 - 1"
proof -
  have "1002328039319 dvd (\<lambda>q :: int. q * 1002328039319) q" for q by simp
  note step = power_chain_sound [of _ "(\<lambda>q :: int. q * 1002328039319)", OF this p256_scalar_1002328039319_order_126241_table]
  have "1002328039319 dvd (854676186744 :: int) ^ 3 - 21515314888"
    by (rule power_table_entry [where i = 1, OF p256_scalar_1002328039319_order_126241_table]) (simp_all add: p256_scalar_1002328039319_order_126241_powers_def)
  from step [OF _ this, of p256_scalar_1002328039319_order_126241_steps_0] p256_scalar_1002328039319_order_126241_indices
  have "1002328039319 dvd (854676186744 :: int) ^ 126241 - 1"
    by (simp only: p256_scalar_1002328039319_order_126241_chain_0 p256_scalar_1002328039319_order_126241_exponent_0 list_all_append simp_thms)
  then show ?thesis .
qed

lemma p256_scalar_1002328039319_order_126241_coprime: "coprime (854676186744 - 1) (1002328039319 :: int)"
  by (rule coprime_by_inverse [of 282868485333 _ 241199436622]) (simp only: arith_simps arith_special diff_numeral_special)

lemma p256_scalar_1002328039319_order_126241: "of_order 1002328039319 854676186744 126241"
  by (rule of_orderI [OF p256_scalar_126241_prime p256_scalar_1002328039319_order_126241_power p256_scalar_1002328039319_order_126241_coprime]) simp

lemma p256_scalar_1002328039319_prime: "is_prime 1002328039319"
proof (rule is_prime_certificate [where qs = "[126241]" and f = 126241 and c = 62 and d = 112856])
  show "list_all (\<lambda>q. \<exists>b. of_order 1002328039319 b q) [126241]"
    using p256_scalar_1002328039319_order_126241 by auto
  show "112856 * 112856 - 4 * 62 \<noteq> t * (t :: int)" if "0 < (62 :: int)" for t
    by (rule square_between [where s = 112855]) simp_all
qed simp_all

definition p256_scalar_order_3_powers :: "int list" where
  "p256_scalar_order_3_powers =
    [37331913611544787191735787721145577660445201969982241541979348390299652607521]"

lemma p256_scalar_order_3_table: "power_table 115792089210356248762697446949407573529996955224135760342422259061068512044369 37331913611544787191735787721145577660445201969982241541979348390299652607521 p256_scalar_order_3_powers"
  unfolding p256_scalar_order_3_powers_def
proof (rule power_tableI)
  show "115792089210356248762697446949407573529996955224135760342422259061068512044369 dvd (37331913611544787191735787721145577660445201969982241541979348390299652607521 :: int) ^ 2 - 78460175598811461570961659228261995869551753254153518800442910670768859436847"
    by (rule dvd_by_quotient [of _ 12035984352678864248504637171214685370317939310263041088288413314346349575026]) (simp only: power2_eq_square arith_simps)
  show "successively (\<lambda>w v. 115792089210356248762697446949407573529996955224135760342422259061068512044369 dvd w * 78460175598811461570961659228261995869551753254153518800442910670768859436847 - v) [37331913611544787191735787721145577660445201969982241541979348390299652607521]" by simp
qed

definition p256_scalar_order_3_steps_0 :: "(int list \<times> nat \<times> int) list" where
  "p256_scalar_order_3_steps_0 =
    [([12035984352678864248504637171214685370317939310263041088288413314346349575026], 0,
      25295929258865922943231150549930892290127262659719200453690935075953303032494)]"

lemma p256_scalar_order_3_chain_0: "power_chain p256_scalar_times p256_scalar_order_3_powers p256_scalar_order_3_steps_0 37331913611544787191735787721145577660445201969982241541979348390299652607521 = 1"
  unfolding p256_scalar_order_3_steps_0_def p256_scalar_order_3_powers_def by (simp only: p256_scalar_times_def power_chain_simps)

lemma p256_scalar_order_3_indices: "list_all (\<lambda>(qs, t, q). t < length p256_scalar_order_3_powers) (p256_scalar_order_3_steps_0)"
  unfolding p256_scalar_order_3_powers_def p256_scalar_order_3_steps_0_def by simp

lemma p256_scalar_order_3_exponent_0: "power_chain_exponent p256_scalar_order_3_steps_0 1 = 3"
  by (simp add: power_chain_exponent_def p256_scalar_order_3_steps_0_def)

lemma p256_scalar_order_3_power: "115792089210356248762697446949407573529996955224135760342422259061068512044369 dvd (37331913611544787191735787721145577660445201969982241541979348390299652607521 :: int) ^ 3 - 1"
proof -
  have "115792089210356248762697446949407573529996955224135760342422259061068512044369 dvd p256_scalar_times q" for q by (rule p256_scalar_times_dvd)
  note step = power_chain_sound [of _ "p256_scalar_times", OF this p256_scalar_order_3_table]
  have "115792089210356248762697446949407573529996955224135760342422259061068512044369 dvd (37331913611544787191735787721145577660445201969982241541979348390299652607521 :: int) ^ 1 - 37331913611544787191735787721145577660445201969982241541979348390299652607521"
    by (rule power_table_entry [where i = 0, OF p256_scalar_order_3_table]) (simp_all add: p256_scalar_order_3_powers_def)
  from step [OF _ this, of p256_scalar_order_3_steps_0] p256_scalar_order_3_indices
  have "115792089210356248762697446949407573529996955224135760342422259061068512044369 dvd (37331913611544787191735787721145577660445201969982241541979348390299652607521 :: int) ^ 3 - 1"
    by (simp only: p256_scalar_order_3_chain_0 p256_scalar_order_3_exponent_0 list_all_append simp_thms)
  then show ?thesis .
qed

lemma p256_scalar_order_3_coprime: "coprime (37331913611544787191735787721145577660445201969982241541979348390299652607521 - 1) (115792089210356248762697446949407573529996955224135760342422259061068512044369 :: int)"
  by (rule coprime_by_inverse [of 64750754936389236777886368725889856466516236159429759714288389910612457160405 _ 20875947623470236711655646090358823316857488209900480665223427822084318546671]) (simp only: arith_simps arith_special diff_numeral_special)

lemma p256_scalar_order_3: "of_order 115792089210356248762697446949407573529996955224135760342422259061068512044369 37331913611544787191735787721145577660445201969982241541979348390299652607521 3"
  by (rule of_orderI [OF p256_scalar_3_prime p256_scalar_order_3_power p256_scalar_order_3_coprime]) simp

definition p256_scalar_order_38189_powers :: "int list" where
  "p256_scalar_order_38189_powers =
    [5086409723237697054262227949232500644030136423633023932450237774109158708956,
     17311961232010627843846838253233376034502538980453227178543721904460675646270]"

lemma p256_scalar_order_38189_table: "power_table 115792089210356248762697446949407573529996955224135760342422259061068512044369 5086409723237697054262227949232500644030136423633023932450237774109158708956 p256_scalar_order_38189_powers"
  unfolding p256_scalar_order_38189_powers_def
proof (rule power_tableI)
  show "115792089210356248762697446949407573529996955224135760342422259061068512044369 dvd (5086409723237697054262227949232500644030136423633023932450237774109158708956 :: int) ^ 2 - 4159512219606677401936775085770895049934315913424711223317754756806401887267"
    by (rule dvd_by_quotient [of _ 223431186440092981730171373626523100163251708922292246325208519094352980701]) (simp only: power2_eq_square arith_simps)
  have "115792089210356248762697446949407573529996955224135760342422259061068512044369 dvd (5086409723237697054262227949232500644030136423633023932450237774109158708956 :: int) * 4159512219606677401936775085770895049934315913424711223317754756806401887267 - 17311961232010627843846838253233376034502538980453227178543721904460675646270"
    by (rule dvd_by_quotient [of _ 182715274782702289616427059224274885005879826807259906115957567733872869878]) (simp only: arith_simps)
  then show "successively (\<lambda>w v. 115792089210356248762697446949407573529996955224135760342422259061068512044369 dvd (w :: int) * 4159512219606677401936775085770895049934315913424711223317754756806401887267 - v)
    [5086409723237697054262227949232500644030136423633023932450237774109158708956,
     17311961232010627843846838253233376034502538980453227178543721904460675646270]"
    by (simp only: successively.simps simp_thms)
qed

definition p256_scalar_order_38189_steps_0 :: "(int list \<times> nat \<times> int) list" where
  "p256_scalar_order_38189_steps_0 =
    [([223431186440092981730171373626523100163251708922292246325208519094352980701,
      149419032189893741262787414016274727049116171975980771184476205017285367498,
      315106527473265493212672515923224302591045853269003487914141962557827128159], 0,
      4670986321156943585898041549083569660481274593347714921029622166720913524458),
     ([23694977988020846915552204624353025369601151989495163363666631542249491158700,
      19116724848997887309452273872521649705307372276114830312831750408058777280964], 0,
      520739498735239805939440515910731681336269773917015459375609904505083548506),
     ([29838303738262131046205598012022302372986496273801375368148542772680490182345,
      20700081413785221831218714644506490924132014571311800773420562455734265042597], 0,
      17277768555101487112390509973510265774278444186212882384875089049931721976),
     ([58360476861709744823379709893622346256280191042803953431271513447135530369044,
      41557626450181381023987192946271811806874964682909953816509439392440714277584,
      26236341424446447668141265261618728381662947675025659926451697061792938133614], 0,
      4244876985919705995458362262877004546830444629283680374073553332432454805529),
     ([39715175969533746843136008746283425895667637735904298747098295130156933862593,
      10090119758173479557824421040384684932868425451195631847263497224277506525113,
      2855270648485920991740878577610719825747668164410459459330289945121091739938], 1,
      3186423487308878970003800984941529082799462936467702847690582772210817493113),
     ([53085154426843429977230308227035826897686996381653669852738140698066042898134,
      27500779757617418784461971992730402716946221215898216285535538554364483532164], 0,
      603317390422171804409464373088634123976180708863946936545135274868964683163)]"

lemma p256_scalar_order_38189_chain_0: "power_chain p256_scalar_times p256_scalar_order_38189_powers p256_scalar_order_38189_steps_0 5086409723237697054262227949232500644030136423633023932450237774109158708956 = 1"
  unfolding p256_scalar_order_38189_steps_0_def p256_scalar_order_38189_powers_def by (simp only: p256_scalar_times_def power_chain_simps)

lemma p256_scalar_order_38189_indices: "list_all (\<lambda>(qs, t, q). t < length p256_scalar_order_38189_powers) (p256_scalar_order_38189_steps_0)"
  unfolding p256_scalar_order_38189_powers_def p256_scalar_order_38189_steps_0_def by simp

lemma p256_scalar_order_38189_exponent_0: "power_chain_exponent p256_scalar_order_38189_steps_0 1 = 38189"
  by (simp add: power_chain_exponent_def p256_scalar_order_38189_steps_0_def)

lemma p256_scalar_order_38189_power: "115792089210356248762697446949407573529996955224135760342422259061068512044369 dvd (5086409723237697054262227949232500644030136423633023932450237774109158708956 :: int) ^ 38189 - 1"
proof -
  have "115792089210356248762697446949407573529996955224135760342422259061068512044369 dvd p256_scalar_times q" for q by (rule p256_scalar_times_dvd)
  note step = power_chain_sound [of _ "p256_scalar_times", OF this p256_scalar_order_38189_table]
  have "115792089210356248762697446949407573529996955224135760342422259061068512044369 dvd (5086409723237697054262227949232500644030136423633023932450237774109158708956 :: int) ^ 1 - 5086409723237697054262227949232500644030136423633023932450237774109158708956"
    by (rule power_table_entry [where i = 0, OF p256_scalar_order_38189_table]) (simp_all add: p256_scalar_order_38189_powers_def)
  from step [OF _ this, of p256_scalar_order_38189_steps_0] p256_scalar_order_38189_indices
  have "115792089210356248762697446949407573529996955224135760342422259061068512044369 dvd (5086409723237697054262227949232500644030136423633023932450237774109158708956 :: int) ^ 38189 - 1"
    by (simp only: p256_scalar_order_38189_chain_0 p256_scalar_order_38189_exponent_0 list_all_append simp_thms)
  then show ?thesis .
qed

lemma p256_scalar_order_38189_coprime: "coprime (5086409723237697054262227949232500644030136423633023932450237774109158708956 - 1) (115792089210356248762697446949407573529996955224135760342422259061068512044369 :: int)"
  by (rule coprime_by_inverse [of 86375698398929671398905049453757463238372739462223426780256964299451458877361 _ 3794233225981629834120793118927630788693698124210229289253266805695614222666]) (simp only: arith_simps arith_special diff_numeral_special)

lemma p256_scalar_order_38189: "of_order 115792089210356248762697446949407573529996955224135760342422259061068512044369 5086409723237697054262227949232500644030136423633023932450237774109158708956 38189"
  by (rule of_orderI [OF p256_scalar_38189_prime p256_scalar_order_38189_power p256_scalar_order_38189_coprime]) simp

definition p256_scalar_order_622491383_powers :: "int list" where
  "p256_scalar_order_622491383_powers =
    [89793803106140655548934888153550114537963536509033662413216553683426000771657,
     103218203625221656799840487813191736228334811068558088454021359889898109116690]"

lemma p256_scalar_order_622491383_table: "power_table 115792089210356248762697446949407573529996955224135760342422259061068512044369 89793803106140655548934888153550114537963536509033662413216553683426000771657 p256_scalar_order_622491383_powers"
  unfolding p256_scalar_order_622491383_powers_def
proof (rule power_tableI)
  show "115792089210356248762697446949407573529996955224135760342422259061068512044369 dvd (89793803106140655548934888153550114537963536509033662413216553683426000771657 :: int) ^ 2 - 84591823597040682473681835931825348014488457317916657989481433564413867013320"
    by (rule dvd_by_quotient [of _ 69632797294266460732861204891508688531926189381307774041045503996554536342841]) (simp only: power2_eq_square arith_simps)
  have "115792089210356248762697446949407573529996955224135760342422259061068512044369 dvd (89793803106140655548934888153550114537963536509033662413216553683426000771657 :: int) * 84591823597040682473681835931825348014488457317916657989481433564413867013320 - 103218203625221656799840487813191736228334811068558088454021359889898109116690"
    by (rule dvd_by_quotient [of _ 65598795256754868133814499218878417818723245968492890824397195034412362716950]) (simp only: arith_simps)
  then show "successively (\<lambda>w v. 115792089210356248762697446949407573529996955224135760342422259061068512044369 dvd (w :: int) * 84591823597040682473681835931825348014488457317916657989481433564413867013320 - v)
    [89793803106140655548934888153550114537963536509033662413216553683426000771657,
     103218203625221656799840487813191736228334811068558088454021359889898109116690]"
    by (simp only: successively.simps simp_thms)
qed

definition p256_scalar_order_622491383_steps_0 :: "(int list \<times> nat \<times> int) list" where
  "p256_scalar_order_622491383_steps_0 =
    [([69632797294266460732861204891508688531926189381307774041045503996554536342841,
      61798493042760025272717147591767201484570523505524773110301158518140922580697,
      75414387649898735425781292267445938160208329958501595116068558149209155604796], 0,
      65754862910629044699382358076445493714204022653888098932108925465088318832714),
     ([53795539465588716242432684491925337113226116104248765407564446940936567616176,
      38443202238650961177099720625549834189408174005765241457330578571000528030301], 0,
      23898001810321046704539560081772723484136611012959256245090375105482318795076),
     ([6867444717639226550944529253450748575427435510851154818738958062032957593375,
      36157552162629024991339723005907891620524515848825969554978102027946695277,
      74323488313995998316583331400284048330866933055681416793784682242060153559858,
      28629510037248742474134840121475322889036318381007616499147163003925720569060,
      1154763258138126859364944310256358953916454107750787421448492863153303448], 1,
      11659866520990678018451496662223615532166567494878774728359717662449272551277),
     ([74343219618794202681834257493659448665671940685025132749055503012528992111806,
      4030067465271230683877191350967346738137414930728466284820428534351470511071], 0,
      84833517676956512778632341482219285094440892814049108855145187913018467328335),
     ([53120295714226884909611949053556177733460923859863681084660837364462286923306,
      20523912333072145070495754906041081485676703393762479512494724707529038588608,
      72176551873128922688635338817711952898051287872862282926476585325049483084956,
      93247816240585527230244288228229885600571882268385780081059401251238206559074], 1,
      74606909043634269026699769523114457053978652461571516443633209832121820370165),
     ([6323069659901168812290249920996555945917100631720155855933828306069281051221], 0,
      38195596800991704142234987867332328316992702720453687865707665247683768524520),
     ([100633903198941774508516665278983389434927162133082175222699506867802566541969,
      30686600985428495278490637845341718361462462426395738381058357738699753994,
      2427188180810994333160804083756470369758568563800638817809699604006990014072], 1,
      12061613802371730174773898725259664350420761408753353385903954587108941372828)]"

lemma p256_scalar_order_622491383_chain_0: "power_chain p256_scalar_times p256_scalar_order_622491383_powers p256_scalar_order_622491383_steps_0 89793803106140655548934888153550114537963536509033662413216553683426000771657 = 83287312024453482453488396245813616720255271124097266477316829372090780221158"
  unfolding p256_scalar_order_622491383_steps_0_def p256_scalar_order_622491383_powers_def by (simp only: p256_scalar_times_def power_chain_simps)

definition p256_scalar_order_622491383_steps_1 :: "(int list \<times> nat \<times> int) list" where
  "p256_scalar_order_622491383_steps_1 =
    [([59907169751957978258483474749377719128232820366393467873420247883369125313732,
      2422816377287780846031910697530270691509832976040117527481326908679521122993,
      2683114354490147430825154296264017677344568315804196955137192895982212416073], 1,
      12642021478852807840403005173403600103469396728770788284154580856033994565159),
     ([15238762585144205837633729023605437778978968186569673811392463233785096097036,
      1344111317530652452173550368825343769953228370050413607101023789611645603517], 1,
      99463533367167302299790333868008901630749529863685351010309259849976560563208),
     ([46989556788923699547312435673833860220832666603866262535349361108958732973245,
      14292374020676158461507254104586885571982462485516200650876311464164890318864,
      99677022789119171406415676580515274571384566465676409471830515758076635354257], 1,
      83727471065610990356998438182653476145013161108762442353908892193339880669131),
     ([22070319758117419152943379318319570034638572800856165783843390274199712125267], 0,
      61578258766516971760584519324709056470666352270000000227919600292625251291445)]"

lemma p256_scalar_order_622491383_chain_1: "power_chain p256_scalar_times p256_scalar_order_622491383_powers p256_scalar_order_622491383_steps_1 83287312024453482453488396245813616720255271124097266477316829372090780221158 = 1"
  unfolding p256_scalar_order_622491383_steps_1_def p256_scalar_order_622491383_powers_def by (simp only: p256_scalar_times_def power_chain_simps)

lemma p256_scalar_order_622491383_indices: "list_all (\<lambda>(qs, t, q). t < length p256_scalar_order_622491383_powers) (p256_scalar_order_622491383_steps_0 @ p256_scalar_order_622491383_steps_1)"
  unfolding p256_scalar_order_622491383_powers_def p256_scalar_order_622491383_steps_0_def p256_scalar_order_622491383_steps_1_def by simp

lemma p256_scalar_order_622491383_exponent_0: "power_chain_exponent p256_scalar_order_622491383_steps_0 1 = 1215803"
  by (simp add: power_chain_exponent_def p256_scalar_order_622491383_steps_0_def)

lemma p256_scalar_order_622491383_exponent_1: "power_chain_exponent p256_scalar_order_622491383_steps_1 1215803 = 622491383"
  by (simp add: power_chain_exponent_def p256_scalar_order_622491383_steps_1_def)

lemma p256_scalar_order_622491383_power: "115792089210356248762697446949407573529996955224135760342422259061068512044369 dvd (89793803106140655548934888153550114537963536509033662413216553683426000771657 :: int) ^ 622491383 - 1"
proof -
  have "115792089210356248762697446949407573529996955224135760342422259061068512044369 dvd p256_scalar_times q" for q by (rule p256_scalar_times_dvd)
  note step = power_chain_sound [of _ "p256_scalar_times", OF this p256_scalar_order_622491383_table]
  have "115792089210356248762697446949407573529996955224135760342422259061068512044369 dvd (89793803106140655548934888153550114537963536509033662413216553683426000771657 :: int) ^ 1 - 89793803106140655548934888153550114537963536509033662413216553683426000771657"
    by (rule power_table_entry [where i = 0, OF p256_scalar_order_622491383_table]) (simp_all add: p256_scalar_order_622491383_powers_def)
  from step [OF _ this, of p256_scalar_order_622491383_steps_0] p256_scalar_order_622491383_indices
  have "115792089210356248762697446949407573529996955224135760342422259061068512044369 dvd (89793803106140655548934888153550114537963536509033662413216553683426000771657 :: int) ^ 1215803 - 83287312024453482453488396245813616720255271124097266477316829372090780221158"
    by (simp only: p256_scalar_order_622491383_chain_0 p256_scalar_order_622491383_exponent_0 list_all_append simp_thms)
  from step [OF _ this, of p256_scalar_order_622491383_steps_1] p256_scalar_order_622491383_indices
  have "115792089210356248762697446949407573529996955224135760342422259061068512044369 dvd (89793803106140655548934888153550114537963536509033662413216553683426000771657 :: int) ^ 622491383 - 1"
    by (simp only: p256_scalar_order_622491383_chain_1 p256_scalar_order_622491383_exponent_1 list_all_append simp_thms)
  then show ?thesis .
qed

lemma p256_scalar_order_622491383_coprime: "coprime (89793803106140655548934888153550114537963536509033662413216553683426000771657 - 1) (115792089210356248762697446949407573529996955224135760342422259061068512044369 :: int)"
  by (rule coprime_by_inverse [of 60741489996517933421745308637649787681612632387296668283116932572444781126976 _ 47103471664738978530686110567661091547391497649181367869228320724931351778895]) (simp only: arith_simps arith_special diff_numeral_special)

lemma p256_scalar_order_622491383: "of_order 115792089210356248762697446949407573529996955224135760342422259061068512044369 89793803106140655548934888153550114537963536509033662413216553683426000771657 622491383"
  by (rule of_orderI [OF p256_scalar_622491383_prime p256_scalar_order_622491383_power p256_scalar_order_622491383_coprime]) simp

definition p256_scalar_order_1002328039319_powers :: "int list" where
  "p256_scalar_order_1002328039319_powers =
    [75826181402772799521319382390190118258099127975743022721581095372707945421081,
     100038275311641258350157762665018141239635805261121567542317438983596245845622,
     20805971419093769551605765077590349733461292257495295644411859382643323911608,
     63258394118838287927127060069853818658206079378473963961145501813882608832013]"

lemma p256_scalar_order_1002328039319_table: "power_table 115792089210356248762697446949407573529996955224135760342422259061068512044369 75826181402772799521319382390190118258099127975743022721581095372707945421081 p256_scalar_order_1002328039319_powers"
  unfolding p256_scalar_order_1002328039319_powers_def
proof (rule power_tableI)
  show "115792089210356248762697446949407573529996955224135760342422259061068512044369 dvd (75826181402772799521319382390190118258099127975743022721581095372707945421081 :: int) ^ 2 - 2996032665313529765690277206867510327786808873919593893693993021034817205704"
    by (rule dvd_by_quotient [of _ 49654599250567561025883570029337046168822827553092417004585697361041715297753]) (simp only: power2_eq_square arith_simps)
  have "115792089210356248762697446949407573529996955224135760342422259061068512044369 dvd (75826181402772799521319382390190118258099127975743022721581095372707945421081 :: int) * 2996032665313529765690277206867510327786808873919593893693993021034817205704 - 100038275311641258350157762665018141239635805261121567542317438983596245845622"
    by (rule dvd_by_quotient [of _ 1961945050978302953195999636462857719935437818899205456111213911934592083058]) (simp only: arith_simps)
  moreover have "115792089210356248762697446949407573529996955224135760342422259061068512044369 dvd (100038275311641258350157762665018141239635805261121567542317438983596245845622 :: int) * 2996032665313529765690277206867510327786808873919593893693993021034817205704 - 20805971419093769551605765077590349733461292257495295644411859382643323911608"
    by (rule dvd_by_quotient [of _ 2588414654742225479525874895849856365064314845253229394954786073434999568120]) (simp only: arith_simps)
  moreover have "115792089210356248762697446949407573529996955224135760342422259061068512044369 dvd (20805971419093769551605765077590349733461292257495295644411859382643323911608 :: int) * 2996032665313529765690277206867510327786808873919593893693993021034817205704 - 63258394118838287927127060069853818658206079378473963961145501813882608832013"
    by (rule dvd_by_quotient [of _ 538338762434294686481985594157182430860328862947781415545334157593899238851]) (simp only: arith_simps)
  ultimately show "successively (\<lambda>w v. 115792089210356248762697446949407573529996955224135760342422259061068512044369 dvd (w :: int) * 2996032665313529765690277206867510327786808873919593893693993021034817205704 - v)
    [75826181402772799521319382390190118258099127975743022721581095372707945421081,
     100038275311641258350157762665018141239635805261121567542317438983596245845622,
     20805971419093769551605765077590349733461292257495295644411859382643323911608,
     63258394118838287927127060069853818658206079378473963961145501813882608832013]"
    by (simp only: successively.simps simp_thms)
qed

definition p256_scalar_order_1002328039319_steps_0 :: "(int list \<times> nat \<times> int) list" where
  "p256_scalar_order_1002328039319_steps_0 =
    [([34558703049434019266194420097985362619498250720029850783923163656577033323260,
      51190343294832942166701905862968757675269809901658626905946272433810885423501], 0,
      64382076054373071950025923414237071617968009029326121913948389230059756808285),
     ([5646954511175047048626757349350652404604978992006491597311542043884756246499,
      74633445057098815263486112151125137198074203015919566105784069377687454687400,
      31890819924419061762986582862458064529983771720181812928547466585375059347681,
      659408266445102648822343998397253552722403713352415552166876631773199260654,
      87325019327898631350071684494241943329829924015069917578995834245094422180421], 2,
      18309326806864472863822791745822647764649375112965000014741591619553605650190),
     ([20447618020862970707415436284796176129587247944707170027924971210380783767,
      49736276632742881358650430567934118342253867977203873864586971285368355841609,
      5180805832085175409249268770874443232160958445927219746660321891339986271311,
      75789596148078075440393579710201629005927843679265397904898362150320436235394], 3,
      39017037326627646686107391101775424433408155298350566553193597101724508746459),
     ([51133402408483243670910225839033677514959872737857569852222919833645766567460,
      271483276215815500095601817086051037391407659448312838823235575210853813976], 1,
      36859614801788608334184495598890910064168597093668002861184415515916968634856),
     ([94431096549584065470552047364012495826384790147660013007292053118364602715827,
      57508263292724291491196026388365518232198169042091485699212472755191430840549,
      68338033484234301557914985202009774633186273455724044791420636055921627919913], 1,
      35640580967265248298391991078364800824525355026057336148885862020002396062527),
     ([2641798117085953313791594360537796853581131213806096980213148480039753758044,
      14948863370652364343786928554992242772265741084619437215776591091689594698283], 0,
      35486270751423298601770469781238758025330119233711624125614176134229939032154)]"

lemma p256_scalar_order_1002328039319_chain_0: "power_chain p256_scalar_times p256_scalar_order_1002328039319_powers p256_scalar_order_1002328039319_steps_0 63258394118838287927127060069853818658206079378473963961145501813882608832013 = 19253772420189554959405265489438479409645495920170443879230938400891400212612"
  unfolding p256_scalar_order_1002328039319_steps_0_def p256_scalar_order_1002328039319_powers_def by (simp only: p256_scalar_times_def power_chain_simps)

definition p256_scalar_order_1002328039319_steps_1 :: "(int list \<times> nat \<times> int) list" where
  "p256_scalar_order_1002328039319_steps_1 =
    [([3201494635225015679604362719789982461819058338006881364249751346494802423808,
      5877325959470698552651862763289941990937910345161475148008209947737440259763,
      34173058099005127113536656478061688823378646773666731141058163205963321991370,
      4611838787019458171558847582684308939568075322276440519864977857875503584080,
      1030891849425980535091319720163831861721317057743234568394806575020989568684,
      65163766200366052119837142843029707529237127959871409199734226994992680521551,
      27868208884641914430517974920227725886079722253822669059664437046944774559869,
      60888885676343837529982163128549598535434832134394904762413556541883700449477,
      3595624297984930290618783949677978331684176452470048399690830800699392578811], 3,
      27305464815523343848548686069207146089615262894640930026131081365355707185776),
     ([4801519714783679697667854219284555131889707756220079660641964622729361883472,
      35023447893505659461774044988278155277748572363589132638990426776984706865036,
      65406631764863023184836646013430039417999361577747485892803963178488597644138], 3,
      25377838550854519470490846171529638129017734562642782250686864923328624197379),
     ([16906450540566022233778936141905311920136068990692518246484984694086068844461,
      56220759255529543245863024425344819374205564728027188897923404595028719571634,
      245153105139844910024050512920345573593595036907752909116502673115550579676,
      46955518608544649191151536887320305655452756435972059926331260757759194918773,
      9001529717846647955502263944895137346657981228037681514833647177573403719104], 2,
      5716973532190864930497459941679781431032101227107941965792401973811165925413),
     ([98347157211150713198885959677365922552680661894982955671589224824306512968782,
      14369308915675317297150919805783058471096224526811571488030724120876467752730], 1,
      37831202906118614466860534994193439882055293022398535563084770253296100963129)]"

lemma p256_scalar_order_1002328039319_chain_1: "power_chain p256_scalar_times p256_scalar_order_1002328039319_powers p256_scalar_order_1002328039319_steps_1 19253772420189554959405265489438479409645495920170443879230938400891400212612 = 1"
  unfolding p256_scalar_order_1002328039319_steps_1_def p256_scalar_order_1002328039319_powers_def by (simp only: p256_scalar_times_def power_chain_simps)

lemma p256_scalar_order_1002328039319_indices: "list_all (\<lambda>(qs, t, q). t < length p256_scalar_order_1002328039319_powers) (p256_scalar_order_1002328039319_steps_0 @ p256_scalar_order_1002328039319_steps_1)"
  unfolding p256_scalar_order_1002328039319_powers_def p256_scalar_order_1002328039319_steps_0_def p256_scalar_order_1002328039319_steps_1_def by simp

lemma p256_scalar_order_1002328039319_exponent_0: "power_chain_exponent p256_scalar_order_1002328039319_steps_0 7 = 1911789"
  by (simp add: power_chain_exponent_def p256_scalar_order_1002328039319_steps_0_def)

lemma p256_scalar_order_1002328039319_exponent_1: "power_chain_exponent p256_scalar_order_1002328039319_steps_1 1911789 = 1002328039319"
  by (simp add: power_chain_exponent_def p256_scalar_order_1002328039319_steps_1_def)

lemma p256_scalar_order_1002328039319_power: "115792089210356248762697446949407573529996955224135760342422259061068512044369 dvd (75826181402772799521319382390190118258099127975743022721581095372707945421081 :: int) ^ 1002328039319 - 1"
proof -
  have "115792089210356248762697446949407573529996955224135760342422259061068512044369 dvd p256_scalar_times q" for q by (rule p256_scalar_times_dvd)
  note step = power_chain_sound [of _ "p256_scalar_times", OF this p256_scalar_order_1002328039319_table]
  have "115792089210356248762697446949407573529996955224135760342422259061068512044369 dvd (75826181402772799521319382390190118258099127975743022721581095372707945421081 :: int) ^ 7 - 63258394118838287927127060069853818658206079378473963961145501813882608832013"
    by (rule power_table_entry [where i = 3, OF p256_scalar_order_1002328039319_table]) (simp_all add: p256_scalar_order_1002328039319_powers_def)
  from step [OF _ this, of p256_scalar_order_1002328039319_steps_0] p256_scalar_order_1002328039319_indices
  have "115792089210356248762697446949407573529996955224135760342422259061068512044369 dvd (75826181402772799521319382390190118258099127975743022721581095372707945421081 :: int) ^ 1911789 - 19253772420189554959405265489438479409645495920170443879230938400891400212612"
    by (simp only: p256_scalar_order_1002328039319_chain_0 p256_scalar_order_1002328039319_exponent_0 list_all_append simp_thms)
  from step [OF _ this, of p256_scalar_order_1002328039319_steps_1] p256_scalar_order_1002328039319_indices
  have "115792089210356248762697446949407573529996955224135760342422259061068512044369 dvd (75826181402772799521319382390190118258099127975743022721581095372707945421081 :: int) ^ 1002328039319 - 1"
    by (simp only: p256_scalar_order_1002328039319_chain_1 p256_scalar_order_1002328039319_exponent_1 list_all_append simp_thms)
  then show ?thesis .
qed

lemma p256_scalar_order_1002328039319_coprime: "coprime (75826181402772799521319382390190118258099127975743022721581095372707945421081 - 1) (115792089210356248762697446949407573529996955224135760342422259061068512044369 :: int)"
  by (rule coprime_by_inverse [of 9631013060085677371482002832704039550345574303883859918124457045788451041694 _ 6306846593464998713267894978977654199470285288516574978017596443495004344351]) (simp only: arith_simps arith_special diff_numeral_special)

lemma p256_scalar_order_1002328039319: "of_order 115792089210356248762697446949407573529996955224135760342422259061068512044369 75826181402772799521319382390190118258099127975743022721581095372707945421081 1002328039319"
  by (rule of_orderI [OF p256_scalar_1002328039319_prime p256_scalar_order_1002328039319_power p256_scalar_order_1002328039319_coprime]) simp

lemma p256_scalar_prime: "is_prime 115792089210356248762697446949407573529996955224135760342422259061068512044369"
proof (rule is_prime_certificate [where qs = "[3, 38189, 622491383, 1002328039319]" and f = 71482998987075857096374359 and c = 22660702060678418334465861 and d = 23891789128896322981272253])
  show "list_all (\<lambda>q. \<exists>b. of_order 115792089210356248762697446949407573529996955224135760342422259061068512044369 b q) [3, 38189, 622491383, 1002328039319]"
    using p256_scalar_order_3 p256_scalar_order_38189 p256_scalar_order_622491383 p256_scalar_order_1002328039319 by auto
  show "23891789128896322981272253 * 23891789128896322981272253 - 4 * 22660702060678418334465861 \<noteq> t * (t :: int)" if "0 < (22660702060678418334465861 :: int)" for t
    by (rule square_between [where s = 23891789128896322981272251]) simp_all
qed simp_all

end
