(* ===== verification/Field_P256_Scalar.thy ===== *)
theory Field_P256_Scalar
  imports Residues P256_Scalar_Prime
begin

text \<open>
  The scalar field of P-256, \<open>src/src/fields/fieldp256_scalar/mod.rs\<close>: the residues modulo the order of the group.
  \<open>scalar_from_hash\<close> reads a digest as a big-endian number and subtracts the modulus at most once, on two words of 128
  bits; it is the digest modulo the order, for every digest.
\<close>

definition p256_order :: int where
  "p256_order = 0xffffffff00000000ffffffffffffffffbce6faada7179e84f3b9cac2fc632551"

definition p256_order_bytes :: bytes where
  "p256_order_bytes =
     [0x51, 0x25, 0x63, 0xfc, 0xc2, 0xca, 0xb9, 0xf3, 0x84, 0x9e, 0x17, 0xa7, 0xad, 0xfa, 0xe6, 0xbc,
      0xff, 0xff, 0xff, 0xff, 0xff, 0xff, 0xff, 0xff, 0x00, 0x00, 0x00, 0x00, 0xff, 0xff, 0xff, 0xff]"

typedef fp256_scalar = "{0 ..< p256_order}"
  morphisms scalar_residue Abs_fp256_scalar
  by (rule exI [of _ 0]) (simp add: p256_order_def)

setup_lifting type_definition_fp256_scalar

lemma scalar_mod_range: "x mod p256_order \<in> {0 ..< p256_order}"
  by (simp add: p256_order_def)

lift_definition scalar_of_int :: "int \<Rightarrow> fp256_scalar" is "\<lambda>x. x mod p256_order"
  by (rule scalar_mod_range)

instantiation fp256_scalar :: comm_ring_1
begin

lift_definition zero_fp256_scalar :: fp256_scalar is 0 by (simp add: p256_order_def)
lift_definition one_fp256_scalar :: fp256_scalar is 1 by (simp add: p256_order_def)
lift_definition plus_fp256_scalar :: "fp256_scalar \<Rightarrow> fp256_scalar \<Rightarrow> fp256_scalar" is "\<lambda>x y. (x + y) mod p256_order"
  by (rule scalar_mod_range)
lift_definition minus_fp256_scalar :: "fp256_scalar \<Rightarrow> fp256_scalar \<Rightarrow> fp256_scalar" is "\<lambda>x y. (x - y) mod p256_order"
  by (rule scalar_mod_range)
lift_definition uminus_fp256_scalar :: "fp256_scalar \<Rightarrow> fp256_scalar" is "\<lambda>x. (- x) mod p256_order"
  by (rule scalar_mod_range)
lift_definition times_fp256_scalar :: "fp256_scalar \<Rightarrow> fp256_scalar \<Rightarrow> fp256_scalar" is "\<lambda>x y. (x * y) mod p256_order"
  by (rule scalar_mod_range)

instance
  by standard (transfer; simp add: mod_simps algebra_simps p256_order_def)+

end

instantiation fp256_scalar :: equal
begin

lift_definition equal_fp256_scalar :: "fp256_scalar \<Rightarrow> fp256_scalar \<Rightarrow> bool" is "\<lambda>x y. x = y" .

instance
  by standard (transfer, rule refl)

end

interpretation scalar: residues p256_order scalar_residue scalar_of_int
proof
  show "is_prime p256_order" using p256_scalar_prime by (simp only: p256_order_def)
  show "scalar_residue (scalar_of_int x) = x mod p256_order" for x by transfer (rule refl)
  show "scalar_of_int (scalar_residue a) = a" for a by transfer simp
qed (transfer; simp add: mod_simps p256_order_def)+

definition scalar_mul_inv :: "fp256_scalar \<Rightarrow> fp256_scalar" where
  "scalar_mul_inv self = p256_scalar_m2_exp self"

lemma scalar_mul_inv_inverse: "x \<noteq> 0 \<Longrightarrow> scalar_mul_inv x * x = 1"
  unfolding scalar_mul_inv_def p256_scalar_m2_exp_power by (rule scalar.inverse_power) (simp_all add: p256_order_def)

subsection \<open>Encoding\<close>

definition scalar_try_from :: "bytes \<Rightarrow> fp256_scalar option" where
  "scalar_try_from = residue_try_from p256_order_bytes scalar_of_int"

definition scalar_encode :: "fp256_scalar \<Rightarrow> bytes" where
  "scalar_encode self = le_bytes 32 (nat (scalar_residue self))"

lemma p256_order_bytes_value: "int (le_value p256_order_bytes) = p256_order" "length p256_order_bytes = 32"
  by (simp_all add: p256_order_bytes_def p256_order_def)

lemma scalar_roundtrip: "scalar_try_from (scalar_encode x) = Some x"
  using scalar.try_from_encode [OF p256_order_bytes_value(1), of x] p256_order_bytes_value(2)
  by (simp add: scalar_try_from_def scalar_encode_def)

lemma scalar_canonical: "scalar_try_from bs = Some x \<Longrightarrow> scalar_encode x = bs"
  using scalar.encode_try_from [OF p256_order_bytes_value(1), of bs x] p256_order_bytes_value(2)
  by (simp add: scalar_try_from_def scalar_encode_def)

subsection \<open>Digests\<close>

text \<open>\<open>from_be_bytes\<close>, \<open>to_le_bytes\<close>, \<open>overflowing_sub\<close> and \<open>borrowing_sub\<close> on 128-bit words.\<close>

definition u128_from_be_bytes :: "bytes \<Rightarrow> 128 word" where
  "u128_from_be_bytes bs = of_nat (le_value (rev bs))"

definition u128_to_le_bytes :: "128 word \<Rightarrow> bytes" where
  "u128_to_le_bytes w = le_bytes 16 (unat w)"

definition overflowing_sub :: "128 word \<Rightarrow> 128 word \<Rightarrow> 128 word \<times> bool" where
  "overflowing_sub a b = (a - b, a < b)"

definition borrowing_sub :: "128 word \<Rightarrow> 128 word \<Rightarrow> bool \<Rightarrow> 128 word \<times> bool" where
  "borrowing_sub a b borrow = (a - b - of_bool borrow, unat a < unat b + of_bool borrow)"

definition order_high :: "128 word" where "order_high = 0xffffffff00000000ffffffffffffffff"
definition order_low :: "128 word" where "order_low = 0xbce6faada7179e84f3b9cac2fc632551"

definition scalar_from_hash :: "bytes \<Rightarrow> fp256_scalar option" where
  "scalar_from_hash hash =
     (let high = u128_from_be_bytes (take 16 hash);
          low = u128_from_be_bytes (drop 16 hash);
          (result_low, borrow) = overflowing_sub low order_low;
          (result_high, overflow) = borrowing_sub high order_high borrow;
          (select_high, select_low) = (if overflow then (high, low) else (result_high, result_low));
          buf = u128_to_le_bytes select_low @ u128_to_le_bytes select_high
      in scalar_try_from buf)"

lemma unat_of_le_value: "length bs = 16 \<Longrightarrow> unat (u128_from_be_bytes bs) = le_value (rev bs)"
  using le_value_bound [of "rev bs"] by (simp add: u128_from_be_bytes_def unsigned_of_nat take_bit_nat_eq_self)

lemma unat_u128: "unat (w :: 128 word) < 2 ^ 128"
  using unsigned_less [of w] by simp

lemma le_value_u128: "le_value (u128_to_le_bytes w) = unat w" "length (u128_to_le_bytes w) = 16"
  using unat_u128 [of w] by (simp_all add: u128_to_le_bytes_def le_value_le_bytes_small)

lemma sub_two_words:
  fixes high low h l :: "128 word"
  assumes "unat high * 2 ^ 128 + unat low = n" "unat h * 2 ^ 128 + unat l = k" "n < 2 * k"
    and "overflowing_sub low l = (rl, borrow)" "borrowing_sub high h borrow = (rh, ov)"
    and "(sh, sl) = (if ov then (high, low) else (rh, rl))"
  shows "unat sh * 2 ^ 128 + unat sl = n mod k"
proof -
  have rl: "rl = low - l" "borrow = (low < l)" and rh: "rh = high - h - of_bool borrow" "ov = (unat high < unat h + of_bool borrow)"
    using assms(4,5) by (auto simp: overflowing_sub_def borrowing_sub_def)
  have lb: "unat low < 2 ^ 128" "unat l < 2 ^ 128" by (rule unat_u128)+
  have ov: "ov \<longleftrightarrow> n < k"
    unfolding rh(2) rl(2) assms(1,2) [symmetric] using lb by (cases "low < l") (auto simp: word_less_nat_alt)
  show ?thesis
  proof (cases ov)
    case True
    then show ?thesis using assms(1,6) ov by simp
  next
    case False
    have s: "sh = rh" "sl = rl" using assms(6) False by simp_all
    have "n mod k = n - k" using False ov assms(3) by (simp add: le_mod_geq)
    moreover have "unat sl = (if borrow then unat low + 2 ^ 128 - unat l else unat low - unat l)"
      unfolding s rl using lb by (simp add: unat_sub_if' word_less_nat_alt word_le_nat_alt)
    moreover have "unat rh = unat high - unat h - of_bool borrow"
    proof -
      have "unat h + of_bool borrow \<le> unat high" using False rh(2) by simp
      then have "h + of_bool borrow \<le> high \<and> unat (h + of_bool borrow) = unat h + of_bool borrow"
        using unat_u128 [of high]
        by (cases borrow) (simp_all add: word_le_nat_alt unat_word_ariths)
      then have "unat (high - (h + of_bool borrow)) = unat high - (unat h + of_bool borrow)"
        by (metis unat_sub)
      then show ?thesis by (simp add: rh(1) diff_diff_eq)
    qed
    moreover have "unat h + of_bool borrow \<le> unat high" using False rh(2) by simp
    ultimately show ?thesis unfolding s(1) assms(1,2) [symmetric] using lb rl(2)
      by (auto simp: word_less_nat_alt not_less algebra_simps diff_mult_distrib)
  qed
qed

lemma scalar_from_hash_mod:
  assumes "length hash = 32"
  shows "scalar_from_hash hash = Some (scalar_of_int (int (le_value (rev hash))))"
proof -
  let ?high = "u128_from_be_bytes (take 16 hash)" and ?low = "u128_from_be_bytes (drop 16 hash)"
  obtain rl borrow where 1: "overflowing_sub ?low order_low = (rl, borrow)" by fastforce
  obtain rh ov where 2: "borrowing_sub ?high order_high borrow = (rh, ov)" by fastforce
  obtain sh sl where 3: "(sh, sl) = (if ov then (?high, ?low) else (rh, rl))" by (metis surj_pair)
  let ?n = "le_value (rev hash)" and ?k = "nat p256_order"
  have "rev hash = rev (drop 16 hash) @ rev (take 16 hash)" by (simp flip: rev_append)
  then have n: "unat ?high * 2 ^ 128 + unat ?low = ?n"
    using assms by (simp add: unat_of_le_value le_value_append mult.commute)
  have k: "unat order_high * 2 ^ 128 + unat order_low = ?k"
    by (simp add: order_high_def order_low_def p256_order_def)
  have "?n < 2 * ?k" using le_value_bound [of "rev hash"] assms by (simp add: p256_order_def)
  from sub_two_words [OF n k this 1 2 3]
  have "le_value (u128_to_le_bytes sl @ u128_to_le_bytes sh) = ?n mod ?k"
    by (simp add: le_value_append le_value_u128 mult.commute add.commute)
  then have "int (le_value (u128_to_le_bytes sl @ u128_to_le_bytes sh)) = int ?n mod p256_order"
    by (simp add: zmod_int p256_order_def)
  moreover have "\<dots> < p256_order" by (simp add: p256_order_def)
  moreover have "length (u128_to_le_bytes sl @ u128_to_le_bytes sh) = 32" by (simp add: le_value_u128)
  ultimately have "scalar_try_from (u128_to_le_bytes sl @ u128_to_le_bytes sh) = Some (scalar_of_int (int ?n))"
    unfolding scalar_try_from_def scalar.try_from_Some [OF p256_order_bytes_value(1)] p256_order_bytes_value(2)
    by (simp add: scalar.of_residue_eq_iff)
  then show ?thesis by (simp add: scalar_from_hash_def 1 2 3 [symmetric])
qed

end
