(* ===== verification/Claims_Fields.thy ===== *)
theory Claims_Fields
  imports Complex_Main Field_P128 Addition_Chains P128_Code Demo Field_Gf Gf_Backends Gf_Clmul Zk_Wire P256_Code Field_P256_Scalar
begin

text \<open>
  The properties of the field layer: exponentiation and the generated addition chains, rejection
  sampling, the Lagrange basis of sumcheck, the number theoretic transform, batched inversion and
  the encoding of elements of the 128-bit field.
\<close>

text \<open>
  Binary exponentiation (\<open>exp_vartime\<close>) computes the power, for every base and exponent.
\<close>

theorem exp_vartime_is_power: "exp_vartime x n = x ^ n"
  by (simp add: exp_vartime_def exp_vartime_loop_power)

text \<open>
  The five generated addition chains compute the powers they are named after: the inverses
  \<open>x ^ (p - 2)\<close> of the P-128 field, the P-256 base field, the P-256 scalar field and GF(2^128), and
  the candidate square root \<open>x ^ ((p + 1) / 4)\<close> of the P-256 base field.
\<close>

theorem addition_chains_powers:
  "p128m2_exp x = x ^ nat (p128_modulus - 2) \<and>
   p256m2_exp x = x ^ (2 ^ 256 - 2 ^ 224 + 2 ^ 192 + 2 ^ 96 - 1 - 2) \<and>
   p256_scalar_m2_exp x =
     x ^ (0xFFFFFFFF00000000FFFFFFFFFFFFFFFFBCE6FAADA7179E84F3B9CAC2FC632551 - 2) \<and>
   p256sqrt_exp x = x ^ ((2 ^ 256 - 2 ^ 224 + 2 ^ 192 + 2 ^ 96 - 1 + 1) div 4) \<and>
   gf_2_128_m2_exp x = x ^ (2 ^ 128 - 2)"
  by (simp add: p128m2_exp_power p256m2_exp_power p256_scalar_m2_exp_power p256sqrt_exp_power
      gf_2_128_m2_exp_power p128_modulus_def)

text \<open>
  Rejection sampling returns the first draw that decodes to a field element, counts the
  draws before it, and leaves the source right after it.
\<close>

theorem sampling_returns_first_accepted:
  assumes "draw F source g k = Some x" "\<forall>i < k. draw F source g i = None"
  shows "sample_counting_rejections F source g = Some (x, k, draw_state source (Suc k) g)"
  using sample_loop_first_accepted [OF assms, of 0] by (simp add: sample_counting_rejections_def)

definition even_bytes_ops :: "nat field_ops" where
  "even_bytes_ops =
     \<lparr>fo_num_bits = 4, fo_field_id = FP128, fo_encode = (\<lambda>x. [word_of_nat x]),
      fo_try_from = (\<lambda>bs. if even (le_value bs) then Some (le_value bs) else None),
      fo_in_subfield = (\<lambda>_. True), fo_encode_sub = (\<lambda>_. Inr []), fo_decode_sub = (\<lambda>bs. Inr (0, bs)),
      fo_id_prefix = [], fo_large_characteristic = True, fo_p2 = 2, fo_p2_inv = 0,
      fo_one_minus_p2_inv = 0, fo_p2_squared_minus_p2_inv = 0, fo_extend = (\<lambda>n m xs. Inr xs)\<rparr>"

theorem sampling_returns_first_accepted_witness:
  "sample_counting_rejections even_bytes_ops (\<lambda>b. ([b], b + 1)) (0xF3 :: byte) = Some (4, 1, 0xF5)"
proof -
  have 1: "draw even_bytes_ops (\<lambda>b. ([b], b + 1)) (0xF3 :: byte) 1 = Some 4"
    by (simp add: draw_def draw_state_def even_bytes_ops_def mask_excess_def) code_simp
  have 0: "draw even_bytes_ops (\<lambda>b. ([b], b + 1)) (0xF3 :: byte) 0 = None"
    by (simp add: draw_def draw_state_def even_bytes_ops_def mask_excess_def) code_simp
  have "sample_counting_rejections even_bytes_ops (\<lambda>b. ([b], b + 1)) (0xF3 :: byte) =
      Some (4, 1, draw_state (\<lambda>b. ([b], b + 1)) (Suc 1) 0xF3)"
    by (rule sampling_returns_first_accepted) (use 0 1 in auto)
  then show ?thesis by (simp add: draw_state_def)
qed

text \<open>
  Over the 128-bit field the three Lagrange basis polynomials, computed with the
  precomputed inverses, interpolate every quadratic from its values at 0, 1 and P2 = 2.
\<close>

theorem p128_lagrange_interpolates:
  "a * lagrange_basis_polynomial_0 p128_ops x + (a + b + c) * lagrange_basis_polynomial_1 p128_ops x
     + (a + b * 2 + c * 4) * lagrange_basis_polynomial_2 p128_ops x = a + b * x + c * (x * x)"
proof -
  have "fo_p2 p128_ops = 2"
    using p128_sumcheck.large_characteristic_p2 by (simp add: p128_ops_def)
  with p128_sumcheck.lagrange_quadratic [of "\<lambda>y. a + b * y + c * (y * y)" a b c x] show ?thesis
    by simp
qed

text \<open>
  On every vector of length \<open>2 ^ k\<close>, \<open>k < 32\<close>, the inverse transform after the forward
  transform of the 128-bit field multiplies by the length, with the roots of unity of the source.
\<close>

theorem p128_ntt_inverse:
  assumes "length v = 2 ^ k" "k < 32"
  shows "and_then (ntt_bit_reversed p128_ntt v) (scaled_inverse_ntt_bit_reversed p128_ntt) =
    Inr (map (\<lambda>x. 2 ^ k * x) v)"
  by (rule ntt_round_trip [OF p128_ntt_tables_ok assms])

theorem p128_ntt_inverse_witness:
  "and_then (ntt_bit_reversed p128_ntt [1, 2, 3, 4]) (scaled_inverse_ntt_bit_reversed p128_ntt) =
    Inr [4, 8, 12, 16]"
  using p128_ntt_inverse [of "[1, 2, 3, 4]" 2] by simp

text \<open>
  The batched inversion yields, with a single call to the inversion, the sequence
  \<open>0, 1/1, ..., 1/(n - 1)\<close>, whenever the factorial it inverts is invertible.
\<close>

theorem batched_inversion_inverts:
  fixes mul_inv :: "'a :: comm_ring_1 \<Rightarrow> 'a"
  assumes "mul_inv (of_nat (fact (n - 1))) * of_nat (fact (n - 1)) = 1"
  shows "length (batched_inversion_sequence mul_inv n) = n \<and>
    (\<forall>j \<in> {1..<n}. batched_inversion_sequence mul_inv n ! j * of_nat j = 1)"
  using batched_inversion_sequence_nth(1,3) [of mul_inv n] assms by simp

theorem batched_inversion_inverts_witness:
  "batched_inversion_sequence inverse 4 ! 3 * (3 :: rat) = 1"
proof -
  have "inverse (of_nat (fact (4 - 1)) :: rat) * of_nat (fact (4 - 1)) = 1" by (simp add: fact_numeral)
  from batched_inversion_inverts [of "inverse :: rat \<Rightarrow> rat" 4, OF this]
  have "\<forall>j \<in> {1..<4}. batched_inversion_sequence inverse 4 ! j * rat_of_nat j = 1" by (rule conjunct2)
  then have "batched_inversion_sequence inverse 4 ! 3 * rat_of_nat 3 = 1" by (rule bspec) simp
  then show ?thesis by simp
qed

text \<open>
  Decoding an element of the 128-bit field succeeds exactly on the canonical encodings: it
  returns \<open>x\<close> and the rest of the input if and only if the input is the encoding of \<open>x\<close>, then the rest.
\<close>

theorem p128_encoding_canonical:
  "fe_decode p128_ops bs = Inr (x, rest) \<longleftrightarrow> bs = fo_encode p128_ops x @ rest"
proof
  assume d: "fe_decode p128_ops bs = Inr (x, rest)"
  then have "fo_try_from p128_ops (take (num_bytes p128_ops) bs) = Some x"
    "rest = drop (num_bytes p128_ops) bs"
    by (auto simp: fe_decode_def split: if_splits)
  with p128.encode_try_from show "bs = fo_encode p128_ops x @ rest" by (metis append_take_drop_id)
next
  assume "bs = fo_encode p128_ops x @ rest"
  then show "fe_decode p128_ops bs = Inr (x, rest)"
    using p128.fe.roundtrip [of x "fo_encode p128_ops x" rest] by (simp add: fe_encode_def)
qed

section \<open>Claims P128\<close>

text \<open>
  Properties of the 128-bit field that rest on its being a field: inversion, the transform as an
  evaluation, and the extension as interpolation.
\<close>

text \<open>
  Inversion in the 128-bit field, the addition chain for the power \<open>p - 2\<close>, maps every nonzero
  element to its inverse, and zero to zero.
\<close>

theorem p128_inversion:
  "p128m2_exp x * x = (if x = 0 then 0 else (1 :: fp128))"
  by (simp add: p128m2_exp_inverse)

text \<open>
  The forward transform of the 128-bit field evaluates the vector, as the coefficients of a
  polynomial, at points whose \<open>2 ^ k\<close>-th power is one: each is a product of the tabulated roots of unity,
  chosen by the bits of the position.
\<close>

theorem p128_ntt_evaluates:
  fixes v :: "fp128 list"
  assumes "length v = 2 ^ k" "k < 32"
  defines "rs \<equiv> rev (take k (drop 1 (no_roots p128_ntt)))"
  shows "\<exists>w. ntt_bit_reversed p128_ntt v = Inr w \<and> length w = 2 ^ k \<and>
    (\<forall>p \<in> {..<2 ^ k}. w ! p = (\<Sum>j < 2 ^ k. v ! j * ntt_point rs p ^ j) \<and> ntt_point rs p ^ (2 ^ k) = 1)"
proof -
  have rs: "primitive_roots rs" unfolding rs_def by (rule p128_code.roots [OF assms(2)])
  have len: "length rs = k" using p128_ntt_tables_ok assms(2) by (simp add: rs_def ntt_tables_ok_def)
  have "ntt_bit_reversed p128_ntt v = Inr (ntt_stages rs v)"
    unfolding rs_def using assms(1,2) p128_ntt_tables_ok by (intro ntt_bit_reversed_eq) (simp_all add: ntt_tables_ok_def)
  then show ?thesis using ntt_stages_nth [OF rs, of v 1] ntt_point_power [OF rs] assms(1) len by simp
qed

theorem p128_ntt_evaluates_witness:
  "\<exists>w. ntt_bit_reversed p128_ntt [5, 7] = Inr w \<and> w ! 0 = (12 :: fp128)"
proof -
  from p128_ntt_evaluates [of "[5, 7 :: fp128]" 1] obtain w where
    w: "ntt_bit_reversed p128_ntt [5, 7] = Inr w"
    "\<forall>p \<in> {..<2 ^ 1}. w ! p = (\<Sum>j < 2 ^ 1. [5, 7] ! j * ntt_point (rev (take 1 (drop 1 (no_roots p128_ntt)))) p ^ j)"
    by auto
  have "length (rev (take 1 (drop 1 (no_roots p128_ntt)))) = 1" 
    using p128_ntt_tables_ok by (simp add: ntt_tables_ok_def)
  then obtain r where r: "rev (take 1 (drop 1 (no_roots p128_ntt))) = [r]" by (metis One_nat_def length_0_conv length_Suc_conv)
  have "w ! 0 = (\<Sum>j < 2 ^ 1. [5, 7] ! j * ntt_point [r] 0 ^ j)" using w(2) unfolding r by simp
  then show ?thesis using w(1) by (simp add: numeral_2_eq_2)
qed

text \<open>
  C8: Extending in the 128-bit field interpolates: the result has the given values first, and is the list of
  values at \<open>0, 1, 2, ...\<close> of a polynomial with no more coefficients than values were given.
\<close>

theorem p128_extension_interpolates:
  assumes "0 < n" "n \<le> m" "m \<le> 2 ^ 31" "length xs = n"
  shows "\<exists>f. poly_below n f \<and> fo_extend p128_ops n m xs = Inr (map (\<lambda>i. f (of_nat i)) [0..<m]) \<and>
    (\<forall>i \<in> {..<n}. f (of_nat i) = xs ! i)"
proof -
  obtain ys where ys: "fo_extend p128_ops n m xs = Inr ys" "codeword n m ys" "take n ys = xs"
    using p128_code.rs.extend_cw [of n m xs] assms by (auto simp: short_enough_def)
  then obtain f where f: "poly_below n f" "ys = map (\<lambda>i. f (of_nat i)) [0..<m]" by (auto simp: codeword_at_def)
  moreover have "\<forall>i < n. f (of_nat i) = xs ! i" using ys(3) f(2) assms(2) by auto
  ultimately show ?thesis using ys(1) by blast
qed

theorem p128_extension_interpolates_witness:
  "\<exists>f. poly_below 2 f \<and> fo_extend p128_ops 2 5 [3, 4] = Inr (map (\<lambda>i. f (of_nat i)) [0..<5]) \<and>
    f 0 = 3 \<and> f 1 = (4 :: fp128)"
proof -
  obtain f where f: "poly_below 2 f" "fo_extend p128_ops 2 5 [3, 4] = Inr (map (\<lambda>i. f (of_nat i)) [0..<5])"
    "\<forall>i \<in> {..<2}. f (of_nat i) = [3, 4] ! i"
    using p128_extension_interpolates [of 2 5 "[3, 4]"] by auto
  have "0 \<in> {..<2 :: nat}" "1 \<in> {..<2 :: nat}" by simp_all
  then have "f (of_nat 0) = [3, 4] ! 0" "f (of_nat 1) = [3, 4] ! 1" using f(3) by blast+
  then show ?thesis using f(1,2) by auto
qed

section \<open>Claims Gf\<close>

text \<open>
  Properties of GF(2^128): the ring product and every backend, inversion, the subfield, the extension, and the
  feature flag that chooses a backend at run time.
\<close>

text \<open>
  C13: Whatever the target and whatever the processor supports, multiplication and squaring compute the product
  of polynomials modulo \<open>x ^ 128 + x ^ 7 + x ^ 2 + x + 1\<close>: the bit-slicing backend, the carry-less multiplications of x86
  and those of AArch64 agree on every pair of elements.
\<close>

theorem gf_backends_multiply:
  "Gf (galois_multiply arch features (as_u128 a) (as_u128 b)) = a * b \<and>
   Gf (galois_square arch features (as_u128 a)) = a * a \<and>
   a * b = (\<Sum>i < 128. if bit (as_u128 a) i then gf_x ^ i * b else 0) \<and>
   gf_x ^ 128 = gf_x ^ 7 + gf_x ^ 2 + gf_x + 1"
proof (intro conjI)
  show "a * b = (\<Sum>i < 128. if bit (as_u128 a) i then gf_x ^ i * b else 0)"
    by (rule times_gf128_def [of a b, unfolded funpow_mul_x])
qed (rule galois_multiply_times galois_square_times gf_x_128)+

text \<open>
  Inversion in GF(2^128), the addition chain for the power \<open>2 ^ 128 - 2\<close>, maps every element other than zero
  to its inverse, and zero to zero.
\<close>

theorem gf_inversion:
  "gf_2_128_m2_exp a * a = (if a = 0 then 0 else (1 :: gf128))"
  by (simp add: gf_2_128_m2_exp_inverse)

text \<open>
  C15: Injection into the subfield and projection are inverse to each other: every integer of 16 bits is found again, an
  element that projects to an integer is the injection of it, and injection is additive.
\<close>

theorem gf_subfield:
  "uninject (inject v) = Some v \<and> (uninject x = Some w) = (inject w = x) \<and> inject (v XOR w) = inject v + inject w"
  using uninject_inject uninject_Some [of x w] inject_xor [of v w] by auto

text \<open>
  C12: Extending in GF(2^128) interpolates: the additive transforms return the given values first, and then the values of
  one polynomial with no more coefficients than values were given, at the elements that the integers inject to.
\<close>

theorem gf_extension_interpolates:
  assumes "0 < n" "n \<le> m" "m \<le> 2 ^ 16" "length xs = n"
  shows "\<exists>f. poly_below n f \<and> fo_extend gf_ops n m xs = Inr (map (\<lambda>i. f (inject (of_nat i))) [0..<m]) \<and>
    (\<forall>i \<in> {..<n}. f (inject (of_nat i)) = xs ! i)"
  using gf_extend_interpolates [OF assms] by (simp add: point_def Ball_def)

theorem gf_extension_interpolates_witness:
  "\<exists>f. poly_below 2 f \<and> fo_extend gf_ops 2 5 [Gf 3, Gf 4] = Inr (map (\<lambda>i. f (inject (of_nat i))) [0..<5]) \<and>
    f (inject 0) = Gf 3 \<and> f (inject 1) = Gf 4"
proof -
  obtain f where f: "poly_below 2 f" "fo_extend gf_ops 2 5 [Gf 3, Gf 4] = Inr (map (\<lambda>i. f (inject (of_nat i))) [0..<5])"
    "\<forall>i \<in> {..<2}. f (inject (of_nat i)) = [Gf 3, Gf 4] ! i"
    using gf_extension_interpolates [of 2 5 "[Gf 3, Gf 4]"] by auto
  have "0 \<in> {..<2 :: nat}" "1 \<in> {..<2 :: nat}" by simp_all
  then have "f (inject (of_nat 0)) = [Gf 3, Gf 4] ! 0" "f (inject (of_nat 1)) = [Gf 3, Gf 4] ! 1" using f(3) by blast+
  then show ?thesis using f(1,2) by auto
qed

text \<open>
  C14: The dictionary of GF(2^128) satisfies every law the proof system asks of a field: encodings are canonical, elements of
  the subfield have round trips of their own, the constants are the inverses they should be, and the extension is
  a Reed-Solomon code of up to \<open>2 ^ 16\<close> columns.
\<close>

theorem gf_satisfies_interfaces:
  "field_codec gf_ops \<and> subfield_codec gf_ops \<and> sumcheck_field gf_ops \<and>
   reed_solomon gf_ops (codeword_at (\<lambda>i. inject (of_nat i))) (\<lambda>m. m \<le> 2 ^ 16)"
proof (intro conjI)
  have "(\<lambda>i. inject (of_nat i)) = point" "(\<lambda>m. m \<le> 2 ^ 16) = gf_short_enough"
    by (simp_all add: fun_eq_iff point_def gf_short_enough_def)
  then show "reed_solomon gf_ops (codeword_at (\<lambda>i. inject (of_nat i))) (\<lambda>m. m \<le> 2 ^ 16)"
    by (simp only: gf_code.reed_solomon_axioms)
qed (rule gf.field_codec_axioms gf_subfield.subfield_codec_axioms gf_sumcheck.sumcheck_field_axioms)+

text \<open>
  C16: However the calls of several threads interleave on the shared byte, a call of \<open>get\<close> that returns returns what
  the callback says.
\<close>

theorem feature_flag_agrees:
  assumes "run callback ts flag_new s" "flag_calls s t = Returned b"
  shows "b = callback"
  using flag_invariant_run [OF assms(1) flag_invariant_new] assms(2) by (auto simp: flag_invariant_def dest: spec [of _ t])

text \<open>Two calls, interleaved: both load before either stores.\<close>

definition demo_flag :: "get_call \<Rightarrow> get_call \<Rightarrow> 8 word \<Rightarrow> feature_flag" where
  "demo_flag c d v = \<lparr>flag_state = v, flag_calls = (\<lambda>_. Call)(0 := c, 1 := d)\<rparr>"

lemma demo_flag_run: "run True [0, 1, 0, 1, 0, 1, 0] flag_new (demo_flag (Returned True) (Finish 3) 3)"
proof -
  have new: "flag_new = demo_flag Call Call 0" by (simp add: flag_new_def demo_flag_def fun_eq_iff)
  have step0: "get_step True 0 (demo_flag c d v) s \<Longrightarrow> s = demo_flag c' d v' \<Longrightarrow> run True ts (demo_flag c' d v') s' \<Longrightarrow>
    run True (0 # ts) (demo_flag c d v) s'" for c d v c' v' s s' ts by (simp add: run_Cons)
  have step1: "get_step True 1 (demo_flag c d v) s \<Longrightarrow> s = demo_flag c d' v' \<Longrightarrow> run True ts (demo_flag c d' v') s' \<Longrightarrow>
    run True (1 # ts) (demo_flag c d v) s'" for c d v d' v' s s' ts by (simp add: run_Cons)
  note defs = demo_flag_def set_call_def fun_eq_iff detected_def mask_initialized_def mask_supported_def
  show ?thesis
    unfolding new
    apply (rule step0 [where c' = "Loaded 0" and v' = 0, OF load], simp add: defs, simp add: defs)
    apply (rule step1 [where d' = "Loaded 0" and v' = 0, OF load], simp add: defs, simp add: defs)
    apply (rule step0 [where c' = "Detected 3" and v' = 0, OF detect [where v = 0]], simp add: defs, simp add: defs, simp add: defs)
    apply (rule step1 [where d' = "Detected 3" and v' = 0, OF detect [where v = 0]], simp add: defs, simp add: defs, simp add: defs)
    apply (rule step0 [where c' = "Finish 3" and v' = 3, OF fetch_or [where v = 3]], simp add: defs, simp add: defs)
    apply (rule step1 [where d' = "Finish 3" and v' = 3, OF fetch_or [where v = 3]], simp add: defs, simp add: defs)
    apply (rule step0 [where c' = "Returned True" and v' = 3, OF return [where v = 3]], simp add: defs, simp add: defs)
    by (rule run_Nil)
qed

theorem feature_flag_agrees_witness:
  "\<exists>s b. run True [0, 1, 0, 1, 0, 1, 0] flag_new s \<and> flag_calls s 0 = Returned b \<and> b = True"
proof -
  have r: "flag_calls (demo_flag (Returned True) (Finish 3) 3) 0 = Returned True" by (simp add: demo_flag_def)
  from feature_flag_agrees [OF demo_flag_run r] demo_flag_run r show ?thesis by blast
qed

section \<open>Claims P256\<close>

text \<open>
  Properties of the fields of P-256: inversion in the base field, its quadratic extension and the scalar field, square
  roots, the extension through the quadratic extension, and scalars from digests.
\<close>

text \<open>
  The inversions of the three fields of P-256, two addition chains and the conjugate over the norm, map every element but
  zero to its inverse: both moduli are prime, and minus one is no square in the base field.
\<close>

theorem p256_inversions:
  "p256m2_exp x * x = (if x = (0 :: fp256) then 0 else 1) \<and>
   p256_2_mul_inv y * y = (if y = 0 then 0 else 1) \<and>
   scalar_mul_inv z * z = (if z = 0 then 0 else 1)"
  by (simp add: p256m2_exp_inverse p256_2_mul_inv_inverse scalar_mul_inv_inverse)

text \<open>
  C11: \<open>sqrt\<close> returns a square root of every square, and nothing for any other element: the candidate power and the trial
  squaring decide which elements are squares.
\<close>

theorem p256_sqrt_decides:
  "(p256_sqrt x = None) = (\<forall>y. y * y \<noteq> x) \<and> (case p256_sqrt x of None \<Rightarrow> True | Some y \<Rightarrow> y * y = x)"
  using p256_sqrt_total p256_sqrt_Some by (auto split: option.split)

text \<open>
  C10: The dictionary of the P-256 base field satisfies every law the proof system asks of a field: encodings are canonical, the
  constants are the inverses they should be, and the extension is a Reed-Solomon code of up to \<open>2 ^ 31\<close> columns.
\<close>

theorem p256_satisfies_interfaces:
  "field_codec p256_ops \<and> subfield_codec p256_ops \<and> sumcheck_field p256_ops \<and>
   reed_solomon p256_ops (codeword_at of_nat) (\<lambda>m. m \<le> 2 ^ 31)"
proof (intro conjI)
  have "short_enough = (\<lambda>m. m \<le> 2 ^ 31)" by (simp add: fun_eq_iff short_enough_def)
  then show "reed_solomon p256_ops (codeword_at of_nat) (\<lambda>m. m \<le> 2 ^ 31)" using p256_code.reed_solomon_axioms by simp
qed (rule p256_codec.field_codec_axioms p256_subfield.subfield_codec_axioms p256_sumcheck.sumcheck_field_axioms)+

text \<open>
  C9: Extending nodes of the P-256 base field through the quadratic extension never leaves the base field: all imaginary parts
  of the extended nodes are zero, as the debug assertion of the source expects, and the real parts that are returned
  are the values at \<open>0, 1, 2, ...\<close> of one polynomial with no more coefficients than nodes.
\<close>

theorem p256_extension_interpolates:
  assumes "0 < n" "n \<le> m" "m \<le> 2 ^ 31" "length xs = n"
  shows "\<exists>f ys. poly_below n f \<and> (\<forall>i \<in> {..<n}. f (of_nat i) = xs ! i) \<and>
    extend_p p256_2_mul_inv p256_2_ntt n m (map (\<lambda>elem. p256_2_new elem 0) xs) = Inr ys \<and>
    (\<forall>y \<in> set ys. qe_imag (p256_2_inner y) = 0) \<and>
    p256_extend n m xs = Inr (map (\<lambda>i. f (of_nat i)) [0..<m])"
proof (intro exI conjI)
  let ?f = "\<lambda>x. \<Sum>i < n. xs ! i * lagrange_term of_nat n i x"
  have inj: "inj_on (of_nat :: nat \<Rightarrow> fp256) {..<n}" using assms(2,3) by (intro p256_of_nat_inj) simp
  show "poly_below n ?f" "\<forall>i \<in> {..<n}. ?f (of_nat i) = xs ! i" using interpolation [OF inj] by blast+
  show "extend_p p256_2_mul_inv p256_2_ntt n m (map (\<lambda>elem. p256_2_new elem 0) xs) =
      Inr (map (\<lambda>k. p256_2_new (?f (of_nat k)) 0) [0..<m])"
    "p256_extend n m xs = Inr (map (\<lambda>i. ?f (of_nat i)) [0..<m])"
    by (rule p256_extend_lagrange [OF assms])+
qed (simp add: p256_2_new_def)

theorem p256_extension_interpolates_witness:
  "\<exists>f. poly_below 2 f \<and> f 0 = p256_of_int 5 \<and> p256_extend 2 7 [p256_of_int 5, p256_of_int 9] = Inr (map (\<lambda>i. f (of_nat i)) [0..<7])"
proof -
  obtain f where f: "poly_below 2 f" "\<forall>i \<in> {..<2}. f (of_nat i) = [p256_of_int 5, p256_of_int 9] ! i"
    "p256_extend 2 7 [p256_of_int 5, p256_of_int 9] = Inr (map (\<lambda>i. f (of_nat i)) [0..<7])"
    using p256_extension_interpolates [of 2 7 "[p256_of_int 5, p256_of_int 9]"] by auto
  have "0 \<in> {..<2 :: nat}" by simp
  then have "f (of_nat 0) = [p256_of_int 5, p256_of_int 9] ! 0" using f(2) by blast
  then show ?thesis using f(1,3) by auto
qed

text \<open>
  A digest of 32 bytes always becomes a scalar, the number it encodes in big-endian order modulo the order of the group: one
  conditional subtraction on two words with a borrow suffices, and decoding the difference cannot fail.
\<close>

theorem scalar_from_hash_total:
  assumes "length hash = 32"
  shows "scalar_from_hash hash = Some (scalar_of_int (int (le_value (rev hash))))"
  by (rule scalar_from_hash_mod [OF assms])

lemma le_value_ones: "int (le_value (replicate n 255)) = 256 ^ n - 1"
proof (induction n)
  case (Suc n)
  have "unat (255 :: byte) = 255" by simp
  with Suc show ?case by (simp only: replicate_Suc le_value.simps of_nat_add of_nat_mult power_Suc) simp
qed simp

theorem scalar_from_hash_total_witness:
  "scalar_from_hash (replicate 32 255) = Some (scalar_of_int (2 ^ 256 - 1))"
proof -
  have "int (le_value (rev (replicate 32 255))) = 2 ^ 256 - 1" by (simp add: le_value_ones)
  then show ?thesis using scalar_from_hash_total [of "replicate 32 255"] by simp
qed

end
