(* ===== verification/Claims_Protocol.thy ===== *)
theory Claims_Protocol
  imports Complex_Main Sparse_Order Demo Merkle Transcript_Proofs Field_P128 Circuit
begin

text \<open>
  The properties of the arrays of the sumcheck protocol: dense arrays and their bindings, the
  \<open>bindeq\<close> array, and the sparse array of a layer with its bindings, its compaction and its order.
\<close>

text \<open>
  The in-place binding and the iterator binding of a dense array yield the same array, for
  every challenge, the errors included.
\<close>

theorem bindings_agree: "bind_array F xs b = bind_iter F xs b"
  by (rule bind_array_bind_iter)

text \<open>
  Binding a dense array at all coordinates of a point, one after the other and in place, leaves
  at index 0 the multilinear extension of the array at that point.
\<close>

theorem bind_all_multilinear:
  assumes "sumcheck_field F" "bind_all F xs A = Inr B"
  shows "element B 0 = (\<Sum>j < 2 ^ length xs. eq_weight xs j * element A j)"
  by (simp add: sumcheck_field.bind_all_bindv [OF assms] bindv_eq_weight)

definition rational_ops :: "rat field_ops" where
  "rational_ops =
     \<lparr>fo_num_bits = 0, fo_field_id = FP128, fo_encode = (\<lambda>_. []), fo_try_from = (\<lambda>_. None),
      fo_in_subfield = (\<lambda>_. True), fo_encode_sub = (\<lambda>_. Inr []), fo_decode_sub = (\<lambda>bs. Inr (0, bs)),
      fo_id_prefix = [], fo_large_characteristic = True, fo_p2 = 2, fo_p2_inv = 1 / 2,
      fo_one_minus_p2_inv = - 1, fo_p2_squared_minus_p2_inv = 1 / 2,
      fo_extend = (\<lambda>n m xs. Inr xs)\<rparr>"

lemma rational_sumcheck_field: "sumcheck_field rational_ops"
  by unfold_locales (simp_all add: rational_ops_def)

theorem bind_all_multilinear_witness:
  "bind_all rational_ops [2, 3] [1, 5, 7] = Inr [- 39] \<and>
   element [- 39 :: rat] 0 = (\<Sum>j < 2 ^ length [2, 3 :: rat]. eq_weight [2, 3] j * element [1, 5, 7] j)"
proof -
  have b: "bind_all rational_ops [2, 3] [1, 5, 7] = Inr [- 39]"
    by (simp add: bind_all_def bind_array_bind_iter bind_iter_def bound_slow_path_def element_def
        div_ceil_def upt_rec)
  from b bind_all_multilinear [OF rational_sumcheck_field b] show ?thesis by (rule conjI)
qed

text \<open>
  The array built by \<open>bindeq\<close>, which fills its buffer from the back to the front, has one entry
  per point of the hypercube: the product weight of the first point plus the multiple by \<open>s\<close> of
  that of the second.
\<close>

theorem bindeq_entries:
  assumes "length xs = length ys"
  shows "bindeq xs ys s = map (\<lambda>j. eq_weight xs j + s * eq_weight ys j) [0..<2 ^ length xs]"
  by (rule nth_equalityI) (use assms in \<open>simp_all add: length_bindeq bindeq_nth\<close>)

theorem bindeq_entries_witness: "bindeq [2] [5] 3 = [- 13, 17 :: rat]"
  using bindeq_entries [of "[2 :: rat]" "[5]" 3] by (simp add: upt_rec)

text \<open>
  Interleaving the bits of two wire indices puts bit \<open>i\<close> of the left one at position
  \<open>2 * i\<close> and bit \<open>i\<close> of the right one at \<open>2 * i + 1\<close>; no bit is lost.
\<close>

theorem interleave_bits:
  "bit (interleave right left) n \<longleftrightarrow>
     n < 128 \<and> (if even n then bit left (n div 2) else bit right (n div 2))"
  by (rule bit_interleave)

text \<open>
  C38: Binding one hand of the sparse array, in place and merging the neighbours, never fails and
  binds that hand of the array it stands for, whatever the order of its elements.
\<close>

theorem bind_hand_binds:
  assumes "gate_bound xs"
  shows "\<exists>ys. bind_hand h x xs = Inr ys \<and> gate_bound ys \<and>
    (\<forall>i v. hand_denote h ys 0 i v = bind_fun x (\<lambda>k. hand_denote h xs 0 k v) i)"
  using assms by (auto simp: bind_hand_bound_quads bound_quads_gate bound_quads_denote)

theorem bind_hand_binds_witness:
  "\<exists>ys. bind_hand HLeft (3 :: rat) [sparse_quad_new 0 HLeft 0 1 5, sparse_quad_new 0 HLeft 1 1 7] = Inr ys \<and>
    gate_bound ys"
  using bind_hand_binds [of "[sparse_quad_new 0 HLeft 0 1 5, sparse_quad_new 0 HLeft 1 1 7]" HLeft 3]
  by (simp add: gate_bound_def) blast

text \<open>
  Binding the gates of the sparse array to the two points of \<open>bindeq\<close> and compacting it sums,
  for every pair of wires, the weighted coefficients of all gates.
\<close>

theorem bindv_gate_sums_gates:
  assumes "\<forall>e \<in> set xs. sq_gate_index e < 2 ^ length b0" "length b0 = length b1"
  shows "\<exists>ys. bindv_gate b0 b1 alpha xs = Inr ys \<and>
    (\<forall>l r. sq_denote ys 0 l r =
       (\<Sum>g < 2 ^ length b0. (eq_weight b0 g + alpha * eq_weight b1 g) * sq_denote xs g l r))"
proof -
  obtain ys where "bindv_gate b0 b1 alpha xs = Inr ys"
    using assms(1) by (cases xs) (simp_all add: bindv_gate_eq)
  with bindv_gate_hand_denote [OF assms this, of HLeft] show ?thesis
    by (simp add: hand_denote_Left)
qed

theorem bindv_gate_sums_gates_witness:
  "\<exists>ys. bindv_gate [2] [5] 3 [sparse_quad_new 0 HLeft 0 1 1, sparse_quad_new 1 HLeft 0 1 (10 :: rat)] = Inr ys \<and>
    sq_denote ys 0 0 1 = 157"
proof -
  have "\<exists>ys. bindv_gate [2] [5] 3 [sparse_quad_new 0 HLeft 0 1 1, sparse_quad_new 1 HLeft 0 1 (10 :: rat)] = Inr ys \<and>
    sq_denote ys 0 0 1 = (\<Sum>g < 2 ^ 1. (eq_weight [2] g + 3 * eq_weight [5] g) *
      sq_denote [sparse_quad_new 0 HLeft 0 1 1, sparse_quad_new 1 HLeft 0 1 10] g 0 1)"
    using bindv_gate_sums_gates [of "[sparse_quad_new 0 HLeft 0 1 1, sparse_quad_new 1 HLeft 0 1 10]"
        "[2 :: rat]" "[5]" 3] by simp blast
  then show ?thesis by (simp add: sq_denote_def numeral_2_eq_2)
qed

text \<open>
  From a sparse array in the strict order of its interleaved wires, binding the two hands in
  turn as often as the indices have bits leaves exactly one element, at gate and wires 0: the final
  state the protocol asserts.
\<close>

theorem alternating_bindings_end_in_one:
  assumes "gate_bound xs" "sorted_wrt (<) (map (hkey HLeft) xs)" "xs \<noteq> []"
    and "\<forall>e \<in> set xs. hkey HLeft e < 2 ^ length cs"
  shows "\<exists>c. bind_alternating HLeft cs xs = Inr [sparse_quad_new 0 HLeft 0 0 c]"
proof -
  obtain ys where ys: "bind_alternating HLeft cs xs = Inr ys" "length ys = 1"
    "\<forall>e \<in> set ys. sq_gate_index e = 0 \<and> sq_left_wire_index e = 0 \<and> sq_right_wire_index e = 0"
    using bind_alternating_single [OF assms(1,2,4)] assms(3) by blast
  then obtain y where "ys = [y]" by (cases ys) auto
  with ys show ?thesis by (cases y) auto
qed

theorem alternating_bindings_end_in_one_witness:
  "\<exists>c. bind_alternating HLeft [2, 3] [sparse_quad_new 0 HLeft 0 0 5, sparse_quad_new 0 HLeft 1 1 (7 :: rat)] =
    Inr [sparse_quad_new 0 HLeft 0 0 c]"
proof -
  have "il 1 1 = 3" using il_rec [of 1 1] il_rec [of 0 1] il_rec [of 1 0] by simp
  then show ?thesis
    by (intro alternating_bindings_end_in_one) (simp_all add: gate_bound_def hkey_def)
qed

text \<open>
  The intermediate array of a round has, at every wire of the bound hand, the sum over the
  wires of the other hand of the coefficient times the value of the other wire.
\<close>

theorem compute_a_sums:
  assumes "gate_bound xs"
    and "wires_in_range h (length (hand_of h ws)) (length (hand_of (opposite h) ws)) xs"
  shows "compute_a h ws xs = Inr (map (\<lambda>i. \<Sum>v < length (hand_of (opposite h) ws).
    hand_denote h xs 0 i v * hand_of (opposite h) ws ! v) [0..<length (hand_of h ws)])"
proof -
  obtain A where "compute_a h ws xs = Inr A" "length A = length (hand_of h ws)"
    "\<And>i. i < length A \<Longrightarrow> A ! i = (\<Sum>v < length (hand_of (opposite h) ws).
       hand_denote h xs 0 i v * hand_of (opposite h) ws ! v)"
    by (rule compute_a_hand_denote [OF assms]) blast
  then show ?thesis by (auto intro!: nth_equalityI)
qed

theorem compute_a_sums_witness:
  "compute_a HLeft ([1, 2], [10, 20]) [sparse_quad_new 0 HLeft 0 1 3, sparse_quad_new 0 HLeft 1 0 (4 :: rat)] =
    Inr (map (\<lambda>i. \<Sum>v < length (hand_of HRight ([1, 2], [10, 20 :: rat])). hand_denote HLeft
      [sparse_quad_new 0 HLeft 0 1 3, sparse_quad_new 0 HLeft 1 0 (4 :: rat)] 0 i v *
        hand_of HRight ([1, 2], [10, 20]) ! v) [0..<length (hand_of HLeft ([1, 2], [10, 20 :: rat]))])"
proof -
  let ?xs = "[sparse_quad_new 0 HLeft 0 1 3, sparse_quad_new 0 HLeft 1 0 (4 :: rat)]"
  have "gate_bound ?xs" "wires_in_range HLeft (length (hand_of HLeft ([1, 2], [10, 20 :: rat])))
      (length (hand_of (opposite HLeft) ([1, 2], [10, 20 :: rat]))) ?xs"
    by (simp_all add: gate_bound_def wires_in_range_def)
  from compute_a_sums [OF this] show ?thesis by (simp only: opposite.simps)
qed

text \<open>
  A delta-coded size decodes, against the same predecessor, to the size that was encoded, and
  leaves the rest of the input.
\<close>

theorem size_delta_roundtrip:
  assumes "size_encode_delta s p = Inr bs"
  shows "size_decode_delta p (bs @ rest) = Inr (s, rest)"
  by (rule size_delta_decode_encode [OF assms])

theorem size_delta_roundtrip_witness:
  "size_encode_delta 7 5 = Inr (le_bytes 3 4) \<and> size_decode_delta 5 (le_bytes 3 4 @ [9]) = Inr (7, [9])"
proof -
  have "checked_double 2 = Inr 4" "size_encode 4 = Inr (le_bytes 3 4)"
    by (simp_all add: checked_double_def size_encode_def del: le_bytes.simps)
  then have e: "size_encode_delta 7 5 = Inr (le_bytes 3 4)"
    by (simp add: size_encode_delta_def del: le_bytes.simps)
  from e size_delta_roundtrip [OF e] show ?thesis by (rule conjI)
qed

text \<open>
  Encoded arrays of a self-delimiting codec decode to the same elements and leave the rest:
  stated for the arrays of 32-byte digests of the proofs.
\<close>

theorem digest_array_roundtrip:
  assumes "list_all (\<lambda>d. length d = 32) ds" "encode_array digest_encode ds = Inr bs"
  shows "decode_array digest_decode (bs @ rest) = Inr (ds, rest)"
  by (rule digest.array_roundtrip [OF assms])

theorem digest_array_roundtrip_witness:
  "\<exists>bs. encode_array digest_encode [replicate 32 7] = Inr bs \<and>
    decode_array digest_decode (bs @ [9]) = Inr ([replicate 32 7], [9])"
proof -
  have "\<exists>bs. encode_array digest_encode [replicate 32 7] = Inr bs"
    by (auto simp: encode_array_def digest_encode_def u8_fixed_encode size_encode_def)
  then show ?thesis using digest_array_roundtrip [of "[replicate 32 7]" _ "[9]"] by fastforce
qed

section \<open>Claims Transcript\<close>

text \<open>
  The properties of the hashing layer: the Merkle tree with its inclusion proofs, the messages
  written to the transcript, its pseudo-random function and the naturals sampled from it.
\<close>

text \<open>
  C33: The inclusion proof that a built tree with at least one leaf gives for any list of its leaves is accepted by the
  verifier, against the root of the tree and the leaves that were set before it was built, except for the empty list,
  whose proof is refused.
\<close>

theorem merkle_proofs_accepted:
  assumes "length (mt_digests t) = 2 * n" "0 < n" "list_all (\<lambda>i. i < n) idx"
  shows "\<exists>pf rt. merkle_prove (merkle_build sha t) idx = Inr pf \<and>
    merkle_root (merkle_build sha t) = Inr rt \<and>
    merkle_verify sha rt n (map (\<lambda>i. mt_digests t ! (n + i)) idx) idx pf =
      (if idx = [] then Inl (Fail ''partial tree root does not match'') else Inr ())"
proof (cases "idx = []")
  case True
  note wf = merkle_build_wf(1) [OF assms(1), of sha]
  then have "length (mt_digests (merkle_build sha t)) = 2 * n" by (simp add: merkle_wf_def)
  then have "\<exists>rt. merkle_root (merkle_build sha t) = Inr rt" using assms(2) by (simp add: merkle_root_def nth_res_def)
  moreover have "\<exists>pf. merkle_prove (merkle_build sha t) [] = Inr pf"
    by (simp add: merkle_prove_def mark_tree_def)
  ultimately show ?thesis using True assms(2) merkle_verify_no_indices by auto
next
  case False
  have "map (leaf_at (merkle_build sha t)) idx = map (\<lambda>i. mt_digests t ! (n + i)) idx"
    using assms(3) by (simp add: merkle_build_wf(2) [OF assms(1)] list_all_iff)
  from merkle_complete [OF merkle_build_wf(1) [OF assms(1), of sha] False assms(3), unfolded this] False show ?thesis by simp
qed

theorem merkle_proofs_accepted_witness:
  "\<exists>pf rt. merkle_prove (merkle_build rev \<lparr>mt_digests = [[], [], [], [1], [2], [3]], mt_nonces = []\<rparr>) [2, 0] = Inr pf \<and>
    merkle_root (merkle_build rev \<lparr>mt_digests = [[], [], [], [1], [2], [3]], mt_nonces = []\<rparr>) = Inr rt \<and>
    merkle_verify rev rt 3 [[3], [1]] [2, 0] pf = Inr ()"
  using merkle_proofs_accepted [of "\<lparr>mt_digests = [[], [], [], [1], [2], [3]], mt_nonces = []\<rparr>" 3 "[2, 0]" rev]
  by simp

text \<open>
  C32: An accepted inclusion proof against the root of a built tree shows the leaves of that tree: there is at least one
  index, as many nodes as indices, and for every index the last node listed for it is the tree's leaf there, so that with
  distinct indices every node is the leaf at its index; or the verifier's partial tree holds, at an inner node, two different
  inputs of the hash with the same output. A node whose index is listed again later is not compared with anything.
\<close>

theorem merkle_proofs_bind:
  assumes "length (mt_digests t) = 2 * n" "list_all (\<lambda>d. length d = 32) (mt_digests (merkle_build sha t))"
    and "\<And>x. length (sha x) = 32" "merkle_root (merkle_build sha t) = Inr rt"
    and "merkle_verify sha rt n nodes idx pf = Inr ()"
    and "list_all (\<lambda>d. length d = 32) nodes" "list_all (\<lambda>d. length d = 32) pf"
  shows "(idx \<noteq> [] \<and> length nodes = length idx \<and>
      (\<forall>k < length idx. idx ! k \<notin> set (drop (Suc k) idx) \<longrightarrow> nodes ! k = mt_digests t ! (n + idx ! k)) \<and>
      (distinct idx \<longrightarrow> nodes = map (\<lambda>i. mt_digests t ! (n + i)) idx)) \<or>
    merkle_collision sha n (merkle_build sha t) nodes idx pf"
proof -
  have rng: "list_all (\<lambda>i. i < n) idx"
    using assms(5) by (auto simp: merkle_verify_def list_ex_iff list_all_iff not_le split: if_splits)
  then have leaves: "map (leaf_at (merkle_build sha t)) idx = map (\<lambda>i. mt_digests t ! (n + i)) idx"
    "\<And>k. k < length idx \<Longrightarrow> leaf_at (merkle_build sha t) (idx ! k) = mt_digests t ! (n + idx ! k)"
    by (simp_all add: merkle_build_wf(2) [OF assms(1)] list_all_iff)
  have "idx \<noteq> []"
  proof
    assume "idx = []"
    moreover from this have "nodes = []" using assms(5) by (auto simp: merkle_verify_def split: if_splits)
    ultimately show False using assms(5) merkle_verify_no_indices by auto
  qed
  with merkle_sound [OF merkle_build_wf(1) [OF assms(1), of sha] assms(2,3,5,4,6,7)]
    merkle_sound_distinct [OF merkle_build_wf(1) [OF assms(1), of sha] assms(2,3,5,4,6,7)]
  show ?thesis by (auto simp: leaves)
qed

theorem merkle_proofs_bind_witness:
  "merkle_verify pad_hash (replicate 32 1) 2 [replicate 32 2] [1] [replicate 32 1] = Inr () \<and>
   ([replicate 32 2] = [replicate 32 (2 :: byte)] \<or>
    merkle_collision pad_hash 2 (merkle_build pad_hash
      \<lparr>mt_digests = [replicate 32 0, replicate 32 0, replicate 32 1, replicate 32 2], mt_nonces = []\<rparr>)
      [replicate 32 2] [1] [replicate 32 1])"
proof -
  let ?t = "\<lparr>mt_digests = [replicate 32 0, replicate 32 0, replicate 32 1, replicate 32 (2 :: byte)],
    mt_nonces = []\<rparr>"
  let ?nodes = "[replicate 32 2] :: node list" and ?idx = "[1] :: nat list"
  have b: "mt_digests (merkle_build pad_hash ?t) =
      [replicate 32 0, replicate 32 1, replicate 32 1, replicate 32 2]"
    by (simp add: merkle_build_def leaf_count_def tree_size_def build_step_def hash_children_def pad_hash_def upt_rec)
  have v: "merkle_verify pad_hash (replicate 32 1) 2 ?nodes ?idx [replicate 32 1] = Inr ()"
    by code_simp
  have "(?idx \<noteq> [] \<and> length ?nodes = length ?idx \<and>
      (\<forall>k < length ?idx. ?idx ! k \<notin> set (drop (Suc k) ?idx) \<longrightarrow> ?nodes ! k = mt_digests ?t ! (2 + ?idx ! k)) \<and>
      (distinct ?idx \<longrightarrow> ?nodes = map (\<lambda>i. mt_digests ?t ! (2 + i)) ?idx)) \<or>
      merkle_collision pad_hash 2 (merkle_build pad_hash ?t) ?nodes ?idx [replicate 32 1]"
    by (rule merkle_proofs_bind [where rt = "replicate 32 1"])
      (use b v in \<open>simp_all add: merkle_root_def pad_hash_def\<close>)
  with v show ?thesis by simp
qed

text \<open>
  Writing the zeros of \<open>write_zero_array\<close> chunk by chunk leaves the transcript exactly as
  writing the array of that many zero bytes does, for every count and in both modes.
\<close>

theorem zero_array_is_byte_array: "write_zero_array n t = write_byte_array (replicate n 0) t"
  by (rule write_zero_array_eq)

text \<open>
  C39: In normal mode the bytes written determine the messages: two sequences of messages over the
  128-bit field that were written from the same transcript and left the same bytes are equal.
\<close>

theorem written_bytes_determine_messages:
  assumes "tr_mode t = Normal" "fold_res (write_message p128_ops) ms t = Inr u"
    and "fold_res (write_message p128_ops) ms' t = Inr u'" "tr_written u = tr_written u'"
  shows "ms = ms'"
proof -
  from write_messages_bytes [OF assms(2)] write_messages_bytes [OF assms(3)] assms(1,4)
  show ?thesis by (auto intro: field_codec.messages_injective [OF p128.field_codec_axioms])
qed

theorem written_bytes_determine_messages_witness:
  "fold_res (write_message p128_ops) [MBytes [1, 2], MElement 3] demo_transcript \<noteq>
     fold_res (write_message p128_ops) [MBytes [1], MBytes [2], MElement 3] demo_transcript"
proof
  let ?ms = "[MBytes [1, 2], MElement (3 :: fp128)]" and ?ms' = "[MBytes [1], MBytes [2], MElement (3 :: fp128)]"
  assume e: "fold_res (write_message p128_ops) ?ms demo_transcript = fold_res (write_message p128_ops) ?ms' demo_transcript"
  have "\<exists>u. fold_res (write_message p128_ops) ?ms demo_transcript = Inr u"
    by (simp add: write_byte_array_def begin_write_byte_array_def length_prefix_def)
  then obtain u where u: "fold_res (write_message p128_ops) ?ms demo_transcript = Inr u" ..
  have "?ms = ?ms'"
    by (rule written_bytes_determine_messages [OF _ u u [unfolded e] refl]) (simp add: demo_transcript_def)
  then show False by simp
qed

text \<open>
  The pseudo-random function is a stream: reading \<open>n\<close> bytes yields bytes \<open>n\<close> of it from the
  current position, each one the byte of the AES block of its position, whatever was read before.
\<close>

theorem fsprf_is_stream:
  "fst (fsprf_read C k (fsprf_new seed)) @ fst (fsprf_read C n (snd (fsprf_read C k (fsprf_new seed)))) =
     map (\<lambda>i. cr_aes C seed (le_bytes 16 (i div 16)) ! (i mod 16)) [0..<k + n]"
proof -
  obtain cs g where g: "fsprf_read C k (fsprf_new seed) = (cs, g)" by fastforce
  note r = fsprf_read_stream [OF fsprf_new_ok g]
  obtain bs f where f: "fsprf_read C n g = (bs, f)" by fastforce
  from fsprf_read_stream(1) [OF r(4) f] r(1-3) g f show ?thesis
    by (simp add: fsprf_new_def upt_add_eq_append [of 0] fsprf_byte_def fsprf_current_block_def fun_eq_iff)
qed

text \<open>
  C40: The sampled naturals without replacement are as many as asked for, pairwise distinct and
  below the bound, and the call succeeds only for a bound above the number of draws.
\<close>

theorem naturals_distinct_below:
  assumes "generate_naturals_without_replacement C bound cnt t = Inr (ns, t')"
  shows "length ns = cnt \<and> distinct ns \<and> set ns \<subseteq> {..<bound} \<and> cnt < bound"
  using naturals_without_replacement [OF assms] by simp

theorem naturals_distinct_below_witness:
  "\<exists>ns t'. generate_naturals_without_replacement demo_crypto 5 3 demo_transcript = Inr (ns, t') \<and>
    length ns = 3 \<and> distinct ns \<and> set ns \<subseteq> {..<5}"
proof -
  have "\<exists>ns t'. fold_res (shuffle_step demo_crypto 5) [0..<3] ([0..<5], demo_transcript) = Inr (ns, t')"
    by (rule shuffle_total, rule demo_natural, assumption) simp_all
  then have "\<exists>ns t'. generate_naturals_without_replacement demo_crypto 5 3 demo_transcript = Inr (ns, t')"
    by (auto simp: generate_naturals_without_replacement_def)
  then show ?thesis using naturals_distinct_below by blast
qed

text \<open>
  Naturals without replacement are always produced when the bound exceeds the count and the
  sampling of one natural returns: no index leaves the list.
\<close>

theorem naturals_total:
  assumes "\<And>f m. 0 < m \<Longrightarrow> \<exists>r. natural_loop C m (natural_num_bits m) f = Some r" "cnt < bound"
  shows "\<exists>ns t'. generate_naturals_without_replacement C bound cnt t = Inr (ns, t')"
  using shuffle_total [OF assms(1), of "[0..<bound]" bound cnt 0 t] assms(2)
  by (auto simp: generate_naturals_without_replacement_def)

theorem naturals_total_witness:
  "\<exists>ns t'. generate_naturals_without_replacement demo_crypto 7 4 demo_transcript = Inr (ns, t')"
  by (rule naturals_total, rule demo_natural, assumption) simp

section \<open>Claims Circuit\<close>

text \<open>
  The properties of circuits and of the witness vector: the wire format, evaluation, the sumcheck
  relation of a layer, the layout of the witness, its padding and the symbolic constraints.
\<close>

text \<open>
  C37: An encoded circuit decodes to the same circuit and leaves the rest of the input, over every
  field whose elements have a fixed-size encoding.
\<close>

theorem circuit_roundtrip:
  assumes "field_codec F" "circuit_wf c" "circuit_encode F c = Inr bs"
  shows "circuit_decode F (bs @ rest) = Inr (c, rest)"
  by (rule codec.roundtrip [OF field_codec.circuit_codec [OF assms(1)] assms(2,3)])

definition small_circuit :: "fp128 circuit" where
  "small_circuit =
     \<lparr>c_version = 1, c_num_outputs = 1, c_num_copies = 1, c_num_public_inputs = 1,
      c_subfield_boundary = 0, c_num_inputs = 2, c_num_layers = 1, c_constant_table = [5],
      c_layers = [\<lparr>layer_logw = 1, layer_num_wires = 2,
        layer_quads = [\<lparr>gate_index = 0, left_wire_index = 0, right_wire_index = 1, const_table_index = 0\<rparr>]\<rparr>],
      c_id = replicate 32 9\<rparr>"

theorem circuit_roundtrip_witness:
  "\<exists>bs. circuit_encode p128_ops small_circuit = Inr bs \<and>
    circuit_decode p128_ops (bs @ [7]) = Inr (small_circuit, [7])"
proof -
  have wf: "circuit_wf small_circuit" by (simp add: circuit_wf_def layer_wf_def small_circuit_def)
  have "is_ok (circuit_encode p128_ops small_circuit)"
    by (simp add: circuit_encode_def small_circuit_def usize_encode_def size_of_usize_def size_encode_def
        encode_array_def layer_encode_def quad_encode_with_param_def usize_encode_delta_def quad_default_def
        size_encode_delta_def checked_double_def fe_encode_def u8_encode_def field_id_encode_def
        digest_encode_def u8_fixed_encode p128_ops_def del: le_bytes.simps)
  then obtain bs where "circuit_encode p128_ops small_circuit = Inr bs" by (auto simp: is_ok_iff)
  with circuit_roundtrip [OF p128.field_codec_axioms wf this] show ?thesis by blast
qed

text \<open>
  C34: Every layer of an evaluation satisfies the relation that sumcheck proves: the value of each
  output wire is the double sum, over all pairs of input wires, of the combined quad times the two
  wires, for every \<open>beta\<close> that multiplies the assertions.
\<close>

theorem evaluation_satisfies_layers:
  assumes "evaluate c inputs = Inr ev" "c_num_layers c = length (c_layers c)"
    and "length (c_layers c) < 2 ^ 64" "i < length (c_layers c)"
    and "q_z_disjoint c (c_layers c ! i)" "combined_quad c i beta = Inr qz"
    and "g < next_width c i"
  shows "ev_wires ev ! i ! g = (\<Sum>l < length (ev_wires ev ! Suc i). \<Sum>r < length (ev_wires ev ! Suc i).
    sq_denote qz g l r * ev_wires ev ! Suc i ! l * ev_wires ev ! Suc i ! r)"
  by (rule layer_relation [OF evaluate_layers(4) [OF assms(1-4)] assms(4-7)])

theorem evaluation_satisfies_layers_witness:
  "\<exists>qz. combined_quad demo_circuit 0 9 = Inr qz \<and>
    (0 :: fp128) = (\<Sum>l < length [1, 2 :: fp128]. \<Sum>r < length [1, 2 :: fp128].
      sq_denote qz 0 l r * [1, 2] ! l * [1, 2] ! r)"
proof -
  have "is_ok (combined_quad demo_circuit 0 9)"
    by (simp add: combined_quad_def combined_quad_element_def circuit_constant_def nth_opt_def demo_circuit_def)
  then obtain qz where qz: "combined_quad demo_circuit 0 9 = Inr qz" by (auto simp: is_ok_iff)
  have "ev_wires demo_evaluation ! 0 ! 0 = (\<Sum>l < length (ev_wires demo_evaluation ! Suc 0).
      \<Sum>r < length (ev_wires demo_evaluation ! Suc 0).
      sq_denote qz 0 l r * ev_wires demo_evaluation ! Suc 0 ! l * ev_wires demo_evaluation ! Suc 0 ! r)"
    by (rule evaluation_satisfies_layers [OF demo_evaluate demo_circuit_facts(1,3) _ _ qz])
      (use demo_circuit_facts(9) in \<open>simp_all add: demo_circuit_def next_width_def\<close>)
  with qz show ?thesis by (auto simp: demo_evaluation_def)
qed

text \<open>
  C35: On a circuit that meets the invariants of the source's checker, and on inputs of the right
  number that start with 1, evaluation never panics: it yields an evaluation, or reports a failed
  in-circuit assertion.
\<close>

theorem evaluation_never_panics:
  assumes "c_num_layers c = length (c_layers c)" "length (c_layers c) < 2 ^ 64"
    and "\<And>i. i < length (c_layers c) \<Longrightarrow> layer_invariants c i"
    and "inputs ! 0 = 1" "inputs \<noteq> []"
    and "c_layers c \<noteq> [] \<Longrightarrow> length inputs = unat (layer_num_wires (last (c_layers c)))"
  shows "evaluate c inputs = Inl assertion_error \<or> (\<exists>ev. evaluate c inputs = Inr ev)"
  by (rule evaluate_total [OF assms])

theorem evaluation_never_panics_witness:
  "evaluate demo_circuit [1, 5] = Inl assertion_error \<or> (\<exists>ev. evaluate demo_circuit [1, 5] = Inr ev)"
  by (rule evaluation_never_panics)
    (use demo_circuit_facts(1,3) demo_layer_invariants in \<open>simp_all add: demo_circuit_def\<close>)

text \<open>
  The indices of the witness layout are a bijection: every position of the witness vector
  is the index of exactly one private input, polynomial evaluation or wire value, and no index lies
  outside the vector.
\<close>

theorem witness_layout_bijective:
  "((\<exists>s. slot_index wl s = Inr i) = (i < layout_length wl)) \<and>
   ((\<exists>!s. slot_index wl s = Inr i) = (i < layout_length wl))"
  using slot_index_bound slot_index_inj slot_index_surj by metis

text \<open>
  The filled witness of a circuit satisfies all of its quadratic constraints, one per layer, and
  every index of a constraint lies in the witness.
\<close>

theorem witness_satisfies_quadratic_constraints:
  assumes "fill_witness (layout_from_circuit c) xs f g = (w, g')"
    and "length xs = num_private_inputs c" "c_num_layers c = length (c_layers c)"
  shows "\<exists>qs. quadratic_constraints c (layout_from_circuit c) = Inr qs \<and> length qs = c_num_layers c \<and>
    list_all (\<lambda>q. qc_x q < length (w_values w) \<and> qc_y q < length (w_values w) \<and>
      qc_z q < length (w_values w) \<and> quadratic_constraint_holds (nth (w_values w)) q) qs"
  by (rule quadratic_constraints_filled [OF assms])

theorem witness_satisfies_quadratic_constraints_witness:
  "\<exists>qs. quadratic_constraints demo_circuit (layout_from_circuit demo_circuit) = Inr qs \<and>
    list_all (quadratic_constraint_holds (nth (w_values demo_witness))) qs"
proof -
  have "length [2 :: fp128] = num_private_inputs demo_circuit"
    by (simp add: num_private_inputs_def demo_circuit_def usize_sub_def)
  from witness_satisfies_quadratic_constraints [OF demo_fill this demo_circuit_facts(1)]
  show ?thesis by (auto simp: list_all_iff)
qed

text \<open>
  The terms that a symbolic expression puts on the left-hand side of the constraints sum, at
  every assignment of the witness, to its symbolic part in its own constraint, and to 0 in any other.
\<close>

theorem expression_terms_sum:
  "lhs_sum W (expr_lhs_terms e) c = (if se_constraint_number e = c then expr_symbolic W e else 0)"
  by (rule expr_lhs_terms_sum)

end
