(* ===== verification/Sha256.thy ===== *)
theory Sha256
  imports Vectors Codec
begin

text \<open>
  SHA-256 of \<open>src/src/mdoc_zk/sha256.rs\<close>, without the witness: padding, message schedule, rounds and the digest. The
  eight words of the state are a tuple. The reference is the recurrence of FIPS 180-4, \<open>fips_schedule\<close> and
  \<open>fips_state\<close>; the array that the source fills is shown to hold the recurrence. Padding is shown to be injective.
\<close>

unbundle bit_operations_syntax

subsection \<open>Words\<close>

definition to_be_bytes :: "nat \<Rightarrow> nat \<Rightarrow> bytes" where
  "to_be_bytes n v = rev (le_bytes n v)"

definition u32_from_be_bytes :: "bytes \<Rightarrow> u32" where
  "u32_from_be_bytes bs = of_nat (le_value (rev bs))"

text \<open>\<open>as_chunks\<close>: the full chunks.\<close>

definition as_chunks :: "nat \<Rightarrow> 'a list \<Rightarrow> 'a list list" where
  "as_chunks n xs = map (\<lambda>i. take n (drop (i * n) xs)) [0..<length xs div n]"

type_synonym sha_state = "u32 \<times> u32 \<times> u32 \<times> u32 \<times> u32 \<times> u32 \<times> u32 \<times> u32"

definition initial_hash_value :: sha_state where
  "initial_hash_value =
     (0x6a09e667, 0xbb67ae85, 0x3c6ef372, 0xa54ff53a, 0x510e527f, 0x9b05688c, 0x1f83d9ab, 0x5be0cd19)"

definition sha_k :: "u32 list" where
  "sha_k =
     [0x428a2f98, 0x71374491, 0xb5c0fbcf, 0xe9b5dba5, 0x3956c25b, 0x59f111f1, 0x923f82a4, 0xab1c5ed5,
      0xd807aa98, 0x12835b01, 0x243185be, 0x550c7dc3, 0x72be5d74, 0x80deb1fe, 0x9bdc06a7, 0xc19bf174,
      0xe49b69c1, 0xefbe4786, 0x0fc19dc6, 0x240ca1cc, 0x2de92c6f, 0x4a7484aa, 0x5cb0a9dc, 0x76f988da,
      0x983e5152, 0xa831c66d, 0xb00327c8, 0xbf597fc7, 0xc6e00bf3, 0xd5a79147, 0x06ca6351, 0x14292967,
      0x27b70a85, 0x2e1b2138, 0x4d2c6dfc, 0x53380d13, 0x650a7354, 0x766a0abb, 0x81c2c92e, 0x92722c85,
      0xa2bfe8a1, 0xa81a664b, 0xc24b8b70, 0xc76c51a3, 0xd192e819, 0xd6990624, 0xf40e3585, 0x106aa070,
      0x19a4c116, 0x1e376c08, 0x2748774c, 0x34b0bcb5, 0x391c0cb3, 0x4ed8aa4a, 0x5b9cca4f, 0x682e6ff3,
      0x748f82ee, 0x78a5636f, 0x84c87814, 0x8cc70208, 0x90befffa, 0xa4506ceb, 0xbef9a3f7, 0xc67178f2]"

definition choice :: "u32 \<Rightarrow> u32 \<Rightarrow> u32 \<Rightarrow> u32" where
  "choice x y z = (x AND y) XOR (NOT x AND z)"

definition majority :: "u32 \<Rightarrow> u32 \<Rightarrow> u32 \<Rightarrow> u32" where
  "majority x y z = (x AND y) XOR (x AND z) XOR (y AND z)"

definition upper_sigma_0 :: "u32 \<Rightarrow> u32" where
  "upper_sigma_0 x = word_rotr 2 x XOR word_rotr 13 x XOR word_rotr 22 x"

definition upper_sigma_1 :: "u32 \<Rightarrow> u32" where
  "upper_sigma_1 x = word_rotr 6 x XOR word_rotr 11 x XOR word_rotr 25 x"

definition lower_sigma_0 :: "u32 \<Rightarrow> u32" where
  "lower_sigma_0 x = word_rotr 7 x XOR word_rotr 18 x XOR drop_bit 3 x"

definition lower_sigma_1 :: "u32 \<Rightarrow> u32" where
  "lower_sigma_1 x = word_rotr 17 x XOR word_rotr 19 x XOR drop_bit 10 x"

subsection \<open>Blocks\<close>

definition schedule_step :: "nat \<Rightarrow> u32 list \<Rightarrow> u32 list" where
  "schedule_step t schedule =
     schedule[t := lower_sigma_1 (schedule ! (t - 2)) + schedule ! (t - 7) + lower_sigma_0 (schedule ! (t - 15)) +
       schedule ! (t - 16)]"

definition message_schedule :: "bytes \<Rightarrow> u32 list" where
  "message_schedule message =
     (let schedule = zip_update (\<lambda>_ chunk. u32_from_be_bytes chunk) (replicate 16 0) (as_chunks 4 message) @ replicate 48 0
      in fold schedule_step [16..<64] schedule)"

fun sha_round :: "u32 \<Rightarrow> u32 \<Rightarrow> sha_state \<Rightarrow> sha_state" where
  "sha_round k_t w_t (a, b, c, d, e, f, g, h) =
     (let t1 = h + upper_sigma_1 e + choice e f g + k_t + w_t; t2 = upper_sigma_0 a + majority a b c
      in (t1 + t2, a, b, c, d + t1, e, f, g))"

fun add_state :: "sha_state \<Rightarrow> sha_state \<Rightarrow> sha_state" where
  "add_state (h0, h1, h2, h3, h4, h5, h6, h7) (a, b, c, d, e, f, g, h) =
     (h0 + a, h1 + b, h2 + c, h3 + d, h4 + e, h5 + f, h6 + g, h7 + h)"

definition process_block :: "bytes \<Rightarrow> sha_state \<Rightarrow> sha_state" where
  "process_block message_block hash_value =
     add_state hash_value
       (fold (\<lambda>(k_t, w_t) state. sha_round k_t w_t state) (zip sha_k (message_schedule message_block)) hash_value)"

fun state_list :: "sha_state \<Rightarrow> u32 list" where
  "state_list (a, b, c, d, e, f, g, h) = [a, b, c, d, e, f, g, h]"

definition serialize_hash_value :: "sha_state \<Rightarrow> digest" where
  "serialize_hash_value hash_value = concat (map (\<lambda>h. to_be_bytes 4 (unat h)) (state_list hash_value))"

subsection \<open>Messages\<close>

text \<open>The padded input and the number of its blocks; the multiplication by 8 is on \<open>u64\<close>.\<close>

definition pad_input :: "bytes \<Rightarrow> bytes \<times> nat" where
  "pad_input input =
     (let length_bytes = length input;
          length_bits = length_bytes * 8 mod 2 ^ 64;
          zero_bytes = 63 - (length_bytes + 8) mod 64
      in (input @ [0x80] @ replicate zero_bytes 0 @ to_be_bytes 8 length_bits, (length_bytes + 9 + zero_bytes) div 64))"

definition run_sha256 :: "bytes \<Rightarrow> digest" where
  "run_sha256 input =
     (let padded_input = fst (pad_input input)
      in serialize_hash_value (fold process_block (as_chunks 64 padded_input) initial_hash_value))"

subsection \<open>The reference\<close>

fun fips_schedule :: "bytes \<Rightarrow> nat \<Rightarrow> u32" where
  "fips_schedule m t =
     (if t < 16 then of_nat (\<Sum>i < 4. unat (m ! (4 * t + i)) * 256 ^ (3 - i))
      else lower_sigma_1 (fips_schedule m (t - 2)) + fips_schedule m (t - 7) + lower_sigma_0 (fips_schedule m (t - 15)) +
        fips_schedule m (t - 16))"

declare fips_schedule.simps [simp del]

fun fips_state :: "bytes \<Rightarrow> sha_state \<Rightarrow> nat \<Rightarrow> sha_state" where
  "fips_state m s 0 = s"
| "fips_state m s (Suc t) =
     (case fips_state m s t of (a, b, c, d, e, f, g, h) \<Rightarrow>
        let t1 = h + upper_sigma_1 e + choice e f g + sha_k ! t + fips_schedule m t
        in (t1 + (upper_sigma_0 a + majority a b c), a, b, c, d + t1, e, f, g))"

definition fips_block :: "bytes \<Rightarrow> sha_state \<Rightarrow> sha_state" where
  "fips_block m s = add_state s (fips_state m s 64)"

subsection \<open>The schedule and the rounds are the recurrence\<close>

lemma length_as_chunks [simp]: "length (as_chunks n xs) = length xs div n"
  by (simp add: as_chunks_def)

lemma nth_as_chunks: "i < length xs div n \<Longrightarrow> as_chunks n xs ! i = take n (drop (i * n) xs)"
  by (simp add: as_chunks_def)

lemma as_chunks_chunks: "length xs = k * n \<Longrightarrow> 0 < n \<Longrightarrow> as_chunks n xs = chunks n xs"
  by (simp add: chunks_eq as_chunks_def)

lemma take_4:
  assumes "4 \<le> length xs"
  shows "take 4 xs = [xs ! 0, xs ! 1, xs ! 2, xs ! 3]"
proof -
  obtain a b c d r where "xs = a # b # c # d # r"
    using assms by (cases xs; cases "tl xs"; cases "tl (tl xs)"; cases "tl (tl (tl xs))") auto
  then show ?thesis by simp
qed

lemma be_word_sum:
  assumes "4 * t + 4 \<le> length m"
  shows "le_value (rev (take 4 (drop (t * 4) m))) = (\<Sum>i < 4. unat (m ! (4 * t + i)) * 256 ^ (3 - i))"
proof -
  have "take 4 (drop (t * 4) m) = [m ! (4 * t), m ! (4 * t + 1), m ! (4 * t + 2), m ! (4 * t + 3)]"
    using assms take_4 [of "drop (t * 4) m"] by (simp add: mult.commute)
  moreover have "{..<4 :: nat} = {0, 1, 2, 3}" by auto
  ultimately show ?thesis by simp
qed

lemma length_schedule_fold [simp]: "length (fold schedule_step ts s) = length s"
  by (induction ts arbitrary: s) (simp_all add: schedule_step_def)

lemma schedule_fold:
  assumes "length s = 64" "\<forall>t < 16. s ! t = fips_schedule m t" "k \<le> 48"
  shows "\<forall>t < 16 + k. fold schedule_step [16..<16 + k] s ! t = fips_schedule m t"
  using assms(3)
proof (induction k)
  case (Suc k)
  define S where "S = fold schedule_step [16..<16 + k] s"
  have IH: "\<forall>t < 16 + k. S ! t = fips_schedule m t" using Suc by (simp add: S_def)
  have len: "length S = 64" using assms(1) by (simp add: S_def)
  have "[16..<16 + Suc k] = [16..<16 + k] @ [16 + k]" unfolding add_Suc_right by (rule upt_Suc_append) simp
  then have "fold schedule_step [16..<16 + Suc k] s = schedule_step (16 + k) S" by (simp only: fold_append o_apply fold_simps S_def)
  moreover have "schedule_step (16 + k) S = S[16 + k := fips_schedule m (16 + k)]"
    unfolding schedule_step_def using IH by (subst fips_schedule.simps) simp
  ultimately show ?case using IH len Suc.prems by (auto simp: nth_list_update less_Suc_eq)
qed (use assms(2) in simp)

lemma schedule_start:
  assumes "length m = 64" "t < 16"
  shows "zip_update (\<lambda>_ chunk. u32_from_be_bytes chunk) (replicate 16 0) (as_chunks 4 m) ! t = fips_schedule m t"
  using assms
  by (subst fips_schedule.simps)
    (simp add: nth_zip_update u32_from_be_bytes_def nth_as_chunks be_word_sum del: of_nat_sum)

lemma message_schedule_fips:
  assumes "length m = 64"
  shows "length (message_schedule m) = 64" "t < 64 \<Longrightarrow> message_schedule m ! t = fips_schedule m t"
proof -
  let ?s = "zip_update (\<lambda>_ chunk. u32_from_be_bytes chunk) (replicate 16 0) (as_chunks 4 m) @ replicate 48 0"
  have "length ?s = 64" "\<forall>t < 16. ?s ! t = fips_schedule m t" using schedule_start [OF assms] by (simp_all add: nth_append)
  from this(1) schedule_fold [OF this, of 48]
  have "length (fold schedule_step [16..<64] ?s) = 64 \<and> (\<forall>t < 64. fold schedule_step [16..<64] ?s ! t = fips_schedule m t)"
    unfolding length_schedule_fold by (simp del: upt_rec_numeral)
  then show "length (message_schedule m) = 64" "t < 64 \<Longrightarrow> message_schedule m ! t = fips_schedule m t"
    by (simp_all only: message_schedule_def Let_def)
qed

lemma fips_state_rounds:
  assumes "length m = 64" "t \<le> 64"
  shows "fold (\<lambda>(k_t, w_t) state. sha_round k_t w_t state) (take t (zip sha_k (message_schedule m))) s = fips_state m s t"
  using assms(2)
proof (induction t)
  case (Suc t)
  have "length sha_k = 64" by (simp add: sha_k_def)
  then have "take (Suc t) (zip sha_k (message_schedule m)) =
      take t (zip sha_k (message_schedule m)) @ [(sha_k ! t, fips_schedule m t)]"
    using Suc.prems message_schedule_fips [OF assms(1)] by (simp add: take_Suc_conv_app_nth)
  moreover obtain a b c d e f g h where "fips_state m s t = (a, b, c, d, e, f, g, h)" by (cases "fips_state m s t") auto
  ultimately show ?case using Suc by (simp add: Let_def)
qed simp

lemma process_block_fips: "length m = 64 \<Longrightarrow> process_block m s = fips_block m s"
  using fips_state_rounds [of m 64 s] message_schedule_fips(1) [of m]
  by (simp add: process_block_def fips_block_def sha_k_def)

subsection \<open>Padding\<close>

text \<open>\<open>padded_blocks\<close> is the number of blocks of a padded message, \<open>padded_to\<close> the padded message with zero blocks.\<close>

definition padded_blocks :: "bytes \<Rightarrow> nat" where
  "padded_blocks m = (length m + 72) div 64"

definition padded_to :: "nat \<Rightarrow> bytes \<Rightarrow> bytes" where
  "padded_to blocks m = (let p = fst (pad_input m) in p @ replicate (64 * blocks - length p) 0)"

lemma zero_bytes: "(n :: nat) + 9 + (63 - (n + 8) mod 64) = 64 * ((n + 72) div 64)"
proof -
  have "(n + 72) div 64 = (n + 8) div 64 + 1" by simp
  moreover have "n + 8 = 64 * ((n + 8) div 64) + (n + 8) mod 64" by simp
  moreover have "(n + 8) mod 64 < 64" by simp
  ultimately show ?thesis by linarith
qed

lemma length_to_be_bytes [simp]: "length (to_be_bytes n v) = n"
  by (simp add: to_be_bytes_def)

lemma length_pad_input: "length (fst (pad_input m)) = 64 * padded_blocks m"
proof -
  have "length (fst (pad_input m)) = length m + 9 + (63 - (length m + 8) mod 64)" by (simp add: pad_input_def Let_def)
  then show ?thesis by (simp only: zero_bytes padded_blocks_def)
qed

lemma snd_pad_input: "snd (pad_input m) = padded_blocks m"
  using zero_bytes [of "length m"] by (simp add: pad_input_def Let_def padded_blocks_def)

lemma padded_fits: "length m + 9 \<le> 64 * b \<longleftrightarrow> padded_blocks m \<le> b"
  unfolding padded_blocks_def using div_less_iff_less_mult [of 64 "length m + 72" "b + 1"] by simp linarith

lemma length_padded_to: "padded_blocks m \<le> b \<Longrightarrow> length (padded_to b m) = 64 * b"
  by (simp add: padded_to_def Let_def length_pad_input)

lemma to_be_bytes_inj: "to_be_bytes n v = to_be_bytes n w \<Longrightarrow> v < 256 ^ n \<Longrightarrow> w < 256 ^ n \<Longrightarrow> v = w"
  unfolding to_be_bytes_def rev_is_rev_conv by (metis le_value_le_bytes_small)

lemma to_be_bytes_0: "to_be_bytes n 0 = replicate n 0"
proof -
  have "le_bytes n 0 = replicate n 0" by (induction n) simp_all
  then show ?thesis by (simp add: to_be_bytes_def)
qed

lemma drop_exact: "length xs = n \<Longrightarrow> drop n (xs @ ys) = ys"
  by simp

text \<open>The last eight bytes of the last block are the length.\<close>

lemma pad_input_length_field:
  "drop (64 * padded_blocks m - 8) (fst (pad_input m)) = to_be_bytes 8 (length m * 8 mod 2 ^ 64)"
  "take (length m) (fst (pad_input m)) = m"
proof -
  obtain z where p: "fst (pad_input m) = (m @ [0x80] @ replicate z 0) @ to_be_bytes 8 (length m * 8 mod 2 ^ 64)"
    by (simp add: pad_input_def Let_def)
  have "length (m @ [0x80] @ replicate z 0) = 64 * padded_blocks m - 8"
    using length_pad_input [of m] unfolding p length_append length_to_be_bytes by simp
  then show "drop (64 * padded_blocks m - 8) (fst (pad_input m)) = to_be_bytes 8 (length m * 8 mod 2 ^ 64)"
    unfolding p by (rule drop_exact)
  show "take (length m) (fst (pad_input m)) = m" by (simp add: p)
qed

lemma padded_to_inj_le:
  assumes "padded_to b m = padded_to b' m'" "padded_blocks m \<le> padded_blocks m'" "padded_blocks m \<le> b" "padded_blocks m' \<le> b'"
    "length m < 2 ^ 61" "length m' < 2 ^ 61"
  shows "m = m'"
proof -
  let ?p = "fst (pad_input m)" and ?p' = "fst (pad_input m')"
  let ?q = "?p @ replicate (64 * b - length ?p) 0" and ?q' = "?p' @ replicate (64 * b' - length ?p') 0"
  have q: "?q = ?q'" using assms(1) by (simp add: padded_to_def Let_def)
  have pos: "0 < padded_blocks x" for x by (simp add: padded_blocks_def)
  have field: "take 8 (drop (64 * padded_blocks x - 8) (fst (pad_input x) @ r)) = to_be_bytes 8 (8 * length x)"
    if "length x < 2 ^ 61" for x r
  proof -
    have "length (fst (pad_input x)) - (64 * padded_blocks x - 8) = 8" using pos [of x] by (simp add: length_pad_input)
    then show ?thesis using that pad_input_length_field(1) [of x] by (simp add: length_pad_input mult.commute)
  qed
  have "padded_blocks m = padded_blocks m'"
  proof (rule ccontr)
    assume "padded_blocks m \<noteq> padded_blocks m'"
    then have lt: "padded_blocks m < padded_blocks m'" using assms(2) by simp
    have "to_be_bytes 8 (8 * length m') = take 8 (drop (64 * padded_blocks m' - 8) ?q)"
      unfolding q by (rule field [OF assms(6), symmetric])
    also have "drop (64 * padded_blocks m' - 8) ?q = replicate (64 * b - (64 * padded_blocks m' - 8)) 0"
      using lt by (simp add: length_pad_input)
    also have "take 8 \<dots> = replicate (min 8 (64 * b - (64 * padded_blocks m' - 8))) 0" by (simp add: take_replicate)
    finally have e: "to_be_bytes 8 (8 * length m') = replicate (min 8 (64 * b - (64 * padded_blocks m' - 8))) 0" .
    from arg_cong [OF this, of length] have "min 8 (64 * b - (64 * padded_blocks m' - 8)) = 8"
      unfolding length_to_be_bytes length_replicate by (rule sym)
    with e have "to_be_bytes 8 (8 * length m') = to_be_bytes 8 0" by (simp only: to_be_bytes_0)
    from to_be_bytes_inj [OF this] assms(6) have "length m' = 0" by simp
    with lt show False by (simp add: padded_blocks_def)
  qed
  then have "to_be_bytes 8 (8 * length m) = to_be_bytes 8 (8 * length m')"
    using field [OF assms(5)] field [OF assms(6)] q by metis
  from to_be_bytes_inj [OF this] assms(5,6) have l: "length m = length m'" by simp
  have "take (length x) (fst (pad_input x) @ r) = x" for x r
    using pad_input_length_field(2) [of x] length_pad_input [of x]
    by (simp add: padded_blocks_def)
  then show "m = m'" using q l by metis
qed

lemma padded_to_inj:
  assumes "padded_to b m = padded_to b' m'" "padded_blocks m \<le> b" "padded_blocks m' \<le> b'" "length m < 2 ^ 61" "length m' < 2 ^ 61"
  shows "m = m'"
proof (cases "padded_blocks m \<le> padded_blocks m'")
  case True
  then show ?thesis using padded_to_inj_le [OF assms(1) _ assms(2,3,4,5)] by simp
next
  case False
  then show ?thesis using padded_to_inj_le [OF assms(1) [symmetric] _ assms(3,2,5,4)] by simp
qed

lemma length_run_sha256: "length (run_sha256 m) = 32"
proof -
  have "length (serialize_hash_value h) = 32" for h by (cases h rule: state_list.cases) (simp add: serialize_hash_value_def)
  then show ?thesis by (simp add: run_sha256_def Let_def)
qed

section \<open>Nym Sha\<close>

text \<open>
  The compression of \<open>src/src/nymauth/sha.rs\<close> with the face of a block: the bits of the state before, the schedule, the
  words \<open>e\<close> and \<open>a\<close> after every round, and the state after. It computes the same hash as \<open>Sha256\<close>, and the face is
  the one of the reference recurrence. Output buffers are the lists that are appended; wiping of buffers is not modelled.
\<close>

definition nym_iv :: sha_state where
  "nym_iv = (0x6a09e667, 0xbb67ae85, 0x3c6ef372, 0xa54ff53a, 0x510e527f, 0x9b05688c, 0x1f83d9ab, 0x5be0cd19)"

definition nym_k :: "u32 list" where
  "nym_k =
     [0x428a2f98, 0x71374491, 0xb5c0fbcf, 0xe9b5dba5, 0x3956c25b, 0x59f111f1, 0x923f82a4, 0xab1c5ed5,
      0xd807aa98, 0x12835b01, 0x243185be, 0x550c7dc3, 0x72be5d74, 0x80deb1fe, 0x9bdc06a7, 0xc19bf174,
      0xe49b69c1, 0xefbe4786, 0x0fc19dc6, 0x240ca1cc, 0x2de92c6f, 0x4a7484aa, 0x5cb0a9dc, 0x76f988da,
      0x983e5152, 0xa831c66d, 0xb00327c8, 0xbf597fc7, 0xc6e00bf3, 0xd5a79147, 0x06ca6351, 0x14292967,
      0x27b70a85, 0x2e1b2138, 0x4d2c6dfc, 0x53380d13, 0x650a7354, 0x766a0abb, 0x81c2c92e, 0x92722c85,
      0xa2bfe8a1, 0xa81a664b, 0xc24b8b70, 0xc76c51a3, 0xd192e819, 0xd6990624, 0xf40e3585, 0x106aa070,
      0x19a4c116, 0x1e376c08, 0x2748774c, 0x34b0bcb5, 0x391c0cb3, 0x4ed8aa4a, 0x5b9cca4f, 0x682e6ff3,
      0x748f82ee, 0x78a5636f, 0x84c87814, 0x8cc70208, 0x90befffa, 0xa4506ceb, 0xbef9a3f7, 0xc67178f2]"

definition word_bits :: "u64 \<Rightarrow> nat \<Rightarrow> bytes" where
  "word_bits v n = map (\<lambda>j. ucast (drop_bit j v AND 1)) [0..<n]"

definition nym_schedule_step :: "nat \<Rightarrow> u32 list \<Rightarrow> u32 list" where
  "nym_schedule_step i w =
     (let s0 = word_rotr 7 (w ! (i - 15)) XOR word_rotr 18 (w ! (i - 15)) XOR drop_bit 3 (w ! (i - 15));
          s1 = word_rotr 17 (w ! (i - 2)) XOR word_rotr 19 (w ! (i - 2)) XOR drop_bit 10 (w ! (i - 2))
      in w[i := w ! (i - 16) + s0 + w ! (i - 7) + s1])"

definition nym_schedule :: "bytes \<Rightarrow> u32 list" where
  "nym_schedule block =
     (let w = fold (\<lambda>i w. w[i := u32_from_be_bytes [block ! (4 * i), block ! (4 * i + 1), block ! (4 * i + 2), block ! (4 * i + 3)]])
                [0..<16] (replicate 64 0)
      in fold nym_schedule_step [16..<64] w)"

fun nym_round :: "u32 list \<Rightarrow> nat \<Rightarrow> sha_state \<times> u32 list \<times> u32 list \<Rightarrow> sha_state \<times> u32 list \<times> u32 list" where
  "nym_round w i ((a, b, c, d, e, f, g, h), es, as') =
     (let s1 = word_rotr 6 e XOR word_rotr 11 e XOR word_rotr 25 e;
          ch = (e AND f) XOR (NOT e AND g);
          t1 = h + s1 + ch + nym_k ! i + w ! i;
          s0 = word_rotr 2 a XOR word_rotr 13 a XOR word_rotr 22 a;
          maj = (a AND b) XOR (a AND c) XOR (b AND c);
          t2 = s0 + maj;
          h = g; g = f; f = e; e = d + t1; d = c; c = b; b = a; a = t1 + t2
      in ((a, b, c, d, e, f, g, h), es[i := e], as'[i := a]))"

definition nym_compress :: "sha_state \<Rightarrow> bytes \<Rightarrow> sha_state \<times> bytes" where
  "nym_compress state block =
     (let w = nym_schedule block;
          (v, es, as') = fold (nym_round w) [0..<64] (state, replicate 64 0, replicate 64 0);
          h_out = add_state state v
      in (h_out, concat (map (\<lambda>x. word_bits (ucast x) 32) (state_list state @ w @ es @ as' @ state_list h_out))))"

text \<open>Writing a slice of a vector.\<close>

definition copy_at :: "'a list \<Rightarrow> nat \<Rightarrow> 'a list \<Rightarrow> 'a list" where
  "copy_at xs i ys = take i xs @ ys @ drop (i + length ys) xs"

definition nym_pad :: "bytes \<Rightarrow> nat \<Rightarrow> bytes option" where
  "nym_pad m blocks =
     Option.bind (if 64 * blocks < 2 ^ 64 then Some (64 * blocks) else None) (\<lambda>n.
     Option.bind (if length m + 9 < 2 ^ 64 then Some (length m + 9) else None) (\<lambda>needed.
       if n < needed then None
       else
         let full = div_ceil (length m + 9) 64 * 64;
             out = replicate n 0;
             out = copy_at out 0 m;
             out = out[length m := 0x80]
         in Some (copy_at out (full - 8) (to_be_bytes 8 (8 * length m mod 2 ^ 64)))))"

definition faces_padded :: "bytes \<Rightarrow> sha_state \<Rightarrow> sha_state \<times> bytes" where
  "faces_padded p state =
     fold (\<lambda>block (state, out). let (state, face) = nym_compress state block in (state, out @ face)) (as_chunks 64 p) (state, [])"

definition faces :: "bytes \<Rightarrow> nat \<Rightarrow> bytes option" where
  "faces m blocks = Option.bind (nym_pad m blocks) (\<lambda>padded. Some (snd (faces_padded padded nym_iv)))"

subsection \<open>The compression is the reference\<close>

lemma nym_constants: "nym_k = sha_k" "nym_iv = initial_hash_value"
  by (simp_all add: nym_k_def sha_k_def nym_iv_def initial_hash_value_def)

lemma nym_schedule_step_eq: "nym_schedule_step = schedule_step"
  by (simp add: fun_eq_iff nym_schedule_step_def schedule_step_def lower_sigma_0_def lower_sigma_1_def Let_def ac_simps)

lemma fold_update_nth:
  assumes "n \<le> length xs"
  shows "length (fold (\<lambda>i w. w[i := f i]) [0..<n] xs) = length xs"
    "i < length xs \<Longrightarrow> fold (\<lambda>i w. w[i := f i]) [0..<n] xs ! i = (if i < n then f i else xs ! i)"
proof -
  have "length (fold (\<lambda>i w. w[i := f i]) [0..<n] xs) = length xs \<and>
      (\<forall>i < length xs. fold (\<lambda>i w. w[i := f i]) [0..<n] xs ! i = (if i < n then f i else xs ! i))"
    using assms by (induction n) (auto simp: nth_list_update less_Suc_eq)
  then show "length (fold (\<lambda>i w. w[i := f i]) [0..<n] xs) = length xs"
    "i < length xs \<Longrightarrow> fold (\<lambda>i w. w[i := f i]) [0..<n] xs ! i = (if i < n then f i else xs ! i)" by blast+
qed

lemma nym_schedule_eq:
  assumes "length m = 64"
  shows "nym_schedule m = map (fips_schedule m) [0..<64]"
proof -
  let ?f = "\<lambda>i. u32_from_be_bytes [m ! (4 * i), m ! (4 * i + 1), m ! (4 * i + 2), m ! (4 * i + 3)]"
  define S where "S = fold (\<lambda>i w. w[i := ?f i]) [0..<16] (replicate 64 0)"
  have "?f t = fips_schedule m t" if "t < 16" for t
  proof -
    have "take 4 (drop (t * 4) m) = [m ! (4 * t), m ! (4 * t + 1), m ! (4 * t + 2), m ! (4 * t + 3)]"
      using assms that take_4 [of "drop (t * 4) m"] by (simp add: mult.commute)
    then show ?thesis using be_word_sum [of t m] assms that
      by (subst fips_schedule.simps) (simp add: u32_from_be_bytes_def del: of_nat_sum)
  qed
  then have S: "length S = 64" "\<forall>t < 16. S ! t = fips_schedule m t"
    unfolding S_def using fold_update_nth [where n = 16 and xs = "replicate 64 0" and f = ?f] by (simp_all del: upt_rec_numeral)
  have "length (fold schedule_step [16..<64] S) = 64" "\<forall>t < 64. fold schedule_step [16..<64] S ! t = fips_schedule m t"
    using S(1) schedule_fold [OF S, of 48] unfolding length_schedule_fold by (simp_all del: upt_rec_numeral)
  then have "fold schedule_step [16..<64] S = map (fips_schedule m) [0..<64]"
    by (intro nth_equalityI) (simp_all del: upt_rec_numeral)
  then show ?thesis unfolding nym_schedule_def Let_def nym_schedule_step_eq S_def .
qed

fun state_e :: "sha_state \<Rightarrow> u32" where "state_e (a, b, c, d, e, f, g, h) = e"
fun state_a :: "sha_state \<Rightarrow> u32" where "state_a (a, b, c, d, e, f, g, h) = a"

lemma nym_rounds:
  assumes "length m = 64" "n \<le> 64"
  shows "fold (nym_round (nym_schedule m)) [0..<n] (s, replicate 64 0, replicate 64 0) =
    (fips_state m s n, map (\<lambda>i. if i < n then state_e (fips_state m s (Suc i)) else 0) [0..<64],
     map (\<lambda>i. if i < n then state_a (fips_state m s (Suc i)) else 0) [0..<64])"
  using assms(2)
proof (induction n)
  case 0
  then show ?case by (simp add: map_replicate_const del: upt_rec_numeral)
next
  case (Suc n)
  obtain a b c d e f g h where st: "fips_state m s n = (a, b, c, d, e, f, g, h)" by (cases "fips_state m s n" rule: state_list.cases)
  have upd: "(map (\<lambda>i. if i < n then F i else (0 :: u32)) [0..<64])[n := F n] = map (\<lambda>i. if i < Suc n then F i else 0) [0..<64]" for F
    using Suc.prems by (intro nth_equalityI) (auto simp: nth_list_update less_Suc_eq simp del: upt_rec_numeral)
  have w: "nym_schedule m ! n = fips_schedule m n" using Suc.prems by (simp add: nym_schedule_eq [OF assms(1)] del: upt_rec_numeral)
  have "fold (nym_round (nym_schedule m)) [0..<Suc n] (s, replicate 64 0, replicate 64 0) =
      nym_round (nym_schedule m) n (fips_state m s n, map (\<lambda>i. if i < n then state_e (fips_state m s (Suc i)) else 0) [0..<64],
        map (\<lambda>i. if i < n then state_a (fips_state m s (Suc i)) else 0) [0..<64])"
    using Suc by (simp del: upt_rec_numeral fips_state.simps)
  also have "\<dots> = (fips_state m s (Suc n),
      (map (\<lambda>i. if i < n then state_e (fips_state m s (Suc i)) else 0) [0..<64])[n := state_e (fips_state m s (Suc n))],
      (map (\<lambda>i. if i < n then state_a (fips_state m s (Suc i)) else 0) [0..<64])[n := state_a (fips_state m s (Suc n))])"
    unfolding fips_state.simps(2) [of m s n] st
    by (simp add: Let_def nym_constants w upper_sigma_0_def upper_sigma_1_def choice_def majority_def del: upt_rec_numeral fips_state.simps)
  finally show ?case
    unfolding upd [of "\<lambda>i. state_e (fips_state m s (Suc i))"] upd [of "\<lambda>i. state_a (fips_state m s (Suc i))"] .
qed

definition fips_face :: "bytes \<Rightarrow> sha_state \<Rightarrow> u32 list" where
  "fips_face m s = state_list s @ map (fips_schedule m) [0..<64] @ map (\<lambda>i. state_e (fips_state m s (Suc i))) [0..<64] @
     map (\<lambda>i. state_a (fips_state m s (Suc i))) [0..<64] @ state_list (fips_block m s)"

lemma nym_compress_fips:
  assumes "length m = 64"
  shows "nym_compress s m = (fips_block m s, concat (map (\<lambda>x. word_bits (ucast x) 32) (fips_face m s)))"
proof -
  have "map (\<lambda>i. if i < 64 then F i else (0 :: u32)) [0..<64] = map F [0..<64]" for F by (simp cong: map_cong del: upt_rec_numeral)
  then show ?thesis
    unfolding nym_compress_def Let_def nym_rounds [OF assms order_refl] fips_face_def fips_block_def prod.case
    by (simp only: nym_schedule_eq [OF assms])
qed

subsection \<open>Padding and chains of faces\<close>

lemma nym_pad_eq:
  assumes "64 * b < 2 ^ 64"
  shows "nym_pad m b = (if padded_blocks m \<le> b then Some (padded_to b m) else None)"
proof (cases "padded_blocks m \<le> b")
  case True
  let ?n = "64 * b" and ?f = "64 * padded_blocks m"
  have le: "length m + 9 \<le> ?n" using True padded_fits [of m b] by simp
  have full: "div_ceil (length m + 9) 64 * 64 = ?f" by (simp add: div_ceil_def padded_blocks_def mult.commute)
  have f: "length m + 9 \<le> ?f" using padded_fits [of m "padded_blocks m"] by simp
  have z: "63 - (length m + 8) mod 64 = ?f - 9 - length m" using zero_bytes [of "length m"] by (simp add: padded_blocks_def)
  have o1: "copy_at (replicate ?n 0) 0 m = m @ replicate (?n - length m) (0 :: byte)" by (simp add: copy_at_def)
  have o2: "(m @ replicate (?n - length m) 0)[length m := 0x80] = m @ [0x80] @ replicate (?n - length m - 1) (0 :: byte)"
    using le by (cases "?n - length m") (simp_all add: list_update_append)
  have o3: "replicate (?n - length m - 1) (0 :: byte) = replicate (?f - 9 - length m) 0 @ replicate 8 0 @ replicate (?n - ?f) 0"
    using le f True by (simp add: replicate_add [symmetric])
  have put: "copy_at (x @ y @ r) k v = x @ v @ r" if "length x = k" "length y = length v" for x y r v :: bytes and k
    using that by (simp add: copy_at_def)
  have o4: "copy_at (m @ [0x80] @ replicate (?f - 9 - length m) 0 @ replicate 8 0 @ replicate (?n - ?f) 0) (?f - 8) v =
    (m @ [0x80] @ replicate (?f - 9 - length m) 0) @ v @ replicate (?n - ?f) (0 :: byte)" if "length v = 8" for v
    using put [of "m @ [0x80] @ replicate (?f - 9 - length m) 0" "?f - 8" "replicate 8 0" v] f that by simp
  have n: "nym_pad m b = Some (copy_at ((copy_at (replicate ?n 0) 0 m)[length m := 0x80]) (?f - 8) (to_be_bytes 8 (8 * length m mod 2 ^ 64)))"
    using le assms by (simp add: nym_pad_def Let_def full)
  have p: "padded_to b m = (m @ [0x80] @ replicate (?f - 9 - length m) 0) @ to_be_bytes 8 (8 * length m mod 2 ^ 64) @ replicate (?n - ?f) 0"
    unfolding padded_to_def Let_def length_pad_input by (simp add: pad_input_def Let_def z mult.commute)
  show ?thesis unfolding n o1 o2 o3 using o4 p True by simp
next
  case False
  then show ?thesis using padded_fits [of m b] assms by (simp add: nym_pad_def)
qed

lemma length_word_bits [simp]: "length (word_bits v n) = n"
  by (simp add: word_bits_def)

lemma word_bits_bit: "b \<in> set (word_bits v n) \<Longrightarrow> b = 0 \<or> b = 1"
  by (auto simp: word_bits_def and_one_eq mod_2_eq_odd of_bool_def split: if_splits)

lemma length_face: "length m = 64 \<Longrightarrow> length (snd (nym_compress s m)) = 6656"
  by (cases s rule: state_list.cases; cases "fips_block m s" rule: state_list.cases)
    (simp add: nym_compress_fips fips_face_def length_concat o_def sum_list_triv del: upt_rec_numeral)

lemma face_bits: "b \<in> set (snd (nym_compress s m)) \<Longrightarrow> b = 0 \<or> b = 1"
  by (auto simp: nym_compress_def Let_def case_prod_beta dest: word_bits_bit)

lemma as_chunks_length: "c \<in> set (as_chunks n xs) \<Longrightarrow> length c = n"
proof -
  assume "c \<in> set (as_chunks n xs)"
  then obtain i where i: "i < length xs div n" "c = take n (drop (i * n) xs)" by (auto simp: as_chunks_def)
  then have "(i + 1) * n \<le> length xs div n * n" by (intro mult_le_mono1) simp
  also have "\<dots> \<le> length xs" by simp
  finally show "length c = n" using i(2) by simp
qed

lemma faces_padded_state:
  "fst (faces_padded p s) = fold process_block (as_chunks 64 p) s"
  "length (snd (faces_padded p s)) = 6656 * (length p div 64)"
  "\<forall>b \<in> set (snd (faces_padded p s)). b = 0 \<or> b = 1"
proof -
  let ?f = "\<lambda>block (state, out). let (state, face) = nym_compress state block in (state, out @ face)"
  have "fst (fold ?f cs (s, out)) = fold process_block cs s \<and> length (snd (fold ?f cs (s, out))) = length out + 6656 * length cs \<and>
      set (snd (fold ?f cs (s, out))) \<subseteq> set out \<union> {0, 1}"
    if "\<forall>c \<in> set cs. length c = 64" for cs out
    using that
  proof (induction cs arbitrary: s out)
    case (Cons c cs)
    have c: "fst (nym_compress s c) = process_block c s" using Cons.prems by (simp add: nym_compress_fips process_block_fips)
    have l: "length (snd (nym_compress s c)) = 6656" using Cons.prems by (simp add: length_face)
    have "set (snd (nym_compress s c)) \<subseteq> {0, 1}" using face_bits by blast
    with Cons.IH [of "process_block c s" "out @ snd (nym_compress s c)"] Cons.prems show ?case
      by (auto simp: case_prod_beta Let_def c l)
  qed auto
  from this [of "as_chunks 64 p" Nil] show "fst (faces_padded p s) = fold process_block (as_chunks 64 p) s"
    "length (snd (faces_padded p s)) = 6656 * (length p div 64)" "\<forall>b \<in> set (snd (faces_padded p s)). b = 0 \<or> b = 1"
    using as_chunks_length unfolding faces_padded_def by auto
qed

lemma faces_run_sha256:
  "serialize_hash_value (fst (faces_padded (fst (pad_input m)) nym_iv)) = run_sha256 m"
  by (simp add: faces_padded_state run_sha256_def Let_def nym_constants)

end
