(* ===== verification/Ec.thy ===== *)
theory Ec
  imports Field_P256 Field_P256_Scalar Sha256
begin

text \<open>
  The curve P-256 of \<open>src/src/mdoc_zk/ec.rs\<close>: affine and projective points, the complete addition formulas step by
  step, decoding of points and signatures, and scalar multiplication. A \<open>CtOption\<close> is an option and a conditional
  selection is a conditional; that their running time does not depend on the data is not modelled.
\<close>

subsection \<open>Points\<close>

type_synonym affine_point = "(fp256 \<times> fp256) option"

record projective_point =
  pp_x :: fp256
  pp_y :: fp256
  pp_z :: fp256

definition p256_a_bytes :: bytes where
  "p256_a_bytes =
     [0xfc, 0xff, 0xff, 0xff, 0xff, 0xff, 0xff, 0xff, 0xff, 0xff, 0xff, 0xff, 0x00, 0x00, 0x00, 0x00,
      0x00, 0x00, 0x00, 0x00, 0x00, 0x00, 0x00, 0x00, 0x01, 0x00, 0x00, 0x00, 0xff, 0xff, 0xff, 0xff]"

definition p256_b_bytes :: bytes where
  "p256_b_bytes =
     [0x4b, 0x60, 0xd2, 0x27, 0x3e, 0x3c, 0xce, 0x3b, 0xf6, 0xb0, 0x53, 0xcc, 0xb0, 0x06, 0x1d, 0x65,
      0xbc, 0x86, 0x98, 0x76, 0x55, 0xbd, 0xeb, 0xb3, 0xe7, 0x93, 0x3a, 0xaa, 0xd8, 0x35, 0xc6, 0x5a]"

definition p256_gx_bytes :: bytes where
  "p256_gx_bytes =
     [0x96, 0xc2, 0x98, 0xd8, 0x45, 0x39, 0xa1, 0xf4, 0xa0, 0x33, 0xeb, 0x2d, 0x81, 0x7d, 0x03, 0x77,
      0xf2, 0x40, 0xa4, 0x63, 0xe5, 0xe6, 0xbc, 0xf8, 0x47, 0x42, 0x2c, 0xe1, 0xf2, 0xd1, 0x17, 0x6b]"

definition p256_gy_bytes :: bytes where
  "p256_gy_bytes =
     [0xf5, 0x51, 0xbf, 0x37, 0x68, 0x40, 0xb6, 0xcb, 0xce, 0x5e, 0x31, 0x6b, 0x57, 0x33, 0xce, 0x2b,
      0x16, 0x9e, 0x0f, 0x7c, 0x4a, 0xeb, 0xe7, 0x8e, 0x9b, 0x7f, 0x1a, 0xfe, 0xe2, 0x42, 0xe3, 0x4f]"

definition const_element :: "bytes \<Rightarrow> fp256" where
  "const_element bs = (case p256_try_from_bytes_const bs of Some x \<Rightarrow> x | None \<Rightarrow> 0)"

definition p256_a :: fp256 where "p256_a = const_element p256_a_bytes"
definition p256_b :: fp256 where "p256_b = const_element p256_b_bytes"
definition p256_g :: "fp256 \<times> fp256" where "p256_g = (const_element p256_gx_bytes, const_element p256_gy_bytes)"

definition pp_identity :: projective_point where
  "pp_identity = \<lparr>pp_x = 0, pp_y = 1, pp_z = 0\<rparr>"

definition projective_of_affine :: "affine_point \<Rightarrow> projective_point" where
  "projective_of_affine value =
     (case value of Some (x, y) \<Rightarrow> \<lparr>pp_x = x, pp_y = y, pp_z = 1\<rparr> | None \<Rightarrow> pp_identity)"

definition affine_of_projective :: "projective_point \<Rightarrow> affine_point" where
  "affine_of_projective value =
     (let is_identity = pp_z value = 0; reciprocal = p256m2_exp (pp_z value)
      in if is_identity then None else Some (pp_x value * reciprocal, pp_y value * reciprocal))"

subsection \<open>The group operations\<close>

definition pp_add :: "projective_point \<Rightarrow> projective_point \<Rightarrow> projective_point" where
  "pp_add self rhs =
     (let x1 = pp_x self; y1 = pp_y self; z1 = pp_z self;
          x2 = pp_x rhs; y2 = pp_y rhs; z2 = pp_z rhs;
          t0 = x1 * x2; t1 = y1 * y2; t2 = z1 * z2;
          t3 = x1 + y1; t4 = x2 + y2; t3 = t3 * t4;
          t4 = t0 + t1; t3 = t3 - t4; t4 = y1 + z1;
          x3 = y2 + z2; t4 = t4 * x3; x3 = t1 + t2;
          t4 = t4 - x3; x3 = x1 + z1; y3 = x2 + z2;
          x3 = x3 * y3; y3 = t0 + t2; y3 = x3 - y3;
          z3 = p256_b * t2; x3 = y3 - z3; z3 = x3 + x3;
          x3 = x3 + z3; z3 = t1 - x3; x3 = t1 + x3;
          y3 = p256_b * y3; t1 = t2 + t2; t2 = t1 + t2;
          y3 = y3 - t2; y3 = y3 - t0; t1 = y3 + y3;
          y3 = t1 + y3; t1 = t0 + t0; t0 = t1 + t0;
          t0 = t0 - t2; t1 = t4 * y3; t2 = t0 * y3;
          y3 = x3 * z3; y3 = y3 + t2; x3 = t3 * x3;
          x3 = x3 - t1; z3 = t4 * z3; t1 = t3 * t0;
          z3 = z3 + t1
      in \<lparr>pp_x = x3, pp_y = y3, pp_z = z3\<rparr>)"

definition pp_add_affine :: "projective_point \<Rightarrow> affine_point \<Rightarrow> projective_point" where
  "pp_add_affine self rhs =
     (let x1 = pp_x self; y1 = pp_y self; z1 = pp_z self
      in case rhs of None \<Rightarrow> self
         | Some (x2, y2) \<Rightarrow>
           let t0 = x1 * x2; t1 = y1 * y2; t3 = x2 + y2;
               t4 = x1 + y1; t3 = t3 * t4; t4 = t0 + t1;
               t3 = t3 - t4; t4 = y2 * z1; t4 = t4 + y1;
               y3 = x2 * z1; y3 = y3 + x1; z3 = p256_b * z1;
               x3 = y3 - z3; z3 = x3 + x3; x3 = x3 + z3;
               z3 = t1 - x3; x3 = t1 + x3; y3 = p256_b * y3;
               t1 = z1 + z1; t2 = t1 + z1; y3 = y3 - t2;
               y3 = y3 - t0; t1 = y3 + y3; y3 = t1 + y3;
               t1 = t0 + t0; t0 = t1 + t0; t0 = t0 - t2;
               t1 = t4 * y3; t2 = t0 * y3; y3 = x3 * z3;
               y3 = y3 + t2; x3 = t3 * x3; x3 = x3 - t1;
               z3 = t4 * z3; t1 = t3 * t0; z3 = z3 + t1
           in \<lparr>pp_x = x3, pp_y = y3, pp_z = z3\<rparr>)"

definition pp_double :: "projective_point \<Rightarrow> projective_point" where
  "pp_double self =
     (let x = pp_x self; y = pp_y self; z = pp_z self;
          t0 = x * x; t1 = y * y; t2 = z * z;
          t3 = x * y; t3 = t3 + t3; z3 = x * z;
          z3 = z3 + z3; y3 = p256_b * t2; y3 = y3 - z3;
          x3 = y3 + y3; y3 = x3 + y3; x3 = t1 - y3;
          y3 = t1 + y3; y3 = x3 * y3; x3 = x3 * t3;
          t3 = t2 + t2; t2 = t2 + t3; z3 = p256_b * z3;
          z3 = z3 - t2; z3 = z3 - t0; t3 = z3 + z3;
          z3 = z3 + t3; t3 = t0 + t0; t0 = t3 + t0;
          t0 = t0 - t2; t0 = t0 * z3; y3 = y3 + t0;
          t0 = y * z; t0 = t0 + t0; z3 = t0 * z3;
          x3 = x3 - z3; z3 = t0 * t1; z3 = z3 + z3;
          z3 = z3 + z3
      in \<lparr>pp_x = x3, pp_y = y3, pp_z = z3\<rparr>)"

subsection \<open>Scalars\<close>

text \<open>\<open>Scalar::bits\<close>, the most significant bit first: of the four words of a residue, and of a digest.\<close>

definition to_non_montgomery :: "fp256_scalar \<Rightarrow> u64 list" where
  "to_non_montgomery s = map (\<lambda>i. of_int (scalar_residue s div 2 ^ (64 * i))) [0..<4]"

definition scalar_bits :: "fp256_scalar \<Rightarrow> bool list" where
  "scalar_bits s = concat (map (\<lambda>limb. map (\<lambda>i. bit limb i) (rev [0..<64])) (rev (to_non_montgomery s)))"

definition digest_bits :: "digest \<Rightarrow> bool list" where
  "digest_bits d = concat (map (\<lambda>byte. map (\<lambda>i. bit byte i) (rev [0..<8])) d)"

definition pp_select :: "'a \<Rightarrow> 'a \<Rightarrow> bool \<Rightarrow> 'a" where
  "pp_select a b c = (if c then b else a)"

definition scalar_mult :: "projective_point \<Rightarrow> bool list \<Rightarrow> projective_point" where
  "scalar_mult self bits =
     fold (\<lambda>b accumulator.
       let double = pp_double accumulator; plus_one = pp_add double self in pp_select double plus_one b) bits pp_identity"

subsection \<open>Decoding\<close>

definition decode_field_element :: "bytes \<Rightarrow> fp256 res" where
  "decode_field_element bs =
     (case p256_try_from (rev bs) of Some x \<Rightarrow> Inr x | None \<Rightarrow> Inl (Fail ''serialized element is not valid''))"

definition affine_decode :: "bytes \<Rightarrow> affine_point res" where
  "affine_decode bs =
     (if bs = [0] then Inr None
      else if length bs = 33 then
        let first = hd bs; rest = tl bs
        in and_then (decode_field_element rest) (\<lambda>x.
           and_then (if first = 2 \<or> first = 3 then Inr (first AND 1 = 1)
             else Inl (Fail ''invalid elliptic curve point encoding, wrong prefix byte'')) (\<lambda>y_parity.
           let alpha = x * x * x + p256_a * x + p256_b
           in and_then (opt_res (Fail ''invalid elliptic curve point encoding, x-coordinate does not correspond to any points on the curve'')
                (p256_sqrt alpha)) (\<lambda>beta.
              let beta_parity = p256_encode beta ! 0 AND 1 = 1;
                  y = pp_select beta (- beta) (y_parity \<noteq> beta_parity)
              in Inr (Some (x, y)))))
      else if length bs = 65 then
        let first = hd bs; rest = tl bs; bytes_x = take 32 rest; bytes_y = drop 32 rest
        in if first \<noteq> 4 then Inl (Fail ''invalid elliptic curve point encoding, wrong prefix byte'')
           else
             and_then (decode_field_element bytes_x) (\<lambda>x.
             and_then (decode_field_element bytes_y) (\<lambda>y.
             if y * y \<noteq> x * x * x + p256_a * x + p256_b
             then Inl (Fail ''invalid elliptic curve point encoding, coordinates are not on the curve'')
             else Inr (Some (x, y))))
      else Inl (Fail ''encoded elliptic curve point has an invalid length''))"

record ecdsa_signature =
  sig_r :: fp256_scalar
  sig_s :: fp256_scalar

definition signature_decode :: "bytes \<Rightarrow> ecdsa_signature res" where
  "signature_decode input =
     (if length input \<noteq> 64 then Inl (Fail ''signature length is incorrect'')
      else
        let invalid = Fail ''serialized element is not less than the modulus''
        in and_then (opt_res invalid (scalar_try_from (rev (take 32 input)))) (\<lambda>r.
           if r = 0 then Inl (Fail ''invalid signature, r is zero'')
           else
             and_then (opt_res invalid (scalar_try_from (rev (drop 32 input)))) (\<lambda>s.
             if s = 0 then Inl (Fail ''invalid signature, s is zero'')
             else Inr \<lparr>sig_r = r, sig_s = s\<rparr>)))"

subsection \<open>Constants\<close>

lemma const_element_value:
  assumes "length bs = 32" "int (le_value bs) < p256_modulus"
  shows "const_element bs = p256_of_int (int (le_value bs))"
proof -
  have "p256_try_from_bytes_const bs = Some (p256_of_int (int (le_value bs)))"
    using p256_try_from_const [of bs] p256.try_from_Some [OF p256_modulus_bytes_value(1), of bs] p256_modulus_bytes_value(2) assms
    by (simp add: p256_try_from_def)
  then show ?thesis by (simp add: const_element_def)
qed

lemma p256_a_value: "p256_a = p256_of_int (p256_modulus - 3)"
  unfolding p256_a_def by (subst const_element_value) (simp_all add: p256_a_bytes_def p256_modulus_def)

lemma p256_a_minus_3: "p256_a = - 3"
proof -
  have "(3 :: fp256) = p256_of_int 3" using p256.of_residue_of_nat [of 3] by simp
  moreover have "p256_a + p256_of_int 3 = 0"
    unfolding p256_a_value p256.of_residue_add p256.of_residue_eq_0 by simp
  ultimately show ?thesis by (simp add: eq_neg_iff_add_eq_0)
qed

definition on_p256 :: "fp256 \<times> fp256 \<Rightarrow> bool" where
  "on_p256 q = (snd q * snd q = fst q * fst q * fst q + p256_a * fst q + p256_b)"

lemma pp_add_affine_eq: "pp_add_affine self (Some q) = pp_add self (projective_of_affine (Some q))"
  by (cases q) (simp add: pp_add_affine_def pp_add_def projective_of_affine_def Let_def algebra_simps)

lemma pp_identity_double: "pp_double pp_identity = pp_identity"
  by (simp add: pp_double_def pp_identity_def Let_def)

lemma p256_numeral: "p256_of_int (numeral k) = numeral k"
  using p256.of_residue_of_nat [of "numeral k"] by simp

lemma p256_b_value: "p256_b = p256_of_int 0x5ac635d8aa3a93e7b3ebbd55769886bc651d06b0cc53b0f63bce3c3e27d2604b"
  unfolding p256_b_def by (subst const_element_value) (simp_all add: p256_b_bytes_def p256_modulus_def)

lemma p256_g_value:
  "fst p256_g = p256_of_int 0x6b17d1f2e12c4247f8bce6e563a440f277037d812deb33a0f4a13945d898c296"
  "snd p256_g = p256_of_int 0x4fe342e2fe1a7f9b8ee7eb4a7c0f9e162bce33576b315ececbb6406837bf51f5"
  unfolding p256_g_def fst_conv snd_conv
  by (subst const_element_value; simp add: p256_gx_bytes_def p256_gy_bytes_def p256_modulus_def)+

lemma p256_g_on_curve: "on_p256 p256_g"
proof -
  let ?x = "0x6b17d1f2e12c4247f8bce6e563a440f277037d812deb33a0f4a13945d898c296 :: int"
  let ?y = "0x4fe342e2fe1a7f9b8ee7eb4a7c0f9e162bce33576b315ececbb6406837bf51f5 :: int"
  let ?b = "0x5ac635d8aa3a93e7b3ebbd55769886bc651d06b0cc53b0f63bce3c3e27d2604b :: int"
  have "?y * ?y - (?x * ?x * ?x + (p256_modulus - 3) * ?x + ?b) = p256_modulus * (-981570988164258562257936101525215858910690391106138407341175333813841188485250211304702756335769806812218430760112952189411297841053183197247161910150894)"
    by (simp add: p256_modulus_def)
  then have "p256_modulus dvd ?y * ?y - (?x * ?x * ?x + (p256_modulus - 3) * ?x + ?b)" by (rule dvdI)
  then show ?thesis
    unfolding on_p256_def p256_g_value p256_b_value p256_a_value p256.of_residue_mult p256.of_residue_add p256.of_residue_eq_iff mod_eq_dvd_iff .
qed

subsection \<open>Decoding points\<close>

lemma decode_field_element_Inr: "decode_field_element bs = Inr x \<longleftrightarrow> bs = rev (p256_encode x)"
proof -
  have "p256_try_from (rev bs) = Some x \<longleftrightarrow> rev bs = p256_encode x"
    using p256_encode_try_from [of "rev bs" x] p256_try_from_encode [of x] by metis
  also have "\<dots> \<longleftrightarrow> bs = rev (p256_encode x)" by (metis rev_rev_ident)
  finally have "p256_try_from (rev bs) = Some x \<longleftrightarrow> bs = rev (p256_encode x)" .
  then show ?thesis by (cases "p256_try_from (rev bs)") (simp_all add: decode_field_element_def)
qed

lemma length_p256_encode [simp]: "length (p256_encode x) = 32"
  by (simp add: p256_encode_def)

lemma p256_encode_parity: "p256_encode x ! 0 AND 1 = 1 \<longleftrightarrow> odd (p256_as_residue x)"
proof -
  have "(32 :: nat) = Suc 31" by simp
  then have "p256_encode x ! 0 = of_nat (nat (p256_as_residue x))" unfolding p256_encode_def by (simp only: le_bytes.simps nth_Cons_0)
  then have "p256_encode x ! 0 AND 1 = 1 \<longleftrightarrow> odd (unat (of_nat (nat (p256_as_residue x)) :: byte))"
    by (simp add: and_one_eq mod_2_eq_odd unat_byte_of_nat dvd_mod_iff)
  also have "\<dots> \<longleftrightarrow> odd (nat (p256_as_residue x))" by (simp add: unat_byte_of_nat dvd_mod_iff)
  finally show ?thesis using p256.rep_bounds [of x] by (simp add: even_nat_iff)
qed

lemma p256_parity_minus: "x \<noteq> 0 \<Longrightarrow> odd (p256_as_residue (- x)) \<longleftrightarrow> even (p256_as_residue x)"
proof -
  assume "x \<noteq> 0"
  then have "p256_as_residue x \<noteq> 0" by (metis p256.of_residue_0 p256.of_residue_rep)
  then have "p256_as_residue (- x) = p256_modulus - p256_as_residue x"
    using p256.rep_bounds [of x] by (simp add: uminus_fp256.rep_eq zmod_zminus1_eq_if)
  moreover have "odd p256_modulus" by (simp add: p256_modulus_def)
  ultimately show ?thesis by simp
qed

text \<open>The two encodings of SEC 1.\<close>

definition sec1_uncompressed :: "fp256 \<times> fp256 \<Rightarrow> bytes" where
  "sec1_uncompressed q = 4 # rev (p256_encode (fst q)) @ rev (p256_encode (snd q))"

definition sec1_compressed :: "fp256 \<times> fp256 \<Rightarrow> bytes" where
  "sec1_compressed q = (if odd (p256_as_residue (snd q)) then 3 else 2) # rev (p256_encode (fst q))"

lemma affine_decode_sound: "affine_decode bs = Inr (Some q) \<Longrightarrow> on_p256 q"
  by (auto simp: affine_decode_def on_p256_def Let_def pp_select_def dest!: p256_sqrt_Some split: if_splits)

lemma affine_decode_uncompressed: "on_p256 q \<Longrightarrow> affine_decode (sec1_uncompressed q) = Inr (Some q)"
  using decode_field_element_Inr [of "rev (p256_encode (fst q))" "fst q"] decode_field_element_Inr [of "rev (p256_encode (snd q))" "snd q"]
  by (simp add: affine_decode_def sec1_uncompressed_def on_p256_def Let_def)

lemma affine_decode_compressed:
  assumes "on_p256 q"
  shows "affine_decode (sec1_compressed q) = Inr (Some q)"
proof -
  obtain x y where q: "q = (x, y)" by (cases q)
  let ?alpha = "x * x * x + p256_a * x + p256_b"
  have y: "y * y = ?alpha" using assms by (simp add: q on_p256_def)
  obtain z where z: "p256_sqrt ?alpha = Some z" "z * z = ?alpha" using p256_sqrt_square [of y] by (auto simp: y)
  have "(z - y) * (z + y) = 0" using y z(2) by (simp add: algebra_simps)
  then have zy: "z = y \<or> z = - y" by (simp add: eq_neg_iff_add_eq_0)
  have sel: "pp_select z (- z) (odd (p256_as_residue y) \<noteq> odd (p256_as_residue z)) = y"
    using zy p256_parity_minus [of y] by (cases "y = 0") (auto simp: pp_select_def)
  have first: "(if odd (p256_as_residue y) then 3 else 2 :: byte) AND 1 = 1 \<longleftrightarrow> odd (p256_as_residue y)" by simp
  show ?thesis
    using decode_field_element_Inr [of "rev (p256_encode x)" x] z(1) sel p256_encode_parity [of z] first
    by (cases "odd (p256_as_residue y)") (simp_all add: affine_decode_def sec1_compressed_def q Let_def)
qed

text \<open>What is accepted; a point with second coordinate 0 has both compressed forms.\<close>

definition sec1_forms :: "fp256 \<times> fp256 \<Rightarrow> bytes set" where
  "sec1_forms q = {sec1_uncompressed q, sec1_compressed q} \<union> (if snd q = 0 then {3 # rev (p256_encode (fst q))} else {})"

lemma affine_decode_uncompressed_form:
  assumes "affine_decode bs = Inr (Some q)" "length bs = 65"
  shows "bs = sec1_uncompressed q"
proof -
  obtain first rest where bs: "bs = first # rest" using assms(2) by (cases bs) auto
  have d: "first = 4" "decode_field_element (take 32 rest) = Inr (fst q)" "decode_field_element (drop 32 rest) = Inr (snd q)"
    using assms by (auto simp: affine_decode_def bs Let_def split: if_splits)
  then have "take 32 rest = rev (p256_encode (fst q))" "drop 32 rest = rev (p256_encode (snd q))"
    by (simp_all add: decode_field_element_Inr)
  then have "rest = rev (p256_encode (fst q)) @ rev (p256_encode (snd q))" by (metis append_take_drop_id)
  with d(1) show ?thesis by (simp add: bs sec1_uncompressed_def)
qed

lemma affine_decode_compressed_form:
  assumes "affine_decode bs = Inr (Some q)" "length bs = 33"
  shows "bs \<in> sec1_forms q"
proof -
  obtain first rest where bs: "bs = first # rest" using assms(2) by (cases bs) auto
  obtain beta where d: "decode_field_element rest = Inr (fst q)" "first = 2 \<or> first = 3"
      "snd q = pp_select beta (- beta) ((first AND 1 = 1) \<noteq> odd (p256_as_residue beta))"
    using assms by (auto simp: affine_decode_def bs Let_def p256_encode_parity split: if_splits)
  have rest: "rest = rev (p256_encode (fst q))" using d(1) by (simp add: decode_field_element_Inr)
  show ?thesis
  proof (cases "snd q = 0")
    case True
    then have "even (p256_as_residue (snd q))" by (simp add: zero_fp256.rep_eq)
    with True rest d(2) show ?thesis by (auto simp: sec1_forms_def sec1_compressed_def bs)
  next
    case False
    then have "beta \<noteq> 0" using d(3) by (auto simp: pp_select_def split: if_splits)
    then have "odd (p256_as_residue (snd q)) \<longleftrightarrow> first AND 1 = 1"
      using d(3) p256_parity_minus [of beta] by (auto simp: pp_select_def)
    with rest d(2) show ?thesis by (auto simp: sec1_forms_def sec1_compressed_def bs)
  qed
qed

lemma affine_decode_iff:
  "affine_decode bs = Inr p \<longleftrightarrow> (case p of None \<Rightarrow> bs = [0] | Some q \<Rightarrow> on_p256 q \<and> bs \<in> sec1_forms q)"
proof (cases p)
  case None
  have "affine_decode bs = Inr None \<Longrightarrow> bs = [0]" by (auto simp: affine_decode_def Let_def split: if_splits)
  moreover have "affine_decode [0] = Inr None" by (simp add: affine_decode_def)
  ultimately show ?thesis using None by auto
next
  case (Some q)
  have "bs \<in> sec1_forms q" if a: "affine_decode bs = Inr (Some q)"
  proof -
    have "length bs = 33 \<or> length bs = 65" using a by (auto simp: affine_decode_def Let_def split: if_splits)
    then show ?thesis
      using affine_decode_uncompressed_form [OF a] affine_decode_compressed_form [OF a] by (auto simp: sec1_forms_def)
  qed
  moreover have "affine_decode (3 # rev (p256_encode (fst q))) = Inr (Some q)" if q: "on_p256 q" "snd q = 0"
  proof -
    have "affine_decode (sec1_compressed q) = Inr (Some q)" by (rule affine_decode_compressed [OF q(1)])
    moreover have "sec1_compressed q = 2 # rev (p256_encode (fst q))"
      using q(2) by (simp add: sec1_compressed_def zero_fp256.rep_eq)
    ultimately obtain beta where "p256_sqrt (fst q * fst q * fst q + p256_a * fst q + p256_b) = Some beta"
        "decode_field_element (rev (p256_encode (fst q))) = Inr (fst q)" "beta = 0"
      using q(2) decode_field_element_Inr [of "rev (p256_encode (fst q))" "fst q"]
      by (cases q) (auto simp: affine_decode_def Let_def pp_select_def split: if_splits)
    then show ?thesis using q(2) by (simp add: affine_decode_def Let_def pp_select_def prod_eq_iff)
  qed
  ultimately show ?thesis
    using Some affine_decode_sound [of bs q] affine_decode_uncompressed [of q] affine_decode_compressed [of q]
    by (auto simp: sec1_forms_def split: if_splits)
qed

subsection \<open>Decoding signatures\<close>

lemma scalar_try_from_iff: "scalar_try_from (rev bs) = Some x \<longleftrightarrow> bs = rev (scalar_encode x)"
  using scalar_canonical [of "rev bs" x] scalar_roundtrip [of x] by (metis rev_rev_ident)

lemma signature_decode_iff:
  "signature_decode input = Inr sg \<longleftrightarrow>
     sig_r sg \<noteq> 0 \<and> sig_s sg \<noteq> 0 \<and> input = rev (scalar_encode (sig_r sg)) @ rev (scalar_encode (sig_s sg))"
proof -
  have l: "length (scalar_encode x) = 32" for x by (simp add: scalar_encode_def)
  show ?thesis
  proof
    assume "signature_decode input = Inr sg"
    then have d: "scalar_try_from (rev (take 32 input)) = Some (sig_r sg)" "scalar_try_from (rev (drop 32 input)) = Some (sig_s sg)"
      "sig_r sg \<noteq> 0" "sig_s sg \<noteq> 0"
      by (auto simp: signature_decode_def Let_def and_then_Inr_iff split: if_splits)
    have "input = take 32 input @ drop 32 input" by simp
    then show "sig_r sg \<noteq> 0 \<and> sig_s sg \<noteq> 0 \<and> input = rev (scalar_encode (sig_r sg)) @ rev (scalar_encode (sig_s sg))"
      using d scalar_try_from_iff by metis
  next
    assume a: "sig_r sg \<noteq> 0 \<and> sig_s sg \<noteq> 0 \<and> input = rev (scalar_encode (sig_r sg)) @ rev (scalar_encode (sig_s sg))"
    then show "signature_decode input = Inr sg"
      using scalar_roundtrip [of "sig_r sg"] scalar_roundtrip [of "sig_s sg"] by (simp add: signature_decode_def l)
  qed
qed

subsection \<open>The bits of a scalar\<close>

lemma bits_of_limb: "i < 4 \<Longrightarrow> j < 64 \<Longrightarrow> bit (to_non_montgomery s ! i) j = bit (scalar_residue s) (64 * i + j)"
  by (simp add: to_non_montgomery_def bit_simps drop_bit_eq_div [symmetric] add.commute)

lemma concat_rev_limbs:
  assumes "\<forall>i < n. \<forall>j < w. f i j = g (w * i + j)"
  shows "concat (map (\<lambda>i. map (f i) (rev [0..<w])) (rev [0..<n])) = map g (rev [0..<w * n])"
  using assms
proof (induction n)
  case (Suc n)
  have "map (f n) (rev [0..<w]) = map g (rev (map (\<lambda>j. w * n + j) [0..<w]))"
    using Suc.prems by (simp add: rev_map o_def)
  also have "map (\<lambda>j. w * n + j) [0..<w] = [w * n..<w * Suc n]" by (simp add: map_add_upt add.commute)
  finally have h: "map (f n) (rev [0..<w]) = map g (rev [w * n..<w * Suc n])" .
  have "[0..<w * Suc n] = [0..<w * n] @ [w * n..<w * Suc n]" by (metis upt_add_eq_append le0 mult_Suc_right add.commute)
  then show ?case using Suc h by simp
qed simp

lemma scalar_bits_eq: "scalar_bits s = map (bit (scalar_residue s)) (rev [0..<256])"
proof -
  have "rev (to_non_montgomery s) = map (\<lambda>i. to_non_montgomery s ! i) (rev [0..<4])"
    by (simp add: to_non_montgomery_def rev_map)
  then have "scalar_bits s = concat (map (\<lambda>i. map (bit (to_non_montgomery s ! i)) (rev [0..<64])) (rev [0..<4]))"
    by (simp add: scalar_bits_def o_def del: upt_rec_numeral)
  also have "\<dots> = map (bit (scalar_residue s)) (rev [0..<64 * 4])"
    by (rule concat_rev_limbs) (simp add: bits_of_limb)
  finally show ?thesis by simp
qed

lemma length_scalar_bits [simp]: "length (scalar_bits s) = 256"
  by (simp add: scalar_bits_eq)

section \<open>Ec Witness\<close>

text \<open>
  The witness of a signature verification, \<open>fill_ecdsa_witness\<close> of \<open>src/src/mdoc_zk/ec.rs\<close> with the record
  \<open>EcdsaWitness\<close> of \<open>src/src/mdoc_zk/layout.rs\<close>. The slots are the values that are written to them; the multi-scalar
  multiplication writes an index and, except at its last step, the accumulator.
\<close>

definition ecdsa_witness_length :: nat where
  "ecdsa_witness_length = 5 + 8 + 256 + 255 * 3"

record ecdsa_witness =
  ew_r_x :: fp256
  ew_r_y :: fp256
  ew_r_x_inverse :: fp256
  ew_neg_s_inverse :: fp256
  ew_q_x_inverse :: fp256
  ew_sum_g_q :: "fp256 list"
  ew_sum_g_r :: "fp256 list"
  ew_sum_q_r :: "fp256 list"
  ew_sum_g_q_r :: "fp256 list"
  ew_msm :: "fp256 list"

text \<open>The order of the slots, \<open>EcdsaWitness::new\<close>.\<close>

definition ecdsa_witness_slots :: "ecdsa_witness \<Rightarrow> fp256 list" where
  "ecdsa_witness_slots w =
     [ew_r_x w, ew_r_y w, ew_r_x_inverse w, ew_neg_s_inverse w, ew_q_x_inverse w] @
     ew_sum_g_q w @ ew_sum_g_r w @ ew_sum_q_r w @ ew_sum_g_q_r w @ ew_msm w"

text \<open>\<open>iter_msm\<close>: the chunks of four of the slots; the last chunk has no room for the accumulator.\<close>

definition iter_msm :: "bool list" where
  "iter_msm = map (\<lambda>chunk. length chunk = 4) (chunks 4 [0..<256 + 255 * 3])"

definition embed_scalar_in_base_field :: "fp256_scalar \<Rightarrow> fp256 res" where
  "embed_scalar_in_base_field scalar = opt_res (Panic ''unwrap'') (p256_try_from (scalar_encode scalar))"

definition coordinates :: "string \<Rightarrow> affine_point \<Rightarrow> fp256 list res" where
  "coordinates m q = opt_res (Fail m) (map_option (\<lambda>(x, y). [x, y]) q)"

record msm_table =
  mt_g :: projective_point
  mt_q :: projective_point
  mt_r :: projective_point
  mt_g_q :: projective_point
  mt_g_r :: projective_point
  mt_q_r :: projective_point
  mt_g_q_r :: projective_point

definition msm_lookup :: "msm_table \<Rightarrow> bool \<Rightarrow> bool \<Rightarrow> bool \<Rightarrow> projective_point" where
  "msm_lookup T e r s =
     (let to_add = pp_identity;
          to_add = pp_select to_add (mt_g T) (e \<and> \<not> r \<and> \<not> s);
          to_add = pp_select to_add (mt_q T) (\<not> e \<and> r \<and> \<not> s);
          to_add = pp_select to_add (mt_g_q T) (e \<and> r \<and> \<not> s);
          to_add = pp_select to_add (mt_r T) (\<not> e \<and> \<not> r \<and> s);
          to_add = pp_select to_add (mt_g_r T) (e \<and> \<not> r \<and> s);
          to_add = pp_select to_add (mt_q_r T) (\<not> e \<and> r \<and> s);
          to_add = pp_select to_add (mt_g_q_r T) (e \<and> r \<and> s)
      in to_add)"

definition msm_index :: "bool \<Rightarrow> bool \<Rightarrow> bool \<Rightarrow> fp256" where
  "msm_index e r s =
     (let index = - p256_of_int 7;
          index = pp_select index (index + p256_of_int 2) e;
          index = pp_select index (index + p256_of_int 4) r;
          index = pp_select index (index + p256_of_int 8) s
      in index)"

definition msm_step ::
  "msm_table \<Rightarrow> bool \<times> bool \<times> bool \<times> bool \<Rightarrow> projective_point \<times> fp256 list \<Rightarrow> (projective_point \<times> fp256 list) res" where
  "msm_step T slot st =
     (let (room, e, r, s) = slot; (accumulator, written) = st;
          accumulator = pp_add (pp_double accumulator) (msm_lookup T e r s);
          index = msm_index e r s
      in if room then Inr (accumulator, written @ [index, pp_x accumulator, pp_y accumulator, pp_z accumulator])
         else if pp_z accumulator \<noteq> 0 then Inl (Fail ''invalid signature'')
         else Inr (accumulator, written @ [index]))"

definition multi_scalar_multiplication ::
  "ecdsa_witness \<Rightarrow> affine_point \<Rightarrow> digest \<Rightarrow> affine_point \<Rightarrow> fp256_scalar \<Rightarrow> affine_point \<Rightarrow> fp256_scalar \<Rightarrow> ecdsa_witness res" where
  "multi_scalar_multiplication witness g e q r_scalar r_point neg_s =
     (let g_proj = projective_of_affine g;
          q_proj = projective_of_affine q;
          r_proj = projective_of_affine r_point;
          g_plus_q_proj = pp_add_affine g_proj q;
          g_plus_q_aff = affine_of_projective g_plus_q_proj;
          g_plus_r_aff = affine_of_projective (pp_add_affine g_proj r_point);
          q_plus_r_aff = affine_of_projective (pp_add_affine q_proj r_point);
          g_plus_q_plus_r_aff = affine_of_projective (pp_add_affine g_plus_q_proj r_point);
          T = \<lparr>mt_g = g_proj, mt_q = q_proj, mt_r = r_proj, mt_g_q = projective_of_affine g_plus_q_aff,
               mt_g_r = projective_of_affine g_plus_r_aff, mt_q_r = projective_of_affine q_plus_r_aff,
               mt_g_q_r = projective_of_affine g_plus_q_plus_r_aff\<rparr>
      in and_then (coordinates ''invalid public key (G + Q = O)'' g_plus_q_aff) (\<lambda>g_q.
         and_then (coordinates ''invalid signature (G + R = 0)'' g_plus_r_aff) (\<lambda>g_r.
         and_then (coordinates ''invalid signature (Q + R = 0)'' q_plus_r_aff) (\<lambda>q_r.
         and_then (coordinates ''invalid signature (G + Q + R = 0)'' g_plus_q_plus_r_aff) (\<lambda>g_q_r.
         and_then (fold_res (msm_step T) (zip iter_msm (zip (digest_bits e) (zip (scalar_bits r_scalar) (scalar_bits neg_s))))
             (pp_identity, [])) (\<lambda>(_, written).
           Inr (witness\<lparr>ew_sum_g_q := g_q, ew_sum_g_r := g_r, ew_sum_q_r := q_r, ew_sum_g_q_r := g_q_r, ew_msm := written\<rparr>)))))))"

definition fill_ecdsa_witness ::
  "ecdsa_witness \<Rightarrow> affine_point \<Rightarrow> ecdsa_signature \<Rightarrow> digest \<Rightarrow> ecdsa_witness res" where
  "fill_ecdsa_witness witness public_key signature hash =
     and_then (opt_res (Fail ''public key is the point at infinity'') public_key) (\<lambda>(qx, _).
     let r = sig_r signature; s = sig_s signature;
         g = Some p256_g; g_proj = projective_of_affine g; q_proj = projective_of_affine public_key
     in and_then (opt_res (Panic ''unwrap'') (scalar_from_hash hash)) (\<lambda>e.
        let s_inv = scalar_mul_inv s; u1 = e * s_inv; u2 = r * s_inv;
            r_point_aff = affine_of_projective (pp_add (scalar_mult g_proj (scalar_bits u1)) (scalar_mult q_proj (scalar_bits u2)))
        in and_then (opt_res (Fail ''invalid signature, recomputation of R produced point at infinity'') r_point_aff) (\<lambda>(r_x, r_y).
           and_then (embed_scalar_in_base_field r) (\<lambda>r_embedded.
           if r_embedded \<noteq> r_x then Inl (Fail ''invalid signature, recomputed R had incorrect x-coordinate'')
           else
             and_then (embed_scalar_in_base_field (- s)) (\<lambda>neg_s_embedded.
             multi_scalar_multiplication
               (witness\<lparr>ew_r_x := r_x, ew_r_y := r_y, ew_r_x_inverse := p256m2_exp r_x,
                        ew_neg_s_inverse := p256m2_exp neg_s_embedded, ew_q_x_inverse := p256m2_exp qx\<rparr>)
               g hash public_key r r_point_aff (- s))))))"

end
