(* ===== verification/Nym_Cbor.thy ===== *)
theory Nym_Cbor
  imports Vectors Codec
begin

text \<open>
  The errors of \<open>src/src/nymauth/error.rs\<close> and the CBOR walker of \<open>src/src/nymauth/cbor.rs\<close>. An item is read at a
  position of the whole input; \<open>cbor_end\<close> returns the position after it. The grammar of the items that are accepted,
  definite lengths and at most 17 levels, is the inductive predicate \<open>cbor_item\<close>, and \<open>cbor_end\<close> accepts exactly its
  words.
\<close>

subsection \<open>Errors\<close>

text \<open>\<open>NymAuthError\<close>; the message of the error value is its \<open>Display\<close> text.\<close>

datatype nym_auth_error = InvalidInput string | Circuit_Error string | UnsupportedCircuit string | Credential string
  | Unsatisfied string | Prover_Error string | Verification string

fun nym_display :: "nym_auth_error \<Rightarrow> string" where
  "nym_display (InvalidInput m) = ''nymauth invalid input: '' @ m"
| "nym_display (Circuit_Error m) = ''nymauth circuit: '' @ m"
| "nym_display (UnsupportedCircuit m) = ''nymauth unsupported circuit: '' @ m"
| "nym_display (Credential m) = ''nymauth credential: '' @ m"
| "nym_display (Unsatisfied m) = ''nymauth statement not satisfied: '' @ m"
| "nym_display (Prover_Error m) = ''nymauth prover: '' @ m"
| "nym_display (Verification m) = ''nymauth verification failed: '' @ m"

definition nym_fail :: "nym_auth_error \<Rightarrow> error" where
  "nym_fail e = Fail (nym_display e)"

abbreviation credential :: "string \<Rightarrow> error" where
  "credential m \<equiv> nym_fail (Credential m)"

subsection \<open>The standard library\<close>

text \<open>\<open><[u8]>::get\<close> of a range, and \<open>std::str::from_utf8\<close>.\<close>

definition get_range :: "'a list \<Rightarrow> nat \<Rightarrow> nat \<Rightarrow> 'a list option" where
  "get_range d a b = (if a \<le> b \<and> b \<le> length d then Some (take (b - a) (drop a d)) else None)"

definition utf8_cont :: "byte \<Rightarrow> bool" where
  "utf8_cont b \<longleftrightarrow> 0x80 \<le> b \<and> b \<le> 0xBF"

fun utf8_valid :: "bytes \<Rightarrow> bool" where
  "utf8_valid [] \<longleftrightarrow> True"
| "utf8_valid (a # r) \<longleftrightarrow>
     (if a < 0x80 then utf8_valid r
      else if 0xC2 \<le> a \<and> a \<le> 0xDF then
        (case r of b # r' \<Rightarrow> utf8_cont b \<and> utf8_valid r' | _ \<Rightarrow> False)
      else if 0xE0 \<le> a \<and> a \<le> 0xEF then
        (case r of b # c # r' \<Rightarrow>
           utf8_cont b \<and> (a = 0xE0 \<longrightarrow> 0xA0 \<le> b) \<and> (a = 0xED \<longrightarrow> b \<le> 0x9F) \<and> utf8_cont c \<and> utf8_valid r'
         | _ \<Rightarrow> False)
      else if 0xF0 \<le> a \<and> a \<le> 0xF4 then
        (case r of b # c # d # r' \<Rightarrow>
           utf8_cont b \<and> (a = 0xF0 \<longrightarrow> 0x90 \<le> b) \<and> (a = 0xF4 \<longrightarrow> b \<le> 0x8F) \<and> utf8_cont c \<and> utf8_cont d \<and> utf8_valid r'
         | _ \<Rightarrow> False)
      else False)"

text \<open>\<open>checked_add\<close> on \<open>usize\<close>.\<close>

definition checked_add :: "nat \<Rightarrow> nat \<Rightarrow> nat option" where
  "checked_add a b = (if a + b < 2 ^ 64 then Some (a + b) else None)"

subsection \<open>Heads\<close>

definition be_word :: "bytes \<Rightarrow> u64" where
  "be_word bs = fold (\<lambda>x v. push_bit 8 v OR ucast x) bs 0"

definition cbor_max_depth :: nat where
  "cbor_max_depth = 16"

definition cbor_head :: "bytes \<Rightarrow> nat \<Rightarrow> (nat \<times> u64 \<times> nat) res" where
  "cbor_head d p =
     and_then (opt_res (credential ''truncated CBOR'') (nth_opt d p)) (\<lambda>b.
     let mt = unat (drop_bit 5 b); ai = unat (b AND 31)
     in if ai \<le> 23 then Inr (mt, of_nat ai, 1)
        else if ai \<le> 27 then
          let n = 2 ^ (ai - 24)
          in and_then (opt_res (credential ''truncated CBOR head'') (get_range d (p + 1) (p + 1 + n))) (\<lambda>bytes.
             Inr (mt, be_word bytes, 1 + n))
        else Inl (credential ''indefinite or reserved CBOR length''))"

subsection \<open>Items\<close>

function (sequential) cbor_end_depth :: "bytes \<Rightarrow> nat \<Rightarrow> nat \<Rightarrow> nat res"
  and cbor_skip :: "bytes \<Rightarrow> nat \<Rightarrow> nat \<Rightarrow> nat \<Rightarrow> nat res" where
  "cbor_end_depth d p depth =
     (if cbor_max_depth < depth then Inl (credential ''CBOR nested too deeply'')
      else
        and_then (cbor_head d p) (\<lambda>(mt, v, hl).
        and_then
          (if mt = 2 \<or> mt = 3 then
             and_then (opt_res (credential ''CBOR length overflow'')
                 (Option.bind (checked_add p hl) (\<lambda>x. checked_add x (unat v)))) (\<lambda>e.
               if mt = 3 \<and> (case get_range d (p + hl) e of Some text \<Rightarrow> \<not> utf8_valid text | None \<Rightarrow> False)
               then Inl (credential ''CBOR text string is not valid UTF-8'')
               else Inr e)
           else if mt = 0 \<or> mt = 1 then Inr (p + hl)
           else if mt = 7 then
             (if hl = 2 \<and> v < 32 then Inl (credential ''non-canonical CBOR simple value'') else Inr (p + hl))
           else if mt = 6 then cbor_end_depth d (p + hl) (depth + 1)
           else if mt = 4 \<or> mt = 5 then
             and_then (opt_res (credential ''CBOR length overflow'')
                 (if mt = 5 then (if unat v * 2 < 2 ^ 64 then Some (unat v * 2) else None) else Some (unat v))) (\<lambda>count.
               if length d - p < count then Inl (credential ''truncated CBOR container'')
               else cbor_skip d (p + hl) (depth + 1) count)
           else Inl (credential ''unknown CBOR item type'')) (\<lambda>e.
        if length d < e then Inl (credential ''truncated CBOR item'') else Inr e)))"
| "cbor_skip d q depth 0 = Inr q"
| "cbor_skip d q depth (Suc n) = and_then (cbor_end_depth d q depth) (\<lambda>q. cbor_skip d q depth n)"
  by pat_completeness auto
termination
  by (relation "measures [\<lambda>x. 18 - (case x of Inl (d, p, depth) \<Rightarrow> depth | Inr (d, q, depth, n) \<Rightarrow> depth),
      \<lambda>x. case x of Inl _ \<Rightarrow> 0 | Inr (d, q, depth, n) \<Rightarrow> Suc n]")
    (auto simp: cbor_max_depth_def)

declare cbor_end_depth.simps [simp del]

definition cbor_end :: "bytes \<Rightarrow> nat \<Rightarrow> nat res" where
  "cbor_end d p = cbor_end_depth d p 0"

definition cbor_content :: "bytes \<Rightarrow> nat \<Rightarrow> bytes res" where
  "cbor_content d p =
     and_then (cbor_head d p) (\<lambda>(mt, v, hl).
       if mt \<noteq> 2 \<and> mt \<noteq> 3 then Inl (credential ''expected a CBOR string'')
       else
         and_then (opt_res (credential ''CBOR length overflow'')
             (Option.bind (checked_add p hl) (\<lambda>x. checked_add x (unat v)))) (\<lambda>e.
         opt_res (credential ''truncated CBOR string'') (get_range d (p + hl) e)))"

fun map_get_loop :: "bytes \<Rightarrow> nat \<Rightarrow> bytes \<Rightarrow> nat \<Rightarrow> nat option res" where
  "map_get_loop d q key 0 = Inr None"
| "map_get_loop d q key (Suc n) =
     and_then (cbor_end d q) (\<lambda>k_end.
     and_then (cbor_head d q) (\<lambda>(kmt, _, _).
     and_then (if kmt = 2 \<or> kmt = 3 then and_then (cbor_content d q) (\<lambda>c. Inr (c = key)) else Inr False) (\<lambda>hit.
       if hit then Inr (Some k_end)
       else and_then (cbor_end d k_end) (\<lambda>q. map_get_loop d q key n))))"

definition map_get :: "bytes \<Rightarrow> nat \<Rightarrow> bytes \<Rightarrow> nat option res" where
  "map_get d p key =
     and_then (cbor_head d p) (\<lambda>(mt, n, hl).
       if mt \<noteq> 5 then Inl (credential ''expected a CBOR map'') else map_get_loop d (p + hl) key (unat n))"

definition map_require :: "bytes \<Rightarrow> nat \<Rightarrow> bytes \<Rightarrow> string \<Rightarrow> nat res" where
  "map_require d p key what =
     and_then (map_get d p key) (opt_res (credential (what @ '' is missing'')))"

definition array_item :: "bytes \<Rightarrow> nat \<Rightarrow> nat \<Rightarrow> nat res" where
  "array_item d p i =
     and_then (cbor_head d p) (\<lambda>(mt, n, hl).
       if mt \<noteq> 4 then Inl (credential ''expected a CBOR array'')
       else if unat n \<le> i then Inl (credential ''CBOR array too short'')
       else fold_res (\<lambda>_ q. cbor_end d q) [0..<i] (p + hl))"

text \<open>\<open>hay.windows(n).position(|w| w == pat)\<close>\<close>

definition find_bytes :: "bytes \<Rightarrow> bytes \<Rightarrow> nat option" where
  "find_bytes hay pat =
     (if pat = [] \<or> length hay < length pat then None
      else List.find (\<lambda>i. take (length pat) (drop i hay) = pat) [0..<length hay - length pat + 1])"

definition found_bytes :: "bytes \<Rightarrow> bytes \<Rightarrow> string \<Rightarrow> nat res" where
  "found_bytes hay pat what = opt_res (credential (what @ '' not found'')) (find_bytes hay pat)"

subsection \<open>What the walker reads\<close>

lemma cbor_head_iff:
  "cbor_head d p = Inr (mt, v, hl) \<longleftrightarrow> p < length d \<and> mt = unat (drop_bit 5 (d ! p)) \<and>
     (let ai = unat (d ! p AND 31)
      in ai \<le> 23 \<and> v = of_nat ai \<and> hl = 1 \<or>
        24 \<le> ai \<and> ai \<le> 27 \<and> hl = 1 + 2 ^ (ai - 24) \<and> p + hl \<le> length d \<and> v = be_word (take (hl - 1) (drop (p + 1) d)))"
proof (cases "p < length d")
  case True
  then have n: "nth_opt d p = Some (d ! p)" by simp
  show ?thesis unfolding cbor_head_def n using True
    by (simp add: Let_def get_range_def and_then_Inr_iff not_le) (auto simp: not_le Suc_le_eq)
qed (simp add: cbor_head_def nth_opt_def)

lemma drop_bit_5_byte: "unat (drop_bit 5 (b :: byte)) < 8"
proof -
  have "unat b < 256" using unsigned_less [of b] by simp
  then have "unat b div 32 < 8" by simp
  then show ?thesis by (simp add: drop_bit_eq_div unat_div)
qed

lemma cbor_head_bounds:
  assumes "cbor_head d p = Inr (mt, v, hl)"
  shows "p < length d" "0 < hl" "p + hl \<le> length d" "mt < 8"
  using assms drop_bit_5_byte [of "d ! p"] by (auto simp: cbor_head_iff Let_def)

lemma cbor_head_shift: "cbor_head (x @ d) (length x + p) = Inr (mt, v, hl) \<longleftrightarrow> cbor_head d p = Inr (mt, v, hl)"
  by (simp add: cbor_head_iff)

lemma cbor_head_prefix:
  assumes "p + hl \<le> length h"
  shows "cbor_head (h @ t) p = Inr (mt, v, hl) \<longleftrightarrow> cbor_head h p = Inr (mt, v, hl)"
  using assms by (auto simp: cbor_head_iff Let_def nth_append)

lemma cbor_bounds:
  "cbor_end_depth d p depth = Inr e \<Longrightarrow> p < e \<and> e \<le> length d"
  "cbor_skip d q depth n = Inr e \<Longrightarrow> q + n \<le> e \<and> (q \<le> length d \<longrightarrow> e \<le> length d)"
proof (induction d p depth and d q depth n arbitrary: e and e rule: cbor_end_depth_cbor_skip.induct)
  case (1 d p depth)
  from "1.prems" obtain mt v hl where h: "\<not> cbor_max_depth < depth" "cbor_head d p = Inr (mt, v, hl)"
    by (subst (asm) cbor_end_depth.simps) (auto split: if_splits)
  note hb = cbor_head_bounds [OF h(2)]
  note simps = cbor_end_depth.simps [of d p depth] h if_False and_then_simps prod.case
  have len: "e \<le> length d" using "1.prems" unfolding simps by (auto split: if_splits)
  consider "mt \<in> {2, 3}" | "mt \<in> {0, 1}" | "mt = 7" | "mt = 6" | "mt = 4" | "mt = 5" using hb(4) by force
  then have "p < e"
  proof cases
    case 4
    then show ?thesis using "1.prems" hb "1.IH"(1) [OF h refl refl] unfolding simps
      by (auto split: if_splits)
  next
    case 5
    then show ?thesis using "1.prems" hb "1.IH"(2) [OF h refl refl] unfolding simps
      by (fastforce split: if_splits)
  next
    case 6
    then show ?thesis using "1.prems" hb "1.IH"(2) [OF h refl refl] unfolding simps
      by (fastforce split: if_splits)
  qed (use "1.prems" hb in \<open>unfold simps, auto simp: checked_add_def bind_eq_Some_conv split: if_splits\<close>)
  with len show ?case by simp
next
  case (3 d q depth n)
  from "3.prems" obtain m where m: "cbor_end_depth d q depth = Inr m" "cbor_skip d m depth n = Inr e" by auto
  show ?case using "3.IH"(1) [OF m(1)] "3.IH"(2) [OF m(1) m(2)] by auto
qed auto

section \<open>Nym Grammar\<close>

text \<open>
  The items the walker of \<open>Nym_Cbor\<close> accepts, as a grammar: definite lengths, text in UTF-8, simple values in their short
  form, and a bound on the nesting. \<open>cbor_end\<close> finds the end of exactly these, so no item is a proper prefix of another.
\<close>

inductive cbor_item :: "nat \<Rightarrow> bytes \<Rightarrow> bool" and cbor_seq :: "nat \<Rightarrow> nat \<Rightarrow> bytes \<Rightarrow> bool" where
  item_int: "cbor_head h 0 = Inr (mt, v, length h) \<Longrightarrow> mt = 0 \<or> mt = 1 \<Longrightarrow> cbor_item (Suc k) h"
| item_simple: "cbor_head h 0 = Inr (7, v, length h) \<Longrightarrow> \<not> (length h = 2 \<and> v < 32) \<Longrightarrow> cbor_item (Suc k) h"
| item_bytes: "cbor_head h 0 = Inr (2, v, length h) \<Longrightarrow> length s = unat v \<Longrightarrow> cbor_item (Suc k) (h @ s)"
| item_text: "cbor_head h 0 = Inr (3, v, length h) \<Longrightarrow> length s = unat v \<Longrightarrow> utf8_valid s \<Longrightarrow> cbor_item (Suc k) (h @ s)"
| item_tag: "cbor_head h 0 = Inr (6, v, length h) \<Longrightarrow> cbor_item k x \<Longrightarrow> cbor_item (Suc k) (h @ x)"
| item_array: "cbor_head h 0 = Inr (4, v, length h) \<Longrightarrow> cbor_seq k (unat v) xs \<Longrightarrow> cbor_item (Suc k) (h @ xs)"
| item_map: "cbor_head h 0 = Inr (5, v, length h) \<Longrightarrow> cbor_seq k (unat v * 2) xs \<Longrightarrow> cbor_item (Suc k) (h @ xs)"
| seq_nil: "cbor_seq k 0 []"
| seq_cons: "cbor_item k x \<Longrightarrow> cbor_seq k n xs \<Longrightarrow> cbor_seq k (Suc n) (x @ xs)"

lemma cbor_item_length:
  "cbor_item k x \<Longrightarrow> 0 < length x"
  "cbor_seq k n xs \<Longrightarrow> n \<le> length xs"
  by (induction rule: cbor_item_cbor_seq.inducts) (auto dest: cbor_head_bounds simp flip: length_greater_0_conv)

subsection \<open>What is accepted is in the grammar\<close>

definition sub_bytes :: "bytes \<Rightarrow> nat \<Rightarrow> nat \<Rightarrow> bytes" where
  "sub_bytes d a b = take (b - a) (drop a d)"

lemma sub_bytes_append: "a \<le> b \<Longrightarrow> b \<le> c \<Longrightarrow> sub_bytes d a c = sub_bytes d a b @ sub_bytes d b c"
proof -
  assume ab: "a \<le> b" "b \<le> c"
  then have "take (c - a) (drop a d) = take (b - a) (drop a d) @ take (c - b) (drop (b - a) (drop a d))"
    by (metis add_diff_cancel_left' le_Suc_ex le_diff_conv2 diff_add_assoc take_add add.commute diff_diff_left)
  then show ?thesis using ab by (simp add: sub_bytes_def)
qed

lemma length_sub_bytes: "b \<le> length d \<Longrightarrow> a \<le> b \<Longrightarrow> length (sub_bytes d a b) = b - a"
  by (simp add: sub_bytes_def)

lemma get_range_sub: "get_range d a b = (if a \<le> b \<and> b \<le> length d then Some (sub_bytes d a b) else None)"
  by (simp add: get_range_def sub_bytes_def)

lemma cbor_head_sub:
  assumes "cbor_head d p = Inr (mt, v, hl)"
  shows "cbor_head (sub_bytes d p (p + hl)) 0 = Inr (mt, v, length (sub_bytes d p (p + hl)))"
proof -
  note b = cbor_head_bounds [OF assms]
  have "cbor_head (take p d @ (take hl (drop p d) @ drop hl (drop p d))) (length (take p d) + 0) = Inr (mt, v, hl)"
    using assms b by (simp only: append_take_drop_id length_take min.absorb2 less_imp_le add_0_right)
  then have "cbor_head (take hl (drop p d) @ drop hl (drop p d)) 0 = Inr (mt, v, hl)" by (simp only: cbor_head_shift)
  then have "cbor_head (take hl (drop p d)) 0 = Inr (mt, v, hl)"
    using cbor_head_prefix [of 0 hl "take hl (drop p d)" "drop hl (drop p d)" mt v] b by simp
  then show ?thesis using b by (simp add: sub_bytes_def)
qed

lemma cbor_sound:
  "cbor_end_depth d p depth = Inr e \<Longrightarrow> cbor_item (17 - depth) (sub_bytes d p e)"
  "cbor_skip d q depth n = Inr e \<Longrightarrow> q \<le> length d \<Longrightarrow> cbor_seq (17 - depth) n (sub_bytes d q e)"
proof (induction d p depth and d q depth n arbitrary: e and e rule: cbor_end_depth_cbor_skip.induct)
  case (1 d p depth)
  from "1.prems" obtain mt v hl where h: "\<not> cbor_max_depth < depth" "cbor_head d p = Inr (mt, v, hl)"
    by (subst (asm) cbor_end_depth.simps) (auto split: if_splits)
  note hb = cbor_head_bounds [OF h(2)]
  note simps = cbor_end_depth.simps [of d p depth] h if_False and_then_simps prod.case
  let ?h = "sub_bytes d p (p + hl)"
  note head = cbor_head_sub [OF h(2)]
  obtain k where k: "17 - depth = Suc k" "17 - (depth + 1) = k" using h(1) by (cases "17 - depth") (auto simp: cbor_max_depth_def)
  have be: "p < e" "e \<le> length d" using cbor_bounds(1) [OF "1.prems"] by simp_all
  have split: "sub_bytes d p e = ?h @ sub_bytes d (p + hl) e" if "p + hl \<le> e" using that by (intro sub_bytes_append) simp_all
  have str: "p + hl + unat v = e \<and> (mt = 3 \<longrightarrow> utf8_valid (sub_bytes d (p + hl) e))" if "mt = 2 \<or> mt = 3"
    using "1.prems" that unfolding simps by (auto simp: checked_add_def bind_eq_Some_conv get_range_sub split: if_splits)
  have strl: "length (sub_bytes d (p + hl) e) = unat v" "p + hl \<le> e" if "mt = 2 \<or> mt = 3"
    using str [OF that] be(2) by (auto simp: length_sub_bytes)
  consider "mt = 0 \<or> mt = 1" | "mt = 2" | "mt = 3" | "mt = 7" | "mt = 6" | "mt = 4" | "mt = 5" using hb(4) by linarith
  then show ?case unfolding k
  proof cases
    case 1
    then have "e = p + hl" using "1.prems" unfolding simps by (auto split: if_splits)
    then show "cbor_item (Suc k) (sub_bytes d p e)" using item_int [OF head] 1 by simp
  next
    case 2
    then show "cbor_item (Suc k) (sub_bytes d p e)"
      using item_bytes [OF head [unfolded 2]] strl split by simp
  next
    case 3
    then show "cbor_item (Suc k) (sub_bytes d p e)"
      using item_text [OF head [unfolded 3]] strl str split by simp
  next
    case 4
    then have "e = p + hl" "\<not> (hl = 2 \<and> v < 32)" using "1.prems" unfolding simps by (auto split: if_splits)
    then show "cbor_item (Suc k) (sub_bytes d p e)"
      using item_simple [OF head [unfolded 4]] hb by (simp add: length_sub_bytes)
  next
    case 5
    then have r: "cbor_end_depth d (p + hl) (depth + 1) = Inr e" using "1.prems" unfolding simps by (auto split: if_splits)
    have "cbor_item k (sub_bytes d (p + hl) e)" using "1.IH"(1) [OF h refl refl] 5 r k by auto
    moreover have "p + hl \<le> e" using cbor_bounds(1) [OF r] by simp
    ultimately show "cbor_item (Suc k) (sub_bytes d p e)" using item_tag [OF head [unfolded 5]] split by simp
  next
    case 6
    then have r: "cbor_skip d (p + hl) (depth + 1) (unat v) = Inr e" "\<not> length d - p < unat v"
      using "1.prems" unfolding simps by (auto split: if_splits)
    have "cbor_seq k (unat v) (sub_bytes d (p + hl) e)" using "1.IH"(2) [OF h refl refl] 6 r k hb(3) by fastforce
    moreover have "p + hl \<le> e" using cbor_bounds(2) [OF r(1)] by simp
    ultimately show "cbor_item (Suc k) (sub_bytes d p e)" using item_array [OF head [unfolded 6]] split by simp
  next
    case 7
    then have r: "cbor_skip d (p + hl) (depth + 1) (unat v * 2) = Inr e" "\<not> length d - p < unat v * 2" "unat v * 2 < 2 ^ 64"
      using "1.prems" unfolding simps by (auto split: if_splits)
    have "cbor_seq k (unat v * 2) (sub_bytes d (p + hl) e)" using "1.IH"(2) [OF h refl refl] 7 r k hb(3) by fastforce
    moreover have "p + hl \<le> e" using cbor_bounds(2) [OF r(1)] by simp
    ultimately show "cbor_item (Suc k) (sub_bytes d p e)" using item_map [OF head [unfolded 7]] split by simp
  qed
next
  case (2 d q depth)
  then show ?case by (simp add: sub_bytes_def seq_nil)
next
  case (3 d q depth n)
  from "3.prems" obtain m where m: "cbor_end_depth d q depth = Inr m" "cbor_skip d m depth n = Inr e" by auto
  have b: "q < m" "m \<le> length d" using cbor_bounds(1) [OF m(1)] by simp_all
  have "m \<le> e" using cbor_bounds(2) [OF m(2)] by simp
  then have "sub_bytes d q e = sub_bytes d q m @ sub_bytes d m e" using b by (intro sub_bytes_append) simp_all
  then show ?case using seq_cons [OF "3.IH"(1) [OF m(1)] "3.IH"(2) [OF m b(2)]] by simp
qed

subsection \<open>What is in the grammar is accepted\<close>

lemma cbor_complete:
  "cbor_item k x \<Longrightarrow> (\<And>pre post. k \<le> 17 \<Longrightarrow> length (pre @ x @ post) < 2 ^ 64 \<Longrightarrow>
     cbor_end_depth (pre @ x @ post) (length pre) (17 - k) = Inr (length pre + length x))"
  "cbor_seq k n xs \<Longrightarrow> (\<And>pre post. k \<le> 17 \<Longrightarrow> length (pre @ xs @ post) < 2 ^ 64 \<Longrightarrow>
     cbor_skip (pre @ xs @ post) (length pre) (17 - k) n = Inr (length pre + length xs))"
proof (induction rule: cbor_item_cbor_seq.inducts)
  case (item_int h mt v k)
  have head: "cbor_head (pre @ h @ post) (length pre) = Inr (mt, v, length h)"
    using item_int(1) cbor_head_shift [of pre "h @ post" 0] cbor_head_prefix [of 0 "length h" h] by simp
  show ?case using item_int by (subst cbor_end_depth.simps) (auto simp: head cbor_max_depth_def)
next
  case (item_simple h v k)
  have head: "cbor_head (pre @ h @ post) (length pre) = Inr (7, v, length h)"
    using item_simple(1) cbor_head_shift [of pre "h @ post" 0] cbor_head_prefix [of 0 "length h" h] by simp
  show ?case using item_simple by (subst cbor_end_depth.simps) (auto simp: head cbor_max_depth_def)
next
  case (item_bytes h v s k)
  have head: "cbor_head (pre @ h @ s @ post) (length pre) = Inr (2, v, length h)"
    using item_bytes(1) cbor_head_shift [of pre "h @ s @ post" 0] cbor_head_prefix [of 0 "length h" h] by simp
  show ?case using item_bytes by (subst cbor_end_depth.simps) (auto simp: head cbor_max_depth_def checked_add_def)
next
  case (item_text h v s k)
  have head: "cbor_head (pre @ h @ s @ post) (length pre) = Inr (3, v, length h)"
    using item_text(1) cbor_head_shift [of pre "h @ s @ post" 0] cbor_head_prefix [of 0 "length h" h] by simp
  show ?case using item_text by (subst cbor_end_depth.simps) (auto simp: head cbor_max_depth_def checked_add_def get_range_def)
next
  case (item_tag h v k x)
  have head: "cbor_head (pre @ h @ x @ post) (length pre) = Inr (6, v, length h)"
    using item_tag(1) cbor_head_shift [of pre "h @ x @ post" 0] cbor_head_prefix [of 0 "length h" h] by simp
  have "17 - Suc k + 1 = 17 - k" using item_tag.prems by simp
  then have "cbor_end_depth (pre @ h @ x @ post) (length pre + length h) (17 - Suc k + 1) = Inr (length pre + length h + length x)"
    using item_tag.IH [of "pre @ h" post] item_tag.prems by simp
  then show ?case using item_tag.prems by (subst cbor_end_depth.simps) (simp add: head cbor_max_depth_def)
next
  case (item_array h v k xs)
  have head: "cbor_head (pre @ h @ xs @ post) (length pre) = Inr (4, v, length h)"
    using item_array(1) cbor_head_shift [of pre "h @ xs @ post" 0] cbor_head_prefix [of 0 "length h" h] by simp
  have "17 - Suc k + 1 = 17 - k" using item_array.prems by simp
  then have "cbor_skip (pre @ h @ xs @ post) (length pre + length h) (17 - Suc k + 1) (unat v) = Inr (length pre + length h + length xs)"
    using item_array.IH [of "pre @ h" post] item_array.prems by simp
  then show ?case
    using item_array.prems cbor_item_length(2) [OF item_array.hyps(2)] by (subst cbor_end_depth.simps) (simp add: head cbor_max_depth_def)
next
  case (item_map h v k xs)
  have head: "cbor_head (pre @ h @ xs @ post) (length pre) = Inr (5, v, length h)"
    using item_map(1) cbor_head_shift [of pre "h @ xs @ post" 0] cbor_head_prefix [of 0 "length h" h] by simp
  have "17 - Suc k + 1 = 17 - k" using item_map.prems by simp
  then have "cbor_skip (pre @ h @ xs @ post) (length pre + length h) (17 - Suc k + 1) (unat v * 2) = Inr (length pre + length h + length xs)"
    using item_map.IH [of "pre @ h" post] item_map.prems by simp
  then show ?case
    using item_map.prems cbor_item_length(2) [OF item_map.hyps(2)] by (subst cbor_end_depth.simps) (simp add: head cbor_max_depth_def)
next
  case (seq_nil k)
  then show ?case by simp
next
  case (seq_cons k x n xs)
  have "cbor_end_depth (pre @ (x @ xs) @ post) (length pre) (17 - k) = Inr (length pre + length x)"
    using seq_cons.IH(1) [of pre "xs @ post"] seq_cons.prems by simp
  moreover have "cbor_skip (pre @ (x @ xs) @ post) (length pre + length x) (17 - k) n = Inr (length pre + length x + length xs)"
    using seq_cons.IH(2) [of "pre @ x" post] seq_cons.prems by simp
  ultimately show ?case by simp
qed

lemma cbor_end_iff:
  assumes "length d < 2 ^ 64"
  shows "cbor_end d p = Inr e \<longleftrightarrow> p \<le> e \<and> e \<le> length d \<and> cbor_item 17 (sub_bytes d p e)"
proof
  assume "cbor_end d p = Inr e"
  then have c: "cbor_end_depth d p 0 = Inr e" by (simp add: cbor_end_def)
  show "p \<le> e \<and> e \<le> length d \<and> cbor_item 17 (sub_bytes d p e)"
    using cbor_bounds(1) [OF c] cbor_sound(1) [OF c] by simp
next
  assume a: "p \<le> e \<and> e \<le> length d \<and> cbor_item 17 (sub_bytes d p e)"
  then have "take p d @ sub_bytes d p e @ drop e d = d"
    by (metis append_assoc append_take_drop_id sub_bytes_append sub_bytes_def drop0 le0 diff_zero take_drop)
  moreover have "length (take p d) = p" "length (sub_bytes d p e) = e - p" using a by (simp_all add: length_sub_bytes)
  ultimately show "cbor_end d p = Inr e"
    using cbor_complete(1) [of 17 "sub_bytes d p e" "take p d" "drop e d"] a assms by (simp add: cbor_end_def)
qed

lemma cbor_item_prefix_free:
  assumes "cbor_item 17 x" "cbor_item 17 y" "x @ s = y @ t" "length (x @ s) < 2 ^ 64"
  shows "x = y" "s = t"
proof -
  have "cbor_end_depth (x @ s) 0 0 = Inr (length x)" "cbor_end_depth (y @ t) 0 0 = Inr (length y)"
    using cbor_complete(1) [OF assms(1), of Nil s] cbor_complete(1) [OF assms(2), of Nil t] assms(3,4) by simp_all
  then have "length x = length y" using assms(3) by simp
  then show "x = y" "s = t" using assms(3) by simp_all
qed

end
