(* ===== verification/Nym_Ecdsa.thy ===== *)
theory Nym_Ecdsa
  imports Ec Nym_Cbor
begin

text \<open>
  The 1,037 values of a signature verification, \<open>src/src/nymauth/ecdsa.rs\<close>. A \<open>BigUint\<close> is a natural number and
  \<open>modpow\<close> the power modulo the order, by squaring. The source is independent of \<open>src/src/mdoc_zk/ec.rs\<close>; the two are
  compared in \<open>Nym_Ecdsa_Equiv\<close>.
\<close>

definition trace_len :: nat where "trace_len = 13 + 4 * 256"

text \<open>The constants are given as hexadecimal strings; these are their bytes, most significant first.\<close>

definition p_hex :: nat where "p_hex = 0xffffffff00000001000000000000000000000000ffffffffffffffffffffffff"
definition n_hex :: nat where "n_hex = 0xffffffff00000000ffffffffffffffffbce6faada7179e84f3b9cac2fc632551"
definition b_hex :: nat where "b_hex = 0x5ac635d8aa3a93e7b3ebbd55769886bc651d06b0cc53b0f63bce3c3e27d2604b"
definition gx_hex :: nat where "gx_hex = 0x6b17d1f2e12c4247f8bce6e563a440f277037d812deb33a0f4a13945d898c296"
definition gy_hex :: nat where "gy_hex = 0x4fe342e2fe1a7f9b8ee7eb4a7c0f9e162bce33576b315ececbb6406837bf51f5"

definition const_be :: "nat \<Rightarrow> bytes" where
  "const_be h = to_be_bytes 32 h"

definition from_bytes_be :: "bytes \<Rightarrow> nat" where
  "from_bytes_be b = le_value (rev b)"

definition be32 :: "nat \<Rightarrow> bytes" where
  "be32 v = to_be_bytes 32 v"

definition nym_unsat :: "string \<Rightarrow> error" where
  "nym_unsat m = nym_fail (Unsatisfied m)"

definition fe_be :: "bytes \<Rightarrow> fp256 res" where
  "fe_be b = opt_res (nym_fail (InvalidInput ''a coordinate is not below p'')) (p256_try_from (rev b))"

definition fe_le :: "fp256 \<Rightarrow> bytes" where
  "fe_le x = p256_encode x"

definition fe_be_bytes :: "fp256 \<Rightarrow> bytes" where
  "fe_be_bytes x = rev (fe_le x)"

definition reduce_mod_p :: "bytes \<Rightarrow> bytes" where
  "reduce_mod_p v = be32 (from_bytes_be v mod from_bytes_be (const_be p_hex))"

definition be_bit :: "bytes \<Rightarrow> nat \<Rightarrow> nat" where
  "be_bit b i = unat (drop_bit (i mod 8) (b ! (31 - i div 8)) AND 1)"

record curve =
  cv_a :: fp256
  cv_b3 :: fp256
  cv_n :: nat

type_synonym p3 = "fp256 \<times> fp256 \<times> fp256"

fun nym_dbl :: "curve \<Rightarrow> p3 \<Rightarrow> p3" where
  "nym_dbl c (x, y, z) =
     (let two = p256_of_int 2;
          t0 = x * x; t1 = y * y; t2 = z * z;
          t3 = two * x * y;
          zz = two * x * z;
          yz = two * y * z;
          u = cv_a c * zz + cv_b3 c * t2;
          v = t1 - u; w = t1 + u;
          m = cv_a c * t0 - p256_of_int 9 * t2 + cv_b3 c * zz;
          n = p256_of_int 3 * t0 + cv_a c * t2
      in (t3 * v - yz * m, v * w + n * m, p256_of_int 4 * yz * t1))"

fun nym_add :: "curve \<Rightarrow> p3 \<Rightarrow> p3 \<Rightarrow> p3" where
  "nym_add c (x1, y1, z1) (x2, y2, z2) =
     (let t0 = x1 * x2; t1 = y1 * y2; t2 = z1 * z2;
          t3 = (x1 + y1) * (x2 + y2) - t0 - t1;
          t4 = (x1 + z1) * (x2 + z2) - t0 - t2;
          t5 = (y1 + z1) * (y2 + z2) - t1 - t2;
          zh = cv_a c * t4 + cv_b3 c * t2;
          xh = t1 - zh; zo = t1 + zh;
          r1 = p256_of_int 3 * t0 + cv_a c * t2;
          q4 = cv_b3 c * t4 + cv_a c * (t0 - cv_a c * t2)
      in (t3 * xh - t5 * q4, xh * zo + r1 * q4, t5 * zo + t3 * r1))"

definition nym_identity :: p3 where
  "nym_identity = (0, 1, 0)"

text \<open>\<open>BigUint::bits\<close>, the number of significant bits.\<close>

fun nat_bits :: "nat \<Rightarrow> nat" where
  "nat_bits k = (if k = 0 then 0 else Suc (nat_bits (k div 2)))"

declare nat_bits.simps [simp del]

definition nym_scalar_mul :: "curve \<Rightarrow> p3 \<Rightarrow> nat \<Rightarrow> p3" where
  "nym_scalar_mul c p k =
     fold (\<lambda>i acc. let acc = nym_dbl c acc in if bit k i then nym_add c acc p else acc) (rev [0..<nat_bits k]) nym_identity"

definition nym_affine :: "p3 \<Rightarrow> (fp256 \<times> fp256) option" where
  "nym_affine p = (case p of (x, y, z) \<Rightarrow> if z = 0 then None else let zi = p256m2_exp z in Some (x * zi, y * zi))"

definition nym_from_affine :: "fp256 \<Rightarrow> fp256 \<Rightarrow> p3" where
  "nym_from_affine x y = (x, y, 1)"

definition nym_on_curve :: "curve \<Rightarrow> fp256 \<Rightarrow> fp256 \<Rightarrow> fp256 \<Rightarrow> bool" where
  "nym_on_curve c b x y \<longleftrightarrow> y * y = x * x * x + cv_a c * x + b"

definition validate_public_key :: "bytes \<Rightarrow> bytes \<Rightarrow> unit res" where
  "validate_public_key x y =
     (let invalid = \<lambda>m. nym_fail (InvalidInput m);
          coordinate = \<lambda>v. case fe_be v of Inr f \<Rightarrow> Inr f | Inl _ \<Rightarrow> Inl (invalid ''issuer key coordinate is not below p'')
      in and_then (coordinate x) (\<lambda>xf.
         and_then (coordinate y) (\<lambda>yf.
         and_then (fe_be (const_be b_hex)) (\<lambda>b.
         let c = \<lparr>cv_a = - p256_of_int 3, cv_b3 = 0, cv_n = 0\<rparr>
         in if nym_on_curve c b xf yf then Inr () else Inl (invalid ''issuer key is not a point on P-256'')))))"

fun modpow :: "nat \<Rightarrow> nat \<Rightarrow> nat \<Rightarrow> nat" where
  "modpow b e n =
     (if e = 0 then 1 mod n
      else if even e then modpow (b * b mod n) (e div 2) n
      else b * modpow (b * b mod n) (e div 2) n mod n)"

declare modpow.simps [simp del]

definition nym_inv :: "fp256 \<Rightarrow> string \<Rightarrow> fp256 res" where
  "nym_inv x what = (if x = 0 then Inl (nym_unsat what) else Inr (p256m2_exp x))"

definition nym_aff :: "p3 \<Rightarrow> string \<Rightarrow> (fp256 \<times> fp256) res" where
  "nym_aff p what = opt_res (nym_unsat what) (nym_affine p)"

definition nym_ladder_step :: "curve \<Rightarrow> p3 list \<Rightarrow> bytes \<Rightarrow> bytes \<Rightarrow> bytes \<Rightarrow> nat \<Rightarrow> p3 \<times> fp256 list \<Rightarrow> p3 \<times> fp256 list" where
  "nym_ladder_step c table eb rx mb j st =
     (let (acc, out) = st;
          pos = 255 - j;
          idx = be_bit eb pos + 2 * be_bit rx pos + 4 * be_bit mb pos;
          t = table ! idx;
          acc = (if j = 0 then (case t of (t0, t1, t2) \<Rightarrow> (t0 * t1, t1 * t1, t1 * t2))
                 else nym_add c (nym_dbl c acc) t)
      in (acc, out @ [p256_of_int (2 * int idx) - p256_of_int 7] @ (case acc of (a0, a1, a2) \<Rightarrow> [a0, a1, a2])))"

definition nym_verification :: "bytes \<Rightarrow> bytes \<Rightarrow> bytes \<Rightarrow> bytes \<Rightarrow> bytes \<Rightarrow> fp256 list res" where
  "nym_verification qx qy d r s =
     and_then (fe_be (const_be b_hex)) (\<lambda>b.
     let n = from_bytes_be (const_be n_hex);
         c = \<lparr>cv_a = - p256_of_int 3, cv_b3 = p256_of_int 3 * b, cv_n = n\<rparr>;
         rb = from_bytes_be r; sb = from_bytes_be s
     in if rb = 0 \<or> n \<le> rb \<or> sb = 0 \<or> n \<le> sb then Inl (nym_unsat ''signature scalar out of range'')
        else
          and_then (fe_be qx) (\<lambda>qxf.
          and_then (fe_be qy) (\<lambda>qyf.
          if \<not> nym_on_curve c b qxf qyf then Inl (nym_unsat ''key is not on the curve'')
          else
            let e = from_bytes_be d mod n;
                w = modpow sb (n - 2) n;
                u1 = e * w mod n;
                u2 = rb * w mod n
            in and_then (fe_be (const_be gx_hex)) (\<lambda>gx.
               and_then (fe_be (const_be gy_hex)) (\<lambda>gy.
               let g = nym_from_affine gx gy;
                   q = nym_from_affine qxf qyf;
                   rp = nym_add c (nym_scalar_mul c g u1) (nym_scalar_mul c q u2)
               in and_then (nym_aff rp ''R is the identity'') (\<lambda>(rxf, ryf).
               let rx = fe_be_bytes rxf
               in if from_bytes_be rx mod n \<noteq> rb then Inl (nym_unsat ''signature does not verify'')
                  else
                    let m = n - sb; eb = be32 e; mb = be32 m
                    in and_then (nym_aff (nym_add c g q) ''G + Q is the identity'') (\<lambda>gq.
                       and_then (nym_aff (nym_add c g rp) ''G + R is the identity'') (\<lambda>gr.
                       and_then (nym_aff (nym_add c rp q) ''R + Q is the identity'') (\<lambda>rq.
                       let rq_p = nym_from_affine (fst rq) (snd rq)
                       in and_then (nym_aff (nym_add c g rq_p) ''G + R + Q is the identity'') (\<lambda>grq.
                       and_then (nym_inv rxf ''rx is zero'') (\<lambda>rx_inv.
                       and_then (fe_be mb) (\<lambda>mf.
                       and_then (nym_inv mf ''m is zero'') (\<lambda>m_inv.
                       and_then (nym_inv qxf ''Qx is zero'') (\<lambda>qx_inv.
                       let head = [rxf, ryf, rx_inv, m_inv, qx_inv, fst gq, snd gq, fst gr, snd gr, fst rq, snd rq, fst grq, snd grq];
                           table = [nym_identity, g, q, nym_from_affine (fst gq) (snd gq), nym_from_affine rxf ryf,
                                    nym_from_affine (fst gr) (snd gr), rq_p, nym_from_affine (fst grq) (snd grq)];
                           (acc, out) = fold (nym_ladder_step c table eb rx mb) [0..<256] (table ! 0, head)
                       in if fst acc \<noteq> 0 \<or> snd (snd acc) \<noteq> 0 then Inl (nym_unsat ''the ladder does not end at the identity'')
                          else Inr out))))))))))))))"

section \<open>Nym Ecdsa Equiv\<close>

text \<open>
  The two implementations of P-256 of the repository agree: \<open>src/src/nymauth/ecdsa.rs\<close> and \<open>src/src/mdoc_zk/ec.rs\<close>
  compute the same coordinates, not only the same points, in addition, doubling, scalar multiplication and the
  multi-scalar ladder.
\<close>

definition as_pp :: "p3 \<Rightarrow> projective_point" where
  "as_pp p = (case p of (x, y, z) \<Rightarrow> \<lparr>pp_x = x, pp_y = y, pp_z = z\<rparr>)"

definition nym_curve :: "nat \<Rightarrow> curve" where
  "nym_curve n = \<lparr>cv_a = - p256_of_int 3, cv_b3 = p256_of_int 3 * p256_b, cv_n = n\<rparr>"

lemma as_pp_simps [simp]: "as_pp (x, y, z) = \<lparr>pp_x = x, pp_y = y, pp_z = z\<rparr>" "as_pp nym_identity = pp_identity"
  by (simp_all add: as_pp_def nym_identity_def pp_identity_def)

lemma as_pp_eq: "p = (pp_x (as_pp p), pp_y (as_pp p), pp_z (as_pp p))"
  by (cases p) simp

lemma nym_add_eq: "as_pp (nym_add (nym_curve n) p q) = pp_add (as_pp p) (as_pp q)"
  by (cases p; cases q) (simp add: nym_curve_def pp_add_def Let_def p256_numeral algebra_simps)

lemma nym_dbl_eq: "as_pp (nym_dbl (nym_curve n) p) = pp_double (as_pp p)"
  by (cases p) (simp add: nym_curve_def pp_double_def Let_def p256_numeral algebra_simps)

lemma nym_affine_eq: "nym_affine p = affine_of_projective (as_pp p)"
  by (cases p) (simp add: nym_affine_def affine_of_projective_def Let_def)

lemma nym_from_affine_eq: "as_pp (nym_from_affine x y) = projective_of_affine (Some (x, y))"
  by (simp add: nym_from_affine_def projective_of_affine_def)

subsection \<open>Scalar multiplication\<close>

lemma nat_bits_bound: "k < 2 ^ nat_bits k"
proof (induction k rule: nat_bits.induct)
  case (1 k)
  then show ?case by (subst nat_bits.simps) (cases "k = 0"; simp; linarith)
qed

lemma nat_bits_least: "k < 2 ^ n \<Longrightarrow> nat_bits k \<le> n"
proof (induction k arbitrary: n rule: nat_bits.induct)
  case (1 k)
  show ?case
  proof (cases "k = 0")
    case False
    with 1(2) obtain m where m: "n = Suc m" by (cases n) auto
    with 1(2) have "k div 2 < 2 ^ m" by simp
    from 1(1) [OF False this] False m show ?thesis by (subst nat_bits.simps) simp
  qed (simp add: nat_bits.simps)
qed

lemma scalar_fold_eq:
  "as_pp (fold (\<lambda>i acc. let acc = nym_dbl (nym_curve n) acc in if bit k i then nym_add (nym_curve n) acc p else acc) is acc) =
   fold (\<lambda>b accumulator. let double = pp_double accumulator; plus_one = pp_add double (as_pp p) in pp_select double plus_one b)
     (map (bit k) is) (as_pp acc)"
  by (induction "is" arbitrary: acc) (simp_all add: Let_def pp_select_def nym_add_eq nym_dbl_eq)

lemma scalar_mult_leading_zeros: "scalar_mult p (replicate m False @ bs) = scalar_mult p bs"
  by (induction m) (simp_all add: scalar_mult_def Let_def pp_select_def pp_identity_double)

lemma nym_scalar_mul_eq:
  assumes "k < 2 ^ m"
  shows "as_pp (nym_scalar_mul (nym_curve n) p k) = scalar_mult (as_pp p) (map (bit k) (rev [0..<m]))"
proof -
  let ?l = "nat_bits k"
  have l: "?l \<le> m" using assms by (rule nat_bits_least)
  have zero: "\<not> bit k i" if "?l \<le> i" for i
  proof -
    have "k < 2 ^ i" using nat_bits_bound [of k] power_increasing [OF that, of "2 :: nat"] by linarith
    then show ?thesis by (simp add: bit_iff_odd)
  qed
  have "[0..<m] = [0..<?l] @ [?l..<m]" using l by (metis le0 le_add_diff_inverse upt_add_eq_append)
  then have "map (bit k) (rev [0..<m]) = map (bit k) (rev [?l..<m]) @ map (bit k) (rev [0..<?l])" by simp
  also have "map (bit k) (rev [?l..<m]) = map (\<lambda>_. False) (rev [?l..<m])" by (rule map_cong [OF refl]) (simp add: zero)
  also have "\<dots> = replicate (m - ?l) False" by (simp add: map_replicate_const)
  finally show ?thesis
    unfolding nym_scalar_mul_def scalar_fold_eq by (simp add: scalar_mult_leading_zeros) (simp add: scalar_mult_def)
qed

subsection \<open>Bits\<close>

lemma bit_le_value: "j < 8 \<Longrightarrow> k < length bs \<Longrightarrow> bit (le_value bs) (8 * k + j) = bit (bs ! k) j"
proof (induction bs arbitrary: k)
  case (Cons b bs)
  have v: "le_value (b # bs) = unat b + 256 * le_value bs" by simp
  have b: "unat b < 256" using unsigned_less [of b] by simp
  show ?case
  proof (cases k)
    case 0
    have "256 * le_value bs = 2 ^ j * (2 * (2 ^ (7 - j) * le_value bs))"
    proof -
      have "(256 :: nat) = 2 ^ j * (2 * 2 ^ (7 - j))" using Cons.prems(1)
        by (simp only: power_Suc [symmetric] power_add [symmetric]) simp
      then show ?thesis by simp
    qed
    have "(unat b + 2 ^ j * X) div 2 ^ j = unat b div 2 ^ j + X" for X by simp
    then have "(unat b + 256 * le_value bs) div 2 ^ j = unat b div 2 ^ j + 2 * (2 ^ (7 - j) * le_value bs)"
      unfolding \<open>256 * le_value bs = _\<close> .
    moreover have "bit b j \<longleftrightarrow> bit (unat b) j" by (simp add: bit_simps)
    ultimately show ?thesis using 0 by (simp add: bit_iff_odd)
  next
    case (Suc i)
    have "(unat b + 256 * le_value bs) div 256 = le_value bs" using b by simp
    moreover have "(2 :: nat) ^ (8 * Suc i + j) = 256 * 2 ^ (8 * i + j)" by (simp add: power_add)
    ultimately have "(unat b + 256 * le_value bs) div 2 ^ (8 * Suc i + j) = le_value bs div 2 ^ (8 * i + j)"
      by (simp only: div_mult2_eq)
    then show ?thesis using Cons.IH [of i] Cons.prems Suc by (simp add: bit_iff_odd)
  qed
qed simp

lemma be_bit_eq:
  assumes "length b = 32" "i < 256"
  shows "be_bit b i = of_bool (bit (from_bytes_be b) i)"
proof -
  have "31 - i div 8 < 32" "i div 8 < 32" using assms(2) by linarith+
  then have n: "b ! (31 - i div 8) = rev b ! (i div 8)" using assms(1) by (simp add: rev_nth)
  have "bit (from_bytes_be b) (8 * (i div 8) + i mod 8) = bit (rev b ! (i div 8)) (i mod 8)"
    unfolding from_bytes_be_def by (rule bit_le_value) (use assms \<open>i div 8 < 32\<close> in simp_all)
  moreover have "drop_bit m (w :: byte) AND 1 = of_bool (bit w m)" for w m
    by (simp add: and_one_eq mod_2_eq_odd bit_iff_odd_drop_bit)
  ultimately show ?thesis by (simp add: be_bit_def n)
qed

lemma digest_bits_eq:
  assumes "length d = 32"
  shows "digest_bits d = map (bit (from_bytes_be d)) (rev [0..<256])"
proof -
  have "d = map (\<lambda>i. rev d ! i) (rev [0..<32])"
    using assms by (intro nth_equalityI) (simp_all add: rev_nth del: upt_rec_numeral)
  then have "digest_bits d = concat (map (\<lambda>i. map (bit (rev d ! i)) (rev [0..<8])) (rev [0..<32]))"
    unfolding digest_bits_def by (metis (no_types, lifting) map_map o_apply map_eq_conv)
  also have "\<dots> = map (bit (from_bytes_be d)) (rev [0..<8 * 32])"
    unfolding from_bytes_be_def by (rule concat_rev_limbs) (use assms in \<open>simp add: bit_le_value\<close>)
  finally show ?thesis by (simp del: upt_rec_numeral)
qed

lemma scalar_bits_digest: "scalar_bits s = digest_bits (rev (scalar_encode s))"
proof -
  have "nat (scalar_residue s) < 256 ^ 32" using scalar.rep_bounds [of s] by (simp add: p256_order_def)
  then have "from_bytes_be (rev (scalar_encode s)) = nat (scalar_residue s)" by (simp add: from_bytes_be_def scalar_encode_def)
  moreover have "bit (nat (scalar_residue s)) i = bit (scalar_residue s) i" for i
    using scalar.rep_bounds [of s] by (metis bit_of_nat_iff_bit int_nat_eq of_nat_nat)
  ultimately show ?thesis by (simp add: scalar_bits_eq digest_bits_eq scalar_encode_def del: upt_rec_numeral)
qed

subsection \<open>The ladder\<close>

lemma chunks_append_multiple:
  "length xs = k * n \<Longrightarrow> 0 < n \<Longrightarrow> chunks n (xs @ ys) = chunks n xs @ chunks n ys"
proof (induction k arbitrary: xs)
  case (Suc k)
  have a: "xs = take n xs @ drop n xs" and l: "length (take n xs) = n" "length (drop n xs) = k * n" using Suc.prems by simp_all
  have "chunks n (xs @ ys) = take n xs # chunks n (drop n xs @ ys)"
  proof -
    have "xs @ ys = take n xs @ (drop n xs @ ys)" by simp
    then show ?thesis by (simp only: chunks_append [OF l(1) Suc.prems(2)])
  qed
  also have "\<dots> = take n xs # chunks n (drop n xs) @ chunks n ys" using Suc.IH [OF l(2) Suc.prems(2)] by simp
  also have "\<dots> = (take n xs # chunks n (drop n xs)) @ chunks n ys" by simp
  also have "take n xs # chunks n (drop n xs) = chunks n xs" by (metis a chunks_append [OF l(1) Suc.prems(2)])
  finally show ?case .
qed simp

lemma iter_msm_eq: "iter_msm = map (\<lambda>j. j < 255) [0..<256]"
proof -
  have "[0..<256 + 255 * 3] = [0..<255 * 4] @ [1020 :: nat]" using upt_Suc_append [of 0 1020] by simp
  then have "chunks 4 [0..<256 + 255 * 3] = chunks 4 [0..<255 * 4] @ chunks 4 [1020 :: nat]"
    using chunks_append_multiple [of "[0..<255 * 4]" 255 4 "[1020]"] by (simp only: length_upt)
  also have "chunks 4 [0..<255 * 4] = map (\<lambda>i. take 4 (drop (i * 4) [0..<255 * 4])) [0..<255]"
    by (rule chunks_eq) (simp_all del: upt_rec_numeral)
  finally have "iter_msm = map (\<lambda>i. length (take 4 (drop (i * 4) [0..<255 * 4 :: nat])) = 4) [0..<255] @ [False]"
    by (simp add: iter_msm_def o_def del: upt_rec_numeral)
  also have "map (\<lambda>i. length (take 4 (drop (i * 4) [0..<255 * 4 :: nat])) = 4) [0..<255] = map (\<lambda>j. j < 255) [0..<255 :: nat]"
    by (rule map_cong [OF refl]) (simp del: upt_rec_numeral)
  also have "map (\<lambda>j. j < 255) [0..<255 :: nat] @ [False] = map (\<lambda>j. j < 255) ([0..<255] @ [255])" by (simp del: upt_rec_numeral)
  also have "[0..<255] @ [255] = [0..<256 :: nat]" using upt_Suc_append [of 0 255] by (simp del: upt_rec_numeral)
  finally show ?thesis .
qed

definition table_of :: "p3 list \<Rightarrow> msm_table" where
  "table_of table =
     \<lparr>mt_g = as_pp (table ! 1), mt_q = as_pp (table ! 2), mt_r = as_pp (table ! 4), mt_g_q = as_pp (table ! 3),
      mt_g_r = as_pp (table ! 5), mt_q_r = as_pp (table ! 6), mt_g_q_r = as_pp (table ! 7)\<rparr>"

lemma msm_lookup_table:
  "table ! 0 = nym_identity \<Longrightarrow> msm_lookup (table_of table) e r s = as_pp (table ! (of_bool e + 2 * of_bool r + 4 * of_bool s))"
  by (cases e; cases r; cases s) (simp_all add: msm_lookup_def table_of_def pp_select_def numeral_2_eq_2 numeral_3_eq_3)

lemma msm_index_eq:
  "msm_index e r s = p256_of_int (2 * int (of_bool e + 2 * of_bool r + 4 * of_bool s)) - p256_of_int 7"
  by (cases e; cases r; cases s) (simp_all add: msm_index_def pp_select_def p256_numeral p256.of_residue_0)

lemma ladder_start: "pp_add (pp_double pp_identity) (as_pp t) =
    as_pp (case t of (t0, t1, t2) \<Rightarrow> (t0 * t1, t1 * t1, t1 * t2))"
  by (cases t) (simp add: pp_identity_double, simp add: pp_add_def pp_identity_def Let_def algebra_simps)

definition ladder_slot :: "bytes \<Rightarrow> bytes \<Rightarrow> bytes \<Rightarrow> nat \<Rightarrow> bool \<times> bool \<times> bool \<times> bool" where
  "ladder_slot eb rx mb j = (j < 255, bit (from_bytes_be eb) (255 - j), bit (from_bytes_be rx) (255 - j), bit (from_bytes_be mb) (255 - j))"

lemma ladder_slots:
  assumes "length eb = 32" "length rx = 32" "length mb = 32"
  shows "zip iter_msm (zip (digest_bits eb) (zip (digest_bits rx) (digest_bits mb))) = map (ladder_slot eb rx mb) [0..<256]"
proof (rule nth_equalityI)
  fix j assume "j < length (zip iter_msm (zip (digest_bits eb) (zip (digest_bits rx) (digest_bits mb))))"
  then have "j < 256" by (simp add: iter_msm_eq digest_bits_eq assms del: upt_rec_numeral)
  then show "zip iter_msm (zip (digest_bits eb) (zip (digest_bits rx) (digest_bits mb))) ! j = map (ladder_slot eb rx mb) [0..<256] ! j"
    by (simp add: iter_msm_eq digest_bits_eq assms ladder_slot_def rev_nth del: upt_rec_numeral)
qed (simp add: iter_msm_eq digest_bits_eq assms del: upt_rec_numeral)

lemma ladder_step:
  assumes "length eb = 32" "length rx = 32" "length mb = 32" "table ! 0 = nym_identity" "j < 256" "j = 0 \<Longrightarrow> as_pp acc = pp_identity"
    and "nym_ladder_step (nym_curve n) table eb rx mb j (acc, head @ w) = (acc', out')"
  shows "\<exists>i. pp_add (pp_double (as_pp acc)) (case ladder_slot eb rx mb j of (_, e, r, s) \<Rightarrow> msm_lookup (table_of table) e r s) = as_pp acc' \<and>
    i = (case ladder_slot eb rx mb j of (_, e, r, s) \<Rightarrow> msm_index e r s) \<and>
    out' = head @ (w @ [i, pp_x (as_pp acc'), pp_y (as_pp acc'), pp_z (as_pp acc')])"
proof -
  have b: "be_bit eb (255 - j) = of_bool (bit (from_bytes_be eb) (255 - j))" "be_bit rx (255 - j) = of_bool (bit (from_bytes_be rx) (255 - j))"
    "be_bit mb (255 - j) = of_bool (bit (from_bytes_be mb) (255 - j))"
    using assms(1-3,5) by (simp_all add: be_bit_eq)
  let ?idx = "be_bit eb (255 - j) + 2 * be_bit rx (255 - j) + 4 * be_bit mb (255 - j)"
  have l: "(case ladder_slot eb rx mb j of (_, e, r, s) \<Rightarrow> msm_lookup (table_of table) e r s) = as_pp (table ! ?idx)"
    "(case ladder_slot eb rx mb j of (_, e, r, s) \<Rightarrow> msm_index e r s) = p256_of_int (2 * int ?idx) - p256_of_int 7"
    unfolding ladder_slot_def prod.case msm_lookup_table [OF assms(4)] msm_index_eq b by (rule refl)+
  let ?next = "if j = 0 then (case table ! ?idx of (t0, t1, t2) \<Rightarrow> (t0 * t1, t1 * t1, t1 * t2))
    else nym_add (nym_curve n) (nym_dbl (nym_curve n) acc) (table ! ?idx)"
  have o: "acc' = ?next" "out' = head @ (w @ [p256_of_int (2 * int ?idx) - p256_of_int 7] @ (case ?next of (a0, a1, a2) \<Rightarrow> [a0, a1, a2]))"
    using assms(7) unfolding nym_ladder_step_def Let_def prod.case by (simp_all only: prod.inject append_assoc) auto
  have "pp_add (pp_double (as_pp acc)) (as_pp (table ! ?idx)) = as_pp acc'"
    unfolding o(1) by (cases "j = 0") (simp_all add: ladder_start assms(6) nym_add_eq nym_dbl_eq)
  moreover have "(case acc' of (a0, a1, a2) \<Rightarrow> [a0, a1, a2]) = [pp_x (as_pp acc'), pp_y (as_pp acc'), pp_z (as_pp acc')]"
    by (cases acc') simp
  ultimately show ?thesis using o l by simp
qed

lemma ladder_prefix:
  assumes "length eb = 32" "length rx = 32" "length mb = 32" "table ! 0 = nym_identity" "k \<le> 255"
  shows "\<exists>acc w. fold (nym_ladder_step (nym_curve n) table eb rx mb) [0..<k] (nym_identity, head) = (acc, head @ w) \<and>
    fold_res (msm_step (table_of table)) (map (ladder_slot eb rx mb) [0..<k]) (pp_identity, []) = Inr (as_pp acc, w) \<and>
    (k = 0 \<longrightarrow> as_pp acc = pp_identity) \<and> length w = 4 * k"
  using assms(5)
proof (induction k)
  case (Suc k)
  then obtain acc w where IH: "fold (nym_ladder_step (nym_curve n) table eb rx mb) [0..<k] (nym_identity, head) = (acc, head @ w)"
    "fold_res (msm_step (table_of table)) (map (ladder_slot eb rx mb) [0..<k]) (pp_identity, []) = Inr (as_pp acc, w)"
    "k = 0 \<Longrightarrow> as_pp acc = pp_identity" "length w = 4 * k" by auto
  obtain acc' out' where s: "nym_ladder_step (nym_curve n) table eb rx mb k (acc, head @ w) = (acc', out')" by fastforce
  have "k < 256" "k < 255" using Suc.prems by simp_all
  from ladder_step [OF assms(1-4) this(1) IH(3) s] obtain i where
    1: "pp_add (pp_double (as_pp acc)) (case ladder_slot eb rx mb k of (_, e, r, s) \<Rightarrow> msm_lookup (table_of table) e r s) = as_pp acc'"
    "i = (case ladder_slot eb rx mb k of (_, e, r, s) \<Rightarrow> msm_index e r s)"
    "out' = head @ (w @ [i, pp_x (as_pp acc'), pp_y (as_pp acc'), pp_z (as_pp acc')])" by blast
  have "msm_step (table_of table) (ladder_slot eb rx mb k) (as_pp acc, w) = Inr (as_pp acc', w @ [i, pp_x (as_pp acc'), pp_y (as_pp acc'), pp_z (as_pp acc')])"
    using 1 \<open>k < 255\<close> by (simp add: msm_step_def ladder_slot_def Let_def)
  then show ?case using IH s 1(3) by (simp add: fold_res_append)
qed simp

theorem ladder_eq:
  assumes "length eb = 32" "length rx = 32" "length mb = 32" "table ! 0 = nym_identity"
    and "fold (nym_ladder_step (nym_curve n) table eb rx mb) [0..<256] (table ! 0, head) = (acc, out)"
  shows "fold_res (msm_step (table_of table)) (zip iter_msm (zip (digest_bits eb) (zip (digest_bits rx) (digest_bits mb)))) (pp_identity, []) =
      (if snd (snd acc) \<noteq> 0 then Inl (Fail ''invalid signature'') else Inr (as_pp acc, drop (length head) (take (length head + 1021) out)))"
    "length out = length head + 1024"
proof -
  obtain acc0 w where P: "fold (nym_ladder_step (nym_curve n) table eb rx mb) [0..<255] (nym_identity, head) = (acc0, head @ w)"
    "fold_res (msm_step (table_of table)) (map (ladder_slot eb rx mb) [0..<255]) (pp_identity, []) = Inr (as_pp acc0, w)" "length w = 1020"
    using ladder_prefix [OF assms(1-4), of 255 n head] by (auto simp del: upt_rec_numeral)
  have u: "[0..<256] = [0..<255] @ [255 :: nat]" using upt_Suc_append [of 0 255] by (simp del: upt_rec_numeral)
  have s: "nym_ladder_step (nym_curve n) table eb rx mb 255 (acc0, head @ w) = (acc, out)"
    using assms(5) by (simp add: u assms(4) P(1) del: upt_rec_numeral)
  have "255 < (256 :: nat)" "255 = (0 :: nat) \<Longrightarrow> as_pp acc0 = pp_identity" by simp_all
  from ladder_step [OF assms(1-4) this s] obtain i where
    1: "pp_add (pp_double (as_pp acc0)) (case ladder_slot eb rx mb 255 of (_, e, r, s) \<Rightarrow> msm_lookup (table_of table) e r s) = as_pp acc"
    "i = (case ladder_slot eb rx mb 255 of (_, e, r, s) \<Rightarrow> msm_index e r s)"
    "out = head @ (w @ [i, pp_x (as_pp acc), pp_y (as_pp acc), pp_z (as_pp acc)])" by blast
  have z: "pp_z (as_pp acc) = snd (snd acc)" by (cases acc) simp
  have "msm_step (table_of table) (ladder_slot eb rx mb 255) (as_pp acc0, w) =
      (if snd (snd acc) \<noteq> 0 then Inl (Fail ''invalid signature'') else Inr (as_pp acc, w @ [i]))"
    using 1(1,2) z by (simp add: msm_step_def ladder_slot_def Let_def)
  moreover have "drop (length head) (take (length head + 1021) out) = w @ [i]" using 1(3) P(3) by simp
  ultimately show "fold_res (msm_step (table_of table)) (zip iter_msm (zip (digest_bits eb) (zip (digest_bits rx) (digest_bits mb)))) (pp_identity, []) =
      (if snd (snd acc) \<noteq> 0 then Inl (Fail ''invalid signature'') else Inr (as_pp acc, drop (length head) (take (length head + 1021) out)))"
    unfolding ladder_slots [OF assms(1-3)] by (simp add: u fold_res_append P(2) del: upt_rec_numeral)
  show "length out = length head + 1024" using 1(3) P(3) by simp
qed

subsection \<open>Keys and traces\<close>

lemma modpow_power: "modpow b e n = b ^ e mod n"
proof (induction b e n rule: modpow.induct)
  case (1 b e n)
  have sq: "(b * b mod n) ^ k mod n = b ^ (2 * k) mod n" for k
    by (simp add: power_mod power_mult power2_eq_square)
  show ?case
  proof (cases "e = 0")
    case False
    have e: "e = 2 * (e div 2) + e mod 2" by simp
    show ?thesis
    proof (cases "even e")
      case True
      then show ?thesis using 1(1) [OF False True] e by (subst modpow.simps) (simp add: False sq)
    next
      case odd: False
      have "b * (b ^ (2 * (e div 2)) mod n) mod n = b ^ Suc (2 * (e div 2)) mod n" by (simp add: mod_mult_right_eq)
      then show ?thesis using 1(2) [OF False odd] odd by (subst modpow.simps) (simp add: False sq)
    qed
  qed (simp add: modpow.simps)
qed

lemma fe_be_Inr: "fe_be b = Inr x \<longleftrightarrow> b = rev (p256_encode x)"
  using decode_field_element_Inr [of b x]
  by (cases "p256_try_from (rev b)") (simp_all add: fe_be_def decode_field_element_def)

lemma fe_be_encoded: "fe_be (rev (p256_encode x)) = Inr x"
  by (simp add: fe_be_Inr)

lemma const_be_element:
  assumes "int v < p256_modulus"
  shows "fe_be (const_be v) = Inr (p256_of_int (int v))"
proof -
  have "v < 256 ^ 32" using assms by (simp add: p256_modulus_def)
  moreover have "p256_as_residue (p256_of_int (int v)) = int v" using assms by (simp add: p256.rep_of_residue)
  ultimately show ?thesis unfolding fe_be_Inr const_be_def to_be_bytes_def p256_encode_def by (simp only: nat_int)
qed

lemma nym_constants_eq:
  "fe_be (const_be b_hex) = Inr p256_b" "fe_be (const_be gx_hex) = Inr (fst p256_g)" "fe_be (const_be gy_hex) = Inr (snd p256_g)"
  unfolding p256_b_value p256_g_value
  using const_be_element [of b_hex] const_be_element [of gx_hex] const_be_element [of gy_hex]
  by (simp_all add: b_hex_def gx_hex_def gy_hex_def p256_modulus_def)

lemma validate_public_key_iff:
  "validate_public_key x y = Inr u \<longleftrightarrow> (\<exists>q. x = rev (p256_encode (fst q)) \<and> y = rev (p256_encode (snd q)) \<and> on_p256 q)"
proof -
  have "- p256_of_int 3 = p256_a" by (simp add: p256_a_minus_3 p256_numeral)
  then have "validate_public_key x y = Inr u \<longleftrightarrow> (\<exists>xf yf. fe_be x = Inr xf \<and> fe_be y = Inr yf \<and> on_p256 (xf, yf))"
    by (cases "fe_be x"; cases "fe_be y") (simp_all add: validate_public_key_def Let_def nym_constants_eq nym_on_curve_def on_p256_def)
  then show ?thesis unfolding fe_be_Inr by auto
qed

lemma nym_verification_length:
  assumes "nym_verification qx qy d r s = Inr out"
  shows "length out = trace_len"
proof -
  have L: "length (snd (fold (nym_ladder_step c table eb rx mb) js (acc, out))) = length out + 4 * length js" for c table eb rx mb js acc out
    by (induction js arbitrary: acc out) (simp_all add: nym_ladder_step_def Let_def case_prod_beta)
  show ?thesis using assms
    by (auto simp: L nym_verification_def Let_def case_prod_beta trace_len_def and_then_Inr_iff simp del: upt_rec_numeral split: if_splits)
qed

end
