(* ===== verification/Nym_Challenge.thy ===== *)
theory Nym_Challenge
  imports Nym_Cbor Sha256
begin

text \<open>
  The verifier's challenge, \<open>src/src/nymauth/challenge.rs\<close>: the session transcript and the digest the device key signs. A
  \<open>&str\<close> is its UTF-8 bytes; SHA-256 is the parameter \<open>sha\<close>. The encoder's heads are read back by the walker, so
  a derived session transcript is always well formed, and the digest determines the request, unless two different
  messages with the same hash are found.
\<close>

definition ascii :: "string \<Rightarrow> bytes" where
  "ascii s = map of_char s"

definition nym_invalid :: "string \<Rightarrow> error" where
  "nym_invalid m = nym_fail (InvalidInput m)"

definition min_nonce_chars :: nat where "min_nonce_chars = 16"
definition max_field_bytes :: nat where "max_field_bytes = 4096"

record nym_challenge =
  nc_session_transcript :: bytes
  nc_challenge_digest :: bytes

definition chal_head :: "nat \<Rightarrow> nat \<Rightarrow> bytes" where
  "chal_head major n =
     (let m = push_bit 5 (of_nat major) :: byte
      in if n \<le> 23 then [m OR of_nat n]
         else if n \<le> 255 then [m OR 24, of_nat n]
         else if n \<le> 65535 then [m OR 25, of_nat (n div 256), of_nat n]
         else (m OR 26) # to_be_bytes 4 n)"

definition chal_tstr :: "bytes \<Rightarrow> bytes" where
  "chal_tstr s = chal_head 3 (length s) @ s"

definition chal_bstr :: "bytes \<Rightarrow> bytes" where
  "chal_bstr b = chal_head 2 (length b) @ b"

definition chal_field :: "string \<Rightarrow> bytes \<Rightarrow> unit res" where
  "chal_field name v =
     (if v = [] then Inl (nym_invalid (name @ '' must not be empty''))
      else if max_field_bytes < length v then Inl (nym_invalid (name @ '' is longer than 4096 bytes''))
      else Inr ())"

text \<open>\<open>nonce.chars().count()\<close>: every character has one byte that is no continuation.\<close>

definition chars_count :: "bytes \<Rightarrow> nat" where
  "chars_count s = length (filter (\<lambda>b. \<not> utf8_cont b) s)"

definition challenge_message :: "bytes \<Rightarrow> bytes \<Rightarrow> bytes" where
  "challenge_message st doc_type =
     (let auth = chal_head 4 4 @ chal_tstr (ascii ''DeviceAuthentication'') @ st @ chal_tstr doc_type @ chal_head 6 24 @
            chal_bstr [0xa0];
          payload = chal_head 6 24 @ chal_bstr auth
      in chal_head 4 4 @ chal_tstr (ascii ''Signature1'') @ chal_bstr [0xa1, 0x01, 0x26] @ chal_bstr [] @ chal_bstr payload)"

definition challenge_digest :: "(bytes \<Rightarrow> bytes) \<Rightarrow> bytes \<Rightarrow> bytes \<Rightarrow> bytes res" where
  "challenge_digest sha session_transcript doc_type =
     and_then (chal_field ''doc_type'' doc_type) (\<lambda>_.
     let st = session_transcript;
         well_formed = (case cbor_head st 0 of Inr (mt, n, _) \<Rightarrow> mt = 4 \<and> n = 3 | Inl _ \<Rightarrow> False) \<and>
           (case cbor_end st 0 of Inr e \<Rightarrow> e = length st | Inl _ \<Rightarrow> False)
     in if \<not> well_formed then Inl (nym_invalid ''session transcript must be one definite CBOR array of three items'')
        else Inr (sha (challenge_message st doc_type)))"

definition handover_info :: "bytes \<Rightarrow> bytes \<Rightarrow> bytes \<Rightarrow> bytes" where
  "handover_info origin nonce thumb = chal_head 4 3 @ chal_tstr origin @ chal_tstr nonce @ thumb"

definition session_transcript :: "(bytes \<Rightarrow> bytes) \<Rightarrow> bytes \<Rightarrow> bytes" where
  "session_transcript sha info =
     chal_head 4 3 @ [0xf6, 0xf6] @ chal_head 4 2 @ chal_tstr (ascii ''OpenID4VPDCAPIHandover'') @ chal_bstr (sha info)"

definition derive_challenge ::
  "(bytes \<Rightarrow> bytes) \<Rightarrow> bytes \<Rightarrow> bytes \<Rightarrow> bytes \<Rightarrow> bytes option \<Rightarrow> nym_challenge res" where
  "derive_challenge sha origin nonce doc_type jwk_thumbprint =
     and_then (chal_field ''origin'' origin) (\<lambda>_.
     and_then (chal_field ''nonce'' nonce) (\<lambda>_.
     and_then (chal_field ''doc_type'' doc_type) (\<lambda>_.
     if chars_count nonce < min_nonce_chars then Inl (nym_invalid ''nonce must be at least 16 characters'')
     else
       and_then
         (case jwk_thumbprint of None \<Rightarrow> Inr [0xf6]
          | Some t \<Rightarrow> if length t = 32 then Inr (chal_bstr t) else Inl (nym_invalid ''jwk_thumbprint must be 32 bytes'')) (\<lambda>thumb.
       let st = session_transcript sha (handover_info origin nonce thumb)
       in and_then (challenge_digest sha st doc_type) (\<lambda>digest.
          Inr \<lparr>nc_session_transcript = st, nc_challenge_digest = digest\<rparr>)))))"

definition verifier_input :: "(bytes \<Rightarrow> bytes) \<Rightarrow> bytes \<Rightarrow> bytes res" where
  "verifier_input sha client_id = and_then (chal_field ''client_id'' client_id) (\<lambda>_. Inr (sha client_id))"

subsection \<open>Heads are read back\<close>

lemma chal_head_byte:
  assumes "major < 8" "a < 27"
  shows "drop_bit 5 (push_bit 5 (of_nat major) OR of_nat a :: byte) = of_nat major"
    and "(push_bit 5 (of_nat major) OR of_nat a :: byte) AND 31 = of_nat a"
proof -
  have "major \<in> set [0..<8]" "a \<in> set [0..<27]" using assms by simp_all
  then have "drop_bit 5 (push_bit 5 (of_nat major) OR of_nat a :: byte) = of_nat major \<and>
      (push_bit 5 (of_nat major) OR of_nat a :: byte) AND 31 = of_nat a"
    by (simp add: upt_rec) (elim disjE; simp)
  then show "drop_bit 5 (push_bit 5 (of_nat major) OR of_nat a :: byte) = of_nat major"
    "(push_bit 5 (of_nat major) OR of_nat a :: byte) AND 31 = of_nat a" by simp_all
qed

lemma unat_push_or:
  fixes v :: u64 and x :: byte
  assumes "unat v < 2 ^ 56"
  shows "unat (push_bit 8 v OR ucast x) = 256 * unat v + unat x"
proof -
  have x: "unat x < 256" using unsigned_less [of x] by simp
  have "push_bit 8 v OR ucast x = push_bit 8 v + ucast x"
  proof (rule disjunctive_add [symmetric])
    show "\<not> bit (push_bit 8 v) n \<or> \<not> bit (ucast x :: u64) n" for n
      using bit_imp_le_length [of x n] by (auto simp: bit_simps)
  qed
  moreover have "unat (push_bit 8 v) = 256 * unat v"
    using assms by (simp add: push_bit_eq_mult unat_word_ariths)
  moreover have "unat (ucast x :: u64) = unat x" using x by (simp add: unsigned_ucast_eq take_bit_nat_eq_self)
  ultimately show ?thesis using assms x by (simp add: unat_word_ariths)
qed

lemma unat_be_word:
  assumes "length bs \<le> 8"
  shows "unat (be_word bs) = le_value (rev bs)"
  using assms
proof (induction bs rule: rev_induct)
  case (snoc b bs)
  have "le_value (rev bs) < 256 ^ length bs" using le_value_bound [of "rev bs"] by simp
  also have "\<dots> \<le> 256 ^ 7" using snoc.prems by (intro power_increasing) simp_all
  finally have "unat (be_word bs) < 2 ^ 56" using snoc by simp
  then have "unat (push_bit 8 (be_word bs) OR ucast b) = 256 * unat (be_word bs) + unat b" by (rule unat_push_or)
  then show ?case using snoc by (simp add: be_word_def)
qed (simp add: be_word_def)

lemma be_word_of_nat: "length bs \<le> 8 \<Longrightarrow> le_value (rev bs) = n \<Longrightarrow> be_word bs = of_nat n"
proof -
  assume "length bs \<le> 8" "le_value (rev bs) = n"
  then have "unat (be_word bs) = n" using unat_be_word by simp
  moreover have "be_word bs = of_nat (unat (be_word bs))" by simp
  ultimately show ?thesis by (simp only:)
qed

lemma chal_head_read:
  assumes "major < 8" "n < 2 ^ 32"
  shows "cbor_head (chal_head major n @ t) 0 = Inr (major, of_nat n, length (chal_head major n))"
proof -
  have m: "unat (of_nat major :: byte) = major" using assms(1) by (simp add: unsigned_of_nat take_bit_nat_eq_self)
  have a: "unat (of_nat a :: byte) = a" if "a < 27" for a using that by (simp add: unsigned_of_nat take_bit_nat_eq_self)
  note byte = chal_head_byte [OF assms(1)]
  consider "n \<le> 23" | "23 < n" "n \<le> 255" | "255 < n" "n \<le> 65535" | "65535 < n" by linarith
  then show ?thesis
  proof cases
    case 1
    then show ?thesis using byte [of n] by (simp add: cbor_head_iff chal_head_def m a)
  next
    case 2
    then have "be_word [of_nat n] = of_nat n" by (intro be_word_of_nat) (simp_all add: unat_byte_of_nat)
    with 2 show ?thesis using byte [of 24] by (simp add: cbor_head_iff chal_head_def m)
  next
    case 3
    have "n div 256 < 256" "n mod 256 + 256 * (n div 256) = n" using 3 by simp_all
    then have "be_word [of_nat (n div 256), of_nat n] = of_nat n"
      by (intro be_word_of_nat) (simp_all add: unat_byte_of_nat)
    with 3 show ?thesis using byte [of 25] by (simp add: cbor_head_iff chal_head_def m)
  next
    case 4
    have "be_word (to_be_bytes 4 n) = of_nat n"
      using assms(2) by (intro be_word_of_nat) (simp_all add: to_be_bytes_def del: le_bytes.simps)
    moreover have "length (to_be_bytes 4 n) = 4" by (simp add: to_be_bytes_def)
    ultimately show ?thesis using 4 byte [of 26] by (simp add: cbor_head_iff chal_head_def m)
  qed
qed

lemma chal_head_read_all: "major < 8 \<Longrightarrow> n < 2 ^ 32 \<Longrightarrow> cbor_head (chal_head major n) 0 = Inr (major, of_nat n, length (chal_head major n))"
  using chal_head_read [of major n Nil] by simp

lemma unat_length: "n < 2 ^ 32 \<Longrightarrow> unat (of_nat n :: u64) = n"
  by (simp add: unsigned_of_nat take_bit_nat_eq_self)

lemma chal_head_inj:
  assumes "major < 8" "n < 2 ^ 32" "major' < 8" "n' < 2 ^ 32" "chal_head major n @ x = chal_head major' n' @ y"
  shows "n = n'" "x = y"
proof -
  note 1 = chal_head_read [OF assms(1,2), of x] and 2 = chal_head_read [OF assms(3,4), of y]
  have "(major, of_nat n :: u64, length (chal_head major n)) = (major', of_nat n', length (chal_head major' n'))"
    by (rule sum.inject(2) [THEN iffD1]) (rule trans [OF 1 [symmetric, unfolded assms(5)] 2])
  then have e: "of_nat n = (of_nat n' :: u64) \<and> length (chal_head major n) = length (chal_head major' n')"
    unfolding prod.inject by (rule conjunct2)
  have "unat (of_nat n :: u64) = unat (of_nat n' :: u64)" by (rule arg_cong [OF conjunct1 [OF e]])
  then show "n = n'" by (simp only: unat_length assms(2,4))
  show "x = y" using e [THEN conjunct2] assms(5) append_eq_append_conv by blast
qed

lemma chal_string_inj:
  assumes "length a < 2 ^ 32" "length b < 2 ^ 32" "major < 8"
    "chal_head major (length a) @ a @ x = chal_head major (length b) @ b @ y"
  shows "a = b" "x = y"
proof -
  have "length a = length b" "a @ x = b @ y"
    using chal_head_inj [OF assms(3,1,3,2,4)] by blast+
  then show "a = b" "x = y" using append_eq_append_conv [of a b x y] by blast+
qed

lemma chal_tstr_inj: "length a < 2 ^ 32 \<Longrightarrow> length b < 2 ^ 32 \<Longrightarrow> chal_tstr a @ x = chal_tstr b @ y \<Longrightarrow> a = b \<and> x = y"
  unfolding chal_tstr_def append_assoc by (rule conjI) (rule chal_string_inj [of a b 3]; simp)+

lemma chal_bstr_inj: "length a < 2 ^ 32 \<Longrightarrow> length b < 2 ^ 32 \<Longrightarrow> chal_bstr a @ x = chal_bstr b @ y \<Longrightarrow> a = b \<and> x = y"
  unfolding chal_bstr_def append_assoc by (rule conjI) (rule chal_string_inj [of a b 2]; simp)+

lemma chal_string_items:
  assumes "length s < 2 ^ 32"
  shows "utf8_valid s \<Longrightarrow> cbor_item (Suc k) (chal_tstr s)" "cbor_item (Suc k) (chal_bstr s)"
  unfolding chal_tstr_def chal_bstr_def using assms
  by (auto intro!: item_text [OF chal_head_read_all] item_bytes [OF chal_head_read_all] simp: unat_length)

subsection \<open>A derived transcript is well formed\<close>

lemma cbor_item_simple_value: "cbor_item (Suc k) [0xf6]"
proof (rule item_simple)
  show "cbor_head [0xf6] 0 = Inr (7, 22, length [0xf6 :: byte])" by (simp add: cbor_head_iff)
qed simp

lemma utf8_handover: "utf8_valid (ascii ''OpenID4VPDCAPIHandover'')" "length (ascii ''OpenID4VPDCAPIHandover'') = 22"
  by (simp_all add: ascii_def)

lemma session_transcript_item:
  assumes "length (sha info) < 2 ^ 32"
  shows "cbor_item 17 (session_transcript sha info)"
proof -
  have 17: "17 = Suc (16 :: nat)" "16 = Suc (15 :: nat)" "15 = Suc (14 :: nat)" by simp_all
  have "cbor_seq 15 2 (chal_tstr (ascii ''OpenID4VPDCAPIHandover'') @ chal_bstr (sha info) @ [])"
    unfolding numeral_2_eq_2 17(3)
    by (intro seq_cons seq_nil chal_string_items assms utf8_handover) (simp add: utf8_handover)
  then have "cbor_item 16 (chal_head 4 2 @ chal_tstr (ascii ''OpenID4VPDCAPIHandover'') @ chal_bstr (sha info) @ [])"
    unfolding 17(2) by (intro item_array [OF chal_head_read_all]) simp_all
  then have "cbor_seq 16 3 ([0xf6] @ [0xf6] @ (chal_head 4 2 @ chal_tstr (ascii ''OpenID4VPDCAPIHandover'') @ chal_bstr (sha info) @ []) @ [])"
    using cbor_item_simple_value [of 15] unfolding numeral_3_eq_3 17(2) by (intro seq_cons seq_nil)
  then have "cbor_item 17 (chal_head 4 3 @ [0xf6] @ [0xf6] @ (chal_head 4 2 @ chal_tstr (ascii ''OpenID4VPDCAPIHandover'') @ chal_bstr (sha info) @ []) @ [])"
    unfolding 17(1) by (intro item_array [OF chal_head_read_all]) simp_all
  then show ?thesis by (simp add: session_transcript_def)
qed

lemma chal_head_length: "length (chal_head major n) \<le> 5"
  by (simp add: chal_head_def Let_def to_be_bytes_def)

lemma session_transcript_length: "length (session_transcript sha info) \<le> length (sha info) + 47"
  using chal_head_length [of 4 3] chal_head_length [of 4 2] chal_head_length [of 3 22] chal_head_length [of 2 "length (sha info)"]
  by (simp add: session_transcript_def chal_tstr_def chal_bstr_def utf8_handover)

lemma session_transcript_accepted:
  assumes "length (sha info) < 2 ^ 32" "chal_field ''doc_type'' doc_type = Inr ()"
  shows "challenge_digest sha (session_transcript sha info) doc_type =
    Inr (sha (challenge_message (session_transcript sha info) doc_type))"
proof -
  let ?st = "session_transcript sha info"
  have "length ?st < 2 ^ 64" using session_transcript_length [of sha info] assms(1) by simp
  then have "cbor_end ?st 0 = Inr (length ?st)"
    using session_transcript_item [of sha info, OF assms(1)] by (simp add: cbor_end_iff sub_bytes_def)
  moreover have "cbor_head ?st 0 = Inr (4, 3, length (chal_head 4 3))"
    unfolding session_transcript_def using chal_head_read [of 4 3] by simp
  ultimately show ?thesis using assms(2) by (simp add: challenge_digest_def)
qed

subsection \<open>The digest determines the request\<close>

lemma chal_field_Inr: "chal_field name v = Inr u \<longleftrightarrow> v \<noteq> [] \<and> length v \<le> 4096"
  by (auto simp: chal_field_def max_field_bytes_def)

lemma challenge_message_inj:
  assumes "cbor_item 17 st" "cbor_item 17 st'" "length st < 2 ^ 31" "length st' < 2 ^ 31"
    "length d \<le> 4096" "length d' \<le> 4096" "challenge_message st d = challenge_message st' d'"
  shows "st = st'" "d = d'"
proof -
  let ?auth = "\<lambda>st d. chal_head 4 4 @ chal_tstr (ascii ''DeviceAuthentication'') @ st @ chal_tstr d @ chal_head 6 24 @ chal_bstr [0xa0]"
  have da: "length (ascii ''DeviceAuthentication'') = 20" by (simp add: ascii_def)
  have al: "length (?auth st d) < 2 ^ 32 - 5" if "length st < 2 ^ 31" "length d \<le> 4096" for st d
    using that chal_head_length [of 4 4] chal_head_length [of 3 20] chal_head_length [of 3 "length d"] chal_head_length [of 6 24]
      chal_head_length [of 2 1] by (simp add: chal_tstr_def chal_bstr_def da)
  have pl: "length (chal_head 6 24 @ chal_bstr (?auth st d)) < 2 ^ 32" if "length (?auth st d) < 2 ^ 32 - 16" for st d
    using that chal_head_length [of 6 24] chal_head_length [of 2 "length (?auth st d)"] by (simp add: chal_bstr_def)
  have small: "length (?auth st d) < 2 ^ 32 - 16" if "length st < 2 ^ 31" "length d \<le> 4096" for st d
    using that chal_head_length [of 4 4] chal_head_length [of 3 20] chal_head_length [of 3 "length d"] chal_head_length [of 6 24]
      chal_head_length [of 2 1] by (simp add: chal_tstr_def chal_bstr_def da)
  have "chal_bstr (chal_head 6 24 @ chal_bstr (?auth st d)) @ [] = chal_bstr (chal_head 6 24 @ chal_bstr (?auth st' d')) @ []"
    using assms(7) unfolding challenge_message_def Let_def by simp
  from chal_bstr_inj [OF pl [OF small [OF assms(3,5)]] pl [OF small [OF assms(4,6)]] this]
  have "chal_bstr (?auth st d) @ [] = chal_bstr (?auth st' d') @ []" by simp
  from chal_bstr_inj [OF _ _ this] have a: "?auth st d = ?auth st' d'"
    using al [OF assms(3,5)] al [OF assms(4,6)] by simp
  then have e: "st @ (chal_tstr d @ chal_head 6 24 @ chal_bstr [0xa0]) = st' @ (chal_tstr d' @ chal_head 6 24 @ chal_bstr [0xa0])"
    by simp
  have l: "length (st @ (chal_tstr d @ chal_head 6 24 @ chal_bstr [0xa0])) < 2 ^ 64" using al [OF assms(3,5)] by simp
  show "st = st'" by (rule cbor_item_prefix_free(1) [OF assms(1,2) e l])
  have "chal_tstr d @ (chal_head 6 24 @ chal_bstr [0xa0]) = chal_tstr d' @ (chal_head 6 24 @ chal_bstr [0xa0])"
    by (rule cbor_item_prefix_free(2) [OF assms(1,2) e l])
  from chal_tstr_inj [OF _ _ this] show "d = d'" using assms(5,6) by simp
qed

lemma challenge_digestE:
  assumes "challenge_digest sha st d = Inr x" "length st < 2 ^ 64"
  shows "cbor_item 17 st" "d \<noteq> []" "length d \<le> 4096" "x = sha (challenge_message st d)"
  using assms cbor_end_iff [of st 0 "length st"]
  by (auto simp: challenge_digest_def Let_def chal_field_Inr sub_bytes_def split: if_splits sum.splits)

lemma challenge_digest_binds:
  assumes "challenge_digest sha st d = Inr x" "challenge_digest sha st' d' = Inr x" "length st < 2 ^ 31" "length st' < 2 ^ 31"
  shows "st = st' \<and> d = d' \<or>
    challenge_message st d \<noteq> challenge_message st' d' \<and> sha (challenge_message st d) = sha (challenge_message st' d')"
proof -
  have l: "length st < 2 ^ 64" "length st' < 2 ^ 64" using assms(3,4) by simp_all
  note 1 = challenge_digestE [OF assms(1) l(1)] and 2 = challenge_digestE [OF assms(2) l(2)]
  have "sha (challenge_message st d) = sha (challenge_message st' d')" using 1(4) 2(4) by simp
  then show ?thesis using challenge_message_inj [OF 1(1) 2(1) assms(3,4) 1(3) 2(3)] by blast
qed

subsection \<open>Deriving a challenge\<close>

abbreviation field_ok :: "bytes \<Rightarrow> bool" where
  "field_ok v \<equiv> v \<noteq> [] \<and> length v \<le> 4096"

abbreviation thumb_bytes :: "bytes option \<Rightarrow> bytes" where
  "thumb_bytes t \<equiv> (case t of None \<Rightarrow> [0xf6] | Some t \<Rightarrow> chal_bstr t)"

abbreviation derived :: "(bytes \<Rightarrow> bytes) \<Rightarrow> bytes \<Rightarrow> bytes \<Rightarrow> bytes option \<Rightarrow> bytes" where
  "derived sha origin nonce t \<equiv> session_transcript sha (handover_info origin nonce (thumb_bytes t))"

lemma derive_challenge_iff:
  assumes "\<And>m. length (sha m) = 32"
  shows "derive_challenge sha origin nonce d t = Inr c \<longleftrightarrow>
    field_ok origin \<and> field_ok nonce \<and> field_ok d \<and> 16 \<le> chars_count nonce \<and> (\<forall>b. t = Some b \<longrightarrow> length b = 32) \<and>
    c = \<lparr>nc_session_transcript = derived sha origin nonce t,
         nc_challenge_digest = sha (challenge_message (derived sha origin nonce t) d)\<rparr>"
proof -
  have a: "challenge_digest sha (session_transcript sha i) d = Inr (sha (challenge_message (session_transcript sha i) d))"
    if "field_ok d" for i
    by (rule session_transcript_accepted) (use that in \<open>simp_all add: assms chal_field_Inr\<close>)
  show ?thesis
    unfolding derive_challenge_def and_then_Inr_iff chal_field_Inr Let_def
    using a by (auto simp: min_nonce_chars_def and_then_Inr_iff split: option.splits if_splits)
qed

lemma derive_challenge_error:
  assumes "\<And>m. length (sha m) = 32" "derive_challenge sha origin nonce d t = Inl e"
  shows "\<exists>m. e = nym_invalid m" "\<not> (field_ok origin \<and> field_ok nonce \<and> field_ok d \<and> 16 \<le> chars_count nonce \<and> (\<forall>b. t = Some b \<longrightarrow> length b = 32))"
proof -
  show "\<not> (field_ok origin \<and> field_ok nonce \<and> field_ok d \<and> 16 \<le> chars_count nonce \<and> (\<forall>b. t = Some b \<longrightarrow> length b = 32))"
    using derive_challenge_iff [of sha origin nonce d t, OF assms(1)] assms(2) by auto
  show "\<exists>m. e = nym_invalid m" using assms(2)
    by (auto simp: derive_challenge_def chal_field_def Let_def challenge_digest_def and_then_Inl_iff
        split: if_splits option.splits)
qed

lemma handover_info_inj:
  assumes "length origin \<le> 4096" "length origin' \<le> 4096" "length nonce \<le> 4096" "length nonce' \<le> 4096"
    "\<forall>b. t = Some b \<longrightarrow> length b = 32" "\<forall>b. t' = Some b \<longrightarrow> length b = 32"
    "handover_info origin nonce (thumb_bytes t) = handover_info origin' nonce' (thumb_bytes t')"
  shows "origin = origin' \<and> nonce = nonce' \<and> t = t'"
proof -
  have "chal_tstr origin @ (chal_tstr nonce @ thumb_bytes t) = chal_tstr origin' @ (chal_tstr nonce' @ thumb_bytes t')"
    using assms(7) by (simp add: handover_info_def)
  from chal_tstr_inj [OF _ _ this] have o: "origin = origin'" "chal_tstr nonce @ thumb_bytes t = chal_tstr nonce' @ thumb_bytes t'"
    using assms(1,2) by simp_all
  from chal_tstr_inj [OF _ _ o(2)] have n: "nonce = nonce'" "thumb_bytes t = thumb_bytes t'" using assms(3,4) by simp_all
  have h: "length (chal_head 2 32) = 2" by (simp add: chal_head_def)
  have "t = t'"
  proof (cases t; cases t')
    fix b b' assume t: "t = Some b" "t' = Some b'"
    then show ?thesis using chal_bstr_inj [of b b' Nil Nil] n(2) assms(5,6) by simp
  qed (use n(2) assms(5,6) h in \<open>auto simp: chal_bstr_def dest: arg_cong [where f = length]\<close>)
  with o n show ?thesis by simp
qed

lemma session_transcript_inj:
  assumes "\<And>m. length (sha m) = 32" "session_transcript sha i = session_transcript sha i'"
  shows "sha i = sha i'"
proof -
  have "chal_bstr (sha i) @ [] = chal_bstr (sha i') @ []" using assms(2) by (simp add: session_transcript_def)
  from chal_bstr_inj [OF _ _ this] show ?thesis by (simp add: assms(1))
qed

text \<open>
  Equal digests come from equal requests, or the two handover infos or the two signed messages are a collision of the
  hash function.
\<close>

definition collides :: "(bytes \<Rightarrow> bytes) \<Rightarrow> bytes \<Rightarrow> bytes \<Rightarrow> bool" where
  "collides sha m m' \<longleftrightarrow> m \<noteq> m' \<and> sha m = sha m'"

lemma derived_inj:
  assumes "\<And>m. length (sha m) = 32" "derive_challenge sha origin nonce d t = Inr c" "derive_challenge sha origin' nonce' d' t' = Inr c'"
    "nc_session_transcript c = nc_session_transcript c'"
  shows "(origin, nonce, t) = (origin', nonce', t') \<or>
    collides sha (handover_info origin nonce (thumb_bytes t)) (handover_info origin' nonce' (thumb_bytes t'))"
proof -
  note 1 = assms(2) [unfolded derive_challenge_iff [of sha, OF assms(1)]] and 2 = assms(3) [unfolded derive_challenge_iff [of sha, OF assms(1)]]
  from 1 2 assms(4) have "derived sha origin nonce t = derived sha origin' nonce' t'" by simp
  from session_transcript_inj [of sha, OF assms(1) this]
  show ?thesis unfolding collides_def using handover_info_inj [of origin origin' nonce nonce' t t'] 1 2 by blast
qed

lemma derived_digest_inj:
  assumes "\<And>m. length (sha m) = 32" "derive_challenge sha origin nonce d t = Inr c" "derive_challenge sha origin' nonce' d' t' = Inr c'"
    "nc_challenge_digest c = nc_challenge_digest c'"
  shows "(origin, nonce, d, t) = (origin', nonce', d', t') \<or>
    collides sha (handover_info origin nonce (thumb_bytes t)) (handover_info origin' nonce' (thumb_bytes t')) \<or>
    collides sha (challenge_message (nc_session_transcript c) d) (challenge_message (nc_session_transcript c') d')"
proof -
  let ?st = "derived sha origin nonce t" and ?st' = "derived sha origin' nonce' t'"
  note 1 = assms(2) [unfolded derive_challenge_iff [of sha, OF assms(1)]] and 2 = assms(3) [unfolded derive_challenge_iff [of sha, OF assms(1)]]
  have c: "nc_session_transcript c = ?st" "nc_session_transcript c' = ?st'"
    "nc_challenge_digest c = sha (challenge_message ?st d)" "nc_challenge_digest c' = sha (challenge_message ?st' d')"
    using 1 2 by simp_all
  have l: "length (session_transcript sha i) < 2 ^ 31" for i using session_transcript_length [of sha i] assms(1) [of i] by simp
  have d: "challenge_digest sha ?st d = Inr (nc_challenge_digest c)" "challenge_digest sha ?st' d' = Inr (nc_challenge_digest c)"
    using session_transcript_accepted [of sha _ d] session_transcript_accepted [of sha _ d'] 1 2 c assms(1,4) chal_field_Inr by auto
  from challenge_digest_binds [OF d l l] show ?thesis
  proof
    assume "?st = ?st' \<and> d = d'"
    then show ?thesis using derived_inj [of sha, OF assms(1-3)] c by auto
  next
    assume "challenge_message ?st d \<noteq> challenge_message ?st' d' \<and> sha (challenge_message ?st d) = sha (challenge_message ?st' d')"
    then show ?thesis by (simp add: collides_def c)
  qed
qed

end
