(* ===== verification/Nym_Lfc2.thy ===== *)
theory Nym_Lfc2
  imports Nym_Cbor Circuit
begin

text \<open>
  The converter of \<open>src/src/nymauth/lfc2.rs\<close> from the LFC2 circuit format to the layout that \<open>Circuit\<close> decodes. The
  reader \<open>Rd\<close> is the input with a position. A layer is read into the record \<open>lfc2_layer\<close> and then written; its terms
  are the running sums of the deltas its tokens name.
\<close>

definition max_wires :: nat where "max_wires = 5000000"
definition max_terms :: nat where "max_terms = 20000000"
definition max_deltas :: nat where "max_deltas = 20000000"
definition max_constants :: nat where "max_constants = 5000000"
definition max_layers :: nat where "max_layers = 10000"
definition size_limit :: nat where "size_limit = 2 ^ 24"
definition max_out_bytes :: nat where "max_out_bytes = 32 * 2 ^ 20"

definition lfc2_bad :: "string \<Rightarrow> error" where
  "lfc2_bad m = nym_fail (Circuit_Error (''LFC2: '' @ m))"

type_synonym 'a rd = "nat \<Rightarrow> ('a \<times> nat) res"

definition rd_take :: "bytes \<Rightarrow> nat \<Rightarrow> bytes rd" where
  "rd_take b n p =
     and_then (opt_res (lfc2_bad ''length overflow'') (checked_add p n)) (\<lambda>end.
     and_then (opt_res (lfc2_bad ''truncated'') (get_range b p end)) (\<lambda>s. Inr (s, end)))"

fun rd_uleb_loop :: "bytes \<Rightarrow> nat \<Rightarrow> u32 \<Rightarrow> nat list \<Rightarrow> (u32 \<times> nat) res" where
  "rd_uleb_loop b p v [] = Inl (lfc2_bad ''ULEB128 longer than four bytes'')"
| "rd_uleb_loop b p v (i # is) =
     and_then (rd_take b 1 p) (\<lambda>(s, p).
     and_then (nth_res s 0) (\<lambda>x.
       let v = v OR push_bit (7 * i) (ucast (x AND 0x7f))
       in if x AND 0x80 = 0 then Inr (v, p) else rd_uleb_loop b p v is))"

definition rd_uleb :: "bytes \<Rightarrow> u32 rd" where
  "rd_uleb b p = rd_uleb_loop b p 0 [0..<4]"

definition rd_size :: "bytes \<Rightarrow> nat \<Rightarrow> string \<Rightarrow> nat rd" where
  "rd_size b limit what p =
     and_then (rd_uleb b p) (\<lambda>(v, p).
       if limit < unat v then Inl (lfc2_bad (''excessive '' @ what)) else Inr (unat v, p))"

definition put3 :: "nat \<Rightarrow> bytes res" where
  "put3 v =
     (if size_limit \<le> v then Inl (lfc2_bad ''a value does not fit the three-byte size of the legacy layout'')
      else Inr [of_nat v, of_nat (v div 2 ^ 8), of_nat (v div 2 ^ 16)])"

definition unzigzag :: "u32 \<Rightarrow> u32" where
  "unzigzag v = drop_bit 1 v XOR (- (v AND 1))"

definition put_delta :: "u32 \<Rightarrow> u32 \<Rightarrow> bytes res" where
  "put_delta v prev =
     (let enc = (if prev \<le> v then 2 * unat (v - prev) else 2 * unat (prev - v) + 1) in put3 enc)"

text \<open>A counted loop over the reader.\<close>

fun rd_times :: "nat \<Rightarrow> 'a rd \<Rightarrow> 'a list rd" where
  "rd_times 0 f p = Inr ([], p)"
| "rd_times (Suc n) f p =
     and_then (f p) (\<lambda>(x, p). and_then (rd_times n f p) (\<lambda>(xs, p). Inr (x # xs, p)))"

record lfc2_layer =
  ll_logw :: nat
  ll_nw :: nat
  ll_deltas :: "(u32 \<times> u32 \<times> u32 \<times> nat) list"
  ll_segments :: "nat list list"
  ll_tokens :: "nat list"

definition rd_delta :: "bytes \<Rightarrow> nat \<Rightarrow> (u32 \<times> u32 \<times> u32 \<times> nat) rd" where
  "rd_delta b nconst p =
     and_then (rd_uleb b p) (\<lambda>(g, p).
     and_then (rd_uleb b p) (\<lambda>(h0, p).
     and_then (rd_uleb b p) (\<lambda>(h1, p).
     and_then (rd_uleb b p) (\<lambda>(k, p).
       if nconst \<le> unat k then Inl (lfc2_bad ''constant index out of range'')
       else Inr ((unzigzag g, unzigzag h0, unzigzag h1, unat k), p)))))"

definition rd_index :: "bytes \<Rightarrow> nat \<Rightarrow> string \<Rightarrow> nat rd" where
  "rd_index b limit what p =
     and_then (rd_uleb b p) (\<lambda>(d, p).
       if limit \<le> unat d then Inl (lfc2_bad (what @ '' out of range'')) else Inr (unat d, p))"

definition rd_segment :: "bytes \<Rightarrow> nat \<Rightarrow> nat list rd" where
  "rd_segment b ndeltas p =
     and_then (rd_size b max_terms ''segment length'' p) (\<lambda>(len, p).
       rd_times len (rd_index b ndeltas ''delta index'') p)"

definition rd_layer :: "bytes \<Rightarrow> nat \<Rightarrow> lfc2_layer rd" where
  "rd_layer b nconst p =
     and_then (rd_size b 63 ''logw'' p) (\<lambda>(logw, p).
     and_then (rd_size b max_wires ''layer width'' p) (\<lambda>(nw, p).
     and_then (rd_size b max_deltas ''delta count'' p) (\<lambda>(ndeltas, p).
     and_then (rd_times ndeltas (rd_delta b nconst) p) (\<lambda>(deltas, p).
     and_then (rd_size b max_deltas ''segment count'' p) (\<lambda>(nseg, p).
     and_then (rd_times nseg (rd_segment b (length deltas)) p) (\<lambda>(segments, p).
     and_then (rd_size b max_terms ''token count'' p) (\<lambda>(ntok, p).
     and_then (rd_times ntok (rd_index b (length segments) ''token'') p) (\<lambda>(tokens, p).
       Inr (\<lparr>ll_logw = logw, ll_nw = nw, ll_deltas = deltas, ll_segments = segments, ll_tokens = tokens\<rparr>, p)))))))))"

definition saturating_add :: "nat \<Rightarrow> nat \<Rightarrow> nat" where
  "saturating_add a b = min (a + b) (2 ^ 64 - 1)"

definition saturating_mul :: "nat \<Rightarrow> nat \<Rightarrow> nat" where
  "saturating_mul a b = min (a * b) (2 ^ 64 - 1)"

definition layer_terms :: "lfc2_layer \<Rightarrow> nat" where
  "layer_terms l = fold (\<lambda>t nterms. saturating_add nterms (length (ll_segments l ! t))) (ll_tokens l) 0"

fun put_terms :: "(u32 \<times> u32 \<times> u32 \<times> nat) list \<Rightarrow> nat list \<Rightarrow> u32 \<Rightarrow> u32 \<Rightarrow> u32 \<Rightarrow> bytes res" where
  "put_terms deltas [] pg p0 p1 = Inr []"
| "put_terms deltas (d # ds) pg p0 p1 =
     and_then (nth_res deltas d) (\<lambda>(dg, d0, d1, k).
     let g = pg + dg; h0 = p0 + d0; h1 = p1 + d1
     in and_then (put_delta g pg) (\<lambda>b1.
        and_then (put_delta h0 p0) (\<lambda>b2.
        and_then (put_delta h1 p1) (\<lambda>b3.
        and_then (put3 k) (\<lambda>b4.
        and_then (put_terms deltas ds g h0 h1) (\<lambda>bs. Inr (b1 @ b2 @ b3 @ b4 @ bs)))))))"

definition put_layer :: "lfc2_layer \<Rightarrow> bytes res" where
  "put_layer l =
     and_then (put3 (ll_logw l)) (\<lambda>b1.
     and_then (put3 (ll_nw l)) (\<lambda>b2.
     and_then (put3 (layer_terms l)) (\<lambda>b3.
     and_then (put_terms (ll_deltas l) (concat (map (\<lambda>t. ll_segments l ! t) (ll_tokens l))) 0 0 0) (\<lambda>b4.
       Inr (b1 @ b2 @ b3 @ b4)))))"

fun lfc2_layers :: "bytes \<Rightarrow> nat \<Rightarrow> nat \<Rightarrow> nat \<Rightarrow> bytes \<Rightarrow> nat \<Rightarrow> (bytes \<times> nat) res" where
  "lfc2_layers b nconst 0 p out total_terms = Inr (out, p)"
| "lfc2_layers b nconst (Suc n) p out total_terms =
     and_then (rd_layer b nconst p) (\<lambda>(l, p).
     let nterms = layer_terms l; total_terms = saturating_add total_terms nterms
     in if max_terms < nterms \<or> max_terms < total_terms then Inl (lfc2_bad ''too many terms'')
        else if max_out_bytes < saturating_add (saturating_mul nterms 12) (length out)
        then Inl (lfc2_bad ''converted circuit exceeds the size limit'')
        else and_then (put_layer l) (\<lambda>bs. lfc2_layers b nconst n p (out @ bs) total_terms))"

definition lfc2_element :: "nat \<Rightarrow> nat res" where
  "lfc2_element fid =
     (if fid = 1 then Inr 32 else if fid = 4 then Inr 16 else Inl (lfc2_bad ''unsupported field id''))"

definition lfc2_one :: "bytes \<Rightarrow> (bytes \<times> nat) res" where
  "lfc2_one input =
     (if take 4 input \<noteq> [0x4c, 0x46, 0x43, 0x32] then Inl (lfc2_bad ''missing LFC2 header'')
      else
        and_then (rd_size input 255 ''field id'' 4) (\<lambda>(fid, p).
        and_then (lfc2_element fid) (\<lambda>elt.
        and_then (rd_size input max_wires ''output count'' p) (\<lambda>(nv, p).
        and_then (rd_size input (2 ^ 64 - 1) ''copy count'' p) (\<lambda>(nc, p).
        if nc \<noteq> 1 then Inl (lfc2_bad ''only one copy is supported'')
        else
        and_then (rd_size input max_wires ''public input count'' p) (\<lambda>(npub, p).
        and_then (rd_size input max_wires ''subfield boundary'' p) (\<lambda>(subfield, p).
        and_then (rd_size input max_wires ''input count'' p) (\<lambda>(ninputs, p).
        and_then (rd_size input max_layers ''layer count'' p) (\<lambda>(nl, p).
        if ninputs < npub then Inl (lfc2_bad ''more public inputs than inputs'')
        else
        and_then (rd_size input max_constants ''constant count'' p) (\<lambda>(nconst, p).
        and_then (if nconst * elt < 2 ^ 64 then Inr (nconst * elt) else Inl (lfc2_bad ''overflow'')) (\<lambda>n.
        and_then (rd_take input n p) (\<lambda>(constants, p).
        and_then (map_res put3 [fid, nv, 1, npub, subfield, ninputs, nl, nconst]) (\<lambda>head.
        and_then (lfc2_layers input nconst nl p ([1] @ concat head @ constants) 0) (\<lambda>(out, p).
        and_then (rd_take input 32 p) (\<lambda>(i, p).
          Inr (out @ i, p))))))))))))))))"

fun to_legacy_loop :: "nat \<Rightarrow> bytes \<Rightarrow> bytes \<Rightarrow> nat \<Rightarrow> (bytes \<times> nat) res" where
  "to_legacy_loop 0 artifact out at = Inr (out, at)"
| "to_legacy_loop (Suc n) artifact out at =
     and_then (lfc2_one (drop at artifact)) (\<lambda>(bytes, used).
       if max_out_bytes < length out + length bytes then Inl (lfc2_bad ''converted circuits exceed the size limit'')
       else to_legacy_loop n artifact (out @ bytes) (at + used))"

definition to_legacy_pair :: "bytes \<Rightarrow> bytes res" where
  "to_legacy_pair artifact =
     and_then (to_legacy_loop 2 artifact [] 0) (\<lambda>(out, at).
       if at \<noteq> length artifact then Inl (lfc2_bad ''bytes left over after the hash circuit'') else Inr out)"

subsection \<open>The circuit an LFC2 file describes\<close>

text \<open>
  The terms of a layer are the named deltas in the order of the tokens, and the indices of a quad the sums of all deltas
  up to it. \<open>lfc2_parse\<close> reads an LFC2 circuit into a circuit directly, without a limit on the sizes.
\<close>

definition lfc2_terms :: "lfc2_layer \<Rightarrow> (u32 \<times> u32 \<times> u32 \<times> nat) list" where
  "lfc2_terms l = concat (map (\<lambda>t. map (\<lambda>d. ll_deltas l ! d) (ll_segments l ! t)) (ll_tokens l))"

definition lfc2_quad :: "(u32 \<times> u32 \<times> u32 \<times> nat) list \<Rightarrow> nat \<Rightarrow> quad" where
  "lfc2_quad ts j =
     \<lparr>gate_index = unat (\<Sum>(g, h0, h1, k) \<leftarrow> take (Suc j) ts. g),
      left_wire_index = unat (\<Sum>(g, h0, h1, k) \<leftarrow> take (Suc j) ts. h0),
      right_wire_index = unat (\<Sum>(g, h0, h1, k) \<leftarrow> take (Suc j) ts. h1),
      const_table_index = (case ts ! j of (g, h0, h1, k) \<Rightarrow> k)\<rparr>"

definition lfc2_circuit_layer :: "lfc2_layer \<Rightarrow> circuit_layer" where
  "lfc2_circuit_layer l =
     \<lparr>layer_logw = of_nat (ll_logw l), layer_num_wires = of_nat (ll_nw l),
      layer_quads = map (lfc2_quad (lfc2_terms l)) [0..<length (lfc2_terms l)]\<rparr>"

definition rd_nat :: "bytes \<Rightarrow> nat rd" where
  "rd_nat b p = and_then (rd_uleb b p) (\<lambda>(v, p). Inr (unat v, p))"

definition lfc2_parse :: "'a field_ops \<Rightarrow> bytes \<Rightarrow> ('a circuit \<times> nat) res" where
  "lfc2_parse F input =
     and_then (rd_nat input 4) (\<lambda>(fid, p).
     if fid \<noteq> field_id_code (fo_field_id F) then Inl (Fail ''wrong field'')
     else
     and_then (rd_nat input p) (\<lambda>(nv, p).
     and_then (rd_nat input p) (\<lambda>(nc, p).
     and_then (rd_nat input p) (\<lambda>(npub, p).
     and_then (rd_nat input p) (\<lambda>(subfield, p).
     and_then (rd_nat input p) (\<lambda>(ninputs, p).
     and_then (rd_nat input p) (\<lambda>(nl, p).
     and_then (rd_nat input p) (\<lambda>(nconst, p).
     and_then (decode_fixed_array (fe_decode F) nconst (drop p input)) (\<lambda>(constants, _).
     and_then (rd_times nl (rd_layer input nconst) (p + nconst * num_bytes F)) (\<lambda>(layers, p).
     and_then (rd_take input 32 p) (\<lambda>(i, p).
       Inr (\<lparr>c_version = 1, c_num_outputs = nv, c_num_copies = nc, c_num_public_inputs = npub,
             c_subfield_boundary = subfield, c_num_inputs = ninputs, c_num_layers = nl,
             c_constant_table = constants, c_layers = map lfc2_circuit_layer layers, c_id = i\<rparr>, p))))))))))))"

subsection \<open>The written bytes\<close>

lemma put3_Inr_iff: "put3 v = Inr bs \<longleftrightarrow> v < 2 ^ 24 \<and> bs = le_bytes 3 v"
proof -
  have "[of_nat v, of_nat (v div 2 ^ 8), of_nat (v div 2 ^ 16)] = le_bytes 3 v"
    by (simp add: numeral_3_eq_3 div_mult2_eq [symmetric])
  then show ?thesis by (auto simp: put3_def size_limit_def)
qed

lemma put3_usize: "put3 v = Inr bs \<Longrightarrow> usize_encode v = Inr bs"
  by (auto simp: put3_Inr_iff usize_encode_def size_of_usize_def size_encode_Inr_iff unat_of_nat)

lemma put3_size: "put3 v = Inr bs \<Longrightarrow> size_encode (of_nat v) = Inr bs"
  by (auto simp: put3_Inr_iff size_encode_Inr_iff unat_of_nat)

lemma double_unat:
  assumes "2 * unat (d :: u32) + 1 < 2 ^ 24"
  shows "unat (d * 2) = 2 * unat d" "unat (d * 2 OR 1) = 2 * unat d + 1"
proof -
  have "d * 2 OR 1 = d * 2 + 1" by (simp add: or_one_eq)
  then show "unat (d * 2) = 2 * unat d" "unat (d * 2 OR 1) = 2 * unat d + 1"
    using assms by (simp_all add: unat_word_ariths mult.commute)
qed

lemma put_delta_size:
  assumes "put_delta v prev = Inr bs"
  shows "size_encode_delta v prev = Inr bs"
proof (cases "prev \<le> v")
  case True
  define d where "d = v - prev"
  have "2 * unat d < 2 ^ 24" "bs = le_bytes 3 (2 * unat d)"
    using assms True by (simp_all add: put_delta_def put3_Inr_iff d_def)
  moreover from this(1) have "2 * unat d + 1 < 2 ^ 24" by simp
  ultimately show ?thesis using True double_unat [of d]
    by (simp add: size_encode_delta_def checked_double_def size_encode_Inr_iff d_def [symmetric])
next
  case False
  define d where "d = prev - v"
  have "2 * unat d + 1 < 2 ^ 24" "bs = le_bytes 3 (2 * unat d + 1)"
    using assms False by (simp_all add: put_delta_def put3_Inr_iff d_def)
  then show ?thesis using False double_unat [of d]
    by (simp add: size_encode_delta_def checked_double_def size_encode_Inr_iff d_def [symmetric])
qed

lemma put_delta_usize: "put_delta v prev = Inr bs \<Longrightarrow> usize_encode_delta (unat v) (unat prev) = Inr bs"
  using unat_bound [of v] unat_bound [of prev] by (simp add: usize_encode_delta_def size_of_usize_def put_delta_size)

fun running :: "(u32 \<times> u32 \<times> u32 \<times> nat) list \<Rightarrow> u32 \<Rightarrow> u32 \<Rightarrow> u32 \<Rightarrow> quad list" where
  "running [] a b c = []"
| "running ((g, h0, h1, k) # ts) a b c =
     \<lparr>gate_index = unat (a + g), left_wire_index = unat (b + h0), right_wire_index = unat (c + h1), const_table_index = k\<rparr> #
     running ts (a + g) (b + h0) (c + h1)"

lemma length_running [simp]: "length (running ts a b c) = length ts"
  by (induction ts a b c rule: running.induct) simp_all

lemma nth_running:
  "j < length ts \<Longrightarrow> running ts a b c ! j =
     \<lparr>gate_index = unat (a + (\<Sum>(g, h0, h1, k) \<leftarrow> take (Suc j) ts. g)),
      left_wire_index = unat (b + (\<Sum>(g, h0, h1, k) \<leftarrow> take (Suc j) ts. h0)),
      right_wire_index = unat (c + (\<Sum>(g, h0, h1, k) \<leftarrow> take (Suc j) ts. h1)),
      const_table_index = (case ts ! j of (g, h0, h1, k) \<Rightarrow> k)\<rparr>"
proof (induction ts a b c arbitrary: j rule: running.induct)
  case (2 g h0 h1 k ts a b c)
  then show ?case by (cases j) (simp_all add: add.assoc)
qed simp

lemma running_quads: "running ts 0 0 0 = map (lfc2_quad ts) [0..<length ts]"
  by (rule nth_equalityI) (simp_all add: nth_running lfc2_quad_def)

definition at_quad :: "quad option \<Rightarrow> u32 \<Rightarrow> u32 \<Rightarrow> u32 \<Rightarrow> bool" where
  "at_quad prev a b c \<longleftrightarrow> (let q = case prev of None \<Rightarrow> quad_default | Some q \<Rightarrow> q in
     gate_index q = unat a \<and> left_wire_index q = unat b \<and> right_wire_index q = unat c)"

lemma put_terms_encode:
  assumes "put_terms deltas ds a b c = Inr bs" "at_quad prev a b c"
  shows "quads_encode prev (running (map (\<lambda>d. deltas ! d) ds) a b c) = Inr bs"
  using assms
proof (induction deltas ds a b c arbitrary: prev bs rule: put_terms.induct)
  case (2 deltas d ds a b c)
  obtain dg d0 d1 k where t: "deltas ! d = (dg, d0, d1, k)" by (cases "deltas ! d") auto
  let ?q = "\<lparr>gate_index = unat (a + dg), left_wire_index = unat (b + d0), right_wire_index = unat (c + d1), const_table_index = k\<rparr>"
  from 2(2) obtain b1 b2 b3 b4 r where n: "nth_res deltas d = Inr (dg, d0, d1, k)"
    and b: "put_delta (a + dg) a = Inr b1" "put_delta (b + d0) b = Inr b2" "put_delta (c + d1) c = Inr b3"
      "put3 k = Inr b4" "put_terms deltas ds (a + dg) (b + d0) (c + d1) = Inr r" and bs: "bs = b1 @ b2 @ b3 @ b4 @ r"
    by (auto simp: nth_res_Inr_iff t Let_def)
  have "quads_encode (Some ?q) (running (map (\<lambda>d. deltas ! d) ds) (a + dg) (b + d0) (c + d1)) = Inr r"
    by (rule 2(1) [OF n refl refl refl refl refl refl b]) (simp add: at_quad_def)
  moreover have "quad_encode_with_param ?q prev = Inr (b1 @ b2 @ b3 @ b4)"
    using 2(3) b(1-3) [THEN put_delta_usize] b(4) [THEN put3_usize]
    by (simp add: quad_encode_with_param_def at_quad_def Let_def)
  ultimately show ?case by (simp add: t bs)
qed simp

subsection \<open>Layers\<close>

lemma rd_times_Inr:
  assumes "rd_times n f p = Inr (xs, q)"
  shows "length xs = n" "\<forall>x \<in> set xs. \<exists>p q. f p = Inr (x, q)"
proof -
  have "length xs = n \<and> (\<forall>x \<in> set xs. \<exists>p q. f p = Inr (x, q))"
    using assms by (induction n f p arbitrary: xs q rule: rd_times.induct) (auto, blast)
  then show "length xs = n" "\<forall>x \<in> set xs. \<exists>p q. f p = Inr (x, q)" by blast+
qed

lemma rd_index_bound: "rd_index b limit what p = Inr (d, q) \<Longrightarrow> d < limit"
  by (auto simp: rd_index_def split: if_splits)

lemma rd_layer_wf:
  assumes "rd_layer b nconst p = Inr (l, q)"
  shows "\<forall>t \<in> set (ll_tokens l). t < length (ll_segments l)"
    "\<forall>s \<in> set (ll_segments l). \<forall>d \<in> set s. d < length (ll_deltas l)"
proof -
  from assms obtain p1 p2 p3 p4 ds ss n m where
    ss: "rd_times n (rd_segment b (length (ll_deltas l))) p1 = Inr (ll_segments l, p2)"
    and ts: "rd_times m (rd_index b (length (ll_segments l)) ''token'') p3 = Inr (ll_tokens l, p4)"
    by (auto simp: rd_layer_def)
  show "\<forall>t \<in> set (ll_tokens l). t < length (ll_segments l)"
    using rd_times_Inr(2) [OF ts] rd_index_bound by blast
  show "\<forall>s \<in> set (ll_segments l). \<forall>d \<in> set s. d < length (ll_deltas l)"
  proof
    fix s assume "s \<in> set (ll_segments l)"
    then obtain p q where "rd_segment b (length (ll_deltas l)) p = Inr (s, q)" using rd_times_Inr(2) [OF ss] by blast
    then obtain len p' where s: "rd_times len (rd_index b (length (ll_deltas l)) ''delta index'') p' = Inr (s, q)"
      by (auto simp: rd_segment_def)
    show "\<forall>d \<in> set s. d < length (ll_deltas l)" using rd_times_Inr(2) [OF s] rd_index_bound by blast
  qed
qed

lemma fold_saturating:
  "a \<le> 2 ^ 64 - 1 \<Longrightarrow> fold (\<lambda>t s. saturating_add s (f t)) ts a = min (a + sum_list (map f ts)) (2 ^ 64 - 1)"
proof (induction ts arbitrary: a)
  case (Cons t ts)
  then show ?case by (simp add: saturating_add_def min_def)
qed simp

lemma lfc2_terms_map:
  "lfc2_terms l = map (\<lambda>d. ll_deltas l ! d) (concat (map (\<lambda>t. ll_segments l ! t) (ll_tokens l)))"
  by (simp add: lfc2_terms_def map_concat o_def)

lemma layer_terms_length:
  assumes "layer_terms l \<le> max_terms"
  shows "length (lfc2_terms l) = layer_terms l"
proof -
  have "layer_terms l = min (length (lfc2_terms l)) (2 ^ 64 - 1)"
    unfolding layer_terms_def using fold_saturating [of 0 "\<lambda>t. length (ll_segments l ! t)" "ll_tokens l"]
    by (simp add: lfc2_terms_def length_concat o_def)
  with assms show ?thesis by (simp add: max_terms_def min_def split: if_splits)
qed

lemma put_layer_encode:
  assumes "put_layer l = Inr bs" "layer_terms l \<le> max_terms"
  shows "layer_encode (lfc2_circuit_layer l) = Inr bs" "layer_wf (lfc2_circuit_layer l)"
proof -
  from assms(1) obtain b1 b2 b3 b4 where b: "put3 (ll_logw l) = Inr b1" "put3 (ll_nw l) = Inr b2" "put3 (layer_terms l) = Inr b3"
    "put_terms (ll_deltas l) (concat (map (\<lambda>t. ll_segments l ! t) (ll_tokens l))) 0 0 0 = Inr b4" "bs = b1 @ b2 @ b3 @ b4"
    by (auto simp: put_layer_def)
  have "quads_encode None (running (lfc2_terms l) 0 0 0) = Inr b4"
    using put_terms_encode [OF b(4), of None] by (simp add: at_quad_def quad_default_def lfc2_terms_map)
  then show "layer_encode (lfc2_circuit_layer l) = Inr bs"
    using b(1-3) [THEN put3_size] b(5) layer_terms_length [OF assms(2)]
    by (simp add: layer_encode_def lfc2_circuit_layer_def running_quads)
  show "layer_wf (lfc2_circuit_layer l)"
    using layer_terms_length [OF assms(2)] assms(2) by (simp add: layer_wf_def lfc2_circuit_layer_def max_terms_def)
qed

lemma lfc2_layersE:
  assumes "lfc2_layers b nconst n p out tot = Inr (out', q)"
  shows "\<exists>ls bs. rd_times n (rd_layer b nconst) p = Inr (ls, q) \<and> out' = out @ bs \<and>
    encode_fixed_array layer_encode (map lfc2_circuit_layer ls) = Inr bs \<and> list_all layer_wf (map lfc2_circuit_layer ls) \<and> length ls = n"
  using assms
proof (induction b nconst n p out tot arbitrary: out' q rule: lfc2_layers.induct)
  case (2 b nconst n p out tot)
  from 2(2) obtain l p' bs where l: "rd_layer b nconst p = Inr (l, p')" "layer_terms l \<le> max_terms" "put_layer l = Inr bs"
    and r: "lfc2_layers b nconst n p' (out @ bs) (saturating_add tot (layer_terms l)) = Inr (out', q)"
    by (auto simp: Let_def split: if_splits)
  from 2(2) l have c: "\<not> (max_terms < layer_terms l \<or> max_terms < saturating_add tot (layer_terms l))"
    "\<not> max_out_bytes < saturating_add (saturating_mul (layer_terms l) 12) (length out)"
    by (auto simp: Let_def split: if_splits)
  from 2(1) [OF l(1) refl refl refl c l(3) r] obtain ls cs where
    "rd_times n (rd_layer b nconst) p' = Inr (ls, q)" "out' = (out @ bs) @ cs"
    "encode_fixed_array layer_encode (map lfc2_circuit_layer ls) = Inr cs" "list_all layer_wf (map lfc2_circuit_layer ls)" "length ls = n"
    by blast
  then show ?case using l(1) put_layer_encode [OF l(3,2)] by (intro exI [of _ "l # ls"] exI [of _ "bs @ cs"]) simp
qed simp

subsection \<open>The converted circuit\<close>

lemma fe_decode_append:
  "num_bytes F \<le> length bs \<Longrightarrow> fe_decode F (bs @ r) = map_sum id (map_prod id (\<lambda>q. q @ r)) (fe_decode F bs)"
  by (cases "fo_try_from F (take (num_bytes F) bs)") (simp_all add: fe_decode_def)

lemma fe_array_append:
  assumes "length bs = n * num_bytes F"
  shows "decode_fixed_array (fe_decode F) n (bs @ r) = map_sum id (map_prod id (\<lambda>_. r)) (decode_fixed_array (fe_decode F) n bs)"
  using assms
proof (induction n arbitrary: bs)
  case (Suc n)
  have d: "fe_decode F (bs @ r) = map_sum id (map_prod id (\<lambda>q. q @ r)) (fe_decode F bs)"
    using Suc.prems by (intro fe_decode_append) simp
  show ?case
  proof (cases "fe_decode F bs")
    case (Inr xq)
    obtain x q where xq: "xq = (x, q)" by (cases xq)
    then have "q = drop (num_bytes F) bs" using Inr by (auto simp: fe_decode_def split: if_splits)
    then have "length q = n * num_bytes F" using Suc.prems by simp
    from Suc.IH [OF this] show ?thesis
      by (cases "decode_fixed_array (fe_decode F) n q") (auto simp: d Inr xq)
  qed (simp add: d)
qed simp

lemma rd_take_Inr: "rd_take b n p = Inr (s, q) \<longleftrightarrow> p + n < 2 ^ 64 \<and> p + n \<le> length b \<and> s = take n (drop p b) \<and> q = p + n"
  by (auto simp: rd_take_def checked_add_def get_range_def)

lemma rd_size_Inr: "rd_size b m what p = Inr (n, q) \<longleftrightarrow> rd_nat b p = Inr (n, q) \<and> n \<le> m"
  by (cases "rd_uleb b p") (auto simp: rd_size_def rd_nat_def split: if_splits)

lemma digest_decode_append: "length d = 32 \<Longrightarrow> digest_decode (d @ rest) = Inr (d, rest)"
  using u8.fixed_array_roundtrip [of d d rest] u8_fixed_encode [of d] by (simp add: digest_decode_def list_all_iff)

lemma field_id_decode_lfc2:
  "fid = 1 \<or> fid = 4 \<Longrightarrow> field_id_decode (le_bytes 3 fid @ r) = Inr (if fid = 1 then P256 else GF2_128, r)"
  by (auto simp: field_id_decode_def field_id_of_u8_def)

definition lfc2_field :: "nat \<Rightarrow> field_id" where
  "lfc2_field fid = (if fid = 1 then P256 else GF2_128)"

lemma lfc2_element_Inr: "lfc2_element fid = Inr elt \<longleftrightarrow> (fid = 1 \<or> fid = 4) \<and> elt = field_id_encoded_length (lfc2_field fid)"
  by (auto simp: lfc2_element_def lfc2_field_def)

lemma lfc2_field_code: "fid = 1 \<or> fid = 4 \<Longrightarrow> fid = field_id_code i \<longleftrightarrow> i = lfc2_field fid"
  by (cases i) (auto simp: lfc2_field_def)

lemma lfc2_oneE:
  assumes "lfc2_one input = Inr (out, used)"
  obtains fid nv npub sub nin nl nc p0 p1 p2 p3 p4 p5 p6 p7 p8 n ls bs i where
    "fid = 1 \<or> fid = 4" "rd_nat input 4 = Inr (fid, p0)" "rd_nat input p0 = Inr (nv, p1)" "rd_nat input p1 = Inr (1, p2)"
    "rd_nat input p2 = Inr (npub, p3)" "rd_nat input p3 = Inr (sub, p4)" "rd_nat input p4 = Inr (nin, p5)"
    "rd_nat input p5 = Inr (nl, p6)" "rd_nat input p6 = Inr (nc, p7)"
    "n = nc * field_id_encoded_length (lfc2_field fid)" "p7 + n \<le> length input"
    "rd_times nl (rd_layer input nc) (p7 + n) = Inr (ls, p8)"
    "encode_fixed_array layer_encode (map lfc2_circuit_layer ls) = Inr bs" "list_all layer_wf (map lfc2_circuit_layer ls)"
    "length ls = nl" "rd_take input 32 p8 = Inr (i, used)" "\<forall>v \<in> {nv, npub, sub, nin, nl, nc}. v < 2 ^ 24"
    "out = [1] @ le_bytes 3 fid @ le_bytes 3 nv @ le_bytes 3 1 @ le_bytes 3 npub @ le_bytes 3 sub @
       le_bytes 3 nin @ le_bytes 3 nl @ le_bytes 3 nc @ take n (drop p7 input) @ bs @ i"
proof -
  from assms obtain fid p0 nv p1 p2 npub p3 sub p4 nin p5 nl p6 nc p7 p9 cs head o2 p8 i elt where
    r: "rd_size input 255 ''field id'' 4 = Inr (fid, p0)" "rd_size input max_wires ''output count'' p0 = Inr (nv, p1)"
    "rd_size input (2 ^ 64 - 1) ''copy count'' p1 = Inr (1, p2)" "rd_size input max_wires ''public input count'' p2 = Inr (npub, p3)"
    "rd_size input max_wires ''subfield boundary'' p3 = Inr (sub, p4)" "rd_size input max_wires ''input count'' p4 = Inr (nin, p5)"
    "rd_size input max_layers ''layer count'' p5 = Inr (nl, p6)" "rd_size input max_constants ''constant count'' p6 = Inr (nc, p7)"
    and h: "lfc2_element fid = Inr elt" "rd_take input (nc * elt) p7 = Inr (cs, p9)"
    and m: "map_res put3 [fid, nv, 1, npub, sub, nin, nl, nc] = Inr head"
    and l: "lfc2_layers input nc nl p9 ([1] @ concat head @ cs) 0 = Inr (o2, p8)"
    and i: "rd_take input 32 p8 = Inr (i, used)" "out = o2 @ i"
    unfolding lfc2_one_def
    by (auto simp: and_then_Inr_iff simp del: map_res.simps split: if_splits)
  have hd: "concat head = le_bytes 3 fid @ le_bytes 3 nv @ le_bytes 3 1 @ le_bytes 3 npub @ le_bytes 3 sub @
       le_bytes 3 nin @ le_bytes 3 nl @ le_bytes 3 nc" and lt: "\<forall>v \<in> {nv, npub, sub, nin, nl, nc}. v < 2 ^ 24"
    using m by (auto simp: put3_Inr_iff and_then_Inr_iff simp del: le_bytes.simps)
  note e = h(1) [unfolded lfc2_element_Inr] and r = r [unfolded rd_size_Inr, THEN conjunct1]
  from lfc2_layersE [OF l] obtain ls bs where ls: "rd_times nl (rd_layer input nc) p9 = Inr (ls, p8)"
    "o2 = ([1] @ concat head @ cs) @ bs" "encode_fixed_array layer_encode (map lfc2_circuit_layer ls) = Inr bs"
    "list_all layer_wf (map lfc2_circuit_layer ls)" "length ls = nl" by blast
  let ?n = "nc * field_id_encoded_length (lfc2_field fid)"
  have t: "p9 = p7 + ?n" "cs = take ?n (drop p7 input)" "p7 + ?n \<le> length input" using h(2) e by (auto simp: rd_take_Inr)
  show thesis
    by (rule that [OF conjunct1 [OF e] r refl t(3) ls(1) [unfolded t(1)] ls(3-5) i(1) lt])
      (simp add: i(2) ls(2) hd t(2) del: le_bytes.simps)
qed

lemma usize_decode_le_bytes: "v < 2 ^ 24 \<Longrightarrow> usize_decode (le_bytes 3 v @ r) = Inr (v, r)"
  by (rule usize_roundtrip, rule put3_usize) (simp add: put3_Inr_iff)

lemma u8_decode_byte: "u8_decode ([x] @ r) = Inr (x, r)"
  by (rule u8.roundtrip) (simp_all add: u8_encode_def)

lemma lfc2_converted:
  fixes F :: "'a field_ops"
  assumes one: "lfc2_one input = Inr (out, used)" and nb: "num_bytes F = field_id_encoded_length (fo_field_id F)"
  shows "circuit_decode F (out @ rest) = Inr (c, rest') \<longleftrightarrow> rest' = rest \<and> lfc2_parse F input = Inr (c, used)"
  using one
proof (rule lfc2_oneE)
  fix fid nv npub sub nin nl nc p0 p1 p2 p3 p4 p5 p6 p7 p8 n ls bs i
  assume fid: "fid = 1 \<or> fid = 4" and r: "rd_nat input 4 = Inr (fid, p0)" "rd_nat input p0 = Inr (nv, p1)" "rd_nat input p1 = Inr (1, p2)"
    "rd_nat input p2 = Inr (npub, p3)" "rd_nat input p3 = Inr (sub, p4)" "rd_nat input p4 = Inr (nin, p5)"
    "rd_nat input p5 = Inr (nl, p6)" "rd_nat input p6 = Inr (nc, p7)"
    and n: "n = nc * field_id_encoded_length (lfc2_field fid)" "p7 + n \<le> length input"
    and ls: "rd_times nl (rd_layer input nc) (p7 + n) = Inr (ls, p8)"
    "encode_fixed_array layer_encode (map lfc2_circuit_layer ls) = Inr bs" "list_all layer_wf (map lfc2_circuit_layer ls)" "length ls = nl"
    and i: "rd_take input 32 p8 = Inr (i, used)" and lt: "\<forall>v \<in> {nv, npub, sub, nin, nl, nc}. v < 2 ^ 24"
    and out: "out = [1] @ le_bytes 3 fid @ le_bytes 3 nv @ le_bytes 3 1 @ le_bytes 3 npub @ le_bytes 3 sub @
       le_bytes 3 nin @ le_bytes 3 nl @ le_bytes 3 nc @ take n (drop p7 input) @ bs @ i"
  let ?cs = "take n (drop p7 input)" and ?wrong = "lfc2_field fid \<noteq> fo_field_id F"
  have ids: "field_id_decode (le_bytes 3 fid @ r) = Inr (lfc2_field fid, r)" for r
    using field_id_decode_lfc2 [OF fid, of r] by (simp only: lfc2_field_def)
  show ?thesis
  proof (cases "fo_field_id F = lfc2_field fid")
    case False
    then show ?thesis using lfc2_field_code [OF fid, of "fo_field_id F"]
      by (auto simp: circuit_decode_def lfc2_parse_def r out u8_decode_byte ids simp del: append_Cons le_bytes.simps)
  next
    case True
    then have n': "n = nc * num_bytes F" using n nb by simp
    have len: "length ?cs = nc * num_bytes F" using n(2) n' by simp
    have "drop p7 input = ?cs @ drop n (drop p7 input)" by (rule append_take_drop_id [symmetric])
    then have d: "drop p7 input = ?cs @ drop (n + p7) input" by (simp only: drop_drop)
    have li: "length i = 32" using i by (auto simp: rd_take_Inr)
    have l: "decode_fixed_array layer_decode nl (bs @ i @ rest) = Inr (map lfc2_circuit_layer ls, i @ rest)"
      using layer.fixed_array_roundtrip [OF ls(3,2), of "i @ rest"] ls(4) by simp
    have sz: "size_decode (le_bytes 3 nc @ r) = Inr (of_nat nc, r)" for r
      using size.roundtrip [OF TrueI, of "of_nat nc" "le_bytes 3 nc" r] put3_size [of nc "le_bytes 3 nc"] lt by (simp add: put3_Inr_iff)
    have un: "unat (of_nat nc :: u32) = nc" using lt by (simp add: unat_of_nat)
    note A = fe_array_append [OF len]
    have A2: "decode_fixed_array (fe_decode F) nc (drop p7 input) =
        map_sum id (map_prod id (\<lambda>_. drop (n + p7) input)) (decode_fixed_array (fe_decode F) nc ?cs)"
      by (subst d) (rule A)
    show ?thesis
    proof (cases "decode_fixed_array (fe_decode F) nc ?cs")
      case (Inl e)
      then show ?thesis using lt A [of "bs @ i @ rest"] A2 True
        by (auto simp: circuit_decode_def lfc2_parse_def r out u8_decode_byte ids usize_decode_le_bytes decode_array_def sz un
            simp del: append_Cons le_bytes.simps)
    next
      case (Inr y)
      then obtain cs q where y: "decode_fixed_array (fe_decode F) nc ?cs = Inr (cs, q)" by (cases y) auto
      show ?thesis using lt A [of "bs @ i @ rest"] A2 True l i lfc2_field_code [OF fid, of "fo_field_id F"]
        by (auto simp: circuit_decode_def lfc2_parse_def r out u8_decode_byte ids usize_decode_le_bytes decode_array_def sz un
            y n' [symmetric] ls(1) digest_decode_append [OF li] simp del: append_Cons le_bytes.simps)
    qed
  qed
qed

lemma lfc2_parse_used:
  fixes F :: "'a field_ops"
  assumes one: "lfc2_one input = Inr (out, used)" and nb: "num_bytes F = field_id_encoded_length (fo_field_id F)"
    and parse: "lfc2_parse F input = Inr (c, u)"
  shows "u = used"
  using one
proof (rule lfc2_oneE)
  fix fid nv npub sub nin nl nc p0 p1 p2 p3 p4 p5 p6 p7 p8 n ls bs i
  assume fid: "fid = 1 \<or> fid = 4" and r: "rd_nat input 4 = Inr (fid, p0)" "rd_nat input p0 = Inr (nv, p1)" "rd_nat input p1 = Inr (1, p2)"
    "rd_nat input p2 = Inr (npub, p3)" "rd_nat input p3 = Inr (sub, p4)" "rd_nat input p4 = Inr (nin, p5)"
    "rd_nat input p5 = Inr (nl, p6)" "rd_nat input p6 = Inr (nc, p7)"
    and n: "n = nc * field_id_encoded_length (lfc2_field fid)"
    and ls: "rd_times nl (rd_layer input nc) (p7 + n) = Inr (ls, p8)" and i: "rd_take input 32 p8 = Inr (i, used)"
  have F: "fo_field_id F = lfc2_field fid"
    using parse lfc2_field_code [OF fid, of "fo_field_id F"] by (auto simp: lfc2_parse_def r split: if_splits)
  then have n': "n = nc * num_bytes F" using n nb by simp
  show ?thesis using parse F ls i by (auto simp: lfc2_parse_def r n' split: if_splits)
qed

lemma to_legacy_pairE:
  assumes "to_legacy_pair artifact = Inr out"
  obtains b1 u1 b2 u2 where "lfc2_one artifact = Inr (b1, u1)" "lfc2_one (drop u1 artifact) = Inr (b2, u2)"
    "out = b1 @ b2" "length artifact = u1 + u2" "length out \<le> max_out_bytes"
  using assms by (auto simp: to_legacy_pair_def numeral_2_eq_2 split: if_splits)

lemma to_legacy_pair_converted:
  assumes "to_legacy_pair artifact = Inr out"
    "num_bytes F = field_id_encoded_length (fo_field_id F)" "num_bytes G = field_id_encoded_length (fo_field_id G)"
  shows "(\<exists>r. circuit_decode F out = Inr (c, r) \<and> circuit_decode G r = Inr (d, [])) \<longleftrightarrow>
    (\<exists>u. lfc2_parse F artifact = Inr (c, u) \<and> lfc2_parse G (drop u artifact) = Inr (d, length artifact - u))"
  using assms(1)
proof (rule to_legacy_pairE)
  fix b1 u1 b2 u2
  assume 1: "lfc2_one artifact = Inr (b1, u1)" and 2: "lfc2_one (drop u1 artifact) = Inr (b2, u2)"
    and out: "out = b1 @ b2" and len: "length artifact = u1 + u2"
  note c1 = lfc2_converted [OF 1 assms(2), of b2 c] and c2 = lfc2_converted [OF 2 assms(3), of Nil d Nil]
  have "lfc2_parse F artifact = Inr (c, u) \<Longrightarrow> u = u1" for u
    using lfc2_parse_used [OF 1 assms(2)] by simp
  then show ?thesis using c1 c2 out len by auto
qed

end
