(* ===== verification/Claims_Applications.thy ===== *)
theory Claims_Applications
  imports Nym_Ecdsa Sha256 Nym_Challenge Nym_Lfc2 Gf_Subfield Field_Gf P256_Code
begin

text \<open>
  Properties of the SHA-256 and P-256 code of the two application layers: they agree with each other and with the
  reference.
\<close>

text \<open>
  C19: The two compression functions of the repository, the one of the credential prover and the one of \<open>nymauth\<close> that also
  writes the face of the block, compute the block function of FIPS 180-4 on every block, and the face holds the bits of the
  state before, the schedule, the words \<open>e\<close> and \<open>a\<close> after every round and the state after.
\<close>

theorem sha_compressions_agree:
  assumes "length block = 64"
  shows "process_block block s = fips_block block s \<and> fst (nym_compress s block) = fips_block block s \<and>
    snd (nym_compress s block) = concat (map (\<lambda>x. word_bits (ucast x) 32) (fips_face block s))"
  using process_block_fips [OF assms] nym_compress_fips [OF assms] by simp

theorem sha_compressions_agree_witness:
  "process_block (replicate 64 0x80) nym_iv = fips_block (replicate 64 0x80) nym_iv"
  using sha_compressions_agree [of "replicate 64 0x80" nym_iv] by simp

text \<open>
  C21: Padding a message to a number of blocks succeeds exactly when the blocks hold it, gives the padding of the credential
  prover followed by zero blocks, and no two messages have the same padded form.
\<close>

theorem sha_padding_injective:
  assumes "64 * b < 2 ^ 64" "length m < 2 ^ 61" "length m' < 2 ^ 61"
  shows "nym_pad m b = (if (length m + 72) div 64 \<le> b then Some (fst (pad_input m) @ replicate (64 * b - length (fst (pad_input m))) 0) else None)
    \<and> (nym_pad m b = nym_pad m' b \<longrightarrow> nym_pad m b = None \<or> m = m')"
proof (rule conjI, goal_cases)
  case 1
  show ?case using nym_pad_eq [OF assms(1), of m] by (simp add: padded_to_def padded_blocks_def Let_def)
next
  case 2
  show ?case using nym_pad_eq [OF assms(1), of m] nym_pad_eq [OF assms(1), of m'] padded_to_inj [OF _ _ _ assms(2,3), of b b] by auto
qed

theorem sha_padding_injective_witness:
  "nym_pad [1, 2, 3] 2 = Some (fst (pad_input [1, 2, 3]) @ replicate (128 - length (fst (pad_input [1, 2, 3]))) 0)"
  using sha_padding_injective [of 2 "[1, 2, 3]" "[1, 2, 3]"] by simp

text \<open>
  C17: The two implementations of P-256, with their different formulas for the same group law, agree in every coordinate: additions,
  doublings, conversions to affine coordinates and multiplications by a scalar.
\<close>

theorem curve_implementations_agree:
  "as_pp (nym_add (nym_curve n) p q) = pp_add (as_pp p) (as_pp q) \<and>
   as_pp (nym_dbl (nym_curve n) p) = pp_double (as_pp p) \<and>
   nym_affine p = affine_of_projective (as_pp p) \<and>
   pp_add_affine (as_pp p) (Some a) = pp_add (as_pp p) (projective_of_affine (Some a)) \<and>
   as_pp (nym_scalar_mul (nym_curve n) p (nat (scalar_residue k))) = scalar_mult (as_pp p) (scalar_bits k)"
proof (intro conjI)
  have "nat (scalar_residue k) < 2 ^ 256" using scalar.rep_bounds [of k] by (simp add: p256_order_def)
  moreover have b: "bit (nat (scalar_residue k)) i = bit (scalar_residue k) i" for i
    using scalar.rep_bounds [of k] by (metis bit_of_nat_iff_bit int_nat_eq of_nat_nat)
  moreover from b have "bit (nat (scalar_residue k)) = bit (scalar_residue k)" by (simp add: fun_eq_iff)
  ultimately show "as_pp (nym_scalar_mul (nym_curve n) p (nat (scalar_residue k))) = scalar_mult (as_pp p) (scalar_bits k)"
    using nym_scalar_mul_eq [of "nat (scalar_residue k)" 256 n p] by (simp only: scalar_bits_eq)
qed (rule nym_add_eq nym_dbl_eq nym_affine_eq pp_add_affine_eq)+

text \<open>
  C18: The ladders of the two signature witnesses agree: on the same table and scalars, \<open>nymauth\<close> writes the indices and
  accumulators that the credential prover writes, and one more accumulator at the end, whose \<open>z\<close> the credential prover
  requires to be zero.
\<close>

theorem signature_ladders_agree:
  "(let enc = \<lambda>k. rev (scalar_encode k); table = nym_identity # ps;
        (acc, out) = fold (nym_ladder_step (nym_curve n) table (enc e) (enc r) (enc m)) [0..<256] (nym_identity, head)
    in fold_res (msm_step (table_of table)) (zip iter_msm (zip (scalar_bits e) (zip (scalar_bits r) (scalar_bits m)))) (pp_identity, []) =
         (if snd (snd acc) \<noteq> 0 then Inl (Fail ''invalid signature'')
          else Inr (as_pp acc, drop (length head) (take (length head + 1021) out))) \<and>
       length out = length head + 1024)"
proof -
  let ?enc = "\<lambda>k. rev (scalar_encode k)" and ?table = "nym_identity # ps"
  obtain acc out where f: "fold (nym_ladder_step (nym_curve n) ?table (?enc e) (?enc r) (?enc m)) [0..<256] (?table ! 0, head) = (acc, out)"
    by fastforce
  have "length (?enc k) = 32" for k by (simp add: scalar_encode_def)
  from ladder_eq [OF this this this _ f]
  show ?thesis using f by (simp add: scalar_bits_digest Let_def del: upt_rec_numeral)
qed

text \<open>
  C20: Decoding accepts exactly the encodings of points of the curve, and nothing else: the single byte 0 for the point at
  infinity, the uncompressed form, and the compressed form whose prefix is the parity of the second coordinate (a point
  whose second coordinate is 0 would have both prefixes). \<open>nymauth\<close> accepts a pair of byte strings as a public key
  exactly when they are the big-endian coordinates of a point of the curve. A signature is accepted exactly when it is the
  encoding of two scalars that are not zero.
\<close>

theorem point_and_signature_encodings:
  "(affine_decode bs = Inr p) =
     (case p of None \<Rightarrow> bs = [0]
      | Some (x, y) \<Rightarrow> on_p256 (x, y) \<and>
          (bs = 4 # rev (p256_encode x) @ rev (p256_encode y) \<or>
           bs = (if odd (p256_as_residue y) then 3 else 2) # rev (p256_encode x) \<or>
           y = 0 \<and> bs = 3 # rev (p256_encode x))) \<and>
   (validate_public_key kx ky = Inr ()) = (\<exists>x y. kx = rev (p256_encode x) \<and> ky = rev (p256_encode y) \<and> on_p256 (x, y)) \<and>
   (signature_decode input = Inr sg) =
     (sig_r sg \<noteq> 0 \<and> sig_s sg \<noteq> 0 \<and> input = rev (scalar_encode (sig_r sg)) @ rev (scalar_encode (sig_s sg)))"
proof (intro conjI)
  show "(affine_decode bs = Inr p) =
     (case p of None \<Rightarrow> bs = [0]
      | Some (x, y) \<Rightarrow> on_p256 (x, y) \<and>
          (bs = 4 # rev (p256_encode x) @ rev (p256_encode y) \<or>
           bs = (if odd (p256_as_residue y) then 3 else 2) # rev (p256_encode x) \<or>
           y = 0 \<and> bs = 3 # rev (p256_encode x)))"
    by (auto simp: affine_decode_iff sec1_forms_def sec1_uncompressed_def sec1_compressed_def split: option.splits)
qed (simp add: validate_public_key_iff, rule signature_decode_iff)

section \<open>Claims Nym\<close>

text \<open>
  Properties of \<open>nymauth\<close>: the CBOR walker, the verifier's challenge and the circuit converter.
\<close>

subsection \<open>A small circuit in LFC2\<close>

lemma rd_uleb_one:
  assumes "p < length b" "p + 1 < 2 ^ 64" "b ! p AND 0x80 = 0"
  shows "rd_uleb b p = Inr (ucast (b ! p AND 0x7f), p + 1)"
proof -
  have "take (Suc 0) (drop p b) = [b ! p]" using assms(1) by (simp add: take_Suc_conv_app_nth)
  then have "rd_take b 1 p = Inr ([b ! p], p + 1)" using assms by (simp add: rd_take_Inr)
  moreover have "[0..<4] = 0 # [1..<4 :: nat]" by (simp add: upt_rec)
  ultimately show ?thesis using assms(3) by (simp add: rd_uleb_def nth_res_def)
qed

definition sample_lfc2 :: bytes where
  "sample_lfc2 = [0x4c, 0x46, 0x43, 0x32, 4, 1, 1, 1, 1, 2, 1, 1, 1, 0, 0, 0, 0, 0, 0, 0, 0, 0, 0, 0, 0, 0, 0, 0,
     1, 2, 1, 0, 0, 2, 0, 1, 1, 0, 1, 0, 7, 7, 7, 7, 7, 7, 7, 7, 7, 7, 7, 7, 7, 7, 7, 7, 7, 7, 7, 7, 7, 7, 7, 7, 7, 7, 7, 7, 7, 7, 7, 7]"

lemma len: "length sample_lfc2 = 72" by (simp add: sample_lfc2_def)

lemma sample_nth: "sample_lfc2 ! p = [0x4c, 0x46, 0x43, 0x32, 4, 1, 1, 1, 1, 2, 1, 1, 1, 0, 0, 0, 0, 0, 0, 0, 0, 0, 0, 0, 0, 0, 0, 0,
     1, 2, 1, 0, 0, 2, 0, 1, 1, 0, 1, 0, 7, 7, 7, 7, 7, 7, 7, 7, 7, 7, 7, 7, 7, 7, 7, 7, 7, 7, 7, 7, 7, 7, 7, 7, 7, 7, 7, 7, 7, 7, 7, 7] ! p"
  by (simp only: sample_lfc2_def)

lemma sample_uleb:
  "p < 72 \<Longrightarrow> sample_lfc2 ! p AND 0x80 = 0 \<Longrightarrow> rd_uleb sample_lfc2 p = Inr (ucast (sample_lfc2 ! p AND 0x7f), p + 1)"
  by (rule rd_uleb_one) (simp_all add: len)

lemma sample_take: "rd_take sample_lfc2 16 12 = Inr ([1, 0, 0, 0, 0, 0, 0, 0, 0, 0, 0, 0, 0, 0, 0, 0], 28)" "rd_take sample_lfc2 32 40 = Inr ([7, 7, 7, 7, 7, 7, 7, 7, 7, 7, 7, 7, 7, 7, 7, 7, 7, 7, 7, 7, 7, 7, 7, 7, 7, 7, 7, 7, 7, 7, 7, 7], 72)"
  unfolding rd_take_def checked_add_def get_range_def len by (simp_all add: sample_lfc2_def)

lemma sample_layer: "rd_layer sample_lfc2 1 28 = Inr (\<lparr>ll_logw = 1, ll_nw = 2, ll_deltas = [(0, 0, 1, 0)], ll_segments = [[0]], ll_tokens = [0]\<rparr>, 40)"
  by (simp add: rd_layer_def rd_size_def sample_uleb sample_nth rd_delta_def rd_index_def rd_segment_def max_wires_def max_deltas_def max_terms_def unzigzag_def)

lemma sample_put_layer: "put_layer \<lparr>ll_logw = 1, ll_nw = 2, ll_deltas = [(0, 0, 1, 0)], ll_segments = [[0]], ll_tokens = [0]\<rparr> =
  Inr [1, 0, 0, 2, 0, 0, 1, 0, 0, 0, 0, 0, 0, 0, 0, 2, 0, 0, 0, 0, 0]"
  by (simp add: put_layer_def layer_terms_def saturating_add_def put3_def size_limit_def put_delta_def nth_res_def)

lemma sample_one: "lfc2_one sample_lfc2 = Inr ([1, 4, 0, 0, 1, 0, 0, 1, 0, 0, 1, 0, 0, 1, 0, 0, 2, 0, 0, 1, 0, 0, 1, 0, 0, 1, 0, 0, 0, 0, 0, 0, 0, 0, 0, 0, 0, 0, 0, 0, 0,
   1, 0, 0, 2, 0, 0, 1, 0, 0, 0, 0, 0, 0, 0, 0, 2, 0, 0, 0, 0, 0, 7, 7, 7, 7, 7, 7, 7, 7, 7, 7, 7, 7, 7, 7, 7, 7, 7, 7, 7, 7, 7, 7, 7, 7, 7, 7, 7, 7, 7, 7, 7, 7], 72)"
proof -
  have h: "take 4 sample_lfc2 = [0x4c, 0x46, 0x43, 0x32]" by (simp add: sample_lfc2_def)
  show ?thesis
    unfolding lfc2_one_def h
    by (simp add: rd_size_def sample_uleb sample_nth max_wires_def max_layers_def max_constants_def lfc2_element_def sample_take
      put3_def size_limit_def sample_put_layer [unfolded One_nat_def] sample_layer [unfolded One_nat_def]
      layer_terms_def saturating_add_def saturating_mul_def max_terms_def max_out_bytes_def)
qed


lemma sample_parse: "lfc2_parse gf_ops sample_lfc2 = Inr (\<lparr>c_version = 1, c_num_outputs = 1, c_num_copies = 1, c_num_public_inputs = 1,
   c_subfield_boundary = 1, c_num_inputs = 2, c_num_layers = 1, c_constant_table = [1],
   c_layers = [\<lparr>layer_logw = 1, layer_num_wires = 2, layer_quads =
     [\<lparr>gate_index = 0, left_wire_index = 0, right_wire_index = 1, const_table_index = 0\<rparr>]\<rparr>], c_id = [7, 7, 7, 7, 7, 7, 7, 7, 7, 7, 7, 7, 7, 7, 7, 7, 7, 7, 7, 7, 7, 7, 7, 7, 7, 7, 7, 7, 7, 7, 7, 7]\<rparr>, 72)"
proof -
  have d: "drop 12 sample_lfc2 = [1, 0, 0, 0, 0, 0, 0, 0, 0, 0, 0, 0, 0, 0, 0, 0] @ drop 28 sample_lfc2" by (simp add: sample_lfc2_def)
  have f: "fe_decode gf_ops ([1, 0, 0, 0, 0, 0, 0, 0, 0, 0, 0, 0, 0, 0, 0, 0] @ r) = Inr (1, r)" for r
    by (simp add: fe_decode_def gf_ops_def num_bytes_def gf_try_from_def one_gf128_def)
  have g: "fo_field_id gf_ops = GF2_128" "num_bytes gf_ops = 16" by (simp_all add: gf_ops_def num_bytes_def)
  show ?thesis
    by (simp add: lfc2_parse_def rd_nat_def sample_uleb sample_nth d f [simplified] g sample_layer [unfolded One_nat_def] sample_take
      lfc2_circuit_layer_def lfc2_terms_def lfc2_quad_def)
qed


subsection \<open>Properties\<close>

text \<open>
  C23: The CBOR walker accepts exactly the words of the grammar of definite-length items with at most 17 levels, valid UTF-8
  and no misplaced simple value, and returns the position after the one item that starts where it was asked.
\<close>

theorem cbor_walker_accepts_grammar:
  assumes "length d < 2 ^ 64"
  shows "(cbor_end d p = Inr e) = (p \<le> e \<and> e \<le> length d \<and> cbor_item 17 (sub_bytes d p e))"
  using cbor_end_iff [OF assms] by blast

theorem cbor_walker_accepts_grammar_witness:
  "cbor_item 17 (sub_bytes [0x61, 0x61] 0 2) \<and> \<not> cbor_item 17 (sub_bytes [0x61, 0xff] 0 2)"
proof -
  have "cbor_head [0x61, x] 0 = Inr (3, 1, 1)" for x by (simp add: cbor_head_iff)
  then have "cbor_end [0x61, 0x61] 0 = Inr 2" "cbor_end [0x61, 0xff] 0 \<noteq> Inr 2"
    by (simp_all add: cbor_end_def cbor_end_depth.simps [of _ _ 0] cbor_max_depth_def checked_add_def get_range_def)
  then show ?thesis
    using cbor_walker_accepts_grammar [of "[0x61, 0x61]" 0 2] cbor_walker_accepts_grammar [of "[0x61, 0xff]" 0 2] by simp
qed

text \<open>
  C25: A challenge is derived exactly when origin, nonce and document type have 1 to 4096 bytes, the nonce at least 16
  characters and the thumbprint, when there is one, 32 bytes; the session transcript that is built is never refused, and
  an error is always one of invalid input.
\<close>

theorem challenge_derivation_decides:
  assumes "\<And>m. length (sha m) = 32"
  shows "(case derive_challenge sha origin nonce d t of
      Inr c \<Rightarrow> nc_challenge_digest c = sha (challenge_message (nc_session_transcript c) d) \<and>
        nc_session_transcript c = session_transcript sha (handover_info origin nonce (case t of None \<Rightarrow> [0xf6] | Some b \<Rightarrow> chal_bstr b)) \<and>
        origin \<noteq> [] \<and> length origin \<le> 4096 \<and> nonce \<noteq> [] \<and> length nonce \<le> 4096 \<and> d \<noteq> [] \<and> length d \<le> 4096 \<and>
        16 \<le> chars_count nonce \<and> (t = None \<or> length (the t) = 32)
    | Inl e \<Rightarrow> (\<exists>m. e = nym_invalid m) \<and>
        (origin = [] \<or> 4096 < length origin \<or> nonce = [] \<or> 4096 < length nonce \<or> d = [] \<or> 4096 < length d \<or>
         chars_count nonce < 16 \<or> t \<noteq> None \<and> length (the t) \<noteq> 32))"
proof (cases "derive_challenge sha origin nonce d t")
  case (Inl e)
  show ?thesis using derive_challenge_error [of sha, OF assms Inl] Inl by (cases t) auto
next
  case (Inr c)
  show ?thesis using Inr derive_challenge_iff [of sha origin nonce d t c, OF assms] by (cases t) auto
qed

theorem challenge_derivation_decides_witness:
  "case derive_challenge run_sha256 [0x61] (replicate 16 0x62) [0x63] None of
     Inr c \<Rightarrow> nc_challenge_digest c = run_sha256 (challenge_message (nc_session_transcript c) [0x63]) | Inl e \<Rightarrow> False"
proof -
  have "chars_count (replicate 16 0x62) = 16" by code_simp
  then show ?thesis
    using challenge_derivation_decides [of run_sha256 "[0x61]" "replicate 16 0x62" "[0x63]" None, OF length_run_sha256]
    by (simp split: sum.splits)
qed

text \<open>
  C24: The challenge digest binds the request: two derivations with the same digest have the same origin, nonce, document type
  and thumbprint, or their handover infos or their signed messages are two different messages with one hash.
\<close>

theorem challenge_binds_request:
  assumes "\<And>m. length (sha m) = 32" "derive_challenge sha origin nonce d t = Inr c" "derive_challenge sha origin' nonce' d' t' = Inr c'"
    "nc_challenge_digest c = nc_challenge_digest c'"
  shows "(origin, nonce, d, t) = (origin', nonce', d', t') \<or>
    (\<exists>info info'. info = handover_info origin nonce (case t of None \<Rightarrow> [0xf6] | Some b \<Rightarrow> chal_bstr b) \<and>
       info' = handover_info origin' nonce' (case t' of None \<Rightarrow> [0xf6] | Some b \<Rightarrow> chal_bstr b) \<and> collides sha info info') \<or>
    collides sha (challenge_message (nc_session_transcript c) d) (challenge_message (nc_session_transcript c') d')"
  using derived_digest_inj [of sha, OF assms] by blast

theorem challenge_binds_request_witness:
  "\<exists>c. derive_challenge (\<lambda>m. take 32 (rev m @ replicate 32 0)) [0x61] (replicate 16 0x62) [0x63] None = Inr c \<and>
     ([0x61 :: byte], replicate 16 (0x62 :: byte), [0x63 :: byte], None :: bytes option) = ([0x61], replicate 16 0x62, [0x63], None)"
proof -
  let ?sha = "\<lambda>m. take 32 (rev m @ replicate 32 0) :: bytes"
  have s: "length (?sha m) = 32" for m by simp
  obtain c where c: "derive_challenge ?sha [0x61] (replicate 16 0x62) [0x63] None = Inr c"
  proof -
    have "chars_count (replicate 16 0x62) = 16" by code_simp
    then show thesis using that derive_challenge_iff [of ?sha "[0x61]" "replicate 16 0x62" "[0x63]" None, OF s] by auto
  qed
  show ?thesis using challenge_binds_request [of ?sha, OF s c c refl] c by blast
qed

text \<open>
  C22: The converter is faithful: whenever it turns an LFC2 circuit into bytes, decoding these bytes as a circuit over a field gives the
  circuit that the LFC2 file describes, whose terms are the running sums of the deltas its tokens name, and leaves what
  follows; a file for another field or with an invalid constant decodes to nothing.
\<close>

theorem lfc2_conversion_faithful:
  assumes "lfc2_one input = Inr (out, used)" "num_bytes F = field_id_encoded_length (fo_field_id F)"
  shows "(circuit_decode F (out @ rest) = Inr (c, rest')) = (rest' = rest \<and> lfc2_parse F input = Inr (c, used))"
  using lfc2_converted [OF assms] by blast

theorem lfc2_conversion_faithful_witness:
  "\<exists>out c. lfc2_one sample_lfc2 = Inr (out, 72) \<and> circuit_decode gf_ops (out @ [5]) = Inr (c, [5]) \<and> c_constant_table c = [1] \<and>
     map layer_quads (c_layers c) =
       [[\<lparr>gate_index = 0, left_wire_index = 0, right_wire_index = 1, const_table_index = 0\<rparr>]]"
proof -
  have "num_bytes gf_ops = field_id_encoded_length (fo_field_id gf_ops)" by (simp add: gf_ops_def num_bytes_def)
  note d = lfc2_conversion_faithful [OF sample_one this, THEN iffD2, OF conjI, OF refl sample_parse]
  show ?thesis by (intro exI conjI, rule sample_one, rule d) simp_all
qed

end
