(* ===== verification/Mdoc_Sha.thy ===== *)
theory Mdoc_Sha
  imports Sha256 Gf_Subfield Field_P256
begin

text \<open>
  The bit plucker of \<open>src/src/mdoc_zk/bit_plucker.rs\<close>, the block witness of \<open>src/src/mdoc_zk/layout.rs\<close> and the witnessed
  computation of SHA-256 of \<open>src/src/mdoc_zk/sha256.rs\<close>. A slice that is written is an argument and its new content a result.
  The witness is shown to be the plucked words of the reference recurrence, and the digest that of the plain function.
\<close>

unbundle bit_operations_syntax

type_synonym u16 = "16 word"

subsection \<open>The bit plucker\<close>

definition plucker_gf_offset :: gf128 where
  "plucker_gf_offset = inject (push_bit 4 1 - 1)"

definition plucker_gf_encode :: "u16 \<Rightarrow> gf128" where
  "plucker_gf_encode value = inject_bits (4 + 1) (2 * value) - plucker_gf_offset"

text \<open>One chunk of the output, from the low bits of the word.\<close>

fun pluck_word :: "u32 \<Rightarrow> gf128 list \<Rightarrow> gf128 list" where
  "pluck_word bits [] = []"
| "pluck_word bits (_ # out_chunk) = plucker_gf_encode (ucast bits AND drop_bit (16 - 4) (- 1)) # pluck_word (drop_bit 4 bits) out_chunk"

definition encode_u32_array :: "u32 list \<Rightarrow> gf128 list \<Rightarrow> gf128 list res" where
  "encode_u32_array words out =
     (if length words * 32 \<noteq> length out * 4 then Inl (Panic ''assert_eq'')
      else Inr (concat (map2 pluck_word words (as_chunks (32 div 4) out))))"

definition plucker_p256_offset :: "nat \<Rightarrow> fp256" where
  "plucker_p256_offset bits = p256_of_int (2 ^ bits - 1)"

definition plucker_p256_encode :: "nat \<Rightarrow> u16 \<Rightarrow> fp256" where
  "plucker_p256_encode bits value = p256_of_int (2 * uint value) - plucker_p256_offset bits"

fun pluck_byte :: "nat \<Rightarrow> byte \<Rightarrow> fp256 list \<Rightarrow> fp256 list" where
  "pluck_byte k bits [] = []"
| "pluck_byte k bits (_ # out_chunk) =
     plucker_p256_encode k (ucast (bits AND drop_bit (8 - k) (- 1))) # pluck_byte k (drop_bit k bits) out_chunk"

text \<open>\<open>BITS\<close> is the parameter \<open>k\<close>, which is not 0 (an offset of no bits is not constructed in the source).\<close>

definition encode_byte_array :: "nat \<Rightarrow> bytes \<Rightarrow> fp256 list \<Rightarrow> fp256 list res" where
  "encode_byte_array k bs out =
     (if \<not> k \<le> 8 then Inl (Panic ''assert'')
      else if 8 mod k \<noteq> 0 then Inl (Panic ''assert_eq'')
      else if length bs * 8 \<noteq> length out * k then Inl (Panic ''assert_eq'')
      else Inr (concat (map2 (pluck_byte k) bs (as_chunks (8 div k) out))))"

subsection \<open>The witness of a block\<close>

definition block_witness_length :: nat where
  "block_witness_length = 48 * 32 div 4 + 64 * 2 * 32 div 4 + 8 * 32 div 4"

record block_witness =
  bw_message_schedule :: "gf128 list"
  bw_state_e_a :: "gf128 list"
  bw_intermediate_hash_value :: "gf128 list"

text \<open>\<open>iter_blocks\<close> splits every full chunk; \<open>block_slots\<close> is the chunk.\<close>

definition split_block :: "gf128 list \<Rightarrow> block_witness" where
  "split_block input =
     \<lparr>bw_message_schedule = take (48 * 32 div 4) input,
      bw_state_e_a = take (64 * 2 * 32 div 4) (drop (48 * 32 div 4) input),
      bw_intermediate_hash_value = drop (64 * 2 * 32 div 4) (drop (48 * 32 div 4) input)\<rparr>"

definition iter_blocks :: "gf128 list \<Rightarrow> block_witness list" where
  "iter_blocks input = map split_block (as_chunks block_witness_length input)"

definition block_slots :: "block_witness \<Rightarrow> gf128 list" where
  "block_slots w = bw_message_schedule w @ bw_state_e_a w @ bw_intermediate_hash_value w"

fun e_and_a :: "sha_state \<Rightarrow> u32 list" where
  "e_and_a (a, b, c, d, e, f, g, h) = [e, a]"

definition witness_round ::
  "(u32 \<times> u32) \<times> gf128 list \<Rightarrow> sha_state \<times> gf128 list \<Rightarrow> (sha_state \<times> gf128 list) res" where
  "witness_round x st =
     (case x of ((k_t, w_t), state_e_a) \<Rightarrow> case st of (state, written) \<Rightarrow>
        let state = sha_round k_t w_t state
        in and_then (encode_u32_array (e_and_a state) state_e_a) (\<lambda>out. Inr (state, written @ out)))"

definition witness_block :: "bytes \<Rightarrow> sha_state \<Rightarrow> block_witness \<Rightarrow> (sha_state \<times> block_witness) res" where
  "witness_block message_block hash_value witness =
     (let schedule = message_schedule message_block
      in and_then (encode_u32_array (drop 16 schedule) (bw_message_schedule witness)) (\<lambda>ms.
         and_then (fold_res witness_round (zip (zip sha_k schedule) (as_chunks (2 * 32 div 4) (bw_state_e_a witness))) (hash_value, []))
           (\<lambda>(state, e_a).
         let hash_value = add_state hash_value state
         in and_then (encode_u32_array (state_list hash_value) (bw_intermediate_hash_value witness)) (\<lambda>ih.
              Inr (hash_value, \<lparr>bw_message_schedule = ms, bw_state_e_a = e_a, bw_intermediate_hash_value = ih\<rparr>)))))"

record sha256_result =
  sr_digest :: digest
  sr_padded_input :: bytes
  sr_num_blocks :: nat

text \<open>The loop over the blocks; the state is the hash value, the digest once it is there, and the blocks written.\<close>

definition witnessed_step ::
  "nat \<Rightarrow> nat \<times> bytes \<times> block_witness \<Rightarrow> sha_state \<times> digest option \<times> gf128 list \<Rightarrow> (sha_state \<times> digest option \<times> gf128 list) res" where
  "witnessed_step num_blocks x st =
     (case x of (block_number, chunk, block_witness) \<Rightarrow> case st of (hash_value, digest, written) \<Rightarrow>
        and_then (witness_block chunk hash_value block_witness) (\<lambda>(hash_value, block_witness).
          Inr (hash_value, if block_number + 1 = num_blocks then Some (serialize_hash_value hash_value) else digest,
            written @ block_slots block_witness)))"

definition run_sha256_witnessed :: "bytes \<Rightarrow> gf128 list \<Rightarrow> nat \<Rightarrow> (sha256_result \<times> gf128 list) res" where
  "run_sha256_witnessed input witness max_blocks =
     (let circuit_input_len = max_blocks * 64;
          (padded_input, num_blocks) = pad_input input;
          padded_input = resize circuit_input_len 0 padded_input;
          blocks = zip (as_chunks 64 padded_input) (iter_blocks witness)
      in and_then (fold_res (witnessed_step num_blocks) (zip [0..<length blocks] blocks) (initial_hash_value, None, []))
           (\<lambda>(_, digest, written).
         and_then (opt_res (Fail ''SHA-256 input was too long'') digest) (\<lambda>digest.
           Inr (\<lparr>sr_digest = digest, sr_padded_input = padded_input, sr_num_blocks = num_blocks\<rparr>,
             written @ drop (length written) witness))))"

subsection \<open>The constants\<close>

text \<open>
  The constants of SHA-256 are the first 32 bits of the fractional parts of roots of primes: \<open>root_fraction r p k\<close> says that, for a whole
  part \<open>w\<close>, the \<open>r\<close>-th root of \<open>p\<close> is between \<open>w + k / 2 ^ 32\<close> and \<open>w + (k + 1) / 2 ^ 32\<close>.
\<close>

definition first_primes :: "int list" where
  "first_primes = [2, 3, 5, 7, 11, 13, 17, 19, 23, 29, 31, 37, 41, 43, 47, 53, 59, 61, 67, 71, 73, 79, 83, 89, 97,
     101, 103, 107, 109, 113, 127, 131, 137, 139, 149, 151, 157, 163, 167, 173, 179, 181, 191, 193, 197, 199, 211, 223, 227, 229, 233, 239,
     241, 251, 257, 263, 269, 271, 277, 281, 283, 293, 307, 311]"

definition root_fraction :: "nat \<Rightarrow> int \<Rightarrow> u32 \<Rightarrow> bool" where
  "root_fraction r p k \<longleftrightarrow>
     (\<exists>w \<in> {1, 2, 3, 4, 5, 6}. (w * 2 ^ 32 + uint k) ^ r \<le> p * (2 ^ 32) ^ r \<and> p * (2 ^ 32) ^ r < (w * 2 ^ 32 + uint k + 1) ^ r)"

lemma sha_k_roots: "list_all2 (root_fraction 3) first_primes sha_k"
  unfolding first_primes_def sha_k_def list_all2_Cons list_all2_Nil root_fraction_def bex_simps
  by (intro conjI TrueI) simp_all

lemma initial_hash_value_roots: "list_all2 (root_fraction 2) (take 8 first_primes) (state_list initial_hash_value)"
  by (simp add: first_primes_def root_fraction_def initial_hash_value_def)

subsection \<open>The plucked words of the reference\<close>

definition pluck_u32 :: "u32 \<Rightarrow> gf128 list" where
  "pluck_u32 w = map (\<lambda>i. plucker_gf_encode (ucast (drop_bit (4 * i) w) AND drop_bit (16 - 4) (- 1))) [0..<8]"

definition pluck_words :: "u32 list \<Rightarrow> gf128 list" where
  "pluck_words ws = concat (map pluck_u32 ws)"

definition fips_witness :: "bytes \<Rightarrow> sha_state \<Rightarrow> block_witness" where
  "fips_witness m s =
     \<lparr>bw_message_schedule = pluck_words (map (fips_schedule m) [16..<64]),
      bw_state_e_a = pluck_words (concat (map (\<lambda>t. [state_e (fips_state m s (Suc t)), state_a (fips_state m s (Suc t))]) [0..<64])),
      bw_intermediate_hash_value = pluck_words (state_list (fips_block m s))\<rparr>"

text \<open>The chain of the blocks of a message.\<close>

fun chain_witness :: "bytes list \<Rightarrow> sha_state \<Rightarrow> gf128 list" where
  "chain_witness [] s = []"
| "chain_witness (m # ms) s = block_slots (fips_witness m s) @ chain_witness ms (fips_block m s)"

lemma length_pluck_u32 [simp]: "length (pluck_u32 w) = 8"
  by (simp add: pluck_u32_def)

lemma pluck_words_simps [simp]:
  "pluck_words [] = []" "pluck_words (w # ws) = pluck_u32 w @ pluck_words ws" "pluck_words (vs @ ws) = pluck_words vs @ pluck_words ws"
  by (simp_all add: pluck_words_def)

lemma length_pluck_words [simp]: "length (pluck_words ws) = 8 * length ws"
  by (induction ws) simp_all

lemma pluck_word_eq:
  "pluck_word w out = map (\<lambda>i. plucker_gf_encode (ucast (drop_bit (4 * i) w) AND drop_bit (16 - 4) (- 1))) [0..<length out]"
proof (induction out arbitrary: w)
  case (Cons x out)
  show ?case
    by (simp only: pluck_word.simps Cons.IH list.size(4) add_Suc_right add_0_right map_upt_Suc One_nat_def)
      (simp add: drop_bit_drop_bit add.commute)
qed simp

lemma encode_u32_array_ok:
  assumes "length out = 8 * length words"
  shows "encode_u32_array words out = Inr (pluck_words words)"
proof -
  have "map2 pluck_word words (as_chunks 8 out) = map pluck_u32 words"
    using assms by (intro nth_equalityI) (simp_all add: nth_as_chunks pluck_word_eq pluck_u32_def)
  then show ?thesis using assms by (simp add: encode_u32_array_def pluck_words_def)
qed

subsection \<open>Blocks\<close>

definition block_shape :: "block_witness \<Rightarrow> bool" where
  "block_shape w \<longleftrightarrow> length (bw_message_schedule w) = 384 \<and> length (bw_state_e_a w) = 1024 \<and> length (bw_intermediate_hash_value w) = 64"

lemma e_and_a_eq: "e_and_a s = [state_e s, state_a s]"
  by (cases s rule: e_and_a.cases) simp

lemma length_state_list [simp]: "length (state_list s) = 8"
  by (cases s rule: state_list.cases) simp

lemma length_concat_const: "\<forall>x \<in> set xs. length (f x) = k \<Longrightarrow> length (concat (map f xs)) = k * length xs"
  by (induction xs) simp_all

lemma fips_witness_shape: "block_shape (fips_witness m s)"
  by (simp add: block_shape_def fips_witness_def length_concat_const [where k = 2] del: upt_rec_numeral)

lemma length_block_slots: "block_shape w \<Longrightarrow> length (block_slots w) = block_witness_length"
  by (simp add: block_shape_def block_slots_def block_witness_length_def)

lemma witness_rounds:
  assumes "length m = 64" "length outs = 64" "\<forall>x \<in> set outs. length x = 16" "t \<le> 64"
  shows "fold_res witness_round (take t (zip (zip sha_k (message_schedule m)) outs)) (s, []) =
    Inr (fips_state m s t, pluck_words (concat (map (\<lambda>t. [state_e (fips_state m s (Suc t)), state_a (fips_state m s (Suc t))]) [0..<t])))"
  using assms(4)
proof (induction t)
  case (Suc t)
  have "length sha_k = 64" by (simp add: sha_k_def)
  then have "take (Suc t) (zip (zip sha_k (message_schedule m)) outs) =
      take t (zip (zip sha_k (message_schedule m)) outs) @ [((sha_k ! t, fips_schedule m t), outs ! t)]"
    using Suc.prems message_schedule_fips [OF assms(1)] assms(2) by (simp add: take_Suc_conv_app_nth)
  moreover obtain a b c d e f g h where s: "fips_state m s t = (a, b, c, d, e, f, g, h)" by (cases "fips_state m s t") auto
  moreover have "length (outs ! t) = 16" using assms(2,3) Suc.prems by simp
  ultimately show ?case using Suc
    by (simp add: fold_res_append witness_round_def encode_u32_array_ok Let_def del: pluck_words_simps(2))
qed simp

lemma witness_block_ok:
  assumes "length m = 64" "block_shape w"
  shows "witness_block m s w = Inr (process_block m s, fips_witness m s)"
proof -
  let ?outs = "as_chunks 16 (bw_state_e_a w)"
  have sched: "drop 16 (message_schedule m) = map (fips_schedule m) [16..<64]"
    using message_schedule_fips [OF assms(1)] by (intro nth_equalityI) (simp_all del: upt_rec_numeral)
  have "length ?outs = 64" "\<forall>x \<in> set ?outs. length x = 16"
    using assms(2) by (auto simp: block_shape_def as_chunks_def)
  from witness_rounds [OF assms(1) this, of 64 s]
  have "fold_res witness_round (zip (zip sha_k (message_schedule m)) ?outs) (s, []) =
      Inr (fips_state m s 64, pluck_words (concat (map (\<lambda>t. [state_e (fips_state m s (Suc t)), state_a (fips_state m s (Suc t))]) [0..<64])))"
    using message_schedule_fips(1) [OF assms(1)] \<open>length ?outs = 64\<close> by (simp add: sha_k_def del: upt_rec_numeral)
  then show ?thesis using assms(2)
    by (simp add: witness_block_def Let_def sched encode_u32_array_ok block_shape_def process_block_fips [OF assms(1)]
        fips_block_def fips_witness_def del: upt_rec_numeral)
qed

lemma split_block_shape: "length x = block_witness_length \<Longrightarrow> block_shape (split_block x)"
  by (simp add: split_block_def block_shape_def block_witness_length_def)

lemma block_slots_split: "block_slots (split_block x) = x"
  using append_take_drop_id [of 1024 "drop 384 x"] append_take_drop_id [of 384 x]
  by (simp add: split_block_def block_slots_def)

subsection \<open>Messages\<close>

lemma chain_witness_append:
  "chain_witness (ms @ ns) s = chain_witness ms s @ chain_witness ns (fold fips_block ms s)"
  by (induction ms arbitrary: s) simp_all

lemma length_chain_witness [simp]: "length (chain_witness ms s) = block_witness_length * length ms"
  by (induction ms arbitrary: s) (simp_all add: length_block_slots fips_witness_shape)

lemma witnessed_steps:
  assumes "\<forall>m \<in> set ms. length m = 64" "length bws = length ms" "\<forall>w \<in> set bws. block_shape w"
  shows "fold_res (witnessed_step nb) (zip [k..<k + length ms] (zip ms bws)) (s, d, written) =
    Inr (fold process_block ms s,
      if k < nb \<and> nb \<le> k + length ms then Some (serialize_hash_value (fold process_block (take (nb - k) ms) s)) else d,
      written @ chain_witness ms s)"
  using assms
proof (induction ms arbitrary: bws k s d written)
  case (Cons m ms)
  obtain w ws where bws: "bws = w # ws" using Cons.prems(2) by (cases bws) auto
  have z: "zip [k..<k + length (m # ms)] (zip (m # ms) bws) = (k, m, w) # zip [Suc k..<Suc k + length ms] (zip ms ws)"
    by (simp add: bws upt_conv_Cons del: upt_Suc)
  have wb: "witness_block m s w = Inr (process_block m s, fips_witness m s)"
    using Cons.prems bws by (intro witness_block_ok) auto
  have "fold_res (witnessed_step nb) (zip [k..<k + length (m # ms)] (zip (m # ms) bws)) (s, d, written) =
      fold_res (witnessed_step nb) (zip [Suc k..<Suc k + length ms] (zip ms ws))
        (process_block m s, if k + 1 = nb then Some (serialize_hash_value (process_block m s)) else d,
         written @ block_slots (fips_witness m s))"
    unfolding z by (simp add: witnessed_step_def wb)
  also have "\<dots> = Inr (fold process_block ms (process_block m s),
      if Suc k < nb \<and> nb \<le> Suc k + length ms
      then Some (serialize_hash_value (fold process_block (take (nb - Suc k) ms) (process_block m s)))
      else if k + 1 = nb then Some (serialize_hash_value (process_block m s)) else d,
      (written @ block_slots (fips_witness m s)) @ chain_witness ms (process_block m s))"
    by (rule Cons.IH) (use Cons.prems bws in auto)
  also have "process_block m s = fips_block m s" using Cons.prems by (intro process_block_fips) simp
  finally show ?case using \<open>process_block m s = fips_block m s\<close> Cons.prems
    by (auto simp: take_Cons' Suc_diff_Suc split: if_splits)
qed auto

lemma resize_padded: "padded_blocks m \<le> b \<Longrightarrow> resize (b * 64) 0 (fst (pad_input m)) = padded_to b m"
  by (simp add: resize_def padded_to_def Let_def length_pad_input mult.commute)

lemma take_as_chunks: "length p = k * n \<Longrightarrow> 0 < n \<Longrightarrow> k * n \<le> length (p @ z) \<Longrightarrow> take k (as_chunks n (p @ z)) = as_chunks n p"
proof -
  assume l: "length p = k * n" "0 < n" "k * n \<le> length (p @ z)"
  have "k \<le> length (p @ z) div n" using l(2,3) by (simp add: less_eq_div_iff_mult_less_eq)
  moreover have "take n (drop (i * n) (p @ z)) = take n (drop (i * n) p)" if "i < k" for i
  proof -
    have "(i + 1) * n \<le> k * n" using that by (intro mult_le_mono1) simp
    then show ?thesis using l(1) by simp
  qed
  ultimately show ?thesis using l(1,2) by (simp add: as_chunks_def take_map take_upt cong: map_cong)
qed

lemma run_sha256_witnessed_eq:
  assumes "length witness = max_blocks * block_witness_length"
  shows "run_sha256_witnessed input witness max_blocks =
    (if padded_blocks input \<le> max_blocks
     then Inr (\<lparr>sr_digest = run_sha256 input, sr_padded_input = padded_to max_blocks input, sr_num_blocks = padded_blocks input\<rparr>,
       chain_witness (as_chunks 64 (padded_to max_blocks input)) initial_hash_value)
     else Inl (Fail ''SHA-256 input was too long''))"
proof -
  let ?p = "resize (max_blocks * 64) 0 (fst (pad_input input))" and ?bws = "iter_blocks witness"
  let ?ms = "as_chunks 64 ?p"
  have pos: "0 < padded_blocks input" by (simp add: padded_blocks_def)
  have "block_witness_length \<noteq> 0" by (simp add: block_witness_length_def)
  then have ms: "length ?ms = max_blocks" "\<forall>m \<in> set ?ms. length m = 64" "length ?bws = length ?ms"
    "\<forall>w \<in> set ?bws. block_shape w"
    using assms by (auto simp: iter_blocks_def dest: as_chunks_length intro!: split_block_shape)
  have run: "fold_res (witnessed_step (padded_blocks input)) (zip [0..<length (zip ?ms ?bws)] (zip ?ms ?bws)) (initial_hash_value, None, []) =
      Inr (fold process_block ?ms initial_hash_value,
        if padded_blocks input \<le> max_blocks
        then Some (serialize_hash_value (fold process_block (take (padded_blocks input) ?ms) initial_hash_value)) else None,
        chain_witness ?ms initial_hash_value)"
    using witnessed_steps [OF ms(2,3,4), of "padded_blocks input" 0 initial_hash_value None "[]"] ms(1,3) pos by simp
  have written: "drop (length (chain_witness ?ms initial_hash_value)) witness = []" using assms ms(1) by (simp add: mult.commute)
  show ?thesis
  proof (cases "padded_blocks input \<le> max_blocks")
    case True
    then have p: "?p = fst (pad_input input) @ replicate (64 * max_blocks - length (fst (pad_input input))) 0"
      by (simp add: resize_padded padded_to_def Let_def)
    have "take (padded_blocks input) ?ms = as_chunks 64 (fst (pad_input input))"
      unfolding p by (rule take_as_chunks) (use True in \<open>simp_all add: length_pad_input mult.commute\<close>)
    then show ?thesis using True written
      unfolding run_sha256_witnessed_def Let_def case_prod_unfold snd_pad_input run
      by (simp add: resize_padded run_sha256_def)
  next
    case False
    then show ?thesis unfolding run_sha256_witnessed_def Let_def case_prod_unfold snd_pad_input run by simp
  qed
qed

subsection \<open>Plucked bits are distinct\<close>

lemma mask_4: "drop_bit (16 - 4) (- 1 :: u16) = mask 4"
  by (simp add: drop_bit_eq_div mask_eq_exp_minus_1)

lemma plucker_gf_inj:
  assumes "plucker_gf_encode (v AND mask 4) = plucker_gf_encode (w AND mask 4)"
  shows "v AND mask 4 = w AND mask 4"
proof -
  have small: "inject_bits 5 (push_bit 1 (x AND mask 4)) = inject (push_bit 1 (x AND mask 4))" for x :: u16
  proof -
    have high: "\<not> bit (push_bit 1 (x AND mask 4)) j" if "5 \<le> j" for j
      using that by (subst bit_push_bit_iff) (auto simp: bit_simps)
    have "(\<Sum>j < 16. if bit (push_bit 1 (x AND mask 4)) j then subfield_basis ! j else 0) =
        (\<Sum>j < 5. if bit (push_bit 1 (x AND mask 4)) j then subfield_basis ! j else 0)"
      by (rule sum.mono_neutral_right) (use high in auto)
    then show ?thesis unfolding inject_sum by (subst inject_bits_sum) simp_all
  qed
  have d: "2 * x = push_bit 1 x" for x :: u16 by (simp add: push_bit_eq_mult)
  have five: "(4 :: nat) + 1 = 5" by simp
  have "inject (push_bit 1 (v AND mask 4)) - plucker_gf_offset = inject (push_bit 1 (w AND mask 4)) - plucker_gf_offset"
    using assms unfolding plucker_gf_encode_def d five small .
  then have "inject (push_bit 1 (v AND mask 4)) = inject (push_bit 1 (w AND mask 4))"
    by (metis diff_add_cancel)
  then have e: "push_bit 1 (v AND mask 4) = push_bit 1 (w AND mask 4)" by (rule inject_inj)
  show ?thesis
  proof (rule bit_word_eqI)
    fix n assume "n < LENGTH(16)"
    show "bit (v AND mask 4) n = bit (w AND mask 4) n"
    proof (cases "n < 4")
      case True
      have "bit (push_bit 1 x) (Suc n) \<longleftrightarrow> bit x n" for x :: u16
        using True by (subst bit_push_bit_iff) simp
      then show ?thesis using e by metis
    qed (simp add: bit_simps)
  qed
qed

lemma pluck_u32_inj: "pluck_u32 v = pluck_u32 w \<Longrightarrow> v = w"
proof (rule bit_word_eqI)
  fix n assume e: "pluck_u32 v = pluck_u32 w" and n: "n < LENGTH(32)"
  have "plucker_gf_encode (ucast (drop_bit (4 * (n div 4)) v) AND mask 4) = plucker_gf_encode (ucast (drop_bit (4 * (n div 4)) w) AND mask 4)"
    using e n unfolding pluck_u32_def mask_4 by (simp add: list_eq_iff_nth_eq del: upt_rec_numeral)
  from plucker_gf_inj [OF this]
  have "bit (ucast (drop_bit (4 * (n div 4)) v) AND mask 4 :: u16) (n mod 4) = bit (ucast (drop_bit (4 * (n div 4)) w) AND mask 4 :: u16) (n mod 4)"
    by simp
  moreover have "n mod 4 < 16" by (rule less_trans [of _ 4]) simp_all
  ultimately show "bit v n = bit w n" by (simp add: bit_simps)
qed

lemma pluck_words_inj: "pluck_words vs = pluck_words ws \<Longrightarrow> length vs = length ws \<Longrightarrow> vs = ws"
proof (induction vs arbitrary: ws)
  case (Cons v vs)
  then obtain w us where "ws = w # us" by (cases ws) auto
  with Cons show ?case using pluck_u32_inj by auto
qed simp

text \<open>In the large field the plucked values are the odd numbers between \<open>- (2 ^ k - 1)\<close> and \<open>2 ^ k - 1\<close>.\<close>

lemma p256_of_int_diff: "p256_of_int a - p256_of_int b = p256_of_int (a - b)"
  by transfer (rule mod_diff_eq)

lemma pluck_byte_eq:
  assumes "0 < k" "k \<le> 8"
  shows "pluck_byte k b out =
    map (\<lambda>i. p256_of_int (2 * uint (drop_bit (k * i) b AND mask k) - (2 ^ k - 1))) [0..<length out]"
proof (induction out arbitrary: b)
  case (Cons x out)
  have m: "drop_bit (8 - k) (- 1 :: byte) = mask k"
    using assms by (intro bit_word_eqI) (auto simp: bit_simps)
  have "uint (ucast (c AND mask k) :: u16) = uint (c AND mask k)" for c :: byte
    using uint_lt2p [of "c AND mask k"] by (simp add: unsigned_ucast_eq take_bit_int_eq_self)
  then show ?case
    by (simp only: pluck_byte.simps Cons.IH list.size(4) add_Suc_right add_0_right map_upt_Suc One_nat_def m)
      (simp add: plucker_p256_encode_def plucker_p256_offset_def p256_of_int_diff add.commute)
qed simp

end
