(* ===== verification/Mdoc_Layout.thy ===== *)
theory Mdoc_Layout
  imports Ec Mdoc_Sha
begin

text \<open>
  The layout of the inputs of the two circuits, \<open>src/src/mdoc_zk/layout.rs\<close>. A struct of references into a slice is the record of
  the parts of the slice; \<open>..._slots\<close> is the slice of such a record, in the order of its fields, so that writing through the references
  is updating the record. Splitting is shown to succeed exactly for slices of the computed length, to lose nothing and to reorder nothing.
\<close>

subsection \<open>Versions and lengths\<close>

datatype circuit_version = V6 | V7 | V8

record input_layout =
  il_version :: circuit_version
  il_attributes :: nat

definition layout_new :: "circuit_version \<Rightarrow> nat \<Rightarrow> input_layout res" where
  "layout_new version attributes =
     (if attributes = 0 \<or> attributes > 4 then Inl (Fail ''unsupported number of attributes'')
      else Inr \<lparr>il_version = version, il_attributes = attributes\<rparr>)"

definition sha_256_credential_max_blocks_v6 :: nat where "sha_256_credential_max_blocks_v6 = 35"
definition sha_256_credential_max_blocks_v7 :: nat where "sha_256_credential_max_blocks_v7 = 40"
definition sha_256_credential_known_prefix_bytes :: nat where "sha_256_credential_known_prefix_bytes = 18"
definition cbor_offset_bits :: nat where "cbor_offset_bits = 12"
definition attribute_cbor_data_length_v6 :: nat where "attribute_cbor_data_length_v6 = 96"
definition attribute_cbor_identifier_length_v7 :: nat where "attribute_cbor_identifier_length_v7 = 32"
definition attribute_cbor_value_length_v7 :: nat where "attribute_cbor_value_length_v7 = 64"
definition verifier_context_bytes :: nat where "verifier_context_bytes = 32"
definition ppid_seed_bytes :: nat where "ppid_seed_bytes = 32"

definition sha_256_input_wires :: "nat \<Rightarrow> nat" where
  "sha_256_input_wires max_blocks = (max_blocks * 64 - sha_256_credential_known_prefix_bytes) * 8"

definition sha_256_witness_wires :: "nat \<Rightarrow> nat" where
  "sha_256_witness_wires max_blocks = max_blocks * block_witness_length"

definition attribute_input_v6_length :: nat where
  "attribute_input_v6_length = attribute_cbor_data_length_v6 * 8 + 8"

definition attribute_input_v7_length :: nat where
  "attribute_input_v7_length = attribute_cbor_identifier_length_v7 * 8 + attribute_cbor_value_length_v7 * 8 + 8 + 8"

definition attribute_witness_v6_length :: nat where
  "attribute_witness_v6_length =
     2 * 64 * 8 + 2 * block_witness_length + cbor_offset_bits + (cbor_offset_bits + cbor_offset_bits) +
       (cbor_offset_bits + cbor_offset_bits)"

definition attribute_witness_v7_length :: nat where
  "attribute_witness_v7_length = attribute_witness_v6_length + 3 * cbor_offset_bits + 4 * cbor_offset_bits + 4 * 2"

definition signature_statement_length :: "input_layout \<Rightarrow> nat" where
  "signature_statement_length L = 1 + 2 + 1 + 3 * 2 * 128 + 128"

definition signature_input_length :: "input_layout \<Rightarrow> nat" where
  "signature_input_length L =
     signature_statement_length L + 1 + 2 + ecdsa_witness_length + ecdsa_witness_length + 3 * (256 * 2 div 2)"

definition hash_statement_length :: "input_layout \<Rightarrow> nat" where
  "hash_statement_length L =
     (let wires_per_attribute = (case il_version L of V6 \<Rightarrow> attribute_input_v6_length | V7 \<Rightarrow> attribute_input_v7_length
            | V8 \<Rightarrow> attribute_input_v7_length);
          verifier_context_wires = (case il_version L of V6 \<Rightarrow> 0 | V7 \<Rightarrow> 0 | V8 \<Rightarrow> verifier_context_bytes * 8)
      in 1 + il_attributes L * wires_per_attribute + 20 * 8 + verifier_context_wires + 3 * 2 + 1)"

definition sha_256_max_blocks :: "input_layout \<Rightarrow> nat" where
  "sha_256_max_blocks L =
     (case il_version L of V6 \<Rightarrow> sha_256_credential_max_blocks_v6 | V7 \<Rightarrow> sha_256_credential_max_blocks_v7
       | V8 \<Rightarrow> sha_256_credential_max_blocks_v7)"

definition hash_input_length :: "input_layout \<Rightarrow> nat" where
  "hash_input_length L =
     (let max_blocks = sha_256_max_blocks L;
          wires_per_attribute = (case il_version L of V6 \<Rightarrow> attribute_witness_v6_length | V7 \<Rightarrow> attribute_witness_v7_length
            | V8 \<Rightarrow> attribute_witness_v7_length);
          ppid_wires = (case il_version L of V6 \<Rightarrow> 0 | V7 \<Rightarrow> 0 | V8 \<Rightarrow> ppid_seed_bytes * 8 + sha_256_witness_wires 2)
      in hash_statement_length L + 256 + 2 * 256 + 8 + sha_256_input_wires max_blocks + sha_256_witness_wires max_blocks +
         12 + 12 + 12 + 12 + il_attributes L * wires_per_attribute + ppid_wires + 3 * 2)"

subsection \<open>Splitting slices\<close>

definition split_at_mut :: "nat \<Rightarrow> 'a list \<Rightarrow> ('a list \<times> 'a list) res" where
  "split_at_mut n xs = (if n \<le> length xs then Inr (take n xs, drop n xs) else Inl (Panic ''split_at_mut''))"

definition split_first_mut :: "'a list \<Rightarrow> ('a \<times> 'a list) res" where
  "split_first_mut xs = (case xs of [] \<Rightarrow> Inl (Panic ''unwrap'') | x # rest \<Rightarrow> Inr (x, rest))"

definition assert_empty :: "'a list \<Rightarrow> unit res" where
  "assert_empty xs = (if xs = [] then Inr () else Inl (Panic ''assert''))"

text \<open>The conversion of what is left of a slice to an array.\<close>

definition try_into_array :: "nat \<Rightarrow> 'a list \<Rightarrow> 'a list res" where
  "try_into_array n xs = (if length xs = n then Inr xs else Inl (Panic ''unwrap''))"

text \<open>The loop over the attributes: a chunk of fixed length each, split further by \<open>f\<close>.\<close>

fun split_chunks :: "nat \<Rightarrow> ('a list \<Rightarrow> 'b res) \<Rightarrow> nat \<Rightarrow> 'a list \<Rightarrow> ('b list \<times> 'a list) res" where
  "split_chunks n f 0 input = Inr ([], input)"
| "split_chunks n f (Suc k) input =
     and_then (split_at_mut n input) (\<lambda>(chunk, rest).
     and_then (f chunk) (\<lambda>out.
     and_then (split_chunks n f k rest) (\<lambda>(outs, rest). Inr (out # outs, rest))))"

text \<open>The arrays of four optional attributes.\<close>

definition four_options :: "'b list \<Rightarrow> 'b option list" where
  "four_options xs = map Some xs @ replicate (4 - length xs) None"

subsection \<open>The signature circuit\<close>

record signature_statement =
  ss_implicit_one :: fp256
  ss_issuer_public_key_x :: fp256
  ss_issuer_public_key_y :: fp256
  ss_e_session_transcript :: fp256
  ss_mac_tags :: "fp256 list"
  ss_mac_verifier_key_share :: "fp256 list"

record signature_input =
  si_statement :: signature_statement
  si_e_credential :: fp256
  si_device_public_key_x :: fp256
  si_device_public_key_y :: fp256
  si_credential_ecdsa_witness :: ecdsa_witness
  si_device_ecdsa_witness :: ecdsa_witness
  si_mac_witnesses :: "fp256 list"

definition split_signature_statement :: "input_layout \<Rightarrow> fp256 list \<Rightarrow> signature_statement res" where
  "split_signature_statement L input =
     (if length input \<noteq> signature_statement_length L then Inl (Panic ''assert_eq'')
      else
        and_then (split_first_mut input) (\<lambda>(implicit_one, input).
        and_then (split_first_mut input) (\<lambda>(issuer_public_key_x, input).
        and_then (split_first_mut input) (\<lambda>(issuer_public_key_y, input).
        and_then (split_first_mut input) (\<lambda>(e_session_transcript, input).
        and_then (split_at_mut (3 * 2 * 128) input) (\<lambda>(mac_tags, input).
        and_then (split_at_mut 128 input) (\<lambda>(mac_verifier_key_share, input).
        and_then (assert_empty input) (\<lambda>_.
          Inr \<lparr>ss_implicit_one = implicit_one, ss_issuer_public_key_x = issuer_public_key_x,
            ss_issuer_public_key_y = issuer_public_key_y, ss_e_session_transcript = e_session_transcript,
            ss_mac_tags = mac_tags, ss_mac_verifier_key_share = mac_verifier_key_share\<rparr>))))))))"

definition signature_statement_slots :: "signature_statement \<Rightarrow> fp256 list" where
  "signature_statement_slots s =
     [ss_implicit_one s, ss_issuer_public_key_x s, ss_issuer_public_key_y s, ss_e_session_transcript s] @
       ss_mac_tags s @ ss_mac_verifier_key_share s"

definition ecdsa_witness_new :: "fp256 list \<Rightarrow> ecdsa_witness res" where
  "ecdsa_witness_new witnesses =
     (if length witnesses \<noteq> ecdsa_witness_length then Inl (Panic ''unwrap'')
      else
        and_then (split_first_mut witnesses) (\<lambda>(r_x, witnesses).
        and_then (split_first_mut witnesses) (\<lambda>(r_y, witnesses).
        and_then (split_first_mut witnesses) (\<lambda>(r_x_inverse, witnesses).
        and_then (split_first_mut witnesses) (\<lambda>(neg_s_inverse, witnesses).
        and_then (split_first_mut witnesses) (\<lambda>(q_x_inverse, witnesses).
        and_then (split_at_mut 2 witnesses) (\<lambda>(sum_g_q, witnesses).
        and_then (split_at_mut 2 witnesses) (\<lambda>(sum_g_r, witnesses).
        and_then (split_at_mut 2 witnesses) (\<lambda>(sum_q_r, witnesses).
        and_then (split_at_mut 2 witnesses) (\<lambda>(sum_g_q_r, witnesses).
        and_then (try_into_array (256 + 255 * 3) witnesses) (\<lambda>witnesses.
          Inr \<lparr>ew_r_x = r_x, ew_r_y = r_y, ew_r_x_inverse = r_x_inverse, ew_neg_s_inverse = neg_s_inverse,
            ew_q_x_inverse = q_x_inverse, ew_sum_g_q = sum_g_q, ew_sum_g_r = sum_g_r, ew_sum_q_r = sum_q_r,
            ew_sum_g_q_r = sum_g_q_r, ew_msm = witnesses\<rparr>)))))))))))"

definition split_signature_input :: "input_layout \<Rightarrow> fp256 list \<Rightarrow> signature_input res" where
  "split_signature_input L input =
     (if length input \<noteq> signature_input_length L then Inl (Panic ''assert_eq'')
      else
        and_then (split_at_mut (signature_statement_length L) input) (\<lambda>(statement, input).
        and_then (split_signature_statement L statement) (\<lambda>statement.
        and_then (split_first_mut input) (\<lambda>(e_credential, input).
        and_then (split_first_mut input) (\<lambda>(device_public_key_x, input).
        and_then (split_first_mut input) (\<lambda>(device_public_key_y, input).
        and_then (split_at_mut ecdsa_witness_length input) (\<lambda>(credential_ecdsa_witness, input).
        and_then (split_at_mut ecdsa_witness_length input) (\<lambda>(device_ecdsa_witness, input).
        and_then (split_at_mut (3 * 256 * 2 div 2) input) (\<lambda>(mac_witnesses, input).
        and_then (assert_empty input) (\<lambda>_.
        and_then (ecdsa_witness_new credential_ecdsa_witness) (\<lambda>credential_ecdsa_witness.
        and_then (ecdsa_witness_new device_ecdsa_witness) (\<lambda>device_ecdsa_witness.
          Inr \<lparr>si_statement = statement, si_e_credential = e_credential, si_device_public_key_x = device_public_key_x,
            si_device_public_key_y = device_public_key_y, si_credential_ecdsa_witness = credential_ecdsa_witness,
            si_device_ecdsa_witness = device_ecdsa_witness, si_mac_witnesses = mac_witnesses\<rparr>))))))))))))"

definition signature_input_slots :: "signature_input \<Rightarrow> fp256 list" where
  "signature_input_slots s =
     signature_statement_slots (si_statement s) @
     [si_e_credential s, si_device_public_key_x s, si_device_public_key_y s] @
     ecdsa_witness_slots (si_credential_ecdsa_witness s) @ ecdsa_witness_slots (si_device_ecdsa_witness s) @
     si_mac_witnesses s"

subsection \<open>The hash circuit\<close>

record attribute_input_v6 =
  a6_cbor_data :: "gf128 list"
  a6_cbor_length :: "gf128 list"

record attribute_input_v7 =
  a7_cbor_identifier :: "gf128 list"
  a7_cbor_value :: "gf128 list"
  a7_id_length :: "gf128 list"
  a7_value_length :: "gf128 list"

datatype attribute_inputs = Attribute_Inputs_V6 "attribute_input_v6 option list" | Attribute_Inputs_V7 "attribute_input_v7 option list"

record hash_statement =
  hs_implicit_one :: gf128
  hs_attribute_inputs :: attribute_inputs
  hs_time :: "gf128 list"
  hs_verifier_context :: "gf128 list option"
  hs_mac_tags :: "gf128 list"
  hs_mac_verifier_key_share :: gf128

definition split_attribute_input_v6 :: "gf128 list \<Rightarrow> attribute_input_v6 res" where
  "split_attribute_input_v6 chunk =
     and_then (split_at_mut (attribute_cbor_data_length_v6 * 8) chunk) (\<lambda>(cbor_data, cbor_length).
     and_then (try_into_array 8 cbor_length) (\<lambda>cbor_length.
       Inr \<lparr>a6_cbor_data = cbor_data, a6_cbor_length = cbor_length\<rparr>))"

definition split_attribute_input_v7 :: "gf128 list \<Rightarrow> attribute_input_v7 res" where
  "split_attribute_input_v7 chunk =
     and_then (split_at_mut (attribute_cbor_identifier_length_v7 * 8) chunk) (\<lambda>(cbor_identifier, chunk).
     and_then (split_at_mut (attribute_cbor_value_length_v7 * 8) chunk) (\<lambda>(cbor_value, chunk).
     and_then (split_at_mut 8 chunk) (\<lambda>(id_length, value_length).
     and_then (try_into_array 8 value_length) (\<lambda>value_length.
       Inr \<lparr>a7_cbor_identifier = cbor_identifier, a7_cbor_value = cbor_value, a7_id_length = id_length,
         a7_value_length = value_length\<rparr>))))"

definition split_attribute_inputs :: "input_layout \<Rightarrow> gf128 list \<Rightarrow> (attribute_inputs \<times> gf128 list) res" where
  "split_attribute_inputs L input =
     (case il_version L of
        V6 \<Rightarrow> and_then (split_chunks attribute_input_v6_length split_attribute_input_v6 (il_attributes L) input)
               (\<lambda>(outs, input). Inr (Attribute_Inputs_V6 (four_options outs), input))
      | _ \<Rightarrow> and_then (split_chunks attribute_input_v7_length split_attribute_input_v7 (il_attributes L) input)
               (\<lambda>(outs, input). Inr (Attribute_Inputs_V7 (four_options outs), input)))"

definition split_verifier_context :: "input_layout \<Rightarrow> gf128 list \<Rightarrow> (gf128 list option \<times> gf128 list) res" where
  "split_verifier_context L input =
     (case il_version L of
        V8 \<Rightarrow> and_then (split_at_mut (verifier_context_bytes * 8) input) (\<lambda>(vc, rest). Inr (Some vc, rest))
      | _ \<Rightarrow> Inr (None, input))"

definition split_hash_statement :: "input_layout \<Rightarrow> gf128 list \<Rightarrow> hash_statement res" where
  "split_hash_statement L input =
     (if length input \<noteq> hash_statement_length L then Inl (Panic ''assert_eq'')
      else if \<not> (1 \<le> il_attributes L) then Inl (Panic ''assert'')
      else if \<not> (il_attributes L \<le> 4) then Inl (Panic ''assert'')
      else
        and_then (split_first_mut input) (\<lambda>(implicit_one, input).
        and_then (split_attribute_inputs L input) (\<lambda>(attribute_inputs, input).
        and_then (split_at_mut (20 * 8) input) (\<lambda>(time, input).
        and_then (split_verifier_context L input) (\<lambda>(verifier_context, input).
        and_then (split_at_mut (3 * 2) input) (\<lambda>(mac_tags, input).
        and_then (split_first_mut input) (\<lambda>(mac_verifier_key_share, input).
        and_then (assert_empty input) (\<lambda>_.
          Inr \<lparr>hs_implicit_one = implicit_one, hs_attribute_inputs = attribute_inputs, hs_time = time,
            hs_verifier_context = verifier_context, hs_mac_tags = mac_tags,
            hs_mac_verifier_key_share = mac_verifier_key_share\<rparr>))))))))"

definition option_slots :: "('a \<Rightarrow> 'b list) \<Rightarrow> 'a option \<Rightarrow> 'b list" where
  "option_slots f x = (case x of None \<Rightarrow> [] | Some y \<Rightarrow> f y)"

definition attribute_input_v6_slots :: "attribute_input_v6 \<Rightarrow> gf128 list" where
  "attribute_input_v6_slots a = a6_cbor_data a @ a6_cbor_length a"

definition attribute_input_v7_slots :: "attribute_input_v7 \<Rightarrow> gf128 list" where
  "attribute_input_v7_slots a = a7_cbor_identifier a @ a7_cbor_value a @ a7_id_length a @ a7_value_length a"

fun attribute_inputs_slots :: "attribute_inputs \<Rightarrow> gf128 list" where
  "attribute_inputs_slots (Attribute_Inputs_V6 as) = concat (map (option_slots attribute_input_v6_slots) as)"
| "attribute_inputs_slots (Attribute_Inputs_V7 as) = concat (map (option_slots attribute_input_v7_slots) as)"

definition hash_statement_slots :: "hash_statement \<Rightarrow> gf128 list" where
  "hash_statement_slots s =
     hs_implicit_one s # attribute_inputs_slots (hs_attribute_inputs s) @ hs_time s @ option_slots id (hs_verifier_context s) @
       hs_mac_tags s @ [hs_mac_verifier_key_share s]"

record attribute_witness_v6 =
  w6_sha_256_input :: "gf128 list"
  w6_sha_256_witness :: "gf128 list"
  w6_digest_offset :: "gf128 list"
  w6_cbor_data_offset :: "gf128 list"
  w6_cbor_data_length :: "gf128 list"
  w6_unused_offset :: "gf128 list"
  w6_unused_length :: "gf128 list"

record attribute_witness_v7 =
  w7_inner :: attribute_witness_v6
  w7_kv_offset_1 :: "gf128 list"
  w7_kv_offset_2 :: "gf128 list"
  w7_kv_offset_3 :: "gf128 list"
  w7_kv_lengths :: "gf128 list list"
  w7_kv_order_digest_id :: "gf128 list"
  w7_kv_order_random :: "gf128 list"
  w7_kv_order_element_identifier :: "gf128 list"
  w7_kv_order_element_value :: "gf128 list"

datatype attribute_witnesses =
  Attribute_Witnesses_V6 "attribute_witness_v6 option list" | Attribute_Witnesses_V7 "attribute_witness_v7 option list"

record ppid_witness =
  pw_seed :: "gf128 list"
  pw_sha_witness :: "gf128 list"

record hash_input =
  hi_statement :: hash_statement
  hi_e_credential :: "gf128 list"
  hi_device_public_key_x :: "gf128 list"
  hi_device_public_key_y :: "gf128 list"
  hi_sha_256_block_count :: "gf128 list"
  hi_sha_256_input :: "gf128 list"
  hi_sha_256_witness_credential :: "gf128 list"
  hi_valid_from_offset :: "gf128 list"
  hi_valid_until_offset :: "gf128 list"
  hi_device_key_info_offset :: "gf128 list"
  hi_value_digests_offset :: "gf128 list"
  hi_attribute_witnesses :: attribute_witnesses
  hi_ppid_witness :: "ppid_witness option"
  hi_mac_prover_key_shares :: "gf128 list"

text \<open>The part that the two formats of an attribute share, and the rest of the chunk.\<close>

definition split_attribute_witness_inner :: "gf128 list \<Rightarrow> (attribute_witness_v6 \<times> gf128 list) res" where
  "split_attribute_witness_inner chunk =
     and_then (split_at_mut (2 * 64 * 8) chunk) (\<lambda>(sha_256_input, chunk).
     and_then (split_at_mut (2 * block_witness_length) chunk) (\<lambda>(sha_256_witness, chunk).
     and_then (split_at_mut cbor_offset_bits chunk) (\<lambda>(digest_offset, chunk).
     and_then (split_at_mut cbor_offset_bits chunk) (\<lambda>(cbor_data_offset, chunk).
     and_then (split_at_mut cbor_offset_bits chunk) (\<lambda>(cbor_data_length, chunk).
     and_then (split_at_mut cbor_offset_bits chunk) (\<lambda>(unused_offset, chunk).
     and_then (split_at_mut cbor_offset_bits chunk) (\<lambda>(unused_length, chunk).
       Inr (\<lparr>w6_sha_256_input = sha_256_input, w6_sha_256_witness = sha_256_witness, w6_digest_offset = digest_offset,
         w6_cbor_data_offset = cbor_data_offset, w6_cbor_data_length = cbor_data_length, w6_unused_offset = unused_offset,
         w6_unused_length = unused_length\<rparr>, chunk))))))))"

definition split_attribute_witness_v6 :: "gf128 list \<Rightarrow> attribute_witness_v6 res" where
  "split_attribute_witness_v6 chunk =
     and_then (split_attribute_witness_inner chunk) (\<lambda>(inner, chunk). and_then (assert_empty chunk) (\<lambda>_. Inr inner))"

definition split_attribute_witness_v7 :: "gf128 list \<Rightarrow> attribute_witness_v7 res" where
  "split_attribute_witness_v7 chunk =
     and_then (split_attribute_witness_inner chunk) (\<lambda>(inner, chunk).
     and_then (split_at_mut cbor_offset_bits chunk) (\<lambda>(kv_offset_1, chunk).
     and_then (split_at_mut cbor_offset_bits chunk) (\<lambda>(kv_offset_2, chunk).
     and_then (split_at_mut cbor_offset_bits chunk) (\<lambda>(kv_offset_3, chunk).
     and_then (split_at_mut cbor_offset_bits chunk) (\<lambda>(kv_length_0, chunk).
     and_then (split_at_mut cbor_offset_bits chunk) (\<lambda>(kv_length_1, chunk).
     and_then (split_at_mut cbor_offset_bits chunk) (\<lambda>(kv_length_2, chunk).
     and_then (split_at_mut cbor_offset_bits chunk) (\<lambda>(kv_length_3, chunk).
     and_then (split_at_mut 2 chunk) (\<lambda>(kv_order_digest_id, chunk).
     and_then (split_at_mut 2 chunk) (\<lambda>(kv_order_random, chunk).
     and_then (split_at_mut 2 chunk) (\<lambda>(kv_order_element_identifier, chunk).
     and_then (split_at_mut 2 chunk) (\<lambda>(kv_order_element_value, chunk).
     and_then (assert_empty chunk) (\<lambda>_.
       Inr \<lparr>w7_inner = inner, w7_kv_offset_1 = kv_offset_1, w7_kv_offset_2 = kv_offset_2, w7_kv_offset_3 = kv_offset_3,
         w7_kv_lengths = [kv_length_0, kv_length_1, kv_length_2, kv_length_3], w7_kv_order_digest_id = kv_order_digest_id,
         w7_kv_order_random = kv_order_random, w7_kv_order_element_identifier = kv_order_element_identifier,
         w7_kv_order_element_value = kv_order_element_value\<rparr>)))))))))))))"

definition split_attribute_witnesses :: "input_layout \<Rightarrow> gf128 list \<Rightarrow> (attribute_witnesses \<times> gf128 list) res" where
  "split_attribute_witnesses L input =
     (case il_version L of
        V6 \<Rightarrow> and_then (split_chunks attribute_witness_v6_length split_attribute_witness_v6 (il_attributes L) input)
               (\<lambda>(outs, input). Inr (Attribute_Witnesses_V6 (four_options outs), input))
      | _ \<Rightarrow> and_then (split_chunks attribute_witness_v7_length split_attribute_witness_v7 (il_attributes L) input)
               (\<lambda>(outs, input). Inr (Attribute_Witnesses_V7 (four_options outs), input)))"

definition split_ppid_witness :: "input_layout \<Rightarrow> gf128 list \<Rightarrow> (ppid_witness option \<times> gf128 list) res" where
  "split_ppid_witness L input =
     (case il_version L of
        V8 \<Rightarrow> and_then (split_at_mut (ppid_seed_bytes * 8) input) (\<lambda>(seed, rest).
               and_then (split_at_mut (sha_256_witness_wires 2) rest) (\<lambda>(sha_witness_data, rest).
                 Inr (Some \<lparr>pw_seed = seed, pw_sha_witness = sha_witness_data\<rparr>, rest)))
      | _ \<Rightarrow> Inr (None, input))"

definition split_hash_input :: "input_layout \<Rightarrow> gf128 list \<Rightarrow> hash_input res" where
  "split_hash_input L input =
     (if length input \<noteq> hash_input_length L then Inl (Panic ''assert_eq'')
      else if \<not> (1 \<le> il_attributes L) then Inl (Panic ''assert'')
      else if \<not> (il_attributes L \<le> 4) then Inl (Panic ''assert'')
      else
        let max_blocks = sha_256_max_blocks L
        in and_then (split_at_mut (hash_statement_length L) input) (\<lambda>(statement, input).
           and_then (split_hash_statement L statement) (\<lambda>statement.
           and_then (split_at_mut 256 input) (\<lambda>(e_credential, input).
           and_then (split_at_mut 256 input) (\<lambda>(device_public_key_x, input).
           and_then (split_at_mut 256 input) (\<lambda>(device_public_key_y, input).
           and_then (split_at_mut 8 input) (\<lambda>(sha_256_block_count, input).
           and_then (split_at_mut (sha_256_input_wires max_blocks) input) (\<lambda>(sha_256_input, input).
           and_then (split_at_mut (sha_256_witness_wires max_blocks) input) (\<lambda>(sha_256_witness_credential, input).
           and_then (split_at_mut cbor_offset_bits input) (\<lambda>(valid_from_offset, input).
           and_then (split_at_mut cbor_offset_bits input) (\<lambda>(valid_until_offset, input).
           and_then (split_at_mut cbor_offset_bits input) (\<lambda>(device_key_info_offset, input).
           and_then (split_at_mut cbor_offset_bits input) (\<lambda>(value_digests_offset, input).
           and_then (split_attribute_witnesses L input) (\<lambda>(attribute_witnesses, input).
           and_then (split_ppid_witness L input) (\<lambda>(ppid_witness, input).
           and_then (split_at_mut (3 * 2) input) (\<lambda>(mac_prover_key_shares, input).
           and_then (assert_empty input) (\<lambda>_.
             Inr \<lparr>hi_statement = statement, hi_e_credential = e_credential, hi_device_public_key_x = device_public_key_x,
               hi_device_public_key_y = device_public_key_y, hi_sha_256_block_count = sha_256_block_count,
               hi_sha_256_input = sha_256_input, hi_sha_256_witness_credential = sha_256_witness_credential,
               hi_valid_from_offset = valid_from_offset, hi_valid_until_offset = valid_until_offset,
               hi_device_key_info_offset = device_key_info_offset, hi_value_digests_offset = value_digests_offset,
               hi_attribute_witnesses = attribute_witnesses, hi_ppid_witness = ppid_witness,
               hi_mac_prover_key_shares = mac_prover_key_shares\<rparr>)))))))))))))))))"

definition attribute_witness_v6_slots :: "attribute_witness_v6 \<Rightarrow> gf128 list" where
  "attribute_witness_v6_slots w =
     w6_sha_256_input w @ w6_sha_256_witness w @ w6_digest_offset w @ w6_cbor_data_offset w @ w6_cbor_data_length w @
       w6_unused_offset w @ w6_unused_length w"

definition attribute_witness_v7_slots :: "attribute_witness_v7 \<Rightarrow> gf128 list" where
  "attribute_witness_v7_slots w =
     attribute_witness_v6_slots (w7_inner w) @ w7_kv_offset_1 w @ w7_kv_offset_2 w @ w7_kv_offset_3 w @ concat (w7_kv_lengths w) @
       w7_kv_order_digest_id w @ w7_kv_order_random w @ w7_kv_order_element_identifier w @ w7_kv_order_element_value w"

fun attribute_witnesses_slots :: "attribute_witnesses \<Rightarrow> gf128 list" where
  "attribute_witnesses_slots (Attribute_Witnesses_V6 ws) = concat (map (option_slots attribute_witness_v6_slots) ws)"
| "attribute_witnesses_slots (Attribute_Witnesses_V7 ws) = concat (map (option_slots attribute_witness_v7_slots) ws)"

definition hash_input_slots :: "hash_input \<Rightarrow> gf128 list" where
  "hash_input_slots s =
     hash_statement_slots (hi_statement s) @ hi_e_credential s @ hi_device_public_key_x s @ hi_device_public_key_y s @
       hi_sha_256_block_count s @ hi_sha_256_input s @ hi_sha_256_witness_credential s @ hi_valid_from_offset s @
       hi_valid_until_offset s @ hi_device_key_info_offset s @ hi_value_digests_offset s @
       attribute_witnesses_slots (hi_attribute_witnesses s) @
       option_slots (\<lambda>p. pw_seed p @ pw_sha_witness p) (hi_ppid_witness s) @ hi_mac_prover_key_shares s"

subsection \<open>What splitting promises\<close>

text \<open>
  \<open>partition\<close>: a function that splits slices of length \<open>n\<close>, and only those, into records of a shape, with the slice as the
  record's slots.
\<close>

locale partition =
  fixes split :: "'a list \<Rightarrow> 'r res" and slots :: "'r \<Rightarrow> 'a list" and shape :: "'r \<Rightarrow> bool" and n :: nat
  assumes split_iff: "split xs = Inr r \<longleftrightarrow> shape r \<and> xs = slots r"
    and split_total: "length xs = n \<Longrightarrow> \<exists>r. split xs = Inr r"
    and shape_length: "shape r \<Longrightarrow> length (slots r) = n"
begin

lemma split_slots: "shape r \<Longrightarrow> split (slots r) = Inr r"
  by (simp add: split_iff)

lemma slots_split: "split xs = Inr r \<Longrightarrow> slots r = xs"
  by (simp add: split_iff)

lemma split_ok_iff: "is_ok (split xs) \<longleftrightarrow> length xs = n"
proof
  show "length xs = n" if "is_ok (split xs)" using that shape_length by (auto simp: is_ok_iff split_iff)
  show "is_ok (split xs)" if "length xs = n" using split_total [OF that] by (auto simp: is_ok_iff)
qed

lemma slots_inject:
  assumes "shape r" "shape r'" "slots r = slots r'"
  shows "r = r'"
  using split_slots [OF assms(1)] split_slots [OF assms(2)] unfolding assms(3) by simp

text \<open>The loop over chunks.\<close>

lemma split_chunks_iff:
  "split_chunks n split k xs = Inr (outs, rest) \<longleftrightarrow>
     length outs = k \<and> (\<forall>r \<in> set outs. shape r) \<and> xs = concat (map slots outs) @ rest"
proof (induction k arbitrary: xs outs)
  case (Suc k)
  have cut: "n \<le> length xs \<and> take n xs = slots r \<and> drop n xs = zs \<longleftrightarrow> xs = slots r @ zs" if "shape r" for r zs
  proof
    assume "n \<le> length xs \<and> take n xs = slots r \<and> drop n xs = zs"
    then show "xs = slots r @ zs" using append_take_drop_id [of n xs] by simp
  qed (use shape_length [OF that] in simp)
  have "split_chunks n split (Suc k) xs = Inr (outs, rest) \<longleftrightarrow>
      (\<exists>r outs'. outs = r # outs' \<and> n \<le> length xs \<and> split (take n xs) = Inr r \<and> split_chunks n split k (drop n xs) = Inr (outs', rest))"
    by (auto simp: and_then_Inr_iff split_at_mut_def)
  also have "\<dots> \<longleftrightarrow> (\<exists>r outs'. outs = r # outs' \<and> n \<le> length xs \<and> shape r \<and> take n xs = slots r \<and>
      length outs' = k \<and> (\<forall>r \<in> set outs'. shape r) \<and> drop n xs = concat (map slots outs') @ rest)"
    by (simp add: split_iff Suc.IH)
  also have "\<dots> \<longleftrightarrow> (\<exists>r outs'. outs = r # outs' \<and> shape r \<and> length outs' = k \<and> (\<forall>r \<in> set outs'. shape r) \<and>
      xs = slots r @ concat (map slots outs') @ rest)"
    using cut by blast
  finally show ?case by (cases outs) auto
qed auto

lemma split_chunks_total:
  assumes "k * n \<le> length xs"
  shows "\<exists>outs. split_chunks n split k xs = Inr (outs, drop (k * n) xs)"
  using assms
proof (induction k arbitrary: xs)
  case (Suc k)
  obtain r where "split (take n xs) = Inr r" using split_total [of "take n xs"] Suc.prems by auto
  moreover have "k * n \<le> length (drop n xs)" using Suc.prems by simp
  then obtain outs where "split_chunks n split k (drop n xs) = Inr (outs, drop (k * n) (drop n xs))" using Suc.IH by blast
  ultimately show ?case using Suc.prems by (simp add: split_at_mut_def add.commute)
qed simp

lemma concat_slots_length: "\<forall>r \<in> set outs. shape r \<Longrightarrow> length (concat (map slots outs)) = length outs * n"
  by (induction outs) (simp_all add: shape_length)

end

lemma split_at_mut_Inr_iff [simp]: "split_at_mut n xs = Inr (ys, zs) \<longleftrightarrow> length ys = n \<and> xs = ys @ zs"
  by (auto simp: split_at_mut_def min_def)

lemma split_first_mut_Inr_iff [simp]: "split_first_mut xs = Inr (y, zs) \<longleftrightarrow> xs = y # zs"
  by (auto simp: split_first_mut_def split: list.splits)

lemma assert_empty_Inr_iff [simp]: "assert_empty xs = Inr u \<longleftrightarrow> xs = []"
  by (simp add: assert_empty_def)

lemma try_into_array_Inr_iff [simp]: "try_into_array n xs = Inr ys \<longleftrightarrow> length xs = n \<and> ys = xs"
  by (auto simp: try_into_array_def)

lemma split_at_mut_ok: "n \<le> length xs \<Longrightarrow> split_at_mut n xs = Inr (take n xs, drop n xs)"
  by (simp add: split_at_mut_def)

lemma split_first_mut_ok: "0 < length xs \<Longrightarrow> split_first_mut xs = Inr (hd xs, tl xs)"
  by (cases xs) (simp_all add: split_first_mut_def)

lemma assert_empty_ok: "length xs = 0 \<Longrightarrow> assert_empty xs = Inr ()"
  by (simp add: assert_empty_def)

lemma try_into_array_ok: "length xs = n \<Longrightarrow> try_into_array n xs = Inr xs"
  by (simp add: try_into_array_def)

lemmas split_ok = split_at_mut_ok split_first_mut_ok assert_empty_ok try_into_array_ok

subsection \<open>The parts\<close>

definition signature_statement_shape :: "signature_statement \<Rightarrow> bool" where
  "signature_statement_shape s \<longleftrightarrow> length (ss_mac_tags s) = 768 \<and> length (ss_mac_verifier_key_share s) = 128"

interpretation sig_statement: partition "split_signature_statement L" signature_statement_slots signature_statement_shape
    "signature_statement_length L" for L
proof
  fix xs :: "fp256 list" and r
  show "split_signature_statement L xs = Inr r \<longleftrightarrow> signature_statement_shape r \<and> xs = signature_statement_slots r"
    by (cases r) (auto simp: split_signature_statement_def signature_statement_shape_def signature_statement_slots_def
        signature_statement_length_def and_then_Inr_iff)
  show "\<exists>r. split_signature_statement L xs = Inr r" if "length xs = signature_statement_length L"
    using that by (simp add: split_signature_statement_def signature_statement_length_def split_ok)
  show "length (signature_statement_slots r) = signature_statement_length L" if "signature_statement_shape r"
    using that by (simp add: signature_statement_shape_def signature_statement_slots_def signature_statement_length_def)
qed

definition ecdsa_witness_shape :: "ecdsa_witness \<Rightarrow> bool" where
  "ecdsa_witness_shape w \<longleftrightarrow> length (ew_sum_g_q w) = 2 \<and> length (ew_sum_g_r w) = 2 \<and> length (ew_sum_q_r w) = 2 \<and>
     length (ew_sum_g_q_r w) = 2 \<and> length (ew_msm w) = 1021"

interpretation ecdsa: partition ecdsa_witness_new ecdsa_witness_slots ecdsa_witness_shape ecdsa_witness_length
proof
  fix xs :: "fp256 list" and r
  show "ecdsa_witness_new xs = Inr r \<longleftrightarrow> ecdsa_witness_shape r \<and> xs = ecdsa_witness_slots r"
    by (cases r) (auto simp: ecdsa_witness_new_def ecdsa_witness_shape_def ecdsa_witness_slots_def ecdsa_witness_length_def
        and_then_Inr_iff)
  show "\<exists>r. ecdsa_witness_new xs = Inr r" if "length xs = ecdsa_witness_length"
    using that by (simp add: ecdsa_witness_new_def ecdsa_witness_length_def split_ok)
  show "length (ecdsa_witness_slots r) = ecdsa_witness_length" if "ecdsa_witness_shape r"
    using that by (simp add: ecdsa_witness_shape_def ecdsa_witness_slots_def ecdsa_witness_length_def)
qed

definition signature_input_shape :: "signature_input \<Rightarrow> bool" where
  "signature_input_shape s \<longleftrightarrow> signature_statement_shape (si_statement s) \<and> ecdsa_witness_shape (si_credential_ecdsa_witness s) \<and>
     ecdsa_witness_shape (si_device_ecdsa_witness s) \<and> length (si_mac_witnesses s) = 768"

interpretation sig_input: partition "split_signature_input L" signature_input_slots signature_input_shape "signature_input_length L" for L
proof
  fix xs :: "fp256 list" and r
  show "split_signature_input L xs = Inr r \<longleftrightarrow> signature_input_shape r \<and> xs = signature_input_slots r"
    by (cases r) (auto simp: split_signature_input_def signature_input_shape_def signature_input_slots_def signature_input_length_def
        and_then_Inr_iff sig_statement.split_iff ecdsa.split_iff sig_statement.shape_length [where L = L] ecdsa.shape_length)
  show "\<exists>r. split_signature_input L xs = Inr r" if "length xs = signature_input_length L"
  proof -
    let ?ys = "drop (signature_statement_length L) xs"
    have l: "length ?ys = 3 + ecdsa_witness_length + ecdsa_witness_length + 768" using that by (simp add: signature_input_length_def)
    have "length (take (signature_statement_length L) xs) = signature_statement_length L"
      using that by (simp add: signature_input_length_def)
    then obtain s where s: "split_signature_statement L (take (signature_statement_length L) xs) = Inr s"
      using sig_statement.split_total by blast
    let ?zs = "tl (tl (tl ?ys))"
    have lz: "length ?zs = ecdsa_witness_length + ecdsa_witness_length + 768" using l by simp
    obtain c where c: "ecdsa_witness_new (take ecdsa_witness_length ?zs) = Inr c"
      using ecdsa.split_total [of "take ecdsa_witness_length ?zs"] lz by auto
    obtain d where d: "ecdsa_witness_new (take ecdsa_witness_length (drop ecdsa_witness_length ?zs)) = Inr d"
      using ecdsa.split_total [of "take ecdsa_witness_length (drop ecdsa_witness_length ?zs)"] lz by auto
    show ?thesis using that l lz s c d
      by (simp add: split_signature_input_def split_ok signature_input_length_def)
  qed
  show "length (signature_input_slots r) = signature_input_length L" if "signature_input_shape r"
    using that sig_statement.shape_length [where L = L, of "si_statement r"] ecdsa.shape_length
    by (simp add: signature_input_shape_def signature_input_slots_def signature_input_length_def)
qed

subsection \<open>The parts of the hash circuit\<close>

definition attribute_input_v6_shape :: "attribute_input_v6 \<Rightarrow> bool" where
  "attribute_input_v6_shape a \<longleftrightarrow> length (a6_cbor_data a) = 768 \<and> length (a6_cbor_length a) = 8"

definition attribute_input_v7_shape :: "attribute_input_v7 \<Rightarrow> bool" where
  "attribute_input_v7_shape a \<longleftrightarrow> length (a7_cbor_identifier a) = 256 \<and> length (a7_cbor_value a) = 512 \<and>
     length (a7_id_length a) = 8 \<and> length (a7_value_length a) = 8"

lemmas attribute_input_v6_defs = split_attribute_input_v6_def attribute_input_v6_shape_def attribute_input_v6_slots_def
  attribute_input_v6_length_def attribute_cbor_data_length_v6_def

lemmas attribute_input_v7_defs = split_attribute_input_v7_def attribute_input_v7_shape_def attribute_input_v7_slots_def
  attribute_input_v7_length_def attribute_cbor_identifier_length_v7_def attribute_cbor_value_length_v7_def

interpretation input_v6: partition split_attribute_input_v6 attribute_input_v6_slots attribute_input_v6_shape attribute_input_v6_length
proof
  fix xs :: "gf128 list" and r
  show "split_attribute_input_v6 xs = Inr r \<longleftrightarrow> attribute_input_v6_shape r \<and> xs = attribute_input_v6_slots r"
    by (cases r) (auto simp: attribute_input_v6_defs and_then_Inr_iff)
  show "\<exists>r. split_attribute_input_v6 xs = Inr r" if "length xs = attribute_input_v6_length"
    using that by (simp add: attribute_input_v6_defs split_ok)
  show "length (attribute_input_v6_slots r) = attribute_input_v6_length" if "attribute_input_v6_shape r"
    using that by (simp add: attribute_input_v6_defs)
qed

interpretation input_v7: partition split_attribute_input_v7 attribute_input_v7_slots attribute_input_v7_shape attribute_input_v7_length
proof
  fix xs :: "gf128 list" and r
  show "split_attribute_input_v7 xs = Inr r \<longleftrightarrow> attribute_input_v7_shape r \<and> xs = attribute_input_v7_slots r"
    by (cases r) (auto simp: attribute_input_v7_defs and_then_Inr_iff)
  show "\<exists>r. split_attribute_input_v7 xs = Inr r" if "length xs = attribute_input_v7_length"
    using that by (simp add: attribute_input_v7_defs split_ok)
  show "length (attribute_input_v7_slots r) = attribute_input_v7_length" if "attribute_input_v7_shape r"
    using that by (simp add: attribute_input_v7_defs)
qed

lemma four_options_slots: "concat (map (option_slots f) (four_options xs)) = concat (map f xs)"
proof -
  have "concat (replicate n []) = ([] :: 'b list)" for n by (induction n) simp_all
  moreover have "option_slots f \<circ> Some = f" by (simp add: fun_eq_iff option_slots_def)
  ultimately show ?thesis by (simp add: four_options_def option_slots_def)
qed

definition layout_ok :: "input_layout \<Rightarrow> bool" where
  "layout_ok L \<longleftrightarrow> 1 \<le> il_attributes L \<and> il_attributes L \<le> 4"

definition options_shape :: "nat \<Rightarrow> ('b \<Rightarrow> bool) \<Rightarrow> 'b option list \<Rightarrow> bool" where
  "options_shape k shape os \<longleftrightarrow> (\<exists>outs. os = four_options outs \<and> length outs = k \<and> (\<forall>r \<in> set outs. shape r))"

definition attribute_inputs_shape :: "input_layout \<Rightarrow> attribute_inputs \<Rightarrow> bool" where
  "attribute_inputs_shape L as \<longleftrightarrow>
     (case as of Attribute_Inputs_V6 os \<Rightarrow> il_version L = V6 \<and> options_shape (il_attributes L) attribute_input_v6_shape os
       | Attribute_Inputs_V7 os \<Rightarrow> il_version L \<noteq> V6 \<and> options_shape (il_attributes L) attribute_input_v7_shape os)"

definition hash_statement_shape :: "input_layout \<Rightarrow> hash_statement \<Rightarrow> bool" where
  "hash_statement_shape L s \<longleftrightarrow> attribute_inputs_shape L (hs_attribute_inputs s) \<and> length (hs_time s) = 160 \<and>
     (case hs_verifier_context s of None \<Rightarrow> il_version L \<noteq> V8 | Some vc \<Rightarrow> il_version L = V8 \<and> length vc = 256) \<and>
     length (hs_mac_tags s) = 6"

definition attribute_inputs_length :: "input_layout \<Rightarrow> nat" where
  "attribute_inputs_length L =
     il_attributes L * (case il_version L of V6 \<Rightarrow> attribute_input_v6_length | _ \<Rightarrow> attribute_input_v7_length)"

lemma split_attribute_inputs_iff:
  "split_attribute_inputs L xs = Inr (as, rest) \<longleftrightarrow> attribute_inputs_shape L as \<and> xs = attribute_inputs_slots as @ rest"
  by (cases "il_version L"; cases as)
    (auto simp: split_attribute_inputs_def attribute_inputs_shape_def options_shape_def and_then_Inr_iff four_options_slots
      input_v6.split_chunks_iff input_v7.split_chunks_iff)

lemma split_attribute_inputs_total:
  assumes "attribute_inputs_length L \<le> length xs"
  shows "\<exists>as. split_attribute_inputs L xs = Inr (as, drop (attribute_inputs_length L) xs)"
  using assms input_v6.split_chunks_total [of "il_attributes L" xs] input_v7.split_chunks_total [of "il_attributes L" xs]
  by (cases "il_version L") (auto simp: split_attribute_inputs_def attribute_inputs_length_def)

lemma attribute_inputs_slots_length:
  "attribute_inputs_shape L as \<Longrightarrow> length (attribute_inputs_slots as) = attribute_inputs_length L"
  by (cases "il_version L"; cases as)
    (auto simp: attribute_inputs_shape_def options_shape_def attribute_inputs_length_def four_options_slots
      input_v6.concat_slots_length input_v7.concat_slots_length)

lemma split_verifier_context_iff:
  "split_verifier_context L xs = Inr (vc, rest) \<longleftrightarrow>
     (case vc of None \<Rightarrow> il_version L \<noteq> V8 | Some v \<Rightarrow> il_version L = V8 \<and> length v = 256) \<and> xs = option_slots id vc @ rest"
  by (cases "il_version L"; cases vc) (auto simp: split_verifier_context_def option_slots_def and_then_Inr_iff verifier_context_bytes_def)

lemma hash_statement_length_parts:
  "hash_statement_length L = 1 + attribute_inputs_length L + 160 + (if il_version L = V8 then 256 else 0) + 6 + 1"
  by (cases "il_version L") (simp_all add: hash_statement_length_def attribute_inputs_length_def verifier_context_bytes_def)

lemma option_context_length:
  "(case vc of None \<Rightarrow> il_version L \<noteq> V8 | Some v \<Rightarrow> il_version L = V8 \<and> length v = 256) \<Longrightarrow>
     length (option_slots id vc) = (if il_version L = V8 then 256 else 0)"
  by (cases vc) (simp_all add: option_slots_def)

lemma hash_statement_partition:
  assumes "layout_ok L"
  shows "partition (split_hash_statement L) hash_statement_slots (hash_statement_shape L) (hash_statement_length L)"
proof
  have len: "length (hash_statement_slots r) = hash_statement_length L" if "hash_statement_shape L r" for r
    using that attribute_inputs_slots_length [of L "hs_attribute_inputs r"] option_context_length [of L "hs_verifier_context r"]
    by (simp add: hash_statement_shape_def hash_statement_slots_def hash_statement_length_parts)
  then show "length (hash_statement_slots r) = hash_statement_length L" if "hash_statement_shape L r" for r using that .
  have body: "split_hash_statement L xs = Inr r \<longleftrightarrow>
      length xs = hash_statement_length L \<and> hash_statement_shape L r \<and> xs = hash_statement_slots r" for xs r
    using assms
    by (cases r) (auto simp: split_hash_statement_def layout_ok_def hash_statement_shape_def hash_statement_slots_def
        and_then_Inr_iff split_attribute_inputs_iff split_verifier_context_iff)
  show "split_hash_statement L xs = Inr r \<longleftrightarrow> hash_statement_shape L r \<and> xs = hash_statement_slots r" for xs r
    unfolding body using len by blast
  show "\<exists>r. split_hash_statement L xs = Inr r" if l: "length xs = hash_statement_length L" for xs
  proof -
    have t: "length (tl xs) = attribute_inputs_length L + 160 + (if il_version L = V8 then 256 else 0) + 6 + 1"
      using l by (simp add: hash_statement_length_parts)
    then obtain as where as: "split_attribute_inputs L (tl xs) = Inr (as, drop (attribute_inputs_length L) (tl xs))"
      using split_attribute_inputs_total [of L "tl xs"] by auto
    define ys where "ys = drop (160 + attribute_inputs_length L) (tl xs)"
    have ys: "length ys = (if il_version L = V8 then 256 else 0) + 6 + 1" using t by (simp add: ys_def)
    then have "\<exists>vc zs. split_verifier_context L ys = Inr (vc, zs) \<and> length zs = 7"
      by (cases "il_version L") (simp_all add: split_verifier_context_def verifier_context_bytes_def split_at_mut_ok)
    then obtain vc zs where "split_verifier_context L ys = Inr (vc, zs)" "length zs = 7" by blast
    then show ?thesis using assms l t as
      by (simp add: split_hash_statement_def layout_ok_def split_ok hash_statement_length_parts ys_def [symmetric])
  qed
qed

definition attribute_witness_v6_shape :: "attribute_witness_v6 \<Rightarrow> bool" where
  "attribute_witness_v6_shape w \<longleftrightarrow> length (w6_sha_256_input w) = 1024 \<and> length (w6_sha_256_witness w) = 2 * block_witness_length \<and>
     length (w6_digest_offset w) = 12 \<and> length (w6_cbor_data_offset w) = 12 \<and> length (w6_cbor_data_length w) = 12 \<and>
     length (w6_unused_offset w) = 12 \<and> length (w6_unused_length w) = 12"

definition attribute_witness_v7_shape :: "attribute_witness_v7 \<Rightarrow> bool" where
  "attribute_witness_v7_shape w \<longleftrightarrow> attribute_witness_v6_shape (w7_inner w) \<and> length (w7_kv_offset_1 w) = 12 \<and>
     length (w7_kv_offset_2 w) = 12 \<and> length (w7_kv_offset_3 w) = 12 \<and>
     (\<exists>l0 l1 l2 l3. w7_kv_lengths w = [l0, l1, l2, l3] \<and> length l0 = 12 \<and> length l1 = 12 \<and> length l2 = 12 \<and> length l3 = 12) \<and>
     length (w7_kv_order_digest_id w) = 2 \<and> length (w7_kv_order_random w) = 2 \<and>
     length (w7_kv_order_element_identifier w) = 2 \<and> length (w7_kv_order_element_value w) = 2"

lemma split_inner_iff:
  "split_attribute_witness_inner xs = Inr (w, rest) \<longleftrightarrow> attribute_witness_v6_shape w \<and> xs = attribute_witness_v6_slots w @ rest"
  by (cases w) (auto simp: split_attribute_witness_inner_def attribute_witness_v6_shape_def attribute_witness_v6_slots_def
      cbor_offset_bits_def and_then_Inr_iff)

lemma split_inner_total:
  assumes "attribute_witness_v6_length \<le> length xs"
  shows "\<exists>w. split_attribute_witness_inner xs = Inr (w, drop attribute_witness_v6_length xs)"
  using assms
  by (simp add: split_attribute_witness_inner_def split_at_mut_ok attribute_witness_v6_length_def cbor_offset_bits_def algebra_simps)

lemma attribute_witness_v6_slots_length:
  "attribute_witness_v6_shape w \<Longrightarrow> length (attribute_witness_v6_slots w) = attribute_witness_v6_length"
  by (simp add: attribute_witness_v6_shape_def attribute_witness_v6_slots_def attribute_witness_v6_length_def cbor_offset_bits_def)

interpretation witness_v6: partition split_attribute_witness_v6 attribute_witness_v6_slots attribute_witness_v6_shape
    attribute_witness_v6_length
proof
  fix xs :: "gf128 list" and r
  show "split_attribute_witness_v6 xs = Inr r \<longleftrightarrow> attribute_witness_v6_shape r \<and> xs = attribute_witness_v6_slots r"
    by (auto simp: split_attribute_witness_v6_def and_then_Inr_iff split_inner_iff)
  show "\<exists>r. split_attribute_witness_v6 xs = Inr r" if "length xs = attribute_witness_v6_length"
    using that split_inner_total [of xs] by (auto simp: split_attribute_witness_v6_def assert_empty_def)
  show "length (attribute_witness_v6_slots r) = attribute_witness_v6_length" if "attribute_witness_v6_shape r"
    using that by (rule attribute_witness_v6_slots_length)
qed

interpretation witness_v7: partition split_attribute_witness_v7 attribute_witness_v7_slots attribute_witness_v7_shape
    attribute_witness_v7_length
proof
  fix xs :: "gf128 list" and r
  show "split_attribute_witness_v7 xs = Inr r \<longleftrightarrow> attribute_witness_v7_shape r \<and> xs = attribute_witness_v7_slots r"
    by (cases r) (auto simp: split_attribute_witness_v7_def attribute_witness_v7_shape_def attribute_witness_v7_slots_def
        and_then_Inr_iff split_inner_iff cbor_offset_bits_def)
  show "\<exists>r. split_attribute_witness_v7 xs = Inr r" if "length xs = attribute_witness_v7_length"
  proof -
    have l: "length (drop attribute_witness_v6_length xs) = 92" using that
      by (simp add: attribute_witness_v7_length_def cbor_offset_bits_def)
    have "attribute_witness_v6_length \<le> length xs" using that by (simp add: attribute_witness_v7_length_def)
    then obtain w where "split_attribute_witness_inner xs = Inr (w, drop attribute_witness_v6_length xs)"
      using split_inner_total by blast
    then show ?thesis using l by (simp add: split_attribute_witness_v7_def split_ok cbor_offset_bits_def)
  qed
  show "length (attribute_witness_v7_slots r) = attribute_witness_v7_length" if "attribute_witness_v7_shape r"
    using that attribute_witness_v6_slots_length [of "w7_inner r"]
    by (auto simp: attribute_witness_v7_shape_def attribute_witness_v7_slots_def attribute_witness_v7_length_def cbor_offset_bits_def)
qed

definition attribute_witnesses_shape :: "input_layout \<Rightarrow> attribute_witnesses \<Rightarrow> bool" where
  "attribute_witnesses_shape L ws \<longleftrightarrow>
     (case ws of Attribute_Witnesses_V6 os \<Rightarrow> il_version L = V6 \<and> options_shape (il_attributes L) attribute_witness_v6_shape os
       | Attribute_Witnesses_V7 os \<Rightarrow> il_version L \<noteq> V6 \<and> options_shape (il_attributes L) attribute_witness_v7_shape os)"

definition attribute_witnesses_length :: "input_layout \<Rightarrow> nat" where
  "attribute_witnesses_length L =
     il_attributes L * (case il_version L of V6 \<Rightarrow> attribute_witness_v6_length | _ \<Rightarrow> attribute_witness_v7_length)"

lemma split_attribute_witnesses_iff:
  "split_attribute_witnesses L xs = Inr (ws, rest) \<longleftrightarrow> attribute_witnesses_shape L ws \<and> xs = attribute_witnesses_slots ws @ rest"
  by (cases "il_version L"; cases ws)
    (auto simp: split_attribute_witnesses_def attribute_witnesses_shape_def options_shape_def and_then_Inr_iff four_options_slots
      witness_v6.split_chunks_iff witness_v7.split_chunks_iff)

lemma split_attribute_witnesses_total:
  assumes "attribute_witnesses_length L \<le> length xs"
  shows "\<exists>ws. split_attribute_witnesses L xs = Inr (ws, drop (attribute_witnesses_length L) xs)"
  using assms witness_v6.split_chunks_total [of "il_attributes L" xs] witness_v7.split_chunks_total [of "il_attributes L" xs]
  by (cases "il_version L") (auto simp: split_attribute_witnesses_def attribute_witnesses_length_def)

lemma attribute_witnesses_slots_length:
  "attribute_witnesses_shape L ws \<Longrightarrow> length (attribute_witnesses_slots ws) = attribute_witnesses_length L"
  by (cases "il_version L"; cases ws)
    (auto simp: attribute_witnesses_shape_def options_shape_def attribute_witnesses_length_def four_options_slots
      witness_v6.concat_slots_length witness_v7.concat_slots_length)

definition ppid_shape :: "input_layout \<Rightarrow> ppid_witness option \<Rightarrow> bool" where
  "ppid_shape L p \<longleftrightarrow> (case p of None \<Rightarrow> il_version L \<noteq> V8
     | Some w \<Rightarrow> il_version L = V8 \<and> length (pw_seed w) = 256 \<and> length (pw_sha_witness w) = 2 * block_witness_length)"

abbreviation ppid_slots :: "ppid_witness option \<Rightarrow> gf128 list" where
  "ppid_slots \<equiv> option_slots (\<lambda>p. pw_seed p @ pw_sha_witness p)"

definition ppid_length :: "input_layout \<Rightarrow> nat" where
  "ppid_length L = (if il_version L = V8 then 256 + 2 * block_witness_length else 0)"

lemma split_ppid_witness_iff: "split_ppid_witness L xs = Inr (p, rest) \<longleftrightarrow> ppid_shape L p \<and> xs = ppid_slots p @ rest"
proof (cases p)
  case None
  then show ?thesis
    by (cases "il_version L") (auto simp: split_ppid_witness_def ppid_shape_def option_slots_def and_then_Inr_iff)
next
  case (Some w)
  then show ?thesis
    by (cases "il_version L"; cases w)
      (auto simp: split_ppid_witness_def ppid_shape_def option_slots_def and_then_Inr_iff ppid_seed_bytes_def sha_256_witness_wires_def)
qed

lemma split_ppid_witness_total:
  "ppid_length L \<le> length xs \<Longrightarrow> \<exists>p. split_ppid_witness L xs = Inr (p, drop (ppid_length L) xs)"
  by (cases "il_version L")
    (simp_all add: split_ppid_witness_def ppid_length_def ppid_seed_bytes_def sha_256_witness_wires_def split_at_mut_ok add.commute)

lemma ppid_slots_length: "ppid_shape L p \<Longrightarrow> length (ppid_slots p) = ppid_length L"
  by (cases p) (simp_all add: ppid_shape_def ppid_length_def option_slots_def)

definition hash_input_shape :: "input_layout \<Rightarrow> hash_input \<Rightarrow> bool" where
  "hash_input_shape L s \<longleftrightarrow>
     hash_statement_shape L (hi_statement s) \<and> length (hi_e_credential s) = 256 \<and> length (hi_device_public_key_x s) = 256 \<and>
     length (hi_device_public_key_y s) = 256 \<and> length (hi_sha_256_block_count s) = 8 \<and>
     length (hi_sha_256_input s) = sha_256_input_wires (sha_256_max_blocks L) \<and>
     length (hi_sha_256_witness_credential s) = sha_256_witness_wires (sha_256_max_blocks L) \<and>
     length (hi_valid_from_offset s) = 12 \<and> length (hi_valid_until_offset s) = 12 \<and> length (hi_device_key_info_offset s) = 12 \<and>
     length (hi_value_digests_offset s) = 12 \<and> attribute_witnesses_shape L (hi_attribute_witnesses s) \<and>
     ppid_shape L (hi_ppid_witness s) \<and> length (hi_mac_prover_key_shares s) = 6"

lemma hash_input_length_parts:
  "hash_input_length L = hash_statement_length L + 256 + 256 + 256 + 8 + sha_256_input_wires (sha_256_max_blocks L) +
     sha_256_witness_wires (sha_256_max_blocks L) + 12 + 12 + 12 + 12 + attribute_witnesses_length L + ppid_length L + 6"
  by (cases "il_version L")
    (simp_all add: hash_input_length_def Let_def attribute_witnesses_length_def ppid_length_def ppid_seed_bytes_def sha_256_witness_wires_def)

lemma hash_input_slots_length:
  assumes "layout_ok L" "hash_input_shape L r"
  shows "length (hash_input_slots r) = hash_input_length L"
  using assms(2) partition.shape_length [OF hash_statement_partition [OF assms(1)], of "hi_statement r"]
    attribute_witnesses_slots_length [of L "hi_attribute_witnesses r"] ppid_slots_length [of L "hi_ppid_witness r"]
  by (simp add: hash_input_shape_def hash_input_slots_def hash_input_length_parts)

lemma cut_parts: "sum_list ns = length xs \<Longrightarrow> \<exists>parts. map length parts = ns \<and> xs = concat parts"
proof (induction ns arbitrary: xs)
  case (Cons n ns)
  then obtain parts where "map length parts = ns" "drop n xs = concat parts"
    by (metis add_diff_cancel_left' length_drop sum_list.Cons)
  then have "map length (take n xs # parts) = n # ns" "xs = concat (take n xs # parts)"
    using Cons.prems append_take_drop_id [of n xs] by simp_all
  then show ?case by (intro exI conjI)
qed simp

lemma hash_input_partition:
  assumes "layout_ok L"
  shows "partition (split_hash_input L) hash_input_slots (hash_input_shape L) (hash_input_length L)"
proof
  note st = hash_statement_partition [OF assms]
  show "length (hash_input_slots r) = hash_input_length L" if "hash_input_shape L r" for r
    by (rule hash_input_slots_length [OF assms that])
  have slen: "hash_statement_shape L s \<Longrightarrow> length (hash_statement_slots s) = hash_statement_length L" for s
    by (rule partition.shape_length [OF st])
  have body: "split_hash_input L xs = Inr r \<longleftrightarrow> length xs = hash_input_length L \<and> hash_input_shape L r \<and> xs = hash_input_slots r" for xs r
    using assms slen
    by (cases r) (auto simp: split_hash_input_def Let_def layout_ok_def hash_input_shape_def hash_input_slots_def cbor_offset_bits_def
        and_then_Inr_iff partition.split_iff [OF st] split_attribute_witnesses_iff split_ppid_witness_iff)
  then show "split_hash_input L xs = Inr r \<longleftrightarrow> hash_input_shape L r \<and> xs = hash_input_slots r" for xs r
    using hash_input_slots_length [OF assms] by blast
  show "\<exists>r. split_hash_input L xs = Inr r" if l: "length xs = hash_input_length L" for xs
  proof -
    let ?m = "sha_256_max_blocks L"
    have "sum_list [hash_statement_length L, 256, 256, 256, 8, sha_256_input_wires ?m, sha_256_witness_wires ?m, 12, 12, 12, 12,
        attribute_witnesses_length L, ppid_length L, 6] = length xs"
      using l by (simp add: hash_input_length_parts)
    from cut_parts [OF this] obtain x0 x1 x2 x3 x4 x5 x6 x7 x8 x9 x10 x11 x12 x13 where
      len: "length x0 = hash_statement_length L" "length x1 = 256" "length x2 = 256" "length x3 = 256" "length x4 = 8"
        "length x5 = sha_256_input_wires ?m" "length x6 = sha_256_witness_wires ?m" "length x7 = 12" "length x8 = 12" "length x9 = 12"
        "length x10 = 12" "length x11 = attribute_witnesses_length L" "length x12 = ppid_length L" "length x13 = 6"
      and xs: "xs = x0 @ x1 @ x2 @ x3 @ x4 @ x5 @ x6 @ x7 @ x8 @ x9 @ x10 @ x11 @ x12 @ x13"
      by (auto simp: map_eq_Cons_conv)
    obtain s where "split_hash_statement L x0 = Inr s" using partition.split_total [OF st len(1)] by blast
    then have s: "hash_statement_shape L s" "x0 = hash_statement_slots s" by (simp_all add: partition.split_iff [OF st])
    obtain ws where "split_attribute_witnesses L x11 = Inr (ws, [])" using split_attribute_witnesses_total [of L x11] len(12) by auto
    then have ws: "attribute_witnesses_shape L ws" "x11 = attribute_witnesses_slots ws" by (simp_all add: split_attribute_witnesses_iff)
    obtain p where "split_ppid_witness L x12 = Inr (p, [])" using split_ppid_witness_total [of L x12] len(13) by auto
    then have p: "ppid_shape L p" "x12 = ppid_slots p" by (simp_all add: split_ppid_witness_iff)
    let ?r = "\<lparr>hi_statement = s, hi_e_credential = x1, hi_device_public_key_x = x2, hi_device_public_key_y = x3,
      hi_sha_256_block_count = x4, hi_sha_256_input = x5, hi_sha_256_witness_credential = x6, hi_valid_from_offset = x7,
      hi_valid_until_offset = x8, hi_device_key_info_offset = x9, hi_value_digests_offset = x10,
      hi_attribute_witnesses = ws, hi_ppid_witness = p, hi_mac_prover_key_shares = x13\<rparr>"
    have "hash_input_shape L ?r" using s ws p len by (simp add: hash_input_shape_def)
    moreover have "xs = hash_input_slots ?r" using s ws p xs by (simp add: hash_input_slots_def)
    ultimately show ?thesis using body l by blast
  qed
qed

text \<open>The statement is split alike on its own.\<close>

lemma signature_statement_prefix:
  assumes "split_signature_input L xs = Inr s"
  shows "split_signature_statement L (take (signature_statement_length L) xs) = Inr (si_statement s)"
  using assms sig_statement.shape_length [where L = L, of "si_statement s"]
  by (auto simp: sig_input.split_iff sig_statement.split_iff signature_input_shape_def signature_input_slots_def)

lemma hash_statement_prefix:
  assumes "layout_ok L" "split_hash_input L xs = Inr h"
  shows "split_hash_statement L (take (hash_statement_length L) xs) = Inr (hi_statement h)"
  using assms(2) partition.shape_length [OF hash_statement_partition [OF assms(1)], of "hi_statement h"]
  by (auto simp: partition.split_iff [OF hash_input_partition [OF assms(1)]]
      partition.split_iff [OF hash_statement_partition [OF assms(1)]] hash_input_shape_def hash_input_slots_def)

end
