(* ===== verification/Nym_Profile.thy ===== *)
theory Nym_Profile
  imports Nym_Challenge Nym_Ecdsa
begin

text \<open>
  The table of circuit builds of \<open>src/src/nymauth/profile.rs\<close>: an entry with the text of its slot map becomes a profile when the map
  covers the private slots of the hash circuit and the semantic bits exactly once each. The table \<open>ENTRIES\<close> is an argument. Text is
  its bytes; of the white space of Unicode, the part within ASCII separates words. What an accepted profile promises is
  \<open>profile_ok\<close>: the runs pair the private slots with the semantic bits, one to one.
\<close>

subsection \<open>The standard library\<close>

text \<open>\<open>str::split\<close> of a byte, \<open>str::lines\<close>, \<open>str::split_whitespace\<close>, \<open>str::parse::<usize>\<close> and \<open>str::eq_ignore_ascii_case\<close>.\<close>

fun split_on :: "byte \<Rightarrow> bytes \<Rightarrow> bytes list" where
  "split_on c [] = [[]]"
| "split_on c (b # bs) =
     (if b = c then [] # split_on c bs
      else case split_on c bs of w # ws \<Rightarrow> (b # w) # ws | [] \<Rightarrow> [[b]])"

definition strip_cr :: "bytes \<Rightarrow> bytes" where
  "strip_cr l = (if l \<noteq> [] \<and> last l = 13 then butlast l else l)"

definition text_lines :: "bytes \<Rightarrow> bytes list" where
  "text_lines s =
     (let ls = split_on 10 s in map strip_cr (butlast ls) @ (if last ls = [] then [] else [last ls]))"

definition ascii_space :: "byte \<Rightarrow> bool" where
  "ascii_space b \<longleftrightarrow> 9 \<le> b \<and> b \<le> 13 \<or> b = 32"

definition split_whitespace :: "bytes \<Rightarrow> bytes list" where
  "split_whitespace s = filter (\<lambda>w. w \<noteq> []) (split_on 32 (map (\<lambda>b. if ascii_space b then 32 else b) s))"

definition ascii_digit :: "byte \<Rightarrow> bool" where
  "ascii_digit b \<longleftrightarrow> 48 \<le> b \<and> b \<le> 57"

definition digits_value :: "bytes \<Rightarrow> nat" where
  "digits_value ds = fold (\<lambda>b v. 10 * v + (unat b - 48)) ds 0"

definition parse_usize :: "bytes \<Rightarrow> nat option" where
  "parse_usize s =
     (let ds = (if s \<noteq> [] \<and> hd s = 43 then tl s else s)
      in if ds \<noteq> [] \<and> list_all ascii_digit ds \<and> digits_value ds < 2 ^ 64 then Some (digits_value ds) else None)"

definition ascii_lowercase :: "byte \<Rightarrow> byte" where
  "ascii_lowercase b = (if 65 \<le> b \<and> b \<le> 90 then b + 32 else b)"

definition eq_ignore_ascii_case :: "bytes \<Rightarrow> bytes \<Rightarrow> bool" where
  "eq_ignore_ascii_case s t \<longleftrightarrow> map ascii_lowercase s = map ascii_lowercase t"

definition saturating_sub :: "nat \<Rightarrow> nat \<Rightarrow> nat" where
  "saturating_sub a b = a - b"

subsection \<open>Entries and profiles\<close>

record profile_entry =
  en_hash_circuit_id :: bytes
  en_sig_circuit_id :: bytes
  en_artifact_len :: nat
  en_artifact_sha256 :: bytes
  en_block_enc_hash :: nat
  en_block_enc_sig :: nat
  en_hash_ninputs :: nat
  en_hash_npub :: nat
  en_sig_ninputs :: nat
  en_sig_npub :: nat
  en_map :: bytes

type_synonym slot_run = "nat \<times> nat \<times> nat"

record profile =
  pf_b_sig :: nat
  pf_b_item :: nat
  pf_b_ssc :: nat
  pf_runs :: "slot_run list"
  pf_semantic_len :: nat
  pf_hash_ninputs :: nat
  pf_hash_npub :: nat
  pf_sig_ninputs :: nat
  pf_sig_npub :: nat
  pf_sig_circuit_id :: bytes
  pf_artifact_len :: nat
  pf_artifact_sha256 :: bytes
  pf_block_enc_hash :: nat
  pf_block_enc_sig :: nat

definition sig_tags :: "profile \<Rightarrow> nat" where "sig_tags p = usize_sub (pf_sig_npub p) 768"
definition sig_av :: "profile \<Rightarrow> nat" where "sig_av p = usize_sub (sig_tags p) 128"
definition sig_ap :: "profile \<Rightarrow> nat" where "sig_ap p = pf_sig_npub p"
definition sig_e :: "profile \<Rightarrow> nat" where "sig_e p = sig_ap p + 768"
definition sig_x :: "profile \<Rightarrow> nat" where "sig_x p = sig_e p + 256"
definition sig_y :: "profile \<Rightarrow> nat" where "sig_y p = sig_x p + 256"
definition sig_issuer_trace :: "profile \<Rightarrow> nat" where "sig_issuer_trace p = sig_y p + 256"

definition profile_bad :: "string \<Rightarrow> error" where
  "profile_bad m = nym_fail (Circuit_Error (''internal profile table: '' @ m))"

definition check_profile_layout :: "profile \<Rightarrow> unit res" where
  "check_profile_layout p =
     (let sig_end = 3 + 256 \<le> saturating_sub (pf_sig_npub p) (768 + 128) \<and>
            sig_issuer_trace p + 2 * trace_len \<le> pf_sig_ninputs p;
          hash_ok = 10 \<le> pf_hash_npub p \<and> pf_hash_npub p + 6 \<le> pf_hash_ninputs p
      in if sig_end \<and> hash_ok then Inr () else Inl (profile_bad ''input counts leave no room for the witness layout''))"

text \<open>\<open>let [a, b, c] = v[..] else\<close>\<close>

definition three :: "string \<Rightarrow> nat list \<Rightarrow> slot_run res" where
  "three m v = (case v of [a, b, c] \<Rightarrow> Inr (a, b, c) | _ \<Rightarrow> Inl (profile_bad m))"

definition parse_run :: "bytes \<Rightarrow> slot_run res" where
  "parse_run l =
     and_then (map_res (\<lambda>x. opt_res (profile_bad ''run'') (parse_usize x)) (split_on 9 l)) (three ''run arity'')"

text \<open>Marking the indices of a run, each at most once.\<close>

definition mark :: "string \<Rightarrow> nat \<Rightarrow> bool list \<Rightarrow> bool list res" where
  "mark m i seen = (if i < length seen \<and> \<not> seen ! i then Inr (seen[i := True]) else Inl (profile_bad m))"

definition mark_run :: "string \<Rightarrow> nat \<times> nat \<Rightarrow> bool list \<Rightarrow> bool list res" where
  "mark_run m r seen = (case r of (from, len) \<Rightarrow> fold_res (\<lambda>k. mark m (from + k)) [0..<len] seen)"

definition build_profile :: "profile_entry \<Rightarrow> profile res" where
  "build_profile entry =
     (case text_lines (en_map entry) of
        [] \<Rightarrow> Inl (profile_bad ''empty'')
      | first # lines \<Rightarrow>
        and_then (map_res (\<lambda>x. opt_res (profile_bad ''profile line'') (parse_usize x)) (drop 1 (split_whitespace first))) (\<lambda>first.
        and_then (three ''profile line arity'' first) (\<lambda>(b_sig, b_item, b_ssc).
        and_then (map_res parse_run (filter (\<lambda>l. l \<noteq> [] \<and> ascii_digit (hd l)) lines)) (\<lambda>runs.
        let semantic_len = sum_list (map (\<lambda>(_, _, len). len) runs) mod 2 ^ 64
        in and_then (fold_res (\<lambda>(_, r). mark_run ''slot map reads the semantic bits out of range or twice'' r)
               runs (replicate semantic_len False)) (\<lambda>_.
           and_then (fold_res (\<lambda>(slot, _, len). mark_run ''slot map overlaps or exceeds the circuit'' (slot, len))
               runs (replicate (en_hash_ninputs entry) False)) (\<lambda>seen.
           and_then (slice_res seen (en_hash_npub entry) (usize_sub (en_hash_ninputs entry) 6)) (\<lambda>middle.
           and_then (slice_res seen 0 (en_hash_npub entry)) (\<lambda>public.
           and_then (slice_res seen (usize_sub (en_hash_ninputs entry) 6) (length seen)) (\<lambda>shares.
             if \<not> list_all id middle \<or> list_ex id public \<or> list_ex id shares
             then Inl (profile_bad ''slot map does not cover the private semantic slots exactly'')
             else
               let profile = \<lparr>pf_b_sig = b_sig, pf_b_item = b_item, pf_b_ssc = b_ssc, pf_runs = runs, pf_semantic_len = semantic_len,
                     pf_hash_ninputs = en_hash_ninputs entry, pf_hash_npub = en_hash_npub entry,
                     pf_sig_ninputs = en_sig_ninputs entry, pf_sig_npub = en_sig_npub entry,
                     pf_sig_circuit_id = en_sig_circuit_id entry, pf_artifact_len = en_artifact_len entry,
                     pf_artifact_sha256 = en_artifact_sha256 entry, pf_block_enc_hash = en_block_enc_hash entry,
                     pf_block_enc_sig = en_block_enc_sig entry\<rparr>
               in and_then (check_profile_layout profile) (\<lambda>_. Inr profile))))))))))"

definition for_hash_circuit :: "profile_entry list \<Rightarrow> bytes \<Rightarrow> profile res" where
  "for_hash_circuit entries circuit_id =
     and_then (opt_res (nym_fail (UnsupportedCircuit ''no nym_auth profile for this hash circuit''))
         (List.find (\<lambda>e. eq_ignore_ascii_case (en_hash_circuit_id e) circuit_id) entries)) build_profile"

subsection \<open>What an accepted table promises\<close>

text \<open>The slots and the semantic bits that a list of runs pairs.\<close>

definition run_slots :: "slot_run list \<Rightarrow> nat list" where
  "run_slots runs = concat (map (\<lambda>(slot, _, len). [slot..<slot + len]) runs)"

definition run_bits :: "slot_run list \<Rightarrow> nat list" where
  "run_bits runs = concat (map (\<lambda>(_, from, len). [from..<from + len]) runs)"

definition profile_ok :: "profile \<Rightarrow> bool" where
  "profile_ok p \<longleftrightarrow>
     distinct (run_slots (pf_runs p)) \<and> set (run_slots (pf_runs p)) = {pf_hash_npub p..<pf_hash_ninputs p - 6} \<and>
     distinct (run_bits (pf_runs p)) \<and> set (run_bits (pf_runs p)) = {..<pf_semantic_len p} \<and>
     10 \<le> pf_hash_npub p \<and> pf_hash_npub p + 6 \<le> pf_hash_ninputs p \<and> 1155 \<le> pf_sig_npub p \<and>
     pf_sig_npub p + 1536 + 2 * trace_len \<le> pf_sig_ninputs p"

lemma mark_all:
  "fold_res (mark m) is seen = Inr seen' \<longleftrightarrow>
     distinct is \<and> (\<forall>i \<in> set is. i < length seen \<and> \<not> seen ! i) \<and> seen' = map (\<lambda>i. seen ! i \<or> i \<in> set is) [0..<length seen]"
proof (induction "is" arbitrary: seen)
  case (Cons i "is")
  show ?case
  proof (cases "i < length seen \<and> \<not> seen ! i")
    case True
    then have "fold_res (mark m) (i # is) seen = fold_res (mark m) is (seen[i := True])" by (simp add: mark_def)
    moreover have "(\<forall>j \<in> set is. j < length seen \<and> \<not> seen[i := True] ! j) \<longleftrightarrow> i \<notin> set is \<and> (\<forall>j \<in> set is. j < length seen \<and> \<not> seen ! j)"
      using True by (auto simp: nth_list_update)
    moreover have "map (\<lambda>j. seen[i := True] ! j \<or> j \<in> set is) [0..<length seen] = map (\<lambda>j. seen ! j \<or> j \<in> set (i # is)) [0..<length seen]"
      using True by (intro nth_equalityI) (auto simp: nth_list_update)
    ultimately show ?thesis using True by (auto simp: Cons.IH)
  next
    case False
    then show ?thesis by (auto simp: mark_def)
  qed
qed (auto simp: map_nth)

lemma fold_res_concat: "fold_res f (concat xss) = fold_res (fold_res f) xss"
  by (induction xss) (rule ext, simp add: fold_res_append)+

lemma fold_res_map: "fold_res f (map g xs) = fold_res (\<lambda>x. f (g x)) xs"
  by (induction xs) (rule ext, simp)+

lemma mark_run_eq: "mark_run m (from, len) = fold_res (mark m) [from..<from + len]"
proof -
  have "map ((+) from) [0..<len] = [from..<from + len]" by (simp add: map_add_upt add.commute cong: map_cong)
  then show ?thesis by (simp add: mark_run_def fold_res_map [symmetric] fun_eq_iff)
qed

lemma mark_slots:
  "fold_res (\<lambda>(slot, _, len). mark_run m (slot, len)) runs seen = fold_res (mark m) (run_slots runs) seen"
  by (simp add: run_slots_def fold_res_concat fold_res_map mark_run_eq split_def)

lemma mark_bits:
  "fold_res (\<lambda>(_, r). mark_run m r) runs seen = fold_res (mark m) (run_bits runs) seen"
proof -
  have "mark_run m r = fold_res (mark m) [fst r..<fst r + snd r]" for r by (cases r) (simp add: mark_run_eq)
  then show ?thesis by (simp add: run_bits_def fold_res_concat fold_res_map split_def)
qed

lemma length_run_bits: "length (run_bits runs) = sum_list (map (\<lambda>(_, _, len). len) runs)"
  "length (run_slots runs) = length (run_bits runs)"
  by (induction runs) (auto simp: run_bits_def run_slots_def)

lemma tiles_bits:
  assumes "fold_res (\<lambda>(_, r). mark_run m r) runs (replicate n False) = Inr seen"
    and "n \<le> sum_list (map (\<lambda>(_, _, len). len) runs)"
  shows "distinct (run_bits runs)" "set (run_bits runs) = {..<n}" "n = sum_list (map (\<lambda>(_, _, len). len) runs)"
proof -
  have d: "distinct (run_bits runs)" "set (run_bits runs) \<subseteq> {..<n}"
    using assms(1) by (auto simp: mark_bits mark_all)
  then have "length (run_bits runs) \<le> n"
    by (metis card_lessThan card_mono distinct_card finite_lessThan)
  then have n: "length (run_bits runs) = n" using assms(2) by (simp add: length_run_bits)
  with d have "set (run_bits runs) = {..<n}" by (intro card_subset_eq) (auto simp: distinct_card)
  with d n show "distinct (run_bits runs)" "set (run_bits runs) = {..<n}" "n = sum_list (map (\<lambda>(_, _, len). len) runs)"
    by (auto simp: length_run_bits)
qed

lemma tiles_slots:
  assumes "fold_res (\<lambda>(slot, _, len). mark_run m (slot, len)) runs (replicate n False) = Inr seen"
    and "lo \<le> hi" "hi \<le> n"
    and "list_all id (take (hi - lo) (drop lo seen))" "\<not> list_ex id (take lo seen)" "\<not> list_ex id (drop hi seen)"
  shows "distinct (run_slots runs)" "set (run_slots runs) = {lo..<hi}"
proof -
  have d: "distinct (run_slots runs)" "set (run_slots runs) \<subseteq> {..<n}"
    and seen: "seen = map (\<lambda>i. i \<in> set (run_slots runs)) [0..<n]"
    using assms(1) by (auto simp: mark_slots mark_all)
  have mid: "i \<in> set (run_slots runs)" if "lo \<le> i" "i < hi" for i
    using assms(4) that assms(2,3) unfolding list_all_length by (auto simp: seen dest!: spec [of _ "i - lo"])
  have low: "i \<notin> set (run_slots runs)" if "i < lo" for i
    using assms(5) that assms(2,3) unfolding list_ex_length by (auto simp: seen dest!: spec [of _ i])
  have high: "i \<notin> set (run_slots runs)" if "hi \<le> i" for i
  proof (cases "i < n")
    case True
    then show ?thesis
      using assms(6) that assms(2,3) unfolding list_ex_length by (auto simp: seen dest!: spec [of _ "i - hi"])
  qed (use d in auto)
  show "distinct (run_slots runs)" by (fact d)
  show "set (run_slots runs) = {lo..<hi}" using mid low high
    by (auto simp: not_less [symmetric]) blast
qed

lemma build_profile_ok:
  assumes "en_hash_ninputs entry < 2 ^ 64" "build_profile entry = Inr p"
  shows "profile_ok p"
proof -
  obtain first ls where tl: "text_lines (en_map entry) = first # ls"
    using assms(2) by (cases "text_lines (en_map entry)") (auto simp: build_profile_def)
  let ?n = "en_hash_ninputs entry" and ?npub = "en_hash_npub entry" and ?h = "usize_sub (en_hash_ninputs entry) 6"
  from assms(2) obtain b_sig b_item b_ssc runs used seen middle public shares where
    u: "fold_res (\<lambda>(_, r). mark_run ''slot map reads the semantic bits out of range or twice'' r) runs
         (replicate (pf_semantic_len p) False) = Inr used" and
    s: "fold_res (\<lambda>(slot, _, len). mark_run ''slot map overlaps or exceeds the circuit'' (slot, len)) runs
         (replicate ?n False) = Inr seen" and
    cuts: "slice_res seen ?npub ?h = Inr middle" "slice_res seen 0 ?npub = Inr public" "slice_res seen ?h (length seen) = Inr shares" and
    cover: "list_all id middle" "\<not> list_ex id public" "\<not> list_ex id shares" and
    chk: "check_profile_layout p = Inr ()" and
    p: "pf_runs p = runs" "pf_semantic_len p = sum_list (map (\<lambda>(_, _, len). len) runs) mod 2 ^ 64" "pf_hash_ninputs p = ?n" "pf_hash_npub p = ?npub"
    by (auto simp: build_profile_def tl Let_def split: if_splits)
  have bits: "distinct (run_bits runs)" "set (run_bits runs) = {..<pf_semantic_len p}"
    by (rule tiles_bits [OF u]; simp add: p)+
  have l: "10 \<le> ?npub" "?npub + 6 \<le> ?n" "1155 \<le> pf_sig_npub p" "pf_sig_npub p + 1536 + 2 * trace_len \<le> pf_sig_ninputs p"
    using chk by (auto simp: check_profile_layout_def Let_def saturating_sub_def sig_issuer_trace_def sig_y_def sig_x_def sig_e_def
        sig_ap_def p split: if_splits)
  have h: "?h = ?n - 6" using l(2) assms(1) by (intro usize_sub_eq) linarith+
  have slots: "distinct (run_slots runs)" "set (run_slots runs) = {?npub..<?n - 6}"
    by (rule tiles_slots [OF s]; use l cuts cover in \<open>simp add: h slice_res_def split: if_splits; blast?\<close>)+
  show ?thesis using bits slots l by (simp add: profile_ok_def p)
qed

subsection \<open>Which tables are accepted\<close>

text \<open>The numbers of a table: those of the profile line and the runs of the lines that start with a digit.\<close>

definition table_reads :: "bytes \<Rightarrow> nat \<Rightarrow> nat \<Rightarrow> nat \<Rightarrow> slot_run list \<Rightarrow> bool" where
  "table_reads text b_sig b_item b_ssc runs \<longleftrightarrow>
     (\<exists>first lines. text_lines text = first # lines \<and>
        map parse_usize (drop 1 (split_whitespace first)) = [Some b_sig, Some b_item, Some b_ssc] \<and>
        map (\<lambda>l. map parse_usize (split_on 9 l)) (filter (\<lambda>l. l \<noteq> [] \<and> ascii_digit (hd l)) lines) =
          map (\<lambda>(slot, from, len). [Some slot, Some from, Some len]) runs)"

definition table_profile :: "profile_entry \<Rightarrow> nat \<Rightarrow> nat \<Rightarrow> nat \<Rightarrow> slot_run list \<Rightarrow> profile" where
  "table_profile entry b_sig b_item b_ssc runs =
     \<lparr>pf_b_sig = b_sig, pf_b_item = b_item, pf_b_ssc = b_ssc, pf_runs = runs,
      pf_semantic_len = sum_list (map (\<lambda>(_, _, len). len) runs) mod 2 ^ 64,
      pf_hash_ninputs = en_hash_ninputs entry, pf_hash_npub = en_hash_npub entry,
      pf_sig_ninputs = en_sig_ninputs entry, pf_sig_npub = en_sig_npub entry,
      pf_sig_circuit_id = en_sig_circuit_id entry, pf_artifact_len = en_artifact_len entry,
      pf_artifact_sha256 = en_artifact_sha256 entry, pf_block_enc_hash = en_block_enc_hash entry,
      pf_block_enc_sig = en_block_enc_sig entry\<rparr>"

lemma map_res_opt: "map_res (\<lambda>x. opt_res e (f x)) xs = Inr ys \<longleftrightarrow> map f xs = map Some ys"
  by (induction xs arbitrary: ys) (auto simp: and_then_Inr_iff map_eq_Cons_conv)

lemma three_Inr: "three m v = Inr (a, b, c) \<longleftrightarrow> v = [a, b, c]"
  by (auto simp: three_def split: list.splits)

lemma parse_run_Inr: "parse_run l = Inr (a, b, c) \<longleftrightarrow> map parse_usize (split_on 9 l) = [Some a, Some b, Some c]"
  by (auto simp: parse_run_def and_then_Inr_iff map_res_opt three_Inr map_eq_Cons_conv)

lemma parse_runs_Inr:
  "map_res parse_run ls = Inr runs \<longleftrightarrow>
     map (\<lambda>l. map parse_usize (split_on 9 l)) ls = map (\<lambda>(slot, from, len). [Some slot, Some from, Some len]) runs"
proof (induction ls arbitrary: runs)
  case (Cons l ls)
  have "parse_run l = Inr r \<longleftrightarrow> map parse_usize (split_on 9 l) = (case r of (slot, from, len) \<Rightarrow> [Some slot, Some from, Some len])" for r
    by (cases r) (simp add: parse_run_Inr)
  then show ?case by (auto simp: and_then_Inr_iff Cons map_eq_Cons_conv)
qed auto

lemma build_profile_needs:
  assumes "build_profile entry = Inr p"
  shows "\<exists>b_sig b_item b_ssc runs. table_reads (en_map entry) b_sig b_item b_ssc runs \<and> p = table_profile entry b_sig b_item b_ssc runs"
proof (cases "text_lines (en_map entry)")
  case (Cons first ls)
  with assms obtain nums b_sig b_item b_ssc runs where
    "map_res (\<lambda>x. opt_res (profile_bad ''profile line'') (parse_usize x)) (drop 1 (split_whitespace first)) = Inr nums"
    "three ''profile line arity'' nums = Inr (b_sig, b_item, b_ssc)"
    "map_res parse_run (filter (\<lambda>l. l \<noteq> [] \<and> ascii_digit (hd l)) ls) = Inr runs"
    "p = table_profile entry b_sig b_item b_ssc runs"
    by (auto simp: build_profile_def table_profile_def Let_def split: if_splits)
  then show ?thesis using Cons by (auto simp: table_reads_def map_res_opt three_Inr parse_runs_Inr intro!: exI)
qed (use assms in \<open>simp add: build_profile_def\<close>)

lemma build_profile_accepts:
  assumes small: "en_hash_ninputs entry < 2 ^ 64"
    and reads: "table_reads (en_map entry) b_sig b_item b_ssc runs"
    and ok: "profile_ok (table_profile entry b_sig b_item b_ssc runs)"
  shows "build_profile entry = Inr (table_profile entry b_sig b_item b_ssc runs)"
proof -
  let ?p = "table_profile entry b_sig b_item b_ssc runs" and ?n = "en_hash_ninputs entry" and ?npub = "en_hash_npub entry"
  from reads obtain first ls where tl: "text_lines (en_map entry) = first # ls"
    and nums: "map_res (\<lambda>x. opt_res (profile_bad ''profile line'') (parse_usize x)) (drop 1 (split_whitespace first)) = Inr [b_sig, b_item, b_ssc]"
    and runs: "map_res parse_run (filter (\<lambda>l. l \<noteq> [] \<and> ascii_digit (hd l)) ls) = Inr runs"
    by (auto simp: table_reads_def map_res_opt parse_runs_Inr)
  have f [simp]: "pf_runs ?p = runs" "pf_semantic_len ?p = sum_list (map (\<lambda>(_, _, len). len) runs) mod 2 ^ 64"
    "pf_hash_ninputs ?p = ?n" "pf_hash_npub ?p = ?npub" "pf_sig_npub ?p = en_sig_npub entry" "pf_sig_ninputs ?p = en_sig_ninputs entry"
    by (simp_all add: table_profile_def)
  note ok = ok [unfolded profile_ok_def f]
  have bits: "fold_res (\<lambda>(_, r). mark_run m r) runs (replicate (sum_list (map (\<lambda>(_, _, len). len) runs) mod 2 ^ 64) False) =
      Inr (map (\<lambda>i. i \<in> set (run_bits runs)) [0..<sum_list (map (\<lambda>(_, _, len). len) runs) mod 2 ^ 64])" for m
    using ok by (simp add: mark_bits mark_all)
  have slots: "fold_res (\<lambda>(slot, _, len). mark_run m (slot, len)) runs (replicate ?n False) =
      Inr (map (\<lambda>i. i \<in> {?npub..<?n - 6}) [0..<?n])" for m
    using ok by (simp add: mark_slots mark_all) auto
  have h: "usize_sub ?n 6 = ?n - 6" using ok small by (intro usize_sub_eq) linarith+
  have chk: "check_profile_layout ?p = Inr ()"
    using ok by (simp add: check_profile_layout_def Let_def saturating_sub_def sig_issuer_trace_def sig_y_def sig_x_def sig_e_def sig_ap_def) linarith
  let ?seen = "map (\<lambda>i. ?npub \<le> i \<and> i < ?n - 6) [0..<?n]"
  have cuts: "slice_res ?seen ?npub (?n - 6) = Inr (replicate (?n - 6 - ?npub) True)"
      "slice_res ?seen 0 ?npub = Inr (replicate ?npub False)" "slice_res ?seen (?n - 6) (length ?seen) = Inr (replicate 6 False)"
    using ok by (auto simp: slice_res_def intro!: nth_equalityI)
  have cover: "list_all id (replicate k True)" "\<not> list_ex id (replicate k False)" for k
    by (simp_all add: list_all_iff list_ex_iff)
  have t: "three m [b_sig, b_item, b_ssc] = Inr (b_sig, b_item, b_ssc)" for m by (simp add: three_def)
  show ?thesis
    unfolding build_profile_def tl list.case nums runs and_then_simps t prod.case Let_def bits slots
    using cuts cover chk [unfolded table_profile_def] by (simp add: h table_profile_def)
qed

lemma build_profile_iff:
  assumes "en_hash_ninputs entry < 2 ^ 64"
  shows "build_profile entry = Inr p \<longleftrightarrow>
    (\<exists>b_sig b_item b_ssc runs. table_reads (en_map entry) b_sig b_item b_ssc runs \<and> p = table_profile entry b_sig b_item b_ssc runs) \<and>
    profile_ok p"
  using build_profile_needs [of entry p] build_profile_ok [OF assms, of p] build_profile_accepts [OF assms] by blast

lemma parse_usize_less: "parse_usize w = Some n \<Longrightarrow> n < 2 ^ 64"
  by (auto simp: parse_usize_def Let_def split: if_splits)

end
