(* ===== verification/Nym_Mdoc.thy ===== *)
theory Nym_Mdoc
  imports Nym_Profile
begin

text \<open>
  The semantic bits of a credential, \<open>src/src/nymauth/mdoc.rs\<close>: what the witness of the hash circuit needs of the issuer's
  structure, the seed and the verifier's input. SHA-256 of the library is the parameter \<open>sha\<close>; the wiping of buffers is not
  modelled. Whatever the bytes of the credential are, the result is the semantic bits or an error about the credential; there
  are as many bits as the profile's blocks say, and each is 0 or 1.
\<close>

subsection \<open>The credential\<close>

definition doc_type :: bytes where
  "doc_type = ascii ''eu.europa.ec.eudi.nym_auth.1''"

definition nym_dst :: bytes where
  "nym_dst = ascii ''nym_auth/v1/known-offender-matching-ssc''"

record parsed =
  pa_signed :: bytes
  pa_issuer_sig :: bytes
  pa_x :: bytes
  pa_y :: bytes

definition nym_message :: "bytes \<Rightarrow> bytes \<Rightarrow> bytes" where
  "nym_message seed vi = nym_dst @ seed @ replicate 32 0 @ vi"

definition fit :: "bytes \<Rightarrow> nat \<Rightarrow> string \<Rightarrow> bytes res" where
  "fit m blocks what = opt_res (credential (what @ '' does not fit the blocks'')) (nym_pad m blocks)"

text \<open>\<open>try_into\<close> an array.\<close>

definition exact_array :: "nat \<Rightarrow> error \<Rightarrow> bytes \<Rightarrow> bytes res" where
  "exact_array n e bs = (if length bs = n then Inr bs else Inl e)"

text \<open>The signed structure and the issuer's signature: the head of \<open>semantic\<close>.\<close>

definition issuer_auth :: "bytes \<Rightarrow> (nat \<times> bytes \<times> bytes) res" where
  "issuer_auth d =
     and_then (map_require d 0 (ascii ''issuerAuth'') ''issuerAuth'') (\<lambda>auth.
     and_then (map_require d 0 (ascii ''nameSpaces'') ''nameSpaces'') (\<lambda>spaces.
     and_then (array_item d auth 0) (\<lambda>prot.
     and_then (array_item d auth 2) (\<lambda>pay.
     and_then (array_item d auth 3) (\<lambda>sigp.
     and_then (cbor_end d prot) (\<lambda>prot_end.
     and_then (cbor_end d pay) (\<lambda>pay_end.
     and_then (slice_res d prot prot_end) (\<lambda>protected.
     and_then (slice_res d pay pay_end) (\<lambda>payload.
     let sig_buf = [0x84, 0x6a] @ ascii ''Signature1'' @ protected @ [0x40] @ payload
     in and_then (cbor_content d sigp) (\<lambda>content.
        and_then (exact_array 64 (credential ''issuer signature is not 64 bytes'') content) (\<lambda>issuer_sig.
        Inr (spaces, sig_buf, issuer_sig))))))))))))"

text \<open>The items of the namespace: the last one of each name counts.\<close>

fun scan_items :: "bytes \<Rightarrow> nat \<Rightarrow> nat \<Rightarrow> bytes option \<times> bytes option \<Rightarrow> (bytes option \<times> bytes option) res" where
  "scan_items d q 0 seen = Inr seen"
| "scan_items d q (Suc n) (item, ssc) =
     and_then (cbor_end d q) (\<lambda>e.
     and_then (cbor_head d q) (\<lambda>(_, _, thl).
     and_then (cbor_content d (q + thl)) (\<lambda>c.
     and_then (map_require c 0 (ascii ''elementIdentifier'') ''elementIdentifier'') (\<lambda>name.
     and_then (cbor_content c name) (\<lambda>identifier.
     and_then (slice_res d q e) (\<lambda>bytes.
       scan_items d e n
         (if identifier = ascii ''birth_date'' then (Some bytes, ssc)
          else if identifier = ascii ''ssc'' then (item, Some bytes)
          else (item, ssc))))))))"

definition namespace_items :: "bytes \<Rightarrow> nat \<Rightarrow> (bytes \<times> bytes) res" where
  "namespace_items d spaces =
     and_then (map_get d spaces doc_type) (\<lambda>ns.
     and_then (opt_res (credential ''nym_auth namespace is missing'') ns) (\<lambda>ns.
     and_then (cbor_head d ns) (\<lambda>(nmt, n, hl).
     if nmt \<noteq> 4 then Inl (credential ''namespace is not an array'')
     else
       and_then (scan_items d (ns + hl) (unat n) (None, None)) (\<lambda>(item, ssc).
       and_then (opt_res (credential ''birth_date attribute is missing'') item) (\<lambda>item.
       and_then (opt_res (credential ''ssc attribute is missing'') ssc) (\<lambda>ssc.
       Inr (item, ssc)))))))"

subsection \<open>The windows\<close>

type_synonym window = "bytes \<times> bytes \<times> bytes \<times> nat"

definition mdoc_windows ::
  "(bytes \<Rightarrow> bytes) \<Rightarrow> bytes \<Rightarrow> bytes \<Rightarrow> bytes \<Rightarrow> bytes \<Rightarrow> bytes \<Rightarrow> bytes \<Rightarrow> window list" where
  "mdoc_windows sha sig item ssc sp ip cp =
     (let digest_of = \<lambda>m. [0x58, 0x20] @ sha m
      in [(sig, [0x67] @ ascii ''docType'', sp, 38),
          (sig, digest_of item, sp, 34),
          (item, [0x71] @ ascii ''elementIdentifier'' @ [0x6a] @ ascii ''birth_date'', ip, 29),
          (item, [0x6c] @ ascii ''elementValue'' @ [0xd9, 0x03, 0xec, 0x6a], ip, 27),
          (sig, [0x69] @ ascii ''deviceKey'' @ [0xa4, 0x01, 0x02, 0x20, 0x01, 0x21, 0x58, 0x20], sp, 85),
          (sig, [0x69] @ ascii ''validFrom'' @ [0xc0, 0x74], sp, 32),
          (sig, [0x6a] @ ascii ''validUntil'' @ [0xc0, 0x74], sp, 33),
          (sig, digest_of ssc, sp, 34),
          (ssc, [0x71] @ ascii ''elementIdentifier'' @ [0x63] @ ascii ''ssc'', cp, 22),
          (ssc, [0x6c] @ ascii ''elementValue'' @ [0x58, 0x20], cp, 47)])"

text \<open>\<open>*m.get(i).unwrap_or(&0)\<close>\<close>

definition byte_or_zero :: "bytes \<Rightarrow> nat \<Rightarrow> byte" where
  "byte_or_zero m i = (case nth_opt m i of Some b \<Rightarrow> b | None \<Rightarrow> 0)"

definition window_read :: "window \<Rightarrow> (nat \<times> bytes) res" where
  "window_read window =
     (case window of (hay, pat, m, w) \<Rightarrow>
        and_then (found_bytes hay pat ''an mdoc window'') (\<lambda>offset.
          Inr (offset, word_bits (of_nat offset) 16 @ concat (map (\<lambda>i. word_bits (ucast (byte_or_zero m (offset + i))) 8) [0..<w]))))"

definition window_step :: "nat \<times> window \<Rightarrow> bytes \<times> nat \<Rightarrow> (bytes \<times> nat) res" where
  "window_step kw st =
     (case (kw, st) of ((k, window), (s, dk)) \<Rightarrow>
        and_then (window_read window) (\<lambda>(offset, bits). Inr (s @ bits, if k = 4 then offset else dk)))"

lemma window_step_pair [simp]:
  "window_step (k, window) (s, dk) =
     and_then (window_read window) (\<lambda>(offset, bits). Inr (s @ bits, if k = 4 then offset else dk))"
  by (simp add: window_step_def)

definition semantic :: "(bytes \<Rightarrow> bytes) \<Rightarrow> bytes \<Rightarrow> bytes \<Rightarrow> bytes \<Rightarrow> profile \<Rightarrow> (bytes \<times> parsed) res" where
  "semantic sha d seed vi p =
     and_then (issuer_auth d) (\<lambda>(spaces, sig, issuer_sig).
     and_then (namespace_items d spaces) (\<lambda>(item, ssc).
     and_then (fit sig (pf_b_sig p) ''signed message'') (\<lambda>sp.
     and_then (fit item (pf_b_item p) ''birth_date item'') (\<lambda>ip.
     and_then (fit ssc (pf_b_ssc p) ''ssc item'') (\<lambda>cp.
     let s = snd (faces_padded sp nym_iv) @ snd (faces_padded ip nym_iv) @ snd (faces_padded cp nym_iv)
     in and_then (opt_res (credential ''seed does not fit one block'') (faces seed 1)) (\<lambda>seed_face.
        and_then (opt_res (credential ''nym message does not fit two blocks'') (faces (nym_message seed vi) 2)) (\<lambda>nym_faces.
        let s = s @ seed_face @ nym_faces @ concat (map (\<lambda>m. word_bits (of_nat (length m)) 16) [sig, item, ssc])
        in and_then (fold_res window_step (enumerate 0 (mdoc_windows sha sig item ssc sp ip cp)) (s, 0)) (\<lambda>(s, dk).
           and_then (opt_res (credential ''device key x out of range'') (get_range sig (dk + 18) (dk + 50))) (\<lambda>x.
           and_then (opt_res (credential ''device key y out of range'') (get_range sig (dk + 53) (dk + 85))) (\<lambda>y.
           Inr (s, \<lparr>pa_signed = sig, pa_issuer_sig = issuer_sig, pa_x = x, pa_y = y\<rparr>)))))))))))"

subsection \<open>Every failure is an error about the credential\<close>

definition cred_ok :: "('a \<Rightarrow> bool) \<Rightarrow> 'a res \<Rightarrow> bool" where
  "cred_ok Q r \<longleftrightarrow> (case r of Inl e \<Rightarrow> \<exists>m. e = credential m | Inr y \<Rightarrow> Q y)"

lemma cred_ok_simps [simp]: "cred_ok Q (Inl (credential m))" "cred_ok Q (Inr y) \<longleftrightarrow> Q y"
  by (auto simp: cred_ok_def)

lemma cred_and_then: "cred_ok Q r \<Longrightarrow> (\<And>x. Q x \<Longrightarrow> cred_ok P (f x)) \<Longrightarrow> cred_ok P (and_then r f)"
  by (cases r) (auto simp: cred_ok_def)

lemma cred_mono: "cred_ok Q r \<Longrightarrow> (\<And>x. Q x \<Longrightarrow> P x) \<Longrightarrow> cred_ok P r"
  by (cases r) (auto simp: cred_ok_def)

lemma cred_result: "cred_ok Q r \<Longrightarrow> cred_ok (\<lambda>x. r = Inr x \<and> Q x) r"
  by (cases r) (auto simp: cred_ok_def)

lemma cred_opt: "cred_ok (\<lambda>y. x = Some y) (opt_res (credential m) x)"
  by (cases x) auto

lemma cred_head: "cred_ok (\<lambda>_. True) (cbor_head d p)"
  unfolding cbor_head_def Let_def by (intro cred_and_then [OF cred_opt] cred_and_then) (auto intro: cred_and_then [OF cred_opt])

lemma cred_end_depth:
  "cred_ok (\<lambda>_. True) (cbor_end_depth d p depth)"
  "cred_ok (\<lambda>_. True) (cbor_skip d q depth n)"
proof (induction d p depth and d q depth n rule: cbor_end_depth_cbor_skip.induct)
  case (1 d p depth)
  show ?case
  proof (cases "cbor_max_depth < depth")
    case False
    show ?thesis
      unfolding cbor_end_depth.simps [of d p depth] if_not_P [OF False]
    proof (rule cred_and_then [OF cred_result [OF cred_head]], clarify)
      fix mt v hl assume h: "cbor_head d p = Inr (mt, v, hl)"
      have mt: "mt < 8" by (rule cbor_head_bounds [OF h])
      note IH = "1.IH"(1) [OF False h refl refl] "1.IH"(2) [OF False h refl refl]
      show "cred_ok (\<lambda>_. True) (and_then
          (if mt = 2 \<or> mt = 3 then
             and_then (opt_res (credential ''CBOR length overflow'')
                 (Option.bind (checked_add p hl) (\<lambda>x. checked_add x (unat v)))) (\<lambda>e.
               if mt = 3 \<and> (case get_range d (p + hl) e of Some text \<Rightarrow> \<not> utf8_valid text | None \<Rightarrow> False)
               then Inl (credential ''CBOR text string is not valid UTF-8'')
               else Inr e)
           else if mt = 0 \<or> mt = 1 then Inr (p + hl)
           else if mt = 7 then
             (if hl = 2 \<and> v < 32 then Inl (credential ''non-canonical CBOR simple value'') else Inr (p + hl))
           else if mt = 6 then cbor_end_depth d (p + hl) (depth + 1)
           else if mt = 4 \<or> mt = 5 then
             and_then (opt_res (credential ''CBOR length overflow'')
                 (if mt = 5 then (if unat v * 2 < 2 ^ 64 then Some (unat v * 2) else None) else Some (unat v))) (\<lambda>count.
               if length d - p < count then Inl (credential ''truncated CBOR container'')
               else cbor_skip d (p + hl) (depth + 1) count)
           else Inl (credential ''unknown CBOR item type'')) (\<lambda>e.
        if length d < e then Inl (credential ''truncated CBOR item'') else Inr e))"
      proof (rule cred_and_then [where Q = "\<lambda>_. True"])
        consider "mt = 2 \<or> mt = 3" | "mt = 0 \<or> mt = 1" | "mt = 7" | "mt = 6" | "mt = 4 \<or> mt = 5" using mt by linarith
        then show "cred_ok (\<lambda>_. True) (if mt = 2 \<or> mt = 3 then
             and_then (opt_res (credential ''CBOR length overflow'')
                 (Option.bind (checked_add p hl) (\<lambda>x. checked_add x (unat v)))) (\<lambda>e.
               if mt = 3 \<and> (case get_range d (p + hl) e of Some text \<Rightarrow> \<not> utf8_valid text | None \<Rightarrow> False)
               then Inl (credential ''CBOR text string is not valid UTF-8'')
               else Inr e)
           else if mt = 0 \<or> mt = 1 then Inr (p + hl)
           else if mt = 7 then
             (if hl = 2 \<and> v < 32 then Inl (credential ''non-canonical CBOR simple value'') else Inr (p + hl))
           else if mt = 6 then cbor_end_depth d (p + hl) (depth + 1)
           else if mt = 4 \<or> mt = 5 then
             and_then (opt_res (credential ''CBOR length overflow'')
                 (if mt = 5 then (if unat v * 2 < 2 ^ 64 then Some (unat v * 2) else None) else Some (unat v))) (\<lambda>count.
               if length d - p < count then Inl (credential ''truncated CBOR container'')
               else cbor_skip d (p + hl) (depth + 1) count)
           else Inl (credential ''unknown CBOR item type''))"
        proof cases
          case 1
          then show ?thesis by (auto intro: cred_and_then [OF cred_opt])
        next
          case 4
          then show ?thesis using IH(1) by simp
        next
          case 5
          then show ?thesis using IH(2) by (auto intro!: cred_and_then [OF cred_opt])
        qed auto
      qed simp
    qed
  qed (simp add: cbor_end_depth.simps)
next
  case (3 d q depth n)
  show ?case unfolding cbor_skip.simps
    by (rule cred_and_then [OF cred_result [OF "3.IH"(1)]]) (use "3.IH"(2) in blast)
qed simp

lemma cred_end: "cred_ok (\<lambda>e. p < e \<and> e \<le> length d) (cbor_end d p)"
proof -
  have "cred_ok (\<lambda>x. cbor_end_depth d p 0 = Inr x \<and> True) (cbor_end d p)"
    unfolding cbor_end_def by (rule cred_result [OF cred_end_depth(1)])
  then show ?thesis by (rule cred_mono) (auto dest: cbor_bounds(1))
qed

lemma cred_content: "cred_ok (\<lambda>_. True) (cbor_content d p)"
  unfolding cbor_content_def
  by (rule cred_and_then [OF cred_head]) (auto intro!: cred_and_then [OF cred_opt] cred_mono [OF cred_opt])

lemma cred_map_get_loop: "cred_ok (\<lambda>_. True) (map_get_loop d q key n)"
proof (induction n arbitrary: q)
  case (Suc n)
  show ?case unfolding map_get_loop.simps
  proof (rule cred_and_then [OF cred_end], rule cred_and_then [OF cred_head], clarify)
    fix k_end kmt v hl
    show "cred_ok (\<lambda>_. True) (and_then
        (if kmt = 2 \<or> kmt = 3 then and_then (cbor_content d q) (\<lambda>c. Inr (c = key)) else Inr False) (\<lambda>hit.
          if hit then Inr (Some k_end) else and_then (cbor_end d k_end) (\<lambda>q. map_get_loop d q key n)))"
      by (rule cred_and_then [where Q = "\<lambda>_. True"]) (auto intro!: cred_and_then [OF cred_content] cred_and_then [OF cred_end] Suc)
  qed
qed simp

lemma cred_map_get: "cred_ok (\<lambda>_. True) (map_get d p key)"
  unfolding map_get_def by (rule cred_and_then [OF cred_head]) (auto intro: cred_map_get_loop)

lemma cred_map_require: "cred_ok (\<lambda>_. True) (map_require d p key what)"
  unfolding map_require_def by (rule cred_and_then [OF cred_map_get]) (rule cred_mono [OF cred_opt], simp)

lemma cred_array_item: "cred_ok (\<lambda>_. True) (array_item d p i)"
proof -
  have "cred_ok (\<lambda>_. True) (fold_res (\<lambda>_ q. cbor_end d q) is q)" for "is" :: "nat list" and q
    by (induction "is" arbitrary: q) (auto intro!: cred_and_then [OF cred_end])
  then show ?thesis unfolding array_item_def by (intro cred_and_then [OF cred_head]) auto
qed

lemma cred_slice: "i \<le> j \<Longrightarrow> j \<le> length d \<Longrightarrow> cred_ok (\<lambda>_. True) (slice_res d i j)"
  by (simp add: slice_res_def)

lemma cred_exact: "cred_ok (\<lambda>bs. length bs = n) (exact_array n (credential m) bs)"
  by (simp add: exact_array_def)

lemma cred_issuer_auth: "cred_ok (\<lambda>(_, _, issuer_sig). length issuer_sig = 64) (issuer_auth d)"
  unfolding issuer_auth_def Let_def
  apply (rule cred_and_then [OF cred_map_require], rule cred_and_then [OF cred_map_require])
  apply (rule cred_and_then [OF cred_array_item], rule cred_and_then [OF cred_array_item], rule cred_and_then [OF cred_array_item])
  apply (rule cred_and_then [OF cred_end], rule cred_and_then [OF cred_end])
  apply (rule cred_and_then [OF cred_slice], simp, simp, rule cred_and_then [OF cred_slice], simp, simp)
  apply (rule cred_and_then [OF cred_content], rule cred_and_then [OF cred_exact], simp)
  done

lemma cred_scan_items: "cred_ok (\<lambda>_. True) (scan_items d q n seen)"
proof (induction n arbitrary: q seen)
  case (Suc n)
  obtain item ssc where seen: "seen = (item, ssc)" by (cases seen)
  show ?case unfolding seen scan_items.simps
    by (rule cred_and_then [OF cred_end], rule cred_and_then [OF cred_head], clarify)
      (intro cred_and_then [OF cred_content] cred_and_then [OF cred_map_require] cred_and_then [OF cred_slice] Suc; simp)
qed simp

lemma cred_namespace_items: "cred_ok (\<lambda>_. True) (namespace_items d spaces)"
  unfolding namespace_items_def
  by (rule cred_and_then [OF cred_map_get], rule cred_and_then [OF cred_opt], rule cred_and_then [OF cred_head])
    (auto intro!: cred_and_then [OF cred_scan_items] cred_and_then [OF cred_opt])

subsection \<open>The number of the bits\<close>

lemma nym_pad_length: "nym_pad m b = Some p \<Longrightarrow> length p = 64 * b"
proof -
  assume p: "nym_pad m b = Some p"
  then have "64 * b < 2 ^ 64" by (auto simp: nym_pad_def bind_eq_Some_conv split: if_splits)
  from p [unfolded nym_pad_eq [OF this]] show ?thesis by (auto simp: length_padded_to split: if_splits)
qed

lemma faces_of_pad:
  assumes "length p = 64 * b"
  shows "length (snd (faces_padded p s)) = 6656 * b" "set (snd (faces_padded p s)) \<subseteq> {0, 1}"
  using faces_padded_state(2,3) [of p s] assms by auto

lemma faces_bits: "faces m b = Some f \<Longrightarrow> length f = 6656 * b \<and> set f \<subseteq> {0, 1}"
proof -
  assume "faces m b = Some f"
  then obtain p where "nym_pad m b = Some p" "f = snd (faces_padded p nym_iv)" by (auto simp: faces_def bind_eq_Some_conv)
  with faces_of_pad [OF nym_pad_length [OF this(1)], of nym_iv] show ?thesis by simp
qed

lemma word_bits_set: "set (word_bits v n) \<subseteq> {0, 1}"
  using word_bits_bit [of _ v n] by blast

lemma window_read_bits:
  assumes "window_read (hay, pat, m, w) = Inr (offset, bits)"
  shows "length bits = 16 + 8 * w" "set bits \<subseteq> {0, 1}" "find_bytes hay pat = Some offset"
proof -
  have b: "bits = word_bits (of_nat offset) 16 @ concat (map (\<lambda>i. word_bits (ucast (byte_or_zero m (offset + i))) 8) [0..<w])"
    and f: "find_bytes hay pat = Some offset"
    using assms by (auto simp: window_read_def found_bytes_def)
  show "length bits = 16 + 8 * w" by (simp add: b length_concat o_def sum_list_triv)
  show "set bits \<subseteq> {0, 1}" using word_bits_set by (auto simp: b)
  show "find_bytes hay pat = Some offset" by (rule f)
qed

lemma windows_read:
  assumes "fold_res window_step (enumerate k ws) (s, dk) = Inr (s', dk')"
  shows "length s' = length s + sum_list (map (\<lambda>(_, _, _, w). 16 + 8 * w) ws)" "set s \<subseteq> {0, 1} \<Longrightarrow> set s' \<subseteq> {0, 1}"
    "if k \<le> 4 \<and> 4 < k + length ws then \<exists>b. window_read (ws ! (4 - k)) = Inr (dk', b) else dk' = dk"
proof -
  have "length s' = length s + sum_list (map (\<lambda>(_, _, _, w). 16 + 8 * w) ws) \<and> (set s \<subseteq> {0, 1} \<longrightarrow> set s' \<subseteq> {0, 1}) \<and>
    (if k \<le> 4 \<and> 4 < k + length ws then \<exists>b. window_read (ws ! (4 - k)) = Inr (dk', b) else dk' = dk)"
    using assms
  proof (induction ws arbitrary: k s dk)
    case (Cons w ws)
    obtain hay pat m n where w: "w = (hay, pat, m, n)" by (cases w)
    from Cons.prems obtain offset bits where r: "window_read w = Inr (offset, bits)"
      "fold_res window_step (enumerate (Suc k) ws) (s @ bits, if k = 4 then offset else dk) = Inr (s', dk')"
      by auto
    note b = window_read_bits [OF r(1) [unfolded w]]
    note IH = Cons.IH [OF r(2)]
    show ?case
    proof (intro conjI)
      show "length s' = length s + sum_list (map (\<lambda>(_, _, _, w). 16 + 8 * w) (w # ws))" using IH b(1) by (simp add: w)
      show "set s \<subseteq> {0, 1} \<longrightarrow> set s' \<subseteq> {0, 1}" using IH b(2) by auto
      show "if k \<le> 4 \<and> 4 < k + length (w # ws) then \<exists>b. window_read ((w # ws) ! (4 - k)) = Inr (dk', b) else dk' = dk"
        using IH r(1) by (cases "k < 4"; cases "k = 4") (auto simp: Suc_diff_Suc nth_Cons' split: if_splits)
    qed
  qed auto
  then show "length s' = length s + sum_list (map (\<lambda>(_, _, _, w). 16 + 8 * w) ws)" "set s \<subseteq> {0, 1} \<Longrightarrow> set s' \<subseteq> {0, 1}"
    "if k \<le> 4 \<and> 4 < k + length ws then \<exists>b. window_read (ws ! (4 - k)) = Inr (dk', b) else dk' = dk" by blast+
qed

lemma find_bytes_at:
  assumes "find_bytes hay pat = Some i"
  shows "take (length pat) (drop i hay) = pat \<and> i + length pat \<le> length hay"
proof -
  have f: "List.find (\<lambda>i. take (length pat) (drop i hay) = pat) [0..<length hay - length pat + 1] = Some i" "length pat \<le> length hay"
    using assms by (auto simp: find_bytes_def not_less split: if_splits)
  then obtain k where "k < length hay - length pat + 1" "i = [0..<length hay - length pat + 1] ! k" "take (length pat) (drop i hay) = pat"
    by (auto simp: find_Some_iff simp del: upt_Suc)
  then show ?thesis using f(2) by (simp del: upt_Suc)
qed

text \<open>What a window of the witness holds: the place of the first pattern and the bytes from there, which start with the pattern.\<close>

definition window_ok :: "window \<Rightarrow> bytes \<Rightarrow> bool" where
  "window_ok window bits \<longleftrightarrow> (case window of (hay, pat, m, w) \<Rightarrow>
     \<exists>offset bytes. find_bytes hay pat = Some offset \<and> length bytes = w \<and> take (length pat) bytes = take w pat \<and>
       bits = word_bits (of_nat offset) 16 @ concat (map (\<lambda>b. word_bits (ucast b) 8) bytes))"

lemma windows_parts:
  assumes "fold_res window_step (enumerate k ws) (s, dk) = Inr (s', dk')"
  shows "\<exists>parts. s' = s @ concat parts \<and> list_all2 (\<lambda>w bits. \<exists>offset. window_read w = Inr (offset, bits)) ws parts"
  using assms
proof (induction ws arbitrary: k s dk)
  case (Cons w ws)
  from Cons.prems obtain offset bits where r: "window_read w = Inr (offset, bits)"
    "fold_res window_step (enumerate (Suc k) ws) (s @ bits, if k = 4 then offset else dk) = Inr (s', dk')"
    by auto
  from Cons.IH [OF r(2)] obtain parts where
    "s' = (s @ bits) @ concat parts" "list_all2 (\<lambda>w bits. \<exists>offset. window_read w = Inr (offset, bits)) ws parts"
    by blast
  then have "s' = s @ concat (bits # parts)"
    "list_all2 (\<lambda>w bits. \<exists>offset. window_read w = Inr (offset, bits)) (w # ws) (bits # parts)"
    using r(1) by auto
  then show ?case by blast
qed simp

lemma window_read_ok:
  assumes "window_read (hay, pat, m, w) = Inr (offset, bits)" "take (length hay) m = hay"
  shows "window_ok (hay, pat, m, w) bits"
proof -
  let ?bs = "map (\<lambda>i. byte_or_zero m (offset + i)) [0..<w]"
  have b: "bits = word_bits (of_nat offset) 16 @ concat (map (\<lambda>i. word_bits (ucast (byte_or_zero m (offset + i))) 8) [0..<w])"
    and f: "find_bytes hay pat = Some offset"
    using assms(1) by (auto simp: window_read_def found_bytes_def)
  note at = find_bytes_at [OF f]
  have "take (length pat) ?bs = take w pat"
  proof (rule nth_equalityI)
    fix i assume "i < length (take (length pat) ?bs)"
    then have i: "i < length pat" "i < w" by simp_all
    have l: "offset + i < length hay" using at i by simp
    then have "hay ! (offset + i) = m ! (offset + i)" "offset + i < length m"
      using assms(2) by (metis nth_take, metis length_take min_less_iff_conj)
    moreover have "pat ! i = hay ! (offset + i)"
      using at i by (metis (no_types, lifting) nth_drop nth_take add_leD1)
    ultimately show "take (length pat) ?bs ! i = take w pat ! i"
      using i by (simp add: byte_or_zero_def nth_opt_def)
  qed (simp add: min.commute)
  then show ?thesis using f b unfolding window_ok_def
    by (intro case_prodI exI [of _ offset] exI [of _ ?bs] conjI) (simp_all add: o_def)
qed

lemma nym_pad_prefix: "nym_pad m b = Some p \<Longrightarrow> take (length m) p = m"
proof -
  assume p: "nym_pad m b = Some p"
  then have "64 * b < 2 ^ 64" by (auto simp: nym_pad_def bind_eq_Some_conv split: if_splits)
  from p [unfolded nym_pad_eq [OF this]] show ?thesis by (auto simp: padded_to_def Let_def pad_input_def split: if_splits)
qed

lemma cred_windows: "cred_ok (\<lambda>_. True) (fold_res window_step kws st)"
proof (induction kws arbitrary: st)
  case (Cons kw kws)
  have "cred_ok (\<lambda>_. True) (window_read w)" for w
    unfolding window_read_def found_bytes_def by (cases w) (simp, rule cred_and_then [OF cred_opt], simp)
  then have "cred_ok (\<lambda>_. True) (window_step kw st)"
    by (cases kw; cases st; simp) (rule cred_and_then, assumption, auto)
  then show ?case unfolding fold_res.simps by (rule cred_and_then) (rule Cons)
qed simp

definition device_key_pattern :: bytes where
  "device_key_pattern = [0x69] @ ascii ''deviceKey'' @ [0xa4, 0x01, 0x02, 0x20, 0x01, 0x21, 0x58, 0x20]"

text \<open>The semantic bits and the parts of a credential: their sizes, and the device key behind its first label in the signed bytes.\<close>

definition semantic_ok :: "(bytes \<Rightarrow> bytes) \<Rightarrow> bytes \<Rightarrow> bytes \<Rightarrow> profile \<Rightarrow> bytes \<times> parsed \<Rightarrow> bool" where
  "semantic_ok sha seed vi p r \<longleftrightarrow> (case r of (s, pa) \<Rightarrow>
     length s = 6656 * (pf_b_sig p + pf_b_item p + pf_b_ssc p + 3) + 3256 \<and> set s \<subseteq> {0, 1} \<and>
     (\<exists>item ssc sp ip cp seed_face nym_faces parts.
        nym_pad (pa_signed pa) (pf_b_sig p) = Some sp \<and> nym_pad item (pf_b_item p) = Some ip \<and> nym_pad ssc (pf_b_ssc p) = Some cp \<and>
        faces seed 1 = Some seed_face \<and> faces (nym_message seed vi) 2 = Some nym_faces \<and>
        list_all2 window_ok (mdoc_windows sha (pa_signed pa) item ssc sp ip cp) parts \<and>
        s = snd (faces_padded sp nym_iv) @ snd (faces_padded ip nym_iv) @ snd (faces_padded cp nym_iv) @ seed_face @ nym_faces @
          concat (map (\<lambda>m. word_bits (of_nat (length m)) 16) [pa_signed pa, item, ssc]) @ concat parts) \<and>
     length (pa_issuer_sig pa) = 64 \<and> length (pa_x pa) = 32 \<and> length (pa_y pa) = 32 \<and>
     (\<exists>before between after. find_bytes (pa_signed pa) device_key_pattern = Some (length before) \<and> length between = 3 \<and>
        pa_signed pa = before @ device_key_pattern @ pa_x pa @ between @ pa_y pa @ after))"

lemma device_key_parts:
  assumes "find_bytes sig device_key_pattern = Some dk" "get_range sig (dk + 18) (dk + 50) = Some x" "get_range sig (dk + 53) (dk + 85) = Some y"
  shows "length x = 32" "length y = 32"
    "\<exists>before between after. find_bytes sig device_key_pattern = Some (length before) \<and> length between = 3 \<and>
      sig = before @ device_key_pattern @ x @ between @ y @ after"
proof -
  have pat: "length device_key_pattern = 18" by (simp add: device_key_pattern_def ascii_def)
  note at = find_bytes_at [OF assms(1), unfolded pat]
  have g: "x = take 32 (drop (dk + 18) sig)" "y = take 32 (drop (dk + 53) sig)" "dk + 85 \<le> length sig"
    using assms(2,3) by (auto simp: get_range_def split: if_splits)
  show "length x = 32" "length y = 32" using g by simp_all
  have cut: "drop n sig = take k (drop n sig) @ drop (n + k) sig" for n k
    by (metis append_take_drop_id drop_drop add.commute)
  have n: "dk + 18 + 32 = dk + 50" "dk + 50 + 3 = dk + 53" "dk + 53 + 32 = dk + 85" by simp_all
  have "sig = take dk sig @ drop dk sig" by simp
  also have "drop dk sig = device_key_pattern @ drop (dk + 18) sig" using cut [of dk 18] at by simp
  also have "drop (dk + 18) sig = x @ drop (dk + 50) sig" using cut [of "dk + 18" 32, unfolded n] by (simp only: g)
  also have "drop (dk + 50) sig = take 3 (drop (dk + 50) sig) @ drop (dk + 53) sig" using cut [of "dk + 50" 3, unfolded n] .
  also have "drop (dk + 53) sig = y @ drop (dk + 85) sig" using cut [of "dk + 53" 32, unfolded n] by (simp only: g)
  finally show "\<exists>before between after. find_bytes sig device_key_pattern = Some (length before) \<and> length between = 3 \<and>
      sig = before @ device_key_pattern @ x @ between @ y @ after"
    using assms(1) g(3) by (intro exI [of _ "take dk sig"] exI [of _ "take 3 (drop (dk + 50) sig)"] exI conjI) (simp_all add: min_def)
qed

lemma mdoc_windows_widths:
  "sum_list (map (\<lambda>(_, _, _, w). 16 + 8 * w) (mdoc_windows sha sig item ssc sp ip cp)) = 3208"
  "length (mdoc_windows sha sig item ssc sp ip cp) = 10"
  "mdoc_windows sha sig item ssc sp ip cp ! 4 = (sig, device_key_pattern, sp, 85)"
  by (simp_all add: mdoc_windows_def device_key_pattern_def)

lemma mdoc_windows_ok:
  assumes "nym_pad sig b = Some sp" "nym_pad item b' = Some ip" "nym_pad ssc b'' = Some cp"
    and "window \<in> set (mdoc_windows sha sig item ssc sp ip cp)" "window_read window = Inr (offset, bits)"
  shows "window_ok window bits"
proof -
  obtain hay pat m w where win: "window = (hay, pat, m, w)" by (cases window)
  have "(hay, m) \<in> {(sig, sp), (item, ip), (ssc, cp)}" using assms(4) unfolding win by (auto simp: mdoc_windows_def)
  then have "take (length hay) m = hay" using nym_pad_prefix assms(1-3) by blast
  then show ?thesis using assms(5) unfolding win by (intro window_read_ok)
qed

lemma cred_semantic: "cred_ok (semantic_ok sha seed vi p) (semantic sha d seed vi p)"
  unfolding semantic_def Let_def
proof (rule cred_and_then [OF cred_issuer_auth], clarify, rule cred_and_then [OF cred_namespace_items], clarify)
  fix spaces sig and issuer_sig item ssc :: bytes
  assume issuer: "length issuer_sig = 64"
  show "cred_ok (semantic_ok sha seed vi p)
     (and_then (fit sig (pf_b_sig p) ''signed message'') (\<lambda>sp.
      and_then (fit item (pf_b_item p) ''birth_date item'') (\<lambda>ip.
      and_then (fit ssc (pf_b_ssc p) ''ssc item'') (\<lambda>cp.
      and_then (opt_res (credential ''seed does not fit one block'') (faces seed 1)) (\<lambda>seed_face.
      and_then (opt_res (credential ''nym message does not fit two blocks'') (faces (nym_message seed vi) 2)) (\<lambda>nym_faces.
      and_then (fold_res window_step (enumerate 0 (mdoc_windows sha sig item ssc sp ip cp))
         ((snd (faces_padded sp nym_iv) @ snd (faces_padded ip nym_iv) @ snd (faces_padded cp nym_iv)) @ seed_face @ nym_faces @
          concat (map (\<lambda>m. word_bits (of_nat (length m)) 16) [sig, item, ssc]), 0)) (\<lambda>(s, dk).
      and_then (opt_res (credential ''device key x out of range'') (get_range sig (dk + 18) (dk + 50))) (\<lambda>x.
      and_then (opt_res (credential ''device key y out of range'') (get_range sig (dk + 53) (dk + 85))) (\<lambda>y.
      Inr (s, \<lparr>pa_signed = sig, pa_issuer_sig = issuer_sig, pa_x = x, pa_y = y\<rparr>))))))))))"
    unfolding fit_def
  proof (rule cred_and_then [OF cred_opt], rule cred_and_then [OF cred_opt], rule cred_and_then [OF cred_opt],
      rule cred_and_then [OF cred_opt], rule cred_and_then [OF cred_opt], rule cred_and_then [OF cred_result [OF cred_windows]],
      clarify, rule cred_and_then [OF cred_opt], rule cred_and_then [OF cred_opt])
    fix sp ip cp seed_face nym_faces s dk x y
    assume pads: "nym_pad sig (pf_b_sig p) = Some sp" "nym_pad item (pf_b_item p) = Some ip" "nym_pad ssc (pf_b_ssc p) = Some cp"
      and fs: "faces seed 1 = Some seed_face" "faces (nym_message seed vi) 2 = Some nym_faces"
      and w: "fold_res window_step (enumerate 0 (mdoc_windows sha sig item ssc sp ip cp))
         ((snd (faces_padded sp nym_iv) @ snd (faces_padded ip nym_iv) @ snd (faces_padded cp nym_iv)) @ seed_face @ nym_faces @
          concat (map (\<lambda>m. word_bits (of_nat (length m)) 16) [sig, item, ssc]), 0) = Inr (s, dk)"
      and xy: "get_range sig (dk + 18) (dk + 50) = Some x" "get_range sig (dk + 53) (dk + 85) = Some y"
    note f = faces_of_pad [OF nym_pad_length [OF pads(1)]] faces_of_pad [OF nym_pad_length [OF pads(2)]]
      faces_of_pad [OF nym_pad_length [OF pads(3)]] faces_bits [OF fs(1)] faces_bits [OF fs(2)]
    note r = windows_read [OF w]
    have len: "length s = 6656 * (pf_b_sig p + pf_b_item p + pf_b_ssc p + 3) + 3256"
      using r(1) [unfolded mdoc_windows_widths] f by simp
    have bits: "set s \<subseteq> {0, 1}"
    proof (rule r(2))
      show "set ((snd (faces_padded sp nym_iv) @ snd (faces_padded ip nym_iv) @ snd (faces_padded cp nym_iv)) @ seed_face @ nym_faces @
          concat (map (\<lambda>m. word_bits (of_nat (length m)) 16) [sig, item, ssc])) \<subseteq> {0, 1}"
        using f word_bits_set by simp
    qed
    obtain parts where parts: "s = ((snd (faces_padded sp nym_iv) @ snd (faces_padded ip nym_iv) @ snd (faces_padded cp nym_iv)) @ seed_face @
          nym_faces @ concat (map (\<lambda>m. word_bits (of_nat (length m)) 16) [sig, item, ssc])) @ concat parts"
        "list_all2 (\<lambda>w bits. \<exists>offset. window_read w = Inr (offset, bits)) (mdoc_windows sha sig item ssc sp ip cp) parts"
      using windows_parts [OF w] by blast
    have ok: "list_all2 window_ok (mdoc_windows sha sig item ssc sp ip cp) parts"
      using parts(2) by (rule list.rel_mono_strong) (elim exE, rule mdoc_windows_ok [OF pads])
    have "find_bytes sig device_key_pattern = Some dk"
      using r(3) window_read_bits(3) [of sig device_key_pattern sp 85 dk] by (auto simp: mdoc_windows_widths)
    note key = device_key_parts [OF this xy]
    show "cred_ok (semantic_ok sha seed vi p) (Inr (s, \<lparr>pa_signed = sig, pa_issuer_sig = issuer_sig, pa_x = x, pa_y = y\<rparr>))"
      unfolding semantic_ok_def cred_ok_simps prod.case parsed.simps
      by (intro conjI len bits issuer key exI [of _ item] exI [of _ ssc] exI [of _ sp] exI [of _ ip] exI [of _ cp] exI [of _ seed_face]
          exI [of _ nym_faces] exI [of _ parts] pads fs ok) (use parts(1) in simp)
  qed
qed

end
