(* ===== verification/Claims_Credentials.thy ===== *)
theory Claims_Credentials
  imports Mdoc_Layout Nym_Mdoc
begin

text \<open>
  Properties of what the two applications put into the inputs of their circuits: the witness of SHA-256, the slots of the input
  vectors of \<open>mdoc_zk\<close>, and the profiles and semantic bits of \<open>nymauth\<close>.
\<close>

text \<open>
  C27: The witnessed computation of SHA-256 is the plain one. It succeeds exactly when the blocks of the circuit hold the padded
  input, with the digest and the padded blocks that the plain computation has, and it fills the whole witness: for every block of
  the input and of the zero padding the schedule, the words \<open>e\<close> and \<open>a\<close> after every round and the state after it, of the recurrence of
  FIPS 180-4, in plucked bits. The plucked bits of a list of words determine the words. The constants of the recurrence
  are the 32 bits after the point of the cube roots of the first 64 primes and of the square roots of the first eight.
\<close>

theorem sha_witness_is_reference:
  assumes "length witness = max_blocks * block_witness_length"
  shows "run_sha256_witnessed input witness max_blocks =
      (if (length input + 72) div 64 \<le> max_blocks
       then let padded = fst (pad_input input) @ replicate (64 * max_blocks - length (fst (pad_input input))) 0
            in Inr (\<lparr>sr_digest = run_sha256 input, sr_padded_input = padded, sr_num_blocks = (length input + 72) div 64\<rparr>,
                 chain_witness (as_chunks 64 padded) initial_hash_value)
       else Inl (Fail ''SHA-256 input was too long'')) \<and>
    (length vs = length ws \<longrightarrow> (pluck_words vs = pluck_words ws) = (vs = ws)) \<and>
    list_all2 (root_fraction 3) first_primes sha_k \<and>
    list_all2 (root_fraction 2) (take 8 first_primes) (state_list initial_hash_value)"
  using run_sha256_witnessed_eq [OF assms, of input] pluck_words_inj [of vs ws] sha_k_roots initial_hash_value_roots
  by (auto simp: padded_to_def padded_blocks_def Let_def)

theorem sha_witness_is_reference_witness:
  "\<exists>out. run_sha256_witnessed [97, 98, 99] (replicate block_witness_length 0) 1 =
    Inr (\<lparr>sr_digest = run_sha256 [97, 98, 99], sr_padded_input = fst (pad_input [97, 98, 99]), sr_num_blocks = 1\<rparr>, out)"
  using sha_witness_is_reference [of "replicate block_witness_length 0" 1 "[97, 98, 99]" "[]" "[]"]
  by (simp add: length_pad_input padded_blocks_def Let_def)

text \<open>
  C26: The slots of the input vectors of the two circuits. For every layout that the constructor allows, the functions that split
  an input slice by purpose accept exactly the slices of the computed length, so their assertions and conversions never fail on
  them; the parts they return have the lengths of their types and are the slice, without gaps, overlaps or reordering;
  and the public statement is split alike whether alone or as a part of all inputs.
\<close>

theorem input_slices_partition:
  assumes "layout_new version attributes = Inr L"
  shows "is_ok (split_signature_statement L xs) = (length xs = signature_statement_length L) \<and>
    (split_signature_statement L xs = Inr st) = (signature_statement_shape st \<and> xs = signature_statement_slots st) \<and>
    is_ok (split_signature_input L xs) = (length xs = signature_input_length L) \<and>
    (split_signature_input L xs = Inr s) = (signature_input_shape s \<and> xs = signature_input_slots s) \<and>
    (split_signature_input L xs = Inr s \<longrightarrow>
      split_signature_statement L (take (signature_statement_length L) xs) = Inr (si_statement s)) \<and>
    is_ok (split_hash_statement L ys) = (length ys = hash_statement_length L) \<and>
    (split_hash_statement L ys = Inr ht) = (hash_statement_shape L ht \<and> ys = hash_statement_slots ht) \<and>
    is_ok (split_hash_input L ys) = (length ys = hash_input_length L) \<and>
    (split_hash_input L ys = Inr h) = (hash_input_shape L h \<and> ys = hash_input_slots h) \<and>
    (split_hash_input L ys = Inr h \<longrightarrow>
      split_hash_statement L (take (hash_statement_length L) ys) = Inr (hi_statement h))"
proof -
  have L: "layout_ok L" using assms by (auto simp: layout_new_def layout_ok_def split: if_splits)
  note parts = hash_statement_partition [OF L] hash_input_partition [OF L]
  show ?thesis
  proof (intro conjI)
    show "split_signature_input L xs = Inr s \<longrightarrow> split_signature_statement L (take (signature_statement_length L) xs) = Inr (si_statement s)"
      using signature_statement_prefix by (rule impI)
    show "split_hash_input L ys = Inr h \<longrightarrow> split_hash_statement L (take (hash_statement_length L) ys) = Inr (hi_statement h)"
      using hash_statement_prefix [OF L] by (rule impI)
  qed (rule sig_statement.split_ok_iff sig_statement.split_iff sig_input.split_ok_iff sig_input.split_iff
      partition.split_ok_iff [OF parts(1)] partition.split_iff [OF parts(1)] partition.split_ok_iff [OF parts(2)]
      partition.split_iff [OF parts(2)])+
qed

theorem input_slices_partition_witness:
  "\<exists>L h. layout_new V8 2 = Inr L \<and> split_hash_input L (replicate (hash_input_length L) 0) = Inr h \<and>
     hash_input_slots h = replicate (hash_input_length L) 0"
proof -
  obtain L where l: "layout_new V8 2 = Inr L" by (simp add: layout_new_def)
  define ys where "ys = replicate (hash_input_length L) (0 :: gf128)"
  have "length ys = hash_input_length L" unfolding ys_def by (rule length_replicate)
  with input_slices_partition [OF l, of "[]" undefined undefined ys]
  have "is_ok (split_hash_input L ys)" by blast
  then obtain h where h: "split_hash_input L ys = Inr h" unfolding is_ok_iff by blast
  with input_slices_partition [OF l, of "[]" undefined undefined ys _ h] have "hash_input_slots h = ys" by metis
  with l h show ?thesis unfolding ys_def by blast
qed

text \<open>
  C29: A circuit build is usable exactly when the first entry of the table with its identifier (whatever the case of the letters)
  has a slot map that reads as a profile line of three numbers and runs of three, and the runs pair the private input slots of the
  hash circuit with the semantic bits, one to one and without remainder, while the counts leave room for everything the witness builder
  writes. The profile has the numbers of that entry and of its map, nothing else.
\<close>

theorem profiles_pair_slots_with_bits:
  assumes "\<forall>entry \<in> set entries. en_hash_ninputs entry < 2 ^ 64"
  shows "(for_hash_circuit entries circuit_id = Inr p) =
    (\<exists>entry b_sig b_item b_ssc runs.
       List.find (\<lambda>e. eq_ignore_ascii_case (en_hash_circuit_id e) circuit_id) entries = Some entry \<and>
       table_reads (en_map entry) b_sig b_item b_ssc runs \<and> p = table_profile entry b_sig b_item b_ssc runs \<and>
       distinct (run_slots runs) \<and> set (run_slots runs) = {pf_hash_npub p..<pf_hash_ninputs p - 6} \<and>
       distinct (run_bits runs) \<and> set (run_bits runs) = {..<pf_semantic_len p} \<and>
       10 \<le> pf_hash_npub p \<and> pf_hash_npub p + 6 \<le> pf_hash_ninputs p \<and> 1155 \<le> pf_sig_npub p \<and>
       pf_sig_npub p + 1536 + 2 * trace_len \<le> pf_sig_ninputs p)"
proof (cases "List.find (\<lambda>e. eq_ignore_ascii_case (en_hash_circuit_id e) circuit_id) entries")
  case (Some entry)
  then have "entry \<in> set entries" by (auto simp: find_Some_iff)
  with assms have small: "en_hash_ninputs entry < 2 ^ 64" by blast
  have runs: "pf_runs (table_profile entry b_sig b_item b_ssc runs) = runs" for b_sig b_item b_ssc runs
    by (simp add: table_profile_def)
  show ?thesis
    using build_profile_iff [OF small, of p] runs Some by (auto simp: for_hash_circuit_def profile_ok_def)
qed (simp add: for_hash_circuit_def)

definition small_entry :: profile_entry where
  "small_entry =
     \<lparr>en_hash_circuit_id = ascii ''5f8C'', en_sig_circuit_id = [], en_artifact_len = 0, en_artifact_sha256 = [],
      en_block_enc_hash = 6983, en_block_enc_sig = 4679, en_hash_ninputs = 26, en_hash_npub = 10, en_sig_ninputs = 4765,
      en_sig_npub = 1155,
      en_map = ascii ''profile 7 2 2'' @ [10] @ ascii ''slot_from'' @ [9] @ ascii ''sem_from'' @ [9] @ ascii ''len'' @ [10] @
        ascii ''10'' @ [9] @ ascii ''4'' @ [9] @ ascii ''6'' @ [10] @ ascii ''16'' @ [9] @ ascii ''0'' @ [9] @ ascii ''4'' @ [10]\<rparr>"

lemma small_entry_table: "table_reads (en_map small_entry) 7 2 2 [(10, 4, 6), (16, 0, 4)]"
proof -
  have "text_lines (en_map small_entry) = [ascii ''profile 7 2 2'', ascii ''slot_from'' @ [9] @ ascii ''sem_from'' @ [9] @ ascii ''len'',
      ascii ''10'' @ [9] @ ascii ''4'' @ [9] @ ascii ''6'', ascii ''16'' @ [9] @ ascii ''0'' @ [9] @ ascii ''4'']"
    by (simp add: text_lines_def Let_def strip_cr_def small_entry_def ascii_def)
  then show ?thesis
    by (simp add: table_reads_def split_whitespace_def ascii_space_def ascii_digit_def parse_usize_def digits_value_def ascii_def Let_def)
qed

lemma small_entry_profile:
  "for_hash_circuit [small_entry] (ascii ''5F8c'') = Inr (table_profile small_entry 7 2 2 [(10, 4, 6), (16, 0, 4)])"
proof -
  have "profile_ok (table_profile small_entry 7 2 2 [(10, 4, 6), (16, 0, 4)])"
    by (auto simp: profile_ok_def table_profile_def run_slots_def run_bits_def small_entry_def trace_len_def) presburger
  with build_profile_accepts [OF _ small_entry_table] show ?thesis
    by (simp add: for_hash_circuit_def eq_ignore_ascii_case_def ascii_lowercase_def small_entry_def ascii_def)
qed

theorem profiles_pair_slots_with_bits_witness:
  "\<exists>p. for_hash_circuit [small_entry] (ascii ''5F8c'') = Inr p \<and>
     set (run_slots (pf_runs p)) = {10..<20} \<and> set (run_bits (pf_runs p)) = {..<10}"
proof -
  let ?p = "table_profile small_entry 7 2 2 [(10, 4, 6), (16, 0, 4)]"
  have small: "\<forall>entry \<in> set [small_entry]. en_hash_ninputs entry < 2 ^ 64" by (simp add: small_entry_def)
  have "pf_hash_npub ?p = 10" "pf_hash_ninputs ?p = 26" "pf_semantic_len ?p = 10"
    by (simp_all add: table_profile_def small_entry_def)
  moreover have "set (run_slots (pf_runs ?p)) = {pf_hash_npub ?p..<pf_hash_ninputs ?p - 6} \<and> set (run_bits (pf_runs ?p)) = {..<pf_semantic_len ?p}"
    using profiles_pair_slots_with_bits [OF small, of "ascii ''5F8c''" ?p] small_entry_profile by (auto simp: table_profile_def)
  ultimately show ?thesis using small_entry_profile by (intro exI [of _ ?p]) simp
qed


end
