(* ===== verification/Spec2Isabelle.thy ===== *)
theory Spec2Isabelle
  imports Complex_Main Claims_Zk Claims_Fields Claims_Protocol Claims_Applications Claims_Credentials Sumcheck
begin

text \<open>
  A verification development for the Longfellow zero-knowledge proof system: an implementation of
  sumcheck with a Ligero commitment over circuits of layered quadratic gates. Paths below are
  relative to \<open>src/src\<close>.

  \<^bold>\<open>How the program works.\<close> A circuit (\<open>circuit.rs\<close>) is a list of layers, output layer first, each a list
  of quads: a gate index, two wire indices and a constant. A quad whose constant is 0 is an assertion
  on its gate. Evaluation computes the wires of all layers from the inputs, and checks the
  assertions. The sumcheck protocol (\<open>sumcheck/mod.rs\<close>) reduces the claim that all outputs are 0, layer by
  layer, to linear constraints on a padded witness vector (\<open>witness.rs\<close>); one function,
  \<open>run_protocol\<close>, plays both the prover, which writes a proof, and the verifier, which reads it. It
  works on dense arrays (\<open>sumcheck/bind/mod.rs\<close>) and a sparse array (\<open>sumcheck/bind/sparse.rs\<close>) that are bound, one
  variable per round, to challenges drawn from a Fiat-Shamir transcript (\<open>transcript.rs\<close>). Symbolic
  expressions (\<open>sumcheck/constraints/mod.rs\<close>) keep track of the claim as a term over the witness. Ligero (\<open>ligero\<close>) commits
  to the witness before: \<open>ligero/tableau.rs\<close> lays it out in rows, blinds and extends them with a Reed-Solomon code
  (\<open>fields/extend_p.rs\<close> on the number theoretic transform of \<open>fields/ntt.rs\<close>) and hashes the columns in a Merkle tree
  (\<open>ligero/merkle.rs\<close>); \<open>ligero/prover.rs\<close> answers three tests and opens columns, \<open>ligero/verifier.rs\<close> checks them.
  \<open>zk_one_circuit\<close> composes all of it into a prover, a verifier and a proof format. Two applications are built on it:
  \<open>mdoc_zk\<close> proves statements about signed mobile documents, for which it needs SHA-256 and ECDSA computed in a form a circuit can
  check (\<open>mdoc_zk/sha256.rs\<close>, \<open>mdoc_zk/ec.rs\<close>) and written into the input vectors of two circuits (\<open>mdoc_zk/layout.rs\<close>, \<open>mdoc_zk/bit_plucker.rs\<close>),
  and \<open>nymauth\<close> proves possession of a credential under a pseudonym: it walks CBOR
  (\<open>nymauth/cbor.rs\<close>), derives the challenge of a request (\<open>nymauth/challenge.rs\<close>), reads circuits in its own container
  (\<open>nymauth/lfc2.rs\<close>), records the intermediate values of hashing and of a signature check (\<open>nymauth/sha.rs\<close>, \<open>nymauth/ecdsa.rs\<close>), computes
  the bits of a credential that a circuit needs (\<open>nymauth/mdoc.rs\<close>) and knows which slots they go to (\<open>nymauth/profile.rs\<close>).

  \<^bold>\<open>Theories.\<close>
  \<^item> \<open>Prelude\<close>: errors as values (\<open>Fail\<close> for an error of the source, \<open>Panic\<close>, \<open>Diverges\<close> for a sampling loop
    that does not end), sequencing, folds, little-endian bytes, usize subtraction. \<open>Vectors\<close>: slices, chunks, dot products.
  \<^item> \<open>Codec\<close>: \<open>lib.rs\<close>; the contract of every wire format is the locale \<open>codec\<close> (round trip and
    consumption of a prefix) with \<open>fixed_codec\<close> for encodings of fixed length.
  \<^item> \<open>Field_Element\<close>, \<open>Addition_Chains\<close>, \<open>Ntt\<close>, \<open>Extend_P\<close>, \<open>Field_P128\<close>: the field traits of \<open>fields/mod.rs\<close> as a dictionary
    record over a commutative ring (locales \<open>field_codec\<close> and \<open>sumcheck_field\<close> state their laws), the five generated
    addition chains, the transform, the extension, and the 128-bit field, which satisfies both locales.
  \<^item> \<open>Polynomials\<close>, \<open>Extend_Lagrange\<close>: the transform evaluates and turns products into convolutions, and the extension is Lagrange
    interpolation at \<open>0, 1, 2, ...\<close> in every field with transforms (locale \<open>ntt_field\<close>). \<open>Rs_Code\<close>: what Ligero asks of the
    extension, the locale \<open>reed_solomon\<close>, which a field whose extension interpolates at distinct points satisfies. \<open>P128_Code\<close>: the 128-bit
    modulus has no small divisors (Proth's argument, evaluated in the kernel), so the residues are a field and the addition chain is its
    inversion; every \<open>ntt_field\<close> is a \<open>reed_solomon\<close>, and the 128-bit field is the instance.
  \<^item> GF(2^128), \<open>fields/field2_128\<close>. \<open>Gf_Ring\<close>: words as polynomials modulo \<open>x ^ 128 + x ^ 7 + x ^ 2 + x + 1\<close>, with products of literals that
    the kernel evaluates. \<open>Gf_Backends\<close>: the bit-slicing, x86 and AArch64 multiplications and squares, and the cached feature flag, calls of
    several threads as interleaved atomic steps; \<open>Gf_Clmul\<close>: each backend is the product of the ring. \<open>Gf_Field\<close>: the ring is a field, from the
    iterated squares of \<open>x\<close>, and the addition chain is its inversion. \<open>Gf_Subfield\<close>: injection and projection, the table of twiddle factors and
    the recurrence it satisfies. \<open>Gf_Extend\<close>: the additive transforms and \<open>interpolate\<close>; \<open>Gf_Transform\<close>, \<open>Gf_Interpolate\<close>: they evaluate and
    interpolate polynomials at the injected integers, for up to \<open>2 ^ 16\<close> of them. \<open>Field_Gf\<close>: the dictionary, which satisfies all the locales.
  \<^item> P-256, \<open>fields/fieldp256\<close>, \<open>fields/fieldp256_scalar\<close>, \<open>fields/fieldp256_2.rs\<close>. \<open>Pocklington\<close>: primality from elements of prime order, with powers that
    are checked by given quotients; \<open>P256_Prime\<close>, \<open>P256_Scalar_Prime\<close>: the certificates of the two moduli. \<open>Residues\<close>: the interface of residues
    modulo a prime, with inverses and codec. \<open>Field_P256\<close>, \<open>Field_P256_Scalar\<close>: its instances, with square roots and scalars from digests.
    \<open>P256_Code\<close>: the extension by a root of minus one and its roots of unity, the dictionary, and the extension of codewords through the
    quadratic extension.
  \<^item> \<open>Bind\<close>, \<open>Sparse\<close>, \<open>Sparse_Order\<close>: the arrays of sumcheck, what their bindings denote, and the order
    that makes the last sparse array a single element.
  \<^item> \<open>Circuit\<close> with \<open>Circuit_Eval\<close>: circuits, their format, their evaluation and invariants.
  \<^item> \<open>Merkle\<close>, \<open>Transcript\<close> with \<open>Transcript_Proofs\<close>, \<open>Witness\<close>, \<open>Constraints\<close>: each with what is proved of it.
  \<^item> \<open>Sumcheck\<close>: both roles of the protocol and the proof codec. \<open>Sumcheck_Roles\<close>: the roles agree. \<open>Sumcheck_Complete\<close>: the
    invariants of rounds and layers, and that the honest witness satisfies all constraints.
    \<open>Divergence\<close> and \<open>Sumcheck_Total\<close>: the prover reaches no panic and no error. \<open>Sumcheck_Range\<close>: its constraints
    stay within the witness.
  \<^item> \<open>Ligero_Tableau\<close>, \<open>Ligero_Verifier\<close>: the operations of the tableau, the prover and the verifier. \<open>Ligero_Rows\<close>: every row that is built is a
    codeword holding its part of the witness, and the inner product vector. \<open>Ligero_Complete\<close> and \<open>Ligero_Accept\<close>: each of the
    verifier's checks passes on the honest proof, and committing and proving reach no panic. \<open>Ligero_Format\<close>: the proof codec
    with its runs, and that honest proofs have the shape it needs.
  \<^item> \<open>Zk_One_Circuit\<close>, \<open>Zk_Wire\<close>: the composed proof system, its format, and honest proofs over the wire.
  \<^item> \<open>Demo\<close>: a concrete circuit over the 128-bit field and concrete primitives, at which the theorems about the protocol are applied.
  \<^item> \<open>Sha256\<close>: \<open>mdoc_zk/sha256.rs\<close> beside the compression function of the standard, its padding, and the trace of \<open>nymauth/sha.rs\<close>, whose last
    states are that digest. \<open>Ec\<close>: points, encodings and the witness of the triple scalar multiplication of \<open>mdoc_zk/ec.rs\<close>.
    \<open>Nym_Ecdsa\<close>: the numbers, points and trace of \<open>nymauth/ecdsa.rs\<close>; its curve is the curve of \<open>mdoc_zk\<close>, and its ladder the same ladder.
  \<^item> \<open>Nym_Cbor\<close>: the walker of \<open>nymauth/cbor.rs\<close> and the grammar of what it accepts. \<open>Nym_Challenge\<close>: challenges, and what a
    digest binds. \<open>Nym_Lfc2\<close>: the container of circuits, its conversion, and what is read back from it.
  \<^item> \<open>Mdoc_Sha\<close>: the bit plucker and the witnessed SHA-256 of \<open>mdoc_zk\<close>, which is the plain one, with the constants of the standard from
    the roots of primes. \<open>Mdoc_Layout\<close>: the lengths of the input vectors and their splitting by purpose; the locale \<open>partition\<close> says that
    a function accepts exactly the slices of a length and returns records whose slots are the slice.
  \<^item> \<open>Nym_Profile\<close>: the table of circuit builds; an accepted slot map pairs private slots and semantic bits one to one. \<open>Nym_Mdoc\<close>: the
    semantic bits of a credential, and that every failure on the way is an error about the credential.
  \<^item> \<open>Claims_Zk\<close>, \<open>Claims_Fields\<close>, \<open>Claims_Protocol\<close>, \<open>Claims_Applications\<close>, \<open>Claims_Credentials\<close> and this theory: the properties.

  \<^bold>\<open>Modelling.\<close> A reader is the list of the bytes left and a writer returns the bytes it appends. \<open>usize\<close> is
  \<open>nat\<close>, with subtraction written with its wrap-around (64-bit release build) where the source does not
  check; \<open>Size\<close> is a 32-bit word, wire interleaving is on 64- and 128-bit words. SHA-256 and the AES-256 block
  function are parameters (record \<open>crypto\<close>), of which nothing is assumed but, for the soundness of Merkle
  proofs and for the formats, the output length. Random number generators are functions on a state. The rejection
  sampling loops are partial functions, so that not returning is a value: the completeness theorems show
  it to be the only way in which an honest prover can fail to return a proof. The loop that reads the runs of
  a Ligero proof is a partial function too, and \<open>run_reader_terminates\<close> shows that it always ends. No fuel is used.
  Ligero parameters are those of \<open>parameters_ok\<close>: block size the sum of requested columns and witnesses per row, at least
  one witness and one quadratic constraint per row, more columns than \<open>dblock\<close> leaves open, and
  no more than the code supports (\<open>2 ^ 31\<close> for the 128-bit field and P-256, \<open>2 ^ 16\<close> for GF(2^128)).
  \<open>nymauth\<close> calls SHA-256 of a library: it is a parameter there, while \<open>mdoc_zk\<close> and the traces have their own. Unbounded integers
  are \<open>nat\<close>. Statements about digests do not assume that SHA-256 is injective: they exhibit two inputs that collide (\<open>collides\<close>).
  The invariants of circuits are those of the checker in \<open>circuit.rs\<close> (\<open>layer_invariants\<close>). Completeness asks for more than it
  checks: \<open>layer_dims\<close>, that every layer has a quad and that its \<open>logw\<close> is the logarithm of its width, is a part of \<open>proper_circuit\<close> and
  the condition of \<open>prover_total\<close>, which also shows that the prover needs it up to a smaller \<open>logw\<close>. Allocation does not fail.
  The instructions for carry-less products are what their manuals say (\<open>carryless\<close>), and what the processor supports is the parameter of
  \<open>galois_multiply\<close> and \<open>get_step\<close>.

  \<^bold>\<open>Not modelled.\<close> The fiat-crypto routines and the Montgomery form (generated and verified by their generator);
  of \<open>mdoc_zk\<close> the reading of credentials, the filling of the circuits' inputs from them, the prover and the verifier; of \<open>nymauth\<close>
  the prover and the verifier that join two circuits; wiping of memory; foreign
  interfaces, tests and binaries. The prover's scratch buffers carry no information between uses
  and are not part of the state. Soundness of the interactive proof in the probabilistic sense is
  not stated.
\<close>

text \<open>
  C5: An honest prover produces constraints that its witness satisfies: whatever the challenges, the
  linear constraints of the sumcheck run over an evaluated circuit hold for the padded witness vector.
\<close>

theorem honest_constraints_hold:
  assumes "sumcheck_field F" "evaluate c inputs = Inr ev" "c_num_layers c = length (c_layers c)"
    and "length (c_layers c) < 2 ^ 64" "c_num_inputs c < 2 ^ 64"
    and "\<forall>i < length (c_layers c). q_z_disjoint c (c_layers c ! i)"
    and "ev_private_inputs (c_num_public_inputs c) ev = Inr priv"
    and "fill_witness (layout_from_circuit c) priv pad_generator g = (w, g')"
    and "sumcheck_prove C F c ev w t = Inr (pf, lc, t')"
  shows "linear_constraints_hold (nth (w_values w)) lc"
  by (rule sumcheck_field.prove_constraints_hold [OF assms])

theorem honest_constraints_hold_witness:
  "\<exists>pf lc t'. sumcheck_prove demo_crypto p128_ops demo_circuit demo_evaluation demo_witness
     demo_transcript = Inr (pf, lc, t') \<and> linear_constraints_hold (nth (w_values demo_witness)) lc"
proof -
  obtain pf lc t' where p: "sumcheck_prove demo_crypto p128_ops demo_circuit demo_evaluation demo_witness
     demo_transcript = Inr (pf, lc, t')" using demo_prove by blast
  with honest_constraints_hold [OF p128_sumcheck.sumcheck_field_axioms demo_evaluate demo_circuit_facts(1,3,4,9)
      demo_private demo_fill p] show ?thesis by blast
qed

text \<open>
  C6: On the honest prover's proof the verifier derives the same linear constraints and leaves the
  transcript in the same state, so both roles draw the same challenges afterwards.
\<close>

theorem verifier_derives_prover_constraints:
  assumes "sumcheck_prove C F c ev w t = Inr (pf, lc, t')" "w_layout w = layout_from_circuit c"
    and "ev_public_inputs (c_num_public_inputs c) ev = Inr pub"
  shows "sumcheck_linear_constraints C F c pub pf t = Inr (lc, t')"
  by (rule prove_then_linear_constraints [OF assms])

theorem verifier_derives_prover_constraints_witness:
  "\<exists>pf lc t'. sumcheck_prove demo_crypto p128_ops demo_circuit demo_evaluation demo_witness
     demo_transcript = Inr (pf, lc, t') \<and>
     sumcheck_linear_constraints demo_crypto p128_ops demo_circuit [1] pf demo_transcript = Inr (lc, t')"
proof -
  obtain pf lc t' where p: "sumcheck_prove demo_crypto p128_ops demo_circuit demo_evaluation demo_witness
     demo_transcript = Inr (pf, lc, t')" using demo_prove by blast
  have "w_layout demo_witness = layout_from_circuit demo_circuit" by (simp add: demo_witness_def)
  from p verifier_derives_prover_constraints [OF p this demo_public] show ?thesis by blast
qed



text \<open>
  C36: The wire format of a sumcheck proof has exactly one encoding for every proof of the shape of the circuit: the decoder
  returns a proof and the rest of its input if and only if the proof has that shape and the bytes it consumed are the encoding
  of the proof.
\<close>

theorem sumcheck_proof_roundtrip:
  assumes "field_codec F"
  shows "(sumcheck_proof_decode F c input = Inr (pf, rest)) =
    (proof_shape c pf \<and> (\<exists>bs. sumcheck_proof_encode F c pf = Inr bs \<and> input = bs @ rest))"
  by (rule field_codec.sumcheck_proof_decode_iff [OF assms])

theorem sumcheck_proof_roundtrip_witness:
  "\<exists>bs. sumcheck_proof_encode p128_ops small_circuit (empty_proof small_circuit) = Inr bs \<and>
    sumcheck_proof_decode p128_ops small_circuit (bs @ [7]) = Inr (empty_proof small_circuit, [7])"
proof -
  have s: "proof_shape small_circuit (empty_proof small_circuit)"
    by (simp add: proof_shape_def empty_proof_def layer_shape_def small_circuit_def)
  have "is_ok (sumcheck_proof_encode p128_ops small_circuit (empty_proof small_circuit))"
    by (simp add: sumcheck_proof_encode_def empty_proof_def small_circuit_def proof_layer_encode_def
        fe_encode_def)
  then obtain bs where "sumcheck_proof_encode p128_ops small_circuit (empty_proof small_circuit) = Inr bs"
    by (auto simp: is_ok_iff)
  with s show ?thesis using sumcheck_proof_roundtrip [OF p128.field_codec_axioms] by blast
qed

end
